(* ===== verification/Prelude.thy ===== *)
theory Prelude
  imports Main
begin

text \<open>
  The part every component theory shares: the results of fallible operations, Python's
  small helpers on strings and dictionaries, and relational tables as lists of rows with
  the four statements the repository's SQL uses on them (first matching row, UPDATE,
  DELETE, INSERT) together with the facts about keys that the component proofs need.
\<close>

section \<open>Automation\<close>

named_theorems table_simps \<open>lookup and row counts after a statement on a keyed table\<close>
named_theorems keyed_intros \<open>statements keep a key column free of duplicates\<close>

section \<open>Tables\<close>

text \<open>
  A table is the list of its rows in insertion order. \<open>row_by key x t\<close> is the row that
  \<open>SELECT ... WHERE key = x\<close> returns first, \<open>rows_where\<close> the rows of a SELECT,
  \<open>update_where\<close> and \<open>delete_where\<close> the effect of an UPDATE and a DELETE, and
  \<open>count_where\<close> the row count the cursor reports for either.
\<close>

definition row_by :: "('r \<Rightarrow> 'k) \<Rightarrow> 'k \<Rightarrow> 'r list \<Rightarrow> 'r option" where
  "row_by key x t = find (\<lambda>r. key r = x) t"

definition update_where :: "('r \<Rightarrow> bool) \<Rightarrow> ('r \<Rightarrow> 'r) \<Rightarrow> 'r list \<Rightarrow> 'r list" where
  "update_where P f t = map (\<lambda>r. if P r then f r else r) t"

definition delete_where :: "('r \<Rightarrow> bool) \<Rightarrow> 'r list \<Rightarrow> 'r list" where
  "delete_where P t = filter (\<lambda>r. \<not> P r) t"

definition count_where :: "('r \<Rightarrow> bool) \<Rightarrow> 'r list \<Rightarrow> nat" where
  "count_where P t = length (filter P t)"

definition keyed :: "('r \<Rightarrow> 'k) \<Rightarrow> 'r list \<Rightarrow> bool" where
  "keyed key t \<longleftrightarrow> distinct (map key t)"

lemma row_by_Nil [simp]: "row_by key x [] = None"
  by (simp add: row_by_def)

lemma row_by_Cons [simp]:
  "row_by key x (r # t) = (if key r = x then Some r else row_by key x t)"
  by (simp add: row_by_def)

lemma row_by_append:
  "row_by key x (t @ u) = (case row_by key x t of None \<Rightarrow> row_by key x u | Some r \<Rightarrow> Some r)"
  by (induction t) auto

lemma row_by_None_iff: "row_by key x t = None \<longleftrightarrow> x \<notin> key ` set t"
  by (induction t) auto

lemma row_by_SomeD: "row_by key x t = Some r \<Longrightarrow> r \<in> set t \<and> key r = x"
  by (induction t) (auto split: if_splits)

lemma row_by_in_keyed: "keyed key t \<Longrightarrow> r \<in> set t \<Longrightarrow> row_by key (key r) t = Some r"
  by (induction t) (auto simp: keyed_def)

lemma row_by_update_where [table_simps]:
  "(\<And>r. key (f r) = key r) \<Longrightarrow>
   row_by key x (update_where P f t) = map_option (\<lambda>r. if P r then f r else r) (row_by key x t)"
  by (induction t) (auto simp: update_where_def)

lemma keyed_Nil [simp]: "keyed key []"
  by (simp add: keyed_def)

lemma keyed_update_where [keyed_intros]:
  "(\<And>r. key (f r) = key r) \<Longrightarrow> keyed key t \<Longrightarrow> keyed key (update_where P f t)"
  by (simp add: keyed_def update_where_def comp_def if_distrib cong: if_cong)

lemma keyed_delete_where [keyed_intros]: "keyed key t \<Longrightarrow> keyed key (delete_where P t)"
  by (simp add: keyed_def delete_where_def distinct_map_filter)

lemma keyed_insert [keyed_intros]:
  "keyed key t \<Longrightarrow> row_by key (key r) t = None \<Longrightarrow> keyed key (t @ [r])"
  by (auto simp: keyed_def row_by_None_iff)

lemma row_by_delete_where [table_simps]:
  "keyed key t \<Longrightarrow>
   row_by key x (delete_where P t) =
     (case row_by key x t of None \<Rightarrow> None | Some r \<Rightarrow> if P r then None else Some r)"
proof (induction t)
  case (Cons r t)
  then have none: "row_by key (key r) t = None"
    by (auto simp: row_by_None_iff keyed_def)
  have IH: "row_by key x (delete_where P t) =
      (case row_by key x t of None \<Rightarrow> None | Some r \<Rightarrow> if P r then None else Some r)"
    using Cons by (simp add: keyed_def)
  show ?case
    using IH none by (cases "key r = x") (auto simp: delete_where_def)
qed (simp add: delete_where_def)

lemma set_delete_where: "set (delete_where P t) = {r \<in> set t. \<not> P r}"
  by (auto simp: delete_where_def)

lemma set_update_where: "set (update_where P f t) = (\<lambda>r. if P r then f r else r) ` set t"
  by (simp add: update_where_def)

lemma update_where_mem: "r \<in> set (update_where P f t) \<Longrightarrow> \<exists>y \<in> set t. r = (if P y then f y else y)"
  unfolding set_update_where by (erule imageE) blast

lemma keys_update_where:
  "(\<And>r. key (f r) = key r) \<Longrightarrow> key ` set (update_where P f t) = key ` set t"
  by (induction t) (auto simp: update_where_def)

lemma delete_where_none: "(\<And>r. r \<in> set t \<Longrightarrow> \<not> P r) \<Longrightarrow> delete_where P t = t"
  by (simp add: delete_where_def)

lemma update_where_none: "(\<And>r. r \<in> set t \<Longrightarrow> \<not> P r) \<Longrightarrow> update_where P f t = t"
  by (simp add: update_where_def map_idI)

lemma count_where_by [table_simps]:
  "keyed key t \<Longrightarrow>
   count_where (\<lambda>r. key r = x \<and> Q r) t =
     (case row_by key x t of None \<Rightarrow> 0 | Some r \<Rightarrow> if Q r then 1 else 0)"
proof (induction t)
  case (Cons r t)
  have none: "row_by key (key r) t = None"
    using Cons.prems by (auto simp: row_by_None_iff keyed_def)
  show ?case
  proof (cases "key r = x")
    case True
    have "filter (\<lambda>r. key r = x \<and> Q r) t = []"
      using none True unfolding filter_empty_conv row_by_None_iff by blast
    with True show ?thesis by (simp add: count_where_def)
  next
    case False
    with Cons show ?thesis by (simp add: count_where_def keyed_def)
  qed
qed (simp add: count_where_def)

lemma count_where_by1 [table_simps]:
  "keyed key t \<Longrightarrow>
   count_where (\<lambda>r. key r = x) t = (case row_by key x t of None \<Rightarrow> 0 | Some r \<Rightarrow> 1)"
  using count_where_by [of key t x "\<lambda>_. True"] by (simp split: option.splits)

lemma count_where_keyed:
  assumes "keyed key t" "\<And>r. P r \<Longrightarrow> key r = x"
  shows "count_where P t = (case row_by key x t of None \<Rightarrow> 0 | Some r \<Rightarrow> if P r then 1 else 0)"
proof -
  have "P = (\<lambda>r. key r = x \<and> P r)" using assms(2) by auto
  then have "count_where P t = count_where (\<lambda>r. key r = x \<and> P r) t" by simp
  also have "\<dots> = (case row_by key x t of None \<Rightarrow> 0 | Some r \<Rightarrow> if P r then 1 else 0)"
    by (rule count_where_by [OF assms(1)])
  finally show ?thesis .
qed

lemma count_where_0_iff: "count_where P t = 0 \<longleftrightarrow> (\<forall>r \<in> set t. \<not> P r)"
  by (simp add: count_where_def filter_empty_conv)

section \<open>Association lists with Python's dictionary order\<close>

text \<open>
  A Python dictionary keeps its keys in insertion order; assigning to a present key keeps
  its place, a new key goes last. \<open>collections.OrderedDict.move_to_end\<close> moves a key to
  the end (or, with \<open>last=False\<close>, to the front).
\<close>

fun dict_set :: "'k \<Rightarrow> 'v \<Rightarrow> ('k \<times> 'v) list \<Rightarrow> ('k \<times> 'v) list" where
  "dict_set k v [] = [(k, v)]"
| "dict_set k v ((k', v') # d) = (if k' = k then (k, v) # d else (k', v') # dict_set k v d)"

definition dict_del :: "'k \<Rightarrow> ('k \<times> 'v) list \<Rightarrow> ('k \<times> 'v) list" where
  "dict_del k d = filter (\<lambda>e. fst e \<noteq> k) d"

definition has_key :: "'k \<Rightarrow> ('k \<times> 'v) list \<Rightarrow> bool" where
  "has_key k d \<longleftrightarrow> k \<in> set (map fst d)"

lemma map_of_dict_set [simp]: "map_of (dict_set k v d) = (map_of d)(k \<mapsto> v)"
  by (induction d) (auto simp: fun_eq_iff)

lemma keys_dict_set: "set (map fst (dict_set k v d)) = insert k (set (map fst d))"
proof (induction d)
  case (Cons e d)
  have "map fst (dict_set k v (e # d)) =
      (if fst e = k then k # map fst d else fst e # map fst (dict_set k v d))"
    by (cases e) simp
  with Cons show ?case by auto
qed simp

lemma distinct_dict_set [intro]: "distinct (map fst d) \<Longrightarrow> distinct (map fst (dict_set k v d))"
proof (induction d)
  case (Cons e d)
  then show ?case using keys_dict_set [of k v d] by (cases e) auto
qed simp

lemma length_dict_set:
  "length (dict_set k v d) = (if has_key k d then length d else Suc (length d))"
  unfolding has_key_def by (induction d) force+

lemma map_of_dict_del [simp]: "map_of (dict_del k d) = (map_of d)(k := None)"
  by (induction d) (auto simp: fun_eq_iff dict_del_def)

lemma distinct_dict_del [intro]: "distinct (map fst d) \<Longrightarrow> distinct (map fst (dict_del k d))"
  by (simp add: dict_del_def distinct_map_filter)

lemma keys_dict_del: "set (map fst (dict_del k d)) = set (map fst d) - {k}"
  by (auto simp: dict_del_def)

lemma length_dict_del_le: "length (dict_del k d) \<le> length d"
  by (simp add: dict_del_def)

lemma length_dict_del:
  "distinct (map fst d) \<Longrightarrow> has_key k d \<Longrightarrow> length (dict_del k d) = length d - 1"
proof (induction d)
  case (Cons e d)
  show ?case
  proof (cases "fst e = k")
    case True
    with Cons.prems have "filter (\<lambda>e. fst e \<noteq> k) d = d"
      by (auto intro!: filter_True simp: image_iff)
    with True show ?thesis by (simp add: dict_del_def)
  next
    case False
    with Cons.prems have "d \<noteq> []" "has_key k d"
      by (auto simp: has_key_def)
    moreover from this have "length (dict_del k d) = length d - 1"
      using Cons by simp
    ultimately show ?thesis
      using False by (cases d) (auto simp: dict_del_def)
  qed
qed (simp add: has_key_def)

section \<open>Strings\<close>

text \<open>Python's \<open>s in t\<close> on strings, \<open>str.lower\<close> on ASCII letters, and slices from the start.\<close>

fun is_prefix :: "'a list \<Rightarrow> 'a list \<Rightarrow> bool" where
  "is_prefix [] ys = True"
| "is_prefix (x # xs) [] = False"
| "is_prefix (x # xs) (y # ys) = (x = y \<and> is_prefix xs ys)"

fun is_infix :: "'a list \<Rightarrow> 'a list \<Rightarrow> bool" where
  "is_infix xs [] = (xs = [])"
| "is_infix xs (y # ys) = (is_prefix xs (y # ys) \<or> is_infix xs ys)"

lemma is_prefix_iff: "is_prefix xs ys \<longleftrightarrow> (\<exists>zs. ys = xs @ zs)"
  by (induction xs ys rule: is_prefix.induct) auto

lemma is_infix_iff: "is_infix xs ys \<longleftrightarrow> (\<exists>us vs. ys = us @ xs @ vs)"
proof (induction ys)
  case (Cons y ys)
  show ?case
  proof
    assume "is_infix xs (y # ys)"
    then consider "is_prefix xs (y # ys)" | "is_infix xs ys" by auto
    then show "\<exists>us vs. y # ys = us @ xs @ vs"
    proof cases
      case 1
      then obtain zs where "y # ys = [] @ xs @ zs" by (auto simp: is_prefix_iff)
      then show ?thesis by blast
    next
      case 2
      with Cons.IH obtain us vs where "y # ys = (y # us) @ xs @ vs" by auto
      then show ?thesis by blast
    qed
  next
    assume "\<exists>us vs. y # ys = us @ xs @ vs"
    then obtain us vs where e: "y # ys = us @ xs @ vs" by blast
    show "is_infix xs (y # ys)"
    proof (cases us)
      case Nil
      with e have "is_prefix xs (y # ys)" by (simp add: is_prefix_iff)
      then show ?thesis by simp
    next
      case (Cons u us')
      with e Cons.IH have "is_infix xs ys" by auto
      then show ?thesis by simp
    qed
  qed
qed auto

definition lower_char :: "char \<Rightarrow> char" where
  "lower_char c = (let n = of_char c :: nat in if 65 \<le> n \<and> n \<le> 90 then char_of (n + 32) else c)"

definition py_lower :: "string \<Rightarrow> string" where
  "py_lower s = map lower_char s"

text \<open>\<open>str.split()\<close> and \<open>str.strip()\<close> on white space, and the substrings of a string.\<close>

definition is_space :: "char \<Rightarrow> bool" where
  "is_space c \<longleftrightarrow> (let n = of_char c :: nat in
     (9 \<le> n \<and> n \<le> 13) \<or> (28 \<le> n \<and> n \<le> 32) \<or> n = 133 \<or> n = 160)"

definition first_word :: "string \<Rightarrow> string" where
  "first_word s = takeWhile (\<lambda>c. \<not> is_space c) (dropWhile is_space s)"

definition py_strip :: "string \<Rightarrow> string" where
  "py_strip s = rev (dropWhile is_space (rev (dropWhile is_space s)))"

definition py_or :: "string \<Rightarrow> string \<Rightarrow> string" where
  "py_or x y = (if x = [] then y else x)"

definition opt_or :: "string option \<Rightarrow> string \<Rightarrow> string" where
  "opt_or x y = (case x of None \<Rightarrow> y | Some v \<Rightarrow> py_or v y)"

definition get_default :: "'a option \<Rightarrow> 'a \<Rightarrow> 'a" where
  "get_default x y = (case x of None \<Rightarrow> y | Some v \<Rightarrow> v)"

text \<open>\<open>str\<close> of an integer.\<close>

fun digits_of :: "nat \<Rightarrow> nat \<Rightarrow> string" where
  "digits_of 0 n = []"
| "digits_of (Suc k) n =
     (if n < 10 then [char_of (48 + n)] else digits_of k (n div 10) @ [char_of (48 + n mod 10)])"

definition py_str_int :: "int \<Rightarrow> string" where
  "py_str_int i = (if i < 0 then CHR ''-'' # digits_of (nat (- i) + 1) (nat (- i))
                   else digits_of (nat i + 1) (nat i))"

definition digits_value :: "string \<Rightarrow> nat" where
  "digits_value s = foldl (\<lambda>n c. 10 * n + (of_char c - 48)) 0 s"

lemma of_char_digit: "n < 10 \<Longrightarrow> (of_char (char_of (48 + n) :: char) :: nat) = 48 + n"
  by (simp add: of_char_of)

lemma digits_value_digits: "n < 10 ^ k \<Longrightarrow> digits_value (digits_of k n) = n"
proof (induction k arbitrary: n)
  case (Suc k)
  show ?case
  proof (cases "n < 10")
    case True
    then show ?thesis by (simp add: digits_value_def of_char_digit)
  next
    case False
    have "n div 10 < 10 ^ k" using Suc.prems by (simp add: less_mult_imp_div_less)
    from Suc.IH [OF this] False show ?thesis
      by (simp add: digits_value_def of_char_digit)
  qed
qed (simp add: digits_value_def)

lemma less_pow10: "n < 10 ^ (n + 1)" for n :: nat
proof -
  have "n < 2 ^ n" by (rule less_exp)
  also have "(2::nat) ^ n \<le> 10 ^ n" by (rule power_mono) simp_all
  also have "(10::nat) ^ n \<le> 10 ^ (n + 1)" by (rule power_increasing) simp_all
  finally show ?thesis .
qed

lemma digits_of_chars: "c \<in> set (digits_of k n) \<Longrightarrow> 48 \<le> (of_char c :: nat) \<and> (of_char c :: nat) < 58"
proof (induction k arbitrary: n)
  case (Suc k)
  then show ?case by (auto simp: of_char_digit split: if_splits)
qed simp

lemma py_str_int_chars:
  "c \<in> set (py_str_int i) \<Longrightarrow> c = CHR ''-'' \<or> 48 \<le> (of_char c :: nat) \<and> (of_char c :: nat) < 58"
  using digits_of_chars by (auto simp: py_str_int_def split: if_splits)

lemma py_str_int_inj: "py_str_int i = py_str_int j \<Longrightarrow> i = j"
proof -
  assume e: "py_str_int i = py_str_int j"
  have digits: "digits_value (digits_of (n + 1) n) = n" for n
    by (rule digits_value_digits [OF less_pow10])
  have nodash: "digits_of (n + 1) n \<noteq> CHR ''-'' # s" for n s
  proof
    assume "digits_of (n + 1) n = CHR ''-'' # s"
    then have "CHR ''-'' \<in> set (digits_of (n + 1) n)" by simp
    from digits_of_chars [OF this] show False by simp
  qed
  have split_str: "py_str_int k = (if k < 0 then CHR ''-'' # digits_of (nat (- k) + 1) (nat (- k))
      else digits_of (nat k + 1) (nat k))" for k
    by (simp add: py_str_int_def del: digits_of.simps)
  show ?thesis
  proof (cases "i < 0")
    case True
    have "j < 0"
    proof (rule ccontr)
      assume "\<not> j < 0"
      with e True have "digits_of (nat j + 1) (nat j) = CHR ''-'' # digits_of (nat (- i) + 1) (nat (- i))"
        unfolding split_str by (simp del: digits_of.simps)
      with nodash show False by blast
    qed
    with e True have "digits_of (nat (- i) + 1) (nat (- i)) = digits_of (nat (- j) + 1) (nat (- j))"
      unfolding split_str by (simp del: digits_of.simps)
    then have "nat (- i) = nat (- j)" using digits by metis
    with True \<open>j < 0\<close> show ?thesis by simp
  next
    case False
    have "\<not> j < 0"
    proof
      assume "j < 0"
      with e False have "digits_of (nat i + 1) (nat i) = CHR ''-'' # digits_of (nat (- j) + 1) (nat (- j))"
        unfolding split_str by (simp del: digits_of.simps)
      with nodash show False by blast
    qed
    with e False have "digits_of (nat i + 1) (nat i) = digits_of (nat j + 1) (nat j)"
      unfolding split_str by (simp del: digits_of.simps)
    then have "nat i = nat j" using digits by metis
    with False \<open>\<not> j < 0\<close> show ?thesis by simp
  qed
qed

text \<open>\<open>sep.join(xs)\<close>.\<close>

fun join_with :: "'a list \<Rightarrow> 'a list list \<Rightarrow> 'a list" where
  "join_with sep [] = []"
| "join_with sep [x] = x"
| "join_with sep (x # y # xs) = x @ sep @ join_with sep (y # xs)"

lemma join_split:
  "0 < k \<Longrightarrow> k < length ws \<Longrightarrow> join_with sep ws = join_with sep (take k ws) @ sep @ join_with sep (drop k ws)"
proof (induction k arbitrary: ws)
  case (Suc k)
  then obtain w v vs where ws: "ws = w # v # vs" by (cases ws; cases "tl ws") auto
  show ?case
  proof (cases k)
    case 0
    with ws show ?thesis by simp
  next
    case (Suc k')
    with Suc.IH [of "v # vs"] Suc.prems ws show ?thesis by simp
  qed
qed simp

end
