(* ===== verification/Writer.thy ===== *)
theory Writer
  imports Prelude
begin

text \<open>
  The serialized SQLite writer of \<^verbatim>\<open>db/writer.py\<close>. One connection per database is shared
  by all writers, so a transaction that a block leaves open is inherited by the next one.
  The connection is the committed database and, while a transaction is open, the working
  copy its statements see. As in Python's \<^verbatim>\<open>sqlite3\<close>, a data-changing statement opens a
  transaction when none is open, and an explicit BEGIN inside one is an error.
\<close>

section \<open>Exceptions\<close>

datatype exc =
    ValueError string
  | RuntimeError string
  | IntegrityError string
  | OperationalError string
  | TimeoutError string
  | IdempotencyConflict
  | TaskCreationInProgress string
  | PreviousTaskCreationFailed string
  | TaskRetryConflict string string
  | GitHubIntegrationUnavailable string
  | Cancelled

text \<open>\<open>str(e)\<close>, as the code persists or shows it.\<close>

fun exc_str :: "exc \<Rightarrow> string" where
  "exc_str (ValueError m) = m"
| "exc_str (RuntimeError m) = m"
| "exc_str (IntegrityError m) = m"
| "exc_str (OperationalError m) = m"
| "exc_str (TimeoutError m) = m"
| "exc_str IdempotencyConflict = ''Idempotency-Key was already used with a different request''"
| "exc_str (TaskCreationInProgress k) = ''Task creation is already in progress for '' @ k"
| "exc_str (PreviousTaskCreationFailed m) = m"
| "exc_str (TaskRetryConflict t st) = ''Task '' @ t @ '' cannot be retried from status '' @ st"
| "exc_str (GitHubIntegrationUnavailable m) = m"
| "exc_str Cancelled = ''''"

text \<open>\<open>Exception\<close> handlers do not catch a cancellation, a \<open>BaseException\<close>.\<close>

definition is_Exception :: "exc \<Rightarrow> bool" where
  "is_Exception e \<longleftrightarrow> e \<noteq> Cancelled"

type_synonym 'a res = "exc + 'a"

section \<open>Connections and transactions\<close>

record 'd conn =
  committed :: 'd
  open_tx :: "'d option"

definition view :: "'d conn \<Rightarrow> 'd" where
  "view c = (case open_tx c of None \<Rightarrow> committed c | Some w \<Rightarrow> w)"

definition idle :: "'d conn \<Rightarrow> bool" where
  "idle c \<longleftrightarrow> open_tx c = None"

definition begin_immediate :: "'d conn \<Rightarrow> 'd conn res" where
  "begin_immediate c =
     (case open_tx c of
        None \<Rightarrow> Inr (c\<lparr>open_tx := Some (committed c)\<rparr>)
      | Some _ \<Rightarrow> Inl (OperationalError ''cannot start a transaction within a transaction''))"

definition dml :: "('d \<Rightarrow> 'd) \<Rightarrow> 'd conn \<Rightarrow> 'd conn" where
  "dml f c = c\<lparr>open_tx := Some (f (view c))\<rparr>"

definition commit :: "'d conn \<Rightarrow> 'd conn" where
  "commit c = c\<lparr>committed := view c, open_tx := None\<rparr>"

definition rollback :: "'d conn \<Rightarrow> 'd conn" where
  "rollback c = c\<lparr>open_tx := None\<rparr>"

text \<open>
  \<open>write_connect\<close> runs its block on the shared connection; when the block raises, it
  rolls back before the lock is released and re-raises.
\<close>

definition write_connect :: "('d conn \<Rightarrow> 'a res \<times> 'd conn) \<Rightarrow> 'd conn \<Rightarrow> 'a res \<times> 'd conn" where
  "write_connect body c =
     (case body c of
        (Inl e, c') \<Rightarrow> (Inl e, rollback c')
      | (Inr v, c') \<Rightarrow> (Inr v, c'))"

lemmas tx_defs = view_def idle_def begin_immediate_def dml_def commit_def rollback_def

lemma view_idle [simp]: "idle c \<Longrightarrow> view c = committed c"
  by (simp add: tx_defs)

lemma view_dml [simp]: "view (dml f c) = f (view c)"
  by (simp add: tx_defs)

lemma committed_dml [simp]: "committed (dml f c) = committed c"
  by (simp add: tx_defs)

lemma committed_commit [simp]: "committed (commit c) = view c"
  by (simp add: tx_defs)

lemma committed_rollback [simp]: "committed (rollback c) = committed c"
  by (simp add: tx_defs)

lemma idle_commit [simp]: "idle (commit c)"
  by (simp add: tx_defs)

lemma idle_rollback [simp]: "idle (rollback c)"
  by (simp add: tx_defs)

lemma not_idle_dml [simp]: "\<not> idle (dml f c)"
  by (simp add: tx_defs)

lemma begin_immediate_idle:
  "idle c \<Longrightarrow> begin_immediate c = Inr (c\<lparr>open_tx := Some (committed c)\<rparr>)"
  by (simp add: tx_defs)

lemma begin_immediate_busy:
  "\<not> idle c \<Longrightarrow>
   begin_immediate c = Inl (OperationalError ''cannot start a transaction within a transaction'')"
  by (auto simp: tx_defs)

lemma view_begun [simp]: "view (c\<lparr>open_tx := Some d\<rparr>) = d"
  by (simp add: tx_defs)

lemma commit_eq: "commit c = \<lparr>committed = view c, open_tx = None\<rparr>" for c :: "'d conn"
  by (simp add: tx_defs)

lemma rollback_eq: "rollback c = \<lparr>committed = committed c, open_tx = None\<rparr>" for c :: "'d conn"
  by (simp add: tx_defs)

lemma idle_eq: "idle c \<Longrightarrow> c = \<lparr>committed = committed c, open_tx = None\<rparr>" for c :: "'d conn"
  by (simp add: idle_def)

text \<open>Whatever a block does, an exception leaves the shared connection without a transaction.\<close>

lemma write_connect_error_idle:
  "fst (write_connect body c) = Inl e \<Longrightarrow> idle (snd (write_connect body c))"
  by (auto simp: write_connect_def split: prod.splits sum.splits)

lemma write_connect_error_committed:
  "body c = (Inl e, c') \<Longrightarrow> write_connect body c = (Inl e, rollback c')"
  by (simp add: write_connect_def)

lemma write_connect_ok: "body c = (Inr v, c') \<Longrightarrow> write_connect body c = (Inr v, c')"
  by (simp add: write_connect_def)

section \<open>Invariants of the database along transactions\<close>

text \<open>
  \<open>holds P c\<close>: the committed data and what the connection's statements see both satisfy
  \<open>P\<close>. A method keeps \<open>holds P\<close> when each of its statements keeps \<open>P\<close>, whichever way
  its transaction ends.
\<close>

definition holds :: "('d \<Rightarrow> bool) \<Rightarrow> 'd conn \<Rightarrow> bool" where
  "holds P c \<longleftrightarrow> P (committed c) \<and> P (view c)"

lemma holds_idle: "idle c \<Longrightarrow> holds P c \<longleftrightarrow> P (committed c)"
  by (simp add: holds_def)

lemma holds_dml: "holds P c \<Longrightarrow> (P (view c) \<Longrightarrow> P (f (view c))) \<Longrightarrow> holds P (dml f c)"
  by (simp add: holds_def)

lemma holds_commit: "holds P c \<Longrightarrow> holds P (commit c)"
  by (simp add: holds_def)

lemma holds_rollback: "holds P c \<Longrightarrow> holds P (rollback c)"
  by (simp add: holds_def)

lemma holds_begin_block:
  assumes "holds P c" "\<And>c1. holds P c1 \<Longrightarrow> holds P (snd (g c1))"
  shows "holds P (snd (case begin_immediate c of Inl e \<Rightarrow> (Inl e, c) | Inr c1 \<Rightarrow> g c1))"
proof (cases "open_tx c")
  case None
  then have "holds P (c\<lparr>open_tx := Some (committed c)\<rparr>)"
    using assms(1) by (simp add: holds_def)
  with None assms(2) show ?thesis by (simp add: begin_immediate_def)
next
  case (Some w)
  with assms(1) show ?thesis by (simp add: begin_immediate_def)
qed

lemma holds_write_connect:
  "holds P (snd (body c)) \<Longrightarrow> holds P (snd (write_connect body c))"
  by (auto simp: write_connect_def holds_rollback split: prod.splits sum.splits)

lemmas holds_intros = holds_dml holds_commit holds_rollback

end
