(* ===== verification/Lease.thy ===== *)
theory Lease
  imports Writer
begin

text \<open>
  The contract of a fenced lease, which three components of the program implement: the
  retry claims of the task registry, the leases of the memory pipeline's jobs and those of
  the projection outbox. A caller acquires the lease of a key with a token of its own;
  ending the work succeeds only for the token that holds the lease; a lease that has
  expired may be taken over, after which the former holder's token is refused.
\<close>

datatype ('k, 'tok) lease_event =
    Acquire 'k 'tok int
  | Finish 'k 'tok int

locale fenced_lease =
  fixes acquire :: "'k \<Rightarrow> 'tok \<Rightarrow> int \<Rightarrow> 's \<Rightarrow> bool \<times> 's"
    and finish :: "'k \<Rightarrow> 'tok \<Rightarrow> int \<Rightarrow> 's \<Rightarrow> bool \<times> 's"
    and holder :: "'s \<Rightarrow> 'k \<Rightarrow> 'tok option"
    and expired :: "'s \<Rightarrow> 'k \<Rightarrow> int \<Rightarrow> bool"
    and invar :: "'s \<Rightarrow> bool"
  assumes invar_acquire: "invar s \<Longrightarrow> invar (snd (acquire k t now s))"
    and invar_finish: "invar s \<Longrightarrow> invar (snd (finish k t now s))"
    and acquire_held:
      "invar s \<Longrightarrow> holder s k = Some u \<Longrightarrow> \<not> expired s k now \<Longrightarrow>
       \<not> fst (acquire k t now s) \<and> holder (snd (acquire k t now s)) = holder s"
    and acquire_taken:
      "invar s \<Longrightarrow> fst (acquire k t now s) \<Longrightarrow>
       holder (snd (acquire k t now s)) = (holder s)(k \<mapsto> t)"
    and acquire_refused:
      "invar s \<Longrightarrow> \<not> fst (acquire k t now s) \<Longrightarrow>
       holder (snd (acquire k t now s)) = holder s \<or>
       holder (snd (acquire k t now s)) = (holder s)(k := None)"
    and finish_fenced:
      "invar s \<Longrightarrow> holder s k \<noteq> Some t \<Longrightarrow> finish k t now s = (False, s)"
    and finish_done:
      "invar s \<Longrightarrow> fst (finish k t now s) \<Longrightarrow>
       holder (snd (finish k t now s)) = (holder s)(k := None)"
    and finish_kept:
      "invar s \<Longrightarrow> \<not> fst (finish k t now s) \<Longrightarrow> holder (snd (finish k t now s)) = holder s"
begin

fun lease_step :: "('k, 'tok) lease_event \<Rightarrow> 's \<Rightarrow> bool \<times> 's" where
  "lease_step (Acquire k t now) s = acquire k t now s"
| "lease_step (Finish k t now) s = finish k t now s"

fun lease_run :: "('k, 'tok) lease_event list \<Rightarrow> 's \<Rightarrow> 's" where
  "lease_run [] s = s"
| "lease_run (e # es) s = lease_run es (snd (lease_step e s))"

fun taken :: "'k \<Rightarrow> ('k, 'tok) lease_event list \<Rightarrow> 's \<Rightarrow> nat" where
  "taken k [] s = 0"
| "taken k (Acquire k' t now # es) s =
     (if k' = k \<and> fst (acquire k' t now s) then 1 else 0) + taken k es (snd (acquire k' t now s))"
| "taken k (Finish k' t now # es) s = taken k es (snd (finish k' t now s))"

fun ended :: "'k \<Rightarrow> ('k, 'tok) lease_event list \<Rightarrow> 's \<Rightarrow> nat" where
  "ended k [] s = 0"
| "ended k (Acquire k' t now # es) s = ended k es (snd (acquire k' t now s))"
| "ended k (Finish k' t now # es) s =
     (if k' = k \<and> fst (finish k' t now s) then 1 else 0) + ended k es (snd (finish k' t now s))"

lemma invar_step: "invar s \<Longrightarrow> invar (snd (lease_step e s))"
  by (cases e) (auto intro: invar_acquire invar_finish)

lemma invar_run: "invar s \<Longrightarrow> invar (lease_run es s)"
  by (induction es arbitrary: s) (auto intro: invar_step)

lemma finish_success_holder: "invar s \<Longrightarrow> fst (finish k t now s) \<Longrightarrow> holder s k = Some t"
  using finish_fenced [of s k t now] by (cases "holder s k = Some t") auto

text \<open>Work is never ended more often than it was taken: one success per acquisition.\<close>

lemma ended_le_taken:
  "invar s \<Longrightarrow> ended k es s \<le> taken k es s + (if holder s k = None then 0 else 1)"
proof (induction es arbitrary: s)
  case (Cons e es)
  show ?case
  proof (cases e)
    case (Acquire k' t now)
    let ?s = "snd (acquire k' t now s)"
    have IH: "ended k es ?s \<le> taken k es ?s + (if holder ?s k = None then 0 else 1)"
      using Cons invar_acquire by blast
    show ?thesis
      using IH Acquire acquire_taken [OF Cons.prems] acquire_refused [OF Cons.prems]
      by (cases "fst (acquire k' t now s)"; cases "k' = k") (fastforce split: if_splits)+
  next
    case (Finish k' t now)
    let ?s = "snd (finish k' t now s)"
    have IH: "ended k es ?s \<le> taken k es ?s + (if holder ?s k = None then 0 else 1)"
      using Cons invar_finish by blast
    show ?thesis
    proof (cases "fst (finish k' t now s)")
      case True
      then show ?thesis
        using IH Finish finish_done [OF Cons.prems True] finish_success_holder [OF Cons.prems True]
        by auto
    next
      case False
      then show ?thesis
        using IH Finish finish_kept [OF Cons.prems False] by simp
    qed
  qed
qed simp

text \<open>A holder whose lease was taken over cannot end the work any more.\<close>

lemma taken_over_is_fenced:
  assumes "invar s" "fst (acquire k u now s)" "t \<noteq> u"
  shows "finish k t now' (snd (acquire k u now s)) = (False, snd (acquire k u now s))"
proof (rule finish_fenced)
  show "invar (snd (acquire k u now s))" by (rule invar_acquire [OF assms(1)])
  show "holder (snd (acquire k u now s)) k \<noteq> Some t"
    using acquire_taken [OF assms(1,2)] assms(3) by simp
qed

text \<open>While the lease runs, every other caller is refused and the holder stays.\<close>

lemma held_is_exclusive:
  assumes "invar s" "fst (acquire k u now s)" "\<not> expired (snd (acquire k u now s)) k now'"
  shows "\<not> fst (acquire k t now' (snd (acquire k u now s)))"
  using acquire_held [OF invar_acquire [OF assms(1)] _ assms(3), of u t]
    acquire_taken [OF assms(1,2)] by simp

end

end
