(* ===== verification/TaskStore.thy ===== *)
theory TaskStore
  imports Lease
begin

text \<open>
  The durable registry of coding-agent tasks: \<^verbatim>\<open>plugins/agent_dashboard/task_store.py\<close>.
  Its three tables (\<open>agent_tasks\<close>, \<open>agent_task_retry_claims\<close>, \<open>agent_task_requests\<close>,
  declared in \<^verbatim>\<open>db/schema.py\<close>) are lists of rows; every method of the class \<open>TaskStore\<close>
  is one definition on the shared writer connection. The database clock
  (\<open>CURRENT_TIMESTAMP\<close>, in seconds) and the generated tokens are arguments.
\<close>

section \<open>Rows and lifecycle\<close>

datatype task_status =
    Created | Dispatched | Running | Paused | Stuck | Retrying | Restarted
  | Completed | Failed | Aborted | StuckPermanently | Incomplete

fun status_str :: "task_status \<Rightarrow> string" where
  "status_str Created = ''created''"
| "status_str Dispatched = ''dispatched''"
| "status_str Running = ''running''"
| "status_str Paused = ''paused''"
| "status_str Stuck = ''stuck''"
| "status_str Retrying = ''retrying''"
| "status_str Restarted = ''restarted''"
| "status_str Completed = ''completed''"
| "status_str Failed = ''failed''"
| "status_str Aborted = ''aborted''"
| "status_str StuckPermanently = ''stuck_permanently''"
| "status_str Incomplete = ''incomplete''"

fun allowed_transitions :: "task_status \<Rightarrow> task_status list" where
  "allowed_transitions Created =
     [Dispatched, Running, Paused, Stuck, Retrying, Completed, Failed, Aborted,
      StuckPermanently, Incomplete]"
| "allowed_transitions Dispatched =
     [Running, Paused, Stuck, Retrying, Completed, Failed, Aborted, StuckPermanently, Incomplete]"
| "allowed_transitions Running =
     [Paused, Stuck, Retrying, Completed, Failed, Aborted, StuckPermanently, Incomplete]"
| "allowed_transitions Paused =
     [Running, Stuck, Retrying, Completed, Failed, Aborted, StuckPermanently, Incomplete]"
| "allowed_transitions Stuck = [Retrying, Failed, Aborted, StuckPermanently, Incomplete]"
| "allowed_transitions Retrying =
     [Running, Restarted, Failed, Aborted, StuckPermanently, Incomplete]"
| "allowed_transitions Restarted =
     [Running, Paused, Stuck, Retrying, Completed, Failed, Aborted, StuckPermanently, Incomplete]"
| "allowed_transitions Failed = [Retrying, Aborted]"
| "allowed_transitions Aborted = [Retrying]"
| "allowed_transitions StuckPermanently = [Retrying, Aborted]"
| "allowed_transitions Incomplete = [Retrying, Aborted]"
| "allowed_transitions Completed = []"

definition persisted_terminal :: "task_status \<Rightarrow> bool" where
  "persisted_terminal st \<longleftrightarrow> st \<in> set [Completed, Failed, Aborted, StuckPermanently, Incomplete]"

definition RETRY_CLAIM_TTL_SECONDS :: int where
  "RETRY_CLAIM_TTL_SECONDS = 120"

record task_row =
  t_id :: string
  t_group :: int
  t_bot :: int
  t_repo_url :: string
  t_requirements :: string
  t_base_branch :: string
  t_test_command :: string
  t_model :: string
  t_max_iterations :: int
  t_status :: task_status
  t_created_at :: int
  t_updated_at :: int
  t_pr_url :: "string option"
  t_error :: "string option"

record claim_row =
  c_task :: string
  c_token :: string
  c_previous :: task_status
  c_automatic :: bool
  c_claimed_at :: int

datatype request_state = ReqPending | ReqCompleted | ReqFailed

record request_row =
  q_key :: string
  q_hash :: string
  q_task :: string
  q_state :: request_state
  q_error :: "string option"
  q_updated_at :: int

record member_row =
  m_id :: int
  m_group :: int

record group_row =
  g_id :: int
  g_worker :: "string option"

record task_db =
  tasks :: "task_row list"
  claims :: "claim_row list"
  requests :: "request_row list"
  groups :: "group_row list"
  members :: "member_row list"

text \<open>The keys and foreign keys of the schema, with \<open>PRAGMA foreign_keys=ON\<close>.\<close>

definition wf_db :: "task_db \<Rightarrow> bool" where
  "wf_db d \<longleftrightarrow>
     keyed t_id (tasks d) \<and> keyed c_task (claims d) \<and> keyed c_token (claims d) \<and>
     keyed q_key (requests d) \<and> keyed q_task (requests d) \<and>
     c_task ` set (claims d) \<subseteq> t_id ` set (tasks d)"

definition task_of :: "task_db \<Rightarrow> string \<Rightarrow> task_row option" where
  "task_of d tid = row_by t_id tid (tasks d)"

definition claim_of :: "task_db \<Rightarrow> string \<Rightarrow> claim_row option" where
  "claim_of d tid = row_by c_task tid (claims d)"

definition status_of :: "task_db \<Rightarrow> string \<Rightarrow> task_status option" where
  "status_of d tid = map_option t_status (task_of d tid)"

text \<open>The dictionary the API returns for a row; its branch is the task's own, not the base.\<close>

record task_dict = task_row +
  branch :: string

definition row_to_task :: "task_row \<Rightarrow> task_dict" where
  "row_to_task r = task_row.extend r \<lparr>branch = ''task_'' @ t_id r\<rparr>"

section \<open>Reading\<close>

text \<open>Reads use a connection of their own and see committed data only.\<close>

definition get_task :: "string \<Rightarrow> task_db conn \<Rightarrow> task_dict option" where
  "get_task tid c = map_option row_to_task (task_of (committed c) tid)"

definition list_tasks :: "int option \<Rightarrow> task_status option \<Rightarrow> int \<Rightarrow> task_db conn \<Rightarrow> task_dict list" where
  "list_tasks gid st limit c =
     (let rows = filter (\<lambda>r. (case gid of None \<Rightarrow> True | Some g \<Rightarrow> t_group r = g) \<and>
                             (case st of None \<Rightarrow> True | Some s \<Rightarrow> t_status r = s))
                   (tasks (committed c));
          ordered = sort_key (\<lambda>r. - t_created_at r) rows;
          page = (if limit < 0 then ordered else take (nat limit) ordered)
      in map row_to_task page)"

section \<open>Creating and updating\<close>

definition create_task ::
  "string \<Rightarrow> int \<Rightarrow> int \<Rightarrow> string \<Rightarrow> string \<Rightarrow> string \<Rightarrow> string \<Rightarrow> string \<Rightarrow> int \<Rightarrow> int \<Rightarrow>
   task_db conn \<Rightarrow> task_dict option res \<times> task_db conn" where
  "create_task tid gid bid url reqs base cmd mdl iters now =
     write_connect (\<lambda>c.
       if row_by t_id tid (tasks (view c)) \<noteq> None
       then (Inl (IntegrityError ''UNIQUE constraint failed: agent_tasks.task_id''), c)
       else if gid \<notin> g_id ` set (groups (view c)) \<or> bid \<notin> m_id ` set (members (view c))
       then (Inl (IntegrityError ''FOREIGN KEY constraint failed''), c)
       else
         (let row = \<lparr>t_id = tid, t_group = gid, t_bot = bid, t_repo_url = url,
                     t_requirements = reqs, t_base_branch = base, t_test_command = cmd,
                     t_model = mdl, t_max_iterations = iters, t_status = Created,
                     t_created_at = now, t_updated_at = now, t_pr_url = None, t_error = None\<rparr>;
              c' = commit (dml (\<lambda>d. d\<lparr>tasks := tasks d @ [row]\<rparr>) c)
          in (Inr (get_task tid c'), c')))"

definition coalesce :: "'a option \<Rightarrow> 'a option \<Rightarrow> 'a option" where
  "coalesce x y = (case x of None \<Rightarrow> y | Some v \<Rightarrow> Some v)"

definition set_status_row ::
  "task_status \<Rightarrow> string option \<Rightarrow> string option \<Rightarrow> int \<Rightarrow> task_row \<Rightarrow> task_row" where
  "set_status_row st pr err now r =
     r\<lparr>t_status := st,
       t_pr_url := coalesce pr (t_pr_url r),
       t_error := (if st \<in> set [Failed, Stuck, StuckPermanently, Incomplete]
                   then coalesce err (t_error r) else None),
       t_updated_at := now\<rparr>"

definition update_tasks :: "(task_row \<Rightarrow> bool) \<Rightarrow> (task_row \<Rightarrow> task_row) \<Rightarrow> task_db \<Rightarrow> task_db" where
  "update_tasks P f d = d\<lparr>tasks := update_where P f (tasks d)\<rparr>"

definition update_status ::
  "string \<Rightarrow> task_status \<Rightarrow> string option \<Rightarrow> string option \<Rightarrow> int \<Rightarrow>
   task_db conn \<Rightarrow> bool res \<times> task_db conn" where
  "update_status tid st pr err now =
     write_connect (\<lambda>c.
       case task_of (view c) tid of
         None \<Rightarrow> (Inr False, c)
       | Some cur \<Rightarrow>
           if t_status cur \<noteq> st \<and> st \<notin> set (allowed_transitions (t_status cur))
           then (Inr False, c)
           else
             (let P = (\<lambda>r. t_id r = tid);
                  n = count_where P (tasks (view c));
                  c' = commit (dml (update_tasks P (set_status_row st pr err now)) c)
              in (Inr (n > 0), c')))"

definition update_pr_url :: "string \<Rightarrow> string \<Rightarrow> int \<Rightarrow> task_db conn \<Rightarrow> bool res \<times> task_db conn" where
  "update_pr_url tid url now =
     write_connect (\<lambda>c.
       let P = (\<lambda>r. t_id r = tid);
           n = count_where P (tasks (view c));
           c' = commit (dml (update_tasks P (\<lambda>r. r\<lparr>t_pr_url := Some url, t_updated_at := now\<rparr>)) c)
       in (Inr (n > 0), c'))"

text \<open>Deleting a task deletes its retry claim too (\<open>ON DELETE CASCADE\<close>).\<close>

definition delete_task :: "string \<Rightarrow> task_db conn \<Rightarrow> bool res \<times> task_db conn" where
  "delete_task tid =
     write_connect (\<lambda>c.
       let n = count_where (\<lambda>r. t_id r = tid) (tasks (view c));
           c' = commit (dml (\<lambda>d. d\<lparr>tasks := delete_where (\<lambda>r. t_id r = tid) (tasks d),
                                     claims := delete_where (\<lambda>r. c_task r = tid) (claims d)\<rparr>) c)
       in (Inr (n > 0), c'))"

section \<open>Retry claims\<close>

record retry_claim =
  rc_token :: string
  rc_previous :: task_status

definition error_row :: "task_status \<Rightarrow> string option \<Rightarrow> int \<Rightarrow> task_row \<Rightarrow> task_row" where
  "error_row st err now r = r\<lparr>t_status := st, t_error := err, t_updated_at := now\<rparr>"

text \<open>
  The first half of \<open>claim_retry\<close>: a claim that is still fresh refuses the caller; a
  stale one is removed and its task, if still retrying, is put back to stuck. The result
  says whether the claim is free and whether a stale claim was recovered.
\<close>

definition recover_stale_claim ::
  "string \<Rightarrow> int \<Rightarrow> int \<Rightarrow> task_db conn \<Rightarrow> (bool \<times> bool) \<times> task_db conn" where
  "recover_stale_claim tid stale_after now c =
     (case claim_of (view c) tid of
        None \<Rightarrow> ((True, False), c)
      | Some k \<Rightarrow>
          if \<not> c_claimed_at k \<le> now - stale_after then ((False, False), c)
          else
            (let c1 = dml (\<lambda>d. d\<lparr>claims := delete_where
                          (\<lambda>r. c_task r = tid \<and> c_token r = c_token k) (claims d)\<rparr>) c;
                 c2 = dml (update_tasks (\<lambda>r. t_id r = tid \<and> t_status r = Retrying)
                          (error_row Stuck (Some ''Recovered stale retry claim'') now)) c1
             in ((True, True), c2)))"

text \<open>The second half: take the claim and move the task to retrying.\<close>

definition take_claim ::
  "string \<Rightarrow> task_status \<Rightarrow> bool \<Rightarrow> int \<Rightarrow> string \<Rightarrow> task_db conn \<Rightarrow>
   retry_claim option res \<times> task_db conn" where
  "take_claim tid prev auto now tok c =
     (if tok \<in> c_token ` set (claims (view c)) \<or> claim_of (view c) tid \<noteq> None
      then (Inl (IntegrityError ''UNIQUE constraint failed: agent_task_retry_claims''), c)
      else
        (let k = \<lparr>c_task = tid, c_token = tok, c_previous = prev, c_automatic = auto,
                  c_claimed_at = now\<rparr>;
             c1 = dml (\<lambda>d. d\<lparr>claims := claims d @ [k]\<rparr>) c;
             P = (\<lambda>r. t_id r = tid \<and> t_status r = prev);
             n = count_where P (tasks (view c1));
             c2 = dml (update_tasks P (error_row Retrying None now)) c1
         in if n \<noteq> 1 then (Inr None, rollback c2)
            else (Inr (Some \<lparr>rc_token = tok, rc_previous = prev\<rparr>), commit c2)))"

definition claim_retry ::
  "string \<Rightarrow> task_status list \<Rightarrow> bool \<Rightarrow> int \<Rightarrow> int \<Rightarrow> string \<Rightarrow>
   task_db conn \<Rightarrow> retry_claim option res \<times> task_db conn" where
  "claim_retry tid allowed auto stale_after now tok c0 =
     (if allowed = [] then (Inl (ValueError ''allowed_statuses must not be empty''), c0)
      else if stale_after < 0
      then (Inl (ValueError ''stale_after_seconds must not be negative''), c0)
      else
        write_connect (\<lambda>c.
          case begin_immediate c of
            Inl e \<Rightarrow> (Inl e, c)
          | Inr c1 \<Rightarrow>
              (case recover_stale_claim tid stale_after now c1 of
                 ((free, recovered), c2) \<Rightarrow>
                   if \<not> free then (Inr None, rollback c2)
                   else
                     (case task_of (view c2) tid of
                        None \<Rightarrow> (Inr None, (if recovered then commit c2 else rollback c2))
                      | Some r \<Rightarrow>
                          if t_status r \<notin> set allowed
                          then (Inr None, (if recovered then commit c2 else rollback c2))
                          else take_claim tid (t_status r) auto now tok c2))) c0)"

definition owns_claim :: "task_db \<Rightarrow> string \<Rightarrow> string \<Rightarrow> bool" where
  "owns_claim d tid tok \<longleftrightarrow> (\<exists>k \<in> set (claims d). c_task k = tid \<and> c_token k = tok)"

text \<open>
  \<open>complete_retry_claim\<close> and \<open>restore_retry_claim\<close> end a claim the same way: only its
  owner, only while the task is still retrying, and the claim goes with the status.
\<close>

definition end_claim ::
  "string \<Rightarrow> string \<Rightarrow> (task_row \<Rightarrow> task_row) \<Rightarrow> task_db conn \<Rightarrow> bool res \<times> task_db conn" where
  "end_claim tid tok f =
     write_connect (\<lambda>c.
       case begin_immediate c of
         Inl e \<Rightarrow> (Inl e, c)
       | Inr c1 \<Rightarrow>
           if \<not> owns_claim (view c1) tid tok then (Inr False, rollback c1)
           else
             (let P = (\<lambda>r. t_id r = tid \<and> t_status r = Retrying);
                  n = count_where P (tasks (view c1));
                  c2 = dml (update_tasks P f) c1
              in if n \<noteq> 1 then (Inr False, rollback c2)
                 else (Inr True, commit (dml (\<lambda>d. d\<lparr>claims := delete_where
                        (\<lambda>r. c_task r = tid \<and> c_token r = tok) (claims d)\<rparr>) c2))))"

definition complete_retry_claim :: "string \<Rightarrow> string \<Rightarrow> int \<Rightarrow> task_db conn \<Rightarrow> bool res \<times> task_db conn" where
  "complete_retry_claim tid tok now = end_claim tid tok (error_row Running None now)"

definition valid_fallback :: "task_status \<Rightarrow> bool" where
  "valid_fallback st \<longleftrightarrow>
     st \<in> set [Running, Dispatched, Paused, Stuck, Failed, Aborted, StuckPermanently]"

definition persisted_error :: "task_status \<Rightarrow> string \<Rightarrow> string option" where
  "persisted_error st err =
     (if st \<in> set [Stuck, Failed, StuckPermanently] then Some (take 2000 err) else None)"

definition restore_retry_claim ::
  "string \<Rightarrow> string \<Rightarrow> task_status \<Rightarrow> string \<Rightarrow> int \<Rightarrow> task_db conn \<Rightarrow> bool res \<times> task_db conn" where
  "restore_retry_claim tid tok st err now c =
     (if \<not> valid_fallback st
      then (Inl (ValueError (''Invalid retry fallback status: '' @ status_str st)), c)
      else end_claim tid tok (error_row st (persisted_error st err) now) c)"

text \<open>At start-up no retry can still be in flight: its claims and states are collapsed.\<close>

record reconcile_counts =
  retrying_to_stuck :: nat
  restarted_to_stuck :: nat
  retry_claims_removed :: nat

definition reconcile_transient_states ::
  "int \<Rightarrow> task_db conn \<Rightarrow> reconcile_counts res \<times> task_db conn" where
  "reconcile_transient_states now =
     write_connect (\<lambda>c.
       case begin_immediate c of
         Inl e \<Rightarrow> (Inl e, c)
       | Inr c1 \<Rightarrow>
           (let transient = (\<lambda>r. t_status r = Retrying \<or> t_status r = Restarted);
                stale = (\<lambda>k. \<exists>r \<in> set (filter transient (tasks (view c1))). t_id r = c_task k);
                n1 = count_where stale (claims (view c1));
                c2 = dml (\<lambda>d. d\<lparr>claims := delete_where stale (claims d)\<rparr>) c1;
                n2 = count_where (\<lambda>r. t_status r = Retrying) (tasks (view c2));
                c3 = dml (update_tasks (\<lambda>r. t_status r = Retrying)
                       (error_row Stuck (Some ''Retry interrupted by process restart'') now)) c2;
                n3 = count_where (\<lambda>r. t_status r = Restarted) (tasks (view c3));
                c4 = dml (update_tasks (\<lambda>r. t_status r = Restarted)
                       (error_row Stuck (Some ''Legacy restarted state requires reconciliation'') now)) c3
            in (Inr \<lparr>retrying_to_stuck = n2, restarted_to_stuck = n3, retry_claims_removed = n1\<rparr>,
                commit c4)))"

section \<open>Idempotent creation requests\<close>

record reservation =
  v_owner :: bool
  v_task :: string
  v_state :: request_state
  v_error :: "string option"

definition update_requests ::
  "(request_row \<Rightarrow> bool) \<Rightarrow> (request_row \<Rightarrow> request_row) \<Rightarrow> task_db \<Rightarrow> task_db" where
  "update_requests P f d = d\<lparr>requests := update_where P f (requests d)\<rparr>"

definition reserve_request ::
  "string \<Rightarrow> string \<Rightarrow> string \<Rightarrow> int \<Rightarrow> task_db conn \<Rightarrow> reservation res \<times> task_db conn" where
  "reserve_request key hash tid now =
     write_connect (\<lambda>c.
       case row_by q_key key (requests (view c)) of
         None \<Rightarrow>
           if tid \<in> q_task ` set (requests (view c))
           then (Inl (IntegrityError ''UNIQUE constraint failed: agent_task_requests.task_id''), c)
           else
             (let q = \<lparr>q_key = key, q_hash = hash, q_task = tid, q_state = ReqPending,
                       q_error = None, q_updated_at = now\<rparr>
              in (Inr \<lparr>v_owner = True, v_task = tid, v_state = ReqPending, v_error = None\<rparr>,
                  commit (dml (\<lambda>d. d\<lparr>requests := requests d @ [q]\<rparr>) c)))
       | Some q \<Rightarrow>
           \<comment> \<open>INSERT ... ON CONFLICT DO NOTHING changes no row but has opened a transaction\<close>
           (let c1 = dml id c in
            if q_hash q \<noteq> hash then (Inl IdempotencyConflict, c1)
            else
              (let lost = (q_state q = ReqPending \<and>
                           (case task_of (view c1) (q_task q) of
                              None \<Rightarrow> False | Some r \<Rightarrow> t_status r \<noteq> Created));
                   c2 = (if lost
                         then commit (dml (update_requests (\<lambda>r. q_key r = key)
                                (\<lambda>r. r\<lparr>q_state := ReqCompleted, q_updated_at := now\<rparr>)) c1)
                         else c1)
               in (Inr \<lparr>v_owner = False, v_task = q_task q,
                        v_state = (if lost then ReqCompleted else q_state q),
                        v_error = q_error q\<rparr>, c2))))"

definition finish_request ::
  "string \<Rightarrow> request_state \<Rightarrow> string option \<Rightarrow> int \<Rightarrow> task_db conn \<Rightarrow> unit res \<times> task_db conn" where
  "finish_request key st err now =
     write_connect (\<lambda>c.
       let P = (\<lambda>r. q_key r = key \<and> q_state r = ReqPending);
           n = count_where P (requests (view c));
           c1 = dml (update_requests P (\<lambda>r. r\<lparr>q_state := st, q_error := err, q_updated_at := now\<rparr>)) c
       in if n \<noteq> 1 then (Inl (RuntimeError ''Idempotency request is not pending''), c1)
          else (Inr (), commit c1))"

definition complete_request :: "string \<Rightarrow> int \<Rightarrow> task_db conn \<Rightarrow> unit res \<times> task_db conn" where
  "complete_request key now = finish_request key ReqCompleted None now"

definition fail_request :: "string \<Rightarrow> string \<Rightarrow> int \<Rightarrow> task_db conn \<Rightarrow> unit res \<times> task_db conn" where
  "fail_request key err now = finish_request key ReqFailed (Some (take 2000 err)) now"

section \<open>Facts about single methods\<close>

lemma tasks_update_tasks [simp]:
  "tasks (update_tasks P f d) = update_where P f (tasks d)"
  "claims (update_tasks P f d) = claims d"
  "requests (update_tasks P f d) = requests d"
  "groups (update_tasks P f d) = groups d"
  "members (update_tasks P f d) = members d"
  by (simp_all add: update_tasks_def)

lemma requests_update_requests [simp]:
  "tasks (update_requests P g d) = tasks d"
  "claims (update_requests P g d) = claims d"
  "requests (update_requests P g d) = update_where P g (requests d)"
  by (simp_all add: update_requests_def)

lemma row_setters_id [simp]:
  "t_id (set_status_row st pr err now r) = t_id r"
  "t_id (error_row st err' now r) = t_id r"
  "t_status (set_status_row st pr err now r) = st"
  "t_status (error_row st err' now r) = st"
  "t_error (error_row st err' now r) = err'"
  by (simp_all add: set_status_row_def error_row_def)

lemma task_of_update_tasks [table_simps]:
  "(\<And>r. t_id (f r) = t_id r) \<Longrightarrow>
   task_of (update_tasks P f d) tid = map_option (\<lambda>r. if P r then f r else r) (task_of d tid)"
  by (simp add: task_of_def table_simps)

lemma claim_of_update_tasks [simp]: "claim_of (update_tasks P f d) = claim_of d"
  by (simp add: claim_of_def fun_eq_iff)

lemma owns_claim_update_tasks [simp]: "owns_claim (update_tasks P f d) = owns_claim d"
  by (simp add: owns_claim_def fun_eq_iff)

lemma count_id_pos: "task_of d tid = Some r \<Longrightarrow> count_where (\<lambda>r. t_id r = tid) (tasks d) > 0"
  by (auto simp: task_of_def count_where_def filter_empty_conv dest: row_by_SomeD)

lemma task_of_id: "task_of d tid = Some r \<Longrightarrow> t_id r = tid"
  by (auto simp: task_of_def dest: row_by_SomeD)

lemma claim_of_task: "claim_of d tid = Some k \<Longrightarrow> c_task k = tid"
  by (auto simp: claim_of_def dest: row_by_SomeD)

lemma owns_claim_iff:
  "wf_db d \<Longrightarrow> owns_claim d tid tok \<longleftrightarrow> map_option c_token (claim_of d tid) = Some tok"
  by (auto simp: owns_claim_def claim_of_def wf_db_def dest: row_by_SomeD row_by_in_keyed)

lemma wf_update_tasks:
  "(\<And>r. t_id (f r) = t_id r) \<Longrightarrow> wf_db d \<Longrightarrow> wf_db (update_tasks P f d)"
  by (simp add: wf_db_def keys_update_where keyed_intros)

lemma wf_insert_task:
  "wf_db d \<Longrightarrow> row_by t_id (t_id r) (tasks d) = None \<Longrightarrow> wf_db (d\<lparr>tasks := tasks d @ [r]\<rparr>)"
  by (auto simp: wf_db_def intro!: keyed_intros)

lemma wf_delete_task:
  "wf_db d \<Longrightarrow> wf_db (d\<lparr>tasks := delete_where (\<lambda>r. t_id r = tid) (tasks d),
                          claims := delete_where (\<lambda>k. c_task k = tid) (claims d)\<rparr>)"
  by (auto simp: wf_db_def set_delete_where intro!: keyed_intros)

lemma wf_insert_request:
  "wf_db d \<Longrightarrow> row_by q_key (q_key q) (requests d) = None \<Longrightarrow> q_task q \<notin> q_task ` set (requests d)
   \<Longrightarrow> wf_db (d\<lparr>requests := requests d @ [q]\<rparr>)"
  by (auto simp: wf_db_def row_by_None_iff intro!: keyed_intros)

lemma wf_update_requests:
  "(\<And>r. q_key (f r) = q_key r) \<Longrightarrow> (\<And>r. q_task (f r) = q_task r) \<Longrightarrow> wf_db d \<Longrightarrow>
   wf_db (update_requests P f d)"
  by (simp add: wf_db_def keyed_intros)

lemma wf_delete_claims:
  "wf_db d \<Longrightarrow> wf_db (d\<lparr>claims := delete_where P (claims d)\<rparr>)"
  by (auto simp: wf_db_def set_delete_where intro: keyed_intros)

lemma count_retrying:
  "wf_db d \<Longrightarrow>
   count_where (\<lambda>r. t_id r = tid \<and> t_status r = st) (tasks d) =
     (if status_of d tid = Some st then 1 else 0)"
  by (auto simp: wf_db_def table_simps status_of_def task_of_def split: option.splits)

text \<open>\<open>update_status\<close> on an idle connection, in one equation.\<close>

lemma update_status_eq:
  assumes "idle c"
  shows "update_status tid st pr err now c =
    (case task_of (committed c) tid of
       None \<Rightarrow> (Inr False, c)
     | Some cur \<Rightarrow>
         if t_status cur \<noteq> st \<and> st \<notin> set (allowed_transitions (t_status cur))
         then (Inr False, c)
         else (Inr True, \<lparr>committed = update_tasks (\<lambda>r. t_id r = tid)
                              (set_status_row st pr err now) (committed c), open_tx = None\<rparr>))"
  using assms count_id_pos [of "committed c" tid]
  by (auto simp: update_status_def write_connect_def commit_eq split: option.splits)

lemma end_claim_eq:
  assumes "idle c" "wf_db (committed c)" "\<And>r. t_id (f r) = t_id r"
  shows "end_claim tid tok f c =
    (if owns_claim (committed c) tid tok \<and> status_of (committed c) tid = Some Retrying
     then (Inr True, \<lparr>committed =
            (update_tasks (\<lambda>r. t_id r = tid \<and> t_status r = Retrying) f (committed c))
              \<lparr>claims := delete_where (\<lambda>r. c_task r = tid \<and> c_token r = tok) (claims (committed c))\<rparr>,
            open_tx = None\<rparr>)
     else (Inr False, c))"
  using assms(1,2) idle_eq [OF assms(1)]
  by (auto simp: end_claim_def write_connect_def begin_immediate_idle count_retrying
      commit_eq rollback_eq)

section \<open>Every method preserves the keys of the schema\<close>

abbreviation db_ok :: "task_db conn \<Rightarrow> bool" where
  "db_ok \<equiv> holds wf_db"

lemma db_ok_update_status: "db_ok c \<Longrightarrow> db_ok (snd (update_status tid st pr err now c))"
  unfolding update_status_def
  by (rule holds_write_connect)
    (auto simp: Let_def split: option.splits intro!: holds_commit holds_dml wf_update_tasks)

lemma db_ok_update_pr_url: "db_ok c \<Longrightarrow> db_ok (snd (update_pr_url tid url now c))"
  unfolding update_pr_url_def
  by (rule holds_write_connect)
    (auto simp: Let_def intro!: holds_commit holds_dml wf_update_tasks)

lemma db_ok_create_task:
  "db_ok c \<Longrightarrow> db_ok (snd (create_task tid g b u rq ba tc m it now c))"
  unfolding create_task_def
  by (rule holds_write_connect)
    (auto simp: Let_def intro!: holds_commit holds_dml wf_insert_task)

lemma db_ok_delete_task: "db_ok c \<Longrightarrow> db_ok (snd (delete_task tid c))"
  unfolding delete_task_def
  by (rule holds_write_connect)
    (auto simp: Let_def intro!: holds_commit holds_dml wf_delete_task)

lemma db_ok_recover:
  "db_ok c \<Longrightarrow> db_ok (snd (recover_stale_claim tid ttl now c))"
  by (auto simp: recover_stale_claim_def Let_def split: option.splits
      intro!: holds_dml wf_update_tasks wf_delete_claims)

lemma wf_insert_claim:
  assumes "wf_db d" "c_token k \<notin> c_token ` set (claims d)" "claim_of d (c_task k) = None"
    "c_task k \<in> t_id ` set (tasks d)"
  shows "wf_db (d\<lparr>claims := claims d @ [k]\<rparr>)"
  using assms by (auto simp: wf_db_def claim_of_def row_by_None_iff intro!: keyed_intros)

lemma db_ok_take_claim:
  assumes "db_ok c" "task_of (view c) tid = Some r"
  shows "db_ok (snd (take_claim tid prev auto now tok c))"
proof -
  have "tid \<in> t_id ` set (tasks (view c))"
    using assms(2) by (auto simp: task_of_def dest: row_by_SomeD)
  then show ?thesis
    using assms(1)
    by (auto simp: take_claim_def Let_def intro!: holds_commit holds_rollback holds_dml
        wf_update_tasks wf_insert_claim)
qed

lemma db_ok_claim_retry:
  assumes "db_ok c"
  shows "db_ok (snd (claim_retry tid allowed auto ttl now tok c))"
proof -
  have "db_ok (snd (case recover_stale_claim tid ttl now c1 of
                 ((free, recovered), c2) \<Rightarrow>
                   if \<not> free then (Inr None, rollback c2)
                   else
                     (case task_of (view c2) tid of
                        None \<Rightarrow> (Inr None, (if recovered then commit c2 else rollback c2))
                      | Some r \<Rightarrow>
                          if t_status r \<notin> set allowed
                          then (Inr None, (if recovered then commit c2 else rollback c2))
                          else take_claim tid (t_status r) auto now tok c2)))"
    if "db_ok c1" for c1
    using db_ok_recover [OF that, of tid ttl now]
    by (auto simp: holds_commit holds_rollback db_ok_take_claim split: prod.splits option.splits)
  then show ?thesis
    using assms
    by (auto simp: claim_retry_def intro!: holds_write_connect holds_begin_block)
qed

lemma db_ok_end_claim:
  assumes "db_ok c" "\<And>r. t_id (f r) = t_id r"
  shows "db_ok (snd (end_claim tid tok f c))"
  unfolding end_claim_def
proof (intro holds_write_connect holds_begin_block)
  fix c1 assume "db_ok c1"
  then show "db_ok (snd (if \<not> owns_claim (view c1) tid tok then (Inr False, rollback c1)
           else
             (let P = (\<lambda>r. t_id r = tid \<and> t_status r = Retrying);
                  n = count_where P (tasks (view c1));
                  c2 = dml (update_tasks P f) c1
              in if n \<noteq> 1 then (Inr False, rollback c2)
                 else (Inr True, commit (dml (\<lambda>d. d\<lparr>claims := delete_where
                        (\<lambda>r. c_task r = tid \<and> c_token r = tok) (claims d)\<rparr>) c2)))))"
    using assms(2)
    by (auto simp: Let_def intro!: holds_commit holds_rollback holds_dml wf_update_tasks
        wf_delete_claims)
qed (rule assms(1))

lemma db_ok_reconcile: "db_ok c \<Longrightarrow> db_ok (snd (reconcile_transient_states now c))"
  unfolding reconcile_transient_states_def Let_def
  by (intro holds_write_connect holds_begin_block)
    (auto intro!: holds_commit holds_dml wf_update_tasks wf_delete_claims)

lemma db_ok_reserve_request: "db_ok c \<Longrightarrow> db_ok (snd (reserve_request key hash tid now c))"
  unfolding reserve_request_def Let_def
  by (intro holds_write_connect)
    (auto split: option.splits
      intro!: holds_commit holds_dml wf_insert_request wf_update_requests)

lemma db_ok_finish_request: "db_ok c \<Longrightarrow> db_ok (snd (finish_request key st err now c))"
  unfolding finish_request_def Let_def
  by (intro holds_write_connect)
    (auto intro!: holds_commit holds_dml wf_update_requests)

section \<open>Claims on an idle connection\<close>

text \<open>The database after a stale claim \<open>k\<close> has been recovered.\<close>

definition recovered_db :: "string \<Rightarrow> claim_row \<Rightarrow> int \<Rightarrow> task_db \<Rightarrow> task_db" where
  "recovered_db tid k now d =
     update_tasks (\<lambda>r. t_id r = tid \<and> t_status r = Retrying)
       (error_row Stuck (Some ''Recovered stale retry claim'') now)
       (d\<lparr>claims := delete_where (\<lambda>r. c_task r = tid \<and> c_token r = c_token k) (claims d)\<rparr>)"

definition claimed_db :: "string \<Rightarrow> task_status \<Rightarrow> bool \<Rightarrow> int \<Rightarrow> string \<Rightarrow> task_db \<Rightarrow> task_db" where
  "claimed_db tid prev auto now tok d =
     update_tasks (\<lambda>r. t_id r = tid \<and> t_status r = prev) (error_row Retrying None now)
       (d\<lparr>claims := claims d @ [\<lparr>c_task = tid, c_token = tok, c_previous = prev,
                               c_automatic = auto, c_claimed_at = now\<rparr>]\<rparr>)"

definition claim_fresh :: "string \<Rightarrow> int \<Rightarrow> int \<Rightarrow> task_db \<Rightarrow> bool" where
  "claim_fresh tid ttl now d =
     (case claim_of d tid of None \<Rightarrow> False | Some k \<Rightarrow> \<not> c_claimed_at k \<le> now - ttl)"

definition swept_db :: "string \<Rightarrow> int \<Rightarrow> task_db \<Rightarrow> task_db" where
  "swept_db tid now d =
     (case claim_of d tid of None \<Rightarrow> d | Some k \<Rightarrow> recovered_db tid k now d)"

lemma claim_of_delete_own:
  assumes "wf_db d" "claim_of d tid = Some k"
  shows "claim_of (d\<lparr>claims := delete_where (\<lambda>r. c_task r = tid \<and> c_token r = c_token k)
           (claims d)\<rparr>) = (claim_of d)(tid := None)"
proof
  fix x
  have "keyed c_task (claims d)" using assms(1) by (simp add: wf_db_def)
  then show "claim_of (d\<lparr>claims := delete_where (\<lambda>r. c_task r = tid \<and> c_token r = c_token k)
           (claims d)\<rparr>) x = ((claim_of d)(tid := None)) x"
    using assms(2)
    by (auto simp: claim_of_def table_simps split: option.splits dest: row_by_SomeD)
qed

lemma claim_of_swept: "wf_db d \<Longrightarrow> claim_of (swept_db tid now d) = (claim_of d)(tid := None)"
  by (cases "claim_of d tid")
    (auto simp: swept_db_def recovered_db_def claim_of_delete_own fun_upd_idem)

lemma wf_recovered: "wf_db d \<Longrightarrow> wf_db (recovered_db tid k now d)"
  by (simp add: recovered_db_def wf_update_tasks wf_delete_claims)

lemma wf_swept: "wf_db d \<Longrightarrow> wf_db (swept_db tid now d)"
  by (simp add: swept_db_def wf_recovered split: option.splits)

lemma status_of_None_iff: "status_of d tid = None \<longleftrightarrow> task_of d tid = None"
  by (simp add: status_of_def)

lemma status_of_update_tasks [table_simps]:
  "(\<And>r. t_id (f r) = t_id r) \<Longrightarrow>
   status_of (update_tasks P f d) tid = map_option (\<lambda>r. t_status (if P r then f r else r)) (task_of d tid)"
  by (simp add: status_of_def table_simps option.map_comp comp_def)

lemma task_of_claims [simp]: "task_of (d\<lparr>claims := cs\<rparr>) = task_of d"
  by (simp add: task_of_def fun_eq_iff)

lemma status_of_claims [simp]: "status_of (d\<lparr>claims := cs\<rparr>) = status_of d"
  by (simp add: status_of_def fun_eq_iff)

lemma status_swept:
  "status_of (swept_db tid now d) x =
     (if x = tid \<and> claim_of d tid \<noteq> None \<and> status_of d tid = Some Retrying then Some Stuck
      else status_of d x)"
  by (cases "task_of d x"; cases "claim_of d tid"; cases "x = tid")
    (auto simp: swept_db_def recovered_db_def table_simps status_of_def dest: task_of_id)

lemma claim_of_claimed:
  "claim_of d tid = None \<Longrightarrow>
   claim_of (claimed_db tid prev auto now tok d) =
     (claim_of d)(tid \<mapsto> \<lparr>c_task = tid, c_token = tok, c_previous = prev,
                          c_automatic = auto, c_claimed_at = now\<rparr>)"
  by (auto simp: claimed_db_def claim_of_def row_by_append fun_eq_iff split: option.splits)

lemma status_claimed:
  "status_of d tid = Some prev \<Longrightarrow>
   status_of (claimed_db tid prev auto now tok d) = (status_of d)(tid \<mapsto> Retrying)"
  by (auto simp: claimed_db_def table_simps status_of_def option.map_comp comp_def fun_eq_iff
      dest: task_of_id intro!: option.map_cong)

lemma recover_stale_claim_begun:
  "open_tx c = Some d \<Longrightarrow>
   recover_stale_claim tid ttl now c =
     ((\<not> claim_fresh tid ttl now d, \<not> claim_fresh tid ttl now d \<and> claim_of d tid \<noteq> None),
      (if claim_fresh tid ttl now d then c else c\<lparr>open_tx := Some (swept_db tid now d)\<rparr>))"
  by (auto simp: recover_stale_claim_def claim_fresh_def swept_db_def recovered_db_def
      view_def dml_def split: option.splits)

lemma take_claim_begun:
  assumes "open_tx c = Some d" "wf_db d" "claim_of d tid = None" "status_of d tid = Some prev"
  shows "take_claim tid prev auto now tok c =
    (if tok \<in> c_token ` set (claims d)
     then (Inl (IntegrityError ''UNIQUE constraint failed: agent_task_retry_claims''), c)
     else (Inr (Some \<lparr>rc_token = tok, rc_previous = prev\<rparr>),
           \<lparr>committed = claimed_db tid prev auto now tok d, open_tx = None\<rparr>))"
proof -
  have v: "view c = d" using assms(1) by (simp add: view_def)
  have n: "count_where (\<lambda>r. t_id r = tid \<and> t_status r = prev) (tasks d) = 1"
    using assms(2,4) by (simp add: count_retrying)
  show ?thesis
    using n assms(3) by (simp add: take_claim_def v Let_def commit_eq claimed_db_def)
qed

text \<open>
  The whole of \<open>claim_retry\<close> in one equation, for valid arguments.
\<close>

lemma claim_retry_eq:
  assumes c: "idle c" "wf_db (committed c)" and args: "allowed \<noteq> []" "0 \<le> ttl"
  defines "d \<equiv> committed c"
  shows "claim_retry tid allowed auto ttl now tok c =
    (if claim_fresh tid ttl now d then (Inr None, c)
     else case status_of (swept_db tid now d) tid of
            None \<Rightarrow> (Inr None, \<lparr>committed = swept_db tid now d, open_tx = None\<rparr>)
          | Some st \<Rightarrow>
              if st \<notin> set allowed
              then (Inr None, \<lparr>committed = swept_db tid now d, open_tx = None\<rparr>)
              else if tok \<in> c_token ` set (claims (swept_db tid now d))
              then (Inl (IntegrityError ''UNIQUE constraint failed: agent_task_retry_claims''), c)
              else (Inr (Some \<lparr>rc_token = tok, rc_previous = st\<rparr>),
                    \<lparr>committed = claimed_db tid st auto now tok (swept_db tid now d),
                     open_tx = None\<rparr>))"
proof -
  let ?b = "c\<lparr>open_tx := Some d\<rparr>" and ?s = "swept_db tid now d"
  have wf: "wf_db d" "wf_db ?s" using c(2) by (simp_all add: d_def wf_swept)
  have free: "claim_of ?s tid = None" using wf(1) by (simp add: claim_of_swept)
  have noclaim: "?s = d" if "claim_of d tid = None" using that by (simp add: swept_db_def)
  have restored: "rollback ?b = c" "\<lparr>committed = d, open_tx = None\<rparr> = c"
    using idle_eq [OF c(1)] by (simp_all add: rollback_eq d_def)
  show ?thesis
  proof (cases "claim_fresh tid ttl now d")
    case True
    then show ?thesis
      using args c(1) restored
      by (simp add: claim_retry_def write_connect_def begin_immediate_idle d_def [symmetric]
          recover_stale_claim_begun)
  next
    case False
    show ?thesis
    proof (cases "task_of ?s tid")
      case None
      then show ?thesis
        using args c(1) False restored noclaim
        by (auto simp: claim_retry_def write_connect_def begin_immediate_idle d_def [symmetric]
            recover_stale_claim_begun view_def commit_eq rollback_eq status_of_def)
    next
      case (Some r)
      then have st: "status_of ?s tid = Some (t_status r)" by (simp add: status_of_def)
      show ?thesis
        using args c(1) False restored noclaim Some st
          take_claim_begun [of "?b\<lparr>open_tx := Some ?s\<rparr>" ?s tid "t_status r" auto now tok, OF _ wf(2) free st]
        by (auto simp: claim_retry_def write_connect_def begin_immediate_idle d_def [symmetric]
            recover_stale_claim_begun view_def commit_eq rollback_eq)
    qed
  qed
qed

section \<open>Runs of the registry\<close>

text \<open>
  Any sequence of method calls, by any callers, in the order the writer's lock serializes
  them. \<open>exec_op\<close> forgets the result and keeps the connection.
\<close>

datatype store_op =
    OCreate string int int string string string string string int int
  | OUpdateStatus string task_status "string option" "string option" int
  | OUpdatePrUrl string string int
  | ODelete string
  | OClaim string "task_status list" bool int int string
  | OComplete string string int
  | ORestore string string task_status string int
  | OReconcile int
  | OReserve string string string int
  | OCompleteRequest string int
  | OFailRequest string string int

fun exec_op :: "store_op \<Rightarrow> task_db conn \<Rightarrow> task_db conn" where
  "exec_op (OCreate tid g b u rq ba tc m it now) c = snd (create_task tid g b u rq ba tc m it now c)"
| "exec_op (OUpdateStatus tid st pr err now) c = snd (update_status tid st pr err now c)"
| "exec_op (OUpdatePrUrl tid url now) c = snd (update_pr_url tid url now c)"
| "exec_op (ODelete tid) c = snd (delete_task tid c)"
| "exec_op (OClaim tid allowed auto ttl now tok) c = snd (claim_retry tid allowed auto ttl now tok c)"
| "exec_op (OComplete tid tok now) c = snd (complete_retry_claim tid tok now c)"
| "exec_op (ORestore tid tok st err now) c = snd (restore_retry_claim tid tok st err now c)"
| "exec_op (OReconcile now) c = snd (reconcile_transient_states now c)"
| "exec_op (OReserve key hash tid now) c = snd (reserve_request key hash tid now c)"
| "exec_op (OCompleteRequest key now) c = snd (complete_request key now c)"
| "exec_op (OFailRequest key err now) c = snd (fail_request key err now c)"

fun run_ops :: "store_op list \<Rightarrow> task_db conn \<Rightarrow> task_db conn" where
  "run_ops [] c = c"
| "run_ops (x # xs) c = run_ops xs (exec_op x c)"

lemma db_ok_exec_op: "db_ok c \<Longrightarrow> db_ok (exec_op x c)"
  by (cases x)
    (simp_all add: db_ok_create_task db_ok_update_status db_ok_update_pr_url db_ok_delete_task
      db_ok_claim_retry db_ok_reconcile db_ok_reserve_request complete_request_def fail_request_def
      db_ok_finish_request complete_retry_claim_def restore_retry_claim_def db_ok_end_claim Let_def)


section \<open>Completed tasks\<close>

definition is_completed :: "string \<Rightarrow> task_db \<Rightarrow> bool" where
  "is_completed tid d \<longleftrightarrow> status_of d tid = Some Completed"

text \<open>
  The calls that may touch a completed task on purpose: deleting its record, and a retry
  claim whose caller lists completed among the statuses it accepts. The orchestrator's
  two lists do not (\<^verbatim>\<open>orchestrator.py\<close>).
\<close>

fun op_spares :: "string \<Rightarrow> store_op \<Rightarrow> bool" where
  "op_spares tid (ODelete t) \<longleftrightarrow> t \<noteq> tid"
| "op_spares tid (OClaim t allowed auto ttl now tok) \<longleftrightarrow> Completed \<notin> set allowed"
| "op_spares tid _ \<longleftrightarrow> True"

lemma is_completed_update:
  assumes "is_completed tid d" "\<And>r. t_id (f r) = t_id r"
    and "\<And>r. t_id r = tid \<Longrightarrow> t_status r = Completed \<Longrightarrow> P r \<Longrightarrow> t_status (f r) = Completed"
  shows "is_completed tid (update_tasks P f d)"
proof -
  obtain r where r: "task_of d tid = Some r" "t_status r = Completed"
    using assms(1) by (auto simp: is_completed_def status_of_def)
  then show ?thesis
    using assms(2) assms(3) [OF task_of_id [OF r(1)] r(2)]
    by (simp add: is_completed_def status_of_update_tasks)
qed

lemma is_completed_claims [simp]: "is_completed tid (d\<lparr>claims := cs\<rparr>) = is_completed tid d"
  by (simp add: is_completed_def)

lemma is_completed_requests [simp]:
  "is_completed tid (d\<lparr>requests := qs\<rparr>) = is_completed tid d"
  "is_completed tid (update_requests P g d) = is_completed tid d"
  by (simp_all add: is_completed_def status_of_def task_of_def)

lemma is_completed_insert:
  "is_completed tid d \<Longrightarrow> is_completed tid (d\<lparr>tasks := tasks d @ [r]\<rparr>)"
  by (auto simp: is_completed_def status_of_def task_of_def row_by_append)

lemma is_completed_delete:
  assumes "is_completed tid d" "t \<noteq> tid"
  shows "is_completed tid (d\<lparr>tasks := delete_where (\<lambda>r. t_id r = t) (tasks d), claims := cs\<rparr>)"
proof -
  have "row_by t_id tid (delete_where (\<lambda>r. t_id r = t) ts) = row_by t_id tid ts"
    for ts :: "task_row list"
    using assms(2) by (induction ts) (auto simp: delete_where_def)
  then show ?thesis
    using assms(1) unfolding is_completed_def status_of_def task_of_def by simp
qed

lemma completed_take_claim:
  assumes "holds (is_completed tid) c" "prev \<noteq> Completed"
  shows "holds (is_completed tid) (snd (take_claim t prev auto now tok c))"
  using assms
  by (auto simp: take_claim_def Let_def intro!: holds_intros is_completed_update)

lemma completed_recover:
  "holds (is_completed tid) c \<Longrightarrow> holds (is_completed tid) (snd (recover_stale_claim t ttl now c))"
  by (auto simp: recover_stale_claim_def Let_def split: option.splits
      intro!: holds_dml is_completed_update)

lemma completed_claim_retry:
  assumes "holds (is_completed tid) c" "Completed \<notin> set allowed"
  shows "holds (is_completed tid) (snd (claim_retry t allowed auto ttl now tok c))"
proof -
  have "holds (is_completed tid) (snd (case recover_stale_claim t ttl now c1 of
                 ((free, recovered), c2) \<Rightarrow>
                   if \<not> free then (Inr None, rollback c2)
                   else
                     (case task_of (view c2) t of
                        None \<Rightarrow> (Inr None, (if recovered then commit c2 else rollback c2))
                      | Some r \<Rightarrow>
                          if t_status r \<notin> set allowed
                          then (Inr None, (if recovered then commit c2 else rollback c2))
                          else take_claim t (t_status r) auto now tok c2)))"
    if "holds (is_completed tid) c1" for c1
    using completed_recover [OF that, of t ttl now] assms(2)
    by (auto simp: holds_commit holds_rollback split: prod.splits option.splits
        intro!: completed_take_claim)
  then show ?thesis
    using assms(1)
    by (auto simp: claim_retry_def intro!: holds_write_connect holds_begin_block)
qed

lemma completed_end_claim:
  assumes "holds (is_completed tid) c" "\<And>r. t_id (f r) = t_id r"
  shows "holds (is_completed tid) (snd (end_claim t tok f c))"
  unfolding end_claim_def Let_def
  using assms
  by (intro holds_write_connect holds_begin_block)
    (auto intro!: holds_intros is_completed_update)

lemma completed_update_status:
  "holds (is_completed tid) c \<Longrightarrow> holds (is_completed tid) (snd (update_status t st pr err now c))"
proof -
  assume a: "holds (is_completed tid) c"
  show ?thesis
  proof (cases "t = tid")
    case True
    obtain r where "task_of (view c) tid = Some r" "t_status r = Completed"
      using a by (auto simp: holds_def is_completed_def status_of_def)
    with a True show ?thesis
      by (auto simp: update_status_def Let_def
          intro!: holds_write_connect holds_intros is_completed_update)
  next
    case False
    with a show ?thesis
      unfolding update_status_def Let_def
      by (intro holds_write_connect)
        (auto split: option.splits intro!: holds_intros is_completed_update)
  qed
qed

lemma completed_exec_op:
  assumes "holds (is_completed tid) c" "op_spares tid x"
  shows "holds (is_completed tid) (exec_op x c)"
proof (cases x)
  case (OCreate t g b u rq ba tc m it now)
  then show ?thesis
    using assms(1) unfolding exec_op.simps OCreate create_task_def Let_def
    by (auto intro!: holds_write_connect holds_intros is_completed_insert)
next
  case (OUpdateStatus t st pr err now)
  with assms show ?thesis by (simp add: completed_update_status)
next
  case (OUpdatePrUrl t url now)
  with assms(1) show ?thesis
    by (auto simp: update_pr_url_def Let_def
        intro!: holds_write_connect holds_intros is_completed_update)
next
  case (ODelete t)
  with assms show ?thesis
    by (auto simp: delete_task_def Let_def
        intro!: holds_write_connect holds_intros is_completed_delete)
next
  case (OClaim t allowed auto ttl now tok)
  with assms show ?thesis by (simp add: completed_claim_retry)
next
  case (OComplete t tok now)
  with assms(1) show ?thesis by (simp add: complete_retry_claim_def completed_end_claim)
next
  case (ORestore t tok st err now)
  with assms(1) show ?thesis by (simp add: restore_retry_claim_def Let_def completed_end_claim)
next
  case (OReconcile now)
  with assms(1) show ?thesis
    unfolding reconcile_transient_states_def OReconcile exec_op.simps Let_def
    by (intro holds_write_connect holds_begin_block)
      (auto intro!: holds_intros is_completed_update)
next
  case (OReserve key hash t now)
  with assms(1) show ?thesis
    by (auto simp: reserve_request_def Let_def split: option.splits
        intro!: holds_write_connect holds_intros)
next
  case (OCompleteRequest key now)
  with assms(1) show ?thesis
    by (auto simp: complete_request_def finish_request_def Let_def
        intro!: holds_write_connect holds_intros)
next
  case (OFailRequest key err now)
  with assms(1) show ?thesis
    by (auto simp: fail_request_def finish_request_def Let_def
        intro!: holds_write_connect holds_intros)
qed

text \<open>
  C2. A completed task stays completed: no sequence of registry calls (late status events,
  retries, restores of failed retries, start-up reconciliation) moves it to another status,
  unless its record is deleted or a retry claim explicitly accepts completed tasks.
\<close>

theorem completed_is_final:
  "holds (is_completed tid) c \<Longrightarrow> \<forall>x \<in> set xs. op_spares tid x \<Longrightarrow>
   holds (is_completed tid) (run_ops xs c)"
  by (induction xs arbitrary: c) (simp_all add: completed_exec_op)

section \<open>The retry claim is a fenced lease\<close>

definition claim_holder :: "task_db conn \<Rightarrow> string \<Rightarrow> string option" where
  "claim_holder c tid = map_option c_token (claim_of (committed c) tid)"

definition claim_expired :: "int \<Rightarrow> task_db conn \<Rightarrow> string \<Rightarrow> int \<Rightarrow> bool" where
  "claim_expired ttl c tid now \<longleftrightarrow> \<not> claim_fresh tid ttl now (committed c)"

definition registry_ready :: "task_db conn \<Rightarrow> bool" where
  "registry_ready c \<longleftrightarrow> idle c \<and> wf_db (committed c)"

definition claim_acquire ::
  "task_status list \<Rightarrow> bool \<Rightarrow> int \<Rightarrow> string \<Rightarrow> string \<Rightarrow> int \<Rightarrow> task_db conn \<Rightarrow> bool \<times> task_db conn" where
  "claim_acquire allowed auto ttl tid tok now c =
     (case claim_retry tid allowed auto ttl now tok c of
        (Inr (Some k), c') \<Rightarrow> (True, c')
      | (_, c') \<Rightarrow> (False, c'))"

definition claim_finish :: "(task_status \<times> string) option \<Rightarrow> string \<Rightarrow> string \<Rightarrow> int \<Rightarrow> task_db conn \<Rightarrow> bool \<times> task_db conn" where
  "claim_finish outcome tid tok now c =
     (case (case outcome of None \<Rightarrow> complete_retry_claim tid tok now c
                          | Some (st, err) \<Rightarrow> restore_retry_claim tid tok st err now c) of
        (Inr True, c') \<Rightarrow> (True, c')
      | (_, c') \<Rightarrow> (False, c'))"

lemma claim_acquire_cases:
  assumes "registry_ready c"
  shows "(fst (claim_acquire allowed auto ttl tid tok now c) \<longrightarrow>
            claim_expired ttl c tid now \<and>
            claim_holder (snd (claim_acquire allowed auto ttl tid tok now c)) =
              (claim_holder c)(tid \<mapsto> tok)) \<and>
         (\<not> fst (claim_acquire allowed auto ttl tid tok now c) \<longrightarrow>
            claim_holder (snd (claim_acquire allowed auto ttl tid tok now c)) = claim_holder c \<or>
            claim_expired ttl c tid now \<and>
            claim_holder (snd (claim_acquire allowed auto ttl tid tok now c)) =
              (claim_holder c)(tid := None)) \<and>
         registry_ready (snd (claim_acquire allowed auto ttl tid tok now c))"
proof -
  have ok: "idle c" "wf_db (committed c)" using assms by (simp_all add: registry_ready_def)
  show ?thesis
  proof (cases "allowed = [] \<or> ttl < 0")
    case True
    then show ?thesis using assms by (auto simp: claim_acquire_def claim_retry_def)
  next
    case False
    then have args: "allowed \<noteq> []" "0 \<le> ttl" by auto
    let ?d = "committed c" and ?s = "swept_db tid now (committed c)"
    have s: "claim_of ?s = (claim_of ?d)(tid := None)" by (rule claim_of_swept [OF ok(2)])
    have wf: "wf_db ?s" by (rule wf_swept [OF ok(2)])
    have wfc: "db_ok (snd (claim_retry tid allowed auto ttl now tok c))"
      by (rule db_ok_claim_retry) (simp add: holds_idle ok)
    show ?thesis
      using wfc s wf ok assms claim_of_claimed [of ?s tid]
      unfolding claim_acquire_def claim_retry_eq [OF ok args]
      by (auto simp: claim_holder_def claim_expired_def registry_ready_def fun_eq_iff idle_def
          holds_def split: option.splits)
  qed
qed

lemma end_claim_holder:
  assumes "registry_ready c" "\<And>r. t_id (f r) = t_id r"
  shows "(claim_holder c tid \<noteq> Some tok \<longrightarrow> end_claim tid tok f c = (Inr False, c)) \<and>
         (fst (end_claim tid tok f c) = Inr True \<longrightarrow>
            claim_holder (snd (end_claim tid tok f c)) = (claim_holder c)(tid := None)) \<and>
         (fst (end_claim tid tok f c) \<noteq> Inr True \<longrightarrow> snd (end_claim tid tok f c) = c) \<and>
         registry_ready (snd (end_claim tid tok f c))"
proof -
  have ok: "idle c" "wf_db (committed c)" using assms by (simp_all add: registry_ready_def)
  let ?d = "committed c"
  have own: "owns_claim ?d tid tok \<longleftrightarrow> claim_holder c tid = Some tok"
    using ok(2) by (simp add: owns_claim_iff claim_holder_def)
  have del: "claim_of (?d\<lparr>claims := delete_where (\<lambda>r. c_task r = tid \<and> c_token r = tok)
      (claims ?d)\<rparr>) = (claim_of ?d)(tid := None)" if "claim_holder c tid = Some tok"
    using that claim_of_delete_own [OF ok(2)] by (auto simp: claim_holder_def)
  have upd: "claim_of ((update_tasks P f ?d)\<lparr>claims := cs\<rparr>) = claim_of (?d\<lparr>claims := cs\<rparr>)" for P cs
    by (simp add: claim_of_def fun_eq_iff)
  have wf: "db_ok (snd (end_claim tid tok f c))"
    by (rule db_ok_end_claim) (simp_all add: holds_idle ok assms(2))
  show ?thesis
    using wf own del ok assms(1)
    by (auto simp: end_claim_eq [OF ok assms(2)] claim_holder_def fun_eq_iff upd
        registry_ready_def holds_def idle_def)
qed

lemma claim_finish_cases:
  assumes "registry_ready c"
  shows "(claim_holder c tid \<noteq> Some tok \<longrightarrow> claim_finish oc tid tok now c = (False, c)) \<and>
         (fst (claim_finish oc tid tok now c) \<longrightarrow>
            claim_holder (snd (claim_finish oc tid tok now c)) = (claim_holder c)(tid := None)) \<and>
         (\<not> fst (claim_finish oc tid tok now c) \<longrightarrow> snd (claim_finish oc tid tok now c) = c) \<and>
         registry_ready (snd (claim_finish oc tid tok now c))"
proof (cases oc)
  case None
  have "claim_finish oc tid tok now c =
      (let x = end_claim tid tok (error_row Running None now) c in (fst x = Inr True, snd x))"
    by (simp add: claim_finish_def None complete_retry_claim_def Let_def
        split: prod.splits sum.splits bool.splits)
  with end_claim_holder [OF assms, of "error_row Running None now" tid tok]
  show ?thesis by (simp add: Let_def)
next
  case (Some o')
  obtain st err where o': "o' = (st, err)" by (cases o')
  let ?f = "error_row st (persisted_error st err) now"
  have fin: "claim_finish oc tid tok now c =
      (if \<not> valid_fallback st then (False, c)
       else let x = end_claim tid tok ?f c in (fst x = Inr True, snd x))"
    by (simp add: claim_finish_def Some o' restore_retry_claim_def Let_def
        split: prod.splits sum.splits bool.splits)
  show ?thesis
  proof (cases "valid_fallback st")
    case True
    with fin end_claim_holder [OF assms, of ?f tid tok] show ?thesis by (simp add: Let_def)
  next
    case False
    with fin assms show ?thesis by simp
  qed
qed

interpretation retry_lease: fenced_lease "claim_acquire allowed auto ttl" "claim_finish outcome"
    claim_holder "claim_expired ttl" registry_ready
  for allowed auto ttl outcome
proof (unfold_locales, goal_cases)
  case (1 s k t now)
  then show ?case using claim_acquire_cases [OF 1] by simp
next
  case (2 s k t now)
  then show ?case using claim_finish_cases [OF 2] by simp
next
  case (3 s k u now t)
  then show ?case using claim_acquire_cases [OF 3(1), of allowed auto ttl k t now] by blast
next
  case (4 s k t now)
  then show ?case using claim_acquire_cases [OF 4(1)] by simp
next
  case (5 s k t now)
  then show ?case using claim_acquire_cases [OF 5(1)] by blast
next
  case (6 s k t now)
  then show ?case using claim_finish_cases [OF 6(1)] by blast
next
  case (7 s k t now)
  then show ?case using claim_finish_cases [OF 7(1)] by simp
next
  case (8 s k t now)
  then show ?case using claim_finish_cases [OF 8(1)] by simp
qed

text \<open>
  C3. A retry is owned by one caller: while its claim is fresh every other claim of the task
  is refused, and after the claim went to another token the former owner can neither
  complete nor restore the retry, and its attempt changes nothing.
\<close>

theorem retry_claim_is_fenced:
  assumes "registry_ready c"
    and "claim_retry tid allowed auto ttl now tok c = (Inr (Some k), c')"
  shows "(\<not> claim_expired ttl' c' tid now' \<longrightarrow>
            \<not> fst (claim_acquire allowed' auto' ttl' tid tok' now' c')) \<and>
         (tok' \<noteq> tok \<longrightarrow> claim_finish oc tid tok' now' c' = (False, c'))"
proof -
  have got: "claim_acquire allowed auto ttl tid tok now c = (True, c')"
    using assms(2) by (simp add: claim_acquire_def)
  have taken: "claim_holder c' = (claim_holder c)(tid \<mapsto> tok)" and inv: "registry_ready c'"
    using retry_lease.acquire_taken [OF assms(1)] retry_lease.invar_acquire [OF assms(1)] got
    by (metis fst_conv snd_conv)+
  have "\<not> fst (claim_acquire allowed' auto' ttl' tid tok' now' c')"
    if "\<not> claim_expired ttl' c' tid now'"
    using retry_lease.acquire_held [OF inv _ that] taken by simp
  moreover have "claim_finish oc tid tok' now' c' = (False, c')" if "tok' \<noteq> tok"
    using retry_lease.finish_fenced [OF inv] taken that by simp
  ultimately show ?thesis by blast
qed

text \<open>
  However callers interleave, a task's retry is ended successfully at most once per
  successful claim: a dispatch can never be confirmed twice for one claim.
\<close>

theorem retries_end_once_per_claim:
  assumes "registry_ready c" "claim_of (committed c) tid = None"
  shows "fenced_lease.ended (claim_acquire allowed auto ttl) (claim_finish oc) tid es c
       \<le> fenced_lease.taken (claim_acquire allowed auto ttl) (claim_finish oc) tid es c"
  using retry_lease.ended_le_taken [OF assms(1), where k = tid and es = es] assms(2)
  by (simp add: claim_holder_def)

section \<open>Functional behaviour\<close>

lemma task_of_set_status:
  "task_of d tid = Some r \<Longrightarrow>
   task_of (update_tasks (\<lambda>r. t_id r = tid) (set_status_row st pr err now) d) =
     (task_of d)(tid \<mapsto> set_status_row st pr err now r)"
proof
  fix x
  assume r: "task_of d tid = Some r"
  show "task_of (update_tasks (\<lambda>r. t_id r = tid) (set_status_row st pr err now) d) x =
      ((task_of d)(tid \<mapsto> set_status_row st pr err now r)) x"
    using r by (cases "task_of d x") (auto simp: table_simps dest: task_of_id)
qed

text \<open>
  \<open>update_status\<close> answers whether the task exists and the transition is allowed (or the
  status is unchanged); it then rewrites that task alone: the new status, the first
  non-null pull-request URL, an error message only in a failing status. A refused update
  changes nothing.
\<close>

theorem update_status_functional:
  assumes "idle c" and "update_status tid st pr err now c = (res, c')"
  shows "\<exists>ok. res = Inr ok \<and>
    (ok \<longleftrightarrow> (\<exists>r. task_of (committed c) tid = Some r \<and>
               (t_status r = st \<or> st \<in> set (allowed_transitions (t_status r))))) \<and>
    (\<not> ok \<longrightarrow> c' = c) \<and>
    (ok \<longrightarrow> idle c' \<and> claims (committed c') = claims (committed c) \<and>
       requests (committed c') = requests (committed c) \<and>
       task_of (committed c') = (task_of (committed c))
         (tid \<mapsto> set_status_row st pr err now (the (task_of (committed c) tid))))"
proof (cases "task_of (committed c) tid")
  case None
  with assms show ?thesis by (auto simp: update_status_eq)
next
  case (Some r)
  show ?thesis
  proof (cases "t_status r = st \<or> st \<in> set (allowed_transitions (t_status r))")
    case True
    with assms Some show ?thesis
      by (auto simp: update_status_eq idle_def task_of_set_status)
  next
    case False
    with assms Some show ?thesis by (auto simp: update_status_eq)
  qed
qed

lemma claim_retry_Some:
  assumes "registry_ready c" "claim_retry tid allowed auto ttl now tok c = (Inr (Some k), c')"
  shows "\<not> claim_fresh tid ttl now (committed c)"
    and "status_of (swept_db tid now (committed c)) tid = Some (rc_previous k)"
    and "rc_previous k \<in> set allowed" and "rc_token k = tok"
    and "c' = \<lparr>committed = claimed_db tid (rc_previous k) auto now tok
               (swept_db tid now (committed c)), open_tx = None\<rparr>"
proof -
  have args: "allowed \<noteq> []" "0 \<le> ttl"
    using assms(2) by (auto simp: claim_retry_def split: if_splits)
  have ok: "idle c" "wf_db (committed c)" using assms(1) by (simp_all add: registry_ready_def)
  show "\<not> claim_fresh tid ttl now (committed c)"
    and "status_of (swept_db tid now (committed c)) tid = Some (rc_previous k)"
    and "rc_previous k \<in> set allowed" and "rc_token k = tok"
    and "c' = \<lparr>committed = claimed_db tid (rc_previous k) auto now tok
               (swept_db tid now (committed c)), open_tx = None\<rparr>"
    using assms(2) unfolding claim_retry_eq [OF ok args]
    by (auto split: if_splits option.splits)
qed

lemma end_claim_own:
  assumes "registry_ready c" "claim_holder c tid = Some tok"
    "status_of (committed c) tid = Some Retrying" "\<And>r. t_id (f r) = t_id r"
  shows "end_claim tid tok f c = (Inr True, \<lparr>committed =
            (update_tasks (\<lambda>r. t_id r = tid \<and> t_status r = Retrying) f (committed c))
              \<lparr>claims := delete_where (\<lambda>r. c_task r = tid \<and> c_token r = tok) (claims (committed c))\<rparr>,
            open_tx = None\<rparr>)"
  using assms
  by (simp add: registry_ready_def end_claim_eq owns_claim_iff claim_holder_def)

lemma status_after_end:
  assumes "status_of d tid = Some Retrying"
  shows "status_of ((update_tasks (\<lambda>r. t_id r = tid \<and> t_status r = Retrying)
            (error_row st e now) d)) = (status_of d)(tid \<mapsto> st)"
proof
  fix x
  show "status_of ((update_tasks (\<lambda>r. t_id r = tid \<and> t_status r = Retrying)
            (error_row st e now) d)) x = ((status_of d)(tid \<mapsto> st)) x"
    using assms
    by (cases "task_of d x") (auto simp: table_simps status_of_def dest: task_of_id)
qed

lemma claimed_state:
  assumes "registry_ready c" "claim_retry tid allowed auto ttl now tok c = (Inr (Some k), c')"
  shows "registry_ready c'" and "claim_holder c' tid = Some tok"
    and "status_of (committed c') = (status_of (committed c))(tid \<mapsto> Retrying)"
proof -
  have got: "claim_acquire allowed auto ttl tid tok now c = (True, c')"
    using assms(2) by (simp add: claim_acquire_def)
  show "registry_ready c'"
    using retry_lease.invar_acquire [OF assms(1)] got by (metis snd_conv)
  show "claim_holder c' tid = Some tok"
    using retry_lease.acquire_taken [OF assms(1)] got by (metis fst_conv snd_conv map_upd_Some_unfold)
  show "status_of (committed c') = (status_of (committed c))(tid \<mapsto> Retrying)"
    using claim_retry_Some [OF assms] by (auto simp: status_claimed status_swept fun_eq_iff)
qed

text \<open>
  A retry that fails gives the task back: claiming a task and then restoring the claim
  with its previous status leaves that status, no claim on the task, and the status of
  every other task as before.
\<close>

theorem claim_restore_roundtrip:
  assumes "registry_ready c"
    and "claim_retry tid allowed auto ttl now tok c = (Inr (Some k), c1)"
    and "valid_fallback (rc_previous k)"
    and "restore_retry_claim tid (rc_token k) (rc_previous k) err now' c1 = (res, c2)"
  shows "res = Inr True \<and> claim_holder c2 tid = None \<and>
         status_of (committed c2) = (status_of (committed c))(tid \<mapsto> rc_previous k)"
proof -
  note c1 = claimed_state [OF assms(1,2)]
  have tok: "rc_token k = tok" by (rule claim_retry_Some(4) [OF assms(1,2)])
  have st: "status_of (committed c1) tid = Some Retrying" using c1(3) by simp
  let ?f = "error_row (rc_previous k) (persisted_error (rc_previous k) err) now'"
  have e: "end_claim tid tok ?f c1 = (res, c2)"
    using assms(3,4) tok by (simp add: restore_retry_claim_def)
  have "res = Inr True \<and> status_of (committed c2) = (status_of (committed c1))(tid \<mapsto> rc_previous k)"
    using e end_claim_own [OF c1(1,2) st, of ?f] by (auto simp: status_after_end [OF st])
  moreover have "claim_holder c2 tid = None" if "res = Inr True"
    using end_claim_holder [OF c1(1), of ?f tid tok] e that by simp
  ultimately show ?thesis using c1(3) by simp
qed

text \<open>Completing a claim puts the task into running and frees it.\<close>

lemma claim_complete:
  assumes "registry_ready c"
    and "claim_retry tid allowed auto ttl now tok c = (Inr (Some k), c1)"
    and "complete_retry_claim tid tok now' c1 = (res, c2)"
  shows "res = Inr True \<and> claim_holder c2 tid = None \<and> registry_ready c2 \<and>
         status_of (committed c2) = (status_of (committed c))(tid \<mapsto> Running)"
proof -
  note c1 = claimed_state [OF assms(1,2)]
  have st: "status_of (committed c1) tid = Some Retrying" using c1(3) by simp
  let ?f = "error_row Running None now'"
  have e: "end_claim tid tok ?f c1 = (res, c2)"
    using assms(3) by (simp add: complete_retry_claim_def)
  have "res = Inr True \<and> status_of (committed c2) = (status_of (committed c1))(tid \<mapsto> Running)"
    using e end_claim_own [OF c1(1,2) st, of ?f] by (auto simp: status_after_end [OF st])
  moreover have "claim_holder c2 tid = None" if "res = Inr True"
    using end_claim_holder [OF c1(1), of ?f tid tok] e that by simp
  moreover have "registry_ready c2"
    using end_claim_holder [OF c1(1), of ?f tid tok] e by simp
  ultimately show ?thesis using c1(3) by simp
qed

section \<open>Reconciliation at start-up\<close>

definition settled :: "task_status \<Rightarrow> task_status" where
  "settled st = (if st = Retrying \<or> st = Restarted then Stuck else st)"

lemma status_of_map:
  assumes "\<And>r. t_id (f r) = t_id r" "\<And>r. t_status (f r) = g (t_status r)"
  shows "status_of (d\<lparr>tasks := map f (tasks d)\<rparr>) tid = map_option g (status_of d tid)"
proof -
  have "row_by t_id tid (map f ts) = map_option f (row_by t_id tid ts)" for ts :: "task_row list"
    by (induction ts) (auto simp: assms(1))
  then show ?thesis
    by (simp add: status_of_def task_of_def option.map_comp comp_def assms(2))
qed

text \<open>
  After the start-up pass no task is retrying or restarted: each of those is stuck, all
  other tasks keep their status, and exactly the claims of the former are gone.
\<close>

theorem reconcile_settles:
  assumes "registry_ready c" and "reconcile_transient_states now c = (res, c')"
  shows "registry_ready c' \<and>
    status_of (committed c') tid = map_option settled (status_of (committed c) tid) \<and>
    (k \<in> set (claims (committed c')) \<longleftrightarrow> k \<in> set (claims (committed c)) \<and>
       status_of (committed c) (c_task k) \<notin> {Some Retrying, Some Restarted})"
proof -
  let ?d = "committed c"
  let ?tr = "\<lambda>r. t_status r = Retrying \<or> t_status r = Restarted"
  let ?stale = "\<lambda>k. \<exists>r \<in> set (filter ?tr (tasks ?d)). t_id r = c_task k"
  let ?f1 = "error_row Stuck (Some ''Retry interrupted by process restart'') now"
  let ?f2 = "error_row Stuck (Some ''Legacy restarted state requires reconciliation'') now"
  have ok: "idle c" "wf_db ?d" using assms(1) by (simp_all add: registry_ready_def)
  have c': "c' = \<lparr>committed = update_tasks (\<lambda>r. t_status r = Restarted) ?f2
        (update_tasks (\<lambda>r. t_status r = Retrying) ?f1
          (?d\<lparr>claims := delete_where ?stale (claims ?d)\<rparr>)), open_tx = None\<rparr>"
    using assms(2) ok(1)
    by (auto simp: reconcile_transient_states_def write_connect_def begin_immediate_idle Let_def
        commit_eq)
  have "registry_ready c'"
    using c' ok(2) by (simp add: registry_ready_def idle_def wf_update_tasks wf_delete_claims)
  moreover have "status_of (committed c') tid = map_option settled (status_of ?d tid)"
    using c' by (cases "task_of ?d tid") (auto simp: status_of_def table_simps settled_def)
  moreover have "?stale k \<longleftrightarrow> status_of ?d (c_task k) \<in> {Some Retrying, Some Restarted}"
    using ok(2)
    by (force simp: status_of_def task_of_def wf_db_def dest: row_by_SomeD row_by_in_keyed)
  ultimately show ?thesis
    using c' by (auto simp: set_delete_where)
qed

section \<open>Idempotent requests\<close>

lemma reserve_first:
  assumes "idle c" "row_by q_key key (requests (committed c)) = None"
    "tid \<notin> q_task ` set (requests (committed c))"
  shows "reserve_request key hash tid now c =
    (Inr \<lparr>v_owner = True, v_task = tid, v_state = ReqPending, v_error = None\<rparr>,
     \<lparr>committed = (committed c)\<lparr>requests := requests (committed c) @
        [\<lparr>q_key = key, q_hash = hash, q_task = tid, q_state = ReqPending, q_error = None,
          q_updated_at = now\<rparr>]\<rparr>, open_tx = None\<rparr>)"
  using assms by (simp add: reserve_request_def write_connect_def Let_def commit_eq)

lemma reserve_replay:
  assumes "row_by q_key key (requests (view c)) = Some q"
  shows "(q_hash q \<noteq> hash \<longrightarrow> fst (reserve_request key hash tid now c) = Inl IdempotencyConflict) \<and>
         (q_hash q = hash \<longrightarrow> (\<exists>v. fst (reserve_request key hash tid now c) = Inr v \<and>
            \<not> v_owner v \<and> v_task v = q_task q))"
  using assms by (auto simp: reserve_request_def write_connect_def Let_def)

text \<open>
  Only one caller ever owns an idempotency key: after a first reservation every later
  one with the same key gets the first caller's task id without owning it, and one whose
  request differs is a conflict.
\<close>

theorem reservation_is_unique:
  assumes "idle c" "row_by q_key key (requests (committed c)) = None"
    and "tid \<notin> q_task ` set (requests (committed c))"
    and "reserve_request key hash tid now c = (res, c1)"
  shows "(\<exists>v. res = Inr v \<and> v_owner v \<and> v_task v = tid) \<and>
    (\<exists>v. fst (reserve_request key hash tid' now' c1) = Inr v \<and> \<not> v_owner v \<and> v_task v = tid) \<and>
    (hash' \<noteq> hash \<longrightarrow> fst (reserve_request key hash' tid' now' c1) = Inl IdempotencyConflict)"
proof -
  let ?q = "\<lparr>q_key = key, q_hash = hash, q_task = tid, q_state = ReqPending, q_error = None,
             q_updated_at = now\<rparr>"
  have first: "res = Inr \<lparr>v_owner = True, v_task = tid, v_state = ReqPending, v_error = None\<rparr>"
    "requests (view c1) = requests (committed c) @ [?q]"
    using assms by (auto simp: reserve_first view_def)
  have "row_by q_key key (requests (view c1)) = Some ?q"
    using first(2) assms(2) by (simp add: row_by_append)
  from reserve_replay [OF this, of hash tid' now'] reserve_replay [OF this, of hash' tid' now'] first(1)
  show ?thesis by simp
qed

text \<open>
  Replaying a request that is already settled returns without ending the transaction its
  INSERT opened: the shared writer connection stays inside it, and the next retry claim
  (whose BEGIN IMMEDIATE needs an idle connection) raises instead of running.
\<close>

theorem settled_replay_leaks_transaction:
  assumes "idle c" "row_by q_key key (requests (committed c)) = Some q"
    and "q_hash q = hash" "q_state q \<noteq> ReqPending"
    and "allowed \<noteq> []" "0 \<le> ttl"
    and "reserve_request key hash tid now c = (res, c1)"
  shows "\<not> idle c1 \<and> committed c1 = committed c \<and>
    fst (claim_retry t allowed auto ttl now' tok c1) =
      Inl (OperationalError ''cannot start a transaction within a transaction'')"
proof -
  have "c1 = dml id c"
    using assms by (auto simp: reserve_request_def write_connect_def Let_def)
  then have busy: "\<not> idle c1" "committed c1 = committed c" by simp_all
  then show ?thesis
    using assms(5,6) by (simp add: claim_retry_def write_connect_def begin_immediate_busy)
qed

section \<open>Errors\<close>

definition err_of :: "'a res \<times> task_db conn \<Rightarrow> exc option" where
  "err_of x = (case fst x of Inl e \<Rightarrow> Some e | Inr _ \<Rightarrow> None)"

fun op_error :: "store_op \<Rightarrow> task_db conn \<Rightarrow> exc option" where
  "op_error (OCreate tid g b u rq ba tc m it now) c = err_of (create_task tid g b u rq ba tc m it now c)"
| "op_error (OUpdateStatus tid st pr err now) c = err_of (update_status tid st pr err now c)"
| "op_error (OUpdatePrUrl tid url now) c = err_of (update_pr_url tid url now c)"
| "op_error (ODelete tid) c = err_of (delete_task tid c)"
| "op_error (OClaim tid allowed auto ttl now tok) c = err_of (claim_retry tid allowed auto ttl now tok c)"
| "op_error (OComplete tid tok now) c = err_of (complete_retry_claim tid tok now c)"
| "op_error (ORestore tid tok st err now) c = err_of (restore_retry_claim tid tok st err now c)"
| "op_error (OReconcile now) c = err_of (reconcile_transient_states now c)"
| "op_error (OReserve key hash tid now) c = err_of (reserve_request key hash tid now c)"
| "op_error (OCompleteRequest key now) c = err_of (complete_request key now c)"
| "op_error (OFailRequest key err now) c = err_of (fail_request key err now c)"

lemma committed_recover [simp]: "committed (snd (recover_stale_claim tid ttl now c)) = committed c"
  by (simp add: recover_stale_claim_def Let_def split: option.splits)

lemma take_claim_error:
  "fst (take_claim tid p auto now tok c) = Inl e \<Longrightarrow>
   committed (snd (take_claim tid p auto now tok c)) = committed c"
  by (auto simp: take_claim_def Let_def split: if_splits)

lemma claim_retry_error:
  assumes "fst (claim_retry tid allowed auto ttl now tok c) = Inl e"
  shows "committed (snd (claim_retry tid allowed auto ttl now tok c)) = committed c"
proof (cases "allowed = [] \<or> ttl < 0 \<or> \<not> idle c")
  case True
  then show ?thesis
    by (auto simp: claim_retry_def write_connect_def begin_immediate_busy)
next
  case False
  let ?c1 = "c\<lparr>open_tx := Some (committed c)\<rparr>"
  obtain fr rc c2 where r: "recover_stale_claim tid ttl now ?c1 = ((fr, rc), c2)"
    by (metis surj_pair)
  then have c2: "committed c2 = committed c" using committed_recover [of tid ttl now ?c1] by simp
  show ?thesis
  proof (cases "fr \<and> (\<exists>r. task_of (view c2) tid = Some r \<and> t_status r \<in> set allowed)")
    case True
    then obtain r' where r': "task_of (view c2) tid = Some r'" "t_status r' \<in> set allowed" by blast
    with True False assms r show ?thesis
      using take_claim_error [of tid "t_status r'" auto now tok c2] c2
      by (cases "take_claim tid (t_status r') auto now tok c2")
        (auto simp: claim_retry_def write_connect_def begin_immediate_idle split: sum.splits)
  next
    case nt: False
    from assms False r nt show ?thesis
      by (auto simp: claim_retry_def write_connect_def begin_immediate_idle
          split: if_splits option.splits)
  qed
qed

lemma end_claim_error:
  "fst (end_claim tid tok f c) = Inl e \<Longrightarrow> committed (snd (end_claim tid tok f c)) = committed c"
  by (auto simp: end_claim_def write_connect_def Let_def split: if_splits sum.splits)

lemma err_of_Some [simp]: "err_of x = Some e \<longleftrightarrow> fst x = Inl e"
  by (auto simp: err_of_def split: sum.splits)

text \<open>
  A registry call that raises is atomic: whatever transaction the shared connection
  was in, the call leaves the committed data unchanged.
\<close>

theorem failing_call_commits_nothing:
  assumes "op_error x c = Some e"
  shows "committed (exec_op x c) = committed c"
proof (cases x)
  case (OCreate tid g b u rq ba tc m it now)
  with assms show ?thesis
    by (auto simp: create_task_def write_connect_def Let_def split: if_splits)
next
  case (OUpdateStatus tid st pr err now)
  with assms show ?thesis
    by (auto simp: update_status_def write_connect_def Let_def split: if_splits option.splits)
next
  case (OUpdatePrUrl tid url now)
  with assms show ?thesis by (simp add: update_pr_url_def write_connect_def Let_def)
next
  case (ODelete tid)
  with assms show ?thesis by (simp add: delete_task_def write_connect_def Let_def)
next
  case (OClaim tid allowed auto ttl now tok)
  with assms show ?thesis by (simp add: claim_retry_error)
next
  case (OComplete tid tok now)
  with assms show ?thesis by (simp add: complete_retry_claim_def end_claim_error)
next
  case (ORestore tid tok st err now)
  with assms show ?thesis
    by (auto simp: restore_retry_claim_def end_claim_error split: if_splits)
next
  case (OReconcile now)
  with assms show ?thesis
    by (auto simp: reconcile_transient_states_def write_connect_def Let_def split: sum.splits)
next
  case (OReserve key hash tid now)
  with assms show ?thesis
    by (auto simp: reserve_request_def write_connect_def Let_def split: if_splits option.splits)
next
  case (OCompleteRequest key now)
  with assms show ?thesis
    by (auto simp: complete_request_def finish_request_def write_connect_def Let_def split: if_splits)
next
  case (OFailRequest key err now)
  with assms show ?thesis
    by (auto simp: fail_request_def finish_request_def write_connect_def Let_def split: if_splits)
qed

section \<open>Worked instances\<close>

text \<open>A registry with one stuck and one completed task, and one settled request.\<close>

definition demo_row :: "string \<Rightarrow> task_status \<Rightarrow> task_row" where
  "demo_row tid st =
     \<lparr>t_id = tid, t_group = 1, t_bot = 2, t_repo_url = ''r'', t_requirements = ''q'',
      t_base_branch = ''main'', t_test_command = '''', t_model = ''m'', t_max_iterations = 100,
      t_status = st, t_created_at = 1, t_updated_at = 1, t_pr_url = None, t_error = None\<rparr>"

definition demo_conn :: "task_db conn" where
  "demo_conn = \<lparr>committed = \<lparr>tasks = [demo_row ''a'' Stuck, demo_row ''b'' Completed], claims = [],
     requests = [\<lparr>q_key = ''k'', q_hash = ''h'', q_task = ''b'', q_state = ReqCompleted,
                  q_error = None, q_updated_at = 1\<rparr>],
     groups = [\<lparr>g_id = 1, g_worker = None\<rparr>], members = [\<lparr>m_id = 2, m_group = 1\<rparr>]\<rparr>,
     open_tx = None\<rparr>"

definition demo_claimed :: "task_db conn" where
  "demo_claimed = snd (claim_retry ''a'' [Stuck] False 120 10 ''x'' demo_conn)"

lemma demo_ready: "registry_ready demo_conn" "idle demo_conn"
  by (simp_all add: registry_ready_def demo_conn_def idle_def wf_db_def keyed_def demo_row_def)

lemma demo_claim:
  "claim_retry ''a'' [Stuck] False 120 10 ''x'' demo_conn =
     (Inr (Some \<lparr>rc_token = ''x'', rc_previous = Stuck\<rparr>), demo_claimed)"
proof -
  have "fst (claim_retry ''a'' [Stuck] False 120 10 ''x'' demo_conn) =
      Inr (Some \<lparr>rc_token = ''x'', rc_previous = Stuck\<rparr>)"
    by code_simp
  then show ?thesis by (simp add: demo_claimed_def prod_eq_iff)
qed


theorem completed_is_final_witness:
  "holds (is_completed ''b'') (run_ops [OUpdateStatus ''b'' Running None None 9, OReconcile 10] demo_conn)"
proof (rule completed_is_final)
  show "holds (is_completed ''b'') demo_conn" by code_simp
qed simp

theorem retry_claim_is_fenced_witness:
  "\<not> fst (claim_acquire [Stuck, Retrying] True 120 ''a'' ''y'' 20 demo_claimed) \<and>
   claim_finish None ''a'' ''y'' 20 demo_claimed = (False, demo_claimed)"
proof -
  have "\<not> claim_expired 120 demo_claimed ''a'' 20" by code_simp
  then show ?thesis
    using retry_claim_is_fenced [OF demo_ready(1) demo_claim, where tok' = "''y''" and oc = None]
    by simp
qed

theorem retries_end_once_per_claim_witness:
  "fenced_lease.ended (claim_acquire [Stuck] True 120) (claim_finish None) ''a''
       [Acquire ''a'' ''x'' 1, Finish ''a'' ''x'' 2, Finish ''a'' ''x'' 3] demo_conn
   \<le> fenced_lease.taken (claim_acquire [Stuck] True 120) (claim_finish None) ''a''
       [Acquire ''a'' ''x'' 1, Finish ''a'' ''x'' 2, Finish ''a'' ''x'' 3] demo_conn"
proof (rule retries_end_once_per_claim [OF demo_ready(1)])
  show "claim_of (committed demo_conn) ''a'' = None" by code_simp
qed

theorem update_status_functional_witness:
  "status_of (committed (snd (update_status ''a'' Failed None (Some ''e'') 9 demo_conn))) ''a'' = Some Failed"
proof -
  have t: "task_of (committed demo_conn) ''a'' = Some (demo_row ''a'' Stuck)" by code_simp
  have a: "Failed \<in> set (allowed_transitions (t_status (demo_row ''a'' Stuck)))"
    by (simp add: demo_row_def)
  obtain res c' where e: "update_status ''a'' Failed None (Some ''e'') 9 demo_conn = (res, c')"
    by (metis surj_pair)
  obtain ok where "ok \<longleftrightarrow> (\<exists>r. task_of (committed demo_conn) ''a'' = Some r \<and>
        (t_status r = Failed \<or> Failed \<in> set (allowed_transitions (t_status r))))"
      "ok \<longrightarrow> task_of (committed c') = (task_of (committed demo_conn))
        (''a'' \<mapsto> set_status_row Failed None (Some ''e'') 9 (the (task_of (committed demo_conn) ''a'')))"
    using update_status_functional [OF demo_ready(2) e] by blast
  then have "task_of (committed c') ''a'' = Some (set_status_row Failed None (Some ''e'') 9 (demo_row ''a'' Stuck))"
    using t a by simp
  then show ?thesis by (simp add: status_of_def e)
qed

theorem claim_restore_roundtrip_witness:
  "status_of (committed (snd (restore_retry_claim ''a'' ''x'' Stuck ''boom'' 11 demo_claimed))) ''a'' = Some Stuck"
proof -
  obtain res c2 where e: "restore_retry_claim ''a'' ''x'' Stuck ''boom'' 11 demo_claimed = (res, c2)"
    by (metis surj_pair)
  show ?thesis
    using claim_restore_roundtrip [OF demo_ready(1) demo_claim, of "''boom''" 11 res c2] e
    by (simp add: valid_fallback_def)
qed

theorem reconcile_settles_witness:
  "status_of (committed (snd (reconcile_transient_states 12 demo_claimed))) ''a'' = Some Stuck"
proof -
  obtain res c' where e: "reconcile_transient_states 12 demo_claimed = (res, c')"
    by (metis surj_pair)
  have r: "registry_ready demo_claimed" by (rule claimed_state(1) [OF demo_ready(1) demo_claim])
  have s: "status_of (committed demo_claimed) ''a'' = Some Retrying" by code_simp
  show ?thesis
    using reconcile_settles [OF r e, of "''a''"] s e by (simp add: settled_def)
qed

theorem reservation_is_unique_witness:
  "fst (reserve_request ''n'' ''g'' ''t2'' 6 (snd (reserve_request ''n'' ''h'' ''t1'' 5 demo_conn)))
     = Inl IdempotencyConflict"
proof -
  obtain res c1 where e: "reserve_request ''n'' ''h'' ''t1'' 5 demo_conn = (res, c1)"
    by (metis surj_pair)
  have h: "row_by q_key ''n'' (requests (committed demo_conn)) = None"
    "''t1'' \<notin> q_task ` set (requests (committed demo_conn))"
    by (simp_all add: demo_conn_def)
  show ?thesis
    using reservation_is_unique [OF demo_ready(2) h e, of "''t2''" 6 "''g''"] e by simp
qed

theorem settled_replay_leaks_transaction_witness:
  "\<not> idle (snd (reserve_request ''k'' ''h'' ''n'' 5 demo_conn))"
proof -
  obtain res c1 where e: "reserve_request ''k'' ''h'' ''n'' 5 demo_conn = (res, c1)"
    by (metis surj_pair)
  show ?thesis
    using settled_replay_leaks_transaction [OF demo_ready(2) _ _ _ _ _ e, where allowed = "[Stuck]" and ttl = 1] e
    by (simp add: demo_conn_def)
qed

theorem failing_call_commits_nothing_witness:
  "committed (exec_op (OClaim ''a'' [] False 120 10 ''x'') demo_conn) = committed demo_conn"
proof (rule failing_call_commits_nothing)
  show "op_error (OClaim ''a'' [] False 120 10 ''x'') demo_conn =
      Some (ValueError ''allowed_statuses must not be empty'')"
    by (simp add: claim_retry_def)
qed

end
