(* ===== verification/Projector.thy ===== *)
theory Projector
  imports Complex_Main TaskStore
begin

text \<open>
  The projector that carries the dashboard's lifecycle events into the durable registry:
  class \<open>TaskStateProjector\<close> of \<^verbatim>\<open>plugins/agent_dashboard/task_store.py\<close>. Its queue is an
  \<open>OrderedDict\<close> keyed by event kind and task, so a newer event of a task replaces the
  pending one; its consumer \<open>run\<close> is a step relation, because producers enqueue between
  its awaits; a store call that raises is an argument of the step.
\<close>

section \<open>Events and the queue\<close>

datatype pkind = KStatus | KPrUrl

datatype pitem =
    PStatus string task_status "string option"
  | PPrUrl string string

fun item_key :: "pitem \<Rightarrow> pkind \<times> string" where
  "item_key (PStatus tid st err) = (KStatus, tid)"
| "item_key (PPrUrl tid url) = (KPrUrl, tid)"

record projector =
  max_pending :: nat
  pending :: "((pkind \<times> string) \<times> pitem) list"
  last_status :: "string \<rightharpoonup> task_status"
  inflight :: "pitem option"
  dropped_events :: nat
  idle_set :: bool

definition new_projector :: "int \<Rightarrow> projector res" where
  "new_projector n =
     (if n < 1 then Inl (ValueError ''max_pending_events must be positive'')
      else Inr \<lparr>max_pending = nat n, pending = [], last_status = Map.empty, inflight = None,
                dropped_events = 0, idle_set = True\<rparr>)"

definition backlog_size :: "projector \<Rightarrow> nat" where
  "backlog_size p = length (pending p) + (if inflight p = None then 0 else 1)"

fun is_critical :: "pitem \<Rightarrow> bool" where
  "is_critical (PPrUrl tid url) = True"
| "is_critical (PStatus tid st err) = persisted_terminal st"

text \<open>Forget the last status of an event's task when it is the one the event carries.\<close>

fun forget :: "pitem \<Rightarrow> (string \<rightharpoonup> task_status) \<Rightarrow> (string \<rightharpoonup> task_status)" where
  "forget (PStatus tid st err) m = (if m tid = Some st then m(tid := None) else m)"
| "forget (PPrUrl tid url) m = m"

definition discard_oldest_noncritical :: "projector \<Rightarrow> bool \<times> projector" where
  "discard_oldest_noncritical p =
     (case find (\<lambda>e. \<not> is_critical (snd e)) (pending p) of
        None \<Rightarrow> (False, p)
      | Some (k, item) \<Rightarrow>
          (True, p\<lparr>pending := dict_del k (pending p),
                   last_status := forget item (last_status p),
                   dropped_events := dropped_events p + 1\<rparr>))"

definition enqueue :: "pitem \<Rightarrow> projector \<Rightarrow> bool \<times> projector" where
  "enqueue item p =
     (let k = item_key item;
          accept = (\<lambda>q. (True, q\<lparr>pending := dict_del k (pending q) @ [(k, item)], idle_set := False\<rparr>))
      in if has_key k (pending p) then accept p
         else if length (pending p) \<ge> max_pending p
         then (case discard_oldest_noncritical p of
                 (True, q) \<Rightarrow> accept q
               | (False, q) \<Rightarrow> (False, q\<lparr>dropped_events := dropped_events q + 1\<rparr>))
         else accept p)"

definition enqueue_status ::
  "string \<Rightarrow> task_status \<Rightarrow> string option \<Rightarrow> projector \<Rightarrow> bool \<times> projector" where
  "enqueue_status tid st err p =
     (if tid = [] \<or> last_status p tid = Some st then (tid \<noteq> [], p)
      else
        (case enqueue (PStatus tid st err) p of
           (True, q) \<Rightarrow> (True, q\<lparr>last_status := (last_status q)(tid \<mapsto> st)\<rparr>)
         | (False, q) \<Rightarrow> (False, q)))"

definition enqueue_pr_url :: "string \<Rightarrow> string \<Rightarrow> projector \<Rightarrow> bool \<times> projector" where
  "enqueue_pr_url tid url p =
     (if tid \<noteq> [] \<and> url \<noteq> [] then enqueue (PPrUrl tid url) p else (False, p))"

section \<open>Applying an event\<close>

fun store_item :: "pitem \<Rightarrow> int \<Rightarrow> task_db conn \<Rightarrow> bool res \<times> task_db conn" where
  "store_item (PStatus tid st err) now c = update_status tid st None err now c"
| "store_item (PPrUrl tid url) now c = update_pr_url tid url now c"

definition terminal_item :: "pitem \<Rightarrow> bool" where
  "terminal_item item \<longleftrightarrow> is_critical item \<and> fst (item_key item) = KStatus"

text \<open>
  \<open>_apply\<close>: a refused status, and an accepted terminal one, is forgotten so that a later
  event of the task is not suppressed as a duplicate. \<open>fault\<close> is what the store call
  raises, if it does.
\<close>

definition apply_item ::
  "exc option \<Rightarrow> pitem \<Rightarrow> int \<Rightarrow> projector \<times> task_db conn \<Rightarrow> unit res \<times> projector \<times> task_db conn" where
  "apply_item fault item now s =
     (case s of (p, c) \<Rightarrow>
        (case fault of
           Some e \<Rightarrow> (Inl e, p, c)
         | None \<Rightarrow>
             (case store_item item now c of
                (Inl e, c') \<Rightarrow> (Inl e, p, c')
              | (Inr updated, c') \<Rightarrow>
                  (Inr (), (if \<not> updated \<or> terminal_item item
                            then p\<lparr>last_status := forget item (last_status p)\<rparr> else p), c'))))"

text \<open>Back-off between attempts: doubling, capped, with the lower half as jitter.\<close>

definition retry_delay :: "rat \<Rightarrow> rat \<Rightarrow> nat \<Rightarrow> rat" where
  "retry_delay base cap attempt = min (base * 2 ^ min (attempt - 1) 16) cap"

section \<open>The consumer\<close>

text \<open>
  One step of the system: a producer enqueues; the consumer takes the oldest event, applies
  it, or fails to (it then keeps the event and tries again after the back-off), and
  declares itself idle when nothing is left.
\<close>

inductive proj_step :: "projector \<times> task_db conn \<Rightarrow> projector \<times> task_db conn \<Rightarrow> bool" where
  step_status: "proj_step (p, c) (snd (enqueue_status tid st err p), c)"
| step_pr_url: "proj_step (p, c) (snd (enqueue_pr_url tid url p), c)"
| step_take: "inflight p = None \<Longrightarrow> pending p = (k, item) # rest \<Longrightarrow>
    proj_step (p, c) (p\<lparr>pending := rest, inflight := Some item\<rparr>, c)"
| step_apply: "inflight p = Some item \<Longrightarrow>
    apply_item fault item now (p, c) = (Inr (), p', c') \<Longrightarrow>
    proj_step (p, c) (p'\<lparr>inflight := None\<rparr>, c')"
| step_retry: "inflight p = Some item \<Longrightarrow>
    apply_item fault item now (p, c) = (Inl e, p', c') \<Longrightarrow>
    proj_step (p, c) (p', c')"
| step_idle: "inflight p = None \<Longrightarrow> pending p = [] \<Longrightarrow>
    proj_step (p, c) (p\<lparr>idle_set := True\<rparr>, c)"
| step_other: "proj_step (p, c) (p, c')"

inductive proj_steps :: "projector \<times> task_db conn \<Rightarrow> projector \<times> task_db conn \<Rightarrow> bool" where
  steps_refl: "proj_steps s s"
| steps_step: "proj_steps s t \<Longrightarrow> proj_step t u \<Longrightarrow> proj_steps s u"

text \<open>
  Cancellation: the event in flight goes back to the front unless a newer one of its key
  waits, then the queue is drained once; \<open>outcomes\<close> says for each event the drain reaches
  before its timeout whether the store call raised.
\<close>

definition requeue_inflight :: "projector \<Rightarrow> projector" where
  "requeue_inflight p =
     (case inflight p of
        None \<Rightarrow> p
      | Some item \<Rightarrow>
          (if has_key (item_key item) (pending p) then p\<lparr>inflight := None\<rparr>
           else p\<lparr>pending := (item_key item, item) # pending p, inflight := None\<rparr>))"

fun drain ::
  "exc option list \<Rightarrow> int \<Rightarrow> ((pkind \<times> string) \<times> pitem) list \<Rightarrow> projector \<times> task_db conn \<Rightarrow>
   projector \<times> task_db conn" where
  "drain (fault # faults) now ((k, item) # rest) s =
     drain faults now rest (snd (apply_item fault item now s))"
| "drain _ now _ s = s"

definition shutdown :: "exc option list \<Rightarrow> int \<Rightarrow> projector \<times> task_db conn \<Rightarrow> projector \<times> task_db conn" where
  "shutdown outcomes now s =
     (case s of (p, c) \<Rightarrow>
        (let q = requeue_inflight p;
             r = drain outcomes now (pending q) (q, c)
         in ((fst r)\<lparr>pending := [], idle_set := True\<rparr>, snd r)))"


section \<open>The queue's invariant\<close>

definition queue_ok :: "projector \<Rightarrow> bool" where
  "queue_ok p \<longleftrightarrow>
     distinct (map fst (pending p)) \<and> (\<forall>(k, i) \<in> set (pending p). k = item_key i) \<and>
     length (pending p) \<le> max_pending p \<and> 0 < max_pending p \<and>
     (idle_set p \<longrightarrow> pending p = [] \<and> inflight p = None)"

text \<open>The event that carries a task's status next: the pending one, or else the one in flight.\<close>

definition carries :: "projector \<Rightarrow> string \<Rightarrow> task_status \<Rightarrow> bool" where
  "carries p tid st \<longleftrightarrow>
     (case map_of (pending p) (KStatus, tid) of
        Some i \<Rightarrow> (\<exists>e. i = PStatus tid st e)
      | None \<Rightarrow> (\<exists>e. inflight p = Some (PStatus tid st e)))"

definition terminal_queued :: "projector \<Rightarrow> bool" where
  "terminal_queued p \<longleftrightarrow>
     (\<forall>tid st. last_status p tid = Some st \<longrightarrow> persisted_terminal st \<longrightarrow> carries p tid st)"

definition proj_inv :: "projector \<Rightarrow> bool" where
  "proj_inv p \<longleftrightarrow> queue_ok p \<and> terminal_queued p"

lemma forget_le: "forget item m tid = Some st \<Longrightarrow> m tid = Some st"
  by (cases item) (auto split: if_splits)

lemma forget_own: "forget (PStatus tid st e) m tid \<noteq> Some st"
  by simp

lemma map_of_move_end:
  "map_of (dict_del k d @ [(k, v)]) = (map_of d)(k \<mapsto> v)"
  by (auto simp: map_add_def fun_eq_iff split: option.splits)

lemma move_end_ok:
  assumes "distinct (map fst d)"
  shows "distinct (map fst (dict_del k d @ [(k, v)]))"
proof -
  have "distinct (map fst (dict_del k d))" by (rule distinct_dict_del [OF assms])
  moreover have "k \<notin> set (map fst (dict_del k d))" by (simp add: keys_dict_del del: set_map)
  ultimately show ?thesis by simp
qed

lemma discard_cases:
  assumes "discard_oldest_noncritical p = (b, q)" "queue_ok p"
  obtains (kept) "\<not> b" "q = p"
  | (evicted) tid st e where "b" "((KStatus, tid), PStatus tid st e) \<in> set (pending p)"
      "\<not> persisted_terminal st"
      "q = p\<lparr>pending := dict_del (KStatus, tid) (pending p),
             last_status := forget (PStatus tid st e) (last_status p),
             dropped_events := dropped_events p + 1\<rparr>"
proof (cases "find (\<lambda>e. \<not> is_critical (snd e)) (pending p)")
  case None
  then show thesis
    using assms(1) kept by (simp add: discard_oldest_noncritical_def)
next
  case (Some x)
  obtain k item where x: "x = (k, item)" by (cases x)
  have "x \<in> set (pending p)" "\<not> is_critical (snd x)"
    using Some by (auto simp: find_Some_iff)
  then have mem: "(k, item) \<in> set (pending p)" "\<not> is_critical item"
    using x by simp_all
  have k: "k = item_key item" using mem(1) assms(2) by (auto simp: queue_ok_def)
  obtain tid st e where item: "item = PStatus tid st e" using mem(2) by (cases item) auto
  have q: "q = p\<lparr>pending := dict_del k (pending p), last_status := forget item (last_status p),
      dropped_events := dropped_events p + 1\<rparr>" and b
    using assms(1) Some x by (auto simp: discard_oldest_noncritical_def)
  show thesis
  proof (rule evicted)
    show "q = p\<lparr>pending := dict_del (KStatus, tid) (pending p),
             last_status := forget (PStatus tid st e) (last_status p),
             dropped_events := dropped_events p + 1\<rparr>"
      using q unfolding item k by simp
  qed (use mem k item \<open>b\<close> in auto)
qed

lemma max_pending_discard:
  "discard_oldest_noncritical p = (b, q) \<Longrightarrow>
   max_pending q = max_pending p \<and> inflight q = inflight p \<and> idle_set q = idle_set p"
  by (auto simp: discard_oldest_noncritical_def split: option.splits)

lemma discard_ok:
  assumes "discard_oldest_noncritical p = (b, q)" "queue_ok p"
  shows "queue_ok q \<and> (b \<longrightarrow> length (pending q) < length (pending p))"
  using assms
proof (cases rule: discard_cases)
  case (evicted tid st e)
  let ?k = "(KStatus, tid)"
  have d: "distinct (map fst (pending p))" using assms(2) by (simp add: queue_ok_def)
  have ne: "pending p \<noteq> []" using evicted(2) by auto
  have "has_key ?k (pending p)" using evicted(2) by (force simp: has_key_def)
  then have less: "length (dict_del ?k (pending p)) < length (pending p)"
    using length_dict_del [OF d] ne by simp
  moreover have "distinct (map fst (dict_del ?k (pending p)))" by (rule distinct_dict_del [OF d])
  moreover have "\<forall>(k, i) \<in> set (dict_del ?k (pending p)). k = item_key i"
    using assms(2) by (auto simp: queue_ok_def dict_del_def)
  moreover have "\<not> idle_set p" using assms(2) ne by (auto simp: queue_ok_def)
  ultimately show ?thesis
    using assms(2) evicted(4) by (simp add: queue_ok_def)
qed (use assms in simp)

lemma discard_keeps_critical:
  assumes "discard_oldest_noncritical p = (b, q)" "queue_ok p"
    "map_of (pending p) k = Some i" "is_critical i"
  shows "map_of (pending q) k = Some i"
  using assms(1,2)
proof (cases rule: discard_cases)
  case (evicted tid st e)
  have d: "distinct (map fst (pending p))" using assms(2) by (simp add: queue_ok_def)
  have "k \<noteq> (KStatus, tid)"
  proof
    assume "k = (KStatus, tid)"
    with map_of_is_SomeI [OF d evicted(2)] assms(3) have "i = PStatus tid st e" by simp
    with assms(4) evicted(3) show False by simp
  qed
  with evicted(4) assms(3) show ?thesis by simp
qed (use assms in simp)

lemma enqueue_cases:
  assumes "enqueue item p = (b, q)" "queue_ok p"
  shows "\<exists>p1. queue_ok p1 \<and> max_pending p1 = max_pending p \<and> inflight p1 = inflight p \<and>
      (p1 = p \<or> (\<exists>b'. discard_oldest_noncritical p = (b', p1))) \<and>
      (b \<longrightarrow> q = p1\<lparr>pending := dict_del (item_key item) (pending p1) @ [(item_key item, item)],
                   idle_set := False\<rparr> \<and>
             (has_key (item_key item) (pending p1) \<or> length (pending p1) < max_pending p1)) \<and>
      (\<not> b \<longrightarrow> q = p1\<lparr>dropped_events := dropped_events p1 + 1\<rparr> \<and> p1 = p)"
proof -
  obtain b1 p1 where d: "discard_oldest_noncritical p = (b1, p1)" by (metis surj_pair)
  note ok1 = discard_ok [OF d assms(2)] and mx = max_pending_discard [OF d]
  have full: "b1 \<Longrightarrow> length (pending p1) < max_pending p1"
    using ok1 mx assms(2) by (auto simp: queue_ok_def)
  have same: "\<not> b1 \<Longrightarrow> p1 = p" by (rule discard_cases [OF d assms(2)]) auto
  show ?thesis
  proof (cases "has_key (item_key item) (pending p) \<or> \<not> length (pending p) \<ge> max_pending p")
    case True
    then show ?thesis
      using assms by (intro exI [of _ p]) (auto simp: enqueue_def Let_def split: if_splits)
  next
    case False
    then show ?thesis
      using assms d ok1 mx full same
      by (intro exI [of _ p1]) (auto simp: enqueue_def Let_def split: bool.splits)
  qed
qed

lemma queue_ok_accept:
  assumes "queue_ok p" "has_key (item_key item) (pending p) \<or> length (pending p) < max_pending p"
  shows "queue_ok (p\<lparr>pending := dict_del (item_key item) (pending p) @ [(item_key item, item)],
                     idle_set := False\<rparr>)"
proof -
  let ?k = "item_key item"
  have d: "distinct (map fst (pending p))" using assms(1) by (simp add: queue_ok_def)
  have "length (dict_del ?k (pending p)) < max_pending p"
  proof (cases "has_key ?k (pending p)")
    case True
    then have "pending p \<noteq> []" by (auto simp: has_key_def)
    then show ?thesis
      using length_dict_del [OF d True] assms(1) by (cases "pending p") (auto simp: queue_ok_def)
  next
    case False
    then show ?thesis using assms(2) length_dict_del_le [of ?k "pending p"] by simp
  qed
  moreover have "\<forall>(k, i) \<in> set (dict_del ?k (pending p)). k = item_key i"
    using assms(1) by (auto simp: queue_ok_def dict_del_def)
  moreover have "distinct (map fst (dict_del ?k (pending p) @ [(?k, item)]))"
    by (rule move_end_ok [OF d])
  ultimately show ?thesis using assms(1) by (auto simp: queue_ok_def)
qed


lemma carries_same:
  "map_of (pending q) (KStatus, t) = map_of (pending p) (KStatus, t) \<Longrightarrow> inflight q = inflight p \<Longrightarrow>
   carries q t st = carries p t st"
  by (simp add: carries_def split: option.split)

lemma carriesI:
  "map_of (pending q) (KStatus, t) = Some (PStatus t st e) \<Longrightarrow> carries q t st"
  by (simp add: carries_def)

lemma carries_more [simp]:
  "carries (p\<lparr>dropped_events := n\<rparr>) = carries p"
  "carries (p\<lparr>idle_set := b\<rparr>) = carries p"
  by (auto simp: carries_def fun_eq_iff split: option.split)

lemma terminal_discard:
  assumes "discard_oldest_noncritical p = (b, q)" "proj_inv p"
  shows "terminal_queued q"
  using assms(1) assms(2) [unfolded proj_inv_def, THEN conjunct1]
proof (cases rule: discard_cases)
  case (evicted tid st e)
  have d: "distinct (map fst (pending p))" using assms(2) by (simp add: proj_inv_def queue_ok_def)
  have at: "map_of (pending p) (KStatus, tid) = Some (PStatus tid st e)"
    by (rule map_of_is_SomeI [OF d evicted(2)])
  show ?thesis
    unfolding terminal_queued_def
  proof (intro allI impI)
    fix t s
    assume "last_status q t = Some s" and final: "persisted_terminal s"
    then have "last_status p t = Some s" using evicted(4) by (auto split: if_splits)
    then have c: "carries p t s"
      using assms(2) final by (auto simp: proj_inv_def terminal_queued_def)
    have "t \<noteq> tid"
      using c at evicted(3) final by (auto simp: carries_def)
    then have "carries q t s = carries p t s"
      using evicted(4) by (intro carries_same) simp_all
    with c show "carries q t s" by simp
  qed
qed (use assms in \<open>simp add: proj_inv_def\<close>)

lemma terminal_accept:
  assumes "terminal_queued p" "k = item_key item"
    "\<And>t st. fst k = KStatus \<Longrightarrow> t = snd k \<Longrightarrow> m t = Some st \<Longrightarrow> persisted_terminal st \<Longrightarrow>
        \<exists>e. item = PStatus t st e"
    "\<And>t. fst k = KPrUrl \<or> t \<noteq> snd k \<Longrightarrow> m t = last_status p t"
  shows "terminal_queued (p\<lparr>pending := dict_del k (pending p) @ [(k, item)], idle_set := False,
                            last_status := m\<rparr>)"
  unfolding terminal_queued_def
proof (intro allI impI)
  fix t st
  assume l: "last_status (p\<lparr>pending := dict_del k (pending p) @ [(k, item)], idle_set := False,
                            last_status := m\<rparr>) t = Some st" and final: "persisted_terminal st"
  show "carries (p\<lparr>pending := dict_del k (pending p) @ [(k, item)], idle_set := False,
                            last_status := m\<rparr>) t st"
  proof (cases "fst k = KStatus \<and> t = snd k")
    case True
    then have k: "k = (KStatus, t)" by (cases k) simp
    obtain e where e: "item = PStatus t st e" using True l assms(3) [of t st] final by auto
    show ?thesis
      by (rule carriesI [of _ t st e]) (simp add: map_of_move_end k e del: map_of_append)
  next
    case False
    then have f: "fst k = KPrUrl \<or> t \<noteq> snd k" using pkind.exhaust [of "fst k"] by auto
    then have ne: "k \<noteq> (KStatus, t)" by auto
    have "carries p t st"
      using assms(4) [OF f] l assms(1) final by (auto simp: terminal_queued_def)
    moreover have "carries (p\<lparr>pending := dict_del k (pending p) @ [(k, item)], idle_set := False,
                            last_status := m\<rparr>) t st = carries p t st"
      using ne by (intro carries_same) (simp_all add: map_of_move_end del: map_of_append)
    ultimately show ?thesis by simp
  qed
qed

lemma terminal_queued_more [simp]:
  "terminal_queued (p\<lparr>dropped_events := n\<rparr>) = terminal_queued p"
  "terminal_queued (p\<lparr>idle_set := b\<rparr>) = terminal_queued p"
  "queue_ok (p\<lparr>dropped_events := n\<rparr>) = queue_ok p"
  "queue_ok (p\<lparr>last_status := m\<rparr>) = queue_ok p"
  by (simp_all add: terminal_queued_def queue_ok_def)

lemma enqueue_accepted:
  assumes "enqueue item p = (b, q)" "proj_inv p"
  obtains (refused) "\<not> b" "q = p\<lparr>dropped_events := dropped_events p + 1\<rparr>"
  | (accepted) p1 where "b" "proj_inv p1" "inflight p1 = inflight p"
      "q = p1\<lparr>pending := dict_del (item_key item) (pending p1) @ [(item_key item, item)],
              idle_set := False\<rparr>"
      "queue_ok q" "p1 = p \<or> (\<exists>b'. discard_oldest_noncritical p = (b', p1))"
proof -
  have ok: "queue_ok p" using assms(2) by (simp add: proj_inv_def)
  obtain p1 where p1: "queue_ok p1" "inflight p1 = inflight p"
      "p1 = p \<or> (\<exists>b'. discard_oldest_noncritical p = (b', p1))"
      "b \<Longrightarrow> q = p1\<lparr>pending := dict_del (item_key item) (pending p1) @ [(item_key item, item)],
                   idle_set := False\<rparr>"
      "b \<Longrightarrow> has_key (item_key item) (pending p1) \<or> length (pending p1) < max_pending p1"
      "\<not> b \<Longrightarrow> q = p1\<lparr>dropped_events := dropped_events p1 + 1\<rparr> \<and> p1 = p"
    using enqueue_cases [OF assms(1) ok] by blast
  have inv: "proj_inv p1"
    using p1(1,3) assms(2) terminal_discard by (auto simp: proj_inv_def)
  show thesis
  proof (cases b)
    case True
    show thesis
      by (rule accepted [OF True inv p1(2) p1(4) [OF True] _ p1(3)])
        (use p1(4) [OF True] queue_ok_accept [OF p1(1) p1(5) [OF True]] in simp)
  next
    case False
    with p1(6) show thesis by (intro refused) auto
  qed
qed

lemma proj_inv_status: "proj_inv p \<Longrightarrow> proj_inv (snd (enqueue_status tid st err p))"
proof -
  assume inv: "proj_inv p"
  obtain b q where e: "enqueue (PStatus tid st err) p = (b, q)" by (metis surj_pair)
  have "proj_inv (snd (if b then (True, q\<lparr>last_status := (last_status q)(tid \<mapsto> st)\<rparr>) else (False, q)))"
    using e inv
  proof (cases rule: enqueue_accepted)
    case refused
    then show ?thesis using inv by (simp add: proj_inv_def)
  next
    case (accepted p1)
    have "terminal_queued (p1\<lparr>pending := dict_del (KStatus, tid) (pending p1) @
        [((KStatus, tid), PStatus tid st err)], idle_set := False,
        last_status := (last_status p1)(tid \<mapsto> st)\<rparr>)"
      by (rule terminal_accept) (use accepted(2) in \<open>auto simp: proj_inv_def\<close>)
    then show ?thesis using accepted by (simp add: proj_inv_def)
  qed
  then show ?thesis using inv e by (auto simp: enqueue_status_def split: bool.splits)
qed

lemma proj_inv_pr_url: "proj_inv p \<Longrightarrow> proj_inv (snd (enqueue_pr_url tid url p))"
proof -
  assume inv: "proj_inv p"
  obtain b q where e: "enqueue (PPrUrl tid url) p = (b, q)" by (metis surj_pair)
  have "proj_inv q"
    using e inv
  proof (cases rule: enqueue_accepted)
    case refused
    then show ?thesis using inv by (simp add: proj_inv_def)
  next
    case (accepted p1)
    have "terminal_queued (p1\<lparr>pending := dict_del (KPrUrl, tid) (pending p1) @
        [((KPrUrl, tid), PPrUrl tid url)], idle_set := False, last_status := last_status p1\<rparr>)"
      by (rule terminal_accept) (use accepted(2) in \<open>auto simp: proj_inv_def\<close>)
    then show ?thesis using accepted by (simp add: proj_inv_def)
  qed
  then show ?thesis using inv e by (simp add: enqueue_pr_url_def)
qed


lemma apply_item_Inr:
  assumes "apply_item fault item now (p, c) = (Inr (), p', c')"
  shows "p' = p \<or> p' = p\<lparr>last_status := forget item (last_status p)\<rparr>"
    and "terminal_item item \<Longrightarrow> p' = p\<lparr>last_status := forget item (last_status p)\<rparr>"
  using assms by (auto simp: apply_item_def split: option.splits prod.splits sum.splits if_splits)

lemma apply_item_Inl:
  "apply_item fault item now (p, c) = (Inl e, p', c') \<Longrightarrow> p' = p"
  by (auto simp: apply_item_def split: option.splits prod.splits sum.splits if_splits)

lemma proj_inv_take:
  assumes "proj_inv p" "inflight p = None" "pending p = (k, item) # rest"
  shows "proj_inv (p\<lparr>pending := rest, inflight := Some item\<rparr>)"
proof -
  have k: "k = item_key item" and d: "k \<notin> set (map fst rest)"
    using assms by (auto simp: proj_inv_def queue_ok_def)
  have none: "map_of rest k = None" using d by (simp add: map_of_eq_None_iff)
  have "carries (p\<lparr>pending := rest, inflight := Some item\<rparr>) t st" if "carries p t st" for t st
  proof (cases "k = (KStatus, t)")
    case True
    with that none assms(3) show ?thesis by (auto simp: carries_def)
  next
    case False
    with that have "map_of rest (KStatus, t) \<noteq> None"
      using assms(2,3) by (auto simp: carries_def split: option.splits)
    with False that assms(3) show ?thesis by (auto simp: carries_def)
  qed
  then have "terminal_queued (p\<lparr>pending := rest, inflight := Some item\<rparr>)"
    using assms(1) by (simp add: proj_inv_def terminal_queued_def)
  moreover have "queue_ok (p\<lparr>pending := rest, inflight := Some item\<rparr>)"
    using assms by (auto simp: proj_inv_def queue_ok_def)
  ultimately show ?thesis by (simp add: proj_inv_def)
qed

lemma proj_inv_apply:
  assumes "proj_inv p" "inflight p = Some item"
    and "apply_item fault item now (p, c) = (Inr (), p', c')"
  shows "proj_inv (p'\<lparr>inflight := None\<rparr>)"
proof -
  note p' = apply_item_Inr [OF assms(3)]
  have pend: "pending p' = pending p" "idle_set p' = idle_set p" "max_pending p' = max_pending p"
    using p'(1) by auto
  have "terminal_queued (p'\<lparr>inflight := None\<rparr>)"
    unfolding terminal_queued_def
  proof (intro allI impI)
    fix t st
    assume l: "last_status (p'\<lparr>inflight := None\<rparr>) t = Some st" and final: "persisted_terminal st"
    then have "last_status p t = Some st" using p'(1) forget_le by fastforce
    then have c: "carries p t st" using assms(1) final by (simp add: proj_inv_def terminal_queued_def)
    have "map_of (pending p) (KStatus, t) \<noteq> None"
    proof
      assume "map_of (pending p) (KStatus, t) = None"
      with c assms(2) obtain e where item: "item = PStatus t st e" by (auto simp: carries_def)
      then have "p' = p\<lparr>last_status := forget item (last_status p)\<rparr>"
        using p'(2) final by (simp add: terminal_item_def)
      with l item forget_own show False by simp
    qed
    with c show "carries (p'\<lparr>inflight := None\<rparr>) t st"
      using pend by (auto simp: carries_def)
  qed
  then show ?thesis using assms(1) pend by (simp add: proj_inv_def queue_ok_def)
qed

lemma proj_inv_step: "proj_step s t \<Longrightarrow> proj_inv (fst s) \<Longrightarrow> proj_inv (fst t)"
proof (induction rule: proj_step.induct)
  case (step_idle p c)
  then show ?case by (simp add: proj_inv_def queue_ok_def)
qed (auto simp: proj_inv_status proj_inv_pr_url proj_inv_take proj_inv_apply dest: apply_item_Inl)

lemma proj_inv_steps: "proj_steps s t \<Longrightarrow> proj_inv (fst s) \<Longrightarrow> proj_inv (fst t)"
  by (induction rule: proj_steps.induct) (auto intro: proj_inv_step)

lemma proj_inv_new: "new_projector n = Inr p \<Longrightarrow> proj_inv p"
  by (auto simp: new_projector_def proj_inv_def queue_ok_def terminal_queued_def split: if_splits)

text \<open>
  C4. However producers, the consumer, failing store calls and other users of the registry
  interleave, the projector's queue never exceeds its capacity and holds one event per kind
  and task; when \<open>flush\<close> sees it idle, nothing is waiting or in flight; and a terminal
  status is remembered for de-duplication only while its own event is still on its way, so
  the memory of finished tasks is released.
\<close>

theorem projector_invariant:
  assumes "new_projector n = Inr p0" "proj_steps (p0, c0) (p, c)"
  shows "backlog_size p \<le> max_pending p + 1 \<and> distinct (map fst (pending p)) \<and>
    (idle_set p \<longrightarrow> backlog_size p = 0) \<and>
    (\<forall>tid st. last_status p tid = Some st \<and> persisted_terminal st \<longrightarrow> carries p tid st)"
proof -
  have "proj_inv p" using proj_inv_steps [OF assms(2)] proj_inv_new [OF assms(1)] by simp
  then show ?thesis by (auto simp: proj_inv_def queue_ok_def terminal_queued_def backlog_size_def)
qed

section \<open>Critical events\<close>

lemma enqueue_keeps_critical:
  assumes "enqueue item p = (b, q)" "proj_inv p" "map_of (pending p) k = Some i" "is_critical i"
  shows "map_of (pending q) k = Some (if b \<and> item_key item = k then item else i)"
  using assms(1,2)
proof (cases rule: enqueue_accepted)
  case refused
  with assms(3) show ?thesis by simp
next
  case (accepted p1)
  have "map_of (pending p1) k = Some i"
    using accepted(6)
  proof (elim disjE exE)
    fix b' assume "discard_oldest_noncritical p = (b', p1)"
    then show ?thesis
      by (rule discard_keeps_critical) (use assms in \<open>simp_all add: proj_inv_def\<close>)
  qed (use assms(3) in simp)
  with accepted show ?thesis by (simp add: map_of_move_end del: map_of_append)
qed

lemma enqueue_inflight:
  assumes "proj_inv p" shows "inflight (snd (enqueue item p)) = inflight p"
proof -
  obtain b q where e: "enqueue item p = (b, q)" by (metis surj_pair)
  have "inflight q = inflight p"
    using e assms by (cases rule: enqueue_accepted) simp_all
  with e show ?thesis by simp
qed

lemma step_keeps_critical:
  assumes "proj_step s t" "proj_inv (fst s)" "map_of (pending (fst s)) k = Some i" "is_critical i"
  shows "map_of (pending (fst t)) k \<noteq> None \<or> inflight (fst t) = Some i"
  using assms
proof (induction rule: proj_step.induct)
  case (step_status p c tid st err)
  then show ?case
    using enqueue_keeps_critical [of "PStatus tid st err" p _ _ k i]
    by (cases "enqueue (PStatus tid st err) p") (auto simp: enqueue_status_def split: bool.splits)
next
  case (step_pr_url p c tid url)
  then show ?case
    using enqueue_keeps_critical [of "PPrUrl tid url" p _ _ k i]
    by (cases "enqueue (PPrUrl tid url) p") (auto simp: enqueue_pr_url_def)
next
  case (step_apply p item fault now c p' c')
  then show ?case using apply_item_Inr(1) [OF step_apply(2)] by auto
qed (auto split: if_splits dest: apply_item_Inl)

text \<open>
  C5. A terminal status or a pull-request URL that has been accepted is never evicted: after
  any step it (or a newer event of the same kind and task) still waits, or it is in flight;
  and while it is in flight it stays so until the store has taken it.
\<close>

theorem critical_events_survive:
  assumes "proj_inv p" "is_critical i" "proj_step (p, c) (p', c')"
  shows "(map_of (pending p) k = Some i \<longrightarrow>
            map_of (pending p') k \<noteq> None \<or> inflight p' = Some i) \<and>
         (inflight p = Some i \<longrightarrow> inflight p' = Some i \<or>
            (\<exists>fault now q. apply_item fault i now (p, c) = (Inr (), q, c')))"
proof (intro conjI impI)
  show "map_of (pending p') k \<noteq> None \<or> inflight p' = Some i" if "map_of (pending p) k = Some i"
    using step_keeps_critical [OF assms(3)] assms that by simp
next
  assume i: "inflight p = Some i"
  have keeps: "inflight (snd (enqueue item p)) = inflight p" for item
    by (rule enqueue_inflight [OF assms(1)])
  show "inflight p' = Some i \<or> (\<exists>fault now q. apply_item fault i now (p, c) = (Inr (), q, c'))"
    using assms(3) i
  proof (cases rule: proj_step.cases)
    case (step_status tid st err)
    then show ?thesis
      using i keeps [of "PStatus tid st err"]
      by (auto simp: enqueue_status_def split: prod.splits bool.splits if_splits)
  next
    case (step_pr_url tid url)
    then show ?thesis
      using i keeps [of "PPrUrl tid url"] by (auto simp: enqueue_pr_url_def split: if_splits)
  qed (auto dest: apply_item_Inl)
qed


section \<open>What a drain delivers\<close>

text \<open>
  What the projector needs of its store: a status event sets the status of its own task,
  and whether it is accepted depends on that task's current status alone.
\<close>

locale status_sink =
  fixes put :: "pitem \<Rightarrow> int \<Rightarrow> 's \<Rightarrow> bool \<times> 's"
    and stat :: "'s \<Rightarrow> string \<Rightarrow> task_status option"
    and accepts :: "task_status option \<Rightarrow> task_status \<Rightarrow> bool"
    and ready :: "'s \<Rightarrow> bool"
  assumes ready_put: "ready s \<Longrightarrow> ready (snd (put item now s))"
    and put_status: "ready s \<Longrightarrow> stat (snd (put (PStatus tid v e) now s)) =
          (if accepts (stat s tid) v then (stat s)(tid \<mapsto> v) else stat s)"
    and put_pr_url: "ready s \<Longrightarrow> stat (snd (put (PPrUrl tid url) now s)) = stat s"
begin

fun put_all :: "pitem list \<Rightarrow> int \<Rightarrow> 's \<Rightarrow> 's" where
  "put_all [] now s = s"
| "put_all (item # items) now s = put_all items now (snd (put item now s))"

lemma put_other:
  "ready s \<Longrightarrow> item_key item \<noteq> (KStatus, tid) \<Longrightarrow> stat (snd (put item now s)) tid = stat s tid"
  by (cases item) (simp_all add: put_status put_pr_url)

lemma put_all_other:
  "ready s \<Longrightarrow> (KStatus, tid) \<notin> item_key ` set items \<Longrightarrow> stat (put_all items now s) tid = stat s tid"
proof (induction items arbitrary: s)
  case (Cons item items)
  then have "item_key item \<noteq> (KStatus, tid)" by auto
  with Cons show ?case using put_other [of s item tid now] ready_put [of s item now] by simp
qed simp

text \<open>With one event per task, each task ends where its own event puts it.\<close>

lemma put_all_status:
  assumes "ready s" "distinct (map item_key items)" "PStatus tid v e \<in> set items"
  shows "stat (put_all items now s) tid = (if accepts (stat s tid) v then Some v else stat s tid)"
  using assms
proof (induction items arbitrary: s)
  case (Cons item items)
  let ?s = "snd (put item now s)"
  have r: "ready ?s" by (rule ready_put [OF Cons.prems(1)])
  show ?case
  proof (cases "item = PStatus tid v e")
    case True
    have "(KStatus, tid) \<notin> item_key ` set items"
      using Cons.prems(2) True by simp
    then show ?thesis
      using put_all_other [OF r] put_status [OF Cons.prems(1)] True by simp
  next
    case False
    with Cons.prems have mem: "PStatus tid v e \<in> set items" by simp
    then have "(KStatus, tid) \<in> item_key ` set items" by force
    then have "item_key item \<noteq> (KStatus, tid)" using Cons.prems(2) by auto
    then have "stat ?s tid = stat s tid" by (rule put_other [OF Cons.prems(1)])
    with Cons.IH [OF r] Cons.prems(2) mem show ?thesis by simp
  qed
qed simp

end

definition put_event :: "pitem \<Rightarrow> int \<Rightarrow> task_db conn \<Rightarrow> bool \<times> task_db conn" where
  "put_event item now c =
     (case store_item item now c of (Inr b, c') \<Rightarrow> (b, c') | (Inl e, c') \<Rightarrow> (False, c'))"

definition accepted_from :: "task_status option \<Rightarrow> task_status \<Rightarrow> bool" where
  "accepted_from cur v \<longleftrightarrow> (\<exists>st. cur = Some st \<and> (st = v \<or> v \<in> set (allowed_transitions st)))"

lemma status_of_set_status:
  "status_of d tid = Some st \<Longrightarrow>
   status_of (update_tasks (\<lambda>r. t_id r = tid) (set_status_row v pr e now) d) =
     (status_of d)(tid \<mapsto> v)"
proof -
  assume "status_of d tid = Some st"
  then obtain r where "task_of d tid = Some r" by (auto simp: status_of_def)
  from task_of_set_status [OF this] show ?thesis by (auto simp: status_of_def fun_eq_iff)
qed

interpretation registry_sink: status_sink put_event "\<lambda>c. status_of (committed c)" accepted_from idle
proof (unfold_locales, goal_cases)
  case (1 s item now)
  then show ?case
    by (cases item) (auto simp: put_event_def update_status_eq update_pr_url_def write_connect_def
        Let_def idle_def commit_eq split: option.splits)
next
  case (2 s tid v e now)
  then show ?case
    by (cases "task_of (committed s) tid")
      (auto simp: put_event_def update_status_eq accepted_from_def status_of_set_status status_of_def
        fun_eq_iff task_of_set_status)
next
  case (3 s tid url now)
  then show ?case
    by (auto simp: put_event_def update_pr_url_def write_connect_def Let_def commit_eq fun_eq_iff
        status_of_def table_simps option.map_comp comp_def intro!: option.map_cong)
qed


lemma drain_sink:
  "length items \<le> length faults \<Longrightarrow> set faults \<subseteq> {None} \<Longrightarrow> idle (snd s) \<Longrightarrow>
   snd (drain faults now items s) = registry_sink.put_all (map snd items) now (snd s)"
proof (induction faults now items s rule: drain.induct)
  case (1 fault faults now k item rest s)
  obtain p c where s: "s = (p, c)" by (cases s)
  obtain r c' where u: "store_item item now c = (r, c')" by (cases "store_item item now c")
  have i: "idle c" using 1(4) s by simp
  have "\<exists>b. r = Inr b"
    using u i by (cases item) (auto simp: update_status_eq update_pr_url_def write_connect_def Let_def
        split: option.splits if_splits)
  then obtain b where b: "r = Inr b" ..
  have step: "snd (snd (apply_item fault item now s)) = snd (put_event item now c)"
    using 1(3) s u b by (simp add: apply_item_def put_event_def)
  have "idle (snd (put_event item now c))" by (rule registry_sink.ready_put [OF i])
  then have "snd (drain faults now rest (snd (apply_item fault item now s))) =
      registry_sink.put_all (map snd rest) now (snd (put_event item now c))"
    using 1 step by simp
  then show ?case using s by simp
qed auto

lemma map_item_key: "queue_ok p \<Longrightarrow> map item_key (map snd (pending p)) = map fst (pending p)"
  by (auto simp: queue_ok_def)

lemma requeue_map:
  assumes "queue_ok p"
  shows "distinct (map item_key (map snd (pending (requeue_inflight p)))) \<and>
    (carries p tid v \<longleftrightarrow> (\<exists>e. PStatus tid v e \<in> snd ` set (pending (requeue_inflight p))))"
proof -
  let ?q = "pending (requeue_inflight p)"
  have keys: "map item_key (map snd ?q) = map fst ?q"
    using map_item_key [OF assms] by (simp add: requeue_inflight_def split: option.split)
  have dist: "distinct (map fst ?q)"
    using assms by (auto simp: requeue_inflight_def queue_ok_def has_key_def split: option.split)
  have look: "map_of ?q (KStatus, tid) = (case map_of (pending p) (KStatus, tid) of
      Some i \<Rightarrow> Some i
    | None \<Rightarrow> (case inflight p of
                Some i \<Rightarrow> if item_key i = (KStatus, tid) then Some i else None
              | None \<Rightarrow> None))"
    by (auto simp: requeue_inflight_def has_key_def map_of_eq_None_iff
        split: option.splits dest: map_of_SomeD) (force dest: map_of_SomeD)+
  have key: "k = item_key i" if "(k, i) \<in> set ?q" for k i
    using assms that by (auto simp: requeue_inflight_def queue_ok_def split: option.splits if_splits)
  have mem: "PStatus tid v e \<in> snd ` set ?q \<longleftrightarrow> map_of ?q (KStatus, tid) = Some (PStatus tid v e)" for e
  proof
    assume "PStatus tid v e \<in> snd ` set ?q"
    then obtain k where "(k, PStatus tid v e) \<in> set ?q" by auto
    with key [OF this] show "map_of ?q (KStatus, tid) = Some (PStatus tid v e)"
      by (intro map_of_is_SomeI [OF dist]) simp
  next
    assume "map_of ?q (KStatus, tid) = Some (PStatus tid v e)"
    then show "PStatus tid v e \<in> snd ` set ?q" by (force dest: map_of_SomeD)
  qed
  have "carries p tid v \<longleftrightarrow> (\<exists>e. map_of ?q (KStatus, tid) = Some (PStatus tid v e))"
    by (auto simp: look carries_def split: option.splits)
  moreover have "distinct (map item_key (map snd ?q))" using dist by (simp only: keys)
  ultimately show ?thesis using mem by (simp only:)
qed

text \<open>
  A shutdown whose store calls succeed within the timeout loses nothing: every task
  whose status was still to be persisted (also the one in flight) ends in that status when
  the registry's lifecycle allows it, every other task keeps its own.
\<close>

theorem shutdown_delivers:
  assumes "proj_inv p" "idle c" "backlog_size p \<le> length outcomes" "set outcomes \<subseteq> {None}"
    and "shutdown outcomes now (p, c) = (p', c')"
  shows "pending p' = [] \<and>
    (carries p tid v \<longrightarrow> status_of (committed c') tid =
        (if accepted_from (status_of (committed c) tid) v then Some v
         else status_of (committed c) tid)) \<and>
    ((\<nexists>v. carries p tid v) \<longrightarrow> status_of (committed c') tid = status_of (committed c) tid)"
proof -
  let ?items = "map snd (pending (requeue_inflight p))"
  have ok: "queue_ok p" using assms(1) by (simp add: proj_inv_def)
  have "length (pending (requeue_inflight p)) \<le> backlog_size p"
    by (simp add: requeue_inflight_def backlog_size_def split: option.split)
  then have "snd (drain outcomes now (pending (requeue_inflight p)) (requeue_inflight p, c)) =
      registry_sink.put_all ?items now c"
    using assms(2-4) by (subst drain_sink) auto
  then have c': "c' = registry_sink.put_all ?items now c" and p': "pending p' = []"
    using assms(5) by (auto simp: shutdown_def Let_def)
  have has: "status_of (committed c') tid =
        (if accepted_from (status_of (committed c) tid) v then Some v
         else status_of (committed c) tid)" if "carries p tid v"
  proof -
    from that requeue_map [OF ok, of tid v] obtain e where "PStatus tid v e \<in> set ?items" by auto
    from registry_sink.put_all_status [OF assms(2) _ this] requeue_map [OF ok, of tid v] c'
    show ?thesis by simp
  qed
  have "status_of (committed c') tid = status_of (committed c) tid" if "\<nexists>v. carries p tid v"
  proof -
    have "(KStatus, tid) \<notin> item_key ` set ?items"
    proof
      assume "(KStatus, tid) \<in> item_key ` set ?items"
      then obtain i where i: "i \<in> set ?items" "item_key i = (KStatus, tid)" by (metis imageE)
      from i(2) obtain v e where "i = PStatus tid v e" by (cases i) simp_all
      with i(1) requeue_map [OF ok, of tid v] that show False by auto
    qed
    from registry_sink.put_all_other [OF assms(2) this] c' show ?thesis by simp
  qed
  with has p' show ?thesis by blast
qed

text \<open>
  The de-duplication can swallow a status for good: once a task's stuck event has been
  persisted and the task was retried (which sets it running in the registry without
  passing through the projector), a second stuck event is answered as accepted but queues
  nothing, so no later drain takes the registry out of running.
\<close>

theorem second_stuck_is_suppressed:
  assumes "proj_inv p" "idle_set p" "last_status p tid = Some Stuck" "tid \<noteq> []"
    and "registry_ready c" "status_of (committed c) tid = Some Stuck"
    and "claim_retry tid allowed auto ttl now tok c = (Inr (Some k), c1)"
    and "complete_retry_claim tid tok now1 c1 = (res, c2)"
    and "shutdown outcomes now2 (snd (enqueue_status tid Stuck err p), c2) = (p', c3)"
  shows "fst (enqueue_status tid Stuck err p) \<and> status_of (committed c3) tid = Some Running"
proof -
  have e: "enqueue_status tid Stuck err p = (True, p)"
    using assms(3,4) by (simp add: enqueue_status_def)
  have "pending p = []" "inflight p = None"
    using assms(1,2) by (auto simp: proj_inv_def queue_ok_def)
  then have "c3 = c2"
    using assms(9) e by (cases outcomes) (auto simp: shutdown_def requeue_inflight_def)
  with claim_complete [OF assms(5,7,8)] e show ?thesis by simp
qed

section \<open>Worked instances\<close>

definition demo_proj :: projector where
  "demo_proj = \<lparr>max_pending = 2, pending = [], last_status = Map.empty, inflight = None,
                dropped_events = 0, idle_set = True\<rparr>"

lemma demo_proj_inv: "proj_inv demo_proj" "new_projector 2 = Inr demo_proj"
  by (simp_all add: demo_proj_def new_projector_def proj_inv_def queue_ok_def terminal_queued_def)

theorem projector_invariant_witness:
  "backlog_size (snd (enqueue_pr_url ''a'' ''u'' (snd (enqueue_status ''a'' Running None demo_proj)))) \<le> 3"
proof -
  have "proj_steps (demo_proj, demo_conn)
      (snd (enqueue_pr_url ''a'' ''u'' (snd (enqueue_status ''a'' Running None demo_proj))), demo_conn)"
    by (rule steps_step [OF steps_step [OF steps_refl]]) (rule step_status step_pr_url)+
  from projector_invariant [OF demo_proj_inv(2) this]
  show ?thesis by (simp add: demo_proj_def enqueue_status_def enqueue_pr_url_def enqueue_def has_key_def dict_del_def)
qed

theorem critical_events_survive_witness:
  "\<exists>p. map_of (pending p) (KPrUrl, ''a'') = Some (PPrUrl ''a'' ''u'') \<and> proj_inv p \<and>
     (let q = snd (enqueue_status ''b'' Running None p) in
      map_of (pending q) (KPrUrl, ''a'') \<noteq> None \<or> inflight q = Some (PPrUrl ''a'' ''u''))"
proof -
  let ?p = "snd (enqueue_pr_url ''a'' ''u'' demo_proj)"
  have inv: "proj_inv ?p" by (rule proj_inv_pr_url [OF demo_proj_inv(1)])
  have m: "map_of (pending ?p) (KPrUrl, ''a'') = Some (PPrUrl ''a'' ''u'')"
    by (simp add: demo_proj_def enqueue_pr_url_def enqueue_def has_key_def dict_del_def)
  have "proj_step (?p, demo_conn) (snd (enqueue_status ''b'' Running None ?p), demo_conn)"
    by (rule step_status)
  from critical_events_survive [OF inv _ this] m
  have "let q = snd (enqueue_status ''b'' Running None ?p) in
      map_of (pending q) (KPrUrl, ''a'') \<noteq> None \<or> inflight q = Some (PPrUrl ''a'' ''u'')"
    unfolding Let_def by (metis is_critical.simps(1))
  with inv m show ?thesis by blast
qed

theorem shutdown_delivers_witness:
  "status_of (committed (snd (shutdown [None] 9
     (snd (enqueue_status ''a'' Failed (Some ''e'') demo_proj), demo_conn)))) ''a'' = Some Failed"
proof -
  let ?p = "snd (enqueue_status ''a'' Failed (Some ''e'') demo_proj)"
  obtain p' c' where s: "shutdown [None] 9 (?p, demo_conn) = (p', c')" by (metis surj_pair)
  have p: "backlog_size ?p \<le> length [None :: exc option]" "carries ?p ''a'' Failed"
    by (simp_all add: demo_proj_def enqueue_status_def enqueue_def has_key_def dict_del_def
        backlog_size_def carries_def)
  have st: "status_of (committed demo_conn) ''a'' = Some Stuck" by code_simp
  have "status_of (committed c') ''a'' = Some Failed"
    using shutdown_delivers [OF proj_inv_status [OF demo_proj_inv(1)] demo_ready(2) p(1) _ s,
        where tid = "''a''" and v = Failed] p(2) st
    by (simp add: accepted_from_def)
  with s show ?thesis by simp
qed

theorem second_stuck_is_suppressed_witness:
  "\<exists>c2. status_of (committed (snd (shutdown [] 13
     (snd (enqueue_status ''a'' Stuck None (demo_proj\<lparr>last_status := [''a'' \<mapsto> Stuck]\<rparr>)), c2)))) ''a''
   = Some Running"
proof -
  let ?p = "demo_proj\<lparr>last_status := [''a'' \<mapsto> Stuck]\<rparr>"
  have inv: "proj_inv ?p" "idle_set ?p"
    by (simp_all add: demo_proj_def proj_inv_def queue_ok_def terminal_queued_def
        persisted_terminal_def)
  obtain res c2 where c2: "complete_retry_claim ''a'' ''x'' 11 demo_claimed = (res, c2)"
    by (metis surj_pair)
  obtain p' c3 where c3: "shutdown [] 13 (snd (enqueue_status ''a'' Stuck None ?p), c2) = (p', c3)"
    by (metis surj_pair)
  have st: "status_of (committed demo_conn) ''a'' = Some Stuck" by code_simp
  have "status_of (committed c3) ''a'' = Some Running"
    using second_stuck_is_suppressed [OF inv _ _ demo_ready(1) st demo_claim c2 c3] by simp
  then show ?thesis by (intro exI [of _ c2]) (simp only: c3 snd_conv)
qed

end
