(* ===== verification/Progress.thy ===== *)
theory Progress
  imports Projector
begin

text \<open>
  The progress state machine of the dashboard: \<^verbatim>\<open>plugins/agent_dashboard/progress.py\<close>. The
  adapter keeps one \<open>task_progress\<close> per group, the groups it tracks, and the groups whose
  retry is claimed; every method is one definition. An event's payload is a record whose
  optional fields are the keys the handlers read; a display text is a constructor of
  \<open>detail\<close> with the values it shows. Times are rationals and arguments; arithmetic on
  fractions is exact.
\<close>

section \<open>Phases and statuses\<close>

datatype phase = Queued | Exploring | Coding | Testing | CreatingPr | PDone

fun phase_index :: "phase \<Rightarrow> nat" where
  "phase_index Queued = 0"
| "phase_index Exploring = 1"
| "phase_index Coding = 2"
| "phase_index Testing = 3"
| "phase_index CreatingPr = 4"
| "phase_index PDone = 5"

fun phase_base :: "phase \<Rightarrow> int" where
  "phase_base Queued = 0"
| "phase_base Exploring = 10"
| "phase_base Coding = 30"
| "phase_base Testing = 70"
| "phase_base CreatingPr = 90"
| "phase_base PDone = 100"

fun phase_range :: "phase \<Rightarrow> int" where
  "phase_range Queued = 10"
| "phase_range Exploring = 20"
| "phase_range Coding = 40"
| "phase_range Testing = 20"
| "phase_range CreatingPr = 10"
| "phase_range PDone = 0"

datatype lstatus =
    LRunning | LPaused | LRetrying | LStuck | LStuckPermanently | LDone | LError
  | LIncomplete | LAborted

definition terminal_status :: "lstatus \<Rightarrow> bool" where
  "terminal_status st \<longleftrightarrow> st \<in> set [LDone, LError, LAborted, LStuckPermanently, LIncomplete]"

fun persisted_status :: "lstatus \<Rightarrow> task_status" where
  "persisted_status LRunning = Running"
| "persisted_status LPaused = Paused"
| "persisted_status LRetrying = Retrying"
| "persisted_status LStuck = Stuck"
| "persisted_status LStuckPermanently = StuckPermanently"
| "persisted_status LDone = Completed"
| "persisted_status LError = Failed"
| "persisted_status LIncomplete = Incomplete"
| "persisted_status LAborted = Aborted"

fun local_status :: "task_status \<Rightarrow> lstatus" where
  "local_status Created = LRunning"
| "local_status Dispatched = LRunning"
| "local_status Running = LRunning"
| "local_status Restarted = LRunning"
| "local_status Paused = LPaused"
| "local_status Retrying = LRunning"
| "local_status Stuck = LStuck"
| "local_status StuckPermanently = LStuckPermanently"
| "local_status Completed = LDone"
| "local_status Failed = LError"
| "local_status Incomplete = LIncomplete"
| "local_status Aborted = LAborted"

datatype detail =
    NoDetail
  | Thinking int
  | Reading string
  | Editing string
  | RunningTests string
  | RunningCommand string
  | CreatingPullRequest
  | ToolFailed string
  | ToolProgress string string rat
  | ToolFinished string rat
  | BotReplied
  | TaskAborted
  | ErrorShown string
  | AwaitingConfirm
  | TaskFailed string
  | PausedFor string
  | NeedsPullRequest
  | StoppingForRetry
  | RetryFailed string
  | AutoRetryFailed string
  | TerminationFailed string
  | NoEventsFor rat phase
  | NoEvents rat
  | Shown string

section \<open>The state of a task\<close>

record task_progress =
  group_id :: int
  task_id :: string
  phase_of :: phase
  percent :: int
  detail_of :: detail
  status :: lstatus
  iteration :: int
  max_iter :: int
  elapsed_sec :: rat
  started_at :: rat
  last_event_at :: rat
  files_modified :: "string list"
  tools_called :: "string list"
  error_message :: string

definition new_progress :: "int \<Rightarrow> string \<Rightarrow> rat \<Rightarrow> task_progress" where
  "new_progress g tid now =
     \<lparr>group_id = g, task_id = tid, phase_of = Queued, percent = 0, detail_of = NoDetail,
      status = LRunning, iteration = 0, max_iter = 100, elapsed_sec = 0, started_at = now,
      last_event_at = now, files_modified = [], tools_called = [], error_message = ''''\<rparr>"

definition last_n :: "nat \<Rightarrow> 'a list \<Rightarrow> 'a list" where
  "last_n n xs = drop (length xs - n) xs"

text \<open>\<open>round(x, 1)\<close>: to a tenth, ties to even.\<close>

definition round_tenth :: "rat \<Rightarrow> rat" where
  "round_tenth x =
     (let y = x * 10; f = \<lfloor>y\<rfloor>; r = y - of_int f
      in of_int (if r > 1 / 2 \<or> (r = 1 / 2 \<and> odd f) then f + 1 else f) / 10)"

definition to_dict :: "task_progress \<Rightarrow> task_progress" where
  "to_dict s = s\<lparr>elapsed_sec := round_tenth (elapsed_sec s),
                 files_modified := last_n 20 (files_modified s),
                 tools_called := last_n 50 (tools_called s)\<rparr>"

text \<open>
  The percentage of a phase: its base plus at most nine tenths of its range, by the share
  of iterations used; 100 is reserved for \<open>done\<close>. \<open>trunc\<close> is Python's \<open>int\<close> on a float.
\<close>

definition trunc :: "rat \<Rightarrow> int" where
  "trunc x = (if x < 0 then - \<lfloor>- x\<rfloor> else \<lfloor>x\<rfloor>)"

definition iter_fraction :: "task_progress \<Rightarrow> rat" where
  "iter_fraction s = min (of_int (iteration s) / max (of_int (max_iter s) * 3 / 10) 1) (9 / 10)"

definition calc_percent :: "task_progress \<Rightarrow> int" where
  "calc_percent s =
     min (phase_base (phase_of s) + trunc (of_int (phase_range (phase_of s)) * iter_fraction s)) 99"

definition advance_phase :: "phase \<Rightarrow> task_progress \<Rightarrow> task_progress" where
  "advance_phase new s =
     (if phase_index new > phase_index (phase_of s)
      then (let s' = s\<lparr>phase_of := new\<rparr> in s'\<lparr>percent := calc_percent s'\<rparr>)
      else s)"

section \<open>The adapter\<close>

record adapter =
  states :: "int \<rightharpoonup> task_progress"
  updates :: "task_progress list"
  active_groups :: "int list"
  retry_claimed :: "int list"
  cleanup_calls :: "int list"
  projector_of :: "projector option"

definition UPDATE_QUEUE_MAX :: nat where
  "UPDATE_QUEUE_MAX = 5000"

definition set_add :: "int \<Rightarrow> int list \<Rightarrow> int list" where
  "set_add g gs = (if g \<in> set gs then gs else gs @ [g])"

definition set_discard :: "int \<Rightarrow> int list \<Rightarrow> int list" where
  "set_discard g gs = filter (\<lambda>x. x \<noteq> g) gs"

definition put_state :: "int \<Rightarrow> task_progress \<Rightarrow> adapter \<Rightarrow> adapter" where
  "put_state g s a = a\<lparr>states := (states a)(g \<mapsto> s)\<rparr>"

definition modify_state :: "int \<Rightarrow> (task_progress \<Rightarrow> task_progress) \<Rightarrow> adapter \<Rightarrow> adapter" where
  "modify_state g f a = (case states a g of None \<Rightarrow> a | Some s \<Rightarrow> put_state g (f s) a)"

definition push_update :: "task_progress \<Rightarrow> adapter \<Rightarrow> adapter" where
  "push_update s a =
     (if length (updates a) < UPDATE_QUEUE_MAX then a\<lparr>updates := updates a @ [to_dict s]\<rparr> else a)"

definition project_status :: "task_progress \<Rightarrow> adapter \<Rightarrow> adapter" where
  "project_status s a =
     (case projector_of a of
        None \<Rightarrow> a
      | Some p \<Rightarrow>
          a\<lparr>projector_of := Some (snd (enqueue_status (task_id s) (persisted_status (status s))
              (if error_message s = '''' then None else Some (error_message s)) p))\<rparr>)"

text \<open>\<open>_retire\<close> runs the registered cleanup callbacks for the group: here, their trace.\<close>

definition retire :: "int \<Rightarrow> adapter \<Rightarrow> adapter" where
  "retire g a = a\<lparr>active_groups := set_discard g (active_groups a), cleanup_calls := cleanup_calls a @ [g]\<rparr>"

definition retire_if_terminal :: "int \<Rightarrow> adapter \<Rightarrow> adapter" where
  "retire_if_terminal g a =
     (case states a g of
        None \<Rightarrow> a
      | Some s \<Rightarrow> if terminal_status (status s) then retire g a else a)"

definition with_status :: "lstatus \<Rightarrow> detail option \<Rightarrow> string option \<Rightarrow> task_progress \<Rightarrow> task_progress" where
  "with_status st det err s =
     (let s1 = s\<lparr>status := st\<rparr>;
          s2 = (if st = LDone then s1\<lparr>phase_of := PDone, percent := 100\<rparr> else s1);
          s3 = (case det of None \<Rightarrow> s2 | Some d \<Rightarrow> s2\<lparr>detail_of := d\<rparr>)
      in (case err of None \<Rightarrow> s3 | Some e \<Rightarrow> s3\<lparr>error_message := e\<rparr>))"

definition set_status ::
  "int \<Rightarrow> lstatus \<Rightarrow> detail option \<Rightarrow> string option \<Rightarrow> bool \<Rightarrow> bool \<Rightarrow> adapter \<Rightarrow> adapter" where
  "set_status g st det err push project a =
     (case states a g of
        None \<Rightarrow> a
      | Some s \<Rightarrow>
          if g \<in> set (retry_claimed a) \<and> st \<noteq> LRetrying then a
          else
            (let s' = with_status st det err s;
                 a1 = put_state g s' a;
                 a2 = (if project then project_status s' a1 else a1);
                 a3 = (if terminal_status st then retire g a2 else a2)
             in if push then push_update s' a3 else a3))"

definition mark_retrying :: "int \<Rightarrow> detail \<Rightarrow> adapter \<Rightarrow> adapter" where
  "mark_retrying g det a =
     (case states a g of
        None \<Rightarrow> a
      | Some _ \<Rightarrow>
          set_status g LRetrying (Some det) None True False
            (a\<lparr>active_groups := set_add g (active_groups a),
               retry_claimed := set_add g (retry_claimed a)\<rparr>))"

definition release_retry_claim :: "int \<Rightarrow> adapter \<Rightarrow> adapter" where
  "release_retry_claim g a = a\<lparr>retry_claimed := set_discard g (retry_claimed a)\<rparr>"

definition fail_retry :: "int \<Rightarrow> lstatus \<Rightarrow> detail \<Rightarrow> string \<Rightarrow> adapter \<Rightarrow> adapter" where
  "fail_retry g st det err a =
     set_status g st (Some det) (Some err) True False (release_retry_claim g a)"

definition register_task :: "int \<Rightarrow> string \<Rightarrow> rat \<Rightarrow> adapter \<Rightarrow> adapter" where
  "register_task g tid now a =
     (let s = new_progress g tid now
      in push_update s
           (put_state g s (a\<lparr>active_groups := set_add g (active_groups a)\<rparr>)))"

definition remove_task :: "int \<Rightarrow> adapter \<Rightarrow> adapter" where
  "remove_task g a =
     (let a1 = retire g (release_retry_claim g a) in a1\<lparr>states := (states a1)(g := None)\<rparr>)"

definition mark_aborted :: "int \<Rightarrow> adapter \<Rightarrow> adapter" where
  "mark_aborted g a = set_status g LAborted None None True True a"

definition mark_succeeded :: "int \<Rightarrow> adapter \<Rightarrow> adapter" where
  "mark_succeeded g a =
     (case states a g of
        None \<Rightarrow> a
      | Some s \<Rightarrow>
          set_status g LDone None None True True (put_state g (s\<lparr>phase_of := PDone, percent := 100\<rparr>) a))"

definition reset_for_retry :: "int \<Rightarrow> rat \<Rightarrow> adapter \<Rightarrow> adapter" where
  "reset_for_retry g now a =
     (let a1 = release_retry_claim g a in
      (case states a1 g of
         None \<Rightarrow> a1
       | Some s \<Rightarrow>
           (let s' = s\<lparr>phase_of := Queued, percent := 0, status := LRunning, detail_of := NoDetail,
                       iteration := 0, files_modified := [], tools_called := [],
                       error_message := '''', started_at := now, last_event_at := now\<rparr>
            in push_update s' (put_state g s' (a1\<lparr>active_groups := set_add g (active_groups a1)\<rparr>)))))"

definition get_progress :: "int \<Rightarrow> adapter \<Rightarrow> task_progress option" where
  "get_progress g a = map_option to_dict (states a g)"

definition get_all_active :: "adapter \<Rightarrow> task_progress list" where
  "get_all_active a = List.map_filter (\<lambda>g. get_progress g a) (active_groups a)"

text \<open>Rebuilding the states from the registry after a restart.\<close>

definition hydrated :: "task_dict \<Rightarrow> task_progress" where
  "hydrated r =
     (let st = local_status (t_status r);
          s = (new_progress (t_group r) (t_id r) (of_int (t_created_at r)))
                \<lparr>status := st, max_iter := t_max_iterations r,
                 error_message := (case t_error r of None \<Rightarrow> '''' | Some e \<Rightarrow> e),
                 last_event_at := of_int (t_updated_at r),
                 elapsed_sec := max 0 (of_int (t_updated_at r) - of_int (t_created_at r))\<rparr>
      in if st = LDone then s\<lparr>phase_of := PDone, percent := 100\<rparr> else s)"

fun hydrate :: "task_dict list \<Rightarrow> adapter \<Rightarrow> adapter" where
  "hydrate [] a = a"
| "hydrate (r # rs) a =
     (let s = hydrated r;
          a1 = put_state (t_group r) s a
      in hydrate rs (if terminal_status (status s) then a1
                     else a1\<lparr>active_groups := set_add (t_group r) (active_groups a1)\<rparr>))"

section \<open>Events\<close>

datatype event_type =
    AiThoughtStart | ToolCall | ToolResult | ToolProgressStart | ToolProgressRunning
  | ToolProgressEnd | StreamEnd | StreamAborted | StreamError | WorkflowUpdate | WorkflowPaused
  | OtherEvent

datatype tool_input = TText string | TDict "(string \<times> string) list" | TOther string

record event =
  ev_type :: event_type
  ev_iteration :: "int option"
  ev_tool_name :: "string option"
  ev_tool :: "string option"
  ev_tool_input :: "tool_input option"
  ev_args :: "tool_input option"
  ev_error :: "string option"
  ev_is_error :: bool
  ev_result :: string
  ev_message :: "string option"
  ev_seconds :: rat
  ev_done :: bool
  ev_awaiting_confirm :: bool
  ev_active :: "bool option"
  ev_reason :: string
  ev_details :: "string option"

definition activity_event :: "event_type \<Rightarrow> bool" where
  "activity_event t \<longleftrightarrow> t \<in> set [AiThoughtStart, ToolCall, ToolResult, ToolProgressStart,
     ToolProgressRunning, ToolProgressEnd, StreamEnd]"

definition explore_tools :: "string list" where
  "explore_tools = [''read_file'', ''read_local_file'', ''list_workspace'', ''search'',
                    ''code_intel'', ''memory_search'']"

definition code_tools :: "string list" where
  "code_tools = [''write_file'', ''write_local_file'', ''edit_file'', ''edit_anchored'',
                 ''make_dir'', ''run_skill'']"

definition test_keywords :: "string list" where
  "test_keywords = [''pytest'', ''npm test'', ''npm run test'', ''jest'', ''vitest'',
                    ''go test'', ''cargo test'']"

fun extract_filename :: "tool_input \<Rightarrow> string" where
  "extract_filename (TDict d) =
     py_or (get_default (map_of d ''file_path'') '''')
       (py_or (get_default (map_of d ''path'') '''') (get_default (map_of d ''name'') ''''))"
| "extract_filename (TText s) = first_word s"
| "extract_filename (TOther s) = ''''"

fun shell_command :: "tool_input \<Rightarrow> string" where
  "shell_command (TDict d) =
     get_default (map_of d ''cmd'') (get_default (map_of d ''command'') '''')"
| "shell_command (TText s) = s"
| "shell_command (TOther s) = s"

text \<open>
  The pull-request URL \<open>https://github\.com/[^\s,)]+/pull/\d+\<close>: the leftmost start, there
  the longest body that is followed by \<open>/pull/\<close> and a digit, then all digits.
\<close>

definition pr_scheme :: string where "pr_scheme = ''https://github.com/''"
definition pr_pull :: string where "pr_pull = ''/pull/''"

definition is_digit :: "char \<Rightarrow> bool" where
  "is_digit c \<longleftrightarrow> (let n = of_char c :: nat in 48 \<le> n \<and> n \<le> 57)"

definition pr_body_char :: "char \<Rightarrow> bool" where
  "pr_body_char c \<longleftrightarrow> \<not> is_space c \<and> c \<noteq> CHR '','' \<and> c \<noteq> CHR '')''"

fun pr_tail :: "nat \<Rightarrow> string \<Rightarrow> string option" where
  "pr_tail 0 s = None"
| "pr_tail (Suc k) s =
     (let rest = drop (Suc k) s in
      if is_prefix pr_pull rest \<and> takeWhile is_digit (drop (length pr_pull) rest) \<noteq> []
      then Some (take (Suc k) s @ pr_pull @ takeWhile is_digit (drop (length pr_pull) rest))
      else pr_tail k s)"

definition pr_match_here :: "string \<Rightarrow> string option" where
  "pr_match_here s =
     (if is_prefix pr_scheme s
      then (let body = drop (length pr_scheme) s in
            map_option (\<lambda>t. pr_scheme @ t) (pr_tail (length (takeWhile pr_body_char body)) body))
      else None)"

fun pr_search :: "string \<Rightarrow> string option" where
  "pr_search [] = None"
| "pr_search (c # s) =
     (case pr_match_here (c # s) of Some u \<Rightarrow> Some u | None \<Rightarrow> pr_search s)"

section \<open>Event handlers\<close>

definition handle_thought_start :: "event \<Rightarrow> task_progress \<Rightarrow> task_progress" where
  "handle_thought_start ev s =
     (let s' = s\<lparr>iteration := get_default (ev_iteration ev) (iteration s)\<rparr>
      in s'\<lparr>detail_of := Thinking (iteration s')\<rparr>)"

definition event_tool :: "event \<Rightarrow> string" where
  "event_tool ev = opt_or (ev_tool_name ev) (get_default (ev_tool ev) '''')"

definition handle_tool_call :: "event \<Rightarrow> task_progress \<Rightarrow> task_progress" where
  "handle_tool_call ev s0 =
     (let tool = event_tool ev;
          inp = get_default (ev_tool_input ev) (get_default (ev_args ev) (TText ''''));
          s = s0\<lparr>tools_called := tools_called s0 @ [tool]\<rparr>
      in if tool \<in> set explore_tools
         then (advance_phase Exploring s)\<lparr>detail_of := Reading (extract_filename inp)\<rparr>
         else if tool \<in> set code_tools
         then (let f = extract_filename inp;
                   s1 = (advance_phase Coding s)\<lparr>detail_of := Editing f\<rparr>
               in if f \<noteq> '''' \<and> f \<notin> set (files_modified s1)
                  then s1\<lparr>files_modified := files_modified s1 @ [f]\<rparr> else s1)
         else if tool = ''run_shell''
         then (let cmd = shell_command inp
               in if (\<exists>kw \<in> set test_keywords. is_infix kw (py_lower cmd))
                  then (advance_phase Testing s)\<lparr>detail_of := RunningTests (take 60 cmd)\<rparr>
                  else s\<lparr>detail_of := RunningCommand (take 60 cmd)\<rparr>)
         else if tool = ''create_pr''
         then (advance_phase CreatingPr s)\<lparr>detail_of := CreatingPullRequest\<rparr>
         else s)"

definition handle_tool_result :: "int \<Rightarrow> event \<Rightarrow> adapter \<Rightarrow> adapter" where
  "handle_tool_result g ev a =
     (let tool = event_tool ev in
      if get_default (ev_error ev) '''' \<noteq> '''' \<or> ev_is_error ev
      then modify_state g (\<lambda>s. s\<lparr>detail_of := ToolFailed tool\<rparr>) a
      else if tool = ''create_pr''
      then (case (projector_of a, pr_search (ev_result ev), states a g) of
              (Some p, Some url, Some s) \<Rightarrow>
                a\<lparr>projector_of := Some (snd (enqueue_pr_url (task_id s) url p))\<rparr>
            | _ \<Rightarrow> a)
      else a)"

definition handle_progress_start :: "event \<Rightarrow> task_progress \<Rightarrow> task_progress" where
  "handle_progress_start ev s = s\<lparr>iteration := get_default (ev_iteration ev) (iteration s)\<rparr>"

definition handle_progress_running :: "event \<Rightarrow> task_progress \<Rightarrow> task_progress" where
  "handle_progress_running ev s =
     s\<lparr>detail_of := ToolProgress (get_default (ev_tool_name ev) '''') (get_default (ev_message ev) '''')
                     (ev_seconds ev)\<rparr>"

definition handle_progress_end :: "event \<Rightarrow> task_progress \<Rightarrow> task_progress" where
  "handle_progress_end ev s =
     s\<lparr>detail_of := ToolFinished (get_default (ev_tool_name ev) '''') (ev_seconds ev)\<rparr>"

definition handle_stream_end :: "task_progress \<Rightarrow> task_progress" where
  "handle_stream_end s = (if phase_of s \<noteq> PDone then s\<lparr>detail_of := BotReplied\<rparr> else s)"

definition handle_stream_aborted :: "int \<Rightarrow> adapter \<Rightarrow> adapter" where
  "handle_stream_aborted g a = set_status g LAborted (Some TaskAborted) None True True a"

definition handle_stream_error :: "int \<Rightarrow> event \<Rightarrow> adapter \<Rightarrow> adapter" where
  "handle_stream_error g ev a =
     (let e = get_default (ev_message ev) ''Unknown error''
      in set_status g LError (Some (ErrorShown (take 80 e))) (Some e) True True a)"

definition handle_workflow_update :: "int \<Rightarrow> event \<Rightarrow> adapter \<Rightarrow> adapter" where
  "handle_workflow_update g ev a =
     (if ev_done ev then set_status g LDone None None True True (modify_state g (advance_phase PDone) a)
      else if ev_awaiting_confirm ev
      then set_status g LPaused (Some AwaitingConfirm) None False True a
      else if ev_active ev = Some False
      then (let e = opt_or (ev_error ev) ''Workflow ended without success''
            in set_status g LError (Some (TaskFailed (take 80 e))) (Some e) True True a)
      else a)"

fun failure_default :: "string \<Rightarrow> string option" where
  "failure_default r =
     (if r = ''provider_unavailable'' then Some ''AI provider unavailable''
      else if r = ''completion_signal_missing'' then Some ''Agent did not report a completion signal''
      else if r = ''rework_requested'' then Some ''Agent requested rework''
      else if r = ''pull_request_missing'' then Some ''Agent did not create a pull request''
      else if r = ''execution_failed'' then Some ''Coding agent execution failed''
      else None)"

definition handle_workflow_paused :: "int \<Rightarrow> event \<Rightarrow> adapter \<Rightarrow> adapter" where
  "handle_workflow_paused g ev a =
     (let r = ev_reason ev in
      if r = ''done''
      then set_status g LDone None None True True (modify_state g (advance_phase PDone) a)
      else if r = ''gate'' \<or> r = ''pause''
      then set_status g LPaused (Some (PausedFor r)) None False True a
      else
        (case failure_default r of
           None \<Rightarrow> a
         | Some d \<Rightarrow>
             (let e = opt_or (ev_details ev) d in
              if r = ''pull_request_missing''
              then set_status g LIncomplete (Some NeedsPullRequest) (Some e) True True a
              else set_status g LError (Some (TaskFailed (take 80 e))) (Some e) True True a)))"

definition run_handler :: "int \<Rightarrow> event \<Rightarrow> adapter \<Rightarrow> adapter" where
  "run_handler g ev a =
     (case ev_type ev of
        AiThoughtStart \<Rightarrow> modify_state g (handle_thought_start ev) a
      | ToolCall \<Rightarrow> modify_state g (handle_tool_call ev) a
      | ToolResult \<Rightarrow> handle_tool_result g ev a
      | ToolProgressStart \<Rightarrow> modify_state g (handle_progress_start ev) a
      | ToolProgressRunning \<Rightarrow> modify_state g (handle_progress_running ev) a
      | ToolProgressEnd \<Rightarrow> modify_state g (handle_progress_end ev) a
      | StreamEnd \<Rightarrow> modify_state g handle_stream_end a
      | StreamAborted \<Rightarrow> handle_stream_aborted g a
      | StreamError \<Rightarrow> handle_stream_error g ev a
      | WorkflowUpdate \<Rightarrow> handle_workflow_update g ev a
      | WorkflowPaused \<Rightarrow> handle_workflow_paused g ev a
      | OtherEvent \<Rightarrow> a)"

text \<open>\<open>on_event\<close>: only tracked groups; the percentage is refreshed on every handled event.\<close>

definition note_activity :: "int \<Rightarrow> event \<Rightarrow> adapter \<Rightarrow> adapter" where
  "note_activity g ev a =
     (case states a g of
        None \<Rightarrow> a
      | Some s \<Rightarrow>
          if \<not> activity_event (ev_type ev) then a
          else if status s = LPaused then set_status g LRunning None None False True a
          else if status s = LRunning then project_status s a
          else a)"

definition refresh_percent :: "int \<Rightarrow> adapter \<Rightarrow> adapter" where
  "refresh_percent g a =
     (if g \<in> set (active_groups a)
      then (case states a g of
              None \<Rightarrow> a
            | Some s \<Rightarrow> (let s' = s\<lparr>percent := max (percent s) (calc_percent s)\<rparr>
                         in push_update s' (put_state g s' a)))
      else a)"

definition on_event :: "int \<Rightarrow> event \<Rightarrow> rat \<Rightarrow> adapter \<Rightarrow> adapter" where
  "on_event g ev now a =
     (if g \<notin> set (active_groups a) then a
      else
        (case states a g of
           None \<Rightarrow> a
         | Some s \<Rightarrow>
             (let a1 = put_state g (s\<lparr>last_event_at := now, elapsed_sec := now - started_at s\<rparr>) a;
                  a2 = note_activity g ev a1
              in if ev_type ev = OtherEvent then a2
                 else refresh_percent g (run_handler g ev a2))))"


section \<open>Percentages\<close>

fun phase_cap :: "phase \<Rightarrow> int" where
  "phase_cap Queued = 9"
| "phase_cap Exploring = 28"
| "phase_cap Coding = 66"
| "phase_cap Testing = 88"
| "phase_cap CreatingPr = 99"
| "phase_cap PDone = 100"

definition state_ok :: "task_progress \<Rightarrow> bool" where
  "state_ok s \<longleftrightarrow> 0 \<le> iteration s \<and> 0 \<le> percent s \<and> percent s \<le> phase_cap (phase_of s) \<and>
     (status s = LDone \<longrightarrow> phase_of s = PDone \<and> percent s = 100)"

lemma iter_fraction_bounds:
  "0 \<le> iteration s \<Longrightarrow> 0 \<le> iter_fraction s \<and> iter_fraction s \<le> 9 / 10"
  by (simp add: iter_fraction_def)

lemma calc_percent_bounds:
  assumes "0 \<le> iteration s"
  shows "min (phase_base (phase_of s)) 99 \<le> calc_percent s \<and>
         calc_percent s \<le> phase_cap (phase_of s) \<and> calc_percent s \<le> 99"
proof -
  let ?x = "of_int (phase_range (phase_of s)) * iter_fraction s"
  have r: "0 \<le> phase_range (phase_of s)" by (cases "phase_of s") simp_all
  have f: "0 \<le> iter_fraction s" "iter_fraction s \<le> 9 / 10"
    using iter_fraction_bounds [OF assms] by auto
  have lo: "0 \<le> ?x" using r f by simp
  have hi: "?x \<le> of_int (phase_range (phase_of s)) * (9 / 10)"
    using r f by (intro mult_left_mono) simp_all
  have "trunc ?x = \<lfloor>?x\<rfloor>" using lo by (simp add: trunc_def)
  moreover have "0 \<le> \<lfloor>?x\<rfloor>" using lo by simp
  moreover have "phase_base (phase_of s) + \<lfloor>?x\<rfloor> \<le> phase_cap (phase_of s)"
    using floor_mono [OF hi] by (cases "phase_of s") simp_all
  ultimately show ?thesis by (simp only: calc_percent_def) linarith
qed

lemma phase_order: "phase_index p < phase_index q \<Longrightarrow> phase_cap p \<le> min (phase_base q) 99"
  by (cases p; cases q) simp_all

lemma advance_ok:
  assumes "state_ok s"
  shows "state_ok (advance_phase p s) \<and> phase_index (phase_of s) \<le> phase_index (phase_of (advance_phase p s)) \<and>
    percent s \<le> percent (advance_phase p s)"
proof (cases "phase_index (phase_of s) < phase_index p")
  case True
  have nd: "status s \<noteq> LDone"
    using assms True by (cases p) (auto simp: state_ok_def)
  have "0 \<le> phase_base p" by (cases p) simp_all
  then show ?thesis
    using calc_percent_bounds [of "s\<lparr>phase_of := p\<rparr>"] phase_order [OF True] assms True nd
    by (auto simp: advance_phase_def Let_def state_ok_def)
next
  case False
  with assms show ?thesis by (simp add: advance_phase_def)
qed

lemma advance_more [simp]:
  "status (advance_phase p s) = status s" "group_id (advance_phase p s) = group_id s"
  "iteration (advance_phase p s) = iteration s" "task_id (advance_phase p s) = task_id s"
  by (simp_all add: advance_phase_def Let_def)

text \<open>An update that keeps a task's progress: it is well formed, ahead, and the same task.\<close>

definition goes_on :: "task_progress \<Rightarrow> task_progress \<Rightarrow> bool" where
  "goes_on s s' \<longleftrightarrow> state_ok s' \<and> phase_index (phase_of s) \<le> phase_index (phase_of s') \<and>
     percent s \<le> percent s' \<and> group_id s' = group_id s \<and> task_id s' = task_id s"

definition event_ok :: "event \<Rightarrow> bool" where
  "event_ok ev \<longleftrightarrow> (case ev_iteration ev of None \<Rightarrow> True | Some i \<Rightarrow> 0 \<le> i)"

lemma goes_on_refl: "state_ok s \<Longrightarrow> goes_on s s"
  by (simp add: goes_on_def)

lemma goes_on_trans: "goes_on s t \<Longrightarrow> goes_on t u \<Longrightarrow> goes_on s u"
  by (auto simp: goes_on_def)

lemma goes_on_advance: "state_ok s \<Longrightarrow> goes_on s (advance_phase p s)"
  using advance_ok [of s p] by (simp add: goes_on_def)

lemma goes_on_shown:
  "goes_on s t \<Longrightarrow> goes_on s (t\<lparr>detail_of := d\<rparr>)"
  "goes_on s t \<Longrightarrow> goes_on s (t\<lparr>files_modified := fs\<rparr>)"
  "goes_on s t \<Longrightarrow> goes_on s (t\<lparr>tools_called := ts\<rparr>)"
  "goes_on s t \<Longrightarrow> goes_on s (t\<lparr>last_event_at := x, elapsed_sec := y\<rparr>)"
  "goes_on s t \<Longrightarrow> 0 \<le> i \<Longrightarrow> goes_on s (t\<lparr>iteration := i\<rparr>)"
  by (simp_all add: goes_on_def state_ok_def)

lemma goes_on_called: "state_ok s \<Longrightarrow> goes_on s (advance_phase p (s\<lparr>tools_called := ts\<rparr>))"
  using advance_ok [of "s\<lparr>tools_called := ts\<rparr>" p] by (simp add: goes_on_def state_ok_def)

lemma goes_on_tool_call: "state_ok s \<Longrightarrow> goes_on s (handle_tool_call ev s)"
  by (auto simp: handle_tool_call_def Let_def intro!: goes_on_shown goes_on_called goes_on_refl)

lemma goes_on_iteration:
  "state_ok s \<Longrightarrow> event_ok ev \<Longrightarrow> goes_on s (s\<lparr>iteration := get_default (ev_iteration ev) (iteration s)\<rparr>)"
  by (auto simp: event_ok_def get_default_def state_ok_def goes_on_def split: option.splits)

lemma goes_on_handlers:
  "state_ok s \<Longrightarrow> event_ok ev \<Longrightarrow> goes_on s (handle_thought_start ev s)"
  "state_ok s \<Longrightarrow> event_ok ev \<Longrightarrow> goes_on s (handle_progress_start ev s)"
  "state_ok s \<Longrightarrow> goes_on s (handle_progress_running ev s)"
  "state_ok s \<Longrightarrow> goes_on s (handle_progress_end ev s)"
  "state_ok s \<Longrightarrow> goes_on s (handle_stream_end s)"
  by (auto simp: handle_thought_start_def Let_def handle_progress_start_def handle_progress_running_def
      handle_progress_end_def handle_stream_end_def
      intro!: goes_on_shown goes_on_refl goes_on_iteration)

lemma goes_on_status: "state_ok s \<Longrightarrow> goes_on s (with_status st det err s)"
proof -
  assume "state_ok s"
  moreover from this have "phase_index (phase_of s) \<le> 5" "percent s \<le> 100"
    by (cases "phase_of s"; simp add: state_ok_def)+
  ultimately show ?thesis
    by (auto simp: goes_on_def with_status_def Let_def state_ok_def split: option.split)
qed

lemma with_status_status [simp]: "status (with_status st det err s) = st"
  by (simp add: with_status_def Let_def split: option.split)

lemma goes_on_refresh:
  "state_ok s \<Longrightarrow> goes_on s (s\<lparr>percent := max (percent s) (calc_percent s)\<rparr>)"
  using calc_percent_bounds [of s] by (auto simp: goes_on_def state_ok_def)

section \<open>The adapter's invariant\<close>

definition adapter_ok :: "adapter \<Rightarrow> bool" where
  "adapter_ok a \<longleftrightarrow>
     (\<forall>g s. states a g = Some s \<longrightarrow> state_ok s \<and> group_id s = g) \<and>
     (\<forall>g \<in> set (active_groups a). \<exists>s. states a g = Some s \<and> \<not> terminal_status (status s)) \<and>
     distinct (active_groups a) \<and> length (updates a) \<le> UPDATE_QUEUE_MAX"

text \<open>\<open>a'\<close> is \<open>a\<close> with group \<open>g\<close> moved on, all other groups untouched.\<close>

definition steps_group :: "int \<Rightarrow> adapter \<Rightarrow> adapter \<Rightarrow> bool" where
  "steps_group g a a' \<longleftrightarrow> adapter_ok a' \<and>
     (\<forall>h. h \<noteq> g \<longrightarrow> states a' h = states a h) \<and>
     (\<forall>s. states a g = Some s \<longrightarrow> (\<exists>s'. states a' g = Some s' \<and> goes_on s s')) \<and>
     (states a g = None \<longrightarrow> states a' g = None)"

lemma steps_refl: "adapter_ok a \<Longrightarrow> steps_group g a a"
  by (auto simp: steps_group_def adapter_ok_def intro: goes_on_refl)

lemma steps_trans: "steps_group g a b \<Longrightarrow> steps_group g b c \<Longrightarrow> steps_group g a c"
proof -
  assume ab: "steps_group g a b" and bc: "steps_group g b c"
  have "\<exists>s'. states c g = Some s' \<and> goes_on s s'" if "states a g = Some s" for s
  proof -
    from ab that obtain t where t: "states b g = Some t" "goes_on s t" by (auto simp: steps_group_def)
    from bc t(1) obtain u where "states c g = Some u" "goes_on t u" by (auto simp: steps_group_def)
    with t(2) show ?thesis using goes_on_trans by blast
  qed
  with ab bc show ?thesis by (simp add: steps_group_def)
qed

lemma steps_put:
  assumes "adapter_ok a" "states a g = Some s" "goes_on s s'" "status s' = status s"
  shows "steps_group g a (put_state g s' a)"
  using assms by (fastforce simp: steps_group_def adapter_ok_def put_state_def goes_on_def)

lemma steps_same:
  assumes "steps_group g a b" "states c = states b" "length (updates c) \<le> UPDATE_QUEUE_MAX"
    "set (active_groups c) \<subseteq> set (active_groups b)" "distinct (active_groups c)"
  shows "steps_group g a c"
  using assms by (auto simp: steps_group_def adapter_ok_def)

lemma updates_le: "adapter_ok a \<Longrightarrow> length (updates a) \<le> UPDATE_QUEUE_MAX"
  "adapter_ok a \<Longrightarrow> distinct (active_groups a)"
  by (simp_all add: adapter_ok_def)

lemma push_update_fields [simp]:
  "states (push_update s a) = states a" "active_groups (push_update s a) = active_groups a"
  "retry_claimed (push_update s a) = retry_claimed a" "projector_of (push_update s a) = projector_of a"
  "cleanup_calls (push_update s a) = cleanup_calls a"
  by (simp_all add: push_update_def)

lemma project_status_fields [simp]:
  "states (project_status s a) = states a" "active_groups (project_status s a) = active_groups a"
  "updates (project_status s a) = updates a" "retry_claimed (project_status s a) = retry_claimed a"
  "cleanup_calls (project_status s a) = cleanup_calls a"
  by (simp_all add: project_status_def split: option.split)

lemma adapter_ok_push [simp]: "adapter_ok (push_update s a) = adapter_ok a" if "length (updates a) \<le> UPDATE_QUEUE_MAX"
  using that by (auto simp: adapter_ok_def push_update_def)

lemma steps_push: "steps_group g a b \<Longrightarrow> steps_group g a (push_update s b)"
  using updates_le(1) [of b] by (simp add: steps_group_def)

lemma steps_project: "steps_group g a b \<Longrightarrow> steps_group g a (project_status s b)"
  by (simp add: steps_group_def adapter_ok_def)

lemma set_discard_in [simp]: "set (set_discard g gs) = set gs - {g}"
  by (auto simp: set_discard_def)

lemma set_add_in [simp]: "set (set_add g gs) = insert g (set gs)"
  by (auto simp: set_add_def)

lemma distinct_set_ops [simp]: "distinct gs \<Longrightarrow> distinct (set_add g gs)"
  "distinct gs \<Longrightarrow> distinct (set_discard g gs)"
  by (auto simp: set_add_def set_discard_def)


lemma steps_status:
  assumes "adapter_ok a" "states a g = Some s" "goes_on s s'"
    "if terminal_status (status s') then b = put_state g s' a\<lparr>active_groups := set_discard g (active_groups a), cleanup_calls := cs\<rparr>
     else b = put_state g s' a"
  shows "steps_group g a b"
proof -
  have "distinct (set_discard g (active_groups a))"
    using assms(1) by (simp add: adapter_ok_def)
  then show ?thesis
    using assms by (fastforce simp: steps_group_def adapter_ok_def put_state_def goes_on_def split: if_splits)
qed

lemma steps_set_status:
  assumes "adapter_ok a"
  shows "steps_group g a (set_status g st det err push project a)"
proof (cases "states a g")
  case None
  with assms show ?thesis by (simp add: set_status_def steps_refl)
next
  case (Some s)
  let ?s = "with_status st det err s" and ?r = "g \<in> set (retry_claimed a) \<and> st \<noteq> LRetrying"
  have ok: "goes_on s ?s" using assms Some goes_on_status by (simp add: adapter_ok_def)
  have plain: "steps_group g a (if terminal_status st then retire g (put_state g ?s a) else put_state g ?s a)"
    by (rule steps_status [OF assms Some ok, of _ "cleanup_calls a @ [g]"]) (simp add: retire_def put_state_def)
  have proj: "steps_group g a (if terminal_status st then retire g (project_status ?s (put_state g ?s a))
      else project_status ?s (put_state g ?s a))"
  proof -
    have "retire g (project_status s b) = project_status s (retire g b)" for s b
      by (simp add: retire_def project_status_def split: option.split)
    then show ?thesis using plain steps_project by (auto split: if_splits)
  qed
  have "steps_group g a (let a2 = (if project then project_status ?s (put_state g ?s a) else put_state g ?s a);
      a3 = (if terminal_status st then retire g a2 else a2) in if push then push_update ?s a3 else a3)"
    using plain proj by (cases project; cases push; cases "terminal_status st") (simp_all add: Let_def steps_push)
  then show ?thesis
    using Some assms by (cases ?r) (simp_all add: set_status_def Let_def steps_refl)
qed

lemma steps_modify:
  assumes "adapter_ok a" "\<And>s. state_ok s \<Longrightarrow> goes_on s (f s)" "\<And>s. status (f s) = status s"
  shows "steps_group g a (modify_state g f a)"
proof (cases "states a g")
  case (Some s)
  with assms show ?thesis
    by (auto simp: modify_state_def adapter_ok_def intro!: steps_put)
qed (simp add: modify_state_def steps_refl [OF assms(1)])

lemma handlers_status [simp]:
  "status (handle_thought_start ev s) = status s" "status (handle_tool_call ev s) = status s"
  "status (handle_progress_start ev s) = status s" "status (handle_progress_running ev s) = status s"
  "status (handle_progress_end ev s) = status s" "status (handle_stream_end s) = status s"
  by (simp_all add: handle_thought_start_def handle_tool_call_def handle_progress_start_def
      handle_progress_running_def handle_progress_end_def handle_stream_end_def Let_def)

lemma steps_then_status:
  "steps_group g a b \<Longrightarrow> steps_group g a (set_status g st det err push project b)"
  using steps_trans steps_set_status by (meson steps_group_def)

lemma steps_projector: "adapter_ok a \<Longrightarrow> steps_group g a (a\<lparr>projector_of := p\<rparr>)"
  by (rule steps_same [OF steps_refl]) (simp_all add: updates_le)

lemma steps_tool_result: "adapter_ok a \<Longrightarrow> steps_group g a (handle_tool_result g ev a)"
  by (auto simp: handle_tool_result_def Let_def split: option.splits
      intro!: steps_refl steps_modify goes_on_shown goes_on_refl steps_projector)

lemma steps_run_handler:
  assumes "adapter_ok a" "event_ok ev"
  shows "steps_group g a (run_handler g ev a)"
proof (cases "ev_type ev")
  case WorkflowUpdate
  have "steps_group g a (handle_workflow_update g ev a)"
    using assms(1)
    by (auto simp: handle_workflow_update_def Let_def
        intro!: steps_refl steps_then_status steps_modify goes_on_advance)
  with WorkflowUpdate show ?thesis by (simp add: run_handler_def)
next
  case WorkflowPaused
  have "steps_group g a (handle_workflow_paused g ev a)"
    using assms(1)
    by (auto simp: handle_workflow_paused_def Let_def split: option.split
        intro!: steps_refl steps_then_status steps_modify goes_on_advance simp del: failure_default.simps)
  with WorkflowPaused show ?thesis by (simp add: run_handler_def)
qed (use assms in \<open>auto simp: run_handler_def steps_tool_result handle_stream_aborted_def
      handle_stream_error_def Let_def intro!: steps_refl steps_modify goes_on_handlers
      goes_on_tool_call steps_set_status\<close>)

lemma steps_refresh: "adapter_ok a \<Longrightarrow> steps_group g a (refresh_percent g a)"
proof -
  assume ok: "adapter_ok a"
  show ?thesis
  proof (cases "states a g")
    case (Some s)
    then have "state_ok s" using ok by (simp add: adapter_ok_def)
    from goes_on_refresh [OF this] show ?thesis
      using ok Some by (auto simp: refresh_percent_def Let_def intro!: steps_push steps_put steps_refl)
  qed (use ok in \<open>simp add: refresh_percent_def steps_refl\<close>)
qed

lemma steps_note: "adapter_ok a \<Longrightarrow> steps_group g a (note_activity g ev a)"
  by (auto simp: note_activity_def split: option.split
      intro!: steps_refl steps_set_status steps_project)

lemma steps_adapter: "steps_group g a b \<Longrightarrow> adapter_ok b"
  by (simp add: steps_group_def)

lemma steps_on_event:
  assumes "adapter_ok a" "event_ok ev"
  shows "steps_group g a (on_event g ev now a)"
proof (cases "g \<in> set (active_groups a) \<and> states a g \<noteq> None")
  case True
  then obtain s where s: "states a g = Some s" by auto
  let ?a1 = "put_state g (s\<lparr>last_event_at := now, elapsed_sec := now - started_at s\<rparr>) a"
  have "state_ok s" using assms(1) s by (simp add: adapter_ok_def)
  then have "steps_group g a ?a1"
    by (intro steps_put [OF assms(1) s] goes_on_shown goes_on_refl) simp_all
  then have a2: "steps_group g a (note_activity g ev ?a1)"
    using steps_note steps_trans steps_adapter by blast
  then have "steps_group g a (refresh_percent g (run_handler g ev (note_activity g ev ?a1)))"
    using steps_run_handler steps_refresh steps_trans steps_adapter assms(2) by metis
  with a2 True s show ?thesis by (simp add: on_event_def Let_def)
next
  case False
  with assms show ?thesis by (auto simp: on_event_def steps_refl split: option.split)
qed


section \<open>Runs of the adapter\<close>

datatype adapter_op =
    AEvent int event rat
  | ASetStatus int lstatus "detail option" "string option" bool bool
  | AMarkRetrying int detail
  | AFailRetry int lstatus detail string
  | ARelease int
  | ARegister int string rat
  | ARemove int
  | AMarkAborted int
  | AMarkSucceeded int
  | AReset int rat
  | ARetireIfTerminal int
  | AConsume

text \<open>\<open>AConsume\<close> is a dashboard client taking the oldest update off the queue.\<close>

fun adapter_step :: "adapter_op \<Rightarrow> adapter \<Rightarrow> adapter" where
  "adapter_step (AEvent g ev now) a = on_event g ev now a"
| "adapter_step (ASetStatus g st det err push project) a = set_status g st det err push project a"
| "adapter_step (AMarkRetrying g det) a = mark_retrying g det a"
| "adapter_step (AFailRetry g st det err) a = fail_retry g st det err a"
| "adapter_step (ARelease g) a = release_retry_claim g a"
| "adapter_step (ARegister g tid now) a = register_task g tid now a"
| "adapter_step (ARemove g) a = remove_task g a"
| "adapter_step (AMarkAborted g) a = mark_aborted g a"
| "adapter_step (AMarkSucceeded g) a = mark_succeeded g a"
| "adapter_step (AReset g now) a = reset_for_retry g now a"
| "adapter_step (ARetireIfTerminal g) a = retire_if_terminal g a"
| "adapter_step AConsume a = a\<lparr>updates := drop 1 (updates a)\<rparr>"

fun op_events_ok :: "adapter_op \<Rightarrow> bool" where
  "op_events_ok (AEvent g ev now) = event_ok ev"
| "op_events_ok _ = True"

definition new_adapter :: "projector option \<Rightarrow> adapter" where
  "new_adapter p = \<lparr>states = Map.empty, updates = [], active_groups = [], retry_claimed = [],
                    cleanup_calls = [], projector_of = p\<rparr>"

lemma adapter_ok_set: "adapter_ok a \<Longrightarrow> adapter_ok (set_status g st det err push project a)"
  by (rule steps_adapter [OF steps_set_status])

lemma adapter_ok_claims [simp]: "adapter_ok (a\<lparr>retry_claimed := gs\<rparr>) = adapter_ok a"
  by (simp add: adapter_ok_def)

lemma adapter_ok_put_new:
  assumes "adapter_ok a" "state_ok s" "group_id s = g" "\<not> terminal_status (status s)"
  shows "adapter_ok (push_update s (put_state g s (a\<lparr>active_groups := set_add g (active_groups a)\<rparr>)))"
  using assms by (auto simp: adapter_ok_def put_state_def push_update_def)

lemma adapter_ok_retrying:
  assumes "adapter_ok a" shows "adapter_ok (mark_retrying g det a)"
proof (cases "states a g")
  case (Some s)
  let ?s = "with_status LRetrying (Some det) None s"
  let ?a = "a\<lparr>retry_claimed := set_add g (retry_claimed a)\<rparr>"
  have s: "state_ok s" "group_id s = g" using assms Some by (simp_all add: adapter_ok_def)
  have swap: "a\<lparr>active_groups := set_add g (active_groups a), retry_claimed := set_add g (retry_claimed a)\<rparr>
      = a\<lparr>retry_claimed := set_add g (retry_claimed a), active_groups := set_add g (active_groups a)\<rparr>"
    by simp
  have "mark_retrying g det a =
      push_update ?s (put_state g ?s (?a\<lparr>active_groups := set_add g (active_groups ?a)\<rparr>))"
    using Some by (simp add: mark_retrying_def set_status_def Let_def terminal_status_def swap)
  moreover have "goes_on s ?s" by (rule goes_on_status [OF s(1)])
  then have "state_ok ?s" "group_id ?s = g" using s(2) by (simp_all add: goes_on_def)
  moreover have "adapter_ok ?a" using assms by simp
  moreover have "\<not> terminal_status (status ?s)" by (simp add: terminal_status_def)
  ultimately show ?thesis using adapter_ok_put_new [of ?a ?s g] by simp
qed (use assms in \<open>simp add: mark_retrying_def\<close>)

lemma state_ok_new: "state_ok (new_progress g tid now)"
  by (simp add: state_ok_def new_progress_def)

lemma adapter_ok_retire: "adapter_ok a \<Longrightarrow> adapter_ok (retire g a)"
  by (auto simp: adapter_ok_def retire_def)

lemma adapter_ok_remove: "adapter_ok a \<Longrightarrow> adapter_ok (remove_task g a)"
  by (auto simp: adapter_ok_def retire_def remove_task_def Let_def release_retry_claim_def)

lemma adapter_ok_reset:
  assumes "adapter_ok a" shows "adapter_ok (reset_for_retry g now a)"
proof (cases "states a g")
  case (Some s)
  let ?a = "release_retry_claim g a"
  let ?s = "s\<lparr>phase_of := Queued, percent := 0, status := LRunning, detail_of := NoDetail,
                       iteration := 0, files_modified := [], tools_called := [],
                       error_message := '''', started_at := now, last_event_at := now\<rparr>"
  have a: "adapter_ok ?a" "states ?a g = Some s" using assms Some by (simp_all add: release_retry_claim_def)
  have "group_id s = g" using assms Some by (simp add: adapter_ok_def)
  then have "adapter_ok (push_update ?s (put_state g ?s (?a\<lparr>active_groups := set_add g (active_groups ?a)\<rparr>)))"
    by (intro adapter_ok_put_new a) (simp_all add: state_ok_def terminal_status_def)
  with a(2) show ?thesis by (simp add: reset_for_retry_def Let_def)
qed (use assms in \<open>simp add: reset_for_retry_def release_retry_claim_def\<close>)

lemma adapter_ok_succeeded: "adapter_ok a \<Longrightarrow> adapter_ok (mark_succeeded g a)"
proof (cases "states a g")
  case (Some s)
  assume ok: "adapter_ok a"
  let ?s = "s\<lparr>phase_of := PDone, percent := 100\<rparr>"
  have s: "state_ok s" using ok Some by (simp add: adapter_ok_def)
  then have "percent s \<le> 100" "phase_index (phase_of s) \<le> 5"
    by (cases "phase_of s"; simp add: state_ok_def)+
  then have "goes_on s ?s" using s by (simp add: goes_on_def state_ok_def)
  then have "steps_group g a (put_state g ?s a)" by (rule steps_put [OF ok Some]) simp
  then have "adapter_ok (put_state g ?s a)" by (rule steps_adapter)
  with Some show ?thesis by (simp add: mark_succeeded_def adapter_ok_set)
qed (simp add: mark_succeeded_def)

lemma adapter_ok_step:
  assumes "adapter_ok a" "op_events_ok x" shows "adapter_ok (adapter_step x a)"
proof (cases x)
  case (AEvent g ev now)
  with assms show ?thesis using steps_adapter [OF steps_on_event [of a ev g now]] by simp
next
  case (ARegister g tid now)
  have "adapter_ok (register_task g tid now a)"
    unfolding register_task_def Let_def
    by (rule adapter_ok_put_new [OF assms(1) state_ok_new])
      (simp_all add: new_progress_def terminal_status_def)
  with ARegister show ?thesis by simp
next
  case AConsume
  with assms show ?thesis by (auto simp: adapter_ok_def)
qed (use assms in \<open>auto simp: adapter_ok_set adapter_ok_retrying fail_retry_def release_retry_claim_def
      adapter_ok_remove mark_aborted_def adapter_ok_succeeded adapter_ok_reset retire_if_terminal_def
      adapter_ok_retire split: option.split\<close>)

lemma adapter_ok_new: "adapter_ok (new_adapter p)"
  by (simp add: adapter_ok_def new_adapter_def)

lemma hydrated_ok: "state_ok (hydrated r) \<and> group_id (hydrated r) = t_group r"
  by (simp add: hydrated_def Let_def state_ok_def new_progress_def)

lemma adapter_ok_hydrate:
  "adapter_ok a \<Longrightarrow> distinct (map t_group rs) \<Longrightarrow> set (map t_group rs) \<inter> set (active_groups a) = {} \<Longrightarrow>
   adapter_ok (hydrate rs a)"
proof (induction rs arbitrary: a)
  case (Cons r rs)
  let ?a = "put_state (t_group r) (hydrated r) a"
  let ?b = "if terminal_status (status (hydrated r)) then ?a
            else ?a\<lparr>active_groups := set_add (t_group r) (active_groups ?a)\<rparr>"
  have "adapter_ok ?b"
    using Cons.prems hydrated_ok [of r] by (auto simp: adapter_ok_def put_state_def)
  moreover have "set (map t_group rs) \<inter> set (active_groups ?b) = {}"
    using Cons.prems(2,3) by (auto simp: put_state_def)
  ultimately show ?case using Cons.IH [of ?b] Cons.prems(2) by (simp add: Let_def)
qed simp

text \<open>
  From a restart on, whatever events arrive and whatever the orchestrator and the
  detectors call: percentages stay within their phase's band, 100 and the last phase mean
  done, a tracked group has a task that is not terminal (so its detectors and events stop
  when it ends), and the update queue stays within its bound.
\<close>

theorem progress_invariant:
  assumes "distinct (map t_group rs)" "\<forall>x \<in> set xs. op_events_ok x"
  shows "adapter_ok (fold adapter_step xs (hydrate rs (new_adapter p)))"
proof -
  have "adapter_ok (hydrate rs (new_adapter p))"
    using adapter_ok_hydrate [OF adapter_ok_new assms(1)] by (simp add: new_adapter_def)
  moreover have "adapter_ok a \<Longrightarrow> adapter_ok (fold adapter_step xs a)" for a
    using assms(2) by (induction xs arbitrary: a) (simp_all add: adapter_ok_step)
  ultimately show ?thesis by blast
qed

text \<open>
  An event never moves a task backwards: its phase and percentage only grow, its
  identity stays, and no other group's task is touched.
\<close>

theorem progress_is_monotone:
  assumes "adapter_ok a" "event_ok ev" "states a g = Some s"
  shows "(\<exists>s'. states (on_event g ev now a) g = Some s' \<and> task_id s' = task_id s \<and>
            phase_index (phase_of s) \<le> phase_index (phase_of s') \<and> percent s \<le> percent s') \<and>
         (\<forall>h. h \<noteq> g \<longrightarrow> states (on_event g ev now a) h = states a h)"
  using steps_on_event [OF assms(1,2)] assms(3) unfolding steps_group_def goes_on_def by blast


section \<open>Events of a superseded workflow\<close>

text \<open>\<open>a'\<close> is \<open>a\<close> with \<open>g\<close>'s retry untouched: same claim, status and message.\<close>

definition keeps_retry :: "int \<Rightarrow> adapter \<Rightarrow> adapter \<Rightarrow> bool" where
  "keeps_retry g a a' \<longleftrightarrow> retry_claimed a' = retry_claimed a \<and> active_groups a' = active_groups a \<and>
     map_option status (states a' g) = map_option status (states a g) \<and>
     map_option error_message (states a' g) = map_option error_message (states a g)"

lemma keeps_trans: "keeps_retry g a b \<Longrightarrow> keeps_retry g b c \<Longrightarrow> keeps_retry g a c"
  by (simp add: keeps_retry_def)

lemma set_status_claimed [simp]:
  "g \<in> set (retry_claimed a) \<Longrightarrow> st \<noteq> LRetrying \<Longrightarrow> set_status g st det err push project a = a"
  by (simp add: set_status_def split: option.split)

lemma advance_message [simp]: "error_message (advance_phase p s) = error_message s"
  by (simp add: advance_phase_def Let_def)

lemma handlers_message [simp]:
  "error_message (handle_thought_start ev s) = error_message s"
  "error_message (handle_tool_call ev s) = error_message s"
  "error_message (handle_progress_start ev s) = error_message s"
  "error_message (handle_progress_running ev s) = error_message s"
  "error_message (handle_progress_end ev s) = error_message s"
  "error_message (handle_stream_end s) = error_message s"
  by (simp_all add: handle_thought_start_def handle_tool_call_def handle_progress_start_def
      handle_progress_running_def handle_progress_end_def handle_stream_end_def Let_def)

lemma modify_fields [simp]:
  "retry_claimed (modify_state g f a) = retry_claimed a"
  "active_groups (modify_state g f a) = active_groups a"
  "projector_of (modify_state g f a) = projector_of a"
  "states (modify_state g f a) g = map_option f (states a g)"
  by (simp_all add: modify_state_def put_state_def split: option.split)

lemma keeps_modify:
  "(\<And>s. status (f s) = status s) \<Longrightarrow> (\<And>s. error_message (f s) = error_message s) \<Longrightarrow>
   keeps_retry g a (modify_state g f a)"
  by (simp add: keeps_retry_def option.map_comp comp_def)

lemma run_handler_claimed:
  assumes "g \<in> set (retry_claimed a)"
  shows "keeps_retry g a (run_handler g ev a) \<and>
    (ev_type ev \<noteq> ToolResult \<longrightarrow> projector_of (run_handler g ev a) = projector_of a)"
proof -
  have refl: "keeps_retry g a a" by (simp add: keeps_retry_def)
  show ?thesis
  proof (cases "ev_type ev")
    case ToolResult
    have "keeps_retry g a (handle_tool_result g ev a)"
      by (auto simp: handle_tool_result_def Let_def refl keeps_modify split: option.split)
        (simp add: keeps_retry_def)
    with ToolResult show ?thesis by (simp add: run_handler_def)
  next
    case WorkflowUpdate
    with assms refl show ?thesis by (simp add: run_handler_def handle_workflow_update_def Let_def keeps_modify)
  next
    case WorkflowPaused
    with assms refl show ?thesis
      by (auto simp: run_handler_def handle_workflow_paused_def Let_def keeps_modify
          split: option.split simp del: failure_default.simps)
  qed (use assms refl in \<open>simp_all add: run_handler_def keeps_modify handle_stream_aborted_def
        handle_stream_error_def Let_def\<close>)
qed

text \<open>
  While a retry is claimed, events of the superseded workflow can neither end, pause or
  fail the task nor report a status to the registry: its status stays retrying, its error
  message, the claim and the tracking are unchanged, and only a pull-request URL may still
  reach the projector.
\<close>

theorem superseded_events_ignored:
  assumes "g \<in> set (retry_claimed a)" "states a g = Some s" "status s = LRetrying"
  shows "keeps_retry g a (on_event g ev now a) \<and>
    (ev_type ev \<noteq> ToolResult \<longrightarrow> projector_of (on_event g ev now a) = projector_of a)"
proof (cases "g \<in> set (active_groups a)")
  case True
  let ?a1 = "put_state g (s\<lparr>last_event_at := now, elapsed_sec := now - started_at s\<rparr>) a"
  let ?a2 = "run_handler g ev ?a1"
  have k1: "keeps_retry g a ?a1" "projector_of ?a1 = projector_of a"
    using assms(2) by (simp_all add: keeps_retry_def put_state_def)
  have quiet: "note_activity g ev ?a1 = ?a1"
    using assms(3) by (simp add: note_activity_def put_state_def)
  have "g \<in> set (retry_claimed ?a1)" using assms(1) by (simp add: put_state_def)
  note k2 = run_handler_claimed [OF this, of ev]
  have k3: "keeps_retry g ?a2 (refresh_percent g ?a2) \<and> projector_of (refresh_percent g ?a2) = projector_of ?a2"
    by (simp add: refresh_percent_def keeps_retry_def put_state_def Let_def split: option.split)
  have "on_event g ev now a = (if ev_type ev = OtherEvent then ?a1 else refresh_percent g ?a2)"
    using True assms(2) quiet by (simp add: on_event_def Let_def)
  with k1 k2 k3 show ?thesis by (auto intro: keeps_trans)
next
  case False
  then show ?thesis by (simp add: on_event_def keeps_retry_def)
qed

text \<open>
  One thing a superseded workflow does change: its completion still moves the phase to done
  (the handler advances the phase before the guarded status change), so a retry that then
  fails shows a stuck task in its last phase.
\<close>

lemma superseded_done_advances_phase:
  assumes "g \<in> set (active_groups a)" "g \<in> set (retry_claimed a)" "states a g = Some s"
    "status s = LRetrying" "ev_type ev = WorkflowUpdate" "ev_done ev" "phase_of s \<noteq> PDone"
  shows "\<exists>s'. states (on_event g ev now a) g = Some s' \<and> status s' = LRetrying \<and> phase_of s' = PDone"
proof -
  have "phase_index (phase_of s) < 5" using assms(7) by (cases "phase_of s") simp_all
  then show ?thesis
    using assms by (simp add: on_event_def Let_def note_activity_def put_state_def activity_event_def
        run_handler_def handle_workflow_update_def modify_state_def refresh_percent_def advance_phase_def)
qed

section \<open>The pull-request URL\<close>

lemma pr_tail_infix: "pr_tail k s = Some t \<Longrightarrow> is_prefix t s"
proof (induction k)
  case (Suc k)
  let ?rest = "drop (Suc k) s"
  show ?case
  proof (cases "is_prefix pr_pull ?rest \<and> takeWhile is_digit (drop (length pr_pull) ?rest) \<noteq> []")
    case True
    then obtain zs where zs: "?rest = pr_pull @ zs" by (auto simp: is_prefix_iff)
    have "t = take (Suc k) s @ pr_pull @ takeWhile is_digit zs"
      using Suc.prems True zs by simp
    moreover have "s = take (Suc k) s @ pr_pull @ takeWhile is_digit zs @ dropWhile is_digit zs"
      by (simp only: takeWhile_dropWhile_id zs [symmetric] append_take_drop_id)
    ultimately show ?thesis unfolding is_prefix_iff by (metis append.assoc)
  next
    case False
    with Suc show ?thesis by (simp add: Let_def split: if_splits)
  qed
qed simp

lemma pr_search_infix: "pr_search s = Some u \<Longrightarrow> is_prefix pr_scheme u \<and> is_infix u s"
proof (induction s rule: pr_search.induct)
  case (2 c s)
  show ?case
  proof (cases "pr_match_here (c # s)")
    case None
    with 2 show ?thesis by simp
  next
    case (Some v)
    then have p: "is_prefix pr_scheme (c # s)"
      and t: "\<exists>t. v = pr_scheme @ t \<and> is_prefix t (drop (length pr_scheme) (c # s))"
      by (auto simp: pr_match_here_def Let_def split: if_splits intro: pr_tail_infix)
    then obtain w t where w: "c # s = pr_scheme @ w" and vt: "v = pr_scheme @ t" "is_prefix t w"
      by (auto simp: is_prefix_iff)
    then have "is_prefix v (c # s)" by (auto simp: is_prefix_iff)
    with 2(2) Some vt show ?thesis by (auto simp: is_prefix_iff)
  qed
qed simp

section \<open>Worked instances\<close>

definition demo_event :: event where
  "demo_event = \<lparr>ev_type = WorkflowUpdate, ev_iteration = Some 3, ev_tool_name = None, ev_tool = None,
     ev_tool_input = None, ev_args = None, ev_error = None, ev_is_error = False, ev_result = '''',
     ev_message = None, ev_seconds = 0, ev_done = True, ev_awaiting_confirm = False,
     ev_active = None, ev_reason = '''', ev_details = None\<rparr>"

definition demo_adapter :: adapter where
  "demo_adapter = register_task 1 ''a'' 0 (new_adapter None)"

lemma demo_adapter_ok: "adapter_ok demo_adapter" "event_ok demo_event"
    "states demo_adapter 1 = Some (new_progress 1 ''a'' 0)"
proof -
  have "adapter_ok (adapter_step (ARegister 1 ''a'' 0) (new_adapter None))"
    by (rule adapter_ok_step [OF adapter_ok_new]) simp
  then show "adapter_ok demo_adapter" by (simp add: demo_adapter_def)
qed (simp_all add: event_ok_def demo_event_def demo_adapter_def register_task_def put_state_def Let_def)

theorem progress_invariant_witness:
  "adapter_ok (fold adapter_step [ARegister 1 ''a'' 0, AEvent 1 demo_event 1] (hydrate [] (new_adapter None)))"
  by (rule progress_invariant) (simp_all add: demo_adapter_ok)

theorem progress_is_monotone_witness:
  "\<exists>s'. states (on_event 1 demo_event 1 demo_adapter) 1 = Some s' \<and> 0 \<le> percent s'"
  using progress_is_monotone [OF demo_adapter_ok, of 1] by (force simp: new_progress_def)

theorem superseded_events_ignored_witness:
  "keeps_retry 1 (mark_retrying 1 NoDetail demo_adapter)
     (on_event 1 demo_event 1 (mark_retrying 1 NoDetail demo_adapter))"
proof -
  have "states (mark_retrying 1 NoDetail demo_adapter) 1 =
      Some (with_status LRetrying (Some NoDetail) None (new_progress 1 ''a'' 0))"
    using demo_adapter_ok(3)
    by (simp add: mark_retrying_def set_status_def Let_def put_state_def terminal_status_def)
  moreover have "1 \<in> set (retry_claimed (mark_retrying 1 NoDetail demo_adapter))"
    using demo_adapter_ok(3)
    by (simp add: mark_retrying_def set_status_def Let_def put_state_def terminal_status_def)
  ultimately show ?thesis using superseded_events_ignored [where ev = demo_event and now = 1] by simp
qed

end
