(* ===== verification/Reconciler.thy ===== *)
theory Reconciler
  imports Complex_Main "HOL-Library.Multiset" TaskStore
begin

text \<open>
  Lifecycle reconciliation: \<^verbatim>\<open>plugins/agent_dashboard/reconciler.py\<close>. Beside the central
  database each group has a private one with its agent sessions and workflow state; a group
  whose file does not exist has none. The pass runs per task and converges the private
  database, the task's status and the group's worker pin.
\<close>

section \<open>Private databases\<close>

datatype session_status =
    SRunning | SRecovering | SAwaitingRecovery | SNeedsReview
  | SSuperseded | SExpired | SAborted | SFailed | SCompleted

record session_row =
  s_id :: string
  s_group :: int
  s_bot :: int
  s_status :: session_status
  s_created_at :: int
  s_updated_at :: int

record workflow_row =
  w_group :: int
  w_state :: string

record group_db =
  sessions :: "session_row list"
  workflows :: "workflow_row list"

record world =
  central :: "task_db conn"
  group_dbs :: "int \<rightharpoonup> group_db conn"

definition TASKS_PER_PASS :: int where "TASKS_PER_PASS = 1000"

definition needs_review_ttl :: "bool \<Rightarrow> int" where
  "needs_review_ttl production = (if production then 86400 else 600)"

definition session_active :: "session_status \<Rightarrow> bool" where
  "session_active st \<longleftrightarrow> st \<in> set [SRunning, SRecovering, SAwaitingRecovery, SNeedsReview]"

definition session_live :: "session_status \<Rightarrow> bool" where
  "session_live st \<longleftrightarrow> st = SRunning \<or> st = SRecovering"

definition own_active :: "int \<Rightarrow> int \<Rightarrow> session_row \<Rightarrow> bool" where
  "own_active g b r \<longleftrightarrow> s_group r = g \<and> s_bot r = b \<and> session_active (s_status r)"

definition set_session :: "session_status \<Rightarrow> int \<Rightarrow> session_row \<Rightarrow> session_row" where
  "set_session st now r = r\<lparr>s_status := st, s_updated_at := now\<rparr>"

definition update_sessions ::
  "(session_row \<Rightarrow> bool) \<Rightarrow> (session_row \<Rightarrow> session_row) \<Rightarrow> group_db \<Rightarrow> group_db" where
  "update_sessions P f d = d\<lparr>sessions := update_where P f (sessions d)\<rparr>"

section \<open>Finalizing a group\<close>

definition close_sessions ::
  "int \<Rightarrow> int \<Rightarrow> session_status \<Rightarrow> int \<Rightarrow> group_db conn \<Rightarrow> unit res \<times> group_db conn" where
  "close_sessions g b st now =
     write_connect (\<lambda>c.
       let c1 = dml (update_sessions (own_active g b) (set_session st now)) c;
           c2 = dml (\<lambda>d. d\<lparr>workflows := delete_where (\<lambda>w. w_group w = g) (workflows d)\<rparr>) c1
       in (Inr (), commit c2))"

definition release_worker :: "int \<Rightarrow> task_db conn \<Rightarrow> unit res \<times> task_db conn" where
  "release_worker g =
     write_connect (\<lambda>c.
       (Inr (), commit (dml (\<lambda>d. d\<lparr>groups := update_where (\<lambda>r. g_id r = g)
          (\<lambda>r. r\<lparr>g_worker := None\<rparr>) (groups d)\<rparr>) c)))"

definition finalize_group_state :: "int \<Rightarrow> int \<Rightarrow> session_status \<Rightarrow> int \<Rightarrow> world \<Rightarrow> world" where
  "finalize_group_state g b st now w =
     (let w1 = (case group_dbs w g of
                  None \<Rightarrow> w
                | Some c \<Rightarrow> w\<lparr>group_dbs := (group_dbs w)(g \<mapsto> snd (close_sessions g b st now c))\<rparr>)
      in w1\<lparr>central := snd (release_worker g (central w1))\<rparr>)"

section \<open>Reconciling one task\<close>

text \<open>The active sessions of a task, newest first.\<close>

definition session_rows :: "int \<Rightarrow> int \<Rightarrow> group_db \<Rightarrow> session_row list" where
  "session_rows g b d =
     sort_key (\<lambda>r. - s_updated_at r)
       (sort_key (\<lambda>r. - s_created_at r) (filter (own_active g b) (sessions d)))"

definition live_rows :: "int \<Rightarrow> int \<Rightarrow> group_db \<Rightarrow> session_row list" where
  "live_rows g b d = filter (\<lambda>r. session_live (s_status r)) (session_rows g b d)"

definition expired_rows :: "int \<Rightarrow> int \<Rightarrow> int \<Rightarrow> int \<Rightarrow> group_db \<Rightarrow> session_row list" where
  "expired_rows g b ttl now d =
     filter (\<lambda>r. s_status r = SNeedsReview \<and> now - s_updated_at r \<ge> ttl) (session_rows g b d)"

fun mark_sessions :: "session_status \<Rightarrow> int \<Rightarrow> session_row list \<Rightarrow> group_db conn \<Rightarrow> group_db conn" where
  "mark_sessions st now [] c = c"
| "mark_sessions st now (r # rs) c =
     mark_sessions st now rs (dml (update_sessions (\<lambda>x. s_id x = s_id r) (set_session st now)) c)"

record review =
  rv_live :: bool
  rv_pending :: bool
  rv_expired :: bool

definition review_sessions ::
  "int \<Rightarrow> int \<Rightarrow> int \<Rightarrow> int \<Rightarrow> group_db conn \<Rightarrow> review res \<times> group_db conn" where
  "review_sessions g b ttl now =
     write_connect (\<lambda>c.
       let rows = session_rows g b (view c);
           live = live_rows g b (view c);
           expired = expired_rows g b ttl now (view c);
           c1 = mark_sessions SSuperseded now (drop 1 live) c;
           c2 = mark_sessions SExpired now expired c1
       in (Inr \<lparr>rv_live = (live \<noteq> []),
                rv_pending = (\<exists>r \<in> set rows. s_status r = SNeedsReview \<and> now - s_updated_at r < ttl),
                rv_expired = (expired \<noteq> [])\<rparr>,
           commit c2))"

definition reconcile_task :: "int \<Rightarrow> int \<Rightarrow> task_dict \<Rightarrow> world \<Rightarrow> world" where
  "reconcile_task ttl now t w =
     (let g = t_group t; b = t_bot t in
      if persisted_terminal (t_status t) then finalize_group_state g b SAborted now w
      else
        (case group_dbs w g of
           None \<Rightarrow> w
         | Some c \<Rightarrow>
             (case review_sessions g b ttl now c of
                (Inl e, c') \<Rightarrow> w\<lparr>group_dbs := (group_dbs w)(g \<mapsto> c')\<rparr>
              | (Inr rv, c') \<Rightarrow>
                  (let w1 = w\<lparr>group_dbs := (group_dbs w)(g \<mapsto> c')\<rparr> in
                   if rv_live rv then w1
                   else if rv_pending rv
                   then w1\<lparr>central := snd (update_status (t_id t) Stuck None
                             (Some ''Session requires human review'') now (central w1))\<rparr>
                   else if rv_expired rv
                   then (let w2 = w1\<lparr>central := snd (update_status (t_id t) Failed None
                             (Some ''Session review expired'') now (central w1))\<rparr>
                         in finalize_group_state g b SExpired now w2)
                   else w1))))"

definition run_once :: "bool \<Rightarrow> int \<Rightarrow> int \<Rightarrow> world \<Rightarrow> world" where
  "run_once startup ttl now w =
     (let w1 = (if startup then w\<lparr>central := snd (reconcile_transient_states now (central w))\<rparr> else w)
      in fold (reconcile_task ttl now) (list_tasks None None TASKS_PER_PASS (central w1)) w1)"

section \<open>Finalization\<close>

definition group_closed :: "int \<Rightarrow> int \<Rightarrow> world \<Rightarrow> bool" where
  "group_closed g b w \<longleftrightarrow>
     (\<forall>c. group_dbs w g = Some c \<longrightarrow> idle c \<and>
        (\<forall>r \<in> set (sessions (committed c)). \<not> own_active g b r) \<and>
        (\<forall>x \<in> set (workflows (committed c)). w_group x \<noteq> g)) \<and>
     idle (central w) \<and>
     (\<forall>r \<in> set (groups (committed (central w))). g_id r = g \<longrightarrow> g_worker r = None)"

lemma update_sessions_fields [simp]:
  "sessions (update_sessions P f d) = update_where P f (sessions d)"
  "workflows (update_sessions P f d) = workflows d"
  by (simp_all add: update_sessions_def)

lemma close_sessions_eq:
  "close_sessions g b st now c =
     (Inr (), \<lparr>committed = (update_sessions (own_active g b) (set_session st now) (view c))
        \<lparr>workflows := delete_where (\<lambda>w. w_group w = g) (workflows (view c))\<rparr>, open_tx = None\<rparr>)"
  by (simp add: close_sessions_def write_connect_def Let_def commit_eq)

lemma release_worker_eq:
  "release_worker g c = (Inr (), \<lparr>committed = (view c)\<lparr>groups := update_where (\<lambda>r. g_id r = g)
     (\<lambda>r. r\<lparr>g_worker := None\<rparr>) (groups (view c))\<rparr>, open_tx = None\<rparr>)"
  by (simp add: release_worker_def write_connect_def commit_eq)

lemma own_active_set: "\<not> session_active st \<Longrightarrow> \<not> own_active g b (set_session st now r)"
  by (simp add: own_active_def set_session_def)

lemma released:
  "idle (snd (release_worker g c))"
  "r \<in> set (groups (committed (snd (release_worker g c)))) \<Longrightarrow> g_id r = g \<Longrightarrow> g_worker r = None"
proof -
  show "idle (snd (release_worker g c))" by (simp add: release_worker_eq idle_def)
  assume "r \<in> set (groups (committed (snd (release_worker g c))))" and g: "g_id r = g"
  then have "r \<in> set (update_where (\<lambda>r. g_id r = g) (\<lambda>r. r\<lparr>g_worker := None\<rparr>) (groups (view c)))"
    by (simp add: release_worker_eq)
  from update_where_mem [OF this] obtain x where "r = (if g_id x = g then x\<lparr>g_worker := None\<rparr> else x)" by blast
  with g show "g_worker r = None" by (cases "g_id x = g") simp_all
qed

lemma closed_sessions:
  assumes "\<not> session_active st"
  shows "idle (snd (close_sessions g b st now c))"
    and "r \<in> set (sessions (committed (snd (close_sessions g b st now c)))) \<Longrightarrow> \<not> own_active g b r"
    and "x \<in> set (workflows (committed (snd (close_sessions g b st now c)))) \<Longrightarrow> w_group x \<noteq> g"
proof -
  show "idle (snd (close_sessions g b st now c))" by (simp add: close_sessions_eq idle_def)
  show "w_group x \<noteq> g" if "x \<in> set (workflows (committed (snd (close_sessions g b st now c))))"
    using that by (simp add: close_sessions_eq set_delete_where)
  assume "r \<in> set (sessions (committed (snd (close_sessions g b st now c))))"
  then have "r \<in> set (update_where (own_active g b) (set_session st now) (sessions (view c)))"
    by (simp add: close_sessions_eq)
  from update_where_mem [OF this] obtain y where "r = (if own_active g b y then set_session st now y else y)" by blast
  then show "\<not> own_active g b r"
    using own_active_set [OF assms] by (cases "own_active g b y") simp_all
qed

lemma finalize_closes:
  assumes "\<not> session_active st"
  shows "group_closed g b (finalize_group_state g b st now w)"
proof (cases "group_dbs w g")
  case None
  with released(1) [of g "central w"] released(2) [of _ g "central w"] show ?thesis
    by (simp add: group_closed_def finalize_group_state_def)
next
  case (Some c)
  with released(1) [of g "central w"] released(2) [of _ g "central w"]
    closed_sessions(1) [OF assms, of g b now c] closed_sessions(2) [OF assms, of _ g b now c]
    closed_sessions(3) [OF assms, of _ g b now c] show ?thesis
    by (simp add: group_closed_def finalize_group_state_def)
qed

lemma finalize_of_closed:
  assumes "group_closed g b w"
  shows "finalize_group_state g b st now w = w"
proof -
  have "update_where (\<lambda>r. g_id r = g) (\<lambda>r. r\<lparr>g_worker := None\<rparr>) (groups (committed (central w))) =
      groups (committed (central w))"
    using assms by (auto simp: group_closed_def update_where_def intro!: map_idI)
  then have c: "snd (release_worker g (central w)) = central w"
    using assms idle_eq [of "central w"] by (simp add: release_worker_eq group_closed_def)
  show ?thesis
  proof (cases "group_dbs w g")
    case None
    with c show ?thesis by (simp add: finalize_group_state_def)
  next
    case (Some k)
    then have "snd (close_sessions g b st now k) = k"
      using assms idle_eq [of k]
      by (simp add: close_sessions_eq group_closed_def update_where_none delete_where_none update_sessions_def)
    with Some c show ?thesis by (simp add: finalize_group_state_def map_upd_triv)
  qed
qed

text \<open>
  Finalizing a task's group closes it: no session of the task is active, the group has no
  workflow state, its worker pin is released and no transaction is left open; doing it again,
  with any status, changes nothing, so the periodic pass over terminal tasks is idempotent.
\<close>

theorem finalize_is_idempotent:
  assumes "\<not> session_active st"
  shows "group_closed g b (finalize_group_state g b st now w) \<and>
    finalize_group_state g b st' now' (finalize_group_state g b st now w) =
      finalize_group_state g b st now w"
  using finalize_closes [OF assms] finalize_of_closed by blast

section \<open>Review of a task's sessions\<close>

lemma set_session_fields [simp]:
  "s_id (set_session st now r) = s_id r" "s_group (set_session st now r) = s_group r"
  "s_bot (set_session st now r) = s_bot r" "s_status (set_session st now r) = st"
  "set_session st now (set_session st' now' r) = set_session st now r"
  by (simp_all add: set_session_def)

lemma update_where_twice:
  "(\<And>r. P (f r) = P r) \<Longrightarrow> (\<And>r. Q (f r) = Q r) \<Longrightarrow> (\<And>r. f (f r) = f r) \<Longrightarrow>
   update_where Q f (update_where P f t) = update_where (\<lambda>r. P r \<or> Q r) f t"
  by (simp add: update_where_def)

lemma mark_sessions_view:
  "sessions (view (mark_sessions st now rs c)) =
     update_where (\<lambda>x. s_id x \<in> s_id ` set rs) (set_session st now) (sessions (view c))"
proof (induction rs arbitrary: c)
  case (Cons r rs)
  have "sessions (view (mark_sessions st now (r # rs) c)) =
      update_where (\<lambda>x. s_id x \<in> s_id ` set rs) (set_session st now)
        (update_where (\<lambda>x. s_id x = s_id r) (set_session st now) (sessions (view c)))"
    by (simp add: Cons.IH)
  also have "\<dots> = update_where (\<lambda>x. s_id x = s_id r \<or> s_id x \<in> s_id ` set rs)
      (set_session st now) (sessions (view c))"
    by (rule update_where_twice) simp_all
  finally show ?case by simp
qed (simp add: update_where_def)

lemma session_rows_set: "set (session_rows g b d) = {r \<in> set (sessions d). own_active g b r}"
  by (auto simp: session_rows_def)

lemma session_rows_distinct:
  assumes "keyed s_id (sessions d)" shows "distinct (map s_id (session_rows g b d))"
proof -
  have "mset (session_rows g b d) = mset (filter (own_active g b) (sessions d))"
    by (simp add: session_rows_def)
  then have "mset (map s_id (session_rows g b d)) = mset (map s_id (filter (own_active g b) (sessions d)))"
    by simp
  then have "distinct (map s_id (session_rows g b d)) = distinct (map s_id (filter (own_active g b) (sessions d)))"
    by (rule mset_eq_imp_distinct_iff)
  then show ?thesis using assms by (simp add: keyed_def distinct_map_filter)
qed

lemma session_rows_sorted: "sorted (map (\<lambda>r. - s_updated_at r) (session_rows g b d))"
  by (simp add: session_rows_def)

lemma unique_by_key:
  assumes "keyed key t" "\<And>r. r \<in> set t \<Longrightarrow> P r \<Longrightarrow> key r = k"
  shows "length (filter P t) \<le> 1"
proof -
  have d: "distinct (map key (filter P t))" using assms(1) by (simp add: keyed_def distinct_map_filter)
  have "set (map key (filter P t)) \<subseteq> {k}" using assms(2) by auto
  then have "card (set (map key (filter P t))) \<le> 1" using card_mono [of "{k}"] by force
  with d show ?thesis using distinct_card [OF d] by simp
qed

definition live_of :: "int \<Rightarrow> int \<Rightarrow> group_db \<Rightarrow> session_row list" where
  "live_of g b d = filter (\<lambda>r. own_active g b r \<and> session_live (s_status r)) (sessions d)"

text \<open>What the review makes of one session of the database \<open>d\<close>.\<close>

definition reviewed :: "int \<Rightarrow> int \<Rightarrow> int \<Rightarrow> int \<Rightarrow> group_db \<Rightarrow> session_row \<Rightarrow> session_row" where
  "reviewed g b ttl now d y =
     (if s_id y \<in> s_id ` set (expired_rows g b ttl now d) then set_session SExpired now y
      else if s_id y \<in> s_id ` set (drop 1 (live_rows g b d)) then set_session SSuperseded now y else y)"

lemma reviewed_id [simp]: "s_id (reviewed g b ttl now d y) = s_id y"
  by (simp add: reviewed_def)

lemma review_sessions_eq:
  "review_sessions g b ttl now c = (res, c') \<Longrightarrow>
   sessions (committed c') = map (reviewed g b ttl now (view c)) (sessions (view c)) \<and>
   (\<exists>rv. res = Inr rv \<and> rv_live rv = (live_rows g b (view c) \<noteq> []))"
  by (auto simp: review_sessions_def write_connect_def Let_def mark_sessions_view update_where_def
      reviewed_def)

lemma rows_set:
  "set (live_rows g b d) = set (live_of g b d)"
  "set (expired_rows g b ttl now d) \<subseteq> {r \<in> set (sessions d). own_active g b r \<and> s_status r = SNeedsReview}"
  by (auto simp: live_rows_def expired_rows_def live_of_def session_rows_set)

lemma same_id: "keyed s_id (sessions d) \<Longrightarrow> x \<in> set (sessions d) \<Longrightarrow> y \<in> set (sessions d) \<Longrightarrow>
    s_id x = s_id y \<Longrightarrow> x = y"
  by (auto simp: keyed_def distinct_map inj_on_def)

lemma live_rows_distinct: "keyed s_id (sessions d) \<Longrightarrow> distinct (map s_id (live_rows g b d))"
  unfolding live_rows_def by (rule distinct_map_filter [OF session_rows_distinct])

lemma not_reviewed:
  assumes "keyed s_id (sessions d)" "y \<in> set (sessions d)" "y \<notin> set (drop 1 (live_rows g b d))"
    "\<not> (own_active g b y \<and> s_status y = SNeedsReview)"
  shows "reviewed g b ttl now d y = y"
proof -
  have "s_id y \<notin> s_id ` set (expired_rows g b ttl now d)"
  proof
    assume "s_id y \<in> s_id ` set (expired_rows g b ttl now d)"
    then obtain e where e: "e \<in> set (expired_rows g b ttl now d)" "s_id y = s_id e" by (rule imageE)
    have sub: "e \<in> {r \<in> set (sessions d). own_active g b r \<and> s_status r = SNeedsReview}"
      by (rule subsetD [OF rows_set(2) e(1)])
    then have "e = y" using same_id [OF assms(1), of e y] assms(2) e(2) by simp
    with sub assms(4) show False by simp
  qed
  moreover have "s_id y \<notin> s_id ` set (drop 1 (live_rows g b d))"
  proof
    assume "s_id y \<in> s_id ` set (drop 1 (live_rows g b d))"
    then obtain e where e: "e \<in> set (drop 1 (live_rows g b d))" "s_id y = s_id e" by (rule imageE)
    have "e \<in> set (live_of g b d)" using in_set_dropD [OF e(1)] by (simp add: rows_set)
    then have "e = y" using e(2) same_id [OF assms(1), of e y] assms(2) by (simp add: live_of_def)
    with e(1) assms(3) show False by simp
  qed
  ultimately show ?thesis by (simp add: reviewed_def)
qed

lemma reviewed_live:
  assumes "session_live (s_status (reviewed g b ttl now d y))"
  shows "reviewed g b ttl now d y = y" "y \<notin> set (drop 1 (live_rows g b d))"
  using assms by (auto simp: reviewed_def session_live_def split: if_splits)

text \<open>The only live session left is the newest of the live ones.\<close>

lemma live_after_review:
  assumes "keyed s_id (sessions d)" "sessions d' = map (reviewed g b ttl now d) (sessions d)"
  shows "set (live_of g b d') = set (take 1 (live_rows g b d))"
proof (intro equalityI subsetI)
  fix r assume "r \<in> set (live_of g b d')"
  then obtain y where y: "y \<in> set (sessions d)" "r = reviewed g b ttl now d y"
      and live: "own_active g b r" "session_live (s_status r)"
    using assms(2) by (auto simp: live_of_def)
  then have "r = y" "y \<notin> set (drop 1 (live_rows g b d))" using reviewed_live by simp_all
  moreover have "y \<in> set (live_rows g b d)"
    using y live \<open>r = y\<close> by (simp add: rows_set live_of_def)
  ultimately show "r \<in> set (take 1 (live_rows g b d))"
    by (cases "live_rows g b d") auto
next
  fix r assume "r \<in> set (take 1 (live_rows g b d))"
  then obtain rest where hr: "live_rows g b d = r # rest" by (cases "live_rows g b d") auto
  have "r \<in> set (live_rows g b d)" using hr by simp
  then have r: "r \<in> set (sessions d)" "own_active g b r" "session_live (s_status r)"
    by (simp_all add: rows_set live_of_def)
  have "r \<notin> set (drop 1 (live_rows g b d))" using live_rows_distinct [OF assms(1), of g b] hr by auto
  then have "reviewed g b ttl now d r = r"
    using r by (intro not_reviewed [OF assms(1)]) (auto simp: session_live_def)
  then have "r \<in> set (sessions d')" using r(1) assms(2) by force
  with r show "r \<in> set (live_of g b d')" by (simp add: live_of_def)
qed

lemma live_rows_newest:
  assumes "r \<in> set (take 1 (live_rows g b d))" "x \<in> set (live_of g b d)"
  shows "s_updated_at x \<le> s_updated_at r"
proof -
  have x: "x \<in> set (live_rows g b d)" using assms(2) by (simp add: rows_set)
  have "sorted (map (\<lambda>r. - s_updated_at r) (live_rows g b d))"
    unfolding live_rows_def by (rule sorted_filter [OF session_rows_sorted])
  with x assms(1) show ?thesis by (cases "live_rows g b d") auto
qed

text \<open>
  After a task's sessions have been reviewed at most one of them is live, it is one with
  the latest update among those that were, the review reports a live session exactly when
  one remains, and sessions of other tasks or that were already closed are untouched.
\<close>

theorem one_live_session:
  assumes "keyed s_id (sessions (view c))" "review_sessions g b ttl now c = (res, c')"
  shows "length (live_of g b (committed c')) \<le> 1 \<and>
    (\<exists>rv. res = Inr rv \<and> (rv_live rv \<longleftrightarrow> live_of g b (committed c') \<noteq> [])) \<and>
    (\<forall>r x. r \<in> set (live_of g b (committed c')) \<and> x \<in> set (live_of g b (view c)) \<longrightarrow>
       s_updated_at x \<le> s_updated_at r) \<and>
    {r \<in> set (sessions (view c)). \<not> own_active g b r} \<subseteq> set (sessions (committed c'))"
proof -
  let ?d = "view c"
  have S: "sessions (committed c') = map (reviewed g b ttl now ?d) (sessions ?d)"
    and res: "\<exists>rv. res = Inr rv \<and> rv_live rv = (live_rows g b ?d \<noteq> [])"
    using review_sessions_eq [OF assms(2)] by simp_all
  note live = live_after_review [OF assms(1) S]
  have "keyed s_id (sessions (committed c'))"
    using assms(1) unfolding S keyed_def by (simp add: comp_def)
  then have one: "length (live_of g b (committed c')) \<le> 1"
    unfolding live_of_def
  proof (rule unique_by_key [of _ _ _ "s_id (hd (live_rows g b ?d))"])
    fix r assume "r \<in> set (sessions (committed c'))" "own_active g b r \<and> session_live (s_status r)"
    then have "r \<in> set (take 1 (live_rows g b ?d))" using live by (auto simp: live_of_def)
    then show "s_id r = s_id (hd (live_rows g b ?d))" by (cases "live_rows g b ?d") simp_all
  qed
  have "live_of g b (committed c') \<noteq> [] \<longleftrightarrow> live_rows g b ?d \<noteq> []"
    using live by (cases "live_rows g b ?d"; cases "live_of g b (committed c')") simp_all
  moreover have "r \<in> set (sessions (committed c'))"
    if "r \<in> set (sessions ?d)" "\<not> own_active g b r" for r
  proof -
    have "r \<notin> set (drop 1 (live_rows g b ?d))"
      using that(2) rows_set(1) [of g b ?d] in_set_dropD [of r 1 "live_rows g b ?d"] by (auto simp: live_of_def)
    then have "reviewed g b ttl now ?d r = r"
      using that by (intro not_reviewed [OF assms(1)]) auto
    with that(1) show ?thesis unfolding S by force
  qed
  ultimately show ?thesis using one res live live_rows_newest by auto
qed

section \<open>Worked instances\<close>

definition demo_session :: "string \<Rightarrow> session_status \<Rightarrow> int \<Rightarrow> session_row" where
  "demo_session i st t = \<lparr>s_id = i, s_group = 1, s_bot = 2, s_status = st, s_created_at = 0, s_updated_at = t\<rparr>"

definition demo_group :: "group_db conn" where
  "demo_group = \<lparr>committed = \<lparr>sessions = [demo_session ''s1'' SRunning 5, demo_session ''s2'' SRunning 9],
     workflows = [\<lparr>w_group = 1, w_state = ''x''\<rparr>]\<rparr>, open_tx = None\<rparr>"

definition demo_world :: world where
  "demo_world = \<lparr>central = demo_conn, group_dbs = [1 \<mapsto> demo_group]\<rparr>"

theorem finalize_is_idempotent_witness:
  "group_closed 1 2 (finalize_group_state 1 2 SAborted 10 demo_world)"
  using finalize_is_idempotent [of SAborted 1 2 10 demo_world] by (simp add: session_active_def)

theorem one_live_session_witness:
  "length (live_of 1 2 (committed (snd (review_sessions 1 2 600 10 demo_group)))) \<le> 1"
proof -
  obtain res c' where r: "review_sessions 1 2 600 10 demo_group = (res, c')" by (metis surj_pair)
  have "keyed s_id (sessions (view demo_group))"
    by (simp add: demo_group_def view_def keyed_def demo_session_def)
  from one_live_session [OF this r] r show ?thesis by simp
qed

end
