(* ===== verification/TaskOrch.thy ===== *)
theory TaskOrch
  imports Progress Reconciler
begin

text \<open>
  The life cycle of coding-agent tasks: class \<open>TaskOrchestrator\<close> of
  \<^verbatim>\<open>plugins/agent_dashboard/orchestrator.py\<close>. What it calls outside this development (the
  repository check and clone, workspace directories, the supervisor's IPC) is an argument
  that says whether the call raised, or what the worker acknowledged; database calls are the
  registry's own definitions. \<open>sent\<close> is the list of tasks whose START_WORKFLOW frame was sent.
\<close>

record orch =
  ow :: world
  dash :: "adapter option"
  sent :: "string list"

definition map_central :: "(task_db conn \<Rightarrow> task_db conn) \<Rightarrow> orch \<Rightarrow> orch" where
  "map_central f w = w\<lparr>ow := (ow w)\<lparr>central := f (central (ow w))\<rparr>\<rparr>"

definition map_dash :: "(adapter \<Rightarrow> adapter) \<Rightarrow> orch \<Rightarrow> orch" where
  "map_dash f w = w\<lparr>dash := map_option f (dash w)\<rparr>"

definition db_of :: "orch \<Rightarrow> task_db conn" where
  "db_of w = central (ow w)"

definition manual_retry_statuses :: "task_status list" where
  "manual_retry_statuses = [Stuck, Failed, Aborted, StuckPermanently, Incomplete]"

definition automatic_retry_statuses :: "task_status list" where
  "automatic_retry_statuses = [Dispatched, Running, Paused, Stuck]"

definition active_persisted_statuses :: "task_status list" where
  "active_persisted_statuses = [Dispatched, Running, Paused]"

fun local_retry_failure_status :: "task_status \<Rightarrow> lstatus" where
  "local_retry_failure_status Failed = LError"
| "local_retry_failure_status Aborted = LAborted"
| "local_retry_failure_status StuckPermanently = LStuckPermanently"
| "local_retry_failure_status Incomplete = LIncomplete"
| "local_retry_failure_status _ = LStuck"

section \<open>Worker acknowledgements\<close>

record ack =
  ack_cleanup :: "string option"
  ack_task :: "string option"
  ack_mode :: "string option"
  ack_action :: "string option"
  ack_cleaned :: bool
  ack_error :: "string option"

text \<open>
  \<open>_send_abort\<close>: no supervisor, or a request that raised, or an acknowledgement that does
  not prove the cleanup of this very task, all raise.
\<close>

definition ack_proves :: "string \<Rightarrow> string \<Rightarrow> ack \<Rightarrow> bool" where
  "ack_proves tid mode k \<longleftrightarrow>
     \<not> (ack_cleanup k \<noteq> Some ''success'' \<or> ack_task k \<noteq> Some tid \<or> ack_mode k \<noteq> Some mode \<or>
        ack_action k \<noteq> Some ''discard'' \<or> \<not> ack_cleaned k)"

definition send_abort :: "ack res option \<Rightarrow> string \<Rightarrow> string \<Rightarrow> ack res" where
  "send_abort sv tid mode =
     (case sv of
        None \<Rightarrow> Inl (RuntimeError ''Supervisor not available'')
      | Some (Inl e) \<Rightarrow> Inl e
      | Some (Inr k) \<Rightarrow>
          if ack_proves tid mode k then Inr k
          else Inl (RuntimeError (''Worker cleanup was not proven for task '' @ tid @ '': '' @
                 get_default (ack_error k) ''Unknown error'')))"

text \<open>\<open>_dispatch_agent\<close>: the frame is sent unless the supervisor is missing or sending raises.\<close>

definition dispatch_agent :: "exc option \<Rightarrow> string \<Rightarrow> orch \<Rightarrow> unit res \<times> orch" where
  "dispatch_agent outcome tid w =
     (case outcome of
        Some e \<Rightarrow> (Inl e, w)
      | None \<Rightarrow> (Inr (), w\<lparr>sent := sent w @ [tid]\<rparr>))"

section \<open>Creating a task\<close>

record create_args =
  a_repo :: string
  a_requirements :: string
  a_base :: string
  a_test :: string
  a_model :: string
  a_iterations :: int
  a_worker :: string

record create_env =
  e_preflight :: "exc option"
  e_init_group :: "exc option"
  e_init_bot :: "exc option"
  e_clone :: "exc option"
  e_dispatch :: "exc option"
  e_group :: int
  e_bot :: int
  e_now :: int
  e_clock :: rat

fun resolve_provider :: "string \<Rightarrow> string" where
  "resolve_provider model =
     (let m = py_lower model in
      if is_infix ''gpt'' m \<or> is_infix ''o1'' m \<or> is_infix ''o3'' m then ''openai''
      else if is_infix ''claude'' m then ''anthropic''
      else ''deepseek'')"

definition insert_group :: "int \<Rightarrow> task_db conn \<Rightarrow> unit res \<times> task_db conn" where
  "insert_group g = write_connect (\<lambda>c.
     (Inr (), commit (dml (\<lambda>d. d\<lparr>groups := groups d @ [\<lparr>g_id = g, g_worker = None\<rparr>]\<rparr>) c)))"

definition insert_member :: "int \<Rightarrow> int \<Rightarrow> task_db conn \<Rightarrow> unit res \<times> task_db conn" where
  "insert_member b g = write_connect (\<lambda>c.
     if g \<notin> g_id ` set (groups (view c))
     then (Inl (IntegrityError ''FOREIGN KEY constraint failed''), c)
     else (Inr (), commit (dml (\<lambda>d. d\<lparr>members := members d @ [\<lparr>m_id = b, m_group = g\<rparr>]\<rparr>) c)))"

definition bind_group_to_worker :: "int \<Rightarrow> string \<Rightarrow> task_db conn \<Rightarrow> unit res \<times> task_db conn" where
  "bind_group_to_worker g worker = write_connect (\<lambda>c.
     (Inr (), commit (dml (\<lambda>d. d\<lparr>groups := update_where (\<lambda>r. g_id r = g)
        (\<lambda>r. r\<lparr>g_worker := Some worker\<rparr>) (groups d)\<rparr>) c)))"

definition bind_if_selected :: "int \<Rightarrow> string \<Rightarrow> orch \<Rightarrow> orch" where
  "bind_if_selected g worker w =
     (if worker \<noteq> '''' then map_central (\<lambda>c. snd (bind_group_to_worker g worker c)) w else w)"

text \<open>
  The rows of a rolled-back group go in one transaction; a task that still refers to the
  group or to one of its members makes it fail, which is logged only.
\<close>

definition delete_group_rows :: "int \<Rightarrow> task_db conn \<Rightarrow> unit res \<times> task_db conn" where
  "delete_group_rows g = write_connect (\<lambda>c.
     if (\<exists>t \<in> set (tasks (view c)). t_group t = g \<or>
           (\<exists>m \<in> set (members (view c)). m_group m = g \<and> m_id m = t_bot t))
     then (Inl (IntegrityError ''FOREIGN KEY constraint failed''), c)
     else (Inr (), commit (dml (\<lambda>d. d\<lparr>groups := delete_where (\<lambda>r. g_id r = g) (groups d)\<rparr>)
                          (dml (\<lambda>d. d\<lparr>members := delete_where (\<lambda>m. m_group m = g) (members d)\<rparr>) c))))"

definition rollback_group :: "int option \<Rightarrow> orch \<Rightarrow> orch" where
  "rollback_group g w =
     (case g of
        None \<Rightarrow> w
      | Some g \<Rightarrow>
          (let w1 = w\<lparr>ow := (ow w)\<lparr>group_dbs := (group_dbs (ow w))(g := None)\<rparr>\<rparr>
           in map_central (\<lambda>c. snd (delete_group_rows g c)) w1))"

text \<open>
  The steps inside the \<open>try\<close>: the exception that ended them, if any, the two local variables
  \<open>group_id\<close> and \<open>bot_id\<close> as far as they were assigned, and the state.
\<close>

definition create_steps ::
  "create_env \<Rightarrow> create_args \<Rightarrow> string \<Rightarrow> orch \<Rightarrow> exc option \<times> (int option \<times> int option) \<times> orch" where
  "create_steps v a tid w0 =
     (let g = e_group v; b = e_bot v; now = e_now v in
      case e_preflight v of Some e \<Rightarrow> (Some e, (None, None), w0) | None \<Rightarrow>
     (let w1 = map_central (\<lambda>c. snd (insert_group g c)) w0 in
      case e_init_group v of Some e \<Rightarrow> (Some e, (None, None), w1) | None \<Rightarrow>
     (case insert_member b g (db_of w1) of (Inl e, c) \<Rightarrow> (Some e, (Some g, None), map_central (\<lambda>_. c) w1)
      | (Inr _, c2) \<Rightarrow>
     (let w2 = map_central (\<lambda>_. c2) w1 in
      case e_init_bot v of Some e \<Rightarrow> (Some e, (Some g, None), w2) | None \<Rightarrow>
     (case e_clone v of Some e \<Rightarrow> (Some e, (Some g, Some b), w2) | None \<Rightarrow>
     (let w3 = bind_if_selected g (a_worker a) w2 in
      case create_task tid g b (a_repo a) (a_requirements a) (a_base a) (a_test a) (a_model a)
             (a_iterations a) now (db_of w3) of
        (Inl e, c) \<Rightarrow> (Some e, (Some g, Some b), map_central (\<lambda>_. c) w3)
      | (Inr _, c4) \<Rightarrow>
     (let w4 = map_dash (register_task g tid (e_clock v)) (map_central (\<lambda>_. c4) w3) in
      case dispatch_agent (e_dispatch v) tid w4 of
        (Inl e, w5) \<Rightarrow> (Some e, (Some g, Some b), w5)
      | (Inr _, w5) \<Rightarrow>
     (case update_status tid Dispatched None None now (db_of w5) of
        (Inl e, c) \<Rightarrow> (Some e, (Some g, Some b), map_central (\<lambda>_. c) w5)
      | (Inr _, c) \<Rightarrow> (None, (Some g, Some b), map_central (\<lambda>_. c) w5)))))))))"

text \<open>The compensation in \<open>except Exception\<close>.\<close>

definition compensate ::
  "string \<Rightarrow> string \<Rightarrow> exc \<Rightarrow> int \<Rightarrow> int option \<times> int option \<Rightarrow> orch \<Rightarrow> orch" where
  "compensate tid key e now loc w =
     (let w1 = (case fst loc of None \<Rightarrow> w | Some g \<Rightarrow> map_dash (remove_task g) w);
          w2 = (if snd loc = None then w1 else map_central (\<lambda>c. snd (delete_task tid c)) w1);
          w3 = rollback_group (fst loc) w2
      in if key = '''' then w3 else map_central (\<lambda>c. snd (fail_request key (exc_str e) now c)) w3)"

fun wrap_creation_error :: "exc \<Rightarrow> exc" where
  "wrap_creation_error (GitHubIntegrationUnavailable m) = GitHubIntegrationUnavailable m"
| "wrap_creation_error e = RuntimeError (''Task creation failed: '' @ exc_str e)"

definition create_new ::
  "create_env \<Rightarrow> create_args \<Rightarrow> string \<Rightarrow> string \<Rightarrow> orch \<Rightarrow> task_dict res \<times> orch" where
  "create_new v a key tid w =
     (case create_steps v a tid w of
        (Some e, loc, w1) \<Rightarrow>
          if is_Exception e
          then (Inl (wrap_creation_error e), compensate tid key e (e_now v) loc w1)
          else (Inl e, w1)
      | (None, loc, w1) \<Rightarrow>
          (case get_task tid (db_of w1) of
             None \<Rightarrow> (Inl (RuntimeError (''Persisted task '' @ tid @ '' disappeared after dispatch'')), w1)
           | Some record \<Rightarrow>
               (Inr record,
                if key = '''' then w1
                else map_central (\<lambda>c. snd (complete_request key (e_now v) c)) w1)))"

text \<open>
  \<open>create_task\<close> with its idempotency key (\<open>''''\<close> when there is none); \<open>digest\<close> is the SHA-256
  of the canonical request, \<open>fresh\<close> the generated task id.
\<close>

definition create_task_request ::
  "(create_args \<Rightarrow> string) \<Rightarrow> create_env \<Rightarrow> create_args \<Rightarrow> string \<Rightarrow> string \<Rightarrow> orch \<Rightarrow> task_dict res \<times> orch" where
  "create_task_request digest v a key fresh w =
     (if key = '''' then create_new v a key fresh w
      else
        (case reserve_request key (digest a) fresh (e_now v) (db_of w) of
           (Inl e, c) \<Rightarrow> (Inl e, map_central (\<lambda>_. c) w)
         | (Inr r, c) \<Rightarrow>
             (let w1 = map_central (\<lambda>_. c) w in
              if v_owner r then create_new v a key (v_task r) w1
              else
                (case (v_state r, get_task (v_task r) c) of
                   (ReqCompleted, Some record) \<Rightarrow> (Inr record, w1)
                 | (ReqFailed, _) \<Rightarrow>
                     (Inl (PreviousTaskCreationFailed
                        (opt_or (v_error r) ''The previous task creation attempt failed'')), w1)
                 | _ \<Rightarrow> (Inl (TaskCreationInProgress key), w1)))))"

section \<open>Retrying\<close>

record retry_env =
  r_abort :: "ack res option"
  r_dispatch :: "exc option"
  r_token :: string
  r_now :: int
  r_clock :: rat

definition local_stuck :: "string \<Rightarrow> int \<Rightarrow> orch \<Rightarrow> bool" where
  "local_stuck tid g w =
     (case dash w of
        None \<Rightarrow> False
      | Some a \<Rightarrow> (case states a g of None \<Rightarrow> False | Some s \<Rightarrow> task_id s = tid \<and> status s = LStuck))"

text \<open>The steps of a retry after the claim; an exception ends them.\<close>

definition retry_steps ::
  "retry_env \<Rightarrow> string \<Rightarrow> int \<Rightarrow> retry_claim \<Rightarrow> orch \<Rightarrow> exc option \<times> orch" where
  "retry_steps v tid g k w =
     (let w1 = map_dash (mark_retrying g StoppingForRetry) w in
      case send_abort (r_abort v) tid ''retry'' of
        Inl e \<Rightarrow> (Some e, w1)
      | Inr _ \<Rightarrow>
          (case dispatch_agent (r_dispatch v) tid w1 of
             (Inl e, w2) \<Rightarrow> (Some e, w2)
           | (Inr _, w2) \<Rightarrow>
               (case complete_retry_claim tid (rc_token k) (r_now v) (db_of w2) of
                  (Inl e, c) \<Rightarrow> (Some e, map_central (\<lambda>_. c) w2)
                | (Inr True, c) \<Rightarrow> (None, map_central (\<lambda>_. c) w2)
                | (Inr False, c) \<Rightarrow>
                    (Some (RuntimeError (''Retry claim for task '' @ tid @ '' was lost before completion'')),
                     map_central (\<lambda>_. c) w2))))"

definition fallback_status :: "bool \<Rightarrow> bool \<Rightarrow> task_status \<Rightarrow> task_status" where
  "fallback_status automatic override prev =
     (if (automatic \<or> override) \<and> prev \<in> set active_persisted_statuses then Stuck else prev)"

definition retry_failed ::
  "retry_env \<Rightarrow> string \<Rightarrow> int \<Rightarrow> retry_claim \<Rightarrow> task_status \<Rightarrow> exc \<Rightarrow> orch \<Rightarrow> orch" where
  "retry_failed v tid g k fb e w =
     (case restore_retry_claim tid (rc_token k) fb (exc_str e) (r_now v) (db_of w) of
        (res, c) \<Rightarrow>
          (let w1 = map_central (\<lambda>_. c) w in
           if res = Inr True
           then map_dash (fail_retry g (local_retry_failure_status fb)
                  (RetryFailed (take 80 (exc_str e))) (exc_str e)) w1
           else map_dash (release_retry_claim g) w1))"

definition retry_task ::
  "retry_env \<Rightarrow> string \<Rightarrow> bool \<Rightarrow> orch \<Rightarrow> task_dict option res \<times> orch" where
  "retry_task v tid automatic w =
     (case get_task tid (db_of w) of
        None \<Rightarrow> (Inl (ValueError (''Task '' @ tid @ '' not found'')), w)
      | Some record \<Rightarrow>
          (let g = t_group record;
               override = (\<not> automatic \<and> local_stuck tid g w);
               allowed = (if automatic then automatic_retry_statuses else manual_retry_statuses) @
                         (if override then active_persisted_statuses else [])
           in case claim_retry tid allowed automatic RETRY_CLAIM_TTL_SECONDS (r_now v) (r_token v) (db_of w) of
                (Inl e, c) \<Rightarrow> (Inl e, map_central (\<lambda>_. c) w)
              | (Inr None, c) \<Rightarrow>
                  (Inl (TaskRetryConflict tid
                     (case get_task tid c of None \<Rightarrow> ''missing'' | Some r \<Rightarrow> status_str (t_status r))),
                   map_central (\<lambda>_. c) w)
              | (Inr (Some k), c) \<Rightarrow>
                  (case retry_steps v tid g k (map_central (\<lambda>_. c) w) of
                     (Some e, w2) \<Rightarrow>
                       (Inl e, retry_failed v tid g k (fallback_status automatic override (rc_previous k)) e w2)
                   | (None, w2) \<Rightarrow>
                       (let w3 = map_dash (reset_for_retry g (r_clock v)) w2
                        in (Inr (get_task tid (db_of w3)), w3)))))"

section \<open>Ending a task\<close>

definition finalize :: "int \<Rightarrow> int \<Rightarrow> session_status \<Rightarrow> int \<Rightarrow> orch \<Rightarrow> orch" where
  "finalize g b st now w = w\<lparr>ow := finalize_group_state g b st now (ow w)\<rparr>"

definition abort_task :: "ack res option \<Rightarrow> string \<Rightarrow> int \<Rightarrow> orch \<Rightarrow> task_dict option res \<times> orch" where
  "abort_task sv tid now w =
     (case get_task tid (db_of w) of
        None \<Rightarrow> (Inl (ValueError (''Task '' @ tid @ '' not found'')), w)
      | Some record \<Rightarrow>
          (case send_abort sv tid ''abort'' of
             Inl e \<Rightarrow> (Inl e, w)
           | Inr _ \<Rightarrow>
               (let w1 = map_dash (mark_aborted (t_group record)) w in
                case update_status tid Aborted None None now (db_of w1) of
                  (Inl e, c) \<Rightarrow> (Inl e, map_central (\<lambda>_. c) w1)
                | (Inr _, c) \<Rightarrow>
                    (let w2 = finalize (t_group record) (t_bot record) SAborted now (map_central (\<lambda>_. c) w1)
                     in (Inr (get_task tid (db_of w2)), w2)))))"

definition delete_task_record :: "string \<Rightarrow> orch \<Rightarrow> task_dict res \<times> orch" where
  "delete_task_record tid w =
     (case get_task tid (db_of w) of
        None \<Rightarrow> (Inl (ValueError (''Task '' @ tid @ '' not found'')), w)
      | Some record \<Rightarrow>
          if \<not> persisted_terminal (t_status record)
          then (Inl (RuntimeError (''Task '' @ tid @ '' must be terminal before it can be removed'')), w)
          else
            (let w1 = map_dash (remove_task (t_group record)) w in
             case delete_task tid (db_of w1) of
               (Inl e, c) \<Rightarrow> (Inl e, map_central (\<lambda>_. c) w1)
             | (Inr True, c) \<Rightarrow> (Inr record, map_central (\<lambda>_. c) w1)
             | (Inr False, c) \<Rightarrow>
                 (Inl (ValueError (''Task '' @ tid @ '' not found'')), map_central (\<lambda>_. c) w1)))"

definition terminate_permanently_stuck ::
  "ack res option \<Rightarrow> string \<Rightarrow> string \<Rightarrow> int \<Rightarrow> orch \<Rightarrow> task_dict option res \<times> orch" where
  "terminate_permanently_stuck sv tid reason now w =
     (case get_task tid (db_of w) of
        None \<Rightarrow> (Inl (ValueError (''Task '' @ tid @ '' not found'')), w)
      | Some record \<Rightarrow>
          (case send_abort sv tid ''abort'' of
             Inl e \<Rightarrow> (Inl e, w)
           | Inr _ \<Rightarrow>
               (case update_status tid StuckPermanently None (Some reason) now (db_of w) of
                  (Inl e, c) \<Rightarrow> (Inl e, map_central (\<lambda>_. c) w)
                | (Inr False, c) \<Rightarrow>
                    (Inl (RuntimeError (''Could not persist permanently stuck task '' @ tid @
                       '' from status '' @ (case get_task tid c of None \<Rightarrow> ''missing''
                                            | Some r \<Rightarrow> status_str (t_status r)))),
                     map_central (\<lambda>_. c) w)
                | (Inr True, c) \<Rightarrow>
                    (let w1 = finalize (t_group record) (t_bot record) SFailed now (map_central (\<lambda>_. c) w);
                         w2 = map_dash (set_status (t_group record) LStuckPermanently (Some (Shown reason))
                                (Some reason) True False) w1
                     in (Inr (get_task tid (db_of w2)), w2)))))"

section \<open>Single database steps\<close>

abbreviation at_rest :: "task_db \<Rightarrow> task_db conn" where
  "at_rest d \<equiv> \<lparr>committed = d, open_tx = None\<rparr>"

lemma closed_idle [simp]: "idle (at_rest d)" "view (at_rest d) = d"
  by (simp_all add: idle_def view_def)

lemma insert_group_closed:
  "insert_group g (at_rest d) =
     (Inr (), at_rest (d\<lparr>groups := groups d @ [\<lparr>g_id = g, g_worker = None\<rparr>]\<rparr>))"
  by (simp add: insert_group_def write_connect_def commit_eq)

lemma insert_member_closed:
  "g \<in> g_id ` set (groups d) \<Longrightarrow>
   insert_member b g (at_rest d) = (Inr (), at_rest (d\<lparr>members := members d @ [\<lparr>m_id = b, m_group = g\<rparr>]\<rparr>))"
  by (simp add: insert_member_def write_connect_def commit_eq)

lemma bind_closed:
  "bind_group_to_worker g k (at_rest d) =
     (Inr (), at_rest (d\<lparr>groups := update_where (\<lambda>r. g_id r = g) (\<lambda>r. r\<lparr>g_worker := Some k\<rparr>) (groups d)\<rparr>))"
  by (simp add: bind_group_to_worker_def write_connect_def commit_eq)

lemma delete_task_closed:
  "snd (delete_task tid (at_rest d)) = at_rest (d\<lparr>tasks := delete_where (\<lambda>r. t_id r = tid) (tasks d),
     claims := delete_where (\<lambda>r. c_task r = tid) (claims d)\<rparr>)"
  by (simp add: delete_task_def write_connect_def Let_def commit_eq)

lemma delete_group_rows_closed:
  "(\<And>t. t \<in> set (tasks d) \<Longrightarrow> t_group t \<noteq> g) \<Longrightarrow>
   (\<And>t m. t \<in> set (tasks d) \<Longrightarrow> m \<in> set (members d) \<Longrightarrow> m_group m = g \<Longrightarrow> m_id m \<noteq> t_bot t) \<Longrightarrow>
   snd (delete_group_rows g (at_rest d)) = at_rest (d\<lparr>
     groups := delete_where (\<lambda>r. g_id r = g) (groups d),
     members := delete_where (\<lambda>m. m_group m = g) (members d)\<rparr>)"
  by (auto simp: delete_group_rows_def write_connect_def commit_eq)

lemma map_central_fields [simp]:
  "db_of (map_central f w) = f (db_of w)" "dash (map_central f w) = dash w"
  "sent (map_central f w) = sent w" "group_dbs (ow (map_central f w)) = group_dbs (ow w)"
  by (simp_all add: map_central_def db_of_def)

lemma map_dash_fields [simp]:
  "db_of (map_dash f w) = db_of w" "dash (map_dash f w) = map_option f (dash w)"
  "sent (map_dash f w) = sent w" "ow (map_dash f w) = ow w"
  by (simp_all add: map_dash_def db_of_def)

section \<open>Creation is atomic\<close>

text \<open>Row ids SQLite has not used, and a task id of which nothing is recorded yet.\<close>

definition fresh_ids :: "create_env \<Rightarrow> string \<Rightarrow> task_db \<Rightarrow> bool" where
  "fresh_ids v tid d \<longleftrightarrow>
     (\<forall>r \<in> set (groups d). g_id r \<noteq> e_group v) \<and> (\<forall>m \<in> set (members d). m_group m \<noteq> e_group v) \<and>
     (\<forall>t \<in> set (tasks d). t_id t \<noteq> tid \<and> t_group t \<noteq> e_group v \<and> t_bot t \<noteq> e_bot v) \<and>
     (\<forall>k \<in> set (claims d). c_task k \<noteq> tid)"

text \<open>The database \<open>d\<close> with rows added for the task being created.\<close>

definition grown :: "create_env \<Rightarrow> string \<Rightarrow> task_db \<Rightarrow> task_db \<Rightarrow> bool \<Rightarrow> bool" where
  "grown v tid d d' with_task \<longleftrightarrow> (\<exists>gs ms ts.
     d' = d\<lparr>groups := groups d @ gs, members := members d @ ms, tasks := tasks d @ ts\<rparr> \<and>
     (\<forall>x \<in> set gs. g_id x = e_group v) \<and> (\<forall>m \<in> set ms. m_group m = e_group v \<and> m_id m = e_bot v) \<and>
     (\<forall>t \<in> set ts. t_id t = tid) \<and> (\<not> with_task \<longrightarrow> ts = []))"

lemma grown_True: "grown v tid d d' b \<Longrightarrow> grown v tid d d' True"
  unfolding grown_def by blast

lemma delete_where_append [simp]: "delete_where P (xs @ ys) = delete_where P xs @ delete_where P ys"
  by (simp add: delete_where_def)

lemma delete_where_all: "(\<And>r. r \<in> set t \<Longrightarrow> P r) \<Longrightarrow> delete_where P t = []"
  by (simp add: delete_where_def)

lemma grown_deleted:
  assumes "grown v tid d d' True" "fresh_ids v tid d"
  shows "grown v tid d (d'\<lparr>tasks := delete_where (\<lambda>r. t_id r = tid) (tasks d'),
     claims := delete_where (\<lambda>r. c_task r = tid) (claims d')\<rparr>) False"
proof -
  obtain gs ms ts where d': "d' = d\<lparr>groups := groups d @ gs, members := members d @ ms, tasks := tasks d @ ts\<rparr>"
      and gs: "\<forall>x \<in> set gs. g_id x = e_group v" "\<forall>m \<in> set ms. m_group m = e_group v \<and> m_id m = e_bot v"
      and ts: "\<forall>t \<in> set ts. t_id t = tid"
    using assms(1) by (auto simp: grown_def)
  have "delete_where (\<lambda>r. t_id r = tid) (tasks d') = tasks d"
    using d' ts assms(2) by (simp add: delete_where_none delete_where_all fresh_ids_def)
  moreover have "delete_where (\<lambda>r. c_task r = tid) (claims d') = claims d"
    using d' assms(2) by (simp add: delete_where_none fresh_ids_def)
  ultimately show ?thesis
    unfolding grown_def using d' gs by (intro exI [of _ gs] exI [of _ ms] exI [of _ "[]"]) simp
qed

lemma grown_rolled_back:
  assumes "grown v tid d d' False" "fresh_ids v tid d"
  shows "snd (delete_group_rows (e_group v) (at_rest d')) = at_rest d"
proof -
  obtain gs ms where d': "d' = d\<lparr>groups := groups d @ gs, members := members d @ ms, tasks := tasks d\<rparr>"
      and gs: "\<forall>x \<in> set gs. g_id x = e_group v" "\<forall>m \<in> set ms. m_group m = e_group v \<and> m_id m = e_bot v"
    using assms(1) by (auto simp: grown_def)
  have "t_group t \<noteq> e_group v" if "t \<in> set (tasks d')" for t
    using that d' assms(2) by (simp add: fresh_ids_def)
  moreover have "m_id m \<noteq> t_bot t"
    if "t \<in> set (tasks d')" "m \<in> set (members d')" "m_group m = e_group v" for t m
    using that d' gs assms(2) by (force simp: fresh_ids_def image_iff)
  ultimately have "snd (delete_group_rows (e_group v) (at_rest d')) = at_rest (d'\<lparr>
     groups := delete_where (\<lambda>r. g_id r = e_group v) (groups d'),
     members := delete_where (\<lambda>m. m_group m = e_group v) (members d')\<rparr>)"
    by (rule delete_group_rows_closed)
  moreover have "delete_where (\<lambda>r. g_id r = e_group v) (groups d) = groups d"
    "delete_where (\<lambda>m. m_group m = e_group v) (members d) = members d"
    using assms(2) by (auto simp: fresh_ids_def intro!: delete_where_none)
  then have "delete_where (\<lambda>r. g_id r = e_group v) (groups d') = groups d"
    "delete_where (\<lambda>m. m_group m = e_group v) (members d') = members d"
    using d' gs by (simp_all add: delete_where_all)
  ultimately show ?thesis using d' by simp
qed

text \<open>The compensation removes whatever a failed creation has added.\<close>

lemma compensate_undoes:
  assumes "grown v tid d d' with_task" "fresh_ids v tid d" "db_of w = at_rest d'"
    "fst loc = Some (e_group v)" "with_task \<Longrightarrow> snd loc \<noteq> None"
  shows "db_of (compensate tid '''' e now loc w) = at_rest d \<and>
    sent (compensate tid '''' e now loc w) = sent w \<and>
    dash (compensate tid '''' e now loc w) = map_option (remove_task (e_group v)) (dash w)"
proof -
  let ?w1 = "map_dash (remove_task (e_group v)) w"
  let ?w2 = "if snd loc = None then ?w1 else map_central (\<lambda>c. snd (delete_task tid c)) ?w1"
  have "\<exists>d2. db_of ?w2 = at_rest d2 \<and> grown v tid d d2 False"
  proof (cases "snd loc = None")
    case True
    with assms(1,3,5) show ?thesis by (intro exI [of _ d']) (cases with_task; simp)
  next
    case False
    have "grown v tid d d' True" using assms(1) by (rule grown_True)
    from grown_deleted [OF this assms(2)] False assms(3) show ?thesis
      by (auto simp: delete_task_closed)
  qed
  then obtain d2 where d2: "db_of ?w2 = at_rest d2" "grown v tid d d2 False" by blast
  have c: "compensate tid '''' e now loc w = rollback_group (Some (e_group v)) ?w2"
    using assms(4) by (simp add: compensate_def Let_def)
  have "db_of (rollback_group (Some (e_group v)) ?w2) = snd (delete_group_rows (e_group v) (db_of ?w2))"
    "sent (rollback_group (Some (e_group v)) ?w2) = sent w"
    "dash (rollback_group (Some (e_group v)) ?w2) = map_option (remove_task (e_group v)) (dash w)"
    by (simp_all add: rollback_group_def Let_def db_of_def map_central_def map_dash_def)
  with c d2 grown_rolled_back [OF d2(2) assms(2)] show ?thesis by simp
qed


text \<open>What the steps of a creation leave when one of them, after the group's, raises.\<close>

lemma grown_group: "grown v tid d (d\<lparr>groups := groups d @ [\<lparr>g_id = e_group v, g_worker = x\<rparr>]\<rparr>) False"
  unfolding grown_def
  by (intro exI [of _ "[\<lparr>g_id = e_group v, g_worker = x\<rparr>]"] exI [of _ "[]"]) simp

lemma grown_member:
  "grown v tid d (d\<lparr>groups := groups d @ [\<lparr>g_id = e_group v, g_worker = x\<rparr>],
     members := members d @ [\<lparr>m_id = e_bot v, m_group = e_group v\<rparr>]\<rparr>) False"
  unfolding grown_def
  by (intro exI [of _ "[\<lparr>g_id = e_group v, g_worker = x\<rparr>]"]
      exI [of _ "[\<lparr>m_id = e_bot v, m_group = e_group v\<rparr>]"] exI [of _ "[]"]) simp

lemma grown_task:
  "t_id r = tid \<Longrightarrow> grown v tid d (d\<lparr>groups := groups d @ [\<lparr>g_id = e_group v, g_worker = x\<rparr>],
     members := members d @ [\<lparr>m_id = e_bot v, m_group = e_group v\<rparr>], tasks := tasks d @ [r]\<rparr>) True"
  unfolding grown_def
  by (intro exI [of _ "[\<lparr>g_id = e_group v, g_worker = x\<rparr>]"]
      exI [of _ "[\<lparr>m_id = e_bot v, m_group = e_group v\<rparr>]"] exI [of _ "[r]"]) simp

definition new_row :: "create_env \<Rightarrow> create_args \<Rightarrow> string \<Rightarrow> task_row" where
  "new_row v a tid = \<lparr>t_id = tid, t_group = e_group v, t_bot = e_bot v, t_repo_url = a_repo a,
     t_requirements = a_requirements a, t_base_branch = a_base a, t_test_command = a_test a,
     t_model = a_model a, t_max_iterations = a_iterations a, t_status = Created,
     t_created_at = e_now v, t_updated_at = e_now v, t_pr_url = None, t_error = None\<rparr>"

lemma create_task_closed:
  assumes "tid \<notin> t_id ` set (tasks d)" "e_group v \<in> g_id ` set (groups d)" "e_bot v \<in> m_id ` set (members d)"
  shows "create_task tid (e_group v) (e_bot v) (a_repo a) (a_requirements a) (a_base a) (a_test a) (a_model a)
      (a_iterations a) (e_now v) (at_rest d) =
    (Inr (Some (row_to_task (new_row v a tid))), at_rest (d\<lparr>tasks := tasks d @ [new_row v a tid]\<rparr>))"
proof -
  have none: "row_by t_id tid (tasks d) = None" using assms(1) by (simp add: row_by_None_iff)
  then show ?thesis
    using assms(2,3)
    by (simp add: create_task_def write_connect_def Let_def commit_eq get_task_def task_of_def
        row_by_append new_row_def)
qed

lemma bind_new_group:
  "\<forall>r \<in> set (groups d). g_id r \<noteq> e_group v \<Longrightarrow>
   snd (bind_group_to_worker (e_group v) k (at_rest (d\<lparr>groups := groups d @ [\<lparr>g_id = e_group v, g_worker = None\<rparr>],
      members := ms\<rparr>))) =
   at_rest (d\<lparr>groups := groups d @ [\<lparr>g_id = e_group v, g_worker = Some k\<rparr>], members := ms\<rparr>)"
proof -
  assume "\<forall>r \<in> set (groups d). g_id r \<noteq> e_group v"
  then have "update_where (\<lambda>r. g_id r = e_group v) (\<lambda>r. r\<lparr>g_worker := Some k\<rparr>) (groups d) = groups d"
    by (intro update_where_none) auto
  then show ?thesis by (simp add: bind_closed update_where_def)
qed

text \<open>The database before the task row is inserted, and after.\<close>

definition prepared_db :: "create_env \<Rightarrow> create_args \<Rightarrow> task_db \<Rightarrow> task_db" where
  "prepared_db v a d =
     d\<lparr>groups := groups d @ [\<lparr>g_id = e_group v, g_worker = (if a_worker a = '''' then None else Some (a_worker a))\<rparr>],
       members := members d @ [\<lparr>m_id = e_bot v, m_group = e_group v\<rparr>]\<rparr>"

definition created_db :: "create_env \<Rightarrow> create_args \<Rightarrow> string \<Rightarrow> task_db \<Rightarrow> task_db" where
  "created_db v a tid d = (prepared_db v a d)\<lparr>tasks := tasks d @ [new_row v a tid]\<rparr>"

definition dispatched_db :: "create_env \<Rightarrow> create_args \<Rightarrow> string \<Rightarrow> task_db \<Rightarrow> task_db" where
  "dispatched_db v a tid d = update_tasks (\<lambda>r. t_id r = tid) (set_status_row Dispatched None None (e_now v))
     (created_db v a tid d)"

lemma create_task_prepared:
  assumes "fresh_ids v tid d"
  shows "create_task tid (e_group v) (e_bot v) (a_repo a) (a_requirements a) (a_base a) (a_test a) (a_model a)
      (a_iterations a) (e_now v) (at_rest (prepared_db v a d)) =
    (Inr (Some (row_to_task (new_row v a tid))), at_rest (created_db v a tid d))"
proof -
  have "tid \<notin> t_id ` set (tasks (prepared_db v a d))" "e_group v \<in> g_id ` set (groups (prepared_db v a d))"
    "e_bot v \<in> m_id ` set (members (prepared_db v a d))"
    using assms by (auto simp: prepared_db_def fresh_ids_def)
  from create_task_closed [OF this, of a] show ?thesis by (simp add: created_db_def prepared_db_def)
qed

lemma task_of_created:
  "fresh_ids v tid d \<Longrightarrow> task_of (created_db v a tid d) tid = Some (new_row v a tid)"
proof -
  assume "fresh_ids v tid d"
  then have "row_by t_id tid (tasks d) = None" by (auto simp: row_by_None_iff fresh_ids_def)
  then show ?thesis
    by (simp add: created_db_def task_of_def row_by_append) (simp add: new_row_def)
qed

lemma update_dispatched:
  "fresh_ids v tid d \<Longrightarrow>
   update_status tid Dispatched None None (e_now v) (at_rest (created_db v a tid d)) =
     (Inr True, at_rest (dispatched_db v a tid d))"
  by (simp add: update_status_eq task_of_created dispatched_db_def) (simp add: new_row_def)


text \<open>The steps of a creation on a connection at rest, one case per step that can raise.\<close>

definition with_db :: "task_db \<Rightarrow> orch \<Rightarrow> orch" where
  "with_db d w = map_central (\<lambda>_. at_rest d) w"

lemma with_db_fields [simp]:
  "db_of (with_db d w) = at_rest d" "dash (with_db d w) = dash w" "sent (with_db d w) = sent w"
  "ow (with_db d w) = (ow w)\<lparr>central := at_rest d\<rparr>" "with_db d (with_db d' w) = with_db d w"
  by (simp_all add: with_db_def map_central_def db_of_def)

lemma map_central_to: "db_of w = at_rest d \<Longrightarrow> f (at_rest d) = at_rest d' \<Longrightarrow> map_central f w = with_db d' w"
  by (simp add: with_db_def map_central_def db_of_def)

definition grouped_db :: "create_env \<Rightarrow> task_db \<Rightarrow> task_db" where
  "grouped_db v d = d\<lparr>groups := groups d @ [\<lparr>g_id = e_group v, g_worker = None\<rparr>]\<rparr>"

definition staffed_db :: "create_env \<Rightarrow> task_db \<Rightarrow> task_db" where
  "staffed_db v d = (grouped_db v d)\<lparr>members := members d @ [\<lparr>m_id = e_bot v, m_group = e_group v\<rparr>]\<rparr>"

lemma step_group: "snd (insert_group (e_group v) (at_rest d)) = at_rest (grouped_db v d)"
  by (simp add: insert_group_closed grouped_db_def)

lemma step_member:
  "insert_member (e_bot v) (e_group v) (at_rest (grouped_db v d)) = (Inr (), at_rest (staffed_db v d))"
  by (simp add: insert_member_closed grouped_db_def staffed_db_def)

lemma step_bind:
  "fresh_ids v tid d \<Longrightarrow>
   (if a_worker a \<noteq> '''' then snd (bind_group_to_worker (e_group v) (a_worker a) (at_rest (staffed_db v d)))
    else at_rest (staffed_db v d)) = at_rest (prepared_db v a d)"
  using bind_new_group [of d v "a_worker a" "members d @ [\<lparr>m_id = e_bot v, m_group = e_group v\<rparr>]"]
  by (simp add: fresh_ids_def staffed_db_def grouped_db_def prepared_db_def)

definition registered :: "create_env \<Rightarrow> create_args \<Rightarrow> string \<Rightarrow> task_db \<Rightarrow> orch \<Rightarrow> orch" where
  "registered v a tid d w = map_dash (register_task (e_group v) tid (e_clock v)) (with_db (created_db v a tid d) w)"

lemma create_steps_eq:
  assumes "db_of w = at_rest d" "fresh_ids v tid d"
  shows "create_steps v a tid w =
    (case e_preflight v of Some e \<Rightarrow> (Some e, (None, None), w) | None \<Rightarrow>
     case e_init_group v of Some e \<Rightarrow> (Some e, (None, None), with_db (grouped_db v d) w) | None \<Rightarrow>
     case e_init_bot v of Some e \<Rightarrow> (Some e, (Some (e_group v), None), with_db (staffed_db v d) w) | None \<Rightarrow>
     case e_clone v of Some e \<Rightarrow> (Some e, (Some (e_group v), Some (e_bot v)), with_db (staffed_db v d) w) | None \<Rightarrow>
     case e_dispatch v of
       Some e \<Rightarrow> (Some e, (Some (e_group v), Some (e_bot v)), registered v a tid d w)
     | None \<Rightarrow> (None, (Some (e_group v), Some (e_bot v)),
                with_db (dispatched_db v a tid d) ((registered v a tid d w)\<lparr>sent := sent w @ [tid]\<rparr>)))"
proof -
  have w1: "map_central (\<lambda>c. snd (insert_group (e_group v) c)) w = with_db (grouped_db v d) w"
    by (rule map_central_to [OF assms(1)]) (rule step_group)
  have w3: "bind_if_selected (e_group v) (a_worker a) (with_db (staffed_db v d) w) = with_db (prepared_db v a d) w"
  proof (cases "a_worker a = ''''")
    case True
    then show ?thesis using step_bind [OF assms(2), of a] by (simp add: bind_if_selected_def)
  next
    case False
    then have "map_central (\<lambda>c. snd (bind_group_to_worker (e_group v) (a_worker a) c)) (with_db (staffed_db v d) w)
        = with_db (prepared_db v a d) (with_db (staffed_db v d) w)"
      using step_bind [OF assms(2), of a] by (intro map_central_to) simp_all
    with False show ?thesis by (simp add: bind_if_selected_def)
  qed
  have w5: "db_of ((registered v a tid d w)\<lparr>sent := x\<rparr>) = at_rest (created_db v a tid d)" for x
    by (simp add: registered_def db_of_def map_dash_def)
  show ?thesis
    unfolding create_steps_def Let_def w1
    by (simp add: step_member w3 with_db_def [symmetric] create_task_prepared [OF assms(2)]
        dispatch_agent_def registered_def [symmetric] w5 update_dispatched [OF assms(2)]
        del: with_db_fields(4) split: option.split)
      (simp add: registered_def)
qed


definition outcomes_raise_exceptions :: "create_env \<Rightarrow> bool" where
  "outcomes_raise_exceptions v \<longleftrightarrow>
     (\<forall>x \<in> set [e_preflight v, e_init_bot v, e_clone v, e_dispatch v]. x \<noteq> Some Cancelled)"

lemma task_of_dispatched:
  "fresh_ids v tid d \<Longrightarrow>
   task_of (dispatched_db v a tid d) tid = Some (set_status_row Dispatched None None (e_now v) (new_row v a tid))"
  by (simp add: dispatched_db_def task_of_set_status task_of_created)

lemma grown_stages:
  "grown v tid d (staffed_db v d) False"
  "grown v tid d (created_db v a tid d) True"
proof -
  show "grown v tid d (staffed_db v d) False"
    using grown_member by (simp add: staffed_db_def grouped_db_def)
  have "t_id (new_row v a tid) = tid" by (simp add: new_row_def)
  from grown_task [OF this] show "grown v tid d (created_db v a tid d) True"
    by (simp add: created_db_def prepared_db_def)
qed

lemma remove_task_gone [simp]: "states (remove_task g a) g = None" "g \<notin> set (active_groups (remove_task g a))"
  by (simp_all add: remove_task_def Let_def retire_def)


text \<open>
  The one gap: when initializing the group's workspace raises, the group row already
  committed is not rolled back, because the local variable that would name it is not
  assigned yet; the failed creation leaves an orphaned group behind.
\<close>

theorem workspace_failure_leaks_group:
  assumes "db_of w = at_rest d" "fresh_ids v tid d"
    and "e_preflight v = None" "e_init_group v = Some e" "is_Exception e"
  shows "create_new v a '''' tid w = (Inl (wrap_creation_error e), with_db (grouped_db v d) w) \<and>
    \<lparr>g_id = e_group v, g_worker = None\<rparr> \<in>
      set (groups (committed (db_of (snd (create_new v a '''' tid w)))))"
  using assms by (simp add: create_new_def create_steps_eq compensate_def rollback_group_def grouped_db_def)


section \<open>Idempotent creation\<close>

definition reserved_db :: "string \<Rightarrow> string \<Rightarrow> string \<Rightarrow> int \<Rightarrow> task_db \<Rightarrow> task_db" where
  "reserved_db key h tid now d = d\<lparr>requests := requests d @
     [\<lparr>q_key = key, q_hash = h, q_task = tid, q_state = ReqPending, q_error = None, q_updated_at = now\<rparr>]\<rparr>"

lemma complete_request_closed:
  assumes "row_by q_key key (requests d) = None"
  shows "complete_request key now (at_rest (d'\<lparr>requests := requests d @
      [\<lparr>q_key = key, q_hash = h, q_task = tid, q_state = ReqPending, q_error = None, q_updated_at = now'\<rparr>]\<rparr>)) =
    (Inr (), at_rest (d'\<lparr>requests := requests d @
      [\<lparr>q_key = key, q_hash = h, q_task = tid, q_state = ReqCompleted, q_error = None, q_updated_at = now\<rparr>]\<rparr>))"
proof -
  have no: "\<not> (q_key r = key \<and> q_state r = ReqPending)" if "r \<in> set (requests d)" for r
    using that assms by (auto simp: row_by_None_iff)
  then have "filter (\<lambda>r. q_key r = key \<and> q_state r = ReqPending) (requests d) = []"
    by (simp add: filter_empty_conv)
  moreover have "update_where (\<lambda>r. q_key r = key \<and> q_state r = ReqPending) f (requests d) = requests d" for f
    by (rule update_where_none) (rule no)
  then have "update_where (\<lambda>r. q_key r = key \<and> q_state r = ReqPending) f (requests d @ xs) =
      requests d @ update_where (\<lambda>r. q_key r = key \<and> q_state r = ReqPending) f xs" for f xs
    by (simp add: update_where_def)
  ultimately show ?thesis
    by (simp add: complete_request_def finish_request_def write_connect_def Let_def commit_eq
        count_where_def update_requests_def) (simp add: update_where_def)
qed

lemma requests_dispatched [simp]:
  "requests (dispatched_db v a tid d) = requests d"
  by (simp add: dispatched_db_def created_db_def prepared_db_def)

text \<open>
  Creation is idempotent per key: after a first request with a new key succeeded, a
  repetition of the same request, with whatever id and outcomes its own attempt would have
  had, returns the same task and dispatches nothing.
\<close>

theorem creation_is_idempotent:
  assumes "db_of w = at_rest d" "fresh_ids v tid d" "key \<noteq> ''''"
    and "row_by q_key key (requests d) = None" "tid \<notin> q_task ` set (requests d)"
    and "create_task_request digest v a key tid w = (Inr r, w1)"
    and "create_task_request digest v' a key tid' w1 = (res, w2)"
  shows "t_id r = tid \<and> res = Inr r \<and> sent w1 = sent w @ [tid] \<and> sent w2 = sent w1"
proof -
  let ?d1 = "reserved_db key (digest a) tid (e_now v) d"
  have fr: "fresh_ids v tid ?d1" using assms(2) by (simp add: fresh_ids_def reserved_db_def)
  have res1: "reserve_request key (digest a) tid (e_now v) (at_rest d) =
      (Inr \<lparr>v_owner = True, v_task = tid, v_state = ReqPending, v_error = None\<rparr>, at_rest ?d1)"
    using assms(4,5) reserve_first [of "at_rest d" key tid "digest a" "e_now v"] by (simp add: reserved_db_def)
  have new: "create_new v a key tid (with_db ?d1 w) = (Inr r, w1)"
    using assms(1,3,6) res1 by (simp add: create_task_request_def with_db_def [symmetric])
  have "db_of (with_db ?d1 w) = at_rest ?d1" by simp
  note steps = create_steps_eq [OF this fr, of a]
  let ?d2 = "dispatched_db v a tid ?d1"
  let ?q = "\<lambda>st. \<lparr>q_key = key, q_hash = digest a, q_task = tid, q_state = st, q_error = None,
                 q_updated_at = e_now v\<rparr>"
  have get: "get_task tid (at_rest ?d2) = Some (row_to_task (set_status_row Dispatched None None (e_now v) (new_row v a tid)))"
    by (simp add: get_task_def task_of_dispatched [OF fr])
  have d2: "?d2 = ?d2\<lparr>requests := requests d @ [?q ReqPending]\<rparr>"
    by (simp add: dispatched_db_def created_db_def prepared_db_def update_tasks_def reserved_db_def)
  have fin: "complete_request key (e_now v) (at_rest ?d2) =
      (Inr (), at_rest (?d2\<lparr>requests := requests d @ [?q ReqCompleted]\<rparr>))"
    by (subst d2) (rule complete_request_closed [OF assms(4)])
  have r: "r = row_to_task (set_status_row Dispatched None None (e_now v) (new_row v a tid))"
    and w1: "db_of w1 = at_rest (?d2\<lparr>requests := requests d @ [?q ReqCompleted]\<rparr>)" "sent w1 = sent w @ [tid]"
    using new assms(3) get fin
    by (auto simp: create_new_def steps split: option.splits if_splits)
  let ?d3 = "?d2\<lparr>requests := requests d @ [?q ReqCompleted]\<rparr>"
  have q: "row_by q_key key (requests ?d3) = Some (?q ReqCompleted)"
    using assms(4) by (simp add: row_by_append)
  have get3: "task_of ?d3 tid = Some (set_status_row Dispatched None None (e_now v) (new_row v a tid))"
    using task_of_dispatched [OF fr, of a] by (simp add: task_of_def)
  have rep: "reserve_request key (digest a) tid' (e_now v') (at_rest ?d3) =
      (Inr \<lparr>v_owner = False, v_task = tid, v_state = ReqCompleted, v_error = None\<rparr>, dml id (at_rest ?d3))"
    using q by (simp add: reserve_request_def write_connect_def Let_def)
  have "get_task tid (dml id (at_rest ?d3)) = Some r"
    using get3 r by (simp add: get_task_def)
  then have "res = Inr r \<and> sent w2 = sent w1"
    using assms(3,7) w1(1) rep by (auto simp: create_task_request_def)
  moreover have "t_id r = tid" using r by (simp add: row_to_task_def task_row.defs new_row_def set_status_row_def)
  ultimately show ?thesis using w1(2) by simp
qed


section \<open>Retries settle their claim\<close>

lemma restore_any:
  assumes "registry_ready c" "claim_holder c tid = Some tok" "status_of (committed c) tid = Some Retrying"
    "valid_fallback st"
  shows "\<exists>c2. restore_retry_claim tid tok st err now c = (Inr True, c2) \<and> claim_holder c2 tid = None \<and>
    status_of (committed c2) = (status_of (committed c))(tid \<mapsto> st)"
proof -
  let ?f = "error_row st (persisted_error st err) now"
  obtain res c2 where e: "end_claim tid tok ?f c = (res, c2)" by (metis surj_pair)
  have "res = Inr True \<and> status_of (committed c2) = (status_of (committed c))(tid \<mapsto> st)"
    using e end_claim_own [OF assms(1-3), of ?f] by (auto simp: status_after_end [OF assms(3)])
  moreover have "claim_holder c2 tid = None" if "res = Inr True"
    using end_claim_holder [OF assms(1), of ?f tid tok] e that by simp
  ultimately show ?thesis using e assms(4) by (simp add: restore_retry_claim_def)
qed

text \<open>After a successful claim the steps either complete it or leave the registry as claimed.\<close>

lemma retry_steps_cases:
  assumes "registry_ready c" "claim_retry tid allowed auto ttl now tok c = (Inr (Some k), c1)"
    and "db_of w = c1" "retry_steps v tid g k w = (x, w2)"
  shows "(x = None \<and> claim_holder (db_of w2) tid = None \<and>
            status_of (committed (db_of w2)) = (status_of (committed c))(tid \<mapsto> Running) \<and>
            sent w2 = sent w @ [tid] \<and> (\<exists>q. send_abort (r_abort v) tid ''retry'' = Inr q)) \<or>
         (x \<noteq> None \<and> db_of w2 = c1 \<and> sent w2 = sent w)"
proof -
  obtain res c2 where fin: "complete_retry_claim tid tok (r_now v) c1 = (res, c2)" by (metis surj_pair)
  have tok: "rc_token k = tok" by (rule claim_retry_Some(4) [OF assms(1,2)])
  note cc = claim_complete [OF assms(1,2) fin]
  let ?w1 = "map_dash (mark_retrying g StoppingForRetry) w"
  show ?thesis
  proof (cases "send_abort (r_abort v) tid ''retry''")
    case (Inl e)
    with assms(3,4) show ?thesis by (auto simp: retry_steps_def)
  next
    case (Inr q)
    show ?thesis
    proof (cases "r_dispatch v")
      case (Some e)
      with Inr assms(3,4) show ?thesis by (auto simp: retry_steps_def dispatch_agent_def)
    next
      case None
      have "db_of (?w1\<lparr>sent := sent w @ [tid]\<rparr>) = c1" using assms(3) by (simp add: db_of_def)
      with None Inr assms(4) cc fin tok show ?thesis
        by (auto simp: retry_steps_def dispatch_agent_def)
    qed
  qed
qed

lemma fallback_cases:
  assumes "prev \<in> set ((if automatic then automatic_retry_statuses else manual_retry_statuses) @
      (if override then active_persisted_statuses else []))"
  shows "(fallback_status automatic override prev = prev \<or>
          fallback_status automatic override prev = Stuck \<and> prev \<in> set active_persisted_statuses) \<and>
    (prev \<noteq> Incomplete \<longrightarrow> valid_fallback (fallback_status automatic override prev))"
  using assms
  by (auto simp: fallback_status_def automatic_retry_statuses_def manual_retry_statuses_def
      active_persisted_statuses_def valid_fallback_def split: if_splits)

lemma retry_failed_db:
  "db_of (retry_failed v tid g k fb e w) = snd (restore_retry_claim tid (rc_token k) fb (exc_str e) (r_now v) (db_of w))"
  "sent (retry_failed v tid g k fb e w) = sent w"
  by (auto simp: retry_failed_def Let_def split: prod.splits)

lemma unclaimed_previous:
  assumes "registry_ready c" "claim_of (committed c) tid = None"
    "claim_retry tid allowed auto ttl now tok c = (Inr (Some k), c1)"
  shows "status_of (committed c) tid = Some (rc_previous k)" "rc_previous k \<in> set allowed"
  using claim_retry_Some(2,3) [OF assms(1,3)] assms(2) by (simp_all add: swept_db_def)

lemma claim_refused_same:
  assumes "registry_ready c" "claim_of (committed c) tid = None" "allowed \<noteq> []" "0 \<le> ttl"
    "claim_retry tid allowed auto ttl now tok c = (r, c1)" "r = Inr None \<or> (\<exists>e. r = Inl e)"
  shows "c1 = c"
proof -
  have "idle c" "wf_db (committed c)" using assms(1) by (simp_all add: registry_ready_def)
  moreover have "swept_db tid now (committed c) = committed c" using assms(2) by (simp add: swept_db_def)
  ultimately show ?thesis
    using assms(2-6) idle_eq [of c] claim_retry_eq [of c allowed ttl tid auto now tok]
    by (auto split: if_splits option.splits)
qed

lemma retry_statuses_nonempty:
  "(if automatic then automatic_retry_statuses else manual_retry_statuses) @ xs \<noteq> []"
  by (simp add: automatic_retry_statuses_def manual_retry_statuses_def)

text \<open>
  A retry never strands its task: whatever the abort, the dispatch and the claim come to,
  afterwards no claim is held, and the task runs when the retry succeeded, and otherwise has
  its previous status or, for one that was active, is stuck. (Tasks that were incomplete are
  the exception of the next property.)
\<close>

theorem retry_settles_claim:
  assumes "registry_ready (db_of w)" "claim_of (committed (db_of w)) tid = None"
    and "status_of (committed (db_of w)) tid = Some prev" "prev \<noteq> Incomplete"
    and "retry_task v tid automatic w = (res, w')"
  shows "claim_holder (db_of w') tid = None \<and>
    (if isl res
     then status_of (committed (db_of w')) tid = Some prev \<or>
          status_of (committed (db_of w')) tid = Some Stuck \<and> prev \<in> set active_persisted_statuses
     else status_of (committed (db_of w')) tid = Some Running)"
proof -
  let ?c = "db_of w"
  obtain r where r: "get_task tid ?c = Some r"
    using assms(3) by (auto simp: get_task_def status_of_def)
  let ?g = "t_group r" and ?o = "\<not> automatic \<and> local_stuck tid (t_group r) w"
  let ?al = "(if automatic then automatic_retry_statuses else manual_retry_statuses) @
             (if ?o then active_persisted_statuses else [])"
  obtain y c1 where y: "claim_retry tid ?al automatic RETRY_CLAIM_TTL_SECONDS (r_now v) (r_token v) ?c = (y, c1)"
    by (metis surj_pair)
  have ttl: "0 \<le> RETRY_CLAIM_TTL_SECONDS" by (simp add: RETRY_CLAIM_TTL_SECONDS_def)
  have no: "claim_holder ?c tid = None" using assms(2) by (simp add: claim_holder_def)
  show ?thesis
  proof (cases "\<exists>k. y = Inr (Some k)")
    case False
    then have "y = Inr None \<or> (\<exists>e. y = Inl e)" by (cases y) (auto intro: option.exhaust)
    moreover from this have "c1 = ?c"
      by (rule claim_refused_same [OF assms(1,2) retry_statuses_nonempty ttl y])
    ultimately show ?thesis
      using assms(3,5) no by (auto simp: retry_task_def Let_def r y)
  next
    case True
    then obtain k where k: "y = Inr (Some k)" by blast
    note claimed = y [unfolded k]
    have prev: "rc_previous k = prev" "prev \<in> set ?al"
      using unclaimed_previous [OF assms(1,2) claimed] assms(3) by auto
    note fb = fallback_cases [OF prev(2)]
    note c1 = claimed_state [OF assms(1) claimed]
    have tok: "rc_token k = r_token v" by (rule claim_retry_Some(4) [OF assms(1) claimed])
    obtain x w2 where s: "retry_steps v tid ?g k (map_central (\<lambda>_. c1) w) = (x, w2)" by (metis surj_pair)
    have db: "db_of (map_central (\<lambda>_. c1) w) = c1" by simp
    from retry_steps_cases [OF assms(1) claimed db s] show ?thesis
    proof (elim disjE conjE)
      assume "x = None" "claim_holder (db_of w2) tid = None"
        "status_of (committed (db_of w2)) = (status_of (committed ?c))(tid \<mapsto> Running)"
      then show ?thesis using assms(5) by (auto simp: retry_task_def Let_def r claimed s)
    next
      assume "x \<noteq> None" and w2: "db_of w2 = c1"
      then obtain e where x: "x = Some e" by blast
      let ?fb = "fallback_status automatic ?o prev"
      have rt: "status_of (committed c1) tid = Some Retrying" using c1(3) by simp
      have valid: "valid_fallback ?fb" using fb assms(4) by blast
      obtain c2 where c2: "restore_retry_claim tid (r_token v) ?fb (exc_str e) (r_now v) c1 = (Inr True, c2)"
          "claim_holder c2 tid = None" "status_of (committed c2) tid = Some ?fb"
        using restore_any [OF c1(1,2) rt valid, of "exc_str e" "r_now v"] by auto
      have "res = Inl e \<and> w' = retry_failed v tid ?g k ?fb e w2"
        using assms(5) by (auto simp: retry_task_def Let_def r claimed s x prev(1))
      then have "isl res \<and> db_of w' = c2"
        using c2(1) w2 tok by (simp add: retry_failed_db)
      with c2 fb show ?thesis by auto
    qed
  qed
qed

text \<open>
  The manual retry of an incomplete task can strand it: the orchestrator accepts
  incomplete tasks, but the registry refuses incomplete as a fallback, so when the worker
  does not acknowledge the abort the task stays retrying and its claim stays held.
\<close>

theorem incomplete_retry_is_stranded:
  assumes "registry_ready (db_of w)" "claim_of (committed (db_of w)) tid = None"
    and "status_of (committed (db_of w)) tid = Some Incomplete"
    and "r_token v \<notin> c_token ` set (claims (committed (db_of w)))"
    and "send_abort (r_abort v) tid ''retry'' = Inl e"
  shows "fst (retry_task v tid False w) = Inl e \<and>
    status_of (committed (db_of (snd (retry_task v tid False w)))) tid = Some Retrying \<and>
    claim_holder (db_of (snd (retry_task v tid False w))) tid = Some (r_token v)"
proof -
  let ?c = "db_of w"
  obtain r where r: "get_task tid ?c = Some r"
    using assms(3) by (auto simp: get_task_def status_of_def)
  let ?o = "local_stuck tid (t_group r) w"
  let ?al = "manual_retry_statuses @ (if ?o then active_persisted_statuses else [])"
  have ok: "idle ?c" "wf_db (committed ?c)" using assms(1) by (simp_all add: registry_ready_def)
  have al: "?al \<noteq> []" "Incomplete \<in> set ?al" by (simp_all add: manual_retry_statuses_def)
  have ttl: "0 \<le> RETRY_CLAIM_TTL_SECONDS" by (simp add: RETRY_CLAIM_TTL_SECONDS_def)
  obtain c1 where claimed: "claim_retry tid ?al False RETRY_CLAIM_TTL_SECONDS (r_now v) (r_token v) ?c =
      (Inr (Some \<lparr>rc_token = r_token v, rc_previous = Incomplete\<rparr>), c1)"
    using claim_retry_eq [OF ok al(1) ttl, of tid False "r_now v" "r_token v"] assms(2-4) al(2)
    by (auto simp: swept_db_def claim_fresh_def)
  note c1 = claimed_state [OF assms(1) claimed]
  have fb: "fallback_status False ?o Incomplete = Incomplete"
    by (simp add: fallback_status_def active_persisted_statuses_def)
  have "restore_retry_claim tid t Incomplete m n c1 = (Inl (ValueError (''Invalid retry fallback status: '' @ status_str Incomplete)), c1)" for t m n
    by (simp add: restore_retry_claim_def valid_fallback_def)
  then show ?thesis
    using c1 claimed assms(5) fb
    by (simp add: retry_task_def Let_def r retry_steps_def retry_failed_def)
qed

section \<open>Nothing is dispatched or ended without proof\<close>

text \<open>
  The orchestrator fails closed: a retry sends a START_WORKFLOW frame, at most one and
  for its own task, only after the worker acknowledged for this very task that the old run
  was cancelled and its workspace discarded; and without such an acknowledgement an abort
  and a permanent termination change nothing at all.
\<close>

theorem abort_fails_closed:
  assumes "registry_ready (db_of w)"
  shows "(sent (snd (retry_task v tid automatic w)) = sent w \<or>
           sent (snd (retry_task v tid automatic w)) = sent w @ [tid] \<and>
           (\<exists>k. r_abort v = Some (Inr k) \<and> ack_cleanup k = Some ''success'' \<and> ack_task k = Some tid \<and>
                ack_mode k = Some ''retry'' \<and> ack_action k = Some ''discard'' \<and> ack_cleaned k)) \<and>
         ((\<nexists>k. sv = Some (Inr k) \<and> ack_cleanup k = Some ''success'' \<and> ack_task k = Some tid \<and>
              ack_mode k = Some ''abort'' \<and> ack_action k = Some ''discard'' \<and> ack_cleaned k) \<longrightarrow>
           snd (abort_task sv tid now w) = w \<and> snd (terminate_permanently_stuck sv tid reason now w) = w)"
proof -
  have proof_is: "ack_proves tid m k \<longleftrightarrow> ack_cleanup k = Some ''success'' \<and> ack_task k = Some tid \<and>
      ack_mode k = Some m \<and> ack_action k = Some ''discard'' \<and> ack_cleaned k" for m k
    by (auto simp: ack_proves_def)
  have proven: "\<exists>k. a = Some (Inr k) \<and> ack_proves tid m k" if "send_abort a tid m = Inr q" for a m q
    using that by (auto simp: send_abort_def split: option.splits sum.splits if_splits)
  have "sent (snd (retry_task v tid automatic w)) = sent w \<or>
           sent (snd (retry_task v tid automatic w)) = sent w @ [tid] \<and>
           (\<exists>k. r_abort v = Some (Inr k) \<and> ack_proves tid ''retry'' k)"
  proof (cases "get_task tid (db_of w)")
    case (Some r)
    let ?o = "\<not> automatic \<and> local_stuck tid (t_group r) w"
    let ?al = "(if automatic then automatic_retry_statuses else manual_retry_statuses) @
             (if ?o then active_persisted_statuses else [])"
    obtain y c1 where y: "claim_retry tid ?al automatic RETRY_CLAIM_TTL_SECONDS (r_now v) (r_token v) (db_of w) = (y, c1)"
      by (metis surj_pair)
    show ?thesis
    proof (cases "\<exists>k. y = Inr (Some k)")
      case False
      then show ?thesis by (cases y) (auto simp: retry_task_def Let_def Some y split: option.split)
    next
      case True
      then obtain k where k: "y = Inr (Some k)" by blast
      obtain x w2 where s: "retry_steps v tid (t_group r) k (map_central (\<lambda>_. c1) w) = (x, w2)" by (metis surj_pair)
      have "db_of (map_central (\<lambda>_. c1) w) = c1" by simp
      from retry_steps_cases [OF assms y [unfolded k] this s] proven
      show ?thesis
        by (cases x) (auto simp: retry_task_def Let_def Some y k s retry_failed_db)
    qed
  qed (simp add: retry_task_def)
  moreover have "snd (abort_task sv tid now w) = w \<and> snd (terminate_permanently_stuck sv tid reason now w) = w"
    if "\<nexists>k. sv = Some (Inr k) \<and> ack_proves tid ''abort'' k"
  proof -
    have "\<nexists>q. send_abort sv tid ''abort'' = Inr q" using proven that by blast
    then obtain e where "send_abort sv tid ''abort'' = Inl e" by (cases "send_abort sv tid ''abort''") auto
    then show ?thesis
      by (simp add: abort_task_def terminate_permanently_stuck_def split: option.split)
  qed
  ultimately show ?thesis unfolding proof_is by blast
qed


section \<open>Worked instances\<close>

definition demo_orch :: orch where
  "demo_orch = \<lparr>ow = \<lparr>central = demo_conn, group_dbs = Map.empty\<rparr>, dash = None, sent = []\<rparr>"

definition demo_env :: create_env where
  "demo_env = \<lparr>e_preflight = None, e_init_group = None, e_init_bot = None, e_clone = None,
     e_dispatch = None, e_group = 7, e_bot = 8, e_now = 5, e_clock = 5\<rparr>"

definition demo_args :: create_args where
  "demo_args = \<lparr>a_repo = ''r'', a_requirements = ''q'', a_base = ''main'', a_test = '''', a_model = ''m'',
     a_iterations = 100, a_worker = ''w1''\<rparr>"

lemma demo_orch_db: "db_of demo_orch = at_rest (committed demo_conn)" "db_of demo_orch = demo_conn"
  by (simp_all add: demo_orch_def db_of_def demo_conn_def)

lemma demo_fresh: "fresh_ids (demo_env\<lparr>e_clone := x, e_init_group := y, e_dispatch := z\<rparr>) ''n'' (committed demo_conn)"
  by (simp add: fresh_ids_def demo_env_def demo_conn_def demo_row_def)

lemma demo_fresh_plain: "fresh_ids demo_env ''n'' (committed demo_conn)"
  by (simp add: fresh_ids_def demo_env_def demo_conn_def demo_row_def)


theorem workspace_failure_leaks_group_witness:
  "\<lparr>g_id = 7, g_worker = None\<rparr> \<in> set (groups (committed (db_of (snd (create_new
     (demo_env\<lparr>e_clone := None, e_init_group := Some (RuntimeError ''mkdir''), e_dispatch := None\<rparr>)
     demo_args '''' ''n'' demo_orch)))))"
proof -
  let ?v = "demo_env\<lparr>e_clone := None, e_init_group := Some (RuntimeError ''mkdir''), e_dispatch := None\<rparr>"
  have v: "e_preflight ?v = None" "e_init_group ?v = Some (RuntimeError ''mkdir'')"
    "is_Exception (RuntimeError ''mkdir'')" "e_group ?v = 7"
    by (simp_all add: demo_env_def is_Exception_def)
  from workspace_failure_leaks_group [OF demo_orch_db(1) demo_fresh v(1-3), of demo_args]
  show ?thesis unfolding v(4) by (rule conjunct2)
qed

theorem creation_is_idempotent_witness:
  "sent (snd (create_task_request (\<lambda>_. ''h'') demo_env demo_args ''key'' ''m''
     (snd (create_task_request (\<lambda>_. ''h'') demo_env demo_args ''key'' ''n'' demo_orch)))) = [''n'']"
proof -
  obtain x w1 where c: "create_task_request (\<lambda>_. ''h'') demo_env demo_args ''key'' ''n'' demo_orch = (x, w1)"
    by (metis surj_pair)
  obtain y w2 where c2: "create_task_request (\<lambda>_. ''h'') demo_env demo_args ''key'' ''m'' w1 = (y, w2)"
    by (metis surj_pair)
  have "\<not> isl (fst (create_task_request (\<lambda>_. ''h'') demo_env demo_args ''key'' ''n'' demo_orch))"
    by code_simp
  then obtain r where r: "create_task_request (\<lambda>_. ''h'') demo_env demo_args ''key'' ''n'' demo_orch = (Inr r, w1)"
    using c by (cases x) auto
  have "row_by q_key ''key'' (requests (committed demo_conn)) = None"
    "''n'' \<notin> q_task ` set (requests (committed demo_conn))"
    by (simp_all add: demo_conn_def)
  from creation_is_idempotent [OF demo_orch_db(1) demo_fresh_plain _ this r c2] r c2
  show ?thesis by (simp add: demo_orch_def)
qed

definition demo_retry :: retry_env where
  "demo_retry = \<lparr>r_abort = None, r_dispatch = None, r_token = ''x'', r_now = 10, r_clock = 10\<rparr>"

theorem retry_settles_claim_witness:
  "claim_holder (db_of (snd (retry_task demo_retry ''a'' False demo_orch))) ''a'' = None"
proof -
  obtain res w' where r: "retry_task demo_retry ''a'' False demo_orch = (res, w')" by (metis surj_pair)
  have "claim_of (committed (db_of demo_orch)) ''a'' = None" "status_of (committed (db_of demo_orch)) ''a'' = Some Stuck"
    by code_simp+
  moreover have "registry_ready (db_of demo_orch)" using demo_ready(1) by (simp only: demo_orch_db(2))
  ultimately have "claim_holder (db_of w') ''a'' = None"
    using retry_settles_claim [of demo_orch "''a''" Stuck demo_retry False res w'] r by simp
  then show ?thesis by (simp only: r snd_conv)
qed

definition demo_incomplete :: orch where
  "demo_incomplete = with_db ((committed demo_conn)\<lparr>tasks := [demo_row ''i'' Incomplete]\<rparr>) demo_orch"

theorem incomplete_retry_is_stranded_witness:
  "status_of (committed (db_of (snd (retry_task demo_retry ''i'' False demo_incomplete)))) ''i'' = Some Retrying"
proof -
  have "registry_ready (db_of demo_incomplete)"
    by (simp add: demo_incomplete_def registry_ready_def wf_db_def keyed_def demo_conn_def)
  moreover have "claim_of (committed (db_of demo_incomplete)) ''i'' = None"
    "status_of (committed (db_of demo_incomplete)) ''i'' = Some Incomplete"
    "r_token demo_retry \<notin> c_token ` set (claims (committed (db_of demo_incomplete)))"
    by (simp_all add: demo_incomplete_def claim_of_def status_of_def task_of_def demo_conn_def demo_row_def demo_retry_def)
  moreover have "send_abort (r_abort demo_retry) ''i'' ''retry'' = Inl (RuntimeError ''Supervisor not available'')"
    by (simp add: send_abort_def demo_retry_def)
  ultimately show ?thesis using incomplete_retry_is_stranded by blast
qed

theorem abort_fails_closed_witness:
  "snd (abort_task None ''a'' 9 demo_orch) = demo_orch"
proof -
  have "registry_ready (db_of demo_orch)" using demo_ready(1) by (simp only: demo_orch_db(2))
  from abort_fails_closed [OF this, where sv = None and now = 9 and tid = "''a''"] show ?thesis by simp
qed

end
