(* ===== verification/StuckDet.thy ===== *)
theory StuckDet
  imports TaskOrch
begin

text \<open>
  Stuck detection with bounded automatic retries:
  \<^verbatim>\<open>plugins/agent_dashboard/stuck_detector.py\<close>. A background coroutine the detector starts is
  a job in \<open>jobs\<close>; it is removed when its done-callback runs, and cancelled when the group is
  forgotten. \<open>retry_log\<close> and \<open>forget_log\<close> record, per group, the automatic retries started
  (which the code logs) and the cleanups.
\<close>

datatype job = AutoRetry string | Terminate string nat

record detector =
  max_auto_retries :: nat
  has_orchestrator :: bool
  retry_counts :: "int \<rightharpoonup> nat"
  jobs :: "int \<rightharpoonup> job"
  retry_log :: "int list"
  forget_log :: "int list"

definition STUCK_TIMEOUT_SEC :: rat where "STUCK_TIMEOUT_SEC = 180"
definition DEFAULT_MAX_AUTO_RETRIES :: nat where "DEFAULT_MAX_AUTO_RETRIES = 3"

definition new_detector :: "nat \<Rightarrow> bool \<Rightarrow> detector" where
  "new_detector n orch = \<lparr>max_auto_retries = n, has_orchestrator = orch, retry_counts = Map.empty,
     jobs = Map.empty, retry_log = [], forget_log = []\<rparr>"

definition forget_group :: "int \<Rightarrow> detector \<Rightarrow> detector" where
  "forget_group g d = d\<lparr>retry_counts := (retry_counts d)(g := None), jobs := (jobs d)(g := None),
                      forget_log := forget_log d @ [g]\<rparr>"

definition count_of :: "detector \<Rightarrow> int \<Rightarrow> nat" where
  "count_of d g = get_default (retry_counts d g) 0"

definition waiting_status :: "lstatus \<Rightarrow> bool" where
  "waiting_status st \<longleftrightarrow> st = LPaused \<or> st = LStuck \<or> st = LRetrying"

text \<open>The body of the loop of \<open>_check_all\<close> for one tracked group.\<close>

definition check_group :: "rat \<Rightarrow> int \<Rightarrow> detector \<times> adapter \<Rightarrow> detector \<times> adapter" where
  "check_group now g x =
     (case x of (d, a) \<Rightarrow>
        (case states a g of
           None \<Rightarrow> (d, a)
         | Some s \<Rightarrow>
             if jobs d g \<noteq> None then (d, a)
             else if terminal_status (status s) then (forget_group g d, retire_if_terminal g a)
             else if waiting_status (status s) then (d, a)
             else if now - last_event_at s > STUCK_TIMEOUT_SEC then
               (let n = count_of d g in
                if has_orchestrator d \<and> n < max_auto_retries d
                then (d\<lparr>retry_counts := (retry_counts d)(g \<mapsto> n + 1),
                        jobs := (jobs d)(g \<mapsto> AutoRetry (task_id s)),
                        retry_log := retry_log d @ [g]\<rparr>, a)
                else if n \<ge> max_auto_retries d \<and> max_auto_retries d > 0
                then (d\<lparr>jobs := (jobs d)(g \<mapsto> Terminate (task_id s) n)\<rparr>, a)
                else (d, set_status g LStuck
                           (Some (NoEventsFor (now - last_event_at s) (phase_of s))) None True True a))
             else (d, a)))"

text \<open>\<open>_check_all\<close>: \<open>counted\<close> are the groups with a retry count, in the order the set yields them.\<close>

definition check_all :: "int list \<Rightarrow> rat \<Rightarrow> detector \<times> adapter \<Rightarrow> detector \<times> adapter" where
  "check_all counted now x =
     (case x of (d, a) \<Rightarrow>
        (let d1 = fold forget_group
               (filter (\<lambda>g. retry_counts d g \<noteq> None \<and> g \<notin> set (active_groups a)) counted) d
         in fold (check_group now) (active_groups a) (d1, a)))"

fun conflict_status :: "exc \<Rightarrow> lstatus" where
  "conflict_status (TaskRetryConflict tid st) =
     (if st = ''completed'' then LDone
      else if st = ''failed'' then LError
      else if st = ''aborted'' then LAborted
      else if st = ''stuck_permanently'' then LStuckPermanently
      else if st = ''retrying'' then LRetrying
      else if st = ''restarted'' then LRunning
      else if st = ''incomplete'' then LIncomplete
      else LStuck)"
| "conflict_status _ = LStuck"

text \<open>
  A job ends: on success nothing is left to do; an exception touches the task's clock and
  sets a local status, whose retirement (if terminal) runs \<open>forget\<close>; the done-callback
  removes the job either way.
\<close>

definition local_failure ::
  "int \<Rightarrow> lstatus \<Rightarrow> detail \<Rightarrow> string \<Rightarrow> rat \<Rightarrow> detector \<times> adapter \<Rightarrow> detector \<times> adapter" where
  "local_failure g st det msg now x =
     (case x of (d, a) \<Rightarrow>
        (case states a g of
           None \<Rightarrow> (d, a)
         | Some s \<Rightarrow>
             (let a1 = put_state g (s\<lparr>last_event_at := now\<rparr>) a;
                  a2 = set_status g st (Some det) (Some msg) True False a1
              in (if length (cleanup_calls a2) > length (cleanup_calls a) then forget_group g d else d, a2))))"

definition job_finished :: "int \<Rightarrow> detector \<Rightarrow> detector" where
  "job_finished g d = d\<lparr>jobs := (jobs d)(g := None)\<rparr>"

definition auto_retry_ended :: "int \<Rightarrow> exc option \<Rightarrow> rat \<Rightarrow> detector \<times> adapter \<Rightarrow> detector \<times> adapter" where
  "auto_retry_ended g outcome now x =
     (case outcome of
        None \<Rightarrow> (job_finished g (fst x), snd x)
      | Some e \<Rightarrow>
          if \<not> is_Exception e then (job_finished g (fst x), snd x)
          else
            (case local_failure g (conflict_status e) (AutoRetryFailed (take 80 (exc_str e))) (exc_str e) now x of
               (d, a) \<Rightarrow> (job_finished g d, a)))"

definition termination_ended :: "int \<Rightarrow> exc option \<Rightarrow> rat \<Rightarrow> detector \<times> adapter \<Rightarrow> detector \<times> adapter" where
  "termination_ended g outcome now x =
     (case outcome of
        None \<Rightarrow> (job_finished g (fst x), snd x)
      | Some e \<Rightarrow>
          if \<not> is_Exception e then (job_finished g (fst x), snd x)
          else
            (case local_failure g LStuck (TerminationFailed (take 80 (exc_str e))) (exc_str e) now x of
               (d, a) \<Rightarrow> (job_finished g d, a)))"

definition force_check :: "int \<Rightarrow> rat \<Rightarrow> adapter \<Rightarrow> bool \<times> adapter" where
  "force_check g now a =
     (case states a g of
        None \<Rightarrow> (False, a)
      | Some s \<Rightarrow>
          if status s = LPaused \<or> terminal_status (status s) then (False, a)
          else if now - last_event_at s > STUCK_TIMEOUT_SEC
          then (True, set_status g LStuck (Some (NoEvents (now - last_event_at s))) None True True a)
          else (False, a))"

section \<open>The system\<close>

text \<open>
  The detector and the adapter together: its own checks, ended jobs, and any call others
  make on the adapter, whose retirements run the detector's cleanup callback.
\<close>

datatype det_event =
    Check "int list" rat
  | RetryEnded int "exc option" rat
  | TerminationEnded int "exc option" rat
  | AdapterCall adapter_op

fun det_step :: "det_event \<Rightarrow> detector \<times> adapter \<Rightarrow> detector \<times> adapter" where
  "det_step (Check counted now) x = check_all counted now x"
| "det_step (RetryEnded g outcome now) x = auto_retry_ended g outcome now x"
| "det_step (TerminationEnded g outcome now) x = termination_ended g outcome now x"
| "det_step (AdapterCall op) x =
     (case x of (d, a) \<Rightarrow>
        (let a' = adapter_step op a
         in (fold forget_group (drop (length (cleanup_calls a)) (cleanup_calls a')) d, a')))"

definition retries_of :: "detector \<Rightarrow> int \<Rightarrow> nat" where
  "retries_of d g = count_list (retry_log d) g"

definition forgets_of :: "detector \<Rightarrow> int \<Rightarrow> nat" where
  "forgets_of d g = count_list (forget_log d) g"

definition detector_ok :: "detector \<Rightarrow> bool" where
  "detector_ok d \<longleftrightarrow> (\<forall>g. count_of d g \<le> max_auto_retries d \<and>
     retries_of d g \<le> max_auto_retries d * forgets_of d g + count_of d g)"

lemma detector_ok_forget: "detector_ok d \<Longrightarrow> detector_ok (forget_group g d)"
proof -
  assume ok: "detector_ok d"
  have "count_of (forget_group g d) h \<le> max_auto_retries (forget_group g d) \<and>
     retries_of (forget_group g d) h \<le> max_auto_retries (forget_group g d) * forgets_of (forget_group g d) h +
       count_of (forget_group g d) h" for h
  proof (cases "h = g")
    case True
    have "retries_of d g \<le> max_auto_retries d * forgets_of d g + max_auto_retries d"
      using ok unfolding detector_ok_def by (meson add_left_mono order_trans)
    with True show ?thesis
      by (simp add: forget_group_def count_of_def get_default_def retries_of_def forgets_of_def)
  next
    case False
    with ok show ?thesis
      by (simp add: detector_ok_def forget_group_def count_of_def retries_of_def forgets_of_def)
  qed
  then show ?thesis by (simp add: detector_ok_def)
qed

lemma forget_max [simp]: "max_auto_retries (forget_group g d) = max_auto_retries d"
  by (simp add: forget_group_def)

lemma detector_ok_forgets: "detector_ok d \<Longrightarrow> detector_ok (fold forget_group gs d)"
  by (induction gs arbitrary: d) (simp_all add: detector_ok_forget)

lemma detector_ok_finished: "detector_ok d \<Longrightarrow> detector_ok (job_finished g d)"
  by (simp add: detector_ok_def job_finished_def count_of_def retries_of_def forgets_of_def)

lemma detector_ok_jobs: "detector_ok d \<Longrightarrow> detector_ok (d\<lparr>jobs := j\<rparr>)"
  by (simp add: detector_ok_def count_of_def retries_of_def forgets_of_def)

lemma detector_ok_started:
  "detector_ok d \<Longrightarrow> count_of d g < max_auto_retries d \<Longrightarrow>
   detector_ok (d\<lparr>retry_counts := (retry_counts d)(g \<mapsto> count_of d g + 1), jobs := j,
                 retry_log := retry_log d @ [g]\<rparr>)"
  by (auto simp: detector_ok_def count_of_def get_default_def retries_of_def forgets_of_def)

lemma detector_ok_check: "detector_ok (fst x) \<Longrightarrow> detector_ok (fst (check_group now g x))"
  using detector_ok_started [of "fst x" g]
  by (cases x) (auto simp: check_group_def Let_def detector_ok_forget detector_ok_jobs split: option.split)

lemma detector_ok_checks: "detector_ok (fst x) \<Longrightarrow> detector_ok (fst (fold (check_group now) gs x))"
  by (induction gs arbitrary: x) (simp_all add: detector_ok_check)

lemma detector_ok_failure: "detector_ok (fst x) \<Longrightarrow> detector_ok (fst (local_failure g st det msg now x))"
  by (cases x) (simp add: local_failure_def Let_def detector_ok_forget split: option.split)

lemma detector_ok_step: "detector_ok (fst x) \<Longrightarrow> detector_ok (fst (det_step e x))"
proof (cases e)
  case (Check counted now)
  assume "detector_ok (fst x)"
  with Check show ?thesis
    by (cases x) (simp add: check_all_def Let_def detector_ok_checks detector_ok_forgets)
next
  case (RetryEnded g outcome now)
  assume ok: "detector_ok (fst x)"
  obtain d a where l: "local_failure g (conflict_status (the outcome)) (AutoRetryFailed (take 80 (exc_str (the outcome))))
      (exc_str (the outcome)) now x = (d, a)" by (metis surj_pair)
  then have "detector_ok d"
    using detector_ok_failure [OF ok] by (metis fst_conv)
  with RetryEnded ok l show ?thesis
    by (auto simp: auto_retry_ended_def detector_ok_finished split: option.split)
next
  case (TerminationEnded g outcome now)
  assume ok: "detector_ok (fst x)"
  obtain d a where l: "local_failure g LStuck (TerminationFailed (take 80 (exc_str (the outcome))))
      (exc_str (the outcome)) now x = (d, a)" by (metis surj_pair)
  then have "detector_ok d"
    using detector_ok_failure [OF ok] by (metis fst_conv)
  with TerminationEnded ok l show ?thesis
    by (auto simp: termination_ended_def detector_ok_finished split: option.split)
next
  case (AdapterCall op)
  assume "detector_ok (fst x)"
  with AdapterCall show ?thesis by (cases x) (simp add: Let_def detector_ok_forgets)
qed

lemma max_check: "max_auto_retries (fst (check_group now g x)) = max_auto_retries (fst x)"
  by (cases x) (simp add: check_group_def Let_def split: option.split)

lemma max_step: "max_auto_retries (fst (det_step e x)) = max_auto_retries (fst x)"
proof -
  have f: "max_auto_retries (fold forget_group gs d) = max_auto_retries d" for gs d
    by (induction gs arbitrary: d) simp_all
  have c: "max_auto_retries (fst (fold (check_group now) gs y)) = max_auto_retries (fst y)" for now gs y
    by (induction gs arbitrary: y) (simp_all add: max_check)
  have l: "max_auto_retries (fst (local_failure g st det msg now y)) = max_auto_retries (fst y)" for g st det msg now y
    by (cases y) (simp add: local_failure_def Let_def split: option.split)
  show ?thesis
  proof (cases e)
    case (RetryEnded g outcome now)
    then show ?thesis
      using l [of g "conflict_status (the outcome)" "AutoRetryFailed (take 80 (exc_str (the outcome)))"
          "exc_str (the outcome)" now x]
      by (auto simp: auto_retry_ended_def job_finished_def split: option.split prod.split)
  next
    case (TerminationEnded g outcome now)
    then show ?thesis
      using l [of g LStuck "TerminationFailed (take 80 (exc_str (the outcome)))" "exc_str (the outcome)" now x]
      by (auto simp: termination_ended_def job_finished_def split: option.split prod.split)
  qed (cases x; simp add: check_all_def Let_def f c)+
qed

text \<open>
  Automatic retries are bounded: however checks, ended jobs and dashboard calls
  interleave, a group gets at most \<open>max_auto_retries\<close> automatic retries between two cleanups,
  and after as many of them the next detection terminates the task instead of retrying.
\<close>

theorem auto_retries_bounded:
  fixes es n b a
  defines "x \<equiv> fold det_step es (new_detector n b, a)"
  shows "retries_of (fst x) g \<le> n * (forgets_of (fst x) g + 1) \<and>
    (count_of (fst x) g = n \<longrightarrow> retries_of (fst (check_group now g x)) g = retries_of (fst x) g)"
proof -
  have "detector_ok (fst (fold det_step es y)) \<and> max_auto_retries (fst (fold det_step es y)) = max_auto_retries (fst y)"
    if "detector_ok (fst y)" for y
    using that by (induction es arbitrary: y) (simp_all add: detector_ok_step max_step)
  moreover have "detector_ok (new_detector n b)" "max_auto_retries (new_detector n b) = n"
    by (simp_all add: detector_ok_def new_detector_def count_of_def get_default_def
        retries_of_def forgets_of_def)
  ultimately have ok: "detector_ok (fst x)" "max_auto_retries (fst x) = n"
    by (simp_all add: x_def)
  have "retries_of (fst x) g \<le> n * forgets_of (fst x) g + count_of (fst x) g" "count_of (fst x) g \<le> n"
    using ok by (auto simp: detector_ok_def)
  moreover have "retries_of (fst (check_group now g x)) g = retries_of (fst x) g" if "count_of (fst x) g = n"
    using that ok(2) by (cases x) (auto simp: check_group_def Let_def retries_of_def forget_group_def split: option.split)
  ultimately show ?thesis by simp
qed

text \<open>
  A check leaves alone every group whose task is paused, stuck or being retried, whose
  last event is recent, or for which a retry or termination is already running: neither its
  state nor its counter nor its job changes, and no retry is started for it.
\<close>

theorem waiting_tasks_untouched:
  assumes "adapter_ok a" "states a g = Some s" "g \<in> set (active_groups a)"
    and "jobs d g \<noteq> None \<or> waiting_status (status s) \<or> now - last_event_at s \<le> STUCK_TIMEOUT_SEC"
    and "check_all counted now (d, a) = (d', a')"
  shows "states a' g = Some s \<and> retry_counts d' g = retry_counts d g \<and> jobs d' g = jobs d g \<and>
    retries_of d' g = retries_of d g"
proof -
  have live: "\<not> terminal_status (status s)" using assms(1-3) by (auto simp: adapter_ok_def)
  let ?P = "\<lambda>x. states (snd x) g = Some s \<and> retry_counts (fst x) g = retry_counts d g \<and>
      jobs (fst x) g = jobs d g \<and> retries_of (fst x) g = retries_of d g"
  have f: "?P (fold forget_group gs e, a)" if "?P (e, a)" "g \<notin> set gs" for gs e
    using that by (induction gs arbitrary: e) (auto simp: forget_group_def retries_of_def)
  have own: "?P (check_group now g x)" if "?P x" for x
    using that assms(4) live by (cases x) (auto simp: check_group_def)
  have set_other: "states (set_status h st det err push project b) g = states b g" if "h \<noteq> g" for h st det err push project b
    using that by (simp add: set_status_def Let_def put_state_def retire_def split: option.split)
  have other: "?P (check_group now h x)" if "?P x" "h \<noteq> g" for x h
    using that
    by (cases x) (auto simp: check_group_def Let_def forget_group_def retire_if_terminal_def retire_def
        retries_of_def set_other split: option.split)
  have "?P (fold (check_group now) gs x)" if "?P x" for gs x
    using that
  proof (induction gs arbitrary: x)
    case (Cons h gs)
    have "?P (check_group now h x)" using own [OF Cons.prems] other [OF Cons.prems] by (cases "h = g") simp_all
    from Cons.IH [OF this] show ?case by simp
  qed simp
  moreover have "?P (fold forget_group (filter (\<lambda>g. retry_counts d g \<noteq> None \<and> g \<notin> set (active_groups a)) counted) d, a)"
    using assms(2,3) by (intro f) auto
  ultimately have "?P (d', a')"
    using assms(5) unfolding check_all_def Let_def by (metis (no_types, lifting) case_prod_conv)
  then show ?thesis by simp
qed

section \<open>Worked instances\<close>

theorem auto_retries_bounded_witness:
  "retries_of (fst (fold det_step [Check [] 500, RetryEnded 1 None 500, Check [1] 900] (new_detector 1 True, demo_adapter))) 1 \<le> 1 *
   (forgets_of (fst (fold det_step [Check [] 500, RetryEnded 1 None 500, Check [1] 900] (new_detector 1 True, demo_adapter))) 1 + 1)"
  using auto_retries_bounded by blast

theorem waiting_tasks_untouched_witness:
  "states (snd (check_all [] 100 (new_detector 3 True, demo_adapter))) 1 = Some (new_progress 1 ''a'' 0)"
proof -
  obtain d' a' where c: "check_all [] 100 (new_detector 3 True, demo_adapter) = (d', a')" by (metis surj_pair)
  have "1 \<in> set (active_groups demo_adapter)"
    by (simp add: demo_adapter_def register_task_def Let_def put_state_def)
  from waiting_tasks_untouched [OF demo_adapter_ok(1,3) this _ c] c
  show ?thesis by (simp add: new_progress_def STUCK_TIMEOUT_SEC_def)
qed

end
