(* ===== verification/PipelineJobs.thy ===== *)
theory PipelineJobs
  imports Lease "HOL-Library.List_Lexorder" "HOL-Library.Char_ord"
begin

text \<open>
  Durable background jobs of the memory pipeline:
  \<^verbatim>\<open>memory/infrastructure/pipeline_jobs.py\<close> and \<^verbatim>\<open>memory/domain/pipeline.py\<close>, on the tables
  of \<^verbatim>\<open>memory/infrastructure/schema.py\<close>. Times are milliseconds and arguments; the lease token
  is the generated one; \<open>digest\<close> stands for the hexadecimal SHA-256, \<open>redact\<close> for the
  credential patterns of \<^verbatim>\<open>memory/domain/safety.py\<close>, whose bounding is modelled.
\<close>

section \<open>Safe text\<close>

definition MAX_SAFETY_SCAN_CHARS :: nat where "MAX_SAFETY_SCAN_CHARS = 65536"

definition bounded_marker :: string where
  "bounded_marker = CHR 0x0A # ''[...input bounded...]'' @ [CHR 0x0A]"

definition safe_memory_text :: "(string \<Rightarrow> string) \<Rightarrow> nat \<Rightarrow> string \<Rightarrow> string" where
  "safe_memory_text redact limit value =
     (let text = py_strip value;
          tail = 4096;
          scanned = (if length text > MAX_SAFETY_SCAN_CHARS
                     then take (MAX_SAFETY_SCAN_CHARS - tail) text @ bounded_marker @
                          drop (length text - tail) text
                     else text)
      in take limit (redact scanned))"

section \<open>Rows\<close>

datatype job_status = JPending | JRunning | JCompleted | JFailed | JDead

record job_row =
  j_id :: string
  j_type :: string
  j_group :: int
  j_input :: string
  j_version :: string
  j_status :: job_status
  j_attempt :: int
  j_max :: int
  j_key :: string
  j_lease_until :: "int option"
  j_token :: "string option"
  j_error :: string
  j_output :: string
  j_created :: int
  j_updated :: int
  j_completed :: "int option"

record checkpoint_row =
  k_id :: string
  k_group :: int
  k_thread :: string
  k_parent :: "string option"
  k_step :: string
  k_hash :: string
  k_state :: string
  k_created :: int

record pipeline_db =
  pipeline_jobs :: "job_row list"
  checkpoints :: "checkpoint_row list"

definition update_jobs :: "(job_row \<Rightarrow> bool) \<Rightarrow> (job_row \<Rightarrow> job_row) \<Rightarrow> pipeline_db \<Rightarrow> pipeline_db" where
  "update_jobs P f d = d\<lparr>pipeline_jobs := update_where P f (pipeline_jobs d)\<rparr>"

text \<open>One UPDATE in a transaction of its own; the result is the row count.\<close>

definition update_jobs_tx ::
  "(job_row \<Rightarrow> bool) \<Rightarrow> (job_row \<Rightarrow> job_row) \<Rightarrow> pipeline_db conn \<Rightarrow> nat res \<times> pipeline_db conn" where
  "update_jobs_tx P f =
     write_connect (\<lambda>c. (Inr (count_where P (pipeline_jobs (view c))), commit (dml (update_jobs P f) c)))"

section \<open>Scopes and identities\<close>

datatype scope_kind = UserScope | GroupScope | BotScope

definition group_of_scope :: "scope_kind \<Rightarrow> int option \<Rightarrow> int res" where
  "group_of_scope kind gid =
     (case gid of
        None \<Rightarrow> Inl (RuntimeError ''pipeline job operation requires group scope'')
      | Some g \<Rightarrow> if kind = GroupScope \<or> kind = BotScope then Inr g
                  else Inl (RuntimeError ''pipeline job operation requires group scope''))"

definition job_key :: "string \<Rightarrow> int \<Rightarrow> string \<Rightarrow> string \<Rightarrow> string" where
  "job_key jtype g input version =
     jtype @ CHR '':'' # py_str_int g @ CHR '':'' # input @ CHR '':'' # version"

definition pipeline_job_identity ::
  "(string \<Rightarrow> string) \<Rightarrow> string \<Rightarrow> int \<Rightarrow> string \<Rightarrow> string \<Rightarrow> string \<times> string" where
  "pipeline_job_identity digest jtype g input version =
     (let key = job_key jtype g input version in (''job:'' @ take 24 (digest key), key))"

section \<open>The repository\<close>

definition enqueue_job ::
  "(string \<Rightarrow> string) \<Rightarrow> int \<Rightarrow> string \<Rightarrow> string \<Rightarrow> string \<Rightarrow> int \<Rightarrow> pipeline_db conn \<Rightarrow>
   string res \<times> pipeline_db conn" where
  "enqueue_job digest g jtype input version now =
     write_connect (\<lambda>c.
       case pipeline_job_identity digest jtype g input version of
         (jid, key) \<Rightarrow>
           if row_by j_key key (pipeline_jobs (view c)) \<noteq> None then (Inr jid, commit (dml id c))
           else if row_by j_id jid (pipeline_jobs (view c)) \<noteq> None
           then (Inl (IntegrityError ''UNIQUE constraint failed: pipeline_jobs.job_id''), c)
           else
             (let r = \<lparr>j_id = jid, j_type = jtype, j_group = g, j_input = input, j_version = version,
                       j_status = JPending, j_attempt = 0, j_max = 3, j_key = key,
                       j_lease_until = None, j_token = None, j_error = '''', j_output = ''{}'',
                       j_created = now, j_updated = now, j_completed = None\<rparr>
              in (Inr jid, commit (dml (\<lambda>d. d\<lparr>pipeline_jobs := pipeline_jobs d @ [r]\<rparr>) c))))"

definition as_bool :: "nat res \<times> pipeline_db conn \<Rightarrow> bool \<times> pipeline_db conn" where
  "as_bool x = (case x of (Inr n, c) \<Rightarrow> (n = 1, c) | (Inl e, c) \<Rightarrow> (False, c))"

definition reset_completed :: "int \<Rightarrow> string \<Rightarrow> int \<Rightarrow> pipeline_db conn \<Rightarrow> bool \<times> pipeline_db conn" where
  "reset_completed g jid now c =
     as_bool (update_jobs_tx (\<lambda>r. j_group r = g \<and> j_id r = jid \<and> j_status r = JCompleted)
       (\<lambda>r. r\<lparr>j_status := JPending, j_attempt := 0, j_lease_until := None, j_token := None,
              j_error := '''', j_output := ''{}'', j_completed := None, j_updated := now\<rparr>) c)"

definition complete_pending_by_input ::
  "(string \<Rightarrow> string) \<Rightarrow> int \<Rightarrow> string \<Rightarrow> string \<Rightarrow> string \<Rightarrow> int \<Rightarrow> pipeline_db conn \<Rightarrow>
   nat res \<times> pipeline_db conn" where
  "complete_pending_by_input redact g jtype input output now =
     update_jobs_tx (\<lambda>r. j_group r = g \<and> j_type r = jtype \<and> j_input r = input \<and> j_status r = JPending)
       (\<lambda>r. r\<lparr>j_status := JCompleted, j_output := safe_memory_text redact 100000 output,
              j_completed := Some now, j_updated := now\<rparr>)"

definition lease_before :: "job_row \<Rightarrow> int \<Rightarrow> bool" where
  "lease_before r now \<longleftrightarrow> (case j_lease_until r of None \<Rightarrow> False | Some u \<Rightarrow> u < now)"

definition job_ready :: "int \<Rightarrow> int \<Rightarrow> job_row \<Rightarrow> bool" where
  "job_ready g now r \<longleftrightarrow> j_group r = g \<and>
     ((j_attempt r < j_max r \<and> (j_status r = JPending \<or> j_status r = JFailed)) \<or>
      (j_status r = JRunning \<and> lease_before r now))"

definition list_ready :: "int \<Rightarrow> int \<Rightarrow> nat \<Rightarrow> pipeline_db conn \<Rightarrow> job_row list" where
  "list_ready g now limit c =
     take (max 1 limit) (sort_key j_created (sort_key j_id
       (filter (job_ready g now) (pipeline_jobs (committed c)))))"

text \<open>
  \<open>claim\<close>: first an expired lease of a final attempt buries the job, then the job is taken
  when it is pending, failed or expired and has attempts left.
\<close>

definition buriable :: "string \<Rightarrow> int \<Rightarrow> int \<Rightarrow> job_row \<Rightarrow> bool" where
  "buriable jid g now r \<longleftrightarrow> j_id r = jid \<and> j_group r = g \<and> j_status r = JRunning \<and>
     lease_before r now \<and> j_attempt r \<ge> j_max r"

definition buried_job :: "int \<Rightarrow> job_row \<Rightarrow> job_row" where
  "buried_job now r =
     r\<lparr>j_status := JDead, j_lease_until := None, j_token := None,
       j_error := (if j_error r = '''' then ''lease expired after final attempt'' else j_error r),
       j_updated := now\<rparr>"

definition claimable :: "string \<Rightarrow> int \<Rightarrow> int \<Rightarrow> job_row \<Rightarrow> bool" where
  "claimable jid g now r \<longleftrightarrow> j_id r = jid \<and> j_group r = g \<and>
     (j_status r = JPending \<or> (j_status r = JRunning \<and> lease_before r now) \<or> j_status r = JFailed) \<and>
     j_attempt r < j_max r"

definition taken_job :: "string \<Rightarrow> int \<Rightarrow> int \<Rightarrow> job_row \<Rightarrow> job_row" where
  "taken_job tok seconds now r =
     r\<lparr>j_status := JRunning, j_attempt := j_attempt r + 1,
       j_lease_until := Some (now + max 1 seconds * 1000), j_token := Some tok, j_updated := now\<rparr>"

definition claim_job ::
  "int \<Rightarrow> int \<Rightarrow> string \<Rightarrow> string \<Rightarrow> int \<Rightarrow> pipeline_db conn \<Rightarrow> string option res \<times> pipeline_db conn" where
  "claim_job g seconds jid tok now =
     write_connect (\<lambda>c.
       let c1 = dml (update_jobs (buriable jid g now) (buried_job now)) c;
           n = count_where (claimable jid g now) (pipeline_jobs (view c1));
           c2 = dml (update_jobs (claimable jid g now) (taken_job tok seconds now)) c1
       in (Inr (if n = 1 then Some tok else None), commit c2))"

definition owned :: "string \<Rightarrow> int \<Rightarrow> string \<Rightarrow> job_row \<Rightarrow> bool" where
  "owned jid g tok r \<longleftrightarrow> j_id r = jid \<and> j_group r = g \<and> j_status r = JRunning \<and> j_token r = Some tok"

definition completed_job :: "string \<Rightarrow> int \<Rightarrow> job_row \<Rightarrow> job_row" where
  "completed_job output now r =
     r\<lparr>j_status := JCompleted, j_lease_until := None, j_token := None, j_error := '''',
       j_output := output, j_completed := Some now, j_updated := now\<rparr>"

definition complete_with_checkpoint ::
  "(string \<Rightarrow> string) \<Rightarrow> int \<Rightarrow> string \<Rightarrow> string \<Rightarrow> string \<Rightarrow> string \<Rightarrow> string option \<Rightarrow> string \<Rightarrow> string \<Rightarrow>
   int \<Rightarrow> pipeline_db conn \<Rightarrow> bool res \<times> pipeline_db conn" where
  "complete_with_checkpoint redact g jid tok output thread parent hash state now c0 =
     (if tok = '''' then (Inr False, c0)
      else
        write_connect (\<lambda>c.
          let n = count_where (owned jid g tok) (pipeline_jobs (view c));
              c1 = dml (update_jobs (owned jid g tok)
                     (completed_job (safe_memory_text redact 100000 output) now)) c
          in if n \<noteq> 1 then (Inr False, rollback c1)
             else
               (let k = \<lparr>k_id = ''chk:'' @ thread @ '':completed:'' @ take 8 hash, k_group = g,
                         k_thread = thread, k_parent = parent, k_step = ''completed'', k_hash = hash,
                         k_state = state, k_created = now\<rparr>;
                    c2 = dml (\<lambda>d. if row_by k_id (k_id k) (checkpoints d) \<noteq> None then d
                                   else d\<lparr>checkpoints := checkpoints d @ [k]\<rparr>) c1
                in (Inr True, commit c2))) c0)"

definition renew_lease ::
  "int \<Rightarrow> string \<Rightarrow> string \<Rightarrow> int \<Rightarrow> int \<Rightarrow> pipeline_db conn \<Rightarrow> bool \<times> pipeline_db conn" where
  "renew_lease g jid tok seconds now c =
     (if tok = '''' then (False, c)
      else as_bool (update_jobs_tx (owned jid g tok)
             (\<lambda>r. r\<lparr>j_lease_until := Some (now + max 1 seconds * 1000), j_updated := now\<rparr>) c))"

definition failed_job :: "string \<Rightarrow> int \<Rightarrow> job_row \<Rightarrow> job_row" where
  "failed_job err now r =
     r\<lparr>j_status := (if j_attempt r \<ge> j_max r then JDead else JFailed), j_lease_until := None,
       j_token := None, j_error := err, j_updated := now\<rparr>"

definition fail_job ::
  "(string \<Rightarrow> string) \<Rightarrow> int \<Rightarrow> string \<Rightarrow> string \<Rightarrow> string \<Rightarrow> int \<Rightarrow> pipeline_db conn \<Rightarrow> bool \<times> pipeline_db conn" where
  "fail_job redact g jid tok err now c =
     (if tok = '''' then (False, c)
      else as_bool (update_jobs_tx (owned jid g tok) (failed_job (safe_memory_text redact 2000 err) now) c))"

definition deferred_job :: "int \<Rightarrow> job_row \<Rightarrow> job_row" where
  "deferred_job now r =
     r\<lparr>j_status := JPending, j_attempt := max (j_attempt r - 1) 0, j_lease_until := None,
       j_token := None, j_updated := now\<rparr>"

definition defer_job :: "int \<Rightarrow> string \<Rightarrow> string \<Rightarrow> int \<Rightarrow> pipeline_db conn \<Rightarrow> bool \<times> pipeline_db conn" where
  "defer_job g jid tok now c =
     (if tok = '''' then (False, c)
      else as_bool (update_jobs_tx (owned jid g tok) (deferred_job now) c))"

record job_stats =
  backlog :: nat
  retry :: nat
  dead :: nat
  expired_lease :: nat

definition job_stats_of :: "int \<Rightarrow> int \<Rightarrow> pipeline_db conn \<Rightarrow> job_stats" where
  "job_stats_of g now c =
     (let rows = filter (\<lambda>r. j_group r = g) (pipeline_jobs (committed c)) in
      \<lparr>backlog = count_where (\<lambda>r. j_status r = JPending \<or> j_status r = JFailed \<or>
                    (j_status r = JRunning \<and> lease_before r now)) rows,
       retry = count_where (\<lambda>r. j_status r = JFailed) rows,
       dead = count_where (\<lambda>r. j_status r = JDead) rows,
       expired_lease = count_where (\<lambda>r. j_status r = JRunning \<and> lease_before r now) rows\<rparr>)"

definition save_checkpoint ::
  "int \<Rightarrow> string \<Rightarrow> string \<Rightarrow> string option \<Rightarrow> string \<Rightarrow> string \<Rightarrow> int \<Rightarrow> pipeline_db conn \<Rightarrow>
   checkpoint_row res \<times> pipeline_db conn" where
  "save_checkpoint g thread step parent hash state now =
     write_connect (\<lambda>c.
       let k = \<lparr>k_id = ''chk:'' @ thread @ CHR '':'' # step @ CHR '':'' # take 8 hash, k_group = g,
                k_thread = thread, k_parent = parent, k_step = step, k_hash = hash, k_state = state,
                k_created = now\<rparr>
       in (Inr k, commit (dml (\<lambda>d. if row_by k_id (k_id k) (checkpoints d) \<noteq> None then d
                                  else d\<lparr>checkpoints := checkpoints d @ [k]\<rparr>) c)))"

text \<open>The newest checkpoint of a thread, the greater id among those of the same instant.\<close>

definition newer_checkpoint :: "checkpoint_row \<Rightarrow> checkpoint_row \<Rightarrow> bool" where
  "newer_checkpoint a b \<longleftrightarrow> k_created a > k_created b \<or>
     (k_created a = k_created b \<and> k_id a > k_id b)"

definition latest_checkpoint :: "int \<Rightarrow> string \<Rightarrow> pipeline_db conn \<Rightarrow> checkpoint_row option" where
  "latest_checkpoint g thread c =
     fold (\<lambda>k best. case best of None \<Rightarrow> Some k
                    | Some b \<Rightarrow> if newer_checkpoint k b then Some k else Some b)
       (filter (\<lambda>k. k_group k = g \<and> k_thread k = thread) (checkpoints (committed c))) None"

section \<open>Updates of one job\<close>

definition job_of :: "pipeline_db \<Rightarrow> string \<Rightarrow> job_row option" where
  "job_of d jid = row_by j_id jid (pipeline_jobs d)"

lemma update_jobs_fields [simp]:
  "pipeline_jobs (update_jobs P f d) = update_where P f (pipeline_jobs d)"
  "checkpoints (update_jobs P f d) = checkpoints d"
  by (simp_all add: update_jobs_def)

lemma job_of_update:
  "(\<And>r. j_id (f r) = j_id r) \<Longrightarrow> job_of (update_jobs P f d) x = map_option (\<lambda>r. if P r then f r else r) (job_of d x)"
  by (simp add: job_of_def table_simps)

lemma job_of_id: "job_of d x = Some r \<Longrightarrow> j_id r = x"
  by (auto simp: job_of_def dest: row_by_SomeD)

lemma job_setters [simp]:
  "j_id (buried_job now r) = j_id r" "j_id (taken_job tok s now r) = j_id r"
  "j_id (completed_job out now r) = j_id r" "j_id (failed_job e now r) = j_id r"
  "j_id (deferred_job now r) = j_id r"
  "j_key (buried_job now r) = j_key r" "j_key (taken_job tok s now r) = j_key r"
  "j_key (completed_job out now r) = j_key r" "j_key (failed_job e now r) = j_key r"
  "j_key (deferred_job now r) = j_key r"
  by (simp_all add: buried_job_def taken_job_def completed_job_def failed_job_def deferred_job_def)

lemma count_claimable:
  "keyed j_id t \<Longrightarrow> count_where (claimable jid g now) t =
     (case row_by j_id jid t of None \<Rightarrow> 0 | Some r \<Rightarrow> if claimable jid g now r then 1 else 0)"
  by (rule count_where_keyed) (simp_all add: claimable_def)

lemma count_owned:
  "keyed j_id t \<Longrightarrow> count_where (owned jid g tok) t =
     (case row_by j_id jid t of None \<Rightarrow> 0 | Some r \<Rightarrow> if owned jid g tok r then 1 else 0)"
  by (rule count_where_keyed) (simp_all add: owned_def)

text \<open>What \<open>claim\<close> makes of a row.\<close>

definition after_claim :: "string \<Rightarrow> int \<Rightarrow> int \<Rightarrow> string \<Rightarrow> int \<Rightarrow> job_row \<Rightarrow> job_row" where
  "after_claim jid g seconds tok now r =
     (if claimable jid g now r then taken_job tok seconds now r
      else if buriable jid g now r then buried_job now r else r)"

lemma claim_job_idle:
  assumes "idle c" "keyed j_id (pipeline_jobs (committed c))"
  shows "\<exists>d'. claim_job g seconds jid tok now c =
      (Inr (if (\<exists>r. job_of (committed c) jid = Some r \<and> claimable jid g now r) then Some tok else None),
       \<lparr>committed = d', open_tx = None\<rparr>) \<and>
    pipeline_jobs d' = map (after_claim jid g seconds tok now) (pipeline_jobs (committed c)) \<and>
    checkpoints d' = checkpoints (committed c)"
proof -
  let ?d = "committed c"
  let ?d1 = "update_jobs (buriable jid g now) (buried_job now) ?d"
  have k: "keyed j_id (pipeline_jobs ?d1)" using assms(2) by (simp add: keyed_intros)
  have bury: "\<not> claimable jid g now (buried_job now r)" for r
    by (simp add: claimable_def buried_job_def)
  have both: "claimable jid g now r \<Longrightarrow> \<not> buriable jid g now r" for r
    by (simp add: claimable_def buriable_def)
  have n: "count_where (claimable jid g now) (pipeline_jobs ?d1) = 1 \<longleftrightarrow>
      (\<exists>r. job_of ?d jid = Some r \<and> claimable jid g now r)"
  proof -
    have "row_by j_id jid (pipeline_jobs ?d1) =
        map_option (\<lambda>r. if buriable jid g now r then buried_job now r else r) (job_of ?d jid)"
      using job_of_update [of "buried_job now" "buriable jid g now" ?d jid] by (simp add: job_of_def)
    then show ?thesis
      unfolding count_claimable [OF k] using bury both by (auto split: option.splits)
  qed
  have "pipeline_jobs (update_jobs (claimable jid g now) (taken_job tok seconds now) ?d1) =
      map (after_claim jid g seconds tok now) (pipeline_jobs ?d)"
    using bury both by (simp add: update_where_def after_claim_def)
  then show ?thesis
    using assms(1) n by (simp add: claim_job_def write_connect_def Let_def commit_eq)
qed

lemma job_of_map:
  "(\<And>r. j_id (f r) = j_id r) \<Longrightarrow> pipeline_jobs d' = map f (pipeline_jobs d) \<Longrightarrow>
   job_of d' x = map_option f (job_of d x)"
proof -
  assume "\<And>r. j_id (f r) = j_id r" "pipeline_jobs d' = map f (pipeline_jobs d)"
  moreover from this(1) have "row_by j_id x (map f t) = map_option f (row_by j_id x t)" for t
    by (induction t) auto
  ultimately show ?thesis by (simp add: job_of_def)
qed

lemma after_claim_id [simp]: "j_id (after_claim jid g s tok now r) = j_id r" "j_key (after_claim jid g s tok now r) = j_key r"
  by (simp_all add: after_claim_def)

section \<open>The lease contract\<close>

definition job_holder :: "int \<Rightarrow> pipeline_db conn \<Rightarrow> string \<Rightarrow> string option" where
  "job_holder g c jid =
     (case job_of (committed c) jid of
        None \<Rightarrow> None
      | Some r \<Rightarrow> if j_group r = g \<and> j_status r = JRunning then j_token r else None)"

definition job_expired :: "pipeline_db conn \<Rightarrow> string \<Rightarrow> int \<Rightarrow> bool" where
  "job_expired c jid now =
     (case job_of (committed c) jid of None \<Rightarrow> True | Some r \<Rightarrow> lease_before r now)"

definition jobs_ready :: "pipeline_db conn \<Rightarrow> bool" where
  "jobs_ready c \<longleftrightarrow> idle c \<and> keyed j_id (pipeline_jobs (committed c))"

datatype job_end = EndComplete string string "string option" string string | EndFail string | EndDefer

definition job_acquire ::
  "int \<Rightarrow> int \<Rightarrow> string \<Rightarrow> string \<Rightarrow> int \<Rightarrow> pipeline_db conn \<Rightarrow> bool \<times> pipeline_db conn" where
  "job_acquire g seconds jid tok now c =
     (case claim_job g seconds jid tok now c of (Inr (Some t), c') \<Rightarrow> (True, c') | (_, c') \<Rightarrow> (False, c'))"

fun end_job ::
  "(string \<Rightarrow> string) \<Rightarrow> int \<Rightarrow> job_end \<Rightarrow> string \<Rightarrow> string \<Rightarrow> int \<Rightarrow> pipeline_db conn \<Rightarrow> bool \<times> pipeline_db conn" where
  "end_job redact g (EndComplete out thread parent hash st) jid tok now c =
     (case complete_with_checkpoint redact g jid tok out thread parent hash st now c of
        (Inr b, c') \<Rightarrow> (b, c') | (Inl e, c') \<Rightarrow> (False, c'))"
| "end_job redact g (EndFail err) jid tok now c = fail_job redact g jid tok err now c"
| "end_job redact g EndDefer jid tok now c = defer_job g jid tok now c"

lemma owned_holder:
  "(\<exists>r. job_of (committed c) jid = Some r \<and> owned jid g tok r) \<longleftrightarrow> job_holder g c jid = Some tok"
  by (auto simp: job_holder_def owned_def split: option.splits dest: job_of_id)

lemma update_owned:
  assumes "jobs_ready c" "tok \<noteq> ''''" "\<And>r. j_id (f r) = j_id r" "\<And>r. j_status (f r) \<noteq> JRunning"
  shows "as_bool (update_jobs_tx (owned jid g tok) f c) =
      (job_holder g c jid = Some tok, \<lparr>committed = update_jobs (owned jid g tok) f (committed c), open_tx = None\<rparr>) \<and>
    (job_holder g c jid \<noteq> Some tok \<longrightarrow> update_jobs (owned jid g tok) f (committed c) = committed c) \<and>
    (job_holder g c jid = Some tok \<longrightarrow>
       job_holder g \<lparr>committed = update_jobs (owned jid g tok) f (committed c), open_tx = None\<rparr> = (job_holder g c)(jid := None))"
proof -
  have ok: "idle c" "keyed j_id (pipeline_jobs (committed c))" using assms(1) by (simp_all add: jobs_ready_def)
  have "count_where (owned jid g tok) (pipeline_jobs (committed c)) = 1 \<longleftrightarrow> job_holder g c jid = Some tok"
    by (auto simp: count_owned [OF ok(2)] owned_holder [symmetric] job_of_def split: option.splits)
  moreover have "update_jobs (owned jid g tok) f (committed c) = committed c" if "job_holder g c jid \<noteq> Some tok"
  proof -
    have "\<not> owned jid g tok r" if r: "r \<in> set (pipeline_jobs (committed c))" for r
    proof
      assume o: "owned jid g tok r"
      then have "job_of (committed c) jid = Some r"
        using row_by_in_keyed [OF ok(2) r] by (simp add: job_of_def owned_def)
      with o owned_holder [of c jid g tok] \<open>job_holder g c jid \<noteq> Some tok\<close> show False by blast
    qed
    then show ?thesis by (simp add: update_jobs_def update_where_none)
  qed
  moreover have "job_holder g \<lparr>committed = update_jobs (owned jid g tok) f (committed c), open_tx = None\<rparr> x =
      ((job_holder g c)(jid := None)) x" if "job_holder g c jid = Some tok" for x
  proof (cases "x = jid")
    case True
    from that obtain r where "job_of (committed c) jid = Some r" "owned jid g tok r"
      using owned_holder by blast
    with True assms(3,4) show ?thesis by (simp add: job_holder_def job_of_update)
  next
    case False
    then have "\<not> owned jid g tok r" if "job_of (committed c) x = Some r" for r
      using job_of_id [OF that] by (simp add: owned_def)
    with False assms(3) show ?thesis
      by (cases "job_of (committed c) x") (simp_all add: job_holder_def job_of_update)
  qed
  ultimately show ?thesis
    using ok(1) by (simp add: as_bool_def update_jobs_tx_def write_connect_def commit_eq fun_eq_iff)
qed


lemma complete_cases:
  assumes "jobs_ready c" "tok \<noteq> ''''"
  shows "\<exists>c'. complete_with_checkpoint redact g jid tok out thread parent hash st now c =
      (Inr (job_holder g c jid = Some tok), c') \<and>
    (job_holder g c jid \<noteq> Some tok \<longrightarrow> c' = c) \<and>
    (job_holder g c jid = Some tok \<longrightarrow> idle c' \<and>
       pipeline_jobs (committed c') = update_where (owned jid g tok)
         (completed_job (safe_memory_text redact 100000 out) now) (pipeline_jobs (committed c)) \<and>
       (''chk:'' @ thread @ '':completed:'' @ take 8 hash) \<in> k_id ` set (checkpoints (committed c')))"
proof -
  have ok: "idle c" "keyed j_id (pipeline_jobs (committed c))" using assms(1) by (simp_all add: jobs_ready_def)
  have "count_where (owned jid g tok) (pipeline_jobs (committed c)) = 1 \<longleftrightarrow> job_holder g c jid = Some tok"
    by (auto simp: count_owned [OF ok(2)] owned_holder [symmetric] job_of_def split: option.splits)
  moreover have "rollback (dml f c) = c" for f using idle_eq [OF ok(1)] by (simp add: rollback_eq)
  moreover have "x \<in> key ` set t \<or> row_by key x t = None" for x t and key :: "checkpoint_row \<Rightarrow> string"
    by (auto simp: row_by_None_iff)
  ultimately show ?thesis
    using ok(1) assms(2)
    by (auto simp: complete_with_checkpoint_def write_connect_def Let_def row_by_None_iff)
qed

lemma job_holder_jobs: "pipeline_jobs (committed c) = pipeline_jobs (committed c') \<Longrightarrow> job_holder g c = job_holder g c'"
  by (simp add: job_holder_def job_of_def fun_eq_iff)

lemma end_job_cases:
  assumes "jobs_ready c"
  shows "(job_holder g c jid \<noteq> Some tok \<longrightarrow> end_job redact g oc jid tok now c = (False, c)) \<and>
    (fst (end_job redact g oc jid tok now c) \<longrightarrow> job_holder g (snd (end_job redact g oc jid tok now c)) = (job_holder g c)(jid := None)) \<and>
    (\<not> fst (end_job redact g oc jid tok now c) \<longrightarrow> snd (end_job redact g oc jid tok now c) = c) \<and>
    jobs_ready (snd (end_job redact g oc jid tok now c))"
proof (cases "tok = ''''")
  case True
  then have "end_job redact g oc jid tok now c = (False, c)"
    by (cases oc) (simp_all add: complete_with_checkpoint_def fail_job_def defer_job_def)
  with assms show ?thesis by simp
next
  case False
  have ok: "idle c" "keyed j_id (pipeline_jobs (committed c))" using assms by (simp_all add: jobs_ready_def)
  have ready: "jobs_ready \<lparr>committed = update_jobs P f (committed c), open_tx = None\<rparr>"
    if "\<And>r. j_id (f r) = j_id r" for P f
    using ok(2) that by (simp add: jobs_ready_def idle_def keyed_intros)
  have plain: ?thesis if e: "end_job redact g oc jid tok now c = as_bool (update_jobs_tx (owned jid g tok) f c)"
    "\<And>r. j_id (f r) = j_id r" "\<And>r. j_status (f r) \<noteq> JRunning" for f
    using update_owned [OF assms False e(2,3), of jid g] ready [OF e(2)] idle_eq [OF ok(1)] assms e(1)
    by (cases "job_holder g c jid = Some tok") auto
  show ?thesis
  proof (cases oc)
    case (EndComplete out thread parent hash st)
    let ?f = "completed_job (safe_memory_text redact 100000 out) now"
    obtain c' where c': "complete_with_checkpoint redact g jid tok out thread parent hash st now c =
          (Inr (job_holder g c jid = Some tok), c')" "job_holder g c jid \<noteq> Some tok \<Longrightarrow> c' = c"
        "job_holder g c jid = Some tok \<Longrightarrow> idle c' \<and> pipeline_jobs (committed c') =
           update_where (owned jid g tok) ?f (pipeline_jobs (committed c))"
      using complete_cases [OF assms False] by blast
    let ?u = "\<lparr>committed = update_jobs (owned jid g tok) ?f (committed c), open_tx = None\<rparr>"
    have "j_status (?f r) \<noteq> JRunning" for r by (simp add: completed_job_def)
    then have "job_holder g ?u = (job_holder g c)(jid := None)" if "job_holder g c jid = Some tok"
      using update_owned [OF assms False, of ?f jid g] that by simp
    moreover have "job_holder g c' = job_holder g ?u \<and> jobs_ready c'" if "job_holder g c jid = Some tok"
      using c'(3) [OF that] ready [of ?f "owned jid g tok"] job_holder_jobs [of c' ?u g] by (simp add: jobs_ready_def)
    ultimately show ?thesis
      using c'(1,2) assms EndComplete by (cases "job_holder g c jid = Some tok") auto
  next
    case (EndFail err)
    show ?thesis
      by (rule plain [of "failed_job (safe_memory_text redact 2000 err) now"])
        (use False EndFail in \<open>simp_all add: fail_job_def failed_job_def\<close>)
  next
    case EndDefer
    show ?thesis
      by (rule plain [of "deferred_job now"])
        (use False EndDefer in \<open>simp_all add: defer_job_def deferred_job_def\<close>)
  qed
qed

lemma job_acquire_cases:
  assumes "jobs_ready c"
  shows "(fst (job_acquire g seconds jid tok now c) \<longrightarrow>
            job_holder g (snd (job_acquire g seconds jid tok now c)) = (job_holder g c)(jid \<mapsto> tok)) \<and>
         (\<not> fst (job_acquire g seconds jid tok now c) \<longrightarrow>
            job_holder g (snd (job_acquire g seconds jid tok now c)) = job_holder g c \<or>
            job_holder g (snd (job_acquire g seconds jid tok now c)) = (job_holder g c)(jid := None)) \<and>
         (job_holder g c jid \<noteq> None \<longrightarrow> \<not> job_expired c jid now \<longrightarrow>
            \<not> fst (job_acquire g seconds jid tok now c) \<and>
            job_holder g (snd (job_acquire g seconds jid tok now c)) = job_holder g c) \<and>
         jobs_ready (snd (job_acquire g seconds jid tok now c))"
proof -
  have ok: "idle c" "keyed j_id (pipeline_jobs (committed c))" using assms by (simp_all add: jobs_ready_def)
  obtain d' where cl: "claim_job g seconds jid tok now c =
      (Inr (if (\<exists>r. job_of (committed c) jid = Some r \<and> claimable jid g now r) then Some tok else None),
       \<lparr>committed = d', open_tx = None\<rparr>)"
      and d': "pipeline_jobs d' = map (after_claim jid g seconds tok now) (pipeline_jobs (committed c))"
    using claim_job_idle [OF ok] by blast
  have row: "job_of d' x = map_option (after_claim jid g seconds tok now) (job_of (committed c) x)" for x
    by (rule job_of_map [OF _ d']) simp
  have fst: "fst (job_acquire g seconds jid tok now c) \<longleftrightarrow> (\<exists>r. job_of (committed c) jid = Some r \<and> claimable jid g now r)"
    and snd: "snd (job_acquire g seconds jid tok now c) = \<lparr>committed = d', open_tx = None\<rparr>"
    by (simp_all add: job_acquire_def cl)
  have other: "job_holder g \<lparr>committed = d', open_tx = None\<rparr> x = job_holder g c x" if "x \<noteq> jid" for x
  proof -
    have "after_claim jid g seconds tok now r = r" if "job_of (committed c) x = Some r" for r
      using job_of_id [OF that] \<open>x \<noteq> jid\<close> by (simp add: after_claim_def claimable_def buriable_def)
    then show ?thesis by (cases "job_of (committed c) x") (simp_all add: job_holder_def row)
  qed
  have own: "job_holder g \<lparr>committed = d', open_tx = None\<rparr> jid =
      (case job_of (committed c) jid of None \<Rightarrow> None
       | Some r \<Rightarrow> if claimable jid g now r then Some tok else if buriable jid g now r then None else job_holder g c jid)"
    by (cases "job_of (committed c) jid")
      (auto simp: job_holder_def row after_claim_def taken_job_def buried_job_def claimable_def)
  have gone: "job_holder g c jid = None" if "job_of (committed c) jid = None"
    using that by (simp add: job_holder_def)
  have held: "\<not> claimable jid g now r \<and> \<not> buriable jid g now r"
    if "job_holder g c jid \<noteq> None" "\<not> job_expired c jid now" "job_of (committed c) jid = Some r" for r
    using that by (auto simp: job_holder_def job_expired_def claimable_def buriable_def split: if_splits)
  have "jobs_ready \<lparr>committed = d', open_tx = None\<rparr>"
    using ok(2) d' by (simp add: jobs_ready_def idle_def keyed_def comp_def)
  moreover have "job_holder g \<lparr>committed = d', open_tx = None\<rparr> = (job_holder g c)(jid := job_holder g \<lparr>committed = d', open_tx = None\<rparr> jid)"
    using other by (auto simp: fun_eq_iff)
  ultimately show ?thesis
    unfolding fst snd using own held gone
    by (cases "job_of (committed c) jid") (auto simp: fun_upd_idem split: if_splits)
qed

interpretation job_lease: fenced_lease "job_acquire g seconds" "end_job redact g oc" "job_holder g" job_expired jobs_ready
  for g seconds redact oc
proof (unfold_locales, goal_cases)
  case (1 s k t now)
  then show ?case using job_acquire_cases [OF 1] by blast
next
  case (2 s k t now)
  then show ?case using end_job_cases [OF 2] by blast
next
  case (3 s k u now t)
  then show ?case using job_acquire_cases [OF 3(1)] by simp
next
  case (4 s k t now)
  then show ?case using job_acquire_cases [OF 4(1)] by blast
next
  case (5 s k t now)
  then show ?case using job_acquire_cases [OF 5(1)] by blast
next
  case (6 s k t now)
  then show ?case using end_job_cases [OF 6(1)] by blast
next
  case (7 s k t now)
  then show ?case using end_job_cases [OF 7(1)] by blast
next
  case (8 s k t now)
  then show ?case using end_job_cases [OF 8(1)] by simp
qed


text \<open>
  C7. A job belongs to the caller that claimed it last: until its lease expires nobody else
  can claim it, and a caller whose token is not the current one can neither complete, fail
  nor defer it nor renew its lease, and changes nothing by trying.
\<close>

theorem job_lease_is_fenced:
  assumes "jobs_ready c" "claim_job g seconds jid tok now c = (Inr (Some tok), c')"
  shows "(\<not> job_expired c' jid now' \<longrightarrow> \<not> fst (job_acquire g seconds' jid tok' now' c')) \<and>
    (tok' \<noteq> tok \<longrightarrow> end_job redact g oc jid tok' now' c' = (False, c') \<and>
                      renew_lease g jid tok' seconds' now' c' = (False, c'))"
proof -
  have got: "job_acquire g seconds jid tok now c = (True, c')"
    using assms(2) by (simp add: job_acquire_def)
  have held: "job_holder g c' = (job_holder g c)(jid \<mapsto> tok)" and inv: "jobs_ready c'"
    using job_lease.acquire_taken [OF assms(1)] job_lease.invar_acquire [OF assms(1)] got
    by (metis fst_conv snd_conv)+
  have "\<not> fst (job_acquire g seconds' jid tok' now' c')" if "\<not> job_expired c' jid now'"
    using job_lease.acquire_held [OF inv _ that] held by simp
  moreover have "end_job redact g oc jid tok' now' c' = (False, c')" if "tok' \<noteq> tok"
    using job_lease.finish_fenced [OF inv] held that by simp
  moreover have "renew_lease g jid tok' seconds' now' c' = (False, c')" if "tok' \<noteq> tok"
  proof -
    have ok: "idle c'" "keyed j_id (pipeline_jobs (committed c'))" using inv by (simp_all add: jobs_ready_def)
    have no: "job_holder g c' jid \<noteq> Some tok'" using held that by simp
    have none: "\<not> owned jid g tok' r" if r: "r \<in> set (pipeline_jobs (committed c'))" for r
    proof
      assume o: "owned jid g tok' r"
      then have "job_of (committed c') jid = Some r"
        using row_by_in_keyed [OF ok(2) r] by (simp add: job_of_def owned_def)
      with o owned_holder [of c' jid g tok'] no show False by blast
    qed
    then have "count_where (owned jid g tok') (pipeline_jobs (committed c')) = 0"
      by (simp add: count_where_0_iff)
    moreover have "update_jobs (owned jid g tok') f (committed c') = committed c'" for f
      using none by (simp add: update_jobs_def update_where_none)
    ultimately show ?thesis
      using ok(1) idle_eq [OF ok(1)]
      by (simp add: renew_lease_def as_bool_def update_jobs_tx_def write_connect_def commit_eq)
  qed
  ultimately show ?thesis by blast
qed

text \<open>
  Completion and its checkpoint are one transaction: the holder's completion marks the
  job completed and leaves the checkpoint of that state, and a completion by anyone else
  writes neither.
\<close>

theorem completion_is_atomic:
  assumes "jobs_ready c" "tok \<noteq> ''''"
    and "complete_with_checkpoint redact g jid tok out thread parent hash st now c = (res, c')"
  shows "res = Inr (job_holder g c jid = Some tok) \<and>
    (if job_holder g c jid = Some tok
     then map_option j_status (job_of (committed c') jid) = Some JCompleted \<and>
          (''chk:'' @ thread @ '':completed:'' @ take 8 hash) \<in> k_id ` set (checkpoints (committed c'))
     else c' = c)"
proof -
  let ?f = "completed_job (safe_memory_text redact 100000 out) now"
  have res: "res = Inr (job_holder g c jid = Some tok)"
    and same: "job_holder g c jid \<noteq> Some tok \<Longrightarrow> c' = c"
    and upd: "job_holder g c jid = Some tok \<Longrightarrow>
       pipeline_jobs (committed c') = update_where (owned jid g tok) ?f (pipeline_jobs (committed c)) \<and>
       (''chk:'' @ thread @ '':completed:'' @ take 8 hash) \<in> k_id ` set (checkpoints (committed c'))"
    using complete_cases [OF assms(1,2), of redact g jid out thread parent hash st now] assms(3) by auto
  have "map_option j_status (job_of (committed c') jid) = Some JCompleted" if "job_holder g c jid = Some tok"
  proof -
    obtain r where r: "job_of (committed c) jid = Some r" "owned jid g tok r"
      using \<open>job_holder g c jid = Some tok\<close> owned_holder by blast
    have "job_of (committed c') jid = Some (?f r)"
      using upd [OF that] r by (simp add: job_of_def table_simps)
    then show ?thesis by (simp add: completed_job_def)
  qed
  with res same upd show ?thesis by auto
qed

section \<open>Attempts\<close>

definition job_ok :: "job_row \<Rightarrow> bool" where
  "job_ok r \<longleftrightarrow> 0 \<le> j_attempt r \<and> j_attempt r \<le> j_max r \<and>
     (j_status r = JRunning \<longleftrightarrow> j_token r \<noteq> None) \<and> (j_status r = JRunning \<longleftrightarrow> j_lease_until r \<noteq> None)"

definition pipeline_ok :: "pipeline_db \<Rightarrow> bool" where
  "pipeline_ok d \<longleftrightarrow> keyed j_id (pipeline_jobs d) \<and> keyed j_key (pipeline_jobs d) \<and>
     (\<forall>r \<in> set (pipeline_jobs d). job_ok r)"

datatype pipeline_op =
    PEnqueue string string string int
  | PReset string int
  | PCompletePending string string string int
  | PClaim int string string int
  | PEnd job_end string string int
  | PRenew string string int int
  | PCheckpoint string string "string option" string string int

fun pipeline_step ::
  "(string \<Rightarrow> string) \<Rightarrow> (string \<Rightarrow> string) \<Rightarrow> int \<Rightarrow> pipeline_op \<Rightarrow> pipeline_db conn \<Rightarrow> pipeline_db conn" where
  "pipeline_step digest redact g (PEnqueue jtype input version now) c = snd (enqueue_job digest g jtype input version now c)"
| "pipeline_step digest redact g (PReset jid now) c = snd (reset_completed g jid now c)"
| "pipeline_step digest redact g (PCompletePending jtype input out now) c =
     snd (complete_pending_by_input redact g jtype input out now c)"
| "pipeline_step digest redact g (PClaim seconds jid tok now) c = snd (claim_job g seconds jid tok now c)"
| "pipeline_step digest redact g (PEnd oc jid tok now) c = snd (end_job redact g oc jid tok now c)"
| "pipeline_step digest redact g (PRenew jid tok seconds now) c = snd (renew_lease g jid tok seconds now c)"
| "pipeline_step digest redact g (PCheckpoint thread step parent hash st now) c =
     snd (save_checkpoint g thread step parent hash st now c)"

lemma pipeline_ok_update:
  assumes "pipeline_ok d" "\<And>r. j_id (f r) = j_id r" "\<And>r. j_key (f r) = j_key r"
    "\<And>r. job_ok r \<Longrightarrow> P r \<Longrightarrow> job_ok (f r)"
  shows "pipeline_ok (update_jobs P f d)"
  using assms by (auto simp: pipeline_ok_def set_update_where intro: keyed_intros)

lemma pipeline_ok_checkpoints [simp]: "pipeline_ok (d\<lparr>checkpoints := ks\<rparr>) = pipeline_ok d"
  by (simp add: pipeline_ok_def)

lemma holds_update_tx:
  assumes "holds pipeline_ok c" "\<And>r. j_id (f r) = j_id r" "\<And>r. j_key (f r) = j_key r"
    "\<And>r. job_ok r \<Longrightarrow> P r \<Longrightarrow> job_ok (f r)"
  shows "holds pipeline_ok (snd (as_bool (update_jobs_tx P f c)))" "holds pipeline_ok (snd (update_jobs_tx P f c))"
proof -
  have "holds pipeline_ok (snd (update_jobs_tx P f c))"
    unfolding update_jobs_tx_def
    by (rule holds_write_connect) (auto intro!: holds_commit holds_dml pipeline_ok_update assms)
  then show "holds pipeline_ok (snd (as_bool (update_jobs_tx P f c)))" "holds pipeline_ok (snd (update_jobs_tx P f c))"
    by (auto simp: as_bool_def split: prod.splits sum.splits)
qed

lemma pipeline_ok_enqueue:
  assumes "holds pipeline_ok c" shows "holds pipeline_ok (snd (enqueue_job digest g jtype input version now c))"
proof -
  have ins: "pipeline_ok (d\<lparr>pipeline_jobs := pipeline_jobs d @ [r]\<rparr>)"
    if "pipeline_ok d" "job_ok r" "row_by j_key (j_key r) (pipeline_jobs d) = None"
      "row_by j_id (j_id r) (pipeline_jobs d) = None" for d r
    using that by (auto simp: pipeline_ok_def intro!: keyed_intros)
  show ?thesis
    unfolding enqueue_job_def
    by (rule holds_write_connect)
      (auto simp: Let_def job_ok_def split: prod.split intro!: holds_commit holds_dml ins assms)
qed

lemma pipeline_ok_claim:
  assumes "holds pipeline_ok c" shows "holds pipeline_ok (snd (claim_job g seconds jid tok now c))"
  unfolding claim_job_def Let_def
  by (rule holds_write_connect)
    (auto intro!: holds_commit holds_dml pipeline_ok_update assms
      simp: job_ok_def buried_job_def taken_job_def claimable_def)

lemma pipeline_ok_end:
  assumes "holds pipeline_ok c" shows "holds pipeline_ok (snd (end_job redact g oc jid tok now c))"
proof (cases oc)
  case (EndComplete out thread parent hash st)
  have "holds pipeline_ok (snd (complete_with_checkpoint redact g jid tok out thread parent hash st now c))"
    unfolding complete_with_checkpoint_def Let_def
    using assms by (auto intro!: holds_write_connect holds_intros pipeline_ok_update
        simp: job_ok_def completed_job_def)
  with EndComplete show ?thesis by (auto split: prod.splits sum.splits)
next
  case (EndFail err)
  have "holds pipeline_ok (snd (fail_job redact g jid tok err now c))"
    unfolding fail_job_def using assms
    by (auto intro!: holds_update_tx simp: job_ok_def failed_job_def)
  with EndFail show ?thesis by simp
next
  case EndDefer
  have "holds pipeline_ok (snd (defer_job g jid tok now c))"
    unfolding defer_job_def using assms
    by (auto intro!: holds_update_tx simp: job_ok_def deferred_job_def)
  with EndDefer show ?thesis by simp
qed

lemma pipeline_ok_step:
  assumes "holds pipeline_ok c" shows "holds pipeline_ok (pipeline_step digest redact g x c)"
proof (cases x)
  case (PReset jid now)
  with assms show ?thesis
    by (auto simp: reset_completed_def job_ok_def intro!: holds_update_tx)
next
  case (PCompletePending jtype input out now)
  with assms show ?thesis
    by (auto simp: complete_pending_by_input_def job_ok_def intro!: holds_update_tx)
next
  case (PRenew jid tok seconds now)
  with assms show ?thesis
    by (auto simp: renew_lease_def job_ok_def owned_def intro!: holds_update_tx)
next
  case (PCheckpoint thread step parent hash st now)
  with assms show ?thesis
    by (auto simp: save_checkpoint_def Let_def intro!: holds_write_connect holds_intros)
qed (use assms pipeline_ok_enqueue pipeline_ok_claim pipeline_ok_end in auto)

text \<open>
  C8. Every sequence of repository calls, by any workers, keeps one job per id and per
  idempotency key, never counts more attempts than the job allows, and gives a lease and a
  token exactly to the running jobs.
\<close>

theorem pipeline_invariant:
  "holds pipeline_ok c \<Longrightarrow> holds pipeline_ok (fold (pipeline_step digest redact g) xs c)"
  by (induction xs arbitrary: c) (simp_all add: pipeline_ok_step)


section \<open>Job identities\<close>

lemma split_at_separator:
  "xs @ c # ys = xs' @ c # ys' \<Longrightarrow> count_list xs c = count_list xs' c \<Longrightarrow> xs = xs' \<and> ys = ys'"
proof (induction xs arbitrary: xs')
  case Nil
  then show ?case by (cases xs') (auto split: if_splits)
next
  case (Cons x xs)
  show ?case
  proof (cases xs')
    case Nil
    with Cons.prems show ?thesis by (auto split: if_splits)
  next
    case (Cons x' xs'')
    with Cons.prems Cons.IH [of xs''] show ?thesis by (auto split: if_splits)
  qed
qed

lemma count_colon_int: "count_list (py_str_int i) (CHR '':'') = 0"
  unfolding count_list_0_iff using py_str_int_chars [of "CHR '':''" i] by auto

text \<open>
  The idempotency key of a job determines it, as long as job types contain no colon and
  the inputs compared contain equally many (as they do for one job type): equal keys mean
  the same type, group, input and version.
\<close>

theorem job_key_injective:
  assumes "job_key jtype g input version = job_key jtype' g' input' version'"
    and "CHR '':'' \<notin> set jtype" "CHR '':'' \<notin> set jtype'"
    and "count_list input (CHR '':'') = count_list input' (CHR '':'')"
  shows "jtype = jtype' \<and> g = g' \<and> input = input' \<and> version = version'"
proof -
  have "count_list jtype (CHR '':'') = count_list jtype' (CHR '':'')"
    using assms(2,3) by (simp add: count_list_0_iff)
  then have t: "jtype = jtype'" "py_str_int g @ CHR '':'' # input @ CHR '':'' # version =
      py_str_int g' @ CHR '':'' # input' @ CHR '':'' # version'"
    using split_at_separator [OF assms(1) [unfolded job_key_def]] by simp_all
  then have "py_str_int g = py_str_int g'" "input @ CHR '':'' # version = input' @ CHR '':'' # version'"
    using split_at_separator [OF t(2)] count_colon_int by simp_all
  with py_str_int_inj split_at_separator [OF this(2) assms(4)] t(1) show ?thesis by simp
qed

text \<open>
  In general keys are ambiguous: a colon may belong to the input or to the version, and the
  later of two jobs that only differ in where it stands is dropped as a duplicate.
\<close>

lemma job_key_ambiguous: "job_key t g ''a:b'' ''c'' = job_key t g ''a'' ''b:c''"
  by (simp add: job_key_def)

section \<open>Worked instances\<close>

definition demo_job :: job_row where
  "demo_job = \<lparr>j_id = ''j'', j_type = ''t'', j_group = 1, j_input = ''i'', j_version = ''1'',
     j_status = JPending, j_attempt = 0, j_max = 3, j_key = ''k'', j_lease_until = None, j_token = None,
     j_error = '''', j_output = ''{}'', j_created = 1, j_updated = 1, j_completed = None\<rparr>"

definition demo_pipeline :: "pipeline_db conn" where
  "demo_pipeline = \<lparr>committed = \<lparr>pipeline_jobs = [demo_job], checkpoints = []\<rparr>, open_tx = None\<rparr>"

definition demo_running :: "pipeline_db conn" where
  "demo_running = snd (claim_job 1 60 ''j'' ''x'' 10 demo_pipeline)"

lemma demo_pipeline_ready: "jobs_ready demo_pipeline" "holds pipeline_ok demo_pipeline"
  by (simp_all add: jobs_ready_def demo_pipeline_def idle_def keyed_def holds_def view_def
      pipeline_ok_def job_ok_def demo_job_def)

lemma demo_job_claimed: "claim_job 1 60 ''j'' ''x'' 10 demo_pipeline = (Inr (Some ''x''), demo_running)"
proof -
  have "fst (claim_job 1 60 ''j'' ''x'' 10 demo_pipeline) = Inr (Some ''x'')" by code_simp
  then show ?thesis by (simp add: demo_running_def prod_eq_iff)
qed

theorem job_lease_is_fenced_witness:
  "end_job (\<lambda>s. s) 1 (EndFail ''boom'') ''j'' ''y'' 20 demo_running = (False, demo_running)"
  using job_lease_is_fenced [OF demo_pipeline_ready(1) demo_job_claimed, where tok' = "''y''" and
      redact = "\<lambda>s. s" and now' = 20 and oc = "EndFail ''boom''"] by (simp del: end_job.simps)

theorem completion_is_atomic_witness:
  "map_option j_status (job_of (committed (snd (complete_with_checkpoint (\<lambda>s. s) 1 ''j'' ''x'' ''{}'' ''th''
     None ''0123456789'' ''{}'' 20 demo_running))) ''j'') = Some JCompleted"
proof -
  obtain res c' where e: "complete_with_checkpoint (\<lambda>s. s) 1 ''j'' ''x'' ''{}'' ''th'' None ''0123456789'' ''{}'' 20
      demo_running = (res, c')" by (metis surj_pair)
  have ready: "jobs_ready demo_running" and "job_holder 1 demo_running ''j'' = Some ''x''"
    by (code_simp, code_simp)
  with completion_is_atomic [OF ready _ e] e show ?thesis by simp
qed

theorem pipeline_invariant_witness:
  "holds pipeline_ok (fold (pipeline_step (\<lambda>s. s) (\<lambda>s. s) 1)
     [PClaim 60 ''j'' ''x'' 10, PEnd EndDefer ''j'' ''x'' 20] demo_pipeline)"
  by (rule pipeline_invariant [OF demo_pipeline_ready(2)])

theorem job_key_injective_witness:
  "job_key ''observe_turn'' 1 ''7:2'' ''1'' = job_key ''observe_turn'' 1 ''7:2'' ''1'' \<and> (7::int) = 7"
proof -
  have "''observe_turn'' = ''observe_turn'' \<and> (1::int) = 1 \<and> ''7:2'' = ''7:2'' \<and> ''1'' = ''1''"
    by (rule job_key_injective) simp_all
  then show ?thesis by simp
qed

end
