(* ===== verification/Outbox.thy ===== *)
theory Outbox
  imports Lease "HOL-Library.List_Lexorder" "HOL-Library.Char_ord"
begin

text \<open>
  The transactional outbox of memory projections, \<^verbatim>\<open>memory/infrastructure/projection_outbox.py\<close>,
  on its table of \<^verbatim>\<open>memory/infrastructure/schema.py\<close>. Intents are enqueued in the caller's
  transaction; a drain leases due events in one transaction, delivers each outside any
  transaction, and settles each in a transaction of its own. The delivery port is a
  parameter: what it does at the n-th delivery of a drain.
\<close>

section \<open>The table\<close>

datatype outbox_status = OPending | OProcessing | OCompleted

record outbox_row =
  o_id :: string
  o_type :: string
  o_aggregate :: string
  o_version :: string
  o_group :: int
  o_payload :: string
  o_status :: outbox_status
  o_attempt :: nat
  o_next :: int
  o_token :: "string option"
  o_lease :: "int option"
  o_error :: string
  o_created :: int
  o_updated :: int
  o_completed :: "int option"

type_synonym outbox = "outbox_row list conn"

definition LEASE_MS :: int where "LEASE_MS = 30000"
definition MAX_BACKOFF_MS :: int where "MAX_BACKOFF_MS = 60000"

record drain_result =
  dr_claimed :: nat
  dr_completed :: nat
  dr_failed :: nat

section \<open>Operations\<close>

definition renewed_intent :: "outbox_row \<Rightarrow> outbox_row \<Rightarrow> outbox_row" where
  "renewed_intent excluded r =
     r\<lparr>o_type := o_type excluded, o_aggregate := o_aggregate excluded, o_version := o_version excluded,
       o_group := o_group excluded, o_payload := o_payload excluded, o_status := OPending, o_attempt := 0,
       o_next := 0, o_token := None, o_lease := None, o_error := '''', o_updated := o_updated excluded,
       o_completed := None\<rparr>"

definition outbox_enqueue ::
  "string \<Rightarrow> string \<Rightarrow> string \<Rightarrow> string \<Rightarrow> int \<Rightarrow> string \<Rightarrow> int \<Rightarrow> outbox \<Rightarrow> outbox" where
  "outbox_enqueue eid ptype aggregate version g payload now =
     (let r = \<lparr>o_id = eid, o_type = ptype, o_aggregate = aggregate, o_version = version, o_group = g,
               o_payload = payload, o_status = OPending, o_attempt = 0, o_next = 0, o_token = None,
               o_lease = None, o_error = '''', o_created = now, o_updated = now, o_completed = None\<rparr>
      in dml (\<lambda>t. if row_by o_id eid t = None then t @ [r]
                  else update_where (\<lambda>x. o_id x = eid) (renewed_intent r) t))"

text \<open>An event may be taken when it waits or when the lease on it ran out.\<close>

definition available :: "int \<Rightarrow> outbox_row \<Rightarrow> bool" where
  "available now r \<longleftrightarrow> o_status r = OPending \<or>
     (o_status r = OProcessing \<and> (case o_lease r of None \<Rightarrow> False | Some u \<Rightarrow> u < now))"

definition due :: "int \<Rightarrow> string option \<Rightarrow> int \<Rightarrow> outbox_row \<Rightarrow> bool" where
  "due g only now r \<longleftrightarrow> o_group r = g \<and> available now r \<and> o_next r \<le> now \<and>
     (case only of None \<Rightarrow> True | Some e \<Rightarrow> o_id r = e)"

definition select_due :: "int \<Rightarrow> int \<Rightarrow> string option \<Rightarrow> int \<Rightarrow> outbox_row list \<Rightarrow> outbox_row list" where
  "select_due g limit only now t =
     take (nat (max 1 limit)) (sort_key o_updated (sort_key o_id (filter (due g only now) t)))"

definition leased_row :: "string \<Rightarrow> int \<Rightarrow> outbox_row \<Rightarrow> outbox_row" where
  "leased_row tok now r =
     r\<lparr>o_status := OProcessing, o_token := Some tok, o_lease := Some (now + LEASE_MS), o_updated := now\<rparr>"

definition takes :: "int \<Rightarrow> outbox_row \<Rightarrow> outbox_row \<Rightarrow> bool" where
  "takes now s r \<longleftrightarrow> o_id r = o_id s \<and> o_version r = o_version s \<and> available now r"

fun claim_rows ::
  "string \<Rightarrow> int \<Rightarrow> outbox_row list \<Rightarrow> outbox \<Rightarrow> outbox_row list \<times> outbox" where
  "claim_rows tok now [] c = ([], c)"
| "claim_rows tok now (s # ss) c =
     (let n = count_where (takes now s) (view c);
          c1 = dml (update_where (takes now s) (leased_row tok now)) c
      in case claim_rows tok now ss c1 of (rest, c2) \<Rightarrow> (if n = 1 then s # rest else rest, c2))"

definition drain_claim ::
  "int \<Rightarrow> int \<Rightarrow> string option \<Rightarrow> string \<Rightarrow> int \<Rightarrow> outbox \<Rightarrow> outbox_row list \<times> outbox" where
  "drain_claim g limit only tok now c =
     (case claim_rows tok now (select_due g limit only now (view c)) c of
        (claimed, c') \<Rightarrow> (claimed, commit c'))"

definition leased_by :: "string \<Rightarrow> string \<Rightarrow> string \<Rightarrow> outbox_row \<Rightarrow> bool" where
  "leased_by eid version tok r \<longleftrightarrow>
     o_id r = eid \<and> o_version r = version \<and> o_status r = OProcessing \<and> o_token r = Some tok"

definition settled_row :: "int \<Rightarrow> outbox_row \<Rightarrow> outbox_row" where
  "settled_row now r =
     r\<lparr>o_status := OCompleted, o_token := None, o_lease := None, o_error := '''', o_completed := Some now,
       o_updated := now\<rparr>"

definition mark_completed :: "string \<Rightarrow> string \<Rightarrow> string \<Rightarrow> int \<Rightarrow> outbox \<Rightarrow> nat \<times> outbox" where
  "mark_completed eid version tok now c =
     (count_where (leased_by eid version tok) (view c),
      commit (dml (update_where (leased_by eid version tok) (settled_row now)) c))"

definition backoff_ms :: "nat \<Rightarrow> int" where
  "backoff_ms attempt = min MAX_BACKOFF_MS (1000 * 2 ^ min attempt 6)"

definition retry_row :: "string \<Rightarrow> int \<Rightarrow> outbox_row \<Rightarrow> outbox_row" where
  "retry_row err now r =
     r\<lparr>o_status := OPending, o_attempt := o_attempt r + 1, o_next := now + backoff_ms (o_attempt r),
       o_token := None, o_lease := None, o_error := err, o_updated := now\<rparr>"

text \<open>
  The error kept with a failed event: without a sanitizer, or when the sanitizer itself
  raises (\<open>None\<close>), only the name of the exception's type.
\<close>

definition blanked :: "char \<Rightarrow> char" where
  "blanked ch = (if ch \<in> {CHR 0x0D, CHR 0x0A, CHR 0x09, CHR ''<'', CHR ''>''} then CHR '' '' else ch)"

definition safe_error :: "(string \<Rightarrow> string option) option \<Rightarrow> string \<Rightarrow> string \<Rightarrow> string" where
  "safe_error sanitizer tyname msg =
     (let text = take 500 (map blanked (tyname @ '': '' @ msg)) in
      case sanitizer of
        None \<Rightarrow> tyname
      | Some f \<Rightarrow> (case f text of None \<Rightarrow> tyname | Some s \<Rightarrow> take 500 s))"

definition mark_failed :: "string \<Rightarrow> string \<Rightarrow> string \<Rightarrow> string \<Rightarrow> int \<Rightarrow> outbox \<Rightarrow> nat \<times> outbox" where
  "mark_failed eid version tok err now c =
     (count_where (leased_by eid version tok) (view c),
      commit (dml (update_where (leased_by eid version tok) (retry_row err now)) c))"

datatype delivery = Delivered | Raised string string | Interrupted

text \<open>
  The delivery loop: \<open>dl n\<close> is the outcome of the n-th delivery (decoding the payload
  included), \<open>clock n\<close> the time read when it is settled. A cancellation leaves the rest leased.
\<close>

fun deliver_rows ::
  "(string \<Rightarrow> string option) option \<Rightarrow> (nat \<Rightarrow> string \<Rightarrow> string \<Rightarrow> delivery) \<Rightarrow> (nat \<Rightarrow> int) \<Rightarrow> string \<Rightarrow>
   nat \<Rightarrow> outbox_row list \<Rightarrow> nat \<Rightarrow> nat \<Rightarrow> outbox \<Rightarrow> (nat \<times> nat) res \<times> outbox" where
  "deliver_rows san dl clock tok n [] sent fail c = (Inr (sent, fail), c)"
| "deliver_rows san dl clock tok n (s # ss) sent fail c =
     (case dl n (o_type s) (o_payload s) of
        Delivered \<Rightarrow>
          (case mark_completed (o_id s) (o_version s) tok (clock n) c of
             (k, c') \<Rightarrow> deliver_rows san dl clock tok (Suc n) ss (sent + k) fail c')
      | Raised tyname msg \<Rightarrow>
          (case mark_failed (o_id s) (o_version s) tok (safe_error san tyname msg) (clock n) c of
             (k, c') \<Rightarrow> deliver_rows san dl clock tok (Suc n) ss sent (fail + 1) c')
      | Interrupted \<Rightarrow> (Inl Cancelled, c))"

definition outbox_drain ::
  "(string \<Rightarrow> string option) option \<Rightarrow> (nat \<Rightarrow> string \<Rightarrow> string \<Rightarrow> delivery) \<Rightarrow> (nat \<Rightarrow> int) \<Rightarrow> int \<Rightarrow> int \<Rightarrow>
   string option \<Rightarrow> string \<Rightarrow> int \<Rightarrow> outbox \<Rightarrow> drain_result res \<times> outbox" where
  "outbox_drain san dl clock g limit only tok now c =
     (case drain_claim g limit only tok now c of
        (claimed, c1) \<Rightarrow>
          (case deliver_rows san dl clock tok 0 claimed 0 0 c1 of
             (Inr (sent, fail), c2) \<Rightarrow>
               (Inr \<lparr>dr_claimed = length claimed, dr_completed = sent, dr_failed = fail\<rparr>, c2)
           | (Inl e, c2) \<Rightarrow> (Inl e, c2)))"

section \<open>The claim of a drain\<close>

lemma row_setters [simp]:
  "o_id (renewed_intent x r) = o_id r" "o_id (leased_row tok now r) = o_id r"
  "o_id (settled_row now r) = o_id r" "o_id (retry_row err now r) = o_id r"
  by (simp_all add: renewed_intent_def leased_row_def settled_row_def retry_row_def)

definition outbox_ready :: "outbox \<Rightarrow> bool" where
  "outbox_ready c \<longleftrightarrow> idle c \<and> keyed o_id (committed c)"

lemma update_where_compose_ids:
  assumes "\<And>r. o_id (f r) = o_id r" "x \<notin> A"
  shows "update_where (\<lambda>r. o_id r \<in> A) f (update_where (\<lambda>r. o_id r = x) f t) =
         update_where (\<lambda>r. o_id r \<in> insert x A) f t"
  using assms by (auto simp: update_where_def)

lemma takes_self:
  assumes "keyed o_id t" "s \<in> set t" "available now s"
  shows "count_where (takes now s) t = 1"
    "update_where (takes now s) f t = update_where (\<lambda>r. o_id r = o_id s) f t"
proof -
  have own: "row_by o_id (o_id s) t = Some s" by (rule row_by_in_keyed [OF assms(1,2)])
  have "count_where (takes now s) t =
      (case row_by o_id (o_id s) t of None \<Rightarrow> 0 | Some r \<Rightarrow> if takes now s r then 1 else 0)"
    by (rule count_where_keyed [OF assms(1)]) (simp add: takes_def)
  moreover have self: "takes now s s" using assms(3) by (simp add: takes_def)
  ultimately show "count_where (takes now s) t = 1" unfolding own by simp
  have "takes now s r \<longleftrightarrow> o_id r = o_id s" if "r \<in> set t" for r
  proof
    assume "o_id r = o_id s"
    then have "Some r = Some s" using row_by_in_keyed [OF assms(1) that] own by metis
    then show "takes now s r" using self by simp
  qed (simp add: takes_def)
  then show "update_where (takes now s) f t = update_where (\<lambda>r. o_id r = o_id s) f t"
    unfolding update_where_def by (intro map_cong refl) simp
qed

lemma claim_rows_all:
  assumes "keyed o_id (view c)" "distinct (map o_id ss)" "set ss \<subseteq> set (view c)" "\<And>s. s \<in> set ss \<Longrightarrow> available now s"
  shows "\<exists>c'. claim_rows tok now ss c = (ss, c') \<and> committed c' = committed c \<and>
    view c' = update_where (\<lambda>r. o_id r \<in> o_id ` set ss) (leased_row tok now) (view c)"
  using assms
proof (induction ss arbitrary: c)
  case Nil
  then show ?case by (simp add: update_where_def)
next
  case (Cons s ss)
  let ?c1 = "dml (update_where (takes now s) (leased_row tok now)) c"
  have self: "count_where (takes now s) (view c) = 1"
    "view ?c1 = update_where (\<lambda>r. o_id r = o_id s) (leased_row tok now) (view c)"
    using takes_self [of "view c" s now] Cons.prems by simp_all
  have "set ss \<subseteq> set (view ?c1)"
  proof
    fix x assume "x \<in> set ss"
    moreover from this have "o_id x \<noteq> o_id s" using Cons.prems(2) by (simp add: image_iff) metis
    ultimately show "x \<in> set (view ?c1)"
      using Cons.prems(3) unfolding self set_update_where by force
  qed
  moreover have "keyed o_id (view ?c1)" using Cons.prems(1) by (simp add: keyed_intros)
  ultimately obtain c' where "claim_rows tok now ss ?c1 = (ss, c')" "committed c' = committed ?c1"
      "view c' = update_where (\<lambda>r. o_id r \<in> o_id ` set ss) (leased_row tok now) (view ?c1)"
    using Cons.IH [of ?c1] Cons.prems(2,4) by auto
  moreover have "o_id s \<notin> o_id ` set ss" using Cons.prems(2) by simp
  ultimately show ?case
    using self update_where_compose_ids [of "leased_row tok now" "o_id s" "o_id ` set ss"] by simp
qed

lemma distinct_map_filter_keyed: "keyed key t \<Longrightarrow> distinct (map key (filter P t))"
  by (simp add: keyed_def distinct_map_filter)

lemma select_due_props:
  assumes "keyed o_id t"
  shows "distinct (map o_id (select_due g limit only now t))"
    "set (select_due g limit only now t) \<subseteq> {r \<in> set t. due g only now r}"
proof -
  let ?s = "sort_key o_updated (sort_key o_id (filter (due g only now) t))"
  have "distinct (map o_id ?s)"
    using distinct_map_filter_keyed [OF assms, of "due g only now"] by (simp add: distinct_map)
  then show "distinct (map o_id (select_due g limit only now t))"
    by (simp add: select_due_def take_map [symmetric])
  show "set (select_due g limit only now t) \<subseteq> {r \<in> set t. due g only now r}"
    using set_take_subset [of "nat (max 1 limit)" ?s] by (auto simp: select_due_def)
qed

text \<open>A drain leases exactly the events it selected.\<close>

lemma drain_claim_eq:
  assumes "outbox_ready c"
  shows "drain_claim g limit only tok now c =
    (select_due g limit only now (committed c),
     \<lparr>committed = update_where (\<lambda>r. o_id r \<in> o_id ` set (select_due g limit only now (committed c)))
        (leased_row tok now) (committed c), open_tx = None\<rparr>)"
proof -
  let ?s = "select_due g limit only now (committed c)"
  have c: "idle c" "keyed o_id (committed c)" "view c = committed c"
    using assms by (simp_all add: outbox_ready_def)
  obtain c' where "claim_rows tok now ?s c = (?s, c')"
      "view c' = update_where (\<lambda>r. o_id r \<in> o_id ` set ?s) (leased_row tok now) (committed c)"
    using claim_rows_all [of c ?s now tok] select_due_props [OF c(2), of g limit only now] c
    by (auto simp: due_def)
  then show ?thesis by (simp add: drain_claim_def c(3) commit_eq)
qed

section \<open>The lease contract\<close>

definition outbox_holder :: "outbox \<Rightarrow> string \<Rightarrow> string option" where
  "outbox_holder c e =
     (case row_by o_id e (committed c) of
        None \<Rightarrow> None | Some r \<Rightarrow> if o_status r = OProcessing then o_token r else None)"

definition outbox_expired :: "outbox \<Rightarrow> string \<Rightarrow> int \<Rightarrow> bool" where
  "outbox_expired c e now =
     (case row_by o_id e (committed c) of
        None \<Rightarrow> True | Some r \<Rightarrow> (case o_lease r of None \<Rightarrow> False | Some u \<Rightarrow> u < now))"

datatype settle = SettleCompleted | SettleFailed string

fun settle_event :: "settle \<Rightarrow> string \<Rightarrow> string \<Rightarrow> string \<Rightarrow> int \<Rightarrow> outbox \<Rightarrow> nat \<times> outbox" where
  "settle_event SettleCompleted version e tok now c = mark_completed e version tok now c"
| "settle_event (SettleFailed err) version e tok now c = mark_failed e version tok err now c"

definition outbox_acquire :: "int \<Rightarrow> string \<Rightarrow> string \<Rightarrow> int \<Rightarrow> outbox \<Rightarrow> bool \<times> outbox" where
  "outbox_acquire g e tok now c =
     (case drain_claim g 1 (Some e) tok now c of (claimed, c') \<Rightarrow> (claimed \<noteq> [], c'))"

definition outbox_finish :: "settle \<Rightarrow> string \<Rightarrow> string \<Rightarrow> string \<Rightarrow> int \<Rightarrow> outbox \<Rightarrow> bool \<times> outbox" where
  "outbox_finish how version e tok now c =
     (case settle_event how version e tok now c of (k, c') \<Rightarrow> (k = 1, c'))"

lemma outbox_ready_update:
  "outbox_ready c \<Longrightarrow> (\<And>r. o_id (f r) = o_id r) \<Longrightarrow>
   outbox_ready \<lparr>committed = update_where P f (committed c), open_tx = None\<rparr>"
  by (simp add: outbox_ready_def idle_def keyed_intros)

lemma outbox_ready_claim: "outbox_ready c \<Longrightarrow> outbox_ready (snd (drain_claim g limit only tok now c))"
  by (simp add: drain_claim_eq outbox_ready_update)

lemma selected_row:
  assumes "keyed o_id t" "r \<in> set (select_due g limit only now t)"
  shows "row_by o_id (o_id r) t = Some r" "due g only now r"
proof -
  have "r \<in> set t \<and> due g only now r" using select_due_props(2) [OF assms(1), of g limit only now] assms(2) by blast
  then show "row_by o_id (o_id r) t = Some r" "due g only now r"
    using row_by_in_keyed [OF assms(1)] by simp_all
qed

lemma selected_id_iff:
  assumes "keyed o_id t" "row_by o_id e t = Some r"
  shows "e \<in> o_id ` set (select_due g limit only now t) \<longleftrightarrow> r \<in> set (select_due g limit only now t)"
proof
  assume "e \<in> o_id ` set (select_due g limit only now t)"
  then obtain x where x: "x \<in> set (select_due g limit only now t)" "o_id x = e" by blast
  with selected_row(1) [OF assms(1) x(1)] assms(2) have "x = r" by (metis option.inject)
  with x(1) show "r \<in> set (select_due g limit only now t)" by (metis (no_types))
qed (use row_by_SomeD [OF assms(2)] in blast)

lemma holder_after_claim:
  assumes "outbox_ready c" "drain_claim g limit only tok now c = (claimed, c')"
  shows "outbox_holder c' e = (if e \<in> o_id ` set claimed then Some tok else outbox_holder c e)"
proof -
  have k: "keyed o_id (committed c)" using assms(1) by (simp add: outbox_ready_def)
  have cl: "claimed = select_due g limit only now (committed c)"
    and c': "c' = \<lparr>committed = update_where (\<lambda>r. o_id r \<in> o_id ` set claimed) (leased_row tok now) (committed c),
                   open_tx = None\<rparr>"
    using assms(2) drain_claim_eq [OF assms(1)] by auto
  show ?thesis
  proof (cases "row_by o_id e (committed c)")
    case None
    then have "e \<notin> o_id ` set claimed"
      using selected_row(1) [OF k, of _ g limit only now] cl by force
    with None show ?thesis by (simp add: outbox_holder_def c' table_simps)
  next
    case (Some r)
    then have "o_id r = e" by (auto dest: row_by_SomeD)
    with Some show ?thesis
      by (simp add: outbox_holder_def c' row_by_update_where) (simp add: leased_row_def)
  qed
qed

lemma acquire_cases:
  assumes "outbox_ready c" "outbox_acquire g e tok now c = (b, c')"
  shows "b \<longleftrightarrow> (\<exists>r. row_by o_id e (committed c) = Some r \<and> due g (Some e) now r)"
    "outbox_holder c' = (if b then (outbox_holder c)(e \<mapsto> tok) else outbox_holder c)"
    "outbox_ready c'"
proof -
  have k: "keyed o_id (committed c)" using assms(1) by (simp add: outbox_ready_def)
  obtain claimed where cl: "drain_claim g 1 (Some e) tok now c = (claimed, c')" "b \<longleftrightarrow> claimed \<noteq> []"
    using assms(2) by (auto simp: outbox_acquire_def split: prod.splits)
  have sel: "claimed = select_due g 1 (Some e) now (committed c)"
    using cl(1) drain_claim_eq [OF assms(1)] by auto
  have ids: "o_id r = e" if "r \<in> set claimed" for r
    using selected_row(2) [OF k, of r g 1 "Some e" now] that sel by (simp add: due_def)
  show b: "b \<longleftrightarrow> (\<exists>r. row_by o_id e (committed c) = Some r \<and> due g (Some e) now r)"
  proof
    assume b
    then obtain r where "r \<in> set claimed" using cl(2) by (cases claimed) auto
    with selected_row [OF k, of r g 1 "Some e" now] sel ids
    show "\<exists>r. row_by o_id e (committed c) = Some r \<and> due g (Some e) now r" by auto
  next
    assume "\<exists>r. row_by o_id e (committed c) = Some r \<and> due g (Some e) now r"
    then have "filter (due g (Some e) now) (committed c) \<noteq> []"
      by (auto simp: filter_empty_conv dest: row_by_SomeD)
    then have "length claimed \<noteq> 0" by (simp add: sel select_due_def)
    with cl(2) show b by simp
  qed
  have "outbox_holder c' x = (if b then (outbox_holder c)(e \<mapsto> tok) else outbox_holder c) x" for x
  proof (cases "claimed = []")
    case True
    then show ?thesis using holder_after_claim [OF assms(1) cl(1), of x] cl(2) by simp
  next
    case False
    then have "o_id ` set claimed = {e}" using ids by (cases claimed) auto
    then show ?thesis using holder_after_claim [OF assms(1) cl(1), of x] cl(2) False by simp
  qed
  then show "outbox_holder c' = (if b then (outbox_holder c)(e \<mapsto> tok) else outbox_holder c)" by blast
  show "outbox_ready c'" using outbox_ready_claim [OF assms(1)] cl(1) by (metis snd_conv)
qed

lemma settle_event_eq:
  "settle_event how version e tok now c =
     (count_where (leased_by e version tok) (view c),
      commit (dml (update_where (leased_by e version tok)
        (case how of SettleCompleted \<Rightarrow> settled_row now | SettleFailed err \<Rightarrow> retry_row err now)) c))"
  by (cases how) (simp_all add: mark_completed_def mark_failed_def)

lemma settle_cases:
  assumes "outbox_ready c" "settle_event how version e tok now c = (n, c')"
  shows "n = (if \<exists>r. row_by o_id e (committed c) = Some r \<and> leased_by e version tok r then 1 else 0)"
    "n = 0 \<Longrightarrow> c' = c"
    "n = 1 \<Longrightarrow> outbox_holder c e = Some tok \<and> outbox_holder c' = (outbox_holder c)(e := None)"
    "outbox_ready c'"
proof -
  let ?f = "case how of SettleCompleted \<Rightarrow> settled_row now | SettleFailed err \<Rightarrow> retry_row err now"
  let ?L = "leased_by e version tok"
  have c: "idle c" "keyed o_id (committed c)" using assms(1) by (simp_all add: outbox_ready_def)
  have n: "n = count_where ?L (committed c)"
    and c': "c' = \<lparr>committed = update_where ?L ?f (committed c), open_tx = None\<rparr>"
    using assms(2) c(1) by (auto simp: settle_event_eq commit_eq)
  have f: "o_id (?f r) = o_id r" "o_status (?f r) \<noteq> OProcessing" for r
    by (cases how; simp add: settled_row_def retry_row_def)+
  have "count_where ?L (committed c) =
      (case row_by o_id e (committed c) of None \<Rightarrow> 0 | Some r \<Rightarrow> if ?L r then 1 else 0)"
    by (rule count_where_keyed [OF c(2)]) (simp add: leased_by_def)
  then show n1: "n = (if \<exists>r. row_by o_id e (committed c) = Some r \<and> ?L r then 1 else 0)"
    unfolding n by (simp split: option.split)
  show "outbox_ready c'" unfolding c' by (rule outbox_ready_update [OF assms(1) f(1)])
  show "c' = c" if "n = 0"
  proof -
    have "\<forall>r \<in> set (committed c). \<not> ?L r" using that n by (simp add: count_where_0_iff)
    then show ?thesis using c' idle_eq [OF c(1)] by (simp add: update_where_none)
  qed
  show "outbox_holder c e = Some tok \<and> outbox_holder c' = (outbox_holder c)(e := None)" if one: "n = 1"
  proof -
    obtain r where r: "row_by o_id e (committed c) = Some r" "?L r"
      using n1 one by (metis zero_neq_one)
    have "outbox_holder c' x = ((outbox_holder c)(e := None)) x" for x
    proof (cases "x = e")
      case True
      with r f show ?thesis by (simp add: outbox_holder_def c' row_by_update_where)
    next
      case False
      then have "\<not> ?L y" if "row_by o_id x (committed c) = Some y" for y
        using row_by_SomeD [OF that] by (simp add: leased_by_def)
      with False f(1) show ?thesis
        by (cases "row_by o_id x (committed c)") (simp_all add: outbox_holder_def c' row_by_update_where)
    qed
    with r show ?thesis by (auto simp: outbox_holder_def leased_by_def)
  qed
qed

interpretation outbox_lease: fenced_lease "outbox_acquire g" "outbox_finish how version" outbox_holder
    outbox_expired outbox_ready
  for g how version
proof (unfold_locales, goal_cases)
  case (1 s k t now)
  then show ?case using acquire_cases(3) [OF 1] by (metis surj_pair snd_conv)
next
  case (2 s k t now)
  obtain n c' where e: "settle_event how version k t now s = (n, c')" by (metis surj_pair)
  with settle_cases(4) [OF 2 e] show ?case by (simp add: outbox_finish_def)
next
  case (3 s k u now t)
  obtain b c' where e: "outbox_acquire g k t now s = (b, c')" by (metis surj_pair)
  have "\<not> due g (Some k) now r" if "row_by o_id k (committed s) = Some r" for r
    using 3(2,3) that
    by (cases "o_lease r") (simp_all add: outbox_holder_def outbox_expired_def due_def available_def split: if_splits)
  then have "\<not> b" using acquire_cases(1) [OF 3(1) e] by blast
  with acquire_cases(2) [OF 3(1) e] e show ?case by simp
next
  case (4 s k t now)
  obtain b c' where e: "outbox_acquire g k t now s = (b, c')" by (metis surj_pair)
  with acquire_cases(2) [OF 4(1) e] 4(2) show ?case by simp
next
  case (5 s k t now)
  obtain b c' where e: "outbox_acquire g k t now s = (b, c')" by (metis surj_pair)
  with acquire_cases(2) [OF 5(1) e] 5(2) show ?case by simp
next
  case (6 s k t now)
  obtain n c' where e: "settle_event how version k t now s = (n, c')" by (metis surj_pair)
  have "n \<noteq> 1" using settle_cases(3) [OF 6(1) e] 6(2) by auto
  then have "n = 0" using settle_cases(1) [OF 6(1) e] by (auto split: if_splits)
  with settle_cases(2) [OF 6(1) e] e show ?case by (simp add: outbox_finish_def)
next
  case (7 s k t now)
  obtain n c' where e: "settle_event how version k t now s = (n, c')" by (metis surj_pair)
  with settle_cases(3) [OF 7(1) e] 7(2) show ?case by (simp add: outbox_finish_def)
next
  case (8 s k t now)
  obtain n c' where e: "settle_event how version k t now s = (n, c')" by (metis surj_pair)
  then have "n = 0" using settle_cases(1) [OF 8(1) e] 8(2) by (auto simp: outbox_finish_def split: if_splits)
  with settle_cases(2) [OF 8(1) e] e show ?case by (simp add: outbox_finish_def)
qed

section \<open>Correctness\<close>

text \<open>
  C9. A leased event belongs to one drain: while its lease runs no drain of any worker
  claims it, whatever its group, limit and filter, and a settlement with another token
  changes nothing.
\<close>

theorem outbox_lease_is_fenced:
  assumes "outbox_ready c" "drain_claim g limit only tok now c = (claimed, c')" "r \<in> set claimed"
  shows "(now' \<le> now + LEASE_MS \<longrightarrow>
            o_id r \<notin> o_id ` set (fst (drain_claim g' limit' only' tok' now' c'))) \<and>
    (tok' \<noteq> tok \<longrightarrow> settle_event how version (o_id r) tok' now' c' = (0, c'))"
proof -
  have ready: "outbox_ready c'" using outbox_ready_claim [OF assms(1)] assms(2) by (metis snd_conv)
  then have k: "keyed o_id (committed c')" by (simp add: outbox_ready_def)
  have held: "outbox_holder c' (o_id r) = Some tok"
    using holder_after_claim [OF assms(1,2)] assms(3) by simp
  have sel: "claimed = select_due g limit only now (committed c)" "keyed o_id (committed c)"
    using assms(1,2) drain_claim_eq [OF assms(1)] by (auto simp: outbox_ready_def)
  have "row_by o_id (o_id r) (committed c) = Some r"
    using selected_row [OF sel(2)] assms(3) sel(1) by blast
  then have row: "row_by o_id (o_id r) (committed c') = Some (leased_row tok now r)"
    using assms(2,3) drain_claim_eq [OF assms(1)] sel(1) by (auto simp: row_by_update_where)
  have "o_id r \<notin> o_id ` set (fst (drain_claim g' limit' only' tok' now' c'))" if "now' \<le> now + LEASE_MS"
  proof
    assume "o_id r \<in> o_id ` set (fst (drain_claim g' limit' only' tok' now' c'))"
    then have "leased_row tok now r \<in> set (select_due g' limit' only' now' (committed c'))"
      using selected_id_iff [OF k row] by (simp add: drain_claim_eq [OF ready])
    then have "due g' only' now' (leased_row tok now r)" by (rule selected_row(2) [OF k])
    with that show False by (simp add: due_def available_def leased_row_def)
  qed
  moreover have "settle_event how version (o_id r) tok' now' c' = (0, c')" if "tok' \<noteq> tok"
  proof -
    obtain n c'' where e: "settle_event how version (o_id r) tok' now' c' = (n, c'')" by (metis surj_pair)
    have "n \<noteq> 1" using settle_cases(3) [OF ready e] held that by auto
    then have "n = 0" using settle_cases(1) [OF ready e] by (auto split: if_splits)
    with settle_cases(2) [OF ready e] e show ?thesis by simp
  qed
  ultimately show ?thesis by blast
qed

text \<open>
  Enqueuing an event again while it is being delivered loses neither version: the
  delivery under way cannot settle it any more, with any token and version, and the new
  payload waits and is taken by the next drain.
\<close>

theorem reenqueue_voids_delivery:
  assumes "outbox_ready c" "c' = commit (outbox_enqueue e ptype aggregate version g payload now c)"
  shows "settle_event how version' e tok now' c' = (0, c') \<and>
    (\<exists>r. row_by o_id e (committed c') = Some r \<and> o_status r = OPending \<and> o_payload r = payload \<and>
         o_version r = version) \<and>
    (0 \<le> now' \<longrightarrow> fst (outbox_acquire g e tok now' c'))"
proof -
  have c: "idle c" "keyed o_id (committed c)" using assms(1) by (simp_all add: outbox_ready_def)
  obtain r where r: "row_by o_id e (committed c') = Some r" "o_status r = OPending" "o_payload r = payload"
      "o_version r = version" "o_next r = 0" "o_group r = g" "o_id r = e"
    and k: "keyed o_id (committed c')"
  proof (cases "row_by o_id e (committed c)")
    case None
    then show ?thesis
      using that assms(2) c
      by (simp add: outbox_enqueue_def Let_def commit_eq row_by_append keyed_insert)
  next
    case (Some r0)
    then have "o_id r0 = e" by (auto dest: row_by_SomeD)
    then show ?thesis
      using that assms(2) c Some
      by (simp add: outbox_enqueue_def Let_def commit_eq row_by_update_where keyed_update_where renewed_intent_def)
  qed
  have ready: "outbox_ready c'" using k assms(2) by (simp add: outbox_ready_def)
  obtain n c'' where s: "settle_event how version' e tok now' c' = (n, c'')" by (metis surj_pair)
  have "n = 0" using settle_cases(1) [OF ready s] r(1,2) by (simp add: leased_by_def)
  moreover from this have "c'' = c'" using settle_cases(2) [OF ready s] by simp
  moreover have "fst (outbox_acquire g e tok now' c')" if "0 \<le> now'"
  proof -
    obtain b c3 where a: "outbox_acquire g e tok now' c' = (b, c3)" by (metis surj_pair)
    have "due g (Some e) now' r" using r that by (simp add: due_def available_def)
    with acquire_cases(1) [OF ready a] r(1) a show ?thesis by auto
  qed
  ultimately show ?thesis using s r by auto
qed

text \<open>
  A failed delivery returns its event to the queue: it waits for at least one second
  and at most a minute, and from then on, and only from then on, a drain takes it again.
\<close>

theorem failed_event_is_retried:
  assumes "outbox_ready c" "row_by o_id e (committed c) = Some r" "leased_by e version tok r"
    and "mark_failed e version tok err now c = (n, c')"
  shows "\<exists>r'. row_by o_id e (committed c') = Some r' \<and> o_status r' = OPending \<and> o_error r' = err \<and>
    o_attempt r' = o_attempt r + 1 \<and> now + 1000 \<le> o_next r' \<and> o_next r' \<le> now + MAX_BACKOFF_MS \<and>
    (fst (outbox_acquire (o_group r) e tok' now' c') \<longleftrightarrow> o_next r' \<le> now')"
proof -
  have c: "idle c" using assms(1) by (simp add: outbox_ready_def)
  have s: "settle_event (SettleFailed err) version e tok now c = (n, c')" using assms(4) by simp
  have ready: "outbox_ready c'" by (rule settle_cases(4) [OF assms(1) s])
  have row: "row_by o_id e (committed c') = Some (retry_row err now r)"
    using assms(2,3,4) c by (auto simp: mark_failed_def row_by_update_where)
  have id: "o_id r = e" using assms(3) by (simp add: leased_by_def)
  have pow: "(1::int) \<le> 2 ^ k" for k :: nat by simp
  have bound: "1000 \<le> backoff_ms k \<and> backoff_ms k \<le> MAX_BACKOFF_MS" for k
    using pow [of "min k 6"] by (simp add: backoff_ms_def MAX_BACKOFF_MS_def)
  obtain b c3 where a: "outbox_acquire (o_group r) e tok' now' c' = (b, c3)" by (metis surj_pair)
  have "b \<longleftrightarrow> now + backoff_ms (o_attempt r) \<le> now'"
    using acquire_cases(1) [OF ready a] row id by (simp add: due_def available_def retry_row_def)
  with row a bound [of "o_attempt r"] show ?thesis by (simp add: retry_row_def)
qed

subsection \<open>The invariant of the table\<close>

definition outbox_row_ok :: "outbox_row \<Rightarrow> bool" where
  "outbox_row_ok r \<longleftrightarrow>
     (o_status r = OProcessing \<longleftrightarrow> o_token r \<noteq> None) \<and> (o_token r \<noteq> None \<longleftrightarrow> o_lease r \<noteq> None) \<and>
     (o_status r = OCompleted \<longleftrightarrow> o_completed r \<noteq> None) \<and>
     (o_status r \<noteq> OCompleted \<longrightarrow> o_next r \<le> o_updated r + MAX_BACKOFF_MS) \<and>
     (case o_lease r of None \<Rightarrow> True | Some u \<Rightarrow> u \<le> o_updated r + LEASE_MS)"

definition outbox_ok :: "outbox_row list \<Rightarrow> bool" where
  "outbox_ok t \<longleftrightarrow> keyed o_id t \<and> (\<forall>r \<in> set t. outbox_row_ok r)"

datatype outbox_op =
    OEnqueue string string string string int string int
  | ORollback
  | OCommit
  | OClaim int int "string option" string int
  | OSettle settle string string string int
  | ODrain "(string \<Rightarrow> string option) option" "nat \<Rightarrow> string \<Rightarrow> string \<Rightarrow> delivery" "nat \<Rightarrow> int"
      int int "string option" string int

fun outbox_step :: "outbox_op \<Rightarrow> outbox \<Rightarrow> outbox" where
  "outbox_step (OEnqueue eid ptype aggregate version g payload now) c =
     outbox_enqueue eid ptype aggregate version g payload now c"
| "outbox_step ORollback c = rollback c"
| "outbox_step OCommit c = commit c"
| "outbox_step (OClaim g limit only tok now) c = snd (drain_claim g limit only tok now c)"
| "outbox_step (OSettle how version e tok now) c = snd (settle_event how version e tok now c)"
| "outbox_step (ODrain san dl clock g limit only tok now) c =
     snd (outbox_drain san dl clock g limit only tok now c)"

fun enqueued_after_epoch :: "outbox_op \<Rightarrow> bool" where
  "enqueued_after_epoch (OEnqueue eid ptype aggregate version g payload now) \<longleftrightarrow> 0 \<le> now"
| "enqueued_after_epoch _ \<longleftrightarrow> True"

lemma outbox_ok_update:
  assumes "outbox_ok t" "\<And>r. o_id (f r) = o_id r" "\<And>r. r \<in> set t \<Longrightarrow> outbox_row_ok r \<Longrightarrow> P r \<Longrightarrow> outbox_row_ok (f r)"
  shows "outbox_ok (update_where P f t)"
  using assms by (auto simp: outbox_ok_def set_update_where intro: keyed_intros)

lemma outbox_ok_enqueue:
  assumes "holds outbox_ok c" "0 \<le> now"
  shows "holds outbox_ok (outbox_enqueue eid ptype aggregate version g payload now c)"
  unfolding outbox_enqueue_def Let_def
proof (rule holds_dml [OF assms(1)])
  let ?r = "\<lparr>o_id = eid, o_type = ptype, o_aggregate = aggregate, o_version = version, o_group = g,
             o_payload = payload, o_status = OPending, o_attempt = 0, o_next = 0, o_token = None,
             o_lease = None, o_error = '''', o_created = now, o_updated = now, o_completed = None\<rparr>"
  assume ok: "outbox_ok (view c)"
  have "outbox_row_ok ?r" "outbox_row_ok (renewed_intent ?r x)" for x
    using assms(2) by (simp_all add: outbox_row_ok_def renewed_intent_def MAX_BACKOFF_MS_def)
  then show "outbox_ok (if row_by o_id eid (view c) = None then view c @ [?r]
      else update_where (\<lambda>x. o_id x = eid) (renewed_intent ?r) (view c))"
    using ok outbox_ok_update [OF ok, of "renewed_intent ?r"] by (simp add: outbox_ok_def keyed_insert)
qed

lemma outbox_ok_settle:
  assumes "holds outbox_ok c" shows "holds outbox_ok (snd (settle_event how version e tok now c))"
proof -
  have "0 \<le> MAX_BACKOFF_MS" "backoff_ms k \<le> MAX_BACKOFF_MS" for k
    by (simp_all add: backoff_ms_def MAX_BACKOFF_MS_def)
  note bounds = this
  show ?thesis
  proof (cases how)
    case SettleCompleted
    show ?thesis
      unfolding SettleCompleted settle_event.simps mark_completed_def snd_conv
      by (intro holds_commit holds_dml assms outbox_ok_update)
        (auto simp: outbox_row_ok_def settled_row_def)
  next
    case (SettleFailed err)
    show ?thesis
      unfolding SettleFailed settle_event.simps mark_failed_def snd_conv
      by (intro holds_commit holds_dml assms outbox_ok_update)
        (use bounds in \<open>auto simp: outbox_row_ok_def retry_row_def leased_by_def\<close>)
  qed
qed

lemma outbox_ok_claim_rows:
  assumes "holds outbox_ok c"
    "\<And>s r. s \<in> set ss \<Longrightarrow> r \<in> set (view c) \<Longrightarrow> o_id r = o_id s \<Longrightarrow> o_next r \<le> now"
  shows "holds outbox_ok (snd (claim_rows tok now ss c))"
  using assms
proof (induction ss arbitrary: c)
  case (Cons s ss)
  let ?c1 = "dml (update_where (takes now s) (leased_row tok now)) c"
  have next_kept: "o_next (leased_row tok now r) = o_next r" for r by (simp add: leased_row_def)
  have row: "outbox_row_ok (leased_row tok now r)" if "r \<in> set (view c)" "outbox_row_ok r" "takes now s r" for r
    using Cons.prems(2) [of s r] that
    by (auto simp: outbox_row_ok_def leased_row_def takes_def available_def MAX_BACKOFF_MS_def)
  have "holds outbox_ok ?c1"
    by (intro holds_dml Cons.prems(1) outbox_ok_update) (simp_all add: row)
  moreover have "o_next r \<le> now" if x: "x \<in> set ss" and r: "r \<in> set (view ?c1)" and same: "o_id r = o_id x" for x r
  proof -
    obtain y where y: "y \<in> set (view c)" "r = (if takes now s y then leased_row tok now y else y)"
      using r update_where_mem [of r "takes now s" "leased_row tok now" "view c"] by auto
    then have "o_id y = o_id r" "o_next y = o_next r" by (simp_all add: next_kept)
    with Cons.prems(2) [of x y] x same y(1) show ?thesis by simp
  qed
  ultimately have "holds outbox_ok (snd (claim_rows tok now ss ?c1))" by (rule Cons.IH)
  then show ?case by (cases "claim_rows tok now ss ?c1") simp
qed simp

lemma outbox_ok_claim:
  assumes "holds outbox_ok c" shows "holds outbox_ok (snd (drain_claim g limit only tok now c))"
proof -
  let ?s = "select_due g limit only now (view c)"
  have k: "keyed o_id (view c)" using assms by (simp add: holds_def outbox_ok_def)
  have "o_next r \<le> now" if "s \<in> set ?s" "r \<in> set (view c)" "o_id r = o_id s" for s r
  proof -
    have "s = r" using selected_row(1) [OF k that(1)] row_by_in_keyed [OF k that(2)] that(3)
      by (metis option.inject)
    with selected_row(2) [OF k that(1)] show ?thesis by (simp add: due_def)
  qed
  then have "holds outbox_ok (snd (claim_rows tok now ?s c))"
    by (rule outbox_ok_claim_rows [OF assms])
  then show ?thesis by (cases "claim_rows tok now ?s c") (simp add: drain_claim_def holds_commit)
qed

lemma outbox_ok_deliver:
  "holds outbox_ok c \<Longrightarrow> holds outbox_ok (snd (deliver_rows san dl clock tok n ss sent fail c))"
proof (induction ss arbitrary: n sent fail c)
  case (Cons s ss)
  show ?case
    using outbox_ok_settle [OF Cons.prems, of SettleCompleted] outbox_ok_settle [OF Cons.prems, of "SettleFailed err" for err]
      Cons.IH Cons.prems
    by (cases "dl n (o_type s) (o_payload s)") (simp_all split: prod.split, (metis snd_conv)+)
qed simp

text \<open>
  Every sequence of enqueues, commits, rollbacks, claims, settlements and whole drains,
  by any workers and with any outcome of the deliveries, keeps one row per event, a token
  and a lease exactly on the events under delivery, leases of at most thirty seconds and
  waiting times of at most a minute.
\<close>

theorem outbox_invariant:
  assumes "holds outbox_ok c" "\<forall>x \<in> set xs. enqueued_after_epoch x"
  shows "holds outbox_ok (fold outbox_step xs c)"
  using assms
proof (induction xs arbitrary: c)
  case (Cons x xs)
  have "holds outbox_ok (outbox_step x c)"
  proof (cases x)
    case (ODrain san dl clock g limit only tok now)
    obtain claimed c1 where 1: "drain_claim g limit only tok now c = (claimed, c1)" by (metis surj_pair)
    have "holds outbox_ok c1" using outbox_ok_claim [OF Cons.prems(1)] 1 by (metis snd_conv)
    from outbox_ok_deliver [OF this, of san dl clock tok 0 claimed 0 0] ODrain 1 show ?thesis
      by (cases "deliver_rows san dl clock tok 0 claimed 0 0 c1")
        (auto simp: outbox_drain_def split: sum.split)
  qed (use Cons.prems in \<open>simp_all add: outbox_ok_enqueue outbox_ok_claim outbox_ok_settle holds_commit holds_rollback\<close>)
  with Cons show ?case by simp
qed simp

text \<open>
  An event that a crashed drain left behind is taken again: a minute after its last change
  every unfinished event is due.
\<close>

lemma unfinished_is_retaken:
  assumes "outbox_ok t" "r \<in> set t" "o_status r \<noteq> OCompleted" "o_updated r + MAX_BACKOFF_MS < now"
  shows "due (o_group r) None now r"
  using assms
  by (cases "o_status r"; cases "o_lease r")
    (auto simp: outbox_ok_def outbox_row_ok_def due_def available_def MAX_BACKOFF_MS_def LEASE_MS_def)

subsection \<open>A drain whose deliveries succeed\<close>

lemma deliver_all_delivered:
  assumes "outbox_ready c" "distinct (map o_id ss)" "\<forall>n ty p. dl n ty p = Delivered"
    "\<And>s. s \<in> set ss \<Longrightarrow> \<exists>r. row_by o_id (o_id s) (committed c) = Some r \<and> leased_by (o_id s) (o_version s) tok r"
  shows "\<exists>c'. deliver_rows san dl clock tok n ss sent fail c = (Inr (sent + length ss, fail), c') \<and> idle c' \<and>
    (\<forall>e. if e \<in> o_id ` set ss then map_option o_status (row_by o_id e (committed c')) = Some OCompleted
         else row_by o_id e (committed c') = row_by o_id e (committed c))"
  using assms
proof (induction ss arbitrary: n sent c)
  case (Cons s ss)
  let ?L = "leased_by (o_id s) (o_version s) tok"
  obtain k c1 where m: "settle_event SettleCompleted (o_version s) (o_id s) tok (clock n) c = (k, c1)"
    by (metis surj_pair)
  obtain r where r: "row_by o_id (o_id s) (committed c) = Some r" "?L r" using Cons.prems(4) [of s] by auto
  have k: "k = 1" using settle_cases(1) [OF Cons.prems(1) m] r by simp
  have ready: "outbox_ready c1" by (rule settle_cases(4) [OF Cons.prems(1) m])
  have c1: "committed c1 = update_where ?L (settled_row (clock n)) (committed c)"
    using m Cons.prems(1) by (auto simp: mark_completed_def outbox_ready_def)
  have other: "row_by o_id e (committed c1) = row_by o_id e (committed c)" if "e \<noteq> o_id s" for e
  proof (cases "row_by o_id e (committed c)")
    case (Some y)
    with that have "\<not> ?L y" using row_by_SomeD [OF Some] by (simp add: leased_by_def)
    with Some show ?thesis by (simp add: c1 row_by_update_where)
  qed (simp add: c1 row_by_update_where)
  have ne: "o_id x \<noteq> o_id s" if "x \<in> set ss" for x using Cons.prems(2) that by (simp add: image_iff) metis
  obtain c' where c': "deliver_rows san dl clock tok (Suc n) ss (sent + 1) fail c1 =
        (Inr (sent + 1 + length ss, fail), c')" "idle c'"
      "\<forall>e. if e \<in> o_id ` set ss then map_option o_status (row_by o_id e (committed c')) = Some OCompleted
         else row_by o_id e (committed c') = row_by o_id e (committed c1)"
    using Cons.IH [OF ready _ Cons.prems(3), of "Suc n" "sent + 1"] Cons.prems(2,4) other ne by auto
  have "row_by o_id (o_id s) (committed c1) = Some (settled_row (clock n) r)"
    using r by (simp add: c1 row_by_update_where)
  moreover have "o_id s \<notin> o_id ` set ss" using Cons.prems(2) by simp
  ultimately have "map_option o_status (row_by o_id (o_id s) (committed c')) = Some OCompleted"
    using c'(3) by (simp add: settled_row_def)
  moreover have "deliver_rows san dl clock tok n (s # ss) sent fail c = (Inr (sent + length (s # ss), fail), c')"
    using Cons.prems(3) m k c'(1) by simp
  moreover have "if e \<in> o_id ` set (s # ss) then map_option o_status (row_by o_id e (committed c')) = Some OCompleted
       else row_by o_id e (committed c') = row_by o_id e (committed c)" for e
    using c'(3) [rule_format, of e] calculation(1) other [of e]
    by (cases "e = o_id s"; cases "e \<in> o_id ` set ss") simp_all
  ultimately show ?case using c'(2) by blast
qed (simp add: outbox_ready_def)

text \<open>
  When every delivery succeeds, a drain completes exactly the events it selected, the
  oldest due ones of the group up to the limit, reports their number, and leaves every other
  event as it was.
\<close>

theorem drain_completes_due:
  assumes "outbox_ready c" "\<forall>n ty p. dl n ty p = Delivered"
    "due_rows = select_due g limit only now (committed c)"
  shows "\<exists>c'. outbox_drain san dl clock g limit only tok now c =
      (Inr \<lparr>dr_claimed = length due_rows, dr_completed = length due_rows, dr_failed = 0\<rparr>, c') \<and> idle c' \<and>
    (\<forall>e. if e \<in> o_id ` set due_rows
         then map_option o_status (row_by o_id e (committed c')) = Some OCompleted
         else row_by o_id e (committed c') = row_by o_id e (committed c))"
proof -
  have k: "keyed o_id (committed c)" using assms(1) by (simp add: outbox_ready_def)
  obtain c1 where claim: "drain_claim g limit only tok now c = (due_rows, c1)"
    and c1: "committed c1 = update_where (\<lambda>r. o_id r \<in> o_id ` set due_rows) (leased_row tok now) (committed c)"
    using drain_claim_eq [OF assms(1)] assms(3) by simp
  have ready: "outbox_ready c1" using outbox_ready_claim [OF assms(1)] claim by (metis snd_conv)
  have leased: "\<exists>r. row_by o_id (o_id s) (committed c1) = Some r \<and> leased_by (o_id s) (o_version s) tok r"
    if "s \<in> set due_rows" for s
    using selected_row(1) [OF k, of s g limit only now] that assms(3)
    by (simp add: c1 row_by_update_where) (simp add: leased_by_def leased_row_def)
  have "distinct (map o_id due_rows)" using select_due_props(1) [OF k] assms(3) by simp
  from deliver_all_delivered [OF ready this assms(2) leased, where n = 0 and sent = 0 and fail = 0 and san = san and clock = clock]
  obtain c' where c': "deliver_rows san dl clock tok 0 due_rows 0 0 c1 = (Inr (length due_rows, 0), c')" "idle c'"
      "\<forall>e. if e \<in> o_id ` set due_rows then map_option o_status (row_by o_id e (committed c')) = Some OCompleted
         else row_by o_id e (committed c') = row_by o_id e (committed c1)" by auto
  have "row_by o_id e (committed c1) = row_by o_id e (committed c)" if "e \<notin> o_id ` set due_rows" for e
  proof (cases "row_by o_id e (committed c)")
    case (Some y)
    with that show ?thesis using row_by_SomeD [OF Some] by (simp add: c1 row_by_update_where)
  qed (simp add: c1 row_by_update_where)
  with c' claim show ?thesis by (simp add: outbox_drain_def)
qed

section \<open>Worked instances\<close>

definition demo_outbox :: outbox where
  "demo_outbox = commit (outbox_enqueue ''e'' ''chroma'' ''a'' ''v1'' 1 ''{}'' 5
     \<lparr>committed = [], open_tx = None\<rparr>)"

definition demo_leased :: outbox where
  "demo_leased = snd (drain_claim 1 50 None ''x'' 10 demo_outbox)"

lemma demo_outbox_ready: "outbox_ready demo_outbox" "holds outbox_ok demo_outbox"
  by (simp_all add: outbox_ready_def demo_outbox_def outbox_enqueue_def Let_def commit_eq idle_def keyed_def
      holds_def view_def dml_def outbox_ok_def outbox_row_ok_def MAX_BACKOFF_MS_def)

theorem outbox_lease_is_fenced_witness:
  "settle_event SettleCompleted ''v1'' ''e'' ''y'' 20 demo_leased = (0, demo_leased) \<and>
   ''e'' \<notin> o_id ` set (fst (drain_claim 1 50 None ''z'' 30010 demo_leased))"
proof -
  obtain claimed c' where d: "drain_claim 1 50 None ''x'' 10 demo_outbox = (claimed, c')" by (metis surj_pair)
  have "map o_id (fst (drain_claim 1 50 None ''x'' 10 demo_outbox)) = [''e'']" by code_simp
  then obtain r where r: "r \<in> set claimed" "o_id r = ''e''" using d by auto
  have c': "c' = demo_leased" using d by (simp add: demo_leased_def)
  show ?thesis
    using outbox_lease_is_fenced [OF demo_outbox_ready(1) d r(1), of 30010 1 50 None "''z''" SettleCompleted "''v1''"]
      outbox_lease_is_fenced [OF demo_outbox_ready(1) d r(1), of 20 1 50 None "''y''" SettleCompleted "''v1''"]
    by (simp add: r(2) c' LEASE_MS_def del: settle_event.simps)
qed

theorem reenqueue_voids_delivery_witness:
  "settle_event SettleCompleted ''v1'' ''e'' ''x'' 30
     (commit (outbox_enqueue ''e'' ''chroma'' ''a'' ''v2'' 1 ''[1]'' 20 demo_leased)) =
   (0, commit (outbox_enqueue ''e'' ''chroma'' ''a'' ''v2'' 1 ''[1]'' 20 demo_leased))"
  using reenqueue_voids_delivery [OF outbox_ready_claim [OF demo_outbox_ready(1)] refl]
  by (simp add: demo_leased_def del: settle_event.simps)

theorem failed_event_is_retried_witness:
  "\<exists>r'. row_by o_id ''e'' (committed (snd (mark_failed ''e'' ''v1'' ''x'' ''boom'' 40 demo_leased))) = Some r' \<and>
     1040 \<le> o_next r'"
proof -
  have ready: "outbox_ready demo_leased"
    unfolding demo_leased_def by (rule outbox_ready_claim [OF demo_outbox_ready(1)])
  obtain n c' where m: "mark_failed ''e'' ''v1'' ''x'' ''boom'' 40 demo_leased = (n, c')" by (metis surj_pair)
  have "map_option (leased_by ''e'' ''v1'' ''x'') (row_by o_id ''e'' (committed demo_leased)) = Some True"
    by code_simp
  then obtain r where "row_by o_id ''e'' (committed demo_leased) = Some r" "leased_by ''e'' ''v1'' ''x'' r" by auto
  from failed_event_is_retried [OF ready this m] m show ?thesis by auto
qed

theorem outbox_invariant_witness:
  "holds outbox_ok (fold outbox_step [OEnqueue ''f'' ''chroma'' ''b'' ''v1'' 1 ''{}'' 7,
     OClaim 1 1 None ''x'' 10, OCommit, OSettle (SettleFailed ''boom'') ''v1'' ''e'' ''x'' 12] demo_outbox)"
  by (rule outbox_invariant [OF demo_outbox_ready(2)]) simp

theorem drain_completes_due_witness:
  "\<exists>c'. outbox_drain None (\<lambda>n ty p. Delivered) (\<lambda>n. 11) 1 50 None ''x'' 10 demo_outbox =
     (Inr \<lparr>dr_claimed = 1, dr_completed = 1, dr_failed = 0\<rparr>, c')"
proof -
  have "length (select_due 1 50 None 10 (committed demo_outbox)) = 1" by code_simp
  with drain_completes_due [OF demo_outbox_ready(1) _ refl, of "\<lambda>n ty p. Delivered" None "\<lambda>n. 11" 1 50 None "''x''" 10]
  show ?thesis by auto
qed

end
