(* ===== verification/Patterns.thy ===== *)
theory Patterns
  imports Prelude
begin

text \<open>
  The patterns of permission rules: \<^verbatim>\<open>permissions/patterns.py\<close>, which scopes a rule to the
  kind of call a user approved, on top of the two parts of Python's library it relies on,
  \<^verbatim>\<open>fnmatch\<close> (shell-style wildcards) and \<^verbatim>\<open>shlex.split\<close> (POSIX word splitting). Strings are
  lists of characters of one byte; arguments of tool calls are decoded JSON values.
\<close>

section \<open>Wildcards (fnmatch)\<close>

datatype class_item = One char | Range char char

datatype glob = Lit char | AnyChar | Star | Class bool "class_item list"

text \<open>The items of a bracket expression: \<open>a-z\<close> is a range, every other character itself.\<close>

fun class_items :: "string \<Rightarrow> class_item list" where
  "class_items (c # CHR ''-'' # d # s) = Range c d # class_items s"
| "class_items (c # s) = One c # class_items s"
| "class_items [] = []"

fun item_matches :: "char \<Rightarrow> class_item \<Rightarrow> bool" where
  "item_matches x (One c) \<longleftrightarrow> x = c"
| "item_matches x (Range c d) \<longleftrightarrow> (of_char c :: nat) \<le> of_char x \<and> (of_char x :: nat) \<le> of_char d"

text \<open>
  What follows an opening bracket: an optional \<open>!\<close>, a first character that may be the
  bracket itself, and the rest up to the closing one. Without a closing bracket the opening
  one stands for itself.
\<close>

definition split_class :: "string \<Rightarrow> (bool \<times> string \<times> string) option" where
  "split_class s =
     (let neg = (case s of c # _ \<Rightarrow> c = CHR ''!'' | [] \<Rightarrow> False);
          t = (if neg then tl s else s);
          first = (case t of c # _ \<Rightarrow> if c = CHR '']'' then [c] else [] | [] \<Rightarrow> []);
          u = drop (length first) t
      in if CHR '']'' \<in> set u
         then Some (neg, first @ takeWhile (\<lambda>c. c \<noteq> CHR '']'') u, tl (dropWhile (\<lambda>c. c \<noteq> CHR '']'') u))
         else None)"

lemma split_class_shorter: "split_class s = Some (neg, body, rest) \<Longrightarrow> length rest < length s"
proof -
  assume a: "split_class s = Some (neg, body, rest)"
  obtain u where u: "CHR '']'' \<in> set u" "rest = tl (dropWhile (\<lambda>c. c \<noteq> CHR '']'') u)" "length u \<le> length s"
    using a by (cases s) (auto simp: split_class_def Let_def split: if_splits list.splits)
  have "dropWhile (\<lambda>c. c \<noteq> CHR '']'') u \<noteq> []" using u(1) by (simp add: dropWhile_eq_Nil_conv)
  then have "length rest < length (dropWhile (\<lambda>c. c \<noteq> CHR '']'') u)" using u(2) by simp
  with length_dropWhile_le [of "\<lambda>c. c \<noteq> CHR '']''" u] u(3) show ?thesis by simp
qed

function (sequential) glob_parse :: "string \<Rightarrow> glob list" where
  "glob_parse [] = []"
| "glob_parse (c # s) =
     (if c = CHR ''*'' then Star # glob_parse s
      else if c = CHR ''?'' then AnyChar # glob_parse s
      else if c = CHR ''['' then
        (case split_class s of
           Some (neg, body, rest) \<Rightarrow> Class neg (class_items body) # glob_parse rest
         | None \<Rightarrow> Lit c # glob_parse s)
      else Lit c # glob_parse s)"
  by pat_completeness auto
termination
  by (relation "measure length") (auto dest: split_class_shorter)

fun glob_accepts :: "glob list \<Rightarrow> string \<Rightarrow> bool" where
  "glob_accepts [] s \<longleftrightarrow> s = []"
| "glob_accepts (Star # ps) [] \<longleftrightarrow> glob_accepts ps []"
| "glob_accepts (Star # ps) (x # s) \<longleftrightarrow> glob_accepts ps (x # s) \<or> glob_accepts (Star # ps) s"
| "glob_accepts (_ # ps) [] \<longleftrightarrow> False"
| "glob_accepts (Lit c # ps) (x # s) \<longleftrightarrow> x = c \<and> glob_accepts ps s"
| "glob_accepts (AnyChar # ps) (x # s) \<longleftrightarrow> glob_accepts ps s"
| "glob_accepts (Class neg items # ps) (x # s) \<longleftrightarrow>
     list_ex (item_matches x) items \<noteq> neg \<and> glob_accepts ps s"

definition fnmatch :: "string \<Rightarrow> string \<Rightarrow> bool" where
  "fnmatch s pat \<longleftrightarrow> glob_accepts (glob_parse pat) s"

text \<open>The meaning of a wildcard: some suffix is matched by what follows it.\<close>

lemma glob_accepts_Star: "glob_accepts (Star # ps) s \<longleftrightarrow> (\<exists>u v. s = u @ v \<and> glob_accepts ps v)"
proof (induction s)
  case (Cons x s)
  have "(\<exists>u v. x # s = u @ v \<and> glob_accepts ps v) \<longleftrightarrow>
      glob_accepts ps (x # s) \<or> (\<exists>u v. s = u @ v \<and> glob_accepts ps v)"
    by (metis append_Cons append_Nil neq_Nil_conv list.inject)
  with Cons show ?case by simp
qed simp

lemma fnmatch_star: "fnmatch s ''*''"
  by (simp add: fnmatch_def glob_accepts_Star)

section \<open>Escaping\<close>

definition glob_meta :: "char \<Rightarrow> bool" where
  "glob_meta c \<longleftrightarrow> c \<in> {CHR ''*'', CHR ''?'', CHR ''['', CHR '']''}"

definition escape_glob :: "string \<Rightarrow> string" where
  "escape_glob s = concat (map (\<lambda>c. if glob_meta c then [CHR ''['', c, CHR '']''] else [c]) s)"

lemma escape_glob_simps [simp]:
  "escape_glob [] = []"
  "escape_glob (c # s) = (if glob_meta c then [CHR ''['', c, CHR '']''] else [c]) @ escape_glob s"
  by (simp_all add: escape_glob_def)

lemma split_class_one: "glob_meta c \<Longrightarrow> split_class (c # CHR '']'' # s) = Some (False, [c], s)"
  by (auto simp: glob_meta_def split_class_def)

lemma escape_parse:
  "glob_accepts (glob_parse (escape_glob t @ pat)) s \<longleftrightarrow> (\<exists>u. s = t @ u \<and> glob_accepts (glob_parse pat) u)"
proof (induction t arbitrary: s)
  case (Cons c t)
  show ?case
  proof (cases "glob_meta c")
    case True
    then have "glob_parse (escape_glob (c # t) @ pat) = Class False [One c] # glob_parse (escape_glob t @ pat)"
      by (simp add: split_class_one)
    with Cons.IH show ?thesis by (cases s) auto
  next
    case False
    then have "glob_parse (escape_glob (c # t) @ pat) = Lit c # glob_parse (escape_glob t @ pat)"
      by (simp add: glob_meta_def)
    with Cons.IH show ?thesis by (cases s) auto
  qed
qed simp

text \<open>An escaped text matches itself only, and before a pattern it fixes a prefix.\<close>

lemma fnmatch_escape: "fnmatch s (escape_glob t) \<longleftrightarrow> s = t"
  using escape_parse [of t "[]" s] by (simp add: fnmatch_def)

lemma fnmatch_escape_args: "fnmatch s (escape_glob t @ '' *'') \<longleftrightarrow> (\<exists>u. s = t @ CHR '' '' # u)"
proof -
  have "glob_parse '' *'' = [Lit CHR '' '', Star]" by simp
  moreover have "glob_accepts [Lit CHR '' '', Star] v \<longleftrightarrow> (\<exists>u. v = CHR '' '' # u)" for v
    by (cases v) (auto simp: glob_accepts_Star)
  ultimately show ?thesis by (auto simp: fnmatch_def escape_parse)
qed

section \<open>Word splitting (shlex.split)\<close>

datatype sh_mode = Blank | Word | Quoted char | Escaped "char option"

definition sh_space :: "char \<Rightarrow> bool" where
  "sh_space c \<longleftrightarrow> c \<in> {CHR '' '', CHR 0x09, CHR 0x0D, CHR 0x0A}"

definition sh_quote :: "char \<Rightarrow> bool" where
  "sh_quote c \<longleftrightarrow> c = CHR 0x22 \<or> c = CHR 0x27"

definition sh_backslash :: char where "sh_backslash = CHR 0x5C"

text \<open>
  The arguments are the state, whether the token contains a quotation, and the token read so
  far; \<open>None\<close> is the \<open>ValueError\<close> of an open quotation or a trailing backslash.
\<close>

fun sh_scan :: "sh_mode \<Rightarrow> bool \<Rightarrow> string \<Rightarrow> string \<Rightarrow> string list option" where
  "sh_scan Blank q tok [] = Some []"
| "sh_scan Blank q tok (c # s) =
     (if sh_space c then sh_scan Blank q tok s
      else if c = sh_backslash then sh_scan (Escaped None) False [] s
      else if sh_quote c then sh_scan (Quoted c) True [] s
      else sh_scan Word False [c] s)"
| "sh_scan Word q tok [] = Some (if tok \<noteq> [] \<or> q then [tok] else [])"
| "sh_scan Word q tok (c # s) =
     (if sh_space c then
        (if tok \<noteq> [] \<or> q then map_option (\<lambda>ts. tok # ts) (sh_scan Blank False [] s)
         else sh_scan Blank False [] s)
      else if sh_quote c then sh_scan (Quoted c) True tok s
      else if c = sh_backslash then sh_scan (Escaped None) q tok s
      else sh_scan Word q (tok @ [c]) s)"
| "sh_scan (Quoted d) q tok [] = None"
| "sh_scan (Quoted d) q tok (c # s) =
     (if c = d then sh_scan Word q tok s
      else if c = sh_backslash \<and> d = CHR 0x22 then sh_scan (Escaped (Some d)) q tok s
      else sh_scan (Quoted d) q (tok @ [c]) s)"
| "sh_scan (Escaped e) q tok [] = None"
| "sh_scan (Escaped None) q tok (c # s) = sh_scan Word q (tok @ [c]) s"
| "sh_scan (Escaped (Some d)) q tok (c # s) =
     sh_scan (Quoted d) q (tok @ (if c \<noteq> sh_backslash \<and> c \<noteq> d then [sh_backslash, c] else [c])) s"

definition shlex_split :: "string \<Rightarrow> string list option" where
  "shlex_split s = sh_scan Blank False [] s"

text \<open>\<open>str.split()\<close>, on any white space.\<close>

lemma next_word_shorter:
  assumes "dropWhile is_space s \<noteq> []"
  shows "length (dropWhile (\<lambda>c. \<not> is_space c) (dropWhile is_space s)) < length s"
proof -
  obtain c t where t: "dropWhile is_space s = c # t" "\<not> is_space c"
    by (metis assms hd_dropWhile list.collapse)
  have "length (dropWhile (\<lambda>c. \<not> is_space c) t) \<le> length t" by (rule length_dropWhile_le)
  moreover have "length (c # t) \<le> length s" unfolding t(1) [symmetric] by (rule length_dropWhile_le)
  ultimately show ?thesis using t by simp
qed

function py_split :: "string \<Rightarrow> string list" where
  "py_split s =
     (let t = dropWhile is_space s in
      if t = [] then []
      else takeWhile (\<lambda>c. \<not> is_space c) t # py_split (dropWhile (\<lambda>c. \<not> is_space c) t))"
  by pat_completeness auto
termination
  by (relation "measure length") (auto simp: next_word_shorter)

declare py_split.simps [simp del]

text \<open>Plain words, joined by blanks, are split into themselves.\<close>

definition plain_char :: "char \<Rightarrow> bool" where
  "plain_char c \<longleftrightarrow> \<not> sh_space c \<and> \<not> sh_quote c \<and> c \<noteq> sh_backslash"

definition plain_word :: "string \<Rightarrow> bool" where
  "plain_word w \<longleftrightarrow> w \<noteq> [] \<and> (\<forall>c \<in> set w. plain_char c)"

lemma sh_scan_plain: "\<forall>c \<in> set w. plain_char c \<Longrightarrow> sh_scan Word q tok (w @ s) = sh_scan Word q (tok @ w) s"
  by (induction w arbitrary: tok) (auto simp: plain_char_def)

lemma sh_scan_word:
  assumes "plain_word w" shows "sh_scan Blank q tok (w @ s) = sh_scan Word False w s"
  using assms sh_scan_plain [of "tl w" False "[hd w]" s]
  by (cases w) (auto simp: plain_word_def plain_char_def)

lemma shlex_split_plain:
  "\<forall>w \<in> set ws. plain_word w \<Longrightarrow> sh_scan Blank q tok (join_with '' '' ws) = Some ws"
proof (induction ws arbitrary: q tok)
  case (Cons w ws)
  show ?case
  proof (cases ws)
    case Nil
    with Cons.prems show ?thesis using sh_scan_word [of w q tok "[]"] by (simp add: plain_word_def)
  next
    case (Cons v vs)
    with Cons.prems Cons.IH [of False "[]"]
    have "sh_scan Blank q tok (w @ CHR '' '' # join_with '' '' (v # vs)) = Some (w # v # vs)"
      by (simp add: sh_scan_word plain_word_def sh_space_def)
    with Cons show ?thesis by simp
  qed
qed simp

section \<open>Arguments of tool calls\<close>

text \<open>Decoded JSON; a float carries the text Python prints for it.\<close>

datatype json =
    JNull
  | JBool bool
  | JInt int
  | JFloat string
  | JStr string
  | JList "json list"
  | JDict "(string \<times> json) list"

type_synonym arguments = "(string \<times> json) list"

fun truthy :: "json \<Rightarrow> bool" where
  "truthy JNull \<longleftrightarrow> False"
| "truthy (JBool b) \<longleftrightarrow> b"
| "truthy (JInt i) \<longleftrightarrow> i \<noteq> 0"
| "truthy (JFloat t) \<longleftrightarrow> t \<noteq> ''0.0'' \<and> t \<noteq> ''-0.0''"
| "truthy (JStr s) \<longleftrightarrow> s \<noteq> []"
| "truthy (JList xs) \<longleftrightarrow> xs \<noteq> []"
| "truthy (JDict d) \<longleftrightarrow> d \<noteq> []"

text \<open>\<open>str(value)\<close>; \<open>py_repr\<close> prints lists and dictionaries.\<close>

fun py_str :: "(json \<Rightarrow> string) \<Rightarrow> json \<Rightarrow> string" where
  "py_str py_repr JNull = ''None''"
| "py_str py_repr (JBool b) = (if b then ''True'' else ''False'')"
| "py_str py_repr (JInt i) = py_str_int i"
| "py_str py_repr (JFloat t) = t"
| "py_str py_repr (JStr s) = s"
| "py_str py_repr v = py_repr v"

section \<open>Scoping a rule to the kind of call\<close>

definition subcommand_tools :: "string list" where
  "subcommand_tools =
     [''git'', ''gh'', ''docker'', ''podman'', ''kubectl'', ''helm'', ''npm'', ''pnpm'', ''yarn'',
      ''cargo'', ''go'', ''pip'', ''pip3'', ''aws'', ''az'', ''gcloud'', ''systemctl'', ''brew'', ''apt'',
      ''apt-get'', ''make'', ''poetry'', ''uv'', ''terraform'']"

definition subcommand_depth :: "string \<Rightarrow> nat" where
  "subcommand_depth base = (if base \<in> set subcommand_tools then 2 else 1)"

definition wrappers :: "string list" where
  "wrappers = [''sudo'', ''doas'', ''env'', ''command'', ''nohup'', ''time'', ''nice'', ''ionice'',
     ''stdbuf'', ''setsid'', ''xargs'', ''timeout'']"

text \<open>\<open>\w\<close> of \<^verbatim>\<open>re\<close> on characters of one byte: letters, digits and the underscore.\<close>

definition word_char :: "char \<Rightarrow> bool" where
  "word_char c \<longleftrightarrow> (let n = of_char c :: nat in
     (48 \<le> n \<and> n \<le> 57) \<or> (65 \<le> n \<and> n \<le> 90) \<or> n = 95 \<or> (97 \<le> n \<and> n \<le> 122) \<or>
     n = 170 \<or> n = 178 \<or> n = 179 \<or> n = 181 \<or> (185 \<le> n \<and> n \<le> 186) \<or> (188 \<le> n \<and> n \<le> 190) \<or>
     (192 \<le> n \<and> n \<le> 214) \<or> (216 \<le> n \<and> n \<le> 246) \<or> 248 \<le> n)"

definition identifier_start :: "char \<Rightarrow> bool" where
  "identifier_start c \<longleftrightarrow> (let n = of_char c :: nat in
     (65 \<le> n \<and> n \<le> 90) \<or> n = 95 \<or> (97 \<le> n \<and> n \<le> 122))"

fun is_assignment :: "string \<Rightarrow> bool" where
  "is_assignment [] \<longleftrightarrow> False"
| "is_assignment (c # s) \<longleftrightarrow> identifier_start c \<and>
     (case dropWhile word_char s of [] \<Rightarrow> False | d # _ \<Rightarrow> d = CHR ''='')"

definition base_name :: "string \<Rightarrow> string" where
  "base_name s = rev (takeWhile (\<lambda>c. c \<noteq> CHR ''/'') (rev s))"

definition is_flag :: "string \<Rightarrow> bool" where
  "is_flag s \<longleftrightarrow> (case s of c # _ \<Rightarrow> c = CHR ''-'' | [] \<Rightarrow> False)"

function drop_wrappers :: "string list \<Rightarrow> string list" where
  "drop_wrappers [] = []"
| "drop_wrappers (t # ts) =
     (if base_name t \<in> set wrappers then drop_wrappers (dropWhile is_flag ts) else t # ts)"
  by pat_completeness auto
termination
  by (relation "measure length") (auto simp: le_imp_less_Suc length_dropWhile_le)

lemma drop_wrappers_length: "length (drop_wrappers ts) \<le> length ts"
proof (induction ts rule: drop_wrappers.induct)
  case (2 t ts)
  then show ?case using length_dropWhile_le [of is_flag ts] by auto
qed simp

function real_words :: "string list \<Rightarrow> string list" where
  "real_words ts =
     (let us = drop_wrappers (dropWhile is_assignment ts) in
      if us = [] \<or> length us = length ts then us else real_words us)"
  by pat_completeness auto
termination
proof (relation "measure length", simp, clarsimp)
  fix ts :: "string list"
  assume "length (drop_wrappers (dropWhile is_assignment ts)) \<noteq> length ts"
  with drop_wrappers_length [of "dropWhile is_assignment ts"] length_dropWhile_le [of is_assignment ts]
  show "length (drop_wrappers (dropWhile is_assignment ts)) < length ts" by simp
qed

declare real_words.simps [simp del]

definition command_words :: "string \<Rightarrow> string list" where
  "command_words cmd =
     real_words (case shlex_split cmd of Some ts \<Rightarrow> ts | None \<Rightarrow> py_split cmd)"

definition command_scope :: "string list \<Rightarrow> string list" where
  "command_scope real = take (subcommand_depth (base_name (hd real))) real"

definition bash_pattern :: "string \<Rightarrow> string option" where
  "bash_pattern cmd =
     (let real = command_words cmd in
      if real = [] then None
      else
        (let prefix = command_scope real; escaped = escape_glob (join_with '' '' prefix) in
         Some (if length real \<le> length prefix then escaped else escaped @ '' *'')))"

definition field_or_empty :: "(json \<Rightarrow> string) \<Rightarrow> string \<Rightarrow> arguments \<Rightarrow> string" where
  "field_or_empty py_repr field args =
     (case map_of args field of
        None \<Rightarrow> '''' | Some v \<Rightarrow> if truthy v then escape_glob (py_str py_repr v) else '''')"

text \<open>\<open>None\<close> is the \<open>AttributeError\<close> of a command that is not a text.\<close>

definition synthesize_args_pattern ::
  "(json \<Rightarrow> string) \<Rightarrow> string \<Rightarrow> arguments \<Rightarrow> string option" where
  "synthesize_args_pattern py_repr tool args =
     (if tool = ''run_shell'' then
        (case map_of args ''cmd'' of
           None \<Rightarrow> Some (opt_or (bash_pattern '''') '''')
         | Some v \<Rightarrow>
             if \<not> truthy v then Some (opt_or (bash_pattern '''') '''')
             else (case v of JStr s \<Rightarrow> Some (opt_or (bash_pattern (py_strip s)) '''') | _ \<Rightarrow> None))
      else if tool \<in> {''write_file'', ''read_local_file'', ''write_local_file''} then
        (case map_of args ''path'' of
           Some v \<Rightarrow> if truthy v then Some (escape_glob (py_str py_repr v))
                     else Some (field_or_empty py_repr ''file_path'' args)
         | None \<Rightarrow> Some (field_or_empty py_repr ''file_path'' args))
      else if tool = ''spawn_agent'' then Some (field_or_empty py_repr ''bot_name'' args)
      else if tool = ''run_skill'' then Some (field_or_empty py_repr ''name'' args)
      else Some '''')"

section \<open>What a synthesized rule admits\<close>

lemma subcommand_depth_pos: "0 < subcommand_depth base"
  by (simp add: subcommand_depth_def)

definition admitted :: "string list \<Rightarrow> string \<Rightarrow> bool" where
  "admitted real s \<longleftrightarrow>
     (let scope = join_with '' '' (command_scope real) in
      if length real \<le> subcommand_depth (base_name (hd real)) then s = scope
      else \<exists>u. s = scope @ CHR '' '' # u)"

lemma bash_pattern_admits:
  assumes "bash_pattern cmd = Some pat"
  shows "fnmatch s pat \<longleftrightarrow> admitted (command_words cmd) s"
  using assms
  by (auto simp: bash_pattern_def admitted_def command_scope_def Let_def fnmatch_escape fnmatch_escape_args min_def
      split: if_splits)

lemma admitted_self: "real \<noteq> [] \<Longrightarrow> admitted real (join_with '' '' real)"
  using join_split [of "subcommand_depth (base_name (hd real))" real "'' ''"]
    subcommand_depth_pos [of "base_name (hd real)"]
  by (auto simp: admitted_def command_scope_def Let_def)

text \<open>
  The rule synthesized from an approved shell command admits exactly the commands that
  are its scope (the command, with its subcommand for the tools that have one) or, when the
  approved command had further arguments, that continue the scope after a blank; a command
  of plain words without wrappers is admitted by its own rule, and no wildcard in the
  approved command acts as one.
\<close>

theorem approved_command_scope:
  assumes "bash_pattern cmd = Some pat"
  shows "(fnmatch s pat \<longleftrightarrow>
      (let real = command_words cmd; scope = join_with '' '' (command_scope real) in
       if length real \<le> subcommand_depth (base_name (hd real)) then s = scope
       else \<exists>u. s = scope @ CHR '' '' # u)) \<and>
    (cmd = join_with '' '' ws \<and> (\<forall>w \<in> set ws. plain_word w) \<and> real_words ws = ws \<longrightarrow> fnmatch cmd pat)"
proof (intro conjI impI)
  show "fnmatch s pat \<longleftrightarrow>
      (let real = command_words cmd; scope = join_with '' '' (command_scope real) in
       if length real \<le> subcommand_depth (base_name (hd real)) then s = scope
       else \<exists>u. s = scope @ CHR '' '' # u)"
    using bash_pattern_admits [OF assms] by (simp add: admitted_def Let_def)
  assume ws: "cmd = join_with '' '' ws \<and> (\<forall>w \<in> set ws. plain_word w) \<and> real_words ws = ws"
  then have "shlex_split cmd = Some ws" unfolding shlex_split_def using shlex_split_plain by blast
  then have real: "command_words cmd = ws" using ws by (simp add: command_words_def)
  moreover have "ws \<noteq> []" using assms real by (auto simp: bash_pattern_def)
  ultimately show "fnmatch cmd pat"
    using admitted_self [of ws] ws bash_pattern_admits [OF assms, of cmd] by simp
qed

text \<open>
  A rule scoped this way is one of text, not of shell syntax: whatever follows the blank is
  admitted, another command after a separator included.
\<close>

lemma scope_admits_chained_command:
  "bash_pattern ''git push origin'' = Some ''git push *'' \<and> fnmatch ''git push ; rm -rf /srv'' ''git push *''"
proof -
  have "bash_pattern ''git push origin'' = Some ''git push *''" by code_simp
  moreover have "fnmatch ''git push ; rm -rf /srv'' ''git push *''" by code_simp
  ultimately show ?thesis by blast
qed

section \<open>Worked instances\<close>

theorem approved_command_scope_witness:
  "fnmatch ''git push --force'' ''git push *'' \<and> \<not> fnmatch ''git status'' ''git push *''"
proof -
  have p: "bash_pattern ''git push origin'' = Some ''git push *''" by code_simp
  have "command_words ''git push origin'' = [''git'', ''push'', ''origin'']" by code_simp
  with approved_command_scope [OF p, of "''git push --force''" "[]"] approved_command_scope [OF p, of "''git status''" "[]"]
  show ?thesis
    by (simp add: command_scope_def subcommand_depth_def subcommand_tools_def base_name_def)
qed

end
