(* ===== verification/Permissions.thy ===== *)
theory Permissions
  imports Patterns Writer
begin

text \<open>
  The permission engine, \<^verbatim>\<open>permissions/engine.py\<close> with \<^verbatim>\<open>permissions/models.py\<close> and the hook
  \<^verbatim>\<open>executors/plugins/workspace_permission_hook.py\<close>. A check either decides at once or
  suspends until the user answers, the group disconnects or the time is up, so it is two
  steps here, between which other checks and answers may come. Arguments of the model are
  the printer of lists and dictionaries, the fingerprint of a call's arguments (SHA-256 of
  their canonical dump), the observability policy that selects approvals worth auditing, and
  the generated permission ids.
\<close>

section \<open>Rules\<close>

datatype action = AllowRule | DenyRule

record rule =
  tool_pattern :: string
  args_pattern :: string
  rule_action :: action

datatype mode = DefaultMode | BypassPermissions | DontAsk

record ruleset =
  rules :: "rule list"
  mode :: mode

text \<open>A pattern is searched in every scalar of the arguments, however deeply nested.\<close>

fun search_nested :: "(json \<Rightarrow> string) \<Rightarrow> string \<Rightarrow> json \<Rightarrow> bool" where
  "search_nested py_repr pat (JDict d) \<longleftrightarrow> list_ex (\<lambda>(k, v). search_nested py_repr pat v) d"
| "search_nested py_repr pat (JList xs) \<longleftrightarrow> list_ex (search_nested py_repr pat) xs"
| "search_nested py_repr pat v \<longleftrightarrow> fnmatch (py_str py_repr v) pat"

definition match_args_pattern :: "(json \<Rightarrow> string) \<Rightarrow> string \<Rightarrow> arguments \<Rightarrow> bool" where
  "match_args_pattern py_repr pat args \<longleftrightarrow> list_ex (\<lambda>(k, v). search_nested py_repr pat v) args"

definition name_scoped_field :: "string \<Rightarrow> string option" where
  "name_scoped_field tool = (if tool = ''run_skill'' then Some ''name'' else None)"

definition rule_matches :: "(json \<Rightarrow> string) \<Rightarrow> rule \<Rightarrow> string \<Rightarrow> arguments \<Rightarrow> bool" where
  "rule_matches py_repr r tool args \<longleftrightarrow>
     fnmatch tool (tool_pattern r) \<and>
     (args_pattern r = '''' \<or>
      (case name_scoped_field tool of
         Some field \<Rightarrow>
           fnmatch (case map_of args field of None \<Rightarrow> '''' | Some v \<Rightarrow> py_str py_repr v) (args_pattern r)
       | None \<Rightarrow> match_args_pattern py_repr (args_pattern r) args))"

section \<open>Sub-agents\<close>

definition subagent_high_risk_tools :: "string list" where
  "subagent_high_risk_tools =
     [''run_shell'', ''write_file'', ''write_local_file'', ''read_local_file'', ''spawn_agent'']"

definition mcp_write_tools :: "string list" where
  "mcp_write_tools =
     [''write_file'', ''create_file'', ''delete_file'', ''move_file'', ''rename_file'', ''edit_file'',
      ''patch_file'', ''create_directory'', ''delete_directory'', ''write'', ''delete'', ''remove'',
      ''move'', ''rename'']"

text \<open>What follows the last double colon, or the whole text.\<close>

fun after_last_colons :: "string \<Rightarrow> string option" where
  "after_last_colons (a # b # s) =
     (case after_last_colons (b # s) of
        Some t \<Rightarrow> Some t
      | None \<Rightarrow> if a = CHR '':'' \<and> b = CHR '':'' then Some s else None)"
| "after_last_colons _ = None"

definition covers_high_risk :: "string \<Rightarrow> bool" where
  "covers_high_risk pat \<longleftrightarrow>
     list_ex (\<lambda>t. fnmatch t pat) subagent_high_risk_tools \<or>
     (is_prefix ''mcp::'' pat \<and>
      (CHR ''*'' \<in> set pat \<or> opt_or (after_last_colons pat) '''' \<in> set mcp_write_tools))"

definition inheritable :: "rule \<Rightarrow> bool" where
  "inheritable r \<longleftrightarrow>
     \<not> (rule_action r = AllowRule \<and> (args_pattern r = '''' \<or> args_pattern r = ''*'') \<and>
        covers_high_risk (tool_pattern r))"

definition derive_subagent_ruleset :: "ruleset option \<Rightarrow> ruleset option" where
  "derive_subagent_ruleset parent =
     map_option (\<lambda>p. \<lparr>rules = filter inheritable (rules p),
       mode = (if mode p = BypassPermissions then DefaultMode else mode p)\<rparr>) parent"

section \<open>State of the engine\<close>

datatype source =
    SBypass | SDenyRule | SAllowRule | SConfined | SOnceGrant | SDontAsk | SSubagent | STimeout
  | SHuman | SGroupDisconnected | SHumanRequired

datatype audit_kind = PermissionApproved | PermissionDenied | PermissionRequested

record call =
  c_tool :: string
  c_args :: arguments
  c_bot :: int
  c_group :: int
  c_depth :: int
  c_confined :: bool
  c_force :: bool

record audit_event =
  a_kind :: audit_kind
  a_permission :: string
  a_tool :: string
  a_fingerprint :: string
  a_bot :: int
  a_group :: int
  a_depth :: int
  a_force :: bool
  a_source :: source
  a_persistence :: "string option"

record pending_request =
  p_answer :: "(bool \<times> string) option"
  p_call :: call
  p_source :: source

type_synonym grant = "string \<times> string"

record perm_state =
  once_grants :: "((int \<times> int) \<times> grant list) list"
  pending :: "(string \<times> pending_request) list"
  audit :: "audit_event list"

record policy =
  py_repr :: "json \<Rightarrow> string"
  fingerprint :: "arguments \<Rightarrow> string"
  significant :: "string \<Rightarrow> arguments \<Rightarrow> bool"
  recording :: bool

record decision =
  d_allow :: bool
  d_source :: source
  d_persist :: "rule option"

datatype check_outcome = Decided decision | Suspended | BroadcastRaised | PatternRaised

definition pending_stats :: "perm_state \<Rightarrow> nat \<times> nat" where
  "pending_stats st =
     (length (pending st), sum_list (map (\<lambda>e. length (snd e)) (once_grants st)))"

text \<open>Auditing is best effort and never reads or changes what authorization depends on.\<close>

definition record_event ::
  "policy \<Rightarrow> audit_kind \<Rightarrow> string \<Rightarrow> call \<Rightarrow> source \<Rightarrow> string option \<Rightarrow> perm_state \<Rightarrow> perm_state" where
  "record_event pol kind pid k src persistence st =
     (if \<not> recording pol \<or>
         (kind = PermissionApproved \<and> src \<noteq> SHuman \<and> \<not> significant pol (c_tool k) (c_args k))
      then st
      else st\<lparr>audit := audit st @
        [\<lparr>a_kind = kind, a_permission = pid, a_tool = c_tool k, a_fingerprint = fingerprint pol (c_args k),
          a_bot = c_bot k, a_group = c_group k, a_depth = c_depth k, a_force = c_force k, a_source = src,
          a_persistence = persistence\<rparr>]\<rparr>)"

definition decide ::
  "policy \<Rightarrow> string \<Rightarrow> call \<Rightarrow> bool \<Rightarrow> source \<Rightarrow> string option \<Rightarrow> rule option \<Rightarrow> perm_state \<Rightarrow>
   check_outcome \<times> perm_state" where
  "decide pol pid k allow src persistence persist_rule st =
     (Decided \<lparr>d_allow = allow, d_source = src, d_persist = persist_rule\<rparr>,
      record_event pol (if allow then PermissionApproved else PermissionDenied) pid k src persistence st)"

definition consume_once_grant :: "policy \<Rightarrow> call \<Rightarrow> perm_state \<Rightarrow> bool \<times> perm_state" where
  "consume_once_grant pol k st =
     (let key = (c_bot k, c_group k); target = (c_tool k, fingerprint pol (c_args k)) in
      case map_of (once_grants st) key of
        None \<Rightarrow> (False, st)
      | Some grants \<Rightarrow>
          if target \<in> set grants then
            (let rest = remove1 target grants in
             (True, st\<lparr>once_grants := (if rest = [] then dict_del key (once_grants st)
                                        else dict_set key rest (once_grants st))\<rparr>))
          else (False, st))"

section \<open>The decision pipeline\<close>

definition matching_rule :: "policy \<Rightarrow> action \<Rightarrow> ruleset \<Rightarrow> call \<Rightarrow> bool" where
  "matching_rule pol act rs k \<longleftrightarrow>
     list_ex (\<lambda>r. rule_action r = act \<and> rule_matches (py_repr pol) r (c_tool k) (c_args k)) (rules rs)"

definition ask :: "policy \<Rightarrow> call \<Rightarrow> string \<Rightarrow> bool \<Rightarrow> perm_state \<Rightarrow> check_outcome \<times> perm_state" where
  "ask pol k pid broadcast_ok st =
     (let st1 = st\<lparr>pending := dict_set pid \<lparr>p_answer = None, p_call = k, p_source = SHuman\<rparr> (pending st)\<rparr>;
          st2 = record_event pol PermissionRequested pid k SHumanRequired None st1
      in (if broadcast_ok then Suspended else BroadcastRaised, st2))"

definition check_start ::
  "policy \<Rightarrow> ruleset \<Rightarrow> call \<Rightarrow> string \<Rightarrow> bool \<Rightarrow> perm_state \<Rightarrow> check_outcome \<times> perm_state" where
  "check_start pol rs k pid broadcast_ok st =
     (if mode rs = BypassPermissions then decide pol pid k True SBypass None None st
      else if matching_rule pol DenyRule rs k then decide pol pid k False SDenyRule None None st
      else if \<not> c_force k \<and> matching_rule pol AllowRule rs k then decide pol pid k True SAllowRule None None st
      else if c_confined k \<and> \<not> c_force k then decide pol pid k True SConfined None None st
      else
        (case consume_once_grant pol k st of
           (True, st') \<Rightarrow> decide pol pid k True SOnceGrant (Some ''once'') None st'
         | (False, _) \<Rightarrow>
             if mode rs = DontAsk then decide pol pid k False SDontAsk None None st
             else if c_depth k > 0 then decide pol pid k False SSubagent None None st
             else ask pol k pid broadcast_ok st))"

definition grant_once :: "policy \<Rightarrow> call \<Rightarrow> perm_state \<Rightarrow> perm_state" where
  "grant_once pol k st =
     (let key = (c_bot k, c_group k) in
      st\<lparr>once_grants := dict_set key
           (get_default (map_of (once_grants st) key) [] @ [(c_tool k, fingerprint pol (c_args k))])
           (once_grants st)\<rparr>)"

text \<open>
  The suspended check goes on: with the answer when there is one, otherwise because its time
  is up. In both cases its request is no longer pending.
\<close>

definition check_resume :: "policy \<Rightarrow> string \<Rightarrow> perm_state \<Rightarrow> check_outcome option \<times> perm_state" where
  "check_resume pol pid st =
     (case map_of (pending st) pid of
        None \<Rightarrow> (None, st)
      | Some r \<Rightarrow>
          (let st1 = st\<lparr>pending := dict_del pid (pending st)\<rparr>; k = p_call r;
               (out, st2) =
                 (case p_answer r of
                    None \<Rightarrow> decide pol pid k False STimeout None None st1
                  | Some (False, persistence) \<Rightarrow> decide pol pid k False (p_source r) (Some persistence) None st1
                  | Some (True, persistence) \<Rightarrow>
                      if persistence = ''once'' then
                        decide pol pid k True (p_source r) (Some ''once'') None (grant_once pol k st1)
                      else
                        (case synthesize_args_pattern (py_repr pol) (c_tool k) (c_args k) of
                           None \<Rightarrow> (PatternRaised, st1)
                         | Some pat \<Rightarrow>
                             decide pol pid k True (p_source r) (Some ''always'')
                               (Some \<lparr>tool_pattern = c_tool k, args_pattern = pat, rule_action = AllowRule\<rparr>) st1))
           in (Some out, st2)))"

definition resolve ::
  "string \<Rightarrow> bool \<Rightarrow> string \<Rightarrow> int option \<Rightarrow> perm_state \<Rightarrow> bool \<times> perm_state" where
  "resolve pid approved persistence gid st =
     (case map_of (pending st) pid of
        None \<Rightarrow> (False, st)
      | Some r \<Rightarrow>
          if p_answer r \<noteq> None \<or> (case gid of None \<Rightarrow> False | Some g \<Rightarrow> c_group (p_call r) \<noteq> g)
          then (False, st)
          else (True, st\<lparr>pending := dict_set pid
                  (r\<lparr>p_answer := Some (approved, persistence), p_source := SHuman\<rparr>) (pending st)\<rparr>))"

definition clear_once_grants_for_group :: "int \<Rightarrow> perm_state \<Rightarrow> nat \<times> perm_state" where
  "clear_once_grants_for_group g st =
     (length (filter (\<lambda>e. snd (fst e) = g) (once_grants st)),
      st\<lparr>once_grants := filter (\<lambda>e. snd (fst e) \<noteq> g) (once_grants st)\<rparr>)"

definition waits_in_group :: "int \<Rightarrow> pending_request \<Rightarrow> bool" where
  "waits_in_group g r \<longleftrightarrow> c_group (p_call r) = g \<and> p_answer r = None"

definition cancel_pending_for_group :: "int \<Rightarrow> perm_state \<Rightarrow> nat \<times> perm_state" where
  "cancel_pending_for_group g st =
     (length (filter (\<lambda>e. waits_in_group g (snd e)) (pending st)),
      st\<lparr>pending := map (\<lambda>(pid, r). (pid, if waits_in_group g r
           then r\<lparr>p_answer := Some (False, ''once''), p_source := SGroupDisconnected\<rparr> else r)) (pending st)\<rparr>)"

section \<open>The hook of the tool loop\<close>

definition auto_allow_tools :: "string list" where
  "auto_allow_tools = [''create_jira_ticket'', ''list_jira_tickets'', ''update_jira_ticket'', ''create_pr'']"

definition approval_required_tools :: "string list" where
  "approval_required_tools =
     [''run_shell'', ''write_file'', ''read_local_file'', ''write_local_file'', ''spawn_agent'', ''run_code'']"

definition read_only_confined_tools :: "string list" where
  "read_only_confined_tools =
     [''list_workspace'', ''read_file'', ''read_anchored'', ''slice_read'', ''memory_search'']"

datatype hook_outcome = Proceed "ruleset option" | Blocked | Waiting | HookRaised

fun hook_result :: "ruleset \<Rightarrow> check_outcome \<Rightarrow> hook_outcome" where
  "hook_result rs (Decided d) =
     (if \<not> d_allow d then Blocked
      else Proceed (Some (case d_persist d of None \<Rightarrow> rs | Some r \<Rightarrow> rs\<lparr>rules := rules rs @ [r]\<rparr>)))"
| "hook_result rs Suspended = Waiting"
| "hook_result rs BroadcastRaised = HookRaised"
| "hook_result rs PatternRaised = HookRaised"

definition stripped_text :: "arguments \<Rightarrow> string \<Rightarrow> string option" where
  "stripped_text args field =
     (case map_of args field of
        None \<Rightarrow> Some ''''
      | Some v \<Rightarrow> if \<not> truthy v then Some '''' else (case v of JStr s \<Rightarrow> Some (py_strip s) | _ \<Rightarrow> None))"

text \<open>
  \<open>cwd_ok\<close> and \<open>destructive\<close> are the functions the hook is called with: whether the
  working directory lies in the group's workspace, and whether a command line contains a
  destructive git invocation.
\<close>

definition permission_check ::
  "policy \<Rightarrow> (string \<Rightarrow> int \<Rightarrow> int \<Rightarrow> bool) \<Rightarrow> (string \<Rightarrow> bool) \<Rightarrow> ruleset option \<Rightarrow> call \<Rightarrow> string \<Rightarrow> bool \<Rightarrow>
   perm_state \<Rightarrow> hook_outcome \<times> perm_state" where
  "permission_check pol cwd_ok destructive ruleset k pid broadcast_ok st =
     (if c_tool k \<in> set auto_allow_tools then (Proceed ruleset, st)
      else
        (case ruleset of
           None \<Rightarrow> (if c_tool k \<in> set approval_required_tools then Blocked else Proceed None, st)
         | Some rs \<Rightarrow>
             if c_tool k = ''run_shell'' then
               (case (stripped_text (c_args k) ''cwd'', stripped_text (c_args k) ''cmd'') of
                  (Some cwd, Some cmd) \<Rightarrow>
                    (case check_start pol rs (k\<lparr>c_confined := cwd_ok cwd (c_bot k) (c_group k),
                                               c_force := destructive cmd\<rparr>) pid broadcast_ok st of
                       (out, st') \<Rightarrow> (hook_result rs out, st'))
                | _ \<Rightarrow> (HookRaised, st))
             else
               (case check_start pol rs (k\<lparr>c_confined := c_tool k \<in> set read_only_confined_tools,
                                          c_force := False\<rparr>) pid broadcast_ok st of
                  (out, st') \<Rightarrow> (hook_result rs out, st'))))"

definition permission_resumed :: "policy \<Rightarrow> ruleset \<Rightarrow> string \<Rightarrow> perm_state \<Rightarrow> hook_outcome \<times> perm_state" where
  "permission_resumed pol rs pid st =
     (case check_resume pol pid st of
        (None, st') \<Rightarrow> (Waiting, st')
      | (Some out, st') \<Rightarrow> (hook_result rs out, st'))"

section \<open>Grants for one call\<close>

definition grant_key :: "call \<Rightarrow> int \<times> int" where
  "grant_key k = (c_bot k, c_group k)"

definition grant_target :: "policy \<Rightarrow> call \<Rightarrow> grant" where
  "grant_target pol k = (c_tool k, fingerprint pol (c_args k))"

definition same_call :: "policy \<Rightarrow> call \<Rightarrow> call \<Rightarrow> bool" where
  "same_call pol k k' \<longleftrightarrow> grant_key k = grant_key k' \<and> grant_target pol k = grant_target pol k'"

definition grants_left :: "policy \<Rightarrow> call \<Rightarrow> perm_state \<Rightarrow> nat" where
  "grants_left pol k st =
     count_list (get_default (map_of (once_grants st) (grant_key k)) []) (grant_target pol k)"

lemma record_event_keeps [simp]:
  "once_grants (record_event pol kind pid k src pers st) = once_grants st"
  "pending (record_event pol kind pid k src pers st) = pending st"
  by (simp_all add: record_event_def)

lemma decide_simps [simp]:
  "fst (decide pol pid k b src pers r st) = Decided \<lparr>d_allow = b, d_source = src, d_persist = r\<rparr>"
  "once_grants (snd (decide pol pid k b src pers r st)) = once_grants st"
  "pending (snd (decide pol pid k b src pers r st)) = pending st"
  by (simp_all add: decide_def)

lemma decided:
  "(out, st') = decide pol pid k b src pers r st \<Longrightarrow>
   out = Decided \<lparr>d_allow = b, d_source = src, d_persist = r\<rparr> \<and> once_grants st' = once_grants st \<and>
   pending st' = pending st"
  by (simp add: decide_def)

lemma grants_left_cong: "once_grants st = once_grants st' \<Longrightarrow> grants_left pol k st = grants_left pol k st'"
  by (simp add: grants_left_def)

lemma count_list_remove1: "count_list (remove1 x xs) y = (if x = y \<and> x \<in> set xs then count_list xs y - 1 else count_list xs y)"
proof (induction xs)
  case (Cons a xs)
  have "x \<in> set xs \<Longrightarrow> 0 < count_list xs x" by (simp add: count_list_0_iff neq0_conv [symmetric])
  with Cons show ?case by auto
qed simp

lemma consume_cases:
  assumes "consume_once_grant pol k st = (b, st')"
  shows "b \<longleftrightarrow> 0 < grants_left pol k st" "pending st' = pending st" "audit st' = audit st"
    "grants_left pol k' st' = (if b \<and> same_call pol k k' then grants_left pol k' st - 1 else grants_left pol k' st)"
proof -
  let ?gs = "get_default (map_of (once_grants st) (grant_key k)) []"
  have pos: "0 < grants_left pol k st \<longleftrightarrow> grant_target pol k \<in> set ?gs"
    by (simp add: grants_left_def count_list_0_iff neq0_conv [symmetric])
  have "consume_once_grant pol k st = (if grant_target pol k \<in> set ?gs
      then (True, st\<lparr>once_grants := (if remove1 (grant_target pol k) ?gs = [] then dict_del (grant_key k) (once_grants st)
              else dict_set (grant_key k) (remove1 (grant_target pol k) ?gs) (once_grants st))\<rparr>)
      else (False, st))"
    by (simp add: consume_once_grant_def Let_def grant_key_def grant_target_def get_default_def split: option.split)
  note eq = this [unfolded assms]
  show "b \<longleftrightarrow> 0 < grants_left pol k st" using eq pos by (simp split: if_splits)
  show "pending st' = pending st" "audit st' = audit st" using eq by (simp_all split: if_splits)
  show "grants_left pol k' st' = (if b \<and> same_call pol k k' then grants_left pol k' st - 1 else grants_left pol k' st)"
  proof (cases "grant_target pol k \<in> set ?gs")
    case True
    have rest: "get_default (map_of (once_grants st') x) [] =
        (if x = grant_key k then remove1 (grant_target pol k) ?gs else get_default (map_of (once_grants st) x) [])" for x
      using eq True by (auto simp: get_default_def)
    have "b" using eq True by simp
    with rest [of "grant_key k'"] True show ?thesis
      by (auto simp: grants_left_def same_call_def count_list_remove1)
  next
    case False
    with eq show ?thesis by simp
  qed
qed

lemma grants_left_grant:
  "grants_left pol k' (grant_once pol k st) = grants_left pol k' st + (if same_call pol k k' then 1 else 0)"
  by (auto simp: grants_left_def grant_once_def Let_def same_call_def grant_key_def grant_target_def get_default_def)

text \<open>
  What one check can do: decide without touching pending requests, or wait; grants only go
  where a decision used one.
\<close>

lemma check_start_cases:
  assumes "check_start pol rs k pid bc st = (out, st')"
  shows "(\<exists>d. out = Decided d \<and> d_persist d = None \<and> pending st' = pending st \<and>
       (d_source d = SOnceGrant \<longrightarrow> 0 < grants_left pol k st) \<and>
       grants_left pol k' st' = (if d_source d = SOnceGrant \<and> same_call pol k k' then grants_left pol k' st - 1
                                 else grants_left pol k' st)) \<or>
    ((out = Suspended \<or> out = BroadcastRaised) \<and> grants_left pol k' st' = grants_left pol k' st \<and>
     \<not> c_depth k > 0 \<and> mode rs = DefaultMode \<and>
     pending st' = dict_set pid \<lparr>p_answer = None, p_call = k, p_source = SHuman\<rparr> (pending st))"
proof -
  obtain b st1 where c: "consume_once_grant pol k st = (b, st1)" by (metis surj_pair)
  have same: "once_grants s = once_grants s' \<Longrightarrow> grants_left pol k' s = grants_left pol k' s'" for s s'
    by (simp add: grants_left_def)
  note c1 = consume_cases(1,2) [OF c] consume_cases(4) [OF c, of k']
  show ?thesis
  proof (cases "mode rs = BypassPermissions \<or> matching_rule pol DenyRule rs k \<or>
      \<not> c_force k \<and> matching_rule pol AllowRule rs k \<or> c_confined k \<and> \<not> c_force k")
    case True
    have direct: "src \<noteq> SOnceGrant \<Longrightarrow>
        \<exists>b' s. s \<noteq> SOnceGrant \<and> decide pol pid k v src None None st = decide pol pid k b' s None None st" for v src
      by blast
    from True have "\<exists>b' s. s \<noteq> SOnceGrant \<and> check_start pol rs k pid bc st = decide pol pid k b' s None None st"
      by (auto simp: check_start_def intro!: direct)
    then obtain b' src where "(out, st') = decide pol pid k b' src None None st" "src \<noteq> SOnceGrant"
      using assms by metis
    from decided [OF this(1)] this(2) same [of st' st] show ?thesis by simp
  next
    case False
    then have s: "check_start pol rs k pid bc st =
        (if b then decide pol pid k True SOnceGrant (Some ''once'') None st1
         else if mode rs = DontAsk then decide pol pid k False SDontAsk None None st
         else if c_depth k > 0 then decide pol pid k False SSubagent None None st
         else ask pol k pid bc st)"
      by (auto simp: check_start_def c split: bool.split)
    show ?thesis
    proof (cases "b \<or> mode rs = DontAsk \<or> c_depth k > 0")
      case True
      then obtain b' src pers st2 where d: "(out, st') = decide pol pid k b' src pers None st2"
          "src = SOnceGrant \<longleftrightarrow> b" "st2 = (if b then st1 else st)"
        using s assms by (cases b; cases "mode rs = DontAsk") auto
      from decided [OF d(1)] d(2,3) c1 same [of st' st2] show ?thesis by (cases b) simp_all
    next
      case nod: False
      have "mode rs = DefaultMode" using False nod by (cases "mode rs") auto
      moreover have a: "(out, st') = ask pol k pid bc st" using s assms nod by simp
      moreover have "once_grants st' = once_grants st" "out = (if bc then Suspended else BroadcastRaised)"
        "pending st' = dict_set pid \<lparr>p_answer = None, p_call = k, p_source = SHuman\<rparr> (pending st)"
        using a by (simp_all add: ask_def Let_def)
      ultimately show ?thesis using nod same [of st' st] by simp
    qed
  qed
qed

section \<open>Interleavings\<close>

datatype perm_op =
    PCheck ruleset call string bool
  | PResume string
  | PResolve string bool string "int option"
  | PClear int
  | PCancel int

fun perm_step :: "policy \<Rightarrow> perm_op \<Rightarrow> perm_state \<Rightarrow> check_outcome option \<times> perm_state" where
  "perm_step pol (PCheck rs k pid bc) st =
     (case check_start pol rs k pid bc st of (out, st') \<Rightarrow> (Some out, st'))"
| "perm_step pol (PResume pid) st = check_resume pol pid st"
| "perm_step pol (PResolve pid approved persistence gid) st =
     (None, snd (resolve pid approved persistence gid st))"
| "perm_step pol (PClear g) st = (None, snd (clear_once_grants_for_group g st))"
| "perm_step pol (PCancel g) st = (None, snd (cancel_pending_for_group g st))"

text \<open>One if the step cleared this call by a once-grant; one if a human granted it once.\<close>

fun used :: "policy \<Rightarrow> call \<Rightarrow> perm_op \<Rightarrow> perm_state \<Rightarrow> nat" where
  "used pol k (PCheck rs k' pid bc) st =
     (case fst (check_start pol rs k' pid bc st) of
        Decided d \<Rightarrow> if d_source d = SOnceGrant \<and> same_call pol k k' then 1 else 0
      | _ \<Rightarrow> 0)"
| "used pol k _ st = 0"

fun granted :: "policy \<Rightarrow> call \<Rightarrow> perm_op \<Rightarrow> perm_state \<Rightarrow> nat" where
  "granted pol k (PResume pid) st =
     (case map_of (pending st) pid of
        None \<Rightarrow> 0
      | Some r \<Rightarrow> if p_answer r = Some (True, ''once'') \<and> same_call pol k (p_call r) then 1 else 0)"
| "granted pol k _ st = 0"

fun times_used :: "policy \<Rightarrow> call \<Rightarrow> perm_op list \<Rightarrow> perm_state \<Rightarrow> nat" where
  "times_used pol k [] st = 0"
| "times_used pol k (x # xs) st = used pol k x st + times_used pol k xs (snd (perm_step pol x st))"

fun times_granted :: "policy \<Rightarrow> call \<Rightarrow> perm_op list \<Rightarrow> perm_state \<Rightarrow> nat" where
  "times_granted pol k [] st = 0"
| "times_granted pol k (x # xs) st = granted pol k x st + times_granted pol k xs (snd (perm_step pol x st))"

lemma same_call_sym: "same_call pol k k' \<longleftrightarrow> same_call pol k' k"
  by (auto simp: same_call_def)

lemma grants_left_pending [simp]: "grants_left pol k (st\<lparr>pending := p\<rparr>) = grants_left pol k st"
  by (simp add: grants_left_def)

lemma resume_grants:
  "grants_left pol k (snd (check_resume pol pid st)) = grants_left pol k st + granted pol k (PResume pid) st"
proof (cases "map_of (pending st) pid")
  case None
  then show ?thesis by (simp add: check_resume_def)
next
  case (Some r)
  let ?st = "st\<lparr>pending := dict_del pid (pending st)\<rparr>"
  have keep: "grants_left pol k (snd (decide pol pid c b src pers pr s)) = grants_left pol k s" for c b src pers pr s
    by (rule grants_left_cong) simp
  have left: "grants_left pol k ?st = grants_left pol k st" by simp
  show ?thesis
  proof (cases "p_answer r = Some (True, ''once'')")
    case True
    with Some have "snd (check_resume pol pid st) =
        snd (decide pol pid (p_call r) True (p_source r) (Some ''once'') None (grant_once pol (p_call r) ?st))"
      by (simp add: check_resume_def Let_def case_prod_beta)
    then show ?thesis using Some True by (simp add: keep left grants_left_grant same_call_sym)
  next
    case False
    have d: "(\<exists>c b src pers pr. snd (check_resume pol pid st) = snd (decide pol pid c b src pers pr ?st)) \<or>
        snd (check_resume pol pid st) = ?st"
    proof (cases "p_answer r")
      case None
      with Some show ?thesis by (simp add: check_resume_def Let_def case_prod_beta) blast
    next
      case (Some a)
      obtain b pers where a: "a = (b, pers)" by (cases a) simp
      show ?thesis
        using \<open>map_of (pending st) pid = Some r\<close> Some False a
        by (cases b; cases "synthesize_args_pattern (py_repr pol) (c_tool (p_call r)) (c_args (p_call r))")
          ((simp add: check_resume_def Let_def case_prod_beta; fail) | (simp add: check_resume_def Let_def case_prod_beta, blast))+
    qed
    then have "grants_left pol k (snd (check_resume pol pid st)) = grants_left pol k ?st"
      using keep by metis
    with Some False show ?thesis by (simp add: left)
  qed
qed

lemma resolve_grants: "grants_left pol k (snd (resolve pid a pers gid st)) = grants_left pol k st"
  by (simp add: resolve_def split: option.split)

lemma cancel_grants: "grants_left pol k (snd (cancel_pending_for_group g st)) = grants_left pol k st"
  by (simp add: cancel_pending_for_group_def)

lemma map_of_filter_key: "map_of (filter (\<lambda>e. P (fst e)) xs) x = (if P x then map_of xs x else None)"
  by (induction xs) auto

lemma clear_grants: "grants_left pol k (snd (clear_once_grants_for_group g st)) \<le> grants_left pol k st"
  using map_of_filter_key [of "\<lambda>key. snd key \<noteq> g" "once_grants st" "grant_key k"]
  by (simp add: grants_left_def clear_once_grants_for_group_def get_default_def)

lemma step_grants:
  "used pol k x st + grants_left pol k (snd (perm_step pol x st)) \<le> grants_left pol k st + granted pol k x st"
proof (cases x)
  case (PCheck rs k' pid bc)
  obtain out st' where e: "check_start pol rs k' pid bc st = (out, st')" by (metis surj_pair)
  have same: "same_call pol k k' \<Longrightarrow> grants_left pol k st = grants_left pol k' st"
    by (simp add: grants_left_def same_call_def)
  show ?thesis
    using check_start_cases [OF e, of k] same PCheck e same_call_sym [of pol k k'] by auto
next
  case (PResume pid)
  with resume_grants [of pol k pid st] show ?thesis by simp
qed (simp_all add: resolve_grants cancel_grants clear_grants)

text \<open>
  C10. A one-time approval clears one call: in every interleaving of checks, answers,
  time-outs, disconnects and evictions, for every bot, group, tool and arguments, the
  number of calls cleared by once-grants is at most the number of human approvals for
  exactly this call, beyond those already held.
\<close>

theorem once_grants_are_single_use:
  "times_used pol k xs st \<le> times_granted pol k xs st + grants_left pol k st"
proof (induction xs arbitrary: st)
  case (Cons x xs)
  from Cons [of "snd (perm_step pol x st)"] step_grants [of pol k x st] show ?case by simp
qed simp

text \<open>
  C11. What the pipeline allows at once: outside the bypass mode no call that a deny rule
  matches, and a call that must reach a human (a destructive one) only by consuming a
  one-time grant for exactly this call; standing rules and workspace confinement do not
  clear it.
\<close>

theorem immediate_allow_is_authorized:
  assumes "check_start pol rs k pid bc st = (Decided d, st')" "d_allow d" "mode rs \<noteq> BypassPermissions"
  shows "\<not> matching_rule pol DenyRule rs k \<and>
    (if d_source d = SOnceGrant
     then 0 < grants_left pol k st \<and> grants_left pol k st' = grants_left pol k st - 1
     else \<not> c_force k \<and> (c_confined k \<or> matching_rule pol AllowRule rs k))"
proof -
  have grants: "d_source d = SOnceGrant \<Longrightarrow>
      0 < grants_left pol k st \<and> grants_left pol k st' = grants_left pol k st - 1"
    using check_start_cases [OF assms(1), of k] by (auto simp: same_call_def)
  obtain b st1 where c: "consume_once_grant pol k st = (b, st1)" by (metis surj_pair)
  have "\<not> matching_rule pol DenyRule rs k \<and>
      (d_source d = SOnceGrant \<or> (\<not> c_force k \<and> (c_confined k \<or> matching_rule pol AllowRule rs k)))"
    using assms by (auto simp: check_start_def decide_def ask_def c Let_def split: if_splits bool.splits)
  with grants show ?thesis by auto
qed

section \<open>Attenuation\<close>

definition allows_now :: "policy \<Rightarrow> ruleset \<Rightarrow> call \<Rightarrow> perm_state \<Rightarrow> bool" where
  "allows_now pol rs k st \<longleftrightarrow> mode rs = BypassPermissions \<or>
     \<not> matching_rule pol DenyRule rs k \<and>
     (\<not> c_force k \<and> (matching_rule pol AllowRule rs k \<or> c_confined k) \<or> 0 < grants_left pol k st)"

lemma check_allows:
  "(case fst (check_start pol rs k pid bc st) of Decided d \<Rightarrow> d_allow d | _ \<Rightarrow> False) \<longleftrightarrow> allows_now pol rs k st"
proof -
  obtain b st1 where c: "consume_once_grant pol k st = (b, st1)" by (metis surj_pair)
  show ?thesis
    using consume_cases(1) [OF c]
    by (simp add: check_start_def allows_now_def c ask_def Let_def split: bool.split) auto
qed

lemma attenuated_rules:
  assumes "derive_subagent_ruleset (Some rs) = Some child"
  shows "matching_rule pol DenyRule child k = matching_rule pol DenyRule rs k"
    "matching_rule pol AllowRule child k \<Longrightarrow> matching_rule pol AllowRule rs k"
    "mode child \<noteq> BypassPermissions"
    "r \<in> set (rules child) \<Longrightarrow> rule_action r = AllowRule \<Longrightarrow> args_pattern r = '''' \<or> args_pattern r = ''*'' \<Longrightarrow>
     \<not> covers_high_risk (tool_pattern r)"
  using assms
  by (auto simp: derive_subagent_ruleset_def matching_rule_def list_ex_iff inheritable_def split: if_splits)


section \<open>Gaps\<close>

text \<open>
  A command that consists of wrappers only has no scope, and the empty pattern that stands
  for it is the blanket one: after the user answered always to \<^verbatim>\<open>env\<close>, the rule returned to
  the caller matches every shell command.
\<close>

theorem wrapper_approval_is_blanket:
  assumes "map_of (pending st) pid = Some r" "p_answer r = Some (True, ''always'')"
    "c_tool (p_call r) = ''run_shell''" "c_args (p_call r) = [(''cmd'', JStr ''env'')]"
  shows "\<exists>d rule. fst (check_resume pol pid st) = Some (Decided d) \<and> d_persist d = Some rule \<and>
    rule_matches (py_repr pol) rule ''run_shell'' args"
proof -
  have "bash_pattern (py_strip ''env'') = None" by code_simp
  moreover have "fnmatch ''run_shell'' ''run_shell''" by code_simp
  ultimately show ?thesis
    using assms by (simp add: check_resume_def Let_def case_prod_beta synthesize_args_pattern_def opt_or_def rule_matches_def)
qed

text \<open>
  The inheritance filter knows two spellings of a blanket argument pattern; a third one,
  equivalent on every call with an argument, is inherited.
\<close>

lemma other_blanket_inherited:
  "inheritable \<lparr>tool_pattern = ''run_shell'', args_pattern = ''**'', rule_action = AllowRule\<rparr> \<and>
   rule_matches rp \<lparr>tool_pattern = ''run_shell'', args_pattern = ''**'', rule_action = AllowRule\<rparr>
     ''run_shell'' [(''cmd'', JStr s)]"
proof -
  have "glob_accepts [Star, Star] s" unfolding glob_accepts_Star [of "[Star]"] glob_accepts_Star [of "[]"] by auto
  then have "fnmatch s ''**''" by (simp add: fnmatch_def)
  moreover have "fnmatch ''run_shell'' ''run_shell''" by code_simp
  ultimately show ?thesis
    by (simp add: inheritable_def rule_matches_def name_scoped_field_def match_args_pattern_def)
qed

text \<open>
  When announcing a request raises, the check ends but its request stays pending: nothing
  will resume it.
\<close>

lemma failed_broadcast_leaks_pending:
  assumes "check_start pol rs k pid False st = (out, st')" "\<nexists>d. out = Decided d"
  shows "out = BroadcastRaised \<and> map_of (pending st') pid \<noteq> None"
  using assms check_start_cases [OF assms(1), of k]
  by (auto simp: check_start_def ask_def decide_def Let_def split: if_splits prod.splits bool.splits)

section \<open>Worked instances\<close>

definition demo_policy :: policy where
  "demo_policy = \<lparr>py_repr = \<lambda>v. '''', fingerprint = \<lambda>a. concat (map fst a), significant = \<lambda>t a. True, recording = False\<rparr>"

definition demo_call :: call where
  "demo_call = \<lparr>c_tool = ''run_shell'', c_args = [(''cmd'', JStr ''git push --force'')], c_bot = 7, c_group = 1,
     c_depth = 1, c_confined = True, c_force = True\<rparr>"

definition demo_perms :: perm_state where
  "demo_perms = grant_once demo_policy demo_call \<lparr>once_grants = [], pending = [], audit = []\<rparr>"

definition demo_rules :: ruleset where
  "demo_rules = \<lparr>rules = [\<lparr>tool_pattern = ''run_shell'', args_pattern = '''', rule_action = AllowRule\<rparr>], mode = DefaultMode\<rparr>"

theorem immediate_allow_is_authorized_witness:
  "\<exists>d st'. check_start demo_policy demo_rules demo_call ''p'' True demo_perms = (Decided d, st') \<and>
     grants_left demo_policy demo_call st' = grants_left demo_policy demo_call demo_perms - 1"
proof -
  have "fst (check_start demo_policy demo_rules demo_call ''p'' True demo_perms) =
      Decided \<lparr>d_allow = True, d_source = SOnceGrant, d_persist = None\<rparr>" by code_simp
  then obtain st' where e: "check_start demo_policy demo_rules demo_call ''p'' True demo_perms =
      (Decided \<lparr>d_allow = True, d_source = SOnceGrant, d_persist = None\<rparr>, st')" by (metis prod.collapse)
  have "mode demo_rules \<noteq> BypassPermissions" by (simp add: demo_rules_def)
  from immediate_allow_is_authorized [OF e _ this] e show ?thesis by simp
qed


definition demo_request :: pending_request where
  "demo_request = \<lparr>p_answer = Some (True, ''always''),
     p_call = demo_call\<lparr>c_args := [(''cmd'', JStr ''env'')]\<rparr>, p_source = SHuman\<rparr>"

definition demo_pending :: perm_state where
  "demo_pending = \<lparr>once_grants = [], pending = [(''p'', demo_request)], audit = []\<rparr>"

theorem wrapper_approval_is_blanket_witness:
  "\<exists>d rule. fst (check_resume demo_policy ''p'' demo_pending) = Some (Decided d) \<and> d_persist d = Some rule \<and>
     rule_matches (py_repr demo_policy) rule ''run_shell'' [(''cmd'', JStr ''rm -rf /srv'')]"
  by (rule wrapper_approval_is_blanket [where r = demo_request])
    (simp_all add: demo_pending_def demo_request_def demo_call_def)

end
