(* ===== verification/UText.thy ===== *)
theory UText
  imports Prelude
begin

text \<open>
  Texts as lists of Unicode code points, with the operations of Python's \<open>str\<close> that the editing
  and orchestration components use: white space, counting and replacing, lines, digits.
\<close>

section \<open>Texts\<close>

type_synonym utext = "nat list"

definition ascii :: "string \<Rightarrow> utext" where
  "ascii s = map of_char s"

abbreviation "NL \<equiv> (10::nat)"
abbreviation "CR \<equiv> (13::nat)"
abbreviation "BOM \<equiv> (65279::nat)"

definition u_space :: "nat \<Rightarrow> bool" where
  "u_space c \<longleftrightarrow> (9 \<le> c \<and> c \<le> 13) \<or> (28 \<le> c \<and> c \<le> 32) \<or> c = 133 \<or> c = 160 \<or> c = 5760 \<or>
     (8192 \<le> c \<and> c \<le> 8202) \<or> c = 8232 \<or> c = 8233 \<or> c = 8239 \<or> c = 8287 \<or> c = 12288"

definition u_strip :: "utext \<Rightarrow> utext" where
  "u_strip s = rev (dropWhile u_space (rev (dropWhile u_space s)))"

text \<open>\<open>s.count(sub)\<close> and \<open>s.replace(sub, new)\<close>, from the left and without overlaps.\<close>

function u_count :: "utext \<Rightarrow> utext \<Rightarrow> nat" where
  "u_count sub s =
     (if sub = [] then length s + 1
      else if s = [] then 0
      else if is_prefix sub s then Suc (u_count sub (drop (length sub) s))
      else u_count sub (tl s))"
  by pat_completeness auto
termination
  by (relation "measure (\<lambda>(sub, s). length s)") (auto simp: neq_Nil_conv)

function u_replace :: "utext \<Rightarrow> utext \<Rightarrow> utext \<Rightarrow> utext" where
  "u_replace sub new s =
     (if sub = [] then new @ concat (map (\<lambda>c. c # new) s)
      else if s = [] then []
      else if is_prefix sub s then new @ u_replace sub new (drop (length sub) s)
      else hd s # u_replace sub new (tl s))"
  by pat_completeness auto
termination
  by (relation "measure (\<lambda>(sub, new, s). length s)") (auto simp: neq_Nil_conv)

text \<open>\<open>s.replace(sub, new, 1)\<close> for a non-empty \<open>sub\<close>.\<close>

fun u_replace1 :: "utext \<Rightarrow> utext \<Rightarrow> utext \<Rightarrow> utext" where
  "u_replace1 sub new [] = []"
| "u_replace1 sub new (c # s) =
     (if is_prefix sub (c # s) then new @ drop (length sub) (c # s) else c # u_replace1 sub new s)"

declare u_count.simps [simp del] u_replace.simps [simp del]

lemma u_replace_steps [simp]:
  "sub \<noteq> [] \<Longrightarrow> u_replace sub new [] = []"
  "sub \<noteq> [] \<Longrightarrow> is_prefix sub (c # s) \<Longrightarrow> u_replace sub new (c # s) = new @ u_replace sub new (drop (length sub) (c # s))"
  "\<not> is_prefix sub (c # s) \<Longrightarrow> u_replace sub new (c # s) = c # u_replace sub new s"
  by (subst u_replace.simps, force)+

lemma u_count_steps [simp]:
  "sub \<noteq> [] \<Longrightarrow> u_count sub [] = 0"
  "sub \<noteq> [] \<Longrightarrow> is_prefix sub (c # s) \<Longrightarrow> u_count sub (c # s) = Suc (u_count sub (drop (length sub) (c # s)))"
  "\<not> is_prefix sub (c # s) \<Longrightarrow> u_count sub (c # s) = u_count sub s"
  by (subst u_count.simps, force)+

fun split_nl :: "utext \<Rightarrow> utext list" where
  "split_nl [] = [[]]"
| "split_nl (c # s) =
     (if c = NL then [] # split_nl s
      else (case split_nl s of l # ls \<Rightarrow> (c # l) # ls | [] \<Rightarrow> [[c]]))"

abbreviation "join_nl \<equiv> join_with [NL]"

lemma split_nl_nonempty [simp]: "split_nl s \<noteq> []"
  by (induction s) (auto split: list.splits)

lemma join_split_nl [simp]: "join_nl (split_nl s) = s"
proof (induction s)
  case (Cons c s)
  obtain l ls where "split_nl s = l # ls" by (cases "split_nl s") auto
  with Cons show ?case by (cases ls) auto
qed simp

lemma is_prefix_append: "is_prefix xs s \<Longrightarrow> xs @ drop (length xs) s = s"
  by (auto simp: is_prefix_iff)

text \<open>An occurrence splits the text; the first one is where a single replacement goes.\<close>

lemma u_count_pos: "sub \<noteq> [] \<Longrightarrow> 0 < u_count sub s \<longleftrightarrow> is_infix sub s"
proof (induction s rule: u_count.induct [of _ sub s for sub s])
  case (1 sub s)
  show ?case
  proof (cases s)
    case Nil
    with 1 show ?thesis by simp
  next
    case (Cons c t)
    with 1 show ?thesis by (cases "is_prefix sub (c # t)") auto
  qed
qed

lemma u_replace1_split:
  "sub \<noteq> [] \<Longrightarrow> is_infix sub s \<Longrightarrow> \<exists>pre post. s = pre @ sub @ post \<and> u_replace1 sub new s = pre @ new @ post"
proof (induction s)
  case (Cons c s)
  show ?case
  proof (cases "is_prefix sub (c # s)")
    case True
    with is_prefix_append [OF True] show ?thesis
      by (intro exI [of _ "[]"] exI [of _ "drop (length sub) (c # s)"]) simp
  next
    case False
    with Cons obtain pre post where "s = pre @ sub @ post" "u_replace1 sub new s = pre @ new @ post" by auto
    with False show ?thesis by (intro exI [of _ "c # pre"] exI [of _ post]) simp
  qed
qed simp

section \<open>Lines and numbers\<close>

text \<open>\<open>str.splitlines()\<close>: all line boundaries of Unicode, with CR LF as one of them.\<close>

definition u_linebreak :: "nat \<Rightarrow> bool" where
  "u_linebreak c \<longleftrightarrow> (10 \<le> c \<and> c \<le> 13) \<or> (28 \<le> c \<and> c \<le> 30) \<or> c = 133 \<or> c = 8232 \<or> c = 8233"

fun u_lines_from :: "utext \<Rightarrow> utext \<Rightarrow> utext list" where
  "u_lines_from l [] = (if l = [] then [] else [rev l])"
| "u_lines_from l (c # s) =
     (if \<not> u_linebreak c then u_lines_from (c # l) s
      else rev l # (case s of d # s' \<Rightarrow> if c = CR \<and> d = NL then u_lines_from [] s' else u_lines_from [] s
                    | [] \<Rightarrow> []))"

definition u_splitlines :: "utext \<Rightarrow> utext list" where
  "u_splitlines s = u_lines_from [] s"

text \<open>\<open>str(i)\<close> as a text, and \<open>int(s)\<close> on an optional minus sign followed by ASCII digits.\<close>

definition u_int :: "int \<Rightarrow> utext" where
  "u_int i = ascii (py_str_int i)"

definition digit_string :: "string \<Rightarrow> bool" where
  "digit_string s \<longleftrightarrow> s \<noteq> [] \<and> list_all (\<lambda>c. 48 \<le> (of_char c :: nat) \<and> (of_char c :: nat) < 58) s"

definition int_of_string :: "string \<Rightarrow> int option" where
  "int_of_string s =
     (case s of
        [] \<Rightarrow> None
      | c # t \<Rightarrow>
          if c = CHR ''-'' then (if digit_string t then Some (- int (digits_value t)) else None)
          else if digit_string s then Some (int (digits_value s)) else None)"

lemma digit_string_digits: "digit_string (digits_of (n + 1) n)"
proof -
  have "digits_of (n + 1) n \<noteq> []" by simp
  with digits_of_chars show ?thesis
    unfolding digit_string_def list_all_iff by blast
qed

lemma int_of_string_str [simp]: "int_of_string (py_str_int i) = Some i"
proof -
  have digits: "digits_value (digits_of (n + 1) n) = n" for n
    by (rule digits_value_digits [OF less_pow10])
  have plain: "int_of_string (digits_of (n + 1) n) = Some (int n)" for n
  proof -
    define ds where "ds = digits_of (n + 1) n"
    have d: "digit_string ds" "digits_value ds = n"
      unfolding ds_def by (rule digit_string_digits) (rule digits)
    have nodash: "CHR ''-'' \<notin> set ds" using digits_of_chars [of "CHR ''-''" "n + 1" n] unfolding ds_def by auto
    from d have "ds \<noteq> []" by (simp add: digit_string_def)
    with d nodash have "int_of_string ds = Some (int n)" by (auto simp: int_of_string_def split: list.split)
    then show ?thesis by (simp only: ds_def)
  qed
  show ?thesis
  proof (cases "i < 0")
    case True
    then have "py_str_int i = CHR ''-'' # digits_of (nat (- i) + 1) (nat (- i))"
      by (simp add: py_str_int_def del: digits_of.simps)
    then have "int_of_string (py_str_int i) = Some (- int (nat (- i)))"
      by (simp only: int_of_string_def list.simps digit_string_digits digits if_True refl)
    with True show ?thesis by simp
  next
    case False
    then have "py_str_int i = digits_of (nat i + 1) (nat i)"
      by (simp add: py_str_int_def del: digits_of.simps)
    with plain [of "nat i"] False show ?thesis by simp
  qed
qed

end
