(* ===== verification/EditText.thy ===== *)
theory EditText
  imports UText
begin

text \<open>
  The line-ending layer \<^verbatim>\<open>editing/eol.py\<close> and the position-mapping
  normalizer \<^verbatim>\<open>editing/normalize.py\<close>.
\<close>

section \<open>Line endings and byte-order mark\<close>

definition CRLF :: utext where "CRLF = [CR, NL]"

definition strip_bom :: "utext \<Rightarrow> utext \<times> utext" where
  "strip_bom s = (case s of c # t \<Rightarrow> if c = BOM then ([BOM], t) else ([], s) | [] \<Rightarrow> ([], []))"

definition detect_eol :: "utext \<Rightarrow> utext" where
  "detect_eol s =
     (let crlf = u_count CRLF s; cr = u_count [CR] s - crlf; lf = u_count [NL] s - crlf in
      if crlf \<noteq> 0 \<and> lf \<le> crlf \<and> cr \<le> crlf then CRLF
      else if cr \<noteq> 0 \<and> lf < cr then [CR]
      else [NL])"

definition to_lf :: "utext \<Rightarrow> utext" where
  "to_lf s = u_replace [CR] [NL] (u_replace CRLF [NL] s)"

definition restore_eol :: "utext \<Rightarrow> utext \<Rightarrow> utext" where
  "restore_eol s eol = (if eol = [NL] then s else u_replace [NL] eol s)"

lemma u_replace_char: "u_replace [x] new s = concat (map (\<lambda>c. if c = x then new else [c]) s)"
  by (induction s) simp_all

lemma u_count_char: "u_count [x] s = count_list s x"
  by (induction s) simp_all

lemma u_replace_crlf_simps:
  "u_replace CRLF new [] = []"
  "u_replace CRLF new (CR # NL # s) = new @ u_replace CRLF new s"
  "c \<noteq> CR \<Longrightarrow> u_replace CRLF new (c # s) = c # u_replace CRLF new s"
  "u_count CRLF [] = 0"
  "u_count CRLF (CR # NL # s) = Suc (u_count CRLF s)"
  "c \<noteq> CR \<Longrightarrow> u_count CRLF (c # s) = u_count CRLF s"
  by (simp_all add: CRLF_def)

lemma no_crlf: "CR \<notin> set t \<Longrightarrow> u_replace CRLF new t = t \<and> u_count CRLF t = 0"
  by (induction t) (simp_all add: u_replace_crlf_simps)

lemma crlf_lines:
  "CR \<notin> set t \<Longrightarrow> u_replace CRLF [NL] (u_replace [NL] CRLF t) = t \<and> u_count CRLF (u_replace [NL] CRLF t) = count_list t NL"
proof (induction t)
  case (Cons c t)
  have step: "u_replace [NL] CRLF (c # t) = (if c = NL then CR # NL # u_replace [NL] CRLF t else c # u_replace [NL] CRLF t)"
    by (simp add: u_replace_char CRLF_def)
  show ?case
    unfolding step using Cons by (auto simp: u_replace_crlf_simps)
qed (simp add: u_replace_char u_replace_crlf_simps)

lemma to_lf_no_cr: "CR \<notin> set t \<Longrightarrow> to_lf t = t"
proof -
  assume "CR \<notin> set t"
  moreover have "concat (map (\<lambda>c. if c = CR then [NL] else [c]) t) = t" if "CR \<notin> set t" for t
    using that by (induction t) auto
  ultimately show ?thesis by (simp add: to_lf_def no_crlf u_replace_char)
qed

lemma restore_cr: "CR \<notin> set t \<Longrightarrow>
    u_replace [CR] [NL] (u_replace [NL] [CR] t) = t \<and> NL \<notin> set (u_replace [NL] [CR] t) \<and>
    count_list (u_replace [NL] [CR] t) CR = count_list t NL"
  by (induction t) (auto simp: u_replace_char)

lemma no_nl_crlf: "NL \<notin> set t \<Longrightarrow> u_replace CRLF new t = t \<and> u_count CRLF t = 0"
proof (induction t)
  case (Cons c t)
  then have "\<not> is_prefix CRLF (c # t)" by (cases t) (auto simp: CRLF_def)
  with Cons show ?case by simp
qed (simp add: u_replace_crlf_simps)

lemma to_lf_removes_cr: "CR \<notin> set (to_lf s)"
proof -
  have "CR \<notin> set (concat (map (\<lambda>c. if c = CR then [NL] else [c]) t))" for t
    by (induction t) auto
  then show ?thesis by (simp add: to_lf_def u_replace_char)
qed

text \<open>
  For a text whose lines all end the same way the line-ending layer is lossless: the
  ending is recognised, the text seen by the matchers is the same one with line feeds, and
  restoring gives the original back.
\<close>

theorem eol_roundtrip:
  assumes "CR \<notin> set t" "eol \<in> {CRLF, [CR], [NL]}" "NL \<in> set t \<or> eol = [NL]" "s = restore_eol t eol"
  shows "detect_eol s = eol \<and> to_lf s = t \<and> restore_eol (to_lf s) (detect_eol s) = s"
proof -
  have pos: "NL \<in> set t \<Longrightarrow> count_list t NL \<noteq> 0" by (simp add: count_list_0_iff)
  have ne: "CRLF \<noteq> [NL]" "[CR] \<noteq> [NL]" "[CR] \<noteq> CRLF" "CRLF \<noteq> [CR]" by (simp_all add: CRLF_def)
  have "detect_eol s = eol \<and> to_lf s = t"
  proof (cases "eol = [NL]")
    case True
    then have "s = t" using assms(4) by (simp add: restore_eol_def)
    moreover have "count_list t CR = 0" using assms(1) by (simp add: count_list_0_iff)
    ultimately show ?thesis
      using True assms(1) by (simp add: detect_eol_def Let_def no_crlf u_count_char to_lf_no_cr)
  next
    case False
    then have nl: "NL \<in> set t" and s: "s = u_replace [NL] eol t" using assms(3,4) by (auto simp: restore_eol_def)
    show ?thesis
    proof (cases "eol = CRLF")
      case True
      have "count_list (u_replace [NL] CRLF t) CR = count_list t NL \<and>
          count_list (u_replace [NL] CRLF t) NL = count_list t NL"
        using assms(1) by (induction t) (auto simp: u_replace_char CRLF_def)
      then show ?thesis
        using True s nl pos crlf_lines [OF assms(1)] to_lf_no_cr [OF assms(1)]
        by (simp add: detect_eol_def Let_def u_count_char to_lf_def no_crlf [OF assms(1)])
    next
      case other: False
      then have cr: "eol = [CR]" using assms(2) False by auto
      have "count_list s NL = 0" "u_count CRLF s = 0" "count_list s CR \<noteq> 0" "to_lf s = t"
        using restore_cr [OF assms(1)] no_nl_crlf [of s] s cr nl pos by (simp_all add: to_lf_def count_list_0_iff)
      then show ?thesis using cr by (simp add: detect_eol_def Let_def u_count_char)
    qed
  qed
  with assms(4) show ?thesis by simp
qed

theorem eol_roundtrip_witness: "detect_eol [97, CR, NL] = CRLF"
proof -
  have "restore_eol [97, NL] CRLF = [97, CR, NL]" by (simp add: restore_eol_def CRLF_def u_replace_char)
  with eol_roundtrip [of "[97, NL]" CRLF "[97, CR, NL]"] show ?thesis by simp
qed

section \<open>Position-mapping normalization\<close>

text \<open>
  A transform looks at the text from a position on and answers how many characters it
  consumes and what it emits for them; each one consumes at least one.
\<close>

type_synonym transform = "utext \<Rightarrow> (nat \<times> utext) option"

fun first_transform :: "transform list \<Rightarrow> utext \<Rightarrow> nat \<times> utext" where
  "first_transform [] s = (1, take 1 s)"
| "first_transform (t # ts) s = (case t s of Some r \<Rightarrow> r | None \<Rightarrow> first_transform ts s)"

function norm_from :: "transform list \<Rightarrow> nat \<Rightarrow> utext \<Rightarrow> utext \<times> nat list" where
  "norm_from ts i [] = ([], [i])"
| "norm_from ts i (c # s) =
     (case first_transform ts (c # s) of
        (consumed, emitted) \<Rightarrow>
          (case norm_from ts (i + max 1 consumed) (drop (max 1 consumed) (c # s)) of
             (text, src) \<Rightarrow> (emitted @ text, map (\<lambda>_. i) emitted @ src)))"
  by pat_completeness auto
termination
  by (relation "measure (\<lambda>(ts, i, s). length s)") auto

definition normalize :: "transform list \<Rightarrow> utext \<Rightarrow> utext \<times> nat list" where
  "normalize ts s = norm_from ts 0 s"

text \<open>All occurrences, overlapping ones too, as ranges of the original text.\<close>

definition iter_spans :: "transform list \<Rightarrow> utext \<Rightarrow> utext \<Rightarrow> (nat \<times> nat) list" where
  "iter_spans ts content sought =
     (let nf = fst (normalize ts sought) in
      if nf = [] then []
      else
        (case normalize ts content of
           (text, src) \<Rightarrow>
             map (\<lambda>i. (src ! i, src ! (i + length nf)))
               (filter (\<lambda>i. is_prefix nf (drop i text)) [0..<length text])))"

definition slice :: "nat \<Rightarrow> nat \<Rightarrow> utext \<Rightarrow> utext" where
  "slice a b s = take (b - a) (drop a s)"

fun t_quotes :: transform where
  "t_quotes [] = None"
| "t_quotes (c # s) =
     (if c \<in> {8216, 8217, 8218, 8219} then Some (1, [39])
      else if c \<in> {8220, 8221, 8222, 8223} then Some (1, [34]) else None)"

fun t_dashes :: transform where
  "t_dashes [] = None"
| "t_dashes (c # s) = (if c \<in> {8208, 8209, 8210, 8211, 8212, 8213, 8722} then Some (1, [45]) else None)"

text \<open>The table of spaces as it stands in the source: the blank and the ideographic space.\<close>

fun t_uspace :: transform where
  "t_uspace [] = None"
| "t_uspace (c # s) = (if c \<in> {32, 12288} then Some (1, [32]) else None)"

definition escapes :: "(nat \<times> nat) list" where
  "escapes = [(110, 10), (116, 9), (114, 13), (34, 34), (39, 39), (92, 92), (96, 96), (48, 0)]"

fun t_unescape :: transform where
  "t_unescape (c # d # s) =
     (if c = 92 then map_option (\<lambda>e. (2, [e])) (map_of escapes d) else None)"
| "t_unescape _ = None"

definition char_transforms :: "transform list" where
  "char_transforms = [t_quotes, t_dashes, t_uspace]"

definition escape_transforms :: "transform list" where
  "escape_transforms = [t_unescape]"

subsection \<open>What a range stands for\<close>

text \<open>
  The interface of the normalizer: what the first applicable transform answers emits one
  character, consumes a part of the text, and depends on that part only.
\<close>

locale local_transforms =
  fixes ts :: "transform list"
  assumes emits_one: "s \<noteq> [] \<Longrightarrow> first_transform ts s = (k, e) \<Longrightarrow> length e = 1"
    and consumes: "s \<noteq> [] \<Longrightarrow> first_transform ts s = (k, e) \<Longrightarrow> 1 \<le> k \<and> k \<le> length s"
    and looks_at: "s \<noteq> [] \<Longrightarrow> first_transform ts s = (k, e) \<Longrightarrow> k \<le> m \<Longrightarrow> first_transform ts (take m s) = (k, e)"
begin

lemma norm_step:
  assumes "s \<noteq> []"
  obtains k e out src where "first_transform ts s = (k, [e])" "1 \<le> k" "k \<le> length s"
    "norm_from ts (i + k) (drop k s) = (out, src)" "norm_from ts i s = (e # out, i # src)"
proof -
  obtain k es where f: "first_transform ts s = (k, es)" by (metis surj_pair)
  obtain out src where r: "norm_from ts (i + k) (drop k s) = (out, src)" by (metis surj_pair)
  obtain e where "es = [e]" using emits_one [OF assms f] by (cases es) auto
  moreover have "1 \<le> k" "k \<le> length s" using consumes [OF assms f] by simp_all
  moreover have "norm_from ts i s = (es @ out, map (\<lambda>_. i) es @ src)"
    using assms f r \<open>1 \<le> k\<close> by (cases s) (simp_all add: max_def)
  ultimately show ?thesis using that f r by simp
qed

lemma norm_length: "norm_from ts i s = (out, src) \<Longrightarrow> length src = Suc (length out)"
proof (induction "length s" arbitrary: i s out src rule: less_induct)
  case less
  show ?case
  proof (cases "s = []")
    case False
    obtain k e out' src' where n: "1 \<le> k" "k \<le> length s" "norm_from ts (i + k) (drop k s) = (out', src')"
        "norm_from ts i s = (e # out', i # src')" by (rule norm_step [OF False])
    have "length (drop k s) < length s" using n(1) False by simp
    with less.hyps [OF this n(3)] n(4) less.prems show ?thesis by simp
  qed (use less.prems in auto)
qed

lemma norm_src_ge: "norm_from ts i s = (out, src) \<Longrightarrow> j \<le> length out \<Longrightarrow> i \<le> src ! j"
proof (induction "length s" arbitrary: i s out src j rule: less_induct)
  case less
  show ?case
  proof (cases "s = []")
    case False
    obtain k e out' src' where n: "1 \<le> k" "norm_from ts (i + k) (drop k s) = (out', src')"
        "norm_from ts i s = (e # out', i # src')" by (rule norm_step [OF False])
    have "length (drop k s) < length s" using n(1) False by simp
    with less.hyps [OF this n(2), of "j - 1"] n(3) less.prems show ?thesis by (cases j) auto
  qed (use less.prems in auto)
qed

lemma norm_suffix:
  "norm_from ts i s = (out, src) \<Longrightarrow> j \<le> length out \<Longrightarrow>
   norm_from ts (src ! j) (drop (src ! j - i) s) = (drop j out, drop j src)"
proof (induction "length s" arbitrary: i s out src j rule: less_induct)
  case less
  show ?case
  proof (cases "s = [] \<or> j = 0")
    case True
    with less.prems show ?thesis
      by (cases "s = []") (auto elim!: norm_step [where i = i])
  next
    case False
    then have ne: "s \<noteq> []" by simp
    obtain k e out' src' where n: "1 \<le> k" "norm_from ts (i + k) (drop k s) = (out', src')"
        "norm_from ts i s = (e # out', i # src')" by (rule norm_step [OF ne])
    obtain j' where j: "j = Suc j'" using False by (cases j) auto
    have le: "j' \<le> length out'" using n(3) j less.prems by simp
    have "length (drop k s) < length s" using n(1) ne by simp
    with less.hyps [OF this n(2) le] norm_src_ge [OF n(2) le] n(3) j less.prems(1) show ?thesis
      by (simp add: add.commute)
  qed
qed

lemma norm_prefix:
  "norm_from ts i s = (out, src) \<Longrightarrow> j \<le> length out \<Longrightarrow> fst (norm_from ts i (take (src ! j - i) s)) = take j out"
proof (induction "length s" arbitrary: i s out src j rule: less_induct)
  case less
  show ?case
  proof (cases "s = [] \<or> j = 0")
    case True
    with less.prems show ?thesis
      by (cases "s = []") (auto elim!: norm_step [where i = i])
  next
    case False
    then have ne: "s \<noteq> []" by simp
    obtain k e out' src' where n: "first_transform ts s = (k, [e])" "1 \<le> k" "k \<le> length s"
        "norm_from ts (i + k) (drop k s) = (out', src')"
        "norm_from ts i s = (e # out', i # src')" by (rule norm_step [OF ne])
    obtain j' where j: "j = Suc j'" using False by (cases j) auto
    have le: "j' \<le> length out'" using n(5) j less.prems by simp
    define b where "b = src ! j - i"
    have b: "src ! j = src' ! j'" "k \<le> b" "b - k = src' ! j' - (i + k)"
      using norm_src_ge [OF n(4) le] n(5) j less.prems(1) by (auto simp: b_def)
    have "length (drop k s) < length s" using n(2) ne by simp
    from less.hyps [OF this n(4) le] have IH: "fst (norm_from ts (i + k) (take (b - k) (drop k s))) = take j' out'"
      using b(3) by simp
    have t: "take b s \<noteq> []" using b(2) n(2) ne by auto
    have f: "first_transform ts (take b s) = (k, [e])" by (rule looks_at [OF ne n(1) b(2)])
    have d: "drop k (take b s) = take (b - k) (drop k s)" by (simp add: drop_take)
    obtain k2 e2 out2 src2 where m: "first_transform ts (take b s) = (k2, [e2])"
        "norm_from ts (i + k2) (drop k2 (take b s)) = (out2, src2)"
        "norm_from ts i (take b s) = (e2 # out2, i # src2)" by (rule norm_step [OF t])
    have "k2 = k" "e2 = e" using m(1) f by simp_all
    then have "out2 = take j' out'" using m(2) IH d by simp
    with m(3) \<open>e2 = e\<close> n(5) j less.prems(1) show ?thesis by (simp add: b_def)
  qed
qed

lemma norm_offset: "fst (norm_from ts i s) = fst (norm_from ts i' s)"
proof (induction "length s" arbitrary: i i' s rule: less_induct)
  case less
  show ?case
  proof (cases "s = []")
    case False
    obtain k e out src where n: "first_transform ts s = (k, [e])" "1 \<le> k" "norm_from ts (i + k) (drop k s) = (out, src)"
        "norm_from ts i s = (e # out, i # src)" by (rule norm_step [OF False])
    obtain k' e' out' src' where n': "first_transform ts s = (k', [e'])" "norm_from ts (i' + k') (drop k' s) = (out', src')"
        "norm_from ts i' s = (e' # out', i' # src')" by (rule norm_step [OF False])
    have "length (drop k s) < length s" using n(2) False by simp
    with less.hyps [OF this, of "i + k" "i' + k"] n n' show ?thesis by simp
  qed simp
qed

text \<open>Every range found is a piece of the out that normalizes to what was sought.\<close>

lemma span_normalizes:
  assumes "(a, b) \<in> set (iter_spans ts content sought)"
  shows "fst (normalize ts (slice a b content)) = fst (normalize ts sought)"
proof -
  let ?nf = "fst (normalize ts sought)"
  obtain out src where n: "norm_from ts 0 content = (out, src)" by (metis surj_pair)
  obtain i where i: "i < length out" "is_prefix ?nf (drop i out)" "a = src ! i" "b = src ! (i + length ?nf)"
    using assms n by (auto simp: iter_spans_def Let_def normalize_def split: if_splits)
  have le: "i + length ?nf \<le> length out" using i(1,2) by (auto simp: is_prefix_iff dest!: arg_cong [where f = length])
  have s: "norm_from ts a (drop a content) = (drop i out, drop i src)"
    using norm_suffix [OF n, of i] i(1,3) by simp
  have "fst (norm_from ts a (take (drop i src ! length ?nf - a) (drop a content))) = take (length ?nf) (drop i out)"
    by (rule norm_prefix [OF s]) (use le in simp)
  moreover have "drop i src ! length ?nf = b" using norm_length [OF n] le i(4) by simp
  moreover have "take (length ?nf) (drop i out) = ?nf" using i(2) by (auto simp: is_prefix_iff)
  ultimately show ?thesis by (metis norm_offset normalize_def slice_def)
qed

end

interpretation char_layer: local_transforms char_transforms
proof
  fix s k e m
  assume "s \<noteq> []" "first_transform char_transforms s = (k, e)"
  then obtain c t where s: "s = c # t" and f: "first_transform char_transforms (c # t) = (k, e)" by (cases s) auto
  have k: "k = 1" "length e = 1" using f by (auto simp: char_transforms_def split: if_splits)
  then show "length e = 1" "1 \<le> k \<and> k \<le> length s" using s by simp_all
  show "first_transform char_transforms (take m s) = (k, e)" if "k \<le> m"
    using that k f s by (cases m) (auto simp: char_transforms_def split: if_splits)
qed

interpretation escape_layer: local_transforms escape_transforms
proof
  fix s k e m
  assume "s \<noteq> []" "first_transform escape_transforms s = (k, e)"
  then obtain c t where s: "s = c # t" and f: "first_transform escape_transforms (c # t) = (k, e)" by (cases s) auto
  have "length e = 1 \<and> 1 \<le> k \<and> k \<le> length s \<and> (k \<le> m \<longrightarrow> first_transform escape_transforms (take m s) = (k, e))"
  proof (cases t)
    case Nil
    with f s show ?thesis by (cases m) (auto simp: escape_transforms_def)
  next
    case (Cons d u)
    show ?thesis
    proof (cases "c = 92 \<and> map_of escapes d \<noteq> None")
      case True
      then obtain x where x: "map_of escapes d = Some x" by auto
      have ke: "k = 2" "e = [x]" using f Cons True x by (auto simp: escape_transforms_def)
      have "first_transform escape_transforms (take m s) = (k, e)" if two: "2 \<le> m"
      proof -
        obtain m' where "m = Suc (Suc m')" using two by (cases m; cases "m - 1") auto
        with ke s Cons True x show ?thesis by (simp add: escape_transforms_def)
      qed
      with ke s Cons show ?thesis by simp
    next
      case False
      have t: "t_unescape (c # d # w) = None" for w using False by auto
      then have ke: "k = 1" "e = [c]" using f Cons by (auto simp: escape_transforms_def)
      have "first_transform escape_transforms (take m s) = (k, e)" if m: "1 \<le> m"
      proof -
        obtain m' where "m = Suc m'" using m by (cases m) auto
        then show ?thesis using ke s Cons t by (cases m') (simp_all add: escape_transforms_def)
      qed
      with ke s Cons show ?thesis by simp
    qed
  qed
  then show "length e = 1" "1 \<le> k \<and> k \<le> length s"
    "k \<le> m \<Longrightarrow> first_transform escape_transforms (take m s) = (k, e)" by simp_all
qed

end
