(* ===== verification/Replacers.thy ===== *)
theory Replacers
  imports Complex_Main EditText
begin

text \<open>
  The cascade of matchers of \<^verbatim>\<open>editing/replacers.py\<close>: each one looks in a file's content for
  pieces equivalent to the text a model wants replaced, from exact to tolerant. The
  similarity of \<^verbatim>\<open>difflib\<close> that the fuzzy layer compares with its threshold is an argument.
\<close>

section \<open>Lines\<close>

fun line_starts_from :: "nat \<Rightarrow> utext list \<Rightarrow> nat list" where
  "line_starts_from pos [] = []"
| "line_starts_from pos (l # ls) = pos # line_starts_from (pos + length l + 1) ls"

definition line_starts :: "utext list \<Rightarrow> nat list" where
  "line_starts ls = line_starts_from 0 ls"

definition strip_trailing_empty :: "utext list \<Rightarrow> utext list" where
  "strip_trailing_empty ls = (if ls \<noteq> [] \<and> last ls = [] then butlast ls else ls)"

definition blank_line :: "utext \<Rightarrow> bool" where
  "blank_line l \<longleftrightarrow> u_strip l = []"

definition lstrip_indent :: "utext \<Rightarrow> utext" where
  "lstrip_indent l = dropWhile (\<lambda>c. c = 32 \<or> c = 9) l"

definition indent_widths :: "utext list \<Rightarrow> nat list" where
  "indent_widths ls = map (\<lambda>l. length l - length (lstrip_indent l)) (filter (\<lambda>l. \<not> blank_line l) ls)"

definition least_width :: "nat list \<Rightarrow> nat" where
  "least_width ws = foldr min (tl ws) (hd ws)"

definition remove_common_indent :: "utext list \<Rightarrow> utext list" where
  "remove_common_indent ls =
     (let ws = indent_widths ls in
      if ws = [] then ls
      else map (\<lambda>l. if blank_line l then l else drop (least_width ws) l) ls)"

definition line_block :: "utext \<Rightarrow> utext list \<Rightarrow> nat \<Rightarrow> nat \<Rightarrow> utext" where
  "line_block content ls i j = slice (line_starts ls ! i) (line_starts ls ! j + length (ls ! j)) content"

text \<open>The blocks of \<open>n\<close> lines that satisfy a condition, in order.\<close>

definition line_windows :: "(utext list \<Rightarrow> bool) \<Rightarrow> nat \<Rightarrow> utext \<Rightarrow> utext list" where
  "line_windows P n content =
     (let ls = split_nl content in
      map (\<lambda>i. line_block content ls i (i + n - 1))
        (filter (\<lambda>i. P (take n (drop i ls))) [0..<length ls + 1 - n]))"

section \<open>The layers\<close>

definition simple_replacer :: "utext \<Rightarrow> utext \<Rightarrow> utext list" where
  "simple_replacer content sought = (if sought \<noteq> [] \<and> is_infix sought content then [sought] else [])"

definition char_normalized_replacer :: "utext \<Rightarrow> utext \<Rightarrow> utext list" where
  "char_normalized_replacer content sought =
     (if sought = [] then [] else map (\<lambda>(a, b). slice a b content) (iter_spans char_transforms content sought))"

definition escape_normalized_replacer :: "utext \<Rightarrow> utext \<Rightarrow> utext list" where
  "escape_normalized_replacer content sought =
     (if sought = [] then [] else map (\<lambda>(a, b). slice a b content) (iter_spans escape_transforms content sought))"

definition indentation_flexible_replacer :: "utext \<Rightarrow> utext \<Rightarrow> utext list" where
  "indentation_flexible_replacer content sought =
     (let fl = strip_trailing_empty (split_nl sought) in
      if fl = [] then []
      else line_windows (\<lambda>w. remove_common_indent w = remove_common_indent fl) (length fl) content)"

definition same_trimmed :: "utext list \<Rightarrow> utext list \<Rightarrow> bool" where
  "same_trimmed fl w \<longleftrightarrow> map u_strip w = map u_strip fl"

definition line_trimmed_replacer :: "utext \<Rightarrow> utext \<Rightarrow> utext list" where
  "line_trimmed_replacer content sought =
     (let fl = strip_trailing_empty (split_nl sought) in
      if fl = [] then [] else line_windows (same_trimmed fl) (length fl) content)"

definition trim_blank_lines :: "utext list \<Rightarrow> utext list" where
  "trim_blank_lines ls = dropWhile blank_line (rev (dropWhile blank_line (rev ls)))"

definition trimmed_boundary_replacer :: "utext \<Rightarrow> utext \<Rightarrow> utext list" where
  "trimmed_boundary_replacer content sought =
     (let fl = trim_blank_lines (split_nl sought) in
      if fl = [] then [] else line_windows (same_trimmed fl) (length fl) content)"

lemma dropWhile_shorter: "length (dropWhile P s) < Suc (length s)"
  by (simp add: less_Suc_eq_le length_dropWhile_le)

function collapse_spaces :: "utext \<Rightarrow> utext" where
  "collapse_spaces [] = []"
| "collapse_spaces (c # s) =
     (if u_space c then 32 # collapse_spaces (dropWhile u_space s) else c # collapse_spaces s)"
  by pat_completeness auto
termination
  by (relation "measure length") (simp_all add: dropWhile_shorter)

definition ws_norm :: "utext \<Rightarrow> utext" where
  "ws_norm s = u_strip (collapse_spaces s)"

definition whitespace_normalized_replacer :: "utext \<Rightarrow> utext \<Rightarrow> utext list" where
  "whitespace_normalized_replacer content sought =
     (let target = ws_norm sought; n = length (strip_trailing_empty (split_nl sought));
          ls = split_nl content in
      if target = [] \<or> n = 0 \<or> length ls < n then []
      else filter (\<lambda>b. ws_norm b = target)
             (map (\<lambda>i. join_nl (take n (drop i ls))) [0..<length ls + 1 - n]))"

definition context_aware_replacer :: "(utext \<Rightarrow> utext \<Rightarrow> rat) \<Rightarrow> utext \<Rightarrow> utext \<Rightarrow> utext list" where
  "context_aware_replacer ratio content sought =
     (let fl = strip_trailing_empty (split_nl sought); target = join_nl (map u_strip fl) in
      if length fl < 2 then []
      else line_windows (\<lambda>w. ratio target (join_nl (map u_strip w)) \<ge> 9 / 10) (length fl) content)"

text \<open>From every first line to the nearest later last line.\<close>

definition block_anchor_replacer :: "utext \<Rightarrow> utext \<Rightarrow> utext list" where
  "block_anchor_replacer content sought =
     (let fl = strip_trailing_empty (split_nl sought) in
      if length fl < 3 then []
      else
        (let first = u_strip (hd fl); final = u_strip (last fl); ls = split_nl content in
         if first = [] \<or> final = [] then []
         else concat (map (\<lambda>i.
                if u_strip (ls ! i) \<noteq> first then []
                else (case filter (\<lambda>j. u_strip (ls ! j) = final) [i + 1..<length ls] of
                        [] \<Rightarrow> [] | j # _ \<Rightarrow> [line_block content ls i j]))
              [0..<length ls])))"

datatype layer = Simple | CharNormalized | EscapeNormalized | IndentationFlexible | LineTrimmed
  | TrimmedBoundary | WhitespaceNormalized | ContextAware | BlockAnchor

fun run_replacer :: "(utext \<Rightarrow> utext \<Rightarrow> rat) \<Rightarrow> layer \<Rightarrow> utext \<Rightarrow> utext \<Rightarrow> utext list" where
  "run_replacer ratio Simple = simple_replacer"
| "run_replacer ratio CharNormalized = char_normalized_replacer"
| "run_replacer ratio EscapeNormalized = escape_normalized_replacer"
| "run_replacer ratio IndentationFlexible = indentation_flexible_replacer"
| "run_replacer ratio LineTrimmed = line_trimmed_replacer"
| "run_replacer ratio TrimmedBoundary = trimmed_boundary_replacer"
| "run_replacer ratio WhitespaceNormalized = whitespace_normalized_replacer"
| "run_replacer ratio ContextAware = context_aware_replacer ratio"
| "run_replacer ratio BlockAnchor = block_anchor_replacer"

definition REPLACERS :: "layer list" where
  "REPLACERS = [Simple, CharNormalized, EscapeNormalized, IndentationFlexible, LineTrimmed,
     TrimmedBoundary, WhitespaceNormalized, ContextAware, BlockAnchor]"

section \<open>Blocks of lines\<close>

lemma slice_infix [simp]: "is_infix (slice a b s) s"
proof -
  have "s = take a s @ slice a b s @ drop (b - a) (drop a s)"
    by (metis append_take_drop_id slice_def)
  then show ?thesis unfolding is_infix_iff by blast
qed

lemma line_starts_length [simp]: "length (line_starts_from pos ls) = length ls"
  by (induction ls arbitrary: pos) auto

lemma join_nl_drop:
  "i < length ls \<Longrightarrow> pos \<le> line_starts_from pos ls ! i \<and> drop (line_starts_from pos ls ! i - pos) (join_nl ls) = join_nl (drop i ls)"
proof (induction ls arbitrary: pos i)
  case (Cons l ls)
  show ?case
  proof (cases i)
    case (Suc i')
    then have i': "i' < length ls" using Cons.prems by simp
    then obtain l' ls' where ls: "ls = l' # ls'" by (cases ls) auto
    let ?q = "line_starts_from (pos + length l + 1) ls ! i'"
    have IH: "pos + length l + 1 \<le> ?q" "drop (?q - (pos + length l + 1)) (join_nl ls) = join_nl (drop i' ls)"
      using Cons.IH [OF i', of "pos + length l + 1"] by simp_all
    have "drop (?q - pos) (l @ NL # join_nl ls) = drop (?q - (pos + length l + 1)) (join_nl ls)"
      using IH(1) by (simp add: drop_Cons')
    with IH Suc ls show ?thesis by simp
  qed simp
qed simp

lemma line_starts_window:
  "i + n < length ls \<Longrightarrow>
   line_starts_from pos ls ! (i + n) + length (ls ! (i + n)) - line_starts_from pos ls ! i =
   length (join_nl (take (Suc n) (drop i ls)))"
proof (induction i arbitrary: pos ls)
  case 0
  then show ?case
  proof (induction n arbitrary: pos ls)
    case 0
    then show ?case by (cases ls) auto
  next
    case (Suc n)
    then obtain l ls' where ls: "ls = l # ls'" by (cases ls) auto
    then have lt: "n < length ls'" using Suc.prems by simp
    then obtain l' ls'' where ls': "ls' = l' # ls''" by (cases ls') auto
    from Suc.IH [of ls' "pos + length l + 1"] lt join_nl_drop [OF lt, of "pos + length l + 1"]
    show ?case using ls ls' by (auto simp: algebra_simps)
  qed
next
  case (Suc i)
  then obtain l ls' where "ls = l # ls'" by (cases ls) auto
  with Suc show ?case by auto
qed

lemma take_join_nl: "n < length ls \<Longrightarrow> take (length (join_nl (take (Suc n) ls))) (join_nl ls) = join_nl (take (Suc n) ls)"
  using join_split [of "Suc n" ls "[NL]"] by (cases "Suc n < length ls") auto

lemma line_block_window:
  assumes "0 < n" "i + n \<le> length (split_nl content)"
  shows "line_block content (split_nl content) i (i + n - 1) = join_nl (take n (drop i (split_nl content)))"
proof -
  let ?ls = "split_nl content"
  obtain n' where n: "n = Suc n'" using assms(1) by (cases n) auto
  have lt: "i + n' < length ?ls" "i < length ?ls" using assms n by simp_all
  have "drop (line_starts ?ls ! i) content = join_nl (drop i ?ls)"
    using join_nl_drop [OF lt(2), of 0] by (simp add: line_starts_def)
  moreover have "line_starts ?ls ! (i + n') + length (?ls ! (i + n')) - line_starts ?ls ! i =
      length (join_nl (take (Suc n') (drop i ?ls)))"
    using line_starts_window [OF lt(1), of 0] by (simp add: line_starts_def)
  ultimately show ?thesis
    using take_join_nl [of n' "drop i ?ls"] lt n by (simp add: line_block_def slice_def)
qed

lemma line_windows_set:
  assumes "0 < n"
  shows "set (line_windows P n content) =
    {join_nl w | w i. i + n \<le> length (split_nl content) \<and> w = take n (drop i (split_nl content)) \<and> P w}"
proof -
  have "set (line_windows P n content) =
      (\<lambda>i. line_block content (split_nl content) i (i + n - 1)) `
        {i. i + n \<le> length (split_nl content) \<and> P (take n (drop i (split_nl content)))}"
    by (auto simp: line_windows_def Let_def)
  also have "\<dots> = (\<lambda>i. join_nl (take n (drop i (split_nl content)))) `
        {i. i + n \<le> length (split_nl content) \<and> P (take n (drop i (split_nl content)))}"
    by (rule image_cong) (simp_all add: line_block_window [OF assms] del: One_nat_def)
  finally show ?thesis by auto
qed

lemma split_nl_lines: "l \<in> set (split_nl s) \<Longrightarrow> NL \<notin> set l"
proof (induction s arbitrary: l)
  case (Cons c s)
  obtain l' ls where "split_nl s = l' # ls" by (cases "split_nl s") auto
  with Cons show ?case by (auto split: if_splits)
qed simp

lemma split_nl_plain: "NL \<notin> set l \<Longrightarrow> split_nl l = [l]"
  by (induction l) auto

lemma split_nl_append: "NL \<notin> set l \<Longrightarrow> split_nl (l @ NL # s) = l # split_nl s"
  by (induction l) auto

lemma split_join_nl: "ls \<noteq> [] \<Longrightarrow> (\<And>l. l \<in> set ls \<Longrightarrow> NL \<notin> set l) \<Longrightarrow> split_nl (join_nl ls) = ls"
proof (induction ls)
  case (Cons l ls)
  show ?case
  proof (cases ls)
    case Nil
    with Cons.prems show ?thesis by (simp add: split_nl_plain)
  next
    case (Cons l' ls')
    with Cons.prems Cons.IH show ?thesis by (simp add: split_nl_append)
  qed
qed simp

lemma split_window:
  assumes "0 < n" "i + n \<le> length (split_nl content)"
  shows "split_nl (join_nl (take n (drop i (split_nl content)))) = take n (drop i (split_nl content))"
proof (rule split_join_nl)
  show "take n (drop i (split_nl content)) \<noteq> []" using assms by simp
  show "NL \<notin> set l" if "l \<in> set (take n (drop i (split_nl content)))" for l
    by (rule split_nl_lines [of l content]) (use that in \<open>meson in_set_dropD in_set_takeD\<close>)
qed

lemma line_windows_lines:
  "0 < n \<Longrightarrow> c \<in> set (line_windows P n content) \<Longrightarrow> P (split_nl c)"
  by (auto simp: line_windows_set split_window)

lemma join_window_infix: "is_infix (join_nl (take n (drop i ls))) (join_nl ls)"
proof -
  have cut: "(\<exists>u. join_nl xs = join_nl (take k xs) @ u) \<and> (\<exists>u. join_nl xs = u @ join_nl (drop k xs))"
    for k and xs :: "utext list"
  proof (cases "0 < k \<and> k < length xs")
    case True
    then have "join_nl xs = join_nl (take k xs) @ [NL] @ join_nl (drop k xs)" by (intro join_split) simp_all
    then have "join_nl xs = join_nl (take k xs) @ ([NL] @ join_nl (drop k xs))"
        "join_nl xs = (join_nl (take k xs) @ [NL]) @ join_nl (drop k xs)" by simp_all
    then show ?thesis by blast
  next
    case False
    then show ?thesis by (cases "k = 0") simp_all
  qed
  obtain u v where "join_nl ls = u @ join_nl (drop i ls)" "join_nl (drop i ls) = join_nl (take n (drop i ls)) @ v"
    using cut [of "drop i ls" n] cut [of ls i] by blast
  then have "join_nl ls = u @ join_nl (take n (drop i ls)) @ v" by simp
  then show ?thesis unfolding is_infix_iff by blast
qed

lemma line_block_infix [simp]: "is_infix (line_block content ls i j) content"
  by (simp add: line_block_def)

lemma line_windows_infix: "c \<in> set (line_windows P n content) \<Longrightarrow> is_infix c content"
  by (auto simp: line_windows_def Let_def)

lemmas replacer_defs = simple_replacer_def char_normalized_replacer_def escape_normalized_replacer_def
  indentation_flexible_replacer_def line_trimmed_replacer_def trimmed_boundary_replacer_def
  whitespace_normalized_replacer_def context_aware_replacer_def block_anchor_replacer_def Let_def

section \<open>The interface of a matcher\<close>

text \<open>\<open>collect\<close>: the different candidates that really occur, in the order they come.\<close>

fun collect :: "utext \<Rightarrow> utext list \<Rightarrow> utext list \<Rightarrow> utext list" where
  "collect content seen [] = []"
| "collect content seen (c # cs) =
     (if c \<noteq> [] \<and> is_infix c content \<and> c \<notin> set seen then c # collect content (c # seen) cs
      else collect content seen cs)"

lemma collect_set: "set (collect content seen cs) = {c \<in> set cs. c \<noteq> [] \<and> is_infix c content \<and> c \<notin> set seen}"
  by (induction cs arbitrary: seen) auto

lemma collect_distinct: "distinct (collect content seen cs)"
  by (induction cs arbitrary: seen) (auto simp: collect_set)

locale matcher =
  fixes candidates :: "utext \<Rightarrow> utext \<Rightarrow> utext list"
  assumes candidate_occurs: "c \<in> set (candidates content sought) \<Longrightarrow> is_infix c content"
begin

text \<open>The client's occurrence test drops nothing but empty candidates.\<close>

lemma collect_complete: "set (collect content [] (candidates content sought)) = set (candidates content sought) - {[]}"
  using candidate_occurs by (auto simp: collect_set)

lemma collect_counts:
  "c \<in> set (collect content [] (candidates content sought)) \<Longrightarrow> 0 < u_count c content"
  by (simp add: collect_set u_count_pos)

end

interpretation cascade: matcher "run_replacer ratio layer" for ratio layer
proof
  fix c content sought
  assume "c \<in> set (run_replacer ratio layer content sought)"
  then show "is_infix c content"
  proof (cases layer)
    case WhitespaceNormalized
    then show ?thesis
      using \<open>c \<in> set (run_replacer ratio layer content sought)\<close> join_window_infix [of _ _ "split_nl content"]
      by (auto simp: replacer_defs split: if_splits)
  qed (auto simp: replacer_defs intro: line_windows_infix split: if_splits list.splits)
qed

section \<open>What a candidate has in common with the sought text\<close>

definition sought_lines :: "utext \<Rightarrow> utext list" where
  "sought_lines sought = strip_trailing_empty (split_nl sought)"

fun equivalent :: "(utext \<Rightarrow> utext \<Rightarrow> rat) \<Rightarrow> layer \<Rightarrow> utext \<Rightarrow> utext \<Rightarrow> bool" where
  "equivalent ratio Simple sought c \<longleftrightarrow> c = sought"
| "equivalent ratio CharNormalized sought c \<longleftrightarrow>
     fst (normalize char_transforms c) = fst (normalize char_transforms sought)"
| "equivalent ratio EscapeNormalized sought c \<longleftrightarrow>
     fst (normalize escape_transforms c) = fst (normalize escape_transforms sought)"
| "equivalent ratio IndentationFlexible sought c \<longleftrightarrow>
     remove_common_indent (split_nl c) = remove_common_indent (sought_lines sought)"
| "equivalent ratio LineTrimmed sought c \<longleftrightarrow> map u_strip (split_nl c) = map u_strip (sought_lines sought)"
| "equivalent ratio TrimmedBoundary sought c \<longleftrightarrow>
     map u_strip (split_nl c) = map u_strip (trim_blank_lines (split_nl sought))"
| "equivalent ratio WhitespaceNormalized sought c \<longleftrightarrow> ws_norm c = ws_norm sought"
| "equivalent ratio ContextAware sought c \<longleftrightarrow>
     ratio (join_nl (map u_strip (sought_lines sought))) (join_nl (map u_strip (split_nl c))) \<ge> 9 / 10"
| "equivalent ratio BlockAnchor sought c \<longleftrightarrow>
     u_strip (hd (split_nl c)) = u_strip (hd (sought_lines sought)) \<and>
     u_strip (last (split_nl c)) = u_strip (last (sought_lines sought))"

lemma concat_map_elem:
  assumes "c \<in> set (concat (map f xs))"
  obtains x where "x \<in> set xs" "c \<in> set (f x)"
  using assms by auto

lemma block_anchor_ends:
  assumes "i < j" "j < length (split_nl content)" "c = line_block content (split_nl content) i j"
  shows "hd (split_nl c) = split_nl content ! i" "last (split_nl c) = split_nl content ! j"
proof -
  let ?ls = "split_nl content"
  define n where "n = j - i + 1"
  have n: "0 < n" "i + n \<le> length ?ls" "i + n - 1 = j" using assms(1,2) by (simp_all add: n_def)
  have w: "split_nl c = take n (drop i ?ls)"
    using line_block_window [OF n(1,2)] split_window [OF n(1,2)] assms(3) n(3) by simp
  have len: "length (take n (drop i ?ls)) = n" using n(2) by simp
  show "hd (split_nl c) = ?ls ! i" using w n(1,2) by (simp add: hd_drop_conv_nth hd_take)
  have "last (take n (drop i ?ls)) = take n (drop i ?ls) ! (n - 1)"
    using len n(1) by (metis last_conv_nth list.size(3) less_numeral_extra(3))
  then show "last (split_nl c) = ?ls ! j" using w n by (simp add: n_def)
qed

lemma candidate_sound:
  assumes "c \<in> set (run_replacer ratio layer content sought)"
  shows "is_infix c content \<and> equivalent ratio layer sought c"
proof (rule conjI)
  show "is_infix c content" by (rule cascade.candidate_occurs [OF assms])
  show "equivalent ratio layer sought c"
  proof (cases layer)
    case Simple
    with assms show ?thesis by (simp add: replacer_defs split: if_splits)
  next
    case CharNormalized
    with assms show ?thesis
      by (auto simp: replacer_defs split: if_splits dest: char_layer.span_normalizes)
  next
    case EscapeNormalized
    with assms show ?thesis
      by (auto simp: replacer_defs split: if_splits dest: escape_layer.span_normalizes)
  next
    case IndentationFlexible
    with assms have "c \<in> set (line_windows (\<lambda>w. remove_common_indent w = remove_common_indent (sought_lines sought))
        (length (sought_lines sought)) content)" "0 < length (sought_lines sought)"
      by (simp_all add: indentation_flexible_replacer_def Let_def sought_lines_def split: if_splits)
    with line_windows_lines [OF this(2,1)] show ?thesis using IndentationFlexible by simp
  next
    case LineTrimmed
    with assms have "c \<in> set (line_windows (same_trimmed (sought_lines sought)) (length (sought_lines sought)) content)"
        "0 < length (sought_lines sought)"
      by (simp_all add: line_trimmed_replacer_def Let_def sought_lines_def split: if_splits)
    with line_windows_lines [OF this(2,1)] show ?thesis using LineTrimmed by (simp add: same_trimmed_def)
  next
    case TrimmedBoundary
    let ?fl = "trim_blank_lines (split_nl sought)"
    from TrimmedBoundary assms have "c \<in> set (line_windows (same_trimmed ?fl) (length ?fl) content)" "0 < length ?fl"
      by (simp_all add: trimmed_boundary_replacer_def Let_def split: if_splits)
    with line_windows_lines [OF this(2,1)] show ?thesis using TrimmedBoundary by (simp add: same_trimmed_def)
  next
    case WhitespaceNormalized
    with assms show ?thesis by (simp add: replacer_defs split: if_splits)
  next
    case ContextAware
    with assms have "c \<in> set (line_windows (\<lambda>w. ratio (join_nl (map u_strip (sought_lines sought)))
        (join_nl (map u_strip w)) \<ge> 9 / 10) (length (sought_lines sought)) content)" "0 < length (sought_lines sought)"
      by (auto simp: context_aware_replacer_def Let_def sought_lines_def split: if_splits)
    with line_windows_lines [OF this(2,1)] show ?thesis using ContextAware by simp
  next
    case BlockAnchor
    let ?ls = "split_nl content" and ?fl = "sought_lines sought"
    let ?ends = "\<lambda>i. filter (\<lambda>j. u_strip (?ls ! j) = u_strip (last ?fl)) [i + 1..<length ?ls]"
    let ?found = "\<lambda>i. if u_strip (?ls ! i) \<noteq> u_strip (hd ?fl) then []
        else (case ?ends i of [] \<Rightarrow> [] | j # _ \<Rightarrow> [line_block content ?ls i j])"
    have "c \<in> set (concat (map ?found [0..<length ?ls]))"
      using assms BlockAnchor by (simp add: block_anchor_replacer_def Let_def sought_lines_def split: if_splits)
    then obtain i where "i < length ?ls" "c \<in> set (?found i)" by (rule concat_map_elem) simp
    then have i: "i < length ?ls" "u_strip (?ls ! i) = u_strip (hd ?fl)"
        "c \<in> set (case ?ends i of [] \<Rightarrow> [] | j # _ \<Rightarrow> [line_block content ?ls i j])"
      by (simp_all split: if_split_asm)
    then obtain j js where js: "?ends i = j # js" "c = line_block content ?ls i j" by (cases "?ends i") auto
    note ij = i(1,2) js
    have "j \<in> set (?ends i)" using js(1) by simp
    then have j: "i < j" "j < length ?ls" "u_strip (?ls ! j) = u_strip (last ?fl)" by auto
    from block_anchor_ends [OF j(1,2) ij(4)] ij(2) j(3) BlockAnchor show ?thesis by simp
  qed
qed

text \<open>
  C13. Every piece of text a matcher proposes really occurs in the file, and agrees with the
  sought text in what its layer promises: equal, equal up to typographic characters or
  escape sequences, to the common indentation, to white space at the ends of lines or
  anywhere, similar above the threshold, or equal in its first and last line.
\<close>

theorem candidates_are_equivalent:
  assumes "c \<in> set (run_replacer ratio layer content sought)"
  shows "is_infix c content \<and> equivalent ratio layer sought c"
  by (rule candidate_sound [OF assms])

theorem candidates_are_equivalent_witness:
  "is_infix [32, 120] [97, NL, 32, 120] \<and> map u_strip (split_nl [32, 120]) = map u_strip (sought_lines [120, 32])"
proof -
  have "line_trimmed_replacer [97, NL, 32, 120] [120, 32] = [[32, 120]]"
    by (simp add: line_trimmed_replacer_def line_windows_def same_trimmed_def strip_trailing_empty_def Let_def
        line_block_def line_starts_def slice_def u_strip_def u_space_def upt_conv_Cons)
  then have "[32, 120] \<in> set (run_replacer (\<lambda>a b. 0) LineTrimmed [97, NL, 32, 120] [120, 32])" by simp
  from candidates_are_equivalent [OF this] show ?thesis by simp
qed

end
