(* ===== verification/Edit.thy ===== *)
theory Edit
  imports Replacers
begin

text \<open>
  Editing of file contents: the replacement of one piece of text and of a batch,
  \<^verbatim>\<open>editing/edit.py\<close>, the recovery of repeated edits, \<^verbatim>\<open>editing/recovery.py\<close>, edits by line
  anchors, \<^verbatim>\<open>editing/hashline.py\<close>, and the text pipeline of \<open>edit_file\<close> and \<open>edit_anchored\<close> in
  \<^verbatim>\<open>workspace/__init__.py\<close> between reading a file and committing it. The digest of a line is an
  argument.
\<close>

section \<open>One replacement\<close>

datatype edit_error =
    EmptyOld
  | SameStrings
  | NotFound
  | NotUnique nat nat
  | NoEdits
  | BatchFailed nat nat edit_error

fun first_hits ::
  "(utext \<Rightarrow> utext \<Rightarrow> rat) \<Rightarrow> utext \<Rightarrow> utext \<Rightarrow> layer list \<Rightarrow> (layer \<times> utext list) option" where
  "first_hits ratio content sought [] = None"
| "first_hits ratio content sought (l # ls) =
     (case collect content [] (run_replacer ratio l content sought) of
        [] \<Rightarrow> first_hits ratio content sought ls
      | ms \<Rightarrow> Some (l, ms))"

definition equivalence_class ::
  "(utext \<Rightarrow> utext \<Rightarrow> rat) \<Rightarrow> utext \<Rightarrow> utext \<Rightarrow> (layer \<times> utext list) option" where
  "equivalence_class ratio content sought = first_hits ratio content sought REPLACERS"

definition reconcile_indent :: "layer \<Rightarrow> bool" where
  "reconcile_indent l \<longleftrightarrow>
     l \<in> {LineTrimmed, BlockAnchor, IndentationFlexible, TrimmedBoundary, ContextAware}"

definition common_indent :: "utext \<Rightarrow> nat" where
  "common_indent s = (let ws = indent_widths (split_nl s) in if ws = [] then 0 else least_width ws)"

definition opens_quote :: "nat \<Rightarrow> bool" where
  "opens_quote prev \<longleftrightarrow> prev \<in> {32, 9, 10, 40, 91, 123, 60}"

text \<open>\<open>opening\<close>: the next character starts the text or follows an opening context.\<close>

fun curl_quotes :: "bool \<Rightarrow> bool \<Rightarrow> bool \<Rightarrow> utext \<Rightarrow> utext" where
  "curl_quotes dq sq opening [] = []"
| "curl_quotes dq sq opening (c # s) =
     (if c = 34 \<and> dq then (if opening then 8220 else 8221)
      else if c = 39 \<and> sq then (if opening then 8216 else 8217)
      else c) # curl_quotes dq sq (opens_quote c) s"

definition preserve_quote_style :: "utext \<Rightarrow> utext \<Rightarrow> utext" where
  "preserve_quote_style matched new =
     (let dq = 8220 \<in> set matched \<or> 8221 \<in> set matched;
          sq = 8216 \<in> set matched \<or> 8217 \<in> set matched
      in if \<not> (dq \<or> sq) then new else curl_quotes dq sq True new)"

definition shift_line :: "int \<Rightarrow> utext \<Rightarrow> utext" where
  "shift_line delta l =
     (if blank_line l then l
      else if delta > 0 then replicate (nat delta) 32 @ l
      else drop (min (nat (- delta)) (length (takeWhile (\<lambda>c. c = 32 \<or> c = 9) l))) l)"

definition reindent :: "utext \<Rightarrow> int \<Rightarrow> utext" where
  "reindent s delta = (if delta = 0 then s else join_nl (map (shift_line delta) (split_nl s)))"

definition repl_for :: "layer \<Rightarrow> utext \<Rightarrow> utext \<Rightarrow> utext \<Rightarrow> utext" where
  "repl_for l old new matched =
     (let r = (if reconcile_indent l then reindent new (int (common_indent matched) - int (common_indent old)) else new)
      in if l = CharNormalized then preserve_quote_style matched r else r)"

definition apply_replacement ::
  "(utext \<Rightarrow> utext \<Rightarrow> rat) \<Rightarrow> utext \<Rightarrow> utext \<Rightarrow> utext \<Rightarrow> bool \<Rightarrow> edit_error + utext" where
  "apply_replacement ratio content old new replace_all =
     (if old = [] then Inl EmptyOld
      else if old = new then Inl SameStrings
      else
        (case equivalence_class ratio content old of
           None \<Rightarrow> Inl NotFound
         | Some (l, ms) \<Rightarrow>
             (let total = sum_list (map (\<lambda>m. u_count m content) ms) in
              if \<not> replace_all \<and> total > 1 then Inl (NotUnique total (length ms))
              else if replace_all then Inr (fold (\<lambda>m out. u_replace m (repl_for l old new m) out) ms content)
              else Inr (u_replace1 (hd ms) (repl_for l old new (hd ms)) content))))"

section \<open>Batches and recovery\<close>

definition idempotent_skip :: "utext \<Rightarrow> utext \<Rightarrow> utext \<Rightarrow> bool" where
  "idempotent_skip content old new \<longleftrightarrow>
     u_strip new \<noteq> [] \<and> u_count new content = 1 \<and> \<not> is_infix old content"

fun batch_from ::
  "(utext \<Rightarrow> utext \<Rightarrow> rat) \<Rightarrow> nat \<Rightarrow> nat \<Rightarrow> (utext \<times> utext) list \<Rightarrow> utext \<Rightarrow> nat \<Rightarrow> nat \<Rightarrow>
   edit_error + utext \<times> nat \<times> nat" where
  "batch_from ratio count i [] out applied skipped = Inr (out, applied, skipped)"
| "batch_from ratio count i ((old, new) # es) out applied skipped =
     (case apply_replacement ratio out old new False of
        Inr out' \<Rightarrow> batch_from ratio count (Suc i) es out' (Suc applied) skipped
      | Inl e \<Rightarrow>
          if idempotent_skip out old new then batch_from ratio count (Suc i) es out applied (Suc skipped)
          else Inl (BatchFailed (Suc i) count e))"

definition apply_batch ::
  "(utext \<Rightarrow> utext \<Rightarrow> rat) \<Rightarrow> utext \<Rightarrow> (utext \<times> utext) list \<Rightarrow> edit_error + utext \<times> nat \<times> nat" where
  "apply_batch ratio content edits =
     (if edits = [] then Inl NoEdits else batch_from ratio (length edits) 0 edits content 0 0)"

section \<open>Anchored edits\<close>

datatype anchor_error = NoAnchors | BadAnchor | StaleAnchor | AmbiguousAnchor | ConflictingEdits nat | UnknownOp

datatype anchor_op = OpReplace | OpDelete | OpInsertAfter | OpOther

record anchored_edit =
  e_anchor :: utext
  e_op :: anchor_op
  e_text :: utext

definition split_body :: "utext \<Rightarrow> utext list \<times> bool" where
  "split_body content =
     (let ls = split_nl content in if last ls = [] then (butlast ls, True) else (ls, False))"

definition digit_cp :: "nat \<Rightarrow> bool" where "digit_cp c \<longleftrightarrow> 48 \<le> c \<and> c \<le> 57"

definition hex_cp :: "nat \<Rightarrow> bool" where
  "hex_cp c \<longleftrightarrow> digit_cp c \<or> (65 \<le> c \<and> c \<le> 70) \<or> (97 \<le> c \<and> c \<le> 102)"

definition lower_cp :: "nat \<Rightarrow> nat" where
  "lower_cp c = (if 65 \<le> c \<and> c \<le> 90 then c + 32 else c)"

definition int_of_digits :: "utext \<Rightarrow> nat" where
  "int_of_digits s = foldl (\<lambda>n c. 10 * n + (c - 48)) 0 s"

text \<open>An optional letter L, an optional line number, a hash sign and at least four hexadecimal digits.\<close>

definition parse_anchor :: "utext \<Rightarrow> (nat option \<times> utext) option" where
  "parse_anchor anchor =
     (let s1 = dropWhile u_space anchor;
          s2 = (case s1 of c # t \<Rightarrow> if c = 76 then t else s1 | [] \<Rightarrow> []);
          ds = takeWhile digit_cp s2;
          s3 = dropWhile u_space (dropWhile digit_cp s2)
      in case s3 of
           [] \<Rightarrow> None
         | c # t \<Rightarrow>
             if c \<noteq> 35 then None
             else
               (let u = dropWhile u_space t; h = takeWhile hex_cp u in
                if length h < 4 \<or> dropWhile u_space (dropWhile hex_cp u) \<noteq> [] then None
                else Some (if ds = [] then None else Some (int_of_digits ds), map lower_cp h)))"

definition show_nat :: "nat \<Rightarrow> utext" where
  "show_nat n = ascii (py_str_int (int n))"

definition anchor_of :: "(utext \<Rightarrow> utext) \<Rightarrow> nat \<Rightarrow> utext \<Rightarrow> utext" where
  "anchor_of line_hash i l = 76 # show_nat (i + 1) @ 35 # line_hash l"

definition annotate :: "(utext \<Rightarrow> utext) \<Rightarrow> utext \<Rightarrow> utext" where
  "annotate line_hash content =
     (let body = fst (split_body content) in
      join_nl (map (\<lambda>i. anchor_of line_hash i (body ! i) @ [9474, 32] @ body ! i) [0..<length body]))"

definition lines_with_hash :: "(utext \<Rightarrow> utext) \<Rightarrow> utext list \<Rightarrow> utext \<Rightarrow> nat list" where
  "lines_with_hash line_hash body h = filter (\<lambda>i. line_hash (body ! i) = h) [0..<length body]"

definition resolve_anchor :: "(utext \<Rightarrow> utext) \<Rightarrow> utext list \<Rightarrow> utext \<Rightarrow> anchor_error + nat" where
  "resolve_anchor line_hash body anchor =
     (case parse_anchor anchor of
        None \<Rightarrow> Inl BadAnchor
      | Some (no, h) \<Rightarrow>
          (case lines_with_hash line_hash body h of
             [] \<Rightarrow> Inl StaleAnchor
           | [i] \<Rightarrow> Inr i
           | is \<Rightarrow>
               (case no of
                  Some n \<Rightarrow> if n \<ge> 1 \<and> n - 1 \<in> set is then Inr (n - 1) else Inl AmbiguousAnchor
                | None \<Rightarrow> Inl AmbiguousAnchor)))"

type_synonym line_ops = "(nat \<times> anchor_op \<times> utext) list"

fun gather ::
  "(utext \<Rightarrow> utext) \<Rightarrow> utext list \<Rightarrow> anchored_edit list \<Rightarrow> line_ops \<Rightarrow> anchor_error + line_ops" where
  "gather line_hash body [] ops = Inr ops"
| "gather line_hash body (e # es) ops =
     (case resolve_anchor line_hash body (e_anchor e) of
        Inl err \<Rightarrow> Inl err
      | Inr i \<Rightarrow>
          if has_key i ops then Inl (ConflictingEdits (i + 1))
          else if e_op e = OpOther then Inl UnknownOp
          else gather line_hash body es (ops @ [(i, e_op e, e_text e)]))"

definition edited_line :: "line_ops \<Rightarrow> utext list \<Rightarrow> nat \<Rightarrow> utext list" where
  "edited_line ops body i =
     (case map_of ops i of
        None \<Rightarrow> [body ! i]
      | Some (OpReplace, t) \<Rightarrow> [t]
      | Some (OpInsertAfter, t) \<Rightarrow> [body ! i, t]
      | Some (_, t) \<Rightarrow> [])"

definition apply_anchored_edits ::
  "(utext \<Rightarrow> utext) \<Rightarrow> utext \<Rightarrow> anchored_edit list \<Rightarrow> anchor_error + utext" where
  "apply_anchored_edits line_hash content edits =
     (if edits = [] then Inl NoAnchors
      else
        (case split_body content of
           (body, trailing_nl) \<Rightarrow>
             (case gather line_hash body edits [] of
                Inl err \<Rightarrow> Inl err
              | Inr ops \<Rightarrow>
                  (let result = join_nl (concat (map (edited_line ops body) [0..<length body]))
                   in Inr (if trailing_nl \<and> result \<noteq> [] then result @ [NL] else result)))))"

section \<open>From the file and back\<close>

text \<open>
  The files are read in Python's text mode, which turns every line ending into a line feed
  before the line-ending layer sees the text; they are written without translation.
\<close>

fun universal_newlines :: "utext \<Rightarrow> utext" where
  "universal_newlines [] = []"
| "universal_newlines [c] = [if c = CR then NL else c]"
| "universal_newlines (c # d # s) =
     (if c = CR then NL # universal_newlines (if d = NL then s else d # s)
      else c # universal_newlines (d # s))"

datatype edit_outcome =
    Written utext nat nat
  | Unchanged
  | AlreadyApplied
  | EditFailed edit_error
  | AnchorFailed anchor_error

definition edited_text :: "utext \<Rightarrow> utext \<times> utext \<times> utext" where
  "edited_text disk =
     (case strip_bom (universal_newlines disk) of
        (bom, body) \<Rightarrow> (bom, detect_eol body, to_lf body))"

definition commit_text :: "utext \<Rightarrow> utext \<Rightarrow> utext \<Rightarrow> utext \<Rightarrow> nat \<Rightarrow> nat \<Rightarrow> edit_outcome" where
  "commit_text bom eol current updated applied skipped =
     (if updated = current then Unchanged else Written (bom @ restore_eol updated eol) applied skipped)"

definition edit_file ::
  "(utext \<Rightarrow> utext \<Rightarrow> rat) \<Rightarrow> utext \<Rightarrow> utext \<Rightarrow> utext \<Rightarrow> bool \<Rightarrow> edit_outcome" where
  "edit_file ratio disk old new replace_all =
     (case edited_text disk of
        (bom, eol, current) \<Rightarrow>
          (case apply_replacement ratio current (to_lf old) (to_lf new) replace_all of
             Inl e \<Rightarrow> if idempotent_skip current (to_lf old) (to_lf new) then AlreadyApplied else EditFailed e
           | Inr updated \<Rightarrow> commit_text bom eol current updated 1 0))"

definition edit_file_batch ::
  "(utext \<Rightarrow> utext \<Rightarrow> rat) \<Rightarrow> utext \<Rightarrow> (utext \<times> utext) list \<Rightarrow> edit_outcome" where
  "edit_file_batch ratio disk edits =
     (case edited_text disk of
        (bom, eol, current) \<Rightarrow>
          (case apply_batch ratio current (map (\<lambda>(old, new). (to_lf old, to_lf new)) edits) of
             Inl e \<Rightarrow> EditFailed e
           | Inr (updated, applied, skipped) \<Rightarrow> commit_text bom eol current updated applied skipped))"

definition edit_anchored :: "(utext \<Rightarrow> utext) \<Rightarrow> utext \<Rightarrow> anchored_edit list \<Rightarrow> edit_outcome" where
  "edit_anchored line_hash disk edits =
     (case edited_text disk of
        (bom, eol, current) \<Rightarrow>
          (case apply_anchored_edits line_hash current (map (\<lambda>e. e\<lparr>e_text := to_lf (e_text e)\<rparr>) edits) of
             Inl e \<Rightarrow> AnchorFailed e
           | Inr updated \<Rightarrow> commit_text bom eol current updated 1 0))"

section \<open>A replacement stays where its match is\<close>

lemma first_hits_Some:
  assumes "first_hits ratio content sought ls = Some (l, ms)"
  shows "ms \<noteq> []" "distinct ms"
    "m \<in> set ms \<Longrightarrow> m \<noteq> [] \<and> is_infix m content \<and> equivalent ratio l sought m"
proof -
  have "ms = collect content [] (run_replacer ratio l content sought) \<and> ms \<noteq> []"
    using assms by (induction ls) (auto split: list.splits)
  then show "ms \<noteq> []" "distinct ms"
    "m \<in> set ms \<Longrightarrow> m \<noteq> [] \<and> is_infix m content \<and> equivalent ratio l sought m"
    using candidate_sound [of m ratio l content sought] by (auto simp: collect_distinct collect_set)
qed

lemma first_hits_exact:
  "sought \<noteq> [] \<Longrightarrow> is_infix sought content \<Longrightarrow> equivalence_class ratio content sought = Some (Simple, [sought])"
  by (simp add: equivalence_class_def REPLACERS_def simple_replacer_def)

lemma sum_one:
  assumes "\<And>m. m \<in> set ms \<Longrightarrow> 0 < f m" "sum_list (map f ms) \<le> (1::nat)" "ms \<noteq> []"
  shows "\<exists>m. ms = [m] \<and> f m = 1"
proof -
  obtain m rest where ms: "ms = m # rest" using assms(3) by (cases ms) auto
  moreover have "rest = []"
  proof (rule ccontr)
    assume "rest \<noteq> []"
    then obtain m' rest' where "rest = m' # rest'" by (cases rest) auto
    with assms(1) [of m] assms(1) [of m'] assms(2) ms show False by simp
  qed
  ultimately show ?thesis using assms(1) [of m] assms(2) by auto
qed

text \<open>
  C14. A single edit changes one place: when it succeeds, its layer found exactly one piece
  of text equivalent to the old string and counted one occurrence of it; the result is the
  file with that occurrence replaced by the adjusted new string, and everything before and
  after it is untouched. When the old string itself occurs, it alone decides: once, it is
  replaced literally; more often, the edit is refused.
\<close>

theorem edit_is_local:
  assumes "old \<noteq> []" "old \<noteq> new"
  shows "(apply_replacement ratio content old new False = Inr out \<longrightarrow>
      (\<exists>l m pre post. content = pre @ m @ post \<and> out = pre @ repl_for l old new m @ post \<and> m \<noteq> [] \<and>
         u_count m content = 1 \<and> equivalent ratio l old m)) \<and>
    (u_count old content = 1 \<longrightarrow>
      (\<exists>pre post. content = pre @ old @ post \<and>
         apply_replacement ratio content old new False = Inr (pre @ new @ post))) \<and>
    (u_count old content > 1 \<longrightarrow>
      apply_replacement ratio content old new False = Inl (NotUnique (u_count old content) 1))"
proof (intro conjI impI)
  assume ok: "apply_replacement ratio content old new False = Inr out"
  obtain l ms where hits: "equivalence_class ratio content old = Some (l, ms)"
    using ok assms by (cases "equivalence_class ratio content old") (auto simp: apply_replacement_def)
  note ms = first_hits_Some [OF hits [unfolded equivalence_class_def]]
  have "sum_list (map (\<lambda>m. u_count m content) ms) \<le> 1"
    using ok assms hits by (simp add: apply_replacement_def Let_def split: if_splits)
  moreover have "0 < u_count m content" if "m \<in> set ms" for m
    using ms(3) [OF that] u_count_pos by blast
  ultimately obtain m where m: "ms = [m]" "u_count m content = 1" using sum_one ms(1) by metis
  have out: "out = u_replace1 m (repl_for l old new m) content"
    using ok assms hits m by (simp add: apply_replacement_def Let_def)
  have props: "m \<noteq> []" "is_infix m content" "equivalent ratio l old m" using ms(3) [of m] m(1) by simp_all
  from u_replace1_split [OF props(1,2), of "repl_for l old new m"] out props m(2)
  show "\<exists>l m pre post. content = pre @ m @ post \<and> out = pre @ repl_for l old new m @ post \<and> m \<noteq> [] \<and>
      u_count m content = 1 \<and> equivalent ratio l old m" by metis
next
  have plain: "repl_for Simple old new old = new" by (simp add: repl_for_def reconcile_indent_def)
  have cls: "0 < u_count old content \<Longrightarrow> equivalence_class ratio content old = Some (Simple, [old])"
    using first_hits_exact assms(1) u_count_pos by blast
  show "\<exists>pre post. content = pre @ old @ post \<and> apply_replacement ratio content old new False = Inr (pre @ new @ post)"
    if one: "u_count old content = 1"
  proof -
    have "is_infix old content" using one u_count_pos [OF assms(1), of content] by simp
    from u_replace1_split [OF assms(1) this, of new] cls one assms plain show ?thesis
      by (simp add: apply_replacement_def)
  qed
  show "apply_replacement ratio content old new False = Inl (NotUnique (u_count old content) 1)"
    if "u_count old content > 1"
    using that cls assms by (simp add: apply_replacement_def)
qed

text \<open>
  Occurrences are counted without overlaps, so a text whose occurrences overlap passes for
  unique, and its first one is replaced.
\<close>

lemma overlapping_occurrence_is_unique:
  "apply_replacement ratio [97, 97, 97] [97, 97] [98] False = Inr [98, 97]"
proof -
  have "equivalence_class ratio [97, 97, 97] [97, 97] = Some (Simple, [[97, 97]])"
    by (rule first_hits_exact) simp_all
  then show ?thesis by (simp add: apply_replacement_def repl_for_def reconcile_indent_def)
qed

section \<open>Line endings of edited files\<close>

lemma universal_newlines_no_cr: "CR \<notin> set (universal_newlines s)"
  by (induction s rule: universal_newlines.induct) auto

lemma set_u_replace: "sub \<noteq> [] \<Longrightarrow> set (u_replace sub new s) \<subseteq> set new \<union> set s"
proof (induction "length s" arbitrary: s rule: less_induct)
  case less
  show ?case
  proof (cases s)
    case (Cons c t)
    show ?thesis
    proof (cases "is_prefix sub s")
      case True
      let ?d = "drop (length sub) s"
      have "length ?d < length s" using less.prems Cons by (cases sub) auto
      with less have "set (u_replace sub new ?d) \<subseteq> set new \<union> set ?d" by blast
      moreover have "u_replace sub new s = new @ u_replace sub new ?d" using True Cons less.prems by simp
      ultimately show ?thesis using set_drop_subset [of "length sub" s] by auto
    next
      case False
      have "set (u_replace sub new t) \<subseteq> set new \<union> set t" using less Cons by simp
      with False Cons show ?thesis by auto
    qed
  qed (use less.prems in simp)
qed

lemma set_u_replace1: "set (u_replace1 sub new s) \<subseteq> set new \<union> set s"
  by (induction s) (auto dest: in_set_dropD)

lemma set_split_nl: "l \<in> set (split_nl s) \<Longrightarrow> set l \<subseteq> set s"
proof (induction s arbitrary: l)
  case (Cons c s)
  obtain l' ls where e: "split_nl s = l' # ls" by (cases "split_nl s") auto
  have "set x \<subseteq> set s" if "x = l' \<or> x \<in> set ls" for x using Cons.IH [of x] e that by simp
  with Cons.prems e show ?case by (fastforce split: if_splits)
qed simp

lemma set_join_nl: "set (join_nl ls) \<subseteq> insert NL (\<Union>l \<in> set ls. set l)"
proof (induction ls)
  case (Cons l ls)
  then show ?case by (cases ls) auto
qed simp

lemma repl_for_no_cr: "CR \<notin> set new \<Longrightarrow> CR \<notin> set (repl_for l old new m)"
proof -
  assume new: "CR \<notin> set new"
  have shift: "CR \<notin> set (shift_line d x)" if "CR \<notin> set x" for d x
    using that by (auto simp: shift_line_def dest: in_set_dropD)
  have "CR \<notin> set (reindent new d)" for d
  proof (cases "d = 0")
    case False
    have "CR \<notin> set x" if "x \<in> set (map (shift_line d) (split_nl new))" for x
      using that new set_split_nl [of _ new] shift by auto
    with set_join_nl [of "map (shift_line d) (split_nl new)"] False show ?thesis by (auto simp: reindent_def)
  qed (simp add: reindent_def new)
  moreover have "CR \<notin> set (curl_quotes dq sq op x)" if "CR \<notin> set x" for dq sq op x
    using that by (induction x arbitrary: op) auto
  ultimately show ?thesis using new by (simp add: repl_for_def Let_def preserve_quote_style_def)
qed

lemma apply_replacement_no_cr:
  assumes "CR \<notin> set content" "CR \<notin> set new" "apply_replacement ratio content old new a = Inr out"
  shows "CR \<notin> set out"
proof -
  obtain l ms where hits: "equivalence_class ratio content old = Some (l, ms)"
    using assms(3) by (cases "equivalence_class ratio content old") (auto simp: apply_replacement_def split: if_splits)
  note ms = first_hits_Some(3) [OF hits [unfolded equivalence_class_def]]
  have step: "CR \<notin> set (u_replace m (repl_for l old new m) s)" if "CR \<notin> set s" "m \<noteq> []" for m s
    using set_u_replace [OF that(2), of "repl_for l old new m" s] repl_for_no_cr [OF assms(2), of l old m] that(1) by blast
  have all: "CR \<notin> set (fold (\<lambda>m out. u_replace m (repl_for l old new m) out) xs s)"
    if "CR \<notin> set s" "\<forall>m \<in> set xs. m \<noteq> []" for xs s
    using that by (induction xs arbitrary: s) (simp_all add: step)
  have "out = fold (\<lambda>m out. u_replace m (repl_for l old new m) out) ms content \<or>
      out = u_replace1 (hd ms) (repl_for l old new (hd ms)) content"
    using assms(3) hits by (auto simp: apply_replacement_def Let_def split: if_splits)
  then show ?thesis
    using all [OF assms(1), of ms] ms set_u_replace1 [of "hd ms" "repl_for l old new (hd ms)" content]
      repl_for_no_cr [OF assms(2), of l old "hd ms"] assms(1) by blast
qed

lemma batch_no_cr:
  "CR \<notin> set out \<Longrightarrow> \<forall>(old, new) \<in> set es. CR \<notin> set new \<Longrightarrow>
   batch_from ratio n i es out a s = Inr (out', a', s') \<Longrightarrow> CR \<notin> set out'"
proof (induction es arbitrary: i out a s)
  case (Cons e es)
  obtain old new where e: "e = (old, new)" by (cases e)
  with Cons.prems have new: "CR \<notin> set new" by simp
  show ?case
  proof (cases "apply_replacement ratio out old new False")
    case (Inl err)
    with Cons e show ?thesis by (auto split: if_splits)
  next
    case (Inr out1)
    with apply_replacement_no_cr [OF Cons.prems(1) new Inr] Cons e show ?thesis by auto
  qed
qed simp

lemma edited_text_plain:
  assumes "edited_text disk = (bom, eol, current)"
  shows "eol = [NL]" "CR \<notin> set bom" "CR \<notin> set current"
proof -
  obtain b body where b: "strip_bom (universal_newlines disk) = (b, body)" by (metis surj_pair)
  have "CR \<notin> set body \<and> CR \<notin> set b" if "strip_bom x = (b, body)" "CR \<notin> set x" for x
    using that by (cases x) (auto simp: strip_bom_def split: if_splits)
  then have no: "CR \<notin> set body" "CR \<notin> set b" using b universal_newlines_no_cr by blast+
  have "count_list body CR = 0" using no(1) by (simp add: count_list_0_iff)
  then have "detect_eol body = [NL]" using no(1) by (simp add: detect_eol_def Let_def no_crlf u_count_char)
  with assms b no to_lf_removes_cr show "eol = [NL]" "CR \<notin> set bom" "CR \<notin> set current"
    by (auto simp: edited_text_def)
qed

text \<open>
  Every file an edit writes has line feeds only: single and batch edits, with every
  matcher, drop all carriage returns of the file, because reading in text mode has already
  translated them when the line-ending layer looks for the file's convention. A file with
  CRLF line endings is silently converted.
\<close>

theorem edits_convert_line_endings:
  assumes "edit_file ratio disk old new replace_all = Written out a s \<or> edit_file_batch ratio disk edits = Written out a s"
  shows "CR \<notin> set out"
proof -
  obtain bom eol current where t: "edited_text disk = (bom, eol, current)" by (metis surj_pair)
  note plain = edited_text_plain [OF t]
  have written: "CR \<notin> set out" if "commit_text bom eol current updated x y = Written out a s" "CR \<notin> set updated" for updated x y
    using that plain by (auto simp: commit_text_def restore_eol_def split: if_splits)
  show ?thesis
  proof (cases "edit_file ratio disk old new replace_all = Written out a s")
    case True
    then obtain updated where "apply_replacement ratio current (to_lf old) (to_lf new) replace_all = Inr updated"
        "commit_text bom eol current updated 1 0 = Written out a s"
      using t by (auto simp: edit_file_def split: sum.splits if_splits)
    with written apply_replacement_no_cr [OF plain(3) to_lf_removes_cr] show ?thesis by blast
  next
    case False
    then have "edit_file_batch ratio disk edits = Written out a s" using assms by blast
    then obtain updated x y where u: "apply_batch ratio current (map (\<lambda>(old, new). (to_lf old, to_lf new)) edits) =
          Inr (updated, x, y)" "commit_text bom eol current updated x y = Written out a s"
      using t by (auto simp: edit_file_batch_def split: sum.splits)
    have "\<forall>(old, new) \<in> set (map (\<lambda>(old, new). (to_lf old, to_lf new)) edits). CR \<notin> set new"
      by (auto simp: to_lf_removes_cr)
    moreover have "batch_from ratio (length edits) 0 (map (\<lambda>(old, new). (to_lf old, to_lf new)) edits) current 0 0 =
        Inr (updated, x, y)" using u(1) by (simp add: apply_batch_def split: if_splits)
    ultimately have "CR \<notin> set updated" by (rule batch_no_cr [OF plain(3)])
    with written u(2) show ?thesis by blast
  qed
qed

section \<open>Anchored edits\<close>

definition hits_line :: "(utext \<Rightarrow> utext) \<Rightarrow> utext list \<Rightarrow> anchored_edit \<Rightarrow> nat \<times> anchor_op \<times> utext \<Rightarrow> bool" where
  "hits_line line_hash body e t \<longleftrightarrow>
     (case t of (i, op, txt) \<Rightarrow>
        \<exists>no h. parse_anchor (e_anchor e) = Some (no, h) \<and> i < length body \<and> line_hash (body ! i) = h \<and>
          (no = Some (i + 1) \<or> (\<forall>j < length body. line_hash (body ! j) = h \<longrightarrow> j = i)) \<and>
          op = e_op e \<and> txt = e_text e)"

lemma lines_with_hash_set: "set (lines_with_hash line_hash body h) = {i. i < length body \<and> line_hash (body ! i) = h}"
  by (auto simp: lines_with_hash_def)

lemma resolve_anchor_Inr:
  assumes "resolve_anchor line_hash body anchor = Inr i"
  shows "\<exists>no h. parse_anchor anchor = Some (no, h) \<and> i < length body \<and> line_hash (body ! i) = h \<and>
    (no = Some (i + 1) \<or> (\<forall>j < length body. line_hash (body ! j) = h \<longrightarrow> j = i))"
proof -
  obtain no h where p: "parse_anchor anchor = Some (no, h)"
    using assms by (cases "parse_anchor anchor") (auto simp: resolve_anchor_def)
  let ?is = "lines_with_hash line_hash body h"
  show ?thesis
  proof (cases ?is)
    case Nil
    with assms p show ?thesis by (simp add: resolve_anchor_def)
  next
    case (Cons j js)
    show ?thesis
    proof (cases js)
      case Nil
      then have "i = j" using assms p Cons by (simp add: resolve_anchor_def)
      with Cons Nil lines_with_hash_set [of line_hash body h] p show ?thesis by auto
    next
      case (Cons k ks)
      with assms p \<open>?is = j # js\<close> obtain n where n: "no = Some n" "n \<ge> 1" "n - 1 \<in> set ?is" "i = n - 1"
        by (auto simp: resolve_anchor_def split: option.splits if_splits)
      then have "no = Some (i + 1)" "i < length body" "line_hash (body ! i) = h"
        using lines_with_hash_set [of line_hash body h] by auto
      with p show ?thesis by blast
    qed
  qed
qed

lemma gather_Inr:
  "gather line_hash body es ops = Inr ops' \<Longrightarrow> distinct (map fst ops) \<Longrightarrow>
   \<exists>new. ops' = ops @ new \<and> distinct (map fst ops') \<and> list_all2 (hits_line line_hash body) es new"
proof (induction es arbitrary: ops)
  case (Cons e es)
  obtain i where i: "resolve_anchor line_hash body (e_anchor e) = Inr i"
    using Cons.prems(1) by (cases "resolve_anchor line_hash body (e_anchor e)") auto
  let ?t = "(i, e_op e, e_text e)"
  have rest: "gather line_hash body es (ops @ [?t]) = Inr ops'" and fresh: "\<not> has_key i ops"
    using Cons.prems(1) i by (auto split: if_splits)
  have "i \<notin> set (map fst ops)" using fresh by (force simp: has_key_def)
  with Cons.IH [OF rest] Cons.prems(2) obtain new where "ops' = (ops @ [?t]) @ new" "distinct (map fst ops')"
      "list_all2 (hits_line line_hash body) es new" by auto
  moreover have "hits_line line_hash body e ?t" using resolve_anchor_Inr [OF i] by (simp add: hits_line_def)
  ultimately show ?case by (intro exI [of _ "?t # new"]) simp
qed simp

text \<open>
  Anchored edits hit the lines they name: when they succeed, each edit has its own line
  of the original file, a line with the hash of its anchor that is the only one or has the
  anchor's number, so earlier insertions and deletions cannot move an edit to another line;
  the result is the file with exactly these lines replaced, deleted or followed by the new
  text, every other line kept in order.
\<close>

theorem anchored_edits_hit_named_lines:
  assumes "apply_anchored_edits line_hash content edits = Inr out" "split_body content = (body, trailing_nl)"
  shows "\<exists>ops. distinct (map fst ops) \<and> list_all2 (hits_line line_hash body) edits ops \<and>
    (let result = join_nl (concat (map (edited_line ops body) [0..<length body])) in
     out = (if trailing_nl \<and> result \<noteq> [] then result @ [NL] else result)) \<and>
    (\<forall>i < length body. i \<notin> fst ` set ops \<longrightarrow> edited_line ops body i = [body ! i])"
proof -
  obtain ops where g: "gather line_hash body edits [] = Inr ops"
    using assms by (cases "gather line_hash body edits []") (auto simp: apply_anchored_edits_def split: if_splits)
  from gather_Inr [OF g] have "distinct (map fst ops)" "list_all2 (hits_line line_hash body) edits ops" by auto
  moreover have "let result = join_nl (concat (map (edited_line ops body) [0..<length body])) in
      out = (if trailing_nl \<and> result \<noteq> [] then result @ [NL] else result)"
    using assms g by (auto simp: apply_anchored_edits_def Let_def split: if_splits)
  moreover have "edited_line ops body i = [body ! i]" if "i \<notin> fst ` set ops" for i
    using that by (simp add: edited_line_def map_of_eq_None_iff [THEN iffD2])
  ultimately show ?thesis by blast
qed

text \<open>The anchors that \<open>annotate\<close> shows are read back as the line's number and hash.\<close>

lemma of_char_digits: "n < 10 \<Longrightarrow> (of_char (char_of (48 + n) :: char) :: nat) = 48 + n"
  by (rule of_char_digit)

lemma ascii_digits:
  "k > 0 \<Longrightarrow> ascii (digits_of k n) \<noteq> [] \<and> (\<forall>c \<in> set (ascii (digits_of k n)). digit_cp c)"
proof (rule conjI)
  assume "k > 0"
  then obtain k' where "k = Suc k'" by (cases k) auto
  then show "ascii (digits_of k n) \<noteq> []" by (simp add: ascii_def)
  show "\<forall>c \<in> set (ascii (digits_of k n)). digit_cp c"
    using digits_of_chars by (force simp: ascii_def digit_cp_def)
qed

lemma show_nat_digits: "show_nat n \<noteq> [] \<and> (\<forall>c \<in> set (show_nat n). digit_cp c) \<and> int_of_digits (show_nat n) = n"
proof -
  have s: "show_nat n = ascii (digits_of (n + 1) n)"
    by (simp add: show_nat_def py_str_int_def del: digits_of.simps)
  have "foldl (\<lambda>n c. 10 * n + (c - 48)) a (ascii s) = foldl (\<lambda>n c. 10 * n + (of_char c - 48)) a s" for a s
    by (induction s arbitrary: a) (simp_all add: ascii_def)
  then have "int_of_digits (show_nat n) = digits_value (digits_of (n + 1) n)"
    unfolding s int_of_digits_def digits_value_def by blast
  also have "\<dots> = n" by (rule digits_value_digits [OF less_pow10])
  finally show ?thesis using ascii_digits [of "n + 1" n] s by simp
qed

lemma takeWhile_stops: "(\<forall>x \<in> set xs. P x) \<Longrightarrow> \<not> P y \<Longrightarrow> takeWhile P (xs @ y # ys) = xs \<and> dropWhile P (xs @ y # ys) = y # ys"
  by (induction xs) auto

text \<open>
  Reading an anchor back: the anchor \<open>annotate\<close> puts before a line is parsed as the
  number of the line, counted from one, and its hash, for every hash of at least four
  lower-case hexadecimal digits.
\<close>

theorem anchor_roundtrip:
  assumes "4 \<le> length (line_hash l)" "\<forall>c \<in> set (line_hash l). hex_cp c \<and> lower_cp c = c"
  shows "parse_anchor (anchor_of line_hash i l) = Some (Some (i + 1), line_hash l)"
proof -
  let ?n = "show_nat (i + 1)" and ?h = "line_hash l"
  have n: "?n \<noteq> []" "\<forall>c \<in> set ?n. digit_cp c" "int_of_digits ?n = i + 1" using show_nat_digits by blast+
  have hash_sign: "\<not> digit_cp 35" by (simp add: digit_cp_def)
  have stop: "takeWhile digit_cp (?n @ 35 # ?h) = ?n" "dropWhile digit_cp (?n @ 35 # ?h) = 35 # ?h"
    using takeWhile_stops [OF n(2), of 35 ?h] hash_sign by simp_all
  have hex: "takeWhile hex_cp ?h = ?h" "dropWhile hex_cp ?h = []" using assms(2) by (simp_all add: takeWhile_eq_all_conv)
  have "dropWhile u_space ?h = ?h"
  proof (cases ?h)
    case (Cons c t)
    then have "hex_cp c" using assms(2) by simp
    then have "\<not> u_space c" by (auto simp: hex_cp_def digit_cp_def u_space_def)
    with Cons show ?thesis by simp
  qed simp
  moreover have "map lower_cp ?h = ?h" using assms(2) by (simp add: map_idI)
  moreover have "\<not> u_space 76" "\<not> u_space 35" by (simp_all add: u_space_def)
  ultimately show ?thesis
    using n assms(1)
    by (simp add: parse_anchor_def anchor_of_def Let_def hash_sign stop hex
        del: takeWhile_eq_all_conv dropWhile_eq_Nil_conv)
qed

section \<open>Worked instances\<close>

theorem edit_is_local_witness:
  "apply_replacement (\<lambda>a b. 0) [97, 32, 98] [98] [99] False = Inr [97, 32, 99]"
proof -
  have "\<exists>pre post. [97, 32, 98] = pre @ [98::nat] @ post \<and>
      apply_replacement (\<lambda>a b. 0) [97, 32, 98] [98] [99] False = Inr (pre @ [99] @ post)"
    using edit_is_local [of "[98]" "[99]" "\<lambda>a b. 0" "[97, 32, 98]"] by simp
  then obtain pre post where e: "[97, 32, 98] = pre @ [98::nat] @ post"
      "apply_replacement (\<lambda>a b. 0) [97, 32, 98] [98] [99] False = Inr (pre @ [99] @ post)" by blast
  then have "pre = [97, 32] \<and> post = []" by (auto simp: Cons_eq_append_conv)
  with e(2) show ?thesis by simp
qed

theorem edits_convert_line_endings_witness:
  "\<exists>out. edit_file (\<lambda>a b. 0) [97, CR, NL] [97] [98] False = Written out 1 0 \<and> CR \<notin> set out"
proof -
  have t: "edited_text [97, CR, NL] = ([], [NL], [97, NL])"
    by (simp add: edited_text_def strip_bom_def detect_eol_def Let_def u_count_char CRLF_def to_lf_def u_replace_char)
  have r: "apply_replacement (\<lambda>a b. 0) [97, NL] [97] [98] False = Inr [98, NL]"
    using first_hits_exact [of "[97]" "[97, NL]" "\<lambda>a b. 0"]
    by (simp add: apply_replacement_def repl_for_def reconcile_indent_def)
  have "to_lf [97] = [97]" "to_lf [98] = [98]" by (simp_all add: to_lf_no_cr)
  with t r have "edit_file (\<lambda>a b. 0) [97, CR, NL] [97] [98] False = Written [98, NL] 1 0"
    by (simp add: edit_file_def commit_text_def restore_eol_def)
  with edits_convert_line_endings [OF disjI1 [OF this]] show ?thesis by blast
qed

definition demo_hash :: "utext \<Rightarrow> utext" where
  "demo_hash l = (if l = [97] then [97, 97, 97, 97] else [98, 98, 98, 98])"

theorem anchored_edits_hit_named_lines_witness:
  "\<exists>ops. list_all2 (hits_line demo_hash [[97], [120]])
     [\<lparr>e_anchor = [35, 97, 97, 97, 97], e_op = OpReplace, e_text = [99]\<rparr>] ops"
proof -
  let ?e = "\<lparr>e_anchor = [35, 97, 97, 97, 97], e_op = OpReplace, e_text = [99]\<rparr>"
  have "parse_anchor (e_anchor ?e) = Some (None, [97, 97, 97, 97])"
    by (simp add: parse_anchor_def Let_def u_space_def digit_cp_def hex_cp_def lower_cp_def)
  moreover have "lines_with_hash demo_hash [[97], [120]] [97, 97, 97, 97] = [0]"
    by (simp add: lines_with_hash_def demo_hash_def upt_conv_Cons)
  moreover have b: "split_body [97, NL, 120, NL] = ([[97], [120]], True)" by (simp add: split_body_def)
  ultimately have "\<exists>out. apply_anchored_edits demo_hash [97, NL, 120, NL] [?e] = Inr out"
    by (simp add: apply_anchored_edits_def resolve_anchor_def has_key_def Let_def)
  then obtain out where "apply_anchored_edits demo_hash [97, NL, 120, NL] [?e] = Inr out" by blast
  from anchored_edits_hit_named_lines [OF this b] show ?thesis by blast
qed

theorem anchor_roundtrip_witness:
  "parse_anchor (anchor_of demo_hash 11 [97]) = Some (Some 12, [97, 97, 97, 97])"
  using anchor_roundtrip [of demo_hash "[97]" 11] by (simp add: demo_hash_def hex_cp_def lower_cp_def)

end
