(* ===== verification/Orch.thy ===== *)
theory Orch
  imports UText
begin

text \<open>
  The contract between orchestration and execution, \<^verbatim>\<open>core/orchestration/base.py\<close> and
  \<^verbatim>\<open>core/orchestration/signals.py\<close>: bots, work units, the step an orchestrator returns, the
  transition descriptors, and the completion signals of a run. Prompts are values of a type
  parameter, whose constructors are the templates of each orchestrator with the values they
  interpolate; the wording of a template is not modelled. The interface itself is the locale
  \<open>orchestrator\<close>: the laws the runner and the crash recovery rely on, which each orchestrator
  discharges for its own operations.
\<close>

section \<open>Bots and signals\<close>

datatype expertise = NoExpertise | ExpertiseText utext | ExpertiseList "utext list"

record bot =
  b_id :: int
  b_name :: utext
  b_color :: utext
  b_role :: "utext option"
  b_executor :: "utext option"
  b_expertise :: expertise

definition tool_loop_v1 :: utext where
  "tool_loop_v1 = ascii ''tool_loop_v1''"

record signal =
  sg_name :: string
  sg_reason :: "utext option"
  sg_target :: "utext option"
  sg_rework_idx :: "int option"
  sg_tool :: "utext option"

definition SIGNAL_STAGE_DONE :: string where "SIGNAL_STAGE_DONE = ''signal_stage_done''"
definition SIGNAL_REWORK :: string where "SIGNAL_REWORK = ''signal_rework''"

definition is_signal_done :: "signal \<Rightarrow> bool" where
  "is_signal_done s \<longleftrightarrow> sg_name s = SIGNAL_STAGE_DONE"

definition is_signal_rework :: "signal \<Rightarrow> bool" where
  "is_signal_rework s \<longleftrightarrow> sg_name s = SIGNAL_REWORK"

definition has_completion_signal :: "signal list option \<Rightarrow> bool" where
  "has_completion_signal sigs =
     (case sigs of None \<Rightarrow> False | Some ss \<Rightarrow> list_ex (\<lambda>s. is_signal_done s \<or> is_signal_rework s) ss)"

section \<open>Steps\<close>

datatype tag = NoTag | Ticket utext | TicketId utext

record 'p work_unit =
  wu_bot :: bot
  wu_executor :: utext
  wu_trigger :: 'p
  wu_suffix :: 'p
  wu_workflow :: bool
  wu_tag :: tag

datatype actor = SystemActor | HumanActor | BotActor int

datatype pval = PInt int | PBool bool | PText utext | PWord string | PNone

record observation =
  o_event :: string
  o_workflow :: string
  o_stage_id :: utext
  o_stage_index :: int
  o_gate :: string
  o_gate_instance :: string
  o_actor :: actor
  o_payload :: "(string \<times> pval) list"

record 'p gate_card =
  gc_gate :: string
  gc_instance :: string
  gc_label :: 'p
  gc_bot :: "int option"
  gc_stage :: utext

record paused =
  pz_reason :: string
  pz_details :: utext

datatype ws_action = Promote | Discard | Retain

record 'p step =
  next_units :: "'p work_unit list"
  announcements :: "('p \<times> int) list"
  broadcast_state :: bool
  st_done :: bool
  confirm_gate :: "'p gate_card option"
  workflow_paused :: "paused option"
  workspace_action :: "ws_action option"
  observations :: "observation list"

definition empty_step :: "'p step" where
  "empty_step = \<lparr>next_units = [], announcements = [], broadcast_state = False, st_done = False,
     confirm_gate = None, workflow_paused = None, workspace_action = None, observations = []\<rparr>"

lemma empty_step_fields [simp]:
  "next_units empty_step = []" "announcements empty_step = []" "\<not> broadcast_state empty_step"
  "\<not> st_done empty_step" "confirm_gate empty_step = None" "workflow_paused empty_step = None"
  "workspace_action empty_step = None" "observations empty_step = []"
  by (simp_all add: empty_step_def)

text \<open>The Python exceptions an orchestrator can raise; the state keeps what was written before.\<close>

datatype orch_exc = KeyError string | IndexError | ZeroDivisionError | ValueError

type_synonym ('s, 'p) decision = "(orch_exc + 'p step) \<times> (int \<Rightarrow> 's option)"

definition is_silent :: "'p step \<Rightarrow> bool" where
  "is_silent st \<longleftrightarrow> \<not> st_done st \<and> \<not> broadcast_state st \<and> observations st = []"

text \<open>\<open>self._state.pop(group_id, None)\<close>, the \<open>end\<close> of every orchestrator.\<close>

definition end_group :: "int \<Rightarrow> (int \<Rightarrow> 's option) \<Rightarrow> (int \<Rightarrow> 's option)" where
  "end_group g S = S(g := None)"

definition group_ok :: "('s \<Rightarrow> bool) \<Rightarrow> int \<Rightarrow> (int \<Rightarrow> 's option) \<Rightarrow> bool" where
  "group_ok P g S \<longleftrightarrow> (case S g of None \<Rightarrow> True | Some s \<Rightarrow> P s)"

lemma group_okD: "group_ok P g S \<Longrightarrow> S g = Some s \<Longrightarrow> P s"
  by (simp add: group_ok_def)

lemma group_ok_None [simp]: "S g = None \<Longrightarrow> group_ok P g S"
  by (simp add: group_ok_def)

lemma group_ok_upd [simp]: "group_ok P g (S(g \<mapsto> s)) \<longleftrightarrow> P s"
  by (simp add: group_ok_def)

section \<open>The orchestrator interface\<close>

text \<open>
  \<open>decides\<close> stands for any state-changing call of an orchestrator (\<open>observe\<close>, \<open>confirm\<close>,
  \<open>advance\<close>, \<open>dispatch\<close>), tagged by the input that selects it. What the runner needs: a call
  concerns its own group only, a finished group is forgotten, and a step that asks for nothing to
  be stored has changed nothing. \<open>encode\<close> is the JSON text of a state, \<open>restore\<close> the operation
  that reads it back; \<open>live\<close> is the orchestrator's own invariant.
\<close>

locale orchestrator =
  fixes decides :: "'i \<Rightarrow> int \<Rightarrow> (int \<Rightarrow> 's option) \<Rightarrow> ('s, 'p) decision"
    and input_ok :: "'i \<Rightarrow> bool"
    and live :: "'s \<Rightarrow> bool"
    and encode :: "'s \<Rightarrow> 'b"
    and restore :: "int \<Rightarrow> 'b \<Rightarrow> (int \<Rightarrow> 's option) \<Rightarrow> (int \<Rightarrow> 's option)"
  assumes isolated: "input_ok i \<Longrightarrow> group_ok live g S \<Longrightarrow> h \<noteq> g \<Longrightarrow> snd (decides i g S) h = S h"
    and forgets: "input_ok i \<Longrightarrow> group_ok live g S \<Longrightarrow> fst (decides i g S) = Inr st \<Longrightarrow> st_done st \<Longrightarrow>
        snd (decides i g S) g = None"
    and silent: "input_ok i \<Longrightarrow> group_ok live g S \<Longrightarrow> fst (decides i g S) = Inr st \<Longrightarrow> is_silent st \<Longrightarrow>
        snd (decides i g S) g = S g"
    and keeps: "input_ok i \<Longrightarrow> group_ok live g S \<Longrightarrow> group_ok live g (snd (decides i g S))"
    and restores: "live s \<Longrightarrow> restore g (encode s) S = S(g \<mapsto> s)"

text \<open>What every decision does to its group: nothing, silently; or it ends; or it is broadcast.\<close>

definition lawful :: "int \<Rightarrow> (int \<Rightarrow> 's option) \<Rightarrow> ('s, 'p) decision \<Rightarrow> bool" where
  "lawful g S d \<longleftrightarrow>
     d = (Inr empty_step, S) \<or> (\<exists>e. fst d = Inl e \<and> (\<forall>h. h \<noteq> g \<longrightarrow> snd d h = S h)) \<or>
     (\<exists>st. d = (Inr st, S(g := None)) \<and> st_done st) \<or>
     (\<exists>st s'. d = (Inr st, S(g \<mapsto> s')) \<and> \<not> st_done st \<and> (broadcast_state st \<or> observations st \<noteq> []))"

lemma lawful_laws:
  assumes "lawful g S d"
  shows "h \<noteq> g \<Longrightarrow> snd d h = S h"
    and "fst d = Inr st \<Longrightarrow> st_done st \<Longrightarrow> snd d g = None"
    and "fst d = Inr st \<Longrightarrow> is_silent st \<Longrightarrow> snd d g = S g"
  using assms by (auto simp: lawful_def is_silent_def)

lemma lawful_empty: "lawful g S (Inr empty_step, S)" "lawful g S (Inl e, S)" "lawful g S (Inl e, S(g := v))"
  by (simp_all add: lawful_def)

lemma lawful_moved: "\<not> st_done st \<Longrightarrow> broadcast_state st \<or> observations st \<noteq> [] \<Longrightarrow> lawful g S (Inr st, S(g \<mapsto> s'))"
  unfolding lawful_def by blast

lemma lawful_over: "st_done st \<Longrightarrow> lawful g S (Inr st, S(g := None))"
  unfolding lawful_def by blast

end
