(* ===== verification/TurnTaking.thy ===== *)
theory TurnTaking
  imports Orch "HOL-Library.Sublist"
begin

text \<open>
  The two turn-taking orchestrators, \<^verbatim>\<open>core/orchestration/plugins/round_robin.py\<close> and
  \<^verbatim>\<open>core/orchestration/plugins/discussion.py\<close>: a fixed list of bots speaks in order for a
  number of rounds; a discussion then has one more turn, of the summarizer. The locale
  \<open>turn_taking\<close> states what they have in common, that a report of the bot whose turn it is
  removes the head of the schedule and any other report is ignored.
\<close>

section \<open>Schedules\<close>

fun rest_of :: "'a list \<Rightarrow> 'a list \<Rightarrow> 'a list" where
  "rest_of [] rs = []"
| "rest_of (x # xs) [] = x # xs"
| "rest_of (x # xs) (r # rs) = (if r = x then rest_of xs rs else rest_of (x # xs) rs)"

lemma rest_of_subseq: "rest_of xs rs = [] \<longleftrightarrow> subseq xs rs"
proof (induction xs rs rule: rest_of.induct)
  case (3 x xs r rs)
  show ?case
  proof (cases "r = x")
    case True
    with 3 show ?thesis by simp
  next
    case False
    with 3(2) show ?thesis by (auto simp: subseq_Cons2_neq)
  qed
qed simp_all

definition took_turn :: "'a \<Rightarrow> 'a list \<Rightarrow> 'a list" where
  "took_turn b xs = (case xs of [] \<Rightarrow> [] | x # ys \<Rightarrow> if b = x then ys else x # ys)"

lemma rest_of_step: "rest_of (took_turn b xs) rs = rest_of xs (b # rs)"
  by (cases xs) (auto simp: took_turn_def)

text \<open>The client of the interface: after any reports the rest of the schedule is the greedy rest.\<close>

locale turn_taking =
  fixes report :: "int \<Rightarrow> 's \<Rightarrow> 's"
    and schedule :: "'s \<Rightarrow> int list"
    and good :: "'s \<Rightarrow> bool"
  assumes turn: "good s \<Longrightarrow> schedule (report b s) = took_turn b (schedule s)"
    and stays_good: "good s \<Longrightarrow> good (report b s)"
begin

lemma reported: "good s \<Longrightarrow> good (fold report bs s) \<and> schedule (fold report bs s) = rest_of (schedule s) bs"
proof (induction bs arbitrary: s)
  case Nil
  then show ?case by (cases "schedule s") simp_all
next
  case (Cons b bs)
  from Cons.IH [OF stays_good [OF Cons.prems, of b]] show ?case
    by (simp add: turn [OF Cons.prems] rest_of_step)
qed

lemma over_iff: "good s \<Longrightarrow> schedule (fold report bs s) = [] \<longleftrightarrow> subseq (schedule s) bs"
  using reported by (simp add: rest_of_subseq)

lemma still_waiting:
  "good s \<Longrightarrow> schedule (fold report bs s) \<noteq> [] \<Longrightarrow> \<exists>k < length (schedule s). schedule (fold report bs s) = drop k (schedule s)"
proof -
  have "\<exists>k \<le> length xs. rest_of xs rs = drop k xs" for xs rs :: "int list"
  proof (induction xs rs rule: rest_of.induct)
    case (3 x xs r rs)
    show ?case
    proof (cases "r = x")
      case True
      with 3(1) obtain k where "k \<le> length xs" "rest_of xs rs = drop k xs" by auto
      with True show ?thesis by (intro exI [of _ "Suc k"]) simp
    next
      case False
      with 3(2) show ?thesis by simp
    qed
  qed auto
  then obtain k where "k \<le> length (schedule s)" "rest_of (schedule s) bs = drop k (schedule s)" by blast
  moreover assume "good s" "schedule (fold report bs s) \<noteq> []"
  ultimately show ?thesis using reported [of s bs] by (intro exI [of _ k]) (auto simp: le_less)
qed

end

section \<open>The round-robin orchestrator\<close>

datatype turn_prompt =
    NoText | Topic utext | SpeakNow | SummarizeNow
  | RoundSuffix int int | OpeningSuffix int | ConvergeSuffix int int | DebateSuffix int int | SummarySuffix

record rr_state =
  rr_id :: string
  rr_bots :: "bot list"
  rr_rounds :: int
  rr_idx :: nat
  rr_round :: int
  rr_started :: bool
  rr_start_time :: string

definition item :: "'a list \<Rightarrow> nat \<Rightarrow> 'a option" where
  "item xs i = (if i < length xs then Some (xs ! i) else None)"

definition rr_suffix :: "rr_state option \<Rightarrow> turn_prompt" where
  "rr_suffix s = (case s of None \<Rightarrow> NoText | Some st \<Rightarrow> RoundSuffix (rr_round st) (rr_rounds st))"

definition rr_unit :: "rr_state option \<Rightarrow> bot \<Rightarrow> utext \<Rightarrow> turn_prompt work_unit" where
  "rr_unit s b trigger =
     \<lparr>wu_bot = b, wu_executor = tool_loop_v1, wu_trigger = (if trigger = [] then SpeakNow else Topic trigger),
      wu_suffix = rr_suffix s, wu_workflow = True, wu_tag = NoTag\<rparr>"

definition rr_observation :: "rr_state \<Rightarrow> string \<Rightarrow> actor \<Rightarrow> (string \<times> pval) list \<Rightarrow> observation" where
  "rr_observation s ev a p =
     \<lparr>o_event = ev, o_workflow = rr_id s, o_stage_id = ascii ''round_robin'', o_stage_index = 0,
      o_gate = '''', o_gate_instance = '''', o_actor = a,
      o_payload = [(''stage_name'', PText (ascii ''Round Robin'')), (''round'', PInt (rr_round s)),
                   (''rounds'', PInt (rr_rounds s))] @ p\<rparr>"

definition rr_step_to_current :: "rr_state \<Rightarrow> orch_exc + turn_prompt step" where
  "rr_step_to_current s =
     (case item (rr_bots s) (rr_idx s) of
        None \<Rightarrow> Inl IndexError
      | Some b \<Rightarrow> Inr (empty_step\<lparr>next_units := [rr_unit (Some s) b []], broadcast_state := True\<rparr>))"

text \<open>The cursor of both orchestrators: the next bot, or the first bot of the next round.\<close>

definition next_turn :: "nat \<Rightarrow> nat \<times> int \<Rightarrow> nat \<times> int" where
  "next_turn n c = (if n \<le> fst c + 1 then (0, snd c + 1) else (fst c + 1, snd c))"

definition rr_advance_cursor :: "int \<Rightarrow> actor \<Rightarrow> (int \<Rightarrow> rr_state option) \<Rightarrow> (rr_state, turn_prompt) decision" where
  "rr_advance_cursor g a S =
     (case S g of
        None \<Rightarrow> (Inr empty_step, S)
      | Some s \<Rightarrow>
          let c = next_turn (length (rr_bots s)) (rr_idx s, rr_round s);
              s' = s\<lparr>rr_idx := fst c, rr_round := snd c\<rparr>
          in if rr_rounds s' < rr_round s' then
               (Inr (empty_step\<lparr>st_done := True,
                  observations :=
                    [rr_observation s' ''stage_completed'' a
                       [(''completion_source'', PWord ''all_rounds_completed'')],
                     rr_observation s' ''workflow_completed'' a [(''completed_rounds'', PInt (rr_rounds s'))]]\<rparr>),
                end_group g S)
             else (rr_step_to_current s', S(g \<mapsto> s')))"

definition rr_begin ::
  "string \<Rightarrow> string \<Rightarrow> int \<Rightarrow> bot list \<Rightarrow> int \<Rightarrow> (int \<Rightarrow> rr_state option) \<Rightarrow> (rr_state, turn_prompt) decision" where
  "rr_begin wid now g bots rounds S =
     (if bots = [] \<or> rounds < 1 then (Inr empty_step, S)
      else
        let s = \<lparr>rr_id = wid, rr_bots = bots, rr_rounds = rounds, rr_idx = 0, rr_round = 1,
                 rr_started = False, rr_start_time = now\<rparr>
        in (Inr (empty_step\<lparr>broadcast_state := True,
              observations := [rr_observation s ''workflow_started'' SystemActor
                                 [(''participant_count'', PInt (int (length bots)))],
                               rr_observation s ''stage_entered'' SystemActor []]\<rparr>),
            S(g \<mapsto> s)))"

definition rr_dispatch :: "int \<Rightarrow> utext \<Rightarrow> (int \<Rightarrow> rr_state option) \<Rightarrow> (rr_state, turn_prompt) decision" where
  "rr_dispatch g msg S =
     (case S g of
        None \<Rightarrow> (Inr empty_step, S)
      | Some s \<Rightarrow>
          if rr_started s then (Inr empty_step, S)
          else
            let content = u_strip msg; s' = s\<lparr>rr_started := True\<rparr>
            in if content = [] then (Inr empty_step, S)
               else
                 ((case item (rr_bots s) (rr_idx s) of
                     None \<Rightarrow> Inl IndexError
                   | Some b \<Rightarrow> Inr (empty_step\<lparr>next_units := [rr_unit (Some s') b content], broadcast_state := True\<rparr>)),
                  S(g \<mapsto> s')))"

definition rr_observe :: "int \<Rightarrow> int \<Rightarrow> (int \<Rightarrow> rr_state option) \<Rightarrow> (rr_state, turn_prompt) decision" where
  "rr_observe g who S =
     (case S g of
        None \<Rightarrow> (Inr empty_step, S)
      | Some s \<Rightarrow>
          (case item (rr_bots s) (rr_idx s) of
             None \<Rightarrow> (Inl IndexError, S)
           | Some b \<Rightarrow>
               if b_id b \<noteq> who then (Inr empty_step, S)
               else rr_advance_cursor g (BotActor who) S))"

definition rr_advance :: "int \<Rightarrow> (int \<Rightarrow> rr_state option) \<Rightarrow> (rr_state, turn_prompt) decision" where
  "rr_advance g S = rr_advance_cursor g HumanActor S"

definition rr_current_bot :: "int \<Rightarrow> (int \<Rightarrow> rr_state option) \<Rightarrow> bot option" where
  "rr_current_bot g S = (case S g of None \<Rightarrow> None | Some s \<Rightarrow> item (rr_bots s) (rr_idx s))"

text \<open>
  \<open>snapshot\<close> for the front end, and the crash recovery: the persisted blob is the state, whose
  workflow id may be missing in snapshots of an older version.
\<close>

record rr_view =
  rv_id :: string
  rv_round :: int
  rv_rounds :: int
  rv_current :: nat
  rv_bots :: "(int \<times> utext) list"

definition rr_snapshot :: "int \<Rightarrow> (int \<Rightarrow> rr_state option) \<Rightarrow> rr_view option" where
  "rr_snapshot g S =
     (case S g of
        None \<Rightarrow> None
      | Some s \<Rightarrow> Some \<lparr>rv_id = rr_id s, rv_round = rr_round s, rv_rounds = rr_rounds s,
                       rv_current = rr_idx s, rv_bots = map (\<lambda>b. (b_id b, b_name b)) (rr_bots s)\<rparr>)"

definition rr_blob :: "rr_state \<Rightarrow> string option \<times> rr_state" where
  "rr_blob s = (Some (rr_id s), s)"

definition rr_restore :: "string \<Rightarrow> int \<Rightarrow> string option \<times> rr_state \<Rightarrow> (int \<Rightarrow> rr_state option) \<Rightarrow> (int \<Rightarrow> rr_state option)" where
  "rr_restore fresh g blob S = S(g \<mapsto> (snd blob)\<lparr>rr_id := get_default (fst blob) fresh\<rparr>)"

definition rr_recovery_observation :: "int \<Rightarrow> (int \<Rightarrow> rr_state option) \<Rightarrow> observation option" where
  "rr_recovery_observation g S =
     map_option (\<lambda>s. rr_observation s ''workflow_recovered'' SystemActor [(''started'', PBool (rr_started s))]) (S g)"

definition rr_resume_units :: "int \<Rightarrow> (int \<Rightarrow> rr_state option) \<Rightarrow> orch_exc + turn_prompt work_unit list" where
  "rr_resume_units g S =
     (case S g of
        None \<Rightarrow> Inr []
      | Some s \<Rightarrow>
          if \<not> rr_started s then Inr []
          else (case item (rr_bots s) (rr_idx s) of
                  None \<Rightarrow> Inl IndexError
                | Some b \<Rightarrow> Inr [rr_unit (Some s) b []]))"

section \<open>The discussion orchestrator\<close>

datatype disc_phase = Discussing | Summarizing

record disc_state =
  dc_id :: string
  dc_bots :: "bot list"
  dc_rounds :: int
  dc_idx :: nat
  dc_round :: int
  dc_phase :: disc_phase
  dc_summarizer :: bot
  dc_started :: bool
  dc_start_time :: string
  dc_topic :: "utext option"
  dc_thread :: "string option"
  dc_viewpoints :: "utext list option"

text \<open>
  \<open>convergence_start\<close>: the last fifth of the rounds, from the third on. \<open>int(rounds * 0.2)\<close> is
  the integer quotient for every number of rounds a float represents.
\<close>

definition convergence_start :: "int \<Rightarrow> int" where
  "convergence_start rounds =
     (if 3 \<le> rounds then max 3 (rounds - max 1 (rounds div 5) + 1) else rounds + 1)"

definition dc_suffix :: "disc_state option \<Rightarrow> turn_prompt" where
  "dc_suffix so =
     (case so of
        None \<Rightarrow> NoText
      | Some s \<Rightarrow>
          if dc_phase s = Summarizing then SummarySuffix
          else if dc_round s = 1 then OpeningSuffix (dc_rounds s)
          else if convergence_start (dc_rounds s) \<le> dc_round s then ConvergeSuffix (dc_round s) (dc_rounds s)
          else DebateSuffix (dc_round s) (dc_rounds s))"

definition dc_unit :: "disc_state option \<Rightarrow> bot \<Rightarrow> utext \<Rightarrow> turn_prompt work_unit" where
  "dc_unit so b trigger =
     \<lparr>wu_bot = b, wu_executor = tool_loop_v1,
      wu_trigger =
        (if trigger \<noteq> [] then Topic trigger
         else case so of
             None \<Rightarrow> SpeakNow
           | Some s \<Rightarrow> if dc_phase s = Summarizing then SummarizeNow else SpeakNow),
      wu_suffix = dc_suffix so, wu_workflow = True, wu_tag = NoTag\<rparr>"

definition dc_observation :: "disc_state \<Rightarrow> string \<Rightarrow> disc_phase \<Rightarrow> actor \<Rightarrow> (string \<times> pval) list \<Rightarrow> observation" where
  "dc_observation s ev ph a p =
     \<lparr>o_event = ev, o_workflow = dc_id s,
      o_stage_id = ascii (if ph = Discussing then ''discussion'' else ''summary''),
      o_stage_index = (if ph = Discussing then 0 else 1), o_gate = '''', o_gate_instance = '''', o_actor = a,
      o_payload = [(''stage_name'', PText (ascii (if ph = Discussing then ''Discussion'' else ''Summary & Pros/Cons''))),
                   (''round'', PInt (dc_round s)), (''rounds'', PInt (dc_rounds s))] @ p\<rparr>"

definition dc_speaker :: "disc_state \<Rightarrow> bot option" where
  "dc_speaker s = (if dc_phase s = Summarizing then Some (dc_summarizer s) else item (dc_bots s) (dc_idx s))"

definition dc_step_to_current :: "disc_state \<Rightarrow> orch_exc + turn_prompt step" where
  "dc_step_to_current s =
     (case dc_speaker s of
        None \<Rightarrow> Inl IndexError
      | Some b \<Rightarrow> Inr (empty_step\<lparr>next_units := [dc_unit (Some s) b []], broadcast_state := True\<rparr>))"

definition dc_advance_cursor :: "int \<Rightarrow> actor \<Rightarrow> (int \<Rightarrow> disc_state option) \<Rightarrow> (disc_state, turn_prompt) decision" where
  "dc_advance_cursor g a S =
     (case S g of
        None \<Rightarrow> (Inr empty_step, S)
      | Some s \<Rightarrow>
          if dc_phase s = Summarizing then
            (Inr (empty_step\<lparr>st_done := True,
               observations :=
                 [dc_observation s ''stage_completed'' Summarizing a
                    [(''completion_source'', PWord ''summary_completed'')],
                  dc_observation s ''workflow_completed'' Summarizing a []]\<rparr>),
             end_group g S)
          else
            let c = next_turn (length (dc_bots s)) (dc_idx s, dc_round s);
                s1 = s\<lparr>dc_idx := fst c, dc_round := snd c\<rparr>
            in if dc_rounds s1 < dc_round s1 then
                 (let s2 = s1\<lparr>dc_phase := Summarizing\<rparr>
                  in (map_sum id (\<lambda>st. st\<lparr>observations :=
                         [dc_observation s2 ''stage_completed'' Discussing a
                            [(''completion_source'', PWord ''all_rounds_completed'')],
                          dc_observation s2 ''stage_entered'' Summarizing a []]\<rparr>) (dc_step_to_current s2),
                      S(g \<mapsto> s2)))
               else (dc_step_to_current s1, S(g \<mapsto> s1)))"

definition pick_summarizer :: "bot list \<Rightarrow> int option \<Rightarrow> bot option" where
  "pick_summarizer bots sid =
     (case (case sid of None \<Rightarrow> None | Some i \<Rightarrow> if i = 0 then None else find (\<lambda>b. b_id b = i) bots) of
        Some b \<Rightarrow> Some b
      | None \<Rightarrow> item bots 0)"

definition dc_begin ::
  "string \<Rightarrow> string \<Rightarrow> int \<Rightarrow> bot list \<Rightarrow> int \<Rightarrow> int option \<Rightarrow> (int \<Rightarrow> disc_state option) \<Rightarrow> (disc_state, turn_prompt) decision" where
  "dc_begin wid now g bots rounds sid S =
     (case pick_summarizer bots sid of
        None \<Rightarrow> (Inr empty_step, S)
      | Some summ \<Rightarrow>
          if bots = [] \<or> rounds < 1 then (Inr empty_step, S)
          else
            let s = \<lparr>dc_id = wid, dc_bots = bots, dc_rounds = rounds, dc_idx = 0, dc_round = 1,
                     dc_phase = Discussing, dc_summarizer = summ, dc_started = False, dc_start_time = now,
                     dc_topic = None, dc_thread = None, dc_viewpoints = None\<rparr>
            in (Inr (empty_step\<lparr>broadcast_state := True,
                  observations := [dc_observation s ''workflow_started'' Discussing SystemActor
                                     [(''participant_count'', PInt (int (length bots)))],
                                   dc_observation s ''stage_entered'' Discussing SystemActor []]\<rparr>),
                S(g \<mapsto> s)))"

text \<open>The first message of the user is the topic; \<open>rnd\<close> is the random part of the thread id.\<close>

definition dc_dispatch :: "string \<Rightarrow> int \<Rightarrow> utext \<Rightarrow> (int \<Rightarrow> disc_state option) \<Rightarrow> (disc_state, turn_prompt) decision" where
  "dc_dispatch rnd g msg S =
     (case S g of
        None \<Rightarrow> (Inr empty_step, S)
      | Some s \<Rightarrow>
          if dc_started s then (Inr empty_step, S)
          else
            let content = u_strip msg;
                s' = s\<lparr>dc_started := True, dc_topic := Some content,
                      dc_thread := Some (''disc:'' @ py_str_int g @ '':'' @ rnd)\<rparr>
            in if content = [] then (Inr empty_step, S)
               else
                 ((case item (dc_bots s) (dc_idx s) of
                     None \<Rightarrow> Inl IndexError
                   | Some b \<Rightarrow> Inr (empty_step\<lparr>next_units := [dc_unit (Some s') b content], broadcast_state := True\<rparr>)),
                  S(g \<mapsto> s')))"

definition dc_observe :: "int \<Rightarrow> int \<Rightarrow> (int \<Rightarrow> disc_state option) \<Rightarrow> (disc_state, turn_prompt) decision" where
  "dc_observe g who S =
     (case S g of
        None \<Rightarrow> (Inr empty_step, S)
      | Some s \<Rightarrow>
          (case dc_speaker s of
             None \<Rightarrow> (Inl IndexError, S)
           | Some b \<Rightarrow>
               if b_id b \<noteq> who then (Inr empty_step, S)
               else dc_advance_cursor g (BotActor who) S))"

definition dc_advance :: "int \<Rightarrow> (int \<Rightarrow> disc_state option) \<Rightarrow> (disc_state, turn_prompt) decision" where
  "dc_advance g S = dc_advance_cursor g HumanActor S"

definition dc_current_bot :: "int \<Rightarrow> (int \<Rightarrow> disc_state option) \<Rightarrow> bot option" where
  "dc_current_bot g S = (case S g of None \<Rightarrow> None | Some s \<Rightarrow> dc_speaker s)"

record dc_view =
  dv_id :: string
  dv_current :: int
  dv_round :: int
  dv_rounds :: int
  dv_idx :: nat
  dv_phase :: disc_phase
  dv_bots :: "(int \<times> utext) list"
  dv_summarizer :: "int \<times> utext"

definition dc_snapshot :: "int \<Rightarrow> (int \<Rightarrow> disc_state option) \<Rightarrow> dc_view option" where
  "dc_snapshot g S =
     (case S g of
        None \<Rightarrow> None
      | Some s \<Rightarrow> Some \<lparr>dv_id = dc_id s, dv_current = (if dc_phase s = Discussing then 0 else 1),
                       dv_round = dc_round s, dv_rounds = dc_rounds s, dv_idx = dc_idx s, dv_phase = dc_phase s,
                       dv_bots = map (\<lambda>b. (b_id b, b_name b)) (dc_bots s),
                       dv_summarizer = (b_id (dc_summarizer s), b_name (dc_summarizer s))\<rparr>)"

definition dc_blob :: "disc_state \<Rightarrow> string option \<times> disc_state" where
  "dc_blob s = (Some (dc_id s), s)"

definition dc_restore :: "string \<Rightarrow> int \<Rightarrow> string option \<times> disc_state \<Rightarrow> (int \<Rightarrow> disc_state option) \<Rightarrow> (int \<Rightarrow> disc_state option)" where
  "dc_restore fresh g blob S = S(g \<mapsto> (snd blob)\<lparr>dc_id := get_default (fst blob) fresh\<rparr>)"

definition dc_recovery_observation :: "int \<Rightarrow> (int \<Rightarrow> disc_state option) \<Rightarrow> observation option" where
  "dc_recovery_observation g S =
     map_option (\<lambda>s. dc_observation s ''workflow_recovered'' (dc_phase s) SystemActor
                       [(''started'', PBool (dc_started s))]) (S g)"

definition dc_resume_units :: "int \<Rightarrow> (int \<Rightarrow> disc_state option) \<Rightarrow> orch_exc + turn_prompt work_unit list" where
  "dc_resume_units g S =
     (case S g of
        None \<Rightarrow> Inr []
      | Some s \<Rightarrow>
          if \<not> dc_started s then Inr []
          else (case dc_speaker s of None \<Rightarrow> Inl IndexError | Some b \<Rightarrow> Inr [dc_unit (Some s) b []]))"

text \<open>\<open>get_viewpoints_cache\<close> creates the cache the runner fills, \<open>participant_count\<close> sizes its window.\<close>

definition dc_viewpoints_cache :: "int \<Rightarrow> (int \<Rightarrow> disc_state option) \<Rightarrow> utext list option \<times> (int \<Rightarrow> disc_state option)" where
  "dc_viewpoints_cache g S =
     (case S g of
        None \<Rightarrow> (None, S)
      | Some s \<Rightarrow> let v = get_default (dc_viewpoints s) [] in (Some v, S(g \<mapsto> s\<lparr>dc_viewpoints := Some v\<rparr>)))"

definition dc_participant_count :: "int \<Rightarrow> (int \<Rightarrow> disc_state option) \<Rightarrow> nat option" where
  "dc_participant_count g S =
     (case S g of
        None \<Rightarrow> None
      | Some s \<Rightarrow> if dc_bots s = [] then None else Some (length (dc_bots s)))"

text \<open>\<open>parse_spec\<close> of both: the bot ids of the request, as far as the group has them.\<close>

definition resolve_bots :: "(int \<Rightarrow> bot option) \<Rightarrow> int list \<Rightarrow> bot list" where
  "resolve_bots bots ids = List.map_filter bots ids"

section \<open>Laws\<close>

lemma item_Some_iff: "item xs i = Some x \<longleftrightarrow> i < length xs \<and> xs ! i = x"
  by (auto simp: item_def)

lemma item_some [simp]: "i < length xs \<Longrightarrow> item xs i = Some (xs ! i)"
  by (simp add: item_def)

definition turns_left :: "bot list \<Rightarrow> int \<Rightarrow> nat \<times> int \<Rightarrow> int list" where
  "turns_left bots rounds c =
     map b_id (drop (fst c) bots @ concat (replicate (nat (rounds - snd c)) bots))"

definition cursor_ok :: "bot list \<Rightarrow> int \<Rightarrow> nat \<times> int \<Rightarrow> bool" where
  "cursor_ok bots rounds c \<longleftrightarrow> fst c < length bots \<and> 1 \<le> snd c \<and> snd c \<le> rounds"

text \<open>The cursor moves along the schedule.\<close>

lemma turns_left_next:
  assumes "cursor_ok bots rounds c"
  shows "turns_left bots rounds c = b_id (bots ! fst c) #
           (let c' = next_turn (length bots) c in if rounds < snd c' then [] else turns_left bots rounds c')"
proof -
  obtain i r where c: "c = (i, r)" by (cases c)
  with assms have i: "i < length bots" "1 \<le> r" "r \<le> rounds" by (simp_all add: cursor_ok_def)
  have d: "drop i bots = bots ! i # drop (Suc i) bots" using i by (simp add: Cons_nth_drop_Suc)
  show ?thesis
  proof (cases "length bots \<le> i + 1")
    case True
    have "nat (rounds - r) = Suc (nat (rounds - (r + 1)))" if "r < rounds" using that by simp
    with True i show ?thesis
      by (cases "r < rounds") (simp_all add: c d turns_left_def next_turn_def Let_def)
  next
    case False
    with i show ?thesis by (simp add: c d turns_left_def next_turn_def Let_def)
  qed
qed

lemma cursor_ok_next:
  "cursor_ok bots rounds c \<Longrightarrow> \<not> rounds < snd (next_turn (length bots) c) \<Longrightarrow>
   cursor_ok bots rounds (next_turn (length bots) c)"
  by (auto simp: cursor_ok_def next_turn_def split: if_splits)

lemma cursor_ok_zero:
  "cursor_ok bots rounds c \<Longrightarrow> rounds < snd (next_turn (length bots) c) \<Longrightarrow> fst (next_turn (length bots) c) = 0"
  by (auto simp: cursor_ok_def next_turn_def split: if_splits)

lemma turns_left_first: "1 \<le> rounds \<Longrightarrow> turns_left bots rounds (0, 1) = map b_id (concat (replicate (nat rounds) bots))"
proof -
  assume "1 \<le> rounds"
  then have "nat rounds = Suc (nat (rounds - 1))" by simp
  then show ?thesis by (simp add: turns_left_def)
qed

subsection \<open>Round robin\<close>

definition rr_live :: "rr_state \<Rightarrow> bool" where
  "rr_live s \<longleftrightarrow> cursor_ok (rr_bots s) (rr_rounds s) (rr_idx s, rr_round s)"

definition rr_schedule :: "int \<Rightarrow> (int \<Rightarrow> rr_state option) \<Rightarrow> int list" where
  "rr_schedule g S =
     (case S g of None \<Rightarrow> [] | Some s \<Rightarrow> turns_left (rr_bots s) (rr_rounds s) (rr_idx s, rr_round s))"

lemma rr_live_item: "rr_live s \<Longrightarrow> item (rr_bots s) (rr_idx s) = Some (rr_bots s ! rr_idx s)"
  by (simp add: rr_live_def cursor_ok_def)

lemma rr_cursor_cases:
  assumes "S g = Some s" "rr_live s"
  obtains (over) st where "rr_advance_cursor g a S = (Inr st, S(g := None))" "st_done st" "next_units st = []"
      "turns_left (rr_bots s) (rr_rounds s) (rr_idx s, rr_round s) = [b_id (rr_bots s ! rr_idx s)]"
  | (moved) st s' where "rr_advance_cursor g a S = (Inr st, S(g \<mapsto> s'))" "\<not> st_done st" "broadcast_state st" "rr_live s'"
      "map wu_bot (next_units st) = [rr_bots s' ! rr_idx s']" "rr_started s' = rr_started s"
      "turns_left (rr_bots s) (rr_rounds s) (rr_idx s, rr_round s) =
         b_id (rr_bots s ! rr_idx s) # turns_left (rr_bots s') (rr_rounds s') (rr_idx s', rr_round s')"
proof -
  let ?c = "next_turn (length (rr_bots s)) (rr_idx s, rr_round s)"
  let ?s = "s\<lparr>rr_idx := fst ?c, rr_round := snd ?c\<rparr>"
  note ok = assms(2) [unfolded rr_live_def]
  note nxt = turns_left_next [OF ok]
  show thesis
  proof (cases "rr_rounds s < snd ?c")
    case True
    then show ?thesis
      using over assms(1) nxt by (simp add: rr_advance_cursor_def Let_def end_group_def)
  next
    case False
    from cursor_ok_next [OF ok False] have live: "rr_live ?s" by (simp add: rr_live_def)
    from rr_live_item [OF live] have "rr_step_to_current ?s =
        Inr (empty_step\<lparr>next_units := [rr_unit (Some ?s) (rr_bots ?s ! rr_idx ?s) []], broadcast_state := True\<rparr>)"
      by (simp add: rr_step_to_current_def)
    then show ?thesis
      using moved [of "empty_step\<lparr>next_units := [rr_unit (Some ?s) (rr_bots ?s ! rr_idx ?s) []], broadcast_state := True\<rparr>" ?s]
        assms(1) False nxt live
      by (simp add: rr_advance_cursor_def Let_def rr_unit_def)
  qed
qed

lemma rr_observe_live:
  "S g = Some s \<Longrightarrow> rr_live s \<Longrightarrow>
   rr_observe g who S = (if b_id (rr_bots s ! rr_idx s) \<noteq> who then (Inr empty_step, S)
                         else rr_advance_cursor g (BotActor who) S)"
  by (simp add: rr_observe_def rr_live_item)

lemma rr_turn:
  assumes "group_ok rr_live g S"
  shows "rr_schedule g (snd (rr_observe g who S)) = took_turn who (rr_schedule g S) \<and>
         group_ok rr_live g (snd (rr_observe g who S))"
proof (cases "S g")
  case None
  then show ?thesis by (simp add: rr_observe_def rr_schedule_def took_turn_def)
next
  case (Some s)
  note live = group_okD [where g = g, OF assms Some]
  show ?thesis
  proof (cases "b_id (rr_bots s ! rr_idx s) = who")
    case True
    show ?thesis
      by (rule rr_cursor_cases [of S g s "BotActor who", OF Some live])
        (use True in \<open>simp_all add: rr_observe_live [where s = s] Some live rr_schedule_def took_turn_def\<close>)
  next
    case False
    with Some live assms turns_left_next [OF live [unfolded rr_live_def]] show ?thesis
      by (simp add: rr_observe_live [where s = s] rr_schedule_def took_turn_def)
  qed
qed

interpretation rr: turn_taking "\<lambda>b S. snd (rr_observe g b S)" "rr_schedule g" "group_ok rr_live g"
  for g
  by unfold_locales (use rr_turn in blast)+

subsection \<open>Discussion\<close>

definition dc_live :: "disc_state \<Rightarrow> bool" where
  "dc_live s \<longleftrightarrow>
     (if dc_phase s = Discussing then cursor_ok (dc_bots s) (dc_rounds s) (dc_idx s, dc_round s)
      else dc_idx s < length (dc_bots s))"

definition dc_schedule :: "int \<Rightarrow> (int \<Rightarrow> disc_state option) \<Rightarrow> int list" where
  "dc_schedule g S =
     (case S g of
        None \<Rightarrow> []
      | Some s \<Rightarrow>
          (if dc_phase s = Discussing then turns_left (dc_bots s) (dc_rounds s) (dc_idx s, dc_round s) else []) @
          [b_id (dc_summarizer s)])"

lemma dc_unit_bot [simp]: "wu_bot (dc_unit so b trigger) = b"
  by (simp add: dc_unit_def)

lemma dc_live_speaker: "dc_live s \<Longrightarrow> \<exists>b. dc_speaker s = Some b"
  by (auto simp: dc_live_def dc_speaker_def cursor_ok_def split: if_splits)

lemma dc_cursor_cases:
  assumes "S g = Some s" "dc_live s" "dc_speaker s = Some b"
  obtains (over) st where "dc_advance_cursor g a S = (Inr st, S(g := None))" "st_done st"
      "dc_schedule g S = [b_id b]"
  | (moved) st s' b' where "dc_advance_cursor g a S = (Inr st, S(g \<mapsto> s'))" "\<not> st_done st" "broadcast_state st"
      "dc_live s'" "dc_speaker s' = Some b'" "map wu_bot (next_units st) = [b']"
      "dc_schedule g S = b_id b # dc_schedule g (S(g \<mapsto> s'))"
proof (cases "dc_phase s")
  case Summarizing
  then show ?thesis
    using over assms by (simp add: dc_advance_cursor_def end_group_def dc_schedule_def dc_speaker_def)
next
  case Discussing
  let ?c = "next_turn (length (dc_bots s)) (dc_idx s, dc_round s)"
  let ?s1 = "s\<lparr>dc_idx := fst ?c, dc_round := snd ?c\<rparr>"
  let ?s2 = "?s1\<lparr>dc_phase := Summarizing\<rparr>"
  have ok: "cursor_ok (dc_bots s) (dc_rounds s) (dc_idx s, dc_round s)" using assms(2) Discussing by (simp add: dc_live_def)
  have b: "b = dc_bots s ! dc_idx s" using assms(3) Discussing by (simp add: dc_speaker_def item_Some_iff)
  note nxt = turns_left_next [OF ok]
  show ?thesis
  proof (cases "dc_rounds s < snd ?c")
    case True
    have live: "dc_live ?s2" using cursor_ok_zero [OF ok True] ok by (auto simp: dc_live_def cursor_ok_def)
    have sp: "dc_speaker ?s2 = Some (dc_summarizer s)" by (simp add: dc_speaker_def)
    have "\<exists>st. dc_advance_cursor g a S = (Inr st, S(g \<mapsto> ?s2)) \<and> \<not> st_done st \<and> broadcast_state st \<and>
        map wu_bot (next_units st) = [dc_summarizer s]"
      using True Discussing assms(1) by (simp add: dc_advance_cursor_def Let_def dc_step_to_current_def sp)
    then obtain st where st: "dc_advance_cursor g a S = (Inr st, S(g \<mapsto> ?s2))" "\<not> st_done st" "broadcast_state st"
        "map wu_bot (next_units st) = [dc_summarizer s]" by (elim exE conjE) (rule that)
    have sched: "dc_schedule g S = b_id b # dc_schedule g (S(g \<mapsto> ?s2))"
      using True Discussing assms(1) nxt b by (simp add: dc_schedule_def)
    show ?thesis by (rule moved [OF st(1-3) live sp st(4) sched])
  next
    case False
    have live: "dc_live ?s1" using cursor_ok_next [OF ok False] Discussing by (simp add: dc_live_def)
    then obtain b' where sp: "dc_speaker ?s1 = Some b'" using dc_live_speaker by blast
    have "\<exists>st. dc_advance_cursor g a S = (Inr st, S(g \<mapsto> ?s1)) \<and> \<not> st_done st \<and> broadcast_state st \<and>
        map wu_bot (next_units st) = [b']"
      using False Discussing assms(1) by (simp add: dc_advance_cursor_def Let_def dc_step_to_current_def sp)
    then obtain st where st: "dc_advance_cursor g a S = (Inr st, S(g \<mapsto> ?s1))" "\<not> st_done st" "broadcast_state st"
        "map wu_bot (next_units st) = [b']" by (elim exE conjE) (rule that)
    have sched: "dc_schedule g S = b_id b # dc_schedule g (S(g \<mapsto> ?s1))"
      using False Discussing assms(1) nxt b by (simp add: dc_schedule_def Let_def)
    show ?thesis by (rule moved [OF st(1-3) live sp st(4) sched])
  qed
qed

lemma dc_observe_live:
  "S g = Some s \<Longrightarrow> dc_speaker s = Some b \<Longrightarrow>
   dc_observe g who S = (if b_id b \<noteq> who then (Inr empty_step, S) else dc_advance_cursor g (BotActor who) S)"
  by (simp add: dc_observe_def)

lemma dc_schedule_head:
  "S g = Some s \<Longrightarrow> dc_live s \<Longrightarrow> dc_speaker s = Some b \<Longrightarrow> \<exists>xs. dc_schedule g S = b_id b # xs"
  using turns_left_next [of "dc_bots s" "dc_rounds s" "(dc_idx s, dc_round s)"]
  by (cases "dc_phase s") (auto simp: dc_schedule_def dc_live_def dc_speaker_def item_Some_iff)

lemma dc_turn:
  assumes "group_ok dc_live g S"
  shows "dc_schedule g (snd (dc_observe g who S)) = took_turn who (dc_schedule g S) \<and>
         group_ok dc_live g (snd (dc_observe g who S))"
proof (cases "S g")
  case None
  then show ?thesis by (simp add: dc_observe_def dc_schedule_def took_turn_def)
next
  case (Some s)
  note live = group_okD [where g = g, OF assms Some]
  from dc_live_speaker [OF live] obtain b where b: "dc_speaker s = Some b" by blast
  show ?thesis
  proof (cases "b_id b = who")
    case True
    show ?thesis
    proof (rule dc_cursor_cases [of S g s b "BotActor who", OF Some live b])
      fix st assume "dc_advance_cursor g (BotActor who) S = (Inr st, S(g := None))" "dc_schedule g S = [b_id b]"
      with True show ?thesis by (simp add: dc_observe_live [where S = S and g = g and s = s, OF Some b] took_turn_def) (simp add: dc_schedule_def)
    next
      fix st s' assume "dc_advance_cursor g (BotActor who) S = (Inr st, S(g \<mapsto> s'))" "dc_live s'"
        "dc_schedule g S = b_id b # dc_schedule g (S(g \<mapsto> s'))"
      with True show ?thesis by (simp add: dc_observe_live [where S = S and g = g and s = s, OF Some b] took_turn_def)
    qed
  next
    case False
    with dc_schedule_head [where S = S and g = g and s = s, OF Some live b] assms show ?thesis
      by (auto simp: dc_observe_live [where S = S and g = g and s = s, OF Some b] took_turn_def)
  qed
qed

interpretation dc: turn_taking "\<lambda>b S. snd (dc_observe g b S)" "dc_schedule g" "group_ok dc_live g"
  for g
  by unfold_locales (use dc_turn in blast)+

text \<open>A group whose schedule is empty has no workflow any more.\<close>

lemma schedule_over:
  "group_ok rr_live g S \<Longrightarrow> rr_schedule g S = [] \<longleftrightarrow> S g = None"
  "dc_schedule g' S' = [] \<longleftrightarrow> S' g' = None"
  by (auto simp: rr_schedule_def dc_schedule_def rr_live_def turns_left_next group_ok_def split: option.splits)

lemma schedule_head:
  "group_ok rr_live g S \<Longrightarrow> rr_schedule g S = x # xs \<Longrightarrow> map_option b_id (rr_current_bot g S) = Some x"
  "group_ok dc_live g S' \<Longrightarrow> dc_schedule g S' = x # xs \<Longrightarrow> map_option b_id (dc_current_bot g S') = Some x"
proof -
  assume "group_ok rr_live g S" "rr_schedule g S = x # xs"
  then show "map_option b_id (rr_current_bot g S) = Some x"
    by (auto simp: rr_schedule_def rr_current_bot_def rr_live_item group_ok_def turns_left_next [OF iffD1 [OF rr_live_def]]
        split: option.splits)
next
  assume a: "group_ok dc_live g S'" "dc_schedule g S' = x # xs"
  then obtain s where s: "S' g = Some s" by (cases "S' g") (simp_all add: dc_schedule_def)
  with a(1) have live: "dc_live s" by (rule group_okD)
  then obtain b where "dc_speaker s = Some b" using dc_live_speaker by blast
  with a s live dc_schedule_head [where S = S' and g = g and s = s, OF s live this] show "map_option b_id (dc_current_bot g S') = Some x"
    by (auto simp: dc_current_bot_def)
qed

lemma rr_begun:
  assumes "bots \<noteq> []" "1 \<le> rounds"
  shows "group_ok rr_live g (snd (rr_begin wid now g bots rounds S)) \<and>
         rr_schedule g (snd (rr_begin wid now g bots rounds S)) = map b_id (concat (replicate (nat rounds) bots))"
  using assms turns_left_first [OF assms(2)]
  by (simp add: rr_begin_def Let_def rr_live_def cursor_ok_def rr_schedule_def)

lemma dc_begun:
  assumes "pick_summarizer bots sid = Some summ" "bots \<noteq> []" "1 \<le> rounds"
  shows "group_ok dc_live g (snd (dc_begin wid now g bots rounds sid S)) \<and>
         dc_schedule g (snd (dc_begin wid now g bots rounds sid S)) =
           map b_id (concat (replicate (nat rounds) bots) @ [summ])"
  using assms turns_left_first [OF assms(3)]
  by (simp add: dc_begin_def Let_def dc_live_def cursor_ok_def dc_schedule_def)

section \<open>Every turn is taken in order\<close>


text \<open>
  A discussion ends exactly when every bot has spoken in turn in each of the rounds and then
  the summarizer has reported; the summarizer is the bot the specification names when it takes
  part, and the first bot otherwise.
\<close>

theorem discussion_schedule:
  assumes "pick_summarizer bots sid = Some summ" "bots \<noteq> []" "1 \<le> rounds"
  shows "fold (\<lambda>b T. snd (dc_observe g b T)) reports (snd (dc_begin wid now g bots rounds sid S)) g = None \<longleftrightarrow>
           subseq (map b_id (concat (replicate (nat rounds) bots) @ [summ])) reports"
  using dc.over_iff [OF conjunct1 [OF dc_begun [OF assms]], of g reports wid now S]
    conjunct2 [OF dc_begun [OF assms]] schedule_over(2) by metis

section \<open>The orchestrator interface\<close>

datatype turn_input = UserMessage utext | BotReport int | ManualAdvance

definition rr_decides :: "turn_input \<Rightarrow> int \<Rightarrow> (int \<Rightarrow> rr_state option) \<Rightarrow> (rr_state, turn_prompt) decision" where
  "rr_decides i g S =
     (case i of UserMessage m \<Rightarrow> rr_dispatch g m S | BotReport b \<Rightarrow> rr_observe g b S | ManualAdvance \<Rightarrow> rr_advance g S)"

definition dc_decides :: "string \<Rightarrow> turn_input \<Rightarrow> int \<Rightarrow> (int \<Rightarrow> disc_state option) \<Rightarrow> (disc_state, turn_prompt) decision" where
  "dc_decides rnd i g S =
     (case i of UserMessage m \<Rightarrow> dc_dispatch rnd g m S | BotReport b \<Rightarrow> dc_observe g b S | ManualAdvance \<Rightarrow> dc_advance g S)"

lemma lawful_rr: "lawful g S (rr_decides i g S)"
proof -
  have cur: "lawful g S (rr_advance_cursor g a S)" for a
  proof (cases "S g")
    case (Some s)
    then show ?thesis
      by (auto simp: rr_advance_cursor_def Let_def end_group_def rr_step_to_current_def
          intro!: lawful_over lawful_moved lawful_empty split: option.split)
  qed (simp add: rr_advance_cursor_def lawful_empty)
  show ?thesis
    using cur by (auto simp: rr_decides_def rr_dispatch_def rr_observe_def rr_advance_def Let_def lawful_empty
        intro!: lawful_moved split: turn_input.split option.split)
qed

lemma lawful_dc: "lawful g S (dc_decides rnd i g S)"
proof -
  have cur: "lawful g S (dc_advance_cursor g a S)" for a
  proof (cases "S g")
    case (Some s)
    then show ?thesis
      by (auto simp: dc_advance_cursor_def Let_def end_group_def dc_step_to_current_def dc_speaker_def
          intro!: lawful_over lawful_moved lawful_empty split: option.split)
  qed (simp add: dc_advance_cursor_def lawful_empty)
  show ?thesis
    using cur by (auto simp: dc_decides_def dc_dispatch_def dc_observe_def dc_advance_def Let_def lawful_empty
        intro!: lawful_moved split: turn_input.split option.split)
qed

lemma rr_keeps:
  assumes "group_ok rr_live g S"
  shows "group_ok rr_live g (snd (rr_decides i g S))"
proof (cases "S g")
  case None
  with assms show ?thesis
    by (simp add: rr_decides_def rr_dispatch_def rr_observe_def rr_advance_def rr_advance_cursor_def split: turn_input.split)
next
  case (Some s)
  note live = group_okD [where g = g, OF assms Some]
  have cur: "group_ok rr_live g (snd (rr_advance_cursor g a S))" for a
    by (rule rr_cursor_cases [of S g s a, OF Some live]) simp_all
  show ?thesis
    using cur live assms Some
    by (auto simp: rr_decides_def rr_dispatch_def rr_observe_def rr_advance_def Let_def rr_live_def
        split: turn_input.split option.split)
qed

lemma dc_keeps:
  assumes "group_ok dc_live g S"
  shows "group_ok dc_live g (snd (dc_decides rnd i g S))"
proof (cases "S g")
  case None
  with assms show ?thesis
    by (simp add: dc_decides_def dc_dispatch_def dc_observe_def dc_advance_def dc_advance_cursor_def split: turn_input.split)
next
  case (Some s)
  note live = group_okD [where g = g, OF assms Some]
  then obtain b where b: "dc_speaker s = Some b" using dc_live_speaker by blast
  have cur: "group_ok dc_live g (snd (dc_advance_cursor g a S))" for a
    by (rule dc_cursor_cases [of S g s b a, OF Some live b]) simp_all
  show ?thesis
    using cur live assms Some
    by (auto simp: dc_decides_def dc_dispatch_def dc_observe_def dc_advance_def Let_def dc_live_def
        split: turn_input.split option.split)
qed

interpretation rr_orch: orchestrator rr_decides "\<lambda>_. True" rr_live rr_blob "rr_restore fresh" for fresh
proof
  show "rr_restore fresh g (rr_blob s) S = S(g \<mapsto> s)" for g s S
    by (simp add: rr_restore_def rr_blob_def get_default_def)
qed (use lawful_laws [OF lawful_rr] rr_keeps in blast)+

interpretation dc_orch: orchestrator "dc_decides rnd" "\<lambda>_. True" dc_live dc_blob "dc_restore fresh" for rnd fresh
proof
  show "dc_restore fresh g (dc_blob s) S = S(g \<mapsto> s)" for g s S
    by (simp add: dc_restore_def dc_blob_def get_default_def)
qed (use lawful_laws [OF lawful_dc] dc_keeps in blast)+

text \<open>
  A manual advance before the first message of the user starts the schedule, but not the
  \<open>started\<close> flag: the first message then dispatches a second unit to the bot that is already at
  work.
\<close>

lemma advance_before_start:
  assumes "S g = Some s" "rr_live s" "\<not> rr_started s" "u_strip msg \<noteq> []"
    and "rr_advance g S = (Inr st, S')" "\<not> st_done st"
  shows "\<exists>st'. fst (rr_dispatch g msg S') = Inr st' \<and> map wu_bot (next_units st') = map wu_bot (next_units st)"
proof (rule rr_cursor_cases [of S g s HumanActor, OF assms(1,2)])
  fix st'' assume "rr_advance_cursor g HumanActor S = (Inr st'', S(g := None))" "st_done st''"
  with assms(5,6) show ?thesis by (simp add: rr_advance_def)
next
  fix st'' s' assume *: "rr_advance_cursor g HumanActor S = (Inr st'', S(g \<mapsto> s'))" "rr_live s'"
    "map wu_bot (next_units st'') = [rr_bots s' ! rr_idx s']" "rr_started s' = rr_started s"
  with assms show ?thesis
    by (auto simp: rr_advance_def rr_dispatch_def rr_live_item Let_def rr_unit_def)
qed

section \<open>Worked instances\<close>

definition two_bots :: "bot list" where
  "two_bots = map (\<lambda>i. \<lparr>b_id = i, b_name = [], b_color = [], b_role = None, b_executor = None, b_expertise = NoExpertise\<rparr>) [4, 9]"

lemma two_bots_order: "map b_id (concat (replicate (nat 1) two_bots)) = [4, 9]"
  by (simp add: two_bots_def)


theorem discussion_schedule_witness:
  "fold (\<lambda>b T. snd (dc_observe 3 b T)) [4, 9] (snd (dc_begin ''w'' ''t'' 3 two_bots 1 (Some 9) Map.empty)) 3 \<noteq> None"
proof -
  have "pick_summarizer two_bots (Some 9) = Some (two_bots ! 1)" "two_bots \<noteq> []" "(1::int) \<le> 1"
    by (simp_all add: two_bots_def pick_summarizer_def)
  from discussion_schedule [OF this, where g = 3 and wid = "''w''" and now = "''t''" and S = Map.empty and reports = "[4, 9]"]
  show ?thesis by (simp add: two_bots_def)
qed

end
