(* ===== verification/CodingAgent.thy ===== *)
theory CodingAgent
  imports Orch
begin

text \<open>
  The autonomous coding agent, \<^verbatim>\<open>core/orchestration/plugins/coding_agent.py\<close>: one bot, one
  stage, no human gate. The structured signals of a run decide what becomes of its worktree:
  promoted, discarded, or kept for a retry.
\<close>

section \<open>State and operations\<close>

datatype agent_prompt = Implement utext utext | Resume | NoSuffix

record agent_state =
  ag_id :: string
  ag_bot :: bot
  ag_started :: bool
  ag_done :: bool
  ag_start_time :: string
  ag_requirements :: utext
  ag_test :: utext
  ag_task :: utext
  ag_needs_pr :: bool

record agent_spec =
  as_bots :: "bot list"
  as_requirements :: utext
  as_test :: utext
  as_task :: utext
  as_needs_pr :: bool

definition ag_observation :: "agent_state \<Rightarrow> string \<Rightarrow> actor \<Rightarrow> (string \<times> pval) list \<Rightarrow> observation" where
  "ag_observation s ev a p =
     \<lparr>o_event = ev, o_workflow = ag_id s, o_stage_id = ascii ''implementation'', o_stage_index = 0,
      o_gate = '''', o_gate_instance = '''', o_actor = a,
      o_payload = [(''stage_name'', PText (ascii ''Implementation'')), (''task_id'', PText (ag_task s))] @ p\<rparr>"

definition ag_unit :: "agent_state \<Rightarrow> agent_prompt \<Rightarrow> agent_prompt work_unit" where
  "ag_unit s trigger =
     \<lparr>wu_bot = ag_bot s, wu_executor = get_default (b_executor (ag_bot s)) tool_loop_v1, wu_trigger = trigger,
      wu_suffix = NoSuffix, wu_workflow = True,
      wu_tag = (if ag_task s = [] then NoTag else TicketId (ag_task s))\<rparr>"

definition ag_begin ::
  "string \<Rightarrow> string \<Rightarrow> int \<Rightarrow> agent_spec \<Rightarrow> (int \<Rightarrow> agent_state option) \<Rightarrow> (agent_state, agent_prompt) decision" where
  "ag_begin wid now g spec S =
     (case as_bots spec of
        [] \<Rightarrow> (Inr (empty_step\<lparr>st_done := True\<rparr>), S)
      | b # _ \<Rightarrow>
          let s = \<lparr>ag_id = wid, ag_bot = b, ag_started = True, ag_done = False, ag_start_time = now,
                   ag_requirements = as_requirements spec, ag_test = as_test spec, ag_task = as_task spec,
                   ag_needs_pr = as_needs_pr spec\<rparr>
          in (Inr (empty_step\<lparr>next_units := [ag_unit s (Implement (as_requirements spec) (as_test spec))],
                broadcast_state := True,
                observations := [ag_observation s ''workflow_started'' SystemActor [(''participant_count'', PInt 1)],
                                 ag_observation s ''stage_entered'' SystemActor []]\<rparr>),
              S(g \<mapsto> s)))"

text \<open>Follow-up messages reach the running tool loop, never a new unit.\<close>

definition ag_dispatch :: "int \<Rightarrow> utext \<Rightarrow> (int \<Rightarrow> agent_state option) \<Rightarrow> (agent_state, agent_prompt) decision" where
  "ag_dispatch g msg S = (Inr empty_step, S)"

definition ag_paused ::
  "agent_state \<Rightarrow> int \<Rightarrow> string \<Rightarrow> utext \<Rightarrow> (string \<times> pval) list \<Rightarrow> agent_prompt step" where
  "ag_paused s who reason details extra =
     empty_step\<lparr>broadcast_state := True, workflow_paused := Some \<lparr>pz_reason = reason, pz_details = details\<rparr>,
       observations := [ag_observation s ''workflow_paused'' (BotActor who) ((''reason'', PWord reason) # extra)]\<rparr>"

definition or_text :: "utext option \<Rightarrow> string \<Rightarrow> utext" where
  "or_text x d = (case x of None \<Rightarrow> ascii d | Some t \<Rightarrow> if t = [] then ascii d else t)"

definition successful_tools :: "signal list \<Rightarrow> utext list" where
  "successful_tools sigs =
     map (\<lambda>s. get_default (sg_tool s) []) (filter (\<lambda>s. sg_name s = ''_tool_succeeded'') sigs)"

definition ag_finish :: "int \<Rightarrow> int \<Rightarrow> agent_state \<Rightarrow> (int \<Rightarrow> agent_state option) \<Rightarrow> (agent_state, agent_prompt) decision" where
  "ag_finish g who s S =
     (Inr (empty_step\<lparr>broadcast_state := True, st_done := True, workspace_action := Some Promote,
        observations := [ag_observation s ''stage_completed'' (BotActor who)
                           [(''completion_source'', PWord ''signal_stage_done'')],
                         ag_observation s ''workflow_completed'' (BotActor who) []]\<rparr>),
      end_group g S)"

text \<open>The loop over the signals: the first completion or rework signal decides.\<close>

fun ag_signals ::
  "int \<Rightarrow> int \<Rightarrow> agent_state \<Rightarrow> utext list \<Rightarrow> signal list \<Rightarrow> (int \<Rightarrow> agent_state option) \<Rightarrow>
   (agent_state, agent_prompt) decision option" where
  "ag_signals g who s tools [] S = None"
| "ag_signals g who s tools (sig # sigs) S =
     (if is_signal_done sig then
        Some (if ag_needs_pr s \<and> ascii ''create_pr'' \<notin> set tools then
                (Inr (ag_paused s who ''pull_request_missing''
                   (ascii ''Dashboard coding task called signal_stage_done without successfully creating a pull request'') []), S)
              else ag_finish g who s S)
      else if is_signal_rework sig then
        Some (Inr ((ag_paused s who ''rework_requested''
                (or_text (sg_reason sig) ''Coding agent requested rework'') [])\<lparr>workspace_action := Some Discard\<rparr>), S)
      else ag_signals g who s tools sigs S)"

definition ag_observe ::
  "int \<Rightarrow> int \<Rightarrow> signal list option \<Rightarrow> (int \<Rightarrow> agent_state option) \<Rightarrow> (agent_state, agent_prompt) decision" where
  "ag_observe g who sigs S =
     (case S g of
        None \<Rightarrow> (Inr empty_step, S)
      | Some s \<Rightarrow>
          if ag_done s then (Inr empty_step, S)
          else
            let ss = get_default sigs [] in
            (case find (\<lambda>x. sg_name x = ''_execution_failed'') ss of
               Some f \<Rightarrow>
                 let reason = or_text (sg_reason f) ''Coding agent execution failed'' in
                 (Inr (ag_paused s who ''execution_failed'' reason [(''details'', PText reason)]), S)
             | None \<Rightarrow>
                 (case ag_signals g who s (successful_tools ss) ss S of
                    Some d \<Rightarrow> d
                  | None \<Rightarrow>
                      (Inr (ag_paused s who ''completion_signal_missing''
                         (ascii ''Bot run completed without calling signal_stage_done or signal_rework'') []), S))))"

definition ag_current_bot :: "int \<Rightarrow> (int \<Rightarrow> agent_state option) \<Rightarrow> bot option" where
  "ag_current_bot g S = map_option ag_bot (S g)"

record agent_view =
  av_active :: bool
  av_id :: string
  av_bot :: "int \<times> utext"
  av_done :: bool

definition ag_snapshot :: "int \<Rightarrow> (int \<Rightarrow> agent_state option) \<Rightarrow> agent_view option" where
  "ag_snapshot g S =
     map_option (\<lambda>s. \<lparr>av_active = (\<not> ag_done s), av_id = ag_id s,
                      av_bot = (b_id (ag_bot s), b_name (ag_bot s)), av_done = ag_done s\<rparr>) (S g)"

definition ag_blob :: "agent_state \<Rightarrow> string option \<times> agent_state" where
  "ag_blob s = (Some (ag_id s), s)"

definition ag_restore :: "string \<Rightarrow> int \<Rightarrow> string option \<times> agent_state \<Rightarrow> (int \<Rightarrow> agent_state option) \<Rightarrow> (int \<Rightarrow> agent_state option)" where
  "ag_restore fresh g blob S = S(g \<mapsto> (snd blob)\<lparr>ag_id := get_default (fst blob) fresh\<rparr>)"

definition ag_recovery_observation :: "int \<Rightarrow> (int \<Rightarrow> agent_state option) \<Rightarrow> observation option" where
  "ag_recovery_observation g S =
     map_option (\<lambda>s. ag_observation s ''workflow_recovered'' SystemActor [(''started'', PBool (ag_started s))]) (S g)"

definition ag_resume_units :: "int \<Rightarrow> (int \<Rightarrow> agent_state option) \<Rightarrow> agent_prompt work_unit list" where
  "ag_resume_units g S =
     (case S g of None \<Rightarrow> [] | Some s \<Rightarrow> if ag_done s \<or> \<not> ag_started s then [] else [ag_unit s Resume])"

record agent_body =
  ab_bot :: "int option"
  ab_requirements :: utext
  ab_test :: utext
  ab_task :: utext
  ab_needs_pr :: bool

definition ag_parse_spec :: "agent_body \<Rightarrow> (int \<Rightarrow> bot option) \<Rightarrow> agent_spec" where
  "ag_parse_spec body bots =
     \<lparr>as_bots = (case Option.bind (ab_bot body) bots of None \<Rightarrow> [] | Some b \<Rightarrow> [b]),
      as_requirements = ab_requirements body, as_test = ab_test body, as_task = ab_task body,
      as_needs_pr = ab_needs_pr body\<rparr>"

section \<open>The orchestrator interface\<close>

datatype agent_input = FollowUp utext | RunEnded int "signal list option"

definition ag_decides :: "agent_input \<Rightarrow> int \<Rightarrow> (int \<Rightarrow> agent_state option) \<Rightarrow> (agent_state, agent_prompt) decision" where
  "ag_decides i g S = (case i of FollowUp m \<Rightarrow> ag_dispatch g m S | RunEnded b sigs \<Rightarrow> ag_observe g b sigs S)"

definition ag_live :: "agent_state \<Rightarrow> bool" where
  "ag_live s \<longleftrightarrow> ag_started s \<and> \<not> ag_done s"

text \<open>The outcomes of the signal loop, and of a whole observation.\<close>

lemma ag_signals_cases:
  assumes "ag_signals g who s tools sigs S = Some d"
  obtains (promoted) sig where "sig \<in> set sigs" "is_signal_done sig" "\<not> ag_needs_pr s \<or> ascii ''create_pr'' \<in> set tools"
      "d = ag_finish g who s S"
  | (no_pr) extra details where "d = (Inr (ag_paused s who ''pull_request_missing'' details extra), S)"
  | (rework) sig extra details where "sig \<in> set sigs" "is_signal_rework sig"
      "d = (Inr ((ag_paused s who ''rework_requested'' details extra)\<lparr>workspace_action := Some Discard\<rparr>), S)"
proof -
  have "(\<exists>sig \<in> set sigs. is_signal_done sig \<and> (\<not> ag_needs_pr s \<or> ascii ''create_pr'' \<in> set tools) \<and> d = ag_finish g who s S) \<or>
      (\<exists>extra details. d = (Inr (ag_paused s who ''pull_request_missing'' details extra), S)) \<or>
      (\<exists>sig extra details. sig \<in> set sigs \<and> is_signal_rework sig \<and>
         d = (Inr ((ag_paused s who ''rework_requested'' details extra)\<lparr>workspace_action := Some Discard\<rparr>), S))"
    using assms by (induction sigs) (auto split: if_splits)
  then show thesis using that by metis
qed

lemma ag_paused_fields [simp]:
  "broadcast_state (ag_paused s who r d m)" "\<not> st_done (ag_paused s who r d m)"
  "next_units (ag_paused s who r d m) = []" "workspace_action (ag_paused s who r d m) = None"
  "workflow_paused (ag_paused s who r d m) = Some \<lparr>pz_reason = r, pz_details = d\<rparr>"
  by (simp_all add: ag_paused_def)

lemma ag_observe_cases:
  assumes "S g = Some s" "\<not> ag_done s"
  obtains (promoted) sig ss where "sigs = Some ss" "sig \<in> set ss" "is_signal_done sig"
      "\<not> ag_needs_pr s \<or> ascii ''create_pr'' \<in> set (successful_tools ss)"
      "\<forall>x \<in> set ss. sg_name x \<noteq> ''_execution_failed''" "ag_observe g who sigs S = ag_finish g who s S"
  | (rework) sig ss extra details where "sigs = Some ss" "sig \<in> set ss" "is_signal_rework sig"
      "ag_observe g who sigs S =
        (Inr ((ag_paused s who ''rework_requested'' details extra)\<lparr>workspace_action := Some Discard\<rparr>), S)"
  | (kept) reason extra details where "ag_observe g who sigs S = (Inr (ag_paused s who reason details extra), S)"
proof (cases "find (\<lambda>x. sg_name x = ''_execution_failed'') (get_default sigs [])")
  case (Some f)
  with assms kept show ?thesis by (simp add: ag_observe_def Let_def)
next
  case None
  show ?thesis
  proof (cases "ag_signals g who s (successful_tools (get_default sigs [])) (get_default sigs []) S")
    case No: None
    with None assms kept show ?thesis by (simp add: ag_observe_def)
  next
    case (Some d)
    with None assms have d: "ag_observe g who sigs S = d" by (simp add: ag_observe_def)
    from Some have "sigs \<noteq> None" by (cases sigs) (simp_all add: get_default_def)
    then obtain ss where ss: "sigs = Some ss" by blast
    from Some show ?thesis
    proof (cases rule: ag_signals_cases)
      case (promoted sig)
      with ss d None that(1) show ?thesis by (auto simp: get_default_def find_None_iff)
    next
      case (no_pr extra details)
      with d that(3) show ?thesis by simp
    next
      case (rework sig extra details)
      with ss d that(2) show ?thesis by (simp add: get_default_def)
    qed
  qed
qed

lemma lawful_unchanged:
  "S g = Some s \<Longrightarrow> \<not> st_done st \<Longrightarrow> broadcast_state st \<Longrightarrow> lawful g S (Inr st, S)"
  using lawful_moved [of st g S s] by (simp add: fun_upd_idem)

lemma lawful_ag: "lawful g S (ag_decides i g S)"
proof (cases i)
  case (RunEnded who sigs)
  show ?thesis
  proof (cases "S g")
    case None
    with RunEnded show ?thesis by (simp add: ag_decides_def ag_observe_def lawful_empty)
  next
    case (Some s)
    show ?thesis
    proof (cases "ag_done s")
      case True
      with RunEnded Some show ?thesis by (simp add: ag_decides_def ag_observe_def lawful_empty)
    next
      case False
      show ?thesis
        by (rule ag_observe_cases [of S g s sigs who, OF Some False])
          (use Some RunEnded in \<open>simp_all add: ag_decides_def ag_finish_def end_group_def lawful_over lawful_unchanged\<close>)
    qed
  qed
qed (simp add: ag_decides_def ag_dispatch_def lawful_empty)

lemma ag_keeps: "group_ok ag_live g S \<Longrightarrow> group_ok ag_live g (snd (ag_decides i g S))"
proof (cases i)
  case (RunEnded who sigs)
  assume ok: "group_ok ag_live g S"
  show ?thesis
  proof (cases "S g")
    case (Some s)
    then have "\<not> ag_done s" using group_okD [where g = g, OF ok] by (simp add: ag_live_def)
    show ?thesis
      by (rule ag_observe_cases [of S g s sigs who, OF Some \<open>\<not> ag_done s\<close>])
        (use ok RunEnded in \<open>simp_all add: ag_decides_def ag_finish_def end_group_def\<close>)
  qed (use RunEnded ok in \<open>simp add: ag_decides_def ag_observe_def\<close>)
qed (simp add: ag_decides_def ag_dispatch_def)

interpretation ag_orch: orchestrator ag_decides "\<lambda>_. True" ag_live ag_blob "ag_restore fresh" for fresh
proof
  show "ag_restore fresh g (ag_blob s) S = S(g \<mapsto> s)" for g s S
    by (simp add: ag_restore_def ag_blob_def get_default_def)
qed (use lawful_laws [OF lawful_ag] ag_keeps in blast)+

section \<open>Promotion is earned\<close>


section \<open>Worked instances\<close>

definition demo_bot :: bot where
  "demo_bot = \<lparr>b_id = 7, b_name = ascii ''dev'', b_color = [], b_role = None, b_executor = None, b_expertise = NoExpertise\<rparr>"

definition demo_agent :: agent_state where
  "demo_agent = \<lparr>ag_id = ''w'', ag_bot = demo_bot, ag_started = True, ag_done = False, ag_start_time = ''t'',
     ag_requirements = [], ag_test = [], ag_task = ascii ''k'', ag_needs_pr = True\<rparr>"

definition demo_signals :: "signal list" where
  "demo_signals =
     [\<lparr>sg_name = ''_tool_succeeded'', sg_reason = None, sg_target = None, sg_rework_idx = None, sg_tool = Some (ascii ''create_pr'')\<rparr>,
      \<lparr>sg_name = ''signal_stage_done'', sg_reason = None, sg_target = None, sg_rework_idx = None, sg_tool = None\<rparr>]"


end
