(* ===== verification/Regex.thy ===== *)
theory Regex
  imports UText
begin

text \<open>
  The part of Python's \<open>re\<close> that the orchestrators use, as a backtracking matcher: a match is a
  position in the subject with the groups captured so far, and \<open>rx_run\<close> lists all ways to match
  in the order in which \<open>re\<close> tries them, so that the head of the list is the match \<open>re\<close> reports.
  \<open>matches\<close> is the reference semantics, independent of any order; \<open>rx_run_iff\<close> relates the two.
\<close>

section \<open>Character classes\<close>

text \<open>\<open>\d\<close>: the decimal digits of Unicode, which come in runs of ten.\<close>

definition digit_zeros :: "nat list" where
  "digit_zeros =
    [48, 1632, 1776, 1984, 2406, 2534, 2662, 2790, 2918, 3046, 3174, 3302, 3430, 3558, 3664,
     3792, 3872, 4160, 4240, 6112, 6160, 6470, 6608, 6784, 6800, 6992, 7088, 7232, 7248, 42528,
     43216, 43264, 43472, 43504, 43600, 44016, 65296, 66720, 68912, 69734, 69872, 69942, 70096,
     70384, 70736, 70864, 71248, 71360, 71472, 71904, 72016, 72784, 73040, 73120, 92768, 92864,
     93008, 120782, 120792, 120802, 120812, 120822, 123200, 123632, 125264, 130032]"

definition u_digit :: "nat \<Rightarrow> bool" where
  "u_digit c \<longleftrightarrow> list_ex (\<lambda>z. z \<le> c \<and> c < z + 10) digit_zeros"

text \<open>A literal letter with \<open>re.IGNORECASE\<close>, with the extra code points that fold to it.\<close>

definition u_letter :: "nat \<Rightarrow> nat \<Rightarrow> bool" where
  "u_letter u c \<longleftrightarrow> c = u \<or> c = u + 32 \<or> (u = 73 \<and> (c = 304 \<or> c = 305)) \<or>
     (u = 75 \<and> c = 8490) \<or> (u = 83 \<and> c = 383)"

section \<open>Expressions and matching\<close>

datatype rx =
    Chars "nat \<Rightarrow> bool"
  | Eps
  | Seq rx rx
  | Alt rx rx
  | Star rx
  | Cap nat rx
  | LineStart
  | LineEnd
  | Edge "nat \<Rightarrow> bool"

definition plus :: "rx \<Rightarrow> rx" where "plus r = Seq r (Star r)"
definition opt :: "rx \<Rightarrow> rx" where "opt r = Alt r Eps"

text \<open>\<open>\b\<close>: one of the neighbouring characters is a character of a word, the other is not.\<close>

definition edge_at :: "(nat \<Rightarrow> bool) \<Rightarrow> utext \<Rightarrow> utext \<Rightarrow> bool" where
  "edge_at W b s \<longleftrightarrow> (b \<noteq> [] \<and> W (hd b)) \<noteq> (s \<noteq> [] \<and> W (hd s))"

abbreviation "lit c \<equiv> Chars (\<lambda>x. x = c)"
abbreviation "any_char \<equiv> Chars (\<lambda>x. x \<noteq> NL)"

fun seqs :: "rx list \<Rightarrow> rx" where
  "seqs [] = Eps"
| "seqs [r] = r"
| "seqs (r # s # rs) = Seq r (seqs (s # rs))"

text \<open>A position: what was read, in reverse, what is left, and the captured groups.\<close>

type_synonym pos = "utext \<times> utext \<times> (nat \<times> utext) list"

abbreviation pos_left :: "pos \<Rightarrow> utext" where "pos_left p \<equiv> fst (snd p)"

definition capture :: "nat \<Rightarrow> pos \<Rightarrow> pos \<Rightarrow> pos" where
  "capture n p q =
     (fst q, pos_left q, (n, take (length (pos_left p) - length (pos_left q)) (pos_left p)) # snd (snd q))"

function rx_run :: "rx \<Rightarrow> pos \<Rightarrow> pos list" where
  "rx_run (Chars P) p =
     (case pos_left p of [] \<Rightarrow> [] | c # s \<Rightarrow> if P c then [(c # fst p, s, snd (snd p))] else [])"
| "rx_run Eps p = [p]"
| "rx_run (Seq r s) p = concat (map (rx_run s) (rx_run r p))"
| "rx_run (Alt r s) p = rx_run r p @ rx_run s p"
| "rx_run (Star r) p =
     concat (map (\<lambda>q. if length (pos_left q) < length (pos_left p) then rx_run (Star r) q else []) (rx_run r p)) @ [p]"
| "rx_run (Cap n r) p = map (capture n p) (rx_run r p)"
| "rx_run LineStart p = (case fst p of [] \<Rightarrow> [p] | c # _ \<Rightarrow> if c = NL then [p] else [])"
| "rx_run LineEnd p = (case pos_left p of [] \<Rightarrow> [p] | c # _ \<Rightarrow> if c = NL then [p] else [])"
| "rx_run (Edge W) p = (if edge_at W (fst p) (pos_left p) then [p] else [])"
  by pat_completeness auto
termination
  by (relation "measures [\<lambda>(r, p). size r, \<lambda>(r, p). length (pos_left p)]") auto

declare rx_run.simps(5) [simp del]

lemma rx_run_star:
  "t \<in> set (rx_run (Star r) p) \<longleftrightarrow>
     t = p \<or> (\<exists>q \<in> set (rx_run r p). length (pos_left q) < length (pos_left p) \<and> t \<in> set (rx_run (Star r) q))"
  by (subst rx_run.simps(5)) auto

text \<open>\<open>re.search\<close> finds the leftmost match, \<open>re.findall\<close> the group 1 of the successive ones.\<close>

fun rx_search :: "rx \<Rightarrow> utext \<Rightarrow> utext \<Rightarrow> pos option" where
  "rx_search r b [] = (case rx_run r (b, [], []) of [] \<Rightarrow> None | q # _ \<Rightarrow> Some q)"
| "rx_search r b (c # s) =
     (case rx_run r (b, c # s, []) of [] \<Rightarrow> rx_search r (c # b) s | q # _ \<Rightarrow> Some q)"

definition rx_group :: "nat \<Rightarrow> pos \<Rightarrow> utext" where
  "rx_group n q = get_default (map_of (snd (snd q)) n) []"

function rx_findall :: "rx \<Rightarrow> utext \<Rightarrow> utext \<Rightarrow> utext list" where
  "rx_findall r b s =
     (case rx_search r b s of
        None \<Rightarrow> []
      | Some q \<Rightarrow>
          rx_group 1 q #
          (if length (pos_left q) < length s then rx_findall r (fst q) (pos_left q) else []))"
  by pat_completeness auto
termination
  by (relation "measure (\<lambda>(r, b, s). length s)") auto

declare rx_findall.simps [simp del]

section \<open>Reference semantics\<close>

inductive matches :: "rx \<Rightarrow> pos \<Rightarrow> pos \<Rightarrow> bool" where
  m_chars: "P c \<Longrightarrow> matches (Chars P) (b, c # s, g) (c # b, s, g)"
| m_eps: "matches Eps p p"
| m_seq: "matches r p q \<Longrightarrow> matches s q t \<Longrightarrow> matches (Seq r s) p t"
| m_left: "matches r p q \<Longrightarrow> matches (Alt r s) p q"
| m_right: "matches s p q \<Longrightarrow> matches (Alt r s) p q"
| m_stop: "matches (Star r) p p"
| m_more: "matches r p q \<Longrightarrow> length (pos_left q) < length (pos_left p) \<Longrightarrow> matches (Star r) q t \<Longrightarrow> matches (Star r) p t"
| m_cap: "matches r p q \<Longrightarrow> matches (Cap n r) p (capture n p q)"
| m_bol: "fst p = [] \<or> hd (fst p) = NL \<Longrightarrow> matches LineStart p p"
| m_eol: "pos_left p = [] \<or> hd (pos_left p) = NL \<Longrightarrow> matches LineEnd p p"
| m_edge: "edge_at W (fst p) (pos_left p) \<Longrightarrow> matches (Edge W) p p"

inductive_cases matches_chars: "matches (Chars P) p q"
inductive_cases matches_eps: "matches Eps p q"
inductive_cases matches_seq: "matches (Seq r s) p q"
inductive_cases matches_alt: "matches (Alt r s) p q"
inductive_cases matches_star: "matches (Star r) p q"
inductive_cases matches_cap: "matches (Cap n r) p q"
inductive_cases matches_bol: "matches LineStart p q"
inductive_cases matches_eol: "matches LineEnd p q"
inductive_cases matches_edge: "matches (Edge W) p q"

lemma rx_run_sound: "q \<in> set (rx_run r p) \<Longrightarrow> matches r p q"
proof (induction r p arbitrary: q rule: rx_run.induct)
  case (1 P p)
  then show ?case by (cases p) (auto intro: m_chars split: list.splits if_splits)
next
  case (5 r p)
  from iffD1 [OF rx_run_star 5(3)] show ?case
  proof
    assume "\<exists>t \<in> set (rx_run r p). length (pos_left t) < length (pos_left p) \<and> q \<in> set (rx_run (Star r) t)"
    then obtain t where t: "t \<in> set (rx_run r p)" "length (pos_left t) < length (pos_left p)" "q \<in> set (rx_run (Star r) t)"
      by blast
    show ?case by (rule m_more [OF 5(1) [OF t(1)] t(2) 5(2) [OF t(1,2,3)]])
  qed (simp add: m_stop)
next
  case (3 r s p)
  then obtain t where "t \<in> set (rx_run r p)" "q \<in> set (rx_run s t)" by auto
  with 3(1,2) show ?case by (blast intro: m_seq)
next
  case (6 n r p)
  then obtain t where "t \<in> set (rx_run r p)" "q = capture n p t" by auto
  with 6(1) show ?case by (blast intro: m_cap)
next
  case (7 p)
  then show ?case by (auto intro!: m_bol split: list.splits if_splits)
next
  case (8 p)
  then show ?case by (auto intro!: m_eol split: list.splits if_splits)
next
  case (9 W p)
  then show ?case by (auto intro!: m_edge split: if_splits)
qed (simp_all add: m_eps, blast intro: m_left m_right)

lemma rx_run_complete: "matches r p q \<Longrightarrow> q \<in> set (rx_run r p)"
proof (induction rule: matches.induct)
  case (m_bol p)
  then show ?case by (cases "fst p") auto
next
  case (m_eol p)
  then show ?case by (cases "pos_left p") auto
next
  case (m_stop r p)
  show ?case by (simp add: rx_run_star [of p r p])
next
  case (m_more r p q t)
  then show ?case by (subst rx_run_star) blast
qed auto

lemma rx_run_iff: "q \<in> set (rx_run r p) \<longleftrightarrow> matches r p q"
  using rx_run_sound rx_run_complete by blast

text \<open>A search fails exactly when no position of the subject matches.\<close>

lemma rx_search_None:
  "rx_search r b s = None \<longleftrightarrow> (\<forall>u v. s = u @ v \<longrightarrow> (\<nexists>q. matches r (rev u @ b, v, []) q))"
proof (induction s arbitrary: b)
  case Nil
  have "rx_run r (b, [], []) = [] \<longleftrightarrow> (\<nexists>q. matches r (b, [], []) q)"
    using rx_run_iff by (metis equals0D list.set_cases set_empty list.set_intros(1) neq_Nil_conv)
  then show ?case by (auto split: list.split)
next
  case (Cons c s)
  have e: "rx_run r (b, c # s, []) = [] \<longleftrightarrow> (\<nexists>q. matches r (b, c # s, []) q)"
    using rx_run_iff by (metis equals0D list.set_cases set_empty list.set_intros(1) neq_Nil_conv)
  have "(\<forall>u v. c # s = u @ v \<longrightarrow> (\<nexists>q. matches r (rev u @ b, v, []) q)) \<longleftrightarrow>
      (\<nexists>q. matches r (b, c # s, []) q) \<and> (\<forall>u v. s = u @ v \<longrightarrow> (\<nexists>q. matches r (rev u @ c # b, v, []) q))"
  proof (intro iffI conjI allI impI; (elim conjE)?)
    fix u v assume *: "\<forall>u v. c # s = u @ v \<longrightarrow> (\<nexists>q. matches r (rev u @ b, v, []) q)" and "s = u @ v"
    then have "c # s = (c # u) @ v" by simp
    with * have "\<nexists>q. matches r (rev (c # u) @ b, v, []) q" by blast
    then show "\<nexists>q. matches r (rev u @ c # b, v, []) q" by simp
  next
    fix u v assume *: "\<nexists>q. matches r (b, c # s, []) q"
      "\<forall>u v. s = u @ v \<longrightarrow> (\<nexists>q. matches r (rev u @ c # b, v, []) q)" and "c # s = u @ v"
    then show "\<nexists>q. matches r (rev u @ b, v, []) q" by (cases u) auto
  next
    assume "\<forall>u v. c # s = u @ v \<longrightarrow> (\<nexists>q. matches r (rev u @ b, v, []) q)"
    from spec [OF spec [OF this], of "[]" "c # s"] show "\<nexists>q. matches r (b, c # s, []) q" by simp
  qed
  with e Cons.IH [of "c # b"] show ?case by (auto split: list.split)
qed

end
