(* ===== verification/Stages.thy ===== *)
theory Stages
  imports Regex Orch
begin

text \<open>
  The stage types of the declarative orchestrator, \<^verbatim>\<open>core/orchestration/stages.py\<close>: single,
  pool, discussion and verification stages; what entering one of them does, what its snapshot
  shows, and which work is resumed after a crash. The decisions on a finished run, which may
  advance the whole workflow, are in theory \<open>Declarative\<close>.
\<close>

section \<open>The data of a stage\<close>

datatype stage_type = SingleType | PoolType | DiscussionType | VerificationType | OtherType utext

text \<open>
  Keys of the dictionaries a stage keeps: integers at run time, strings after a round trip
  through JSON. A stage is one dictionary that mixes configuration and run-time state; a single
  stage also contains the keys of its bot (\<open>s_self\<close>). A missing list or dictionary is the empty
  one, which every reader of the key takes as its default.
\<close>

datatype key = IntKey int | StrKey string

record stage =
  s_type :: stage_type
  s_stage_id :: "utext option"
  s_self :: "bot option"
  s_label :: "utext option"
  s_instruction :: "utext option"
  s_done_keyword :: "utext option"
  s_gate :: bool
  s_gate_label :: "utext option"
  s_fail_keyword :: "utext option"
  s_rework_to :: "int option"
  s_fail_gate_label :: "utext option"
  s_bots :: "bot list"
  s_rounds :: "int option"
  s_queue :: "utext list"
  s_in_progress :: "(key \<times> utext) list"
  s_completed :: "utext list"
  s_idle :: "int list"
  s_round :: "int option"
  s_speaker :: "int option"
  s_voting :: bool
  s_pending :: "int list option"
  s_proposals :: "(key \<times> utext) list"
  s_votes :: "(key \<times> int) list"
  s_winner :: "int option"

definition stage_name :: "stage \<Rightarrow> utext option" where
  "stage_name st = (case s_self st of Some b \<Rightarrow> Some (b_name b) | None \<Rightarrow> s_label st)"

definition stage_role :: "stage \<Rightarrow> utext option" where
  "stage_role st = Option.bind (s_self st) b_role"

definition type_name :: "stage_type \<Rightarrow> utext" where
  "type_name t = (case t of SingleType \<Rightarrow> ascii ''single'' | PoolType \<Rightarrow> ascii ''pool''
     | DiscussionType \<Rightarrow> ascii ''discussion'' | VerificationType \<Rightarrow> ascii ''verification'' | OtherType n \<Rightarrow> n)"

text \<open>\<open>stage_handler\<close>: an unknown type falls back to the single stage.\<close>

definition handler :: "stage \<Rightarrow> stage_type" where
  "handler st = (case s_type st of OtherType n \<Rightarrow> SingleType | t \<Rightarrow> t)"

text \<open>
  The parts of Python and of the operating system that a decision takes from outside: full
  Unicode case conversion, the random order of \<open>random.shuffle\<close>, and a fresh random id.
\<close>

record env =
  e_upper :: "utext \<Rightarrow> utext"
  e_lower :: "utext \<Rightarrow> utext"
  e_shuffle :: "bot list \<Rightarrow> bot list"
  e_uuid :: string

section \<open>Prompts\<close>

datatype display = Named utext | TeamName stage_type

datatype handoff =
    Final
  | NextIs display "(utext \<times> nat) option"

datatype prompt =
    NoPrompt
  | UserText utext
  | Instruction utext
  | BeginWork utext utext
  | StartTicket utext
  | SpeakTurn int utext
  | ProposeNow utext
  | VoteNow utext
  | ReworkNote "utext option" prompt
  | ReviseNote "utext option" prompt
  | StageSuffix "utext option" int int utext handoff
  | TicketSuffix int int utext utext
  | TurnSuffix int int int int utext bool
  | ProposeSuffix int int
  | VoteSuffix int int "utext list"
  | TicketsAssigned nat nat "(utext \<times> utext) list" "utext list"
  | NextTicket utext utext utext
  | NowIdle utext utext
  | TalkBegins int "utext list"
  | TestBegins nat "utext list"
  | VoteBegins
  | WinnerIs utext nat
  | GateLabel utext
  | ConfirmStage utext
  | ReworkStage utext

type_synonym 'a fallible = "orch_exc + 'a"

section \<open>Reading tickets and signals\<close>

text \<open>The bullet of a list item, the two regular expressions of \<open>parse_tickets\<close>, its default.\<close>

definition rx_bullet :: rx where
  "rx_bullet = Alt (Seq (plus (Chars u_digit)) (lit 46)) (Chars (\<lambda>c. c \<in> {45, 42, 43}))"

definition rx_ticket_block :: rx where
  "rx_ticket_block =
     seqs (map (\<lambda>u. Chars (u_letter u)) [84, 73, 67, 75, 69, 84, 83] @
       [lit 58, Star (Chars u_space), lit NL,
        Cap 1 (plus (seqs [rx_bullet, plus (Chars u_space), plus any_char, opt (lit NL)]))])"

definition rx_ticket_item :: rx where
  "rx_ticket_item = seqs [rx_bullet, plus (Chars u_space), Cap 1 (plus any_char)]"

definition rx_ticket_line :: rx where
  "rx_ticket_line =
     seqs [LineStart, Star (Chars u_space), rx_bullet, plus (Chars u_space), Cap 1 (plus any_char), LineEnd]"

definition default_ticket :: utext where
  "default_ticket = [26412, 27425, 36845, 20195, 20219, 21153]"

definition parse_tickets :: "utext \<Rightarrow> utext list" where
  "parse_tickets message =
     (let listed = (case rx_search rx_ticket_block [] message of
                      None \<Rightarrow> []
                    | Some q \<Rightarrow> rx_findall rx_ticket_item [] (rx_group 1 q));
          loose = rx_findall rx_ticket_line [] message
      in if listed \<noteq> [] then map u_strip (take 20 listed)
         else if 2 \<le> length loose then map u_strip (take 20 loose)
         else [default_ticket])"

text \<open>\<open>_SIGNAL_STRIP\<close>: white space, brackets of several scripts and punctuation.\<close>

definition signal_noise :: "nat \<Rightarrow> bool" where
  "signal_noise c \<longleftrightarrow> u_space c \<or>
     c \<in> set [91, 93, 12304, 12305, 65288, 65289, 40, 41, 60, 62, 12300, 12301, 46, 44, 33, 63,
              65292, 12290, 65281, 65311, 35, 42, 95, 45, 58, 65306]"

definition norm_signal :: "env \<Rightarrow> utext \<Rightarrow> utext" where
  "norm_signal v s = e_upper v (filter (\<lambda>c. \<not> signal_noise c) s)"

definition enclosed :: "nat \<Rightarrow> nat \<Rightarrow> utext \<Rightarrow> bool" where
  "enclosed a b s \<longleftrightarrow> s \<noteq> [] \<and> hd s = a \<and> last s = b"

definition signal_in :: "env \<Rightarrow> utext \<Rightarrow> utext \<Rightarrow> bool" where
  "signal_in v response keyword =
     (if keyword = [] then False
      else
        let k = norm_signal v keyword in
        if k = [] then False
        else if enclosed 91 93 keyword \<or> enclosed 12304 12305 keyword then
          list_ex (\<lambda>l. norm_signal v l = k) (u_splitlines response)
        else is_infix k (norm_signal v response))"

section \<open>Assigning tickets\<close>

text \<open>
  \<open>re.split(r'[,...]+', s)\<close> for the separators of a list of skills; the empty pieces, which the
  score skips, are left out.
\<close>

definition skill_sep :: "nat \<Rightarrow> bool" where
  "skill_sep c \<longleftrightarrow> u_space c \<or> c \<in> set [44, 65292, 12289, 47]"

function pieces :: "(nat \<Rightarrow> bool) \<Rightarrow> utext \<Rightarrow> utext list" where
  "pieces P s =
     (let t = dropWhile P s in
      if t = [] then [] else takeWhile (\<lambda>c. \<not> P c) t # pieces P (dropWhile (\<lambda>c. \<not> P c) t))"
  by pat_completeness auto
termination
proof (relation "measure (\<lambda>(P, s). length s)")
  fix P :: "nat \<Rightarrow> bool" and s t
  assume t: "t = dropWhile P s" "t \<noteq> []"
  then obtain c u where cu: "t = c # u" "\<not> P c" by (metis hd_dropWhile list.exhaust_sel)
  have "length (dropWhile (\<lambda>c. \<not> P c) t) < length t"
    using cu by (simp add: le_imp_less_Suc length_dropWhile_le)
  also have "length t \<le> length s" unfolding t by (rule length_dropWhile_le)
  finally show "((P, dropWhile (\<lambda>c. \<not> P c) t), P, s) \<in> measure (\<lambda>(P, s). length s)" by simp
qed simp

declare pieces.simps [simp del]

definition skills :: "bot \<Rightarrow> utext list" where
  "skills b =
     (case b_expertise b of
        ExpertiseText t \<Rightarrow> pieces skill_sep t
      | ExpertiseList ks \<Rightarrow> if ks \<noteq> [] then ks else pieces skill_sep (get_default (b_role b) [])
      | NoExpertise \<Rightarrow> pieces skill_sep (get_default (b_role b) []))"

definition expertise_score :: "env \<Rightarrow> bot \<Rightarrow> utext \<Rightarrow> nat" where
  "expertise_score v b ticket =
     length (filter (\<lambda>k. u_strip k \<noteq> [] \<and> is_infix (e_lower v (u_strip k)) (e_lower v ticket)) (skills b))"

definition best_bot :: "(bot \<Rightarrow> nat) \<Rightarrow> bot list \<Rightarrow> bot option" where
  "best_bot score bots =
     fst (foldl (\<lambda>(best, n) b. if n < score b then (Some b, score b) else (best, n)) (None, 0) bots)"

text \<open>The first round, in the order of the tickets; the second one, in a random order of the bots.\<close>

fun claim_by_skill :: "env \<Rightarrow> bot list \<Rightarrow> utext list \<Rightarrow> bot list \<times> (bot \<times> utext) list \<times> utext list" where
  "claim_by_skill v avail [] = (avail, [], [])"
| "claim_by_skill v avail (t # ts) =
     (case best_bot (\<lambda>b. expertise_score v b t) avail of
        Some b \<Rightarrow> (case claim_by_skill v (remove1 b avail) ts of (a, ps, us) \<Rightarrow> (a, (b, t) # ps, us))
      | None \<Rightarrow> (case claim_by_skill v avail ts of (a, ps, us) \<Rightarrow> (a, ps, t # us)))"

fun claim_rest :: "bot list \<Rightarrow> utext list \<Rightarrow> (bot \<times> utext) list \<times> utext list" where
  "claim_rest avail [] = ([], [])"
| "claim_rest [] ts = ([], ts)"
| "claim_rest (b # bs) (t # ts) = (case claim_rest bs ts of (ps, q) \<Rightarrow> ((b, t) # ps, q))"

definition assign :: "env \<Rightarrow> bot list \<Rightarrow> utext list \<Rightarrow> (bot \<times> utext) list \<times> utext list" where
  "assign v bots tickets =
     (case claim_by_skill v bots tickets of
        (avail, pairs, unmatched) \<Rightarrow>
          (case claim_rest (e_shuffle v avail) unmatched of (more_pairs, queue) \<Rightarrow> (pairs @ more_pairs, queue)))"
section \<open>The handlers: participants, hand-over and entering\<close>

record ctx =
  x_group :: int
  x_stage :: stage
  x_idx :: int
  x_total :: int

definition keyword_of :: "stage \<Rightarrow> utext" where
  "keyword_of st = get_default (s_done_keyword st) [23436, 27605]"

definition current_bot :: "stage \<Rightarrow> bot option" where
  "current_bot st = (if handler st = SingleType then s_self st else None)"

text \<open>\<open>list(in_progress.keys())\<close>: in the running process these keys are integers.\<close>

definition int_keys :: "(key \<times> 'a) list \<Rightarrow> int list" where
  "int_keys d = List.map_filter (\<lambda>(k, v). case k of IntKey i \<Rightarrow> Some i | StrKey s \<Rightarrow> None) d"

definition current_pool_bots :: "stage \<Rightarrow> int list option" where
  "current_pool_bots st =
     (case handler st of
        PoolType \<Rightarrow> Some (if s_in_progress st \<noteq> [] then int_keys (s_in_progress st) else map b_id (s_bots st))
      | DiscussionType \<Rightarrow> Some (case s_speaker st of Some i \<Rightarrow> [i] | None \<Rightarrow> map b_id (s_bots st))
      | VerificationType \<Rightarrow> Some (case s_pending st of Some p \<Rightarrow> p | None \<Rightarrow> map b_id (s_bots st))
      | _ \<Rightarrow> None)"

definition display_name :: "stage \<Rightarrow> display fallible" where
  "display_name st =
     (case handler st of
        PoolType \<Rightarrow> Inr (TeamName PoolType)
      | DiscussionType \<Rightarrow> Inr (case stage_name st of Some n \<Rightarrow> Named n | None \<Rightarrow> TeamName DiscussionType)
      | VerificationType \<Rightarrow> Inr (case stage_name st of Some n \<Rightarrow> Named n | None \<Rightarrow> TeamName VerificationType)
      | _ \<Rightarrow> (case stage_name st of Some n \<Rightarrow> Inr (Named n) | None \<Rightarrow> Inl (KeyError ''name'')))"

definition incoming_requirement :: "stage \<Rightarrow> utext \<Rightarrow> (utext \<times> nat) option" where
  "incoming_requirement st keyword =
     (if handler st = PoolType then Some (keyword, length (s_bots st)) else None)"

definition rounds_of :: "stage \<Rightarrow> int" where
  "rounds_of st = get_default (s_rounds st) 6"

definition unit_for :: "bot \<Rightarrow> prompt \<Rightarrow> prompt \<Rightarrow> tag \<Rightarrow> prompt work_unit" where
  "unit_for b trigger suffix t =
     \<lparr>wu_bot = b, wu_executor = get_default (b_executor b) tool_loop_v1, wu_trigger = trigger,
      wu_suffix = suffix, wu_workflow = False, wu_tag = t\<rparr>"

definition ticket_unit :: "ctx \<Rightarrow> bot \<Rightarrow> utext \<Rightarrow> prompt work_unit" where
  "ticket_unit x b t =
     unit_for b (StartTicket t) (TicketSuffix (x_idx x + 1) (x_total x) t (keyword_of (x_stage x))) (Ticket t)"

definition turn_unit :: "ctx \<Rightarrow> bot \<Rightarrow> int \<Rightarrow> prompt work_unit" where
  "turn_unit x b r =
     unit_for b (SpeakTurn r (b_name b))
       (TurnSuffix (x_idx x + 1) (x_total x) r (rounds_of (x_stage x)) (b_name b) (rounds_of (x_stage x) \<le> r)) NoTag"

definition propose_unit :: "ctx \<Rightarrow> bot \<Rightarrow> prompt work_unit" where
  "propose_unit x b = unit_for b (ProposeNow (b_name b)) (ProposeSuffix (x_idx x + 1) (x_total x)) NoTag"

definition vote_unit :: "ctx \<Rightarrow> bot \<Rightarrow> prompt work_unit" where
  "vote_unit x b =
     unit_for b (VoteNow (b_name b)) (VoteSuffix (x_idx x + 1) (x_total x) (map b_name (s_bots (x_stage x)))) NoTag"

text \<open>
  Entering a stage. \<open>suffix\<close> is \<open>orch.system_suffix\<close>, which only a single stage asks for. The
  stage is returned with the run-time keys that were set, also when the entry raises. The unit
  of a single stage takes the stage itself for its bot; a stage without the keys of a bot raises
  here and not when the unit reads the missing id.
\<close>

definition dict_of :: "('k \<times> 'v) list \<Rightarrow> ('k \<times> 'v) list" where
  "dict_of xs = foldl (\<lambda>d (k, v). dict_set k v d) [] xs"

definition enter_single :: "prompt fallible \<Rightarrow> ctx \<Rightarrow> prompt step fallible" where
  "enter_single suffix x =
     (let st = x_stage x;
          trigger = (case s_instruction st of
             Some i \<Rightarrow> if i \<noteq> [] then Inr (Instruction i)
                       else (case stage_name st of Some n \<Rightarrow> Inr (BeginWork n (get_default (stage_role st) []))
                               | None \<Rightarrow> Inl (KeyError ''name''))
           | None \<Rightarrow> (case stage_name st of Some n \<Rightarrow> Inr (BeginWork n (get_default (stage_role st) []))
                        | None \<Rightarrow> Inl (KeyError ''name'')))
      in case trigger of
           Inl e \<Rightarrow> Inl e
         | Inr t \<Rightarrow>
             (case suffix of
                Inl e \<Rightarrow> Inl e
              | Inr s \<Rightarrow>
                  (case s_self st of
                     None \<Rightarrow> Inl (KeyError ''id'')
                   | Some b \<Rightarrow> Inr (empty_step\<lparr>broadcast_state := True, next_units := [unit_for b t s NoTag]\<rparr>))))"

definition enter_pool :: "env \<Rightarrow> ctx \<Rightarrow> utext \<Rightarrow> prompt step fallible \<times> stage" where
  "enter_pool v x prev =
     (let st = x_stage x; tickets = parse_tickets prev; bots = s_bots st in
      case assign v bots tickets of
        (pairs, queue) \<Rightarrow>
          let st' = st\<lparr>s_queue := queue, s_in_progress := dict_of (map (\<lambda>(b, t). (IntKey (b_id b), t)) pairs),
                       s_completed := [], s_idle := []\<rparr>;
              assigned = map (b_id \<circ> fst) pairs
          in ((case bots of
                 [] \<Rightarrow> Inl IndexError
               | b0 # _ \<Rightarrow>
                   Inr (empty_step\<lparr>broadcast_state := True,
                     announcements := [(TicketsAssigned (length tickets) (length bots)
                        (map (\<lambda>(b, t). (b_name b, t)) pairs)
                        (map b_name (filter (\<lambda>b. b_id b \<notin> set assigned) bots)), b_id b0)],
                     next_units := map (\<lambda>(b, t). ticket_unit x b t) pairs\<rparr>)), st'))"

definition enter_discussion :: "ctx \<Rightarrow> prompt step fallible \<times> stage" where
  "enter_discussion x =
     (let st = x_stage x in
      case s_bots st of
        [] \<Rightarrow> (Inl IndexError, st\<lparr>s_round := Some 1\<rparr>)
      | b0 # _ \<Rightarrow>
          (Inr (empty_step\<lparr>broadcast_state := True,
             announcements := [(TalkBegins (rounds_of st) (map b_name (s_bots st)), b_id b0)],
             next_units := [turn_unit x b0 1]\<rparr>),
           st\<lparr>s_round := Some 1, s_speaker := Some (b_id b0)\<rparr>))"

definition enter_verification :: "ctx \<Rightarrow> prompt step fallible \<times> stage" where
  "enter_verification x =
     (let st = x_stage x; bots = s_bots st;
          st' = st\<lparr>s_voting := False, s_pending := Some (map b_id bots), s_proposals := [], s_votes := []\<rparr>
      in ((case bots of
             [] \<Rightarrow> Inl IndexError
           | b0 # _ \<Rightarrow>
               Inr (empty_step\<lparr>broadcast_state := True,
                 announcements := [(TestBegins (length bots) (map b_name bots), b_id b0)],
                 next_units := map (propose_unit x) bots\<rparr>)), st'))"

definition enter :: "env \<Rightarrow> prompt fallible \<Rightarrow> ctx \<Rightarrow> utext \<Rightarrow> prompt step fallible \<times> stage" where
  "enter v suffix x prev =
     (case handler (x_stage x) of
        PoolType \<Rightarrow> enter_pool v x prev
      | DiscussionType \<Rightarrow> enter_discussion x
      | VerificationType \<Rightarrow> enter_verification x
      | _ \<Rightarrow> (enter_single suffix x, x_stage x))"

section \<open>Crash recovery and snapshots\<close>

text \<open>JSON turns the integer keys of a dictionary into strings; \<open>rehydrate\<close> turns them back.\<close>

definition json_key :: "key \<Rightarrow> key" where
  "json_key k = (case k of IntKey i \<Rightarrow> StrKey (py_str_int i) | StrKey s \<Rightarrow> StrKey s)"

definition json_dict :: "(key \<times> 'a) list \<Rightarrow> (key \<times> 'a) list" where
  "json_dict d = map (\<lambda>(k, v). (json_key k, v)) d"

definition json_stage :: "stage \<Rightarrow> stage" where
  "json_stage st =
     st\<lparr>s_in_progress := json_dict (s_in_progress st), s_proposals := json_dict (s_proposals st),
        s_votes := json_dict (s_votes st)\<rparr>"

definition int_of_key :: "key \<Rightarrow> int option" where
  "int_of_key k = (case k of IntKey i \<Rightarrow> Some i | StrKey s \<Rightarrow> int_of_string s)"

text \<open>\<open>{int(k): v for k, v in d.items()}\<close>\<close>

fun int_dict_from :: "(key \<times> 'a) list \<Rightarrow> (key \<times> 'a) list \<Rightarrow> (key \<times> 'a) list fallible" where
  "int_dict_from acc [] = Inr acc"
| "int_dict_from acc ((k, v) # d) =
     (case int_of_key k of None \<Rightarrow> Inl ValueError | Some i \<Rightarrow> int_dict_from (dict_set (IntKey i) v acc) d)"

definition rehydrate :: "stage \<Rightarrow> stage fallible" where
  "rehydrate st =
     (case handler st of
        PoolType \<Rightarrow> map_sum id (\<lambda>d. st\<lparr>s_in_progress := d\<rparr>) (int_dict_from [] (s_in_progress st))
      | VerificationType \<Rightarrow>
          (case int_dict_from [] (s_proposals st) of
             Inl e \<Rightarrow> Inl e
           | Inr p \<Rightarrow> map_sum id (\<lambda>d. st\<lparr>s_proposals := p, s_votes := d\<rparr>) (int_dict_from [] (s_votes st)))
      | _ \<Rightarrow> Inr st)"

definition bot_by_id :: "bot list \<Rightarrow> int \<Rightarrow> bot option" where
  "bot_by_id bots i = find (\<lambda>b. b_id b = i) bots"

definition resume_stage :: "ctx \<Rightarrow> prompt work_unit list" where
  "resume_stage x =
     (let st = x_stage x in
      case handler st of
        PoolType \<Rightarrow>
          List.map_filter (\<lambda>(k, t). case k of
              IntKey i \<Rightarrow> map_option (\<lambda>b. ticket_unit x b t) (bot_by_id (s_bots st) i)
            | StrKey s \<Rightarrow> None) (s_in_progress st)
      | DiscussionType \<Rightarrow>
          (case s_speaker st of
             None \<Rightarrow> []
           | Some i \<Rightarrow> (case bot_by_id (s_bots st) i of
                          None \<Rightarrow> [] | Some b \<Rightarrow> [turn_unit x b (get_default (s_round st) 1)]))
      | VerificationType \<Rightarrow>
          List.map_filter (\<lambda>i. map_option (if s_voting st then vote_unit x else propose_unit x) (bot_by_id (s_bots st) i))
            (get_default (s_pending st) [])
      | _ \<Rightarrow> [])"

datatype bot_card = BotCard int utext utext

definition bot_card :: "bot \<Rightarrow> bot_card" where
  "bot_card b = BotCard (b_id b) (b_name b) (b_color b)"

datatype stage_view =
    SingleView bot_card utext utext bool
  | PoolView "bot_card list" "(key \<times> utext) list" nat nat utext
  | DiscussionView "bot_card list" int int "int option"
  | VerificationView "bot_card list" bool nat nat "int option" nat

definition snapshot_stage :: "stage \<Rightarrow> stage_view fallible" where
  "snapshot_stage st =
     (case handler st of
        PoolType \<Rightarrow>
          Inr (PoolView (map bot_card (s_bots st)) (json_dict (s_in_progress st)) (length (s_completed st))
                 (length (s_completed st) + length (s_in_progress st) + length (s_queue st))
                 (get_default (s_done_keyword st) []))
      | DiscussionType \<Rightarrow>
          Inr (DiscussionView (map bot_card (s_bots st)) (get_default (s_round st) 0) (rounds_of st) (s_speaker st))
      | VerificationType \<Rightarrow>
          Inr (VerificationView (map bot_card (s_bots st)) (s_voting st) (length (s_proposals st))
                 (length (s_votes st)) (s_winner st) (length (s_bots st)))
      | _ \<Rightarrow> (case s_self st of
                None \<Rightarrow> Inl (KeyError ''id'')
              | Some b \<Rightarrow> Inr (SingleView (bot_card b) (get_default (b_role b) []) (get_default (s_done_keyword st) []) (s_gate st))))"

end
