(* ===== verification/Declarative.thy ===== *)
theory Declarative
  imports Stages "HOL-Library.Multiset"
begin

text \<open>
  The declarative orchestrator, \<^verbatim>\<open>core/orchestration/declarative.py\<close>, with the decisions of the
  stage types on a finished run (the \<open>observe\<close> methods of \<^verbatim>\<open>core/orchestration/stages.py\<close>): which
  stage the workflow is in, the gates a human confirms, rework and revision, persistence.
\<close>

section \<open>The state of a workflow\<close>

record gate =
  gt_id :: string
  gt_instance :: "string option"
  gt_output :: utext
  gt_rework :: "int option"

record workflow =
  w_id :: string
  w_stages :: "stage list"
  w_current :: int
  w_gate :: "gate option"

type_synonym workflows = "int \<Rightarrow> workflow option"

type_synonym choice = "(workflow, prompt) decision"

text \<open>\<open>stages[idx]\<close> for an index in range, and the write to the stage dictionary.\<close>

definition stage_at :: "workflow \<Rightarrow> int \<Rightarrow> stage option" where
  "stage_at w i = (if 0 \<le> i \<and> i < int (length (w_stages w)) then Some (w_stages w ! nat i) else None)"

definition put_stage :: "int \<Rightarrow> stage \<Rightarrow> workflow \<Rightarrow> workflow" where
  "put_stage i st w = w\<lparr>w_stages := (w_stages w)[nat i := st]\<rparr>"

definition ctx_at :: "int \<Rightarrow> workflow \<Rightarrow> int \<Rightarrow> ctx option" where
  "ctx_at g w i =
     map_option (\<lambda>st. \<lparr>x_group = g, x_stage = st, x_idx = i, x_total = int (length (w_stages w))\<rparr>) (stage_at w i)"

definition current_ctx :: "int \<Rightarrow> workflow \<Rightarrow> ctx option" where
  "current_ctx g w = ctx_at g w (w_current w)"

definition group_ctx :: "int \<Rightarrow> workflows \<Rightarrow> ctx option" where
  "group_ctx g S = Option.bind (S g) (current_ctx g)"

definition stage_payload :: "workflow \<Rightarrow> int \<Rightarrow> (string \<times> pval) list" where
  "stage_payload w i =
     (case stage_at w i of
        None \<Rightarrow> [(''stage_name'', PText []), (''stage_type'', PText (ascii ''single''))]
      | Some st \<Rightarrow> [(''stage_name'', PText (get_default (stage_name st) [])), (''stage_type'', PText (type_name (s_type st)))])"

definition stage_key :: "workflow \<Rightarrow> int \<Rightarrow> utext" where
  "stage_key w i =
     (let d = ascii (''stage_'' @ py_str_int i) in
      case stage_at w i of
        None \<Rightarrow> d
      | Some st \<Rightarrow> (case s_stage_id st of None \<Rightarrow> d | Some k \<Rightarrow> if k = [] then d else k))"

definition observed ::
  "workflow \<Rightarrow> int \<Rightarrow> string \<Rightarrow> string \<Rightarrow> string \<Rightarrow> actor \<Rightarrow> (string \<times> pval) list \<Rightarrow> observation" where
  "observed w i ev gid inst a p =
     \<lparr>o_event = ev, o_workflow = w_id w, o_stage_id = stage_key w i, o_stage_index = i, o_gate = gid,
      o_gate_instance = inst, o_actor = a, o_payload = stage_payload w i @ p\<rparr>"

section \<open>Queries\<close>

definition wf_current_bot :: "int \<Rightarrow> workflows \<Rightarrow> bot option" where
  "wf_current_bot g S = Option.bind (group_ctx g S) (\<lambda>x. Stages.current_bot (x_stage x))"

definition wf_current_pool_bots :: "int \<Rightarrow> workflows \<Rightarrow> int list option" where
  "wf_current_pool_bots g S = Option.bind (group_ctx g S) (\<lambda>x. current_pool_bots (x_stage x))"

definition is_awaiting_confirm :: "int \<Rightarrow> workflows \<Rightarrow> bool" where
  "is_awaiting_confirm g S = (case S g of None \<Rightarrow> False | Some w \<Rightarrow> w_gate w \<noteq> None)"

definition system_suffix :: "int \<Rightarrow> workflow \<Rightarrow> prompt fallible" where
  "system_suffix g w =
     (case current_ctx g w of
        None \<Rightarrow> Inr NoPrompt
      | Some x \<Rightarrow>
          let keyword = keyword_of (x_stage x);
              brief = (case s_instruction (x_stage x) of
                         Some i \<Rightarrow> if x_idx x = 0 \<and> i \<noteq> [] then Some i else None | None \<Rightarrow> None)
          in case ctx_at g w (x_idx x + 1) of
               None \<Rightarrow> Inr (StageSuffix brief (x_idx x + 1) (x_total x) keyword Final)
             | Some n \<Rightarrow>
                 map_sum id (\<lambda>d. StageSuffix brief (x_idx x + 1) (x_total x) keyword
                                    (NextIs d (incoming_requirement (x_stage n) keyword)))
                   (display_name (x_stage n)))"

section \<open>Transitions\<close>

text \<open>\<open>stage_handler(ctx.stage).enter(ctx, prev_output)\<close> at the current stage.\<close>

definition enter_current :: "env \<Rightarrow> int \<Rightarrow> utext \<Rightarrow> workflow \<Rightarrow> prompt step fallible \<times> workflow" where
  "enter_current v g prev w =
     (case current_ctx g w of
        None \<Rightarrow> (Inl (KeyError ''stage''), w)
      | Some x \<Rightarrow>
          (case enter v (system_suffix g w) x prev of
             (r, st) \<Rightarrow> (r, put_stage (w_current w) st w)))"

definition begin_workflow :: "env \<Rightarrow> int \<Rightarrow> stage list \<Rightarrow> workflows \<Rightarrow> choice" where
  "begin_workflow v g stages S =
     (let w = \<lparr>w_id = ''wf_'' @ e_uuid v, w_stages = stages, w_current = 0, w_gate = None\<rparr>
      in (Inr (empty_step\<lparr>broadcast_state := True,
            observations :=
              [observed w 0 ''workflow_started'' '''' '''' SystemActor [(''stage_count'', PInt (int (length stages)))],
               observed w 0 ''stage_entered'' '''' '''' SystemActor []]\<rparr>),
          S(g \<mapsto> w)))"

definition advance_stage :: "env \<Rightarrow> int \<Rightarrow> utext \<Rightarrow> string \<Rightarrow> actor \<Rightarrow> workflows \<Rightarrow> choice" where
  "advance_stage v g prev source a S =
     (case S g of
        None \<Rightarrow> (Inr empty_step, S)
      | Some w \<Rightarrow>
          let done = w_current w;
              completed = observed w done ''stage_completed'' '''' '''' a [(''completion_source'', PWord source)];
              w1 = w\<lparr>w_gate := None, w_current := done + 1\<rparr>
          in if int (length (w_stages w)) \<le> w_current w1 then
               (Inr (empty_step\<lparr>st_done := True,
                  observations := [completed, observed w1 done ''workflow_completed'' '''' '''' a
                                     [(''stage_count'', PInt (int (length (w_stages w1))))]]\<rparr>),
                end_group g S)
             else
               (case enter_current v g prev w1 of
                  (Inl e, w2) \<Rightarrow> (Inl e, S(g \<mapsto> w2))
                | (Inr st, w2) \<Rightarrow>
                    (Inr (st\<lparr>observations := [completed, observed w2 (w_current w2) ''stage_entered'' '''' '''' a []]
                              @ observations st\<rparr>), S(g \<mapsto> w2))))"

definition remark_of :: "utext \<Rightarrow> utext option" where
  "remark_of n = (let t = u_strip n in if t = [] then None else Some t)"

definition mark_units :: "(prompt \<Rightarrow> prompt) \<Rightarrow> prompt step \<Rightarrow> prompt step" where
  "mark_units f st = st\<lparr>next_units := map (\<lambda>u. u\<lparr>wu_trigger := f (wu_trigger u)\<rparr>) (next_units st)\<rparr>"

definition rewind :: "env \<Rightarrow> int \<Rightarrow> int \<Rightarrow> utext \<Rightarrow> utext \<Rightarrow> actor \<Rightarrow> workflows \<Rightarrow> choice" where
  "rewind v g target prev remark a S =
     (case S g of
        None \<Rightarrow> (Inr empty_step, S)
      | Some w \<Rightarrow>
          let w1 = w\<lparr>w_gate := None, w_current := target\<rparr> in
          if current_ctx g w1 = None then (Inr empty_step, S(g \<mapsto> w1))
          else
            (case enter_current v g prev w1 of
               (Inl e, w2) \<Rightarrow> (Inl e, S(g \<mapsto> w2))
             | (Inr st, w2) \<Rightarrow>
                 (Inr ((mark_units (ReworkNote (remark_of remark)) st)\<lparr>observations :=
                      observed w2 target ''stage_rework_started'' '''' '''' a
                        [(''from_stage_index'', PInt (w_current w)), (''target_stage_index'', PInt target),
                         (''note_present'', PBool (remark_of remark \<noteq> None))] # observations st\<rparr>),
                  S(g \<mapsto> w2))))"

definition redo :: "env \<Rightarrow> int \<Rightarrow> utext \<Rightarrow> utext \<Rightarrow> actor \<Rightarrow> workflows \<Rightarrow> choice" where
  "redo v g prev remark a S =
     (case S g of
        None \<Rightarrow> (Inr empty_step, S)
      | Some w \<Rightarrow>
          let w1 = w\<lparr>w_gate := None\<rparr> in
          if current_ctx g w1 = None then (Inr empty_step, S(g \<mapsto> w1))
          else
            (case enter_current v g prev w1 of
               (Inl e, w2) \<Rightarrow> (Inl e, S(g \<mapsto> w2))
             | (Inr st, w2) \<Rightarrow>
                 (Inr ((mark_units (ReviseNote (remark_of remark)) st)\<lparr>observations :=
                      observed w2 (w_current w2) ''stage_rework_started'' '''' '''' a
                        [(''from_stage_index'', PInt (w_current w)), (''target_stage_index'', PInt (w_current w)),
                         (''revision'', PBool True), (''note_present'', PBool (remark_of remark \<noteq> None))] # observations st\<rparr>),
                  S(g \<mapsto> w2))))"

definition gate_id_of :: "int \<Rightarrow> int \<Rightarrow> bool \<Rightarrow> string" where
  "gate_id_of g i is_rework =
     py_str_int g @ ''-'' @ py_str_int i @ (if is_rework then ''-rework'' else '''')"

definition or_label :: "utext option \<Rightarrow> prompt \<Rightarrow> prompt" where
  "or_label l d = (case l of None \<Rightarrow> d | Some t \<Rightarrow> if t = [] then d else GateLabel t)"

definition raise_gate :: "env \<Rightarrow> ctx \<Rightarrow> utext \<Rightarrow> int option \<Rightarrow> actor \<Rightarrow> workflows \<Rightarrow> choice" where
  "raise_gate v x response rework_to a S =
     (let g = x_group x in
      case S g of
        None \<Rightarrow> (Inr empty_step, S)
      | Some w \<Rightarrow>
          let st = x_stage x;
              gid = gate_id_of g (w_current w) (rework_to \<noteq> None);
              inst = ''gate_'' @ e_uuid v;
              w1 = w\<lparr>w_gate := Some \<lparr>gt_id = gid, gt_instance = Some inst, gt_output = response, gt_rework = rework_to\<rparr>\<rparr>;
              name = get_default (stage_name st) [];
              label = (if rework_to \<noteq> None then or_label (s_fail_gate_label st) (ReworkStage name)
                       else or_label (s_gate_label st) (ConfirmStage name))
          in (Inr (empty_step\<lparr>broadcast_state := True,
                confirm_gate := Some \<lparr>gc_gate = gid, gc_instance = inst, gc_label = label,
                                     gc_bot = map_option b_id (s_self st), gc_stage = name\<rparr>,
                observations := [observed w1 (w_current w1) ''gate_requested'' gid inst a
                   [(''gate_kind'', PWord (if rework_to \<noteq> None then ''rework'' else ''completion'')),
                    (''rework_to'', case rework_to of None \<Rightarrow> PNone | Some i \<Rightarrow> PInt i)]]\<rparr>),
              S(g \<mapsto> w1)))"

text \<open>A human answers a gate; an id that is given must be the id of the pending one.\<close>

definition add_first :: "observation \<Rightarrow> choice \<Rightarrow> choice" where
  "add_first ob d = (map_sum id (\<lambda>st. st\<lparr>observations := ob # observations st\<rparr>) (fst d), snd d)"

definition confirm :: "env \<Rightarrow> int \<Rightarrow> string option \<Rightarrow> utext \<Rightarrow> bool \<Rightarrow> workflows \<Rightarrow> choice" where
  "confirm v g gate_id remark revise S =
     (case S g of
        None \<Rightarrow> (Inr empty_step, S)
      | Some w \<Rightarrow>
          (case w_gate w of
             None \<Rightarrow> (Inr empty_step, S)
           | Some p \<Rightarrow>
               if gate_id \<noteq> None \<and> gate_id \<noteq> Some (gt_id p) then (Inr empty_step, S)
               else
                 let ev = observed w (w_current w) (if revise then ''gate_revision_requested'' else ''gate_approved'')
                            (gt_id p) (get_default (gt_instance p) '''') HumanActor
                            [(''gate_kind'', PWord (if gt_rework p \<noteq> None then ''rework'' else ''completion'')),
                             (''note_present'', PBool (remark_of remark \<noteq> None))]
                 in add_first ev
                      (case gt_rework p of
                         Some target \<Rightarrow> rewind v g target (gt_output p) remark HumanActor S
                       | None \<Rightarrow>
                           if revise then redo v g (gt_output p) remark HumanActor S
                           else advance_stage v g (gt_output p) ''gate_approved'' HumanActor S)))"

definition advance :: "env \<Rightarrow> int \<Rightarrow> utext \<Rightarrow> workflows \<Rightarrow> choice" where
  "advance v g prev S = advance_stage v g prev ''manual_advance'' HumanActor S"

section \<open>A run has ended\<close>

text \<open>Writing the stage of the context back; the handlers mutate it in place.\<close>

definition write_stage :: "ctx \<Rightarrow> stage \<Rightarrow> workflows \<Rightarrow> workflows" where
  "write_stage x st S =
     (case S (x_group x) of None \<Rightarrow> S | Some w \<Rightarrow> S(x_group x \<mapsto> put_stage (x_idx x) st w))"

definition observe_single :: "env \<Rightarrow> ctx \<Rightarrow> utext \<Rightarrow> workflows \<Rightarrow> choice" where
  "observe_single v x response S =
     (let st = x_stage x in
      if (case s_fail_keyword st of None \<Rightarrow> False | Some k \<Rightarrow> k \<noteq> [] \<and> signal_in v response k) then
        raise_gate v x response (s_rework_to st) SystemActor S
      else if signal_in v response (get_default (s_done_keyword st) []) then
        (if s_gate st then raise_gate v x response None SystemActor S
         else advance_stage v (x_group x) response ''manual_advance'' SystemActor S)
      else (Inr empty_step, S))"

text \<open>
  The step of a handler that advances the workflow takes over the units, announcements and flags
  of the step of the advance, but not its observations.
\<close>

definition merge_advance :: "bool \<Rightarrow> prompt step \<Rightarrow> choice \<Rightarrow> choice" where
  "merge_advance copy_broadcast st d =
     (map_sum id (\<lambda>adv. st\<lparr>next_units := next_units st @ next_units adv,
                         announcements := announcements st @ announcements adv, st_done := st_done adv,
                         broadcast_state := (if copy_broadcast then broadcast_state adv else broadcast_state st)\<rparr>) (fst d),
      snd d)"

definition observe_pool :: "env \<Rightarrow> ctx \<Rightarrow> int \<Rightarrow> utext \<Rightarrow> workflows \<Rightarrow> choice" where
  "observe_pool v x who response S =
     (let st = x_stage x in
      if \<not> signal_in v response (get_default (s_done_keyword st) []) then (Inr empty_step, S)
      else
        (case map_of (s_in_progress st) (IntKey who) of
           None \<Rightarrow> (Inr empty_step, S)
         | Some finished \<Rightarrow>
             let st1 = st\<lparr>s_in_progress := dict_del (IntKey who) (s_in_progress st),
                          s_completed := s_completed st @ [finished]\<rparr>;
                 b = bot_by_id (s_bots st) who
             in (case s_queue st of
                   t # q \<Rightarrow>
                     (Inr (case b of
                        None \<Rightarrow> empty_step\<lparr>broadcast_state := True\<rparr>
                      | Some b \<Rightarrow> empty_step\<lparr>broadcast_state := True,
                          announcements := [(NextTicket (b_name b) finished t, b_id b)],
                          next_units := [ticket_unit x b t]\<rparr>),
                      write_stage x (st1\<lparr>s_queue := q, s_in_progress := dict_set (IntKey who) t (s_in_progress st1)\<rparr>) S)
                 | [] \<Rightarrow>
                     let st2 = st1\<lparr>s_idle := s_idle st1 @ [who]\<rparr>;
                         base = empty_step\<lparr>announcements :=
                           (case b of None \<Rightarrow> [] | Some b \<Rightarrow> [(NowIdle (b_name b) finished, b_id b)])\<rparr>
                     in if s_in_progress st2 = [] then
                          merge_advance True base
                            (advance_stage v (x_group x) response ''manual_advance'' SystemActor (write_stage x st2 S))
                        else (Inr (base\<lparr>broadcast_state := True\<rparr>), write_stage x st2 S))))"

definition observe_discussion :: "env \<Rightarrow> ctx \<Rightarrow> int \<Rightarrow> utext \<Rightarrow> workflows \<Rightarrow> choice" where
  "observe_discussion v x who response S =
     (let st = x_stage x; r = get_default (s_round st) 1 in
      if s_speaker st \<noteq> Some who then (Inr empty_step, S)
      else if rounds_of st \<le> r then advance_stage v (x_group x) response ''manual_advance'' SystemActor S
      else if s_bots st = [] then (Inl ZeroDivisionError, S)
      else
        let b = s_bots st ! nat (r mod int (length (s_bots st)));
            st' = st\<lparr>s_round := Some (r + 1), s_speaker := Some (b_id b)\<rparr>
        in (Inr (empty_step\<lparr>broadcast_state := True, next_units := [turn_unit x b (r + 1)]\<rparr>), write_stage x st' S))"

text \<open>Votes: \<open>re.search\<close> for the vote line, the first bot whose name occurs in it.\<close>

definition rx_vote :: rx where
  "rx_vote = seqs [lit 25237, lit 31080, Chars (\<lambda>c. c = 65306 \<or> c = 58), Star (Chars u_space), Cap 1 (plus any_char)]"

definition parse_vote :: "stage \<Rightarrow> utext \<Rightarrow> int option" where
  "parse_vote st response =
     (let scope = (case rx_search rx_vote [] response of None \<Rightarrow> response | Some q \<Rightarrow> rx_group 1 q)
      in map_option b_id (find (\<lambda>b. is_infix (b_name b) scope) (s_bots st)))"

definition tally :: "int list \<Rightarrow> (int \<times> nat) list" where
  "tally vs = foldl (\<lambda>d w. dict_set w (get_default (map_of d w) 0 + 1) d) [] vs"

text \<open>\<open>max(tally, key=tally.get)\<close>: the first of the keys with the most votes.\<close>

definition first_max :: "(int \<times> nat) list \<Rightarrow> int option" where
  "first_max d =
     (case d of [] \<Rightarrow> None | e # es \<Rightarrow> Some (fst (foldl (\<lambda>m p. if snd m < snd p then p else m) e es)))"

definition finish_vote :: "env \<Rightarrow> ctx \<Rightarrow> workflows \<Rightarrow> choice" where
  "finish_vote v x S =
     (let st = x_stage x; d = tally (map snd (s_votes st)) in
      case s_bots st of
        [] \<Rightarrow> (Inl IndexError, S)
      | b0 # _ \<Rightarrow>
          let wid = (case first_max d of None \<Rightarrow> b_id b0 | Some i \<Rightarrow> i);
              winner = get_default (bot_by_id (s_bots st) wid) b0;
              winning = get_default (map_of (s_proposals st) (IntKey wid)) [];
              base = empty_step\<lparr>broadcast_state := True,
                       announcements := [(WinnerIs (b_name winner) (get_default (map_of d wid) 0), wid)]\<rparr>
          in merge_advance False base
               (advance_stage v (x_group x) winning ''manual_advance'' SystemActor
                  (write_stage x (st\<lparr>s_winner := Some wid\<rparr>) S)))"

definition observe_vote :: "env \<Rightarrow> ctx \<Rightarrow> int \<Rightarrow> utext \<Rightarrow> workflows \<Rightarrow> choice" where
  "observe_vote v x who response S =
     (let st = x_stage x; pending = get_default (s_pending st) [] in
      if who \<notin> set pending then (Inr empty_step, S)
      else
        let st1 = st\<lparr>s_pending := Some (remove1 who pending)\<rparr>;
            st2 = (case parse_vote st1 response of
                     None \<Rightarrow> st1 | Some i \<Rightarrow> st1\<lparr>s_votes := dict_set (IntKey who) i (s_votes st1)\<rparr>)
        in if remove1 who pending \<noteq> [] then (Inr (empty_step\<lparr>broadcast_state := True\<rparr>), write_stage x st2 S)
           else finish_vote v (x\<lparr>x_stage := st2\<rparr>) (write_stage x st2 S))"

definition observe_propose :: "env \<Rightarrow> ctx \<Rightarrow> int \<Rightarrow> utext \<Rightarrow> workflows \<Rightarrow> choice" where
  "observe_propose v x who response S =
     (let st = x_stage x; pending = get_default (s_pending st) [] in
      if who \<notin> set pending then (Inr empty_step, S)
      else
        let st1 = st\<lparr>s_pending := Some (remove1 who pending),
                     s_proposals := dict_set (IntKey who) response (s_proposals st)\<rparr>
        in if remove1 who pending \<noteq> [] then (Inr (empty_step\<lparr>broadcast_state := True\<rparr>), write_stage x st1 S)
           else
             let st2 = st1\<lparr>s_voting := True, s_pending := Some (map b_id (s_bots st))\<rparr>
             in ((case s_bots st of
                    [] \<Rightarrow> Inl IndexError
                  | b0 # _ \<Rightarrow> Inr (empty_step\<lparr>broadcast_state := True, announcements := [(VoteBegins, b_id b0)],
                                next_units := map (vote_unit x) (s_bots st)\<rparr>)), write_stage x st2 S))"

definition observe_stage :: "env \<Rightarrow> ctx \<Rightarrow> int \<Rightarrow> utext \<Rightarrow> workflows \<Rightarrow> choice" where
  "observe_stage v x who response S =
     (case handler (x_stage x) of
        PoolType \<Rightarrow> observe_pool v x who response S
      | DiscussionType \<Rightarrow> observe_discussion v x who response S
      | VerificationType \<Rightarrow>
          (if s_voting (x_stage x) then observe_vote v x who response S else observe_propose v x who response S)
      | _ \<Rightarrow> observe_single v x response S)"

text \<open>The target of a rework: an index in range, else a stage by name or role, else the stage's own.\<close>

fun index_of :: "('a \<Rightarrow> bool) \<Rightarrow> 'a list \<Rightarrow> int option" where
  "index_of P [] = None"
| "index_of P (x # xs) = (if P x then Some 0 else map_option (\<lambda>i. i + 1) (index_of P xs))"

definition rework_target :: "workflow \<Rightarrow> ctx \<Rightarrow> signal \<Rightarrow> int option" where
  "rework_target w x sig =
     (let named = (case sg_rework_idx sig of
            Some i \<Rightarrow>
              if 0 \<le> i \<and> i < int (length (w_stages w)) then Some i
              else (case sg_target sig of
                      None \<Rightarrow> None
                    | Some t \<Rightarrow> if t = [] then None
                        else index_of (\<lambda>s. stage_name s = Some t \<or> stage_role s = Some t) (w_stages w))
          | None \<Rightarrow>
              (case sg_target sig of
                 None \<Rightarrow> None
               | Some t \<Rightarrow> if t = [] then None
                   else index_of (\<lambda>s. stage_name s = Some t \<or> stage_role s = Some t) (w_stages w)))
      in case named of None \<Rightarrow> s_rework_to (x_stage x) | Some i \<Rightarrow> Some i)"

text \<open>The loop over the structured signals of the run: the first one that decides.\<close>

fun observe_signals :: "env \<Rightarrow> ctx \<Rightarrow> int \<Rightarrow> utext \<Rightarrow> signal list \<Rightarrow> workflow \<Rightarrow> workflows \<Rightarrow> choice option" where
  "observe_signals v x who response [] w S = None"
| "observe_signals v x who response (sig # sigs) w S =
     (if sg_name sig = SIGNAL_STAGE_DONE then
        Some (if s_type (x_stage x) = PoolType then
                observe_stage v x who (NL # keyword_of (x_stage x) @ [NL]) S
              else if s_gate (x_stage x) then
                raise_gate v x (get_default (sg_reason sig) response) None (BotActor who) S
              else advance_stage v (x_group x) (get_default (sg_reason sig) response) ''signal_stage_done'' (BotActor who) S)
      else if sg_name sig = SIGNAL_REWORK then
        (case rework_target w x sig of
           Some t \<Rightarrow> Some (raise_gate v x (get_default (sg_reason sig) response) (Some t) (BotActor who) S)
         | None \<Rightarrow> observe_signals v x who response sigs w S)
      else observe_signals v x who response sigs w S)"

definition observe :: "env \<Rightarrow> int \<Rightarrow> int \<Rightarrow> utext \<Rightarrow> signal list option \<Rightarrow> workflows \<Rightarrow> choice" where
  "observe v g who response sigs S =
     (case S g of
        None \<Rightarrow> (Inr empty_step, S)
      | Some w \<Rightarrow>
          (case current_ctx g w of
             None \<Rightarrow> (Inr empty_step, S)
           | Some x \<Rightarrow>
               (case (case sigs of None \<Rightarrow> None | Some ss \<Rightarrow> observe_signals v x who response ss w S) of
                  Some d \<Rightarrow> d
                | None \<Rightarrow>
                    if sigs = None then observe_stage v x who response S
                    else
                      (Inr (empty_step\<lparr>broadcast_state := True,
                         workflow_paused := Some \<lparr>pz_reason = ''completion_signal_missing'',
                           pz_details = ascii ''Bot run completed without calling signal_stage_done or signal_rework''\<rparr>,
                         observations := [observed w (w_current w) ''workflow_paused'' '''' '''' (BotActor who)
                                            [(''reason'', PWord ''completion_signal_missing'')]]\<rparr>), S))))"

section \<open>Persistence and recovery\<close>

text \<open>
  The blob is the JSON of the state; older ones may lack the workflow id and the id of the gate
  instance, which \<open>restore\<close> then makes up.
\<close>

record blob =
  bl_id :: "string option"
  bl_stages :: "stage list"
  bl_current :: int
  bl_gate :: "gate option"

definition blob_of :: "workflow \<Rightarrow> blob" where
  "blob_of w = \<lparr>bl_id = Some (w_id w), bl_stages = map json_stage (w_stages w), bl_current = w_current w, bl_gate = w_gate w\<rparr>"

fun rehydrate_all :: "stage list \<Rightarrow> stage list fallible" where
  "rehydrate_all [] = Inr []"
| "rehydrate_all (st # sts) =
     (case rehydrate st of Inl e \<Rightarrow> Inl e | Inr s \<Rightarrow> map_sum id (\<lambda>ss. s # ss) (rehydrate_all sts))"

definition restore_blob :: "env \<Rightarrow> int \<Rightarrow> blob \<Rightarrow> workflows \<Rightarrow> unit fallible \<times> workflows" where
  "restore_blob v g b S =
     (case rehydrate_all (bl_stages b) of
        Inl e \<Rightarrow> (Inl e, S)
      | Inr sts \<Rightarrow>
          (Inr (), S(g \<mapsto> \<lparr>w_id = get_default (bl_id b) (''wf_'' @ e_uuid v), w_stages = sts, w_current = bl_current b,
             w_gate = map_option (\<lambda>p. p\<lparr>gt_instance := Some (get_default (gt_instance p) (''gate_'' @ e_uuid v))\<rparr>) (bl_gate b)\<rparr>)))"

definition recovery_observation :: "int \<Rightarrow> workflows \<Rightarrow> observation option" where
  "recovery_observation g S =
     map_option (\<lambda>w. observed w (w_current w) ''workflow_recovered''
                       (case w_gate w of None \<Rightarrow> '''' | Some p \<Rightarrow> gt_id p)
                       (case w_gate w of None \<Rightarrow> '''' | Some p \<Rightarrow> get_default (gt_instance p) '''')
                       SystemActor [(''awaiting_confirm'', PBool (w_gate w \<noteq> None))]) (S g)"

definition resume_units :: "int \<Rightarrow> workflows \<Rightarrow> prompt work_unit list" where
  "resume_units g S = (case group_ctx g S of None \<Rightarrow> [] | Some x \<Rightarrow> resume_stage x)"

record wf_view =
  fv_id :: "string option"
  fv_stages :: "stage_view list"
  fv_current :: int
  fv_gate :: "string option"
  fv_instance :: "string option"
  fv_stage_id :: "utext option"

fun snapshot_stages :: "stage list \<Rightarrow> stage_view list fallible" where
  "snapshot_stages [] = Inr []"
| "snapshot_stages (st # sts) =
     (case snapshot_stage st of Inl e \<Rightarrow> Inl e | Inr s \<Rightarrow> map_sum id (\<lambda>ss. s # ss) (snapshot_stages sts))"

definition snapshot_state :: "blob option \<Rightarrow> wf_view option fallible" where
  "snapshot_state bo =
     (case bo of
        None \<Rightarrow> Inr None
      | Some b \<Rightarrow>
          (case rehydrate_all (bl_stages b) of
             Inl e \<Rightarrow> Inl e
           | Inr sts \<Rightarrow>
               (case snapshot_stages sts of
                  Inl e \<Rightarrow> Inl e
                | Inr vs \<Rightarrow>
                    Inr (Some \<lparr>fv_id = bl_id b, fv_stages = vs, fv_current = bl_current b,
                       fv_gate = map_option gt_id (bl_gate b), fv_instance = Option.bind (bl_gate b) gt_instance,
                       fv_stage_id =
                         (if 0 \<le> bl_current b \<and> bl_current b < int (length sts)
                          then Some (stage_key \<lparr>w_id = '''', w_stages = sts, w_current = bl_current b, w_gate = bl_gate b\<rparr>
                                      (bl_current b))
                          else None)\<rparr>))))"

section \<open>Specifications\<close>

record stage_cfg =
  cf_pool :: "int option list option"
  cf_bot :: "int option"
  cf_id :: "utext option"
  cf_name :: "utext option"
  cf_role :: "utext option"
  cf_executor :: "utext option"
  cf_instruction :: "utext option"
  cf_done_keyword :: "utext option"
  cf_gate :: bool
  cf_gate_label :: "utext option"
  cf_fail_keyword :: "utext option"
  cf_rework_to :: "int option"
  cf_fail_gate_label :: "utext option"

definition blank_stage :: stage where
  "blank_stage =
     \<lparr>s_type = SingleType, s_stage_id = None, s_self = None, s_label = None, s_instruction = None,
      s_done_keyword = None, s_gate = False, s_gate_label = None, s_fail_keyword = None, s_rework_to = None,
      s_fail_gate_label = None, s_bots = [], s_rounds = None, s_queue = [], s_in_progress = [], s_completed = [],
      s_idle = [], s_round = None, s_speaker = None, s_voting = False, s_pending = None, s_proposals = [],
      s_votes = [], s_winner = None\<rparr>"

definition or_else :: "'a option \<Rightarrow> 'a option \<Rightarrow> 'a option" where
  "or_else x y = (case x of None \<Rightarrow> y | Some v \<Rightarrow> Some v)"

text \<open>
  \<open>parse_spec\<close>: pools keep the bots the group has and are dropped when none is left; the other
  entries are single stages, the keys of the entry written over those of the bot.
\<close>

definition parse_stage :: "(int \<Rightarrow> bot option) \<Rightarrow> stage_cfg \<Rightarrow> stage option" where
  "parse_stage bots c =
     (case cf_pool c of
        Some ids \<Rightarrow>
          let bs = List.map_filter (\<lambda>i. Option.bind i bots) ids
          in if bs = [] then None
             else Some (blank_stage\<lparr>s_type := PoolType, s_bots := bs, s_done_keyword := Some (get_default (cf_done_keyword c) [23436, 27605])\<rparr>)
      | None \<Rightarrow>
          (case Option.bind (cf_bot c) bots of
             None \<Rightarrow> None
           | Some b \<Rightarrow>
               Some (blank_stage\<lparr>s_self := Some (b\<lparr>b_name := get_default (cf_name c) (b_name b),
                          b_role := or_else (cf_role c) (b_role b), b_executor := or_else (cf_executor c) (b_executor b)\<rparr>),
                        s_stage_id := cf_id c, s_instruction := cf_instruction c,
                        s_done_keyword := Some (get_default (cf_done_keyword c) [23436, 27605]), s_gate := cf_gate c,
                        s_gate_label := cf_gate_label c, s_fail_keyword := cf_fail_keyword c,
                        s_rework_to := cf_rework_to c, s_fail_gate_label := cf_fail_gate_label c\<rparr>)))"

definition parse_spec :: "stage_cfg list \<Rightarrow> (int \<Rightarrow> bot option) \<Rightarrow> stage list" where
  "parse_spec cfgs bots = List.map_filter (parse_stage bots) cfgs"

section \<open>Well-formed workflows\<close>

text \<open>
  \<open>random.shuffle\<close> permutes; the only fact about the environment the proofs need.
\<close>

definition env_ok :: "env \<Rightarrow> bool" where
  "env_ok v \<longleftrightarrow> (\<forall>bs. mset (e_shuffle v bs) = mset bs)"

definition int_dict :: "(key \<times> 'a) list \<Rightarrow> bool" where
  "int_dict d \<longleftrightarrow> distinct (map fst d) \<and> (\<forall>k \<in> fst ` set d. \<exists>i. k = IntKey i)"

definition in_range :: "nat \<Rightarrow> int option \<Rightarrow> bool" where
  "in_range n r \<longleftrightarrow> (case r of None \<Rightarrow> True | Some i \<Rightarrow> 0 \<le> i \<and> i < int n)"

definition stage_ok :: "nat \<Rightarrow> stage \<Rightarrow> bool" where
  "stage_ok n st \<longleftrightarrow>
     (handler st = SingleType \<longrightarrow> s_self st \<noteq> None) \<and> (handler st \<noteq> SingleType \<longrightarrow> s_bots st \<noteq> []) \<and>
     in_range n (s_rework_to st) \<and>
     int_dict (s_in_progress st) \<and> int_dict (s_proposals st) \<and> int_dict (s_votes st) \<and>
     fst ` set (s_in_progress st) \<subseteq> (IntKey \<circ> b_id) ` set (s_bots st) \<and>
     (handler st \<noteq> PoolType \<longrightarrow> s_in_progress st = []) \<and>
     (handler st \<noteq> VerificationType \<longrightarrow> s_proposals st = [] \<and> s_votes st = [])"

definition wf_ok :: "workflow \<Rightarrow> bool" where
  "wf_ok w \<longleftrightarrow>
     0 \<le> w_current w \<and> w_current w < int (length (w_stages w)) \<and>
     list_all (stage_ok (length (w_stages w))) (w_stages w) \<and>
     (case w_gate w of None \<Rightarrow> True
      | Some p \<Rightarrow> gt_instance p \<noteq> None \<and> in_range (length (w_stages w)) (gt_rework p))"

lemma handler_not_other [simp]: "handler st \<noteq> OtherType n"
  by (cases "s_type st") (simp_all add: handler_def)

lemma handler_fields [simp]:
  "handler (st\<lparr>s_queue := q\<rparr>) = handler st" "handler (st\<lparr>s_in_progress := d\<rparr>) = handler st"
  "handler (st\<lparr>s_completed := c\<rparr>) = handler st" "handler (st\<lparr>s_idle := i\<rparr>) = handler st"
  "handler (st\<lparr>s_round := r\<rparr>) = handler st" "handler (st\<lparr>s_speaker := sp\<rparr>) = handler st"
  "handler (st\<lparr>s_voting := b\<rparr>) = handler st" "handler (st\<lparr>s_pending := p\<rparr>) = handler st"
  "handler (st\<lparr>s_proposals := pr\<rparr>) = handler st" "handler (st\<lparr>s_votes := vs\<rparr>) = handler st"
  "handler (st\<lparr>s_winner := wi\<rparr>) = handler st"
  by (simp_all add: handler_def)

lemma int_dict_Nil [simp]: "int_dict []"
  by (simp add: int_dict_def)

lemma int_dict_set: "int_dict d \<Longrightarrow> int_dict (dict_set (IntKey i) x d)"
  using keys_dict_set [of "IntKey i" x d] distinct_dict_set [of d "IntKey i" x] by (auto simp: int_dict_def)

lemma int_dict_del: "int_dict d \<Longrightarrow> int_dict (dict_del k d)"
  using keys_dict_del [of k d] distinct_dict_del [of d k] by (auto simp: int_dict_def)

lemma dict_of_from:
  "int_dict acc \<Longrightarrow>
   int_dict (foldl (\<lambda>d (k, v). dict_set k v d) acc (map (\<lambda>(b, t). (IntKey (f b), t)) ps)) \<and>
   fst ` set (foldl (\<lambda>d (k, v). dict_set k v d) acc (map (\<lambda>(b, t). (IntKey (f b), t)) ps)) =
     fst ` set acc \<union> IntKey ` f ` fst ` set ps"
proof (induction ps arbitrary: acc)
  case (Cons p ps)
  obtain b t where p: "p = (b, t)" by (cases p)
  from Cons.IH [OF int_dict_set [OF Cons.prems, of "f b" t]] keys_dict_set [of "IntKey (f b)" t acc]
  show ?case by (auto simp: p)
qed simp

lemma claim_by_skill_bots:
  "claim_by_skill v avail ts = (a, ps, us) \<Longrightarrow> set a \<union> fst ` set ps \<subseteq> set avail"
proof (induction v avail ts arbitrary: a ps us rule: claim_by_skill.induct)
  case (2 v avail t ts)
  have best: "b \<in> set avail" if "best_bot sc avail = Some b" for b sc
  proof -
    have "fst (foldl (\<lambda>(best, n) b. if n < sc b then (Some b, sc b) else (best, n)) (o', k) bs) = Some b \<Longrightarrow>
        b \<in> set bs \<or> o' = Some b" for o' k bs
      by (induction bs arbitrary: o' k) (auto split: if_splits)
    from this [of None 0 avail] that show ?thesis by (simp add: best_bot_def)
  qed
  show ?case
  proof (cases "best_bot (\<lambda>b. expertise_score v b t) avail")
    case None
    obtain a' ps' us' where r: "claim_by_skill v avail ts = (a', ps', us')" by (cases "claim_by_skill v avail ts")
    from 2(1) [OF None r] 2(3) show ?thesis by (auto simp: None r)
  next
    case (Some b)
    obtain a' ps' us' where r: "claim_by_skill v (remove1 b avail) ts = (a', ps', us')"
      by (cases "claim_by_skill v (remove1 b avail) ts")
    have "set a \<union> fst ` set ps' \<subseteq> set avail" "ps = (b, t) # ps'"
      using 2(2) [OF Some r] 2(3) set_remove1_subset [of b avail] by (auto simp: Some r)
    with best [OF Some] show ?thesis by simp
  qed
qed auto

lemma claim_rest_bots: "claim_rest avail ts = (ps, q) \<Longrightarrow> fst ` set ps \<subseteq> set avail"
proof (induction avail ts arbitrary: ps q rule: claim_rest.induct)
  case (3 b bs t ts)
  obtain ps' q' where r: "claim_rest bs ts = (ps', q')" by (cases "claim_rest bs ts")
  from 3(1) [OF r] 3(2) show ?case by (fastforce simp: r image_subset_iff)
qed auto

lemma assign_bots:
  assumes "env_ok v" "assign v bots ts = (ps, q)"
  shows "fst ` set ps \<subseteq> set bots"
proof -
  obtain a p1 us where c: "claim_by_skill v bots ts = (a, p1, us)" by (cases "claim_by_skill v bots ts")
  obtain p2 q2 where r: "claim_rest (e_shuffle v a) us = (p2, q2)" by (cases "claim_rest (e_shuffle v a) us")
  have "set (e_shuffle v a) = set a" using assms(1) by (metis env_ok_def mset_eq_setD)
  moreover have "ps = p1 @ p2" using assms(2) by (simp add: assign_def c r)
  ultimately show ?thesis using claim_by_skill_bots [OF c] claim_rest_bots [OF r] by (simp add: image_Un) blast
qed

lemma enter_ok:
  assumes "env_ok v" "stage_ok n (x_stage x)" "suffix = Inr s"
  shows "\<exists>st st'. enter v suffix x prev = (Inr st, st') \<and> stage_ok n st' \<and> broadcast_state st \<and> \<not> st_done st"
proof (cases "handler (x_stage x)")
  case SingleType
  with assms(2) obtain b where b: "s_self (x_stage x) = Some b" by (auto simp: stage_ok_def)
  have "enter_single suffix x =
      Inr (empty_step\<lparr>broadcast_state := True, next_units := [unit_for b (case s_instruction (x_stage x) of
        None \<Rightarrow> BeginWork (b_name b) (get_default (stage_role (x_stage x)) [])
      | Some i \<Rightarrow> if i \<noteq> [] then Instruction i else BeginWork (b_name b) (get_default (stage_role (x_stage x)) [])) s NoTag]\<rparr>)"
    by (simp add: enter_single_def b assms(3) stage_name_def Let_def split: option.split)
  with SingleType assms(2) show ?thesis by (simp add: enter_def)
next
  case PoolType
  with assms(2) obtain b0 bs where bots: "s_bots (x_stage x) = b0 # bs" by (auto simp: stage_ok_def neq_Nil_conv)
  obtain ps q where a: "assign v (s_bots (x_stage x)) (parse_tickets prev) = (ps, q)"
    by (cases "assign v (s_bots (x_stage x)) (parse_tickets prev)")
  have "int_dict (dict_of (map (\<lambda>(b, t). (IntKey (b_id b), t)) ps))"
    "fst ` set (dict_of (map (\<lambda>(b, t). (IntKey (b_id b), t)) ps)) \<subseteq> (IntKey \<circ> b_id) ` set (s_bots (x_stage x))"
    using dict_of_from [of "[]" b_id ps] assign_bots [OF assms(1) a] by (auto simp: dict_of_def)
  with PoolType assms(2) a show ?thesis
    by (simp add: enter_def enter_pool_def Let_def bots stage_ok_def)
next
  case DiscussionType
  with assms(2) obtain b0 bs where bots: "s_bots (x_stage x) = b0 # bs" by (auto simp: stage_ok_def neq_Nil_conv)
  with DiscussionType assms(2) show ?thesis
    by (simp add: enter_def enter_discussion_def Let_def stage_ok_def)
next
  case VerificationType
  with assms(2) obtain b0 bs where bots: "s_bots (x_stage x) = b0 # bs" by (auto simp: stage_ok_def neq_Nil_conv)
  with VerificationType assms(2) show ?thesis
    by (simp add: enter_def enter_verification_def Let_def stage_ok_def)
qed simp


lemma wf_ok_stage:
  "wf_ok w \<Longrightarrow> 0 \<le> i \<Longrightarrow> i < int (length (w_stages w)) \<Longrightarrow> stage_ok (length (w_stages w)) (w_stages w ! nat i)"
  by (auto simp: wf_ok_def list_all_length)

text \<open>What entering the current stage does to a workflow whose current stage is in range.\<close>

lemma stage_at_current:
  "0 \<le> w_current w \<Longrightarrow> w_current w < int (length (w_stages w)) \<Longrightarrow>
   stage_at w (w_current w) = Some (w_stages w ! nat (w_current w))"
  by (simp add: stage_at_def)

lemma system_suffix_ok:
  assumes "wf_ok w"
  shows "\<exists>s. system_suffix g w = Inr s"
proof (cases "ctx_at g w (w_current w + 1)")
  case None
  with assms show ?thesis
    by (auto simp: system_suffix_def current_ctx_def ctx_at_def wf_ok_def stage_at_current Let_def)
next
  case (Some y)
  define st where "st = x_stage y"
  from Some have "0 \<le> w_current w + 1" "w_current w + 1 < int (length (w_stages w))"
    "st = w_stages w ! nat (w_current w + 1)"
    by (auto simp: ctx_at_def stage_at_def st_def split: if_splits)
  with wf_ok_stage [OF assms] have "stage_ok (length (w_stages w)) st" by blast
  then have "\<exists>d. display_name st = Inr d"
    by (cases "handler st") (auto simp: display_name_def stage_ok_def stage_name_def split: option.split)
  with Some assms show ?thesis
    by (auto simp: st_def system_suffix_def current_ctx_def ctx_at_def wf_ok_def stage_at_current Let_def)
qed

lemma put_stage_fields [simp]:
  "w_current (put_stage i st w) = w_current w" "w_gate (put_stage i st w) = w_gate w" "w_id (put_stage i st w) = w_id w"
  "length (w_stages (put_stage i st w)) = length (w_stages w)"
  by (simp_all add: put_stage_def)

lemma wf_ok_put:
  "wf_ok w \<Longrightarrow> stage_ok (length (w_stages w)) st \<Longrightarrow> wf_ok (put_stage i st w)"
  by (auto simp: wf_ok_def put_stage_def list_all_iff split: option.splits dest: set_update_subset_insert [THEN subsetD])

lemma enter_current_ok:
  assumes "env_ok v" "wf_ok w"
  shows "\<exists>st st'. enter_current v g prev w = (Inr st, put_stage (w_current w) st' w) \<and>
           stage_ok (length (w_stages w)) st' \<and> broadcast_state st \<and> \<not> st_done st"
proof -
  let ?st = "w_stages w ! nat (w_current w)"
  let ?x = "\<lparr>x_group = g, x_stage = ?st, x_idx = w_current w, x_total = int (length (w_stages w))\<rparr>"
  have c: "current_ctx g w = Some ?x"
    using assms(2) by (simp add: current_ctx_def ctx_at_def stage_at_current wf_ok_def)
  have "stage_ok (length (w_stages w)) ?st" using assms(2) by (intro wf_ok_stage) (simp_all add: wf_ok_def)
  with system_suffix_ok [OF assms(2), of g] enter_ok [OF assms(1), of "length (w_stages w)" ?x "system_suffix g w" _ prev]
  obtain st st' where "enter v (system_suffix g w) ?x prev = (Inr st, st')" "stage_ok (length (w_stages w)) st'"
    "broadcast_state st" "\<not> st_done st" by auto
  then show ?thesis by (auto simp: enter_current_def c)
qed

lemma wf_ok_moved:
  "wf_ok w \<Longrightarrow> 0 \<le> i \<Longrightarrow> i < int (length (w_stages w)) \<Longrightarrow> wf_ok (w\<lparr>w_gate := None, w_current := i\<rparr>)"
  "wf_ok w \<Longrightarrow> wf_ok (w\<lparr>w_gate := None\<rparr>)"
  by (simp_all add: wf_ok_def)

text \<open>The transitions of a well-formed workflow: they end it, or broadcast a well-formed one.\<close>

lemma advance_stage_cases:
  assumes "env_ok v" "S g = Some w" "wf_ok w"
  obtains (over) st where "advance_stage v g prev src a S = (Inr st, S(g := None))" "st_done st" "observations st \<noteq> []"
      "w_current w + 1 = int (length (w_stages w))"
  | (moved) st w' where "advance_stage v g prev src a S = (Inr st, S(g \<mapsto> w'))" "\<not> st_done st" "broadcast_state st"
      "observations st \<noteq> []" "wf_ok w'" "w_current w' = w_current w + 1" "w_gate w' = None"
proof -
  let ?w1 = "w\<lparr>w_gate := None, w_current := w_current w + 1\<rparr>"
  show thesis
  proof (cases "int (length (w_stages w)) \<le> w_current w + 1")
    case True
    with assms(2,3) over show ?thesis
      by (simp add: advance_stage_def Let_def end_group_def wf_ok_def)
  next
    case False
    with assms(3) have ok: "wf_ok ?w1" by (simp add: wf_ok_def)
    from enter_current_ok [OF assms(1) ok, of g prev] obtain st st' where
      e: "enter_current v g prev ?w1 = (Inr st, put_stage (w_current ?w1) st' ?w1)"
        "stage_ok (length (w_stages ?w1)) st'" "broadcast_state st" "\<not> st_done st" by blast
    with False assms(2) have "\<exists>st2. advance_stage v g prev src a S =
        (Inr st2, S(g \<mapsto> put_stage (w_current ?w1) st' ?w1)) \<and> \<not> st_done st2 \<and> broadcast_state st2 \<and> observations st2 \<noteq> []"
      by (simp add: advance_stage_def Let_def)
    then obtain st2 where s2: "advance_stage v g prev src a S = (Inr st2, S(g \<mapsto> put_stage (w_current ?w1) st' ?w1))"
      "\<not> st_done st2" "broadcast_state st2" "observations st2 \<noteq> []" by (elim exE conjE) (rule that)
    show ?thesis by (rule moved [OF s2 wf_ok_put [OF ok e(2)]]) simp_all
  qed
qed

lemma mark_units_fields [simp]:
  "broadcast_state (mark_units f st) = broadcast_state st" "st_done (mark_units f st) = st_done st"
  "observations (mark_units f st) = observations st"
  by (simp_all add: mark_units_def)

lemma rewind_ok:
  assumes "env_ok v" "S g = Some w" "wf_ok w" "in_range (length (w_stages w)) (Some i)"
  shows "\<exists>st w'. rewind v g i prev remark a S = (Inr st, S(g \<mapsto> w')) \<and> \<not> st_done st \<and> broadcast_state st \<and>
           wf_ok w' \<and> w_current w' = i \<and> w_gate w' = None"
proof -
  let ?w1 = "w\<lparr>w_gate := None, w_current := i\<rparr>"
  have ok: "wf_ok ?w1" using assms(3,4) by (simp add: wf_ok_moved in_range_def)
  have "current_ctx g ?w1 \<noteq> None" using assms(4) by (simp add: current_ctx_def ctx_at_def stage_at_def in_range_def)
  moreover from enter_current_ok [OF assms(1) ok, of g prev] obtain st st' where
    "enter_current v g prev ?w1 = (Inr st, put_stage (w_current ?w1) st' ?w1)"
    "stage_ok (length (w_stages ?w1)) st'" "broadcast_state st" "\<not> st_done st" by blast
  ultimately show ?thesis using assms(2) wf_ok_put [OF ok, of st' i]
    by (auto simp: rewind_def Let_def)
qed

lemma redo_ok:
  assumes "env_ok v" "S g = Some w" "wf_ok w"
  shows "\<exists>st w'. redo v g prev remark a S = (Inr st, S(g \<mapsto> w')) \<and> \<not> st_done st \<and> broadcast_state st \<and>
           wf_ok w' \<and> w_current w' = w_current w \<and> w_gate w' = None"
proof -
  let ?w1 = "w\<lparr>w_gate := None\<rparr>"
  have ok: "wf_ok ?w1" using assms(3) by (rule wf_ok_moved)
  have "current_ctx g ?w1 \<noteq> None" using assms(3) by (simp add: current_ctx_def ctx_at_def stage_at_def wf_ok_def)
  moreover from enter_current_ok [OF assms(1) ok, of g prev] obtain st st' where
    "enter_current v g prev ?w1 = (Inr st, put_stage (w_current ?w1) st' ?w1)"
    "stage_ok (length (w_stages ?w1)) st'" "broadcast_state st" "\<not> st_done st" by blast
  ultimately show ?thesis using assms(2) wf_ok_put [OF ok, of st' "w_current w"]
    by (auto simp: redo_def Let_def)
qed

lemma raise_gate_ok:
  assumes "S g = Some w" "wf_ok w" "x_group x = g" "in_range (length (w_stages w)) r"
  shows "\<exists>st p. raise_gate v x response r a S = (Inr st, S(g \<mapsto> w\<lparr>w_gate := Some p\<rparr>)) \<and> \<not> st_done st \<and>
           broadcast_state st \<and> wf_ok (w\<lparr>w_gate := Some p\<rparr>) \<and> gt_id p = gate_id_of g (w_current w) (r \<noteq> None) \<and>
           gt_rework p = r \<and> gt_instance p = Some (''gate_'' @ e_uuid v)"
proof -
  let ?p = "\<lparr>gt_id = gate_id_of g (w_current w) (r \<noteq> None), gt_instance = Some (''gate_'' @ e_uuid v),
              gt_output = response, gt_rework = r\<rparr>"
  have "wf_ok (w\<lparr>w_gate := Some ?p\<rparr>)" using assms(2,4) by (simp add: wf_ok_def)
  moreover have "\<exists>st. raise_gate v x response r a S = (Inr st, S(g \<mapsto> w\<lparr>w_gate := Some ?p\<rparr>)) \<and> \<not> st_done st \<and> broadcast_state st"
    using assms(1,3) by (simp add: raise_gate_def Let_def)
  ultimately show ?thesis by (elim exE conjE, intro exI [of _ ?p] exI conjI) simp_all
qed

section \<open>No decision raises\<close>

text \<open>
  What a decision may do to its group: nothing at all, end the workflow, or leave a well-formed
  workflow and ask for it to be stored and broadcast.
\<close>

definition outcome_ok :: "int \<Rightarrow> workflows \<Rightarrow> choice \<Rightarrow> bool" where
  "outcome_ok g S d \<longleftrightarrow>
     d = (Inr empty_step, S) \<or> (\<exists>st. d = (Inr st, S(g := None)) \<and> st_done st) \<or>
     (\<exists>st w'. d = (Inr st, S(g \<mapsto> w')) \<and> \<not> st_done st \<and> broadcast_state st \<and> wf_ok w')"

lemma outcome_empty: "outcome_ok g S (Inr empty_step, S)"
  by (simp add: outcome_ok_def)

lemma outcome_over: "st_done st \<Longrightarrow> outcome_ok g S (Inr st, S(g := None))"
  unfolding outcome_ok_def by blast

lemma outcome_moved: "\<not> st_done st \<Longrightarrow> broadcast_state st \<Longrightarrow> wf_ok w' \<Longrightarrow> outcome_ok g S (Inr st, S(g \<mapsto> w'))"
  unfolding outcome_ok_def by blast

lemma outcome_advance:
  assumes "env_ok v" "S g = Some w" "wf_ok w"
  shows "outcome_ok g S (advance_stage v g prev src a S)"
  by (rule advance_stage_cases [where S = S and g = g and w = w and prev = prev and src = src and a = a, OF assms])
    (simp_all add: outcome_over outcome_moved)

lemma outcome_merge:
  assumes "env_ok v" "wf_ok w'" "c \<or> broadcast_state base" "\<not> st_done base"
  shows "outcome_ok g S (merge_advance c base (advance_stage v g prev src a (S(g \<mapsto> w'))))"
proof -
  have "(S(g \<mapsto> w')) g = Some w'" by simp
  from assms(1) this assms(2) show ?thesis
    by (rule advance_stage_cases [where S = "S(g \<mapsto> w')" and g = g and w = w' and prev = prev and src = src and a = a])
      (use assms(3) in \<open>auto simp: merge_advance_def intro!: outcome_over outcome_moved\<close>)
qed

lemma outcome_gate:
  assumes "S g = Some w" "wf_ok w" "x_group x = g" "in_range (length (w_stages w)) r"
  shows "outcome_ok g S (raise_gate v x response r a S)"
  using raise_gate_ok [where S = S and g = g and w = w, OF assms, of v response a] by (auto simp: outcome_moved)

text \<open>The context of the current stage of a well-formed workflow.\<close>

lemma current_ctxD:
  assumes "wf_ok w" "current_ctx g w = Some x"
  shows "x_group x = g" "x_idx x = w_current w" "x_stage x = w_stages w ! nat (w_current w)"
    "stage_ok (length (w_stages w)) (x_stage x)"
  using assms wf_ok_stage [OF assms(1), of "w_current w"]
  by (auto simp: current_ctx_def ctx_at_def stage_at_def wf_ok_def split: if_splits)

lemma wf_ok_current: "wf_ok w \<Longrightarrow> \<exists>x. current_ctx g w = Some x"
  by (simp add: current_ctx_def ctx_at_def stage_at_def wf_ok_def)

lemma write_stage_eq:
  "S g = Some w \<Longrightarrow> wf_ok w \<Longrightarrow> current_ctx g w = Some x \<Longrightarrow>
   write_stage x st S = S(g \<mapsto> put_stage (w_current w) st w)"
  by (simp add: write_stage_def current_ctxD)

lemma outcome_single:
  assumes "env_ok v" "S g = Some w" "wf_ok w" "current_ctx g w = Some x"
  shows "outcome_ok g S (observe_single v x response S)"
proof -
  note x = current_ctxD [OF assms(3,4)]
  have "in_range (length (w_stages w)) (s_rework_to (x_stage x))" "in_range (length (w_stages w)) None"
    using x(4) by (simp_all add: stage_ok_def in_range_def)
  with outcome_gate [where S = S and g = g and w = w, OF assms(2,3) x(1)] outcome_advance [where S = S and g = g and w = w, OF assms(1-3)] x(1) show ?thesis
    by (simp add: observe_single_def Let_def outcome_empty)
qed

lemma outcome_pool:
  assumes "env_ok v" "S g = Some w" "wf_ok w" "current_ctx g w = Some x"
    and "handler (x_stage x) = PoolType"
  shows "outcome_ok g S (observe_pool v x who response S)"
proof (cases "map_of (s_in_progress (x_stage x)) (IntKey who)")
  case None
  then show ?thesis by (simp add: observe_pool_def Let_def outcome_empty)
next
  case (Some finished)
  let ?st = "x_stage x"
  let ?st1 = "?st\<lparr>s_in_progress := dict_del (IntKey who) (s_in_progress ?st), s_completed := s_completed ?st @ [finished]\<rparr>"
  note x = current_ctxD [OF assms(3,4)]
  note wr = write_stage_eq [where S = S and g = g and w = w, OF assms(2-4)]
  from map_of_SomeD [OF Some] have "IntKey who \<in> fst ` set (s_in_progress ?st)" by force
  then have who: "IntKey who \<in> (IntKey \<circ> b_id) ` set (s_bots ?st)" using x(4) by (auto simp: stage_ok_def)
  have keys: "fst ` set (dict_del k d) \<subseteq> fst ` set d" for k and d :: "(key \<times> 'a) list"
    using keys_dict_del [of k d] by auto
  have ok1: "stage_ok (length (w_stages w)) ?st1"
    using x(4) assms(5) keys [of "IntKey who" "s_in_progress ?st"] by (auto simp: stage_ok_def intro: int_dict_del)
  have ok2: "stage_ok (length (w_stages w)) (?st1\<lparr>s_queue := q, s_in_progress := dict_set (IntKey who) t (s_in_progress ?st1)\<rparr>)" for q t
    using ok1 who assms(5) keys_dict_set [of "IntKey who" t "s_in_progress ?st1"]
    by (auto simp: stage_ok_def intro!: int_dict_set)
  have ok3: "stage_ok (length (w_stages w)) (?st1\<lparr>s_idle := i\<rparr>)" for i
    using ok1 by (simp add: stage_ok_def)
  have ok4: "stage_ok (length (w_stages w)) (?st\<lparr>s_in_progress := [], s_completed := c, s_idle := i\<rparr>)" for c i
    using x(4) by (simp add: stage_ok_def)
  show ?thesis
  proof (cases "s_queue ?st")
    case (Cons t q)
    with Some outcome_moved [OF _ _ wf_ok_put [OF assms(3) ok2]] outcome_empty show ?thesis
      by (cases "bot_by_id (s_bots (x_stage x)) who") (simp_all add: observe_pool_def Let_def wr)
  next
    case Nil
    with Some show ?thesis
      using outcome_merge [OF assms(1) wf_ok_put [OF assms(3) ok4]] outcome_moved [OF _ _ wf_ok_put [OF assms(3) ok3]]
        outcome_empty x(1)
      by (simp add: observe_pool_def Let_def wr)
  qed
qed

lemma outcome_discussion:
  assumes "env_ok v" "S g = Some w" "wf_ok w" "current_ctx g w = Some x"
    and "handler (x_stage x) = DiscussionType"
  shows "outcome_ok g S (observe_discussion v x who response S)"
proof -
  note x = current_ctxD [OF assms(3,4)]
  have "stage_ok (length (w_stages w)) ((x_stage x)\<lparr>s_round := r, s_speaker := sp\<rparr>)" for r sp
    using x(4) by (simp add: stage_ok_def)
  from outcome_moved [OF _ _ wf_ok_put [OF assms(3) this]] outcome_advance [where S = S and g = g and w = w, OF assms(1-3)] outcome_empty x(4) show ?thesis
    by (simp add: observe_discussion_def Let_def write_stage_eq [where S = S and g = g and w = w, OF assms(2-4)] x(1) stage_ok_def assms(5))
qed

lemma outcome_verification:
  assumes "env_ok v" "S g = Some w" "wf_ok w" "current_ctx g w = Some x"
    and "handler (x_stage x) = VerificationType"
  shows "outcome_ok g S (observe_vote v x who response S)" "outcome_ok g S (observe_propose v x who response S)"
proof -
  note x = current_ctxD [OF assms(3,4)]
  note wr = write_stage_eq [where S = S and g = g and w = w, OF assms(2-4)]
  from x(4) assms(5) obtain b0 bs where bots: "s_bots (x_stage x) = b0 # bs" by (auto simp: stage_ok_def neq_Nil_conv)
  let ?st1 = "(x_stage x)\<lparr>s_pending := Some (remove1 who (get_default (s_pending (x_stage x)) []))\<rparr>"
  define st2 where "st2 = (case parse_vote ?st1 response of
      None \<Rightarrow> ?st1 | Some i \<Rightarrow> ?st1\<lparr>s_votes := dict_set (IntKey who) i (s_votes ?st1)\<rparr>)"
  have ok2: "stage_ok (length (w_stages w)) st2" "s_bots st2 = b0 # bs"
    using x(4) bots assms(5) by (auto simp: st2_def stage_ok_def intro: int_dict_set split: option.split)
  then have ok3: "stage_ok (length (w_stages w)) (st2\<lparr>s_winner := i\<rparr>)" for i by (simp add: stage_ok_def)
  have w2: "write_stage (x\<lparr>x_stage := st2\<rparr>) st3 (S(g \<mapsto> put_stage (w_current w) st2 w)) =
      S(g \<mapsto> put_stage (w_current w) st3 (put_stage (w_current w) st2 w))" for st3
    by (simp add: write_stage_def x(1,2))
  have "wf_ok (put_stage (w_current w) (st2\<lparr>s_winner := i\<rparr>) (put_stage (w_current w) st2 w))" for i
    using wf_ok_put [OF wf_ok_put [OF assms(3) ok2(1)]] ok3 by simp
  from outcome_merge [OF assms(1) this] outcome_moved [OF _ _ wf_ok_put [OF assms(3) ok2(1)]]
  show "outcome_ok g S (observe_vote v x who response S)"
    unfolding observe_vote_def Let_def st2_def [symmetric]
    by (simp add: wr outcome_empty finish_vote_def Let_def ok2(2) w2 x(1))
  have "stage_ok (length (w_stages w)) ((x_stage x)\<lparr>s_pending := p, s_proposals := dict_set (IntKey who) response (s_proposals (x_stage x))\<rparr>)"
    "stage_ok (length (w_stages w)) ((x_stage x)\<lparr>s_proposals := dict_set (IntKey who) response (s_proposals (x_stage x)),
       s_voting := True, s_pending := p\<rparr>)" for p
    using x(4) assms(5) by (auto simp: stage_ok_def intro: int_dict_set)
  from this [THEN wf_ok_put [OF assms(3)], THEN outcome_moved [rotated 2]]
  show "outcome_ok g S (observe_propose v x who response S)"
    by (simp add: observe_propose_def Let_def wr outcome_empty bots)
qed

lemma outcome_stage:
  assumes "env_ok v" "S g = Some w" "wf_ok w" "current_ctx g w = Some x"
  shows "outcome_ok g S (observe_stage v x who response S)"
  using outcome_single [where S = S and g = g and w = w, OF assms] outcome_pool [where S = S and g = g and w = w, OF assms] outcome_discussion [where S = S and g = g and w = w, OF assms] outcome_verification [where S = S and g = g and w = w, OF assms]
  by (cases "handler (x_stage x)") (simp_all add: observe_stage_def)

lemma rework_target_range:
  assumes "current_ctx g w = Some x" "wf_ok w"
  shows "in_range (length (w_stages w)) (rework_target w x sig)"
proof -
  have idx: "index_of P xs = Some i \<Longrightarrow> 0 \<le> i \<and> i < int (length xs)" for P xs i
    by (induction xs arbitrary: i) (fastforce split: if_splits)+
  have "in_range (length (w_stages w)) (s_rework_to (x_stage x))"
    using current_ctxD(4) [OF assms(2,1)] by (simp add: stage_ok_def)
  then show ?thesis
    by (auto simp: rework_target_def Let_def in_range_def split: option.splits if_splits dest!: idx)
qed

lemma outcome_signals:
  assumes "env_ok v" "S g = Some w" "wf_ok w" "current_ctx g w = Some x"
    and "observe_signals v x who response sigs w S = Some d"
  shows "outcome_ok g S d"
  using assms(5)
proof (induction sigs)
  case (Cons sig sigs)
  note x = current_ctxD [OF assms(3,4)]
  have gate: "outcome_ok g S (raise_gate v x r t a S)" if "in_range (length (w_stages w)) t" for r t a
    by (rule outcome_gate [where S = S and g = g and w = w, OF assms(2,3) x(1) that])
  have "in_range (length (w_stages w)) None" by (simp add: in_range_def)
  with Cons gate rework_target_range [OF assms(4,3), of sig] outcome_stage [where S = S and g = g and w = w, OF assms(1-4)]
    outcome_advance [where S = S and g = g and w = w, OF assms(1-3)] x(1)
  show ?case
    by (auto split: if_splits option.splits)
qed simp

lemma outcome_observe:
  assumes "env_ok v" "group_ok wf_ok g S"
  shows "outcome_ok g S (observe v g who response sigs S)"
proof (cases "S g")
  case None
  then show ?thesis by (simp add: observe_def outcome_empty)
next
  case (Some w)
  note ok = group_okD [where g = g, OF assms(2) Some]
  from wf_ok_current [OF ok, of g] obtain x where x: "current_ctx g w = Some x" by blast
  show ?thesis
  proof (cases "case sigs of None \<Rightarrow> None | Some ss \<Rightarrow> observe_signals v x who response ss w S")
    case (Some d)
    then have "outcome_ok g S d"
      using outcome_signals [where S = S and g = g and w = w, OF assms(1) \<open>S g = Some w\<close> ok x] by (cases sigs) auto
    then show ?thesis by (simp add: observe_def \<open>S g = Some w\<close> x Some)
  next
    case None
    have same: "S(g \<mapsto> w) = S" using \<open>S g = Some w\<close> by (rule fun_upd_idem)
    from None show ?thesis
      using outcome_stage [where S = S and g = g and w = w, OF assms(1) Some ok x] outcome_moved [OF _ _ ok, of _ g S]
      by (simp add: observe_def Some x same)
  qed
qed

lemma outcome_confirm:
  assumes "env_ok v" "group_ok wf_ok g S"
  shows "outcome_ok g S (confirm v g gid remark revise S)"
proof (cases "S g")
  case None
  then show ?thesis by (simp add: confirm_def outcome_empty)
next
  case (Some w)
  note ok = group_okD [where g = g, OF assms(2) Some]
  show ?thesis
  proof (cases "w_gate w")
    case None
    with Some show ?thesis by (simp add: confirm_def outcome_empty)
  next
    case p: (Some p)
    with ok have r: "in_range (length (w_stages w)) (gt_rework p)" by (simp add: wf_ok_def)
    have over: "outcome_ok g S (add_first ob (advance_stage v g prev src a S))" for ob prev src a
      by (rule advance_stage_cases [where S = S and g = g and w = w and prev = prev and src = src and a = a, OF assms(1) Some ok])
        (simp_all add: add_first_def outcome_over outcome_moved)
    show ?thesis
    proof (cases "gt_rework p")
      case None
      with Some p over redo_ok [where S = S and g = g and w = w, OF assms(1) Some ok, of "gt_output p" remark HumanActor]
      show ?thesis
        by (auto simp: confirm_def Let_def outcome_empty add_first_def intro!: outcome_moved)
    next
      case (Some i)
      with \<open>S g = Some w\<close> p r rewind_ok [where S = S and g = g and w = w, OF assms(1) \<open>S g = Some w\<close> ok, of i "gt_output p" remark HumanActor]
      show ?thesis
        by (auto simp: confirm_def Let_def outcome_empty add_first_def intro!: outcome_moved)
    qed
  qed
qed

lemma outcome_manual:
  assumes "env_ok v" "group_ok wf_ok g S"
  shows "outcome_ok g S (advance v g prev S)"
proof (cases "S g")
  case None
  then show ?thesis by (simp add: advance_def advance_stage_def outcome_empty)
next
  case (Some w)
  from outcome_advance [where S = S and g = g and w = w, OF assms(1) Some group_okD [where g = g, OF assms(2) Some]]
  show ?thesis by (simp add: advance_def)
qed

section \<open>The orchestrator interface\<close>

datatype wf_input =
    RunEnded env int utext "signal list option"
  | Answered env "string option" utext bool
  | NextStage env utext

definition wf_decides :: "wf_input \<Rightarrow> int \<Rightarrow> workflows \<Rightarrow> choice" where
  "wf_decides i g S =
     (case i of
        RunEnded v who response sigs \<Rightarrow> observe v g who response sigs S
      | Answered v gid remark revise \<Rightarrow> confirm v g gid remark revise S
      | NextStage v prev \<Rightarrow> advance v g prev S)"

definition input_env :: "wf_input \<Rightarrow> env" where
  "input_env i = (case i of RunEnded v _ _ _ \<Rightarrow> v | Answered v _ _ _ \<Rightarrow> v | NextStage v _ \<Rightarrow> v)"

lemma outcome_decides: "env_ok (input_env i) \<Longrightarrow> group_ok wf_ok g S \<Longrightarrow> outcome_ok g S (wf_decides i g S)"
  using outcome_observe outcome_confirm outcome_manual
  by (cases i) (simp_all add: wf_decides_def input_env_def)

lemma outcome_laws:
  assumes "outcome_ok g S d"
  shows "h \<noteq> g \<Longrightarrow> snd d h = S h" "\<exists>st. fst d = Inr st"
    and "fst d = Inr st \<Longrightarrow> st_done st \<Longrightarrow> snd d g = None"
    and "fst d = Inr st \<Longrightarrow> is_silent st \<Longrightarrow> snd d g = S g"
    and "group_ok wf_ok g S \<Longrightarrow> group_ok wf_ok g (snd d)"
  using assms by (auto simp: outcome_ok_def is_silent_def)

text \<open>The blob of a well-formed workflow restores exactly that workflow.\<close>

lemma int_dict_json:
  assumes "int_dict (acc @ d)"
  shows "int_dict_from acc (json_dict d) = Inr (acc @ d)"
  using assms
proof (induction d arbitrary: acc)
  case (Cons e d)
  obtain k x where e: "e = (k, x)" by (cases e)
  from Cons.prems e obtain i where i: "k = IntKey i" by (auto simp: int_dict_def)
  have new: "k \<notin> fst ` set acc" using Cons.prems by (auto simp: int_dict_def e)
  have "dict_set k x acc = acc @ [(k, x)]" using new by (induction acc) auto
  moreover have "int_dict ((acc @ [(k, x)]) @ d)" using Cons.prems e by simp
  from Cons.IH [OF this] have "int_dict_from (acc @ [(k, x)]) (json_dict d) = Inr (acc @ (k, x) # d)" by simp
  ultimately show ?case by (simp add: e i json_dict_def json_key_def int_of_key_def)
qed (simp add: json_dict_def)

lemma rehydrate_json:
  assumes "stage_ok n st"
  shows "rehydrate (json_stage st) = Inr st"
proof -
  have h: "handler (json_stage st) = handler st" by (simp add: json_stage_def handler_def)
  have d: "int_dict_from [] (json_dict (s_in_progress st)) = Inr (s_in_progress st)"
    "int_dict_from [] (json_dict (s_proposals st)) = Inr (s_proposals st)"
    "int_dict_from [] (json_dict (s_votes st)) = Inr (s_votes st)"
    using assms(1) by (simp_all add: int_dict_json stage_ok_def)
  have e: "json_dict ([] :: (key \<times> 'a) list) = []" by (simp add: json_dict_def)
  show ?thesis
    using assms by (cases "handler st") (auto simp: rehydrate_def h json_stage_def d e stage_ok_def)
qed


lemma rehydrate_blob:
  assumes "list_all (stage_ok n) sts"
  shows "rehydrate_all (map json_stage sts) = Inr sts"
  using assms by (induction sts) (simp_all add: rehydrate_json [where n = n])

lemma restore_blob_of:
  assumes "wf_ok w"
  shows "restore_blob v g (blob_of w) S = (Inr (), S(g \<mapsto> w))"
proof -
  from assms have "rehydrate_all (map json_stage (w_stages w)) = Inr (w_stages w)"
    by (auto simp: wf_ok_def intro: rehydrate_blob)
  moreover from assms have "map_option (\<lambda>p. p\<lparr>gt_instance := Some (get_default (gt_instance p) i)\<rparr>) (w_gate w) = w_gate w" for i
    by (cases "w_gate w") (auto simp: wf_ok_def get_default_def)
  ultimately show ?thesis
    by (cases w) (simp add: restore_blob_def blob_of_def get_default_def)
qed

interpretation wf_orch: orchestrator wf_decides "\<lambda>i. env_ok (input_env i)" wf_ok blob_of "\<lambda>g b S. snd (restore_blob v g b S)"
  for v
proof
  show "snd (restore_blob v g (blob_of s) S) = S(g \<mapsto> s)" if "wf_ok s" for g s S
    using restore_blob_of [OF that] by simp
qed (use outcome_laws [OF outcome_decides] in blast)+

end
