(* ===== verification/Workflow.thy ===== *)
theory Workflow
  imports Declarative
begin

text \<open>
  Properties of whole runs of the declarative orchestrator: no decision raises, a gated stage
  waits for a human, answers reach the gate they were given for, the tickets of a pool are
  neither lost nor invented and the pool is left with the last of them, and a restart resumes
  exactly the work in flight.
\<close>

section \<open>Runs\<close>

definition run :: "wf_input list \<Rightarrow> int \<Rightarrow> workflows \<Rightarrow> workflows" where
  "run evs g S = fold (\<lambda>i T. snd (wf_decides i g T)) evs S"

lemma run_simps [simp]:
  "run [] g S = S" "run (i # evs) g S = run evs g (snd (wf_decides i g S))"
  by (simp_all add: run_def)

lemma run_append: "run (evs @ js) g S = run js g (run evs g S)"
  by (simp add: run_def)

lemma run_ok:
  "group_ok wf_ok g S \<Longrightarrow> \<forall>i \<in> set evs. env_ok (input_env i) \<Longrightarrow> group_ok wf_ok g (run evs g S)"
  by (induction evs arbitrary: S) (simp_all add: wf_orch.keeps)

lemma parse_stage_ok:
  assumes "parse_stage bots c = Some st" "in_range n (cf_rework_to c)"
  shows "stage_ok n st"
proof (cases "cf_pool c")
  case None
  with assms show ?thesis
    by (auto simp: parse_stage_def stage_ok_def handler_def blank_stage_def split: option.splits)
next
  case (Some ids)
  with assms show ?thesis
    by (auto simp: parse_stage_def Let_def stage_ok_def handler_def blank_stage_def in_range_def split: if_splits)
qed

lemma parse_spec_ok:
  assumes "\<forall>c \<in> set cfgs. in_range n (cf_rework_to c)"
  shows "list_all (stage_ok n) (parse_spec cfgs bots)"
  using assms parse_stage_ok
  by (induction cfgs) (auto simp: parse_spec_def List.map_filter_def split: option.splits)

lemma begun_ok:
  assumes "stages \<noteq> []" "list_all (stage_ok (length stages)) stages"
  shows "group_ok wf_ok g (snd (begin_workflow v g stages S))"
  using assms by (simp add: begin_workflow_def Let_def wf_ok_def)


section \<open>Gates\<close>

text \<open>What a report does at a gated single stage: nothing, a pause, or a gate.\<close>

lemma current_ctx_gate [simp]: "current_ctx g (w\<lparr>w_gate := p\<rparr>) = current_ctx g w"
  by (simp add: current_ctx_def ctx_at_def stage_at_def)

lemma current_ctx_group: "current_ctx g w = Some x \<Longrightarrow> x_group x = g"
  by (auto simp: current_ctx_def ctx_at_def)

lemma gated_observe:
  assumes "S g = Some w" "current_ctx g w = Some x"
    and "handler (x_stage x) = SingleType" "s_gate (x_stage x)"
  shows "\<exists>p. snd (observe v g who response sigs S) = S(g \<mapsto> w\<lparr>w_gate := p\<rparr>)"
proof -
  have "S = S(g \<mapsto> w\<lparr>w_gate := w_gate w\<rparr>)" using assms(1) by (simp add: fun_upd_idem)
  then have same: "\<exists>p. S = S(g \<mapsto> w\<lparr>w_gate := p\<rparr>)" by blast
  have gate: "\<exists>p. snd (raise_gate v x r t a S) = S(g \<mapsto> w\<lparr>w_gate := p\<rparr>)" for r t a
    using assms(1) current_ctx_group [OF assms(2)] by (auto simp: raise_gate_def Let_def)
  have type: "s_type (x_stage x) \<noteq> PoolType" using assms(3) by (auto simp: handler_def)
  have "observe_signals v x who response ss w S = Some d \<Longrightarrow> \<exists>p. snd d = S(g \<mapsto> w\<lparr>w_gate := p\<rparr>)" for ss d
    using gate type assms(4) by (induction ss) (auto split: if_splits option.splits)
  moreover have "\<exists>p. snd (observe_stage v x who response S) = S(g \<mapsto> w\<lparr>w_gate := p\<rparr>)"
    using gate same assms(3,4) by (simp add: observe_stage_def observe_single_def Let_def)
  ultimately show ?thesis
    using assms(1,2) same by (cases sigs) (fastforce simp: observe_def split: option.split)+
qed

definition by_bot :: "wf_input \<Rightarrow> bool" where
  "by_bot i \<longleftrightarrow> (case i of RunEnded v who response sigs \<Rightarrow> True | _ \<Rightarrow> False)"

text \<open>
  C16. A gated stage is left only by a human. Whatever bots report at a gated single stage, in any
  number of runs, with any text and any signals, the workflow is still there, at the same stage
  and with the same stages; all a report can do is raise a gate, or replace the pending one.
\<close>

theorem gate_waits_for_human:
  assumes "S g = Some w" "current_ctx g w = Some x"
    and "handler (x_stage x) = SingleType" "s_gate (x_stage x)"
    and "\<forall>i \<in> set evs. by_bot i"
  shows "\<exists>p. run evs g S = S(g \<mapsto> w\<lparr>w_gate := p\<rparr>)"
proof -
  have "\<exists>p. run evs g (S(g \<mapsto> w\<lparr>w_gate := q\<rparr>)) = S(g \<mapsto> w\<lparr>w_gate := p\<rparr>)" for q
    using assms(5)
  proof (induction evs arbitrary: q)
    case (Cons i evs)
    then obtain v who response sigs where i: "i = RunEnded v who response sigs"
      by (auto simp: by_bot_def split: wf_input.splits)
    let ?S = "S(g \<mapsto> w\<lparr>w_gate := q\<rparr>)"
    have up: "?S g = Some (w\<lparr>w_gate := q\<rparr>)" by simp
    have ctx: "current_ctx g (w\<lparr>w_gate := q\<rparr>) = Some x" using assms(2) by simp
    from gated_observe [where S = ?S and g = g and w = "w\<lparr>w_gate := q\<rparr>", OF up ctx assms(3,4)]
    obtain p where p: "snd (observe v g who response sigs ?S) = S(g \<mapsto> w\<lparr>w_gate := p\<rparr>)"
      by (metis fun_upd_upd workflow.update_convs(4) workflow.surjective)
    from Cons.prems have "\<forall>i \<in> set evs. by_bot i" by simp
    from Cons.IH [OF this, of p] show ?case
      unfolding i run_simps wf_decides_def wf_input.case p .
  qed auto
  moreover have "S(g \<mapsto> w\<lparr>w_gate := w_gate w\<rparr>) = S" using assms(1) by (simp add: fun_upd_idem)
  ultimately show ?thesis by metis
qed

text \<open>Ids of gates name the group, the stage and the kind of the gate.\<close>

lemma digits_no_dash: "CHR ''-'' \<notin> set (digits_of k n)"
  using digits_of_chars [of "CHR ''-''" k n] by auto

lemma int_text_cases: "\<exists>sg ds. py_str_int i = sg @ ds \<and> (sg = [] \<or> sg = ''-'') \<and> CHR ''-'' \<notin> set ds \<and> ds \<noteq> []"
proof -
  have ne: "digits_of (n + 1) n \<noteq> []" for n by simp
  show ?thesis
    unfolding py_str_int_def using digits_no_dash ne
    by (cases "i < 0") (metis append_Cons append_Nil, metis append_Nil)
qed

lemma dash_split:
  assumes "sg @ ds @ ''-'' @ r = sg' @ ds' @ ''-'' @ r'" "sg = [] \<or> sg = ''-''" "sg' = [] \<or> sg' = ''-''"
    and "CHR ''-'' \<notin> set ds" "CHR ''-'' \<notin> set ds'" "ds \<noteq> []" "ds' \<noteq> []"
  shows "sg @ ds = sg' @ ds' \<and> r = r'"
proof -
  have tw: "takeWhile (\<lambda>c. c \<noteq> CHR ''-'') (d @ CHR ''-'' # t) = d \<and> dropWhile (\<lambda>c. c \<noteq> CHR ''-'') (d @ CHR ''-'' # t) = CHR ''-'' # t"
    if "CHR ''-'' \<notin> set d" for d t
    using that by (induction d) auto
  have "sg = sg'" using assms by (cases ds; cases ds') auto
  with assms(1) have "ds @ CHR ''-'' # r = ds' @ CHR ''-'' # r'" by auto
  with tw [OF assms(4), of r] tw [OF assms(5), of r'] \<open>sg = sg'\<close> show ?thesis by (metis list.inject)
qed

lemma gate_id_inj:
  assumes "gate_id_of g i b = gate_id_of h j c"
  shows "g = h \<and> i = j \<and> b = c"
proof -
  obtain sg ds sg' ds' where gh: "py_str_int g = sg @ ds" "sg = [] \<or> sg = ''-''" "CHR ''-'' \<notin> set ds" "ds \<noteq> []"
    "py_str_int h = sg' @ ds'" "sg' = [] \<or> sg' = ''-''" "CHR ''-'' \<notin> set ds'" "ds' \<noteq> []"
    using int_text_cases [of g] int_text_cases [of h] by blast
  let ?t = "\<lambda>b::bool. if b then ''-rework'' else ''''"
  have "sg @ ds @ ''-'' @ py_str_int i @ ?t b = sg' @ ds' @ ''-'' @ py_str_int j @ ?t c"
    using assms gh(1,5) by (simp add: gate_id_of_def)
  from dash_split [OF this gh(2,6,3,7,4,8)] have "py_str_int g = py_str_int h" "py_str_int i @ ?t b = py_str_int j @ ?t c"
    using gh(1,5) by simp_all
  moreover obtain s1 d1 s2 d2 where ij: "py_str_int i = s1 @ d1" "s1 = [] \<or> s1 = ''-''" "CHR ''-'' \<notin> set d1" "d1 \<noteq> []"
    "py_str_int j = s2 @ d2" "s2 = [] \<or> s2 = ''-''" "CHR ''-'' \<notin> set d2" "d2 \<noteq> []"
    using int_text_cases [of i] int_text_cases [of j] by blast
  ultimately have e: "s1 @ d1 @ ?t b @ ''-'' = s2 @ d2 @ ?t c @ ''-''" by (metis append.assoc)
  have "s1 @ d1 = s2 @ d2 \<and> b = c"
  proof (cases b; cases c)
    assume "b" "c"
    with e have "s1 @ d1 @ ''-'' @ ''rework-'' = s2 @ d2 @ ''-'' @ ''rework-''" by simp
    from dash_split [OF this ij(2,6,3,7,4,8)] \<open>b\<close> \<open>c\<close> show ?thesis by simp
  next
    assume "b" "\<not> c"
    with e have "s1 @ d1 @ ''-'' @ ''rework-'' = s2 @ d2 @ ''-'' @ ''''" by simp
    from dash_split [OF this ij(2,6,3,7,4,8)] show ?thesis by simp
  next
    assume "\<not> b" "c"
    with e have "s1 @ d1 @ ''-'' @ '''' = s2 @ d2 @ ''-'' @ ''rework-''" by simp
    from dash_split [OF this ij(2,6,3,7,4,8)] show ?thesis by simp
  next
    assume "\<not> b" "\<not> c"
    with e have "s1 @ d1 @ ''-'' @ '''' = s2 @ d2 @ ''-'' @ ''''" by simp
    from dash_split [OF this ij(2,6,3,7,4,8)] \<open>\<not> b\<close> \<open>\<not> c\<close> show ?thesis by simp
  qed
  with \<open>py_str_int g = py_str_int h\<close> ij(1,5) py_str_int_inj show ?thesis by metis
qed

text \<open>The pending gate carries the id of the current stage, in every reachable state.\<close>

definition gate_current :: "int \<Rightarrow> workflow \<Rightarrow> bool" where
  "gate_current g w \<longleftrightarrow>
     (case w_gate w of None \<Rightarrow> True | Some p \<Rightarrow> gt_id p = gate_id_of g (w_current w) (gt_rework p \<noteq> None))"

definition gate_kept :: "int \<Rightarrow> workflows \<Rightarrow> workflows \<Rightarrow> bool" where
  "gate_kept g S T \<longleftrightarrow> (group_ok (gate_current g) g S \<longrightarrow> group_ok (gate_current g) g T)"

lemma gate_current_put [simp]: "gate_current g (put_stage i st w) \<longleftrightarrow> gate_current g w"
  by (simp add: gate_current_def split: option.split)

lemma gate_current_None [simp]: "w_gate w = None \<Longrightarrow> gate_current g w"
  by (simp add: gate_current_def)

lemma gate_kept_same: "gate_kept g S S"
  by (simp add: gate_kept_def)

lemma enter_current_shape: "\<exists>st. snd (enter_current v g prev w) = put_stage (w_current w) st w \<or> snd (enter_current v g prev w) = w"
  by (auto simp: enter_current_def split: option.split prod.split)

lemma entered_gateless: "w_gate w = None \<Longrightarrow> gate_current g (snd (enter_current v g prev w))"
  using enter_current_shape [of v g prev w] by auto

lemma gateless_advance: "group_ok (gate_current g) g (snd (advance_stage v g prev src a S))"
proof (cases "S g")
  case (Some w)
  then show ?thesis
    using entered_gateless [of "w\<lparr>w_gate := None, w_current := w_current w + 1\<rparr>" g v prev]
    by (auto simp: advance_stage_def Let_def end_group_def split: prod.split sum.split)
qed (simp add: advance_stage_def)

lemma gateless_moves:
  "group_ok (gate_current g) g (snd (rewind v g i prev remark a S))"
  "group_ok (gate_current g) g (snd (redo v g prev remark a S))"
proof -
  show "group_ok (gate_current g) g (snd (rewind v g i prev remark a S))"
  proof (cases "S g")
    case (Some w)
    then show ?thesis
      using entered_gateless [of "w\<lparr>w_gate := None, w_current := i\<rparr>" g v prev]
      by (auto simp: rewind_def Let_def split: prod.split sum.split)
  qed (simp add: rewind_def)
  show "group_ok (gate_current g) g (snd (redo v g prev remark a S))"
  proof (cases "S g")
    case (Some w)
    then show ?thesis
      using entered_gateless [of "w\<lparr>w_gate := None\<rparr>" g v prev]
      by (auto simp: redo_def Let_def split: prod.split sum.split)
  qed (simp add: redo_def)
qed

lemma gate_kept_raise: "x_group x = g \<Longrightarrow> gate_kept g S (snd (raise_gate v x r t a S))"
  by (auto simp: raise_gate_def Let_def gate_kept_def gate_current_def split: option.split)

lemma gate_kept_write: "x_group x = g \<Longrightarrow> gate_kept g S (write_stage x st S)"
  by (auto simp: gate_kept_def write_stage_def group_ok_def split: option.splits)

lemma gate_kept_advance: "gate_kept g S (snd (advance_stage v g prev src a T))"
  by (simp add: gate_kept_def gateless_advance)

lemma gate_kept_merge: "gate_kept g S (snd d) \<Longrightarrow> gate_kept g S (snd (merge_advance c st d))"
  by (simp add: merge_advance_def)

lemmas gate_kept_intros = gate_kept_same gate_kept_raise gate_kept_write gate_kept_advance gate_kept_merge

lemma gate_kept_stage:
  assumes "x_group x = g"
  shows "gate_kept g S (snd (observe_stage v x who response S))"
proof (cases "handler (x_stage x)")
  case SingleType
  with assms show ?thesis by (simp add: observe_stage_def observe_single_def Let_def gate_kept_intros)
next
  case PoolType
  with assms show ?thesis
    by (auto simp: observe_stage_def observe_pool_def Let_def intro!: gate_kept_intros split: option.split list.split)
next
  case DiscussionType
  with assms show ?thesis
    by (auto simp: observe_stage_def observe_discussion_def Let_def intro!: gate_kept_intros)
next
  case VerificationType
  have finish: "gate_kept g S T \<Longrightarrow> x_group y = g \<Longrightarrow> gate_kept g S (snd (finish_vote v y T))" for y T
    by (auto simp: finish_vote_def Let_def intro!: gate_kept_intros split: list.split)
  have "gate_kept g S (snd (observe_vote v x who response S))"
    unfolding observe_vote_def Let_def using assms
    by (simp add: gate_kept_intros finish)
  moreover have "gate_kept g S (snd (observe_propose v x who response S))"
    using assms by (auto simp: observe_propose_def Let_def intro!: gate_kept_intros split: list.split)
  ultimately show ?thesis using VerificationType by (simp add: observe_stage_def)
qed simp

lemma gate_kept_signals:
  "x_group x = g \<Longrightarrow> observe_signals v x who response ss w S = Some d \<Longrightarrow> gate_kept g S (snd d)"
  by (induction ss) (auto intro!: gate_kept_intros gate_kept_stage split: if_splits option.splits)

lemma gate_kept_decides: "gate_kept g S (snd (wf_decides i g S))"
proof (cases i)
  case (RunEnded v who response sigs)
  have "gate_kept g S (snd (observe v g who response sigs S))"
  proof (cases "\<exists>w x. S g = Some w \<and> current_ctx g w = Some x")
    case True
    then obtain w x where x: "S g = Some w" "current_ctx g w = Some x" by blast
    note xg = current_ctx_group [OF x(2)]
    show ?thesis
    proof (cases "case sigs of None \<Rightarrow> None | Some ss \<Rightarrow> observe_signals v x who response ss w S")
      case None
      with x gate_kept_stage [OF xg] show ?thesis by (simp add: observe_def gate_kept_same)
    next
      case (Some d)
      then obtain ss where "observe_signals v x who response ss w S = Some d" by (cases sigs) simp_all
      then have "gate_kept g S (snd d)" by (rule gate_kept_signals [OF xg])
      with Some x show ?thesis by (simp add: observe_def)
    qed
  qed (auto simp: observe_def gate_kept_same split: option.split)
  with RunEnded show ?thesis by (simp add: wf_decides_def)
next
  case (Answered v gid remark revise)
  have "gate_kept g S (snd (confirm v g gid remark revise S))"
    using gateless_moves gateless_advance
    by (auto simp: confirm_def Let_def add_first_def gate_kept_def split: option.splits)
  with Answered show ?thesis by (simp add: wf_decides_def)
next
  case (NextStage v prev)
  then show ?thesis by (simp add: wf_decides_def advance_def gate_kept_advance)
qed

lemma gate_kept_run: "gate_kept g S (run evs g S)"
proof (induction evs arbitrary: S)
  case (Cons i evs)
  from Cons [of "snd (wf_decides i g S)"] gate_kept_decides [of g S i] show ?case by (auto simp: gate_kept_def)
qed (simp add: gate_kept_same)

text \<open>
  A human's answer takes effect only on the gate it was given for: at any moment of any run,
  an answer that carries the id of another group, of another stage than the current one, or of
  the other kind of gate (rework or completion) changes nothing and returns the empty step.
\<close>

theorem late_answers_are_ignored:
  assumes "S' = run evs g (snd (begin_workflow v0 g stages S))"
    and "\<And>w p. S' g = Some w \<Longrightarrow> w_gate w = Some p \<Longrightarrow> (h, k, b) \<noteq> (g, w_current w, gt_rework p \<noteq> None)"
  shows "confirm v g (Some (gate_id_of h k b)) remark revise S' = (Inr empty_step, S')"
proof -
  have "group_ok (gate_current g) g (snd (begin_workflow v0 g stages S))"
    by (simp add: begin_workflow_def Let_def gate_current_def)
  with gate_kept_run [of g _ evs] have ok: "group_ok (gate_current g) g S'"
    unfolding assms(1) gate_kept_def by blast
  show ?thesis
  proof (cases "S' g")
    case (Some w)
    show ?thesis
    proof (cases "w_gate w")
      case (Some p)
      from group_okD [where g = g, OF ok \<open>S' g = Some w\<close>] Some
      have id: "gt_id p = gate_id_of g (w_current w) (gt_rework p \<noteq> None)" by (simp add: gate_current_def)
      have "gate_id_of h k b \<noteq> gt_id p"
      proof
        assume "gate_id_of h k b = gt_id p"
        from gate_id_inj [OF this [unfolded id]] assms(2) [OF \<open>S' g = Some w\<close> Some] show False by blast
      qed
      with \<open>S' g = Some w\<close> Some show ?thesis by (simp add: confirm_def)
    qed (simp add: confirm_def \<open>S' g = Some w\<close>)
  qed (simp add: confirm_def)
qed

section \<open>Pools\<close>

text \<open>The tickets of a pool, and how many of them are not finished.\<close>

definition pool_tickets :: "stage \<Rightarrow> utext multiset" where
  "pool_tickets st = mset (s_completed st) + mset (map snd (s_in_progress st)) + mset (s_queue st)"

definition tickets_left :: "stage \<Rightarrow> nat" where
  "tickets_left st = length (s_in_progress st) + length (s_queue st)"

lemma assign_tickets:
  assumes "env_ok v" "assign v bots ts = (ps, q)"
  shows "mset (map snd ps) + mset q = mset ts" "mset (map fst ps) \<subseteq># mset bots" "q \<noteq> [] \<longrightarrow> length ps = length bots"
proof -
  have skill: "mset (map snd ps) + mset us = mset ts \<and> mset (map fst ps) + mset a = mset avail"
    if "claim_by_skill v avail ts = (a, ps, us)" for avail ts a ps us
    using that
  proof (induction v avail ts arbitrary: a ps us rule: claim_by_skill.induct)
    case (2 v avail t ts)
    show ?case
    proof (cases "best_bot (\<lambda>b. expertise_score v b t) avail")
      case None
      obtain a' ps' us' where r: "claim_by_skill v avail ts = (a', ps', us')" by (cases "claim_by_skill v avail ts")
      from 2(1) [OF None r] 2(3) show ?thesis by (auto simp: None r)
    next
      case (Some b)
      obtain a' ps' us' where r: "claim_by_skill v (remove1 b avail) ts = (a', ps', us')"
        by (cases "claim_by_skill v (remove1 b avail) ts")
      have "fst (foldl (\<lambda>(best, n) b. if n < sc b then (Some b, sc b) else (best, n)) (o', k) bs) = Some b \<Longrightarrow>
          b \<in> set bs \<or> o' = Some b" for sc :: "bot \<Rightarrow> nat" and o' k bs
        by (induction bs arbitrary: o' k) (auto split: if_splits)
      from this [of _ None 0 avail] Some have "b \<in># mset avail" by (simp add: best_bot_def)
      with 2(2) [OF Some r] 2(3) show ?thesis by (auto simp: Some r add.commute)
    qed
  qed simp
  have rest: "mset (map snd ps) + mset q = mset ts \<and> mset (map fst ps) \<subseteq># mset avail \<and> (q \<noteq> [] \<longrightarrow> length ps = length avail)"
    if "claim_rest avail ts = (ps, q)" for avail ts ps q
    using that
  proof (induction avail ts arbitrary: ps q rule: claim_rest.induct)
    case (3 b bs t ts)
    obtain ps' q' where r: "claim_rest bs ts = (ps', q')" by (cases "claim_rest bs ts")
    from 3(1) [OF r] 3(2) show ?case by (auto simp: r)
  qed auto
  obtain a p1 us where c: "claim_by_skill v bots ts = (a, p1, us)" by (cases "claim_by_skill v bots ts")
  obtain p2 q2 where r: "claim_rest (e_shuffle v a) us = (p2, q2)" by (cases "claim_rest (e_shuffle v a) us")
  have m: "mset (e_shuffle v a) = mset a" using assms(1) by (simp add: env_ok_def)
  then have len: "length (e_shuffle v a) = length a" by (rule mset_eq_length)
  have ps: "ps = p1 @ p2" "q = q2" using assms(2) by (simp_all add: assign_def c r)
  have sum: "mset (map snd p1) + mset us = mset ts" "mset (map snd p2) + mset q2 = mset us"
    using skill [OF c] rest [OF r] by simp_all
  show "mset (map snd ps) + mset q = mset ts" unfolding sum [symmetric] by (simp add: ps)
  show "mset (map fst ps) \<subseteq># mset bots"
    using skill [OF c] rest [OF r] m by (metis map_append mset_append ps(1) subset_mset.add_left_mono)
  have "length p1 + length a = length bots"
    using skill [OF c] by (metis length_append length_map mset_append mset_eq_length)
  then show "q \<noteq> [] \<longrightarrow> length ps = length bots" using rest [OF r] by (simp add: ps len)
qed

lemma dict_of_distinct: "distinct (map fst xs) \<Longrightarrow> dict_of xs = xs"
proof -
  have "distinct (map fst (acc @ xs)) \<Longrightarrow> foldl (\<lambda>d (k, v). dict_set k v d) acc xs = acc @ xs" for acc
  proof (induction xs arbitrary: acc)
    case (Cons e xs)
    obtain k y where e: "e = (k, y)" by (cases e)
    have "k \<notin> fst ` set acc" using Cons.prems by (auto simp: e)
    then have "dict_set k y acc = acc @ [(k, y)]" by (induction acc) auto
    with Cons.IH [of "acc @ [(k, y)]"] Cons.prems show ?case by (simp add: e)
  qed simp
  from this [of "[]"] show "distinct (map fst xs) \<Longrightarrow> dict_of xs = xs" by (simp add: dict_of_def)
qed

text \<open>Entering a pool distributes the tickets of the previous output: each of them once.\<close>

lemma enter_pool_tickets:
  assumes "env_ok v" "distinct (map b_id (s_bots (x_stage x)))"
    and "enter_pool v x prev = (r, st)"
  shows "pool_tickets st = mset (parse_tickets prev)" "s_completed st = []"
    "s_queue st \<noteq> [] \<longrightarrow> length (s_in_progress st) = length (s_bots st)"
proof -
  obtain ps q where a: "assign v (s_bots (x_stage x)) (parse_tickets prev) = (ps, q)"
    by (cases "assign v (s_bots (x_stage x)) (parse_tickets prev)")
  note t = assign_tickets [OF assms(1) a]
  have "distinct (map b_id (map fst ps))"
  proof -
    have "mset (map b_id (map fst ps)) \<subseteq># mset (map b_id (s_bots (x_stage x)))"
      using image_mset_subseteq_mono [OF t(2), of b_id] by (simp only: mset_map)
    then obtain zs where "mset (map b_id (s_bots (x_stage x))) = mset (map b_id (map fst ps) @ zs)"
      by (metis mset_append mset_subset_eq_exists_conv ex_mset)
    from mset_eq_imp_distinct_iff [OF this] assms(2) show ?thesis by simp
  qed
  then have "distinct (map fst (map (\<lambda>(b, t). (IntKey (b_id b), t)) ps))"
    by (induction ps) (auto simp: image_iff)
  note d = dict_of_distinct [OF this]
  have st: "st = (x_stage x)\<lparr>s_queue := q, s_in_progress := map (\<lambda>(b, t). (IntKey (b_id b), t)) ps, s_completed := [], s_idle := []\<rparr>"
    using assms(3) by (simp add: enter_pool_def Let_def a d)
  have "snd \<circ> (\<lambda>(b, t). (IntKey (b_id b), t)) = (snd :: bot \<times> utext \<Rightarrow> utext)" by auto
  with t(1,3) show "pool_tickets st = mset (parse_tickets prev)" "s_completed st = []"
    "s_queue st \<noteq> [] \<longrightarrow> length (s_in_progress st) = length (s_bots st)"
    by (simp_all add: st pool_tickets_def)
qed

definition keyword_works :: "env \<Rightarrow> stage \<Rightarrow> bool" where
  "keyword_works v st \<longleftrightarrow> signal_in v (NL # keyword_of st @ [NL]) (get_default (s_done_keyword st) [])"

text \<open>One bot with a ticket reports completion: one ticket fewer, or the pool is left.\<close>

definition working :: "stage \<Rightarrow> wf_input \<Rightarrow> bool" where
  "working st i \<longleftrightarrow>
     (\<exists>v who response sig sigs. i = RunEnded v who response (Some (sig # sigs)) \<and> env_ok v \<and>
        sg_name sig = SIGNAL_STAGE_DONE \<and> keyword_works v st \<and> IntKey who \<in> fst ` set (s_in_progress st))"

lemma dict_del_split:
  assumes "int_dict d" "map_of d k = Some t"
  shows "mset (map snd d) = add_mset t (mset (map snd (dict_del k d)))" "length d = Suc (length (dict_del k d))"
proof -
  have "distinct (map fst d) \<Longrightarrow> map_of d k = Some t \<Longrightarrow> mset d = add_mset (k, t) (mset (dict_del k d))"
  proof (induction d)
    case (Cons e d)
    show ?case
    proof (cases "fst e = k")
      case True
      then have "\<forall>p \<in> set d. fst p \<noteq> k" using Cons.prems(1) by (metis distinct.simps(2) image_eqI list.simps(9) set_map)
      then have "filter (\<lambda>p. fst p \<noteq> k) d = d" by simp
      with True Cons.prems(2) show ?thesis by (cases e) (simp add: dict_del_def)
    next
      case False
      with Cons show ?thesis by (cases e) (simp add: dict_del_def)
    qed
  qed simp
  with assms have m: "mset d = add_mset (k, t) (mset (dict_del k d))" by (simp add: int_dict_def)
  then show "mset (map snd d) = add_mset t (mset (map snd (dict_del k d)))" by (simp add: mset_map)
  from m show "length d = Suc (length (dict_del k d))" by (metis size_add_mset size_mset)
qed

lemma dict_set_new: "k \<notin> fst ` set d \<Longrightarrow> dict_set k t d = d @ [(k, t)]"
  by (induction d) auto

lemma pool_step:
  assumes "S g = Some w" "wf_ok w" "current_ctx g w = Some x" "s_type (x_stage x) = PoolType"
    and "working (x_stage x) i"
  obtains (goes_on) st where "snd (wf_decides i g S) = S(g \<mapsto> put_stage (w_current w) st w)" "s_type st = PoolType"
      "tickets_left (x_stage x) = Suc (tickets_left st)" "pool_tickets st = pool_tickets (x_stage x)"
      "s_in_progress st \<noteq> []" "s_done_keyword st = s_done_keyword (x_stage x)"
  | (left) t where "tickets_left (x_stage x) = 1" "add_mset t (mset (s_completed (x_stage x))) = pool_tickets (x_stage x)"
      "case snd (wf_decides i g S) g of None \<Rightarrow> True | Some w' \<Rightarrow> w_current w' = w_current w + 1"
proof -
  let ?st = "x_stage x"
  from assms(5) obtain v who response sig sigs where i: "i = RunEnded v who response (Some (sig # sigs))"
    "env_ok v" "sg_name sig = SIGNAL_STAGE_DONE" "keyword_works v ?st" "IntKey who \<in> fst ` set (s_in_progress ?st)"
    unfolding working_def by blast
  from i(5) obtain t where t: "map_of (s_in_progress ?st) (IntKey who) = Some t"
    by (cases "map_of (s_in_progress ?st) (IntKey who)") (auto simp: map_of_eq_None_iff)
  note x = current_ctxD [OF assms(2,3)]
  have h: "handler ?st = PoolType" using assms(4) by (simp add: handler_def)
  have d: "int_dict (s_in_progress ?st)" using x(4) by (simp add: stage_ok_def)
  note split = dict_del_split [OF d t]
  have keys: "IntKey who \<notin> fst ` set (dict_del (IntKey who) (s_in_progress ?st))"
    using keys_dict_del [of "IntKey who" "s_in_progress ?st"] by auto
  have dec: "wf_decides i g S = observe_pool v x who (NL # keyword_of ?st @ [NL]) S"
    using assms(1,3,4) i(1,3) h by (simp add: wf_decides_def observe_def observe_stage_def SIGNAL_STAGE_DONE_def SIGNAL_REWORK_def)
  note wr = write_stage_eq [where S = S and g = g and w = w, OF assms(1-3)]
  have sg: "signal_in v (NL # keyword_of ?st @ [NL]) (get_default (s_done_keyword ?st) [])"
    using i(4) by (simp add: keyword_works_def)
  let ?st1 = "?st\<lparr>s_in_progress := dict_del (IntKey who) (s_in_progress ?st), s_completed := s_completed ?st @ [t]\<rparr>"
  show thesis
  proof (cases "s_queue ?st")
    case (Cons u q)
    let ?st2 = "?st1\<lparr>s_queue := q, s_in_progress := dict_set (IntKey who) u (s_in_progress ?st1)\<rparr>"
    have "snd (wf_decides i g S) = S(g \<mapsto> put_stage (w_current w) ?st2 w)"
      unfolding dec using Cons t sg wr by (simp add: observe_pool_def Let_def)
    moreover have "pool_tickets ?st2 = pool_tickets ?st" "tickets_left ?st = Suc (tickets_left ?st2)" "s_in_progress ?st2 \<noteq> []"
      using split Cons keys by (simp_all add: pool_tickets_def tickets_left_def dict_set_new)
    ultimately show ?thesis using goes_on [of ?st2] assms(4) by simp
  next
    case Nil
    let ?st2 = "?st1\<lparr>s_idle := s_idle ?st @ [who]\<rparr>"
    show ?thesis
    proof (cases "dict_del (IntKey who) (s_in_progress ?st) = []")
      case False
      then have "snd (wf_decides i g S) = S(g \<mapsto> put_stage (w_current w) ?st2 w)"
        unfolding dec using Nil t sg wr by (simp add: observe_pool_def Let_def)
      moreover have "pool_tickets ?st2 = pool_tickets ?st" "tickets_left ?st = Suc (tickets_left ?st2)" "s_in_progress ?st2 \<noteq> []"
        using split Nil False by (simp_all add: pool_tickets_def tickets_left_def)
      ultimately show ?thesis using goes_on [of ?st2] assms(4) by simp
    next
      case True
      have st2: "stage_ok (length (w_stages w)) ?st2"
        using x(4) h True by (simp add: stage_ok_def)
      let ?w = "put_stage (w_current w) ?st2 w"
      have ok: "wf_ok ?w" by (rule wf_ok_put [OF assms(2) st2])
      have dec2: "snd (wf_decides i g S) = snd (advance_stage v g (NL # keyword_of ?st @ [NL]) ''manual_advance'' SystemActor (S(g \<mapsto> ?w)))"
        unfolding dec using Nil t sg wr True x(1) by (simp add: observe_pool_def Let_def merge_advance_def)
      have up: "(S(g \<mapsto> ?w)) g = Some ?w" by simp
      have "case snd (wf_decides i g S) g of None \<Rightarrow> True | Some w' \<Rightarrow> w_current w' = w_current w + 1"
        unfolding dec2
        by (rule advance_stage_cases [where S = "S(g \<mapsto> ?w)" and g = g and w = ?w and prev = "NL # keyword_of ?st @ [NL]"
              and src = "''manual_advance''" and a = SystemActor, OF i(2) up ok]) simp_all
      then show ?thesis
        using left [of t] split True Nil by (simp add: pool_tickets_def tickets_left_def)
    qed
  qed
qed

text \<open>Steps of a pool under a scheduler, which names the next bot to report.\<close>

definition stage_now :: "int \<Rightarrow> workflows \<Rightarrow> stage option" where
  "stage_now g S = map_option x_stage (group_ctx g S)"

fun scheduled :: "(stage \<Rightarrow> wf_input) \<Rightarrow> nat \<Rightarrow> int \<Rightarrow> workflows \<Rightarrow> workflows" where
  "scheduled pick 0 g S = S"
| "scheduled pick (Suc n) g S =
     (case stage_now g S of None \<Rightarrow> S | Some st \<Rightarrow> scheduled pick n g (snd (wf_decides (pick st) g S)))"

definition at_index :: "int \<Rightarrow> int \<Rightarrow> workflows \<Rightarrow> bool" where
  "at_index g i S \<longleftrightarrow> (case S g of None \<Rightarrow> False | Some w \<Rightarrow> w_current w = i)"

lemma pool_rounds:
  assumes "S g = Some w" "wf_ok w" "current_ctx g w = Some x" "s_type (x_stage x) = PoolType"
    and "s_in_progress (x_stage x) \<noteq> []"
    and "\<And>st. s_in_progress st \<noteq> [] \<Longrightarrow> int_dict (s_in_progress st) \<Longrightarrow> s_type st = PoolType \<Longrightarrow> s_done_keyword st = kw \<Longrightarrow>
           working st (pick st)"
    and "s_done_keyword (x_stage x) = kw" "m \<le> tickets_left (x_stage x)"
  shows "(m < tickets_left (x_stage x) \<longrightarrow>
            (\<exists>st. stage_now g (scheduled pick m g S) = Some st \<and> pool_tickets st = pool_tickets (x_stage x) \<and>
               tickets_left st = tickets_left (x_stage x) - m) \<and> at_index g (w_current w) (scheduled pick m g S)) \<and>
         (m = tickets_left (x_stage x) \<longrightarrow>
            scheduled pick m g S g = None \<or> at_index g (w_current w + 1) (scheduled pick m g S))"
  using assms(1-5,7,8)
proof (induction m arbitrary: S w x)
  case 0
  then have "stage_now g S = Some (x_stage x)" by (simp add: stage_now_def group_ctx_def)
  with 0 show ?case by (auto simp: at_index_def tickets_left_def)
next
  case (Suc m)
  let ?i = "pick (x_stage x)"
  have now: "stage_now g S = Some (x_stage x)" using Suc.prems by (simp add: stage_now_def group_ctx_def)
  have "int_dict (s_in_progress (x_stage x))" using current_ctxD(4) [OF Suc.prems(2,3)] by (simp add: stage_ok_def)
  then have work: "working (x_stage x) ?i" using assms(6) Suc.prems by blast
  show ?case
  proof (rule pool_step [where S = S and g = g and w = w, OF Suc.prems(1-4) work])
    fix st assume st: "snd (wf_decides ?i g S) = S(g \<mapsto> put_stage (w_current w) st w)" "s_type st = PoolType"
      "tickets_left (x_stage x) = Suc (tickets_left st)" "pool_tickets st = pool_tickets (x_stage x)"
      "s_in_progress st \<noteq> []" "s_done_keyword st = s_done_keyword (x_stage x)"
    let ?w = "put_stage (w_current w) st w"
    define T where "T = snd (wf_decides ?i g S)"
    have env: "env_ok (input_env ?i)" using work by (auto simp: working_def input_env_def)
    have "group_ok wf_ok g S" using Suc.prems(1,2) by (simp add: group_ok_def)
    from wf_orch.keeps [OF env this] st(1) have ok: "wf_ok ?w" by simp
    from Suc.prems(2) have "0 \<le> w_current w" "w_current w < int (length (w_stages w))" by (simp_all add: wf_ok_def)
    then have ctx: "current_ctx g ?w = Some (x\<lparr>x_stage := st\<rparr>)"
      using Suc.prems(3) by (auto simp: current_ctx_def ctx_at_def stage_at_def put_stage_def)
    have up: "T g = Some ?w" using st(1) by (simp add: T_def)
    have kw: "s_done_keyword st = kw" using st(6) Suc.prems(6) by simp
    have le: "m \<le> tickets_left st" using Suc.prems(7) st(3) by simp
    have IH: "(m < tickets_left st \<longrightarrow>
            (\<exists>st'. stage_now g (scheduled pick m g T) = Some st' \<and> pool_tickets st' = pool_tickets st \<and>
               tickets_left st' = tickets_left st - m) \<and> at_index g (w_current w) (scheduled pick m g T)) \<and>
         (m = tickets_left st \<longrightarrow>
            scheduled pick m g T g = None \<or> at_index g (w_current w + 1) (scheduled pick m g T))"
      using Suc.IH [where S = T and w = ?w and x = "x\<lparr>x_stage := st\<rparr>", OF up ok ctx] st(2,5) kw le by simp
    have step: "scheduled pick (Suc m) g S = scheduled pick m g T" by (simp add: now T_def)
    from IH show ?thesis unfolding step st(3,4) [symmetric] by (simp add: st(3,4))
  next
    fix t assume t: "tickets_left (x_stage x) = 1"
      "case snd (wf_decides ?i g S) g of None \<Rightarrow> True | Some w' \<Rightarrow> w_current w' = w_current w + 1"
    with Suc.prems(7) have "m = 0" by simp
    with t now show ?thesis by (simp add: at_index_def split: option.splits)
  qed
qed

text \<open>
  C17. A pool terminates: whichever working bot reports next, a pool with \<open>n\<close> unfinished tickets is
  left with the \<open>n\<close>-th completion report, not earlier and not later. Until then the workflow
  stays at the pool and the tickets that are finished, in progress and queued are together
  exactly those that were handed out; so no ticket is lost, and none is done twice.
\<close>

theorem pool_terminates:
  assumes "S g = Some w" "wf_ok w" "current_ctx g w = Some x" "s_type (x_stage x) = PoolType"
    and "s_in_progress (x_stage x) \<noteq> []"
    and "\<And>st. s_in_progress st \<noteq> [] \<Longrightarrow> int_dict (s_in_progress st) \<Longrightarrow> s_type st = PoolType \<Longrightarrow>
           s_done_keyword st = s_done_keyword (x_stage x) \<Longrightarrow> working st (pick st)"
    and "n = length (s_in_progress (x_stage x)) + length (s_queue (x_stage x))"
  shows "(\<forall>m < n. \<exists>st. stage_now g (scheduled pick m g S) = Some st \<and> at_index g (w_current w) (scheduled pick m g S) \<and>
            mset (s_completed st) + mset (map snd (s_in_progress st)) + mset (s_queue st) =
              mset (s_completed (x_stage x)) + mset (map snd (s_in_progress (x_stage x))) + mset (s_queue (x_stage x)) \<and>
            length (s_in_progress st) + length (s_queue st) = n - m) \<and>
         (scheduled pick n g S g = None \<or> at_index g (w_current w + 1) (scheduled pick n g S))"
proof -
  note r = pool_rounds [where S = S and g = g and w = w and pick = pick, OF assms(1-5) _ refl]
  have n: "n = tickets_left (x_stage x)" by (simp add: assms(7) tickets_left_def)
  have "scheduled pick n g S g = None \<or> at_index g (w_current w + 1) (scheduled pick n g S)"
    using r [of n] assms(6) by (simp add: n)
  moreover have "\<exists>st. stage_now g (scheduled pick m g S) = Some st \<and> at_index g (w_current w) (scheduled pick m g S) \<and>
      pool_tickets st = pool_tickets (x_stage x) \<and> tickets_left st = n - m" if "m < n" for m
    using r [of m] assms(6) that n by auto
  ultimately show ?thesis by (simp add: pool_tickets_def tickets_left_def)
qed

section \<open>Restarts\<close>

lemma bot_by_id_Some: "i \<in> b_id ` set bots \<Longrightarrow> \<exists>b. bot_by_id bots i = Some b \<and> b_id b = i"
  by (induction bots) (auto simp: bot_by_id_def)

lemma resume_pool:
  assumes "stage_ok n (x_stage x)" "handler (x_stage x) = PoolType"
  shows "map (\<lambda>u. (IntKey (b_id (wu_bot u)), wu_tag u)) (resume_stage x) = map (\<lambda>(k, t). (k, Ticket t)) (s_in_progress (x_stage x))"
proof -
  let ?f = "\<lambda>(k, t). case k of
      IntKey i \<Rightarrow> map_option (\<lambda>b. ticket_unit x b t) (bot_by_id (s_bots (x_stage x)) i) | StrKey s \<Rightarrow> None"
  have "map (\<lambda>u. (IntKey (b_id (wu_bot u)), wu_tag u)) (List.map_filter ?f d) = map (\<lambda>(k, t). (k, Ticket t)) d"
    if "fst ` set d \<subseteq> (IntKey \<circ> b_id) ` set (s_bots (x_stage x))" for d
    using that
  proof (induction d)
    case (Cons e d)
    obtain k t where e: "e = (k, t)" by (cases e)
    from Cons.prems obtain i where i: "k = IntKey i" "i \<in> b_id ` set (s_bots (x_stage x))" by (auto simp: e)
    from bot_by_id_Some [OF i(2)] obtain b where "bot_by_id (s_bots (x_stage x)) i = Some b" "b_id b = i" by blast
    with Cons i(1) show ?case by (simp add: e List.map_filter_def ticket_unit_def unit_for_def)
  qed (simp add: List.map_filter_def)
  with assms show ?thesis by (simp add: resume_stage_def stage_ok_def Let_def)
qed

text \<open>
  C18. A restart loses nothing: restoring the JSON blob of a well-formed workflow gives back the
  very same workflow, with the integer keys that JSON had turned into strings; and at a pool the
  recovery dispatches one unit for each ticket in progress, to the bot that had claimed it.
\<close>

theorem restart_resumes_work_in_flight:
  assumes "wf_ok w" "current_ctx g w = Some x" "handler (x_stage x) = PoolType"
  shows "restore_blob v g (blob_of w) S = (Inr (), S(g \<mapsto> w)) \<and>
    map (\<lambda>u. (IntKey (b_id (wu_bot u)), wu_tag u)) (resume_units g (snd (restore_blob v g (blob_of w) S))) =
      map (\<lambda>(k, t). (k, Ticket t)) (s_in_progress (x_stage x))"
proof -
  from current_ctxD(4) [OF assms(1,2)] have "stage_ok (length (w_stages w)) (x_stage x)" .
  from resume_pool [OF this assms(3)] show ?thesis
    by (simp add: restore_blob_of [OF assms(1)] resume_units_def group_ctx_def assms(2))
qed

section \<open>Where the orchestrator goes wrong\<close>

text \<open>
  A rework target that is not an index of the stages strands the workflow: the confirmation
  dispatches nothing and moves the workflow to the missing stage, where every further report and
  every answer of a human is dropped in silence. Nothing checks the target of a stage, neither
  the parser of specifications nor the signal handler.
\<close>

theorem rework_out_of_range_strands:
  assumes "S g = Some w" "w_gate w = Some p" "gt_rework p = Some i"
    and "i < 0 \<or> int (length (w_stages w)) \<le> i"
    and "confirm v g gid remark revise S = (Inr st, S')" "gid = None \<or> gid = Some (gt_id p)"
  shows "next_units st = [] \<and> S' g = Some (w\<lparr>w_gate := None, w_current := i\<rparr>) \<and>
    observe v' g who response sigs S' = (Inr empty_step, S') \<and> confirm v' g gid' remark' revise' S' = (Inr empty_step, S')"
proof -
  let ?w = "w\<lparr>w_gate := None, w_current := i\<rparr>"
  have none: "current_ctx g ?w = None" using assms(4) by (auto simp: current_ctx_def ctx_at_def stage_at_def)
  with assms(1-3,5,6) have "S' = S(g \<mapsto> ?w)" "next_units st = []"
    by (auto simp: confirm_def Let_def rewind_def add_first_def)
  with none show ?thesis by (simp add: observe_def confirm_def)
qed

text \<open>
  The turn-taking of a discussion stage never happens at run time. The runner always passes
  a list of signals, and then the handler of the stage is not consulted: a report without
  signals leaves the speaker and the round unchanged and dispatches no next turn, and one
  completion signal, of any bot and in the first round, ends the whole stage.
\<close>

theorem discussion_stage_never_rotates:
  assumes "S g = Some w" "current_ctx g w = Some x" "s_type (x_stage x) = DiscussionType" "\<not> s_gate (x_stage x)"
  shows "((\<forall>s \<in> set ss. sg_name s \<noteq> ''signal_stage_done'' \<and> sg_name s \<noteq> ''signal_rework'') \<longrightarrow>
      snd (observe v g who response (Some ss) S) = S \<and>
      (\<exists>st. fst (observe v g who response (Some ss) S) = Inr st \<and> next_units st = [])) \<and>
    (\<forall>s. sg_name s = ''signal_stage_done'' \<longrightarrow>
      observe v g who response (Some (s # ss)) S =
        advance_stage v g (get_default (sg_reason s) response) ''signal_stage_done'' (BotActor who) S)"
proof -
  have "(\<forall>s \<in> set ss. sg_name s \<noteq> ''signal_stage_done'' \<and> sg_name s \<noteq> ''signal_rework'') \<longrightarrow>
      observe_signals v x who response ss w S = None"
    by (induction ss) (auto simp: SIGNAL_STAGE_DONE_def SIGNAL_REWORK_def)
  with assms(1,2) have "(\<forall>s \<in> set ss. sg_name s \<noteq> ''signal_stage_done'' \<and> sg_name s \<noteq> ''signal_rework'') \<longrightarrow>
      snd (observe v g who response (Some ss) S) = S \<and>
      (\<exists>st. fst (observe v g who response (Some ss) S) = Inr st \<and> next_units st = [])"
    by (auto simp: observe_def)
  moreover have "observe v g who response (Some (s # ss)) S =
        advance_stage v g (get_default (sg_reason s) response) ''signal_stage_done'' (BotActor who) S"
    if "sg_name s = ''signal_stage_done''" for s
    using that assms current_ctx_group [OF assms(2)] by (simp add: observe_def SIGNAL_STAGE_DONE_def)
  ultimately show ?thesis by blast
qed

text \<open>A pool whose specification has no keyword is never completed by a signal.\<close>

lemma pool_without_keyword_is_stuck:
  assumes "S g = Some w" "current_ctx g w = Some x" "s_type (x_stage x) = PoolType" "s_done_keyword (x_stage x) = None"
    and "sg_name s = ''signal_stage_done''"
  shows "observe v g who response (Some (s # ss)) S = (Inr empty_step, S)"
  using assms
  by (simp add: observe_def SIGNAL_STAGE_DONE_def observe_stage_def handler_def observe_pool_def Let_def signal_in_def get_default_def)

text \<open>The id of a gate is not that of its instance: after a revision an old card answers the new gate.\<close>

lemma old_card_answers_new_gate:
  assumes "wf_ok w" "S g = Some w" "env_ok v" "x_group x = g" "S' g = Some w'" "w_current w' = w_current w"
  shows "\<exists>st st'. fst (raise_gate v x r None a S) = Inr st \<and> fst (raise_gate v' x r' None a' S') = Inr st' \<and>
           map_option gc_gate (confirm_gate st) = map_option gc_gate (confirm_gate st')"
  using assms by (simp add: raise_gate_def Let_def)

section \<open>Votes\<close>

lemma tally_count: "get_default (map_of (tally vs) w) 0 = count_list vs w \<and> (w \<in> fst ` set (tally vs) \<longleftrightarrow> w \<in> set vs)"
proof -
  let ?f = "\<lambda>d w. dict_set w (get_default (map_of d w) 0 + 1) (d :: (int \<times> nat) list)"
  have "get_default (map_of (foldl ?f d vs) w) 0 = get_default (map_of d w) 0 + count_list vs w \<and>
      (w \<in> fst ` set (foldl ?f d vs) \<longleftrightarrow> w \<in> fst ` set d \<or> w \<in> set vs)" for d
  proof (induction vs arbitrary: d)
    case (Cons u vs)
    from Cons.IH [of "?f d u"] keys_dict_set [of u "get_default (map_of d u) 0 + 1" d] show ?case
      by (auto simp: get_default_def)
  qed simp
  from this [of "[]"] show ?thesis by (simp add: tally_def get_default_def)
qed

lemma tally_distinct: "distinct (map fst (tally vs))"
proof -
  have "distinct (map fst d) \<Longrightarrow> distinct (map fst (foldl (\<lambda>d w. dict_set w (get_default (map_of d w) 0 + 1) d) d vs))"
    for d :: "(int \<times> nat) list"
    by (induction vs arbitrary: d) (simp_all add: distinct_dict_set)
  then show ?thesis by (simp add: tally_def)
qed

text \<open>The winner of a verification has a plurality of the votes.\<close>

lemma winner_has_plurality:
  assumes "first_max (tally vs) = Some w"
  shows "w \<in> set vs \<and> (\<forall>u. count_list vs u \<le> count_list vs w)"
proof -
  obtain e es where d: "tally vs = e # es" and w: "w = fst (foldl (\<lambda>m p. if snd m < snd p then p else m) e es)"
    using assms by (cases "tally vs") (simp_all add: first_max_def)
  have best: "let m = foldl (\<lambda>m p. if snd m < snd p then p else m) e' ps in m \<in> insert e' (set ps) \<and> (\<forall>p \<in> insert e' (set ps). snd p \<le> snd m)"
    for e' :: "int \<times> nat" and ps
  proof (induction ps arbitrary: e')
    case (Cons p ps)
    from Cons [of "if snd e' < snd p then p else e'"] show ?case by (auto simp: Let_def split: if_splits)
  qed simp
  define m where "m = foldl (\<lambda>m p. if snd m < snd p then p else m) e es"
  with best [of e es] w have m: "m \<in> set (tally vs)" "\<forall>p \<in> set (tally vs). snd p \<le> snd m" "w = fst m"
    by (simp_all add: Let_def d)
  have val: "snd p = count_list vs (fst p)" if "p \<in> set (tally vs)" for p
  proof -
    have "map_of (tally vs) (fst p) = Some (snd p)" using that tally_distinct by (simp add: map_of_is_SomeI)
    then show ?thesis using tally_count [of vs "fst p"] by (simp add: get_default_def)
  qed
  have "count_list vs u \<le> count_list vs w" for u
  proof (cases "u \<in> set vs")
    case True
    then obtain p where "p \<in> set (tally vs)" "fst p = u" using tally_count [of vs u] by auto
    with m val show ?thesis by (metis m(2,3))
  qed (simp add: count_notin)
  moreover have "w \<in> set vs" using m(1,3) tally_count [of vs w] by auto
  ultimately show ?thesis by blast
qed

section \<open>Worked instances\<close>

definition demo_env :: env where
  "demo_env = \<lparr>e_upper = id, e_lower = id, e_shuffle = id, e_uuid = ''u''\<rparr>"

definition demo_bot :: bot where
  "demo_bot = \<lparr>b_id = 7, b_name = ascii ''ann'', b_color = [], b_role = None, b_executor = None, b_expertise = NoExpertise\<rparr>"

definition demo_cfg :: stage_cfg where
  "demo_cfg = \<lparr>cf_pool = None, cf_bot = Some 7, cf_id = None, cf_name = None, cf_role = None, cf_executor = None,
     cf_instruction = None, cf_done_keyword = None, cf_gate = True, cf_gate_label = None, cf_fail_keyword = None,
     cf_rework_to = Some 0, cf_fail_gate_label = None\<rparr>"

definition demo_stage :: stage where
  "demo_stage = blank_stage\<lparr>s_self := Some demo_bot, s_done_keyword := Some [23436, 27605], s_gate := True, s_rework_to := Some 0\<rparr>"

definition demo_pool :: stage where
  "demo_pool = blank_stage\<lparr>s_type := PoolType, s_bots := [demo_bot], s_done_keyword := Some [111, 107],
     s_in_progress := [(IntKey 7, [97])]\<rparr>"

definition demo_talk :: stage where
  "demo_talk = blank_stage\<lparr>s_type := DiscussionType, s_bots := [demo_bot], s_speaker := Some 7\<rparr>"

definition demo_wf :: "stage list \<Rightarrow> gate option \<Rightarrow> workflow" where
  "demo_wf sts p = \<lparr>w_id = ''w'', w_stages = sts, w_current = 0, w_gate = p\<rparr>"

definition demo_ctx :: "stage \<Rightarrow> ctx" where
  "demo_ctx st = \<lparr>x_group = 3, x_stage = st, x_idx = 0, x_total = 1\<rparr>"

definition done_signal :: signal where
  "done_signal = \<lparr>sg_name = ''signal_stage_done'', sg_reason = None, sg_target = None, sg_rework_idx = None, sg_tool = None\<rparr>"

lemma demo_env_ok [simp]: "env_ok demo_env"
  by (simp add: env_ok_def demo_env_def)

lemma demo_current [simp]: "current_ctx 3 (demo_wf [st] p) = Some (demo_ctx st)"
  by (simp add: current_ctx_def ctx_at_def stage_at_def demo_wf_def demo_ctx_def)

lemma demo_ctx_stage [simp]: "x_stage (demo_ctx st) = st"
  by (simp add: demo_ctx_def)

lemma demo_spec: "parse_spec [demo_cfg] [7 \<mapsto> demo_bot] = [demo_stage]"
  by (simp add: parse_spec_def parse_stage_def demo_cfg_def demo_stage_def List.map_filter_def demo_bot_def
      get_default_def or_else_def blank_stage_def)

lemma demo_pool_ok: "wf_ok (demo_wf [demo_pool] None)"
  by (simp add: wf_ok_def demo_wf_def stage_ok_def demo_pool_def blank_stage_def handler_def in_range_def
      int_dict_def demo_bot_def)


theorem gate_waits_for_human_witness:
  "\<exists>p. run [RunEnded demo_env 7 [] (Some [done_signal]), RunEnded demo_env 7 [111, 107] None] 3 [3 \<mapsto> demo_wf [demo_stage] None] =
     [3 \<mapsto> (demo_wf [demo_stage] None)\<lparr>w_gate := p\<rparr>]"
proof -
  have up: "[3 \<mapsto> demo_wf [demo_stage] None] 3 = Some (demo_wf [demo_stage] None)" by simp
  have h: "handler (x_stage (demo_ctx demo_stage)) = SingleType" "s_gate (x_stage (demo_ctx demo_stage))"
    by (simp_all add: handler_def demo_stage_def blank_stage_def)
  have "\<forall>i \<in> set [RunEnded demo_env 7 [] (Some [done_signal]), RunEnded demo_env 7 [111, 107] None]. by_bot i"
    by (simp add: by_bot_def)
  from gate_waits_for_human [where S = "[3 \<mapsto> demo_wf [demo_stage] None]" and g = 3, OF up demo_current h this]
  show ?thesis by simp
qed

theorem late_answers_are_ignored_witness:
  "confirm demo_env 3 (Some (gate_id_of 3 5 False)) [] False (snd (begin_workflow demo_env 3 [demo_stage] Map.empty)) =
     (Inr empty_step, snd (begin_workflow demo_env 3 [demo_stage] Map.empty))"
proof -
  have "(3, 5, False) \<noteq> (3, w_current w, gt_rework p \<noteq> None)"
    if "snd (begin_workflow demo_env 3 [demo_stage] Map.empty) 3 = Some w" "w_gate w = Some p" for w p
    using that by (auto simp: begin_workflow_def Let_def)
  then show ?thesis
    using late_answers_are_ignored [where evs = "[]" and g = 3 and h = 3 and k = 5 and b = False] by simp
qed

definition demo_pick :: "stage \<Rightarrow> wf_input" where
  "demo_pick st = RunEnded demo_env (hd (int_keys (s_in_progress st))) [] (Some [done_signal])"

lemma demo_working:
  assumes "s_in_progress st \<noteq> []" "int_dict (s_in_progress st)" "s_done_keyword st = Some [111, 107]"
  shows "working st (demo_pick st)"
proof -
  obtain k t d where d: "s_in_progress st = (k, t) # d" using assms(1) by (cases "s_in_progress st") auto
  with assms(2) obtain i where "k = IntKey i" by (auto simp: int_dict_def)
  moreover have "keyword_works demo_env st"
    using assms(3)
    by (simp add: keyword_works_def keyword_of_def signal_in_def Let_def get_default_def norm_signal_def demo_env_def
        enclosed_def signal_noise_def u_space_def)
  ultimately show ?thesis
    by (auto simp: working_def demo_pick_def d int_keys_def List.map_filter_def done_signal_def SIGNAL_STAGE_DONE_def)
qed

theorem pool_terminates_witness:
  "scheduled demo_pick 1 3 [3 \<mapsto> demo_wf [demo_pool] None] 3 = None \<or>
   at_index 3 1 (scheduled demo_pick 1 3 [3 \<mapsto> demo_wf [demo_pool] None])"
proof -
  have up: "[3 \<mapsto> demo_wf [demo_pool] None] 3 = Some (demo_wf [demo_pool] None)" by simp
  have p: "s_type (x_stage (demo_ctx demo_pool)) = PoolType" "s_in_progress (x_stage (demo_ctx demo_pool)) \<noteq> []"
    "s_done_keyword (x_stage (demo_ctx demo_pool)) = Some [111, 107]"
    "1 = length (s_in_progress (x_stage (demo_ctx demo_pool))) + length (s_queue (x_stage (demo_ctx demo_pool)))"
    "w_current (demo_wf [demo_pool] None) = 0"
    by (simp_all add: demo_pool_def blank_stage_def demo_wf_def)
  have work: "working st (demo_pick st)"
    if "s_in_progress st \<noteq> []" "int_dict (s_in_progress st)" "s_type st = PoolType"
      "s_done_keyword st = s_done_keyword (x_stage (demo_ctx demo_pool))" for st
    by (rule demo_working [OF that(1,2)]) (simp only: that(4) p(3))
  have "scheduled demo_pick 1 3 [3 \<mapsto> demo_wf [demo_pool] None] 3 = None \<or>
      at_index 3 (w_current (demo_wf [demo_pool] None) + 1) (scheduled demo_pick 1 3 [3 \<mapsto> demo_wf [demo_pool] None])"
    by (rule conjunct2, rule pool_terminates [where w = "demo_wf [demo_pool] None" and x = "demo_ctx demo_pool"])
      (rule up demo_pool_ok demo_current p(1,2,4) work | assumption)+
  then show ?thesis by (simp only: p(5) add_0)
qed

theorem restart_resumes_work_in_flight_witness:
  "map wu_tag (resume_units 3 (snd (restore_blob demo_env 3 (blob_of (demo_wf [demo_pool] None)) Map.empty))) = [Ticket [97]]"
proof -
  have h: "handler (x_stage (demo_ctx demo_pool)) = PoolType" by (simp add: handler_def demo_pool_def blank_stage_def)
  have inp: "s_in_progress (x_stage (demo_ctx demo_pool)) = [(IntKey 7, [97])]" by (simp add: demo_pool_def)
  note res = conjunct2 [OF restart_resumes_work_in_flight [where g = 3, OF demo_pool_ok demo_current h, of demo_env Map.empty]]
  have "map (\<lambda>u. (IntKey (b_id (wu_bot u)), wu_tag u)) (resume_units 3 (snd (restore_blob demo_env 3 (blob_of (demo_wf [demo_pool] None)) Map.empty))) =
      [(IntKey 7, Ticket [97])]"
    unfolding res inp by simp
  then have "map snd (map (\<lambda>u. (IntKey (b_id (wu_bot u)), wu_tag u)) (resume_units 3 (snd (restore_blob demo_env 3 (blob_of (demo_wf [demo_pool] None)) Map.empty)))) =
      [Ticket [97]]" by simp
  then show ?thesis by (simp only: map_map comp_def snd_conv)
qed

theorem rework_out_of_range_strands_witness:
  "\<exists>st S'. confirm demo_env 3 None [] False [3 \<mapsto> demo_wf [demo_stage] (Some \<lparr>gt_id = ''3-0-rework'', gt_instance = None,
      gt_output = [], gt_rework = Some 4\<rparr>)] = (Inr st, S') \<and> next_units st = [] \<and> observe demo_env 3 7 [] None S' = (Inr empty_step, S')"
proof -
  let ?p = "\<lparr>gt_id = ''3-0-rework'', gt_instance = None, gt_output = [], gt_rework = Some 4\<rparr>"
  let ?w = "demo_wf [demo_stage] (Some ?p)"
  have up: "[3 \<mapsto> ?w] 3 = Some ?w" "w_gate ?w = Some ?p" "gt_rework ?p = Some 4"
    "(4::int) < 0 \<or> int (length (w_stages ?w)) \<le> 4"
    by (simp_all add: demo_wf_def)
  have "\<exists>st. fst (confirm demo_env 3 None [] False [3 \<mapsto> ?w]) = Inr st"
    by (simp add: confirm_def demo_wf_def Let_def add_first_def rewind_def current_ctx_def ctx_at_def stage_at_def)
  then obtain st S' where c: "confirm demo_env 3 None [] False [3 \<mapsto> ?w] = (Inr st, S')" by (metis prod.collapse)
  from rework_out_of_range_strands [where S = "[3 \<mapsto> ?w]" and g = 3, OF up c] c show ?thesis by blast
qed

theorem discussion_stage_never_rotates_witness:
  "snd (observe demo_env 3 7 [] (Some []) [3 \<mapsto> demo_wf [demo_talk] None]) = [3 \<mapsto> demo_wf [demo_talk] None]"
proof -
  have up: "[3 \<mapsto> demo_wf [demo_talk] None] 3 = Some (demo_wf [demo_talk] None)" by simp
  have p: "s_type (x_stage (demo_ctx demo_talk)) = DiscussionType" "\<not> s_gate (x_stage (demo_ctx demo_talk))"
    by (simp_all add: demo_talk_def blank_stage_def)
  from discussion_stage_never_rotates [where S = "[3 \<mapsto> demo_wf [demo_talk] None]" and g = 3 and ss = "[]", OF up demo_current p]
  show ?thesis by simp
qed

end
