(* ===== verification/Routing.thy ===== *)
theory Routing
  imports Workflow
begin

text \<open>
  How a message reaches a bot and how a workflow is started: the keyword families of roles
  (\<^verbatim>\<open>core/role_router.py\<close>), the active-bot lock of a chat (\<^verbatim>\<open>core/orchestration/locks.py\<close>), the
  \<open>dispatch\<close> of the declarative orchestrator, the stages of the pipeline of requirements,
  development and test (\<^verbatim>\<open>core/orchestration/pipeline.py\<close>) and the choice of stages in
  \<^verbatim>\<open>runtime/dispatch.py\<close>. The whitelist of tools of a stage belongs to the executors and is left out.
\<close>

section \<open>Roles\<close>

datatype family = QaFamily | BaFamily | DevFamily

definition mentions :: "utext list \<Rightarrow> utext \<Rightarrow> bool" where
  "mentions ws s \<longleftrightarrow> list_ex (\<lambda>w. is_infix w s) ws"

definition family_keywords :: "family \<Rightarrow> utext list" where
  "family_keywords f =
     (case f of
        QaFamily \<Rightarrow> [ascii ''test'', ascii ''qa'', ascii ''bug'', ascii ''regression'', [27979, 35797],
          [36136, 37327], [29992, 20363], [39564, 35777], [32570, 38519]]
      | BaFamily \<Rightarrow> [ascii ''requirement'', ascii ''req'', ascii ''spec'', ascii ''feature'', ascii ''story'',
          ascii ''scope'', ascii ''acceptance'', [38656, 27714], [35268, 26684], [35201, 27714], [20135, 21697],
          [21151, 33021], [39564, 25910], [29992, 25143, 25925, 20107], [33539, 22260]]
      | DevFamily \<Rightarrow> [ascii ''code'', ascii ''implement'', ascii ''api'', ascii ''refactor'', ascii ''deploy'',
          ascii ''feature'', ascii ''develop'', [24320, 21457], [20195, 30721], [23454, 29616], [25509, 21475],
          [26550, 26500], [21069, 31471], [21518, 31471], [37096, 32626], [37325, 26500]])"

definition role_family :: "env \<Rightarrow> utext \<Rightarrow> family option" where
  "role_family v role =
     (let r = e_lower v (u_strip role) in
      if mentions [ascii ''qa'', ascii ''test'', ascii ''quality'', [27979, 35797], [36136, 37327]] r
      then Some QaFamily
      else if r = ascii ''ba'' \<or>
        mentions [ascii ''business'', ascii ''analyst'', ascii ''product'', ascii ''pm'', [38656, 27714],
          [20135, 21697], [19994, 21153], [38656, 27714, 20998, 26512]] r
      then Some BaFamily
      else if mentions [ascii ''dev'', ascii ''engineer'', ascii ''developer'', ascii ''code'', ascii ''fullstack'',
          ascii ''full-stack'', ascii ''frontend'', ascii ''backend'', [24320, 21457], [24037, 31243],
          [21069, 31471], [21518, 31471]] r
      then Some DevFamily
      else None)"

abbreviation bot_family :: "env \<Rightarrow> bot \<Rightarrow> family option" where
  "bot_family v b \<equiv> role_family v (get_default (b_role b) [])"

definition should_bot_respond :: "env \<Rightarrow> utext \<Rightarrow> utext \<Rightarrow> utext \<Rightarrow> bool" where
  "should_bot_respond v message name role =
     (let m = e_lower v message in
      is_infix (ascii ''@all'') m \<or> is_infix (64 # e_lower v name) m \<or>
      (case role_family v role of None \<Rightarrow> False | Some f \<Rightarrow> mentions (family_keywords f) m))"

text \<open>The role of the current stage: its family, or the name of the stage when the role has none.\<close>

definition current_stage_role :: "env \<Rightarrow> int \<Rightarrow> workflows \<Rightarrow> (family + utext) option" where
  "current_stage_role v g S =
     (case group_ctx g S of
        None \<Rightarrow> None
      | Some x \<Rightarrow>
          (case role_family v (get_default (stage_role (x_stage x)) []) of
             Some f \<Rightarrow> Some (Inl f)
           | None \<Rightarrow> map_option Inr (stage_name (x_stage x))))"

section \<open>The active-bot lock\<close>

text \<open>One row per group; an operation whose database call fails (\<open>ok\<close> false) is logged and skipped.\<close>

type_synonym locks = "int \<Rightarrow> int option"

definition get_active_bot :: "bool \<Rightarrow> int \<Rightarrow> locks \<Rightarrow> int option" where
  "get_active_bot ok g L = (if ok then L g else None)"

definition set_active_bot :: "bool \<Rightarrow> int \<Rightarrow> int \<Rightarrow> locks \<Rightarrow> locks" where
  "set_active_bot ok g b L = (if ok then L(g \<mapsto> b) else L)"

definition release_lock :: "bool \<Rightarrow> int \<Rightarrow> locks \<Rightarrow> locks" where
  "release_lock ok g L = (if ok then L(g := None) else L)"

section \<open>Dispatching a message\<close>

record chat_message =
  cm_content :: utext
  cm_target :: int

text \<open>The bots on duty in the current stage.\<close>

definition participants :: "bot list \<Rightarrow> stage \<Rightarrow> bot list" where
  "participants bots st =
     (case Stages.current_bot st of None \<Rightarrow> [] | Some b \<Rightarrow> [b]) @
     (case current_pool_bots st of None \<Rightarrow> [] | Some ids \<Rightarrow> filter (\<lambda>b. b_id b \<in> set ids) bots)"

definition stage_unit :: "utext \<Rightarrow> prompt \<Rightarrow> bot \<Rightarrow> prompt work_unit" where
  "stage_unit content suffix b =
     \<lparr>wu_bot = b,
      wu_executor = (case b_executor b of None \<Rightarrow> tool_loop_v1 | Some e \<Rightarrow> if e = [] then tool_loop_v1 else e),
      wu_trigger = UserText content, wu_suffix = suffix, wu_workflow = True, wu_tag = NoTag\<rparr>"

definition chat_unit :: "utext \<Rightarrow> bot \<Rightarrow> prompt work_unit" where
  "chat_unit content b =
     \<lparr>wu_bot = b, wu_executor = tool_loop_v1, wu_trigger = UserText content, wu_suffix = NoPrompt,
      wu_workflow = False, wu_tag = NoTag\<rparr>"

text \<open>Who a message is meant for: by target, mention or \<open>@all\<close>; by keyword; the bot that holds the lock.\<close>

definition explicit_bots :: "env \<Rightarrow> chat_message \<Rightarrow> bot list \<Rightarrow> bot list" where
  "explicit_bots v m bots =
     (let content = u_strip (cm_content m);
          named = (if cm_target m \<noteq> 0 then filter (\<lambda>b. b_id b = cm_target m) bots
                   else filter (\<lambda>b. is_infix (64 # b_name b) content) bots)
      in if is_infix (ascii ''@all'') (e_lower v content) then bots else named)"

definition keyword_bots :: "env \<Rightarrow> chat_message \<Rightarrow> bot list \<Rightarrow> bot list" where
  "keyword_bots v m bots =
     filter (\<lambda>b. should_bot_respond v (u_strip (cm_content m)) (b_name b) (get_default (b_role b) [])) bots"

definition locked_bots :: "bool \<Rightarrow> int \<Rightarrow> bot list \<Rightarrow> locks \<Rightarrow> bot list" where
  "locked_bots ok g bots L =
     (case get_active_bot ok g L of
        None \<Rightarrow> []
      | Some i \<Rightarrow> if i = 0 then [] else (case bot_by_id bots i of None \<Rightarrow> [] | Some b \<Rightarrow> [b]))"

definition route_chat :: "env \<Rightarrow> bool \<Rightarrow> int \<Rightarrow> chat_message \<Rightarrow> bot list \<Rightarrow> locks \<Rightarrow> bot list \<times> locks" where
  "route_chat v ok g m bots L =
     (case explicit_bots v m bots of
        [b] \<Rightarrow> ([b], set_active_bot ok g (b_id b) L)
      | b # b' # bs \<Rightarrow> (b # b' # bs, release_lock ok g L)
      | [] \<Rightarrow>
          (case keyword_bots v m bots of
             [b] \<Rightarrow> ([b], set_active_bot ok g (b_id b) L)
           | b # b' # bs \<Rightarrow> (b # b' # bs, L)
           | [] \<Rightarrow> (locked_bots ok g bots L, L)))"

definition dispatch_message ::
  "env \<Rightarrow> bool \<Rightarrow> int \<Rightarrow> chat_message \<Rightarrow> bot list \<Rightarrow> workflows \<Rightarrow> locks \<Rightarrow> prompt step fallible \<times> locks" where
  "dispatch_message v ok g m bots S L =
     (let content = u_strip (cm_content m);
          on_duty = (case group_ctx g S of None \<Rightarrow> [] | Some x \<Rightarrow> participants bots (x_stage x))
      in if on_duty \<noteq> [] then
           ((case S g of
               None \<Rightarrow> Inr empty_step
             | Some w \<Rightarrow> map_sum id (\<lambda>s. empty_step\<lparr>next_units := map (stage_unit content s) on_duty\<rparr>) (system_suffix g w)), L)
         else
           (case route_chat v ok g m bots L of
              (bs, L') \<Rightarrow> (Inr (empty_step\<lparr>next_units := map (chat_unit content) bs\<rparr>), L')))"

text \<open>A human message aborts the run in progress only when it starts no work of a workflow.\<close>

definition coalesce_should_abort :: "bool \<Rightarrow> 'p work_unit list \<Rightarrow> bool" where
  "coalesce_should_abort human units \<longleftrightarrow> units \<noteq> [] \<and> human \<and> \<not> list_ex wu_workflow units"

section \<open>The stages of the pipeline\<close>

definition ba_instruction :: utext where
  "ba_instruction =
    [21644, 29992, 25143, 22810, 36718, 23545, 35805, 65292, 25226, 38656, 27714, 38382, 28165, 26970,
     65306, 30446, 26631, 12289, 33539, 22260, 12289, 36793, 30028, 12289, 39564, 25910, 26631, 20934,
     12290, 20805, 20998, 28548, 28165, 24182, 19982, 29992, 25143, 23545, 40784, 21518, 65292, 25226,
     38656, 27714, 25286, 25104, 32, 74, 105, 114, 97, 32, 24037, 21333, 65292, 27599, 20010, 24037, 21333,
     21253, 21547, 65306, 26631, 39064, 12289, 25551, 36848, 12289, 39564, 25910, 26631, 20934, 40, 65, 67,
     41, 12290, 65288, 24403, 21069, 32, 74, 105, 114, 97, 32, 20026, 26367, 36523, 65292, 20808, 29992,
     28165, 26224, 30340, 25991, 23383, 21015, 20986, 24037, 21333, 28165, 21333, 12290, 65289, 12304,
     26412, 38454, 27573, 38081, 24459, 12305, 20320, 26159, 38656, 27714, 20998, 26512, 65292, 19981,
     26159, 24320, 21457, 65306, 32477, 23545, 19981, 35201, 20889, 20219, 20309, 20195, 30721, 25110,
     32593, 39029, 25991, 20214, 65292, 19981, 35201, 21019, 24314, 39033, 30446, 30446, 24405, 12289,
     19981, 35201, 33853, 30424, 20219, 20309, 23454, 29616, 12290, 24320, 21457, 26159, 30830, 35748,
     36890, 36807, 21518, 19979, 19968, 38454, 27573, 32, 68, 101, 118, 32, 30340, 27963, 12290, 65288,
     31995, 32479, 20063, 24050, 22312, 24037, 20855, 23618, 31105, 29992, 20102, 20320, 30340, 32, 119,
     114, 105, 116, 101, 95, 102, 105, 108, 101, 32, 47, 32, 114, 117, 110, 95, 115, 104, 101, 108, 108,
     32, 31561, 20889, 20837, 33021, 21147, 12290, 65289, 38656, 27714, 24635, 32467, 21644, 24037, 21333,
     28165, 21333, 37117, 32473, 23436, 21518, 65292, 21521, 29992, 25143, 35828, 26126, 12302, 37117,
     23601, 32490, 20102, 65292, 26159, 21542, 35753, 24320, 21457, 24320, 22987, 65311, 12303, 65292,
     24182, 35843, 29992, 24037, 20855, 32, 115, 105, 103, 110, 97, 108, 95, 115, 116, 97, 103, 101, 95,
     100, 111, 110, 101, 40, 114, 101, 97, 115, 111, 110, 61, 34, 38656, 27714, 24050, 28548, 28165, 12289,
     24037, 21333, 24050, 23601, 32490, 30340, 31616, 30701, 35828, 26126, 34, 41, 32, 36890, 30693, 31995,
     32479, 8212, 8212, 31995, 32479, 35782, 21035, 21040, 36825, 20010, 24037, 20855, 35843, 29992, 25165,
     20250, 32473, 29992, 25143, 24377, 20986, 30830, 35748, 21345, 29255, 12290, 27809, 23436, 20840,
     28548, 28165, 12289, 24037, 21333, 27809, 21015, 23436, 20043, 21069, 65292, 32477, 23545, 19981,
     35201, 35843, 29992, 23427, 12290]"

definition ba_gate_label :: utext where
  "ba_gate_label = [30830, 35748, 38656, 27714, 24050, 25972, 29702, 28165, 26970, 12289, 74, 105, 114, 97, 32, 24037,
     21333, 24050, 24314, 22909]"

definition dev_instruction :: utext where
  "dev_instruction =
    [25353, 19978, 38754, 30340, 32, 74, 105, 114, 97, 32, 24037, 21333, 24320, 21457, 12290, 12304, 32534,
     36753, 19982, 24320, 21457, 35268, 33539, 12305, 10, 45, 32, 20462, 25913, 24050, 26377, 25991, 20214,
     32477, 23545, 20248, 20808, 20351, 29992, 32, 101, 100, 105, 116, 95, 102, 105, 108, 101, 65288,
     21482, 21457, 32, 100, 105, 102, 102, 65292, 36991, 20813, 22823, 25991, 20214, 34987, 21333, 27425,
     36755, 20986, 38271, 24230, 25130, 26029, 65289, 65307, 21516, 19968, 25991, 20214, 22810, 22788,
     25913, 21160, 29992, 32, 101, 100, 105, 116, 115, 32, 25968, 32452, 19968, 27425, 25552, 20132, 65307,
     10, 45, 32, 119, 114, 105, 116, 101, 95, 102, 105, 108, 101, 32, 20165, 29992, 20110, 26032, 24314,
     25991, 20214, 25110, 25972, 25991, 20214, 37325, 20889, 65307, 10, 45, 32, 20005, 31105, 25226, 23436,
     25972, 28304, 30721, 36148, 36827, 32842, 22825, 22238, 22797, 65292, 21482, 38656, 35828, 26126,
     23454, 29616, 26041, 26696, 19982, 33853, 30424, 25991, 20214, 12290, 10, 24320, 21457, 23436, 25104,
     21518, 20570, 20195, 30721, 33258, 27979, 65292, 24182, 25552, 20379, 32, 80, 82, 32, 25551, 36848,
     65288, 24403, 21069, 32, 71, 105, 116, 32, 20026, 26367, 36523, 65289, 12290, 30830, 35748, 20195,
     30721, 33853, 30424, 19988, 33258, 27979, 36890, 36807, 21518, 65292, 35843, 29992, 24037, 20855, 32,
     115, 105, 103, 110, 97, 108, 95, 115, 116, 97, 103, 101, 95, 100, 111, 110, 101, 40, 114, 101, 97,
     115, 111, 110, 61, 34, 24050, 33853, 30424, 25991, 20214, 28165, 21333, 19982, 33258, 27979, 32467,
     35770, 30340, 31616, 30701, 35828, 26126, 34, 41, 32, 36890, 30693, 31995, 32479, 65307, 27809, 33853,
     30424, 21069, 32477, 23545, 19981, 35201, 35843, 29992, 23427, 12290]"

definition dev_gate_label :: utext where
  "dev_gate_label = [30830, 35748, 24320, 21457, 23436, 25104, 12289, 80, 82, 32, 24050, 25552]"

definition qa_instruction :: utext where
  "qa_instruction =
    [25353, 32, 74, 105, 114, 97, 32, 24037, 21333, 30340, 39564, 25910, 26631, 20934, 40, 65, 67, 41,
     20570, 20882, 28895, 27979, 35797, 65306, 36880, 26465, 32473, 20986, 36890, 36807, 47, 19981, 36890,
     36807, 21450, 29702, 30001, 65292, 26368, 21518, 32473, 20986, 27979, 35797, 32467, 35770, 12290,
     12304, 25910, 23614, 35268, 21017, 12305, 21482, 26377, 24403, 25152, 26377, 32, 65, 67, 32, 20840,
     37096, 36890, 36807, 26102, 65292, 25165, 35843, 29992, 24037, 20855, 32, 115, 105, 103, 110, 97, 108,
     95, 115, 116, 97, 103, 101, 95, 100, 111, 110, 101, 40, 114, 101, 97, 115, 111, 110, 61, 34, 21508,
     32, 65, 67, 32, 36890, 36807, 24773, 20917, 19982, 27979, 35797, 32467, 35770, 34, 41, 32, 36890,
     30693, 31995, 32479, 12290, 21482, 35201, 26377, 20219, 20309, 19968, 26465, 32, 65, 67, 32, 19981,
     36890, 36807, 65292, 23601, 32477, 23545, 19981, 35201, 35843, 29992, 32, 115, 105, 103, 110, 97, 108,
     95, 115, 116, 97, 103, 101, 95, 100, 111, 110, 101, 65292, 32780, 26159, 35843, 29992, 24037, 20855,
     32, 115, 105, 103, 110, 97, 108, 95, 114, 101, 119, 111, 114, 107, 40, 116, 97, 114, 103, 101, 116,
     95, 115, 116, 97, 103, 101, 61, 34, 68, 101, 118, 34, 44, 32, 114, 101, 97, 115, 111, 110, 61, 34,
     26410, 36890, 36807, 30340, 32, 65, 67, 32, 19982, 32, 98, 117, 103, 32, 35828, 26126, 34, 41, 8212,
     8212, 31995, 32479, 20250, 24377, 30830, 35748, 21345, 29255, 65292, 20154, 30830, 35748, 21518,
     25226, 38382, 39064, 25171, 22238, 32, 68, 101, 118, 32, 20462, 22797, 65292, 20462, 22909, 20250,
     20877, 22238, 21040, 20320, 36825, 37324, 37325, 27979, 12290, 20004, 20010, 24037, 20855, 20114,
     26021, 65292, 19968, 27425, 21482, 35843, 29992, 20854, 20013, 19968, 20010, 65307, 27979, 35797,
     36824, 27809, 20570, 23436, 20043, 21069, 20004, 20010, 37117, 19981, 35201, 35843, 29992, 12290]"

definition qa_gate_label :: utext where
  "qa_gate_label = [30830, 35748, 27979, 35797, 36890, 36807]"

definition qa_fail_gate_label :: utext where
  "qa_fail_gate_label = [81, 65, 32, 26410, 36890, 36807, 65306, 26159, 21542, 25171, 22238, 32, 68, 101, 118, 32, 20462, 22797,
     24182, 37325, 27979, 65311]"

definition gated_stage :: "bot \<Rightarrow> utext \<Rightarrow> utext \<Rightarrow> utext \<Rightarrow> (utext \<times> int \<times> utext) option \<Rightarrow> stage" where
  "gated_stage b instruction keyword label fail =
     blank_stage\<lparr>s_self := Some b, s_instruction := Some instruction, s_done_keyword := Some keyword, s_gate := True,
       s_gate_label := Some label, s_fail_keyword := map_option fst fail, s_rework_to := map_option (fst \<circ> snd) fail,
       s_fail_gate_label := map_option (snd \<circ> snd) fail\<rparr>"

text \<open>The completion marks are \<open>BA_DONE\<close>, \<open>DEV_DONE\<close>, \<open>QA_DONE\<close> and \<open>QA_FAIL\<close> in double brackets.\<close>

definition marker :: "string \<Rightarrow> utext" where
  "marker s = [91, 91] @ ascii s @ [93, 93]"

definition build_ba_stage :: "bot \<Rightarrow> stage" where
  "build_ba_stage b = gated_stage b ba_instruction (marker ''BA_DONE'') ba_gate_label None"

definition build_dev_stage :: "bot \<Rightarrow> stage" where
  "build_dev_stage b = gated_stage b dev_instruction (marker ''DEV_DONE'') dev_gate_label None"

definition build_qa_stage :: "bot \<Rightarrow> int \<Rightarrow> stage" where
  "build_qa_stage b rework_to =
     gated_stage b qa_instruction (marker ''QA_DONE'') qa_gate_label (Some (marker ''QA_FAIL'', rework_to, qa_fail_gate_label))"

definition build_rd_pipeline :: "bot \<Rightarrow> bot \<Rightarrow> bot \<Rightarrow> stage list" where
  "build_rd_pipeline ba dev qa = [build_ba_stage ba, build_dev_stage dev, build_qa_stage qa 1]"

section \<open>Starting a workflow\<close>

record start_cfg =
  sc_bot :: "int option"
  sc_done_keyword :: "utext option"

text \<open>The stage of a bot by its role; the test stage goes back to the first development stage so far, else to 1.\<close>

definition role_stage :: "env \<Rightarrow> stage list \<Rightarrow> bot \<Rightarrow> stage" where
  "role_stage v sts b =
     (case bot_family v b of
        Some BaFamily \<Rightarrow> build_ba_stage b
      | Some DevFamily \<Rightarrow> build_dev_stage b
      | Some QaFamily \<Rightarrow>
          build_qa_stage b
            (get_default (index_of (\<lambda>s. role_family v (get_default (stage_role s) []) = Some DevFamily) sts) 1)
      | None \<Rightarrow> blank_stage\<lparr>s_self := Some b, s_gate := True\<rparr>)"

definition with_keyword :: "start_cfg \<Rightarrow> stage \<Rightarrow> stage" where
  "with_keyword c st = (case sc_done_keyword c of None \<Rightarrow> st | Some k \<Rightarrow> st\<lparr>s_done_keyword := Some k\<rparr>)"

fun start_stages :: "env \<Rightarrow> stage list \<Rightarrow> (bot \<times> start_cfg) list \<Rightarrow> stage list" where
  "start_stages v sts [] = sts"
| "start_stages v sts ((b, c) # r) = start_stages v (sts @ [with_keyword c (role_stage v sts b)]) r"

definition start_spec :: "env \<Rightarrow> (int \<Rightarrow> bot option) \<Rightarrow> start_cfg list \<Rightarrow> stage_cfg list \<Rightarrow> stage list" where
  "start_spec v bots cfgs spec =
     (if cfgs \<noteq> [] then
        start_stages v [] (List.map_filter (\<lambda>c. map_option (\<lambda>b. (b, c)) (Option.bind (sc_bot c) bots)) cfgs)
      else parse_spec spec bots)"

text \<open>The default: the first bot of each family, or the families that are missing.\<close>

definition picked :: "env \<Rightarrow> bot list \<Rightarrow> family \<Rightarrow> bot option" where
  "picked v bots f = find (\<lambda>b. bot_family v b = Some f) bots"

definition default_pipeline :: "env \<Rightarrow> bot list \<Rightarrow> family list + stage list" where
  "default_pipeline v bots =
     (case (picked v bots BaFamily, picked v bots DevFamily, picked v bots QaFamily) of
        (Some ba, Some dev, Some qa) \<Rightarrow> Inr (build_rd_pipeline ba dev qa)
      | _ \<Rightarrow> Inl (filter (\<lambda>f. picked v bots f = None) [BaFamily, DevFamily, QaFamily]))"

definition start_workflow :: "env \<Rightarrow> int \<Rightarrow> stage list \<Rightarrow> workflows \<Rightarrow> choice option" where
  "start_workflow v g stages S = (if stages = [] then None else Some (begin_workflow v g stages S))"

section \<open>Free conversation\<close>

definition recipients :: "prompt step fallible \<times> locks \<Rightarrow> bot list" where
  "recipients d = (case fst d of Inl e \<Rightarrow> [] | Inr st \<Rightarrow> map wu_bot (next_units st))"

definition chatted :: "env \<Rightarrow> int \<Rightarrow> bot list \<Rightarrow> workflows \<Rightarrow> chat_message list \<Rightarrow> locks \<Rightarrow> locks" where
  "chatted v g bots S ms L = fold (\<lambda>m M. snd (dispatch_message v True g m bots S M)) ms L"

lemma free_dispatch:
  assumes "group_ctx g S = None"
  shows "recipients (dispatch_message v ok g m bots S L) = fst (route_chat v ok g m bots L)"
    and "snd (dispatch_message v ok g m bots S L) = snd (route_chat v ok g m bots L)"
proof -
  have "map (wu_bot \<circ> chat_unit c) bs = bs" for c bs by (induction bs) (simp_all add: chat_unit_def)
  with assms show "recipients (dispatch_message v ok g m bots S L) = fst (route_chat v ok g m bots L)"
    by (simp add: dispatch_message_def recipients_def Let_def split: prod.split)
  from assms show "snd (dispatch_message v ok g m bots S L) = snd (route_chat v ok g m bots L)"
    by (simp add: dispatch_message_def Let_def split: prod.split)
qed

lemma route_single:
  "explicit_bots v m bots = [b] \<or> (explicit_bots v m bots = [] \<and> keyword_bots v m bots = [b]) \<Longrightarrow>
   route_chat v True g m bots L = ([b], L(g \<mapsto> b_id b))"
  by (auto simp: route_chat_def set_active_bot_def)

lemma route_keeps_lock:
  "explicit_bots v m bots = [] \<Longrightarrow> length (keyword_bots v m bots) \<noteq> 1 \<Longrightarrow> snd (route_chat v ok g m bots L) = L"
  by (auto simp: route_chat_def split: list.split)

lemma bot_by_id_member: "distinct (map b_id bots) \<Longrightarrow> b \<in> set bots \<Longrightarrow> bot_by_id bots (b_id b) = Some b"
  by (induction bots) (auto simp: bot_by_id_def)

lemma routed_member:
  "explicit_bots v m bots = [b] \<or> keyword_bots v m bots = [b] \<Longrightarrow> b \<in> set bots"
proof -
  have "set (explicit_bots v m bots) \<subseteq> set bots" "set (keyword_bots v m bots) \<subseteq> set bots"
    by (auto simp: explicit_bots_def keyword_bots_def Let_def)
  then show "explicit_bots v m bots = [b] \<or> keyword_bots v m bots = [b] \<Longrightarrow> b \<in> set bots" by auto
qed

text \<open>
  In a chat without a workflow the conversation stays with the bot that was addressed last: a
  message that names one bot, or falls into the keywords of one bot only, is dispatched to it,
  and so is every later message that names nobody and matches nobody, whatever messages that
  match several bots by keyword came between.
\<close>

theorem follow_up_continues:
  assumes "group_ctx g S = None" "distinct (map b_id bots)" "b_id b \<noteq> 0"
    and "explicit_bots v m bots = [b] \<or> (explicit_bots v m bots = [] \<and> keyword_bots v m bots = [b])"
    and "\<forall>n \<in> set between. explicit_bots v n bots = [] \<and> length (keyword_bots v n bots) \<noteq> 1"
    and "explicit_bots v q bots = []" "keyword_bots v q bots = []"
  shows "recipients (dispatch_message v True g m bots S L) = [b] \<and>
    recipients (dispatch_message v True g q bots S (chatted v g bots S (m # between) L)) = [b]"
proof -
  from assms(4) have b: "b \<in> set bots" using routed_member by blast
  have "chatted v g bots S ns M = M" if "\<forall>n \<in> set ns. explicit_bots v n bots = [] \<and> length (keyword_bots v n bots) \<noteq> 1" for ns M
    using that by (induction ns arbitrary: M) (simp_all add: chatted_def free_dispatch [OF assms(1)] route_keeps_lock)
  with assms(5) have "chatted v g bots S (m # between) L = L(g \<mapsto> b_id b)"
    by (simp add: chatted_def free_dispatch [OF assms(1)] route_single [OF assms(4)])
  moreover have "fst (route_chat v True g q bots (L(g \<mapsto> b_id b))) = [b]"
    using assms(3,6,7) by (simp add: route_chat_def locked_bots_def get_active_bot_def bot_by_id_member [OF assms(2) b])
  ultimately show ?thesis by (simp add: free_dispatch [OF assms(1)] route_single [OF assms(4)])
qed

section \<open>Conversation within a stage\<close>

lemma on_duty_bots: "map (wu_bot \<circ> stage_unit content s) bs = bs"
  by (induction bs) (simp_all add: stage_unit_def)

text \<open>
  While a stage has participants every message goes to exactly them, whoever it mentions: as
  work of the workflow with the instructions of the stage, without a change of the active-bot
  lock, and without aborting the run in progress.
\<close>

theorem stage_has_priority:
  assumes "S g = Some w" "wf_ok w" "current_ctx g w = Some x" "participants bots (x_stage x) \<noteq> []"
  shows "recipients (dispatch_message v ok g m bots S L) = participants bots (x_stage x) \<and>
    snd (dispatch_message v ok g m bots S L) = L \<and>
    (\<exists>st s. fst (dispatch_message v ok g m bots S L) = Inr st \<and> system_suffix g w = Inr s \<and>
       list_all (\<lambda>u. wu_workflow u \<and> wu_suffix u = s \<and> wu_trigger u = UserText (u_strip (cm_content m))) (next_units st) \<and>
       \<not> coalesce_should_abort human (next_units st))"
proof -
  obtain s where s: "system_suffix g w = Inr s" using system_suffix_ok [OF assms(2), of g] by auto
  have d: "dispatch_message v ok g m bots S L =
      (Inr (empty_step\<lparr>next_units := map (stage_unit (u_strip (cm_content m)) s) (participants bots (x_stage x))\<rparr>), L)"
    using assms by (simp add: dispatch_message_def Let_def group_ctx_def s)
  show ?thesis
    using assms(4)
    by (auto simp: d recipients_def on_duty_bots s list_all_iff stage_unit_def coalesce_should_abort_def list_ex_iff neq_Nil_conv)
qed

section \<open>The life of a gated pipeline\<close>

definition gated :: "stage \<Rightarrow> bool" where
  "gated st \<longleftrightarrow> handler st = SingleType \<and> s_gate st"

text \<open>A bot reports that its stage is done, or sends it back, and a human confirms the card.\<close>

definition approval_round :: "wf_input list \<Rightarrow> bool" where
  "approval_round evs \<longleftrightarrow>
     (\<exists>v who r sig ss u remark. evs = [RunEnded v who r (Some (sig # ss)), Answered u None remark False] \<and>
        sg_name sig = SIGNAL_STAGE_DONE \<and> env_ok u)"

lemma enter_single_same:
  assumes "env_ok v" "wf_ok w" "handler (w_stages w ! nat (w_current w)) = SingleType"
  shows "\<exists>st. enter_current v g prev w = (Inr st, w)"
proof -
  obtain x where x: "current_ctx g w = Some x" using wf_ok_current [OF assms(2)] by blast
  have "put_stage (w_current w) (w_stages w ! nat (w_current w)) w = w" by (simp add: put_stage_def)
  with assms(3) current_ctxD(3) [OF assms(2) x] have "snd (enter_current v g prev w) = w"
    by (simp add: enter_current_def x enter_def)
  with enter_current_ok [OF assms(1,2), of g prev] show ?thesis by fastforce
qed

lemma gated_report:
  assumes "S g = Some w" "wf_ok w" "gated (w_stages w ! nat (w_current w))"
    and "sg_name sig = SIGNAL_STAGE_DONE \<and> r = None \<or>
         sg_name sig = SIGNAL_REWORK \<and> sg_rework_idx sig = Some i \<and> r = Some i \<and> in_range (length (w_stages w)) r \<or>
         sg_name sig = SIGNAL_REWORK \<and> sg_rework_idx sig = None \<and> sg_target sig = None \<and>
           s_rework_to (w_stages w ! nat (w_current w)) = r \<and> r = Some i"
  shows "\<exists>p. snd (observe v g who response (Some (sig # ss)) S) = S(g \<mapsto> w\<lparr>w_gate := Some p\<rparr>) \<and> gt_rework p = r"
proof -
  obtain x where x: "current_ctx g w = Some x" using wf_ok_current [OF assms(2)] by blast
  note xd = current_ctxD [OF assms(2) x]
  have t: "s_type (x_stage x) \<noteq> PoolType" "s_gate (x_stage x)"
    using assms(3) xd(3) by (auto simp: gated_def handler_def)
  have "rework_target w x sig = r" if "sg_name sig = SIGNAL_REWORK"
    using assms(4) that xd(3) by (auto simp: rework_target_def in_range_def SIGNAL_REWORK_def SIGNAL_STAGE_DONE_def)
  with assms(1,4) x xd(1) t show ?thesis
    by (auto simp: observe_def SIGNAL_REWORK_def SIGNAL_STAGE_DONE_def raise_gate_def Let_def)
qed

lemma approved:
  assumes "S g = Some w" "wf_ok w" "\<forall>st \<in> set (w_stages w). gated st" "approval_round evs"
  shows "run evs g S = (if w_current w + 1 = int (length (w_stages w)) then S(g := None)
                        else S(g \<mapsto> w\<lparr>w_gate := None, w_current := w_current w + 1\<rparr>))"
proof -
  from assms(4) obtain v who r sig ss u remark where evs: "evs = [RunEnded v who r (Some (sig # ss)), Answered u None remark False]"
    and sig: "sg_name sig = SIGNAL_STAGE_DONE" and u: "env_ok u" unfolding approval_round_def by blast
  have cur: "gated (w_stages w ! nat (w_current w))" using assms(2,3) by (auto simp: wf_ok_def)
  obtain p where p: "snd (observe v g who r (Some (sig # ss)) S) = S(g \<mapsto> w\<lparr>w_gate := Some p\<rparr>)" "gt_rework p = None"
    using gated_report [where S = S and g = g and w = w, OF assms(1,2) cur, of sig None] sig by blast
  let ?w = "w\<lparr>w_gate := None, w_current := w_current w + 1\<rparr>"
  have "run evs g S = snd (advance_stage u g (gt_output p) ''gate_approved'' HumanActor (S(g \<mapsto> w\<lparr>w_gate := Some p\<rparr>)))"
    by (simp add: evs wf_decides_def p confirm_def Let_def add_first_def)
  moreover have "\<exists>st. enter_current u g (gt_output p) ?w = (Inr st, ?w)" if "w_current w + 1 \<noteq> int (length (w_stages w))"
  proof (rule enter_single_same [OF u])
    show ok: "wf_ok ?w" using assms(2) that by (auto simp: wf_ok_def)
    then have "nat (w_current w + 1) < length (w_stages w)" by (simp add: wf_ok_def nat_less_iff)
    with assms(3) show "handler (w_stages ?w ! nat (w_current ?w)) = SingleType" by (simp add: gated_def)
  qed
  ultimately show ?thesis using assms(2)
    by (auto simp: advance_stage_def Let_def end_group_def wf_ok_def)
qed

lemma sent_back:
  assumes "S g = Some w" "wf_ok w" "\<forall>st \<in> set (w_stages w). gated st" "env_ok u" "sg_name sig = SIGNAL_REWORK"
    and "sg_rework_idx sig = Some i \<and> in_range (length (w_stages w)) (Some i) \<or>
         sg_rework_idx sig = None \<and> sg_target sig = None \<and> s_rework_to (w_stages w ! nat (w_current w)) = Some i"
  shows "run [RunEnded v who r (Some (sig # ss)), Answered u None remark revise] g S = S(g \<mapsto> w\<lparr>w_gate := None, w_current := i\<rparr>)"
proof -
  have st: "w_stages w ! nat (w_current w) \<in> set (w_stages w)" using assms(2) by (auto simp: wf_ok_def)
  with assms(2) have "in_range (length (w_stages w)) (s_rework_to (w_stages w ! nat (w_current w)))"
    by (auto simp: wf_ok_def list_all_iff stage_ok_def)
  with assms(6) have i: "in_range (length (w_stages w)) (Some i)" by auto
  obtain p where p: "snd (observe v g who r (Some (sig # ss)) S) = S(g \<mapsto> w\<lparr>w_gate := Some p\<rparr>)" "gt_rework p = Some i"
    using gated_report [where S = S and g = g and w = w, OF assms(1,2), of sig "Some i" i] st assms(3,5,6) i by blast
  let ?w = "w\<lparr>w_gate := None, w_current := i\<rparr>"
  have ok: "wf_ok ?w" using assms(2) i by (auto simp: wf_ok_def in_range_def)
  moreover have "w_stages w ! nat i \<in> set (w_stages w)" using i by (auto simp: in_range_def)
  ultimately obtain st where "enter_current u g (gt_output p) ?w = (Inr st, ?w)"
    using enter_single_same [OF assms(4), of ?w g "gt_output p"] assms(3) by (auto simp: gated_def)
  moreover have "current_ctx g ?w \<noteq> None" using wf_ok_current [OF ok] by auto
  ultimately show ?thesis by (simp add: wf_decides_def p confirm_def Let_def add_first_def rewind_def)
qed

lemma gated_pipeline: "st \<in> set (build_rd_pipeline ba dev qa) \<Longrightarrow> gated st"
  by (auto simp: build_rd_pipeline_def build_ba_stage_def build_dev_stage_def build_qa_stage_def gated_stage_def gated_def
      handler_def blank_stage_def)

lemma pipeline_stages:
  "build_rd_pipeline ba dev qa ! 0 = build_ba_stage ba" "build_rd_pipeline ba dev qa ! Suc 0 = build_dev_stage dev"
  "build_rd_pipeline ba dev qa ! 2 = build_qa_stage qa 1" "length (build_rd_pipeline ba dev qa) = 3"
  by (simp_all add: build_rd_pipeline_def)

lemma gated_stage_fields [simp]:
  "s_self (gated_stage b t k l f) = Some b" "handler (gated_stage b t k l f) = SingleType"
  "s_rework_to (gated_stage b t k l f) = map_option (fst \<circ> snd) f"
  by (simp_all add: gated_stage_def handler_def blank_stage_def)

lemma pipeline_ok: "list_all (stage_ok 3) (build_rd_pipeline ba dev qa)"
  by (simp add: build_rd_pipeline_def build_ba_stage_def build_dev_stage_def build_qa_stage_def stage_ok_def
      in_range_def int_dict_def gated_stage_def blank_stage_def handler_def)

lemma begun_pipeline:
  "snd (begin_workflow u g (build_rd_pipeline ba dev qa) S) =
     S(g \<mapsto> \<lparr>w_id = ''wf_'' @ e_uuid u, w_stages = build_rd_pipeline ba dev qa, w_current = 0, w_gate = None\<rparr>)"
  by (simp add: begin_workflow_def Let_def)

lemma pipeline_at_ok:
  "0 \<le> k \<Longrightarrow> k < 3 \<Longrightarrow> wf_ok \<lparr>w_id = d, w_stages = build_rd_pipeline ba dev qa, w_current = k, w_gate = None\<rparr>"
  by (simp add: wf_ok_def pipeline_stages pipeline_ok)

text \<open>After \<open>k\<close> approvals the pipeline is in stage \<open>k\<close>, after three it is over.\<close>

lemma approvals:
  assumes "S g = Some \<lparr>w_id = d, w_stages = build_rd_pipeline ba dev qa, w_current = k, w_gate = None\<rparr>" "0 \<le> k" "k < 3"
    and "\<forall>evs \<in> set rs. approval_round evs" "k + int (length rs) \<le> 3"
  shows "run (concat rs) g S =
    (if k + int (length rs) = 3 then S(g := None)
     else S(g \<mapsto> \<lparr>w_id = d, w_stages = build_rd_pipeline ba dev qa, w_current = k + int (length rs), w_gate = None\<rparr>))"
  using assms
proof (induction rs arbitrary: k S)
  case Nil
  then show ?case by (simp add: fun_upd_idem)
next
  case (Cons evs rs)
  let ?w = "\<lambda>k. \<lparr>w_id = d, w_stages = build_rd_pipeline ba dev qa, w_current = k, w_gate = None\<rparr>"
  from approved [where S = S and g = g and w = "?w k", OF Cons.prems(1) pipeline_at_ok [OF Cons.prems(2,3)]] Cons.prems(4)
  have one: "run evs g S = (if k + 1 = 3 then S(g := None) else S(g \<mapsto> ?w (k + 1)))"
    by (simp add: gated_pipeline pipeline_stages)
  show ?case
  proof (cases "k + 1 = 3")
    case True
    with Cons.prems(5) one show ?thesis by (simp add: run_append)
  next
    case False
    define T where "T = S(g \<mapsto> ?w (k + 1))"
    have T: "run evs g S = T" "T g = Some (?w (k + 1))" "\<And>x. T(g := x) = S(g := x)" using False one by (simp_all add: T_def)
    have "run (concat rs) g T = (if k + 1 + int (length rs) = 3 then T(g := None) else T(g \<mapsto> ?w (k + 1 + int (length rs))))"
      using Cons.prems False by (intro Cons.IH) (simp_all add: T(2))
    then show ?thesis by (simp add: run_append T(1,3) add.assoc)
  qed
qed

lemma picked_family: "picked v bots f = Some b \<Longrightarrow> b \<in> set bots \<and> bot_family v b = Some f"
  by (auto simp: picked_def find_Some_iff)

definition pipeline_families :: "family list" where
  "pipeline_families = [BaFamily, DevFamily, QaFamily]"

lemma current_of:
  assumes "S g = Some w" "wf_ok w" "s_self (w_stages w ! nat (w_current w)) = Some b"
    "handler (w_stages w ! nat (w_current w)) = SingleType"
  shows "wf_current_bot g S = Some b"
proof -
  obtain x where x: "current_ctx g w = Some x" using wf_ok_current [OF assms(2)] by blast
  with assms current_ctxD(3) [OF assms(2) x] show ?thesis
    by (simp add: wf_current_bot_def group_ctx_def Stages.current_bot_def)
qed

text \<open>
  The default pipeline: after each approved round the next of analyst, developer and tester is
  on duty, each one a bot of the group with that role; after three rounds the workflow is over;
  and a tester who sends the work back without naming a stage has the developer on duty again.
\<close>

theorem pipeline_lifecycle:
  assumes "default_pipeline v bots = Inr stages" "\<forall>evs \<in> set rs. approval_round evs" "length rs \<le> 3"
    and "T = run (concat rs) g (snd (begin_workflow u g stages S))"
    and "sg_name sig = SIGNAL_REWORK" "sg_rework_idx sig = None" "sg_target sig = None" "env_ok u'"
    and "back = [RunEnded v' who r (Some (sig # ss)), Answered u' None remark revise]"
  shows "(length rs = 3 \<longrightarrow> T g = None) \<and>
    (\<forall>k < 3. length rs = k \<longrightarrow>
       (\<exists>b \<in> set bots. wf_current_bot g T = Some b \<and> bot_family v b = Some (pipeline_families ! k))) \<and>
    (length rs = 2 \<longrightarrow>
       (\<exists>b \<in> set bots. wf_current_bot g (run back g T) = Some b \<and> bot_family v b = Some DevFamily))"
proof -
  from assms(1) obtain ba dev qa where p: "picked v bots BaFamily = Some ba" "picked v bots DevFamily = Some dev"
      "picked v bots QaFamily = Some qa" and st: "stages = build_rd_pipeline ba dev qa"
    by (auto simp: default_pipeline_def split: option.splits)
  let ?w = "\<lambda>k. \<lparr>w_id = ''wf_'' @ e_uuid u, w_stages = build_rd_pipeline ba dev qa, w_current = k, w_gate = None\<rparr>"
  let ?S = "snd (begin_workflow u g stages S)"
  have T: "T = (if length rs = 3 then ?S(g := None) else ?S(g \<mapsto> ?w (int (length rs))))"
    using approvals [where S = ?S and g = g and k = 0 and rs = rs] assms(2,3) by (simp add: assms(4) st begun_pipeline)
  note on = current_of [where g = g, OF _ pipeline_at_ok]
  have duty: "wf_current_bot g (U(g \<mapsto> ?w (int k))) = Some ([ba, dev, qa] ! k)" if "k < 3" for k U
  proof -
    from that consider "k = 0" | "k = 1" | "k = 2" by linarith
    then show ?thesis
      by cases (simp_all add: on pipeline_stages build_ba_stage_def build_dev_stage_def build_qa_stage_def)
  qed
  have fam: "[ba, dev, qa] ! k \<in> set bots \<and> bot_family v ([ba, dev, qa] ! k) = Some (pipeline_families ! k)" if "k < 3" for k
    using that picked_family [OF p(1)] picked_family [OF p(2)] picked_family [OF p(3)]
    by (auto simp: pipeline_families_def less_Suc_eq numeral_3_eq_3)
  have "run back g T = T(g \<mapsto> ?w 1)" if "length rs = 2"
    unfolding assms(9)
    by (rule trans [OF sent_back [where w = "?w 2" and i = 1]])
      (use that assms(5-8) in \<open>simp_all add: T pipeline_at_ok gated_pipeline pipeline_stages build_qa_stage_def\<close>)
  with duty [of 1 T] fam [of 1] have "\<exists>b \<in> set bots. wf_current_bot g (run back g T) = Some b \<and> bot_family v b = Some DevFamily"
    if "length rs = 2"
    using that by (auto simp: pipeline_families_def)
  moreover have "\<exists>b \<in> set bots. wf_current_bot g T = Some b \<and> bot_family v b = Some (pipeline_families ! k)"
    if "k < 3" "length rs = k" for k
    using duty [of k ?S] fam [of k] that by (auto simp: T)
  ultimately show ?thesis by (simp add: T)
qed

section \<open>Where starting a workflow goes wrong\<close>

text \<open>
  A workflow that is started with a test bot only is stranded by its first rework: the test
  stage goes back to stage 1 when no development stage precedes it, and there is none. After
  the confirmation the workflow is still registered but has no current stage: every report and
  every answer is ignored, messages are routed as if there were no workflow, and a restart
  resumes nothing.
\<close>

theorem qa_alone_strands:
  assumes "bots i = Some b" "bot_family v b = Some QaFamily" "sc_bot c = Some i"
    and "sg_name sig = SIGNAL_REWORK" "sg_rework_idx sig = None" "sg_target sig = None"
    and "T = run [RunEnded v' who r (Some (sig # ss)), Answered u' None remark revise] g
               (snd (begin_workflow u g (start_spec v bots [c] []) S))"
  shows "T g \<noteq> None \<and> group_ctx g T = None \<and> resume_units g T = [] \<and>
    (\<forall>e who' r' sigs. observe e g who' r' sigs T = (Inr empty_step, T)) \<and>
    (\<forall>e gid n rv. confirm e g gid n rv T = (Inr empty_step, T))"
proof -
  define st where "st = with_keyword c (build_qa_stage b 1)"
  have spec: "start_spec v bots [c] [] = [st]"
    using assms(1-3) by (simp add: start_spec_def List.map_filter_def st_def role_stage_def get_default_def)
  have s: "s_type st = SingleType" "s_rework_to st = Some 1"
    by (auto simp: st_def with_keyword_def build_qa_stage_def gated_stage_def blank_stage_def split: option.split)
  define w where "w = \<lparr>w_id = ''wf_'' @ e_uuid u, w_stages = [st], w_current = 0, w_gate = None\<rparr>"
  define x where "x = \<lparr>x_group = g, x_stage = st, x_idx = 0, x_total = 1\<rparr>"
  have x: "current_ctx g w = Some x" by (simp add: current_ctx_def ctx_at_def stage_at_def w_def x_def)
  have "rework_target w x sig = Some 1" using assms(5,6) s by (simp add: rework_target_def x_def)
  with x assms(4) have "\<exists>p. snd (observe v' g who r (Some (sig # ss)) (S(g \<mapsto> w))) = S(g \<mapsto> w\<lparr>w_gate := Some p\<rparr>) \<and> gt_rework p = Some 1"
    by (auto simp: observe_def SIGNAL_REWORK_def SIGNAL_STAGE_DONE_def raise_gate_def Let_def x_def)
  then obtain p where p: "snd (observe v' g who r (Some (sig # ss)) (S(g \<mapsto> w))) = S(g \<mapsto> w\<lparr>w_gate := Some p\<rparr>)" "gt_rework p = Some 1"
    by blast
  have begun: "snd (begin_workflow u g [st] S) = S(g \<mapsto> w)" by (simp add: begin_workflow_def Let_def w_def)
  have out: "current_ctx g (w\<lparr>w_gate := None, w_current := 1\<rparr>) = None"
    by (simp add: current_ctx_def ctx_at_def stage_at_def w_def)
  have "T = S(g \<mapsto> w\<lparr>w_gate := None, w_current := 1\<rparr>)"
    using p out by (simp add: assms(7) spec begun wf_decides_def confirm_def add_first_def rewind_def Let_def)
  with out show ?thesis by (simp add: group_ctx_def resume_units_def observe_def confirm_def)
qed

text \<open>A rework may name a later stage: confirming it skips the stages in between.\<close>

lemma rework_can_skip_stages:
  assumes "env_ok u'" "sg_name sig = SIGNAL_REWORK" "sg_rework_idx sig = Some 2"
  shows "run [RunEnded v who r (Some (sig # ss)), Answered u' None remark revise] g
           (snd (begin_workflow u g (build_rd_pipeline ba dev qa) S)) =
         S(g \<mapsto> \<lparr>w_id = ''wf_'' @ e_uuid u, w_stages = build_rd_pipeline ba dev qa, w_current = 2, w_gate = None\<rparr>)"
  by (rule trans [OF sent_back [where i = 2 and w = "\<lparr>w_id = ''wf_'' @ e_uuid u, w_stages = build_rd_pipeline ba dev qa, w_current = 0, w_gate = None\<rparr>"]])
    (use assms in \<open>simp_all add: begun_pipeline pipeline_at_ok gated_pipeline pipeline_stages in_range_def\<close>)

section \<open>Worked instances\<close>

definition team_bot :: "int \<Rightarrow> utext \<Rightarrow> utext \<Rightarrow> bot" where
  "team_bot i n r = \<lparr>b_id = i, b_name = n, b_color = [], b_role = Some r, b_executor = None, b_expertise = NoExpertise\<rparr>"

definition team :: "bot list" where
  "team = [team_bot 1 [65] [98, 97], team_bot 2 [66] [68, 100, 101, 118], team_bot 3 [67] [81, 113, 97]]"

definition hello :: chat_message where
  "hello = \<lparr>cm_content = [64, 66, 32, 104, 105], cm_target = 0\<rparr>"

definition go_on :: chat_message where
  "go_on = \<lparr>cm_content = [111, 107], cm_target = 0\<rparr>"

lemma team_routes:
  "explicit_bots demo_env hello team = [team_bot 2 [66] [68, 100, 101, 118]]"
  "explicit_bots demo_env go_on team = []" "keyword_bots demo_env go_on team = []"
  by (simp_all add: explicit_bots_def keyword_bots_def Let_def hello_def go_on_def team_def team_bot_def u_strip_def u_space_def
      demo_env_def ascii_def role_family_def mentions_def should_bot_respond_def family_keywords_def get_default_def)

theorem follow_up_continues_witness:
  "recipients (dispatch_message demo_env True 3 go_on team Map.empty (chatted demo_env 3 team Map.empty [hello] Map.empty)) =
     [team_bot 2 [66] [68, 100, 101, 118]]"
proof -
  have f: "group_ctx 3 Map.empty = None" "distinct (map b_id team)" "b_id (team_bot 2 [66] [68, 100, 101, 118]) \<noteq> 0"
    by (simp_all add: group_ctx_def team_def team_bot_def)
  show ?thesis
    by (rule conjunct2, rule follow_up_continues [OF f, where between = "[]" and m = hello])
      (simp_all add: team_routes)
qed

theorem stage_has_priority_witness:
  "recipients (dispatch_message demo_env True 3 hello team [3 \<mapsto> demo_wf [demo_stage] None] Map.empty) = [demo_bot]"
proof -
  have ok: "wf_ok (demo_wf [demo_stage] None)"
    by (simp add: wf_ok_def demo_wf_def stage_ok_def demo_stage_def blank_stage_def handler_def in_range_def int_dict_def)
  have p: "participants team (x_stage (demo_ctx demo_stage)) = [demo_bot]"
    by (simp add: participants_def Stages.current_bot_def current_pool_bots_def handler_def demo_stage_def blank_stage_def)
  show ?thesis
    using stage_has_priority [where S = "[3 \<mapsto> demo_wf [demo_stage] None]" and g = 3 and bots = team and v = demo_env and m = hello
        and L = Map.empty and ok = True, OF _ ok demo_current] p
    by simp
qed

lemma team_pipeline:
  "\<exists>stages. default_pipeline demo_env team = Inr stages"
proof -
  have "picked demo_env team BaFamily \<noteq> None" "picked demo_env team DevFamily \<noteq> None" "picked demo_env team QaFamily \<noteq> None"
    by (simp_all add: picked_def team_def team_bot_def u_strip_def u_space_def demo_env_def ascii_def role_family_def
        mentions_def get_default_def)
  then show ?thesis by (auto simp: default_pipeline_def)
qed

theorem pipeline_lifecycle_witness:
  "\<exists>stages. default_pipeline demo_env team = Inr stages \<and>
     (\<exists>b \<in> set team. wf_current_bot 3 (run [RunEnded demo_env 1 [] (Some [done_signal]), Answered demo_env None [] False] 3
          (snd (begin_workflow demo_env 3 stages Map.empty))) = Some b \<and> bot_family demo_env b = Some DevFamily)"
proof -
  obtain stages where st: "default_pipeline demo_env team = Inr stages" using team_pipeline by blast
  let ?rs = "[[RunEnded demo_env 1 [] (Some [done_signal]), Answered demo_env None [] False]]"
  have rs: "\<forall>evs \<in> set ?rs. approval_round evs" "length ?rs \<le> 3"
    by (simp_all add: approval_round_def done_signal_def SIGNAL_STAGE_DONE_def)
  define rw where "rw = \<lparr>sg_name = SIGNAL_REWORK, sg_reason = None, sg_target = None, sg_rework_idx = None, sg_tool = None\<rparr>"
  have b: "sg_name rw = SIGNAL_REWORK" "sg_rework_idx rw = None" "sg_target rw = None"
    by (simp_all add: rw_def)
  from pipeline_lifecycle [where g = 3 and u = demo_env and S = Map.empty, OF st rs refl b demo_env_ok refl] st
  show ?thesis by (auto simp: pipeline_families_def)
qed

theorem qa_alone_strands_witness:
  "\<exists>T. T 3 \<noteq> None \<and> observe demo_env 3 8 [111] (Some [done_signal]) T = (Inr empty_step, T)"
proof -
  define bots :: "int \<Rightarrow> bot option" where "bots = [8 \<mapsto> team_bot 8 [67] [113, 97]]"
  define c where "c = \<lparr>sc_bot = Some 8, sc_done_keyword = None\<rparr>"
  define rw where "rw = \<lparr>sg_name = SIGNAL_REWORK, sg_reason = None, sg_target = None, sg_rework_idx = None, sg_tool = None\<rparr>"
  have b: "bots 8 = Some (team_bot 8 [67] [113, 97])" by (simp add: bots_def)
  have f: "bot_family demo_env (team_bot 8 [67] [113, 97]) = Some QaFamily"
    by (simp add: team_bot_def u_strip_def u_space_def demo_env_def ascii_def role_family_def mentions_def get_default_def)
  have c: "sc_bot c = Some 8" by (simp add: c_def)
  have rw: "sg_name rw = SIGNAL_REWORK" "sg_rework_idx rw = None" "sg_target rw = None" by (simp_all add: rw_def)
  show ?thesis
    using qa_alone_strands [where g = 3 and bots = bots and c = c and sig = rw and v = demo_env, OF b f c rw refl] by blast
qed

end
