(* ===== verification/WorkflowRun.thy ===== *)
theory WorkflowRun
  imports Routing TurnTaking CodingAgent
begin

text \<open>
  The runner, \<^verbatim>\<open>core/runner.py\<close>, with the durable snapshots of \<^verbatim>\<open>core/workflow_store.py\<close> and
  the facade \<^verbatim>\<open>core/workflow.py\<close>: how the step of an orchestrator becomes effects, what a run that
  fails leaves behind, and how a restart resumes workflows. An orchestrator is a parameter: the
  functions that decide, encode, restore and resume. The locale \<open>durable_orchestrator\<close> extends the
  interface by what durability needs; it is interpreted for all four orchestrators.
\<close>

section \<open>The state of a worker\<close>

datatype event =
    StateUpdate int
  | Finished int
  | Crashed int
  | Paused int string utext

record 'p card =
  cd_group :: int
  cd_gate :: "'p gate_card"
  cd_confirmed :: bool

record ('s, 'p, 'b) world =
  memory :: "int \<Rightarrow> 's option"
  bound :: "int \<Rightarrow> string option"
  stored :: "int \<Rightarrow> (string \<times> 'b) option"
  journal :: "(int \<times> string \<times> observation) list"
  posted :: "(int \<times> 'p \<times> int) list"
  cards :: "'p card list"
  published :: "event list"
  spawned :: "(int \<times> 'p work_unit) list"
  worktrees :: "(int \<times> utext \<times> ws_action) list"

text \<open>What can go wrong outside the process, and the exceptions it raises.\<close>

record effects =
  fx_workspace :: bool
  fx_store :: bool
  fx_post :: bool
  fx_card :: bool

datatype run_exc = NoTaskId | WorkspaceFailed | StoreFailed | PostFailed | CardFailed | RunCancelled | Undecided orch_exc

section \<open>Durable snapshots\<close>

definition upsert_state :: "string \<Rightarrow> int \<Rightarrow> 'b \<Rightarrow> ('s, 'p, 'b, 'z) world_scheme \<Rightarrow> ('s, 'p, 'b, 'z) world_scheme" where
  "upsert_state oid g b w = w\<lparr>stored := (stored w)(g \<mapsto> (oid, b))\<rparr>"

definition save_state ::
  "bool \<Rightarrow> string \<Rightarrow> int \<Rightarrow> 'b \<Rightarrow> ('s, 'p, 'b, 'z) world_scheme \<Rightarrow> (run_exc + unit) \<times> ('s, 'p, 'b, 'z) world_scheme" where
  "save_state ok oid g b w = (if ok then (Inr (), upsert_state oid g b w) else (Inl StoreFailed, w))"

definition clear_state ::
  "bool \<Rightarrow> int \<Rightarrow> ('s, 'p, 'b, 'z) world_scheme \<Rightarrow> (run_exc + unit) \<times> ('s, 'p, 'b, 'z) world_scheme" where
  "clear_state ok g w = (if ok then (Inr (), w\<lparr>stored := (stored w)(g := None)\<rparr>) else (Inl StoreFailed, w))"

definition commit_transition ::
  "bool \<Rightarrow> string \<Rightarrow> int \<Rightarrow> 'b option \<Rightarrow> observation list \<Rightarrow> bool \<Rightarrow> ('s, 'p, 'b, 'z) world_scheme \<Rightarrow>
   (run_exc + unit) \<times> ('s, 'p, 'b, 'z) world_scheme" where
  "commit_transition ok oid g state obs clear w =
     (let w1 = (if clear then w\<lparr>stored := (stored w)(g := None)\<rparr>
                else case state of None \<Rightarrow> w | Some b \<Rightarrow> upsert_state oid g b w)
      in if ok then (Inr (), w1\<lparr>journal := journal w1 @ map (\<lambda>ob. (g, oid, ob)) obs\<rparr>) else (Inl StoreFailed, w))"

section \<open>The history of a run\<close>

text \<open>
  What a run is shown of the last messages: those since the start of the workflow, and when no
  human has spoken since, the last human message before it. Times are compared as texts after
  \<open>norm\<close> has cut them to the same form.
\<close>

definition norm_time :: "utext \<Rightarrow> utext" where
  "norm_time ts =
     u_strip (takeWhile (\<lambda>c. c \<noteq> 43) (takeWhile (\<lambda>c. c \<noteq> 90) (map (\<lambda>c. if c = 84 then 32 else c) ts)))"

record chat_line =
  cl_at :: "utext option"
  cl_human :: bool
  cl_content :: utext

definition since :: "utext \<Rightarrow> chat_line \<Rightarrow> bool" where
  "since start m \<longleftrightarrow> lexordp_eq start (norm_time (get_default (cl_at m) []))"

fun newest_first :: "utext \<Rightarrow> bool \<Rightarrow> bool \<Rightarrow> chat_line list \<Rightarrow> chat_line list" where
  "newest_first start added seen [] = []"
| "newest_first start added seen (m # ms) =
     (if since start m then m # newest_first start added (seen \<or> cl_human m) ms
      else if cl_human m \<and> \<not> added \<and> \<not> seen then m # newest_first start True seen ms
      else newest_first start added seen ms)"

definition run_history :: "utext option \<Rightarrow> chat_line list \<Rightarrow> chat_line list" where
  "run_history start ms =
     (case start of None \<Rightarrow> ms
      | Some t \<Rightarrow> if t = [] then ms else rev (newest_first (norm_time t) False False (rev ms)))"

lemma newest_first_settled:
  "newest_first t True seen ms = filter (since t) ms" "newest_first t added True ms = filter (since t) ms"
  by (induction ms arbitrary: seen) simp_all

lemma newest_first_before:
  "list_all (\<lambda>m. \<not> since t m) ms \<Longrightarrow> newest_first t False False ms = (case find cl_human ms of None \<Rightarrow> [] | Some m \<Rightarrow> [m])"
  by (induction ms) (auto simp: newest_first_settled filter_empty_conv list_all_iff)

lemma newest_first_split:
  assumes "list_all (since t) xs" "list_all (\<lambda>m. \<not> since t m) ys"
  shows "newest_first t False seen (xs @ ys) =
    xs @ (if seen \<or> list_ex cl_human xs then [] else case find cl_human ys of None \<Rightarrow> [] | Some m \<Rightarrow> [m])"
  using assms(1)
proof (induction xs arbitrary: seen)
  case Nil
  have "filter (since t) ys = []" using assms(2) by (simp add: filter_empty_conv list_all_iff)
  then show ?case using newest_first_before [OF assms(2)] by (cases seen) (simp_all add: newest_first_settled)
qed auto

text \<open>
  When the messages are in the order of their times, a run is shown exactly the messages since
  the start of its workflow, preceded by the last human message before the start if no human has
  spoken since.
\<close>

theorem history_begins_with_workflow:
  assumes "ms = old @ new" "list_all (\<lambda>m. \<not> since (norm_time t) m) old" "list_all (since (norm_time t)) new" "t \<noteq> []"
  shows "run_history (Some t) ms =
    (if list_ex cl_human new then [] else case find cl_human (rev old) of None \<Rightarrow> [] | Some m \<Rightarrow> [m]) @ new"
proof -
  have "list_all (since (norm_time t)) (rev new)" "list_all (\<lambda>m. \<not> since (norm_time t) m) (rev old)"
    using assms(2,3) by (simp_all add: list_all_iff)
  from newest_first_split [OF this, of False] assms(1,4) show ?thesis
    by (simp add: run_history_def split: option.split)
qed

theorem history_begins_with_workflow_witness:
  "run_history (Some (ascii ''2024-05-02T10:00:00Z''))
     [\<lparr>cl_at = Some (ascii ''2024-05-01 09:00:00''), cl_human = True, cl_content = []\<rparr>,
      \<lparr>cl_at = Some (ascii ''2024-05-02 10:00:01''), cl_human = True, cl_content = []\<rparr>] =
     [\<lparr>cl_at = Some (ascii ''2024-05-02 10:00:01''), cl_human = True, cl_content = []\<rparr>]"
proof -
  let ?t = "ascii ''2024-05-02T10:00:00Z''"
  let ?o = "\<lparr>cl_at = Some (ascii ''2024-05-01 09:00:00''), cl_human = True, cl_content = []\<rparr>"
  let ?n = "\<lparr>cl_at = Some (ascii ''2024-05-02 10:00:01''), cl_human = True, cl_content = []\<rparr>"
  have "\<not> since (norm_time ?t) ?o" "since (norm_time ?t) ?n" "?t \<noteq> []"
    by (simp_all add: since_def norm_time_def ascii_def get_default_def u_strip_def u_space_def)
  then show ?thesis using history_begins_with_workflow [of "[?o, ?n]" "[?o]" "[?n]" ?t] by simp
qed

section \<open>From a step to effects\<close>

definition handle_workspace_action ::
  "bool \<Rightarrow> int \<Rightarrow> utext \<Rightarrow> ws_action \<Rightarrow> ('s, 'p, 'b, 'z) world_scheme \<Rightarrow> (run_exc + unit) \<times> ('s, 'p, 'b, 'z) world_scheme" where
  "handle_workspace_action ok g task a w =
     (if a = Retain then (Inr (), w)
      else if task = [] then (Inl NoTaskId, w)
      else if ok then (Inr (), w\<lparr>worktrees := worktrees w @ [(g, task, a)]\<rparr>)
      else (Inl WorkspaceFailed, w))"

text \<open>
  The durable part of a step: one transaction, or none when the step is silent. The state is
  encoded when the transaction is requested, not when it runs.
\<close>

datatype 'b txn =
    Transition int string "'b option" "observation list" bool
  | Clearing int
  | Saving int string 'b

definition step_txn :: "string \<Rightarrow> ('s \<Rightarrow> 'b) \<Rightarrow> int \<Rightarrow> 'p step \<Rightarrow> (int \<Rightarrow> 's option) \<Rightarrow> 'b txn option" where
  "step_txn oid enc g st S =
     (let blob = (if \<not> st_done st \<and> (broadcast_state st \<or> observations st \<noteq> []) then map_option enc (S g) else None)
      in if observations st \<noteq> [] then Some (Transition g oid blob (observations st) (st_done st))
         else if st_done st then Some (Clearing g)
         else map_option (Saving g oid) blob)"

fun run_txn ::
  "bool \<Rightarrow> 'b txn \<Rightarrow> ('s, 'p, 'b, 'z) world_scheme \<Rightarrow> (run_exc + unit) \<times> ('s, 'p, 'b, 'z) world_scheme" where
  "run_txn ok (Transition g oid b obs c) w = commit_transition ok oid g b obs c w"
| "run_txn ok (Clearing g) w = clear_state ok g w"
| "run_txn ok (Saving g oid b) w = save_state ok oid g b w"

definition persist_step ::
  "bool \<Rightarrow> string \<Rightarrow> ('s \<Rightarrow> 'b) \<Rightarrow> int \<Rightarrow> 'p step \<Rightarrow> ('s, 'p, 'b, 'z) world_scheme \<Rightarrow>
   (run_exc + unit) \<times> ('s, 'p, 'b, 'z) world_scheme" where
  "persist_step ok oid enc g st w =
     (case step_txn oid enc g st (memory w) of None \<Rightarrow> (Inr (), w) | Some t \<Rightarrow> run_txn ok t w)"

definition post_announcements ::
  "bool \<Rightarrow> int \<Rightarrow> ('p \<times> int) list \<Rightarrow> ('s, 'p, 'b, 'z) world_scheme \<Rightarrow> (run_exc + unit) \<times> ('s, 'p, 'b, 'z) world_scheme" where
  "post_announcements ok g anns w =
     (if anns = [] then (Inr (), w)
      else if ok then (Inr (), w\<lparr>posted := posted w @ map (\<lambda>(t, b). (g, t, b)) anns\<rparr>)
      else (Inl PostFailed, w))"

definition post_confirm_gate ::
  "bool \<Rightarrow> int \<Rightarrow> 'p gate_card option \<Rightarrow> ('s, 'p, 'b, 'z) world_scheme \<Rightarrow> (run_exc + unit) \<times> ('s, 'p, 'b, 'z) world_scheme" where
  "post_confirm_gate ok g gate w =
     (case gate of
        None \<Rightarrow> (Inr (), w)
      | Some c \<Rightarrow>
          if ok then (Inr (), w\<lparr>cards := cards w @ [\<lparr>cd_group = g, cd_gate = c, cd_confirmed = False\<rparr>]\<rparr>)
          else (Inl CardFailed, w))"

definition publish_step :: "int \<Rightarrow> 'p step \<Rightarrow> ('s, 'p, 'b, 'z) world_scheme \<Rightarrow> ('s, 'p, 'b, 'z) world_scheme" where
  "publish_step g st w =
     w\<lparr>published := published w
         @ (if broadcast_state st \<and> \<not> st_done st then [StateUpdate g] else [])
         @ (if st_done st then [Finished g] else [])
         @ (if confirm_gate st \<noteq> None then [Paused g ''gate'' []] else if st_done st then [Paused g ''done'' []] else [])
         @ (case workflow_paused st of None \<Rightarrow> [] | Some p \<Rightarrow> [Paused g (pz_reason p) (pz_details p)]),
       spawned := spawned w @ map (Pair g) (next_units st)\<rparr>"

definition and_then ::
  "(run_exc + unit) \<times> 'w \<Rightarrow> ('w \<Rightarrow> (run_exc + unit) \<times> 'w) \<Rightarrow> (run_exc + unit) \<times> 'w" where
  "and_then r f = (case r of (Inl e, w) \<Rightarrow> (Inl e, w) | (Inr u, w) \<Rightarrow> f w)"

definition apply_step ::
  "effects \<Rightarrow> string \<Rightarrow> ('s \<Rightarrow> 'b) \<Rightarrow> int \<Rightarrow> utext \<Rightarrow> 'p step \<Rightarrow> ('s, 'p, 'b, 'z) world_scheme \<Rightarrow>
   (run_exc + unit) \<times> ('s, 'p, 'b, 'z) world_scheme" where
  "apply_step fx oid enc g task st w =
     and_then (case workspace_action st of None \<Rightarrow> (Inr (), w) | Some a \<Rightarrow> handle_workspace_action (fx_workspace fx) g task a w)
       (\<lambda>w1. and_then (persist_step (fx_store fx) oid enc g st w1)
         (\<lambda>w2. and_then (post_announcements (fx_post fx) g (announcements st) w2)
           (\<lambda>w3. and_then (post_confirm_gate (fx_card fx) g (confirm_gate st) w3)
             (\<lambda>w4. (Inr (), publish_step g st w4)))))"

section \<open>A run\<close>

text \<open>
  What the executor, the creation of the worktree included, comes to; \<open>BoxFailed\<close> is a worktree
  that could not be created.
\<close>

datatype outcome =
    Completed utext "signal list"
  | AIFailed utext
  | RunFailed utext
  | BoxFailed
  | Cancelled

definition ticket_of :: "'p work_unit \<Rightarrow> utext" where
  "ticket_of u = (case wu_tag u of TicketId t \<Rightarrow> t | _ \<Rightarrow> [])"

text \<open>Discarding the worktree of a failed run; its own failure is only logged.\<close>

definition discard_box :: "bool \<Rightarrow> int \<Rightarrow> 'p work_unit \<Rightarrow> ('s, 'p, 'b, 'z) world_scheme \<Rightarrow> ('s, 'p, 'b, 'z) world_scheme" where
  "discard_box ok g u w =
     (if ticket_of u = [] then w else snd (handle_workspace_action ok g (ticket_of u) Discard w))"

definition apply_decision ::
  "effects \<Rightarrow> string \<Rightarrow> ('s \<Rightarrow> 'b) \<Rightarrow> int \<Rightarrow> utext \<Rightarrow> ('s, 'p) decision \<Rightarrow> ('s, 'p, 'b, 'z) world_scheme \<Rightarrow>
   (run_exc + unit) \<times> ('s, 'p, 'b, 'z) world_scheme" where
  "apply_decision fx oid enc g task d w =
     (let w' = w\<lparr>memory := snd d\<rparr> in
      case fst d of Inl e \<Rightarrow> (Inl (Undecided e), w') | Inr st \<Rightarrow> apply_step fx oid enc g task st w')"

definition run_unit_body ::
  "effects \<Rightarrow> string \<Rightarrow> ('s \<Rightarrow> 'b) \<Rightarrow> (int \<Rightarrow> utext \<Rightarrow> signal list option \<Rightarrow> int \<Rightarrow> (int \<Rightarrow> 's option) \<Rightarrow> ('s, 'p) decision) \<Rightarrow>
   (utext \<Rightarrow> 'p) \<Rightarrow> int \<Rightarrow> 'p work_unit \<Rightarrow> outcome \<Rightarrow> ('s, 'p, 'b, 'z) world_scheme \<Rightarrow>
   (run_exc + unit) \<times> ('s, 'p, 'b, 'z) world_scheme" where
  "run_unit_body fx oid enc obs report g u res w =
     (case res of
        Completed response sigs \<Rightarrow>
          if response = [] \<and> sigs = [] then (Inr (), w)
          else apply_decision fx oid enc g (ticket_of u) (obs (b_id (wu_bot u)) response (Some sigs) g (memory w)) w
      | Cancelled \<Rightarrow> (Inl RunCancelled, discard_box (fx_workspace fx) g u w)
      | AIFailed e \<Rightarrow>
          and_then (post_announcements (fx_post fx) g [(report e, b_id (wu_bot u))] (discard_box (fx_workspace fx) g u w))
            (\<lambda>w1. (Inr (), w1\<lparr>published := published w1 @ [Paused g ''provider_unavailable'' e]\<rparr>))
      | RunFailed e \<Rightarrow>
          and_then (post_announcements (fx_post fx) g [(report e, b_id (wu_bot u))] (discard_box (fx_workspace fx) g u w))
            (\<lambda>w1. clear_state (fx_store fx) g (w1\<lparr>published := published w1 @ [Crashed g]\<rparr>))
      | BoxFailed \<Rightarrow>
          and_then (post_announcements (fx_post fx) g [(report (ticket_of u), b_id (wu_bot u))] w)
            (\<lambda>w1. clear_state (fx_store fx) g (w1\<lparr>published := published w1 @ [Crashed g]\<rparr>)))"

section \<open>Restart\<close>

text \<open>\<open>_group_orch\<close> says which orchestrator a group is bound to.\<close>

definition workflow_v1 :: string where "workflow_v1 = ''workflow_v1''"

definition bind_group :: "int \<Rightarrow> string \<Rightarrow> ('s, 'p, 'b, 'z) world_scheme \<Rightarrow> ('s, 'p, 'b, 'z) world_scheme" where
  "bind_group g oid w = w\<lparr>bound := (bound w)(g \<mapsto> (if oid = [] then workflow_v1 else oid))\<rparr>"

text \<open>
  \<open>resume_workflows\<close> for one row: the state is restored and saved again with the recovery
  observation; the units in flight are dispatched again unless the tool loop recovers its own
  sessions. \<open>restore\<close> gives None when it raises: the row is then skipped.
\<close>

definition resume_group ::
  "bool \<Rightarrow> ('s \<Rightarrow> 'b) \<Rightarrow> (int \<Rightarrow> 'b \<Rightarrow> (int \<Rightarrow> 's option) \<Rightarrow> (int \<Rightarrow> 's option) option) \<Rightarrow>
   (int \<Rightarrow> (int \<Rightarrow> 's option) \<Rightarrow> observation option) \<Rightarrow> (int \<Rightarrow> (int \<Rightarrow> 's option) \<Rightarrow> 'p work_unit list) \<Rightarrow>
   int \<Rightarrow> ('s, 'p, 'b, 'z) world_scheme \<Rightarrow> (run_exc + unit) \<times> ('s, 'p, 'b, 'z) world_scheme" where
  "resume_group ok enc restore recovered resume g w =
     (case stored w g of
        None \<Rightarrow> (Inr (), w)
      | Some (oid, b) \<Rightarrow>
          (case restore g b (memory w) of
             None \<Rightarrow> (Inr (), w)
           | Some S' \<Rightarrow>
               let w1 = bind_group g oid (w\<lparr>memory := S'\<rparr>); again = map_option enc (S' g) in
               and_then
                 (case recovered g S' of
                    Some ob \<Rightarrow> commit_transition ok oid g again [ob] False w1
                  | None \<Rightarrow> (case again of None \<Rightarrow> (Inr (), w1) | Some c \<Rightarrow> save_state ok oid g c w1))
                 (\<lambda>w2. (Inr (), w2\<lparr>published := published w2 @ [StateUpdate g],
                     spawned := spawned w2 @ map (Pair g) (filter (\<lambda>u. wu_executor u \<noteq> tool_loop_v1) (resume g S'))\<rparr>))))"

section \<open>The facade\<close>

text \<open>\<open>_orch_for\<close>: the orchestrator a group is bound to, the declarative one by default.\<close>

definition orch_for :: "(string \<Rightarrow> 'o option) \<Rightarrow> (int \<Rightarrow> string option) \<Rightarrow> int \<Rightarrow> 'o option" where
  "orch_for registry R g =
     (case registry (get_default (R g) workflow_v1) of None \<Rightarrow> registry workflow_v1 | Some ob \<Rightarrow> Some ob)"

definition is_workflow_participant :: "bot option \<Rightarrow> int list option \<Rightarrow> int \<Rightarrow> bool" where
  "is_workflow_participant current pool b \<longleftrightarrow>
     (case current of None \<Rightarrow> False | Some c \<Rightarrow> b_id c = b) \<or> (case pool of None \<Rightarrow> False | Some bs \<Rightarrow> b \<in> set bs)"

text \<open>
  The recovery of a session observes the text of the recovered run without its signals
  (\<^verbatim>\<open>sessions/recovery.py\<close> calls \<open>check_and_advance\<close>); nothing happens for a bot that is not on duty.
\<close>

definition check_and_advance ::
  "effects \<Rightarrow> string \<Rightarrow> ('s \<Rightarrow> 'b) \<Rightarrow> (int \<Rightarrow> utext \<Rightarrow> signal list option \<Rightarrow> int \<Rightarrow> (int \<Rightarrow> 's option) \<Rightarrow> ('s, 'p) decision) \<Rightarrow>
   int \<Rightarrow> utext \<Rightarrow> int \<Rightarrow> ('s, 'p, 'b, 'z) world_scheme \<Rightarrow> (run_exc + unit) \<times> ('s, 'p, 'b, 'z) world_scheme" where
  "check_and_advance fx oid enc obs g response who w =
     apply_decision fx oid enc g [] (obs who response None g (memory w)) w"

definition observe_recovered ::
  "effects \<Rightarrow> string \<Rightarrow> ('s \<Rightarrow> 'b) \<Rightarrow> (int \<Rightarrow> utext \<Rightarrow> signal list option \<Rightarrow> int \<Rightarrow> (int \<Rightarrow> 's option) \<Rightarrow> ('s, 'p) decision) \<Rightarrow>
   bool \<Rightarrow> bool \<Rightarrow> int \<Rightarrow> utext \<Rightarrow> int \<Rightarrow> ('s, 'p, 'b, 'z) world_scheme \<Rightarrow> (run_exc + unit) \<times> ('s, 'p, 'b, 'z) world_scheme" where
  "observe_recovered fx oid enc obs on_duty is_child g response who w =
     (if response \<noteq> [] \<and> \<not> is_child \<and> on_duty then check_and_advance fx oid enc obs g response who w else (Inr (), w))"

definition mark_gate_confirmed :: "int \<Rightarrow> string option \<Rightarrow> 'p card list \<Rightarrow> 'p card list" where
  "mark_gate_confirmed g gid cs =
     (case gid of
        None \<Rightarrow> cs
      | Some i \<Rightarrow> if i = [] then cs else
          map (\<lambda>c. if cd_group c = g \<and> gc_gate (cd_gate c) = i then c\<lparr>cd_confirmed := True\<rparr> else c) cs)"

definition confirm_workflow ::
  "effects \<Rightarrow> bool \<Rightarrow> string \<Rightarrow> ('s \<Rightarrow> 'b) \<Rightarrow> int \<Rightarrow> string option \<Rightarrow> ('s, 'p) decision \<Rightarrow> ('s, 'p, 'b, 'z) world_scheme \<Rightarrow>
   (run_exc + unit) \<times> ('s, 'p, 'b, 'z) world_scheme" where
  "confirm_workflow fx marks oid enc g gid d w =
     and_then (apply_decision fx oid enc g [] d w)
       (\<lambda>w1. (Inr (), if marks then w1\<lparr>cards := mark_gate_confirmed g gid (cards w1)\<rparr> else w1))"

definition end_workflow ::
  "bool \<Rightarrow> int \<Rightarrow> ('s, 'p, 'b, 'z) world_scheme \<Rightarrow> (run_exc + unit) \<times> ('s, 'p, 'b, 'z) world_scheme" where
  "end_workflow ok g w = clear_state ok g (w\<lparr>memory := end_group g (memory w), bound := (bound w)(g := None)\<rparr>)"

text \<open>
  Eviction of a group from a worker saves the live state once more (\<^verbatim>\<open>runtime/lifecycle.py\<close>); a
  failure is logged.
\<close>

definition save_before_eviction ::
  "bool \<Rightarrow> ('s \<Rightarrow> 'b) \<Rightarrow> int \<Rightarrow> ('s, 'p, 'b, 'z) world_scheme \<Rightarrow> ('s, 'p, 'b, 'z) world_scheme" where
  "save_before_eviction ok enc g w =
     (case bound w g of
        None \<Rightarrow> w
      | Some oid \<Rightarrow> (case memory w g of None \<Rightarrow> w | Some s \<Rightarrow> snd (save_state ok oid g (enc s) w)))"

section \<open>Decisions and transactions interleave\<close>

text \<open>
  A decision changes the memory at once; its transaction waits for the serialized writer, in the
  order of the requests. Between the two any number of other decisions may be taken. A step with a
  worktree action asks for its transaction only when the worktree has been dealt with, and not at
  all when that failed. \<open>dec\<close> stands for every deciding call of the orchestrator, \<open>begin\<close> included.
\<close>

record ('s, 'p, 'b) node = "('s, 'p, 'b) world" +
  queue :: "'b txn list"
  working :: "(int \<times> 'p step) list"

definition asked :: "'b txn option \<Rightarrow> 'b txn list" where
  "asked t = (case t of None \<Rightarrow> [] | Some x \<Rightarrow> [x])"

inductive node_step ::
  "('i \<Rightarrow> int \<Rightarrow> (int \<Rightarrow> 's option) \<Rightarrow> ('s, 'p) decision) \<Rightarrow> ('i \<Rightarrow> bool) \<Rightarrow> string \<Rightarrow> ('s \<Rightarrow> 'b) \<Rightarrow>
   ('s, 'p, 'b) node \<Rightarrow> ('s, 'p, 'b) node \<Rightarrow> bool"
  for dec :: "'i \<Rightarrow> int \<Rightarrow> (int \<Rightarrow> 's option) \<Rightarrow> ('s, 'p) decision" and ok and oid and enc :: "'s \<Rightarrow> 'b" where
  Decides: "ok i \<Longrightarrow> dec i g (memory n) = (Inr st, S') \<Longrightarrow> workspace_action st = None \<Longrightarrow>
    node_step dec ok oid enc n (n\<lparr>memory := S', queue := queue n @ asked (step_txn oid enc g st S')\<rparr>)"
| Raises: "ok i \<Longrightarrow> dec i g (memory n) = (Inl e, S') \<Longrightarrow> node_step dec ok oid enc n (n\<lparr>memory := S'\<rparr>)"
| Delays: "ok i \<Longrightarrow> dec i g (memory n) = (Inr st, S') \<Longrightarrow> workspace_action st = Some a \<Longrightarrow>
    node_step dec ok oid enc n (n\<lparr>memory := S', working := working n @ [(g, st)]\<rparr>)"
| Worked: "working n = xs @ (g, st) # ys \<Longrightarrow>
    node_step dec ok oid enc n
      (n\<lparr>working := xs @ ys, queue := queue n @ asked (step_txn oid enc g st (memory n))\<rparr>)"
| WorkFails: "working n = xs @ (g, st) # ys \<Longrightarrow> node_step dec ok oid enc n (n\<lparr>working := xs @ ys\<rparr>)"
| Ends: "node_step dec ok oid enc n
    (n\<lparr>memory := end_group g (memory n), bound := (bound n)(g := None), queue := queue n @ [Clearing g]\<rparr>)"
| Runs: "queue n = t # q \<Longrightarrow> node_step dec ok oid enc n ((snd (run_txn True t n))\<lparr>queue := q\<rparr>)"

definition fresh_node :: "('s, 'p, 'b) node" where
  "fresh_node = \<lparr>memory = Map.empty, bound = Map.empty, stored = Map.empty, journal = [], posted = [], cards = [],
     published = [], spawned = [], worktrees = [], queue = [], working = []\<rparr>"

text \<open>What a transaction does to the rows, and the rows once every requested transaction has run.\<close>

fun txn_rows :: "'b txn \<Rightarrow> (int \<Rightarrow> (string \<times> 'b) option) \<Rightarrow> (int \<Rightarrow> (string \<times> 'b) option)" where
  "txn_rows (Transition g oid b obs c) R =
     (if c then R(g := None) else case b of None \<Rightarrow> R | Some x \<Rightarrow> R(g \<mapsto> (oid, x)))"
| "txn_rows (Clearing g) R = R(g := None)"
| "txn_rows (Saving g oid b) R = R(g \<mapsto> (oid, b))"

definition rows_to_be :: "('s, 'p, 'b) node \<Rightarrow> int \<Rightarrow> (string \<times> 'b) option" where
  "rows_to_be n = fold txn_rows (queue n) (stored n)"

lemma run_txn_effect:
  "stored (snd (run_txn True t w)) = txn_rows t (stored w)"
  "memory (snd (run_txn True t w)) = memory w" "node.working (snd (run_txn True t n)) = node.working n"
  by (cases t; simp add: commit_transition_def upsert_state_def clear_state_def save_state_def Let_def split: option.split)+

lemma asked_rows:
  "fold txn_rows (asked (step_txn oid enc g st S)) R =
     (if is_silent st then R else if st_done st then R(g := None)
      else case S g of None \<Rightarrow> R | Some s \<Rightarrow> R(g \<mapsto> (oid, enc s)))"
  by (auto simp: asked_def step_txn_def is_silent_def Let_def split: option.split)

text \<open>
  What durability needs of an orchestrator beyond the interface: no decision raises or touches a
  worktree, a decision that is stored leaves a state unless it ends the workflow, and \<open>begin\<close>
  registers a live state.
\<close>

locale durable_orchestrator = orchestrator decides input_ok live encode restore
  for decides :: "'i \<Rightarrow> int \<Rightarrow> (int \<Rightarrow> 's option) \<Rightarrow> ('s, 'p) decision"
    and input_ok :: "'i \<Rightarrow> bool" and live :: "'s \<Rightarrow> bool" and encode :: "'s \<Rightarrow> 'b"
    and restore :: "int \<Rightarrow> 'b \<Rightarrow> (int \<Rightarrow> 's option) \<Rightarrow> (int \<Rightarrow> 's option)" +
  fixes begins :: "'a \<Rightarrow> int \<Rightarrow> (int \<Rightarrow> 's option) \<Rightarrow> ('s, 'p) decision"
    and begin_ok :: "'a \<Rightarrow> bool"
  assumes total: "input_ok i \<Longrightarrow> group_ok live g S \<Longrightarrow> \<exists>st. fst (decides i g S) = Inr st"
    and hands_off: "input_ok i \<Longrightarrow> group_ok live g S \<Longrightarrow> fst (decides i g S) = Inr st \<Longrightarrow> workspace_action st = None"
    and registers: "input_ok i \<Longrightarrow> group_ok live g S \<Longrightarrow> fst (decides i g S) = Inr st \<Longrightarrow> \<not> is_silent st \<Longrightarrow>
        \<not> st_done st \<Longrightarrow> snd (decides i g S) g \<noteq> None"
    and begun: "begin_ok a \<Longrightarrow>
        \<exists>st s. begins a g S = (Inr st, S(g \<mapsto> s)) \<and> live s \<and> \<not> st_done st \<and> broadcast_state st \<and>
          workspace_action st = None"
begin

definition settled :: "string \<Rightarrow> ('s, 'p, 'b) node \<Rightarrow> bool" where
  "settled oid n \<longleftrightarrow>
     working n = [] \<and>
     (\<forall>g. group_ok live g (memory n) \<and> rows_to_be n g = map_option (\<lambda>s. (oid, encode s)) (memory n g))"

lemma settledD:
  assumes "settled oid n"
  shows "working n = []" "group_ok live g (memory n)"
    and "rows_to_be n g = map_option (\<lambda>s. (oid, encode s)) (memory n g)"
  using assms by (simp_all add: settled_def)

lemma settled_changed:
  assumes "settled oid n" "\<And>h. h \<noteq> g \<Longrightarrow> S' h = memory n h" "group_ok live g S'"
    and "is_silent st \<Longrightarrow> S' g = memory n g" "\<not> is_silent st \<Longrightarrow> S' g = None \<longleftrightarrow> st_done st"
  shows "settled oid (n\<lparr>memory := S', queue := queue n @ asked (step_txn oid encode g st S')\<rparr>)"
  unfolding settled_def
proof (intro conjI allI)
  fix h
  show "group_ok live h (memory (n\<lparr>memory := S', queue := queue n @ asked (step_txn oid encode g st S')\<rparr>))"
    using assms(2) [of h] assms(3) settledD(2) [OF assms(1), of h] by (cases "h = g") (simp_all add: group_ok_def)
  have "rows_to_be (n\<lparr>memory := S', queue := queue n @ asked (step_txn oid encode g st S')\<rparr>) =
      fold txn_rows (asked (step_txn oid encode g st S')) (rows_to_be n)" by (simp add: rows_to_be_def)
  then show "rows_to_be (n\<lparr>memory := S', queue := queue n @ asked (step_txn oid encode g st S')\<rparr>) h =
      map_option (\<lambda>s. (oid, encode s)) (memory (n\<lparr>memory := S', queue := queue n @ asked (step_txn oid encode g st S')\<rparr>) h)"
    using assms(2) [of h] assms(4,5) settledD(3) [OF assms(1), of h]
    by (cases "h = g") (auto simp: asked_rows split: option.split)
qed (simp add: settledD(1) [OF assms(1)])

lemma decision:
  assumes "case_sum begin_ok input_ok i" "group_ok live g S"
  shows "\<exists>st S'. case_sum begins decides i g S = (Inr st, S') \<and> workspace_action st = None \<and>
           (\<forall>h. h \<noteq> g \<longrightarrow> S' h = S h) \<and> group_ok live g S' \<and> (is_silent st \<longrightarrow> S' g = S g) \<and>
           (\<not> is_silent st \<longrightarrow> (S' g = None \<longleftrightarrow> st_done st))"
proof (cases i)
  case (Inl a)
  with assms(1) begun [of a g S] obtain st s where
    "begins a g S = (Inr st, S(g \<mapsto> s))" "live s" "\<not> st_done st" "broadcast_state st" "workspace_action st = None" by auto
  with Inl show ?thesis by (simp add: is_silent_def)
next
  case (Inr j)
  with assms have j: "input_ok j" by simp
  note laws = isolated [OF j assms(2)] keeps [OF j assms(2)] silent [OF j assms(2)] forgets [OF j assms(2)]
    registers [OF j assms(2)] hands_off [OF j assms(2)]
  from total [OF j assms(2)] obtain st where st: "fst (decides j g S) = Inr st" ..
  then have "case_sum begins decides i g S = (Inr st, snd (decides j g S))" using Inr by (simp add: prod_eq_iff)
  moreover have "\<not> is_silent st \<longrightarrow> (snd (decides j g S) g = None \<longleftrightarrow> st_done st)"
    using laws(4,5) [OF st] by (cases "st_done st") auto
  ultimately show ?thesis using laws(1,2) laws(3,6) [OF st]
    by (intro exI [of _ st] exI [of _ "snd (decides j g S)"]) simp
qed

lemma settled_step:
  assumes "node_step (case_sum begins decides) (case_sum begin_ok input_ok) oid encode n n'" "settled oid n"
  shows "settled oid n'"
  using assms(1)
proof (cases rule: node_step.cases)
  case (Decides i g st S')
  with decision [OF Decides(2) settledD(2) [OF assms(2), of g]] show ?thesis
    by (auto intro!: settled_changed [OF assms(2)])
next
  case (Raises i g e S')
  with decision [OF Raises(2) settledD(2) [OF assms(2), of g]] show ?thesis by auto
next
  case (Delays i g st S' a)
  with decision [OF Delays(2) settledD(2) [OF assms(2), of g]] show ?thesis by auto
next
  case (Worked xs g st ys)
  with settledD(1) [OF assms(2)] show ?thesis by simp
next
  case (WorkFails xs g st ys)
  with settledD(1) [OF assms(2)] show ?thesis by simp
next
  case (Ends g)
  with assms(2) show ?thesis by (auto simp: settled_def end_group_def rows_to_be_def group_ok_def)
next
  case (Runs t q)
  then have "rows_to_be n' = rows_to_be n" by (simp add: rows_to_be_def run_txn_effect)
  with Runs assms(2) show ?thesis by (simp add: settled_def run_txn_effect)
qed

lemma reachable_settled:
  "(node_step (case_sum begins decides) (case_sum begin_ok input_ok) oid encode)\<^sup>*\<^sup>* fresh_node n \<Longrightarrow> settled oid n"
proof (induction rule: rtranclp_induct)
  case base
  show ?case by (simp add: settled_def fresh_node_def rows_to_be_def)
next
  case (step n n')
  then show ?case using settled_step by blast
qed

text \<open>Once the requested transactions have run the row is the state, and a restart finds it again.\<close>

lemma reachable_mirrored:
  "(node_step (case_sum begins decides) (case_sum begin_ok input_ok) oid encode)\<^sup>*\<^sup>* fresh_node n \<Longrightarrow> queue n = [] \<Longrightarrow>
   stored n g = map_option (\<lambda>s. (oid, encode s)) (memory n g)"
  using settledD(3) [OF reachable_settled, of oid n g] by (simp add: rows_to_be_def)

lemma restart_finds:
  assumes "(node_step (case_sum begins decides) (case_sum begin_ok input_ok) oid encode)\<^sup>*\<^sup>* fresh_node n" "queue n = []"
    and "\<And>s. live s \<Longrightarrow> reload g (encode s) Map.empty = Some (restore g (encode s) Map.empty)"
    and "r = resume_group True encode reload recovered resume g (n\<lparr>memory := Map.empty, bound := Map.empty\<rparr>)"
  shows "fst r = Inr () \<and> memory (snd r) g = memory n g \<and> stored (snd r) g = stored n g"
proof -
  note m = reachable_mirrored [OF assms(1,2)]
  show ?thesis
  proof (cases "memory n g")
    case None
    with m show ?thesis by (simp add: assms(4) resume_group_def)
  next
    case (Some s)
    from group_okD [where g = g, OF settledD(2) [OF reachable_settled [OF assms(1)]] Some] have "live s" .
    from assms(3) [OF this] restores [OF this, of g Map.empty]
    have r: "reload g (encode s) Map.empty = Some [g \<mapsto> s]" by simp
    from m Some have "stored n g = Some (oid, encode s)" by simp
    with r Some show ?thesis
      by (simp add: assms(4) resume_group_def Let_def and_then_def commit_transition_def upsert_state_def save_state_def
          bind_group_def split: option.split)
  qed
qed

end


section \<open>The orchestrators that leave worktrees alone\<close>

text \<open>Only the coding agent decides about worktrees.\<close>

definition no_action :: "(orch_exc + 'p step) \<Rightarrow> bool" where
  "no_action r \<longleftrightarrow> (case r of Inl e \<Rightarrow> True | Inr st \<Rightarrow> workspace_action st = None)"

lemma no_action_simps [simp]:
  "no_action (Inl e)" "no_action (Inr st) \<longleftrightarrow> workspace_action st = None"
  by (simp_all add: no_action_def)

lemma no_actionD: "no_action r \<Longrightarrow> r = Inr st \<Longrightarrow> workspace_action st = None"
  by simp

lemma no_action_turns: "no_action (fst (rr_decides i g S))" "no_action (fst (dc_decides rnd i g T))"
proof -
  have "no_action (fst (rr_advance_cursor g a S))" for a
    by (simp add: rr_advance_cursor_def Let_def rr_step_to_current_def split: option.split)
  then show "no_action (fst (rr_decides i g S))"
    by (simp add: rr_decides_def rr_dispatch_def rr_observe_def rr_advance_def Let_def split: turn_input.split option.split)
  have "no_action (fst (dc_advance_cursor g a T))" for a
    by (simp add: dc_advance_cursor_def Let_def dc_step_to_current_def split: option.split)
  then show "no_action (fst (dc_decides rnd i g T))"
    by (simp add: dc_decides_def dc_dispatch_def dc_observe_def dc_advance_def Let_def split: turn_input.split option.split)
qed

lemma no_action_enter: "no_action (fst (enter_current v g prev w))"
  by (simp add: enter_current_def enter_def enter_single_def enter_pool_def enter_discussion_def enter_verification_def Let_def
      split: option.split prod.split sum.split stage_type.split list.split)

lemma enter_actionD: "enter_current v g prev w = (Inr st, w') \<Longrightarrow> workspace_action st = None"
  using no_action_enter [of v g prev w] by simp

lemma no_action_advance: "no_action (fst (advance_stage v g prev src a S))"
  by (auto simp: advance_stage_def Let_def dest!: enter_actionD split: option.split prod.split sum.split)

lemma no_action_merge: "workspace_action base = None \<Longrightarrow> no_action (fst (merge_advance c base d))"
  by (cases "fst d") (simp_all add: merge_advance_def)

lemma no_action_gate: "no_action (fst (raise_gate v x response r a S))"
  by (simp add: raise_gate_def Let_def split: option.split)

lemma no_action_stage: "no_action (fst (observe_stage v x who response S))"
proof -
  have "no_action (fst (observe_single v x response S))"
    by (simp add: observe_single_def Let_def no_action_gate no_action_advance)
  moreover have "no_action (fst (observe_pool v x who response S))"
    by (simp add: observe_pool_def Let_def no_action_merge split: option.split list.split)
  moreover have "no_action (fst (observe_discussion v x who response S))"
    by (simp add: observe_discussion_def Let_def no_action_advance)
  moreover have "no_action (fst (observe_vote v x who response S))"
    by (simp add: observe_vote_def finish_vote_def Let_def no_action_merge split: list.split)
  moreover have "no_action (fst (observe_propose v x who response S))"
    by (simp add: observe_propose_def Let_def split: list.split)
  ultimately show ?thesis by (simp add: observe_stage_def split: stage_type.split)
qed

lemma no_action_signals: "observe_signals v x who response sigs w S = Some d \<Longrightarrow> no_action (fst d)"
  by (induction sigs) (auto simp: no_action_gate no_action_advance no_action_stage split: if_splits option.splits)

lemma no_action_observe: "no_action (fst (observe v g who response sigs S))"
  by (auto simp: observe_def no_action_stage dest: no_action_signals split: option.split)

lemma no_action_confirm: "no_action (fst (confirm v g gid remark revise S))"
proof -
  have add: "no_action (fst d) \<Longrightarrow> no_action (fst (add_first ob d))" for ob and d :: choice
    by (cases "fst d") (simp_all add: add_first_def)
  have "no_action (fst (rewind v g t prev remark a S))" "no_action (fst (redo v g prev remark a S))" for t prev a
    by (auto simp: rewind_def redo_def Let_def mark_units_def dest!: enter_actionD split: option.split prod.split sum.split)
  then show ?thesis by (simp add: confirm_def Let_def add no_action_advance split: option.split)
qed

lemma no_action_wf: "no_action (fst (wf_decides i g S))"
  by (simp add: wf_decides_def advance_def no_action_observe no_action_confirm no_action_advance split: wf_input.split)

section \<open>The orchestrators are durable\<close>

text \<open>A live state never raises; a lawful decision that is stored and does not end registers.\<close>

lemma rr_total:
  assumes "group_ok rr_live g S"
  shows "\<exists>st. fst (rr_decides i g S) = Inr st"
proof (cases "S g")
  case None
  then show ?thesis
    by (simp add: rr_decides_def rr_dispatch_def rr_observe_def rr_advance_def rr_advance_cursor_def split: turn_input.split)
next
  case (Some s)
  note live = group_okD [where g = g, OF assms Some]
  have cur: "\<exists>st. fst (rr_advance_cursor g a S) = Inr st" for a
    by (rule rr_cursor_cases [of S g s a, OF Some live]) simp_all
  show ?thesis
    using cur [of HumanActor] cur [of "BotActor (case i of BotReport b \<Rightarrow> b | _ \<Rightarrow> 0)"] Some rr_live_item [OF live]
    by (cases i) (simp_all add: rr_decides_def rr_dispatch_def rr_observe_def rr_advance_def Let_def)
qed

lemma dc_total:
  assumes "group_ok dc_live g S"
  shows "\<exists>st. fst (dc_decides rnd i g S) = Inr st"
proof (cases "S g")
  case None
  then show ?thesis
    by (simp add: dc_decides_def dc_dispatch_def dc_observe_def dc_advance_def dc_advance_cursor_def split: turn_input.split)
next
  case (Some s)
  note live = group_okD [where g = g, OF assms Some]
  then obtain b where b: "dc_speaker s = Some b" using dc_live_speaker by blast
  have cur: "\<exists>st. fst (dc_advance_cursor g a S) = Inr st" for a
    by (rule dc_cursor_cases [of S g s b a, OF Some live b]) simp_all
  from live have "item (dc_bots s) (dc_idx s) = Some (dc_bots s ! dc_idx s)"
    by (simp add: dc_live_def cursor_ok_def split: if_splits)
  then show ?thesis
    using cur [of HumanActor] cur [of "BotActor (case i of BotReport c \<Rightarrow> c | _ \<Rightarrow> 0)"] Some b
    by (cases i) (auto simp: dc_decides_def dc_dispatch_def dc_observe_def dc_advance_def Let_def)
qed

lemma lawful_registers:
  "lawful g S d \<Longrightarrow> fst d = Inr st \<Longrightarrow> \<not> is_silent st \<Longrightarrow> \<not> st_done st \<Longrightarrow> snd d g \<noteq> None"
  by (auto simp: lawful_def is_silent_def)


lemma same_upd: "S(g \<mapsto> a) = S(g \<mapsto> b) \<longleftrightarrow> a = b"
  by (metis fun_upd_same option.inject)

lemma rr_begins:
  "bots \<noteq> [] \<Longrightarrow> 1 \<le> rounds \<Longrightarrow>
   \<exists>st s. rr_begin wid now g bots rounds S = (Inr st, S(g \<mapsto> s)) \<and> rr_live s \<and> \<not> st_done st \<and> broadcast_state st \<and>
     workspace_action st = None"
  by (simp add: rr_begin_def Let_def rr_live_def cursor_ok_def same_upd)

lemma dc_begins:
  "pick_summarizer bots sid \<noteq> None \<Longrightarrow> bots \<noteq> [] \<Longrightarrow> 1 \<le> rounds \<Longrightarrow>
   \<exists>st s. dc_begin wid now g bots rounds sid S = (Inr st, S(g \<mapsto> s)) \<and> dc_live s \<and> \<not> st_done st \<and> broadcast_state st \<and>
     workspace_action st = None"
  by (cases "pick_summarizer bots sid") (simp_all add: dc_begin_def Let_def same_upd, simp add: dc_live_def cursor_ok_def)

lemma wf_begins:
  "sts \<noteq> [] \<Longrightarrow> list_all (stage_ok (length sts)) sts \<Longrightarrow>
   \<exists>st s. begin_workflow u g sts S = (Inr st, S(g \<mapsto> s)) \<and> wf_ok s \<and> \<not> st_done st \<and> broadcast_state st \<and>
     workspace_action st = None"
  by (simp add: begin_workflow_def Let_def wf_ok_def same_upd)

lemma wf_registers:
  "outcome_ok g S d \<Longrightarrow> fst d = Inr st \<Longrightarrow> \<not> is_silent st \<Longrightarrow> \<not> st_done st \<Longrightarrow> snd d g \<noteq> None"
  by (auto simp: outcome_ok_def is_silent_def)

interpretation rr_dur: durable_orchestrator rr_decides "\<lambda>_. True" rr_live rr_blob "rr_restore fresh"
  "\<lambda>(wid, now, bots, rounds) g S. rr_begin wid now g bots rounds S" "\<lambda>(wid, now, bots, rounds). bots \<noteq> [] \<and> 1 \<le> rounds"
  for fresh
  by unfold_locales (use rr_total lawful_registers [OF lawful_rr] rr_begins no_actionD [OF no_action_turns(1)] in \<open>auto split: prod.splits\<close>)

interpretation dc_dur: durable_orchestrator "dc_decides rnd" "\<lambda>_. True" dc_live dc_blob "dc_restore fresh"
  "\<lambda>(wid, now, bots, rounds, sid) g S. dc_begin wid now g bots rounds sid S"
  "\<lambda>(wid, now, bots, rounds, sid). pick_summarizer bots sid \<noteq> None \<and> bots \<noteq> [] \<and> 1 \<le> rounds"
  for rnd fresh
  by unfold_locales (use dc_total lawful_registers [OF lawful_dc] dc_begins no_actionD [OF no_action_turns(2)] in \<open>auto split: prod.splits\<close>)

interpretation wf_dur: durable_orchestrator wf_decides "\<lambda>i. env_ok (input_env i)" wf_ok blob_of
  "\<lambda>g b S. snd (restore_blob v g b S)"
  "\<lambda>(u, sts) g S. begin_workflow u g sts S" "\<lambda>(u, sts). sts \<noteq> [] \<and> list_all (stage_ok (length sts)) sts"
  for v
  by unfold_locales
    (use outcome_laws(2) [OF outcome_decides] wf_registers [OF outcome_decides] wf_begins no_actionD [OF no_action_wf] in \<open>auto split: prod.splits\<close>)


section \<open>A restart restores what was stored\<close>

definition wf_step :: "(workflow, prompt, blob) node \<Rightarrow> (workflow, prompt, blob) node \<Rightarrow> bool" where
  "wf_step = node_step (case_sum (\<lambda>(u, sts) g S. begin_workflow u g sts S) wf_decides)
     (case_sum (\<lambda>(u, sts). sts \<noteq> [] \<and> list_all (stage_ok (length sts)) sts) (\<lambda>i. env_ok (input_env i))) workflow_v1 blob_of"

definition rr_step :: "(rr_state, turn_prompt, string option \<times> rr_state) node \<Rightarrow> (rr_state, turn_prompt, string option \<times> rr_state) node \<Rightarrow> bool" where
  "rr_step = node_step (case_sum (\<lambda>(wid, now, bots, rounds) g S. rr_begin wid now g bots rounds S) rr_decides)
     (case_sum (\<lambda>(wid, now, bots, rounds). bots \<noteq> [] \<and> 1 \<le> rounds) (\<lambda>_. True)) ''round_robin_v1'' rr_blob"

definition dc_step ::
  "string \<Rightarrow> (disc_state, turn_prompt, string option \<times> disc_state) node \<Rightarrow> (disc_state, turn_prompt, string option \<times> disc_state) node \<Rightarrow> bool" where
  "dc_step rnd = node_step (case_sum (\<lambda>(wid, now, bots, rounds, sid) g S. dc_begin wid now g bots rounds sid S) (dc_decides rnd))
     (case_sum (\<lambda>(wid, now, bots, rounds, sid). pick_summarizer bots sid \<noteq> None \<and> bots \<noteq> [] \<and> 1 \<le> rounds) (\<lambda>_. True))
     ''discussion_v1'' dc_blob"

definition ag_step ::
  "(agent_state, agent_prompt, string option \<times> agent_state) node \<Rightarrow> (agent_state, agent_prompt, string option \<times> agent_state) node \<Rightarrow> bool" where
  "ag_step = node_step (case_sum (\<lambda>(wid, now, spec) g S. ag_begin wid now g spec S) ag_decides)
     (case_sum (\<lambda>(wid, now, spec). as_bots spec \<noteq> []) (\<lambda>_. True)) ''coding_agent_v1'' ag_blob"

text \<open>\<open>restore\<close> as \<open>resume_workflows\<close> sees it: a state, or an exception that is logged.\<close>

definition wf_reload :: "env \<Rightarrow> int \<Rightarrow> blob \<Rightarrow> workflows \<Rightarrow> workflows option" where
  "wf_reload v g b S = (case restore_blob v g b S of (Inl e, S') \<Rightarrow> None | (Inr u, S') \<Rightarrow> Some S')"

definition crashed :: "('s, 'p, 'b) node \<Rightarrow> ('s, 'p, 'b) node" where
  "crashed n = n\<lparr>memory := Map.empty, bound := Map.empty\<rparr>"


text \<open>The same for the two turn-taking orchestrators.\<close>

lemma restart_restores_turns:
  shows "rr_step\<^sup>*\<^sup>* fresh_node n \<Longrightarrow> queue n = [] \<Longrightarrow>
      memory (snd (resume_group True rr_blob (\<lambda>g b S. Some (rr_restore fresh g b S)) rr_recovery_observation ru g (crashed n))) g = memory n g"
    and "(dc_step rnd)\<^sup>*\<^sup>* fresh_node m \<Longrightarrow> queue m = [] \<Longrightarrow>
      memory (snd (resume_group True dc_blob (\<lambda>g b S. Some (dc_restore fresh g b S)) dc_recovery_observation du g (crashed m))) g = memory m g"
proof -
  show "memory (snd (resume_group True rr_blob (\<lambda>g b S. Some (rr_restore fresh g b S)) rr_recovery_observation ru g (crashed n))) g = memory n g"
    if "rr_step\<^sup>*\<^sup>* fresh_node n" "queue n = []"
    using rr_dur.restart_finds [where reload = "\<lambda>g b S. Some (rr_restore fresh g b S)", OF that(1) [unfolded rr_step_def] that(2) refl refl] unfolding crashed_def by blast
  show "memory (snd (resume_group True dc_blob (\<lambda>g b S. Some (dc_restore fresh g b S)) dc_recovery_observation du g (crashed m))) g = memory m g"
    if "(dc_step rnd)\<^sup>*\<^sup>* fresh_node m" "queue m = []"
    using dc_dur.restart_finds [where reload = "\<lambda>g b S. Some (dc_restore fresh g b S)", OF that(1) [unfolded dc_step_def] that(2) refl refl] unfolding crashed_def by blast
qed

section \<open>What is not durable\<close>

text \<open>
  A run whose executor fails clears the stored row of its group but not the state in memory:
  the workflow is reported as ended and a restart would not find it, and yet it goes on deciding,
  and the eviction of the group stores it again.
\<close>

theorem crashed_run_is_resurrected:
  assumes "memory w g = Some s" "bound w g = Some oid" "fx_post fx" "fx_store fx"
    and "r = run_unit_body fx oid enc obs report g u (RunFailed e) w"
  shows "fst r = Inr () \<and> stored (snd r) g = None \<and> Crashed g \<in> set (published (snd r)) \<and>
    memory (snd r) g = Some s \<and> stored (save_before_eviction True enc g (snd r)) g = Some (oid, enc s)"
proof -
  have "memory (discard_box ok g u w) = memory w" "bound (discard_box ok g u w) = bound w" for ok
    by (simp_all add: discard_box_def handle_workspace_action_def)
  with assms show ?thesis
    by (simp add: run_unit_body_def post_announcements_def and_then_def clear_state_def save_before_eviction_def
        save_state_def upsert_state_def)
qed

lemma runs_one:
  assumes "queue n = [t]" "R = node_step dec ok oid enc"
  shows "\<exists>n'. R n n' \<and> queue n' = [] \<and> working n' = working n \<and> memory n' = memory n \<and> stored n' = txn_rows t (stored n)"
  unfolding assms(2) using node_step.Runs [OF assms(1)]
  by (intro exI [of _ "(snd (run_txn True t n))\<lparr>queue := []\<rparr>"]) (simp add: run_txn_effect)

lemma ag_steps:
  "ag_observe g who sigs (memory n) = (Inr st, S') \<Longrightarrow> workspace_action st = Some a \<Longrightarrow>
   ag_step n (n\<lparr>memory := S', working := working n @ [(g, st)]\<rparr>)"
  "ag_begin wid now g spec (memory n) = (Inr st, S') \<Longrightarrow> workspace_action st = None \<Longrightarrow> as_bots spec \<noteq> [] \<Longrightarrow>
   ag_step n (n\<lparr>memory := S', queue := queue n @ asked (step_txn ''coding_agent_v1'' ag_blob g st S')\<rparr>)"
  unfolding ag_step_def
  by (rule node_step.Delays [where i = "Inr (RunEnded who sigs)"], simp_all add: ag_decides_def)
    (rule node_step.Decides [where i = "Inl (wid, now, spec)"], simp_all)

lemma ag_promotes:
  assumes "S g = Some s" "\<not> ag_done s" "ag_observe g who sigs S = (Inr st, S')" "workspace_action st = Some Promote"
  shows "st_done st \<and> observations st \<noteq> [] \<and> S' = S(g := None)"
proof (rule ag_observe_cases [of S g s sigs who, OF assms(1,2)])
qed (use assms(3,4) in \<open>simp_all add: ag_finish_def end_group_def\<close>, auto)

text \<open>
  The step of a coding agent that ends asks for its transaction only after the worktree has
  been promoted. A workflow that begins in the same group meanwhile is stored first; the
  transaction of the one that has ended then deletes the row of its successor.
\<close>

theorem late_clear_forgets_successor:
  fixes spec :: agent_spec
  assumes "memory n g = Some s" "\<not> ag_done s" "queue n = []" "working n = []"
    and "ag_observe g who sigs (memory n) = (Inr st, S')" "workspace_action st = Some Promote"
    and "as_bots spec \<noteq> []"
  shows "\<exists>n'. ag_step\<^sup>*\<^sup>* n n' \<and> queue n' = [] \<and> working n' = [] \<and> memory n' g \<noteq> None \<and> stored n' g = None"
proof -
  from ag_promotes [OF assms(1,2,5,6)] have fin: "st_done st" "observations st \<noteq> []" by simp_all
  from assms(7) obtain b bs where spec: "as_bots spec = b # bs" by (cases "as_bots spec") simp_all
  obtain st2 s2 where d: "ag_begin ''w'' ''t'' g spec S' = (Inr st2, S'(g \<mapsto> s2))" "\<not> st_done st2"
      "observations st2 \<noteq> []" "workspace_action st2 = None"
    using spec by (simp add: ag_begin_def Let_def)
  let ?t1 = "Transition g ''coding_agent_v1'' (Some (ag_blob s2)) (observations st2) False"
  let ?t2 = "Transition g ''coding_agent_v1'' (None :: (string option \<times> agent_state) option) (observations st) True"
  define n1 where "n1 = n\<lparr>memory := S', working := [(g, st)]\<rparr>"
  define n2 where "n2 = n1\<lparr>memory := S'(g \<mapsto> s2), queue := [?t1]\<rparr>"
  have "ag_step n n1"
    using ag_steps(1) [OF assms(5,6)] assms(4) by (simp add: n1_def)
  moreover have "ag_step n1 n2"
    using ag_steps(2) [of "''w''" "''t''" g spec n1 st2 "S'(g \<mapsto> s2)"] d assms(3,7)
    by (simp add: n2_def n1_def step_txn_def Let_def asked_def)
  moreover obtain n3 where n3: "ag_step n2 n3" "queue n3 = []" "working n3 = [(g, st)]" "memory n3 = S'(g \<mapsto> s2)"
    using runs_one [of n2 ?t1, OF _ ag_step_def] by (auto simp: n2_def n1_def)
  moreover define n4 where "n4 = n3\<lparr>working := [], queue := [?t2]\<rparr>"
  have "ag_step n3 n4"
    unfolding ag_step_def using node_step.Worked [of n3 "[]" g st "[]"] n3(2,3) fin
    by (simp add: n4_def step_txn_def Let_def asked_def)
  moreover obtain n5 where "ag_step n4 n5" "queue n5 = []" "working n5 = []" "memory n5 = S'(g \<mapsto> s2)" "stored n5 g = None"
    using runs_one [of n4 ?t2, OF _ ag_step_def] n3(4) by (auto simp: n4_def)
  ultimately show ?thesis
    by (intro exI [of _ n5]) (auto intro: rtranclp.rtrancl_into_rtrancl)
qed

text \<open>
  The recovery of a session passes on the text of the recovered run, but not its signals: a coding
  agent that had reported completion is only paused, and its worktree is not promoted.
\<close>

lemma recovered_completion_is_lost:
  assumes "memory w g = Some s" "\<not> ag_done s"
    and "r = observe_recovered fx oid ag_blob (\<lambda>who response sigs g S. ag_observe g who sigs S) True False g response who w"
  shows "memory (snd r) = memory w \<and> worktrees (snd r) = worktrees w \<and>
    (response \<noteq> [] \<and> fx_store fx \<longrightarrow> fst r = Inr () \<and> Paused g ''completion_signal_missing''
       (ascii ''Bot run completed without calling signal_stage_done or signal_rework'') \<in> set (published (snd r)))"
proof -
  have ob: "ag_observe g who None (memory w) = (Inr (ag_paused s who ''completion_signal_missing''
      (ascii ''Bot run completed without calling signal_stage_done or signal_rework'') []), memory w)"
    using assms(1,2) by (simp add: ag_observe_def get_default_def)
  define d where "d = ascii ''Bot run completed without calling signal_stage_done or signal_rework''"
  show ?thesis
    unfolding assms(3) observe_recovered_def check_and_advance_def apply_decision_def ob d_def [symmetric]
    by (simp add: apply_step_def and_then_def persist_step_def step_txn_def Let_def commit_transition_def save_state_def
        upsert_state_def post_announcements_def post_confirm_gate_def publish_step_def ag_paused_def assms(1)
        split: option.split sum.split)
qed

section \<open>Worked instances\<close>


theorem crashed_run_is_resurrected_witness:
  "\<exists>w :: (agent_state, agent_prompt, string option \<times> agent_state) world.
     stored w 3 = None \<and> stored (save_before_eviction True ag_blob 3 w) 3 = Some (''coding_agent_v1'', ag_blob demo_agent)"
proof -
  define w :: "(agent_state, agent_prompt, string option \<times> agent_state) world" where
    "w = \<lparr>memory = [3 \<mapsto> demo_agent], bound = [3 \<mapsto> ''coding_agent_v1''], stored = Map.empty, journal = [], posted = [],
       cards = [], published = [], spawned = [], worktrees = []\<rparr>"
  have "memory w 3 = Some demo_agent" "bound w 3 = Some ''coding_agent_v1''" by (simp_all add: w_def)
  from crashed_run_is_resurrected [OF this, of "\<lparr>fx_workspace = True, fx_store = True, fx_post = True, fx_card = True\<rparr>",
      OF _ _ refl, of ag_blob "\<lambda>who response sigs g S. ag_observe g who sigs S" "\<lambda>_. NoSuffix" "ag_unit demo_agent Resume" "[]"]
  show ?thesis by (simp only: effects.simps) blast
qed

theorem late_clear_forgets_successor_witness:
  "\<exists>n :: (agent_state, agent_prompt, string option \<times> agent_state) node.
     queue n = [] \<and> working n = [] \<and> memory n 3 \<noteq> None \<and> stored n 3 = None"
proof -
  define n :: "(agent_state, agent_prompt, string option \<times> agent_state) node" where
    "n = fresh_node\<lparr>memory := [3 \<mapsto> demo_agent]\<rparr>"
  have m: "memory n 3 = Some demo_agent" "\<not> ag_done demo_agent" "queue n = []" "working n = []"
    by (simp_all add: n_def fresh_node_def demo_agent_def)
  have "ag_observe 3 7 (Some demo_signals) [3 \<mapsto> demo_agent] = ag_finish 3 7 demo_agent [3 \<mapsto> demo_agent]"
    by (simp add: ag_observe_def demo_signals_def demo_agent_def get_default_def successful_tools_def
        is_signal_done_def SIGNAL_STAGE_DONE_def is_signal_rework_def SIGNAL_REWORK_def)
  then obtain st S' where "ag_observe 3 7 (Some demo_signals) (memory n) = (Inr st, S')" "workspace_action st = Some Promote"
    by (simp add: ag_finish_def n_def)
  from late_clear_forgets_successor [OF m this, of "\<lparr>as_bots = [CodingAgent.demo_bot], as_requirements = [], as_test = [],
      as_task = [], as_needs_pr = False\<rparr>"]
  show ?thesis by auto
qed

end
