(* ===== verification/Tokens.thy ===== *)
theory Tokens
  imports UText "HOL-Library.List_Lexorder"
begin

text \<open>
  Messages of a model conversation and their size: \<^verbatim>\<open>executors/compact_tokens.py\<close> with its incremental
  cache, \<^verbatim>\<open>executors/compact_thresholds.py\<close>, \<^verbatim>\<open>executors/compact_truncation.py\<close>, and the parts of
  \<^verbatim>\<open>executors/compact.py\<close> that put workspace files back into a compacted conversation.
\<close>

section \<open>Messages\<close>

datatype role = NoRole | User | Assistant | ToolRole | SystemRole

definition role_text :: "role \<Rightarrow> utext" where
  "role_text r = ascii (case r of NoRole \<Rightarrow> '''' | User \<Rightarrow> ''user'' | Assistant \<Rightarrow> ''assistant''
     | ToolRole \<Rightarrow> ''tool'' | SystemRole \<Rightarrow> ''system'')"

datatype block =
    PlainItem utext
  | TextBlock "utext option"
  | ImageBlock
  | DocumentBlock
  | NestedResult "block list"
  | OtherBlock "utext option"

datatype content = NoContent | Text utext | Blocks "block list"

text \<open>
  A tool call: its id, its name and its arguments, keys sorted, each with its rendered value (a
  string value is represented by itself), but for \<open>_memory_refs\<close>, which the dispatcher takes out:
  absent, an array of strings, or anything else. \<open>m_call\<close> is the \<open>tool_call_id\<close> of a result, \<open>m_calls\<close>
  the calls an answer asks for.
\<close>

type_synonym arguments = "(utext \<times> utext) list"

datatype raw_refs = NoRefs | RefList "utext list" | RefJunk

record tool_call =
  c_id :: utext
  c_name :: utext
  c_args :: arguments
  c_refs :: raw_refs

record msg =
  m_role :: role
  m_content :: content
  m_name :: "utext option"
  m_call :: "utext option"
  m_calls :: "tool_call list"

text \<open>\<open>content or ""\<close> is empty exactly for these.\<close>

definition blank :: "content \<Rightarrow> bool" where
  "blank c \<longleftrightarrow> c = NoContent \<or> c = Text [] \<or> c = Blocks []"

text \<open>\<open>clean_multimodal_content\<close>: images and documents become placeholders.\<close>

fun block_text :: "block \<Rightarrow> utext" where
  "block_text (PlainItem s) = s"
| "block_text (TextBlock t) = get_default t []"
| "block_text ImageBlock = [91, 22270, 29255, 25968, 25454, 93]"
| "block_text DocumentBlock = [91, 25991, 26723, 25968, 25454, 93]"
| "block_text (NestedResult bs) = join_with [32] (filter (\<lambda>p. u_strip p \<noteq> []) (map block_text bs))"
| "block_text (OtherBlock t) =
     91 # (if get_default t [] = [] then [26410, 30693, 25968, 25454, 31867, 22411]
           else get_default t []) @ [93]"

definition clean_content :: "content \<Rightarrow> utext" where
  "clean_content c =
     (case c of NoContent \<Rightarrow> [] | Text t \<Rightarrow> t
      | Blocks bs \<Rightarrow> join_with [32] (filter (\<lambda>p. u_strip p \<noteq> []) (map block_text bs)))"

section \<open>Estimating tokens\<close>

definition is_cjk :: "nat \<Rightarrow> bool" where
  "is_cjk c \<longleftrightarrow> (19968 \<le> c \<and> c \<le> 40959) \<or> (13312 \<le> c \<and> c \<le> 19903) \<or> (63744 \<le> c \<and> c \<le> 64255) \<or>
     (131072 \<le> c \<and> c \<le> 173791) \<or> (12288 \<le> c \<and> c \<le> 12351) \<or> (12352 \<le> c \<and> c \<le> 12543) \<or> (44032 \<le> c \<and> c \<le> 55215)"

definition count_cjk :: "utext \<Rightarrow> nat" where
  "count_cjk t = length (filter is_cjk t)"

text \<open>
  \<open>rp\<close> stands for \<open>str\<close> on a list of blocks, \<open>sc\<close> for the conversion of character counts with the
  calibrated factor, a floating-point number; \<open>default_scale\<close> is the conversion at the default 2.
\<close>

definition content_cjk :: "(block list \<Rightarrow> utext) \<Rightarrow> content \<Rightarrow> nat" where
  "content_cjk rp c = (case c of NoContent \<Rightarrow> 0 | Text t \<Rightarrow> count_cjk t | Blocks bs \<Rightarrow> count_cjk (rp bs))"

definition content_chars :: "(block list \<Rightarrow> utext) \<Rightarrow> content \<Rightarrow> nat" where
  "content_chars rp c = (case c of NoContent \<Rightarrow> 0 | Text t \<Rightarrow> length t | Blocks bs \<Rightarrow> length (rp bs))"

definition msg_verifier :: "(block list \<Rightarrow> utext) \<Rightarrow> msg \<Rightarrow> utext" where
  "msg_verifier rp m =
     (if blank (m_content m) then []
      else case m_content m of NoContent \<Rightarrow> [] | Text t \<Rightarrow> take 32 t | Blocks bs \<Rightarrow> take 32 (rp bs))"

definition message_chars :: "(block list \<Rightarrow> utext) \<Rightarrow> msg \<Rightarrow> nat" where
  "message_chars rp m = content_chars rp (m_content m) + length (get_default (m_name m) []) + 8"

definition message_cjk :: "(block list \<Rightarrow> utext) \<Rightarrow> msg \<Rightarrow> nat" where
  "message_cjk rp m = content_cjk rp (m_content m) + count_cjk (get_default (m_name m) [])"

definition default_scale :: "nat \<Rightarrow> nat \<Rightarrow> nat" where
  "default_scale chars cjk = (chars + cjk * 2) div 4"

text \<open>The cache maps the identity of a list to its length, its counts and the start of its last message.\<close>

type_synonym measure = "nat \<times> nat \<times> nat \<times> utext"
type_synonym token_cache = "(nat \<times> measure) list"

definition last_verifier :: "(block list \<Rightarrow> utext) \<Rightarrow> msg list \<Rightarrow> utext" where
  "last_verifier rp ms = (if ms = [] then [] else msg_verifier rp (last ms))"

definition measured :: "(block list \<Rightarrow> utext) \<Rightarrow> msg list \<Rightarrow> measure" where
  "measured rp ms =
     (length ms, sum_list (map (message_chars rp) ms), sum_list (map (message_cjk rp) ms), last_verifier rp ms)"

definition remeasure ::
  "(nat \<Rightarrow> nat \<Rightarrow> nat) \<Rightarrow> (block list \<Rightarrow> utext) \<Rightarrow> nat \<Rightarrow> msg list \<Rightarrow> token_cache \<Rightarrow> nat \<times> token_cache" where
  "remeasure sc rp key ms C =
     (let C' = (if 32 \<le> length C then drop 16 C else C)
      in (sc (sum_list (map (message_chars rp) ms)) (sum_list (map (message_cjk rp) ms)),
          dict_set key (measured rp ms) C'))"

definition estimate_tokens ::
  "(nat \<Rightarrow> nat \<Rightarrow> nat) \<Rightarrow> (block list \<Rightarrow> utext) \<Rightarrow> nat \<Rightarrow> msg list \<Rightarrow> token_cache \<Rightarrow> nat \<times> token_cache" where
  "estimate_tokens sc rp key ms C =
     (case map_of C key of
        None \<Rightarrow> remeasure sc rp key ms C
      | Some (n, chars, cjk, ver) \<Rightarrow>
          if n = length ms \<and> last_verifier rp ms = ver then (sc chars cjk, C)
          else if n + 1 = length ms \<and> (n < 2 \<or> msg_verifier rp (ms ! (length ms - 2)) = ver) then
            let chars' = chars + message_chars rp (last ms); cjk' = cjk + message_cjk rp (last ms)
            in (sc chars' cjk', dict_set key (length ms, chars', cjk', msg_verifier rp (last ms)) C)
          else remeasure sc rp key ms C)"

definition exact_tokens :: "(nat \<Rightarrow> nat \<Rightarrow> nat) \<Rightarrow> (block list \<Rightarrow> utext) \<Rightarrow> msg list \<Rightarrow> nat" where
  "exact_tokens sc rp ms = sc (sum_list (map (message_chars rp) ms)) (sum_list (map (message_cjk rp) ms))"

text \<open>Selecting the factor of a model forgets every measure.\<close>

definition activate_calibration :: "string \<Rightarrow> (string \<times> 'f) list \<Rightarrow> 'f \<Rightarrow> 'f \<times> token_cache" where
  "activate_calibration key factors dflt = (get_default (map_of factors key) dflt, [])"

lemma dict_del_drop: "distinct (map fst C) \<Longrightarrow> distinct (map fst (drop n C))"
  by (simp flip: drop_map)

lemma estimate_cache_bounded:
  assumes "length C \<le> 32"
  shows "length (snd (estimate_tokens sc rp key ms C)) \<le> 32"
proof -
  have r: "length (snd (remeasure sc rp key ms C)) \<le> 32"
    using assms by (simp add: remeasure_def Let_def length_dict_set)
  show ?thesis
  proof (cases "map_of C key")
    case (Some e)
    then have "has_key key C" by (force simp: has_key_def dest!: map_of_SomeD)
    with Some r assms show ?thesis
      by (auto simp: estimate_tokens_def Let_def length_dict_set split: prod.splits)
  qed (simp add: estimate_tokens_def r)
qed

lemma remeasure_exact:
  "fst (remeasure sc rp key ms C) = exact_tokens sc rp ms \<and>
   map_of (snd (remeasure sc rp key ms C)) key = Some (measured rp ms)"
  by (simp add: remeasure_def Let_def exact_tokens_def)

lemma measured_append1:
  "measured rp (ms @ [m]) =
     (Suc (length ms), fst (snd (measured rp ms)) + message_chars rp m,
      fst (snd (snd (measured rp ms))) + message_cjk rp m, msg_verifier rp m)"
  by (simp add: measured_def last_verifier_def)

text \<open>
  C23. The incremental estimate is exact as long as a list only grows: if the cache knows nothing
  of the list, or has measured it before some messages were appended, the estimate is that of the
  whole list, and the cache has measured the whole list afterwards.
\<close>

theorem estimate_is_exact:
  assumes "map_of C key = None \<or> (\<exists>old new. map_of C key = Some (measured rp old) \<and> ms = old @ new)"
  shows "fst (estimate_tokens sc rp key ms C) = exact_tokens sc rp ms \<and>
    map_of (snd (estimate_tokens sc rp key ms C)) key = Some (measured rp ms)"
  using assms
proof (elim disjE exE conjE)
  assume "map_of C key = None"
  then show ?thesis by (simp add: estimate_tokens_def remeasure_exact)
next
  fix old new assume e: "map_of C key = Some (measured rp old)" "ms = old @ new"
  consider "new = []" | m where "new = [m]" | "length new > 1"
    by (cases new; cases "tl new") auto
  then show ?thesis
  proof cases
    case 1
    with e show ?thesis by (simp add: estimate_tokens_def measured_def exact_tokens_def)
  next
    case 2
    then have "length old < 2 \<or> msg_verifier rp (ms ! (length ms - 2)) = last_verifier rp old"
      using e(2) by (cases old rule: rev_cases) (auto simp: last_verifier_def nth_append)
    with 2 e show ?thesis
      by (auto simp: estimate_tokens_def measured_def exact_tokens_def Let_def last_verifier_def)
  next
    case 3
    with e show ?thesis by (auto simp: estimate_tokens_def measured_def remeasure_exact)
  qed
qed

text \<open>
  Not so when a list is another one at the same address, or has been changed in place: the length
  and the first characters of the last message do not tell them apart.
\<close>

lemma estimate_can_be_stale:
  assumes "map_of C key = Some (measured rp old)" "length old = length ms" "last_verifier rp old = last_verifier rp ms"
  shows "fst (estimate_tokens sc rp key ms C) = exact_tokens sc rp old"
  using assms by (simp add: estimate_tokens_def measured_def exact_tokens_def)

section \<open>Thresholds\<close>

definition context_windows :: "(string \<times> int) list" where
  "context_windows =
     [(''deepseek-chat'', 64000), (''deepseek-reasoner'', 64000), (''gpt-4o'', 128000), (''gpt-4o-mini'', 128000),
      (''gpt-4-turbo'', 128000), (''claude-opus-4-7'', 200000), (''claude-sonnet-4-6'', 200000),
      (''claude-haiku-4-5'', 200000), (''qwen-max'', 32000), (''qwen-plus'', 131072)]"

definition window_of :: "string \<Rightarrow> int" where
  "window_of model = get_default (map_of context_windows model) 64000"

definition autocompact_threshold :: "string \<Rightarrow> int" where
  "autocompact_threshold model = window_of model - 20000 - 13000"

text \<open>\<open>int(window * 0.70)\<close> and \<open>int(window * 0.15 * 4)\<close> are these quotients for every window of the table.\<close>

definition snip_threshold :: "string \<Rightarrow> int" where
  "snip_threshold model = window_of model * 7 div 10"

definition char_cap :: "string option \<Rightarrow> nat \<Rightarrow> nat" where
  "char_cap model dflt =
     (case model of None \<Rightarrow> dflt
      | Some m \<Rightarrow> if m = [] then dflt else max 20000 (min 160000 (nat (window_of m * 6 div 10))))"

lemma window_cases: "window_of model \<in> {32000, 64000, 128000, 131072, 200000}"
  by (auto simp: window_of_def context_windows_def get_default_def)

text \<open>
  The buffers leave nothing of the smallest window: a conversation with that model is always over
  the threshold. And snipping, meant to come before the summary, starts later for all small windows.
\<close>

lemma threshold_of_small_window: "autocompact_threshold ''qwen-max'' < 0"
  by (simp add: autocompact_threshold_def window_of_def context_windows_def get_default_def)

lemma snip_after_compaction:
  "window_of model \<le> 64000 \<Longrightarrow> autocompact_threshold model < snip_threshold model"
  using window_cases [of model] by (auto simp: autocompact_threshold_def snip_threshold_def)

section \<open>Oversized texts\<close>

text \<open>\<open>f"{n:,}"\<close>: groups of three digits.\<close>

fun group3 :: "string \<Rightarrow> string" where
  "group3 (a # b # c # d # ds) = a # b # c # CHR '','' # group3 (d # ds)"
| "group3 ds = ds"

definition commas :: "nat \<Rightarrow> utext" where
  "commas n = ascii (rev (group3 (rev (py_str_int (int n)))))"

definition tail_of :: "nat \<Rightarrow> utext \<Rightarrow> utext" where
  "tail_of half t = (if half = 0 then t else drop (length t - half) t)"

definition clipped :: "nat \<Rightarrow> utext \<Rightarrow> utext \<Rightarrow> utext" where
  "clipped half t hint =
     take half t @ [10, 10, 91, 46, 46, 46, 32, 24050, 33258, 21160, 25130, 26029, 32]
       @ commas (length t - 2 * half) @ [32, 23383, 31526, 32, 46, 46, 46, 93, 10, 10]
       @ tail_of half t @ hint"

text \<open>
  Both functions return the text to show and, when it was cut, the path of the file with the whole
  text; \<open>fresh\<close> is the random part of the file name. Content that is not a text is returned as it is.
\<close>

definition tool_hint :: "utext \<Rightarrow> nat \<Rightarrow> utext \<Rightarrow> utext" where
  "tool_hint tool n path =
     [10, 10, 91, 31995, 32479, 25552, 31034, 93, 32, 35813, 24037, 20855, 12300] @ tool
       @ [12301, 36755, 20986, 36229, 38271, 65288] @ commas n
       @ [32, 23383, 31526, 65289, 65292, 24050, 34987, 33258, 21160, 25130, 26029, 12290, 10, 23436, 25972, 36755,
       20986, 24050, 20445, 23384, 33267, 24403, 21069, 24037, 20316, 21306, 36335, 24452, 65306] @ path
       @ [10, 20320, 21487, 20197, 20351, 29992, 32, 115, 101, 97, 114, 99, 104, 32, 24037, 20855, 25353, 20851, 38190,
       35789, 26816, 32034, 35813, 25991, 20214, 65292, 25110, 32, 114, 101, 97, 100, 95, 102, 105, 108, 101, 32,
       24037, 20855, 24182, 35774, 32622, 32, 111, 102, 102, 115, 101, 116, 47, 108, 105, 109, 105, 116, 32, 21442,
       25968, 23616, 37096, 35835, 21462, 65288, 38656, 35201, 32, 104, 101, 97, 100, 47, 116, 97, 105, 108, 32,
       26102, 20877, 29992, 32, 114, 117, 110, 95, 115, 104, 101, 108, 108, 65289, 65292, 35831, 21247, 23581, 35797,
       30452, 25509, 35835, 21462, 25972, 20221, 26085, 24535, 20197, 33410, 30465, 19978, 19979, 25991, 31354,
       38388, 12290]"

definition message_hint :: "nat \<Rightarrow> utext \<Rightarrow> utext" where
  "message_hint n path =
     [10, 10, 91, 31995, 32479, 25552, 31034, 93, 32, 35813, 29992, 25143, 28040, 24687, 20869, 23481, 36229, 38271,
       65288] @ commas n
       @ [32, 23383, 31526, 65289, 65292, 24050, 33258, 21160, 25130, 26029, 20197, 20445, 25252, 19978, 19979, 25991,
       12290, 10, 23436, 25972, 20869, 23481, 24050, 20445, 23384, 33267, 24403, 21069, 24037, 20316, 21306, 36335,
       24452, 65306] @ path
       @ [10, 20320, 21487, 20197, 20351, 29992, 32, 115, 101, 97, 114, 99, 104, 32, 24037, 20855, 25353, 20851, 38190,
       35789, 26816, 32034, 35813, 25991, 20214, 65292, 25110, 32, 114, 101, 97, 100, 95, 102, 105, 108, 101, 32,
       24037, 20855, 24182, 35774, 32622, 32, 111, 102, 102, 115, 101, 116, 47, 108, 105, 109, 105, 116, 32, 21442,
       25968, 23616, 37096, 35835, 21462, 35813, 25991, 20214, 12290]"

definition truncate_tool_result ::
  "utext \<Rightarrow> content \<Rightarrow> string option \<Rightarrow> nat \<Rightarrow> utext \<Rightarrow> content \<times> (utext \<times> utext) option" where
  "truncate_tool_result tool result model dflt fresh =
     (case result of
        Text t \<Rightarrow>
          let cap = char_cap model dflt; path = ascii ''truncated_outputs/tool_result_'' @ fresh @ ascii ''.log''
          in if length t \<le> cap then (result, None)
             else (Text (clipped (cap div 2) t (tool_hint tool (length t) path)), Some (path, t))
      | _ \<Rightarrow> (result, None))"

definition truncate_user_message ::
  "content \<Rightarrow> string option \<Rightarrow> nat \<Rightarrow> utext \<Rightarrow> content \<times> (utext \<times> utext) option" where
  "truncate_user_message c model dflt fresh =
     (case c of
        Text t \<Rightarrow>
          let cap = char_cap model dflt; path = ascii ''truncated_outputs/user_message_'' @ fresh @ ascii ''.txt''
          in if length t \<le> cap then (c, None)
             else (Text (clipped (cap div 2) t (message_hint (length t) path)), Some (path, t))
      | _ \<Rightarrow> (c, None))"

section \<open>Workspace files after a compaction\<close>

definition budget_default :: nat where "budget_default = 25000"

definition inject_context :: "nat \<Rightarrow> msg list \<Rightarrow> utext \<Rightarrow> msg list" where
  "inject_context budget ms context_text =
     (case ms of
        [] \<Rightarrow> []
      | m # rest \<Rightarrow>
          if u_strip context_text = [] then ms
          else
            let snippet = take budget context_text
                  @ (if budget < length context_text then
                       [10, 10, 91, 46, 46, 46, 24037, 20316, 21306, 25991, 20214, 24050, 25130, 26029, 33267, 32] @ commas budget @ [32, 23383, 31526, 93]
                     else []);
                header = [12304, 24037, 20316, 21306, 25991, 20214, 65288, 21387, 32553, 21518, 21047, 26032, 65289, 12305, 10] @ snippet
            in m\<lparr>m_content :=
                 (case m_content m of
                    Blocks bs \<Rightarrow> Blocks (TextBlock (Some header) # bs)
                  | Text t \<Rightarrow> Text (if t = [] then header else header @ [NL, NL] @ t)
                  | NoContent \<Rightarrow> Text header)\<rparr> # rest)"

datatype file_status = FileRead | FileModified

type_synonym tracker = "(utext \<times> file_status) list"

definition tracked :: "file_status \<Rightarrow> tracker \<Rightarrow> utext list" where
  "tracked s tr = map fst (filter (\<lambda>e. snd e = s) tr)"

definition tracker_xml :: "tracker \<Rightarrow> utext" where
  "tracker_xml tr =
     (if tr = [] then []
      else join_with [NL]
        ([ascii ''<file_operations>'']
         @ map (\<lambda>p. ascii ''  <read>'' @ p @ ascii ''</read>'') (sort (tracked FileRead tr))
         @ map (\<lambda>p. ascii ''  <modified>'' @ p @ ascii ''</modified>'') (sort (tracked FileModified tr))
         @ [ascii ''</file_operations>'']))"

text \<open>
  \<open>rd\<close> gives the text of a tracked path, None when it cannot be read. A file that does not fit
  is cut, or ends the list when fewer than 100 characters of it would remain.
\<close>

definition file_header :: "utext \<Rightarrow> utext" where
  "file_header p = ascii ''  <file path=\"'' @ p @ ascii ''\">''"

definition file_footer :: utext where "file_footer = ascii ''  </file>''"

fun file_parts :: "(utext \<Rightarrow> utext option) \<Rightarrow> nat \<Rightarrow> nat \<Rightarrow> utext list \<Rightarrow> utext list" where
  "file_parts rd budget used [] = []"
| "file_parts rd budget used (p # ps) =
     (case rd p of
        None \<Rightarrow> file_parts rd budget used ps
      | Some t \<Rightarrow>
          if t = [] then file_parts rd budget used ps
          else if budget \<le> used then []
          else
            let remaining = budget - used; overhead = length (file_header p) + length file_footer + 2;
                entry = (\<lambda>s. file_header p @ [NL] @ s @ [NL] @ file_footer)
            in if length t + overhead \<le> remaining then
                 entry t # file_parts rd budget (used + length (entry t) + 1) ps
               else if remaining < overhead + 130 then []
               else
                 let s = take (remaining - overhead - 30) t @ [10, 91, 46, 46, 46, 24050, 25130, 26029, 93]
                 in entry s # file_parts rd budget (used + length (entry s) + 1) ps)"

definition file_contents :: "(utext \<Rightarrow> utext option) \<Rightarrow> nat \<Rightarrow> nat \<Rightarrow> tracker \<Rightarrow> utext" where
  "file_contents rd max_files budget tr =
     (let parts = file_parts rd budget 0 (take max_files (tracked FileModified tr @ tracked FileRead tr))
      in if parts = [] then []
         else ascii ''<file_contents>'' @ [NL] @ join_with [NL] parts @ [NL] @ ascii ''</file_contents>'')"

lemma length_join: "length (join_with sep ws) = sum_list (map length ws) + (length ws - 1) * length sep"
  by (induction sep ws rule: join_with.induct) simp_all

lemma file_parts_fit: "sum_list (map (\<lambda>e. Suc (length e)) (file_parts rd budget used ps)) \<le> Suc budget - used"
proof (induction rd budget used ps rule: file_parts.induct)
  case (2 rd budget used p ps)
  show ?case
  proof (cases "rd p")
    case None
    with 2(1) show ?thesis by simp
  next
    case (Some t)
    show ?thesis
    proof (cases "t = [] \<or> budget \<le> used")
      case True
      with Some 2(2) show ?thesis by auto
    next
      case False
      let ?over = "length (file_header p) + length file_footer + 2"
      define cut where "cut = take (budget - used - ?over - 30) t @ [10, 91, 46, 46, 46, 24050, 25130, 26029, 93]"
      define entry where "entry = (\<lambda>s. file_header p @ [NL] @ s @ [NL] @ file_footer)"
      have rest: "sum_list (map (\<lambda>e. Suc (length e)) (file_parts rd budget used (p # ps))) \<le> Suc budget - used"
        if "file_parts rd budget used (p # ps) = entry s # file_parts rd budget (used + length (entry s) + 1) ps"
          "length s + ?over \<le> budget - used"
          "sum_list (map (\<lambda>e. Suc (length e)) (file_parts rd budget (used + length (entry s) + 1) ps))
             \<le> Suc budget - (used + length (entry s) + 1)" for s
        using that by (simp add: entry_def)
      show ?thesis
      proof (cases "length t + ?over \<le> budget - used")
        case True
        show ?thesis
          by (rule rest [of t]) (use True Some False 2(3) [OF Some, of "budget - used" ?over entry] in
            \<open>simp_all add: Let_def entry_def\<close>)
      next
        case No: False
        show ?thesis
        proof (cases "budget - used < ?over + 130")
          case True
          with No Some False show ?thesis by (simp add: Let_def)
        next
          case fits: False
          have eq: "file_parts rd budget used (p # ps) = entry cut # file_parts rd budget (used + length (entry cut) + 1) ps"
            using No fits Some False by (simp add: Let_def entry_def cut_def)
          from 2(4) [OF Some _ _ refl refl refl _ _ cut_def] No fits False
          have ih: "sum_list (map (\<lambda>e. Suc (length e)) (file_parts rd budget (used + length (entry cut) + 1) ps))
             \<le> Suc budget - (used + length (entry cut) + 1)" by (simp add: entry_def)
          have "length cut + ?over \<le> budget - used" using fits by (simp add: cut_def)
          from rest [OF eq this ih] show ?thesis .
        qed
      qed
    qed
  qed
qed simp

text \<open>
  The files put back after a compaction never exceed the budget, tags included, apart from the
  two lines around them.
\<close>

theorem reinjected_files_fit: "length (file_contents rd max_files budget tr) \<le> budget + 33"
proof -
  define parts where "parts = file_parts rd budget 0 (take max_files (tracked FileModified tr @ tracked FileRead tr))"
  have "length (join_with [NL] parts) + 1 \<le> sum_list (map (\<lambda>e. Suc (length e)) parts)" if "parts \<noteq> []"
    using that by (simp add: length_join sum_list_Suc)
  moreover have "sum_list (map (\<lambda>e. Suc (length e)) parts) \<le> Suc budget"
    using file_parts_fit [of rd budget 0] by (simp add: parts_def)
  ultimately show ?thesis
    by (cases "parts = []") (simp_all add: file_contents_def Let_def parts_def [symmetric] ascii_def del: take_append)
qed

section \<open>Worked instances\<close>

definition plain :: "role \<Rightarrow> utext \<Rightarrow> msg" where
  "plain r t = \<lparr>m_role = r, m_content = Text t, m_name = None, m_call = None, m_calls = []\<rparr>"

theorem estimate_is_exact_witness:
  "fst (estimate_tokens default_scale (\<lambda>_. []) 1 [plain User [97], plain Assistant [98]]
     [(1, measured (\<lambda>_. []) [plain User [97]])]) = 4"
proof -
  have "map_of [(1, measured (\<lambda>_. []) [plain User [97]])] 1 = Some (measured (\<lambda>_. []) [plain User [97]])" by simp
  then have "map_of [(1, measured (\<lambda>_. []) [plain User [97]])] 1 = None \<or>
      (\<exists>old new. map_of [(1, measured (\<lambda>_. []) [plain User [97]])] 1 = Some (measured (\<lambda>_. []) old) \<and>
         [plain User [97], plain Assistant [98]] = old @ new)"
    by (intro disjI2 exI [of _ "[plain User [97]]"] exI [of _ "[plain Assistant [98]]"]) simp
  from estimate_is_exact [OF this, of default_scale] show ?thesis
    by (simp add: exact_tokens_def plain_def message_chars_def message_cjk_def content_chars_def content_cjk_def
        count_cjk_def is_cjk_def get_default_def default_scale_def)
qed

end
