(* ===== verification/Compaction.thy ===== *)
theory Compaction
  imports Tokens
begin

text \<open>
  Keeping a conversation within the window of its model, \<^verbatim>\<open>executors/compact.py\<close>: clearing old tool
  results, snipping the oldest exchange, summaries by a model with bounded retries and a circuit
  breaker, the compaction of the stored history of a group, and the compressed viewpoints of a
  discussion. The replies of the model are a list that is consumed in order; \<open>est\<close> is what
  \<open>estimate_tokens\<close> returns for a list.
\<close>

section \<open>Clearing old tool results\<close>

definition micro_tools :: "utext set" where
  "micro_tools = ascii ` {''run_shell'', ''read_file'', ''read_local_file'', ''list_workspace'', ''run_skill''}"

definition cleared_marker :: utext where
  "cleared_marker = [91, 26087, 24037, 20855, 32467, 26524, 24050, 28165, 38500, 93]"

definition compactable :: "msg \<Rightarrow> bool" where
  "compactable m \<longleftrightarrow> m_role m = ToolRole \<and> get_default (m_name m) [] \<in> micro_tools"

definition compactable_indices :: "msg list \<Rightarrow> nat list" where
  "compactable_indices ms = filter (\<lambda>i. compactable (ms ! i)) [0..<length ms]"

definition to_clear :: "msg list \<Rightarrow> nat list" where
  "to_clear ms = (let idx = compactable_indices ms in if 5 < length idx then take (length idx - 5) idx else [])"

definition microcompact :: "msg list \<Rightarrow> msg list" where
  "microcompact ms =
     foldl (\<lambda>r i. if m_content (r ! i) \<noteq> Text cleared_marker then r[i := (r ! i)\<lparr>m_content := Text cleared_marker\<rparr>] else r)
       ms (to_clear ms)"

section \<open>Snipping\<close>

fun conversation_pairs :: "role option \<Rightarrow> msg list \<Rightarrow> nat" where
  "conversation_pairs r [] = 0"
| "conversation_pairs r (m # ms) =
     (if m_role m = Assistant then (if r = Some User then 1 else 0) + conversation_pairs (Some Assistant) ms
      else if m_role m = User then conversation_pairs (Some User) ms
      else conversation_pairs r ms)"

definition first_from :: "role \<Rightarrow> nat \<Rightarrow> msg list \<Rightarrow> nat option" where
  "first_from r k ms = find (\<lambda>i. m_role (ms ! i) = r) [k..<length ms]"

definition snip_if_needed :: "(msg list \<Rightarrow> nat) \<Rightarrow> string \<Rightarrow> msg list \<Rightarrow> msg list \<times> nat" where
  "snip_if_needed est model ms =
     (if int (est ms) \<le> snip_threshold model then (ms, 0)
      else if conversation_pairs None ms \<le> 4 then (ms, 0)
      else case first_from User 0 ms of
        None \<Rightarrow> (ms, 0)
      | Some u \<Rightarrow>
          (case first_from Assistant (u + 1) ms of
             None \<Rightarrow> (ms, 0)
           | Some a \<Rightarrow>
               if list_ex (\<lambda>m. m_role m = ToolRole) (take (a - (u + 1)) (drop (u + 1) ms)) then (ms, 0)
               else (take u ms @ drop (a + 1) ms, est (take (a + 1 - u) (drop u ms)))))"

section \<open>The model\<close>

datatype reply = Answered bool utext | Overflowed | CallFailed

record compactor =
  fails :: "int \<Rightarrow> nat option"
  replies :: "reply list"
  asked_texts :: "utext list"
  notices :: "(int \<times> string) list"

definition call_ai :: "utext \<Rightarrow> compactor \<Rightarrow> reply \<times> compactor" where
  "call_ai prompt s =
     (case replies s of
        [] \<Rightarrow> (CallFailed, s\<lparr>asked_texts := asked_texts s @ [prompt]\<rparr>)
      | r # rs \<Rightarrow> (r, s\<lparr>replies := rs, asked_texts := asked_texts s @ [prompt]\<rparr>))"

definition user_text :: "utext \<Rightarrow> msg" where
  "user_text t = \<lparr>m_role = User, m_content = Text t, m_name = None, m_call = None, m_calls = []\<rparr>"

definition history_line :: "nat \<Rightarrow> nat \<Rightarrow> msg \<Rightarrow> utext" where
  "history_line tool_limit limit m =
     (let t = clean_content (m_content m) in
      if m_role m = ToolRole then
        [91, 24037, 20855, 32467, 26524, 32] @ get_default (m_name m) [] @ ascii '']: '' @ take tool_limit t
      else 91 # role_text (m_role m) @ ascii '']: '' @ take limit t)"

definition summary_mark :: utext where
  "summary_mark = [12304, 21382, 21490, 25688, 35201, 12305]"

text \<open>A summary of an earlier compaction is extended by a summary of what came after it.\<close>

definition delta_prompt :: "msg list \<Rightarrow> utext" where
  "delta_prompt recent = [26032, 23545, 35805, 65306, 10, 10] @ join_nl (map (history_line 500 1000) recent)"

definition extended_summary :: "utext \<Rightarrow> utext \<Rightarrow> utext" where
  "extended_summary base delta = base @ [10, 10, 12304, 36861, 21152, 25688, 35201, 12305, 10] @ delta"

definition session_memory_compact ::
  "(msg list \<Rightarrow> nat) \<Rightarrow> string \<Rightarrow> msg list \<Rightarrow> compactor \<Rightarrow> msg list option \<times> compactor" where
  "session_memory_compact est model ms s =
     (case ms of
        [] \<Rightarrow> (None, s)
      | m # recent \<Rightarrow>
          (case m_content m of
             Text base \<Rightarrow>
               if \<not> (m_role m = User \<and> is_prefix summary_mark base) then (None, s)
               else if int (est recent) \<le> autocompact_threshold model then (None, s)
               else
                 (case call_ai (delta_prompt recent) s of
                    (Answered True delta, s') \<Rightarrow>
                      if delta = [] then (None, s')
                      else (Some [user_text (extended_summary base delta)], s')
                  | (_, s') \<Rightarrow> (None, s'))
           | _ \<Rightarrow> (None, s)))"

text \<open>The body of the summary: scratch work between the analysis tags is dropped.\<close>

fun find_sub :: "utext \<Rightarrow> utext \<Rightarrow> (utext \<times> utext) option" where
  "find_sub sub [] = (if sub = [] then Some ([], []) else None)"
| "find_sub sub (c # s) =
     (if is_prefix sub (c # s) then Some ([], drop (length sub) (c # s))
      else map_option (\<lambda>(a, b). (c # a, b)) (find_sub sub s))"

lemma find_sub_split: "find_sub sub s = Some (a, b) \<Longrightarrow> s = a @ sub @ b"
proof (induction s arbitrary: a)
  case (Cons c s)
  then show ?case using is_prefix_append [of sub "c # s"] by (auto split: if_splits)
qed (auto split: if_splits)

definition "analysis_open = ascii ''<analysis>''"
definition "analysis_close = ascii ''</analysis>''"
definition "summary_open = ascii ''<summary>''"
definition "summary_close = ascii ''</summary>''"

function strip_analysis :: "utext \<Rightarrow> utext" where
  "strip_analysis s =
     (case find_sub analysis_open s of
        None \<Rightarrow> s
      | Some (a, b) \<Rightarrow> (case find_sub analysis_close b of None \<Rightarrow> s | Some (c, d) \<Rightarrow> a @ strip_analysis d))"
  by pat_completeness auto
termination
  by (relation "measure length") (auto dest!: find_sub_split simp: analysis_open_def ascii_def)

declare strip_analysis.simps [simp del]

definition format_summary :: "utext \<Rightarrow> utext" where
  "format_summary raw =
     (let cleaned = u_strip (strip_analysis raw) in
      case find_sub summary_open cleaned of
        None \<Rightarrow> cleaned
      | Some (a, b) \<Rightarrow> (case find_sub summary_close b of None \<Rightarrow> cleaned | Some (c, d) \<Rightarrow> u_strip c))"

section \<open>Summaries with bounded retries\<close>

text \<open>\<open>int(len * 0.3)\<close> is the quotient for every length a list can have.\<close>

definition drop_oldest_rounds :: "msg list \<Rightarrow> msg list" where
  "drop_oldest_rounds ms =
     (if length ms \<le> 1 then ms
      else
        let h0 = max 1 (length ms * 3 div 10);
            h1 = h0 + length (takeWhile (\<lambda>m. m_role m = ToolRole) (drop h0 ms));
            h = (if length ms \<le> h1 then length ms - 1 else h1)
        in drop h ms)"

definition render_history :: "msg list \<Rightarrow> utext" where
  "render_history ms = join_nl (map (history_line 1000 2000) ms)"

definition compact_prompt :: "utext \<Rightarrow> nat \<Rightarrow> msg list \<Rightarrow> utext" where
  "compact_prompt sys dropped ms =
     [31995, 32479, 25552, 31034, 65288, 21069, 53, 48, 48, 23383, 65289, 65306] @ take 500 sys @ [10, 10, 35831, 24635, 32467, 20197, 19979, 23545, 35805, 21382, 21490, 65306, 10, 10]
       @ (if dropped = 0 then []
          else [65288, 26356, 26089, 30340, 32] @ u_int (int dropped) @ [32, 26465, 21382, 21490, 22240, 36229, 38271, 24050, 30465, 30053, 65289, 10, 10])
       @ render_history ms"

fun ai_attempts :: "nat \<Rightarrow> utext \<Rightarrow> nat \<Rightarrow> msg list \<Rightarrow> compactor \<Rightarrow> utext option \<times> compactor" where
  "ai_attempts 0 sys dropped ms s = (None, s)"
| "ai_attempts (Suc k) sys dropped ms s =
     (case call_ai (compact_prompt sys dropped ms) s of
        (Answered text t, s') \<Rightarrow> (Some (if text then t else []), s')
      | (Overflowed, s') \<Rightarrow>
          let shorter = drop_oldest_rounds ms in
          if length ms \<le> length shorter then (None, s')
          else ai_attempts k sys (dropped + (length ms - length shorter)) shorter s'
      | (CallFailed, s') \<Rightarrow> (None, s'))"

definition ai_compact :: "utext \<Rightarrow> msg list \<Rightarrow> compactor \<Rightarrow> msg list option \<times> compactor" where
  "ai_compact sys ms s =
     (case ai_attempts 4 sys 0 ms s of
        (None, s') \<Rightarrow> (None, s')
      | (Some raw, s') \<Rightarrow>
          (if raw = [] then None else Some [user_text (summary_mark @ [NL] @ format_summary raw)], s'))"

section \<open>Compaction with a circuit breaker\<close>

definition circuit_open :: "int \<Rightarrow> compactor \<Rightarrow> bool" where
  "circuit_open g s \<longleftrightarrow> 3 \<le> get_default (fails s g) 0"

definition record_failure :: "int \<Rightarrow> compactor \<Rightarrow> compactor" where
  "record_failure g s = s\<lparr>fails := (fails s)(g \<mapsto> get_default (fails s g) 0 + 1)\<rparr>"

definition record_success :: "int \<Rightarrow> compactor \<Rightarrow> compactor" where
  "record_success g s = s\<lparr>fails := (fails s)(g := None)\<rparr>"

text \<open>The split walks left past tool results, so that none is separated from its call.\<close>

fun walk_left :: "msg list \<Rightarrow> nat \<Rightarrow> nat" where
  "walk_left ms 0 = 0"
| "walk_left ms (Suc k) = (if Suc k < length ms \<and> m_role (ms ! Suc k) = ToolRole then walk_left ms k else Suc k)"

definition auto_compact ::
  "(msg list \<Rightarrow> nat) \<Rightarrow> string \<Rightarrow> int \<Rightarrow> utext \<Rightarrow> utext \<Rightarrow> nat \<Rightarrow> msg list \<Rightarrow> compactor \<Rightarrow> msg list \<times> bool \<times> compactor" where
  "auto_compact est model g sys context_text keep ms s =
     (if int (est ms) \<le> autocompact_threshold model \<or> circuit_open g s \<or> length ms \<le> keep then (ms, False, s)
      else
        let k = walk_left ms (length ms - keep) in
        if k = 0 then (ms, False, s)
        else
          (case session_memory_compact est model (take k ms) s of
             (Some r, s1) \<Rightarrow>
               (inject_context budget_default (r @ drop k ms) context_text, True,
                (record_success g s1)\<lparr>notices := notices s1 @ [(g, ''session_memory'')]\<rparr>)
           | (None, s1) \<Rightarrow>
               (case ai_compact sys (take k ms) s1 of
                  (Some r, s2) \<Rightarrow>
                    (inject_context budget_default (r @ drop k ms) context_text, True,
                     (record_success g s2)\<lparr>notices := notices s2 @ [(g, ''ai_full'')]\<rparr>)
                | (None, s2) \<Rightarrow> (ms, False, record_failure g s2))))"

text \<open>\<open>compact_conversation\<close> compacts at once and never fails: a marker replaces what was not summarized.\<close>

definition dropped_marker :: "nat \<Rightarrow> utext" where
  "dropped_marker n = [65288] @ u_int (int n) @ [32, 26465, 21382, 21490, 28040, 24687, 24050, 25130, 26029, 65289]"

definition compact_conversation ::
  "utext \<Rightarrow> nat \<Rightarrow> utext \<Rightarrow> msg list \<Rightarrow> compactor \<Rightarrow> msg list \<times> compactor" where
  "compact_conversation sys keep context_text ms s =
     (if length ms \<le> keep then (ms, s)
      else
        let k = walk_left ms (length ms - keep) in
        if k = 0 then (ms, s)
        else
          (case ai_compact sys (take k ms) s of
             (Some r, s') \<Rightarrow> (inject_context budget_default (r @ drop k ms) context_text, s')
           | (None, s') \<Rightarrow>
               (inject_context budget_default (user_text (dropped_marker k) # drop k ms) context_text, s')))"

definition uses_cached_microcompact :: "string \<Rightarrow> bool" where
  "uses_cached_microcompact provider \<longleftrightarrow> provider = ''claude''"

section \<open>What clearing keeps\<close>

lemma take_but_last:
  assumes "sorted_wrt (<) (xs :: nat list)"
  shows "x \<in> set (take (length xs - n) xs) \<longleftrightarrow> x \<in> set xs \<and> n \<le> length (filter (\<lambda>y. x < y) xs)"
proof -
  have later: "length (filter (\<lambda>y. xs ! p < y) xs) = length xs - Suc p" if p: "p < length xs" for p
  proof -
    from p have e: "xs = take p xs @ xs ! p # drop (Suc p) xs" by (rule id_take_nth_drop)
    have "sorted_wrt (<) (take p xs @ xs ! p # drop (Suc p) xs)" using assms e by simp
    then have s: "\<forall>y \<in> set (take p xs). y < xs ! p" "\<forall>y \<in> set (drop (Suc p) xs). xs ! p < y"
      by (simp_all only: sorted_wrt_append sorted_wrt.simps) auto
    have "filter (\<lambda>y. xs ! p < y) (take p xs) = []" "filter (\<lambda>y. xs ! p < y) (drop (Suc p) xs) = drop (Suc p) xs"
      using s by (force simp: filter_empty_conv filter_id_conv)+
    then have "filter (\<lambda>y. xs ! p < y) (take p xs @ xs ! p # drop (Suc p) xs) = drop (Suc p) xs" by simp
    with e show ?thesis by simp
  qed
  show ?thesis
  proof
    assume "x \<in> set (take (length xs - n) xs)"
    then obtain p where "p < length xs - n" "p < length xs" "x = xs ! p" by (auto simp: in_set_conv_nth)
    with later [of p] show "x \<in> set xs \<and> n \<le> length (filter (\<lambda>y. x < y) xs)" by auto
  next
    assume x: "x \<in> set xs \<and> n \<le> length (filter (\<lambda>y. x < y) xs)"
    then obtain p where p: "p < length xs" "x = xs ! p" by (auto simp: in_set_conv_nth)
    with later [of p] x have "p < length xs - n" by auto
    with p show "x \<in> set (take (length xs - n) xs)" by (auto simp: in_set_conv_nth)
  qed
qed

definition clear_at :: "msg list \<Rightarrow> nat \<Rightarrow> msg list" where
  "clear_at r i = (if m_content (r ! i) \<noteq> Text cleared_marker then r[i := (r ! i)\<lparr>m_content := Text cleared_marker\<rparr>] else r)"

lemma clear_at_all:
  "length (foldl clear_at ms idx) = length ms \<and>
   (\<forall>j < length ms. foldl clear_at ms idx ! j = (if j \<in> set idx then (ms ! j)\<lparr>m_content := Text cleared_marker\<rparr> else ms ! j))"
proof (induction idx arbitrary: ms)
  case (Cons i idx)
  have "length (clear_at ms i) = length ms" "clear_at ms i ! j = (if j = i then (ms ! j)\<lparr>m_content := Text cleared_marker\<rparr> else ms ! j)"
    if "j < length ms" for j using that by (auto simp: clear_at_def)
  moreover have "length (clear_at ms i) = length ms" by (simp add: clear_at_def)
  ultimately show ?case using Cons [of "clear_at ms i"] by auto
qed simp

text \<open>
  Clearing keeps every message in its place, with its role, name and call id. Only results of
  the five reading tools lose their content, and only when at least five later ones keep theirs.
\<close>

theorem clearing_keeps_recent_results:
  assumes "i < length ms"
  shows "length (microcompact ms) = length ms \<and>
    microcompact ms ! i =
      (if compactable (ms ! i) \<and> 5 \<le> length (filter (\<lambda>j. i < j \<and> compactable (ms ! j)) [0..<length ms])
       then (ms ! i)\<lparr>m_content := Text cleared_marker\<rparr> else ms ! i)"
proof -
  let ?idx = "compactable_indices ms"
  have "sorted_wrt (<) ?idx" by (simp add: compactable_indices_def sorted_wrt_filter)
  note tk = take_but_last [OF this, of i 5]
  have "i \<in> set (to_clear ms) \<longleftrightarrow> i \<in> set ?idx \<and> 5 \<le> length (filter (\<lambda>y. i < y) ?idx)"
  proof (cases "5 < length ?idx")
    case False
    have "\<not> 5 \<le> length (filter (\<lambda>y. i < y) ?idx)" if "i \<in> set ?idx"
      using length_filter_less [of i ?idx "\<lambda>y. i < y"] that False by simp
    with False show ?thesis by (auto simp: to_clear_def Let_def)
  qed (simp add: to_clear_def Let_def tk)
  moreover have "i \<in> set ?idx \<longleftrightarrow> compactable (ms ! i)" using assms by (auto simp: compactable_indices_def)
  moreover have "filter (\<lambda>y. i < y) ?idx = filter (\<lambda>j. i < j \<and> compactable (ms ! j)) [0..<length ms]"
    by (simp add: compactable_indices_def conj_commute)
  moreover have "microcompact ms = foldl clear_at ms (to_clear ms)"
    by (simp add: microcompact_def clear_at_def [abs_def])
  ultimately show ?thesis using clear_at_all [of ms "to_clear ms"] assms by simp
qed

section \<open>Calls and results stay together\<close>

text \<open>Every tool result answers a call of the last message before it that is not a tool result.\<close>

fun paired :: "utext list \<Rightarrow> msg list \<Rightarrow> bool" where
  "paired calls [] = True"
| "paired calls (m # ms) =
     (if m_role m = ToolRole then (case m_call m of None \<Rightarrow> False | Some c \<Rightarrow> c \<in> set calls) \<and> paired calls ms
      else paired (if m_role m = Assistant then map c_id (m_calls m) else []) ms)"

lemma paired_drop:
  "paired calls (xs @ ys) \<Longrightarrow> ys = [] \<or> m_role (hd ys) \<noteq> ToolRole \<Longrightarrow> paired calls' ys"
proof (induction xs arbitrary: calls)
  case Nil
  then show ?case by (cases ys) auto
next
  case (Cons m xs)
  show ?case by (rule Cons.IH [of "if m_role m = ToolRole then calls else if m_role m = Assistant then map c_id (m_calls m) else []"])
      (use Cons.prems in \<open>auto split: if_splits\<close>)
qed

lemma paired_append:
  "paired calls xs \<Longrightarrow> (\<And>calls'. paired calls' ys) \<Longrightarrow> paired calls (xs @ ys)"
  by (induction xs arbitrary: calls) auto

lemma paired_take: "paired calls (xs @ ys) \<Longrightarrow> paired calls xs"
  by (induction xs arbitrary: calls) (auto split: if_splits)

lemma walk_left_le: "walk_left ms k \<le> k"
  by (induction k) auto

lemma walk_left_stop:
  "walk_left ms k = 0 \<or> length ms \<le> walk_left ms k \<or> m_role (ms ! walk_left ms k) \<noteq> ToolRole"
  by (induction k) auto

lemma paired_split:
  assumes "paired [] ms" "walk_left ms k = n" "n \<noteq> 0"
  shows "paired calls (drop n ms)"
proof (rule paired_drop)
  show "paired [] (take n ms @ drop n ms)" using assms(1) by simp
  show "drop n ms = [] \<or> m_role (hd (drop n ms)) \<noteq> ToolRole"
    using walk_left_stop [of ms k] assms(2,3) by (auto simp: hd_drop_conv_nth)
qed

lemma inject_head: "\<exists>c. inject_context b (m # ms) t = m\<lparr>m_content := c\<rparr> # ms"
proof (cases "u_strip t = []")
  case True
  then show ?thesis by (intro exI [of _ "m_content m"]) (simp add: inject_context_def)
qed (simp add: inject_context_def Let_def, blast)

lemma summaries_are_user_texts:
  "session_memory_compact est model ms s = (Some r, s') \<Longrightarrow> \<exists>t. r = [user_text t]"
  "ai_compact sys ms s = (Some r, s') \<Longrightarrow> \<exists>t. r = [user_text t]"
  by (auto simp: session_memory_compact_def ai_compact_def split: list.splits content.splits if_splits prod.splits
      reply.splits bool.splits option.splits)

lemma injected_summary:
  assumes "walk_left ms (length ms - keep) = k" "k \<noteq> 0" "keep < length ms"
  shows "\<exists>m. inject_context b (user_text t # drop k ms) ctx = m # drop k ms \<and> m_role m = User \<and> keep \<le> length (drop k ms) \<and>
    (paired [] ms \<longrightarrow> paired [] (m # drop k ms))"
proof -
  from inject_head [of b "user_text t" "drop k ms" ctx] obtain c where
    c: "inject_context b (user_text t # drop k ms) ctx = (user_text t)\<lparr>m_content := c\<rparr> # drop k ms" by blast
  have "keep \<le> length (drop k ms)" using walk_left_le [of ms "length ms - keep"] assms by simp
  with c paired_split [OF _ assms(1,2)] show ?thesis by (simp add: user_text_def)
qed

text \<open>
  C22. A compaction that succeeds leaves one message of the user, the summary, followed by the most
  recent messages verbatim, at least as many as were to be kept; one that fails leaves everything
  as it was. Either way no tool result is separated from the call it answers.
\<close>

theorem compaction_keeps_recent_messages:
  assumes "paired [] ms" "auto_compact est model g sys ctx keep ms s = (ms', ok, s')"
  shows "paired [] ms' \<and> (\<not> ok \<longrightarrow> ms' = ms) \<and>
    (ok \<longrightarrow> (\<exists>m old recent. ms = old @ recent \<and> ms' = m # recent \<and> m_role m = User \<and> keep \<le> length recent))"
proof -
  define k where "k = walk_left ms (length ms - keep)"
  have succ: "paired [] ms' \<and> (\<not> ok \<longrightarrow> ms' = ms) \<and>
      (ok \<longrightarrow> (\<exists>m old recent. ms = old @ recent \<and> ms' = m # recent \<and> m_role m = User \<and> keep \<le> length recent))"
    if "ok" "k \<noteq> 0" "\<not> length ms \<le> keep" "ms' = inject_context budget_default (user_text t # drop k ms) ctx" for t
    using injected_summary [OF k_def [symmetric] that(2), of budget_default t ctx] that assms(1)
    by (metis append_take_drop_id not_le)
  show ?thesis
  proof (cases "int (est ms) \<le> autocompact_threshold model \<or> circuit_open g s \<or> length ms \<le> keep \<or> k = 0")
    case True
    then have "auto_compact est model g sys ctx keep ms s = (ms, False, s)"
      unfolding auto_compact_def k_def Let_def by (auto simp del: walk_left.simps)
    with assms show ?thesis by simp
  next
    case False
    obtain r1 s1 where m: "session_memory_compact est model (take k ms) s = (r1, s1)" by fastforce
    obtain r2 s2 where a: "ai_compact sys (take k ms) s1 = (r2, s2)" by fastforce
    show ?thesis
      using assms False m a summaries_are_user_texts(1) [of est model "take k ms" s _ s1]
        summaries_are_user_texts(2) [of sys "take k ms" s1 _ s2] succ
      by (auto simp: auto_compact_def k_def [symmetric] Let_def split: option.splits)
  qed
qed

section \<open>Retries are bounded\<close>

lemma drop_oldest_shrinks:
  assumes "1 < length ms"
  shows "\<exists>h. 0 < h \<and> h < length ms \<and> drop_oldest_rounds ms = drop h ms"
proof -
  define h where "h = (let h0 = max 1 (length ms * 3 div 10);
      h1 = h0 + length (takeWhile (\<lambda>m. m_role m = ToolRole) (drop h0 ms)) in if length ms \<le> h1 then length ms - 1 else h1)"
  have "0 < h" "h < length ms" using assms by (auto simp: h_def Let_def)
  then show ?thesis using assms by (auto simp: drop_oldest_rounds_def h_def Let_def)
qed

text \<open>
  A summary asks the model at most four times. Each time it sends a proper, non-empty suffix of
  what it sent before, and the number of messages it says were left out is the number missing.
\<close>

theorem summary_retries_are_bounded:
  assumes "ms \<noteq> []"
  shows "\<exists>ws. asked_texts (snd (ai_compact sys ms s)) =
      asked_texts s @ map (\<lambda>w. compact_prompt sys (length ms - length w) w) ws \<and> length ws \<le> 4 \<and>
      sorted_wrt (\<lambda>v w. length w < length v) ws \<and> (\<forall>w \<in> set ws. w \<noteq> [] \<and> (\<exists>old. ms = old @ w))"
proof -
  have gen: "\<exists>ws. asked_texts (snd (ai_attempts k sys d ws0 s)) =
      asked_texts s @ map (\<lambda>w. compact_prompt sys (d + (length ws0 - length w)) w) ws \<and> length ws \<le> k \<and>
      sorted_wrt (\<lambda>v w. length w < length v) ws \<and> (\<forall>w \<in> set ws. w \<noteq> [] \<and> (\<exists>old. ws0 = old @ w))"
    if "ws0 \<noteq> []" for k d ws0
    using that
  proof (induction k arbitrary: d ws0 s)
    case 0
    show ?case by (rule exI [of _ "[]"]) simp
  next
    case (Suc k)
    obtain r s' where c: "call_ai (compact_prompt sys d ws0) s = (r, s')" by fastforce
    then have asked: "asked_texts s' = asked_texts s @ [compact_prompt sys d ws0]"
      by (auto simp: call_ai_def split: list.splits)
    show ?case
    proof (cases "r = Overflowed \<and> 1 < length ws0")
      case False
      have "asked_texts (snd (ai_attempts (Suc k) sys d ws0 s)) = asked_texts s'"
        using c False by (cases r) (auto simp: Let_def drop_oldest_rounds_def)
      with asked Suc.prems show ?thesis by (intro exI [of _ "[ws0]"]) simp
    next
      case True
      from True drop_oldest_shrinks obtain h where h: "0 < h" "h < length ws0" "drop_oldest_rounds ws0 = drop h ws0" by blast
      moreover have "\<not> length ws0 \<le> length (drop h ws0)" "length ws0 - length (drop h ws0) = h" using h by simp_all
      ultimately have run: "ai_attempts (Suc k) sys d ws0 s = ai_attempts k sys (d + h) (drop h ws0) s'"
        using c True by (simp add: Let_def del: length_drop)
      from Suc.IH [of "drop h ws0" "d + h" s'] h(2) obtain ws where
        ws: "asked_texts (snd (ai_attempts k sys (d + h) (drop h ws0) s')) =
            asked_texts s' @ map (\<lambda>w. compact_prompt sys (d + h + (length (drop h ws0) - length w)) w) ws"
          "length ws \<le> k" "sorted_wrt (\<lambda>v w. length w < length v) ws"
          "\<forall>w \<in> set ws. w \<noteq> [] \<and> (\<exists>old. drop h ws0 = old @ w)" by auto
      have len: "length w \<le> length ws0 - h" if "w \<in> set ws" for w
        using ws(4) that by (auto dest!: arg_cong [of _ _ length])
      have num: "d + h + (length (drop h ws0) - length w) = d + (length ws0 - length w)" if "w \<in> set ws" for w
        using len [OF that] h(2) by simp
      have "map (\<lambda>w. compact_prompt sys (d + h + (length (drop h ws0) - length w)) w) ws =
          map (\<lambda>w. compact_prompt sys (d + (length ws0 - length w)) w) ws"
        by (rule map_cong [OF refl]) (simp only: num)
      moreover have "\<exists>old. ws0 = old @ w" if "w \<in> set ws" for w
        using ws(4) that by (metis append_assoc append_take_drop_id)
      moreover have "\<forall>w \<in> set ws. length w < length ws0" using len h by fastforce
      ultimately show ?thesis
        using ws asked Suc.prems
        by (intro exI [of _ "ws0 # ws"]) (auto simp: run simp del: ai_attempts.simps length_drop)
    qed
  qed
  have "asked_texts (snd (ai_compact sys ms s)) = asked_texts (snd (ai_attempts 4 sys 0 ms s))"
    by (simp add: ai_compact_def split: prod.split option.split)
  with gen [OF assms, of 4 0] show ?thesis by simp
qed

section \<open>The circuit breaker\<close>

type_synonym compaction_call = "int \<times> string \<times> utext \<times> utext \<times> nat \<times> msg list"

definition compact_all :: "(msg list \<Rightarrow> nat) \<Rightarrow> compaction_call list \<Rightarrow> compactor \<Rightarrow> compactor" where
  "compact_all est calls s =
     fold (\<lambda>(g, model, sys, ctx, keep, ms) s. snd (snd (auto_compact est model g sys ctx keep ms s))) calls s"

lemma ai_keeps_fails:
  "fails (snd (call_ai p s)) = fails s"
  "fails (snd (session_memory_compact est model ms s)) = fails s"
  "fails (snd (ai_attempts k sys d ms s)) = fails s"
  "fails (snd (ai_compact sys ms s)) = fails s"
proof -
  show call: "fails (snd (call_ai p s)) = fails s" for p s by (simp add: call_ai_def split: list.split)
  have callD: "call_ai p s = (r, s') \<Longrightarrow> fails s' = fails s" for p s r s' using call [of p s] by simp
  show "fails (snd (session_memory_compact est model ms s)) = fails s"
  proof (cases ms)
    case (Cons m recent)
    obtain r s' where c: "call_ai (delta_prompt recent) s = (r, s')" by fastforce
    from Cons callD [OF c] show ?thesis
      by (simp add: session_memory_compact_def c split: content.split reply.split bool.split)
  qed (simp add: session_memory_compact_def)
  show att: "fails (snd (ai_attempts k sys d ms s)) = fails s" for k d ms s
    by (induction k arbitrary: d ms s) (auto simp: Let_def dest: callD split: prod.split reply.split)
  show "fails (snd (ai_compact sys ms s)) = fails s"
    using att [of 4 0 ms s] by (auto simp: ai_compact_def split: prod.split option.split)
qed

lemma breaker_stays_open:
  assumes "circuit_open g s"
  shows "circuit_open g (snd (snd (auto_compact est model h sys ctx keep ms s)))"
proof (cases "h = g")
  case True
  with assms show ?thesis by (simp add: auto_compact_def)
next
  case False
  obtain r1 s1 where m: "session_memory_compact est model (take (walk_left ms (length ms - keep)) ms) s = (r1, s1)" by fastforce
  obtain r2 s2 where a: "ai_compact sys (take (walk_left ms (length ms - keep)) ms) s1 = (r2, s2)" by fastforce
  have "fails s1 = fails s" "fails s2 = fails s"
    using ai_keeps_fails(2) [of est model "take (walk_left ms (length ms - keep)) ms" s]
      ai_keeps_fails(4) [of sys "take (walk_left ms (length ms - keep)) ms" s1] m a by simp_all
  with m a assms False show ?thesis
    by (simp add: auto_compact_def Let_def circuit_open_def record_success_def record_failure_def split: option.split)
qed

text \<open>
  The breaker of a group, once open, never closes again: whatever compactions are asked for
  afterwards, those of the group leave the conversation as it is and ask the model nothing.
\<close>

theorem breaker_never_closes:
  assumes "circuit_open g s"
  shows "auto_compact est model g sys ctx keep ms (compact_all est calls s) = (ms, False, compact_all est calls s)"
proof -
  have "circuit_open g (compact_all est calls s)"
    unfolding compact_all_def using assms
    by (induction calls arbitrary: s) (auto intro: breaker_stays_open)
  then show ?thesis by (simp add: auto_compact_def)
qed

section \<open>Snipping\<close>

lemma pairs_None: "r \<noteq> Some User \<Longrightarrow> conversation_pairs r ys = conversation_pairs None ys"
proof (induction ys)
  case (Cons m ys)
  show ?case using Cons.IH [OF Cons.prems] Cons.prems by simp
qed simp

lemma pairs_skip:
  "list_all (\<lambda>m. m_role m \<noteq> User) xs \<Longrightarrow> r \<noteq> Some User \<Longrightarrow> r' \<noteq> Some User \<Longrightarrow>
   conversation_pairs r (xs @ ys) = conversation_pairs r' ys"
proof (induction xs arbitrary: r)
  case Nil
  show ?case by (simp only: append_Nil pairs_None [OF Nil(2)] pairs_None [OF Nil(3)])
next
  case (Cons m xs)
  show ?case using Cons.IH [of r] Cons.IH [of "Some Assistant"] Cons.prems by simp
qed

lemma pairs_wait:
  "list_all (\<lambda>m. m_role m \<noteq> Assistant) xs \<Longrightarrow> conversation_pairs (Some User) (xs @ ys) = conversation_pairs (Some User) ys"
  by (induction xs) auto

lemma first_from_split:
  assumes "first_from r k ms = Some i"
  shows "k \<le> i" "i < length ms" "m_role (ms ! i) = r" "list_all (\<lambda>m. m_role m \<noteq> r) (take (i - k) (drop k ms))"
proof -
  from assms obtain j where j: "j < length [k..<length ms]" "m_role (ms ! ([k..<length ms] ! j)) = r" "i = [k..<length ms] ! j"
      "\<forall>p < j. m_role (ms ! ([k..<length ms] ! p)) \<noteq> r"
    by (auto simp: first_from_def find_Some_iff)
  then have i: "i = k + j" by simp
  with j show "k \<le> i" "i < length ms" "m_role (ms ! i) = r" by simp_all
  show "list_all (\<lambda>m. m_role m \<noteq> r) (take (i - k) (drop k ms))"
    using j i by (auto simp: list_all_length)
qed

lemma snipped:
  assumes "fst (snip_if_needed est model ms) \<noteq> ms"
  obtains xs u mid a ys where "ms = xs @ u # mid @ a # ys" "fst (snip_if_needed est model ms) = xs @ ys"
    "list_all (\<lambda>m. m_role m \<noteq> User) xs" "m_role u = User" "list_all (\<lambda>m. m_role m \<noteq> Assistant \<and> m_role m \<noteq> ToolRole) mid"
    "m_role a = Assistant" "4 < conversation_pairs None ms"
proof -
  from assms obtain i j where s: "first_from User 0 ms = Some i" "first_from Assistant (i + 1) ms = Some j"
      "\<not> list_ex (\<lambda>m. m_role m = ToolRole) (take (j - (i + 1)) (drop (i + 1) ms))" "4 < conversation_pairs None ms"
      "fst (snip_if_needed est model ms) = take i ms @ drop (j + 1) ms"
    by (auto simp: snip_if_needed_def not_le split: if_splits option.splits)
  note i = first_from_split [OF s(1)] and j = first_from_split [OF s(2)]
  have "ms = take i ms @ ms ! i # drop (Suc i) ms" by (rule id_take_nth_drop [OF i(2)])
  also have "drop (Suc i) ms = take (j - Suc i) (drop (Suc i) ms) @ drop j ms"
    using j(1) by (metis Suc_eq_plus1 append_take_drop_id drop_drop le_add_diff_inverse2)
  also have "drop j ms = ms ! j # drop (Suc j) ms" using j(2) by (simp add: Cons_nth_drop_Suc)
  finally have "ms = take i ms @ ms ! i # take (j - Suc i) (drop (Suc i) ms) @ ms ! j # drop (Suc j) ms" by simp
  from that [OF this] s i j show thesis by (auto simp: list_all_iff list_ex_iff)
qed

text \<open>Snipping keeps at least four exchanges, and the pairing when the answer it removes made no calls.\<close>

lemma snip_keeps_exchanges:
  assumes "fst (snip_if_needed est model ms) \<noteq> ms"
  shows "4 \<le> conversation_pairs None (fst (snip_if_needed est model ms))"
proof (rule snipped [OF assms])
  fix xs u mid a ys assume s: "ms = xs @ u # mid @ a # ys" "fst (snip_if_needed est model ms) = xs @ ys"
    "list_all (\<lambda>m. m_role m \<noteq> User) xs" "m_role u = User" "list_all (\<lambda>m. m_role m \<noteq> Assistant \<and> m_role m \<noteq> ToolRole) mid"
    "m_role a = Assistant" "4 < conversation_pairs None ms"
  have "list_all (\<lambda>m. m_role m \<noteq> Assistant) mid" using s(5) by (auto simp: list_all_iff)
  with s pairs_skip [OF s(3), of None None] pairs_skip [OF s(3), of None "Some Assistant" ys]
  show ?thesis by (simp add: pairs_wait)
qed

text \<open>
  Snipping looks for tool results between the message of the user and the answer only. When the
  answer itself called tools, the answer goes and the results of its calls stay, at the head of a
  conversation that no longer contains the calls.
\<close>

theorem snip_orphans_results:
  assumes "ms = u # a # t # rest" "m_role u = User" "m_role a = Assistant" "m_role t = ToolRole"
    and "snip_threshold model < int (est ms)" "4 < conversation_pairs None ms"
  shows "fst (snip_if_needed est model ms) = t # rest \<and> \<not> paired [] (fst (snip_if_needed est model ms))"
proof -
  have here: "k < length ms \<Longrightarrow> m_role (ms ! k) = r \<Longrightarrow> first_from r k ms = Some k" for k r
    by (simp add: first_from_def upt_conv_Cons)
  have "first_from User 0 ms = Some 0" "first_from Assistant 1 ms = Some 1"
    by (rule here; simp add: assms(1-3))+
  with assms show ?thesis by (simp add: snip_if_needed_def split: option.split)
qed

section \<open>Compacting the stored history of a group\<close>

record stored_msg =
  r_id :: int
  r_group :: int
  r_deleted :: bool
  r_bot :: bool
  r_name :: "utext option"
  r_text :: "utext option"

definition latest_messages :: "int \<Rightarrow> nat \<Rightarrow> stored_msg list \<Rightarrow> stored_msg list" where
  "latest_messages g limit rows =
     (let xs = sort_key r_id (filter (\<lambda>r. r_group r = g) rows) in drop (length xs - limit) xs)"

definition to_ai_format :: "stored_msg \<Rightarrow> msg" where
  "to_ai_format r =
     \<lparr>m_role = (if r_bot r then Assistant else User),
      m_content = Text (91 # get_default (r_name r) [63] @ ascii '']: '' @ take 1000 (get_default (r_text r) [])),
      m_name = None, m_call = None, m_calls = []\<rparr>"

definition extract_summary :: "utext \<Rightarrow> utext" where
  "extract_summary t =
     (if is_prefix (summary_mark @ [NL]) t then drop (length summary_mark + 1) t else t)"

text \<open>\<open>save_compaction_summary\<close>: the summary is a new message, every other message that is not kept is deleted.\<close>

definition save_compaction_summary ::
  "int \<Rightarrow> int \<Rightarrow> utext \<Rightarrow> int set \<Rightarrow> stored_msg list \<Rightarrow> stored_msg list" where
  "save_compaction_summary nid g text keep rows =
     map (\<lambda>r. if r_group r = g \<and> \<not> r_deleted r \<and> r_id r \<notin> keep \<and> r_id r \<noteq> nid then r\<lparr>r_deleted := True\<rparr> else r)
       (rows @ [\<lparr>r_id = nid, r_group = g, r_deleted = False, r_bot = True, r_name = None,
                 r_text = Some (summary_mark @ [NL] @ text)\<rparr>])"

definition keep_recent_rows :: nat where "keep_recent_rows = 10"

text \<open>
  The rows are read, the model is asked, and the rows as they are by then are written. \<open>cost\<close> is the
  estimate of the rows; None when nothing is compacted. The guard against concurrent compactions of
  a group is the set of groups whose compaction is under way.
\<close>

definition begin_db_compaction :: "int \<Rightarrow> int set \<Rightarrow> int set option" where
  "begin_db_compaction g L = (if g \<in> L then None else Some (insert g L))"

definition compaction_plan :: "(stored_msg list \<Rightarrow> nat) \<Rightarrow> int \<Rightarrow> stored_msg list \<Rightarrow> (stored_msg list \<times> stored_msg list) option" where
  "compaction_plan cost g rows =
     (let active = filter (\<lambda>r. \<not> r_deleted r) (latest_messages g 200 rows); n = length active - keep_recent_rows
      in if cost active \<le> 30000 \<or> n = 0 then None else Some (take n active, drop n active))"

definition db_compaction ::
  "(stored_msg list \<Rightarrow> nat) \<Rightarrow> int \<Rightarrow> int \<Rightarrow> stored_msg list \<Rightarrow> stored_msg list \<Rightarrow> compactor \<Rightarrow>
   stored_msg list option \<times> compactor" where
  "db_compaction cost nid g before now s =
     (case compaction_plan cost g before of
        None \<Rightarrow> (None, s)
      | Some (old, keep) \<Rightarrow>
          (case compact_conversation [] 0 [] (map to_ai_format old) s of
             ([], s') \<Rightarrow> (None, s')
           | (m # _, s') \<Rightarrow>
               let text = extract_summary (clean_content (m_content m))
               in if text = [] then (None, s')
                  else (Some (save_compaction_summary nid g text (set (map r_id keep)) now), s')))"

lemma compaction_plan_rows:
  "compaction_plan cost g rows = Some (old, keep) \<Longrightarrow> set old \<subseteq> set rows \<and> set keep \<subseteq> set rows \<and> length keep = 10 \<and> old \<noteq> []"
proof -
  have "set (latest_messages g 200 rows) \<subseteq> set rows"
    by (auto simp: latest_messages_def Let_def dest!: in_set_dropD)
  then show "compaction_plan cost g rows = Some (old, keep) \<Longrightarrow> ?thesis"
    by (auto simp: compaction_plan_def Let_def keep_recent_rows_def split: if_splits dest!: in_set_dropD in_set_takeD)
qed

text \<open>
  The messages of a group that are not among the ten kept are deleted even if the summary
  knows nothing of them: a message posted while the model was writing the summary is deleted with
  the old ones.
\<close>

theorem late_messages_are_deleted:
  assumes "db_compaction cost nid g before now s = (Some rows, s')"
    and "r \<in> set now" "r_group r = g" "r_id r \<noteq> nid" "r_id r \<notin> r_id ` set before"
  shows "\<exists>r' \<in> set rows. r_id r' = r_id r \<and> r_deleted r'"
proof -
  from assms(1) obtain old keep t where p: "compaction_plan cost g before = Some (old, keep)"
      "rows = save_compaction_summary nid g t (set (map r_id keep)) now"
    by (auto simp: db_compaction_def Let_def split: option.splits prod.splits list.splits if_splits)
  with compaction_plan_rows [OF p(1)] assms(5) have keep: "r_id r \<notin> set (map r_id keep)" by auto
  show ?thesis
  proof (cases "r_deleted r")
    case True
    with assms(2) p(2) show ?thesis by (force simp: save_compaction_summary_def)
  next
    case False
    with assms(2-4) keep have "r\<lparr>r_deleted := True\<rparr> \<in> set rows"
      unfolding p(2) save_compaction_summary_def by force
    then show ?thesis by (rule bexI [rotated]) simp
  qed
qed

text \<open>
  And when the model fails the old messages are deleted all the same: \<open>compact_conversation\<close> then
  gives a marker, meant for a conversation that must go on, and the marker is stored as the summary.
\<close>

lemma failed_summary_deletes_history:
  assumes "compaction_plan cost g before = Some (old, keep)" "replies s = []"
  shows "fst (db_compaction cost nid g before now s) =
    Some (save_compaction_summary nid g (dropped_marker (length old)) (set (map r_id keep)) now)"
proof -
  have old: "old \<noteq> []" using compaction_plan_rows [OF assms(1)] by blast
  have w: "walk_left (map to_ai_format old) (length old) = length old"
    using old by (cases "length old") (simp_all add: old)
  have "fst (ai_compact [] (map to_ai_format old) s) = None"
    using assms(2) by (simp add: ai_compact_def call_ai_def eval_nat_numeral)
  then obtain s' where a: "ai_compact [] (map to_ai_format old) s = (None, s')" by (cases "ai_compact [] (map to_ai_format old) s") simp
  have c: "compact_conversation [] 0 [] (map to_ai_format old) s = ([user_text (dropped_marker (length old))], s')"
    using old by (simp add: compact_conversation_def w a inject_context_def u_strip_def)
  have "extract_summary (dropped_marker (length old)) = dropped_marker (length old)" "dropped_marker (length old) \<noteq> []"
    by (simp_all add: extract_summary_def dropped_marker_def summary_mark_def)
  with assms(1) c show ?thesis
    by (simp add: db_compaction_def Let_def clean_content_def user_text_def)
qed

section \<open>Viewpoints of a discussion\<close>

text \<open>
  Older messages of bots are replaced by a viewpoint the model extracts once; the cache maps the id of
  a message to it. A pending entry reserves the message while another run asks for it.
\<close>

record chat =
  ch_id :: "int option"
  ch_bot :: bool
  ch_name :: utext
  ch_text :: "utext option"

datatype viewpoint = Pending | Viewpoint utext

definition viewpoint_prompt :: "utext \<Rightarrow> utext \<Rightarrow> utext" where
  "viewpoint_prompt name t =
     [21457, 35328, 20154, 26159, 12304] @ name @ [12305, 65292, 20854, 35328, 35770, 20869, 23481, 22914, 19979, 65306, 10, 10] @ t @ [10, 10, 35831, 30452, 25509, 36755, 20986, 25552, 28860, 21518, 30340, 26680, 24515, 35266, 28857, 12290]"

definition ask_viewpoint :: "chat \<Rightarrow> compactor \<Rightarrow> utext \<times> compactor" where
  "ask_viewpoint m s =
     (let t = get_default (ch_text m) [] in
      case call_ai (viewpoint_prompt (ch_name m) t) s of
        (Answered k v, s') \<Rightarrow> (u_strip v, s')
      | (_, s') \<Rightarrow> (take 100 t @ ascii ''...'', s'))"

definition compressible :: "chat \<Rightarrow> int option" where
  "compressible m = (case ch_id m of None \<Rightarrow> None | Some i \<Rightarrow> if i = 0 \<or> \<not> ch_bot m then None else Some i)"

definition compress_one ::
  "chat \<Rightarrow> (int \<Rightarrow> viewpoint option) \<Rightarrow> compactor \<Rightarrow> chat \<times> (int \<Rightarrow> viewpoint option) \<times> compactor" where
  "compress_one m c s =
     (case compressible m of
        None \<Rightarrow> (m, c, s)
      | Some i \<Rightarrow>
          let t = get_default (ch_text m) [];
              asked = (if c i \<noteq> None \<or> t = [] then (c, s)
                       else case ask_viewpoint m s of (v, s') \<Rightarrow> (c(i \<mapsto> Viewpoint v), s'));
              shown = (case fst asked i of Some (Viewpoint v) \<Rightarrow> if v = [] then t else v | _ \<Rightarrow> t)
          in (m\<lparr>ch_text := Some ([12304, 27492, 21069, 21457, 35328, 25688, 35201, 35760, 24405, 65306] @ shown @ [12305])\<rparr>, asked))"

fun compress_all ::
  "chat list \<Rightarrow> (int \<Rightarrow> viewpoint option) \<Rightarrow> compactor \<Rightarrow> chat list \<times> (int \<Rightarrow> viewpoint option) \<times> compactor" where
  "compress_all [] c s = ([], c, s)"
| "compress_all (m # ms) c s =
     (case compress_one m c s of (m', c', s') \<Rightarrow>
        case compress_all ms c' s' of (ms', r) \<Rightarrow> (m' # ms', r))"

definition window_size :: "nat option \<Rightarrow> nat \<Rightarrow> nat" where
  "window_size pc bots = (if get_default pc 0 \<noteq> 0 then get_default pc 0 else if bots \<noteq> 0 then bots else 4)"

definition compress_history ::
  "nat option \<Rightarrow> nat \<Rightarrow> chat list \<Rightarrow> (int \<Rightarrow> viewpoint option) \<Rightarrow> compactor \<Rightarrow>
   chat list \<times> (int \<Rightarrow> viewpoint option) \<times> compactor" where
  "compress_history pc bots ms c s =
     (let w = window_size pc bots in
      if length ms \<le> w + 1 then (ms, c, s)
      else case compress_all (take (length ms - w - 1) (drop 1 ms)) c s of
        (mid, r) \<Rightarrow> (take 1 ms @ mid @ drop (length ms - w) ms, r))"

lemma compress_one_settles:
  assumes "compress_one m c s = (m', c', s')"
  shows "c \<subseteq>\<^sub>m c'" "compressible m = Some i \<Longrightarrow> get_default (ch_text m) [] \<noteq> [] \<Longrightarrow> c' i \<noteq> None"
    and "compressible m = None \<Longrightarrow> m' = m"
    and "compressible m = None \<or> get_default (ch_text m) [] = [] \<or> (\<exists>i. compressible m = Some i \<and> c i \<noteq> None) \<Longrightarrow> c' = c \<and> s' = s"
  using assms by (auto simp: compress_one_def Let_def map_le_def split: option.splits if_splits prod.splits)

lemma compress_all_settles:
  "compress_all ms c s = (ms', c', s') \<Longrightarrow>
   c \<subseteq>\<^sub>m c' \<and> length ms' = length ms \<and>
   (\<forall>m \<in> set ms. \<forall>i. compressible m = Some i \<longrightarrow> get_default (ch_text m) [] \<noteq> [] \<longrightarrow> c' i \<noteq> None)"
proof (induction ms arbitrary: c s ms')
  case (Cons m ms)
  obtain m1 c1 s1 where o: "compress_one m c s = (m1, c1, s1)" by (metis prod_cases3)
  obtain ms1 c2 s2 where a: "compress_all ms c1 s1 = (ms1, c2, s2)" by (metis prod_cases3)
  from Cons.prems o a have e: "c2 = c'" "s2 = s'" "ms' = m1 # ms1" by simp_all
  note ih = Cons.IH [OF a [unfolded e(1,2)]]
  have "c' i \<noteq> None" if "compressible m = Some i" "get_default (ch_text m) [] \<noteq> []" for i
    using compress_one_settles(2) [OF o that] ih by (auto simp: map_le_def dom_def)
  with ih e(3) map_le_trans [OF compress_one_settles(1) [OF o], of c'] show ?case by auto
qed simp

text \<open>
  The model is asked for the viewpoint of a message once: a second run over the same messages
  asks nothing and changes no viewpoint. The first message and the latest round stay as they are.
\<close>

theorem viewpoints_are_asked_once:
  assumes "compress_history pc bots ms c s = (ms', c', s')"
  shows "snd (compress_history pc bots ms c' s'') = (c', s'') \<and> length ms' = length ms \<and>
    (\<forall>i < length ms. i = 0 \<or> length ms \<le> i + window_size pc bots \<longrightarrow> ms' ! i = ms ! i)"
proof -
  let ?w = "window_size pc bots"
  let ?mid = "take (length ms - ?w - 1) (drop 1 ms)"
  show ?thesis
  proof (cases "length ms \<le> ?w + 1")
    case True
    with assms show ?thesis by (simp add: compress_history_def)
  next
    case False
    obtain mid c1 s1 where a: "compress_all ?mid c s = (mid, c1, s1)" by (metis prod_cases3)
    with assms False have e: "ms' = take 1 ms @ mid @ drop (length ms - ?w) ms" "c1 = c'"
      by (simp_all add: compress_history_def Let_def)
    note st = compress_all_settles [OF a, unfolded e(2), THEN conjunct1]
      compress_all_settles [OF a, unfolded e(2), THEN conjunct2, THEN conjunct1]
      compress_all_settles [OF a, unfolded e(2), THEN conjunct2, THEN conjunct2]
    have again: "snd (compress_all xs c' s'') = (c', s'')"
      if "\<forall>m \<in> set xs. \<forall>i. compressible m = Some i \<longrightarrow> get_default (ch_text m) [] \<noteq> [] \<longrightarrow> c' i \<noteq> None" for xs
      using that
    proof (induction xs)
      case (Cons m xs)
      obtain m1 c2 s2 where o: "compress_one m c' s'' = (m1, c2, s2)" by (metis prod_cases3)
      have "c2 = c' \<and> s2 = s''"
        by (rule compress_one_settles(4) [OF o]) (use Cons.prems in \<open>cases "compressible m", auto\<close>)
      with Cons o show ?case by (cases "compress_all xs c' s''") simp
    qed simp
    have len: "length mid = length ms - ?w - 1" using st(2) False by simp
    have "ms' ! i = ms ! i" if "i < length ms" "i = 0 \<or> length ms \<le> i + ?w" for i
    proof (cases "i = 0")
      case True
      with False show ?thesis by (simp add: e nth_append)
    next
      case nz: False
      then have "\<not> i < length (take 1 ms @ mid)" "i - length (take 1 ms @ mid) = i - (length ms - ?w)"
        using that len False by auto
      then show ?thesis using that nz False unfolding e append_assoc [symmetric] by (simp add: nth_append)
    qed
    moreover have "length ms' = length ms" using False len by (simp add: e)
    moreover have "snd (compress_history pc bots ms c' s'') = (c', s'')"
      using again [OF st(3)] False
      by (cases "compress_all ?mid c' s''") (simp add: compress_history_def Let_def)
    ultimately show ?thesis by blast
  qed
qed

section \<open>Worked instances\<close>

definition silent_model :: compactor where
  "silent_model = \<lparr>fails = [7 \<mapsto> 3], replies = [], asked_texts = [], notices = []\<rparr>"

definition tool_result :: "utext \<Rightarrow> msg" where
  "tool_result c = \<lparr>m_role = ToolRole, m_content = Text [120], m_name = Some (ascii ''read_file''), m_call = Some c, m_calls = []\<rparr>"

definition asking :: msg where
  "asking = (plain Assistant [97])\<lparr>m_calls := [\<lparr>c_id = [99], c_name = ascii ''read_file'', c_args = [], c_refs = NoRefs\<rparr>]\<rparr>"

theorem clearing_keeps_recent_results_witness:
  "microcompact [tool_result [1], tool_result [2], tool_result [3], tool_result [4], tool_result [5], tool_result [6]] ! 1 =
     tool_result [2]"
proof -
  let ?ms = "[tool_result [1], tool_result [2], tool_result [3], tool_result [4], tool_result [5], tool_result [6]]"
  have "(1::nat) < length ?ms" by simp
  moreover have "length (filter (\<lambda>j. 1 < j \<and> compactable (?ms ! j)) [0..<length ?ms]) \<le> 4"
    by (simp add: upt_rec)
  ultimately show ?thesis using clearing_keeps_recent_results [of 1 ?ms] by simp
qed

theorem compaction_keeps_recent_messages_witness:
  "paired [] (fst (auto_compact (\<lambda>_. 0) ''qwen-max'' 1 [] [] 1 [plain User [98], asking, tool_result [99]]
     (silent_model\<lparr>replies := [Answered True [65]]\<rparr>)))"
proof -
  let ?ms = "[plain User [98], asking, tool_result [99]]"
  have "paired [] ?ms" by (simp add: plain_def asking_def tool_result_def)
  moreover obtain ms' ok s' where "auto_compact (\<lambda>_. 0) ''qwen-max'' 1 [] [] 1 ?ms
      (silent_model\<lparr>replies := [Answered True [65]]\<rparr>) = (ms', ok, s')" by (metis prod_cases3)
  ultimately show ?thesis using compaction_keeps_recent_messages by force
qed

theorem summary_retries_are_bounded_witness:
  "length (asked_texts (snd (ai_compact [] [plain User [98]] silent_model))) \<le> 4"
proof -
  have "[plain User [98]] \<noteq> []" by simp
  from summary_retries_are_bounded [OF this, of "[]" silent_model] show ?thesis
    by (auto simp: silent_model_def)
qed

theorem breaker_never_closes_witness:
  "auto_compact (\<lambda>_. 0) ''qwen-max'' 7 [] [] 0 [plain User [98]] silent_model = ([plain User [98]], False, silent_model)"
proof -
  have "circuit_open 7 silent_model" by (simp add: circuit_open_def silent_model_def get_default_def)
  from breaker_never_closes [OF this, of "\<lambda>_. 0" "''qwen-max''" "[]" "[]" 0 "[plain User [98]]" "[]"]
  show ?thesis by (simp add: compact_all_def)
qed

theorem snip_orphans_results_witness:
  "\<not> paired [] (fst (snip_if_needed (\<lambda>_. 100000) ''gpt-4o''
     (plain User [98] # asking # tool_result [99] # concat (replicate 4 [plain User [98], plain Assistant [97]]))))"
proof -
  let ?rest = "concat (replicate 4 [plain User [98], plain Assistant [97]])"
  let ?ms = "plain User [98] # asking # tool_result [99] # ?rest"
  have "m_role (plain User [98]) = User" "m_role asking = Assistant" "m_role (tool_result [99]) = ToolRole"
    by (simp_all add: plain_def asking_def tool_result_def)
  moreover have "snip_threshold ''gpt-4o'' < int 100000"
    by (simp add: snip_threshold_def window_of_def context_windows_def get_default_def)
  moreover have "4 < conversation_pairs None ?ms"
    by (simp add: eval_nat_numeral plain_def asking_def tool_result_def)
  ultimately show ?thesis using snip_orphans_results [OF refl, where est = "\<lambda>_. 100000"] by blast
qed

definition old_row :: "int \<Rightarrow> stored_msg" where
  "old_row i = \<lparr>r_id = i, r_group = 1, r_deleted = False, r_bot = False, r_name = None, r_text = Some [97]\<rparr>"

theorem late_messages_are_deleted_witness:
  "\<exists>rows. fst (db_compaction (\<lambda>_. 40000) 99 1 (map old_row [1..11]) (map old_row [1..12]) silent_model) = Some rows \<and>
     (\<exists>r \<in> set rows. r_id r = 12 \<and> r_deleted r)"
proof -
  have ids: "[1..11] = [1, 2, 3, 4, 5, 6, 7, 8, 9, 10, 11 :: int]" by (simp add: upto_rec1)
  have "latest_messages 1 200 (map old_row [1..11]) = map old_row [1..11]"
    by (simp add: ids latest_messages_def Let_def old_row_def)
  then have "\<exists>old keep. compaction_plan (\<lambda>_. 40000) 1 (map old_row [1..11]) = Some (old, keep)"
    by (simp add: compaction_plan_def keep_recent_rows_def Let_def ids old_row_def)
  then obtain old keep where plan: "compaction_plan (\<lambda>_. 40000) 1 (map old_row [1..11]) = Some (old, keep)" by blast
  obtain rows s' where d: "db_compaction (\<lambda>_. 40000) 99 1 (map old_row [1..11]) (map old_row [1..12]) silent_model = (Some rows, s')"
    using failed_summary_deletes_history [OF plan, of silent_model 99 "map old_row [1..12]"]
    by (cases "db_compaction (\<lambda>_. 40000) 99 1 (map old_row [1..11]) (map old_row [1..12]) silent_model")
      (simp add: silent_model_def)
  have "old_row 12 \<in> set (map old_row [1..12])" "r_group (old_row 12) = 1" "r_id (old_row 12) \<noteq> 99"
    "r_id (old_row 12) \<notin> r_id ` set (map old_row [1..11])" by (auto simp: old_row_def)
  from late_messages_are_deleted [OF d this] d show ?thesis by (simp add: old_row_def)
qed

definition turn :: "int \<Rightarrow> chat" where
  "turn i = \<lparr>ch_id = Some i, ch_bot = True, ch_name = [], ch_text = Some [97]\<rparr>"

theorem viewpoints_are_asked_once_witness:
  "\<exists>c. c 2 \<noteq> None \<and> snd (compress_history None 1 [turn 1, turn 2, turn 3] c silent_model) = (c, silent_model)"
proof -
  obtain ms' c s where r: "compress_history None 1 [turn 1, turn 2, turn 3] Map.empty silent_model = (ms', c, s)"
    by (metis prod_cases3)
  then have "c 2 \<noteq> None"
    by (auto simp: compress_history_def Let_def window_size_def get_default_def compress_one_def compressible_def turn_def
        ask_viewpoint_def call_ai_def silent_model_def)
  with viewpoints_are_asked_once [OF r, of silent_model] show ?thesis by blast
qed

end
