(* ===== verification/Sessions.thy ===== *)
theory Sessions
  imports Compaction Complex_Main
begin

text \<open>
  The durable record of a bot run, \<^verbatim>\<open>sessions/store.py\<close>, \<^verbatim>\<open>sessions/evidence.py\<close>,
  \<^verbatim>\<open>sessions/model_usage.py\<close> and \<^verbatim>\<open>ai/pricing.py\<close>: sessions and their status, the event log
  written ahead of the tools, the ledger of model requests with its costs, and the links from
  events to learned evidence. A store is what one group database holds; every write is one
  transaction, so an error leaves the store as it was. \<open>low\<close> is \<open>str.lower\<close>. Costs are exact
  rationals where the code rounds to floating point.
\<close>

section \<open>Prices\<close>

record usage =
  u_input :: int
  u_output :: int
  u_cache_read :: int
  u_cache_creation :: int

definition no_usage :: usage where
  "no_usage = \<lparr>u_input = 0, u_output = 0, u_cache_read = 0, u_cache_creation = 0\<rparr>"

definition add_usage :: "usage \<Rightarrow> usage \<Rightarrow> usage" where
  "add_usage a b = \<lparr>u_input = u_input a + u_input b, u_output = u_output a + u_output b,
     u_cache_read = u_cache_read a + u_cache_read b, u_cache_creation = u_cache_creation a + u_cache_creation b\<rparr>"

record rates =
  r_input :: rat
  r_output :: rat
  r_cache_read :: rat
  r_cache_write :: rat

definition rate :: "rat \<Rightarrow> rat \<Rightarrow> rat \<Rightarrow> rat \<Rightarrow> rates" where
  "rate i out r w = \<lparr>r_input = i, r_output = out, r_cache_read = r, r_cache_write = w\<rparr>"

definition deepseek_prices :: "(string \<times> rates) list" where
  "deepseek_prices =
     [(''deepseek-reasoner'', rate (55/100) (219/100) (14/100) 0),
      (''deepseek-chat'', rate (27/100) (110/100) (7/100) 0),
      (''_default'', rate (27/100) (110/100) (7/100) 0)]"

definition openai_prices :: "(string \<times> rates) list" where
  "openai_prices =
     [(''gpt-4o-mini'', rate (15/100) (60/100) (75/1000) 0),
      (''gpt-4o'', rate (250/100) 10 (125/100) 0),
      (''gpt-4.1-mini'', rate (40/100) (160/100) (10/100) 0),
      (''gpt-4.1'', rate 2 8 (50/100) 0),
      (''_default'', rate (250/100) 10 (125/100) 0)]"

definition claude_prices :: "(string \<times> rates) list" where
  "claude_prices =
     [(''haiku'', rate 1 5 (10/100) (125/100)),
      (''sonnet'', rate 3 15 (30/100) (375/100)),
      (''opus-4-5'', rate 5 25 (50/100) (625/100)),
      (''opus'', rate 15 75 (150/100) (1875/100)),
      (''_default'', rate 3 15 (30/100) (375/100))]"

definition PRICING :: "(string \<times> (string \<times> rates) list) list" where
  "PRICING = [(''deepseek'', deepseek_prices), (''openai'', openai_prices), (''claude'', claude_prices)]"

definition cache_folded :: "utext \<Rightarrow> bool" where
  "cache_folded p \<longleftrightarrow> p = ascii ''deepseek'' \<or> p = ascii ''openai''"

definition ascii_keys :: "(string \<times> 'v) list \<Rightarrow> (utext \<times> 'v) list" where
  "ascii_keys t = map (\<lambda>(k, v). (ascii k, v)) t"

text \<open>\<open>max(candidates, key=len)\<close> keeps the first of the longest.\<close>

fun longest :: "utext list \<Rightarrow> utext option" where
  "longest [] = None"
| "longest (x # xs) = (case longest xs of None \<Rightarrow> Some x | Some y \<Rightarrow> Some (if length x < length y then y else x))"

definition resolve_rates :: "(utext \<Rightarrow> utext) \<Rightarrow> utext \<Rightarrow> utext \<Rightarrow> rates option" where
  "resolve_rates low provider model =
     (case map_of (ascii_keys PRICING) (low provider) of
        None \<Rightarrow> None
      | Some t \<Rightarrow>
          let table = ascii_keys t; m = low model in
          (case map_of table m of
             Some r \<Rightarrow> Some r
           | None \<Rightarrow>
               (case longest (filter (\<lambda>k. k \<noteq> ascii ''_default'' \<and> is_infix k m) (map fst table)) of
                  Some k \<Rightarrow> map_of table k
                | None \<Rightarrow> map_of table (ascii ''_default''))))"

definition per_million :: "int \<Rightarrow> rat" where
  "per_million n = of_int n / 1000000"

definition calculate_cost :: "(utext \<Rightarrow> utext) \<Rightarrow> utext \<Rightarrow> utext \<Rightarrow> usage \<Rightarrow> rat" where
  "calculate_cost low provider model u =
     (case resolve_rates low provider model of
        None \<Rightarrow> 0
      | Some r \<Rightarrow>
          let full = (if cache_folded (low provider) then max 0 (u_input u - u_cache_read u) else u_input u) in
          per_million full * r_input r + per_million (u_output u) * r_output r
          + per_million (u_cache_read u) * r_cache_read r + per_million (u_cache_creation u) * r_cache_write r)"

section \<open>Evidence links\<close>

record raw_link =
  rl_ref :: utext
  rl_kind :: utext
  rl_relation :: utext

datatype evidence_kind = MemoryEvidence | SkillEvidence

datatype evidence_relation = Injected | Cited | Invoked

record link =
  lk_kind :: evidence_kind
  lk_ref :: utext
  lk_relation :: evidence_relation

definition kind_of_ref :: "utext \<Rightarrow> evidence_kind" where
  "kind_of_ref ref = (if is_prefix (ascii ''skill:'') ref then SkillEvidence else MemoryEvidence)"

definition kind_text :: "evidence_kind \<Rightarrow> utext" where
  "kind_text k = (case k of MemoryEvidence \<Rightarrow> ascii ''memory'' | SkillEvidence \<Rightarrow> ascii ''skill'')"

definition relation_text :: "evidence_relation \<Rightarrow> utext" where
  "relation_text r = (case r of Injected \<Rightarrow> ascii ''injected'' | Cited \<Rightarrow> ascii ''cited'' | Invoked \<Rightarrow> ascii ''invoked'')"

definition read_kind :: "utext \<Rightarrow> evidence_kind option" where
  "read_kind t = find (\<lambda>k. kind_text k = t) [MemoryEvidence, SkillEvidence]"

definition read_relation :: "utext \<Rightarrow> evidence_relation option" where
  "read_relation t = find (\<lambda>r. relation_text r = t) [Injected, Cited, Invoked]"

datatype link_error = BadRef | BadKind utext | BadRelation utext

definition ref_ok :: "utext \<Rightarrow> bool" where
  "ref_ok ref \<longleftrightarrow> ref \<noteq> [] \<and> \<not> list_ex u_space ref \<and> length ref \<le> 512"

definition read_link :: "raw_link \<Rightarrow> link_error + link" where
  "read_link l =
     (let ref = u_strip (rl_ref l);
          kind = u_strip (if rl_kind l = [] then kind_text (kind_of_ref ref) else rl_kind l);
          rel = u_strip (rl_relation l)
      in if \<not> ref_ok ref then Inl BadRef
         else (case read_kind kind of
                 None \<Rightarrow> Inl (BadKind kind)
               | Some k \<Rightarrow>
                   (case read_relation rel of
                      None \<Rightarrow> Inl (BadRelation rel)
                    | Some r \<Rightarrow> Inr \<lparr>lk_kind = k, lk_ref = ref, lk_relation = r\<rparr>)))"

fun normalize_links :: "link list \<Rightarrow> raw_link list \<Rightarrow> link_error + link list" where
  "normalize_links acc [] = Inr acc"
| "normalize_links acc (l # ls) =
     (case read_link l of
        Inl e \<Rightarrow> Inl e
      | Inr k \<Rightarrow> normalize_links (if k \<in> set acc then acc else acc @ [k]) ls)"

definition raw_of :: "link \<Rightarrow> raw_link" where
  "raw_of l = \<lparr>rl_ref = lk_ref l, rl_kind = kind_text (lk_kind l), rl_relation = relation_text (lk_relation l)\<rparr>"

text \<open>Links that were normalized once, as the event log stores them, normalize to themselves.\<close>

lemma read_kind_text [simp]: "read_kind (kind_text k) = Some k"
  by (cases k) (simp_all add: read_kind_def kind_text_def ascii_def)

lemma read_relation_text [simp]: "read_relation (relation_text r) = Some r"
  by (cases r) (simp_all add: read_relation_def relation_text_def ascii_def)

section \<open>The store\<close>

datatype status = Running | Completed | Failed | NeedsReview | Recovering | AwaitingRecovery

record request =
  q_id :: utext
  q_provider :: utext
  q_model :: utext
  q_ticket :: utext

text \<open>
  The events of a session. The lifecycle of a model request carries what the ledger projects;
  \<open>Other\<close> stands for the event types that only the timeline reads.
\<close>

datatype event_body =
    SessionStart utext
  | LlmResponse utext "tool_call list"
  | ToolCall tool_call
  | ToolResult utext utext utext bool
  | SessionStatus status status
  | ChildFork utext utext
  | ChildJoin utext utext utext
  | RequestStarted request int utext utext bool
  | RequestCompleted request usage int utext
  | RequestFailed request usage int utext
  | Other utext

record event =
  e_id :: nat
  e_session :: utext
  e_body :: event_body
  e_links :: "link list"

record session =
  ss_id :: utext
  ss_parent :: "utext option"
  ss_bot :: int
  ss_group :: int
  ss_executor :: utext
  ss_provider :: utext
  ss_model :: utext
  ss_prompt :: utext
  ss_user :: utext
  ss_status :: status
  ss_snapshot :: "msg list option"
  ss_usage :: usage
  ss_created :: int
  ss_updated :: int

datatype request_status = RqStarted | RqCompleted | RqFailed

record ledger_row =
  lr_request :: request
  lr_session :: utext
  lr_ordinal :: int
  lr_retry_of :: utext
  lr_operation :: utext
  lr_streaming :: bool
  lr_status :: request_status
  lr_detail :: utext
  lr_usage :: usage
  lr_cost :: rat
  lr_duration :: int
  lr_start :: nat
  lr_final :: "nat option"

record store =
  sessions :: "session list"
  events :: "event list"
  next_event :: nat
  ledger :: "ledger_row list"
  tickets :: "utext \<Rightarrow> rat option"

definition empty_store :: "(utext \<Rightarrow> rat option) \<Rightarrow> store" where
  "empty_store T = \<lparr>sessions = [], events = [], next_event = 1, ledger = [], tickets = T\<rparr>"

datatype store_error =
    SessionExists utext
  | SessionNotFound utext
  | BadLink link_error
  | IncompleteRequest
  | BadField string
  | DuplicateRequest utext
  | RequestNotFound utext
  | RequestTerminal utext
  | IdentityMismatch
  | TicketMismatch

section \<open>The ledger of model requests\<close>

definition started_row :: "nat \<Rightarrow> utext \<Rightarrow> request \<Rightarrow> int \<Rightarrow> utext \<Rightarrow> utext \<Rightarrow> bool \<Rightarrow> ledger_row" where
  "started_row ev sid q ord retry op streaming =
     \<lparr>lr_request = q, lr_session = sid, lr_ordinal = ord, lr_retry_of = retry,
      lr_operation = (if op = [] then ascii ''inference'' else op), lr_streaming = streaming,
      lr_status = RqStarted, lr_detail = [], lr_usage = no_usage, lr_cost = 0, lr_duration = 0,
      lr_start = ev, lr_final = None\<rparr>"

definition last_ordinal :: "utext \<Rightarrow> store \<Rightarrow> int" where
  "last_ordinal sid st = foldr max (map lr_ordinal (filter (\<lambda>r. lr_session r = sid) (ledger st))) 0"

definition stripped :: "request \<Rightarrow> request" where
  "stripped q = q\<lparr>q_id := u_strip (q_id q), q_provider := u_strip (q_provider q), q_model := u_strip (q_model q)\<rparr>"

definition request_complete :: "request \<Rightarrow> bool" where
  "request_complete q \<longleftrightarrow> q_id q \<noteq> [] \<and> q_provider q \<noteq> [] \<and> q_model q \<noteq> []"

definition project_started ::
  "nat \<Rightarrow> utext \<Rightarrow> request \<Rightarrow> int \<Rightarrow> utext \<Rightarrow> utext \<Rightarrow> bool \<Rightarrow> store \<Rightarrow> store_error + store" where
  "project_started ev sid q0 ord retry op streaming st =
     (let q = stripped q0 in
      if \<not> request_complete q then Inl IncompleteRequest
      else if ord < 0 then Inl (BadField ''request_ordinal'')
      else if ord < 1 then Inl (BadField ''request_ordinal must be positive'')
      else if row_by (q_id \<circ> lr_request) (q_id q) (ledger st) \<noteq> None then Inl (DuplicateRequest (q_id q))
      else Inr (st\<lparr>ledger := ledger st
                     @ [started_row ev sid q (max ord (last_ordinal sid st + 1)) retry op streaming]\<rparr>))"

definition usage_ok :: "usage \<Rightarrow> string option" where
  "usage_ok u =
     (if u_input u < 0 then Some ''input_tokens''
      else if u_output u < 0 then Some ''output_tokens''
      else if u_cache_read u < 0 then Some ''cache_read_tokens''
      else if u_cache_creation u < 0 then Some ''cache_creation_tokens'' else None)"

definition close_row :: "nat \<Rightarrow> request_status \<Rightarrow> utext \<Rightarrow> utext \<Rightarrow> usage \<Rightarrow> rat \<Rightarrow> int \<Rightarrow> ledger_row \<Rightarrow> ledger_row" where
  "close_row ev s detail ticket u cost dur r =
     r\<lparr>lr_status := s, lr_detail := detail, lr_request := (lr_request r)\<lparr>q_ticket := ticket\<rparr>,
       lr_usage := u, lr_cost := cost, lr_duration := dur, lr_final := Some ev\<rparr>"

definition charge_session :: "int \<Rightarrow> utext \<Rightarrow> usage \<Rightarrow> store \<Rightarrow> store" where
  "charge_session now sid u st =
     st\<lparr>sessions := update_where (\<lambda>s. ss_id s = sid) (\<lambda>s. s\<lparr>ss_usage := add_usage (ss_usage s) u, ss_updated := now\<rparr>)
                      (sessions st)\<rparr>"

definition charge_ticket :: "utext \<Rightarrow> rat \<Rightarrow> store \<Rightarrow> store" where
  "charge_ticket t c st =
     (if t = [] \<or> c = 0 then st
      else st\<lparr>tickets := (\<lambda>x. if x = t then map_option (\<lambda>y. y + c) (tickets st t) else tickets st x)\<rparr>)"

definition row_of :: "utext \<Rightarrow> request \<Rightarrow> ledger_row \<Rightarrow> bool" where
  "row_of sid q r \<longleftrightarrow> q_id (lr_request r) = q_id q \<and> lr_session r = sid"

definition project_terminal ::
  "(utext \<Rightarrow> utext) \<Rightarrow> int \<Rightarrow> nat \<Rightarrow> utext \<Rightarrow> bool \<Rightarrow> request \<Rightarrow> usage \<Rightarrow> int \<Rightarrow> utext \<Rightarrow> store \<Rightarrow> store_error + store" where
  "project_terminal low now ev sid ok q0 u dur detail st =
     (let q = stripped q0 in
      if \<not> request_complete q then Inl IncompleteRequest
      else
        (case find (row_of sid q) (ledger st) of
           None \<Rightarrow> Inl (RequestNotFound (q_id q))
         | Some r \<Rightarrow>
             if lr_status r \<noteq> RqStarted then Inl (RequestTerminal (q_id q))
             else if q_provider (lr_request r) \<noteq> q_provider q \<or> q_model (lr_request r) \<noteq> q_model q then Inl IdentityMismatch
             else
               let t0 = q_ticket (lr_request r); t1 = u_strip (q_ticket q0) in
               if t0 \<noteq> [] \<and> t1 \<noteq> [] \<and> t0 \<noteq> t1 then Inl TicketMismatch
               else
                 let t = (if t0 \<noteq> [] then t0 else t1) in
                 (case usage_ok u of
                    Some f \<Rightarrow> Inl (BadField f)
                  | None \<Rightarrow>
                      if dur < 0 then Inl (BadField ''duration_ms'')
                      else
                        let cost = (if ok then calculate_cost low (q_provider q) (q_model q) u else 0);
                            st1 = st\<lparr>ledger := update_where (row_of sid q)
                                        (close_row ev (if ok then RqCompleted else RqFailed) detail t u cost dur) (ledger st)\<rparr>
                        in Inr (if ok then charge_ticket t cost (charge_session now sid u st1) else st1))))"

definition project_model_usage ::
  "(utext \<Rightarrow> utext) \<Rightarrow> int \<Rightarrow> nat \<Rightarrow> utext \<Rightarrow> event_body \<Rightarrow> store \<Rightarrow> store_error + store" where
  "project_model_usage low now ev sid b st =
     (case b of
        RequestStarted q ord retry op streaming \<Rightarrow> project_started ev sid q ord retry op streaming st
      | RequestCompleted q u dur detail \<Rightarrow> project_terminal low now ev sid True q u dur detail st
      | RequestFailed q u dur detail \<Rightarrow> project_terminal low now ev sid False q u dur (take 120 detail) st
      | _ \<Rightarrow> Inr st)"

section \<open>Operations of the store\<close>

record session_spec =
  sp_id :: utext
  sp_parent :: "utext option"
  sp_bot :: int
  sp_group :: int
  sp_executor :: utext
  sp_provider :: utext
  sp_model :: utext
  sp_prompt :: utext
  sp_user :: utext

definition create_session :: "int \<Rightarrow> session_spec \<Rightarrow> store \<Rightarrow> store_error + store" where
  "create_session now p st =
     (case row_by ss_id (sp_id p) (sessions st) of
        Some _ \<Rightarrow> Inl (SessionExists (sp_id p))
      | None \<Rightarrow> Inr (st\<lparr>sessions := sessions st @
          [\<lparr>ss_id = sp_id p, ss_parent = sp_parent p, ss_bot = sp_bot p, ss_group = sp_group p,
            ss_executor = sp_executor p, ss_provider = sp_provider p, ss_model = sp_model p,
            ss_prompt = sp_prompt p, ss_user = sp_user p, ss_status = Running, ss_snapshot = None,
            ss_usage = no_usage, ss_created = now, ss_updated = now\<rparr>]\<rparr>))"

definition log_event :: "utext \<Rightarrow> event_body \<Rightarrow> link list \<Rightarrow> store \<Rightarrow> store" where
  "log_event sid b ls st =
     st\<lparr>events := events st @ [\<lparr>e_id = next_event st, e_session = sid, e_body = b, e_links = ls\<rparr>],
        next_event := next_event st + 1\<rparr>"

definition touch :: "int \<Rightarrow> utext \<Rightarrow> store \<Rightarrow> store" where
  "touch now sid st = st\<lparr>sessions := update_where (\<lambda>s. ss_id s = sid) (\<lambda>s. s\<lparr>ss_updated := now\<rparr>) (sessions st)\<rparr>"

definition append_event ::
  "(utext \<Rightarrow> utext) \<Rightarrow> int \<Rightarrow> utext \<Rightarrow> event_body \<Rightarrow> raw_link list \<Rightarrow> store \<Rightarrow> store_error + store" where
  "append_event low now sid b raw st =
     (case normalize_links [] raw of
        Inl e \<Rightarrow> Inl (BadLink e)
      | Inr ls \<Rightarrow>
          (case row_by ss_id sid (sessions st) of
             None \<Rightarrow> Inl (SessionNotFound sid)
           | Some _ \<Rightarrow>
               map_sum id (touch now sid)
                 (project_model_usage low now (next_event st) sid b (log_event sid b ls st))))"

definition update_session_status :: "int \<Rightarrow> utext \<Rightarrow> status \<Rightarrow> store \<Rightarrow> store" where
  "update_session_status now sid new st =
     (let st1 = st\<lparr>sessions := update_where (\<lambda>s. ss_id s = sid) (\<lambda>s. s\<lparr>ss_status := new, ss_updated := now\<rparr>) (sessions st)\<rparr>
      in case row_by ss_id sid (sessions st) of
           None \<Rightarrow> st1
         | Some s \<Rightarrow> if ss_status s = new then st1 else log_event sid (SessionStatus (ss_status s) new) [] st1)"

definition save_snapshot :: "int \<Rightarrow> utext \<Rightarrow> msg list \<Rightarrow> store \<Rightarrow> store" where
  "save_snapshot now sid ms st =
     st\<lparr>sessions := update_where (\<lambda>s. ss_id s = sid) (\<lambda>s. s\<lparr>ss_snapshot := Some ms, ss_updated := now\<rparr>) (sessions st)\<rparr>"

definition add_tokens :: "int \<Rightarrow> utext \<Rightarrow> usage \<Rightarrow> store \<Rightarrow> store" where
  "add_tokens = charge_session"

definition get_session :: "utext \<Rightarrow> store \<Rightarrow> session option" where
  "get_session sid st = row_by ss_id sid (sessions st)"

definition session_cost :: "(utext \<Rightarrow> utext) \<Rightarrow> session \<Rightarrow> rat" where
  "session_cost low s = calculate_cost low (ss_provider s) (ss_model s) (ss_usage s)"

definition get_events :: "utext \<Rightarrow> store \<Rightarrow> event list" where
  "get_events sid st =
     (if row_by ss_id sid (sessions st) = None then []
      else sort_key e_id (filter (\<lambda>e. e_session e = sid) (events st)))"

definition get_orphaned_sessions :: "int option \<Rightarrow> store \<Rightarrow> session list" where
  "get_orphaned_sessions g st =
     sort_key ss_created
       (filter (\<lambda>s. ss_status s = Running \<and> (case g of None \<Rightarrow> True | Some x \<Rightarrow> x = 0 \<or> ss_group s = x)) (sessions st))"

definition get_group_sessions :: "int \<Rightarrow> nat \<Rightarrow> store \<Rightarrow> session list" where
  "get_group_sessions g limit st =
     take limit (sort_key (\<lambda>s. - ss_updated s)
       (sort_key (\<lambda>s. - ss_created s) (filter (\<lambda>s. ss_group s = g) (sessions st))))"

definition get_evidence_events :: "int \<Rightarrow> utext \<Rightarrow> int \<Rightarrow> store \<Rightarrow> link_error + event list" where
  "get_evidence_events g raw limit st =
     (let ref = u_strip raw in
      if ref = [] \<or> list_ex u_space ref then Inl BadRef
      else Inr (take (nat (max 1 (min limit 500)))
        (concat (map (\<lambda>e. replicate (length (filter (\<lambda>l. lk_ref l = ref) (e_links e))) e)
           (rev (sort_key e_id
             (filter (\<lambda>e. case row_by ss_id (e_session e) (sessions st) of None \<Rightarrow> False | Some s \<Rightarrow> ss_group s = g)
                (events st))))))))"

record totals =
  t_requests :: nat
  t_completed :: nat
  t_failed :: nat
  t_open :: nat
  t_usage :: usage
  t_cost :: rat

definition sum_usage :: "usage list \<Rightarrow> usage" where
  "sum_usage us = foldr add_usage us no_usage"

definition usage_totals :: "int \<Rightarrow> utext option \<Rightarrow> store \<Rightarrow> totals" where
  "usage_totals g sid st =
     (let rows = filter (\<lambda>r. (case row_by ss_id (lr_session r) (sessions st) of None \<Rightarrow> False | Some s \<Rightarrow> ss_group s = g)
                           \<and> (case sid of None \<Rightarrow> True | Some x \<Rightarrow> x = [] \<or> lr_session r = x)) (ledger st);
          n = (\<lambda>s. length (filter (\<lambda>r. lr_status r = s) rows))
      in \<lparr>t_requests = length rows, t_completed = n RqCompleted, t_failed = n RqFailed, t_open = n RqStarted,
          t_usage = sum_usage (map lr_usage rows), t_cost = sum_list (map lr_cost rows)\<rparr>)"

text \<open>The writes of the backend, in any order. A write that raises leaves the store as it was.\<close>

datatype store_op =
    Create session_spec
  | Append utext event_body "raw_link list"
  | SetStatus utext status
  | Snapshot utext "msg list"
  | AddTokens utext usage

fun apply_op :: "(utext \<Rightarrow> utext) \<Rightarrow> int \<times> store_op \<Rightarrow> store \<Rightarrow> store" where
  "apply_op low (now, Create p) st = case_sum (\<lambda>_. st) id (create_session now p st)"
| "apply_op low (now, Append sid b ls) st = case_sum (\<lambda>_. st) id (append_event low now sid b ls st)"
| "apply_op low (now, SetStatus sid s) st = update_session_status now sid s st"
| "apply_op low (now, Snapshot sid ms) st = save_snapshot now sid ms st"
| "apply_op low (now, AddTokens sid u) st = add_tokens now sid u st"

definition run_ops :: "(utext \<Rightarrow> utext) \<Rightarrow> (int \<times> store_op) list \<Rightarrow> store \<Rightarrow> store" where
  "run_ops low ops st = fold (apply_op low) ops st"

section \<open>Every request is charged once\<close>

lemma add_usage_unit [simp]: "add_usage no_usage u = u" "add_usage u no_usage = u"
  by (simp_all add: add_usage_def no_usage_def)

lemma add_usage_left: "add_usage a (add_usage b c) = add_usage b (add_usage a c)"
  by (simp add: add_usage_def)

lemma add_usage_assoc: "add_usage (add_usage a b) c = add_usage a (add_usage b c)"
  by (simp add: add_usage_def)

lemma add_usage_commute: "add_usage a b = add_usage b a"
  by (simp add: add_usage_def)

text \<open>A sum over a table, when one keyed row of it changes.\<close>

lemma foldr_update_one:
  assumes comm: "\<And>a b c. f a (f b c) = f b (f a c)"
    and keyed: "keyed key t" and r: "r \<in> set t" "P r"
    and one: "\<And>x. x \<in> set t \<Longrightarrow> P x \<Longrightarrow> key x = key r"
    and step: "\<And>z. f (g (h r)) z = f v (f (g r) z)"
  shows "foldr (\<lambda>x. f (g x)) (update_where P h t) z = f v (foldr (\<lambda>x. f (g x)) t z)"
  using keyed r(1) one
proof (induction t)
  case (Cons x t)
  show ?case
  proof (cases "P x")
    case True
    have "\<not> P y" if "y \<in> set t" for y
    proof
      assume "P y"
      then have "key y = key x" using Cons.prems(3) True that by (metis list.set_intros)
      then show False using Cons.prems(1) that by (simp add: keyed_def) (metis imageI)
    qed
    then have "update_where P h t = t" by (simp add: update_where_none)
    moreover have "x = r" using True Cons.prems r(2) \<open>\<And>y. y \<in> set t \<Longrightarrow> \<not> P y\<close> by auto
    ultimately show ?thesis using r(2) step by (simp add: update_where_def)
  next
    case False
    then have "r \<in> set t" "keyed key t" using Cons.prems r(2) by (auto simp: keyed_def)
    then have "foldr (\<lambda>x. f (g x)) (update_where P h t) z = f v (foldr (\<lambda>x. f (g x)) t z)"
      using Cons.IH Cons.prems(3) by simp
    then show ?thesis using False comm by (simp add: update_where_def)
  qed
qed simp

definition session_charge :: "utext \<Rightarrow> ledger_row \<Rightarrow> usage" where
  "session_charge sid r = (if lr_session r = sid \<and> lr_status r = RqCompleted then lr_usage r else no_usage)"

definition ticket_charge :: "utext \<Rightarrow> ledger_row \<Rightarrow> rat" where
  "ticket_charge t r = (if q_ticket (lr_request r) = t \<and> lr_status r = RqCompleted then lr_cost r else 0)"

definition session_total :: "utext \<Rightarrow> ledger_row list \<Rightarrow> usage" where
  "session_total sid L = foldr (\<lambda>r. add_usage (session_charge sid r)) L no_usage"

definition ticket_total :: "utext \<Rightarrow> ledger_row list \<Rightarrow> rat" where
  "ticket_total t L = foldr (\<lambda>r. (+) (ticket_charge t r)) L 0"

lemma session_total_sum:
  "session_total sid L = sum_usage (map lr_usage (filter (\<lambda>r. lr_session r = sid \<and> lr_status r = RqCompleted) L))"
  by (induction L) (simp_all add: session_total_def sum_usage_def session_charge_def)

lemma ticket_total_sum:
  "ticket_total t L = sum_list (map lr_cost (filter (\<lambda>r. q_ticket (lr_request r) = t \<and> lr_status r = RqCompleted) L))"
  by (induction L) (simp_all add: ticket_total_def ticket_charge_def)

lemma totals_append [simp]:
  "lr_status r \<noteq> RqCompleted \<Longrightarrow> session_total sid (L @ [r]) = session_total sid L"
  "lr_status r \<noteq> RqCompleted \<Longrightarrow> ticket_total t (L @ [r]) = ticket_total t L"
  by (simp_all add: session_total_def session_charge_def ticket_total_def ticket_charge_def)

text \<open>The sessions, the ledger and the tickets agree; \<open>T\<close> is what the tickets had cost at the start.\<close>

definition books_ok :: "(utext \<Rightarrow> rat option) \<Rightarrow> store \<Rightarrow> bool" where
  "books_ok T st \<longleftrightarrow>
     keyed ss_id (sessions st) \<and> keyed (q_id \<circ> lr_request) (ledger st) \<and>
     lr_session ` set (ledger st) \<subseteq> ss_id ` set (sessions st) \<and>
     (\<forall>s \<in> set (sessions st). ss_usage s = session_total (ss_id s) (ledger st)) \<and>
     (\<forall>t. t \<noteq> [] \<longrightarrow> tickets st t = map_option (\<lambda>c. c + ticket_total t (ledger st)) (T t))"

lemma books_empty: "books_ok T (empty_store T)"
  by (simp add: books_ok_def empty_store_def ticket_total_def map_option.id [unfolded id_def])

lemma books_update_sessions:
  assumes "books_ok T st" "\<And>s. ss_id (f s) = ss_id s" "\<And>s. ss_usage (f s) = ss_usage s"
  shows "books_ok T (st\<lparr>sessions := update_where P f (sessions st)\<rparr>)"
  using assms(1) keys_update_where [of ss_id f P "sessions st", OF assms(2)]
  by (auto simp: books_ok_def keyed_update_where assms(2,3) dest!: update_where_mem)

lemma books_events: "books_ok T (st\<lparr>events := es, next_event := n\<rparr>) = books_ok T st"
  by (simp add: books_ok_def)

lemma books_log: "books_ok T (log_event sid b ls st) = books_ok T st"
  by (simp add: log_event_def books_ok_def)

lemma books_touch: "books_ok T st \<Longrightarrow> books_ok T (touch now sid st)"
  unfolding touch_def by (rule books_update_sessions) auto

lemma books_snapshot: "books_ok T st \<Longrightarrow> books_ok T (save_snapshot now sid ms st)"
  unfolding save_snapshot_def by (rule books_update_sessions) auto

lemma books_status:
  assumes "books_ok T st" shows "books_ok T (update_session_status now sid new st)"
proof -
  have "books_ok T (st\<lparr>sessions := update_where (\<lambda>s. ss_id s = sid) (\<lambda>s. s\<lparr>ss_status := new, ss_updated := now\<rparr>) (sessions st)\<rparr>)"
    using assms by (rule books_update_sessions) auto
  then show ?thesis by (auto simp: update_session_status_def Let_def books_log split: option.splits)
qed

lemma session_total_none: "(\<And>r. r \<in> set L \<Longrightarrow> lr_session r \<noteq> sid) \<Longrightarrow> session_total sid L = no_usage"
  by (induction L) (simp_all add: session_total_def session_charge_def)

lemma books_create:
  assumes "books_ok T st" "create_session now p st = Inr st'" shows "books_ok T st'"
proof -
  have new: "row_by ss_id (sp_id p) (sessions st) = None"
    using assms(2) by (simp add: create_session_def split: option.splits)
  have "session_total (sp_id p) (ledger st) = no_usage"
    using new assms(1) by (intro session_total_none) (simp add: books_ok_def row_by_None_iff, metis imageI subsetD)
  moreover have "st' = st\<lparr>sessions := sessions st @ [s]\<rparr> \<Longrightarrow> ss_id s = sp_id p \<Longrightarrow> ss_usage s = no_usage \<Longrightarrow> ?thesis" for s
    using assms(1) new calculation by (auto simp: books_ok_def intro: keyed_insert)
  ultimately show ?thesis using assms(2) new by (auto simp: create_session_def)
qed

lemma books_started:
  assumes "books_ok T st" "project_started ev sid q0 ord retry op streaming st = Inr st'"
    "sid \<in> ss_id ` set (sessions st)"
  shows "books_ok T st'"
proof -
  obtain n where st': "st' = st\<lparr>ledger := ledger st @ [started_row ev sid (stripped q0) n retry op streaming]\<rparr>"
    and new: "row_by (q_id \<circ> lr_request) (q_id (stripped q0)) (ledger st) = None"
    using assms(2) by (auto simp: project_started_def Let_def split: if_splits)
  have "keyed (q_id \<circ> lr_request) (ledger st @ [started_row ev sid (stripped q0) n retry op streaming])"
    using assms(1) new by (intro keyed_insert) (simp_all add: books_ok_def started_row_def)
  then show ?thesis using assms(1,3) by (auto simp: books_ok_def st' started_row_def)
qed

lemma find_SomeD: "find P t = Some r \<Longrightarrow> r \<in> set t \<and> P r"
  by (induction t) (auto split: if_splits)

lemma row_of_keys: "row_of sid q x \<Longrightarrow> row_of sid q r \<Longrightarrow> (q_id \<circ> lr_request) x = (q_id \<circ> lr_request) r"
  by (simp add: row_of_def)

lemma totals_close:
  assumes k: "keyed (q_id \<circ> lr_request) L" and r: "find (row_of sid q) L = Some r" "lr_status r = RqStarted"
  shows "session_total x (update_where (row_of sid q) (close_row ev s d t u c dur) L)
       = add_usage (if s = RqCompleted \<and> x = sid then u else no_usage) (session_total x L)"
    and "ticket_total y (update_where (row_of sid q) (close_row ev s d t u c dur) L)
       = (if s = RqCompleted \<and> y = t then c else 0) + ticket_total y L"
proof -
  have m: "r \<in> set L" "row_of sid q r" using r(1) by (auto dest: find_SomeD)
  note one = foldr_update_one [where key = "q_id \<circ> lr_request" and t = L and r = r and P = "row_of sid q"
    and h = "close_row ev s d t u c dur"]
  show "session_total x (update_where (row_of sid q) (close_row ev s d t u c dur) L)
       = add_usage (if s = RqCompleted \<and> x = sid then u else no_usage) (session_total x L)"
    unfolding session_total_def
    by (rule one [where f = add_usage and g = "session_charge x"])
      (use k m r(2) in \<open>auto simp: add_usage_left session_charge_def close_row_def row_of_def\<close>)
  show "ticket_total y (update_where (row_of sid q) (close_row ev s d t u c dur) L)
       = (if s = RqCompleted \<and> y = t then c else 0) + ticket_total y L"
    unfolding ticket_total_def
    by (rule one [where f = "(+)" and g = "ticket_charge y"])
      (use k m r(2) in \<open>auto simp: ticket_charge_def close_row_def row_of_def\<close>)
qed

lemma close_row_keys: "(q_id \<circ> lr_request) (close_row ev s d t u c dur r) = (q_id \<circ> lr_request) r"
  "lr_session (close_row ev s d t u c dur r) = lr_session r"
  by (simp_all add: close_row_def)

lemma books_close_failed:
  assumes st: "books_ok T st" and r: "find (row_of sid q) (ledger st) = Some r" "lr_status r = RqStarted"
  shows "books_ok T (st\<lparr>ledger := update_where (row_of sid q) (close_row ev RqFailed d t u c dur) (ledger st)\<rparr>)"
proof -
  let ?L = "update_where (row_of sid q) (close_row ev RqFailed d t u c dur) (ledger st)"
  note keyed = st [unfolded books_ok_def]
  note tot = totals_close [OF keyed [THEN conjunct2, THEN conjunct1] r, where ev = ev and s = RqFailed and d = d and t = t and u = u and c = c and dur = dur]
  have "keyed (q_id \<circ> lr_request) ?L" using keyed by (intro keyed_update_where) (simp_all add: close_row_def)
  moreover have "lr_session ` set ?L = lr_session ` set (ledger st)" by (rule keys_update_where) (simp add: close_row_def)
  ultimately show ?thesis using keyed tot by (simp add: books_ok_def)
qed

lemma books_close_completed:
  assumes st: "books_ok T st" and r: "find (row_of sid q) (ledger st) = Some r" "lr_status r = RqStarted"
  shows "books_ok T (charge_ticket t c (charge_session now sid u
           (st\<lparr>ledger := update_where (row_of sid q) (close_row ev RqCompleted d t u c dur) (ledger st)\<rparr>)))"
proof -
  let ?L = "update_where (row_of sid q) (close_row ev RqCompleted d t u c dur) (ledger st)"
  let ?f = "\<lambda>s. s\<lparr>ss_usage := add_usage (ss_usage s) u, ss_updated := now\<rparr>"
  let ?S = "update_where (\<lambda>s. ss_id s = sid) ?f (sessions st)"
  note keyed = st [unfolded books_ok_def]
  note tot = totals_close [OF keyed [THEN conjunct2, THEN conjunct1] r, where ev = ev and s = RqCompleted and d = d and t = t and u = u and c = c and dur = dur]
  have kl: "keyed (q_id \<circ> lr_request) ?L" using keyed by (intro keyed_update_where) (simp_all add: close_row_def)
  have ls: "lr_session ` set ?L = lr_session ` set (ledger st)" by (rule keys_update_where) (simp add: close_row_def)
  have ids: "ss_id ` set ?S = ss_id ` set (sessions st)" by (rule keys_update_where) simp
  have ks: "keyed ss_id ?S" using keyed by (intro keyed_update_where) simp_all
  have us: "ss_usage x = session_total (ss_id x) ?L" if x: "x \<in> set ?S" for x
  proof -
    obtain y where "y \<in> set (sessions st)" "x = (if ss_id y = sid then ?f y else y)" using update_where_mem [OF x] by blast
    then show ?thesis using keyed by (simp add: tot add_usage_commute)
  qed
  have tk: "tickets (charge_ticket t c (charge_session now sid u (st\<lparr>ledger := ?L\<rparr>))) y = map_option (\<lambda>b. b + ticket_total y ?L) (T y)"
    if "y \<noteq> []" for y
    using keyed that by (auto simp: tot charge_ticket_def charge_session_def option.map_comp comp_def add_ac)
  have eqs: "sessions (charge_ticket t c (charge_session now sid u (st\<lparr>ledger := ?L\<rparr>))) = ?S"
    "ledger (charge_ticket t c (charge_session now sid u (st\<lparr>ledger := ?L\<rparr>))) = ?L"
    by (simp_all add: charge_ticket_def charge_session_def)
  show ?thesis using keyed kl ls ids ks us tk by (simp add: books_ok_def eqs)
qed

lemma books_projected:
  assumes st: "books_ok T st" and p: "project_model_usage low now ev sid b st = Inr st'"
    and sid: "sid \<in> ss_id ` set (sessions st)"
  shows "books_ok T st'"
proof -
  have terminal: "books_ok T st'" if t: "project_terminal low now ev sid ok q0 u dur detail st = Inr st'" for ok q0 u dur detail
  proof -
    let ?q = "stripped q0"
    obtain r where r: "find (row_of sid ?q) (ledger st) = Some r" "lr_status r = RqStarted"
      using t by (auto simp: project_terminal_def Let_def split: if_splits option.splits)
    obtain tk c where "st' = (if ok then charge_ticket tk c (charge_session now sid u
          (st\<lparr>ledger := update_where (row_of sid ?q) (close_row ev RqCompleted detail tk u c dur) (ledger st)\<rparr>))
        else st\<lparr>ledger := update_where (row_of sid ?q) (close_row ev RqFailed detail tk u c dur) (ledger st)\<rparr>)"
      using t r by (auto simp: project_terminal_def Let_def split: if_splits option.splits)
    then show ?thesis using books_close_failed [OF st r] books_close_completed [OF st r] by simp
  qed
  show ?thesis
    using p st by (auto simp: project_model_usage_def split: event_body.splits intro: terminal books_started [OF st _ sid])
qed

lemma sessions_log [simp]: "sessions (log_event sid b ls st) = sessions st"
  "ledger (log_event sid b ls st) = ledger st" "tickets (log_event sid b ls st) = tickets st"
  by (simp_all add: log_event_def)

lemma books_append:
  assumes "books_ok T st" "append_event low now sid b raw st = Inr st'" shows "books_ok T st'"
proof -
  obtain ls st1 where p: "project_model_usage low now (next_event st) sid b (log_event sid b ls st) = Inr st1"
    and st': "st' = touch now sid st1" and s: "row_by ss_id sid (sessions st) \<noteq> None"
    using assms(2) by (cases "project_model_usage low now (next_event st) sid b (log_event sid b (projr (normalize_links [] raw)) st)")
      (auto simp: append_event_def split: sum.splits option.splits)
  have "sid \<in> ss_id ` set (sessions (log_event sid b ls st))" using s by (simp add: row_by_None_iff)
  then have "books_ok T st1" using books_projected [OF _ p] assms(1) by (simp add: books_log)
  then show ?thesis by (simp add: st' books_touch)
qed

definition direct :: "store_op \<Rightarrow> bool" where
  "direct p = (case p of AddTokens _ _ \<Rightarrow> True | _ \<Rightarrow> False)"

lemma books_apply: "books_ok T st \<Longrightarrow> \<not> direct (snd p) \<Longrightarrow> books_ok T (apply_op low p st)"
  by (cases p; cases "snd p")
    (auto simp: direct_def books_status books_snapshot split: sum.splits intro: books_create books_append)

lemma books_run: "list_all (\<lambda>p. \<not> direct (snd p)) ops \<Longrightarrow> books_ok T st \<Longrightarrow> books_ok T (run_ops low ops st)"
  unfolding run_ops_def by (induction ops arbitrary: st) (auto intro: books_apply)


section \<open>The log of a session\<close>

definition changes :: "utext \<Rightarrow> event list \<Rightarrow> (status \<times> status) list" where
  "changes sid es =
     concat (map (\<lambda>e. if e_session e = sid then (case e_body e of SessionStatus a b \<Rightarrow> [(a, b)] | _ \<Rightarrow> []) else []) es)"

fun status_path :: "status \<Rightarrow> (status \<times> status) list \<Rightarrow> status option" where
  "status_path a [] = Some a"
| "status_path a ((x, y) # r) = (if x = a \<and> y \<noteq> a then status_path y r else None)"

lemma status_path_append:
  "status_path a (xs @ ys) = (case status_path a xs of None \<Rightarrow> None | Some b \<Rightarrow> status_path b ys)"
  by (induction xs arbitrary: a) auto

lemma changes_append [simp]: "changes sid (xs @ ys) = changes sid xs @ changes sid ys"
  by (simp add: changes_def)

text \<open>What the log says depends on the ids and the statuses of the sessions only.\<close>

definition statuses :: "store \<Rightarrow> (utext \<times> status) list" where
  "statuses st = map (\<lambda>s. (ss_id s, ss_status s)) (sessions st)"

definition view_ok :: "(utext \<times> status) list \<Rightarrow> event list \<Rightarrow> nat \<Rightarrow> bool" where
  "view_ok V es n \<longleftrightarrow>
     distinct (map fst V) \<and> e_session ` set es \<subseteq> fst ` set V \<and>
     sorted (map e_id es) \<and> distinct (map e_id es) \<and> (\<forall>e \<in> set es. e_id e < n) \<and>
     (\<forall>p \<in> set V. status_path Running (changes (fst p) es) = Some (snd p))"

definition log_ok :: "store \<Rightarrow> bool" where
  "log_ok st \<longleftrightarrow> view_ok (statuses st) (events st) (next_event st)"

lemma log_cong:
  "statuses st' = statuses st \<Longrightarrow> events st' = events st \<Longrightarrow> next_event st' = next_event st \<Longrightarrow> log_ok st \<Longrightarrow> log_ok st'"
  by (simp add: log_ok_def)

lemma log_empty: "log_ok (empty_store T)"
  by (simp add: log_ok_def view_ok_def statuses_def empty_store_def)

lemma statuses_same:
  "(\<And>s. ss_id (f s) = ss_id s) \<Longrightarrow> (\<And>s. ss_status (f s) = ss_status s) \<Longrightarrow>
   map (\<lambda>s. (ss_id s, ss_status s)) (update_where P f t) = map (\<lambda>s. (ss_id s, ss_status s)) t"
  by (simp add: update_where_def)

lemma statuses_ids: "fst ` set (statuses st) = ss_id ` set (sessions st)"
  by (auto simp: statuses_def image_iff)

lemma view_append:
  assumes "view_ok V es n" "e_session e \<in> fst ` set V" "e_id e = n" "\<And>a c. e_body e \<noteq> SessionStatus a c"
  shows "view_ok V (es @ [e]) (n + 1)"
proof -
  have "changes x [e] = []" for x using assms(4) by (simp add: changes_def split: event_body.splits)
  then show ?thesis using assms(1-3) by (auto simp: view_ok_def sorted_append less_imp_le)
qed

lemma view_status:
  assumes "view_ok V es n" "(sid, old) \<in> set V" "old \<noteq> new" "e_session e = sid" "e_id e = n" "e_body e = SessionStatus old new"
  shows "view_ok (map (\<lambda>p. (fst p, if fst p = sid then new else snd p)) V) (es @ [e]) (n + 1)"
proof -
  have c: "changes x [e] = (if x = sid then [(old, new)] else [])" for x using assms(4,6) by (simp add: changes_def)
  have same: "snd p = old" if "p \<in> set V" "fst p = sid" for p
    using assms(1,2) that eq_key_imp_eq_value [of V sid "snd p" old] by (cases p) (auto simp: view_ok_def)
  have k: "map fst (map (\<lambda>p. (fst p, if fst p = sid then new else snd p)) V) = map fst V" by simp
  have path: "status_path Running (changes (fst p) (es @ [e])) = Some (if fst p = sid then new else snd p)" if "p \<in> set V" for p
  proof -
    have "status_path Running (changes (fst p) es) = Some (snd p)" using assms(1) that by (simp add: view_ok_def)
    then show ?thesis using assms(3) same [OF that] by (simp add: c status_path_append)
  qed
  have fs: "fst ` set (map (\<lambda>p. (fst p, if fst p = sid then new else snd p)) V) = fst ` set V" by (auto simp: image_image)
  have ev: "e_session ` set (es @ [e]) \<subseteq> fst ` set V" using assms(1,2,4) by (auto simp: view_ok_def image_iff intro: bexI [of _ "(sid, old)"])
  show ?thesis
    unfolding view_ok_def k fs
  proof (intro conjI)
    have es: "sorted (map e_id es)" "distinct (map e_id es)" "\<forall>e \<in> set es. e_id e < n" using assms(1) by (simp_all add: view_ok_def)
    show "sorted (map e_id (es @ [e]))" using es assms(5) by (auto simp: sorted_append less_imp_le)
    show "distinct (map e_id (es @ [e]))" using es(2,3) assms(5) by auto
    show "\<forall>e \<in> set (es @ [e]). e_id e < n + 1" using es(3) assms(5) by auto
    show "distinct (map fst V)" using assms(1) by (simp add: view_ok_def)
    show "e_session ` set (es @ [e]) \<subseteq> fst ` set V" by (rule ev)
    show "\<forall>p \<in> set (map (\<lambda>p. (fst p, if fst p = sid then new else snd p)) V).
        status_path Running (changes (fst p) (es @ [e])) = Some (snd p)"
      using path by (simp del: set_append changes_append)
  qed
qed

lemma statuses_log [simp]: "statuses (log_event sid b ls st) = statuses st"
  by (simp add: statuses_def)

lemma log_append:
  assumes "log_ok st" "sid \<in> ss_id ` set (sessions st)" "\<And>a c. b \<noteq> SessionStatus a c"
  shows "log_ok (log_event sid b ls st)"
  using view_append [OF assms(1) [unfolded log_ok_def], of "\<lparr>e_id = next_event st, e_session = sid, e_body = b, e_links = ls\<rparr>"] assms(2,3)
  by (simp add: log_ok_def statuses_ids) (simp add: log_event_def)

lemma log_status: assumes "log_ok st" shows "log_ok (update_session_status now sid new st)"
proof -
  let ?st1 = "st\<lparr>sessions := update_where (\<lambda>s. ss_id s = sid) (\<lambda>s. s\<lparr>ss_status := new, ss_updated := now\<rparr>) (sessions st)\<rparr>"
  have V: "statuses ?st1 = map (\<lambda>p. (fst p, if fst p = sid then new else snd p)) (statuses st)"
    by (simp add: statuses_def update_where_def)
  have id: "statuses ?st1 = statuses st" if "\<And>s. s \<in> set (sessions st) \<Longrightarrow> ss_id s = sid \<Longrightarrow> ss_status s = new"
    unfolding V by (rule map_idI) (use that in \<open>auto simp: statuses_def\<close>)
  show ?thesis
  proof (cases "row_by ss_id sid (sessions st)")
    case None
    then have "statuses ?st1 = statuses st" by (intro id) (auto simp: row_by_None_iff)
    then show ?thesis using assms None by (simp add: update_session_status_def log_cong)
  next
    case (Some s)
    have s: "s \<in> set (sessions st)" "ss_id s = sid" using row_by_SomeD [OF Some] by auto
    have k: "keyed ss_id (sessions st)" using assms by (simp add: log_ok_def view_ok_def statuses_def keyed_def comp_def)
    show ?thesis
    proof (cases "ss_status s = new")
      case True
      then have "statuses ?st1 = statuses st"
        using row_by_in_keyed [OF k] Some by (intro id) (metis option.inject)
      then show ?thesis using assms Some True by (simp add: update_session_status_def log_cong)
    next
      case False
      have "(sid, ss_status s) \<in> set (statuses st)" using s by (auto simp: statuses_def)
      from view_status [OF assms [unfolded log_ok_def] this False, of "\<lparr>e_id = next_event st, e_session = sid, e_body = SessionStatus (ss_status s) new, e_links = []\<rparr>"]
      have "view_ok (statuses ?st1) (events st @ [\<lparr>e_id = next_event st, e_session = sid, e_body = SessionStatus (ss_status s) new, e_links = []\<rparr>]) (next_event st + 1)"
        by (simp add: V)
      then show ?thesis using Some False
        by (simp add: update_session_status_def Let_def log_ok_def) (simp add: log_event_def)
    qed
  qed
qed

lemma changes_none: "x \<notin> e_session ` set es \<Longrightarrow> changes x es = []"
  by (induction es) (auto simp: changes_def)

lemma view_create:
  assumes "view_ok V es n" "x \<notin> fst ` set V" shows "view_ok (V @ [(x, Running)]) es n"
proof -
  have "changes x es = []" using assms by (intro changes_none) (auto simp: view_ok_def)
  then show ?thesis using assms by (auto simp: view_ok_def)
qed

lemma log_create: assumes "log_ok st" "create_session now p st = Inr st'" shows "log_ok st'"
proof -
  have new: "row_by ss_id (sp_id p) (sessions st) = None"
    using assms(2) by (simp add: create_session_def split: option.splits)
  then have "sp_id p \<notin> fst ` set (statuses st)" by (simp add: statuses_ids row_by_None_iff)
  from view_create [OF assms(1) [unfolded log_ok_def] this]
  show ?thesis using assms(2) new by (auto simp: create_session_def log_ok_def statuses_def)
qed

lemma projected_view:
  "project_model_usage low now ev sid b st = Inr st' \<Longrightarrow>
   statuses st' = statuses st \<and> events st' = events st \<and> next_event st' = next_event st"
proof -
  have close: "statuses (charge_ticket t c (charge_session now sid u (st\<lparr>ledger := L\<rparr>))) = statuses st \<and>
      events (charge_ticket t c (charge_session now sid u (st\<lparr>ledger := L\<rparr>))) = events st \<and>
      next_event (charge_ticket t c (charge_session now sid u (st\<lparr>ledger := L\<rparr>))) = next_event st" for t c u L
    by (simp add: charge_ticket_def charge_session_def statuses_def statuses_same)
  have open_: "statuses (st\<lparr>ledger := L\<rparr>) = statuses st" for L by (simp add: statuses_def)
  have terminal: "statuses st' = statuses st \<and> events st' = events st \<and> next_event st' = next_event st"
    if "project_terminal low now ev sid ok q0 u dur detail st = Inr st'" for ok q0 u dur detail
    using that by (cases ok) (auto simp: project_terminal_def Let_def close open_ split: if_splits option.splits)
  show "project_model_usage low now ev sid b st = Inr st' \<Longrightarrow> ?thesis"
    by (cases b) (auto simp: project_model_usage_def project_started_def Let_def open_ split: if_splits dest: terminal)
qed

definition status_event :: "store_op \<Rightarrow> bool" where
  "status_event p = (case p of Append _ (SessionStatus _ _) _ \<Rightarrow> True | _ \<Rightarrow> False)"

lemma log_appended:
  assumes "log_ok st" "append_event low now sid b raw st = Inr st'" "\<And>a c. b \<noteq> SessionStatus a c" shows "log_ok st'"
proof -
  obtain ls st1 where p: "project_model_usage low now (next_event st) sid b (log_event sid b ls st) = Inr st1"
    and st': "st' = touch now sid st1" and s: "row_by ss_id sid (sessions st) \<noteq> None"
    using assms(2) by (cases "project_model_usage low now (next_event st) sid b (log_event sid b (projr (normalize_links [] raw)) st)")
      (auto simp: append_event_def split: sum.splits option.splits)
  have "log_ok (log_event sid b ls st)" using s assms(1,3) by (intro log_append) (simp_all add: row_by_None_iff)
  then have "log_ok st1" using projected_view [OF p] by (intro log_cong [of st1]) simp_all
  then show ?thesis by (rule log_cong [rotated 3]) (simp_all add: st' touch_def statuses_def statuses_same)
qed

lemma log_apply:
  assumes "log_ok st" "\<not> status_event (snd p)" shows "log_ok (apply_op low p st)"
proof -
  have upd: "log_ok (save_snapshot now sid ms st)" "log_ok (add_tokens now sid u st)" for now sid ms u
    by (rule log_cong [OF _ _ _ assms(1)], simp_all add: save_snapshot_def add_tokens_def charge_session_def statuses_def statuses_same)+
  show ?thesis
    using assms by (cases p; cases "snd p")
      (auto simp: status_event_def upd log_status split: sum.splits event_body.splits intro: log_create log_appended)
qed

lemma log_run: "list_all (\<lambda>p. \<not> status_event (snd p)) ops \<Longrightarrow> log_ok st \<Longrightarrow> log_ok (run_ops low ops st)"
  unfolding run_ops_def by (induction ops arbitrary: st) (auto intro: log_apply)

text \<open>
  The status changes in the log of a session are a path from \<open>running\<close> to its present status:
  no change is missing, none is logged twice, and none goes from a status to itself.
\<close>

theorem session_status_is_logged:
  assumes "list_all (\<lambda>p. \<not> status_event (snd p)) ops" "st = run_ops low ops (empty_store T)" "get_session sid st = Some s"
  shows "status_path Running (changes sid (get_events sid st)) = Some (ss_status s)"
proof -
  have l: "log_ok st" using log_run [OF assms(1) log_empty] by (simp add: assms(2))
  have s: "s \<in> set (sessions st)" "ss_id s = sid" using assms(3) by (auto simp: get_session_def dest: row_by_SomeD)
  have "sorted (map e_id (filter (\<lambda>e. e_session e = sid) (events st)))"
    using l by (simp add: log_ok_def view_ok_def sorted_filter)
  then have "get_events sid st = filter (\<lambda>e. e_session e = sid) (events st)"
    using assms(3) by (simp add: get_events_def get_session_def sort_key_id_if_sorted)
  moreover have "changes sid (filter (\<lambda>e. e_session e = sid) es) = changes sid es" for es
    by (induction es) (simp_all add: changes_def)
  ultimately show ?thesis using l s by (force simp: log_ok_def view_ok_def statuses_def)
qed

section \<open>What a request costs\<close>

definition fair_rates :: "rates \<Rightarrow> bool" where
  "fair_rates r \<longleftrightarrow> 0 \<le> r_input r \<and> 0 \<le> r_output r \<and> 0 \<le> r_cache_read r \<and> 0 \<le> r_cache_write r \<and> r_cache_read r \<le> r_input r"

lemma prices_fair: "\<forall>p \<in> set PRICING. \<forall>m \<in> set (snd p). fair_rates (snd m)"
  by (simp add: PRICING_def deepseek_prices_def openai_prices_def claude_prices_def fair_rates_def rate_def)

lemma map_of_ascii_keys: "map_of (ascii_keys t) k = Some v \<Longrightarrow> v \<in> snd ` set t"
  by (force simp: ascii_keys_def dest: map_of_SomeD)

lemma resolve_rates_fair: assumes "resolve_rates low p m = Some r" shows "fair_rates r"
proof -
  obtain t k where t: "map_of (ascii_keys PRICING) (low p) = Some t" and k: "map_of (ascii_keys t) k = Some r"
    using assms by (auto simp: resolve_rates_def Let_def split: option.splits)
  show ?thesis using map_of_ascii_keys [OF t] map_of_ascii_keys [OF k] prices_fair by force
qed

text \<open>
  The cost of a request with valid counters is never negative, and for the providers that count
  cached tokens as input, serving tokens from the cache never makes the same request dearer.
\<close>

theorem cache_never_costs_more:
  assumes "usage_ok u = None"
  shows "0 \<le> calculate_cost low p m u \<and>
    (cache_folded (low p) \<and> u_cache_read u \<le> u_input u \<longrightarrow>
       calculate_cost low p m u \<le> calculate_cost low p m (u\<lparr>u_cache_read := 0\<rparr>))"
proof (cases "resolve_rates low p m")
  case None
  then show ?thesis by (simp add: calculate_cost_def)
next
  case (Some r)
  have r: "0 \<le> r_input r" "0 \<le> r_output r" "0 \<le> r_cache_read r" "0 \<le> r_cache_write r" "r_cache_read r \<le> r_input r"
    using resolve_rates_fair [OF Some] by (auto simp: fair_rates_def)
  have u: "0 \<le> u_input u" "0 \<le> u_output u" "0 \<le> u_cache_read u" "0 \<le> u_cache_creation u"
    using assms by (auto simp: usage_ok_def split: if_splits)
  have nn: "0 \<le> per_million x * y" if "0 \<le> x" "0 \<le> y" for x y
    using that by (simp add: per_million_def)
  show ?thesis
  proof (intro conjI impI)
    show "0 \<le> calculate_cost low p m u"
      using u r by (simp add: calculate_cost_def Some nn)
    assume c: "cache_folded (low p) \<and> u_cache_read u \<le> u_input u"
    have "per_million (u_cache_read u) * r_cache_read r \<le> per_million (u_cache_read u) * r_input r"
      using u r(5) by (intro mult_left_mono) (simp_all add: per_million_def)
    moreover have "per_million (u_input u - u_cache_read u) * r_input r
        = per_million (u_input u) * r_input r - per_million (u_cache_read u) * r_input r"
      by (simp add: per_million_def diff_divide_distrib left_diff_distrib)
    moreover have "per_million 0 = 0" by (simp add: per_million_def)
    ultimately show "calculate_cost low p m u \<le> calculate_cost low p m (u\<lparr>u_cache_read := 0\<rparr>)"
      using c u by (simp add: calculate_cost_def Some max_def)
  qed
qed

section \<open>Links and ordinals\<close>

lemma ref_ok_strip: "ref_ok ref \<Longrightarrow> u_strip ref = ref"
proof -
  assume r: "ref_ok ref"
  have "dropWhile u_space xs = xs" if "\<not> list_ex u_space xs" for xs
    using that by (cases xs) auto
  moreover have "\<not> list_ex u_space (rev ref)" using r by (simp add: ref_ok_def list_ex_iff)
  ultimately show ?thesis using r by (simp add: u_strip_def ref_ok_def)
qed

lemma strip_tags [simp]: "u_strip (kind_text k) = kind_text k" "u_strip (relation_text r) = relation_text r"
  by (cases k; simp add: kind_text_def u_strip_def u_space_def ascii_def)
    (cases r; simp add: relation_text_def u_strip_def u_space_def ascii_def)

lemma kind_text_nonempty [simp]: "kind_text k \<noteq> []"
  by (cases k) (simp_all add: kind_text_def ascii_def)

lemma read_link_raw: "ref_ok (lk_ref l) \<Longrightarrow> read_link (raw_of l) = Inr l"
  by (simp add: read_link_def raw_of_def Let_def ref_ok_strip)

lemma read_link_ok: "read_link x = Inr l \<Longrightarrow> ref_ok (lk_ref l)"
  by (auto simp: read_link_def Let_def split: if_splits option.splits)

lemma normalize_links_ok:
  "normalize_links acc raw = Inr ls \<Longrightarrow> distinct acc \<Longrightarrow> \<forall>l \<in> set acc. ref_ok (lk_ref l) \<Longrightarrow>
   distinct ls \<and> (\<forall>l \<in> set ls. ref_ok (lk_ref l))"
proof (induction raw arbitrary: acc)
  case (Cons x raw)
  show ?case
  proof (cases "read_link x")
    case (Inl e)
    then show ?thesis using Cons.prems(1) by simp
  next
    case k: (Inr k)
    have n: "normalize_links (if k \<in> set acc then acc else acc @ [k]) raw = Inr ls"
      using Cons.prems(1) k by (simp only: normalize_links.simps sum.case)
    show ?thesis by (rule Cons.IH [OF n]) (use Cons.prems(2,3) read_link_ok [OF k] in auto)
  qed
qed simp

lemma normalize_links_raw:
  "distinct (acc @ ls) \<Longrightarrow> \<forall>l \<in> set ls. ref_ok (lk_ref l) \<Longrightarrow> normalize_links acc (map raw_of ls) = Inr (acc @ ls)"
  by (induction ls arbitrary: acc) (simp_all add: read_link_raw)

lemma normalize_links_twice: "normalize_links [] raw = Inr ls \<Longrightarrow> normalize_links [] (map raw_of ls) = Inr ls"
  using normalize_links_ok [of "[]" raw ls] normalize_links_raw [of "[]" ls] by simp

definition ordinals :: "utext \<Rightarrow> store \<Rightarrow> int list" where
  "ordinals sid st = map lr_ordinal (filter (\<lambda>r. lr_session r = sid) (ledger st))"

lemma last_ordinal_ge: "n \<in> set (ordinals sid st) \<Longrightarrow> n \<le> last_ordinal sid st"
proof -
  have "n \<in> set ns \<Longrightarrow> n \<le> foldr max ns 0" for ns :: "int list" by (induction ns) auto
  then show "n \<in> set (ordinals sid st) \<Longrightarrow> n \<le> last_ordinal sid st" by (simp add: ordinals_def last_ordinal_def)
qed

text \<open>A recovered session goes on counting where the last one stopped: \<open>UNIQUE (session, ordinal)\<close> holds.\<close>

lemma ordinals_close: "ordinals x (st\<lparr>ledger := update_where P (close_row ev s d t u c dur) (ledger st)\<rparr>) = ordinals x st"
proof -
  have "map lr_ordinal (filter (\<lambda>r. lr_session r = x) (update_where P (close_row ev s d t u c dur) L))
      = map lr_ordinal (filter (\<lambda>r. lr_session r = x) L)" for L
    by (induction L) (simp_all add: update_where_def close_row_def)
  then show ?thesis by (simp add: ordinals_def)
qed

lemma ordinals_projected:
  assumes "project_model_usage low now ev sid b st = Inr st'" "\<And>x. sorted_wrt (<) (ordinals x st)"
  shows "sorted_wrt (<) (ordinals x st')"
proof -
  have c: "ordinals x (charge_ticket t c (charge_session now sid u s)) = ordinals x s" for t c u s
    by (simp add: charge_ticket_def charge_session_def ordinals_def)
  have start: "sorted_wrt (<) (ordinals x (st\<lparr>ledger := ledger st @ [started_row ev sid q (max n (last_ordinal sid st + 1)) r op b]\<rparr>))"
    for q n r op b
  proof -
    have "ordinals x (st\<lparr>ledger := ledger st @ [started_row ev sid q (max n (last_ordinal sid st + 1)) r op b]\<rparr>)
        = ordinals x st @ (if x = sid then [max n (last_ordinal sid st + 1)] else [])"
      by (simp add: ordinals_def started_row_def)
    then show ?thesis using assms(2) [of x] by (auto simp: sorted_wrt_append dest: last_ordinal_ge)
  qed
  have terminal: "sorted_wrt (<) (ordinals x st')"
    if "project_terminal low now ev sid ok q0 u dur detail st = Inr st'" for ok q0 u dur detail
    using that assms(2) by (cases ok) (auto simp: project_terminal_def Let_def c ordinals_close split: if_splits option.splits)
  show ?thesis
    using assms by (cases b) (auto simp: project_model_usage_def project_started_def Let_def start split: if_splits dest: terminal)
qed

lemma ordinals_increase:
  "(\<And>x. sorted_wrt (<) (ordinals x st)) \<Longrightarrow> append_event low now sid b raw st = Inr st' \<Longrightarrow> sorted_wrt (<) (ordinals x st')"
proof -
  assume o: "\<And>x. sorted_wrt (<) (ordinals x st)" and a: "append_event low now sid b raw st = Inr st'"
  obtain ls st1 where p: "project_model_usage low now (next_event st) sid b (log_event sid b ls st) = Inr st1" and st': "st' = touch now sid st1"
    using a by (cases "project_model_usage low now (next_event st) sid b (log_event sid b (projr (normalize_links [] raw)) st)")
      (auto simp: append_event_def split: sum.splits option.splits)
  have "ordinals y st' = ordinals y st1" "ordinals y (log_event sid b ls st) = ordinals y st" for y
    by (simp_all add: st' touch_def ordinals_def)
  then show ?thesis using ordinals_projected [OF p] o by simp
qed

lemma totals_add_up: "t_requests (usage_totals g sid st) =
   t_completed (usage_totals g sid st) + t_failed (usage_totals g sid st) + t_open (usage_totals g sid st)"
proof -
  have "length L = length (filter (\<lambda>r. lr_status r = RqCompleted) L) + length (filter (\<lambda>r. lr_status r = RqFailed) L)
      + length (filter (\<lambda>r. lr_status r = RqStarted) L)" for L
    by (induction L) (auto intro: request_status.exhaust [of "lr_status _"])
  then show ?thesis by (simp add: usage_totals_def Let_def del: filter_filter)
qed

section \<open>A run on concrete inputs\<close>

definition demo_spec :: session_spec where
  "demo_spec = \<lparr>sp_id = ascii ''s'', sp_parent = None, sp_bot = 7, sp_group = 1, sp_executor = ascii ''tool_loop_v1'',
     sp_provider = ascii ''deepseek'', sp_model = ascii ''deepseek-chat'', sp_prompt = ascii ''p'', sp_user = ascii ''u''\<rparr>"

definition demo_request :: request where
  "demo_request = \<lparr>q_id = ascii ''r'', q_provider = ascii ''deepseek'', q_model = ascii ''deepseek-chat'', q_ticket = ascii ''t''\<rparr>"

definition demo_usage :: usage where
  "demo_usage = \<lparr>u_input = 1000000, u_output = 0, u_cache_read = 0, u_cache_creation = 0\<rparr>"

definition demo_ops :: "(int \<times> store_op) list" where
  "demo_ops =
     [(1, Create demo_spec),
      (2, Append (ascii ''s'') (RequestStarted demo_request 1 [] [] False) []),
      (3, Append (ascii ''s'') (RequestCompleted demo_request demo_usage 5 []) []),
      (4, Append (ascii ''s'') (RequestCompleted demo_request demo_usage 5 []) []),
      (5, SetStatus (ascii ''s'') Completed)]"

lemmas demo_simps = demo_ops_def demo_spec_def demo_request_def demo_usage_def run_ops_def empty_store_def
  create_session_def append_event_def project_model_usage_def project_started_def project_terminal_def
  started_row_def stripped_def request_complete_def log_event_def touch_def update_where_def last_ordinal_def
  row_of_def usage_ok_def close_row_def charge_session_def charge_ticket_def add_usage_def no_usage_def
  update_session_status_def u_strip_def u_space_def ascii_def Let_def

lemma demo_price: "calculate_cost id (ascii ''deepseek'') (ascii ''deepseek-chat'') demo_usage = 27/100"
  by (simp add: calculate_cost_def resolve_rates_def PRICING_def deepseek_prices_def ascii_keys_def ascii_def rate_def
      cache_folded_def per_million_def demo_usage_def)

lemma demo_run:
  "tickets (run_ops id demo_ops (empty_store [ascii ''t'' \<mapsto> 0])) (ascii ''t'') = Some (27/100)"
  "get_session (ascii ''s'') (run_ops id demo_ops (empty_store [ascii ''t'' \<mapsto> 0])) \<noteq> None"
  using demo_price by (simp_all add: demo_simps get_session_def)


theorem session_status_is_logged_witness:
  "\<exists>s. get_session (ascii ''s'') (run_ops id demo_ops (empty_store [ascii ''t'' \<mapsto> 0])) = Some s \<and>
     status_path Running (changes (ascii ''s'')
       (get_events (ascii ''s'') (run_ops id demo_ops (empty_store [ascii ''t'' \<mapsto> 0])))) = Some (ss_status s)"
proof -
  have "list_all (\<lambda>p. \<not> status_event (snd p)) demo_ops" by (simp add: demo_ops_def status_event_def)
  moreover obtain s where "get_session (ascii ''s'') (run_ops id demo_ops (empty_store [ascii ''t'' \<mapsto> 0])) = Some s"
    using demo_run(2) by blast
  ultimately show ?thesis using session_status_is_logged [OF _ refl] by blast
qed

theorem cache_never_costs_more_witness:
  "calculate_cost id (ascii ''deepseek'') (ascii ''deepseek-chat'') (demo_usage\<lparr>u_cache_read := 400000\<rparr>) \<le> 27/100"
proof -
  have "usage_ok (demo_usage\<lparr>u_cache_read := 400000\<rparr>) = None" by (simp add: usage_ok_def demo_usage_def)
  from cache_never_costs_more [OF this, of id "ascii ''deepseek''" "ascii ''deepseek-chat''"]
  have "calculate_cost id (ascii ''deepseek'') (ascii ''deepseek-chat'') (demo_usage\<lparr>u_cache_read := 400000\<rparr>)
      \<le> calculate_cost id (ascii ''deepseek'') (ascii ''deepseek-chat'') (demo_usage\<lparr>u_cache_read := 400000, u_cache_read := 0\<rparr>)"
    by (simp add: cache_folded_def demo_usage_def)
  also have "demo_usage\<lparr>u_cache_read := 400000, u_cache_read := 0\<rparr> = demo_usage" by (simp add: demo_usage_def)
  also note demo_price
  finally show ?thesis .
qed

end
