(* ===== verification/ToolLoop.thy ===== *)
theory ToolLoop
  imports Sessions
begin

text \<open>
  One run of a bot, \<^verbatim>\<open>executors/plugins/tool_loop_v1.py\<close> and its helpers: the loop that asks the model,
  executes the tools it calls, serially or in parallel, feeds the results back and compacts the
  conversation, until an answer, an error or the bound on iterations ends it. The world of a run is
  a record of functions: what the k-th request to the model answers, what the k-th execution of a
  tool returns, what the user steers. A run leaves a trace of its durable actions, in order: the
  writes of its session and the executions of its tools.
\<close>

section \<open>The world of a run\<close>

text \<open>
  A failed request raises an \<open>AIError\<close>: the name of its class and its message; an overflow of the context
  window has a class of its own.
\<close>

datatype answer = AnswerText utext | AnswerCalls msg | AnswerOther utext | AnswerFails utext utext | AnswerOverflow utext

record fork =
  fk_name :: utext
  fk_content :: utext
  fk_task :: utext
  fk_allowed :: "utext list"

text \<open>
  The keys that \<open>run_skill\<close> leaves in the context of an execution for the loop to act on. The outcome of
  an execution is its result, whether it is an error, and what it writes to the context it was given.
\<close>

record skill_ctx =
  sk_max :: "nat option"
  sk_learns :: "utext option"
  sk_fork :: "fork option"
  sk_allowed :: "utext list option"

definition no_ctx :: skill_ctx where
  "no_ctx = \<lparr>sk_max = None, sk_learns = None, sk_fork = None, sk_allowed = None\<rparr>"

record outcome =
  oc_result :: utext
  oc_error :: bool
  oc_writes :: "skill_ctx \<Rightarrow> skill_ctx"

record world =
  w_spec :: session_spec
  w_model :: string
  w_depth :: nat
  w_schemas :: "utext list"
  w_refs :: "utext list"
  w_need_signal :: bool
  w_need_pr :: bool
  w_reviewer :: "(utext \<times> int) option"
  w_answer :: "nat \<Rightarrow> answer"
  w_usage :: "nat \<Rightarrow> usage"
  w_rid :: "nat \<Rightarrow> utext"
  w_stream :: "nat \<Rightarrow> utext"
  w_outcome :: "nat \<Rightarrow> outcome"
  w_safe :: "utext \<Rightarrow> bool"
  w_redact :: "utext \<Rightarrow> utext"
  w_insight :: "utext \<Rightarrow> utext \<Rightarrow> utext"
  w_corrective :: "utext \<Rightarrow> content \<Rightarrow> utext option"
  w_steer :: "nat \<Rightarrow> utext list"
  w_rewake :: "nat \<Rightarrow> utext list"
  w_prefix :: "nat \<Rightarrow> utext"
  w_read :: "utext \<Rightarrow> utext option"
  w_fresh :: "nat \<Rightarrow> utext"
  w_upper :: "utext \<Rightarrow> utext"
  w_est :: "msg list \<Rightarrow> nat"

datatype action =
    Begin session_spec
  | Log event_body
  | Execute utext utext
  | Snap "msg list"
  | Mark status
  | Post utext

record tool_record =
  tr_name :: utext
  tr_result :: content
  tr_error :: bool
  tr_attempt :: utext

record runner =
  rn_messages :: "msg list"
  rn_text :: utext
  rn_iter :: nat
  rn_max :: nat
  rn_history :: "(utext \<times> arguments \<times> raw_refs) list list"
  rn_premature :: nat
  rn_signalled :: bool
  rn_records :: "tool_record list"
  rn_error :: "utext option"
  rn_skills :: "(utext \<times> utext) list"
  rn_files :: tracker
  rn_seen :: "(utext \<times> utext) list"
  rn_reflected :: bool
  rn_ctx :: skill_ctx
  rn_offered :: "utext list list"
  rn_compactor :: compactor
  rn_usage :: usage
  rn_asked :: nat
  rn_ran :: nat
  rn_trace :: "action list"

definition emit :: "action list \<Rightarrow> runner \<Rightarrow> runner" where
  "emit as r = r\<lparr>rn_trace := rn_trace r @ as\<rparr>"

definition say :: "msg \<Rightarrow> runner \<Rightarrow> runner" where
  "say m r = r\<lparr>rn_messages := rn_messages r @ [m]\<rparr>"

definition snap :: "runner \<Rightarrow> runner" where
  "snap r = emit [Snap (rn_messages r)] r"

definition answer_text :: "utext \<Rightarrow> msg" where
  "answer_text t = \<lparr>m_role = Assistant, m_content = Text t, m_name = None, m_call = None, m_calls = []\<rparr>"

definition result_msg :: "tool_call \<Rightarrow> content \<Rightarrow> msg" where
  "result_msg c t = \<lparr>m_role = ToolRole, m_content = t, m_name = Some (c_name c), m_call = Some (c_id c), m_calls = []\<rparr>"

section \<open>Asking the model\<close>

definition request_no :: "world \<Rightarrow> nat \<Rightarrow> request" where
  "request_no W k = \<lparr>q_id = w_rid W k, q_provider = sp_provider (w_spec W), q_model = sp_model (w_spec W), q_ticket = []\<rparr>"

definition response_type :: "answer \<Rightarrow> utext" where
  "response_type a = (case a of AnswerText _ \<Rightarrow> ascii ''text'' | AnswerCalls _ \<Rightarrow> ascii ''tool_calls'' | AnswerOther t \<Rightarrow> t
     | AnswerFails cls _ \<Rightarrow> cls | AnswerOverflow _ \<Rightarrow> ascii ''AIContextOverflowError'')"

definition answered :: "answer \<Rightarrow> bool" where
  "answered a \<longleftrightarrow> (case a of AnswerText _ \<Rightarrow> True | AnswerCalls _ \<Rightarrow> True | AnswerOther _ \<Rightarrow> True | _ \<Rightarrow> False)"

text \<open>\<open>_start_request\<close> and \<open>_finish_request\<close> around one call of the client.\<close>

definition ask_once :: "world \<Rightarrow> utext \<Rightarrow> utext \<Rightarrow> runner \<Rightarrow> answer \<times> runner" where
  "ask_once W op retry_of r =
     (let k = rn_asked r; a = w_answer W k; q = request_no W k;
          fin = (if answered a then RequestCompleted q (w_usage W k) 0 (response_type a)
                  else RequestFailed q no_usage 0 (response_type a))
      in (a, emit [Log (RequestStarted q (int k + 1) retry_of op False), Log fin]
               (r\<lparr>rn_asked := k + 1, rn_usage := (if answered a then add_usage (rn_usage r) (w_usage W k) else rn_usage r)\<rparr>)))"

definition invoked_skills_block :: "nat \<Rightarrow> (utext \<times> utext) list \<Rightarrow> utext" where
  "invoked_skills_block budget skills =
     join_with [NL, NL]
       (fst (foldl (\<lambda>(parts, remaining) (name, body).
               if remaining = 0 then (parts, remaining)
               else let s = take remaining body in
                 (parts @ [ascii ''<active_skill name=\"'' @ name @ ascii ''\">'' @ [NL] @ s @ [NL] @ ascii ''</active_skill>''],
                  remaining - length s))
            ([], budget) (rev skills)))"

definition build_reinject :: "world \<Rightarrow> runner \<Rightarrow> utext" where
  "build_reinject W r =
     join_with [NL, NL] (filter (\<lambda>p. p \<noteq> [])
       [w_prefix W (rn_iter r), invoked_skills_block 6000 (rn_skills r), tracker_xml (rn_files r),
        file_contents (w_read W) 5 budget_default (rn_files r)])"

text \<open>\<open>AIService.call\<close>: after an overflow the messages are compacted in place and the request is retried once.\<close>

definition ai_call :: "world \<Rightarrow> utext \<Rightarrow> utext \<Rightarrow> bool \<Rightarrow> msg list \<Rightarrow> runner \<Rightarrow> answer \<times> msg list \<times> runner" where
  "ai_call W op sys auto ms r =
     (case ask_once W op [] r of
        (AnswerOverflow e, r1) \<Rightarrow>
          if \<not> auto then (AnswerOverflow e, ms, r1)
          else (case compact_conversation sys 6 (build_reinject W r1) ms (rn_compactor r1) of
                  (ms', s) \<Rightarrow>
                    (case ask_once W op (w_rid W (rn_asked r)) (r1\<lparr>rn_compactor := s\<rparr>) of (a, r2) \<Rightarrow> (a, ms', r2)))
      | (a, r1) \<Rightarrow> (a, ms, r1))"

section \<open>Executing a tool\<close>

text \<open>
  \<open>dispatch_tool\<close>: references to memories that were not injected into this run are refused before
  anything is executed.
\<close>

definition validate_refs :: "utext list \<Rightarrow> raw_refs \<Rightarrow> utext + utext list" where
  "validate_refs allowed raw =
     (case raw of
        NoRefs \<Rightarrow> Inr []
      | RefJunk \<Rightarrow> Inl (ascii ''_memory_refs must be an array of strings'')
      | RefList rs \<Rightarrow>
          let refs = rev (remdups (rev rs)); unknown = filter (\<lambda>x. x \<notin> set allowed) refs in
          if unknown \<noteq> [] then
            Inl (ascii ''tool call contains memory refs not injected into this run: '' @ join_with (ascii '', '') unknown)
          else Inr refs)"

definition refused :: "utext \<Rightarrow> outcome" where
  "refused e = \<lparr>oc_result = ascii ''Memory reference validation failed: '' @ e, oc_error = True,
     oc_writes = id\<rparr>"

definition dispatch_tool :: "world \<Rightarrow> tool_call \<Rightarrow> skill_ctx \<Rightarrow> runner \<Rightarrow> outcome \<times> skill_ctx \<times> runner" where
  "dispatch_tool W c ctx r =
     (case validate_refs (w_refs W) (c_refs c) of
        Inl e \<Rightarrow> (refused e, ctx, r)
      | Inr refs \<Rightarrow>
          let out = w_outcome W (rn_ran r) in
          (out, oc_writes out ctx, emit [Execute (c_id c) (c_name c)] (r\<lparr>rn_ran := rn_ran r + 1\<rparr>)))"

text \<open>\<open>check_and_attach_file\<close>: what a tool result says of a screenshot once its file is moved.\<close>

definition shot_mark :: utext where "shot_mark = ascii ''__mcpshot__:''"

definition shot_char :: "nat \<Rightarrow> bool" where
  "shot_char c \<longleftrightarrow> 65 \<le> c \<and> c \<le> 90 \<or> 97 \<le> c \<and> c \<le> 122 \<or> 48 \<le> c \<and> c \<le> 57 \<or> c \<in> {46, 95, 45}"

function check_and_attach :: "utext \<Rightarrow> utext" where
  "check_and_attach t =
     (case find_sub shot_mark t of
        None \<Rightarrow> t
      | Some (a, b) \<Rightarrow>
          let n = takeWhile shot_char b in
          if n = [] then a @ shot_mark @ check_and_attach b
          else a @ ascii ''screenshot attached'' @ check_and_attach (dropWhile shot_char b))"
  by pat_completeness auto
termination
proof (relation "measure length")
  fix t p a b assume "find_sub shot_mark t = Some p" "(a, b) = p"
  then have t: "t = a @ shot_mark @ b" using find_sub_split by force
  show "(b, t) \<in> measure length" by (simp add: t shot_mark_def ascii_def)
  have "length (dropWhile shot_char b) \<le> length b" by (rule length_dropWhile_le)
  then show "(dropWhile shot_char b, t) \<in> measure length" by (simp add: t shot_mark_def ascii_def)
qed auto

declare check_and_attach.simps [simp del]

definition track_file :: "utext \<Rightarrow> arguments \<Rightarrow> runner \<Rightarrow> runner" where
  "track_file name args r =
     (case map_of args (ascii ''path'') of
        None \<Rightarrow> r
      | Some p \<Rightarrow>
          if p = [] then r
          else if name = ascii ''write_file'' \<or> name = ascii ''write_local_file'' then
            r\<lparr>rn_files := dict_set p FileModified (rn_files r)\<rparr>
          else if name = ascii ''read_file'' \<or> name = ascii ''read_local_file'' then
            (if has_key p (rn_files r) then r else r\<lparr>rn_files := dict_set p FileRead (rn_files r)\<rparr>)
          else r)"

section \<open>Skills\<close>

text \<open>\<open>run_fork_skill\<close>: a loop of its own over at most eight requests, with the tools the skill declares.\<close>

definition fork_too_deep :: utext where
  "fork_too_deep = [91, 102, 111, 114, 107, 32, 115, 107, 105, 108, 108, 32, 24050, 36798, 26368, 22823, 28145, 24230, 32, 51,
       65292, 25298, 32477, 25191, 34892, 93]"

definition fork_failed :: "utext \<Rightarrow> utext" where
  "fork_failed e = [91, 102, 111, 114, 107, 32, 115, 107, 105, 108, 108, 32, 25191, 34892, 38169, 35823, 93, 32] @ e"

definition fork_no_text :: "utext \<Rightarrow> utext" where
  "fork_no_text t = [91, 102, 111, 114, 107, 32, 115, 107, 105, 108, 108, 32, 36820, 22238, 20102, 38750, 25991, 26412, 31867,
       22411, 58, 32] @ t @ [93]"

definition fork_refused :: "utext list \<Rightarrow> utext" where
  "fork_refused names = [91, 102, 111, 114, 107, 32, 115, 107, 105, 108, 108, 32, 35831, 27714, 24037, 20855, 32] @ join_with (ascii '', '') names @ [20294, 26410, 22768, 26126, 32, 97, 108, 108, 111, 119, 101, 100, 95, 116, 111, 111, 108, 115, 65292, 24050,
       25298, 32477, 93]"

definition fork_exhausted :: utext where
  "fork_exhausted = [91, 102, 111, 114, 107, 32, 115, 107, 105, 108, 108, 32, 36798, 21040, 26368, 22823, 36845, 20195, 27425,
       25968, 65292, 26410, 23436, 25104, 93]"

definition record_call :: "tool_call \<Rightarrow> content \<Rightarrow> bool \<Rightarrow> runner \<Rightarrow> runner" where
  "record_call c t err r =
     r\<lparr>rn_records := rn_records r @ [\<lparr>tr_name = c_name c, tr_result = t, tr_error = err, tr_attempt = c_id c\<rparr>]\<rparr>"

fun fork_calls :: "world \<Rightarrow> tool_call list \<Rightarrow> msg list \<Rightarrow> runner \<Rightarrow> msg list \<times> runner" where
  "fork_calls W [] ms r = (ms, r)"
| "fork_calls W (c # cs) ms r =
     (case dispatch_tool W c no_ctx r of
        (out, _, r1) \<Rightarrow>
          fork_calls W cs (ms @ [result_msg c (Text (oc_result out))])
            (record_call c (Text (oc_result out)) (oc_error out) r1))"

fun fork_loop :: "world \<Rightarrow> utext \<Rightarrow> utext list \<Rightarrow> nat \<Rightarrow> msg list \<Rightarrow> runner \<Rightarrow> utext \<times> runner" where
  "fork_loop W skill tools 0 ms r = (fork_exhausted, r)"
| "fork_loop W skill tools (Suc n) ms r =
     (case ai_call W (ascii ''skill_fork'') skill True ms r of
        (AnswerText t, ms1, r1) \<Rightarrow> (t, r1)
      | (AnswerOther t, ms1, r1) \<Rightarrow> (fork_no_text t, r1)
      | (AnswerFails _ e, ms1, r1) \<Rightarrow> (fork_failed e, r1)
      | (AnswerOverflow e, ms1, r1) \<Rightarrow> (fork_failed e, r1)
      | (AnswerCalls m, ms1, r1) \<Rightarrow>
          if tools = [] then (fork_refused (map c_name (m_calls m)), r1)
          else (case fork_calls W (m_calls m) (ms1 @ [m]) r1 of (ms2, r2) \<Rightarrow> fork_loop W skill tools n ms2 r2))"

definition run_fork_skill :: "world \<Rightarrow> fork \<Rightarrow> runner \<Rightarrow> utext \<times> runner" where
  "run_fork_skill W f r =
     (if 3 \<le> w_depth W then (fork_too_deep, r)
      else
        let task = (if fk_task f = [] then sp_user (w_spec W) else fk_task f);
            tools = (if fk_allowed f = [] then [] else filter (\<lambda>n. n \<in> set (fk_allowed f)) (w_schemas W))
        in fork_loop W (fk_content f) tools 8 [user_text (if task = [] then [35831, 25191, 34892, 27492, 25216, 33021, 12290] else task)] r)"

definition learn_prompt :: "utext \<Rightarrow> utext" where
  "learn_prompt skill =
     [91, 31995, 32479, 93, 32, 25216, 33021, 12300] @ skill @ [12301, 22768, 26126, 20102, 32, 108, 101, 97, 114, 110, 115, 58, 32, 116, 114, 117, 101, 12290, 35831, 23558,
       26412, 27425, 25191, 34892, 30340, 20851, 38190, 21457, 29616, 12289, 35268, 24459, 25110, 25913, 36827,
       28857, 24635, 32467, 20026, 19968, 20010, 26032, 25216, 33021, 65292, 29992, 32, 119, 114, 105, 116, 101, 95,
       102, 105, 108, 101, 32, 20889, 20837, 32, 96, 115, 107, 105, 108, 108, 115, 47, 108, 101, 97, 114, 110, 101,
       100, 47, 100, 114, 97, 102, 116, 47]
     @ skill @ [45, 108, 101, 97, 114, 110, 101, 100, 46, 109, 100, 96, 65292, 20351, 29992, 32, 115, 116, 97, 110, 100, 97,
       114, 100, 32, 102, 114, 111, 110, 116, 109, 97, 116, 116, 101, 114, 65288, 110, 97, 109, 101, 47, 100, 101,
       115, 99, 114, 105, 112, 116, 105, 111, 110, 47, 108, 97, 121, 101, 114, 58, 32, 108, 101, 97, 114, 110, 101,
       100, 47, 115, 116, 97, 116, 117, 115, 58, 32, 100, 114, 97, 102, 116, 65289, 12290]"

definition fork_sentinel :: utext where
  "fork_sentinel = ascii ''__SKILL_FORK__''"

text \<open>
  What \<open>run_skill\<close> of \<^verbatim>\<open>skills/loader.py\<close> returns for a skill it has found and rendered, and what it
  writes to its context.
\<close>

record skill_entry =
  se_name :: utext
  se_content :: utext
  se_max :: nat
  se_learns :: bool
  se_forks :: bool
  se_allowed :: "utext list"

definition run_skill :: "skill_entry \<Rightarrow> utext \<Rightarrow> skill_ctx \<Rightarrow> utext \<times> skill_ctx" where
  "run_skill e args ctx =
     (let c1 = (if se_max e \<noteq> 0 then ctx\<lparr>sk_max := Some (se_max e)\<rparr> else ctx);
          c2 = (if se_learns e then c1\<lparr>sk_learns := Some (se_name e)\<rparr> else c1)
      in if se_forks e then
           (fork_sentinel, c2\<lparr>sk_fork := Some \<lparr>fk_name = se_name e, fk_content = se_content e, fk_task = args, fk_allowed = se_allowed e\<rparr>\<rparr>)
         else
           (ascii ''<skill_instructions>'' @ [NL] @ se_content e @ [NL] @ [10, 29616, 22312, 35831, 25353, 20197, 19978, 25216, 33021, 25551, 36848, 30340, 27493, 39588, 24320, 22987,
       25191, 34892, 12290, 10]
              @ ascii ''</skill_instructions>'',
            if se_allowed e \<noteq> [] then c2\<lparr>sk_allowed := Some (se_allowed e)\<rparr> else c2))"

definition no_fork :: fork where
  "no_fork = \<lparr>fk_name = ascii ''unknown'', fk_content = [], fk_task = [], fk_allowed = []\<rparr>"

text \<open>\<open>_handle_run_skill_result\<close> pops the keys from the context of the run.\<close>

definition handle_run_skill :: "world \<Rightarrow> utext \<Rightarrow> runner \<Rightarrow> utext \<times> runner" where
  "handle_run_skill W t r =
     (let x = rn_ctx r;
          r0 = r\<lparr>rn_ctx := x\<lparr>sk_max := None, sk_learns := None\<rparr>\<rparr>;
          r1 = (case sk_max x of Some n \<Rightarrow> if n > rn_max r0 then r0\<lparr>rn_max := n\<rparr> else r0 | None \<Rightarrow> r0);
          r2 = (case sk_learns x of Some s \<Rightarrow> if s = [] then r1 else say (user_text (learn_prompt s)) r1 | None \<Rightarrow> r1)
      in if t \<noteq> fork_sentinel then (t, r2)
         else
           let f = (case sk_fork x of Some f \<Rightarrow> f | None \<Rightarrow> no_fork);
               r3 = r2\<lparr>rn_ctx := (rn_ctx r2)\<lparr>sk_fork := None\<rparr>\<rparr>;
               sid = w_fresh W (length (rn_trace r3))
           in (case run_fork_skill W f (emit [Log (ChildFork sid (fk_name f))] r3) of
                 (t', r4) \<Rightarrow> (t', emit [Log (ChildJoin sid (fk_name f) t')] r4)))"

section \<open>Executing the calls of an answer\<close>

text \<open>One failure insight for each tool and redacted result.\<close>

definition failure_insight :: "world \<Rightarrow> utext \<Rightarrow> content \<Rightarrow> runner \<Rightarrow> utext option \<times> runner" where
  "failure_insight W name result r =
     (if blank result then (None, r)
      else
        let safe = take 2000 (w_redact W (case result of Text t \<Rightarrow> t | _ \<Rightarrow> [])); key = (name, take 500 safe) in
        if key \<in> set (rn_seen r) then (None, r)
        else (Some (w_insight W name safe), r\<lparr>rn_seen := rn_seen r @ [key]\<rparr>))"

text \<open>From the display text of a result to its message and snapshot.\<close>

definition deliver :: "world \<Rightarrow> tool_call \<Rightarrow> utext \<Rightarrow> bool \<Rightarrow> runner \<Rightarrow> utext list \<times> runner" where
  "deliver W c t err r =
     (let shown = fst (truncate_tool_result (c_name c) (Text t) (Some (w_model W)) 20000 (w_fresh W (length (rn_trace r))));
          r1 = record_call c shown err r;
          (ins, r2) = (if err then (case failure_insight W (c_name c) shown r1 of (i, r') \<Rightarrow> (case i of None \<Rightarrow> [] | Some x \<Rightarrow> [x], r'))
                       else ([], r1))
      in (ins, snap (say (result_msg c shown) r2)))"

definition pin_skill :: "tool_call \<Rightarrow> utext \<Rightarrow> runner \<Rightarrow> runner" where
  "pin_skill c t r =
     (case map_of (c_args c) (ascii ''name'') of
        Some n \<Rightarrow> if n \<noteq> [] \<and> is_prefix (ascii ''<skill_instructions>'') t then r\<lparr>rn_skills := dict_set n t (rn_skills r)\<rparr> else r
      | None \<Rightarrow> r)"

definition draft_mark :: utext where
  "draft_mark = ascii ''__DRAFT_WRITTEN__:''"

definition draft_notice :: "utext \<Rightarrow> utext" where
  "draft_notice skill = [24050, 20889, 20837, 33609, 31295, 25216, 33021, 12300] @ skill @ [12301, 65292, 31561, 24453, 29992, 25143, 23457, 25209, 21518, 29983, 25928, 12290]"

text \<open>Every execution is given a copy of the context of the run.\<close>

definition serial_call :: "world \<Rightarrow> tool_call \<Rightarrow> runner \<Rightarrow> utext list \<times> runner" where
  "serial_call W c r =
     (let (out, copy, r1) = dispatch_tool W c (rn_ctx r) (emit [Log (ToolCall c)] r);
          t = check_and_attach (oc_result out);
          r2 = track_file (c_name c) (c_args c) (emit [Log (ToolResult (c_id c) (c_name c) t (oc_error out))] r1);
          (t', r3) = (if c_name c = ascii ''run_skill'' then
                        (case handle_run_skill W t r2 of (u, r') \<Rightarrow> (u, pin_skill c u r'))
                      else (t, r2));
          shown = (if c_name c = ascii ''write_file'' \<and> is_prefix draft_mark t' then draft_notice (drop (length draft_mark) t') else t')
      in deliver W c shown (oc_error out) r3)"

fun serial_calls :: "world \<Rightarrow> tool_call list \<Rightarrow> runner \<Rightarrow> utext list \<times> runner" where
  "serial_calls W [] r = ([], r)"
| "serial_calls W (c # cs) r =
     (case serial_call W c r of (is, r1) \<Rightarrow> (case serial_calls W cs r1 of (js, r2) \<Rightarrow> (is @ js, r2)))"

fun dispatch_all :: "world \<Rightarrow> tool_call list \<Rightarrow> runner \<Rightarrow> (tool_call \<times> outcome) list \<times> runner" where
  "dispatch_all W [] r = ([], r)"
| "dispatch_all W (c # cs) r =
     (case dispatch_tool W c (rn_ctx r) r of (out, copy, r1) \<Rightarrow> (case dispatch_all W cs r1 of (outs, r2) \<Rightarrow> ((c, out) # outs, r2)))"

fun collect_all :: "world \<Rightarrow> (tool_call \<times> outcome) list \<Rightarrow> runner \<Rightarrow> utext list \<times> runner" where
  "collect_all W [] r = ([], r)"
| "collect_all W ((c, out) # outs) r =
     (let t = check_and_attach (oc_result out);
          (is, r1) = deliver W c t (oc_error out)
             (track_file (c_name c) (c_args c) (emit [Log (ToolResult (c_id c) (c_name c) t (oc_error out))] r));
          (js, r2) = collect_all W outs r1
      in (is @ js, r2))"

definition add_insights :: "utext list \<times> runner \<Rightarrow> runner" where
  "add_insights p =
     (case p of (ins, r) \<Rightarrow>
        if ins = [] then r else snap (r\<lparr>rn_messages := rn_messages r @ map user_text ins\<rparr>))"

definition execute_serial_tools :: "world \<Rightarrow> tool_call list \<Rightarrow> runner \<Rightarrow> runner" where
  "execute_serial_tools W cs r = add_insights (serial_calls W cs r)"

definition execute_parallel_tools :: "world \<Rightarrow> tool_call list \<Rightarrow> runner \<Rightarrow> runner" where
  "execute_parallel_tools W cs r =
     (case dispatch_all W cs (emit (map (Log \<circ> ToolCall) cs) r) of
        (outs, r1) \<Rightarrow> add_insights (collect_all W outs r1))"

definition execute_tools :: "world \<Rightarrow> tool_call list \<Rightarrow> runner \<Rightarrow> runner" where
  "execute_tools W cs r =
     (if 1 < length cs \<and> list_all (\<lambda>c. w_safe W (c_name c)) cs then execute_parallel_tools W cs r
      else execute_serial_tools W cs r)"

section \<open>The end of a run\<close>

text \<open>The last iterations of a coding task: first a warning, then only the tools that finish it.\<close>

definition completion_tools :: "utext list" where
  "completion_tools = [ascii ''create_pr'', ascii ''signal_stage_done'', ascii ''signal_rework'']"

definition deadline_suffix :: "nat \<Rightarrow> utext" where
  "deadline_suffix n =
     [NL, NL] @ ascii ''[COMPLETION DEADLINE] Only '' @ u_int (int n) @ ascii '' model iterations remain. Stop adding features. Verify and finalize the current work now, call create_pr, then call signal_stage_done. If completion is impossible, call signal_rework instead.''"

definition completion_deadline :: "utext list \<Rightarrow> nat \<Rightarrow> bool \<Rightarrow> bool \<Rightarrow> utext list \<times> utext" where
  "completion_deadline schemas remaining need_pr seen =
     (if \<not> need_pr \<or> seen \<or> remaining > 8 then (schemas, [])
      else if remaining > 3 then (schemas, deadline_suffix remaining)
      else (filter (\<lambda>n. n \<in> set completion_tools) schemas, deadline_suffix remaining))"

text \<open>\<open>before_finalize_hook\<close>: \<open>n\<close> reviews are left, the last of them decides nothing.\<close>

definition review_prompt :: "utext \<Rightarrow> utext \<Rightarrow> utext" where
  "review_prompt user draft = [12304, 29992, 25143, 38382, 39064, 12305, 10] @ user @ [10, 10, 12304, 24453, 23457, 26597, 22238, 22797, 12305, 10] @ draft"

definition revise_prompt :: "utext \<Rightarrow> utext" where
  "revise_prompt feedback = [91, 23457, 26597, 24847, 35265, 93, 32] @ feedback @ [10, 10, 35831, 26681, 25454, 20197, 19978, 24847, 35265, 20462, 25913, 22238, 22797, 12290]"

definition rejected :: "world \<Rightarrow> utext \<Rightarrow> bool" where
  "rejected W feedback \<longleftrightarrow> is_prefix (ascii ''REJECTED'') (w_upper W (u_strip feedback))"

fun review_rounds :: "world \<Rightarrow> utext \<Rightarrow> nat \<Rightarrow> msg list \<Rightarrow> utext \<Rightarrow> runner \<Rightarrow> utext \<times> runner" where
  "review_rounds W reviewer 0 ms draft r = (draft, r)"
| "review_rounds W reviewer (Suc n) ms draft r =
     (case ai_call W (ascii ''before_finalize_review'') reviewer False [user_text (review_prompt (sp_user (w_spec W)) draft)] r of
        (a, _, r1) \<Rightarrow>
          if \<not> answered a then (draft, r1)
          else
            let feedback = (case a of AnswerText t \<Rightarrow> t | _ \<Rightarrow> []) in
            if \<not> rejected W feedback \<or> n = 0 then (draft, r1)
            else
              let ms' = ms @ [answer_text draft, user_text (revise_prompt feedback)] in
              (case ai_call W (ascii ''before_finalize_regeneration'') (sp_prompt (w_spec W)) False ms' r1 of
                 (b, _, r2) \<Rightarrow>
                   if \<not> answered b then (draft, r2)
                   else review_rounds W reviewer n ms' (case b of AnswerText t \<Rightarrow> t | _ \<Rightarrow> draft) r2))"

definition before_finalize_hook :: "world \<Rightarrow> utext \<Rightarrow> int \<Rightarrow> msg list \<Rightarrow> utext \<Rightarrow> runner \<Rightarrow> utext \<times> runner" where
  "before_finalize_hook W reviewer retries ms draft r = review_rounds W reviewer (nat (retries + 1)) ms draft r"

text \<open>
  \<open>AIService.stream\<close> and \<open>_stream_final\<close>: \<open>w_stream W k\<close> is the text that the k-th request streams before
  it ends or fails. A failure leaves what was streamed; after an overflow the messages are compacted in
  place and the text of the second request is appended.
\<close>

definition stream_once :: "world \<Rightarrow> utext \<Rightarrow> runner \<Rightarrow> answer \<times> runner" where
  "stream_once W retry_of r =
     (let k = rn_asked r; a = w_answer W k; q = request_no W k;
          fin = (if answered a then RequestCompleted q (w_usage W k) 0 (ascii ''text'')
                 else RequestFailed q no_usage 0 (response_type a))
      in (a, emit [Log (RequestStarted q (int k + 1) retry_of (ascii ''final_response'') True), Log fin]
               (r\<lparr>rn_asked := k + 1, rn_text := rn_text r @ w_stream W k,
                 rn_usage := (if answered a then add_usage (rn_usage r) (w_usage W k) else rn_usage r)\<rparr>)))"

definition stream_final :: "world \<Rightarrow> runner \<Rightarrow> runner" where
  "stream_final W r =
     (if rn_text r \<noteq> [] then r
      else
        (case stream_once W [] r of
           (AnswerOverflow _, r1) \<Rightarrow>
             (case compact_conversation (sp_prompt (w_spec W)) 6 (build_reinject W r1) (rn_messages r1) (rn_compactor r1) of
                (ms, s) \<Rightarrow> snd (stream_once W (w_rid W (rn_asked r)) (r1\<lparr>rn_messages := ms, rn_compactor := s\<rparr>)))
         | (_, r1) \<Rightarrow> r1))"

definition finalize_reply :: "world \<Rightarrow> runner \<Rightarrow> runner" where
  "finalize_reply W r =
     (case w_reviewer W of
        None \<Rightarrow> stream_final W r
      | Some (reviewer, retries) \<Rightarrow>
          if reviewer = [] then stream_final W r
          else
            (case ai_call W (ascii ''final_draft'') (sp_prompt (w_spec W)) True (rn_messages r) r of
               (a, ms, r1) \<Rightarrow>
                 if \<not> answered a then stream_final W r1
                 else (case before_finalize_hook W reviewer retries ms
                              (case a of AnswerText t \<Rightarrow> t | _ \<Rightarrow> []) r1 of
                         (t, r2) \<Rightarrow> r2\<lparr>rn_text := t\<rparr>)))"

section \<open>One iteration\<close>

definition poll_signals :: "world \<Rightarrow> runner \<Rightarrow> runner" where
  "poll_signals W r =
     (let s = w_steer W (rn_iter r); k = w_rewake W (rn_iter r);
          r1 = (if s = [] then r else say (user_text ([91, 29992, 25143, 20013, 36884, 25351, 20196, 93, 32] @ join_with [NL] s)) r)
      in if k = [] then r1 else say (user_text ([91, 31995, 32479, 21796, 37266, 93, 32] @ join_with [NL] k)) r1)"

definition maybe_inject :: "world \<Rightarrow> runner \<Rightarrow> runner" where
  "maybe_inject W r =
     (if rn_reflected r then r
      else case find tr_error (rev (rn_records r)) of
             None \<Rightarrow> r
           | Some f \<Rightarrow>
               (case w_corrective W (tr_name f) (tr_result f) of
                  None \<Rightarrow> r
                | Some p \<Rightarrow> (say (user_text p) r)\<lparr>rn_reflected := True\<rparr>))"

definition signal_tool :: "utext \<Rightarrow> bool" where
  "signal_tool n \<longleftrightarrow> n = ascii ''signal_stage_done'' \<or> n = ascii ''signal_rework''"

definition compact_turn :: "world \<Rightarrow> runner \<Rightarrow> runner" where
  "compact_turn W r =
     (let ms1 = microcompact (rn_messages r);
          ms2 = fst (snip_if_needed (w_est W) (w_model W) ms1)
      in case auto_compact (w_est W) (w_model W) (sp_group (w_spec W)) (sp_prompt (w_spec W)) (build_reinject W r) 6 ms2 (rn_compactor r) of
           (ms3, _, s) \<Rightarrow> r\<lparr>rn_messages := ms3, rn_compactor := s\<rparr>)"

definition same_batch :: "tool_call list \<Rightarrow> (utext \<times> arguments \<times> raw_refs) list" where
  "same_batch cs = map (\<lambda>c. (c_name c, c_args c, c_refs c)) cs"

definition doomed :: "'a list \<Rightarrow> bool" where
  "doomed h \<longleftrightarrow> 3 \<le> length h \<and> (\<forall>x \<in> set (drop (length h - 3) h). x = last h)"

definition doom_text :: utext where
  "doom_text = [91, 24490, 29615, 20445, 25252, 93, 32, 36830, 32493, 32, 51, 32, 27425, 23436, 20840, 30456, 21516, 30340,
       24037, 20855, 35843, 29992, 65292, 24050, 32456, 27490, 24490, 29615]"

definition premature_prompt :: utext where
  "premature_prompt = [91, 31995, 32479, 93, 32, 20219, 21153, 23578, 26410, 32467, 26463, 12290, 19981, 35201, 21482, 25551, 36848,
       19979, 19968, 27493, 65307, 35831, 31435, 21363, 35843, 29992, 21487, 29992, 24037, 20855, 32487, 32493,
       25191, 34892, 12290, 21482, 26377, 23436, 25104, 20840, 37096, 23454, 29616, 19982, 39564, 35777, 21518,
       25165, 33021, 35843, 29992, 32, 115, 105, 103, 110, 97, 108, 95, 115, 116, 97, 103, 101, 95, 100, 111, 110,
       101, 65292, 26080, 27861, 32487, 32493, 26102, 35843, 29992, 32, 115, 105, 103, 110, 97, 108, 95, 114, 101,
       119, 111, 114, 107, 12290]"

text \<open>The answer of the model in an iteration: whether the loop goes on, and the state after it.\<close>

definition on_text :: "world \<Rightarrow> utext \<Rightarrow> runner \<Rightarrow> bool \<times> runner" where
  "on_text W t r0 =
     (let r = r0\<lparr>rn_history := [], rn_text := t\<rparr> in
      if w_need_signal W \<and> \<not> rn_signalled r \<and> rn_premature r < 2 then
        (True, (snap (say (user_text premature_prompt) (say (answer_text t) (r\<lparr>rn_premature := rn_premature r + 1\<rparr>))))\<lparr>rn_text := []\<rparr>)
      else (False, finalize_reply W r))"

definition on_calls :: "world \<Rightarrow> msg \<Rightarrow> runner \<Rightarrow> bool \<times> runner" where
  "on_calls W m r0 =
     (let cs = m_calls m; r = r0\<lparr>rn_history := rn_history r0 @ [same_batch cs]\<rparr> in
      if doomed (rn_history r) then (False, r\<lparr>rn_text := doom_text\<rparr>)
      else
        let r1 = snap (say m r);
            r2 = maybe_inject W (execute_tools W cs r1);
            r3 = r2\<lparr>rn_signalled := list_ex (\<lambda>x. signal_tool (tr_name x) \<and> \<not> tr_error x) (rn_records r2)\<rparr>
        in (True, poll_signals W (compact_turn W r3)))"

definition offered :: "world \<Rightarrow> runner \<Rightarrow> utext list \<times> utext" where
  "offered W r =
     completion_deadline
       (case sk_allowed (rn_ctx r) of None \<Rightarrow> w_schemas W | Some al \<Rightarrow> filter (\<lambda>n. n \<in> set al) (w_schemas W))
       (rn_max r - rn_iter r + 1) (w_need_pr W) (rn_signalled r)"

definition iteration :: "world \<Rightarrow> runner \<Rightarrow> bool \<times> runner" where
  "iteration W r0 =
     (let r1 = r0\<lparr>rn_iter := rn_iter r0 + 1\<rparr>;
          (tools, suffix) = offered W r1;
          r2 = r1\<lparr>rn_ctx := (rn_ctx r1)\<lparr>sk_allowed := None\<rparr>, rn_offered := rn_offered r1 @ [tools]\<rparr>
      in case ai_call W (ascii ''tool_loop_iteration'') (sp_prompt (w_spec W) @ suffix) True (rn_messages r2) r2 of
           (a, ms, r3') \<Rightarrow>
             let r3 = r3'\<lparr>rn_messages := ms\<rparr> in
             (case a of
                AnswerText t \<Rightarrow> on_text W t r3
              | AnswerCalls m \<Rightarrow> on_calls W m r3
              | AnswerOther t \<Rightarrow> (False, finalize_reply W r3)
              | AnswerFails _ e \<Rightarrow> (False, r3\<lparr>rn_error := Some e\<rparr>)
              | AnswerOverflow e \<Rightarrow> (False, r3\<lparr>rn_error := Some e\<rparr>)))"

text \<open>\<open>while iter_count < max_iter\<close>; None when the fuel ends before the loop does.\<close>

fun tool_loop :: "world \<Rightarrow> nat \<Rightarrow> runner \<Rightarrow> runner option" where
  "tool_loop W 0 r = (if rn_iter r < rn_max r then None else Some r)"
| "tool_loop W (Suc n) r =
     (if rn_iter r < rn_max r then
        (case iteration W r of (True, r') \<Rightarrow> tool_loop W n r' | (False, r') \<Rightarrow> Some r')
      else Some r)"

section \<open>A whole run\<close>

definition unfinished_text :: utext where
  "unfinished_text = [91, 36798, 21040, 26368, 22823, 24037, 20855, 35843, 29992, 27425, 25968, 65292, 20219, 21153, 26410, 23436,
       25104, 93]"

definition fresh_runner :: "nat \<Rightarrow> msg list \<Rightarrow> compactor \<Rightarrow> runner" where
  "fresh_runner bound ms s =
     \<lparr>rn_messages = ms, rn_text = [], rn_iter = 0, rn_max = bound, rn_history = [], rn_premature = 0,
      rn_signalled = False, rn_records = [], rn_error = None, rn_skills = [], rn_files = [], rn_seen = [],
      rn_reflected = False, rn_ctx = no_ctx, rn_offered = [], rn_compactor = s, rn_usage = no_usage,
      rn_asked = 0, rn_ran = 0, rn_trace = []\<rparr>"

text \<open>\<open>persist_session_start\<close>: a resumed run goes on in the session it resumes.\<close>

definition start_run :: "world \<Rightarrow> utext option \<Rightarrow> runner \<Rightarrow> runner" where
  "start_run W user r =
     emit (if w_refs W = [] then [] else [Log (Other (ascii ''context_evidence_injected''))])
       (case user of
          None \<Rightarrow> emit [Mark Running] r
        | Some t \<Rightarrow> emit [Begin (w_spec W), Log (SessionStart t)] r)"

definition first_messages :: "msg list option \<Rightarrow> msg list \<Rightarrow> utext \<Rightarrow> msg list" where
  "first_messages resumed history user =
     (case resumed of
        None \<Rightarrow> history @ [user_text user]
      | Some [] \<Rightarrow> []
      | Some (m # ms) \<Rightarrow> if m_role m = SystemRole then ms else m # ms)"

definition pre_compaction :: "world \<Rightarrow> runner \<Rightarrow> runner" where
  "pre_compaction W r =
     (let r1 = r\<lparr>rn_messages := microcompact (rn_messages r)\<rparr> in
      if w_est W (rn_messages r1) > 20000 then
        (case compact_conversation (sp_prompt (w_spec W)) 6 (build_reinject W r1) (rn_messages r1) (rn_compactor r1) of
           (ms, s) \<Rightarrow> r1\<lparr>rn_messages := ms, rn_compactor := s\<rparr>)
      else r1)"

definition cleanup :: "world \<Rightarrow> runner \<Rightarrow> runner" where
  "cleanup W r0 =
     (let r = (if w_depth W > 0 then r0 else emit [Post (rn_text r0)] r0)
      in emit [Mark Completed] (snap (say (answer_text (rn_text r)) r)))"

definition run_tool_loop :: "world \<Rightarrow> nat \<Rightarrow> runner \<Rightarrow> runner option" where
  "run_tool_loop W fuel r =
     map_option (\<lambda>r'. cleanup W (if rn_text r' = [] then r'\<lparr>rn_text := unfinished_text\<rparr> else r')) (tool_loop W fuel r)"

definition execute :: "world \<Rightarrow> nat \<Rightarrow> nat \<Rightarrow> utext option \<Rightarrow> msg list \<Rightarrow> compactor \<Rightarrow> runner option" where
  "execute W fuel bound user ms s =
     (let r = pre_compaction W (start_run W user (fresh_runner bound ms s)) in
      if w_schemas W = [] then Some (cleanup W (finalize_reply W r)) else run_tool_loop W fuel r)"

section \<open>Signals\<close>

record signal_out =
  so_name :: utext
  so_args :: arguments

definition error_marks :: "utext list" where
  "error_marks = [[38169, 35823], [25298, 32477], [19981, 23384, 22312], [21463, 20445, 25252], [25318, 25130], [24322, 24120],
     ascii ''fail'', ascii ''error'', ascii ''denied'', ascii ''blocked'']"

definition looks_failed :: "utext \<Rightarrow> bool" where
  "looks_failed t \<longleftrightarrow>
     is_prefix (ascii ''['') t \<and>
     (case find_sub (ascii '']'') t of
        None \<Rightarrow> False
      | Some (a, b) \<Rightarrow> list_ex (\<lambda>w. is_infix w (a @ ascii '']'')) error_marks)"

definition signal_of_call :: "msg list \<Rightarrow> tool_call \<Rightarrow> signal_out list" where
  "signal_of_call ms c =
     (if \<not> signal_tool (c_name c) then []
      else if c_id c \<noteq> [] \<and>
        (case find (\<lambda>m. m_role m = ToolRole \<and> m_call m = Some (c_id c)) ms of
           None \<Rightarrow> False | Some m \<Rightarrow> (case m_content m of Text t \<Rightarrow> looks_failed t | _ \<Rightarrow> False)) then []
      else [\<lparr>so_name = c_name c, so_args = c_args c\<rparr>])"

definition extract_signals :: "msg list \<Rightarrow> tool_record list \<Rightarrow> utext option \<Rightarrow> signal_out list" where
  "extract_signals ms recs err =
     concat (map (\<lambda>m. if m_role m = Assistant then concat (map (signal_of_call ms) (m_calls m)) else []) ms)
     @ map (\<lambda>t. \<lparr>so_name = ascii ''_tool_succeeded'', so_args = [(ascii ''tool_name'', tr_name t)]\<rparr>)
         (filter (\<lambda>t. \<not> tr_error t) recs)
     @ (case err of None \<Rightarrow> [] | Some e \<Rightarrow> if e = [] then [] else [\<lparr>so_name = ascii ''_execution_failed'', so_args = [(ascii ''reason'', e)]\<rparr>])"

definition run_signals :: "runner \<Rightarrow> signal_out list" where
  "run_signals r = extract_signals (rn_messages r) (rn_records r) (rn_error r)"

text \<open>\<open>drop_oldest_message_group\<close>, by which the first request is cut to the window of its model.\<close>

fun drop_group :: "msg list \<Rightarrow> msg list" where
  "drop_group [] = []"
| "drop_group (m # ms) =
     (if m_role m = SystemRole then m # drop_group ms else dropWhile (\<lambda>x. m_role x \<noteq> User) ms)"

section \<open>What an operation leaves alone\<close>

definition core :: "runner \<Rightarrow> skill_ctx \<times> nat \<times> nat" where
  "core r = (rn_ctx r, rn_max r, rn_iter r)"

lemma core_fields [simp]:
  "core (r\<lparr>rn_messages := x1\<rparr>) = core r" "core (r\<lparr>rn_text := x2\<rparr>) = core r" "core (r\<lparr>rn_history := x3\<rparr>) = core r"
  "core (r\<lparr>rn_premature := x4\<rparr>) = core r" "core (r\<lparr>rn_signalled := x5\<rparr>) = core r" "core (r\<lparr>rn_records := x6\<rparr>) = core r"
  "core (r\<lparr>rn_error := x7\<rparr>) = core r" "core (r\<lparr>rn_skills := x8\<rparr>) = core r" "core (r\<lparr>rn_files := x9\<rparr>) = core r"
  "core (r\<lparr>rn_seen := x10\<rparr>) = core r" "core (r\<lparr>rn_reflected := x11\<rparr>) = core r" "core (r\<lparr>rn_offered := x12\<rparr>) = core r"
  "core (r\<lparr>rn_compactor := x13\<rparr>) = core r" "core (r\<lparr>rn_usage := x14\<rparr>) = core r" "core (r\<lparr>rn_asked := x15\<rparr>) = core r"
  "core (r\<lparr>rn_ran := x16\<rparr>) = core r" "core (r\<lparr>rn_trace := x17\<rparr>) = core r"
  by (simp_all add: core_def)

lemma core_steps [simp]: "core (emit as r) = core r" "core (say m r) = core r" "core (snap r) = core r"
  "core (record_call c t e r) = core r" "core (track_file n args r) = core r" "core (pin_skill c u r) = core r"
  by (simp_all add: emit_def say_def snap_def record_call_def track_file_def pin_skill_def split: option.splits)

lemma messages_steps [simp]:
  "rn_messages (emit as r) = rn_messages r" "rn_messages (say m r) = rn_messages r @ [m]" "rn_messages (snap r) = rn_messages r"
  "rn_messages (record_call c t e r) = rn_messages r" "rn_messages (track_file n args r) = rn_messages r"
  "rn_messages (pin_skill c u r) = rn_messages r"
  by (simp_all add: emit_def say_def snap_def record_call_def track_file_def pin_skill_def split: option.splits)

lemma trace_steps [simp]:
  "rn_trace (emit as r) = rn_trace r @ as" "rn_trace (say m r) = rn_trace r" "rn_trace (snap r) = rn_trace r @ [Snap (rn_messages r)]"
  "rn_trace (record_call c t e r) = rn_trace r" "rn_trace (track_file n args r) = rn_trace r"
  "rn_trace (pin_skill c u r) = rn_trace r"
  by (simp_all add: emit_def say_def snap_def record_call_def track_file_def pin_skill_def split: option.splits)

lemma ask_once_frame:
  assumes "ask_once W op ret r = (a, r')"
  shows "core r' = core r" "rn_messages r' = rn_messages r"
    "\<exists>q n op st b. rn_trace r' = rn_trace r @ [Log (RequestStarted q n ret op st), Log b] \<and>
       (\<exists>u d t. b = RequestCompleted q u d t \<or> b = RequestFailed q u d t)"
  using assms by (auto simp: ask_once_def Let_def)

lemma dispatch_frame:
  assumes "dispatch_tool W c ctx r = (out, ctx', r')"
  shows "core r' = core r" "rn_messages r' = rn_messages r"
    "rn_trace r' = rn_trace r \<or> rn_trace r' = rn_trace r @ [Execute (c_id c) (c_name c)]"
  using assms by (auto simp: dispatch_tool_def Let_def split: sum.splits)

lemma insight_frame:
  assumes "failure_insight W n t r = (i, r')"
  shows "core r' = core r" "rn_messages r' = rn_messages r" "rn_trace r' = rn_trace r"
  using assms by (auto simp: failure_insight_def Let_def split: if_splits)

text \<open>Actions that are no execution, start and end no tool call and record no answer of the model.\<close>

definition quiet :: "action \<Rightarrow> bool" where
  "quiet a = (case a of Execute _ _ \<Rightarrow> False | Log b \<Rightarrow> (case b of ToolCall _ \<Rightarrow> False | ToolResult _ _ _ _ \<Rightarrow> False | LlmResponse _ _ \<Rightarrow> False | _ \<Rightarrow> True) | _ \<Rightarrow> True)"

definition quietly :: "runner \<Rightarrow> runner \<Rightarrow> bool" where
  "quietly r r' \<longleftrightarrow> (\<exists>as. rn_trace r' = rn_trace r @ as \<and> list_all quiet as)"

lemma quietly_refl: "rn_trace r' = rn_trace r \<Longrightarrow> quietly r r'"
  by (simp add: quietly_def)

lemma quietly_trans [trans]: "quietly r s \<Longrightarrow> quietly s t \<Longrightarrow> quietly r t"
  by (force simp: quietly_def)

lemma ask_quietly: "ask_once W op ret r = (a, r') \<Longrightarrow> quietly r r'"
  by (auto simp: quietly_def ask_once_def Let_def quiet_def emit_def)

lemma ai_call_frame:
  assumes "ai_call W op sys auto ms r = (a, ms', r')"
  shows "core r' = core r \<and> rn_messages r' = rn_messages r \<and> quietly r r'"
proof -
  obtain a1 r1 where 1: "ask_once W op [] r = (a1, r1)" by fastforce
  note f1 = ask_once_frame(1,2) [OF 1] ask_quietly [OF 1]
  show ?thesis
  proof (cases "(\<exists>e. a1 = AnswerOverflow e) \<and> auto")
    case False
    then show ?thesis using assms f1 by (auto simp: ai_call_def 1 split: answer.splits)
  next
    case True
    obtain s where 2: "ask_once W op (w_rid W (rn_asked r)) (r1\<lparr>rn_compactor := s\<rparr>) = (a, r')"
      using assms True 1 by (auto simp: ai_call_def split: prod.splits)
    have "quietly r1 r'" using ask_quietly [OF 2] by (simp add: quietly_def)
    then show ?thesis using f1 ask_once_frame(1,2) [OF 2] quietly_trans by auto
  qed
qed

lemma fork_without_tools:
  "fork_loop W skill [] n ms r = (t, r') \<Longrightarrow> core r' = core r \<and> rn_messages r' = rn_messages r \<and> quietly r r'"
proof (cases n)
  case (Suc m)
  obtain a ms1 r1 where 1: "ai_call W (ascii ''skill_fork'') skill True ms r = (a, ms1, r1)" by (rule prod_cases3)
  assume "fork_loop W skill [] n ms r = (t, r')"
  then show ?thesis using ai_call_frame [OF 1] by (auto simp: Suc 1 split: answer.splits)
qed (auto simp: quietly_def)

section \<open>Calls are logged before they are executed\<close>

text \<open>The calls that a trace has logged and not yet answered, and: what is executed is one of them.\<close>

fun open_calls :: "tool_call list \<Rightarrow> action list \<Rightarrow> tool_call list" where
  "open_calls P [] = P"
| "open_calls P (Log b # as) =
     (case b of
        ToolCall c \<Rightarrow> open_calls (P @ [c]) as
      | ToolResult i n t e \<Rightarrow> open_calls (filter (\<lambda>c. c_id c \<noteq> i) P) as
      | _ \<Rightarrow> open_calls P as)"
| "open_calls P (a # as) = open_calls P as"

fun ahead :: "tool_call list \<Rightarrow> action list \<Rightarrow> bool" where
  "ahead P [] = True"
| "ahead P (Execute i n # as) = ((\<exists>c \<in> set P. c_id c = i \<and> c_name c = n) \<and> ahead P as)"
| "ahead P (a # as) = ahead (open_calls P [a]) as"

lemma open_calls_append: "open_calls P (as @ bs) = open_calls (open_calls P as) bs"
  by (induction P as rule: open_calls.induct) (auto split: event_body.splits)

lemma ahead_append: "ahead P (as @ bs) \<longleftrightarrow> ahead P as \<and> ahead (open_calls P as) bs"
  by (induction P as rule: ahead.induct) (auto split: event_body.splits)

lemma quiet_trace: "list_all quiet as \<Longrightarrow> open_calls P as = P \<and> ahead P as"
  by (induction P as rule: ahead.induct) (auto simp: quiet_def split: event_body.splits)

lemma deliver_frame:
  assumes "deliver W c t e r = (ins, r')"
  shows "core r' = core r \<and> quietly r r' \<and> (\<exists>shown. rn_messages r' = rn_messages r @ [result_msg c shown])"
proof -
  obtain shown i r2 where "r' = snap (say (result_msg c shown) r2)"
    and r2: "r2 = record_call c shown e r \<or> failure_insight W (c_name c) shown (record_call c shown e r) = (i, r2)"
    using assms by (auto simp: deliver_def Let_def split: prod.splits if_splits)
  moreover have "core r2 = core r" "rn_messages r2 = rn_messages r" "rn_trace r2 = rn_trace r"
    using r2 by (auto dest: insight_frame)
  ultimately show ?thesis by (auto simp: quietly_def quiet_def)
qed

lemma handle_frame:
  assumes "handle_run_skill W t r = (t', r')" "rn_ctx r = no_ctx"
  shows "core r' = core r \<and> rn_messages r' = rn_messages r \<and> quietly r r'"
proof (cases "t = fork_sentinel")
  case False
  then show ?thesis using assms by (auto simp: handle_run_skill_def no_ctx_def core_def quietly_def)
next
  case True
  let ?r3 = "r\<lparr>rn_ctx := no_ctx\<rparr>" and ?sid = "w_fresh W (length (rn_trace r))"
  obtain u r4 where f: "run_fork_skill W no_fork (emit [Log (ChildFork ?sid (ascii ''unknown''))] ?r3) = (u, r4)" by fastforce
  have e: "r' = emit [Log (ChildJoin ?sid (ascii ''unknown'') t')] r4" "u = t'"
    using assms f True by (auto simp: handle_run_skill_def no_ctx_def no_fork_def)
  have "core r4 = core ?r3 \<and> rn_messages r4 = rn_messages r \<and> quietly (emit [Log (ChildFork ?sid (ascii ''unknown''))] ?r3) r4"
    using f by (auto simp: run_fork_skill_def no_fork_def Let_def quietly_refl split: if_splits dest!: fork_without_tools)
  moreover have "core ?r3 = core r" using assms(2) by (simp add: core_def)
  moreover have "quietly r (emit [Log (ChildFork ?sid (ascii ''unknown''))] ?r3)" by (simp add: quietly_def quiet_def)
  moreover have "quietly r4 r'" by (simp add: e quietly_def quiet_def)
  ultimately show ?thesis by (auto simp: e(1) intro: quietly_trans)
qed

text \<open>The trace of one serial call.\<close>

definition call_block :: "tool_call \<Rightarrow> action list \<Rightarrow> bool" where
  "call_block c as \<longleftrightarrow>
     (\<exists>ex t e rest. as = Log (ToolCall c) # ex @ Log (ToolResult (c_id c) (c_name c) t e) # rest \<and>
        (ex = [] \<or> ex = [Execute (c_id c) (c_name c)]) \<and> list_all quiet rest)"

lemma call_block_settles: "call_block c as \<Longrightarrow> ahead [] as \<and> open_calls [] as = []"
  by (auto simp: call_block_def open_calls_append dest: quiet_trace)

lemma case_if_pick:
  "(case (if b then (x, y) else (x', y')) of (t, s) \<Rightarrow> f t s) = z \<Longrightarrow> f x y = z \<or> f x' y' = z"
  by (simp split: if_splits)

lemma serial_frame:
  assumes "serial_call W c r = (ins, r')" "rn_ctx r = no_ctx"
  shows "core r' = core r \<and> (\<exists>shown. rn_messages r' = rn_messages r @ [result_msg c shown]) \<and>
    (\<exists>as. rn_trace r' = rn_trace r @ as \<and> call_block c as)"
proof -
  obtain out copy r1 where d: "dispatch_tool W c (rn_ctx r) (emit [Log (ToolCall c)] r) = (out, copy, r1)" by (rule prod_cases3)
  note f1 = dispatch_frame [OF d]
  let ?t = "check_and_attach (oc_result out)"
  let ?r2 = "track_file (c_name c) (c_args c) (emit [Log (ToolResult (c_id c) (c_name c) ?t (oc_error out))] r1)"
  obtain ex where ex: "rn_trace r1 = rn_trace r @ Log (ToolCall c) # ex" "ex = [] \<or> ex = [Execute (c_id c) (c_name c)]"
    using f1(3) by auto
  have c2: "core ?r2 = core r" "rn_messages ?r2 = rn_messages r" using f1(1,2) by simp_all
  then have c3: "rn_ctx ?r2 = no_ctx" using assms(2) by (simp add: core_def)
  obtain u r3 where h: "handle_run_skill W ?t ?r2 = (u, r3)" by fastforce
  have f3: "core r3 = core r \<and> rn_messages r3 = rn_messages r \<and> quietly ?r2 r3"
    using handle_frame [OF h c3] c2 by simp
  obtain shown x where d2: "deliver W c shown (oc_error out) x = (ins, r')"
    and x: "x = ?r2 \<or> x = pin_skill c u r3"
  proof -
    have "serial_call W c r =
        (case (if c_name c = ascii ''run_skill'' then (u, pin_skill c u r3) else (?t, ?r2)) of
           (t', x) \<Rightarrow> deliver W c (if c_name c = ascii ''write_file'' \<and> is_prefix draft_mark t' then draft_notice (drop (length draft_mark) t') else t')
                       (oc_error out) x)"
      by (simp only: serial_call_def d h Let_def prod.case)
    from this [symmetric] assms(1) have "(case (if c_name c = ascii ''run_skill'' then (u, pin_skill c u r3) else (?t, ?r2)) of
           (t', x) \<Rightarrow> deliver W c (if c_name c = ascii ''write_file'' \<and> is_prefix draft_mark t' then draft_notice (drop (length draft_mark) t') else t')
                       (oc_error out) x) = (ins, r')" by (rule trans)
    from case_if_pick [OF this] show thesis using that by blast
  qed
  have cx: "core x = core r \<and> rn_messages x = rn_messages r \<and> quietly ?r2 x"
    using x f3 c2 by (auto simp: quietly_refl) (auto simp: quietly_def)
  have f5: "core r' = core x \<and> quietly x r' \<and> (\<exists>shown. rn_messages r' = rn_messages x @ [result_msg c shown])"
    using deliver_frame [OF d2] .
  have "quietly ?r2 r'" using cx f5 quietly_trans by blast
  then obtain rest where "rn_trace r' = rn_trace ?r2 @ rest" "list_all quiet rest" by (auto simp: quietly_def)
  then have "rn_trace r' = rn_trace r @ (Log (ToolCall c) # ex @ Log (ToolResult (c_id c) (c_name c) ?t (oc_error out)) # rest) \<and>
      call_block c (Log (ToolCall c) # ex @ Log (ToolResult (c_id c) (c_name c) ?t (oc_error out)) # rest)"
    using ex by (auto simp: call_block_def)
  then show ?thesis using cx f5 by auto
qed

definition answers :: "tool_call list \<Rightarrow> msg list \<Rightarrow> bool" where
  "answers cs rs \<longleftrightarrow> list_all2 (\<lambda>c m. \<exists>shown. m = result_msg c shown) cs rs"

lemma answers_simps [simp]: "answers [] rs \<longleftrightarrow> rs = []"
  "answers (c # cs) (result_msg c shown # rs) \<longleftrightarrow> answers cs rs"
  by (auto simp: answers_def)

lemma serial_calls_frame:
  "serial_calls W cs r = (ins, r') \<Longrightarrow> rn_ctx r = no_ctx \<Longrightarrow>
   core r' = core r \<and> (\<exists>rs. rn_messages r' = rn_messages r @ rs \<and> answers cs rs) \<and>
   (\<exists>bs. list_all2 call_block cs bs \<and> rn_trace r' = rn_trace r @ concat bs)"
proof (induction cs arbitrary: r ins r')
  case (Cons c cs)
  obtain ks r1 where 1: "serial_call W c r = (ks, r1)" by fastforce
  obtain js r2 where 2: "serial_calls W cs r1 = (js, r2)" by fastforce
  have r': "r' = r2" using Cons.prems(1) by (simp add: 1 2)
  obtain shown as where f1: "core r1 = core r" "rn_messages r1 = rn_messages r @ [result_msg c shown]"
    "rn_trace r1 = rn_trace r @ as" "call_block c as"
    using serial_frame [OF 1 Cons.prems(2)] by blast
  have "rn_ctx r1 = no_ctx" using f1(1) Cons.prems(2) by (simp add: core_def)
  from Cons.IH [OF 2 this] r' obtain rs bs where f2: "core r' = core r1"
    "rn_messages r' = rn_messages r1 @ rs" "answers cs rs" "list_all2 call_block cs bs" "rn_trace r' = rn_trace r1 @ concat bs"
    by blast
  have "rn_messages r' = rn_messages r @ (result_msg c shown # rs)" "answers (c # cs) (result_msg c shown # rs)"
    using f1(2) f2(2,3) by simp_all
  moreover have "list_all2 call_block (c # cs) (as # bs)" "rn_trace r' = rn_trace r @ concat (as # bs)"
    using f1(3,4) f2(4,5) by simp_all
  ultimately show ?case using f1(1) f2(1) by metis
qed auto

lemma dispatch_all_frame:
  "dispatch_all W cs r = (outs, r') \<Longrightarrow>
   core r' = core r \<and> rn_messages r' = rn_messages r \<and> map fst outs = cs \<and>
   (\<exists>es. rn_trace r' = rn_trace r @ es \<and> list_all (\<lambda>a. \<exists>c \<in> set cs. a = Execute (c_id c) (c_name c)) es)"
proof (induction cs arbitrary: r outs r')
  case (Cons c cs)
  obtain out copy r1 where 1: "dispatch_tool W c (rn_ctx r) r = (out, copy, r1)" by (rule prod_cases3)
  obtain os r2 where 2: "dispatch_all W cs r1 = (os, r2)" by fastforce
  have e: "r' = r2" "outs = (c, out) # os" using Cons.prems by (simp_all add: 1 2)
  obtain es where f: "core r2 = core r1" "rn_messages r2 = rn_messages r1" "map fst os = cs"
    "rn_trace r2 = rn_trace r1 @ es" "list_all (\<lambda>a. \<exists>c \<in> set cs. a = Execute (c_id c) (c_name c)) es"
    using Cons.IH [OF 2] by blast
  obtain ex where "rn_trace r1 = rn_trace r @ ex" "ex = [] \<or> ex = [Execute (c_id c) (c_name c)]"
    using dispatch_frame(3) [OF 1] by auto
  then have "rn_trace r' = rn_trace r @ (ex @ es)" "list_all (\<lambda>a. \<exists>x \<in> set (c # cs). a = Execute (c_id x) (c_name x)) (ex @ es)"
    using f(4,5) e by (auto simp: list_all_iff)
  then show ?case using f(1-3) e dispatch_frame(1,2) [OF 1] by auto
qed auto

definition result_block :: "tool_call \<Rightarrow> action list \<Rightarrow> bool" where
  "result_block c as \<longleftrightarrow> (\<exists>t e rest. as = Log (ToolResult (c_id c) (c_name c) t e) # rest \<and> list_all quiet rest)"

lemma collect_all_frame:
  "collect_all W outs r = (ins, r') \<Longrightarrow>
   core r' = core r \<and> (\<exists>rs. rn_messages r' = rn_messages r @ rs \<and> answers (map fst outs) rs) \<and>
   (\<exists>bs. list_all2 result_block (map fst outs) bs \<and> rn_trace r' = rn_trace r @ concat bs)"
proof (induction outs arbitrary: r ins r')
  case (Cons p outs)
  obtain c out where p: "p = (c, out)" by fastforce
  let ?r1 = "track_file (c_name c) (c_args c) (emit [Log (ToolResult (c_id c) (c_name c) (check_and_attach (oc_result out)) (oc_error out))] r)"
  obtain ks r2 where 1: "deliver W c (check_and_attach (oc_result out)) (oc_error out) ?r1 = (ks, r2)" by fastforce
  obtain js r3 where 2: "collect_all W outs r2 = (js, r3)" by fastforce
  have r': "r' = r3" using Cons.prems by (simp add: p 1 2)
  obtain shown rest where f1: "core r2 = core r" "rn_messages r2 = rn_messages r @ [result_msg c shown]"
    "rn_trace r2 = rn_trace r @ Log (ToolResult (c_id c) (c_name c) (check_and_attach (oc_result out)) (oc_error out)) # rest" "list_all quiet rest"
    using deliver_frame [OF 1] by (auto simp: quietly_def)
  obtain rs bs where f2: "core r3 = core r2" "rn_messages r3 = rn_messages r2 @ rs" "answers (map fst outs) rs"
    "list_all2 result_block (map fst outs) bs" "rn_trace r3 = rn_trace r2 @ concat bs"
    using Cons.IH [OF 2] by blast
  let ?b = "Log (ToolResult (c_id c) (c_name c) (check_and_attach (oc_result out)) (oc_error out)) # rest"
  have "list_all2 result_block (map fst (p # outs)) (?b # bs)" "rn_trace r' = rn_trace r @ concat (?b # bs)"
    using f1(3,4) f2(4,5) r' by (auto simp: p result_block_def)
  moreover have "rn_messages r' = rn_messages r @ (result_msg c shown # rs)" "answers (map fst (p # outs)) (result_msg c shown # rs)"
    using f1(2) f2(2,3) r' by (auto simp: p)
  ultimately show ?case using f1(1) f2(1) r' by metis
qed auto

text \<open>The trace of a batch of calls: one block after another, or all calls, all executions, all results.\<close>

definition serial_batch :: "tool_call list \<Rightarrow> action list \<Rightarrow> bool" where
  "serial_batch cs as \<longleftrightarrow> (\<exists>bs rest. list_all2 call_block cs bs \<and> list_all quiet rest \<and> as = concat bs @ rest)"

definition parallel_batch :: "tool_call list \<Rightarrow> action list \<Rightarrow> bool" where
  "parallel_batch cs as \<longleftrightarrow>
     (\<exists>es bs rest. list_all (\<lambda>a. \<exists>c \<in> set cs. a = Execute (c_id c) (c_name c)) es \<and>
        list_all2 result_block cs bs \<and> list_all quiet rest \<and>
        as = map (Log \<circ> ToolCall) cs @ es @ concat bs @ rest)"

lemma add_insights_frame:
  "core (add_insights (ins, r)) = core r \<and> rn_messages (add_insights (ins, r)) = rn_messages r @ map user_text ins \<and>
   quietly r (add_insights (ins, r))"
  by (auto simp: add_insights_def quietly_def quiet_def)

lemma execute_frame:
  assumes "rn_ctx r = no_ctx"
  shows "core (execute_tools W cs r) = core r"
    and "\<exists>rs ins. rn_messages (execute_tools W cs r) = rn_messages r @ rs @ map user_text ins \<and> answers cs rs"
    and "\<exists>as. rn_trace (execute_tools W cs r) = rn_trace r @ as \<and>
          (serial_batch cs as \<or> parallel_batch cs as \<and> 1 < length cs \<and> list_all (\<lambda>c. w_safe W (c_name c)) cs)"
proof -
  let ?r' = "execute_tools W cs r"
  have "core ?r' = core r \<and> (\<exists>rs ins. rn_messages ?r' = rn_messages r @ rs @ map user_text ins \<and> answers cs rs) \<and>
    (\<exists>as. rn_trace ?r' = rn_trace r @ as \<and>
          (serial_batch cs as \<or> parallel_batch cs as \<and> 1 < length cs \<and> list_all (\<lambda>c. w_safe W (c_name c)) cs))"
  proof (cases "1 < length cs \<and> list_all (\<lambda>c. w_safe W (c_name c)) cs")
    case False
    obtain ins r1 where 1: "serial_calls W cs r = (ins, r1)" by fastforce
    have e: "?r' = add_insights (ins, r1)" by (simp only: execute_tools_def if_not_P [OF False] execute_serial_tools_def 1)
    obtain rs bs where f: "core r1 = core r" "rn_messages r1 = rn_messages r @ rs" "answers cs rs"
      "list_all2 call_block cs bs" "rn_trace r1 = rn_trace r @ concat bs"
      using serial_calls_frame [OF 1 assms] by blast
    obtain rest where "rn_trace ?r' = rn_trace r1 @ rest" "list_all quiet rest"
      using add_insights_frame [of ins r1] by (auto simp: e quietly_def)
    then have "rn_trace ?r' = rn_trace r @ (concat bs @ rest) \<and> serial_batch cs (concat bs @ rest)"
      using f(4,5) by (auto simp: serial_batch_def)
    then show ?thesis using add_insights_frame [of ins r1] f(1-3) e by (metis append.assoc)
  next
    case True
    obtain outs r1 where 1: "dispatch_all W cs (emit (map (Log \<circ> ToolCall) cs) r) = (outs, r1)" by fastforce
    obtain ins r2 where 2: "collect_all W outs r1 = (ins, r2)" by fastforce
    have e: "?r' = add_insights (ins, r2)" using True by (simp add: execute_tools_def execute_parallel_tools_def 1 2)
    obtain es where f1: "core r1 = core r" "rn_messages r1 = rn_messages r" "map fst outs = cs"
      "rn_trace r1 = rn_trace r @ map (Log \<circ> ToolCall) cs @ es" "list_all (\<lambda>a. \<exists>c \<in> set cs. a = Execute (c_id c) (c_name c)) es"
      using dispatch_all_frame [OF 1] by auto
    obtain rs bs where f2: "core r2 = core r1" "rn_messages r2 = rn_messages r1 @ rs" "answers cs rs"
      "list_all2 result_block cs bs" "rn_trace r2 = rn_trace r1 @ concat bs"
      using collect_all_frame [OF 2] f1(3) by auto
    obtain rest where "rn_trace ?r' = rn_trace r2 @ rest" "list_all quiet rest"
      using add_insights_frame [of ins r2] by (auto simp: e quietly_def)
    then have "rn_trace ?r' = rn_trace r @ (map (Log \<circ> ToolCall) cs @ es @ concat bs @ rest) \<and>
        parallel_batch cs (map (Log \<circ> ToolCall) cs @ es @ concat bs @ rest)"
      using f1(4,5) f2(4,5) by (auto simp: parallel_batch_def)
    then show ?thesis using True add_insights_frame [of ins r2] f1(1,2) f2(1-3) e by (metis append.assoc)
  qed
  then show "core (execute_tools W cs r) = core r"
    "\<exists>rs ins. rn_messages (execute_tools W cs r) = rn_messages r @ rs @ map user_text ins \<and> answers cs rs"
    "\<exists>as. rn_trace (execute_tools W cs r) = rn_trace r @ as \<and>
          (serial_batch cs as \<or> parallel_batch cs as \<and> 1 < length cs \<and> list_all (\<lambda>c. w_safe W (c_name c)) cs)"
    by blast+
qed

section \<open>The loop keeps its books and ends\<close>

lemma open_calls_logged: "open_calls P (map (Log \<circ> ToolCall) cs) = P @ cs"
  by (induction cs arbitrary: P) auto

lemma ahead_logged: "ahead P (map (Log \<circ> ToolCall) cs)"
  by (induction cs arbitrary: P) auto

lemma executions_ahead:
  "list_all (\<lambda>a. \<exists>c \<in> set cs. a = Execute (c_id c) (c_name c)) es \<Longrightarrow> ahead cs es \<and> open_calls cs es = cs"
  by (induction es) auto

lemma results_close:
  "list_all2 result_block cs bs \<Longrightarrow>
   ahead P (concat bs) \<and> open_calls P (concat bs) = filter (\<lambda>c. c_id c \<notin> c_id ` set cs) P"
proof (induction cs bs arbitrary: P rule: list_all2_induct)
  case (Cons c cs b bs)
  then obtain t e rest where b: "b = Log (ToolResult (c_id c) (c_name c) t e) # rest" "list_all quiet rest"
    by (auto simp: result_block_def)
  show ?case
    using Cons.IH [of "filter (\<lambda>x. c_id x \<noteq> c_id c) P"] quiet_trace [OF b(2)]
    by (simp add: b ahead_append open_calls_append)
qed simp

lemma serial_settles: assumes "serial_batch cs as" shows "ahead [] as \<and> open_calls [] as = []"
proof -
  have "list_all2 call_block cs bs \<Longrightarrow> ahead [] (concat bs) \<and> open_calls [] (concat bs) = []" for bs
    by (induction cs bs rule: list_all2_induct) (auto simp: ahead_append open_calls_append dest: call_block_settles)
  then show ?thesis using assms by (auto simp: serial_batch_def ahead_append open_calls_append dest: quiet_trace)
qed

lemma parallel_settles: assumes "parallel_batch cs as" shows "ahead [] as \<and> open_calls [] as = []"
proof -
  obtain es bs rest where b: "list_all (\<lambda>a. \<exists>c \<in> set cs. a = Execute (c_id c) (c_name c)) es"
    "list_all2 result_block cs bs" "list_all quiet rest" "as = map (Log \<circ> ToolCall) cs @ es @ concat bs @ rest"
    using assms by (auto simp: parallel_batch_def)
  have "filter (\<lambda>c. c_id c \<notin> c_id ` set cs) cs = []" by (simp add: filter_empty_conv)
  then show ?thesis
    using executions_ahead [OF b(1)] results_close [OF b(2), of cs] quiet_trace [OF b(3)]
    by (simp add: b(4) ahead_append open_calls_append open_calls_logged ahead_logged del: map_map)
qed

text \<open>A trace is a sequence of such batches and of quiet actions.\<close>

definition segment :: "world \<Rightarrow> action list \<Rightarrow> bool" where
  "segment W s \<longleftrightarrow> list_all quiet s \<or> (\<exists>c. call_block c s) \<or>
     (\<exists>cs. parallel_batch cs s \<and> list_all (\<lambda>c. w_safe W (c_name c)) cs)"

definition settled :: "world \<Rightarrow> runner \<Rightarrow> bool" where
  "settled W r \<longleftrightarrow> (\<exists>ss. rn_trace r = concat ss \<and> list_all (segment W) ss)"

lemma segment_settles: "segment W s \<Longrightarrow> ahead [] s \<and> open_calls [] s = []"
  by (auto simp: segment_def dest: quiet_trace call_block_settles parallel_settles)

lemma segments_settle: "list_all (segment W) ss \<Longrightarrow> ahead [] (concat ss) \<and> open_calls [] (concat ss) = []"
  by (induction ss) (auto simp: ahead_append open_calls_append dest: segment_settles)

lemma settled_ahead: "settled W r \<Longrightarrow> ahead [] (rn_trace r) \<and> open_calls [] (rn_trace r) = []"
  using segments_settle by (auto simp: settled_def)

lemma settled_append: "settled W r \<Longrightarrow> rn_trace r' = rn_trace r @ concat ss \<Longrightarrow> list_all (segment W) ss \<Longrightarrow> settled W r'"
  unfolding settled_def by (metis concat_append list_all_append)

lemma settled_quietly: "settled W r \<Longrightarrow> quietly r r' \<Longrightarrow> settled W r'"
  by (auto simp: quietly_def segment_def intro: settled_append [where ss = "[_]"])

lemma settled_same: "settled W r \<Longrightarrow> rn_trace r' = rn_trace r \<Longrightarrow> settled W r'"
  by (simp add: settled_def)

lemma settled_execute:
  assumes "rn_ctx r = no_ctx" "settled W r" shows "settled W (execute_tools W cs r)"
proof -
  obtain as where e: "rn_trace (execute_tools W cs r) = rn_trace r @ as"
    and as: "serial_batch cs as \<or> parallel_batch cs as \<and> list_all (\<lambda>c. w_safe W (c_name c)) cs"
    using execute_frame(3) [OF assms(1)] by blast
  show ?thesis
  proof (cases "serial_batch cs as")
    case True
    then obtain bs rest where b: "list_all2 call_block cs bs" "list_all quiet rest" "as = concat (bs @ [rest])"
      by (auto simp: serial_batch_def)
    have "list_all (segment W) bs" using b(1) by (induction cs bs rule: list_all2_induct) (auto simp: segment_def)
    then show ?thesis using b(2,3) e settled_append [OF assms(2), of _ "bs @ [rest]"] by (simp add: segment_def)
  next
    case False
    then have "segment W as" using as by (auto simp: segment_def)
    then show ?thesis using e settled_append [OF assms(2), of _ "[as]"] by simp
  qed
qed

lemma review_frame:
  "review_rounds W rv n ms draft r = (t, r') \<Longrightarrow> core r' = core r \<and> rn_messages r' = rn_messages r \<and> quietly r r'"
proof (induction n arbitrary: ms draft r)
  case (Suc n)
  obtain a ms1 r1 where 1: "ai_call W (ascii ''before_finalize_review'') rv False [user_text (review_prompt (sp_user (w_spec W)) draft)] r = (a, ms1, r1)"
    by (rule prod_cases3)
  note f1 = ai_call_frame [OF 1]
  let ?fb = "case a of AnswerText t \<Rightarrow> t | _ \<Rightarrow> []"
  let ?ms = "ms @ [answer_text draft, user_text (revise_prompt ?fb)]"
  obtain b ms2 r2 where 2: "ai_call W (ascii ''before_finalize_regeneration'') (sp_prompt (w_spec W)) False ?ms r1 = (b, ms2, r2)"
    by (rule prod_cases3)
  note f2 = ai_call_frame [OF 2]
  have "(t, r') = (draft, r1) \<or> (t, r') = (draft, r2) \<or> review_rounds W rv n ?ms (case b of AnswerText t \<Rightarrow> t | _ \<Rightarrow> draft) r2 = (t, r')"
    using Suc.prems by (simp add: 1 2 Let_def split: if_splits)
  then show ?case using f1 f2 Suc.IH quietly_trans by fastforce
qed (auto simp: quietly_def)

lemma stream_once_frame: "stream_once W ret r = (a, r') \<Longrightarrow> core r' = core r \<and> quietly r r'"
  by (auto simp: stream_once_def Let_def quietly_def quiet_def emit_def)

lemma stream_frame: "core (stream_final W r) = core r \<and> quietly r (stream_final W r)"
proof -
  obtain a r1 where 1: "stream_once W [] r = (a, r1)" by fastforce
  obtain ms s where 2: "compact_conversation (sp_prompt (w_spec W)) 6 (build_reinject W r1) (rn_messages r1) (rn_compactor r1) = (ms, s)" by fastforce
  obtain b r2 where 3: "stream_once W (w_rid W (rn_asked r)) (r1\<lparr>rn_messages := ms, rn_compactor := s\<rparr>) = (b, r2)" by fastforce
  have "quietly r1 r2" using stream_once_frame [OF 3] by (simp add: quietly_def)
  then have "quietly r r2" using stream_once_frame [OF 1] quietly_trans by blast
  moreover have "stream_final W r \<in> {r, r1, r2}" by (simp add: stream_final_def 1 2 3 split: answer.split)
  ultimately show ?thesis using stream_once_frame [OF 1] stream_once_frame [OF 3] quietly_refl [of r r] by auto
qed

lemma finalize_frame: "core (finalize_reply W r) = core r \<and> quietly r (finalize_reply W r)"
proof (cases "w_reviewer W")
  case None
  then show ?thesis by (simp add: finalize_reply_def stream_frame)
next
  case (Some p)
  obtain rv k where p: "p = (rv, k)" by fastforce
  obtain a ms r1 where 1: "ai_call W (ascii ''final_draft'') (sp_prompt (w_spec W)) True (rn_messages r) r = (a, ms, r1)" by (rule prod_cases3)
  note f1 = ai_call_frame [OF 1]
  obtain t r2 where 2: "before_finalize_hook W rv k ms (case a of AnswerText t \<Rightarrow> t | _ \<Rightarrow> []) r1 = (t, r2)" by fastforce
  note f2 = review_frame [OF 2 [unfolded before_finalize_hook_def]]
  have q: "quietly r (r2\<lparr>rn_text := t\<rparr>)" using f1 f2 quietly_trans [of r r1 r2] by (simp add: quietly_def)
  have s: "quietly r (stream_final W r1)" using f1 stream_frame [of W r1] quietly_trans by blast
  have "finalize_reply W r = (if rv = [] then stream_final W r else if \<not> answered a then stream_final W r1 else r2\<lparr>rn_text := t\<rparr>)"
    by (simp add: finalize_reply_def Some p 1 2)
  then show ?thesis using q s f1 f2 stream_frame [of W r] stream_frame [of W r1] by auto
qed

lemma core_turn: "core (poll_signals W r) = core r" "core (maybe_inject W r) = core r" "core (compact_turn W r) = core r"
  by (auto simp: poll_signals_def maybe_inject_def compact_turn_def Let_def split: option.splits prod.splits)

lemma trace_turn: "rn_trace (poll_signals W r) = rn_trace r" "rn_trace (maybe_inject W r) = rn_trace r"
  "rn_trace (compact_turn W r) = rn_trace r"
  by (auto simp: poll_signals_def maybe_inject_def compact_turn_def Let_def split: option.splits prod.splits)

lemma on_text_frame: "on_text W t r = (b, r') \<Longrightarrow> core r' = core r \<and> quietly r r'"
  using finalize_frame [of W "r\<lparr>rn_history := [], rn_text := t\<rparr>"]
  by (auto simp: on_text_def Let_def quietly_def quiet_def split: if_splits)

lemma on_calls_frame:
  assumes "on_calls W m r = (b, r')" "rn_ctx r = no_ctx" "settled W r"
  shows "core r' = core r \<and> settled W r'"
proof (cases "doomed (rn_history r @ [same_batch (m_calls m)])")
  case True
  then show ?thesis using assms by (auto simp: on_calls_def Let_def intro: settled_same)
next
  case False
  let ?r1 = "snap (say m (r\<lparr>rn_history := rn_history r @ [same_batch (m_calls m)]\<rparr>))"
  have c: "core ?r1 = core r" by simp
  then have "rn_ctx ?r1 = no_ctx" using assms(2) by (simp add: core_def)
  have "quietly r ?r1" by (simp add: quietly_def quiet_def)
  then have "settled W ?r1" by (rule settled_quietly [OF assms(3)])
  moreover note \<open>rn_ctx ?r1 = no_ctx\<close>
  ultimately have e: "core (execute_tools W (m_calls m) ?r1) = core r" "settled W (execute_tools W (m_calls m) ?r1)"
    using execute_frame(1) c settled_execute by auto
  show ?thesis
    using assms(1) False e by (auto simp: on_calls_def Let_def core_turn trace_turn intro: settled_same)
qed

lemma iteration_frame:
  assumes "iteration W r = (b, r')" "rn_ctx r = no_ctx" "settled W r"
  shows "rn_ctx r' = no_ctx \<and> rn_max r' = rn_max r \<and> rn_iter r' = Suc (rn_iter r) \<and> settled W r'"
proof -
  obtain tools suffix where o: "offered W (r\<lparr>rn_iter := rn_iter r + 1\<rparr>) = (tools, suffix)" by fastforce
  let ?r2 = "r\<lparr>rn_iter := rn_iter r + 1, rn_ctx := no_ctx, rn_offered := rn_offered r @ [tools]\<rparr>"
  obtain a ms r3 where 1: "ai_call W (ascii ''tool_loop_iteration'') (sp_prompt (w_spec W) @ suffix) True (rn_messages ?r2) ?r2 = (a, ms, r3)"
    by (rule prod_cases3)
  let ?r3 = "r3\<lparr>rn_messages := ms\<rparr>"
  have "quietly r ?r3" using ai_call_frame [OF 1] by (simp add: quietly_def)
  then have s: "settled W ?r3" using assms(3) settled_quietly by blast
  have c: "rn_ctx ?r3 = no_ctx" "core ?r3 = (no_ctx, rn_max r, Suc (rn_iter r))"
    using ai_call_frame [OF 1] by (simp_all add: core_def)
  have "core r' = core ?r3 \<and> settled W r'"
  proof -
    have it: "iteration W r = (case a of AnswerText t \<Rightarrow> on_text W t ?r3 | AnswerCalls m \<Rightarrow> on_calls W m ?r3
        | AnswerOther t \<Rightarrow> (False, finalize_reply W ?r3) | AnswerFails _ e \<Rightarrow> (False, ?r3\<lparr>rn_error := Some e\<rparr>)
        | AnswerOverflow e \<Rightarrow> (False, ?r3\<lparr>rn_error := Some e\<rparr>))"
      using o 1 assms(2) by (simp add: iteration_def Let_def no_ctx_def)
    show ?thesis
    proof (cases a)
      case (AnswerText t)
      then have "on_text W t ?r3 = (b, r')" using it assms(1) by simp
      from on_text_frame [OF this] show ?thesis using settled_quietly [OF s] by simp
    next
      case (AnswerCalls m)
      then have "on_calls W m ?r3 = (b, r')" using it assms(1) by simp
      from on_calls_frame [OF this c(1) s] show ?thesis .
    next
      case (AnswerOther t)
      then have "r' = finalize_reply W ?r3" using it assms(1) by simp
      then show ?thesis using finalize_frame [of W ?r3] settled_quietly [OF s] by simp
    qed (use it assms(1) s in \<open>auto intro: settled_same\<close>)
  qed
  then show ?thesis using c by (auto simp: core_def)
qed

lemma tool_loop_ends:
  "rn_ctx r = no_ctx \<Longrightarrow> settled W r \<Longrightarrow> rn_max r \<le> rn_iter r + n \<Longrightarrow>
   \<exists>r'. tool_loop W n r = Some r' \<and> rn_max r' = rn_max r \<and> rn_iter r' \<le> max (rn_iter r) (rn_max r) \<and> rn_ctx r' = no_ctx \<and> settled W r'"
proof (induction n arbitrary: r)
  case (Suc n)
  show ?case
  proof (cases "rn_iter r < rn_max r")
    case True
    obtain b r1 where 1: "iteration W r = (b, r1)" by fastforce
    have f: "rn_ctx r1 = no_ctx" "rn_max r1 = rn_max r" "rn_iter r1 = Suc (rn_iter r)" "settled W r1"
      using iteration_frame [OF 1 Suc.prems(1,2)] by auto
    show ?thesis
    proof (cases b)
      case True
      have "rn_max r1 \<le> rn_iter r1 + n" using Suc.prems(3) f by simp
      from Suc.IH [OF f(1,4) this] show ?thesis using \<open>rn_iter r < rn_max r\<close> True 1 f by auto
    next
      case False
      then show ?thesis using \<open>rn_iter r < rn_max r\<close> 1 f by auto
    qed
  qed (use Suc.prems in auto)
qed auto

lemma start_frame: "core (start_run W user r) = core r \<and> quietly r (start_run W user r)"
  by (auto simp: start_run_def quietly_def quiet_def split: option.splits)

lemma pre_frame: "core (pre_compaction W r) = core r \<and> rn_trace (pre_compaction W r) = rn_trace r"
  by (auto simp: pre_compaction_def Let_def split: prod.splits)

lemma cleanup_frame: "core (cleanup W r) = core r \<and> quietly r (cleanup W r) \<and> last (rn_trace (cleanup W r)) = Mark Completed"
  by (auto simp: cleanup_def Let_def quietly_def quiet_def)

lemma execute_ends:
  "\<exists>r'. execute W bound bound user ms s = Some r' \<and> rn_iter r' \<le> bound \<and> rn_max r' = bound \<and> rn_ctx r' = no_ctx \<and>
     settled W r' \<and> last (rn_trace r') = Mark Completed"
proof -
  let ?r = "pre_compaction W (start_run W user (fresh_runner bound ms s))"
  have "core ?r = (no_ctx, bound, 0)" by (simp add: pre_frame start_frame) (simp add: core_def fresh_runner_def)
  then have c: "rn_ctx ?r = no_ctx" "rn_max ?r = bound" "rn_iter ?r = 0" by (simp_all add: core_def)
  have "settled W (fresh_runner bound ms s)" by (auto simp: settled_def fresh_runner_def intro!: exI [of _ "[]"])
  then have "settled W (start_run W user (fresh_runner bound ms s))" using start_frame settled_quietly by blast
  then have st: "settled W ?r" by (rule settled_same) (simp add: pre_frame)
  have fin: "rn_iter (cleanup W x) = rn_iter x \<and> rn_max (cleanup W x) = rn_max x \<and> rn_ctx (cleanup W x) = rn_ctx x \<and>
      settled W (cleanup W x) \<and> last (rn_trace (cleanup W x)) = Mark Completed" if "settled W x" for x
    using cleanup_frame [of W x] settled_quietly [OF that] by (auto simp: core_def)
  show ?thesis
  proof (cases "w_schemas W = []")
    case True
    have "settled W (finalize_reply W ?r)" using finalize_frame [of W ?r] settled_quietly [OF st] by simp
    moreover have "core (finalize_reply W ?r) = core ?r" using finalize_frame [of W ?r] by simp
    ultimately show ?thesis using True c fin by (simp add: execute_def core_def)
  next
    case False
    obtain r1 where r1: "tool_loop W bound ?r = Some r1" "rn_max r1 = bound" "rn_iter r1 \<le> bound" "rn_ctx r1 = no_ctx" "settled W r1"
      using tool_loop_ends [OF c(1) st, of bound] c by auto
    let ?x = "if rn_text r1 = [] then r1\<lparr>rn_text := unfinished_text\<rparr> else r1"
    have "settled W ?x" "rn_iter ?x = rn_iter r1" "rn_max ?x = rn_max r1" "rn_ctx ?x = rn_ctx r1" using r1(5) settled_same [OF r1(5)] by simp_all
    then show ?thesis using False r1 fin [of ?x] by (simp add: execute_def run_tool_loop_def)
  qed
qed


text \<open>
  C26. Write-ahead: in the trace of a run every execution of a tool is preceded by the \<open>tool_call\<close> event of
  an unanswered call with that id and name, and every logged call is answered by the end.
\<close>

theorem calls_are_logged_first:
  "\<exists>r. execute W bound bound user ms s = Some r \<and> ahead [] (rn_trace r) \<and> open_calls [] (rn_trace r) = []"
  using execute_ends settled_ahead by blast

lemma paired_results:
  "answers cs rs \<Longrightarrow> set cs \<subseteq> set ds \<Longrightarrow> paired (map c_id ds) (rs @ map user_text ins)"
proof (induction rs arbitrary: cs)
  case Nil
  have "paired calls (map user_text ins)" for calls
    by (induction ins arbitrary: calls) (simp_all add: user_text_def)
  then show ?case by simp
next
  case (Cons m rs)
  then obtain c cs' shown where "cs = c # cs'" "m = result_msg c shown" "answers cs' rs"
    by (auto simp: answers_def list_all2_Cons2)
  then show ?case using Cons.IH [of cs'] Cons.prems(2) by (auto simp: result_msg_def)
qed

lemma paired_extend: "paired calls ms \<Longrightarrow> m_role m = Assistant \<Longrightarrow> paired (map c_id (m_calls m)) ys \<Longrightarrow> paired calls (ms @ m # ys)"
  by (induction ms arbitrary: calls) auto

text \<open>
  C27. However a batch of calls is executed, the results that follow an answer are exactly the answers to
  its calls, in order, so the conversation stays one that a provider accepts.
\<close>

theorem every_call_is_answered:
  assumes "rn_ctx r = no_ctx" "paired [] (rn_messages r)" "m_role m = Assistant"
  shows "paired [] (rn_messages (execute_tools W (m_calls m) (say m r))) \<and>
    (\<exists>rs ins. rn_messages (execute_tools W (m_calls m) (say m r)) = rn_messages r @ [m] @ rs @ map user_text ins \<and>
       map m_call rs = map (Some \<circ> c_id) (m_calls m) \<and> list_all (\<lambda>x. m_role x = ToolRole) rs)"
proof -
  have "rn_ctx (say m r) = no_ctx" using assms(1) by (simp add: say_def)
  from execute_frame(2) [OF this, of W "m_calls m"] obtain rs ins where
    e: "rn_messages (execute_tools W (m_calls m) (say m r)) = rn_messages r @ [m] @ rs @ map user_text ins" "answers (m_calls m) rs"
    by auto
  have "map m_call rs = map (Some \<circ> c_id) cs \<and> list_all (\<lambda>x. m_role x = ToolRole) rs" if "answers cs rs" for cs
    using that by (induction rs arbitrary: cs) (auto simp: answers_def list_all2_Cons2 result_msg_def)
  then show ?thesis
    using e paired_extend [OF assms(2,3) paired_results [OF e(2) order.refl, of ins]] by auto
qed

section \<open>What skills ask for\<close>

lemma ran_steps [simp]: "rn_ran (emit as r) = rn_ran r" "rn_ran (say m r) = rn_ran r" "rn_ran (snap r) = rn_ran r"
  "rn_ran (record_call c t e r) = rn_ran r" "rn_ran (track_file n args r) = rn_ran r" "rn_ran (pin_skill c u r) = rn_ran r"
  by (simp_all add: emit_def say_def snap_def record_call_def track_file_def pin_skill_def split: option.splits)

lemma ran_ask: "ask_once W op ret r = (a, r') \<Longrightarrow> rn_ran r' = rn_ran r"
  by (auto simp: ask_once_def Let_def)

lemma ran_ai: "ai_call W op sys auto ms r = (a, ms', r') \<Longrightarrow> rn_ran r' = rn_ran r"
  by (auto simp: ai_call_def split: prod.splits answer.splits if_splits dest!: ran_ask)

lemma ran_fork: "fork_loop W skill [] n ms r = (t, r') \<Longrightarrow> rn_ran r' = rn_ran r"
  by (cases n) (auto split: prod.splits answer.splits dest: ran_ai)

lemma ran_handle: "handle_run_skill W t r = (t', r') \<Longrightarrow> rn_ctx r = no_ctx \<Longrightarrow> rn_ran r' = rn_ran r"
  by (auto simp: handle_run_skill_def no_ctx_def no_fork_def run_fork_skill_def Let_def split: if_splits prod.splits dest!: ran_fork)

lemma ran_deliver: "deliver W c t e r = (ins, r') \<Longrightarrow> rn_ran r' = rn_ran r"
  by (auto simp: deliver_def failure_insight_def Let_def split: prod.splits if_splits)

lemma ran_serial:
  assumes "serial_call W c r = (ins, r')" "rn_ctx r = no_ctx"
  shows "rn_ran r' = rn_ran r + (case validate_refs (w_refs W) (c_refs c) of Inl _ \<Rightarrow> 0 | Inr _ \<Rightarrow> 1)"
proof -
  obtain out copy r1 where d: "dispatch_tool W c (rn_ctx r) (emit [Log (ToolCall c)] r) = (out, copy, r1)" by (rule prod_cases3)
  let ?t = "check_and_attach (oc_result out)"
  let ?r2 = "track_file (c_name c) (c_args c) (emit [Log (ToolResult (c_id c) (c_name c) ?t (oc_error out))] r1)"
  have 2: "rn_ran ?r2 = rn_ran r + (case validate_refs (w_refs W) (c_refs c) of Inl _ \<Rightarrow> 0 | Inr _ \<Rightarrow> 1)"
    using d by (auto simp: dispatch_tool_def Let_def split: sum.splits)
  have c: "core ?r2 = core r" using dispatch_frame(1) [OF d] by simp
  then have "rn_ctx ?r2 = no_ctx" using assms(2) by (simp add: core_def)
  moreover obtain u r3 where h: "handle_run_skill W ?t ?r2 = (u, r3)" by fastforce
  ultimately have 3: "rn_ran r3 = rn_ran ?r2" using ran_handle by blast
  have "serial_call W c r =
      (case (if c_name c = ascii ''run_skill'' then (u, pin_skill c u r3) else (?t, ?r2)) of
         (t', x) \<Rightarrow> deliver W c (if c_name c = ascii ''write_file'' \<and> is_prefix draft_mark t' then draft_notice (drop (length draft_mark) t') else t')
                     (oc_error out) x)"
    by (simp only: serial_call_def d h Let_def prod.case)
  from this [symmetric] assms(1) have "(case (if c_name c = ascii ''run_skill'' then (u, pin_skill c u r3) else (?t, ?r2)) of
         (t', x) \<Rightarrow> deliver W c (if c_name c = ascii ''write_file'' \<and> is_prefix draft_mark t' then draft_notice (drop (length draft_mark) t') else t')
                     (oc_error out) x) = (ins, r')" by (rule trans)
  from case_if_pick [OF this] show ?thesis using 2 3 ran_deliver by fastforce
qed

text \<open>
  What a skill declares has no effect on the run that loads it: \<open>run_skill\<close> leaves its settings in the
  copy of the context that its execution was given, and the loop looks for them in the original. The bound
  on iterations and the tools offered next stay what they were, no request to learn is added, and a skill
  that asks to be forked executes none of its tools.
\<close>

theorem skill_settings_are_lost:
  assumes "rn_ctx r = no_ctx" "c_name c = ascii ''run_skill''" "validate_refs (w_refs W) (c_refs c) = Inr refs"
    and "w_outcome W (rn_ran r) = \<lparr>oc_result = fst (run_skill e args (rn_ctx r)), oc_error = False, oc_writes = (\<lambda>x. snd (run_skill e args x))\<rparr>"
    and "serial_call W c r = (ins, r')"
  shows "rn_max r' = rn_max r \<and> fst (offered W r') = fst (completion_deadline (w_schemas W) (rn_max r - rn_iter r + 1) (w_need_pr W) (rn_signalled r')) \<and>
    (\<exists>shown. rn_messages r' = rn_messages r @ [result_msg c shown]) \<and> rn_ran r' = rn_ran r + 1"
  using serial_frame [OF assms(5,1)] ran_serial [OF assms(5,1)] assms(1,3)
  by (auto simp: core_def offered_def no_ctx_def)

section \<open>Signals that were refused\<close>

lemma find_sub_head: "find_sub (95 # s) (x # t) = Some (a, b) \<Longrightarrow> x \<noteq> 95 \<Longrightarrow> \<exists>a'. a = x # a'"
  by (auto split: if_splits)

lemma attach_head:
  assumes "x \<noteq> 95" shows "\<exists>t'. check_and_attach (x # t) = x # t'"
proof (cases "find_sub shot_mark (x # t)")
  case None
  then show ?thesis by (simp add: check_and_attach.simps)
next
  case (Some p)
  obtain a b where p: "p = (a, b)" by fastforce
  have "\<exists>a'. a = x # a'" using find_sub_head [of "tl shot_mark" x t a b] Some p assms by (simp add: shot_mark_def ascii_def)
  then show ?thesis using Some p by (auto simp: check_and_attach.simps [of "x # t"] Let_def)
qed

lemma truncated_head:
  assumes "x \<noteq> 91" shows "\<exists>t'. fst (truncate_tool_result n (Text (x # t)) m d f) = Text t' \<and> \<not> looks_failed t'"
proof -
  have "\<not> looks_failed (take h (x # t) @ 10 # z)" for h z using assms by (cases h) (simp_all add: looks_failed_def ascii_def)
  moreover have "\<not> looks_failed (x # t)" using assms by (simp add: looks_failed_def ascii_def)
  ultimately show ?thesis by (auto simp: truncate_tool_result_def clipped_def Let_def)
qed

lemma records_steps: "rn_records (track_file n a x) = rn_records x" "rn_records (say k x) = rn_records x"
  "rn_records (snap x) = rn_records x" "rn_records (emit as x) = rn_records x"
  by (simp_all add: track_file_def say_def snap_def emit_def split: option.splits)

lemma deliver_result:
  assumes "deliver W c t e r = (ins, r')"
  shows "\<exists>f. rn_messages r' = rn_messages r @ [result_msg c (fst (truncate_tool_result (c_name c) (Text t) (Some (w_model W)) 20000 f))] \<and>
    rn_records r' = rn_records r @ [\<lparr>tr_name = c_name c,
      tr_result = fst (truncate_tool_result (c_name c) (Text t) (Some (w_model W)) 20000 f), tr_error = e, tr_attempt = c_id c\<rparr>]"
proof -
  let ?s = "fst (truncate_tool_result (c_name c) (Text t) (Some (w_model W)) 20000 (w_fresh W (length (rn_trace r))))"
  obtain i r2 where i: "failure_insight W (c_name c) ?s (record_call c ?s True r) = (i, r2)" by fastforce
  have "rn_records r2 = rn_records (record_call c ?s True r)"
    using i by (auto simp: failure_insight_def Let_def split: if_splits)
  then have "rn_records r' = rn_records (record_call c ?s e r) \<and> rn_messages r' = rn_messages r @ [result_msg c ?s]"
    using assms insight_frame(2) [OF i] by (cases e) (auto simp: deliver_def Let_def i records_steps)
  then show ?thesis by (auto simp: record_call_def intro!: exI [of _ "w_fresh W (length (rn_trace r))"])
qed

lemma find_only: "(\<And>x. x \<in> set ms \<Longrightarrow> \<not> P x) \<Longrightarrow> P m \<Longrightarrow> find P (ms @ m # ys) = Some m"
  by (induction ms) auto

text \<open>
  A completion signal that the dispatcher refused still counts. A call of \<open>signal_stage_done\<close> that cites
  a memory it was not given is an error and executes nothing, but its result does not look like one to
  \<open>extract_completion_signals\<close>, so the orchestrator is told that the stage is done.
\<close>

theorem refused_signal_counts:
  assumes "rn_ctx r = no_ctx" "signal_tool (c_name c)" "c_id c \<noteq> []" "validate_refs (w_refs W) (c_refs c) = Inl e"
    and "\<And>m. m \<in> set (rn_messages r) \<Longrightarrow> m_call m \<noteq> Some (c_id c)" "m_role m = Assistant" "m_calls m = [c]" "m_call m = None"
    and "r' = execute_tools W [c] (say m r)"
  shows "rn_ran r' = rn_ran r \<and> (\<exists>shown. rn_records r' = rn_records r @ [\<lparr>tr_name = c_name c, tr_result = shown, tr_error = True, tr_attempt = c_id c\<rparr>]) \<and>
    \<lparr>so_name = c_name c, so_args = c_args c\<rparr> \<in> set (run_signals r')"
proof -
  have n: "c_name c \<noteq> ascii ''run_skill''" "c_name c \<noteq> ascii ''write_file''"
    using assms(2) by (auto simp: signal_tool_def ascii_def)
  let ?t = "check_and_attach (ascii ''Memory reference validation failed: '' @ e)"
  let ?r2 = "track_file (c_name c) (c_args c) (emit [Log (ToolResult (c_id c) (c_name c) ?t True)] (emit [Log (ToolCall c)] (say m r)))"
  obtain ins r3 where d: "deliver W c ?t True ?r2 = (ins, r3)" by fastforce
  have "serial_call W c (say m r) = (ins, r3)"
    using n d by (simp add: serial_call_def dispatch_tool_def assms(4) refused_def Let_def)
  then have r': "r' = add_insights (ins, r3)"
    by (simp add: assms(9) execute_tools_def execute_serial_tools_def)
  obtain y ys where y: "?t = y # ys" "y \<noteq> 91" using attach_head [of 77 "ascii ''emory reference validation failed: '' @ e"] by (auto simp: ascii_def)
  obtain shown where s: "rn_messages r3 = rn_messages r @ [m, result_msg c (Text shown)]" "\<not> looks_failed shown"
    "rn_records r3 = rn_records r @ [\<lparr>tr_name = c_name c, tr_result = Text shown, tr_error = True, tr_attempt = c_id c\<rparr>]"
  proof -
    obtain f where f: "rn_messages r3 = rn_messages ?r2 @ [result_msg c (fst (truncate_tool_result (c_name c) (Text ?t) (Some (w_model W)) 20000 f))]"
      "rn_records r3 = rn_records ?r2 @ [\<lparr>tr_name = c_name c,
         tr_result = fst (truncate_tool_result (c_name c) (Text ?t) (Some (w_model W)) 20000 f), tr_error = True, tr_attempt = c_id c\<rparr>]"
      using deliver_result [OF d] by blast
    obtain t' where t': "fst (truncate_tool_result (c_name c) (Text ?t) (Some (w_model W)) 20000 f) = Text t'" "\<not> looks_failed t'"
      using truncated_head [OF y(2)] y(1) by metis
    show thesis by (rule that [of t']) (simp_all add: f t' records_steps)
  qed
  have ms: "rn_messages r' = rn_messages r @ m # result_msg c (Text shown) # map user_text ins"
    using s(1) add_insights_frame [of ins r3] r' by simp
  have "find (\<lambda>x. m_role x = ToolRole \<and> m_call x = Some (c_id c)) (rn_messages r') = Some (result_msg c (Text shown))"
  proof -
    have no: "\<not> (m_role x = ToolRole \<and> m_call x = Some (c_id c))" if "x \<in> set (rn_messages r @ [m])" for x
      using assms(5,8) that by auto
    from find_only [of "rn_messages r @ [m]" "\<lambda>x. m_role x = ToolRole \<and> m_call x = Some (c_id c)"
        "result_msg c (Text shown)" "map user_text ins", OF no]
    show ?thesis by (simp add: ms result_msg_def)
  qed
  then have "signal_of_call (rn_messages r') c = [\<lparr>so_name = c_name c, so_args = c_args c\<rparr>]"
    using assms(2) s(2) by (simp add: signal_of_call_def result_msg_def)
  then have "\<lparr>so_name = c_name c, so_args = c_args c\<rparr> \<in> set (run_signals r')"
    using assms(6,7) by (auto simp: run_signals_def extract_signals_def ms)
  moreover have "rn_ran r' = rn_ran r" "rn_records r' = rn_records r3"
    using ran_deliver [OF d] by (simp_all add: r' add_insights_def snap_def emit_def)
  ultimately show ?thesis using s(3) by auto
qed

section \<open>Bounds of the parts\<close>

lemma last_iterations_only_finish:
  "need_pr \<Longrightarrow> \<not> seen \<Longrightarrow> n \<le> 3 \<Longrightarrow> set (fst (completion_deadline schemas n need_pr seen)) \<subseteq> set completion_tools"
  by (auto simp: completion_deadline_def)

lemma repeats_are_not_executed:
  "\<lbrakk>rn_history r = h @ [same_batch (m_calls m), same_batch (m_calls m)]; on_calls W m r = (b, r')\<rbrakk> \<Longrightarrow>
   \<not> b \<and> rn_text r' = doom_text \<and> rn_trace r' = rn_trace r"
  by (auto simp: on_calls_def doomed_def Let_def)

text \<open>The review of a draft asks at most twice for each round that is left.\<close>

lemma asked_once: "ai_call W op sys False ms r = (a, ms', r') \<Longrightarrow> rn_asked r' = rn_asked r + 1"
  by (auto simp: ai_call_def ask_once_def Let_def emit_def split: answer.splits)

lemma review_asks: "review_rounds W rv n ms draft r = (t, r') \<Longrightarrow> rn_asked r' \<le> rn_asked r + 2 * n"
proof (induction n arbitrary: ms draft r)
  case (Suc n)
  obtain a ms1 r1 where 1: "ai_call W (ascii ''before_finalize_review'') rv False [user_text (review_prompt (sp_user (w_spec W)) draft)] r = (a, ms1, r1)"
    by (rule prod_cases3)
  let ?fb = "case a of AnswerText t \<Rightarrow> t | _ \<Rightarrow> []"
  let ?ms = "ms @ [answer_text draft, user_text (revise_prompt ?fb)]"
  obtain b ms2 r2 where 2: "ai_call W (ascii ''before_finalize_regeneration'') (sp_prompt (w_spec W)) False ?ms r1 = (b, ms2, r2)"
    by (rule prod_cases3)
  have "(t, r') = (draft, r1) \<or> (t, r') = (draft, r2) \<or> review_rounds W rv n ?ms (case b of AnswerText t \<Rightarrow> t | _ \<Rightarrow> draft) r2 = (t, r')"
    using Suc.prems by (simp add: 1 2 Let_def split: if_splits)
  then show ?case using asked_once [OF 1] asked_once [OF 2] Suc.IH by fastforce
qed simp

lemma drop_group_paired: "paired [] ms \<Longrightarrow> paired [] (drop_group ms)"
proof (induction ms rule: drop_group.induct)
  case (2 m ms)
  have "paired calls (dropWhile (\<lambda>x. m_role x \<noteq> User) ms)" if "paired calls' ms" for calls calls'
    using that by (induction ms arbitrary: calls') (auto split: if_splits)
  then show ?case using 2 by (auto split: if_splits)
qed simp

lemma drop_group_shrinks: "\<exists>m \<in> set ms. m_role m \<noteq> SystemRole \<Longrightarrow> length (drop_group ms) < length ms"
  by (induction ms rule: drop_group.induct) (auto simp: less_Suc_eq_le length_dropWhile_le)

section \<open>Runs on concrete inputs\<close>

definition demo_call :: "utext \<Rightarrow> raw_refs \<Rightarrow> tool_call" where
  "demo_call n refs = \<lparr>c_id = ascii ''c1'', c_name = n, c_args = [], c_refs = refs\<rparr>"

definition demo_answer :: "tool_call \<Rightarrow> msg" where
  "demo_answer c = (answer_text [])\<lparr>m_calls := [c]\<rparr>"

definition demo_skill :: skill_entry where
  "demo_skill = \<lparr>se_name = ascii ''k'', se_content = ascii ''body'', se_max = 50, se_learns = True, se_forks = True,
     se_allowed = [ascii ''run_shell'']\<rparr>"

definition demo_world :: world where
  "demo_world =
     \<lparr>w_spec = demo_spec, w_model = ''deepseek-chat'', w_depth = 0, w_schemas = [ascii ''run_shell'', ascii ''run_skill''], w_refs = [],
      w_need_signal = False, w_need_pr = False, w_reviewer = None,
      w_answer = (\<lambda>k. AnswerText (ascii ''ok'')), w_usage = (\<lambda>k. no_usage), w_rid = (\<lambda>k. [k]), w_stream = (\<lambda>k. []),
      w_outcome = (\<lambda>k. \<lparr>oc_result = fst (run_skill demo_skill [] no_ctx), oc_error = False, oc_writes = (\<lambda>x. snd (run_skill demo_skill [] x))\<rparr>),
      w_safe = (\<lambda>n. False), w_redact = id, w_insight = (\<lambda>n t. t), w_corrective = (\<lambda>n t. None),
      w_steer = (\<lambda>k. []), w_rewake = (\<lambda>k. []), w_prefix = (\<lambda>k. []), w_read = (\<lambda>p. None), w_fresh = (\<lambda>k. [k]), w_upper = id,
      w_est = length\<rparr>"

definition demo_runner :: runner where
  "demo_runner = fresh_runner 5 [user_text (ascii ''hi'')] silent_model"

lemma demo_runner_facts: "rn_ctx demo_runner = no_ctx" "rn_messages demo_runner = [user_text (ascii ''hi'')]" "rn_ran demo_runner = 0"
  "rn_max demo_runner = 5"
  by (simp_all add: demo_runner_def fresh_runner_def)

theorem every_call_is_answered_witness:
  "paired [] (rn_messages (execute_tools demo_world [demo_call (ascii ''run_shell'') NoRefs]
     (say (demo_answer (demo_call (ascii ''run_shell'') NoRefs)) demo_runner)))"
proof -
  have "paired [] (rn_messages demo_runner)" by (simp add: demo_runner_facts user_text_def)
  moreover have "m_role (demo_answer c) = Assistant" "m_calls (demo_answer c) = [c]" for c
    by (simp_all add: demo_answer_def answer_text_def)
  ultimately show ?thesis
    using every_call_is_answered [OF demo_runner_facts(1), of "demo_answer (demo_call (ascii ''run_shell'') NoRefs)" demo_world] by simp
qed

theorem skill_settings_are_lost_witness:
  "rn_max (snd (serial_call demo_world (demo_call (ascii ''run_skill'') NoRefs) demo_runner)) = 5 \<and>
   rn_ran (snd (serial_call demo_world (demo_call (ascii ''run_skill'') NoRefs) demo_runner)) = 1 \<and> se_max demo_skill = 50"
proof -
  let ?c = "demo_call (ascii ''run_skill'') NoRefs"
  obtain ins r' where s: "serial_call demo_world ?c demo_runner = (ins, r')" by fastforce
  have "w_outcome demo_world (rn_ran demo_runner) = \<lparr>oc_result = fst (run_skill demo_skill [] (rn_ctx demo_runner)), oc_error = False,
      oc_writes = (\<lambda>x. snd (run_skill demo_skill [] x))\<rparr>"
    by (simp add: demo_world_def demo_runner_facts)
  moreover have "validate_refs (w_refs demo_world) (c_refs ?c) = Inr []" by (simp add: validate_refs_def demo_call_def)
  moreover have "c_name ?c = ascii ''run_skill''" by (simp add: demo_call_def)
  ultimately have "rn_max r' = rn_max demo_runner \<and> rn_ran r' = rn_ran demo_runner + 1"
    using skill_settings_are_lost [OF demo_runner_facts(1) _ _ _ s] by blast
  then show ?thesis by (simp add: s demo_runner_facts demo_skill_def)
qed

theorem refused_signal_counts_witness:
  "\<lparr>so_name = ascii ''signal_stage_done'', so_args = []\<rparr> \<in> set (run_signals
     (execute_tools demo_world [demo_call (ascii ''signal_stage_done'') (RefList [ascii ''m''])]
       (say (demo_answer (demo_call (ascii ''signal_stage_done'') (RefList [ascii ''m'']))) demo_runner)))"
proof -
  let ?c = "demo_call (ascii ''signal_stage_done'') (RefList [ascii ''m''])"
  obtain e where e: "validate_refs (w_refs demo_world) (c_refs ?c) = Inl e"
    by (simp add: validate_refs_def demo_call_def demo_world_def)
  have "m_call m \<noteq> Some (c_id ?c)" if "m \<in> set (rn_messages demo_runner)" for m
    using that by (simp add: demo_runner_facts user_text_def)
  moreover have "signal_tool (c_name ?c)" "c_id ?c \<noteq> []" "m_role (demo_answer ?c) = Assistant" "m_calls (demo_answer ?c) = [?c]"
    "m_call (demo_answer ?c) = None"
    by (simp_all add: demo_call_def signal_tool_def ascii_def demo_answer_def answer_text_def)
  ultimately have "\<lparr>so_name = c_name ?c, so_args = c_args ?c\<rparr> \<in> set (run_signals (execute_tools demo_world [?c] (say (demo_answer ?c) demo_runner)))"
    using refused_signal_counts [OF demo_runner_facts(1) _ _ e _ _ _ _ refl] by blast
  then show ?thesis by (simp add: demo_call_def)
qed

end
