(* ===== verification/Recovery.thy ===== *)
theory Recovery
  imports ToolLoop
begin

text \<open>
  What becomes of a run that a crash cuts off, \<^verbatim>\<open>sessions/recovery.py\<close>: the conversation is rebuilt from the
  event log of its session, and the run is resumed when its bot takes part in a workflow. A crash is a
  prefix of the trace of a run; what the store then holds is what the writes of that prefix left.
\<close>

section \<open>Rebuilding a conversation\<close>

definition IDEMPOTENT_TOOLS :: "utext list" where
  "IDEMPOTENT_TOOLS = map ascii [''read_file'', ''list_dir'', ''web_search'', ''think'', ''search'', ''code_intel'',
     ''get_memory'', ''list_files'', ''list_workspace'']"

fun split_commas :: "utext \<Rightarrow> utext list" where
  "split_commas [] = [[]]"
| "split_commas (c # s) = (if c = 44 then [] # split_commas s
     else (case split_commas s of [] \<Rightarrow> [[c]] | x # xs \<Rightarrow> (c # x) # xs))"

text \<open>\<open>env\<close> is the value of \<open>NUKE_IDEMPOTENT_TOOLS\<close>.\<close>

definition is_idempotent :: "utext option \<Rightarrow> utext \<Rightarrow> bool" where
  "is_idempotent env n \<longleftrightarrow>
     n \<in> set IDEMPOTENT_TOOLS \<or>
     (case env of None \<Rightarrow> False | Some v \<Rightarrow> v \<noteq> [] \<and> n \<in> u_strip ` {t \<in> set (split_commas v). u_strip t \<noteq> []})"

definition system_msg :: "utext \<Rightarrow> msg" where
  "system_msg t = \<lparr>m_role = SystemRole, m_content = Text t, m_name = None, m_call = None, m_calls = []\<rparr>"

definition message_of :: "event_body \<Rightarrow> msg list" where
  "message_of b =
     (case b of
        SessionStart t \<Rightarrow> [user_text t]
      | LlmResponse t cs \<Rightarrow> [(answer_text t)\<lparr>m_calls := cs\<rparr>]
      | ToolResult i n t e \<Rightarrow> [\<lparr>m_role = ToolRole, m_content = Text t, m_name = Some n, m_call = Some i, m_calls = []\<rparr>]
      | _ \<Rightarrow> [])"

definition reconstruct_messages :: "utext \<Rightarrow> event list \<Rightarrow> msg list" where
  "reconstruct_messages prompt es = system_msg prompt # concat (map (message_of \<circ> e_body) es)"

definition committed :: "event list \<Rightarrow> utext list" where
  "committed es = concat (map (\<lambda>e. case e_body e of ToolResult i n t err \<Rightarrow> [i] | _ \<Rightarrow> []) es)"

definition dangling :: "event list \<Rightarrow> (nat \<times> tool_call) list" where
  "dangling es =
     concat (map (\<lambda>e. case e_body e of ToolCall c \<Rightarrow> if c_id c \<in> set (committed es) then [] else [(e_id e, c)] | _ \<Rightarrow> []) es)"

text \<open>
  The events to go on from. Only the first dangling call is looked at: unless it is idempotent the session
  needs a review, and otherwise everything from it on is rolled back.
\<close>

definition roll_back :: "(utext \<Rightarrow> bool) \<Rightarrow> event list \<Rightarrow> event list option" where
  "roll_back idem es =
     (case dangling es of
        [] \<Rightarrow> Some es
      | (i, c) # _ \<Rightarrow> if idem (c_name c) then Some (filter (\<lambda>e. e_id e < i) es) else None)"

section \<open>Recovery\<close>

record payload =
  p_session :: utext
  p_bot :: int
  p_group :: int
  p_prompt :: utext
  p_user :: utext
  p_messages :: "msg list"
  p_parent :: "utext option"
  p_executor :: utext

definition payload_of :: "session \<Rightarrow> msg list \<Rightarrow> payload" where
  "payload_of s ms =
     \<lparr>p_session = ss_id s, p_bot = ss_bot s, p_group = ss_group s, p_prompt = ss_prompt s, p_user = ss_user s,
      p_messages = ms, p_parent = ss_parent s, p_executor = ss_executor s\<rparr>"

text \<open>\<open>part g b\<close>: bot \<open>b\<close> takes part in the present stage of the workflow of \<open>g\<close> (False when that raises).\<close>

definition recover_session ::
  "(int \<Rightarrow> int \<Rightarrow> bool) \<Rightarrow> (utext \<Rightarrow> bool) \<Rightarrow> int \<Rightarrow> session \<Rightarrow> store \<times> payload list \<Rightarrow> store \<times> payload list" where
  "recover_session part idem now s p =
     (case p of (st, sent) \<Rightarrow>
        if part (ss_group s) (ss_bot s) then
          (case roll_back idem (get_events (ss_id s) st) of
             None \<Rightarrow> (update_session_status now (ss_id s) NeedsReview st, sent)
           | Some es \<Rightarrow>
               (update_session_status now (ss_id s) Recovering st,
                sent @ [payload_of s (reconstruct_messages (ss_prompt s) es)]))
        else (update_session_status now (ss_id s) Failed st, sent))"

definition recover_all ::
  "(int \<Rightarrow> int \<Rightarrow> bool) \<Rightarrow> (utext \<Rightarrow> bool) \<Rightarrow> int \<Rightarrow> int option \<Rightarrow> store \<Rightarrow> store \<times> payload list" where
  "recover_all part idem now g st = fold (recover_session part idem now) (get_orphaned_sessions g st) (st, [])"

text \<open>
  \<open>_recover_one\<close>, which nothing calls any more: it prefers a snapshot to the log and asks the group
  before it goes on.
\<close>

definition recover_one :: "(utext \<Rightarrow> bool) \<Rightarrow> int \<Rightarrow> session \<Rightarrow> store \<Rightarrow> store \<times> bool" where
  "recover_one idem now s st =
     (if ss_snapshot s = None \<and> roll_back idem (get_events (ss_id s) st) = None
      then (update_session_status now (ss_id s) NeedsReview st, False)
      else (update_session_status now (ss_id s) AwaitingRecovery st, True))"

definition resume_session :: "int \<Rightarrow> utext \<Rightarrow> store \<Rightarrow> bool \<times> store \<times> payload list" where
  "resume_session now sid st =
     (case get_session sid st of
        None \<Rightarrow> (False, st, [])
      | Some s \<Rightarrow>
          if ss_status s \<noteq> AwaitingRecovery then (False, st, [])
          else (True, update_session_status now sid Recovering st,
                [payload_of s (case ss_snapshot s of
                    Some ms \<Rightarrow> ms | None \<Rightarrow> reconstruct_messages (ss_prompt s) (get_events sid st))]))"

definition cancel_recovery :: "int \<Rightarrow> utext \<Rightarrow> store \<Rightarrow> store" where
  "cancel_recovery now sid st = update_session_status now sid Failed st"

text \<open>
  \<open>_dispatch_recovery\<close>: \<open>run\<close> is the executor, which returns the text of the run or raises (None) and
  leaves a store. The second component is the call of \<open>check_and_advance\<close>, if it is reached.
\<close>

definition dispatch_recovery ::
  "(int \<Rightarrow> int \<Rightarrow> bool) \<Rightarrow> (int \<Rightarrow> bool) \<Rightarrow> (payload \<Rightarrow> store \<Rightarrow> utext option \<times> store) \<Rightarrow> int \<Rightarrow> payload \<Rightarrow> store \<Rightarrow>
   store \<times> (int \<times> utext \<times> int) option" where
  "dispatch_recovery part known run now p st =
     (if \<not> known (p_bot p) then (update_session_status now (p_session p) Failed st, None)
      else (case run p st of
              (None, st1) \<Rightarrow> (update_session_status now (p_session p) Failed st1, None)
            | (Some t, st1) \<Rightarrow>
                (st1, if t \<noteq> [] \<and> (p_parent p = None \<or> p_parent p = Some []) \<and> part (p_group p) (p_bot p)
                      then Some (p_group p, t, p_bot p) else None)))"

section \<open>What a crash leaves\<close>

text \<open>The writes of a trace on the store of its group. A write that raises ends the run.\<close>

definition perform :: "(utext \<Rightarrow> utext) \<Rightarrow> utext \<Rightarrow> int \<Rightarrow> action \<Rightarrow> store \<Rightarrow> store_error + store" where
  "perform low sid now a st =
     (case a of
        Begin p \<Rightarrow> create_session now p st
      | Log b \<Rightarrow> append_event low now sid b [] st
      | Mark s \<Rightarrow> Inr (update_session_status now sid s st)
      | Snap ms \<Rightarrow> Inr (save_snapshot now sid ms st)
      | Execute _ _ \<Rightarrow> Inr st
      | Post _ \<Rightarrow> Inr st)"

fun perform_all :: "(utext \<Rightarrow> utext) \<Rightarrow> utext \<Rightarrow> int \<Rightarrow> action list \<Rightarrow> store \<Rightarrow> store_error + store" where
  "perform_all low sid now [] st = Inr st"
| "perform_all low sid now (a # as) st =
     (case perform low sid now a st of Inl e \<Rightarrow> Inl e | Inr st' \<Rightarrow> perform_all low sid now as st')"

definition logged :: "action list \<Rightarrow> event_body list" where
  "logged as = concat (map (\<lambda>a. case a of Log b \<Rightarrow> [b] | _ \<Rightarrow> []) as)"

definition no_status :: "event_body \<Rightarrow> bool" where
  "no_status b = (case b of SessionStatus _ _ \<Rightarrow> False | _ \<Rightarrow> True)"

definition bodies :: "utext \<Rightarrow> store \<Rightarrow> event_body list" where
  "bodies sid st = filter no_status (map e_body (filter (\<lambda>e. e_session e = sid) (events st)))"

lemma bodies_same: "events st' = events st \<Longrightarrow> bodies sid st' = bodies sid st"
  by (simp add: bodies_def)

lemma status_events:
  "events (update_session_status now sid new st) = events st \<or>
   (\<exists>e. events (update_session_status now sid new st) = events st @ [e] \<and> \<not> no_status (e_body e))"
proof (cases "row_by ss_id sid (sessions st)")
  case (Some s)
  then show ?thesis
    by (cases "ss_status s = new") (simp_all add: update_session_status_def Let_def log_event_def no_status_def)
qed (simp add: update_session_status_def)

lemma perform_bodies:
  assumes "perform low sid now a st = Inr st'"
  shows "bodies sid st' = bodies sid st @ filter no_status (logged [a])"
proof (cases a)
  case (Begin p)
  then have c: "create_session now p st = Inr st'" using assms by (simp add: perform_def)
  have "events st' = events st"
    using c by (cases "row_by ss_id (sp_id p) (sessions st)") (auto simp: create_session_def)
  from bodies_same [OF this] show ?thesis using Begin by (simp add: logged_def)
next
  case (Log b)
  then have ap: "append_event low now sid b [] st = Inr st'" using assms by (simp add: perform_def)
  obtain st1 where p: "project_model_usage low now (next_event st) sid b (log_event sid b [] st) = Inr st1" and st': "st' = touch now sid st1"
    using ap by (cases "project_model_usage low now (next_event st) sid b (log_event sid b [] st)")
      (auto simp: append_event_def split: option.splits)
  have "events st' = events (log_event sid b [] st)" using projected_view [OF p] by (simp add: st' touch_def)
  then show ?thesis using Log by (simp add: bodies_def logged_def log_event_def)
next
  case (Mark s)
  then have "st' = update_session_status now sid s st" using assms by (simp add: perform_def)
  then have "bodies sid st' = bodies sid st" using status_events [of now sid s st] by (auto simp: bodies_def)
  then show ?thesis using Mark by (simp add: logged_def)
qed (use assms in \<open>auto simp: perform_def save_snapshot_def bodies_def logged_def\<close>)

lemma perform_all_bodies:
  "perform_all low sid now as st = Inr st' \<Longrightarrow> bodies sid st' = bodies sid st @ filter no_status (logged as)"
proof (induction as arbitrary: st)
  case (Cons a as)
  then obtain st1 where "perform low sid now a st = Inr st1" "perform_all low sid now as st1 = Inr st'" by (auto split: sum.splits)
  then show ?case using Cons.IH [of st1] perform_bodies [of low sid now a st st1] by (simp add: logged_def)
qed (simp add: logged_def)

section \<open>What a crash can interrupt\<close>

definition calls_of :: "action list \<Rightarrow> tool_call list" where
  "calls_of as = concat (map (\<lambda>a. case a of Log (ToolCall c) \<Rightarrow> [c] | _ \<Rightarrow> []) as)"

definition results_of :: "action list \<Rightarrow> utext list" where
  "results_of as = concat (map (\<lambda>a. case a of Log (ToolResult i n t e) \<Rightarrow> [i] | _ \<Rightarrow> []) as)"

lemma of_simps [simp]: "calls_of [] = []" "results_of [] = []"
  "calls_of (as @ bs) = calls_of as @ calls_of bs" "results_of (as @ bs) = results_of as @ results_of bs"
  by (simp_all add: calls_of_def results_of_def)

lemma of_Log: "calls_of (Log b # as) = (case b of ToolCall c \<Rightarrow> [c] | _ \<Rightarrow> []) @ calls_of as"
  "results_of (Log b # as) = (case b of ToolResult i n t e \<Rightarrow> [i] | _ \<Rightarrow> []) @ results_of as"
  "calls_of (Execute i n # as) = calls_of as" "results_of (Execute i n # as) = results_of as"
  "calls_of (Snap ms # as) = calls_of as" "results_of (Snap ms # as) = results_of as"
  "calls_of (Mark s # as) = calls_of as" "results_of (Mark s # as) = results_of as"
  "calls_of (Post t # as) = calls_of as" "results_of (Post t # as) = results_of as"
  "calls_of (Begin p # as) = calls_of as" "results_of (Begin p # as) = results_of as"
  by (simp_all add: calls_of_def results_of_def split: event_body.splits)

lemma open_calls_sub: "set (open_calls P as) \<subseteq> set P \<union> set (calls_of as)"
  by (induction P as rule: open_calls.induct) (auto simp: of_Log split: event_body.splits)

lemma open_calls_length: "length (open_calls P as) \<le> length P + length (calls_of as)"
proof (induction P as rule: open_calls.induct)
  case (2 P b as)
  have "length (filter (\<lambda>c. c_id c \<noteq> i) P) \<le> length P" for i by simp
  with 2 show ?case by (auto simp: of_Log split: event_body.splits intro: order.trans)
qed (simp_all add: of_Log)

lemma open_calls_keep: "c \<in> set P \<Longrightarrow> c_id c \<notin> set (results_of as) \<Longrightarrow> c \<in> set (open_calls P as)"
  by (induction P as rule: open_calls.induct) (auto simp: of_Log split: event_body.splits)

lemma unanswered_open: "c \<in> set (calls_of as) \<Longrightarrow> c_id c \<notin> set (results_of as) \<Longrightarrow> c \<in> set (open_calls P as)"
  by (induction P as rule: open_calls.induct) (auto simp: of_Log split: event_body.splits intro: open_calls_keep)

lemma executed_open:
  "Execute i n \<in> set as \<Longrightarrow> ahead P as \<Longrightarrow> i \<notin> set (results_of as) \<Longrightarrow> \<exists>c \<in> set (open_calls P as). c_id c = i \<and> c_name c = n"
proof (induction P as rule: ahead.induct)
  case (2 P j m as)
  show ?case
  proof (cases "Execute i n \<in> set as")
    case True
    then show ?thesis using 2 by (simp add: of_Log)
  next
    case False
    then obtain c where "c \<in> set P" "c_id c = i" "c_name c = n" using "2.prems" by auto
    then show ?thesis using "2.prems"(3) open_calls_keep [of c P as] by (auto simp: of_Log)
  qed
qed (auto simp: of_Log split: event_body.splits)

lemma take_concat:
  "list_all Q ss \<Longrightarrow> Q [] \<Longrightarrow> \<exists>ss1 s m. take k (concat ss) = concat ss1 @ take m s \<and> list_all Q ss1 \<and> Q s"
proof (induction ss arbitrary: k)
  case (Cons s ss)
  show ?case
  proof (cases "k \<le> length s")
    case True
    then show ?thesis using Cons.prems by (intro exI [of _ "[]"] exI [of _ s] exI [of _ k]) simp
  next
    case False
    have "\<exists>ss1 s1 m. take (k - length s) (concat ss) = concat ss1 @ take m s1 \<and> list_all Q ss1 \<and> Q s1"
      using Cons.prems by (intro Cons.IH) simp_all
    then obtain ss1 s1 m where "take (k - length s) (concat ss) = concat ss1 @ take m s1" "list_all Q ss1" "Q s1" by blast
    then show ?thesis using False Cons.prems
      by (intro exI [of _ "s # ss1"] exI [of _ s1] exI [of _ m]) simp
  qed
qed (auto intro!: exI [of _ "[]"])

lemma quiet_calls: "list_all quiet as \<Longrightarrow> calls_of as = []"
  by (induction as) (auto simp: quiet_def calls_of_def split: action.splits event_body.splits)

lemma block_calls: "call_block c s \<Longrightarrow> calls_of s = [c]"
  by (auto simp: call_block_def of_Log quiet_calls)

lemma batch_calls: assumes "parallel_batch cs s" shows "calls_of s = cs"
proof -
  have l: "calls_of (map (Log \<circ> ToolCall) cs) = cs" by (induction cs) (auto simp: of_Log)
  have e: "list_all (\<lambda>a. \<exists>c \<in> set cs. a = Execute (c_id c) (c_name c)) es \<Longrightarrow> calls_of es = []" for es
    by (induction es) (auto simp: of_Log)
  have b: "list_all2 result_block cs bs \<Longrightarrow> calls_of (concat bs) = []" for bs
    by (induction cs bs rule: list_all2_induct) (auto simp: result_block_def of_Log quiet_calls)
  show ?thesis using assms l e b by (auto simp: parallel_batch_def quiet_calls simp del: map_map)
qed

text \<open>When a run is cut off, at most one call is open, or every open call belongs to a parallel batch.\<close>

lemma interrupted:
  assumes "settled W r"
  shows "length (open_calls [] (take k (rn_trace r))) \<le> 1 \<or> list_all (\<lambda>c. w_safe W (c_name c)) (open_calls [] (take k (rn_trace r)))"
proof -
  obtain ss where ss: "rn_trace r = concat ss" "list_all (segment W) ss" using assms by (auto simp: settled_def)
  have "segment W []" by (simp add: segment_def)
  from take_concat [OF ss(2) this, of k] obtain ss1 s m where
    t: "take k (rn_trace r) = concat ss1 @ take m s" "list_all (segment W) ss1" "segment W s"
    unfolding ss(1) by blast
  have o: "open_calls [] (take k (rn_trace r)) = open_calls [] (take m s)"
    using segments_settle [OF t(2)] by (simp add: t(1) open_calls_append)
  have pre: "calls_of s = calls_of (take m s) @ calls_of (drop m s)" by (metis append_take_drop_id of_simps(3))
  have len: "length (open_calls [] (take m s)) \<le> length (calls_of s)"
    using open_calls_length [of "[]" "take m s"] pre by simp
  have sub: "set (open_calls [] (take m s)) \<subseteq> set (calls_of s)"
    using open_calls_sub [of "[]" "take m s"] pre by auto
  from t(3) consider "list_all quiet s" | c where "call_block c s"
    | cs where "parallel_batch cs s" "list_all (\<lambda>c. w_safe W (c_name c)) cs" by (auto simp: segment_def)
  then show ?thesis
  proof cases
    case 1
    then show ?thesis using len quiet_calls [OF 1] by (simp add: o)
  next
    case 2
    then show ?thesis using len block_calls [OF 2] by (simp add: o)
  next
    case 3
    then show ?thesis using sub batch_calls [OF 3(1)] by (auto simp: o list_all_iff)
  qed
qed

lemma ahead_take: "ahead P as \<Longrightarrow> ahead P (take k as)"
  by (metis ahead_append append_take_drop_id)

text \<open>What the log of the session says of a trace.\<close>

definition call_bodies :: "event_body list \<Rightarrow> tool_call list" where
  "call_bodies bs = concat (map (\<lambda>b. case b of ToolCall c \<Rightarrow> [c] | _ \<Rightarrow> []) bs)"

definition result_bodies :: "event_body list \<Rightarrow> utext list" where
  "result_bodies bs = concat (map (\<lambda>b. case b of ToolResult i n t e \<Rightarrow> [i] | _ \<Rightarrow> []) bs)"

lemma logged_calls: "call_bodies (filter no_status (logged as)) = calls_of as"
  by (induction as) (auto simp: call_bodies_def logged_def calls_of_def no_status_def split: action.splits event_body.splits)

lemma logged_results: "result_bodies (filter no_status (logged as)) = results_of as"
  by (induction as) (auto simp: result_bodies_def logged_def results_of_def no_status_def split: action.splits event_body.splits)

lemma committed_set: "set (committed es) = set (result_bodies (filter no_status (map e_body es)))"
  by (induction es) (auto simp: committed_def result_bodies_def no_status_def split: event_body.splits)

lemma dangling_set:
  "snd ` set (dangling es) = {c \<in> set (call_bodies (filter no_status (map e_body es))). c_id c \<notin> set (committed es)}"
proof -
  have "snd ` set (concat (map (\<lambda>e. case e_body e of ToolCall c \<Rightarrow> if c_id c \<in> K then [] else [(e_id e, c)] | _ \<Rightarrow> []) es))
      = {c \<in> set (call_bodies (filter no_status (map e_body es))). c_id c \<notin> K}" for K
  proof (induction es)
    case (Cons a es)
    have "set (call_bodies (filter no_status (map e_body (a # es)))) =
        (case e_body a of ToolCall c \<Rightarrow> {c} | _ \<Rightarrow> {}) \<union> set (call_bodies (filter no_status (map e_body es)))"
      by (cases "e_body a") (simp_all add: call_bodies_def no_status_def)
    moreover have "set (concat (map f (a # es))) = set (f a) \<union> set (concat (map f es))" for f :: "event \<Rightarrow> (nat \<times> tool_call) list"
      by simp
    ultimately show ?case using Cons by (cases "e_body a") (auto simp: image_Un)
  qed (simp add: call_bodies_def)
  then show ?thesis by (simp add: dangling_def)
qed

lemma get_events_set:
  "sid \<in> ss_id ` set (sessions st) \<Longrightarrow> set (get_events sid st) = {e \<in> set (events st). e_session e = sid}"
  by (simp add: get_events_def row_by_None_iff)

lemma get_events_bodies:
  assumes "sid \<in> ss_id ` set (sessions st)"
  shows "set (filter no_status (map e_body (get_events sid st))) = set (bodies sid st)"
  using get_events_set [OF assms] by (auto simp: bodies_def)

lemma bodies_sets:
  "set bs = set cs \<Longrightarrow> set (call_bodies bs) = set (call_bodies cs)" "set bs = set cs \<Longrightarrow> set (result_bodies bs) = set (result_bodies cs)"
  by (simp_all add: call_bodies_def result_bodies_def)

text \<open>A write that succeeded shows that the session exists, and no write deletes it.\<close>

lemma projected_ids: "project_model_usage low now ev sid b st = Inr st' \<Longrightarrow> ss_id ` set (sessions st') = ss_id ` set (sessions st)"
  using projected_view [of low now ev sid b st st'] by (metis statuses_ids)

lemma update_ids: "ss_id ` set (sessions (update_session_status now sid s st)) = ss_id ` set (sessions st)"
proof -
  have "ss_id ` set (update_where (\<lambda>x. ss_id x = sid) (\<lambda>x. x\<lparr>ss_status := s, ss_updated := now\<rparr>) (sessions st)) = ss_id ` set (sessions st)"
    by (rule keys_update_where) simp
  then show ?thesis
    by (cases "row_by ss_id sid (sessions st)") (simp_all add: update_session_status_def Let_def log_event_def)
qed

lemma append_ids:
  assumes "append_event low now sid b raw st = Inr st'"
  shows "ss_id ` set (sessions st') = ss_id ` set (sessions st) \<and> sid \<in> ss_id ` set (sessions st)"
proof -
  obtain ls st1 where p: "project_model_usage low now (next_event st) sid b (log_event sid b ls st) = Inr st1"
    and st': "st' = touch now sid st1" and s: "row_by ss_id sid (sessions st) \<noteq> None"
    using assms by (cases "project_model_usage low now (next_event st) sid b (log_event sid b (projr (normalize_links [] raw)) st)")
      (auto simp: append_event_def split: sum.splits option.splits)
  have "ss_id ` set (sessions st') = ss_id ` set (sessions st1)"
    unfolding st' touch_def by (simp add: keys_update_where)
  then show ?thesis using projected_ids [OF p] s by (simp add: row_by_None_iff)
qed

lemma perform_ids:
  assumes "perform low sid now a st = Inr st'"
  shows "ss_id ` set (sessions st) \<subseteq> ss_id ` set (sessions st')" "a = Log b \<Longrightarrow> sid \<in> ss_id ` set (sessions st')"
proof -
  show "ss_id ` set (sessions st) \<subseteq> ss_id ` set (sessions st')"
  proof (cases a)
    case (Begin p)
    then have "create_session now p st = Inr st'" using assms by (simp add: perform_def)
    then show ?thesis by (cases "row_by ss_id (sp_id p) (sessions st)") (auto simp: create_session_def)
  next
    case (Log b)
    then show ?thesis using assms append_ids [of low now sid b "[]" st st'] by (simp add: perform_def)
  next
    case (Mark s)
    then have "st' = update_session_status now sid s st" using assms by (simp add: perform_def)
    then show ?thesis using update_ids by simp
  next
    case (Snap ms)
    then have "st' = save_snapshot now sid ms st" using assms by (simp add: perform_def)
    then show ?thesis by (simp add: save_snapshot_def keys_update_where)
  qed (use assms in \<open>auto simp: perform_def\<close>)
  show "sid \<in> ss_id ` set (sessions st')" if "a = Log b"
    using assms that append_ids [of low now sid b "[]" st st'] by (simp add: perform_def)
qed

lemma perform_all_ids:
  "perform_all low sid now as st = Inr st' \<Longrightarrow>
   ss_id ` set (sessions st) \<subseteq> ss_id ` set (sessions st') \<and> (logged as \<noteq> [] \<longrightarrow> sid \<in> ss_id ` set (sessions st'))"
proof (induction as arbitrary: st)
  case (Cons a as)
  then obtain st1 where 1: "perform low sid now a st = Inr st1" and 2: "perform_all low sid now as st1 = Inr st'" by (auto split: sum.splits)
  show ?case using Cons.IH [OF 2] perform_ids [OF 1] by (cases a) (auto simp: logged_def)
qed (simp add: logged_def)

section \<open>What recovery keeps and what it loses\<close>

lemma dangling_head: "dangling es = (i, c) # ds \<Longrightarrow> c \<in> snd ` set (dangling es)"
  by simp

lemma crashed_log:
  assumes "execute W bound bound user ms s = Some r"
    and "perform_all low sid now (take k (rn_trace r)) (empty_store T) = Inr st" "logged (take k (rn_trace r)) \<noteq> []"
  shows "set (committed (get_events sid st)) = set (results_of (take k (rn_trace r)))"
    and "snd ` set (dangling (get_events sid st)) =
      {c \<in> set (calls_of (take k (rn_trace r))). c_id c \<notin> set (results_of (take k (rn_trace r)))}"
proof -
  let ?as = "take k (rn_trace r)"
  have sid: "sid \<in> ss_id ` set (sessions st)" using perform_all_ids [OF assms(2)] assms(3) by simp
  have b: "bodies sid st = filter no_status (logged ?as)"
    using perform_all_bodies [OF assms(2)] by (simp add: bodies_def empty_store_def)
  show c: "set (committed (get_events sid st)) = set (results_of ?as)"
    using bodies_sets(2) [OF get_events_bodies [OF sid]] by (simp add: committed_set b logged_results)
  show "snd ` set (dangling (get_events sid st)) = {c \<in> set (calls_of ?as). c_id c \<notin> set (results_of ?as)}"
    using bodies_sets(1) [OF get_events_bodies [OF sid]] by (simp add: dangling_set c b logged_calls)
qed


lemma dangling_append_head:
  assumes "dangling es1 = (i, c) # ds" "c_id c \<notin> set (committed es2)"
  shows "\<exists>ds'. dangling (es1 @ es2) = (i, c) # ds'"
proof -
  let ?f = "\<lambda>K e. case e_body e of ToolCall c \<Rightarrow> if c_id c \<in> K then [] else [(e_id e, c)] | _ \<Rightarrow> []"
  have sub: "concat (map (?f (K \<union> L)) es) = filter (\<lambda>p. c_id (snd p) \<notin> L) (concat (map (?f K) es))" for K L es
    by (induction es) (auto split: event_body.splits)
  have cm: "set (committed (es1 @ es2)) = set (committed es1) \<union> set (committed es2)" by (auto simp: committed_def)
  have "dangling (es1 @ es2) = concat (map (?f (set (committed es1) \<union> set (committed es2))) es1)
      @ concat (map (?f (set (committed es1) \<union> set (committed es2))) es2)"
    unfolding dangling_def cm by (simp only: map_append concat_append)
  also have "concat (map (?f (set (committed es1) \<union> set (committed es2))) es1)
      = filter (\<lambda>p. c_id (snd p) \<notin> set (committed es2)) (dangling es1)"
    by (simp only: sub dangling_def)
  finally show ?thesis using assms by simp
qed

text \<open>
  That holds for one crash only. A dangling call that recovery rolled back stays in the log, so at the
  next crash it is again the first one: recovery looks at no other, and goes on from before it. All that
  the session did since the first crash is forgotten, side effects and committed results included.
\<close>

theorem second_crash_forgets:
  assumes "dangling es1 = (i, c) # ds" "idem (c_name c)" "c_id c \<notin> set (committed es2)" "\<And>e. e \<in> set es2 \<Longrightarrow> i \<le> e_id e"
  shows "roll_back idem (es1 @ es2) = Some (filter (\<lambda>e. e_id e < i) es1)"
proof -
  have "filter (\<lambda>e. e_id e < i) es2 = []" using assms(4) by (auto simp: filter_empty_conv not_less)
  then show ?thesis using dangling_append_head [OF assms(1,3)] assms(2) by (auto simp: roll_back_def)
qed

lemma no_answers_paired: "list_all (\<lambda>m. m_role m \<noteq> Assistant) ms \<Longrightarrow> paired [] ms \<longleftrightarrow> list_all (\<lambda>m. m_role m \<noteq> ToolRole) ms"
  by (induction ms) (auto split: option.splits)

lemma segment_silent: assumes "segment W s" shows "LlmResponse t cs \<notin> set (logged s)"
proof -
  have q: "LlmResponse t cs \<notin> set (logged as)" if "list_all quiet as" for as
    using that by (induction as) (auto simp: logged_def quiet_def split: action.splits)
  have ap: "logged (as @ bs) = logged as @ logged bs" for as bs by (simp add: logged_def)
  have block: "LlmResponse t cs \<notin> set (logged b)" if "call_block c b" for c b
    using that q by (auto simp: call_block_def logged_def)
  have "LlmResponse t cs \<notin> set (logged as)" if b: "parallel_batch ds as" for ds as
  proof -
    obtain es bs rest where p: "list_all (\<lambda>a. \<exists>c \<in> set ds. a = Execute (c_id c) (c_name c)) es" "list_all2 result_block ds bs"
      "list_all quiet rest" "as = map (Log \<circ> ToolCall) ds @ es @ concat bs @ rest"
      using b by (auto simp: parallel_batch_def)
    have "LlmResponse t cs \<notin> set (logged (map (Log \<circ> ToolCall) ds))" by (auto simp: logged_def)
    moreover have "logged es = []" using p(1) by (induction es) (auto simp: logged_def)
    moreover have "LlmResponse t cs \<notin> set (logged (concat bs))"
      using p(2) by (induction ds bs rule: list_all2_induct) (use q in \<open>auto simp: result_block_def logged_def\<close>)
    ultimately show ?thesis using p(3,4) q by (simp add: ap)
  qed
  then show ?thesis using assms q block by (auto simp: segment_def)
qed

lemma run_silent: "settled W r \<Longrightarrow> LlmResponse t cs \<notin> set (logged (rn_trace r))"
proof -
  assume "settled W r"
  then obtain ss where ss: "rn_trace r = concat ss" "list_all (segment W) ss" by (auto simp: settled_def)
  have "list_all (segment W) ss \<Longrightarrow> LlmResponse t cs \<notin> set (logged (concat ss))" for ss
  proof (induction ss)
    case (Cons s ss)
    then show ?case using segment_silent [of W s t cs] by (simp add: logged_def)
  qed (simp add: logged_def)
  then show ?thesis using ss by simp
qed

text \<open>
  What a resumed session is given to go on from is no conversation. No run records the answers of the
  model, so the reconstruction has none, and as soon as it holds the result of a tool that result answers
  no call: a provider that checks the pairing of calls and results refuses it.
\<close>

theorem reconstruction_has_no_answers:
  assumes "execute W bound bound user ms s = Some r"
    and "perform_all low sid now (take k (rn_trace r)) (empty_store T) = Inr st" "roll_back idem (get_events sid st) = Some es"
  shows "list_all (\<lambda>m. m_role m \<noteq> Assistant) (reconstruct_messages prompt es) \<and>
    (committed es \<noteq> [] \<longrightarrow> \<not> paired [] (reconstruct_messages prompt es))"
proof -
  have sr: "settled W r" using execute_ends [of W bound user ms s] assms(1) by auto
  have es: "set es \<subseteq> set (get_events sid st)" using assms(3) by (auto simp: roll_back_def split: list.splits if_splits)
  have silent: "LlmResponse t cs \<notin> set (map e_body es)" for t cs
  proof
    assume "LlmResponse t cs \<in> set (map e_body es)"
    then obtain e where e: "e \<in> set (get_events sid st)" "e_body e = LlmResponse t cs" using es by auto
    then have "LlmResponse t cs \<in> set (bodies sid st)"
      by (force simp: bodies_def no_status_def get_events_def split: if_splits)
    moreover have "bodies sid st = filter no_status (logged (take k (rn_trace r)))"
      using perform_all_bodies [OF assms(2)] by (simp add: bodies_def empty_store_def)
    moreover have "set (logged (take k (rn_trace r))) \<subseteq> set (logged (rn_trace r))"
      by (auto simp: logged_def dest: in_set_takeD)
    ultimately show False using run_silent [OF sr] by auto
  qed
  have na: "list_all (\<lambda>m. m_role m \<noteq> Assistant) (concat (map (message_of \<circ> e_body) es'))"
    if "list_all (\<lambda>e. case e_body e of LlmResponse _ _ \<Rightarrow> False | _ \<Rightarrow> True) es'" for es'
    using that by (induction es') (auto simp: message_of_def user_text_def split: event_body.splits)
  have sl: "list_all (\<lambda>e. case e_body e of LlmResponse _ _ \<Rightarrow> False | _ \<Rightarrow> True) es"
    unfolding list_all_iff
  proof
    fix e assume "e \<in> set es"
    then show "case e_body e of LlmResponse _ _ \<Rightarrow> False | _ \<Rightarrow> True"
      using silent by (cases "e_body e") (auto, metis imageI)
  qed
  have tool: "\<not> list_all (\<lambda>m. m_role m \<noteq> ToolRole) (concat (map (message_of \<circ> e_body) es'))" if "committed es' \<noteq> []" for es'
    using that by (induction es') (auto simp: message_of_def committed_def split: event_body.splits)
  have all: "list_all (\<lambda>m. m_role m \<noteq> Assistant) (reconstruct_messages prompt es)"
    using na [OF sl] by (simp add: reconstruct_messages_def system_msg_def)
  moreover have "\<not> paired [] (reconstruct_messages prompt es)" if "committed es \<noteq> []"
    unfolding no_answers_paired [OF all] using tool [OF that] by (simp add: reconstruct_messages_def)
  ultimately show ?thesis by blast
qed

section \<open>Every orphan is settled once\<close>

lemma sessions_update:
  "sessions (update_session_status now sid new st) =
   update_where (\<lambda>s. ss_id s = sid) (\<lambda>s. s\<lparr>ss_status := new, ss_updated := now\<rparr>) (sessions st)"
  by (cases "row_by ss_id sid (sessions st)") (simp_all add: update_session_status_def Let_def log_event_def)

text \<open>The statuses that recovery gives to the sessions of a list, the rest being left alone.\<close>

definition given :: "session list \<Rightarrow> store \<Rightarrow> store \<Rightarrow> bool" where
  "given L st st' \<longleftrightarrow>
     ss_id ` set (sessions st') = ss_id ` set (sessions st) \<and>
     (\<forall>s' \<in> set (sessions st'). \<exists>s \<in> set (sessions st). ss_id s' = ss_id s \<and> ss_group s' = ss_group s \<and>
        (if ss_id s \<in> ss_id ` set L then ss_status s' \<in> {Failed, NeedsReview, Recovering} else s' = s))"

lemma given_Nil: "given [] st st"
  by (auto simp: given_def)

lemma given_update:
  assumes "new \<in> {Failed, NeedsReview, Recovering}" "given L (update_session_status now (ss_id s) new st) st'"
  shows "given (s # L) st st'"
proof -
  let ?st1 = "update_session_status now (ss_id s) new st"
  have one: "\<exists>y \<in> set (sessions st). ss_id x = ss_id y \<and> ss_group x = ss_group y \<and> (if ss_id y = ss_id s then ss_status x = new else x = y)"
    if "x \<in> set (sessions ?st1)" for x
    using update_where_mem [OF that [unfolded sessions_update]] by auto
  have "\<exists>y \<in> set (sessions st). ss_id s' = ss_id y \<and> ss_group s' = ss_group y \<and>
      (if ss_id y \<in> ss_id ` set (s # L) then ss_status s' \<in> {Failed, NeedsReview, Recovering} else s' = y)"
    if s': "s' \<in> set (sessions st')" for s'
  proof -
    obtain x where x: "x \<in> set (sessions ?st1)" "ss_id s' = ss_id x" "ss_group s' = ss_group x"
      "if ss_id x \<in> ss_id ` set L then ss_status s' \<in> {Failed, NeedsReview, Recovering} else s' = x"
      using assms(2) s' by (auto simp: given_def)
    obtain y where y: "y \<in> set (sessions st)" "ss_id x = ss_id y" "ss_group x = ss_group y"
      "if ss_id y = ss_id s then ss_status x = new else x = y"
      using one [OF x(1)] by blast
    show ?thesis using x y assms(1) by (intro bexI [of _ y]) (auto split: if_splits)
  qed
  then show ?thesis using assms(2) by (simp add: given_def update_ids)
qed

lemma recover_fold:
  "distinct (map ss_id L) \<Longrightarrow> ss_id ` set L \<subseteq> ss_id ` set (sessions st) \<Longrightarrow>
   fold (recover_session part idem now) L (st, sent) = (st', sent') \<Longrightarrow>
   given L st st' \<and>
   (\<exists>new. sent' = sent @ new \<and> distinct (map p_session new) \<and>
      (\<forall>q \<in> set new. \<exists>s \<in> set L. p_session q = ss_id s \<and> p_group q = ss_group s \<and> p_bot q = ss_bot s \<and> part (ss_group s) (ss_bot s) \<and>
         (\<exists>s' \<in> set (sessions st'). ss_id s' = ss_id s \<and> ss_status s' = Recovering)))"
proof (induction L arbitrary: st sent)
  case Nil
  then show ?case by (auto simp: given_Nil)
next
  case (Cons s L)
  obtain st1 sent1 where 1: "recover_session part idem now s (st, sent) = (st1, sent1)" by fastforce
  obtain new where n: "new \<in> {Failed, NeedsReview, Recovering}" "st1 = update_session_status now (ss_id s) new st"
    and snt: "sent1 = sent \<or> (\<exists>q. sent1 = sent @ [q] \<and> p_session q = ss_id s \<and> p_group q = ss_group s \<and> p_bot q = ss_bot s \<and>
        part (ss_group s) (ss_bot s) \<and> new = Recovering)"
    using 1 by (auto simp: recover_session_def payload_of_def split: if_splits option.splits)
  have f: "fold (recover_session part idem now) L (st1, sent1) = (st', sent')" using Cons.prems(3) by (simp add: 1)
  have ids: "ss_id ` set L \<subseteq> ss_id ` set (sessions st1)" "ss_id s \<in> ss_id ` set (sessions st1)"
    using Cons.prems(2) by (simp_all add: n(2) update_ids)
  obtain more where IH: "given L st1 st'" "sent' = sent1 @ more" "distinct (map p_session more)"
    "\<forall>q \<in> set more. \<exists>s \<in> set L. p_session q = ss_id s \<and> p_group q = ss_group s \<and> p_bot q = ss_bot s \<and> part (ss_group s) (ss_bot s) \<and>
         (\<exists>s' \<in> set (sessions st'). ss_id s' = ss_id s \<and> ss_status s' = Recovering)"
    using Cons.IH [OF _ ids(1) f] Cons.prems(1) by auto
  have g: "given (s # L) st st'" using given_update [OF n(1)] IH(1) n(2) by simp
  have kept: "\<exists>s' \<in> set (sessions st'). ss_id s' = ss_id s \<and> ss_status s' = new"
  proof -
    obtain x where "x \<in> set (sessions st')" "ss_id x = ss_id s"
      using IH(1) ids(2) unfolding given_def by (metis imageE)
    moreover obtain y where y: "y \<in> set (sessions st1)" "ss_id x = ss_id y" "if ss_id y \<in> ss_id ` set L then ss_status x \<in> {Failed, NeedsReview, Recovering} else x = y"
      using IH(1) calculation(1) unfolding given_def by blast
    moreover have "ss_id s \<notin> ss_id ` set L" using Cons.prems(1) by simp
    moreover have "ss_status y = new" if "ss_id y = ss_id s"
      using update_where_mem [OF y(1) [unfolded n(2) sessions_update]] that by auto
    ultimately show ?thesis by (metis (full_types))
  qed
  have later: "ss_id s \<notin> p_session ` set more" using IH(4) Cons.prems(1) by auto
  from snt show ?case
  proof
    assume "sent1 = sent"
    then show ?thesis using g IH(2-4) by (intro conjI exI [of _ more]) auto
  next
    assume "\<exists>q. sent1 = sent @ [q] \<and> p_session q = ss_id s \<and> p_group q = ss_group s \<and> p_bot q = ss_bot s \<and> part (ss_group s) (ss_bot s) \<and> new = Recovering"
    then obtain q where q: "sent1 = sent @ [q]" "p_session q = ss_id s" "p_group q = ss_group s" "p_bot q = ss_bot s" "part (ss_group s) (ss_bot s)" "new = Recovering" by blast
    have "distinct (map p_session (q # more))" using IH(3) later q(2) by auto
    moreover have "\<exists>s' \<in> set (sessions st'). ss_id s' = ss_id s \<and> ss_status s' = Recovering" using kept q(6) by blast
    ultimately show ?thesis using g IH(2,4) q by (intro conjI exI [of _ "q # more"]) auto
  qed
qed


section \<open>A prompt nobody sends\<close>

text \<open>
  The stores that the backend can reach: the writes of the backend, with the statuses that runs and the
  cancel endpoint give, recovery, and resumption.
\<close>

definition backend_op :: "store_op \<Rightarrow> bool" where
  "backend_op p = (case p of SetStatus _ s \<Rightarrow> s \<in> {Running, Completed, Failed} | _ \<Rightarrow> True)"

inductive reached :: "store \<Rightarrow> bool" where
  Fresh: "reached (empty_store T)"
| Writes: "reached st \<Longrightarrow> backend_op (snd p) \<Longrightarrow> reached (apply_op low p st)"
| Recovers: "reached st \<Longrightarrow> reached (fst (recover_all part idem now g st))"
| Resumes: "reached st \<Longrightarrow> reached (fst (snd (resume_session now sid st)))"
| Cancels: "reached st \<Longrightarrow> reached (cancel_recovery now sid st)"

definition never_asked :: "store \<Rightarrow> bool" where
  "never_asked st \<longleftrightarrow> AwaitingRecovery \<notin> snd ` set (statuses st)"

lemma never_update: "never_asked st \<Longrightarrow> new \<noteq> AwaitingRecovery \<Longrightarrow> never_asked (update_session_status now sid new st)"
  by (auto simp: never_asked_def statuses_def sessions_update dest!: update_where_mem split: if_splits)

lemma never_view: "statuses st' = statuses st \<Longrightarrow> never_asked st \<Longrightarrow> never_asked st'"
  by (simp add: never_asked_def)

lemma append_statuses: "append_event low now sid b raw st = Inr st' \<Longrightarrow> statuses st' = statuses st"
proof -
  assume a: "append_event low now sid b raw st = Inr st'"
  obtain ls st1 where p: "project_model_usage low now (next_event st) sid b (log_event sid b ls st) = Inr st1" and st': "st' = touch now sid st1"
    using a by (cases "project_model_usage low now (next_event st) sid b (log_event sid b (projr (normalize_links [] raw)) st)")
      (auto simp: append_event_def split: sum.splits option.splits)
  show ?thesis using projected_view [OF p] by (simp add: st' touch_def statuses_def statuses_same)
qed

lemma never_apply: assumes "never_asked st" "backend_op (snd p)" shows "never_asked (apply_op low p st)"
proof -
  obtain now op where p: "p = (now, op)" by fastforce
  show ?thesis
  proof (cases op)
    case (Create q)
    then show ?thesis using assms(1)
      by (cases "row_by ss_id (sp_id q) (sessions st)") (simp_all add: p create_session_def never_asked_def statuses_def)
  next
    case (Append sid b ls)
    then show ?thesis using assms(1) append_statuses [of low now sid b ls st]
      by (auto simp: p split: sum.splits intro: never_view)
  next
    case (SetStatus sid s)
    then show ?thesis using assms never_update by (auto simp: p backend_op_def)
  qed (use assms(1) in \<open>simp_all add: p never_asked_def statuses_def statuses_same save_snapshot_def add_tokens_def charge_session_def\<close>)
qed

lemma never_recover: "never_asked st \<Longrightarrow> never_asked (fst (recover_all part idem now g st))"
proof -
  have "never_asked (fst p) \<Longrightarrow> never_asked (fst (fold (recover_session part idem now) L p))" for L p
  proof (induction L arbitrary: p)
    case (Cons s L)
    have "never_asked (fst (recover_session part idem now s p))"
      using Cons.prems by (cases p) (auto simp: recover_session_def never_update split: option.splits)
    then show ?case using Cons.IH by simp
  qed simp
  then show "never_asked st \<Longrightarrow> ?thesis" by (simp add: recover_all_def)
qed

lemma never_resume: "never_asked st \<Longrightarrow> resume_session now sid st = (False, st, [])"
proof (cases "get_session sid st")
  case (Some s)
  assume n: "never_asked st"
  have "(ss_id s, ss_status s) \<in> set (statuses st)" using Some row_by_SomeD by (fastforce simp: get_session_def statuses_def)
  then have "ss_status s \<noteq> AwaitingRecovery" using n by (force simp: never_asked_def)
  then show ?thesis by (simp add: resume_session_def Some)
qed (simp add: resume_session_def)

lemma reached_never: "reached st \<Longrightarrow> never_asked st"
proof (induction rule: reached.induct)
  case (Fresh T)
  then show ?case by (simp add: never_asked_def statuses_def empty_store_def)
qed (auto simp: never_apply never_recover never_resume never_update cancel_recovery_def)

text \<open>
  The endpoint that resumes an interrupted session can never succeed: it wants a session that is
  \<open>awaiting_recovery\<close>, and whatever the backend does no session is ever given that status.
\<close>

theorem resume_never_succeeds:
  assumes "reached st" shows "resume_session now sid st = (False, st, [])"
  using never_resume [OF reached_never [OF assms]] .

section \<open>A crash on concrete inputs\<close>

definition crash_call :: tool_call where
  "crash_call = demo_call (ascii ''read_file'') NoRefs"

definition crash_world :: world where
  "crash_world = demo_world\<lparr>w_answer := (\<lambda>k. AnswerCalls (demo_answer crash_call)),
     w_outcome := (\<lambda>k. \<lparr>oc_result = ascii ''x'', oc_error = False, oc_writes = id\<rparr>)\<rparr>"

definition crash_trace :: "action list" where
  "crash_trace =
     [Begin demo_spec, Log (SessionStart (ascii ''hi'')),
      Log (RequestStarted (request_no crash_world 0) 1 [] (ascii ''tool_loop_iteration'') False),
      Log (RequestCompleted (request_no crash_world 0) no_usage 0 (ascii ''tool_calls'')),
      Snap [user_text (ascii ''hi''), demo_answer crash_call], Log (ToolCall crash_call),
      Execute (ascii ''c1'') (ascii ''read_file'')]"

lemma crash_executes:
  "\<exists>rest. rn_trace (execute_tools crash_world [crash_call] r) =
     rn_trace r @ [Log (ToolCall crash_call), Execute (ascii ''c1'') (ascii ''read_file'')] @ rest"
proof -
  let ?r2 = "track_file (ascii ''read_file'') [] (emit [Log (ToolResult (ascii ''c1'') (ascii ''read_file'') (check_and_attach (ascii ''x'')) False)]
      (emit [Execute (ascii ''c1'') (ascii ''read_file'')] ((emit [Log (ToolCall crash_call)] r)\<lparr>rn_ran := rn_ran r + 1\<rparr>)))"
  obtain ins r' where d: "deliver crash_world crash_call (check_and_attach (ascii ''x'')) False ?r2 = (ins, r')" by fastforce
  have neq: "ascii ''read_file'' \<noteq> ascii ''run_skill''" "ascii ''read_file'' \<noteq> ascii ''write_file''" by (simp_all add: ascii_def)
  have c: "c_name crash_call = ascii ''read_file''" "c_id crash_call = ascii ''c1''" "c_args crash_call = []" "c_refs crash_call = NoRefs"
    by (simp_all add: crash_call_def demo_call_def)
  have "dispatch_tool crash_world crash_call ctx x = (\<lparr>oc_result = ascii ''x'', oc_error = False, oc_writes = id\<rparr>, ctx,
      emit [Execute (ascii ''c1'') (ascii ''read_file'')] (x\<lparr>rn_ran := rn_ran x + 1\<rparr>))" for ctx x
    by (simp add: dispatch_tool_def c validate_refs_def crash_world_def Let_def)
  then have "serial_call crash_world crash_call r = (ins, r')"
    using d neq by (simp add: serial_call_def c Let_def)
  then have e: "execute_tools crash_world [crash_call] r = add_insights (ins, r')"
    by (simp add: execute_tools_def execute_serial_tools_def)
  obtain as where "rn_trace r' = rn_trace ?r2 @ as" using deliver_frame [OF d] by (auto simp: quietly_def)
  moreover obtain bs where "rn_trace (add_insights (ins, r')) = rn_trace r' @ bs"
    using add_insights_frame [of ins r'] by (auto simp: quietly_def)
  ultimately show ?thesis using e by simp
qed

lemma crash_run:
  "\<exists>r. execute crash_world 1 1 (Some (ascii ''hi'')) [user_text (ascii ''hi'')] silent_model = Some r \<and> take 7 (rn_trace r) = crash_trace"
proof -
  let ?W = crash_world
  let ?m = "demo_answer crash_call"
  let ?r0 = "pre_compaction ?W (start_run ?W (Some (ascii ''hi'')) (fresh_runner 1 [user_text (ascii ''hi'')] silent_model))"
  have w: "w_schemas ?W \<noteq> []" "w_refs ?W = []" "w_answer ?W k = AnswerCalls ?m" "w_est ?W = length" "w_spec ?W = demo_spec" for k
    by (simp_all add: crash_world_def demo_world_def)
  have "microcompact [user_text t] = [user_text t]" for t
    by (simp add: microcompact_def to_clear_def compactable_indices_def compactable_def user_text_def)
  then have r0: "?r0 = emit [Begin demo_spec, Log (SessionStart (ascii ''hi''))] (fresh_runner 1 [user_text (ascii ''hi'')] silent_model)"
    by (simp add: pre_compaction_def start_run_def w Let_def emit_def fresh_runner_def)
  have ctx0: "rn_ctx ?r0 = no_ctx" "rn_iter ?r0 = 0" "rn_max ?r0 = 1" "rn_history ?r0 = []" "rn_asked ?r0 = 0"
    "rn_messages ?r0 = [user_text (ascii ''hi'')]" "rn_trace ?r0 = [Begin demo_spec, Log (SessionStart (ascii ''hi''))]"
    unfolding r0 by (simp_all add: emit_def fresh_runner_def)
  obtain b r1 where 1: "iteration ?W ?r0 = (b, r1)" by fastforce
  obtain tools suffix where o: "offered ?W (?r0\<lparr>rn_iter := rn_iter ?r0 + 1\<rparr>) = (tools, suffix)" by fastforce
  let ?r2 = "?r0\<lparr>rn_iter := 1, rn_ctx := no_ctx, rn_offered := rn_offered ?r0 @ [tools]\<rparr>"
  obtain a ms r3 where ai: "ai_call ?W (ascii ''tool_loop_iteration'') (sp_prompt (w_spec ?W) @ suffix) True (rn_messages ?r2) ?r2 = (a, ms, r3)"
    by (rule prod_cases3)
  have a: "a = AnswerCalls ?m" "ms = [user_text (ascii ''hi'')]" "rn_history r3 = []"
    "rn_trace r3 = rn_trace ?r0 @ [Log (RequestStarted (request_no ?W 0) 1 [] (ascii ''tool_loop_iteration'') False),
       Log (RequestCompleted (request_no ?W 0) no_usage 0 (ascii ''tool_calls''))]"
    using ai ctx0 by (auto simp: ai_call_def ask_once_def w Let_def answered_def response_type_def emit_def)
      (simp add: crash_world_def demo_world_def)
  have oc: "on_calls ?W ?m (r3\<lparr>rn_messages := ms\<rparr>) = (b, r1)"
    using 1 o ai a(1) ctx0 by (simp add: iteration_def Let_def no_ctx_def)
  obtain r4 where r4: "rn_trace r1 = rn_trace (execute_tools ?W [crash_call] r4)" "rn_trace r4 = rn_trace r3 @ [Snap [user_text (ascii ''hi''), ?m]]"
  proof -
    let ?r4 = "snap (say ?m (r3\<lparr>rn_messages := ms, rn_history := [same_batch [crash_call]]\<rparr>))"
    have mc: "m_calls ?m = [crash_call]" by (simp add: demo_answer_def)
    have "rn_trace r1 = rn_trace (execute_tools ?W [crash_call] ?r4)"
      using oc a(3) by (auto simp: on_calls_def doomed_def Let_def mc trace_turn)
    moreover have "rn_trace ?r4 = rn_trace r3 @ [Snap [user_text (ascii ''hi''), ?m]]" using a(2) by simp
    ultimately show thesis by (rule that)
  qed
  obtain rest where r1: "rn_trace r1 = crash_trace @ rest"
    using crash_executes [of r4] r4 a(4) ctx0(7) by (auto simp: crash_trace_def)
  have "settled ?W ?r0" unfolding settled_def ctx0(7)
    by (rule exI [of _ "[[Begin demo_spec, Log (SessionStart (ascii ''hi''))]]"]) (simp add: segment_def quiet_def)
  then have "rn_iter r1 = 1" "rn_max r1 = 1" using iteration_frame [OF 1 ctx0(1)] ctx0 by auto
  then have "tool_loop ?W 1 ?r0 = Some r1" using 1 ctx0 by (cases b) simp_all
  then have ex: "execute ?W 1 1 (Some (ascii ''hi'')) [user_text (ascii ''hi'')] silent_model
      = Some (cleanup ?W (if rn_text r1 = [] then r1\<lparr>rn_text := unfinished_text\<rparr> else r1))"
    using w(1) by (simp add: execute_def run_tool_loop_def Let_def)
  obtain more where "rn_trace (cleanup ?W (if rn_text r1 = [] then r1\<lparr>rn_text := unfinished_text\<rparr> else r1)) = crash_trace @ more"
    using cleanup_frame [of ?W "if rn_text r1 = [] then r1\<lparr>rn_text := unfinished_text\<rparr> else r1"] r1
    by (auto simp: quietly_def split: if_splits)
  then have "take 7 (rn_trace (cleanup ?W (if rn_text r1 = [] then r1\<lparr>rn_text := unfinished_text\<rparr> else r1))) = crash_trace"
    by (simp add: crash_trace_def)
  then show ?thesis using ex by blast
qed

lemma crash_store:
  "\<exists>st. perform_all id (ascii ''s'') 1 crash_trace (empty_store Map.empty) = Inr st \<and>
     dangling (get_events (ascii ''s'') st) = [(4, crash_call)] \<and> committed (get_events (ascii ''s'') st) = []"
  by (simp add: crash_trace_def perform_def crash_world_def demo_world_def demo_simps request_no_def save_snapshot_def
      get_events_def dangling_def committed_def calculate_cost_def per_million_def split: option.split)

lemma crash_facts:
  obtains r st where "execute crash_world 1 1 (Some (ascii ''hi'')) [user_text (ascii ''hi'')] silent_model = Some r"
    "take 7 (rn_trace r) = crash_trace" "perform_all id (ascii ''s'') 1 (take 7 (rn_trace r)) (empty_store Map.empty) = Inr st"
    "dangling (get_events (ascii ''s'') st) = [(4, crash_call)]" "committed (get_events (ascii ''s'') st) = []"
  using crash_run crash_store by metis

lemma read_idempotent: "is_idempotent None (c_name crash_call)"
  by (simp add: is_idempotent_def IDEMPOTENT_TOOLS_def crash_call_def demo_call_def)


theorem reconstruction_has_no_answers_witness:
  "\<exists>r st es. execute crash_world 1 1 (Some (ascii ''hi'')) [user_text (ascii ''hi'')] silent_model = Some r \<and>
     perform_all id (ascii ''s'') 1 (take 7 (rn_trace r)) (empty_store Map.empty) = Inr st \<and>
     roll_back (is_idempotent None) (get_events (ascii ''s'') st) = Some es \<and>
     list_all (\<lambda>m. m_role m \<noteq> Assistant) (reconstruct_messages (ascii ''p'') es)"
proof (rule crash_facts)
  fix r st
  assume f: "execute crash_world 1 1 (Some (ascii ''hi'')) [user_text (ascii ''hi'')] silent_model = Some r"
    "take 7 (rn_trace r) = crash_trace" "perform_all id (ascii ''s'') 1 (take 7 (rn_trace r)) (empty_store Map.empty) = Inr st"
    "dangling (get_events (ascii ''s'') st) = [(4, crash_call)]" "committed (get_events (ascii ''s'') st) = []"
  obtain es where es: "roll_back (is_idempotent None) (get_events (ascii ''s'') st) = Some es"
    using read_idempotent by (simp add: roll_back_def f(4))
  show ?thesis using reconstruction_has_no_answers [OF f(1,3) es] f(1,3) es by blast
qed

definition ev :: "nat \<Rightarrow> event_body \<Rightarrow> event" where
  "ev n b = \<lparr>e_id = n, e_session = ascii ''s'', e_body = b, e_links = []\<rparr>"

text \<open>A file was written and a shell command was running when the second crash came.\<close>

definition second_run :: "event list" where
  "second_run =
     [ev 3 (ToolCall \<lparr>c_id = ascii ''c2'', c_name = ascii ''write_file'', c_args = [], c_refs = NoRefs\<rparr>),
      ev 4 (ToolResult (ascii ''c2'') (ascii ''write_file'') (ascii ''ok'') False),
      ev 5 (ToolCall \<lparr>c_id = ascii ''c3'', c_name = ascii ''run_shell'', c_args = [], c_refs = NoRefs\<rparr>)]"

theorem second_crash_forgets_witness:
  "roll_back (is_idempotent None) ([ev 1 (SessionStart (ascii ''hi'')), ev 2 (ToolCall crash_call)] @ second_run)
   = Some [ev 1 (SessionStart (ascii ''hi''))]"
proof -
  have d: "dangling [ev 1 (SessionStart (ascii ''hi'')), ev 2 (ToolCall crash_call)] = (2, crash_call) # []"
    by (simp add: dangling_def committed_def ev_def)
  have c: "c_id crash_call \<notin> set (committed second_run)"
    by (simp add: second_run_def committed_def ev_def crash_call_def demo_call_def ascii_def)
  have "2 \<le> e_id e" if "e \<in> set second_run" for e using that by (auto simp: second_run_def ev_def)
  from second_crash_forgets [where idem = "is_idempotent None", OF d read_idempotent c this] show ?thesis
    by (simp add: ev_def)
qed

definition orphan_store :: store where
  "orphan_store = run_ops id [(1, Create demo_spec)] (empty_store Map.empty)"


theorem resume_never_succeeds_witness:
  "resume_session 3 (ascii ''s'') orphan_store = (False, orphan_store, []) \<and> get_session (ascii ''s'') orphan_store \<noteq> None"
proof -
  have "reached (apply_op id (1, Create demo_spec) (empty_store Map.empty))"
    by (rule reached.Writes [OF reached.Fresh]) (simp add: backend_op_def)
  then have "reached orphan_store" by (simp add: orphan_store_def run_ops_def)
  moreover have "get_session (ascii ''s'') orphan_store \<noteq> None"
    by (simp add: get_session_def orphan_store_def run_ops_def create_session_def empty_store_def demo_spec_def)
  ultimately show ?thesis using resume_never_succeeds by blast
qed

end
