(* ===== verification/Lifecycle.thy ===== *)
theory Lifecycle
  imports Prelude
begin

text \<open>
  The lifecycle of groups in a worker (\<^verbatim>\<open>runtime/lifecycle.py\<close>): the file lock that keeps two workers
  from owning a group, and the manager that hydrates a group on first use and evicts it when it is idle,
  when there are too many, on request and at shutdown.

  The manager runs on one event loop. Its \<open>asyncio.Lock\<close> is only held over code that never suspends, so
  it is always free and a coroutine runs undisturbed from one suspension to the next. A step of the model
  is such a stretch; between the steps of one task the steps of all others interleave. Tasks and futures
  are numbered. What hydration and eviction do to the group between their suspensions (migrations,
  recovery, saving the orchestrator, closing the writer) either succeeds or raises.
\<close>

section \<open>The lock file of a group\<close>

text \<open>
  \<open>GroupLock\<close> at the level of its system calls. The path leads to an inode or to nothing; \<open>flock\<close> locks
  the inode, not the path. Opening creates a new inode when the path leads nowhere, and releasing unlinks
  the path after the lock was given up.
\<close>

datatype lock_pc = Outside | Opened nat | Owner nat | Unlocked

record lock_file =
  path_inode :: "nat option"
  next_inode :: nat
  flocked :: "nat \<Rightarrow> bool"
  procs :: "nat \<Rightarrow> lock_pc"

definition no_file :: lock_file where
  "no_file = \<lparr>path_inode = None, next_inode = 0, flocked = (\<lambda>_. False), procs = (\<lambda>_. Outside)\<rparr>"

definition goto :: "nat \<Rightarrow> lock_pc \<Rightarrow> lock_file \<Rightarrow> lock_file" where
  "goto p c s = s\<lparr>procs := (procs s)(p := c)\<rparr>"

definition open_lock :: "nat \<Rightarrow> lock_file \<Rightarrow> lock_file" where
  "open_lock p s =
     (case path_inode s of
        Some i \<Rightarrow> goto p (Opened i) s
      | None \<Rightarrow> goto p (Opened (next_inode s)) (s\<lparr>path_inode := Some (next_inode s), next_inode := next_inode s + 1\<rparr>))"

definition try_flock :: "nat \<Rightarrow> nat \<Rightarrow> lock_file \<Rightarrow> lock_file" where
  "try_flock p i s =
     (if flocked s i then goto p Outside s else goto p (Owner i) (s\<lparr>flocked := (flocked s)(i := True)\<rparr>))"

definition unlock_close :: "nat \<Rightarrow> nat \<Rightarrow> lock_file \<Rightarrow> lock_file" where
  "unlock_close p i s = goto p Unlocked (s\<lparr>flocked := (flocked s)(i := False)\<rparr>)"

definition unlink_lock :: "nat \<Rightarrow> lock_file \<Rightarrow> lock_file" where
  "unlink_lock p s = goto p Outside (s\<lparr>path_inode := None\<rparr>)"

inductive lock_step :: "lock_file \<Rightarrow> lock_file \<Rightarrow> bool" where
  Open: "procs s p = Outside \<Longrightarrow> lock_step s (open_lock p s)"
| Flock: "procs s p = Opened i \<Longrightarrow> lock_step s (try_flock p i s)"
| Unlock: "procs s p = Owner i \<Longrightarrow> lock_step s (unlock_close p i s)"
| Unlink: "procs s p = Unlocked \<Longrightarrow> lock_step s (unlink_lock p s)"

inductive lock_run :: "lock_file \<Rightarrow> bool" where
  Start: "lock_run no_file"
| Step: "lock_run s \<Longrightarrow> lock_step s s' \<Longrightarrow> lock_run s'"

text \<open>\<open>acquire\<close> and \<open>release\<close> when no other process runs in between.\<close>

definition acquire :: "nat \<Rightarrow> lock_file \<Rightarrow> lock_file" where
  "acquire p s = (let s1 = open_lock p s in case procs s1 p of Opened i \<Rightarrow> try_flock p i s1 | _ \<Rightarrow> s1)"

definition release :: "nat \<Rightarrow> lock_file \<Rightarrow> lock_file" where
  "release p s = (case procs s p of Owner i \<Rightarrow> unlink_lock p (unlock_close p i s) | _ \<Rightarrow> s)"

inductive calm_run :: "lock_file \<Rightarrow> bool" where
  Start: "calm_run no_file"
| Acquire: "calm_run s \<Longrightarrow> procs s p = Outside \<Longrightarrow> calm_run (acquire p s)"
| Release: "calm_run s \<Longrightarrow> calm_run (release p s)"

definition owner :: "lock_file \<Rightarrow> nat \<Rightarrow> bool" where
  "owner s p \<longleftrightarrow> (case procs s p of Owner _ \<Rightarrow> True | _ \<Rightarrow> False)"

lemma owner_iff: "owner s p \<longleftrightarrow> (\<exists>i. procs s p = Owner i)"
  by (auto simp: owner_def split: lock_pc.splits)

lemmas lock_defs = goto_def open_lock_def try_flock_def unlock_close_def unlink_lock_def

definition calm_ok :: "lock_file \<Rightarrow> bool" where
  "calm_ok s \<longleftrightarrow> (\<forall>p. procs s p = Outside \<or> owner s p) \<and>
     (\<forall>p i. procs s p = Owner i \<longrightarrow> path_inode s = Some i \<and> flocked s i) \<and>
     (\<forall>p q. owner s p \<longrightarrow> owner s q \<longrightarrow> p = q) \<and> (\<forall>i. flocked s i \<longrightarrow> i < next_inode s) \<and>
     (\<forall>i. path_inode s = Some i \<longrightarrow> i < next_inode s)"

lemma calm_invariant: "calm_run s \<Longrightarrow> calm_ok s"
proof (induction rule: calm_run.induct)
  case Start
  then show ?case by (simp add: calm_ok_def no_file_def owner_iff)
next
  case (Acquire s p)
  show ?case
  proof (cases "path_inode s")
    case None
    then have "\<And>q. procs s q = Outside" using Acquire.IH by (auto simp: calm_ok_def owner_iff)
    moreover have "\<not> flocked s (next_inode s)" using Acquire.IH by (auto simp: calm_ok_def)
    ultimately show ?thesis using None Acquire.IH
      by (auto simp: calm_ok_def acquire_def lock_defs owner_iff Let_def less_Suc_eq)
  next
    case (Some i)
    show ?thesis
    proof (cases "flocked s i")
      case True
      then show ?thesis using Some Acquire by (auto simp: calm_ok_def acquire_def lock_defs owner_iff Let_def)
    next
      case False
      then have "\<And>q. procs s q = Outside" using Acquire.IH Some by (fastforce simp: calm_ok_def owner_iff)
      then show ?thesis using Some False Acquire.IH by (auto simp: calm_ok_def acquire_def lock_defs owner_iff Let_def)
    qed
  qed
next
  case (Release s p)
  show ?case
  proof (cases "owner s p")
    case True
    then obtain i where i: "procs s p = Owner i" by (auto simp: owner_iff)
    have "procs s q = Outside" if "q \<noteq> p" for q using Release.IH True that by (fastforce simp: calm_ok_def)
    then show ?thesis using i Release.IH by (auto simp: calm_ok_def release_def lock_defs owner_iff)
  next
    case False
    then have "release p s = s" by (auto simp: release_def owner_iff split: lock_pc.splits)
    then show ?thesis using Release.IH by simp
  qed
qed

text \<open>
  C33. The file lock of a group excludes a second owner as long as acquiring and releasing it do not
  overlap. When they do, it does not: a worker that opened the file before its owner unlinked it locks an
  inode that no path leads to any more, and the next worker creates a file of its own.
\<close>

theorem lock_admits_two_owners:
  "(\<exists>s. lock_run s \<and> owner s 1 \<and> owner s 2) \<and> (\<nexists>s p q. calm_run s \<and> owner s p \<and> owner s q \<and> p \<noteq> q)"
proof
  let ?s1 = "try_flock 0 0 (open_lock 0 no_file)"
  let ?s2 = "try_flock 1 0 (unlock_close 0 0 (open_lock 1 ?s1))"
  let ?s3 = "try_flock 2 1 (open_lock 2 (unlink_lock 0 ?s2))"
  note d = lock_defs no_file_def
  have "lock_run ?s1" by (rule lock_run.Step [OF lock_run.Step [OF lock_run.Start Open] Flock]) (simp_all add: d)
  then have "lock_run ?s2"
    by (rule lock_run.Step [OF lock_run.Step [OF lock_run.Step [OF _ Open [of _ 1]] Unlock] Flock]) (simp_all add: d)
  then have "lock_run ?s3"
    by (rule lock_run.Step [OF lock_run.Step [OF lock_run.Step [OF _ Unlink] Open [of _ 2]] Flock]) (simp_all add: d)
  moreover have "owner ?s3 1 \<and> owner ?s3 2" by (simp add: d owner_def)
  ultimately show "\<exists>s. lock_run s \<and> owner s 1 \<and> owner s 2" by blast
  show "\<nexists>s p q. calm_run s \<and> owner s p \<and> owner s q \<and> p \<noteq> q"
    using calm_invariant unfolding calm_ok_def by blast
qed

section \<open>The manager\<close>

text \<open>
  \<open>after\<close> is what a task does once the eviction it waits for is over: a hydration or an explicit eviction
  returns, the sweep goes on with its candidates, the shutdown with the groups that are left.
\<close>

datatype outcome = Pending | Done | Broken

datatype after = Finish | Sweep int "(int \<times> int) list" | Close "int list"

datatype pc =
    Unborn
  | AwaitEvicted int nat
  | Follow int nat
  | Prepare int nat
  | Leave int nat after
  | Closing int nat bool after
  | Join nat after
  | EvictInflight int nat "nat option"
  | Sweeper
  | Stopping "nat list" "int list"
  | Returned
  | Raised
  | Cancelled

record mgr =
  active :: "(int \<times> int) list"
  hydrating :: "(int \<times> nat) list"
  evicting :: "(int \<times> nat) list"
  locks :: "int set"
  shutting :: bool
  evictor :: "nat option"
  futs :: "nat \<Rightarrow> outcome"
  next_fut :: nat
  pcs :: "nat \<Rightarrow> pc"
  held :: "int set"
  others :: "int set"
  busy :: "int set"

definition fresh_manager :: mgr where
  "fresh_manager = \<lparr>active = [], hydrating = [], evicting = [], locks = {}, shutting = False, evictor = None,
     futs = (\<lambda>_. Pending), next_fut = 0, pcs = (\<lambda>_. Unborn), held = {}, others = {}, busy = {}\<rparr>"

definition at :: "nat \<Rightarrow> pc \<Rightarrow> mgr \<Rightarrow> mgr" where
  "at t c m = m\<lparr>pcs := (pcs m)(t := c)\<rparr>"

definition is_active :: "int \<Rightarrow> mgr \<Rightarrow> bool" where
  "is_active g m \<longleftrightarrow> has_key g (active m)"

text \<open>Setting an entry and moving it to the end of the ordered dictionary.\<close>

definition bump :: "int \<Rightarrow> int \<Rightarrow> (int \<times> int) list \<Rightarrow> (int \<times> int) list" where
  "bump now g d = dict_del g d @ [(g, now)]"

definition touch :: "int \<Rightarrow> int \<Rightarrow> mgr \<Rightarrow> mgr" where
  "touch now g m = (if is_active g m then m\<lparr>active := bump now g (active m)\<rparr> else m)"

definition settle :: "nat \<Rightarrow> outcome \<Rightarrow> mgr \<Rightarrow> mgr" where
  "settle f r m = (if futs m f = Pending then m\<lparr>futs := (futs m)(f := r)\<rparr> else m)"

definition end_hydrating :: "int \<Rightarrow> outcome \<Rightarrow> mgr \<Rightarrow> mgr" where
  "end_hydrating g r m =
     (case map_of (hydrating m) g of
        None \<Rightarrow> m
      | Some f \<Rightarrow> settle f r (m\<lparr>hydrating := dict_del g (hydrating m)\<rparr>))"

definition end_evicting :: "int \<Rightarrow> outcome \<Rightarrow> mgr \<Rightarrow> mgr" where
  "end_evicting g r m =
     (case map_of (evicting m) g of
        None \<Rightarrow> m
      | Some f \<Rightarrow> settle f r (m\<lparr>evicting := dict_del g (evicting m)\<rparr>))"

definition evict_once :: "nat \<Rightarrow> int \<Rightarrow> after \<Rightarrow> mgr \<Rightarrow> mgr" where
  "evict_once t g k m =
     (case map_of (evicting m) g of
        Some f \<Rightarrow> at t (Join f k) m
      | None \<Rightarrow>
          let f = next_fut m in
          at t (Leave g f k) (m\<lparr>evicting := dict_set g f (evicting m), next_fut := f + 1\<rparr>))"

text \<open>The group to make room for: the least recently used one without a running task.\<close>

definition pick_lru :: "mgr \<Rightarrow> int option" where
  "pick_lru m = map_option fst (find (\<lambda>p. fst p \<notin> busy m) (active m))"

definition ensure_evictor :: "nat \<Rightarrow> mgr \<Rightarrow> mgr" where
  "ensure_evictor e m =
     (if (case evictor m of None \<Rightarrow> True | Some t \<Rightarrow> pcs m t \<in> {Returned, Raised, Cancelled})
      then at e Sweeper (m\<lparr>evictor := Some e\<rparr>) else m)"

text \<open>
  \<open>hydrate\<close> from its start or from the end of an eviction it waited for, up to its next suspension. The
  file lock is taken without suspending. \<open>e\<close> is the number of the background task, should it be started.
\<close>

definition hydrate_enter :: "int \<Rightarrow> nat \<Rightarrow> nat \<Rightarrow> int \<Rightarrow> mgr \<Rightarrow> mgr" where
  "hydrate_enter now e t g m0 =
     (if shutting m0 then at t Raised m0
      else
        let m = ensure_evictor e m0 in
        if is_active g m then at t Returned (m\<lparr>active := bump now g (active m)\<rparr>)
        else
          (case map_of (evicting m) g of
             Some f \<Rightarrow> at t (AwaitEvicted g f) m
           | None \<Rightarrow>
               (case map_of (hydrating m) g of
                  Some f \<Rightarrow> at t (Follow g f) m
                | None \<Rightarrow>
                    let f = next_fut m; m1 = m\<lparr>hydrating := dict_set g f (hydrating m), next_fut := f + 1\<rparr> in
                    if g \<in> held m \<union> others m then at t Raised (end_hydrating g Broken m1)
                    else at t (Prepare g f) (m1\<lparr>held := insert g (held m1)\<rparr>))))"

definition hydrate_fails :: "nat \<Rightarrow> int \<Rightarrow> mgr \<Rightarrow> mgr" where
  "hydrate_fails t g m = at t Raised ((end_hydrating g Broken m)\<lparr>held := held m - {g}\<rparr>)"

definition hydrate_done :: "int \<Rightarrow> nat \<Rightarrow> nat \<Rightarrow> int \<Rightarrow> mgr \<Rightarrow> mgr" where
  "hydrate_done now cap t g m =
     (if shutting m then hydrate_fails t g m
      else
        let v = (if cap \<le> length (active m) then pick_lru m else None);
            rest = (case v of None \<Rightarrow> active m | Some x \<Rightarrow> dict_del x (active m));
            m1 = end_hydrating g Done (m\<lparr>locks := insert g (locks m), active := bump now g rest\<rparr>)
        in case v of None \<Rightarrow> at t Returned m1 | Some x \<Rightarrow> evict_once t x Finish m1)"

definition evict_enter :: "nat \<Rightarrow> int \<Rightarrow> mgr \<Rightarrow> mgr" where
  "evict_enter t g m =
     (if is_active g m then evict_once t g Finish (m\<lparr>active := dict_del g (active m)\<rparr>)
      else
        (case map_of (hydrating m) g of
           Some f \<Rightarrow> at t (EvictInflight g f (map_of (evicting m) g)) m
         | None \<Rightarrow>
             (case map_of (evicting m) g of Some f \<Rightarrow> at t (Join f Finish) m | None \<Rightarrow> at t Returned m)))"

definition evict_resume :: "nat \<Rightarrow> int \<Rightarrow> nat option \<Rightarrow> mgr \<Rightarrow> mgr" where
  "evict_resume t g e m =
     (if is_active g m then
        let m1 = m\<lparr>active := dict_del g (active m)\<rparr> in
        (case e of Some f \<Rightarrow> at t (Join f Finish) m1 | None \<Rightarrow> evict_once t g Finish m1)
      else
        (case map_of (evicting m) g of Some f \<Rightarrow> at t (Join f Finish) m | None \<Rightarrow> at t Returned m))"

text \<open>The candidates of a sweep, and one after the other evicted if nothing happened to it meanwhile.\<close>

definition sweep_candidates :: "int \<Rightarrow> int \<Rightarrow> mgr \<Rightarrow> (int \<times> int) list" where
  "sweep_candidates now timeout m = filter (\<lambda>(g, la). now - la > timeout \<and> g \<notin> busy m) (active m)"

fun sweep_next :: "int \<Rightarrow> int \<Rightarrow> nat \<Rightarrow> (int \<times> int) list \<Rightarrow> mgr \<Rightarrow> mgr" where
  "sweep_next now timeout t [] m = at t Sweeper m"
| "sweep_next now timeout t ((g, la) # cs) m =
     (if map_of (active m) g = Some la \<and> now - la > timeout \<and> g \<notin> busy m
      then evict_once t g (Sweep now cs) (m\<lparr>active := dict_del g (active m)\<rparr>)
      else sweep_next now timeout t cs m)"

definition close_next :: "nat \<Rightarrow> int list \<Rightarrow> mgr \<Rightarrow> mgr" where
  "close_next t gs m = (case gs of [] \<Rightarrow> at t Returned m | g # gs' \<Rightarrow> evict_once t g (Close gs') m)"

definition go_on :: "int \<Rightarrow> nat \<Rightarrow> after \<Rightarrow> mgr \<Rightarrow> mgr" where
  "go_on timeout t k m =
     (case k of Finish \<Rightarrow> at t Returned m | Sweep now cs \<Rightarrow> sweep_next now timeout t cs m | Close gs \<Rightarrow> close_next t gs m)"

text \<open>The background loop logs what a sweep raises and goes on; the others let it through.\<close>

definition give_up :: "nat \<Rightarrow> after \<Rightarrow> mgr \<Rightarrow> mgr" where
  "give_up t k m = (case k of Sweep _ _ \<Rightarrow> at t Sweeper m | _ \<Rightarrow> at t Raised m)"

text \<open>\<open>_do_evict\<close>: the lock leaves the manager before the writer is closed and is released in any case.\<close>

definition leave_saved :: "nat \<Rightarrow> int \<Rightarrow> nat \<Rightarrow> after \<Rightarrow> mgr \<Rightarrow> mgr" where
  "leave_saved t g f k m = at t (Closing g f (g \<in> locks m) k) (m\<lparr>locks := locks m - {g}\<rparr>)"

definition closed :: "int \<Rightarrow> bool \<Rightarrow> nat \<Rightarrow> int \<Rightarrow> bool \<Rightarrow> after \<Rightarrow> mgr \<Rightarrow> mgr" where
  "closed timeout ok t g b k m =
     (let m1 = end_evicting g (if ok then Done else Broken) (m\<lparr>held := (if b then held m - {g} else held m)\<rparr>)
      in if ok then go_on timeout t k m1 else give_up t k m1)"

text \<open>
  A cancelled task runs its \<open>finally\<close> blocks but, \<open>CancelledError\<close> not being an \<open>Exception\<close>, none of the
  handlers that settle its future.
\<close>

definition cancel_task :: "nat \<Rightarrow> mgr \<Rightarrow> mgr" where
  "cancel_task t m =
     at t Cancelled
       (case pcs m t of
          Prepare g f \<Rightarrow> m\<lparr>held := held m - {g}\<rparr>
        | Closing g f b k \<Rightarrow> m\<lparr>held := (if b then held m - {g} else held m)\<rparr>
        | _ \<Rightarrow> m)"

definition shutdown_enter :: "nat \<Rightarrow> mgr \<Rightarrow> mgr" where
  "shutdown_enter t m =
     (let m1 = (case evictor m of
                  None \<Rightarrow> m
                | Some e \<Rightarrow> (if pcs m e \<in> {Returned, Raised, Cancelled} then m else cancel_task e m)\<lparr>evictor := None\<rparr>)
      in at t (Stopping (map snd (hydrating m) @ map snd (evicting m)) (map fst (active m)))
           (m1\<lparr>shutting := True, active := []\<rparr>))"

definition running :: "pc \<Rightarrow> bool" where
  "running c \<longleftrightarrow> c \<notin> {Unborn, Returned, Raised, Cancelled}"

text \<open>
  A step of any task, of the tasks of a group that start and end, or of another worker that takes or gives
  back a file lock. With \<open>rough\<close> tasks may be cancelled; without it the only cancellation is that of an
  idle background loop by the shutdown.
\<close>

inductive lstep :: "bool \<Rightarrow> nat \<Rightarrow> int \<Rightarrow> mgr \<Rightarrow> mgr \<Rightarrow> bool" for rough cap timeout where
  Hydrate: "\<lbrakk>pcs m t = Unborn; pcs m e = Unborn; e \<noteq> t\<rbrakk> \<Longrightarrow> lstep rough cap timeout m (hydrate_enter now e t g m)"
| Rehydrate: "\<lbrakk>pcs m t = AwaitEvicted g f; futs m f = Done; pcs m e = Unborn\<rbrakk> \<Longrightarrow>
    lstep rough cap timeout m (hydrate_enter now e t g m)"
| NotEvicted: "\<lbrakk>pcs m t = AwaitEvicted g f; futs m f = Broken\<rbrakk> \<Longrightarrow> lstep rough cap timeout m (at t Raised m)"
| Followed: "\<lbrakk>pcs m t = Follow g f; futs m f = Done\<rbrakk> \<Longrightarrow> lstep rough cap timeout m (at t Returned m)"
| FollowFails: "\<lbrakk>pcs m t = Follow g f; futs m f = Broken\<rbrakk> \<Longrightarrow> lstep rough cap timeout m (at t Raised m)"
| Prepared: "pcs m t = Prepare g f \<Longrightarrow> lstep rough cap timeout m (hydrate_done now cap t g m)"
| PrepareFails: "pcs m t = Prepare g f \<Longrightarrow> lstep rough cap timeout m (hydrate_fails t g m)"
| Evict: "pcs m t = Unborn \<Longrightarrow> lstep rough cap timeout m (evict_enter t g m)"
| EvictOn: "\<lbrakk>pcs m t = EvictInflight g f e; futs m f = Done\<rbrakk> \<Longrightarrow> lstep rough cap timeout m (evict_resume t g e m)"
| EvictOff: "\<lbrakk>pcs m t = EvictInflight g f e; futs m f = Broken\<rbrakk> \<Longrightarrow> lstep rough cap timeout m (at t Returned m)"
| Saved: "pcs m t = Leave g f k \<Longrightarrow> lstep rough cap timeout m (leave_saved t g f k m)"
| Closed: "pcs m t = Closing g f b k \<Longrightarrow> lstep rough cap timeout m (closed timeout ok t g b k m)"
| Joined: "\<lbrakk>pcs m t = Join f k; futs m f = Done\<rbrakk> \<Longrightarrow> lstep rough cap timeout m (go_on timeout t k m)"
| JoinFails: "\<lbrakk>pcs m t = Join f k; futs m f = Broken\<rbrakk> \<Longrightarrow> lstep rough cap timeout m (give_up t k m)"
| SweepStarts: "pcs m t = Sweeper \<Longrightarrow>
    lstep rough cap timeout m (sweep_next now timeout t (sweep_candidates now timeout m) m)"
| Shutdown: "\<lbrakk>pcs m t = Unborn; rough \<or> (case evictor m of None \<Rightarrow> True | Some e \<Rightarrow> pcs m e = Sweeper)\<rbrakk> \<Longrightarrow>
    lstep rough cap timeout m (shutdown_enter t m)"
| Stopped: "\<lbrakk>pcs m t = Stopping fs gs; list_all (\<lambda>f. futs m f \<noteq> Pending) fs\<rbrakk> \<Longrightarrow> lstep rough cap timeout m (close_next t gs m)"
| Cancel: "\<lbrakk>rough; running (pcs m t)\<rbrakk> \<Longrightarrow> lstep rough cap timeout m (cancel_task t m)"
| Touch: "lstep rough cap timeout m (touch now g m)"
| Work: "lstep rough cap timeout m (m\<lparr>busy := gs\<rparr>)"
| Take: "g \<notin> held m \<Longrightarrow> lstep rough cap timeout m (m\<lparr>others := insert g (others m)\<rparr>)"
| Give: "lstep rough cap timeout m (m\<lparr>others := others m - {g}\<rparr>)"

inductive lreach :: "bool \<Rightarrow> nat \<Rightarrow> int \<Rightarrow> mgr \<Rightarrow> bool" for rough cap timeout where
  Start: "lreach rough cap timeout fresh_manager"
| Step: "lreach rough cap timeout m \<Longrightarrow> lstep rough cap timeout m m' \<Longrightarrow> lreach rough cap timeout m'"

section \<open>What the manager keeps\<close>

text \<open>
  The invariant in four parts: of the groups and their locks, of the futures, of what a task that leads a
  hydration or an eviction holds, and that no two tasks lead the same one.
\<close>

fun lead :: "pc \<Rightarrow> nat option" where
  "lead (Prepare g f) = Some f"
| "lead (Leave g f k) = Some f"
| "lead (Closing g f b k) = Some f"
| "lead _ = None"

definition groups_ok :: "int set \<Rightarrow> (int \<Rightarrow> nat option) \<Rightarrow> (int \<Rightarrow> nat option) \<Rightarrow> int set \<Rightarrow> int set \<Rightarrow> bool" where
  "groups_ok A H E L K \<longleftrightarrow> (\<forall>g \<in> A. g \<in> L \<and> H g = None \<and> E g = None) \<and> L \<subseteq> K"

definition futs_ok :: "(int \<Rightarrow> nat option) \<Rightarrow> (int \<Rightarrow> nat option) \<Rightarrow> (nat \<Rightarrow> outcome) \<Rightarrow> nat \<Rightarrow> bool" where
  "futs_ok H E F n \<longleftrightarrow>
     (\<forall>g f. H g = Some f \<or> E g = Some f \<longrightarrow> f < n \<and> F f = Pending) \<and> (\<forall>g. H g = None \<or> E g = None) \<and>
     (\<forall>g g' f. (H g = Some f \<or> E g = Some f) \<longrightarrow> (H g' = Some f \<or> E g' = Some f) \<longrightarrow> g = g') \<and>
     (\<forall>f. n \<le> f \<longrightarrow> F f = Pending)"

fun task_ok :: "(int \<Rightarrow> nat option) \<Rightarrow> (int \<Rightarrow> nat option) \<Rightarrow> int set \<Rightarrow> int set \<Rightarrow> pc \<Rightarrow> bool" where
  "task_ok H E L K (Prepare g f) \<longleftrightarrow> H g = Some f \<and> g \<in> K \<and> g \<notin> L"
| "task_ok H E L K (Leave g f k) \<longleftrightarrow> E g = Some f"
| "task_ok H E L K (Closing g f b k) \<longleftrightarrow> E g = Some f \<and> g \<notin> L \<and> (b \<longrightarrow> g \<in> K)"
| "task_ok H E L K (EvictInflight g f e) \<longleftrightarrow> e = None"
| "task_ok H E L K _ \<longleftrightarrow> True"

definition one_leader :: "(nat \<Rightarrow> pc) \<Rightarrow> bool" where
  "one_leader P \<longleftrightarrow> (\<forall>t t' f. lead (P t) = Some f \<longrightarrow> lead (P t') = Some f \<longrightarrow> t = t')"

definition kept ::
  "int set \<Rightarrow> (int \<Rightarrow> nat option) \<Rightarrow> (int \<Rightarrow> nat option) \<Rightarrow> int set \<Rightarrow> int set \<Rightarrow> (nat \<Rightarrow> outcome) \<Rightarrow> nat \<Rightarrow> (nat \<Rightarrow> pc) \<Rightarrow> bool" where
  "kept A H E L K F n P \<longleftrightarrow>
     groups_ok A H E L K \<and> futs_ok H E F n \<and> (\<forall>t. task_ok H E L K (P t)) \<and> one_leader P"

definition plain :: "pc \<Rightarrow> bool" where
  "plain c \<longleftrightarrow> lead c = None \<and> (\<forall>g f e. c = EvictInflight g f e \<longrightarrow> e = None)"

lemma plain_task_ok: "plain c \<Longrightarrow> task_ok H E L K c"
  by (cases c) (auto simp: plain_def)

lemma lead_lt: "task_ok H E L K c \<Longrightarrow> lead c = Some f \<Longrightarrow> \<exists>g. H g = Some f \<or> E g = Some f"
  by (cases c) auto

lemma one_leader_upd: "one_leader P \<Longrightarrow> (\<And>t' f. lead c = Some f \<Longrightarrow> t' \<noteq> t \<Longrightarrow> lead (P t') \<noteq> Some f) \<Longrightarrow> one_leader (P(t := c))"
  unfolding one_leader_def by (metis fun_upd_apply)

lemma kept_plain: "\<lbrakk>kept A H E L K F n P; plain c\<rbrakk> \<Longrightarrow> kept A H E L K F n (P(t := c))"
  unfolding kept_def plain_def by (auto simp: plain_task_ok plain_def intro!: one_leader_upd)

lemma kept_fewer: "\<lbrakk>kept A H E L K F n P; A' \<subseteq> A\<rbrakk> \<Longrightarrow> kept A' H E L K F n P"
  by (auto simp: kept_def groups_ok_def)

lemma settle_hydrating: "futs_ok H E F n \<Longrightarrow> H g = Some f \<Longrightarrow> futs_ok (H(g := None)) E (F(f := r)) n"
proof -
  assume a: "futs_ok H E F n" "H g = Some f"
  then have "\<not> n \<le> f" "E g = None" unfolding futs_ok_def by (metis not_le, metis option.distinct(1))
  then show ?thesis using a unfolding futs_ok_def by (auto split: if_splits)
qed

lemma settle_evicting: "futs_ok H E F n \<Longrightarrow> E g = Some f \<Longrightarrow> futs_ok H (E(g := None)) (F(f := r)) n"
proof -
  assume a: "futs_ok H E F n" "E g = Some f"
  then have "\<not> n \<le> f" "H g = None" unfolding futs_ok_def by (metis not_le, metis option.distinct(1))
  then show ?thesis using a unfolding futs_ok_def by (auto split: if_splits)
qed

text \<open>A task other than the one that makes a step keeps what it holds.\<close>

lemma kept_step:
  assumes "groups_ok A' H' E' L' K'" "futs_ok H' E' F' n'" "task_ok H' E' L' K' c"
    and "\<And>t'. t' \<noteq> t \<Longrightarrow> task_ok H' E' L' K' (P t')"
    and "one_leader P" "\<And>t' f. lead c = Some f \<Longrightarrow> t' \<noteq> t \<Longrightarrow> lead (P t') \<noteq> Some f"
  shows "kept A' H' E' L' K' F' n' (P(t := c))"
  using assms by (auto simp: kept_def intro: one_leader_upd)

lemma kept_prepare:
  assumes "kept A H E L K F n P" "g \<notin> A" "E g = None" "H g = None" "g \<notin> K"
  shows "kept A (H(g \<mapsto> n)) E L (insert g K) F (Suc n) (P(t := Prepare g n))"
proof (rule kept_step)
  note k = assms(1) [unfolded kept_def]
  show "groups_ok A (H(g \<mapsto> n)) E L (insert g K)" using k assms(2) by (auto simp: groups_ok_def)
  have lt: "H x = Some f \<or> E x = Some f \<Longrightarrow> f < n" for x f using k by (auto simp: futs_ok_def)
  show "futs_ok (H(g \<mapsto> n)) E F (Suc n)"
    unfolding futs_ok_def
  proof (intro conjI allI impI)
    fix x y f assume "(H(g \<mapsto> n)) x = Some f \<or> E x = Some f" "(H(g \<mapsto> n)) y = Some f \<or> E y = Some f"
    then show "x = y" using lt [of _ n] k by (auto simp: futs_ok_def split: if_splits)
  qed (use k assms(3) in \<open>auto simp: futs_ok_def less_Suc_eq split: if_splits\<close>)
  show "task_ok (H(g \<mapsto> n)) E L (insert g K) (Prepare g n)" using k assms(5) by (auto simp: groups_ok_def)
  show "task_ok (H(g \<mapsto> n)) E L (insert g K) (P t')" for t'
  proof -
    have "task_ok H E L K (P t')" using k by blast
    then show ?thesis using assms(4) by (cases "P t'") auto
  qed
  show "one_leader P" using k by blast
  show "lead (P t') \<noteq> Some f" if "lead (Prepare g n) = Some f" for t' f
    using lead_lt [of H E L K "P t'" n] k lt [of _ n] that by auto
qed

lemma kept_blocked: "kept A H E L K F n P \<Longrightarrow> kept A H E L K (F(n := Broken)) (Suc n) P"
  by (auto simp: kept_def futs_ok_def less_Suc_eq)

lemma kept_task: "kept A H E L K F n P \<Longrightarrow> P t = c \<Longrightarrow> task_ok H E L K c"
  by (auto simp: kept_def)

lemma kept_exclusive: "kept A H E L K F n P \<Longrightarrow> H g = Some f \<Longrightarrow> E g = None"
  unfolding kept_def futs_ok_def by (metis option.distinct(1))

lemma kept_exclusive': "kept A H E L K F n P \<Longrightarrow> E g = Some f \<Longrightarrow> H g = None"
  unfolding kept_def futs_ok_def by (metis option.distinct(1))

lemma other_lead:
  assumes "kept A H E L K F n P" "lead (P t) = Some f" "t' \<noteq> t" shows "lead (P t') \<noteq> Some f"
  using assms by (auto simp: kept_def one_leader_def)

lemma kept_prepared:
  assumes "kept A H E L K F n P" "P t = Prepare g f" "plain c"
  shows "kept (insert g A) (H(g := None)) E (insert g L) K (F(f := r)) n (P(t := c))"
proof (rule kept_step)
  note k = assms(1) [unfolded kept_def]
  have p: "H g = Some f" "g \<in> K" "g \<notin> L" "E g = None"
    using kept_task [OF assms(1,2)] kept_exclusive [OF assms(1)] by auto
  show "groups_ok (insert g A) (H(g := None)) E (insert g L) K" using k p by (auto simp: groups_ok_def)
  show "futs_ok (H(g := None)) E (F(f := r)) n" using k p settle_hydrating by blast
  show "task_ok (H(g := None)) E (insert g L) K c" using assms(3) by (rule plain_task_ok)
  show "task_ok (H(g := None)) E (insert g L) K (P t')" if "t' \<noteq> t" for t'
    using k p other_lead [OF assms(1) _ that, of f] assms(2) by (cases "P t'") (auto dest: spec [of _ t'])
  show "one_leader P" using k by blast
qed (use assms(3) in \<open>simp add: plain_def\<close>)

lemma kept_unprepared:
  assumes "kept A H E L K F n P" "P t = Prepare g f" "plain c"
  shows "kept A (H(g := None)) E L (K - {g}) (F(f := r)) n (P(t := c))"
proof (rule kept_step)
  note k = assms(1) [unfolded kept_def]
  have p: "H g = Some f" "g \<in> K" "g \<notin> L" "E g = None"
    using kept_task [OF assms(1,2)] kept_exclusive [OF assms(1)] by auto
  show "groups_ok A (H(g := None)) E L (K - {g})" using k p by (auto simp: groups_ok_def)
  show "futs_ok (H(g := None)) E (F(f := r)) n" using k p settle_hydrating by blast
  show "task_ok (H(g := None)) E L (K - {g}) c" using assms(3) by (rule plain_task_ok)
  show "task_ok (H(g := None)) E L (K - {g}) (P t')" if "t' \<noteq> t" for t'
    using k p other_lead [OF assms(1) _ that, of f] assms(2) by (cases "P t'") (auto dest: spec [of _ t'])
  show "one_leader P" using k by blast
qed (use assms(3) in \<open>simp add: plain_def\<close>)

lemma kept_leave:
  assumes "kept A H E L K F n P" and p: "H g = None" "E g = None"
  shows "kept (A - {g}) H (E(g \<mapsto> n)) L K F (Suc n) (P(t := Leave g n k))"
proof (rule kept_step)
  note k = assms(1) [unfolded kept_def]
  have lt: "H x = Some f \<or> E x = Some f \<Longrightarrow> f < n" for x f using k by (auto simp: futs_ok_def)
  show "groups_ok (A - {g}) H (E(g \<mapsto> n)) L K" using k by (auto simp: groups_ok_def)
  show "futs_ok H (E(g \<mapsto> n)) F (Suc n)"
    unfolding futs_ok_def
  proof (intro conjI allI impI)
    fix x y f assume "H x = Some f \<or> (E(g \<mapsto> n)) x = Some f" "H y = Some f \<or> (E(g \<mapsto> n)) y = Some f"
    then show "x = y" using lt [of _ n] k by (auto simp: futs_ok_def split: if_splits)
  qed (use k p in \<open>auto simp: futs_ok_def less_Suc_eq split: if_splits\<close>)
  show "task_ok H (E(g \<mapsto> n)) L K (P t')" for t'
    using kept_task [OF assms(1) refl, of t'] p by (cases "P t'") auto
  show "one_leader P" using k by blast
  show "lead (P t') \<noteq> Some f" if "lead (Leave g n k) = Some f" for t' f
    using lead_lt [of H E L K "P t'" n] kept_task [OF assms(1) refl, of t'] lt [of _ n] that by auto
qed simp

lemma kept_closing:
  assumes "kept A H E L K F n P" "P t = Leave g f k"
  shows "kept A H E (L - {g}) K F n (P(t := Closing g f (g \<in> L) k))"
proof (rule kept_step)
  note k = assms(1) [unfolded kept_def]
  have p: "E g = Some f" using kept_task [OF assms] by simp
  show "groups_ok A H E (L - {g}) K" using k p by (auto simp: groups_ok_def)
  show "futs_ok H E F n" using k by blast
  show "task_ok H E (L - {g}) K (Closing g f (g \<in> L) k)" using k p by (auto simp: groups_ok_def)
  show "task_ok H E (L - {g}) K (P t')" for t'
    using kept_task [OF assms(1) refl, of t'] by (cases "P t'") auto
  show "one_leader P" using k by blast
  show "lead (P t') \<noteq> Some x" if "lead (Closing g f (g \<in> L) k) = Some x" "t' \<noteq> t" for t' x
    using other_lead [OF assms(1) _ that(2)] assms(2) that(1) by auto
qed

lemma kept_closed:
  assumes "kept A H E L K F n P" "P t = Closing g f b k" "plain c"
  shows "kept A H (E(g := None)) L (if b then K - {g} else K) (F(f := r)) n (P(t := c))"
proof (rule kept_step)
  note k = assms(1) [unfolded kept_def]
  have p: "E g = Some f" "g \<notin> L" "b \<Longrightarrow> g \<in> K" "H g = None"
    using kept_task [OF assms(1,2)] kept_exclusive' [OF assms(1)] by auto
  show "groups_ok A H (E(g := None)) L (if b then K - {g} else K)" using k p by (auto simp: groups_ok_def)
  show "futs_ok H (E(g := None)) (F(f := r)) n" using k p settle_evicting by blast
  show "task_ok H (E(g := None)) L (if b then K - {g} else K) c" using assms(3) by (rule plain_task_ok)
  show "task_ok H (E(g := None)) L (if b then K - {g} else K) (P t')" if "t' \<noteq> t" for t'
    using kept_task [OF assms(1) refl, of t'] p other_lead [OF assms(1) _ that, of f] assms(2) by (cases "P t'") auto
  show "one_leader P" using k by blast
qed (use assms(3) in \<open>simp add: plain_def\<close>)

lemma kept_cancelled:
  assumes "kept A H E L K F n P" "P t = Prepare g f \<or> P t = Closing g f True k" "plain c"
  shows "kept A H E L (K - {g}) F n (P(t := c))"
proof (rule kept_step)
  note k = assms(1) [unfolded kept_def]
  have p: "g \<notin> L" "H g = Some f \<or> E g = Some f" "lead (P t) = Some f"
    using kept_task [OF assms(1) refl, of t] assms(2) by auto
  show "groups_ok A H E L (K - {g})" using k p by (auto simp: groups_ok_def)
  show "futs_ok H E F n" using k by blast
  show "task_ok H E L (K - {g}) c" using assms(3) by (rule plain_task_ok)
  have x: "f' = f" if "H g = Some f' \<or> E g = Some f'" for f'
    using p(2) that kept_exclusive [OF assms(1), of g] kept_exclusive' [OF assms(1), of g] by auto
  show "task_ok H E L (K - {g}) (P t')" if t': "t' \<noteq> t" for t'
  proof (cases "P t'")
    case (Prepare h f')
    then show ?thesis using kept_task [OF assms(1) Prepare] x other_lead [OF assms(1) p(3) t'] by auto
  next
    case (Closing h f' b k')
    then show ?thesis using kept_task [OF assms(1) Closing] x other_lead [OF assms(1) p(3) t'] by auto
  qed (use kept_task [OF assms(1) refl, of t'] in auto)
  show "one_leader P" using k by blast
qed (use assms(3) in \<open>simp add: plain_def\<close>)

text \<open>The groups that a shutdown has still to evict.\<close>

fun to_close :: "pc \<Rightarrow> int list" where
  "to_close (Stopping fs gs) = gs"
| "to_close (Leave g f (Close gs)) = gs"
| "to_close (Closing g f b (Close gs)) = gs"
| "to_close (Join f (Close gs)) = gs"
| "to_close _ = []"

abbreviation keys :: "mgr \<Rightarrow> int set" where
  "keys m \<equiv> set (map fst (active m))"

definition closing_ok :: "bool \<Rightarrow> (int \<Rightarrow> nat option) \<Rightarrow> (nat \<Rightarrow> pc) \<Rightarrow> bool" where
  "closing_ok S H P \<longleftrightarrow> (\<forall>t. to_close (P t) = [] \<or> S \<and> (\<forall>g \<in> set (to_close (P t)). H g = None))"

lemma closing_upd:
  "\<lbrakk>closing_ok S H P; to_close c = [] \<or> S \<and> (\<forall>g \<in> set (to_close c). H g = None)\<rbrakk> \<Longrightarrow> closing_ok S H (P(t := c))"
  by (simp add: closing_ok_def)

lemma closing_fewer: "closing_ok S H P \<Longrightarrow> closing_ok S (H(g := None)) P"
  by (auto simp: closing_ok_def)

definition sound :: "mgr \<Rightarrow> bool" where
  "sound m \<longleftrightarrow>
     kept (keys m) (map_of (hydrating m)) (map_of (evicting m)) (locks m) (held m) (futs m) (next_fut m) (pcs m) \<and>
     closing_ok (shutting m) (map_of (hydrating m)) (pcs m) \<and> held m \<inter> others m = {}"

lemma is_active_iff: "is_active g m \<longleftrightarrow> g \<in> keys m"
  by (simp add: is_active_def has_key_def)

lemma keys_bump [simp]: "fst ` set (bump now g d) = insert g (fst ` set d)"
  using keys_dict_del [of g d] by (auto simp: bump_def)

lemma keys_del [simp]: "fst ` set (dict_del g d) = fst ` set d - {g}"
  using keys_dict_del [of g d] by simp

lemma sound_at: "\<lbrakk>sound m; plain c; to_close c = []\<rbrakk> \<Longrightarrow> sound (at t c m)"
  by (simp add: sound_def at_def kept_plain closing_upd)

lemma sound_fewer: "\<lbrakk>sound m; set (map fst d) \<subseteq> keys m\<rbrakk> \<Longrightarrow> sound (m\<lparr>active := d\<rparr>)"
  by (auto simp: sound_def intro: kept_fewer)

lemma sound_bump: "sound m \<Longrightarrow> is_active g m \<Longrightarrow> sound (m\<lparr>active := bump now g (active m)\<rparr>)"
  by (rule sound_fewer) (auto simp: is_active_iff)

lemma sound_active: "sound m \<Longrightarrow> is_active g m \<Longrightarrow> map_of (hydrating m) g = None \<and> map_of (evicting m) g = None"
  by (auto simp: sound_def kept_def groups_ok_def is_active_iff)

text \<open>What a task does next does not depend on where it stood.\<close>

lemma evict_once_at [simp]:
  "evict_once t g k (at t c m) = evict_once t g k m"
  "evict_once t g k (m\<lparr>pcs := (pcs m)(t := c), active := d\<rparr>) = evict_once t g k (m\<lparr>active := d\<rparr>)"
  by (simp_all add: evict_once_def at_def Let_def split: option.split)

lemma sweep_next_at [simp]: "sweep_next now timeout t cs (at t c m) = sweep_next now timeout t cs m"
proof (induction cs)
  case (Cons p cs)
  obtain h la where "p = (h, la)" by fastforce
  then show ?case using Cons by (simp add: at_def evict_once_at(2))
qed (simp add: at_def)

lemma go_on_at [simp]: "go_on timeout t k (at t c m) = go_on timeout t k m"
proof (cases k)
  case (Close gs)
  then show ?thesis by (cases gs) (simp_all add: go_on_def close_next_def, simp add: at_def)
qed (simp_all add: go_on_def, simp add: at_def)

lemma give_up_at [simp]: "give_up t k (at t c m) = give_up t k m"
  by (simp add: give_up_def at_def split: after.split)

definition may_close :: "mgr \<Rightarrow> after \<Rightarrow> bool" where
  "may_close m k \<longleftrightarrow> (case k of Close gs \<Rightarrow> gs = [] \<or> shutting m \<and> (\<forall>g \<in> set gs. map_of (hydrating m) g = None) | _ \<Rightarrow> True)"

lemma may_close_to_close:
  "may_close m k \<Longrightarrow> c \<in> {Leave g f k, Join f k} \<or> c = Closing g f b k \<Longrightarrow>
   to_close c = [] \<or> shutting m \<and> (\<forall>g \<in> set (to_close c). map_of (hydrating m) g = None)"
  by (cases k) (auto simp: may_close_def)

lemma sound_evict_once:
  assumes "sound m" "map_of (hydrating m) g = None" "may_close m k" "g \<notin> keys m"
  shows "sound (evict_once t g k m)"
proof (cases "map_of (evicting m) g")
  case None
  let ?P = "(pcs m)(t := Leave g (next_fut m) k)"
  have "kept (keys m - {g}) (map_of (hydrating m)) ((map_of (evicting m))(g \<mapsto> next_fut m)) (locks m) (held m) (futs m) (Suc (next_fut m)) ?P"
    using assms(1,2) None by (intro kept_leave) (auto simp: sound_def)
  moreover have "keys m - {g} = keys m" using assms(4) by auto
  moreover have "closing_ok (shutting m) (map_of (hydrating m)) ?P"
    using assms(1) may_close_to_close [OF assms(3), of "Leave g (next_fut m) k" g "next_fut m"] by (intro closing_upd) (auto simp: sound_def)
  ultimately show ?thesis using assms(1) None by (simp add: sound_def evict_once_def at_def Let_def)
next
  case (Some f)
  have "closing_ok (shutting m) (map_of (hydrating m)) ((pcs m)(t := Join f k))"
    using assms(1) may_close_to_close [OF assms(3), of "Join f k" g f] by (intro closing_upd) (auto simp: sound_def)
  then show ?thesis using assms(1) Some by (simp add: sound_def evict_once_def at_def kept_plain plain_def)
qed

lemma sound_evict_active:
  assumes "sound m" "is_active g m" "may_close m k"
  shows "sound (evict_once t g k (m\<lparr>active := dict_del g (active m)\<rparr>))"
proof (rule sound_evict_once)
  show "sound (m\<lparr>active := dict_del g (active m)\<rparr>)" using assms(1) by (rule sound_fewer) auto
  show "may_close (m\<lparr>active := dict_del g (active m)\<rparr>) k" using assms(3) by (cases k) (auto simp: may_close_def)
qed (use sound_active [OF assms(1,2)] in auto)

lemma end_hydrating_some:
  "\<lbrakk>map_of (hydrating m) g = Some f; futs m f = Pending\<rbrakk> \<Longrightarrow>
   end_hydrating g r m = m\<lparr>hydrating := dict_del g (hydrating m), futs := (futs m)(f := r)\<rparr>"
  by (simp add: end_hydrating_def settle_def)

lemma end_evicting_some:
  "\<lbrakk>map_of (evicting m) g = Some f; futs m f = Pending\<rbrakk> \<Longrightarrow>
   end_evicting g r m = m\<lparr>evicting := dict_del g (evicting m), futs := (futs m)(f := r)\<rparr>"
  by (simp add: end_evicting_def settle_def)

lemma kept_pending: "kept A H E L K F n P \<Longrightarrow> H g = Some f \<or> E g = Some f \<Longrightarrow> F f = Pending"
  by (auto simp: kept_def futs_ok_def)

lemma sound_prepare:
  assumes "sound m" "pcs m t = Prepare g f"
  shows "map_of (hydrating m) g = Some f" "futs m f = Pending" "g \<in> held m" "map_of (evicting m) g = None"
proof -
  note k = assms(1) [unfolded sound_def, THEN conjunct1]
  show h: "map_of (hydrating m) g = Some f" "g \<in> held m" using kept_task [OF k assms(2)] by auto
  show "futs m f = Pending" using kept_pending [OF k] h(1) by blast
  show "map_of (evicting m) g = None" using kept_exclusive [OF k h(1)] .
qed

lemma sound_closing:
  assumes "sound m" "pcs m t = Closing g f b k"
  shows "map_of (evicting m) g = Some f" "futs m f = Pending"
proof -
  note k = assms(1) [unfolded sound_def, THEN conjunct1]
  show h: "map_of (evicting m) g = Some f" using kept_task [OF k assms(2)] by auto
  show "futs m f = Pending" using kept_pending [OF k] h by blast
qed

lemma sound_evictor: "sound m \<Longrightarrow> sound (m\<lparr>evictor := e\<rparr>)"
  by (simp add: sound_def)

lemma sound_ensure: "sound m \<Longrightarrow> sound (ensure_evictor e m)"
  by (simp add: ensure_evictor_def sound_at sound_evictor plain_def split: option.split)

lemma ensure_evictor_fields [simp]:
  "active (ensure_evictor e m) = active m" "hydrating (ensure_evictor e m) = hydrating m"
  "evicting (ensure_evictor e m) = evicting m" "held (ensure_evictor e m) = held m" "others (ensure_evictor e m) = others m"
  "locks (ensure_evictor e m) = locks m" "next_fut (ensure_evictor e m) = next_fut m" "shutting (ensure_evictor e m) = shutting m"
  "futs (ensure_evictor e m) = futs m" "busy (ensure_evictor e m) = busy m"
  by (simp_all add: ensure_evictor_def at_def)

lemma to_close_unless: "closing_ok S H P \<Longrightarrow> \<not> S \<Longrightarrow> closing_ok S' H' P"
  by (auto simp: closing_ok_def)

lemma sound_hydrate_enter:
  assumes "sound m" shows "sound (hydrate_enter now e t g m)"
proof (cases "shutting m \<or> is_active g m \<or> map_of (evicting m) g \<noteq> None \<or> map_of (hydrating m) g \<noteq> None")
  case True
  then show ?thesis using assms
    by (auto simp: hydrate_enter_def Let_def is_active_def plain_def split: option.splits
        intro!: sound_at sound_ensure sound_bump [unfolded is_active_def, of "ensure_evictor e m" g, simplified])
next
  case False
  let ?m = "ensure_evictor e m"
  have s: "sound ?m" using assms by (rule sound_ensure)
  then have n: "next_fut m \<le> f \<Longrightarrow> futs m f = Pending" for f by (auto simp: sound_def kept_def futs_ok_def)
  show ?thesis
  proof (cases "g \<in> held m \<union> others m")
    case True
    let ?H = "map_of (dict_del g (dict_set g (next_fut m) (hydrating m)))"
    have H: "?H = map_of (hydrating m)" using False by auto
    have "hydrate_enter now e t g m =
      at t Raised (?m\<lparr>next_fut := next_fut m + 1, hydrating := dict_del g (dict_set g (next_fut m) (hydrating m)),
        futs := (futs m)(next_fut m := Broken)\<rparr>)"
      using False True n [of "next_fut m"]
      by (auto simp: hydrate_enter_def Let_def is_active_def end_hydrating_some)
    then show ?thesis using s H
      by (auto simp: sound_def at_def plain_def intro!: kept_plain closing_upd kept_blocked [simplified])
  next
    case no: False
    have "hydrate_enter now e t g m =
      at t (Prepare g (next_fut m)) (?m\<lparr>hydrating := dict_set g (next_fut m) (hydrating m), next_fut := next_fut m + 1,
        held := insert g (held m)\<rparr>)"
      using False no by (auto simp: hydrate_enter_def Let_def is_active_def)
    moreover have "kept (keys ?m) ((map_of (hydrating ?m))(g \<mapsto> next_fut ?m)) (map_of (evicting ?m)) (locks ?m) (insert g (held ?m)) (futs ?m)
        (Suc (next_fut ?m)) ((pcs ?m)(t := Prepare g (next_fut ?m)))"
      using s False no by (intro kept_prepare) (auto simp: sound_def is_active_iff)
    ultimately show ?thesis using s False no
      by (auto simp: sound_def at_def intro!: closing_upd intro: to_close_unless)
  qed
qed

lemma sound_hydrate_fails:
  assumes "sound m" "pcs m t = Prepare g f" shows "sound (hydrate_fails t g m)"
proof -
  note p = sound_prepare [OF assms]
  have "kept (keys m) ((map_of (hydrating m))(g := None)) (map_of (evicting m)) (locks m) (held m - {g}) ((futs m)(f := Broken))
      (next_fut m) ((pcs m)(t := Raised))"
    using assms by (intro kept_unprepared) (auto simp: sound_def plain_def)
  then show ?thesis using assms(1) p
    by (auto simp: hydrate_fails_def end_hydrating_some sound_def at_def intro!: closing_upd closing_fewer)
qed

lemma find_holds: "find P xs = Some x \<Longrightarrow> P x \<and> x \<in> set xs"
  by (induction xs) (auto split: if_splits)

lemma pick_lru_active: "pick_lru m = Some x \<Longrightarrow> is_active x m \<and> x \<notin> busy m"
  by (auto simp: pick_lru_def is_active_iff dest!: find_holds) force

lemma sound_hydrate_done:
  assumes "sound m" "pcs m t = Prepare g f" shows "sound (hydrate_done now cap t g m)"
proof (cases "shutting m")
  case True
  then show ?thesis using sound_hydrate_fails [OF assms] by (simp add: hydrate_done_def)
next
  case False
  note p = sound_prepare [OF assms]
  define v where "v = (if cap \<le> length (active m) then pick_lru m else None)"
  define rest where "rest = (case v of None \<Rightarrow> active m | Some x \<Rightarrow> dict_del x (active m))"
  define m1 where "m1 = end_hydrating g Done (m\<lparr>locks := insert g (locks m), active := bump now g rest\<rparr>)"
  have m1: "m1 = m\<lparr>locks := insert g (locks m), active := bump now g rest, hydrating := dict_del g (hydrating m), futs := (futs m)(f := Done)\<rparr>"
    using p by (simp add: m1_def end_hydrating_some)
  have k: "kept (insert g (keys m)) ((map_of (hydrating m))(g := None)) (map_of (evicting m)) (insert g (locks m)) (held m)
      ((futs m)(f := Done)) (next_fut m) ((pcs m)(t := Returned))"
    using assms by (intro kept_prepared) (auto simp: sound_def plain_def)
  have "insert g (keys m) \<supseteq> keys m1" by (auto simp: m1 rest_def split: option.splits)
  from kept_fewer [OF k this] have s1: "sound (at t Returned m1)"
    using assms(1) by (auto simp: sound_def at_def m1 intro!: closing_upd closing_fewer)
  have g: "g \<notin> keys m" using sound_active [OF assms(1), of g] p by (auto simp: is_active_iff)
  have e: "hydrate_done now cap t g m = (case v of None \<Rightarrow> at t Returned m1 | Some x \<Rightarrow> evict_once t x Finish m1)"
    unfolding hydrate_done_def Let_def v_def rest_def m1_def using False by simp
  show ?thesis
  proof (cases v)
    case None
    then show ?thesis using e s1 by simp
  next
    case (Some x)
    then have x: "is_active x m" using pick_lru_active by (auto simp: v_def split: if_splits)
    then have "x \<noteq> g" using g by (auto simp: is_active_iff)
    have "sound (evict_once t x Finish (at t Returned m1))"
    proof (rule sound_evict_once [OF s1])
      show "map_of (hydrating (at t Returned m1)) x = None" using sound_active [OF assms(1) x] by (simp add: at_def m1)
      show "x \<notin> keys (at t Returned m1)" using \<open>x \<noteq> g\<close> Some by (simp add: at_def m1 rest_def)
    qed (simp add: may_close_def)
    then show ?thesis using e Some by simp
  qed
qed

lemma sound_exclusive: "sound m \<Longrightarrow> map_of (hydrating m) g = Some f \<Longrightarrow> map_of (evicting m) g = None"
  unfolding sound_def using kept_exclusive by blast

lemma sound_evict_enter:
  assumes "sound m" shows "sound (evict_enter t g m)"
proof (cases "is_active g m")
  case True
  then show ?thesis using sound_evict_active [OF assms True, of Finish] by (simp add: evict_enter_def may_close_def)
next
  case False
  then show ?thesis using assms sound_exclusive [OF assms, of g]
    by (auto simp: evict_enter_def plain_def split: option.splits intro!: sound_at)
qed

lemma sound_evict_resume:
  assumes "sound m" shows "sound (evict_resume t g e m)"
proof -
  have "is_active g m \<Longrightarrow> sound (m\<lparr>active := dict_del g (active m)\<rparr>)" using assms by (intro sound_fewer) auto
  then show ?thesis using assms sound_evict_active [OF assms, of g Finish]
    by (auto simp: evict_resume_def Let_def may_close_def plain_def split: option.splits intro!: sound_at)
qed

lemma sound_sweep_next: "sound m \<Longrightarrow> sound (sweep_next now timeout t cs m)"
proof (induction cs arbitrary: m)
  case (Cons p cs)
  obtain g la where p: "p = (g, la)" by fastforce
  have "map_of (active m) g = Some la \<Longrightarrow> is_active g m" by (auto simp: is_active_iff dest!: map_of_SomeD intro: rev_image_eqI)
  then show ?case using Cons sound_evict_active [OF Cons.prems, of g "Sweep now cs" t] by (auto simp: p may_close_def)
qed (simp add: sound_at plain_def)

lemma sound_close_next:
  assumes "sound m" "shutting m \<Longrightarrow> active m = []"
    "gs = [] \<or> shutting m \<and> (\<forall>g \<in> set gs. map_of (hydrating m) g = None)"
  shows "sound (close_next t gs m)"
  using assms by (cases gs) (auto simp: close_next_def plain_def may_close_def intro!: sound_at sound_evict_once)

lemma sound_go_on:
  assumes "sound m" "shutting m \<Longrightarrow> active m = []" "may_close m k" shows "sound (go_on timeout t k m)"
  using assms by (auto simp: go_on_def may_close_def plain_def split: after.splits intro!: sound_at sound_sweep_next sound_close_next)

lemma sound_give_up: "sound m \<Longrightarrow> sound (give_up t k m)"
  by (cases k) (auto simp: give_up_def plain_def intro!: sound_at)

lemma sound_may_close:
  assumes "sound m" "pcs m t = Closing g f b k \<or> pcs m t = Leave g f k \<or> pcs m t = Join f k" shows "may_close m k"
proof -
  have "to_close (pcs m t) = [] \<or> shutting m \<and> (\<forall>x \<in> set (to_close (pcs m t)). map_of (hydrating m) x = None)"
    using assms(1) by (auto simp: sound_def closing_ok_def)
  then show ?thesis using assms(2) by (cases k) (auto simp: may_close_def)
qed

lemma sound_leave_saved:
  assumes "sound m" "pcs m t = Leave g f k" shows "sound (leave_saved t g f k m)"
proof -
  have "closing_ok (shutting m) (map_of (hydrating m)) ((pcs m)(t := Closing g f (g \<in> locks m) k))"
    using assms(1) may_close_to_close [OF sound_may_close [OF assms(1)], of t g f "g \<in> locks m" k "Closing g f (g \<in> locks m) k"] assms(2)
    by (intro closing_upd) (auto simp: sound_def)
  then show ?thesis using assms by (auto simp: leave_saved_def sound_def at_def intro!: kept_closing)
qed

lemma sound_closed:
  assumes "sound m" "pcs m t = Closing g f b k" "shutting m \<Longrightarrow> active m = []" shows "sound (closed timeout ok t g b k m)"
proof -
  let ?r = "if ok then Done else Broken"
  define m1 where "m1 = end_evicting g ?r (m\<lparr>held := (if b then held m - {g} else held m)\<rparr>)"
  have m1: "m1 = m\<lparr>held := (if b then held m - {g} else held m), evicting := dict_del g (evicting m), futs := (futs m)(f := ?r)\<rparr>"
    using sound_closing [OF assms(1,2)] by (simp add: m1_def end_evicting_some)
  have s: "sound (at t c m1)" if "plain c" "to_close c = []" for c
  proof -
    have "kept (keys m) (map_of (hydrating m)) ((map_of (evicting m))(g := None)) (locks m) (if b then held m - {g} else held m)
        ((futs m)(f := ?r)) (next_fut m) ((pcs m)(t := c))"
      using kept_closed [OF conjunct1 [OF assms(1) [unfolded sound_def]] assms(2) that(1)] .
    then show ?thesis using assms(1) that(2) by (auto simp: sound_def at_def m1 intro!: closing_upd split: if_splits)
  qed
  have "may_close (at t Returned m1) k"
    using sound_may_close [OF assms(1), of t g f b k] assms(2) by (simp add: may_close_def at_def m1 split: after.splits)
  then have "sound (go_on timeout t k (at t Returned m1))" using assms(3) s by (intro sound_go_on) (auto simp: plain_def at_def m1)
  moreover have "sound (give_up t k m1)"
    using s by (auto simp: give_up_def plain_def split: after.splits)
  ultimately show ?thesis unfolding closed_def Let_def m1_def [symmetric] by (simp split: if_split)
qed

lemma sound_cancel:
  assumes "sound m" shows "sound (cancel_task t m)"
proof (cases "pcs m t")
  case (Prepare g f)
  then show ?thesis using assms kept_cancelled [of _ _ _ _ _ _ _ "pcs m" t g f Finish Cancelled]
    by (auto simp: cancel_task_def sound_def at_def plain_def intro!: closing_upd)
next
  case (Closing g f b k)
  then show ?thesis using assms kept_cancelled [of _ _ _ _ _ _ _ "pcs m" t g f k Cancelled]
    by (cases b) (auto simp: cancel_task_def sound_def at_def plain_def intro!: closing_upd kept_plain)
qed (use sound_at [OF assms, of Cancelled t] in \<open>auto simp: cancel_task_def plain_def\<close>)

lemma shutting_idle: "lreach rough cap timeout m \<Longrightarrow> shutting m \<Longrightarrow> active m = []"
proof (induction rule: lreach.induct)
  case (Step m m')
  have once: "shutting (evict_once t g k x) = shutting x \<and> active (evict_once t g k x) = active x" for t g k x
    by (simp add: evict_once_def at_def Let_def split: option.split)
  have sweep: "shutting (sweep_next now timeout t cs x) = shutting x \<and> (active x = [] \<longrightarrow> active (sweep_next now timeout t cs x) = [])"
    for now t cs x
  proof (induction cs arbitrary: x)
    case (Cons p cs)
    obtain g la where "p = (g, la)" by fastforce
    then show ?case using Cons by (simp add: once)
  qed (simp add: at_def)
  have onward: "shutting (go_on timeout t k x) = shutting x \<and> (active x = [] \<longrightarrow> active (go_on timeout t k x) = [])" for t k x
    by (simp add: go_on_def close_next_def at_def once sweep split: after.split list.split)
  have up: "shutting (give_up t k x) = shutting x \<and> active (give_up t k x) = active x" for t k x
    by (simp add: give_up_def at_def split: after.split)
  have hyd: "shutting (end_hydrating g r x) = shutting x \<and> active (end_hydrating g r x) = active x" for g r x
    by (simp add: end_hydrating_def settle_def split: option.split)
  have evi: "shutting (end_evicting g r x) = shutting x \<and> active (end_evicting g r x) = active x" for g r x
    by (simp add: end_evicting_def settle_def split: option.split)
  note d = at_def hyd evi once sweep onward up
  from Step.hyps(2) Step.prems show ?case
  proof cases
    case Hydrate then show ?thesis using Step.IH Step.prems by (auto simp: hydrate_enter_def d Let_def split: if_splits option.splits)
  next
    case Rehydrate then show ?thesis using Step.IH Step.prems by (auto simp: hydrate_enter_def d Let_def split: if_splits option.splits)
  next
    case Prepared
    then show ?thesis using Step.IH Step.prems by (auto simp: hydrate_done_def hydrate_fails_def d Let_def split: if_splits option.splits)
  next
    case Evict then show ?thesis using Step.IH Step.prems by (auto simp: evict_enter_def d is_active_def has_key_def split: if_splits option.splits)
  next
    case EvictOn then show ?thesis using Step.IH Step.prems by (auto simp: evict_resume_def d is_active_def has_key_def Let_def split: if_splits option.splits)
  next
    case Closed then show ?thesis using Step.IH Step.prems by (auto simp: closed_def d Let_def split: if_splits)
  next
    case Joined then show ?thesis using Step.IH Step.prems by (auto simp: d)
  next
    case JoinFails then show ?thesis using Step.IH Step.prems by (auto simp: d)
  next
    case SweepStarts then show ?thesis using Step.IH Step.prems by (auto simp: d)
  next
    case Shutdown then show ?thesis by (simp add: shutdown_enter_def at_def Let_def)
  next
    case Stopped then show ?thesis using Step.IH Step.prems by (auto simp: close_next_def d split: list.splits)
  next
    case Cancel then show ?thesis using Step.IH Step.prems by (auto simp: cancel_task_def d split: pc.splits)
  next
    case (Touch now g) then show ?thesis using Step.IH Step.prems by (cases "is_active g m") (auto simp: touch_def is_active_iff)
  qed (use Step.IH Step.prems in \<open>auto simp: d hydrate_fails_def leave_saved_def\<close>)
qed (simp add: fresh_manager_def)

lemma sound_shutdown_enter:
  assumes "sound m" shows "sound (shutdown_enter t m)"
proof -
  define m1 where "m1 = (case evictor m of None \<Rightarrow> m
    | Some e \<Rightarrow> (if pcs m e \<in> {Returned, Raised, Cancelled} then m else cancel_task e m)\<lparr>evictor := None\<rparr>)"
  have s: "sound m1" using assms by (auto simp: m1_def intro!: sound_evictor sound_cancel split: option.splits)
  have f: "active m1 = active m" "hydrating m1 = hydrating m" "evicting m1 = evicting m"
    by (auto simp: m1_def cancel_task_def at_def split: option.splits pc.splits)
  have "kept {} (map_of (hydrating m1)) (map_of (evicting m1)) (locks m1) (held m1) (futs m1) (next_fut m1)
      ((pcs m1)(t := Stopping (map snd (hydrating m) @ map snd (evicting m)) (map fst (active m))))"
    by (rule kept_plain [OF kept_fewer [OF conjunct1 [OF s [unfolded sound_def]]]]) (simp_all add: plain_def)
  moreover have "map_of (hydrating m1) g = None" if "g \<in> keys m" for g
    using sound_active [OF s, of g] that f by (simp add: is_active_iff)
  moreover have "closing_ok True (map_of (hydrating m1)) (pcs m1)"
    using s by (auto simp: sound_def closing_ok_def)
  ultimately have "sound (at t (Stopping (map snd (hydrating m) @ map snd (evicting m)) (map fst (active m)))
      (m1\<lparr>shutting := True, active := []\<rparr>))"
    using s by (auto simp: sound_def at_def intro!: closing_upd)
  then show ?thesis by (simp add: shutdown_enter_def m1_def)
qed

lemma sound_step:
  assumes "sound m" "shutting m \<Longrightarrow> active m = []" "lstep rough cap timeout m m'" shows "sound m'"
  using assms(3)
proof cases
  case Hydrate then show ?thesis using assms(1) sound_hydrate_enter by simp
next
  case Rehydrate then show ?thesis using assms(1) sound_hydrate_enter by simp
next
  case Prepared then show ?thesis using assms(1) sound_hydrate_done by simp
next
  case PrepareFails then show ?thesis using assms(1) sound_hydrate_fails by simp
next
  case Evict then show ?thesis using assms(1) sound_evict_enter by simp
next
  case EvictOn then show ?thesis using assms(1) sound_evict_resume by simp
next
  case Saved then show ?thesis using assms(1) sound_leave_saved by simp
next
  case Closed then show ?thesis using assms(1,2) sound_closed by simp
next
  case (Joined t f k)
  then show ?thesis using assms(1,2) sound_may_close [OF assms(1), of t 0 f False k] sound_go_on by auto
next
  case JoinFails then show ?thesis using assms(1) sound_give_up by simp
next
  case SweepStarts then show ?thesis using assms(1) sound_sweep_next by simp
next
  case Shutdown then show ?thesis using assms(1) sound_shutdown_enter by simp
next
  case (Stopped t fs gs)
  have "to_close (pcs m t) = [] \<or> shutting m \<and> (\<forall>x \<in> set (to_close (pcs m t)). map_of (hydrating m) x = None)"
    using assms(1) by (auto simp: sound_def closing_ok_def)
  then show ?thesis using Stopped assms(1,2) by (auto intro: sound_close_next)
next
  case Cancel then show ?thesis using assms(1) sound_cancel by simp
next
  case (Touch now g) then show ?thesis using assms(1) sound_bump by (simp add: touch_def)
next
  case Work then show ?thesis using assms(1) by (simp add: sound_def)
next
  case Take then show ?thesis using assms(1) by (auto simp: sound_def)
next
  case Give then show ?thesis using assms(1) by (auto simp: sound_def)
qed (use assms(1) in \<open>auto simp: plain_def intro!: sound_at\<close>)

lemma sound_reach: "lreach rough cap timeout m \<Longrightarrow> sound m"
proof (induction rule: lreach.induct)
  case Start
  show ?case by (simp add: sound_def fresh_manager_def kept_def groups_ok_def futs_ok_def one_leader_def closing_ok_def)
next
  case (Step m m')
  then show ?case using sound_step shutting_idle by blast
qed

definition works_on :: "int \<Rightarrow> pc \<Rightarrow> bool" where
  "works_on g c \<longleftrightarrow>
     (case c of Prepare x _ \<Rightarrow> x = g | Leave x _ _ \<Rightarrow> x = g | Closing x _ _ _ \<Rightarrow> x = g | _ \<Rightarrow> False)"

lemma works_on_lead: "works_on g c \<Longrightarrow> task_ok H E L K c \<Longrightarrow> \<exists>f. lead c = Some f \<and> (H g = Some f \<or> E g = Some f)"
  by (cases c) (auto simp: works_on_def)


text \<open>A worker that hydrates group 7, uses it and, an hour later, sweeps it.\<close>

abbreviation hydrating_7 :: mgr where "hydrating_7 \<equiv> hydrate_enter 0 4 3 7 fresh_manager"
abbreviation active_7 :: mgr where "active_7 \<equiv> hydrate_done 5 20 3 7 hydrating_7"
abbreviation swept_7 :: mgr where "swept_7 \<equiv> sweep_next 3600 1800 4 (sweep_candidates 3600 1800 active_7) active_7"

lemma hydrating_7_is:
  "hydrating_7 = \<lparr>active = [], hydrating = [(7, 0)], evicting = [], locks = {}, shutting = False, evictor = Some 4,
     futs = (\<lambda>_. Pending), next_fut = 1, pcs = (\<lambda>_. Unborn)(4 := Sweeper, 3 := Prepare 7 0), held = {7}, others = {}, busy = {}\<rparr>"
  by (simp add: fresh_manager_def hydrate_enter_def ensure_evictor_def is_active_def at_def Let_def has_key_def)

lemma active_7_is:
  "active_7 = \<lparr>active = [(7, 5)], hydrating = [], evicting = [], locks = {7}, shutting = False, evictor = Some 4,
     futs = (\<lambda>_. Pending)(0 := Done), next_fut = 1, pcs = (\<lambda>_. Unborn)(4 := Sweeper, 3 := Returned), held = {7}, others = {}, busy = {}\<rparr>"
  by (simp add: hydrating_7_is hydrate_done_def end_hydrating_def settle_def at_def bump_def dict_del_def Let_def fun_upd_twist)

lemma swept_7_is:
  "swept_7 = \<lparr>active = [], hydrating = [], evicting = [(7, 1)], locks = {7}, shutting = False, evictor = Some 4,
     futs = (\<lambda>_. Pending)(0 := Done), next_fut = 2, pcs = (\<lambda>_. Unborn)(4 := Leave 7 1 (Sweep 3600 []), 3 := Returned), held = {7},
     others = {}, busy = {}\<rparr>"
  by (simp add: active_7_is sweep_candidates_def evict_once_def at_def dict_del_def Let_def fun_upd_twist)

lemma example_runs: "lreach r 20 1800 hydrating_7" "lreach r 20 1800 active_7" "lreach r 20 1800 swept_7"
proof -
  show h: "lreach r 20 1800 hydrating_7" by (rule lreach.Step [OF lreach.Start lstep.Hydrate]) (simp_all add: fresh_manager_def)
  show a: "lreach r 20 1800 active_7" by (rule lreach.Step [OF h lstep.Prepared [where f = 0]]) (simp add: hydrating_7_is)
  show "lreach r 20 1800 swept_7" by (rule lreach.Step [OF a lstep.SweepStarts]) (simp add: active_7_is)
qed


section \<open>Futures that nobody settles\<close>

text \<open>
  \<open>orphan b g f\<close>: the future of the hydration (\<open>b\<close>) or eviction of \<open>g\<close> is registered but no task leads it.
\<close>

definition entry :: "bool \<Rightarrow> mgr \<Rightarrow> int \<Rightarrow> nat option" where
  "entry b m = (if b then map_of (hydrating m) else map_of (evicting m))"

definition orphan :: "bool \<Rightarrow> int \<Rightarrow> nat \<Rightarrow> mgr \<Rightarrow> bool" where
  "orphan b g f m \<longleftrightarrow> entry b m g = Some f \<and> (\<forall>t. lead (pcs m t) \<noteq> Some f) \<and> f < next_fut m"

lemma orphan_fields [simp]:
  "orphan b g f (m\<lparr>active := x1\<rparr>) = orphan b g f m" "orphan b g f (m\<lparr>locks := x2\<rparr>) = orphan b g f m"
  "orphan b g f (m\<lparr>held := x3\<rparr>) = orphan b g f m" "orphan b g f (m\<lparr>others := x4\<rparr>) = orphan b g f m"
  "orphan b g f (m\<lparr>busy := x5\<rparr>) = orphan b g f m" "orphan b g f (m\<lparr>shutting := x6\<rparr>) = orphan b g f m"
  "orphan b g f (m\<lparr>evictor := x7\<rparr>) = orphan b g f m" "orphan b g f (m\<lparr>futs := x8\<rparr>) = orphan b g f m"
  by (simp_all add: orphan_def entry_def)

lemma orphan_at: "\<lbrakk>orphan b g f m; lead c \<noteq> Some f\<rbrakk> \<Longrightarrow> orphan b g f (at t c m)"
  by (auto simp: orphan_def entry_def at_def)

lemma orphan_evict_once: "orphan b g f m \<Longrightarrow> orphan b g f (evict_once t x k m)"
  by (auto simp: orphan_def entry_def at_def evict_once_def Let_def split: option.split if_splits)

lemma orphan_sweep_next: "orphan b g f m \<Longrightarrow> orphan b g f (sweep_next now timeout t cs m)"
proof (induction cs arbitrary: m)
  case (Cons p cs)
  obtain h la where "p = (h, la)" by fastforce
  then show ?case using Cons by (simp add: orphan_evict_once)
qed (simp add: orphan_at)

lemma orphan_close_next: "orphan b g f m \<Longrightarrow> orphan b g f (close_next t gs m)"
  by (cases gs) (simp_all add: close_next_def orphan_at orphan_evict_once)

lemma orphan_onward: "orphan b g f m \<Longrightarrow> orphan b g f (go_on timeout t k m)" "orphan b g f m \<Longrightarrow> orphan b g f (give_up t k m)"
  by (simp_all add: go_on_def give_up_def orphan_at orphan_sweep_next orphan_close_next split: after.split)

lemma orphan_end_hydrating:
  "\<lbrakk>orphan b g f m; map_of (hydrating m) x \<noteq> Some f\<rbrakk> \<Longrightarrow> orphan b g f (end_hydrating x r m)"
  by (auto simp: end_hydrating_def settle_def orphan_def entry_def split: option.split if_splits)

lemma orphan_end_evicting:
  "\<lbrakk>orphan b g f m; map_of (evicting m) x \<noteq> Some f\<rbrakk> \<Longrightarrow> orphan b g f (end_evicting x r m)"
  by (auto simp: end_evicting_def settle_def orphan_def entry_def split: option.split if_splits)

lemma orphan_ensure: "orphan b g f m \<Longrightarrow> orphan b g f (ensure_evictor e m)"
  by (simp add: ensure_evictor_def orphan_at split: option.split)

lemma orphan_hydrate_enter:
  assumes "orphan b g f m" shows "orphan b g f (hydrate_enter now e t x m)"
proof -
  let ?m = "ensure_evictor e m"
  have o: "orphan b g f ?m" using assms by (rule orphan_ensure)
  have lt: "f < next_fut m" using assms by (simp add: orphan_def)
  let ?n = "?m\<lparr>hydrating := dict_set x (next_fut m) (hydrating m), next_fut := next_fut m + 1\<rparr>"
  have n: "orphan b g f ?n" if "map_of (hydrating m) x = None" using o that by (auto simp: orphan_def entry_def)
  have "map_of (hydrating ?n) x \<noteq> Some f" using lt by simp
  then show ?thesis using o n lt assms
    by (auto simp: hydrate_enter_def Let_def is_active_def intro!: orphan_at orphan_end_hydrating split: option.split)
qed

lemma orphan_step:
  assumes "sound m" "orphan b g f m" "lstep rough cap timeout m m'" shows "orphan b g f m'"
proof -
  have no: "lead (pcs m t) \<noteq> Some f" for t using assms(2) by (simp add: orphan_def)
  have lt: "f < next_fut m" using assms(2) by (simp add: orphan_def)
  from assms(3) show ?thesis
  proof cases
    case (Prepared t x f') then show ?thesis
      using assms(2) no [of t] sound_prepare(1) [OF assms(1), of t x f']
      by (auto simp: hydrate_done_def hydrate_fails_def Let_def intro!: orphan_at orphan_evict_once orphan_end_hydrating split: option.split)
  next
    case (PrepareFails t x f') then show ?thesis
      using assms(2) no [of t] sound_prepare(1) [OF assms(1), of t x f']
      by (auto simp: hydrate_fails_def intro!: orphan_at orphan_end_hydrating)
  next
    case (Evict t x) then show ?thesis using assms(2)
      by (auto simp: evict_enter_def intro!: orphan_at orphan_evict_once split: option.split)
  next
    case (EvictOn t x f' e) then show ?thesis using assms(2)
      by (auto simp: evict_resume_def Let_def intro!: orphan_at orphan_evict_once split: option.split)
  next
    case (Saved t x f' k) then show ?thesis using assms(2) no [of t] by (auto simp: leave_saved_def intro!: orphan_at)
  next
    case (Closed t x f' c k ok) then show ?thesis
      using assms(2) no [of t] sound_closing(1) [OF assms(1), of t x f' c k]
      by (auto simp: closed_def Let_def intro!: orphan_onward orphan_end_evicting)
  next
    case (Shutdown t) then show ?thesis using assms(2)
      by (auto simp: shutdown_enter_def cancel_task_def Let_def intro!: orphan_at split: option.split pc.split)
  next
    case (Cancel t) then show ?thesis using assms(2) by (auto simp: cancel_task_def intro!: orphan_at split: pc.split)
  qed (use assms(2) in \<open>auto simp: touch_def intro!: orphan_at orphan_onward orphan_sweep_next orphan_close_next orphan_hydrate_enter\<close>)
qed

abbreviation lsteps :: "bool \<Rightarrow> nat \<Rightarrow> int \<Rightarrow> mgr \<Rightarrow> mgr \<Rightarrow> bool" where
  "lsteps rough cap timeout \<equiv> rtranclp (lstep rough cap timeout)"

lemma lstep_rough: "lstep rough cap timeout m m' \<Longrightarrow> lstep True cap timeout m m'"
  by (induction rule: lstep.induct) (auto intro: lstep.intros)

lemma lreach_rough: "lreach rough cap timeout m \<Longrightarrow> lreach True cap timeout m"
  by (induction rule: lreach.induct) (auto intro: lreach.intros lstep_rough)

lemma lreach_steps: "lreach True cap timeout m \<Longrightarrow> lsteps rough cap timeout m m' \<Longrightarrow> lreach True cap timeout m'"
  by (rotate_tac, induction rule: rtranclp_induct) (auto intro: lreach.Step lstep_rough)

lemma orphan_steps:
  "\<lbrakk>lsteps rough cap timeout m m'; lreach True cap timeout m; orphan b g f m\<rbrakk> \<Longrightarrow> orphan b g f m'"
proof (induction rule: rtranclp_induct)
  case (step x y)
  have "sound x" using lreach_steps [OF step.prems(1) step.hyps(1)] by (rule sound_reach)
  then show ?case using orphan_step step by blast
qed

lemma sound_entry: "sound m \<Longrightarrow> entry b m g = Some f \<Longrightarrow> futs m f = Pending \<and> f < next_fut m \<and> \<not> is_active g m"
  using sound_active [of m g] unfolding sound_def kept_def futs_ok_def entry_def by (auto split: if_splits)

lemma orphan_cancel:
  assumes "sound m" "lead (pcs m t) = Some f" "entry b m g = Some f" shows "orphan b g f (cancel_task t m)"
proof -
  have "lead (pcs m t') \<noteq> Some f" if "t' \<noteq> t" for t'
    using assms(1,2) that by (auto simp: sound_def kept_def one_leader_def)
  moreover have "entry b (cancel_task t m) g = Some f" "next_fut (cancel_task t m) = next_fut m"
    using assms(3) by (cases "pcs m t"; cases b; simp add: cancel_task_def entry_def at_def)+
  ultimately show ?thesis using sound_entry [OF assms(1,3)]
    by (auto simp: orphan_def cancel_task_def at_def split: pc.splits if_splits)
qed



text \<open>The shutdown waits for the evictions that were under way when it cancelled the background loop.\<close>

definition stopping_for :: "nat \<Rightarrow> nat \<Rightarrow> mgr \<Rightarrow> bool" where
  "stopping_for t f m \<longleftrightarrow> shutting m \<and> evictor m = None \<and> (\<exists>fs gs. pcs m t = Stopping fs gs \<and> f \<in> set fs)"

lemma stopping_evict_once: "stopping_for t f m \<Longrightarrow> t' \<noteq> t \<Longrightarrow> stopping_for t f (evict_once t' g k m)"
  by (auto simp: stopping_for_def evict_once_def at_def Let_def split: option.split)

lemma stopping_at: "stopping_for t f m \<Longrightarrow> t' \<noteq> t \<Longrightarrow> stopping_for t f (at t' c m)"
  by (auto simp: stopping_for_def at_def)

lemma stopping_fields [simp]:
  "stopping_for t f (m\<lparr>active := x1\<rparr>) = stopping_for t f m" "stopping_for t f (m\<lparr>locks := x2\<rparr>) = stopping_for t f m"
  "stopping_for t f (m\<lparr>held := x3\<rparr>) = stopping_for t f m" "stopping_for t f (m\<lparr>others := x4\<rparr>) = stopping_for t f m"
  "stopping_for t f (m\<lparr>busy := x5\<rparr>) = stopping_for t f m" "stopping_for t f (m\<lparr>futs := x6\<rparr>) = stopping_for t f m"
  "stopping_for t f (m\<lparr>hydrating := x7\<rparr>) = stopping_for t f m" "stopping_for t f (m\<lparr>evicting := x8\<rparr>) = stopping_for t f m"
  by (simp_all add: stopping_for_def)

lemma stopping_end: "stopping_for t f m \<Longrightarrow> stopping_for t f (end_hydrating g r m)" "stopping_for t f m \<Longrightarrow> stopping_for t f (end_evicting g r m)"
  by (simp_all add: end_hydrating_def end_evicting_def settle_def split: option.split)

lemma stopping_sweep_next: "stopping_for t f m \<Longrightarrow> t' \<noteq> t \<Longrightarrow> stopping_for t f (sweep_next now timeout t' cs m)"
proof (induction cs arbitrary: m)
  case (Cons p cs)
  obtain h la where "p = (h, la)" by fastforce
  then show ?case using Cons by (simp add: stopping_evict_once)
qed (simp add: stopping_at)

lemma stopping_onward: "stopping_for t f m \<Longrightarrow> t' \<noteq> t \<Longrightarrow> stopping_for t f (go_on timeout t' k m)"
  "stopping_for t f m \<Longrightarrow> t' \<noteq> t \<Longrightarrow> stopping_for t f (give_up t' k m)"
  by (auto simp: go_on_def give_up_def close_next_def intro: stopping_at stopping_sweep_next stopping_evict_once split: after.split list.split)

lemma stopping_step:
  assumes "stopping_for t f m" "futs m f = Pending" "lstep False cap timeout m m'" shows "stopping_for t f m'"
proof -
  obtain fs gs where p: "pcs m t = Stopping fs gs" "f \<in> set fs" using assms(1) by (auto simp: stopping_for_def)
  have sh: "shutting m" "evictor m = None" using assms(1) by (auto simp: stopping_for_def)
  from assms(3) show ?thesis
  proof cases
    case (Hydrate t') then show ?thesis using assms(1) sh p by (auto simp: hydrate_enter_def intro!: stopping_at)
  next
    case (Rehydrate t') then show ?thesis using assms(1) sh p by (auto simp: hydrate_enter_def intro!: stopping_at)
  next
    case (Prepared t') then show ?thesis using assms(1) sh p
      by (auto simp: hydrate_done_def hydrate_fails_def intro!: stopping_at stopping_end)
  next
    case (PrepareFails t') then show ?thesis using assms(1) p by (auto simp: hydrate_fails_def intro!: stopping_at stopping_end)
  next
    case (Evict t') then show ?thesis using assms(1) p
      by (auto simp: evict_enter_def intro!: stopping_at stopping_evict_once split: option.split)
  next
    case (EvictOn t') then show ?thesis using assms(1) p
      by (auto simp: evict_resume_def Let_def intro!: stopping_at stopping_evict_once split: option.split)
  next
    case (Saved t') then show ?thesis using assms(1) p by (auto simp: leave_saved_def intro!: stopping_at)
  next
    case (Closed t') then show ?thesis using assms(1) p by (auto simp: closed_def Let_def intro!: stopping_onward stopping_end)
  next
    case (Shutdown t') then show ?thesis using assms(1) sh p by (auto simp: shutdown_enter_def stopping_for_def at_def)
  next
    case (Stopped t' fs' gs')
    then have "t' \<noteq> t" using p assms(2) by (auto simp: list_all_iff)
    then show ?thesis using Stopped(1) stopping_onward(1) [OF assms(1), of t' timeout "Close gs'"] by (simp add: go_on_def)
  qed (use assms(1) p in \<open>auto simp: touch_def intro!: stopping_at stopping_onward stopping_sweep_next\<close>)
qed

text \<open>
  A shutdown that cancels the background loop while it evicts a group waits for that eviction for ever,
  although nothing goes wrong afterwards.
\<close>

theorem shutdown_waits_for_ever:
  assumes "lreach rough cap timeout m" "evictor m = Some e" "lead (pcs m e) = Some f" "map_of (evicting m) g = Some f"
    and "pcs m t = Unborn" "lsteps False cap timeout (shutdown_enter t m) m'"
  shows "\<exists>fs gs. pcs m' t = Stopping fs gs \<and> f \<in> set fs \<and> futs m' f = Pending"
proof -
  have r: "lreach True cap timeout m" using assms(1) by (rule lreach_rough)
  then have s: "sound m" by (rule sound_reach)
  let ?m = "shutdown_enter t m"
  have ne: "e \<noteq> t" and notend: "pcs m e \<notin> {Returned, Raised, Cancelled}" using assms(3,5) by auto
  have R: "lreach True cap timeout ?m" by (rule lreach.Step [OF r Shutdown]) (simp_all add: assms(5))
  have "orphan False g f (cancel_task e m)" using s assms(3,4) by (intro orphan_cancel) (simp_all add: entry_def)
  then have O: "orphan False g f ?m" using assms(2) notend
    by (auto simp: shutdown_enter_def Let_def intro!: orphan_at)
  have "f \<in> set (map snd (evicting m))" using assms(4) by (auto dest!: map_of_SomeD intro: rev_image_eqI)
  then have S: "stopping_for t f ?m" by (auto simp: shutdown_enter_def Let_def stopping_for_def at_def assms(2))
  have "lreach True cap timeout m' \<and> orphan False g f m' \<and> stopping_for t f m'"
    using assms(6)
  proof (induction rule: rtranclp_induct)
    case base
    then show ?case using R O S by blast
  next
    case (step x y)
    have sx: "sound x" using step.IH sound_reach by blast
    have "futs x f = Pending" using sound_entry [OF sx, of False g f] step.IH by (simp add: orphan_def)
    then have "stopping_for t f y" using step.IH step.hyps(2) stopping_step by blast
    moreover have "orphan False g f y" using orphan_step [OF sx _ step.hyps(2)] step.IH by blast
    moreover have "lreach True cap timeout y" using lreach.Step [OF _ lstep_rough [OF step.hyps(2)]] step.IH by blast
    ultimately show ?case by blast
  qed
  then have "sound m'" "entry False m' g = Some f" "stopping_for t f m'" by (auto intro: sound_reach simp: orphan_def)
  then show ?thesis using sound_entry by (auto simp: stopping_for_def)
qed

theorem shutdown_waits_for_ever_witness:
  "\<exists>fs gs. pcs (shutdown_enter 9 swept_7) 9 = Stopping fs gs \<and> 1 \<in> set fs \<and> futs (shutdown_enter 9 swept_7) 1 = Pending"
  by (rule shutdown_waits_for_ever [OF example_runs(3), where e = 4 and g = 7]) (simp_all add: swept_7_is)

section \<open>Without cancellation nobody waits in vain\<close>

fun waits :: "pc \<Rightarrow> nat list" where
  "waits (AwaitEvicted g f) = [f]"
| "waits (Follow g f) = [f]"
| "waits (Join f k) = [f]"
| "waits (EvictInflight g f e) = f # (case e of None \<Rightarrow> [] | Some x \<Rightarrow> [x])"
| "waits (Stopping fs gs) = fs"
| "waits _ = []"

definition pend :: "(int \<Rightarrow> nat option) \<Rightarrow> (int \<Rightarrow> nat option) \<Rightarrow> nat \<Rightarrow> bool" where
  "pend H E f \<longleftrightarrow> (\<exists>g. H g = Some f \<or> E g = Some f)"

definition calm :: "(int \<Rightarrow> nat option) \<Rightarrow> (int \<Rightarrow> nat option) \<Rightarrow> (nat \<Rightarrow> outcome) \<Rightarrow> (nat \<Rightarrow> pc) \<Rightarrow> bool" where
  "calm H E F P \<longleftrightarrow> (\<forall>f. pend H E f \<longrightarrow> (\<exists>t. lead (P t) = Some f)) \<and>
     (\<forall>t. \<forall>f \<in> set (waits (P t)). F f = Pending \<longrightarrow> pend H E f)"

lemma calm_plain:
  assumes "calm H E F P" "lead (P t) = None" "\<And>f. f \<in> set (waits c) \<Longrightarrow> F f = Pending \<Longrightarrow> pend H E f"
  shows "calm H E F (P(t := c))"
proof -
  have "\<exists>t'. lead ((P(t := c)) t') = Some f" if f: "pend H E f" for f
  proof -
    obtain t' where "lead (P t') = Some f" using assms(1) f unfolding calm_def by blast
    then show ?thesis using assms(2) by (intro exI [of _ t']) auto
  qed
  then show ?thesis using assms(1,3) by (auto simp: calm_def)
qed

lemma calm_begin:
  assumes "calm H E F P" "lead (P t) = None" "lead c = Some n" "waits c = []"
    "\<And>f. pend H' E' f \<longleftrightarrow> f = n \<or> pend H E f"
  shows "calm H' E' F (P(t := c))"
proof -
  have "\<exists>t'. lead ((P(t := c)) t') = Some f" if f: "pend H' E' f" for f
  proof (cases "f = n")
    case True
    then show ?thesis using assms(3) by (intro exI [of _ t]) simp
  next
    case False
    then have "pend H E f" using assms(5) f by blast
    then obtain t' where "lead (P t') = Some f" using assms(1) unfolding calm_def by blast
    then show ?thesis using assms(2) by (intro exI [of _ t']) auto
  qed
  then show ?thesis using assms(1,4,5) by (auto simp: calm_def)
qed

lemma calm_end:
  assumes "calm H E F P" "lead (P t) = Some f" "waits c = []" "r \<noteq> Pending"
    "\<And>x. pend H' E' x \<longleftrightarrow> x \<noteq> f \<and> pend H E x"
  shows "calm H' E' (F(f := r)) (P(t := c))"
proof -
  have "\<exists>t'. lead ((P(t := c)) t') = Some x" if x: "pend H' E' x" for x
  proof -
    have n: "x \<noteq> f" "pend H E x" using assms(5) x by blast+
    then obtain t' where "lead (P t') = Some x" using assms(1) unfolding calm_def by blast
    then show ?thesis using assms(2) n(1) by (intro exI [of _ t']) auto
  qed
  then show ?thesis using assms(1,3,4,5) by (auto simp: calm_def)
qed

definition calmly :: "mgr \<Rightarrow> bool" where
  "calmly m \<longleftrightarrow> calm (map_of (hydrating m)) (map_of (evicting m)) (futs m) (pcs m)"

lemma calmly_fields [simp]:
  "calmly (m\<lparr>active := x1\<rparr>) = calmly m" "calmly (m\<lparr>locks := x2\<rparr>) = calmly m" "calmly (m\<lparr>held := x3\<rparr>) = calmly m"
  "calmly (m\<lparr>others := x4\<rparr>) = calmly m" "calmly (m\<lparr>busy := x5\<rparr>) = calmly m" "calmly (m\<lparr>shutting := x6\<rparr>) = calmly m"
  "calmly (m\<lparr>evictor := x7\<rparr>) = calmly m" "calmly (m\<lparr>next_fut := x8\<rparr>) = calmly m"
  by (simp_all add: calmly_def)

definition pending :: "mgr \<Rightarrow> nat \<Rightarrow> bool" where
  "pending m = pend (map_of (hydrating m)) (map_of (evicting m))"

lemma calmly_at:
  "\<lbrakk>calmly m; lead (pcs m t) = None; \<And>f. f \<in> set (waits c) \<Longrightarrow> futs m f = Pending \<Longrightarrow> pending m f\<rbrakk> \<Longrightarrow> calmly (at t c m)"
  by (simp add: calmly_def pending_def at_def calm_plain)

lemma calmly_quiet: "\<lbrakk>calmly m; lead (pcs m t) = None; waits c = []\<rbrakk> \<Longrightarrow> calmly (at t c m)"
  by (rule calmly_at) simp_all

lemma pending_entry: "map_of (hydrating m) g = Some f \<or> map_of (evicting m) g = Some f \<Longrightarrow> pending m f"
  by (auto simp: pending_def pend_def)

lemma pend_begin: "H g = None \<Longrightarrow> pend (H(g \<mapsto> n)) E f \<longleftrightarrow> f = n \<or> pend H E f" "E g = None \<Longrightarrow> pend H (E(g \<mapsto> n)) f \<longleftrightarrow> f = n \<or> pend H E f"
proof -
  show "H g = None \<Longrightarrow> pend (H(g \<mapsto> n)) E f \<longleftrightarrow> f = n \<or> pend H E f"
    unfolding pend_def by (metis fun_upd_apply option.distinct(1) option.inject)
  show "E g = None \<Longrightarrow> pend H (E(g \<mapsto> n)) f \<longleftrightarrow> f = n \<or> pend H E f"
    unfolding pend_def by (metis fun_upd_apply option.distinct(1) option.inject)
qed

lemma calmly_evict_once:
  assumes "calmly m" "lead (pcs m t) = None" shows "calmly (evict_once t g k m)"
proof (cases "map_of (evicting m) g")
  case None
  have "calm (map_of (hydrating m)) ((map_of (evicting m))(g \<mapsto> next_fut m)) (futs m) ((pcs m)(t := Leave g (next_fut m) k))"
    using assms None by (intro calm_begin [where n = "next_fut m"]) (auto simp: calmly_def pend_begin)
  then show ?thesis using None by (simp add: evict_once_def calmly_def at_def Let_def)
next
  case (Some f)
  then show ?thesis using assms pending_entry [of m g f] by (auto simp: evict_once_def intro!: calmly_at)
qed

lemma calmly_sweep_next: "\<lbrakk>calmly m; lead (pcs m t) = None\<rbrakk> \<Longrightarrow> calmly (sweep_next now timeout t cs m)"
proof (induction cs arbitrary: m)
  case (Cons p cs)
  obtain h la where "p = (h, la)" by fastforce
  then show ?case using Cons by (simp add: calmly_evict_once)
qed (simp add: calmly_quiet)

lemma calmly_onward:
  assumes "calmly m" "lead (pcs m t) = None" shows "calmly (go_on timeout t k m)" "calmly (give_up t k m)"
  using assms by (auto simp: go_on_def give_up_def close_next_def calmly_quiet calmly_sweep_next calmly_evict_once split: after.split list.split)

lemma sound_entry_unique:
  assumes "sound m" "map_of (hydrating m) y = Some f \<or> map_of (evicting m) y = Some f"
    "map_of (hydrating m) z = Some f \<or> map_of (evicting m) z = Some f"
  shows "y = z"
  using assms unfolding sound_def kept_def futs_ok_def by blast

lemma pend_end_hydrating:
  assumes "sound m" "map_of (hydrating m) g = Some f"
  shows "pend ((map_of (hydrating m))(g := None)) (map_of (evicting m)) x \<longleftrightarrow> x \<noteq> f \<and> pending m x"
proof
  assume "pend ((map_of (hydrating m))(g := None)) (map_of (evicting m)) x"
  then obtain y where y: "y \<noteq> g \<and> map_of (hydrating m) y = Some x \<or> map_of (evicting m) y = Some x"
    by (auto simp: pend_def split: if_splits)
  have "x \<noteq> f"
  proof
    assume "x = f"
    then have "y = g" using sound_entry_unique [OF assms(1), of y f g] y assms(2) by blast
    then show False using y sound_exclusive [OF assms] by auto
  qed
  then show "x \<noteq> f \<and> pending m x" using y by (auto simp: pending_def pend_def)
next
  assume x: "x \<noteq> f \<and> pending m x"
  then obtain y where "map_of (hydrating m) y = Some x \<or> map_of (evicting m) y = Some x" by (auto simp: pending_def pend_def)
  then show "pend ((map_of (hydrating m))(g := None)) (map_of (evicting m)) x"
    using x assms(2) unfolding pend_def by (intro exI [of _ y]) auto
qed

lemma pend_end_evicting:
  assumes "sound m" "map_of (evicting m) g = Some f"
  shows "pend (map_of (hydrating m)) ((map_of (evicting m))(g := None)) x \<longleftrightarrow> x \<noteq> f \<and> pending m x"
proof
  assume "pend (map_of (hydrating m)) ((map_of (evicting m))(g := None)) x"
  then obtain y where y: "map_of (hydrating m) y = Some x \<or> y \<noteq> g \<and> map_of (evicting m) y = Some x"
    by (auto simp: pend_def split: if_splits)
  have "x \<noteq> f"
  proof
    assume "x = f"
    then have "y = g" using sound_entry_unique [OF assms(1), of y f g] y assms(2) by blast
    then show False using y sound_exclusive [OF assms(1), of g x] assms(2) by auto
  qed
  then show "x \<noteq> f \<and> pending m x" using y by (auto simp: pending_def pend_def)
next
  assume x: "x \<noteq> f \<and> pending m x"
  then obtain y where "map_of (hydrating m) y = Some x \<or> map_of (evicting m) y = Some x" by (auto simp: pending_def pend_def)
  then show "pend (map_of (hydrating m)) ((map_of (evicting m))(g := None)) x"
    using x assms(2) unfolding pend_def by (intro exI [of _ y]) auto
qed

lemma calmly_end_hydrating:
  assumes "calmly m" "sound m" "pcs m t = Prepare g f" "waits c = []" "r \<noteq> Pending"
  shows "calmly (at t c (end_hydrating g r m))"
proof -
  note p = sound_prepare [OF assms(2,3)]
  have "calm ((map_of (hydrating m))(g := None)) (map_of (evicting m)) ((futs m)(f := r)) ((pcs m)(t := c))"
    using assms pend_end_hydrating [OF assms(2) p(1)] by (intro calm_end [where H = "map_of (hydrating m)" and E = "map_of (evicting m)"])
      (auto simp: calmly_def pending_def)
  then show ?thesis using p by (simp add: end_hydrating_some calmly_def at_def)
qed

lemma calmly_end_evicting:
  assumes "calmly m" "sound m" "pcs m t = Closing g f b k" "waits c = []" "r \<noteq> Pending"
  shows "calmly (at t c (end_evicting g r m))"
proof -
  note p = sound_closing [OF assms(2,3)]
  have "calm (map_of (hydrating m)) ((map_of (evicting m))(g := None)) ((futs m)(f := r)) ((pcs m)(t := c))"
    using assms pend_end_evicting [OF assms(2) p(1)] by (intro calm_end [where H = "map_of (hydrating m)" and E = "map_of (evicting m)"])
      (auto simp: calmly_def pending_def)
  then show ?thesis using p by (simp add: end_evicting_some calmly_def at_def)
qed

lemma calmly_ensure:
  "\<lbrakk>calmly m; pcs m e = Unborn\<rbrakk> \<Longrightarrow> calmly (ensure_evictor e m)"
  "lead (pcs m t) = None \<Longrightarrow> lead (pcs (ensure_evictor e m) t) = None"
  by (auto simp: ensure_evictor_def intro!: calmly_quiet split: option.split) (auto simp: at_def)

lemma calmly_settle_fresh:
  "\<lbrakk>calmly m; r \<noteq> Pending\<rbrakk> \<Longrightarrow> calmly (m\<lparr>futs := (futs m)(f := r)\<rparr>)"
  by (auto simp: calmly_def calm_def)

lemma calmly_same_hydrating:
  "\<lbrakk>calmly m; map_of d = map_of (hydrating m)\<rbrakk> \<Longrightarrow> calmly (m\<lparr>hydrating := d\<rparr>)"
  by (simp add: calmly_def)

lemma calmly_hydrate_enter:
  assumes "calmly m" "lead (pcs m t) = None" "pcs m e = Unborn" "sound m" shows "calmly (hydrate_enter now e t g m)"
proof (cases "shutting m \<or> is_active g m \<or> map_of (evicting m) g \<noteq> None \<or> map_of (hydrating m) g \<noteq> None")
  case True
  have "pending (ensure_evictor e m) x" if "map_of (evicting m) g = Some x \<or> map_of (hydrating m) g = Some x" for x
    using pending_entry [of "ensure_evictor e m" g x] that by auto
  then show ?thesis using assms True
    by (auto simp: hydrate_enter_def Let_def is_active_def calmly_ensure split: option.split intro!: calmly_at)
next
  case False
  let ?m = "ensure_evictor e m"
  have c: "calmly ?m" "lead (pcs ?m t) = None" using assms calmly_ensure by auto
  have n: "futs m (next_fut m) = Pending" using assms(4) by (simp add: sound_def kept_def futs_ok_def)
  show ?thesis
  proof (cases "g \<in> held m \<union> others m")
    case True
    have H: "map_of (dict_del g (dict_set g (next_fut m) (hydrating m))) = map_of (hydrating m)" using False by auto
    have "hydrate_enter now e t g m =
      at t Raised (?m\<lparr>next_fut := next_fut m + 1, hydrating := dict_del g (dict_set g (next_fut m) (hydrating m)),
        futs := (futs m)(next_fut m := Broken)\<rparr>)"
      using False True n by (auto simp: hydrate_enter_def Let_def is_active_def end_hydrating_some)
    moreover have "calmly (?m\<lparr>next_fut := next_fut m + 1, hydrating := dict_del g (dict_set g (next_fut m) (hydrating m)),
        futs := (futs m)(next_fut m := Broken)\<rparr>)"
      using calmly_settle_fresh [of "?m\<lparr>next_fut := next_fut m + 1, hydrating := dict_del g (dict_set g (next_fut m) (hydrating m))\<rparr>" Broken "next_fut m"]
        calmly_same_hydrating [of "?m\<lparr>next_fut := next_fut m + 1\<rparr>"] c(1) H by simp
    ultimately show ?thesis using c(2) by (simp add: calmly_quiet)
  next
    case no: False
    have "hydrate_enter now e t g m =
      at t (Prepare g (next_fut m)) (?m\<lparr>hydrating := dict_set g (next_fut m) (hydrating m), next_fut := next_fut m + 1,
        held := insert g (held m)\<rparr>)"
      using False no by (auto simp: hydrate_enter_def Let_def is_active_def)
    moreover have "calm ((map_of (hydrating m))(g \<mapsto> next_fut m)) (map_of (evicting m)) (futs m) ((pcs ?m)(t := Prepare g (next_fut m)))"
      using c False by (intro calm_begin [where n = "next_fut m" and H = "map_of (hydrating m)" and E = "map_of (evicting m)"])
        (auto simp: calmly_def pend_begin)
    ultimately show ?thesis by (simp add: calmly_def at_def)
  qed
qed

lemma end_fields:
  "end_hydrating g r (m\<lparr>locks := L, active := A\<rparr>) = (end_hydrating g r m)\<lparr>locks := L, active := A\<rparr>"
  "end_evicting g r (m\<lparr>held := B\<rparr>) = (end_evicting g r m)\<lparr>held := B\<rparr>"
  by (simp_all add: end_hydrating_def end_evicting_def settle_def split: option.split)

lemma at_fields:
  "at t c (m\<lparr>locks := L, active := A\<rparr>) = (at t c m)\<lparr>locks := L, active := A\<rparr>" "at t c (m\<lparr>held := B\<rparr>) = (at t c m)\<lparr>held := B\<rparr>"
  "lead (pcs (at t c m) t) = lead c"
  by (simp_all add: at_def)

lemma calmly_hydrate_done:
  assumes "calmly m" "sound m" "pcs m t = Prepare g f" shows "calmly (hydrate_done now cap t g m)" "calmly (hydrate_fails t g m)"
proof -
  have e: "calmly (at t c (end_hydrating g r m))" if "waits c = []" "r \<noteq> Pending" for c r
    using calmly_end_hydrating [OF assms(1,2,3) that] .
  show fails: "calmly (hydrate_fails t g m)" using e [of Raised Broken] by (simp add: hydrate_fails_def at_fields)
  have go: "calmly (evict_once t x Finish ((end_hydrating g Done m)\<lparr>locks := L, active := A\<rparr>))" for x L A
  proof -
    have "calmly (at t Returned ((end_hydrating g Done m)\<lparr>locks := L, active := A\<rparr>))" using e [of Returned Done] by (simp add: at_fields)
    then have "calmly (evict_once t x Finish (at t Returned ((end_hydrating g Done m)\<lparr>locks := L, active := A\<rparr>)))"
      by (rule calmly_evict_once) (simp add: at_fields)
    then show ?thesis by simp
  qed
  show "calmly (hydrate_done now cap t g m)" using fails go e [of Returned Done]
    by (simp add: hydrate_done_def Let_def end_fields at_fields split: option.split)
qed

lemma calmly_closed:
  assumes "calmly m" "sound m" "pcs m t = Closing g f b k" shows "calmly (closed timeout ok t g b k m)"
proof -
  define n where "n = end_evicting g (if ok then Done else Broken) (m\<lparr>held := (if b then held m - {g} else held m)\<rparr>)"
  have "calmly (at t Returned n)" using calmly_end_evicting [OF assms, of Returned] by (simp add: n_def end_fields at_fields)
  then have "calmly (go_on timeout t k (at t Returned n))" "calmly (give_up t k (at t Returned n))"
    by (rule calmly_onward; simp add: at_fields)+
  then show ?thesis by (simp add: closed_def Let_def n_def [symmetric])
qed

lemma calmly_evict:
  assumes "calmly m" "lead (pcs m t) = None" shows "calmly (evict_enter t g m)"
    "pcs m t = EvictInflight g f e \<Longrightarrow> calmly (evict_resume t g e m)"
proof -
  have p: "map_of (evicting m) g = Some x \<or> map_of (hydrating m) g = Some x \<Longrightarrow> pending m x" for x
    using pending_entry by blast
  show "calmly (evict_enter t g m)" using assms p
    by (auto simp: evict_enter_def intro!: calmly_evict_once calmly_at split: option.splits)
  assume w: "pcs m t = EvictInflight g f e"
  have "futs m x = Pending \<Longrightarrow> pending m x" if "e = Some x" for x
    using assms(1) w that unfolding calmly_def calm_def pending_def by (metis list.set_intros(1,2) option.simps(5) waits.simps(4))
  then have "pending (m\<lparr>active := d\<rparr>) x" if "e = Some x" "futs m x = Pending" for x d
    using that by (simp add: pending_def)
  then show "calmly (evict_resume t g e m)" using assms p
    by (auto simp: evict_resume_def Let_def intro!: calmly_evict_once calmly_at split: option.splits)
qed

lemma calmly_leave_saved:
  assumes "calmly m" "pcs m t = Leave g f k" shows "calmly (leave_saved t g f k m)"
proof -
  have "calm H E F (P(t := c))" if c: "calm H E F P" "lead (P t) = lead c" "waits c = []" for H E F P c
  proof -
    have "lead ((P(t := c)) t') = lead (P t')" for t' using c(2) by simp
    then show ?thesis using c(1,3) unfolding calm_def by auto
  qed
  then show ?thesis using assms by (simp add: leave_saved_def calmly_def at_def)
qed

definition tidy :: "mgr \<Rightarrow> bool" where
  "tidy m \<longleftrightarrow> distinct (map fst (hydrating m)) \<and> distinct (map fst (evicting m))"

lemma tidy_fields [simp]:
  "tidy (m\<lparr>active := x1\<rparr>) = tidy m" "tidy (m\<lparr>locks := x2\<rparr>) = tidy m" "tidy (m\<lparr>held := x3\<rparr>) = tidy m"
  "tidy (m\<lparr>others := x4\<rparr>) = tidy m" "tidy (m\<lparr>busy := x5\<rparr>) = tidy m" "tidy (m\<lparr>shutting := x6\<rparr>) = tidy m"
  "tidy (m\<lparr>evictor := x7\<rparr>) = tidy m" "tidy (m\<lparr>next_fut := x8\<rparr>) = tidy m" "tidy (m\<lparr>futs := x9\<rparr>) = tidy m"
  "tidy (at t c m) = tidy m" "tidy (ensure_evictor e m) = tidy m"
  "tidy m \<Longrightarrow> tidy (m\<lparr>hydrating := dict_set g f (hydrating m)\<rparr>)" "tidy m \<Longrightarrow> tidy (m\<lparr>hydrating := dict_del g (hydrating m)\<rparr>)"
  "tidy m \<Longrightarrow> tidy (m\<lparr>evicting := dict_set g f (evicting m)\<rparr>)" "tidy m \<Longrightarrow> tidy (m\<lparr>evicting := dict_del g (evicting m)\<rparr>)"
  by (simp_all add: tidy_def at_def ensure_evictor_def distinct_dict_set distinct_dict_del split: option.split)

lemma tidy_end [simp]: "tidy m \<Longrightarrow> tidy (end_hydrating g r m)" "tidy m \<Longrightarrow> tidy (end_evicting g r m)"
  by (simp_all add: end_hydrating_def end_evicting_def settle_def split: option.split)

lemma tidy_evict_once [simp]: "tidy m \<Longrightarrow> tidy (evict_once t g k m)"
  by (auto simp: evict_once_def Let_def tidy_def at_def distinct_dict_set split: option.split)

lemma tidy_sweep_next [simp]: "tidy m \<Longrightarrow> tidy (sweep_next now timeout t cs m)"
  by (induction cs arbitrary: m) auto

lemma tidy_close_next [simp]: "tidy m \<Longrightarrow> tidy (close_next t gs m)"
  by (simp add: close_next_def split: list.split)

lemma tidy_hydrate_enter: "tidy m \<Longrightarrow> tidy (hydrate_enter now e t g m)"
proof -
  assume m: "tidy m"
  then have "tidy (ensure_evictor e m)" by simp
  then have "tidy ((ensure_evictor e m)\<lparr>hydrating := dict_set g f (hydrating (ensure_evictor e m)), next_fut := n\<rparr>)" for f n
    by (simp add: tidy_def distinct_dict_set)
  then show ?thesis using m by (simp add: hydrate_enter_def Let_def split: option.split)
qed

lemma tidy_step: "lstep rough cap timeout m m' \<Longrightarrow> tidy m \<Longrightarrow> tidy m'"
  by (induction rule: lstep.induct)
    (auto simp: hydrate_done_def hydrate_fails_def evict_enter_def evict_resume_def leave_saved_def closed_def go_on_def give_up_def
      cancel_task_def shutdown_enter_def touch_def Let_def intro: tidy_hydrate_enter split: option.split after.split pc.split)

lemma tidy_reach: "lreach rough cap timeout m \<Longrightarrow> tidy m"
proof (induction rule: lreach.induct)
  case Start show ?case by (simp add: fresh_manager_def tidy_def)
qed (rule tidy_step)

lemma calmly_shutdown:
  assumes "calmly m" "tidy m" "pcs m t = Unborn" "case evictor m of None \<Rightarrow> True | Some e \<Rightarrow> pcs m e = Sweeper"
  shows "calmly (shutdown_enter t m)"
proof -
  define m1 where "m1 = (case evictor m of None \<Rightarrow> m
    | Some e \<Rightarrow> (if pcs m e \<in> {Returned, Raised, Cancelled} then m else cancel_task e m)\<lparr>evictor := None\<rparr>)"
  have "calmly m1" using assms by (auto simp: m1_def cancel_task_def intro!: calmly_quiet split: option.splits)
  moreover have f: "hydrating m1 = hydrating m" "evicting m1 = evicting m"
    by (auto simp: m1_def cancel_task_def at_def split: option.splits pc.splits)
  moreover have "pcs m1 t = Unborn" using assms by (auto simp: m1_def cancel_task_def at_def split: option.splits)
  moreover have "pending (m1\<lparr>shutting := True, active := []\<rparr>) x" if "x \<in> snd ` set (hydrating m) \<union> snd ` set (evicting m)" for x
  proof -
    obtain g where "(g, x) \<in> set (hydrating m) \<or> (g, x) \<in> set (evicting m)" using \<open>x \<in> _\<close> by (auto, blast+)
    then have "map_of (hydrating m) g = Some x \<or> map_of (evicting m) g = Some x" using assms(2) by (auto simp: tidy_def)
    then show ?thesis using f by (auto simp: pending_def pend_def)
  qed
  ultimately have "calmly (at t (Stopping (map snd (hydrating m) @ map snd (evicting m)) (map fst (active m)))
      (m1\<lparr>shutting := True, active := []\<rparr>))"
    by (intro calmly_at) auto
  then show ?thesis by (simp add: shutdown_enter_def m1_def)
qed

lemma calmly_step:
  assumes "lstep False cap timeout m m'" "calmly m" "sound m" "tidy m" shows "calmly m'"
  using assms(1)
proof cases
  case Hydrate then show ?thesis using assms(2,3) calmly_hydrate_enter by simp
next
  case Rehydrate then show ?thesis using assms(2,3) calmly_hydrate_enter by simp
next
  case Prepared then show ?thesis using assms(2,3) calmly_hydrate_done by simp
next
  case PrepareFails then show ?thesis using assms(2,3) calmly_hydrate_done by simp
next
  case Evict then show ?thesis using assms(2) calmly_evict by simp
next
  case EvictOn then show ?thesis using assms(2) calmly_evict by simp
next
  case Saved then show ?thesis using assms(2) calmly_leave_saved by simp
next
  case Closed then show ?thesis using assms(2,3) calmly_closed by simp
next
  case Joined then show ?thesis using assms(2) calmly_onward by simp
next
  case JoinFails then show ?thesis using assms(2) calmly_onward by simp
next
  case SweepStarts then show ?thesis using assms(2) calmly_sweep_next by simp
next
  case Shutdown then show ?thesis using assms(2,4) calmly_shutdown by simp
next
  case (Stopped t fs gs) then show ?thesis using assms(2) calmly_onward(1) [of m t timeout "Close gs"] by (simp add: go_on_def)
qed (use assms(2) in \<open>auto simp: touch_def intro!: calmly_quiet\<close>)

lemma calmly_reach: "lreach False cap timeout m \<Longrightarrow> calmly m"
proof (induction rule: lreach.induct)
  case Start
  show ?case by (simp add: calmly_def calm_def fresh_manager_def pend_def)
next
  case (Step m m')
  then show ?case using calmly_step sound_reach tidy_reach by blast
qed

text \<open>
  C31. As long as no task is cancelled, nobody waits in vain: a future that is waited for and not settled
  belongs to a task that is preparing or putting away its group, and that task can go on.
\<close>

theorem nobody_waits_in_vain:
  assumes "lreach False cap timeout m" "f \<in> set (waits (pcs m t))" "futs m f = Pending"
  shows "\<exists>t'. lead (pcs m t') = Some f \<and> (\<exists>m'. lstep False cap timeout m m' \<and> pcs m' t' \<noteq> pcs m t')"
proof -
  have "pending m f" using calmly_reach [OF assms(1)] assms(2,3) by (auto simp: calmly_def calm_def pending_def)
  then obtain t' where l: "lead (pcs m t') = Some f"
    using calmly_reach [OF assms(1)] by (auto simp: calmly_def calm_def pending_def)
  have s: "sound m" using assms(1) by (rule sound_reach)
  have "\<exists>m'. lstep False cap timeout m m' \<and> pcs m' t' \<noteq> pcs m t'"
  proof (cases "pcs m t'")
    case (Prepare g f')
    then have "pcs (hydrate_fails t' g m) t' \<noteq> pcs m t'" by (simp add: hydrate_fails_def at_def)
    then show ?thesis using lstep.PrepareFails [OF Prepare, of False cap timeout] by blast
  next
    case (Leave g f' k)
    then have "pcs (leave_saved t' g f' k m) t' \<noteq> pcs m t'" by (simp add: leave_saved_def at_def)
    then show ?thesis using lstep.Saved [OF Leave, of False cap timeout] by blast
  next
    case (Closing g f' b k)
    then have "pcs (closed timeout False t' g b k m) t' \<noteq> pcs m t'"
      by (simp add: closed_def give_up_def Let_def at_def split: after.split)
    then show ?thesis using lstep.Closed [OF Closing, of False cap timeout False] by blast
  qed (use l in auto)
  then show ?thesis using l by blast
qed

theorem nobody_waits_in_vain_witness:
  "\<exists>t'. lead (pcs (hydrate_enter 9 6 5 7 hydrating_7) t') = Some 0 \<and>
     (\<exists>m'. lstep False 20 1800 (hydrate_enter 9 6 5 7 hydrating_7) m' \<and> pcs m' t' \<noteq> pcs (hydrate_enter 9 6 5 7 hydrating_7) t')"
proof (rule nobody_waits_in_vain)
  show "lreach False 20 1800 (hydrate_enter 9 6 5 7 hydrating_7)"
    by (rule lreach.Step [OF example_runs(1) lstep.Hydrate]) (simp_all only: hydrating_7_is mgr.simps, simp_all)
  show "0 \<in> set (waits (pcs (hydrate_enter 9 6 5 7 hydrating_7) 5))" "futs (hydrate_enter 9 6 5 7 hydrating_7) 0 = Pending"
    unfolding hydrating_7_is by (simp_all add: hydrate_enter_def ensure_evictor_def is_active_def at_def has_key_def Let_def)
qed

end
