(* ===== verification/ShellGuard.thy ===== *)
theory ShellGuard
  imports Permissions Regex
begin

text \<open>
  What the shell tool refuses and what it takes to a human, \<^verbatim>\<open>executors/plugins/workspace_tools.py\<close>,
  \<^verbatim>\<open>workspace_git_safety.py\<close> and \<^verbatim>\<open>workspace_shell_hook.py\<close>: a command line is split into simple
  commands, the program each of them runs is found behind assignments and wrappers, payloads of
  \<open>bash -c\<close> are looked into, and dangerous programs and destructive git invocations are recognized. Below it
  lies a layer of regular expressions on the raw line.
\<close>

section \<open>Words and operators (shlex with punctuation)\<close>

text \<open>
  The lexer of the standard library as the code sets it up: POSIX quoting, \<open>whitespace_split\<close>, no comments, and
  runs of the characters \<open>();<>|&\<close> as tokens of their own.
\<close>

definition sh_punct :: "char \<Rightarrow> bool" where
  "sh_punct c \<longleftrightarrow> c \<in> set ''();<>|&''"

datatype lex_mode = LBlank | LWord | LPunct | LQuoted char | LEscaped "char option"

definition emit_token :: "bool \<Rightarrow> string \<Rightarrow> string list option \<Rightarrow> string list option" where
  "emit_token q tok ts = (if tok \<noteq> [] \<or> q then map_option (\<lambda>ts. tok # ts) ts else ts)"

fun lex :: "lex_mode \<Rightarrow> bool \<Rightarrow> string \<Rightarrow> string \<Rightarrow> string list option" where
  "lex LBlank q tok [] = Some []"
| "lex LBlank q tok (c # s) =
     (if sh_space c then lex LBlank False [] s
      else if c = sh_backslash then lex (LEscaped None) False [] s
      else if sh_punct c then lex LPunct False [c] s
      else if sh_quote c then lex (LQuoted c) True [] s
      else lex LWord False [c] s)"
| "lex LWord q tok [] = emit_token q tok (Some [])"
| "lex LWord q tok (c # s) =
     (if sh_space c then emit_token q tok (lex LBlank False [] s)
      else if sh_quote c then lex (LQuoted c) True tok s
      else if c = sh_backslash then lex (LEscaped None) q tok s
      else if \<not> sh_punct c then lex LWord q (tok @ [c]) s
      else emit_token q tok (lex LPunct False [c] s))"
| "lex LPunct q tok [] = Some [tok]"
| "lex LPunct q tok (c # s) =
     (if sh_space c then map_option (\<lambda>ts. tok # ts) (lex LBlank False [] s)
      else if sh_punct c then lex LPunct q (tok @ [c]) s
      else map_option (\<lambda>ts. tok # ts)
        (if c = sh_backslash then lex (LEscaped None) False [] s
         else if sh_quote c then lex (LQuoted c) True [] s
         else lex LWord False [c] s))"
| "lex (LQuoted d) q tok [] = None"
| "lex (LQuoted d) q tok (c # s) =
     (if c = d then lex LWord q tok s
      else if c = sh_backslash \<and> d = CHR 0x22 then lex (LEscaped (Some d)) q tok s
      else lex (LQuoted d) q (tok @ [c]) s)"
| "lex (LEscaped e) q tok [] = None"
| "lex (LEscaped None) q tok (c # s) = lex LWord q (tok @ [c]) s"
| "lex (LEscaped (Some d)) q tok (c # s) =
     lex (LQuoted d) q (tok @ (if c \<noteq> sh_backslash \<and> c \<noteq> d then [sh_backslash, c] else [c])) s"

definition operator :: "string \<Rightarrow> bool" where
  "operator t \<longleftrightarrow> t \<noteq> [] \<and> list_all (\<lambda>c. c \<in> set '';&|()<>'' \<or> c = CHR 0x0A) t"

text \<open>The argument lists between the operators; \<open>cur\<close> is the one being collected.\<close>

fun simple_commands :: "string list \<Rightarrow> string list \<Rightarrow> string list list" where
  "simple_commands cur [] = (if cur \<noteq> [] then [cur] else [])"
| "simple_commands cur (t # ts) =
     (if operator t then (if cur \<noteq> [] then cur # simple_commands [] ts else simple_commands [] ts)
      else simple_commands (cur @ [t]) ts)"

definition iter_simple_commands :: "string \<Rightarrow> string list list option" where
  "iter_simple_commands cmd = map_option (simple_commands []) (lex LBlank False [] cmd)"

section \<open>The program behind a simple command\<close>

definition cmd_wrappers :: "string list" where
  "cmd_wrappers = [''sudo'', ''doas'', ''env'', ''command'', ''builtin'', ''exec'', ''nohup'', ''time'',
     ''nice'', ''ionice'', ''stdbuf'', ''setsid'', ''xargs'', ''timeout'']"

definition basename :: "string \<Rightarrow> string" where
  "basename p = rev (takeWhile (\<lambda>c. c \<noteq> CHR ''/'') (rev p))"

definition name_char :: "bool \<Rightarrow> char \<Rightarrow> bool" where
  "name_char first c \<longleftrightarrow>
     (let n = (of_char c :: nat) in
      n = 95 \<or> (65 \<le> n \<and> n \<le> 90) \<or> (97 \<le> n \<and> n \<le> 122) \<or> \<not> first \<and> 48 \<le> n \<and> n \<le> 57)"

text \<open>\<open>^[A-Za-z_][A-Za-z0-9_]*=\<close>\<close>

fun assignment_from :: "string \<Rightarrow> bool" where
  "assignment_from [] = False"
| "assignment_from (c # s) = (c = CHR ''='' \<or> name_char False c \<and> assignment_from s)"

definition is_assignment :: "string \<Rightarrow> bool" where
  "is_assignment w = (case w of [] \<Rightarrow> False | c # s \<Rightarrow> name_char True c \<and> assignment_from s)"

definition dashed :: "string \<Rightarrow> bool" where
  "dashed w = is_prefix ''-'' w"

function skip_wrappers :: "string list \<Rightarrow> string list" where
  "skip_wrappers [] = []"
| "skip_wrappers (a # as) = (if basename a \<in> set cmd_wrappers then skip_wrappers (dropWhile dashed as) else a # as)"
  by pat_completeness auto
termination
  by (relation "measure length") (auto simp: le_imp_less_Suc length_dropWhile_le)

lemma skip_wrappers_length: "length (skip_wrappers as) \<le> length as"
proof (induction as rule: skip_wrappers.induct)
  case (2 a as)
  then show ?case using length_dropWhile_le [of dashed as] by auto
qed simp

definition skip_prefix :: "string list \<Rightarrow> string list" where
  "skip_prefix as = skip_wrappers (dropWhile is_assignment as)"

function strip_argv :: "string list \<Rightarrow> string list" where
  "strip_argv as = (let r = skip_prefix as in if length r < length as then strip_argv r else as)"
  by pat_completeness auto
termination
  by (relation "measure length") auto

declare strip_argv.simps [simp del]

fun contains :: "string \<Rightarrow> string \<Rightarrow> bool" where
  "contains sub [] = (sub = [])"
| "contains sub (c # w) = (is_prefix sub (c # w) \<or> contains sub w)"

definition resolved_argv0 :: "string list \<Rightarrow> string option \<times> string list" where
  "resolved_argv0 argv =
     (case strip_argv argv of
        [] \<Rightarrow> (None, [])
      | c0 # rest \<Rightarrow>
          if is_prefix ''$'' c0 \<or> is_prefix ''`'' c0 \<or> contains ''$('' c0 then (None, rest)
          else (Some (basename c0), rest))"

section \<open>Destructive git invocations\<close>

definition git_options_with_value :: "string list" where
  "git_options_with_value = [''-C'', ''-c'', ''--git-dir'', ''--work-tree'', ''--namespace'', ''--exec-path'']"

fun git_subcommand :: "string list \<Rightarrow> string option \<times> string list" where
  "git_subcommand [] = (None, [])"
| "git_subcommand (t # ts) =
     (if t \<in> set git_options_with_value then (case ts of [] \<Rightarrow> (None, []) | _ # ts' \<Rightarrow> git_subcommand ts')
      else if dashed t then git_subcommand ts
      else (Some t, ts))"

datatype git_loss =
    DiscardsChanges
  | DeletesUntracked
  | CheckoutDiscards
  | RestoreDiscards
  | RewritesRemote
  | PrunesObjects
  | ExpiresReflog
  | DeletesBranch
  | DropsStash
  | RewritesHistory
  | DeletesRef

definition git_loss :: "string \<Rightarrow> string list \<Rightarrow> git_loss option" where
  "git_loss sub args =
     (let has = (\<lambda>fs. list_ex (\<lambda>f. f \<in> set args) fs) in
      if sub = ''reset'' \<and> has [''--hard''] then Some DiscardsChanges
      else if sub = ''clean'' \<and>
        (has [''--force''] \<or> list_ex (\<lambda>a. dashed a \<and> \<not> is_prefix ''--'' a \<and> CHR ''f'' \<in> set a) args)
        then Some DeletesUntracked
      else if sub = ''checkout'' \<and> (has [''-f'', ''--force''] \<or> ''.'' \<in> set args \<or> ''--'' \<in> set args)
        then Some CheckoutDiscards
      else if sub = ''restore'' \<and> ''--staged'' \<notin> set args \<and> (has [''-f'', ''--force''] \<or> ''.'' \<in> set args)
        then Some RestoreDiscards
      else if sub = ''push'' \<and>
        (has [''--force'', ''-f'', ''--force-with-lease'', ''--mirror'', ''--delete'', ''-d''] \<or> list_ex (is_prefix ''+'') args)
        then Some RewritesRemote
      else if sub = ''gc'' \<and> list_ex (\<lambda>a. is_prefix ''--prune='' a \<and> a \<noteq> ''--prune=never'') args then Some PrunesObjects
      else if sub = ''reflog'' \<and> ''expire'' \<in> set args then Some ExpiresReflog
      else if sub = ''branch'' \<and> (has [''-D''] \<or> has [''--delete''] \<and> has [''--force'']) then Some DeletesBranch
      else if sub = ''stash'' \<and> (''clear'' \<in> set args \<or> ''drop'' \<in> set args) then Some DropsStash
      else if sub = ''filter-branch'' then Some RewritesHistory
      else if sub = ''update-ref'' \<and> has [''-d'', ''--delete''] then Some DeletesRef
      else None)"

definition destructive_git_reason :: "string list \<Rightarrow> git_loss option" where
  "destructive_git_reason rest = (case git_subcommand rest of (None, _) \<Rightarrow> None | (Some sub, args) \<Rightarrow> git_loss sub args)"

section \<open>Looking into a command line\<close>

definition shell_interpreters :: "string list" where
  "shell_interpreters = [''bash'', ''sh'', ''zsh'', ''dash'', ''ash'', ''ksh'']"

text \<open>The arguments that follow a \<open>-c\<close>.\<close>

fun payloads :: "string list \<Rightarrow> string list" where
  "payloads (a # b # r) = (if a = ''-c'' then [b] else []) @ payloads (b # r)"
| "payloads _ = []"

fun first_some :: "('a \<Rightarrow> 'b option) \<Rightarrow> 'a list \<Rightarrow> 'b option" where
  "first_some f [] = None"
| "first_some f (x # xs) = (case f x of Some y \<Rightarrow> Some y | None \<Rightarrow> first_some f xs)"

lemma first_some_cong [fundef_cong]:
  "\<lbrakk>xs = ys; \<And>x. x \<in> set ys \<Longrightarrow> f x = g x\<rbrakk> \<Longrightarrow> first_some f xs = first_some g ys"
  by (induction ys arbitrary: xs) (auto split: option.split)

lemma first_some_None: "first_some f xs = None \<longleftrightarrow> (\<forall>x \<in> set xs. f x = None)"
  by (induction xs) (auto split: option.split)

lemma first_some_append: "first_some f (xs @ ys) = (case first_some f xs of Some y \<Rightarrow> Some y | None \<Rightarrow> first_some f ys)"
  by (induction xs) (auto split: option.split)

text \<open>No token is longer than the text it was read from, so a payload is shorter than its command line.\<close>

fun lex_credit :: "lex_mode \<Rightarrow> nat" where
  "lex_credit (LEscaped (Some d)) = 1"
| "lex_credit _ = 0"

lemma lex_length:
  "lex md q tok s = Some ts \<Longrightarrow> sum_list (map length ts) \<le> length tok + length s + lex_credit md"
  by (induction md q tok s arbitrary: ts rule: lex.induct)
    (fastforce simp: emit_token_def split: if_splits)+

lemma simple_commands_length:
  "argv \<in> set (simple_commands cur ts) \<Longrightarrow>
     sum_list (map length argv) \<le> sum_list (map length cur) + sum_list (map length ts)"
proof (induction ts arbitrary: cur)
  case (Cons t ts)
  show ?case
  proof (cases "operator t")
    case True
    then show ?thesis using Cons.prems Cons.IH [of "[]"] by (fastforce split: if_splits)
  next
    case False
    then show ?thesis using Cons.prems Cons.IH [of "cur @ [t]"] by auto
  qed
qed (auto split: if_splits)

definition weight :: "string list \<Rightarrow> nat" where
  "weight as = sum_list (map length as)"

lemma weight_Cons [simp]: "weight [] = 0" "weight (a # as) = length a + weight as"
  by (simp_all add: weight_def)

lemma weight_dropWhile: "weight (dropWhile P as) \<le> weight as"
  by (induction as) auto

lemma weight_skip: "weight (skip_wrappers as) \<le> weight as"
proof (induction as rule: skip_wrappers.induct)
  case (2 a as)
  then show ?case using weight_dropWhile [of dashed as] by auto
qed simp

lemma weight_strip: "weight (strip_argv as) \<le> weight as"
proof (induction as rule: strip_argv.induct)
  case (1 as)
  have "weight (skip_prefix as) \<le> weight as" unfolding skip_prefix_def
    using weight_skip [of "dropWhile is_assignment as"] weight_dropWhile [of is_assignment as] by linarith
  then show ?case using 1 by (subst strip_argv.simps) (auto simp: Let_def)
qed

lemma weight_member: "a \<in> set as \<Longrightarrow> length a \<le> weight as"
  by (induction as) auto

lemma payloads_member: "p \<in> set (payloads as) \<Longrightarrow> p \<in> set as"
  by (induction as rule: payloads.induct) (auto split: if_splits)

lemma payload_shorter:
  assumes "iter_simple_commands cmd = Some cs" "argv \<in> set cs" "resolved_argv0 argv = (Some b, rest)"
    "b \<in> set shell_interpreters" "p \<in> set (payloads rest)"
  shows "length p < length cmd"
proof -
  obtain ts where ts: "lex LBlank False [] cmd = Some ts" "cs = simple_commands [] ts"
    using assms(1) by (auto simp: iter_simple_commands_def)
  obtain c0 where c0: "strip_argv argv = c0 # rest" "basename c0 = b"
    using assms(3) by (auto simp: resolved_argv0_def split: list.splits if_splits)
  have "c0 \<noteq> []" using c0(2) assms(4) by (auto simp: basename_def shell_interpreters_def)
  moreover have "length p \<le> weight rest" using weight_member [OF payloads_member [OF assms(5)]] .
  moreover have "length c0 + weight rest \<le> weight argv" using weight_strip [of argv] c0(1) by simp
  moreover have "weight argv \<le> length cmd"
    using simple_commands_length [of argv "[]" ts] assms(2) ts(2) lex_length [OF ts(1)] by (simp add: weight_def)
  ultimately show ?thesis by (cases c0) auto
qed

definition inner_commands :: "string option \<Rightarrow> string list \<Rightarrow> string list" where
  "inner_commands base rest = (if base \<in> Some ` set shell_interpreters then payloads rest else [])"

function is_destructive_git :: "string \<Rightarrow> git_loss option" where
  "is_destructive_git cmd =
     (case iter_simple_commands cmd of
        None \<Rightarrow> None
      | Some cs \<Rightarrow>
          first_some (\<lambda>argv.
            case resolved_argv0 argv of
              (base, rest) \<Rightarrow>
                (case first_some is_destructive_git (inner_commands base rest) of
                   Some r \<Rightarrow> Some r
                 | None \<Rightarrow> if base = Some ''git'' then destructive_git_reason rest else None)) cs)"
  by pat_completeness auto
termination
  by (relation "measure length") (auto simp: inner_commands_def intro: payload_shorter [OF _ _ sym] split: if_splits)

declare is_destructive_git.simps [simp del]

section \<open>Dangerous programs\<close>

definition block_binaries :: "string list" where
  "block_binaries = [''mkfs'', ''mke2fs'', ''mkdosfs'', ''fdisk'', ''parted'', ''mkswap'', ''wipefs'',
     ''shutdown'', ''reboot'', ''poweroff'', ''halt'', ''init'', ''telinit'']"

definition rm_catastrophic :: "string list" where
  "rm_catastrophic = [''/'', ''~'', ''$HOME'', ''${HOME}'', ''/*'', ''*'', ''~/*'', ''$HOME/*'']"

definition is_letter :: "char \<Rightarrow> bool" where
  "is_letter c \<longleftrightarrow> (let n = (of_char c :: nat) in (65 \<le> n \<and> n \<le> 90) \<or> (97 \<le> n \<and> n \<le> 122))"

text \<open>\<open>^-[a-zA-Z]*r[a-zA-Z]*$\<close>, where \<open>$\<close> also matches before a final line break.\<close>

definition rm_recursive :: "string \<Rightarrow> bool" where
  "rm_recursive a =
     (case a of
        [] \<Rightarrow> False
      | c # s \<Rightarrow>
          let t = (if s \<noteq> [] \<and> last s = CHR 0x0A then butlast s else s)
          in c = CHR ''-'' \<and> list_all is_letter t \<and> CHR ''r'' \<in> set t)"

datatype danger =
    RawDanger nat
  | DangerousBinary string
  | RecursiveRemoval
  | RootPermissions string
  | DiskDevice

definition argv_danger :: "string \<Rightarrow> string list \<Rightarrow> danger option \<Rightarrow> danger option" where
  "argv_danger base rest inner =
     (if base \<in> set block_binaries then Some (DangerousBinary base)
      else
        (case inner of
           Some r \<Rightarrow> Some r
         | None \<Rightarrow>
             if base = ''rm'' \<and> list_ex (\<lambda>a. rm_recursive a \<or> a = ''--recursive'') rest \<and>
               list_ex (\<lambda>a. \<not> dashed a \<and> a \<in> set rm_catastrophic) rest then Some RecursiveRemoval
             else if base \<in> {''chmod'', ''chown''} \<and> list_ex (\<lambda>a. a = ''-R'' \<or> a = ''--recursive'') rest \<and> ''/'' \<in> set rest
               then Some (RootPermissions base)
             else if base = ''dd'' \<and> list_ex (is_prefix ''if=/dev/'') rest then Some DiskDevice
             else None))"

section \<open>Regular expressions on the raw line\<close>

text \<open>\<open>\w\<close> of Python among the characters of one byte.\<close>

definition word_char :: "nat \<Rightarrow> bool" where
  "word_char c \<longleftrightarrow> (48 \<le> c \<and> c \<le> 57) \<or> (65 \<le> c \<and> c \<le> 90) \<or> c = 95 \<or> (97 \<le> c \<and> c \<le> 122) \<or>
     c \<in> {170, 178, 179, 181, 185, 186, 188, 189, 190} \<or> (192 \<le> c \<and> c \<le> 214) \<or> (216 \<le> c \<and> c \<le> 246) \<or> (248 \<le> c \<and> c \<le> 255)"

definition rx_edge :: rx where "rx_edge = Edge word_char"
definition rx_sp :: rx where "rx_sp = Chars u_space"
definition rx_nsp :: rx where "rx_nsp = Chars (\<lambda>c. \<not> u_space c)"
definition rx_text :: "string \<Rightarrow> rx" where "rx_text s = seqs (map (\<lambda>c. lit c) (ascii s))"

text \<open>A text of lower-case letters and other characters with \<open>re.IGNORECASE\<close>.\<close>

definition rx_nocase :: "string \<Rightarrow> rx" where
  "rx_nocase s = seqs (map (\<lambda>c. if 97 \<le> c \<and> c \<le> 122 then Chars (u_letter (c - 32)) else lit c) (ascii s))"

definition rx_any :: "string list \<Rightarrow> rx" where
  "rx_any ws = foldr (\<lambda>w r. Alt (rx_nocase w) r) (butlast ws) (rx_nocase (last ws))"

definition rm_option :: "rx list" where
  "rm_option = [rx_edge, rx_text ''rm'', plus rx_sp, Star rx_nsp, Chars (\<lambda>c. c = 114 \<or> c = 82), Star rx_nsp, plus rx_sp]"

definition dangerous_patterns :: "rx list" where
  "dangerous_patterns =
     [seqs (rm_option @ [lit 47, Star rx_sp, LineEnd]),
      seqs (rm_option @ [Alt (lit 126) (rx_text ''$HOME''), Alt rx_sp LineEnd]),
      seqs [rx_edge, rx_nocase ''mkfs'', rx_edge],
      seqs [rx_edge, rx_nocase ''dd'', rx_edge, Star any_char, rx_edge, rx_nocase ''if'', Star rx_sp, lit 61, Star rx_sp, rx_nocase ''/dev/''],
      seqs [lit 62, Star rx_sp, rx_nocase ''/dev/sd'', Chars (\<lambda>c. (97 \<le> c \<and> c \<le> 122) \<or> (65 \<le> c \<and> c \<le> 90)), Star (Chars u_digit), rx_edge],
      seqs [rx_edge, rx_nocase ''chmod'', plus rx_sp, opt (Cap 1 (Seq (plus rx_nsp) (plus rx_sp))), rx_text ''777'', plus rx_sp, lit 47],
      seqs [lit 62, Star rx_sp, rx_text ''/etc/passwd'', rx_edge],
      seqs [lit 62, Star rx_sp, rx_text ''/etc/shadow'', rx_edge],
      seqs [rx_edge, Cap 1 (rx_any [''shutdown'', ''reboot'', ''poweroff'', ''halt'']), rx_edge],
      seqs [lit 58, Star rx_sp, lit 40, Star rx_sp, lit 41, Star rx_sp, lit 123, Star (Chars (\<lambda>c. c \<noteq> 125)), lit 58, Star rx_sp, lit 124],
      seqs [rx_edge, rx_nocase ''base64'', plus rx_sp, Cap 1 (rx_any [''-d'', ''--decode'']), rx_edge],
      seqs [rx_edge, Cap 1 (rx_any [''curl'', ''wget'']), rx_edge, Star (Chars (\<lambda>c. c \<noteq> NL \<and> c \<noteq> 124)), lit 124, Star rx_sp,
        Cap 2 (Alt (rx_any [''bash'', ''sh'', ''zsh'', ''dash'', ''ash''])
          (Alt (Seq (rx_nocase ''python'') (Star (Chars u_digit))) (rx_any [''perl'', ''ruby'', ''node'']))), rx_edge],
      seqs [rx_edge, rx_text ''eval'', rx_edge, Star any_char, Cap 1 (Alt (rx_text ''$('') (lit 96))]]"

definition raw_danger :: "string \<Rightarrow> danger option" where
  "raw_danger cmd =
     map_option (\<lambda>e. RawDanger (fst e))
       (find (\<lambda>e. rx_search (snd e) [] (ascii cmd) \<noteq> None) (enumerate 0 dangerous_patterns))"

function check_shell_command :: "string \<Rightarrow> danger option" where
  "check_shell_command cmd =
     (case raw_danger cmd of
        Some r \<Rightarrow> Some r
      | None \<Rightarrow>
          (case iter_simple_commands cmd of
             None \<Rightarrow> None
           | Some cs \<Rightarrow>
               first_some (\<lambda>argv.
                 case resolved_argv0 argv of
                   (base, rest) \<Rightarrow>
                     (case base of
                        None \<Rightarrow> None
                      | Some b \<Rightarrow> argv_danger b rest (first_some check_shell_command (inner_commands base rest)))) cs))"
  by pat_completeness auto
termination
  by (relation "measure length") (auto simp: inner_commands_def intro: payload_shorter [OF _ _ sym] split: if_splits)

declare check_shell_command.simps [simp del]

section \<open>The hooks\<close>

datatype guard_outcome = Clear | NoRuleset | Dangerous danger | BadCommand

definition shell_guard :: "string \<Rightarrow> arguments \<Rightarrow> ruleset option \<Rightarrow> guard_outcome" where
  "shell_guard tool args ruleset =
     (if tool \<noteq> ''run_shell'' then Clear
      else if ruleset = None then NoRuleset
      else
        (case stripped_text args ''cmd'' of
           None \<Rightarrow> BadCommand
         | Some cmd \<Rightarrow> (case check_shell_command cmd of Some r \<Rightarrow> Dangerous r | None \<Rightarrow> Clear)))"

text \<open>The permission hook as it is registered, with the test of this theory for destructive git.\<close>

definition permission_check_hook ::
  "policy \<Rightarrow> (string \<Rightarrow> int \<Rightarrow> int \<Rightarrow> bool) \<Rightarrow> ruleset option \<Rightarrow> call \<Rightarrow> string \<Rightarrow> bool \<Rightarrow> perm_state \<Rightarrow> hook_outcome \<times> perm_state" where
  "permission_check_hook pol cwd_ok ruleset k pid bc st =
     permission_check pol cwd_ok (\<lambda>cmd. is_destructive_git cmd \<noteq> None) ruleset k pid bc st"

section \<open>Command lines as they are written\<close>

text \<open>A word is written bare or in single quotes. A line is words, each followed by a blank.\<close>

datatype sword = Bare string | Single string

fun word_text :: "sword \<Rightarrow> string" where
  "word_text (Bare w) = w"
| "word_text (Single w) = CHR 0x27 # w @ [CHR 0x27]"

fun word_value :: "sword \<Rightarrow> string" where
  "word_value (Bare w) = w"
| "word_value (Single w) = w"

fun word_ok :: "sword \<Rightarrow> bool" where
  "word_ok (Bare w) = (plain_word w \<and> list_all (\<lambda>c. \<not> sh_punct c) w)"
| "word_ok (Single w) = (CHR 0x27 \<notin> set w \<and> \<not> operator w)"

definition line :: "sword list \<Rightarrow> string" where
  "line ws = concat (map (\<lambda>w. word_text w @ '' '') ws)"

text \<open>Commands with the operator behind each of them, and a last command.\<close>

definition script_text :: "(sword list \<times> string) list \<Rightarrow> sword list \<Rightarrow> string" where
  "script_text cs vs = concat (map (\<lambda>(ws, op). line ws @ op @ '' '') cs) @ line vs"

definition operator_ok :: "string \<Rightarrow> bool" where
  "operator_ok op \<longleftrightarrow> op \<noteq> [] \<and> list_all sh_punct op"

definition script_ok :: "(sword list \<times> string) list \<Rightarrow> sword list \<Rightarrow> bool" where
  "script_ok cs vs \<longleftrightarrow> list_all (\<lambda>(ws, op). list_all word_ok ws \<and> operator_ok op) cs \<and> list_all word_ok vs"

definition script_commands :: "(sword list \<times> string) list \<Rightarrow> sword list \<Rightarrow> string list list" where
  "script_commands cs vs = filter (\<lambda>a. a \<noteq> []) (map (map word_value) (map fst cs @ [vs]))"

lemma lex_blank: "lex LBlank q tok s = lex LBlank False [] s"
  by (cases s) simp_all

lemma lex_bare:
  "\<lbrakk>\<forall>c \<in> set w. plain_char c \<and> \<not> sh_punct c\<rbrakk> \<Longrightarrow> lex LWord q tok (w @ s) = lex LWord q (tok @ w) s"
  by (induction w arbitrary: tok) (auto simp: plain_char_def)

lemma lex_quoted:
  "CHR 0x27 \<notin> set w \<Longrightarrow> lex (LQuoted CHR 0x27) q tok (w @ CHR 0x27 # s) = lex LWord q (tok @ w) s"
  by (induction w arbitrary: tok) auto

lemma lex_word:
  assumes "word_ok w" shows "\<exists>q'. lex LBlank q tok (word_text w @ s) = lex LWord q' (word_value w) s \<and> (word_value w \<noteq> [] \<or> q')"
proof (cases w)
  case (Bare v)
  then obtain c u where v: "v = c # u" using assms by (cases v) (auto simp: plain_word_def)
  have "plain_char c" "\<not> sh_punct c" "\<forall>c \<in> set u. plain_char c \<and> \<not> sh_punct c"
    using assms Bare v by (auto simp: plain_word_def list_all_iff)
  then show ?thesis using Bare v lex_bare [of u False "[c]" s] by (intro exI [of _ False]) (simp add: plain_char_def)
next
  case (Single v)
  have "\<not> sh_space CHR 0x27" "\<not> sh_punct CHR 0x27" "CHR 0x27 \<noteq> sh_backslash" "sh_quote CHR 0x27"
    by (simp_all add: sh_space_def sh_punct_def sh_backslash_def sh_quote_def)
  then show ?thesis using Single assms lex_quoted [of v True "[]" s] by (intro exI [of _ True]) simp
qed

lemma sh_space_blank [simp]: "sh_space CHR '' ''" "sh_space CHR 0x0A" by (simp_all add: sh_space_def)

lemma lex_word_space:
  assumes "word_ok w" "sh_space c"
  shows "lex LBlank q tok (word_text w @ c # s) = map_option (\<lambda>ts. word_value w # ts) (lex LBlank False [] s)"
  using lex_word [OF assms(1), of q tok "c # s"] assms(2) by (auto simp: emit_token_def)

lemma lex_line:
  "list_all word_ok ws \<Longrightarrow> lex LBlank q tok (line ws @ s) = map_option (\<lambda>ts. map word_value ws @ ts) (lex LBlank False [] s)"
proof (induction ws arbitrary: q tok)
  case Nil
  then show ?case by (simp add: line_def option.map_ident lex_blank [of q tok s])
next
  case (Cons w ws)
  have "lex LBlank q tok (line (w # ws) @ s) = lex LBlank q tok (word_text w @ CHR '' '' # line ws @ s)" by (simp add: line_def)
  then show ?case using Cons by (simp add: lex_word_space option.map_comp comp_def)
qed

lemma lex_punct: "list_all sh_punct op \<Longrightarrow> lex LPunct q tok (op @ s) = lex LPunct q (tok @ op) s"
  by (induction op arbitrary: tok) (auto simp: sh_punct_def sh_space_def)

lemma lex_operator:
  assumes "operator_ok op" shows "lex LBlank q tok (op @ CHR '' '' # s) = map_option (\<lambda>ts. op # ts) (lex LBlank False [] s)"
proof -
  obtain c u where op: "op = c # u" "sh_punct c" "list_all sh_punct u" using assms by (cases op) (auto simp: operator_ok_def)
  have "\<not> sh_space c" "c \<noteq> sh_backslash" using op(2) by (auto simp: sh_punct_def sh_space_def sh_backslash_def)
  then show ?thesis using op lex_punct [of u False "[c]" "CHR '' '' # s"] by simp
qed

lemma lex_script:
  "script_ok cs vs \<Longrightarrow> lex LBlank q tok (script_text cs vs) =
     Some (concat (map (\<lambda>(ws, op). map word_value ws @ [op]) cs) @ map word_value vs)"
proof (induction cs arbitrary: q tok)
  case Nil
  then show ?case using lex_line [of vs q tok "[]"] by (simp add: script_ok_def script_text_def)
next
  case (Cons c cs)
  obtain ws op where c: "c = (ws, op)" by (cases c)
  have ok: "list_all word_ok ws" "operator_ok op" "script_ok cs vs" using Cons.prems c by (auto simp: script_ok_def)
  have "script_text (c # cs) vs = line ws @ op @ CHR '' '' # script_text cs vs" by (simp add: script_text_def c)
  then show ?case using ok Cons.IH [of False "[]"] by (simp add: lex_line lex_operator c)
qed

lemma operator_of_ok: "operator_ok op \<Longrightarrow> operator op"
  by (auto simp: operator_ok_def operator_def sh_punct_def list_all_iff)

lemma operator_char: "c \<in> set '';&|()<>'' \<or> c = CHR 0x0A \<longleftrightarrow> sh_punct c \<or> c = CHR 0x0A"
  by (auto simp: sh_punct_def)

lemma word_not_operator:
  assumes "word_ok w" shows "\<not> operator (word_value w)"
proof (cases w)
  case (Bare v)
  then obtain c u where v: "v = c # u" using assms by (cases v) (auto simp: plain_word_def)
  have "plain_char c" "\<not> sh_punct c" using assms Bare v by (simp_all add: plain_word_def)
  moreover have "\<not> plain_char CHR 0x0A" by (simp add: plain_char_def)
  ultimately have "\<not> (sh_punct c \<or> c = CHR 0x0A)" by blast
  then show ?thesis using Bare v unfolding operator_def operator_char by simp
qed (use assms in simp)

lemma simple_words: "list_all (\<lambda>t. \<not> operator t) as \<Longrightarrow> simple_commands cur (as @ ts) = simple_commands (cur @ as) ts"
  by (induction as arbitrary: cur) auto

lemma simple_script:
  "script_ok cs vs \<Longrightarrow>
     simple_commands [] (concat (map (\<lambda>(ws, op). map word_value ws @ [op]) cs) @ map word_value vs) = script_commands cs vs"
proof (induction cs)
  case Nil
  then show ?case using simple_words [of "map word_value vs" "[]" "[]"]
    by (auto simp: script_ok_def script_commands_def list_all_iff word_not_operator)
next
  case (Cons c cs)
  obtain ws op where c: "c = (ws, op)" by (cases c)
  have ok: "list_all word_ok ws" "operator op" "script_ok cs vs"
    using Cons.prems c operator_of_ok by (auto simp: script_ok_def)
  have "list_all (\<lambda>t. \<not> operator t) (map word_value ws)" using ok(1) by (auto simp: list_all_iff word_not_operator)
  from simple_words [OF this, of "[]"] show ?case using Cons.IH [OF ok(3)] ok(2) by (simp add: c script_commands_def)
qed

lemma script_is_split: "script_ok cs vs \<Longrightarrow> iter_simple_commands (script_text cs vs) = Some (script_commands cs vs)"
  by (simp add: iter_simple_commands_def lex_script simple_script)

section \<open>Wrappers, paths and options\<close>

datatype before = Assign string | Wrap string "string list"

fun before_words :: "before \<Rightarrow> string list" where
  "before_words (Assign a) = [a]"
| "before_words (Wrap w fs) = w # fs"

definition is_wrapper :: "string \<Rightarrow> bool" where
  "is_wrapper w \<longleftrightarrow> basename w \<in> set cmd_wrappers"

fun before_ok :: "before \<Rightarrow> bool" where
  "before_ok (Assign a) = (is_assignment a \<and> \<not> is_wrapper a)"
| "before_ok (Wrap w fs) = (is_wrapper w \<and> \<not> is_assignment w \<and> \<not> dashed w \<and> list_all dashed fs)"

definition program :: "string \<Rightarrow> bool" where
  "program p \<longleftrightarrow> \<not> is_wrapper p \<and> \<not> is_assignment p \<and> \<not> dashed p \<and> \<not> is_prefix ''$'' p \<and> \<not> is_prefix ''`'' p \<and> \<not> contains ''$('' p"

lemma skip_wrappers_Cons: "skip_wrappers (a # as) = (if is_wrapper a then skip_wrappers (dropWhile dashed as) else a # as)"
  by (simp add: is_wrapper_def)

declare skip_wrappers.simps(2) [simp del]

lemma skip_prefix_suffix: "\<exists>ys. as = ys @ skip_prefix as"
proof -
  have w: "\<exists>ys. as = ys @ skip_wrappers as" for as
  proof (induction as rule: skip_wrappers.induct)
    case (2 a as)
    show ?case
    proof (cases "is_wrapper a")
      case True
      then obtain ys where "dropWhile dashed as = ys @ skip_wrappers (dropWhile dashed as)" using 2 by (auto simp: is_wrapper_def)
      then have "a # as = (a # takeWhile dashed as @ ys) @ skip_wrappers (a # as)" using True
        by (metis (no_types, lifting) append.assoc append_Cons skip_wrappers_Cons takeWhile_dropWhile_id)
      then show ?thesis by blast
    qed (simp add: skip_wrappers_Cons)
  qed simp
  obtain ys where "dropWhile is_assignment as = ys @ skip_prefix as" using w [of "dropWhile is_assignment as"] by (auto simp: skip_prefix_def)
  then have "as = (takeWhile is_assignment as @ ys) @ skip_prefix as" by (metis append.assoc takeWhile_dropWhile_id)
  then show ?thesis by blast
qed

lemma strip_skip: "strip_argv (skip_prefix as) = strip_argv as"
proof (cases "length (skip_prefix as) < length as")
  case True
  then show ?thesis by (subst (2) strip_argv.simps) (simp add: Let_def)
next
  case False
  obtain ys where "as = ys @ skip_prefix as" using skip_prefix_suffix by blast
  then have "skip_prefix as = as" using False by (metis add_diff_cancel_right' append_self_conv2 length_0_conv length_append not_add_less2 not_gr_zero less_add_same_cancel2)
  then show ?thesis by simp
qed

definition starts_item :: "string list \<Rightarrow> bool" where
  "starts_item as \<longleftrightarrow> (case as of [] \<Rightarrow> False | a # _ \<Rightarrow> \<not> dashed a \<and> \<not> (is_wrapper a \<and> is_assignment a))"

lemma assignment_not_dashed: "is_assignment a \<Longrightarrow> \<not> dashed a"
  by (auto simp: is_assignment_def dashed_def name_char_def Let_def split: list.splits)

lemma strip_before:
  assumes "before_ok b" "starts_item as" shows "strip_argv (before_words b @ as) = strip_argv as"
proof (cases b)
  case (Assign a)
  have "skip_prefix (a # as) = skip_prefix as" using assms Assign by (simp add: skip_prefix_def)
  then show ?thesis using strip_skip [of "a # as"] strip_skip [of as] Assign by simp
next
  case (Wrap w fs)
  obtain c rest where as: "as = c # rest" "\<not> dashed c" "\<not> (is_wrapper c \<and> is_assignment c)"
    using assms(2) by (auto simp: starts_item_def split: list.splits)
  have "dropWhile dashed (fs @ as) = as" using assms(1) Wrap as by (auto simp: list_all_iff)
  then have e: "skip_prefix (w # fs @ as) = skip_wrappers as" using assms(1) Wrap by (simp add: skip_prefix_def skip_wrappers_Cons)
  have "strip_argv (skip_wrappers as) = strip_argv as"
  proof (cases "is_wrapper c")
    case True
    then have "skip_prefix as = skip_wrappers as" using as by (simp add: skip_prefix_def)
    then show ?thesis using strip_skip by metis
  qed (simp add: as skip_wrappers_Cons)
  then show ?thesis using strip_skip [of "w # fs @ as"] e Wrap by simp
qed

lemma strip_program: "program p \<Longrightarrow> strip_argv (p # as) = p # as"
  by (subst strip_argv.simps) (simp add: program_def skip_prefix_def skip_wrappers_Cons)

lemma before_starts: "before_ok b \<Longrightarrow> starts_item (before_words b @ as)"
  using assignment_not_dashed by (cases b) (auto simp: starts_item_def)

lemma program_starts: "program p \<Longrightarrow> starts_item (p # as)"
  by (simp add: program_def starts_item_def)

lemma strip_all:
  assumes "list_all before_ok bs" "program p" shows "strip_argv (concat (map before_words bs) @ p # as) = p # as"
  using assms(1)
proof (induction bs)
  case Nil
  then show ?case using assms(2) by (simp add: strip_program)
next
  case (Cons b bs)
  have "starts_item (concat (map before_words bs) @ p # as)"
    using Cons.prems assms(2) before_starts program_starts by (cases bs) auto
  then show ?case using Cons strip_before [of b "concat (map before_words bs) @ p # as"] by simp
qed

lemma resolved_program:
  "\<lbrakk>list_all before_ok bs; program p\<rbrakk> \<Longrightarrow> resolved_argv0 (concat (map before_words bs) @ p # as) = (Some (basename p), as)"
  by (simp add: resolved_argv0_def strip_all) (simp add: program_def)

text \<open>Options of git itself, the ones with a value followed by it.\<close>

datatype git_option = Flag string | Valued string string

fun option_words :: "git_option \<Rightarrow> string list" where
  "option_words (Flag f) = [f]"
| "option_words (Valued f v) = [f, v]"

fun option_ok :: "git_option \<Rightarrow> bool" where
  "option_ok (Flag f) = (dashed f \<and> f \<notin> set git_options_with_value)"
| "option_ok (Valued f v) = (f \<in> set git_options_with_value)"

definition subcommand_ok :: "string \<Rightarrow> bool" where
  "subcommand_ok sub \<longleftrightarrow> \<not> dashed sub"

lemma options_dashed: "f \<in> set git_options_with_value \<Longrightarrow> dashed f"
  by (auto simp: git_options_with_value_def dashed_def)

lemma git_subcommand_found:
  "\<lbrakk>list_all option_ok os; subcommand_ok sub\<rbrakk> \<Longrightarrow> git_subcommand (concat (map option_words os) @ sub # args) = (Some sub, args)"
proof (induction os)
  case Nil
  then show ?case using options_dashed [of sub] by (auto simp: subcommand_ok_def)
next
  case (Cons x os)
  then show ?case by (cases x) auto
qed

section \<open>What a command line runs\<close>

text \<open>
  A command runs a program when the program stands behind assignments and wrappers with their flags, or in a payload
  of a shell that stands there.
\<close>

inductive runs :: "(string \<Rightarrow> string list \<Rightarrow> bool) \<Rightarrow> string list \<Rightarrow> bool" for bad where
  Direct: "\<lbrakk>list_all before_ok bs; program p; bad (basename p) rest\<rbrakk> \<Longrightarrow> runs bad (concat (map before_words bs) @ p # rest)"
| Shell: "\<lbrakk>list_all before_ok bs; program p; basename p \<in> set shell_interpreters; script_ok cs vs;
      argv \<in> set (script_commands cs vs); runs bad argv\<rbrakk>
    \<Longrightarrow> runs bad (concat (map before_words bs) @ p # as @ ''-c'' # script_text cs vs # rest)"

definition git_loses :: "string \<Rightarrow> string list \<Rightarrow> bool" where
  "git_loses base rest \<longleftrightarrow> base = ''git'' \<and> destructive_git_reason rest \<noteq> None"

definition dangerous :: "string \<Rightarrow> string list \<Rightarrow> bool" where
  "dangerous base rest \<longleftrightarrow> argv_danger base rest None \<noteq> None"

definition argv_loss :: "string list \<Rightarrow> git_loss option" where
  "argv_loss argv =
     (case resolved_argv0 argv of
        (base, rest) \<Rightarrow>
          (case first_some is_destructive_git (inner_commands base rest) of
             Some r \<Rightarrow> Some r
           | None \<Rightarrow> if base = Some ''git'' then destructive_git_reason rest else None))"

definition argv_risk :: "string list \<Rightarrow> danger option" where
  "argv_risk argv =
     (case resolved_argv0 argv of
        (base, rest) \<Rightarrow>
          (case base of
             None \<Rightarrow> None
           | Some b \<Rightarrow> argv_danger b rest (first_some check_shell_command (inner_commands base rest))))"

lemma is_destructive_git_eq:
  "is_destructive_git cmd = (case iter_simple_commands cmd of None \<Rightarrow> None | Some cs \<Rightarrow> first_some argv_loss cs)"
  unfolding argv_loss_def [abs_def] by (rule is_destructive_git.simps)

lemma check_shell_command_eq:
  "check_shell_command cmd = (case raw_danger cmd of Some r \<Rightarrow> Some r | None \<Rightarrow>
     (case iter_simple_commands cmd of None \<Rightarrow> None | Some cs \<Rightarrow> first_some argv_risk cs))"
  unfolding argv_risk_def [abs_def] by (rule check_shell_command.simps)

lemma destructive_script:
  "script_ok cs vs \<Longrightarrow> is_destructive_git (script_text cs vs) \<noteq> None \<longleftrightarrow> (\<exists>argv \<in> set (script_commands cs vs). argv_loss argv \<noteq> None)"
  by (simp add: is_destructive_git_eq script_is_split first_some_None)

lemma dangerous_script:
  "\<lbrakk>script_ok cs vs; argv \<in> set (script_commands cs vs); argv_risk argv \<noteq> None\<rbrakk> \<Longrightarrow> check_shell_command (script_text cs vs) \<noteq> None"
  using first_some_None [of argv_risk "script_commands cs vs"]
  by (auto simp: check_shell_command_eq script_is_split split: option.split)

lemma payload_found: "p \<in> set (payloads (as @ ''-c'' # p # rest))"
  by (induction as rule: payloads.induct) auto

lemma inner_found:
  assumes "list_all before_ok bs" "program p" "basename p \<in> set shell_interpreters" "f x \<noteq> None"
  obtains y where "first_some f (inner_commands (Some (basename p)) (as @ ''-c'' # x # rest)) = Some y"
proof -
  have "x \<in> set (inner_commands (Some (basename p)) (as @ ''-c'' # x # rest))" using assms(3) payload_found by (simp add: inner_commands_def)
  then have "first_some f (inner_commands (Some (basename p)) (as @ ''-c'' # x # rest)) \<noteq> None"
    using assms(4) by (metis first_some_None)
  then show ?thesis using that by blast
qed

lemma runs_git: "runs git_loses argv \<Longrightarrow> argv_loss argv \<noteq> None"
proof (induction rule: runs.induct)
  case (Direct bs p rest)
  then show ?case by (simp add: argv_loss_def resolved_program git_loses_def split: option.split)
next
  case (Shell bs p cs vs argv as rest)
  have "is_destructive_git (script_text cs vs) \<noteq> None" using destructive_script [OF Shell.hyps(4)] Shell.hyps(5) Shell.IH by blast
  then obtain y where "first_some is_destructive_git (inner_commands (Some (basename p)) (as @ ''-c'' # script_text cs vs # rest)) = Some y"
    using inner_found [OF Shell.hyps(1-3), of is_destructive_git] by blast
  then have "argv_loss (concat (map before_words bs) @ p # as @ ''-c'' # script_text cs vs # rest) = Some y"
    by (simp add: argv_loss_def resolved_program [OF Shell.hyps(1,2)])
  then show ?case by simp
qed

lemma argv_danger_mono: "argv_danger b rest None \<noteq> None \<Longrightarrow> argv_danger b rest x \<noteq> None"
  by (cases x) (simp, simp add: argv_danger_def)

lemma argv_danger_inner: "argv_danger b rest (Some y) \<noteq> None"
  by (simp add: argv_danger_def)

lemma runs_dangerous: "runs dangerous argv \<Longrightarrow> argv_risk argv \<noteq> None"
proof (induction rule: runs.induct)
  case (Direct bs p rest)
  have "argv_risk (concat (map before_words bs) @ p # rest) =
      argv_danger (basename p) rest (first_some check_shell_command (inner_commands (Some (basename p)) rest))"
    by (simp add: argv_risk_def resolved_program [OF Direct(1,2)])
  then show ?case using argv_danger_mono Direct(3) unfolding dangerous_def by metis
next
  case (Shell bs p cs vs argv as rest)
  have "check_shell_command (script_text cs vs) \<noteq> None" by (rule dangerous_script [OF Shell.hyps(4,5) Shell.IH])
  then obtain y where y: "first_some check_shell_command (inner_commands (Some (basename p)) (as @ ''-c'' # script_text cs vs # rest)) = Some y"
    using inner_found [OF Shell.hyps(1-3), of check_shell_command] by blast
  have "argv_risk (concat (map before_words bs) @ p # as @ ''-c'' # script_text cs vs # rest) =
      argv_danger (basename p) (as @ ''-c'' # script_text cs vs # rest) (Some y)"
    using y by (simp add: argv_risk_def resolved_program [OF Shell.hyps(1,2)])
  then show ?case using argv_danger_inner by metis
qed


text \<open>
  C35. A shell call with a destructive git command goes on without a human only by using up a one-time grant for exactly
  this call, whatever the standing rules and wherever it runs, unless permissions are bypassed altogether.
\<close>

theorem destructive_git_needs_a_grant:
  assumes "permission_check_hook pol cwd_ok (Some rs) k pid bc st = (Proceed r, st')"
    "c_tool k = ''run_shell''" "map_of (c_args k) ''cmd'' = Some (JStr s)" "is_destructive_git (py_strip s) \<noteq> None"
    "mode rs \<noteq> BypassPermissions"
  shows "0 < grants_left pol k st \<and> grants_left pol k st' = grants_left pol k st - 1"
proof -
  have nb: "is_destructive_git [] = None" by code_simp
  have s: "stripped_text (c_args k) ''cmd'' = Some (py_strip s)"
    using assms(3,4) nb by (cases "s = []") (auto simp: stripped_text_def py_strip_def)
  have n: "''run_shell'' \<notin> set auto_allow_tools" by (simp add: auto_allow_tools_def)
  obtain cwd where cwd: "stripped_text (c_args k) ''cwd'' = Some cwd"
    using assms(1,2) s n by (auto simp: permission_check_hook_def permission_check_def split: option.splits)
  let ?k = "k\<lparr>c_confined := cwd_ok cwd (c_bot k) (c_group k), c_force := True\<rparr>"
  obtain out where out: "check_start pol rs ?k pid bc st = (out, st')" "hook_result rs out = Proceed r"
    using assms s n cwd by (auto simp: permission_check_hook_def permission_check_def split: prod.splits)
  obtain d where d: "out = Decided d" "d_allow d" using out(2) by (cases out) (auto split: if_splits)
  obtain b st1 where c: "consume_once_grant pol ?k st = (b, st1)" by (metis surj_pair)
  have src: "d_source d = SOnceGrant"
    using out(1) d assms(5) by (auto simp: check_start_def decide_def ask_def c Let_def split: if_splits bool.splits)
  have same: "same_call pol ?k k" "grants_left pol ?k = grants_left pol k"
    by (auto simp: same_call_def grants_left_def grant_key_def grant_target_def fun_eq_iff)
  show ?thesis using check_start_cases [OF out(1), of k] d src same by auto
qed

section \<open>What is not seen\<close>

text \<open>
  Everything behind the first word that is a program counts as its arguments. A line break is white space
  of the lexer and no operator, so a second line belongs to the first command; the target of a
  leading redirection and the value of a wrapper's option are taken for the program.
\<close>

lemma hidden_words:
  assumes "program (word_value w)" "basename (word_value w) \<notin> set (''git'' # shell_interpreters)"
  shows "argv_loss (map word_value (w # us)) = None"
  using resolved_program [of "[]" "word_value w" "map word_value us"] assms
  by (simp add: argv_loss_def inner_commands_def image_iff)

lemma lex_lines:
  assumes "list_all word_ok (w # ws)" "list_all word_ok us"
  shows "iter_simple_commands (line (w # ws) @ CHR 0x0A # line us) = Some [map word_value (w # ws @ us)]"
proof -
  have "lex LBlank False [] (CHR 0x0A # line us) = Some (map word_value us)"
    using lex_line [OF assms(2), of False "[]" "[]"] by simp
  then have "lex LBlank False [] (line (w # ws) @ CHR 0x0A # line us) = Some (map word_value (w # ws @ us))"
    using lex_line [OF assms(1), of False "[]" "CHR 0x0A # line us"] by simp
  moreover have "list_all (\<lambda>t. \<not> operator t) (map word_value (w # ws @ us))"
    using assms word_not_operator by (auto simp: list_all_iff)
  ultimately show ?thesis using simple_words [of "map word_value (w # ws @ us)" "[]" "[]"] by (simp add: iter_simple_commands_def)
qed


lemma bundled_flags_pass:
  "git_loss ''checkout'' [''-qf''] = None" "git_loss ''push'' [''-uf'', ''origin''] = None"
  "git_loss ''branch'' [''-d'', ''-f'', ''topic''] = None" "git_loss ''push'' [''origin'', '':main''] = None"
  "\<not> dangerous ''rm'' [''-Rf'', ''/'']" "\<not> dangerous ''rm'' [''-rf'', ''/home/'']"
  by code_simp+

text \<open>A quoted root directory is seen by the lexer only, and on a second line not by the lexer either.\<close>

lemma catastrophic_words:
  "iter_simple_commands (''rm -rf '' @ [CHR 0x22, CHR ''/'', CHR 0x22]) = Some [[''rm'', ''-rf'', ''/'']]"
  "iter_simple_commands (''echo ok'' @ CHR 0x0A # ''rm -rf '' @ [CHR 0x22, CHR ''/'', CHR 0x22]) =
     Some [[''echo'', ''ok'', ''rm'', ''-rf'', ''/'']]"
  "dangerous ''rm'' [''-rf'', ''/'']" "\<not> dangerous ''echo'' [''ok'', ''rm'', ''-rf'', ''/'']"
  by code_simp+


theorem destructive_git_needs_a_grant_witness:
  "\<exists>st'. permission_check_hook demo_policy (\<lambda>_ _ _. True) (Some demo_rules) demo_call ''p'' True demo_perms = (Proceed (Some demo_rules), st') \<and>
     grants_left demo_policy demo_call st' = grants_left demo_policy demo_call demo_perms - 1"
proof -
  have "fst (permission_check_hook demo_policy (\<lambda>_ _ _. True) (Some demo_rules) demo_call ''p'' True demo_perms) = Proceed (Some demo_rules)"
    by code_simp
  then obtain st' where e: "permission_check_hook demo_policy (\<lambda>_ _ _. True) (Some demo_rules) demo_call ''p'' True demo_perms =
      (Proceed (Some demo_rules), st')" by (metis prod.collapse)
  have "is_destructive_git (py_strip ''git push --force'') \<noteq> None" by code_simp
  from destructive_git_needs_a_grant [OF e _ _ this] e show ?thesis by (simp add: demo_call_def demo_rules_def)
qed


end
