(* ===== verification/Channels.thy ===== *)
theory Channels
  imports Lease
begin

text \<open>
  Messages to and from external messengers. A group commits an outbound intent to its own outbox
  (\<^verbatim>\<open>channels/bridge/group_outbox.py\<close>), a relay copies it to the store of the channels
  (\<^verbatim>\<open>channels/stores/sqlite.py\<close>), and a dispatcher claims it, sends it over a connector and records
  the outcome (\<^verbatim>\<open>channels/runtime.py\<close>). A call is one step where it
  is one transaction; the three transactions of a claim are steps of their own. The two writes of one outcome are one step:
  when the first does not apply, the second does not either. A worker may crash between any two steps. The redaction of
  secrets and the bounds on JSON are arguments.
\<close>

section \<open>Names\<close>

datatype channel_error = NameRequired | NameTooLong | PayloadTooLarge | BadLease | UnsupportedTransition | NoTransaction

definition MAX_ID_LENGTH :: nat where "MAX_ID_LENGTH = 512"

definition required :: "string \<Rightarrow> channel_error + string" where
  "required v =
     (let n = py_strip v in
      if n = [] then Inl NameRequired else if MAX_ID_LENGTH < length n then Inl NameTooLong else Inr n)"

definition canonical_channel_instance_id :: "string \<Rightarrow> channel_error + string" where
  "canonical_channel_instance_id v = (case required v of Inl e \<Rightarrow> Inl e | Inr n \<Rightarrow> Inr (py_lower n))"

text \<open>The key of an external message: its parts behind their lengths.\<close>

definition length_prefixed :: "string \<Rightarrow> string" where
  "length_prefixed p = py_str_int (int (length p)) @ '':'' @ p"

definition canonical_message_key :: "string \<Rightarrow> string \<Rightarrow> string \<Rightarrow> string \<Rightarrow> string" where
  "canonical_message_key channel tenant conversation message =
     ''channel.v1|'' @ concat (map length_prefixed [channel, tenant, conversation, message])"

lemma str_int_split:
  assumes "py_str_int i @ CHR '':'' # s = py_str_int j @ CHR '':'' # t" shows "i = j \<and> s = t"
proof -
  have c: "CHR '':'' \<notin> set (py_str_int n)" for n
    using py_str_int_chars [of "CHR '':''" n] by auto
  have "takeWhile (\<lambda>c. c \<noteq> CHR '':'') (py_str_int n @ CHR '':'' # u) = py_str_int n" for n u
    using c [of n] by (subst takeWhile_append2) auto
  then have "py_str_int i = py_str_int j" using assms by metis
  then show ?thesis using assms py_str_int_inj by simp
qed

lemma length_prefixed_split: "length_prefixed p @ s = length_prefixed q @ t \<longleftrightarrow> p = q \<and> s = t"
proof
  assume "length_prefixed p @ s = length_prefixed q @ t"
  then have e: "py_str_int (int (length p)) @ CHR '':'' # p @ s = py_str_int (int (length q)) @ CHR '':'' # q @ t"
    by (simp add: length_prefixed_def)
  from str_int_split [OF e] have "length p = length q" "p @ s = q @ t" by simp_all
  then show "p = q \<and> s = t" by simp
qed simp

text \<open>
  C40. Keys of external messages are unambiguous: whatever characters the parts consist of, messages with the same key
  agree in channel, tenant, conversation and message id.
\<close>

theorem message_key_injective:
  "canonical_message_key c t v i = canonical_message_key c' t' v' i' \<longleftrightarrow> c = c' \<and> t = t' \<and> v = v' \<and> i = i'"
  using length_prefixed_split [of i "[]" i' "[]"] by (auto simp: canonical_message_key_def length_prefixed_split)

section \<open>The store of the channels\<close>

datatype dstate = DPending | DSending | DSent | DRetrying | DFailed | DDead | DQuarantined

record envelope =
  e_key :: string
  e_source :: "string option"
  e_channel :: string
  e_instance :: "string option"
  e_tenant :: string
  e_conversation :: string
  e_type :: string
  e_payload :: string
  e_reply :: "string option"
  e_group :: "int option"
  e_session :: "string option"

record delivery =
  d_key :: string
  d_source :: "string option"
  d_channel :: string
  d_instance :: string
  d_tenant :: string
  d_conversation :: string
  d_type :: string
  d_payload :: string
  d_reply :: "string option"
  d_group :: "int option"
  d_session :: "string option"
  d_state :: dstate
  d_attempts :: nat
  d_next :: int
  d_external :: "string option"
  d_error :: "string option"
  d_owner :: "string option"
  d_lease :: "int option"
  d_created :: int
  d_updated :: int

record inbound =
  i_key :: string
  i_instance :: string
  i_payload :: string
  i_dispatched :: bool
  i_created :: int

record replay =
  y_key :: string
  y_expires :: int

record cstore =
  inbounds :: "inbound list"
  deliveries :: "delivery list"
  audits :: "(string \<times> string) list"
  controls :: "string \<rightharpoonup> bool"
  replays :: "replay list"

text \<open>
  Inbound messages are recorded once and dispatched until their dispatch is marked. The columns that repeat parts of the
  envelope are left to \<open>i_payload\<close>, which is the whole envelope.
\<close>

definition record_inbound :: "(string \<Rightarrow> string option) \<Rightarrow> int \<Rightarrow> string \<Rightarrow> string \<Rightarrow> string \<Rightarrow> cstore \<Rightarrow> (channel_error + bool) \<times> cstore" where
  "record_inbound safe now key inst payload s =
     (case (safe payload, canonical_channel_instance_id inst) of
        (None, _) \<Rightarrow> (Inl PayloadTooLarge, s)
      | (_, Inl e) \<Rightarrow> (Inl e, s)
      | (Some p, Inr i) \<Rightarrow>
          if row_by i_key key (inbounds s) = None then
            (Inr True, s\<lparr>inbounds := inbounds s @ [\<lparr>i_key = key, i_instance = i, i_payload = p, i_dispatched = False, i_created = now\<rparr>]\<rparr>)
          else (Inr False, s))"

definition prepare_inbound :: "(string \<Rightarrow> string option) \<Rightarrow> int \<Rightarrow> string \<Rightarrow> string \<Rightarrow> string \<Rightarrow> cstore \<Rightarrow> (channel_error + bool) \<times> cstore" where
  "prepare_inbound safe now key inst payload s =
     (case record_inbound safe now key inst payload s of
        (Inl e, s') \<Rightarrow> (Inl e, s')
      | (Inr _, s') \<Rightarrow>
          (Inr (case row_by i_key key (inbounds s') of None \<Rightarrow> True | Some r \<Rightarrow> \<not> i_dispatched r), s'))"

definition mark_inbound_dispatched :: "string \<Rightarrow> cstore \<Rightarrow> bool \<times> cstore" where
  "mark_inbound_dispatched key s =
     (count_where (\<lambda>r. i_key r = key \<and> \<not> i_dispatched r) (inbounds s) = 1,
      s\<lparr>inbounds := update_where (\<lambda>r. i_key r = key \<and> \<not> i_dispatched r) (\<lambda>r. r\<lparr>i_dispatched := True\<rparr>) (inbounds s)\<rparr>)"

text \<open>A webhook event is accepted once within its window.\<close>

definition claim_webhook_replay :: "int \<Rightarrow> int \<Rightarrow> string \<Rightarrow> cstore \<Rightarrow> (channel_error + bool) \<times> cstore" where
  "claim_webhook_replay now ttl key0 s =
     (let key = py_strip key0; live = delete_where (\<lambda>r. y_expires r \<le> now) (replays s) in
      if key = [] \<or> ttl \<le> 0 then (Inl NameRequired, s)
      else if row_by y_key key live = None then (Inr True, s\<lparr>replays := live @ [\<lparr>y_key = key, y_expires = now + ttl\<rparr>]\<rparr>)
      else (Inr False, s\<lparr>replays := live\<rparr>))"

definition set_channel_paused :: "string \<Rightarrow> bool \<Rightarrow> cstore \<Rightarrow> (channel_error + unit) \<times> cstore" where
  "set_channel_paused ch p s =
     (case canonical_channel_instance_id ch of Inl e \<Rightarrow> (Inl e, s) | Inr c \<Rightarrow> (Inr (), s\<lparr>controls := (controls s)(c \<mapsto> p)\<rparr>))"

text \<open>The intents to deliver.\<close>

definition new_delivery :: "int \<Rightarrow> string \<Rightarrow> string \<Rightarrow> envelope \<Rightarrow> delivery" where
  "new_delivery now inst payload e =
     \<lparr>d_key = e_key e, d_source = e_source e, d_channel = e_channel e, d_instance = inst, d_tenant = e_tenant e,
      d_conversation = e_conversation e, d_type = e_type e, d_payload = payload, d_reply = e_reply e, d_group = e_group e,
      d_session = e_session e, d_state = DPending, d_attempts = 0, d_next = now, d_external = None, d_error = None,
      d_owner = None, d_lease = None, d_created = now, d_updated = now\<rparr>"

definition enqueue_outbound :: "(string \<Rightarrow> string option) \<Rightarrow> int \<Rightarrow> envelope \<Rightarrow> cstore \<Rightarrow> (channel_error + bool) \<times> cstore" where
  "enqueue_outbound safe now e s =
     (case (safe (e_payload e), canonical_channel_instance_id (opt_or (e_instance e) (e_channel e))) of
        (None, _) \<Rightarrow> (Inl PayloadTooLarge, s)
      | (_, Inl err) \<Rightarrow> (Inl err, s)
      | (Some p, Inr i) \<Rightarrow>
          if row_by d_key (e_key e) (deliveries s) = None
          then (Inr True, s\<lparr>deliveries := deliveries s @ [new_delivery now i p e]\<rparr>)
          else (Inr False, s))"

definition lapsed :: "int \<Rightarrow> delivery \<Rightarrow> bool" where
  "lapsed now r \<longleftrightarrow> d_state r = DSending \<and> (case d_lease r of None \<Rightarrow> False | Some u \<Rightarrow> u \<le> now)"

definition freed :: "int \<Rightarrow> delivery \<Rightarrow> delivery" where
  "freed now r = r\<lparr>d_state := DRetrying, d_owner := None, d_lease := None, d_updated := now\<rparr>"

definition recover_expired_deliveries :: "int \<Rightarrow> cstore \<Rightarrow> nat \<times> cstore" where
  "recover_expired_deliveries now s =
     (count_where (lapsed now) (deliveries s), s\<lparr>deliveries := update_where (lapsed now) (freed now) (deliveries s)\<rparr>)"

definition waiting :: "delivery \<Rightarrow> bool" where
  "waiting r \<longleftrightarrow> d_state r = DPending \<or> d_state r = DRetrying"

definition due :: "(string \<rightharpoonup> bool) \<Rightarrow> int \<Rightarrow> string option \<Rightarrow> string option \<Rightarrow> delivery \<Rightarrow> bool" where
  "due ctl now channel inst r \<longleftrightarrow> waiting r \<and> d_next r \<le> now \<and>
     ctl (py_or (d_instance r) (d_channel r)) \<noteq> Some True \<and>
     (case inst of Some i \<Rightarrow> d_instance r = i
      | None \<Rightarrow> (case channel of Some c \<Rightarrow> d_channel r = py_lower c | None \<Rightarrow> True))"

definition claimed :: "int \<Rightarrow> string \<Rightarrow> int \<Rightarrow> delivery \<Rightarrow> delivery" where
  "claimed now owner lease r =
     r\<lparr>d_state := DSending, d_attempts := d_attempts r + 1, d_owner := Some owner, d_lease := Some (now + lease), d_updated := now\<rparr>"

text \<open>Recovering lapsed leases, claiming and reading the claimed row back are three transactions.\<close>

definition claim_due :: "int \<Rightarrow> string \<Rightarrow> int \<Rightarrow> string option \<Rightarrow> string option \<Rightarrow> cstore \<Rightarrow> string option \<times> cstore" where
  "claim_due now owner lease channel inst s =
     (case sort_key d_created (filter (due (controls s) now channel inst) (deliveries s)) of
        [] \<Rightarrow> (None, s)
      | r # _ \<Rightarrow>
          (Some (d_key r),
           s\<lparr>deliveries := update_where (\<lambda>x. d_key x = d_key r \<and> waiting x) (claimed now owner lease) (deliveries s)\<rparr>))"

definition claim_due_delivery ::
  "int \<Rightarrow> string \<Rightarrow> int \<Rightarrow> string option \<Rightarrow> string option \<Rightarrow> cstore \<Rightarrow> (channel_error + delivery option) \<times> cstore" where
  "claim_due_delivery now owner lease channel inst s =
     (if py_strip owner = [] \<or> lease \<le> 0 then (Inl BadLease, s)
      else
        (case claim_due now owner lease channel inst (snd (recover_expired_deliveries now s)) of
           (None, s') \<Rightarrow> (Inr None, s')
         | (Some k, s') \<Rightarrow> (Inr (row_by d_key k (deliveries s')), s')))"

definition renew_delivery_lease :: "int \<Rightarrow> string \<Rightarrow> string \<Rightarrow> int \<Rightarrow> cstore \<Rightarrow> (channel_error + bool) \<times> cstore" where
  "renew_delivery_lease now key owner lease s =
     (if py_strip owner = [] \<or> lease \<le> 0 then (Inl BadLease, s)
      else
        let P = (\<lambda>r. d_key r = key \<and> d_state r = DSending \<and> d_owner r = Some owner)
        in (Inr (count_where P (deliveries s) = 1),
            s\<lparr>deliveries := update_where P (\<lambda>r. r\<lparr>d_lease := Some (now + lease), d_updated := now\<rparr>) (deliveries s)\<rparr>))"

definition ended :: "int \<Rightarrow> dstate \<Rightarrow> string option \<Rightarrow> string option \<Rightarrow> int \<Rightarrow> delivery \<Rightarrow> delivery" where
  "ended now st ext err next r =
     r\<lparr>d_state := st, d_external := (case ext of None \<Rightarrow> d_external r | Some x \<Rightarrow> Some x), d_error := err, d_next := next,
       d_owner := None, d_lease := None, d_updated := now\<rparr>"

definition transition_delivery_with_audit ::
  "(string \<Rightarrow> string) \<Rightarrow> int \<Rightarrow> string \<Rightarrow> dstate \<Rightarrow> string \<Rightarrow> string option \<Rightarrow> string option \<Rightarrow> int option \<Rightarrow> string option \<Rightarrow>
   cstore \<Rightarrow> (channel_error + bool) \<times> cstore" where
  "transition_delivery_with_audit redact now key st event ext err retry_at owner s =
     (if st \<notin> {DSent, DRetrying, DDead} then (Inl UnsupportedTransition, s)
      else
        (case row_by d_key key (deliveries s) of
           None \<Rightarrow> (Inr False, s)
         | Some r \<Rightarrow>
             if d_state r \<noteq> DSending then (Inr False, s)
             else if owner \<noteq> None \<and> d_owner r \<noteq> owner then (Inr False, s)
             else if st = DSent \<and> (ext = None \<or> ext = Some []) then (Inr False, s)
             else
               (Inr True,
                s\<lparr>deliveries := update_where (\<lambda>x. d_key x = key \<and> d_state x = DSending)
                    (ended now st ext
                      (if st = DSent then None else Some (redact (opt_or err ''delivery failed'')))
                      (if st = DSent then now else get_default retry_at now)) (deliveries s),
                  audits := audits s @ [(key, event)]\<rparr>)))"

definition mark_sent :: "(string \<Rightarrow> string) \<Rightarrow> int \<Rightarrow> string \<Rightarrow> string \<Rightarrow> string option \<Rightarrow> cstore \<Rightarrow> (channel_error + bool) \<times> cstore" where
  "mark_sent redact now key ext owner s =
     transition_delivery_with_audit redact now key DSent ''delivery.sent'' (Some ext) None None owner s"

definition mark_failed ::
  "(string \<Rightarrow> string) \<Rightarrow> int \<Rightarrow> string \<Rightarrow> string \<Rightarrow> int option \<Rightarrow> string option \<Rightarrow> cstore \<Rightarrow> (channel_error + bool) \<times> cstore" where
  "mark_failed redact now key err retry_at owner s =
     transition_delivery_with_audit redact now key (if retry_at \<noteq> None then DRetrying else DDead)
       (if retry_at \<noteq> None then ''delivery.retrying'' else ''delivery.dead_letter'') None (Some err) retry_at owner s"

text \<open>An operator sends a dead letter round again; its attempts are not reset.\<close>

definition replay_dead_letter :: "int \<Rightarrow> string \<Rightarrow> cstore \<Rightarrow> bool \<times> cstore" where
  "replay_dead_letter now key s =
     (let P = (\<lambda>r. d_key r = key \<and> d_state r = DDead) in
      if count_where P (deliveries s) \<noteq> 1 then (False, s)
      else (True, s\<lparr>deliveries := update_where P (\<lambda>r. r\<lparr>d_state := DRetrying, d_next := now, d_error := None, d_updated := now\<rparr>) (deliveries s),
                     audits := audits s @ [(key, ''delivery.replayed'')]\<rparr>))"

text \<open>At start instances are brought into canonical form, and open deliveries without one are put aside.\<close>

definition nameless :: "delivery \<Rightarrow> bool" where
  "nameless r \<longleftrightarrow> py_strip (d_instance r) = [] \<and> (waiting r \<or> d_state r = DSending)"

definition canonical_instance :: "int \<Rightarrow> delivery \<Rightarrow> delivery" where
  "canonical_instance now r =
     (case canonical_channel_instance_id (d_instance r) of
        Inl _ \<Rightarrow> r
      | Inr i \<Rightarrow> if i = d_instance r then r else r\<lparr>d_instance := i, d_updated := now\<rparr>)"

definition quarantined :: "int \<Rightarrow> delivery \<Rightarrow> delivery" where
  "quarantined now r =
     r\<lparr>d_state := DQuarantined, d_error := Some ''migration quarantined delivery without channel_instance_id'',
       d_owner := None, d_lease := None, d_updated := now\<rparr>"

definition initialized :: "int \<Rightarrow> cstore \<Rightarrow> cstore" where
  "initialized now s =
     s\<lparr>deliveries := map (\<lambda>r. if nameless r then quarantined now r else canonical_instance now r) (deliveries s),
       audits := audits s @ map (\<lambda>r. (d_key r, ''delivery.quarantined'')) (filter nameless (deliveries s))\<rparr>"

text \<open>A name that is too long makes the start fail and leaves the rows as they were.\<close>

definition initialize_store :: "int \<Rightarrow> cstore \<Rightarrow> (channel_error + unit) \<times> cstore" where
  "initialize_store now s =
     (if list_ex (\<lambda>r. MAX_ID_LENGTH < length (py_strip (d_instance r))) (deliveries s) then (Inl NameTooLong, s)
      else (Inr (), initialized now s))"

section \<open>The dispatcher\<close>

record dispatcher =
  p_owner :: string
  p_channel :: "string option"
  p_instance :: "string option"
  p_max :: nat
  p_base :: int
  p_lease :: int

record receipt =
  r_channel :: string
  r_key :: string
  r_status :: string
  r_external :: "string option"
  r_error :: string

text \<open>What the connector does: it returns a receipt, something else, or raises, knowing or not whether the message went out.\<close>

datatype sent = Receipt receipt | NoReceipt | SendRaised string bool

definition verdict :: "delivery \<Rightarrow> sent \<Rightarrow> (string \<times> bool) + string" where
  "verdict item x =
     (case x of
        SendRaised err ambiguous \<Rightarrow> Inl (err, ambiguous)
      | NoReceipt \<Rightarrow> Inl (''connector returned an invalid delivery receipt'', False)
      | Receipt r \<Rightarrow>
          if r_channel r \<noteq> d_channel item then Inl (''delivery receipt channel mismatch'', False)
          else if r_key r \<noteq> d_key item then Inl (''delivery receipt idempotency key mismatch'', False)
          else
            (case r_external r of
               Some ext \<Rightarrow> if r_status r = ''sent'' \<and> ext \<noteq> [] then Inr ext else Inl (r_error r, False)
             | None \<Rightarrow> Inl (r_error r, False)))"

definition failed_delivery ::
  "(string \<Rightarrow> string) \<Rightarrow> int \<Rightarrow> dispatcher \<Rightarrow> delivery \<Rightarrow> string \<Rightarrow> bool \<Rightarrow> cstore \<Rightarrow> cstore" where
  "failed_delivery redact now p item err ambiguous s =
     (let n = d_attempts item;
          retry_at = (if n < p_max p \<and> \<not> ambiguous then Some (now + p_base p * 2 ^ (n - 1)) else None)
      in snd (transition_delivery_with_audit redact now (d_key item) (if retry_at \<noteq> None then DRetrying else DDead)
           (if retry_at \<noteq> None then ''delivery.retrying'' else if ambiguous then ''delivery.ambiguous'' else ''delivery.dead_letter'')
           None (Some err) retry_at (Some (p_owner p)) s))"

definition finish_delivery :: "(string \<Rightarrow> string) \<Rightarrow> int \<Rightarrow> dispatcher \<Rightarrow> delivery \<Rightarrow> sent \<Rightarrow> cstore \<Rightarrow> cstore" where
  "finish_delivery redact now p item x s =
     (case verdict item x of
        Inl (err, ambiguous) \<Rightarrow> failed_delivery redact now p item err ambiguous s
      | Inr ext \<Rightarrow>
          (case transition_delivery_with_audit redact now (d_key item) DSent ''delivery.sent'' (Some ext) None None (Some (p_owner p)) s of
             (Inr True, s') \<Rightarrow> s'
           | (_, s') \<Rightarrow> failed_delivery redact now p item ''delivery state changed before success could be recorded'' False s'))"

definition run_once :: "(string \<Rightarrow> string) \<Rightarrow> int \<Rightarrow> dispatcher \<Rightarrow> (delivery \<Rightarrow> sent) \<Rightarrow> cstore \<Rightarrow> (channel_error + bool) \<times> cstore" where
  "run_once redact now p connector s =
     (case claim_due_delivery now (p_owner p) (p_lease p) (p_channel p) (p_instance p) s of
        (Inl e, s') \<Rightarrow> (Inl e, s')
      | (Inr None, s') \<Rightarrow> (Inr False, s')
      | (Inr (Some item), s') \<Rightarrow> (Inr True, finish_delivery redact now p item (connector item) s'))"

section \<open>The outbox of a group\<close>

datatype gstate = GPending | GSending | GRetrying | GForwarded | GDead

record gevent =
  g_id :: string
  g_source :: string
  g_envelope :: envelope
  g_state :: gstate
  g_attempts :: nat
  g_next :: int
  g_owner :: "string option"
  g_lease :: "int option"
  g_error :: "string option"
  g_created :: int

type_synonym gstore = "gevent list \<times> (string \<times> string) list"

text \<open>\<open>in_tx\<close>: the caller's transaction is open, so that the intent is committed with the event it announces.\<close>

definition append_intent :: "(string \<Rightarrow> string option) \<Rightarrow> bool \<Rightarrow> int \<Rightarrow> envelope \<Rightarrow> gevent list \<Rightarrow> (channel_error + bool) \<times> gevent list" where
  "append_intent safe in_tx now e t =
     (if \<not> in_tx then (Inl NoTransaction, t)
      else
        (case safe (e_payload e) of
           None \<Rightarrow> (Inl PayloadTooLarge, t)
         | Some p \<Rightarrow>
             if row_by g_id (e_key e) t = None then
               (Inr True, t @ [\<lparr>g_id = e_key e, g_source = opt_or (e_source e) (e_key e), g_envelope = e\<lparr>e_payload := p\<rparr>,
                  g_state = GPending, g_attempts = 0, g_next = now, g_owner = None, g_lease = None, g_error = None, g_created = now\<rparr>])
             else (Inr False, t)))"

definition g_lapsed :: "int \<Rightarrow> gevent \<Rightarrow> bool" where
  "g_lapsed now r \<longleftrightarrow> g_state r = GSending \<and> (case g_lease r of None \<Rightarrow> False | Some u \<Rightarrow> u \<le> now)"

definition g_due :: "int \<Rightarrow> gevent \<Rightarrow> bool" where
  "g_due now r \<longleftrightarrow> (g_state r = GPending \<or> g_state r = GRetrying) \<and> g_next r \<le> now"

definition g_claimed :: "string \<Rightarrow> int \<Rightarrow> gevent \<Rightarrow> gevent" where
  "g_claimed owner until r = r\<lparr>g_state := GSending, g_attempts := g_attempts r + 1, g_owner := Some owner, g_lease := Some until\<rparr>"

text \<open>The claim of \<open>relay_once\<close>: the event as it was read, before its attempt was counted. Nothing due is a rollback.\<close>

definition relay_claim :: "int \<Rightarrow> string \<Rightarrow> int \<Rightarrow> gevent list \<Rightarrow> gevent option \<times> gevent list" where
  "relay_claim now owner lease t =
     (let t1 = update_where (g_lapsed now) (\<lambda>r. r\<lparr>g_state := GRetrying, g_owner := None, g_lease := None\<rparr>) t in
      (case sort_key g_created (filter (g_due now) t1) of
         [] \<Rightarrow> (None, t)
       | r # _ \<Rightarrow> (Some r, update_where (\<lambda>x. g_id x = g_id r) (g_claimed owner (now + lease)) t1)))"

definition relay_finish :: "(string \<Rightarrow> string) \<Rightarrow> string \<Rightarrow> string \<Rightarrow> gstate \<Rightarrow> string option \<Rightarrow> int \<Rightarrow> gstore \<Rightarrow> bool \<times> gstore" where
  "relay_finish redact owner key st err next G =
     (let P = (\<lambda>r. g_id r = key \<and> g_state r = GSending \<and> g_owner r = Some owner);
          b = (count_where P (fst G) = 1);
          e = (case err of None \<Rightarrow> None | Some x \<Rightarrow> if redact x = [] then None else Some (redact x))
      in (b, update_where P (\<lambda>r. r\<lparr>g_state := st, g_error := e, g_next := next, g_owner := None, g_lease := None\<rparr>) (fst G),
          snd G @ (if b then [(key, case st of GForwarded \<Rightarrow> ''relay.forwarded'' | GRetrying \<Rightarrow> ''relay.retrying'' | _ \<Rightarrow> ''relay.dead_lettered'')]
                   else [])))"

datatype relayed = RelayIdle | Forwarded | RetryScheduled | DeadLettered | LeaseLost

definition relay_outcome ::
  "(string \<Rightarrow> string) \<Rightarrow> int \<Rightarrow> nat \<Rightarrow> int \<Rightarrow> string \<Rightarrow> gevent \<Rightarrow> string option \<Rightarrow> gstore \<Rightarrow> relayed \<times> gstore" where
  "relay_outcome redact now max_attempts delay owner ev failure G =
     (let n = g_attempts ev + 1 in
      (case failure of
         None \<Rightarrow>
           (case relay_finish redact owner (g_id ev) GForwarded None now G of (b, G') \<Rightarrow> (if b then Forwarded else LeaseLost, G'))
       | Some err \<Rightarrow>
           if max_attempts \<le> n then
             (case relay_finish redact owner (g_id ev) GDead (Some err) now G of (b, G') \<Rightarrow> (if b then DeadLettered else LeaseLost, G'))
           else
             (case relay_finish redact owner (g_id ev) GRetrying (Some err) (now + delay * 2 ^ min (n - 1) 10) G of
                (b, G') \<Rightarrow> (if b then RetryScheduled else LeaseLost, G'))))"

section \<open>Everything together\<close>

text \<open>
  Relays and dispatchers run side by side, each under an owner name of its own. Between the steps of one worker the others
  go on, its lease may lapse, and it may crash: between claiming a row and reading it back too, so that a worker remembers
  which attempt it claimed. \<open>sends\<close> records, for each message handed to the connector, its key and that attempt; \<open>lapses\<close> and \<open>replayed\<close> record what sends a message round again without its attempt having failed.
\<close>

datatype worker =
    Idle
  | Relaying gevent
  | Relayed gevent "string option"
  | Claimed string nat
  | Sending nat delivery
  | Answered nat delivery sent

record world =
  events :: gstore
  store :: cstore
  workers :: "nat \<Rightarrow> worker"
  sends :: "(string \<times> nat) list"
  lapses :: "string list"
  replayed :: "string list"

definition empty_world :: world where
  "empty_world = \<lparr>events = ([], []), store = \<lparr>inbounds = [], deliveries = [], audits = [], controls = Map.empty, replays = []\<rparr>,
     workers = (\<lambda>_. Idle), sends = [], lapses = [], replayed = []\<rparr>"

definition becomes :: "nat \<Rightarrow> worker \<Rightarrow> world \<Rightarrow> world" where
  "becomes t c w = w\<lparr>workers := (workers w)(t := c)\<rparr>"

definition lapsed_keys :: "int \<Rightarrow> cstore \<Rightarrow> string list" where
  "lapsed_keys now s = map d_key (filter (lapsed now) (deliveries s))"

inductive cstep :: "(string \<Rightarrow> string option) \<Rightarrow> (string \<Rightarrow> string) \<Rightarrow> (nat \<Rightarrow> string) \<Rightarrow> nat \<Rightarrow> world \<Rightarrow> world \<Rightarrow> bool"
  for safe redact own mx where
  Append: "append_intent safe tx now e (fst (events w)) = (b, t) \<Longrightarrow> cstep safe redact own mx w (w\<lparr>events := (t, snd (events w))\<rparr>)"
| RelayClaim: "\<lbrakk>workers w t = Idle; relay_claim now (own t) lease (fst (events w)) = (Some ev, es)\<rbrakk> \<Longrightarrow>
    cstep safe redact own mx w (becomes t (Relaying ev) (w\<lparr>events := (es, snd (events w))\<rparr>))"
| RelayStore: "\<lbrakk>workers w t = Relaying ev; enqueue_outbound safe now (g_envelope ev) (store w) = (b, s);
      failure = (case b of Inl _ \<Rightarrow> Some err | Inr _ \<Rightarrow> None)\<rbrakk> \<Longrightarrow>
    cstep safe redact own mx w (becomes t (Relayed ev failure) (w\<lparr>store := s\<rparr>))"
| RelayRaises: "workers w t = Relaying ev \<Longrightarrow> cstep safe redact own mx w (becomes t (Relayed ev (Some err)) w)"
| RelayFinish: "\<lbrakk>workers w t = Relayed ev failure; relay_outcome redact now rmax delay (own t) ev failure (events w) = (b, G)\<rbrakk> \<Longrightarrow>
    cstep safe redact own mx w (becomes t Idle (w\<lparr>events := G\<rparr>))"
| Recover: "cstep safe redact own mx w
    (w\<lparr>store := snd (recover_expired_deliveries now (store w)), lapses := lapses w @ lapsed_keys now (store w)\<rparr>)"
| Claim: "\<lbrakk>workers w t = Idle; claim_due now (own t) lease channel inst (store w) = (Some k, s); row_by d_key k (deliveries s) = Some r\<rbrakk> \<Longrightarrow>
    cstep safe redact own mx w (becomes t (Claimed k (d_attempts r)) (w\<lparr>store := s\<rparr>))"
| Read: "\<lbrakk>workers w t = Claimed k n; row_by d_key k (deliveries (store w)) = Some item\<rbrakk> \<Longrightarrow>
    cstep safe redact own mx w (becomes t (Sending n item) w)"
| Send: "workers w t = Sending n item \<Longrightarrow>
    cstep safe redact own mx w (becomes t (Answered n item x) (w\<lparr>sends := sends w @ [(d_key item, n)]\<rparr>))"
| Finish: "\<lbrakk>workers w t = Answered n item x; p_owner p = own t; p_max p = mx\<rbrakk> \<Longrightarrow>
    cstep safe redact own mx w (becomes t Idle (w\<lparr>store := finish_delivery redact now p item x (store w)\<rparr>))"
| Beat: "\<lbrakk>workers w t = Sending n item \<or> workers w t = Answered n item x; renew_delivery_lease now (d_key item) (own t) lease (store w) = (b, s)\<rbrakk> \<Longrightarrow>
    cstep safe redact own mx w (w\<lparr>store := s\<rparr>)"
| Crash: "cstep safe redact own mx w (becomes t Idle w)"
| Replay: "replay_dead_letter now k (store w) = (True, s) \<Longrightarrow>
    cstep safe redact own mx w (w\<lparr>store := s, replayed := k # replayed w\<rparr>)"
| Pause: "set_channel_paused ch pa (store w) = (b, s) \<Longrightarrow> cstep safe redact own mx w (w\<lparr>store := s\<rparr>)"
| Restart: "initialize_store now (store w) = (b, s) \<Longrightarrow> cstep safe redact own mx w (w\<lparr>store := s\<rparr>)"

inductive creach :: "(string \<Rightarrow> string option) \<Rightarrow> (string \<Rightarrow> string) \<Rightarrow> (nat \<Rightarrow> string) \<Rightarrow> nat \<Rightarrow> world \<Rightarrow> bool"
  for safe redact own mx where
  Start: "creach safe redact own mx empty_world"
| Step: "creach safe redact own mx w \<Longrightarrow> cstep safe redact own mx w w' \<Longrightarrow> creach safe redact own mx w'"

section \<open>The row of a key after each call\<close>

definition look :: "cstore \<Rightarrow> string \<Rightarrow> delivery option" where
  "look s k = row_by d_key k (deliveries s)"

definition unique :: "cstore \<Rightarrow> bool" where
  "unique s \<longleftrightarrow> keyed d_key (deliveries s)"

lemma look_key: "look s k = Some r \<Longrightarrow> d_key r = k"
  unfolding look_def by (drule row_by_SomeD) simp

lemma look_update:
  assumes "\<And>r. d_key (f r) = d_key r"
  shows "look (s\<lparr>deliveries := update_where P f (deliveries s), audits := a\<rparr>) k = map_option (\<lambda>r. if P r then f r else r) (look s k)"
    "look (s\<lparr>deliveries := update_where P f (deliveries s)\<rparr>) k = map_option (\<lambda>r. if P r then f r else r) (look s k)"
  using assms by (simp_all add: look_def row_by_update_where)

lemma unique_update:
  assumes "\<And>r. d_key (f r) = d_key r" "unique s"
  shows "unique (s\<lparr>deliveries := update_where P f (deliveries s), audits := a\<rparr>)" "unique (s\<lparr>deliveries := update_where P f (deliveries s)\<rparr>)"
  using assms by (simp_all add: unique_def keyed_update_where)

lemma row_keys [simp]:
  "d_key (freed now r) = d_key r" "d_key (claimed now ow le r) = d_key r" "d_key (ended now st ext err nx r) = d_key r"
  "d_key (quarantined now r) = d_key r" "d_key (canonical_instance now r) = d_key r"
  by (simp_all add: freed_def claimed_def ended_def quarantined_def canonical_instance_def split: sum.split)

lemma after_recover:
  "look (snd (recover_expired_deliveries now s)) k = map_option (\<lambda>r. if lapsed now r then freed now r else r) (look s k)"
  "audits (snd (recover_expired_deliveries now s)) = audits s"
  "unique s \<Longrightarrow> unique (snd (recover_expired_deliveries now s))"
  by (simp_all add: recover_expired_deliveries_def look_update unique_update)

lemma after_claim:
  assumes "claim_due now owner lease channel inst s = (Some k, s')" "unique s"
  obtains r where "look s k = Some r" "waiting r" "look s' k = Some (claimed now owner lease r)"
    "\<And>x. look s' x = (if x = k then Some (claimed now owner lease r) else look s x)" "audits s' = audits s" "unique s'"
proof -
  obtain r rs where rs: "sort_key d_created (filter (due (controls s) now channel inst) (deliveries s)) = r # rs"
    using assms(1) by (cases "sort_key d_created (filter (due (controls s) now channel inst) (deliveries s))") (auto simp: claim_due_def)
  let ?P = "\<lambda>x. d_key x = d_key r \<and> waiting x"
  have s': "s' = s\<lparr>deliveries := update_where ?P (claimed now owner lease) (deliveries s)\<rparr>" and k: "k = d_key r"
    using assms(1) rs by (auto simp: claim_due_def)
  have "r \<in> set (sort_key d_created (filter (due (controls s) now channel inst) (deliveries s)))" using rs by simp
  then have r: "r \<in> set (deliveries s)" "due (controls s) now channel inst r" by auto
  have l: "look s k = Some r" using row_by_in_keyed [OF assms(2) [unfolded unique_def] r(1)] k by (simp add: look_def)
  have w: "waiting r" using r(2) by (simp add: due_def)
  have look': "look s' x = map_option (\<lambda>x. if ?P x then claimed now owner lease x else x) (look s x)" for x
    unfolding s' by (rule look_update) simp
  have all: "look s' x = (if x = k then Some (claimed now owner lease r) else look s x)" for x
  proof (cases "x = k")
    case True
    then show ?thesis using look' [of x] l w k by simp
  next
    case False
    then show ?thesis using look' [of x] k look_key [of s x] by (cases "look s x") auto
  qed
  have "unique s'" unfolding s' by (rule unique_update) (use assms(2) in simp_all)
  then show ?thesis using that [OF l w _ all] all s' by simp
qed

lemma after_renew:
  assumes "renew_delivery_lease now key owner lease s = (b, s')"
  shows "look s' k = look s k \<or>
      (\<exists>r u. look s k = Some r \<and> d_state r = DSending \<and> look s' k = Some (r\<lparr>d_lease := Some u, d_updated := now\<rparr>))"
    "audits s' = audits s" "unique s \<Longrightarrow> unique s'"
proof -
  let ?P = "\<lambda>r. d_key r = key \<and> d_state r = DSending \<and> d_owner r = Some owner"
  let ?f = "\<lambda>r. r\<lparr>d_lease := Some (now + lease), d_updated := now\<rparr>"
  have f: "d_key (?f r) = d_key r" for r by simp
  consider "s' = s" | "s' = s\<lparr>deliveries := update_where ?P ?f (deliveries s)\<rparr>"
    using assms by (auto simp: renew_delivery_lease_def Let_def split: if_splits)
  then show "look s' k = look s k \<or>
      (\<exists>r u. look s k = Some r \<and> d_state r = DSending \<and> look s' k = Some (r\<lparr>d_lease := Some u, d_updated := now\<rparr>))"
  proof cases
    case 2
    then show ?thesis using look_update(2) [where f = ?f and s = s and P = ?P and k = k, OF f] by (cases "look s k") auto
  qed simp
  show "audits s' = audits s" using assms by (auto simp: renew_delivery_lease_def Let_def split: if_splits)
  show "unique s'" if "unique s"
    using assms unique_update(2) [where f = ?f and s = s and P = ?P, OF f that] that by (auto simp: renew_delivery_lease_def Let_def split: if_splits)
qed

lemma after_transition:
  assumes "transition_delivery_with_audit redact now key st ev ext err ra (Some owner) s = (b, s')"
  shows "(s' = s \<and> b \<noteq> Inr True) \<or>
    (\<exists>r err' nx. b = Inr True \<and> look s key = Some r \<and> d_state r = DSending \<and> d_owner r = Some owner \<and> st \<in> {DSent, DRetrying, DDead} \<and>
       (st = DSent \<longrightarrow> ext \<noteq> None \<and> ext \<noteq> Some []) \<and>
       (\<forall>k. look s' k = (if k = key then Some (ended now st ext err' nx r) else look s k)) \<and> audits s' = audits s @ [(key, ev)] \<and>
       (unique s \<longrightarrow> unique s'))"
proof (cases "b = Inr True")
  case False
  then show ?thesis using assms by (auto simp: transition_delivery_with_audit_def split: if_splits option.splits)
next
  case True
  let ?err = "if st = DSent then None else Some (redact (opt_or err ''delivery failed''))"
  let ?nx = "if st = DSent then now else get_default ra now"
  let ?P = "\<lambda>x. d_key x = key \<and> d_state x = DSending"
  obtain r where r: "row_by d_key key (deliveries s) = Some r" "d_state r = DSending" "d_owner r = Some owner"
    "st \<in> {DSent, DRetrying, DDead}" "st = DSent \<longrightarrow> ext \<noteq> None \<and> ext \<noteq> Some []"
    and s': "s' = s\<lparr>deliveries := update_where ?P (ended now st ext ?err ?nx) (deliveries s), audits := audits s @ [(key, ev)]\<rparr>"
    using assms True unfolding transition_delivery_with_audit_def by (auto split: if_splits option.splits)
  have l: "look s key = Some r" using r(1) by (simp add: look_def)
  have lu: "look s' k = map_option (\<lambda>x. if ?P x then ended now st ext ?err ?nx x else x) (look s k)" for k
    unfolding s' by (rule look_update) simp
  have "look s' k = (if k = key then Some (ended now st ext ?err ?nx r) else look s k)" for k
  proof (cases "k = key")
    case True
    then show ?thesis using lu [of k] l r(2) look_key [OF l] by simp
  next
    case False
    then show ?thesis using lu [of k] look_key [of s k] by (cases "look s k") auto
  qed
  moreover have "unique s \<Longrightarrow> unique s'" unfolding s' by (rule unique_update) simp_all
  ultimately show ?thesis using True l r s' by (intro disjI2 exI [of _ r] exI [of _ ?err] exI [of _ ?nx]) simp
qed

section \<open>The lease of a delivery\<close>

text \<open>Claims and transitions are a fenced lease: of a claim only the case that takes the delivery in question counts.\<close>

definition delivery_acquire :: "int \<Rightarrow> string option \<Rightarrow> string option \<Rightarrow> string \<Rightarrow> string \<Rightarrow> int \<Rightarrow> cstore \<Rightarrow> bool \<times> cstore" where
  "delivery_acquire lease channel inst k owner now s =
     (case claim_due now owner lease channel inst s of (x, s') \<Rightarrow> if x = Some k then (True, s') else (False, s))"

definition delivery_finish ::
  "(string \<Rightarrow> string) \<Rightarrow> dstate \<Rightarrow> string \<Rightarrow> string option \<Rightarrow> string option \<Rightarrow> int option \<Rightarrow> string \<Rightarrow> string \<Rightarrow> int \<Rightarrow> cstore \<Rightarrow> bool \<times> cstore" where
  "delivery_finish redact st ev ext err ra k owner now s =
     (case transition_delivery_with_audit redact now k st ev ext err ra (Some owner) s of (b, s') \<Rightarrow> (b = Inr True, s'))"

definition delivery_holder :: "cstore \<Rightarrow> string \<Rightarrow> string option" where
  "delivery_holder s k = (case look s k of None \<Rightarrow> None | Some r \<Rightarrow> if d_state r = DSending then d_owner r else None)"

definition delivery_expired :: "cstore \<Rightarrow> string \<Rightarrow> int \<Rightarrow> bool" where
  "delivery_expired s k now \<longleftrightarrow> (case look s k of None \<Rightarrow> True | Some r \<Rightarrow> lapsed now r)"

lemma delivery_acquire_cases:
  assumes "delivery_acquire lease channel inst k owner now s = (b, s')" "unique s"
  shows "(b = False \<and> s' = s) \<or>
    (b = True \<and> delivery_holder s k = None \<and> delivery_holder s' = (delivery_holder s)(k \<mapsto> owner) \<and> unique s')"
proof (cases b)
  case True
  then have c: "claim_due now owner lease channel inst s = (Some k, s')"
    using assms(1) by (auto simp: delivery_acquire_def split: prod.splits if_splits)
  obtain r where r: "look s k = Some r" "waiting r" "\<And>x. look s' x = (if x = k then Some (claimed now owner lease r) else look s x)" "unique s'"
    using after_claim [OF c assms(2)] by blast
  have "delivery_holder s' x = ((delivery_holder s)(k \<mapsto> owner)) x" for x
    using r(3) by (simp add: delivery_holder_def claimed_def)
  moreover have "delivery_holder s k = None" using r(1,2) by (auto simp: delivery_holder_def waiting_def)
  ultimately show ?thesis using r(4) True by auto
next
  case False
  then show ?thesis using assms(1) by (auto simp: delivery_acquire_def split: prod.splits if_splits)
qed

lemma delivery_finish_cases:
  assumes "delivery_finish redact st ev ext err ra k owner now s = (b, s')"
  shows "(b = False \<and> s' = s) \<or>
    (b = True \<and> delivery_holder s k = Some owner \<and> delivery_holder s' = (delivery_holder s)(k := None) \<and> (unique s \<longrightarrow> unique s'))"
proof -
  obtain b' where t: "transition_delivery_with_audit redact now k st ev ext err ra (Some owner) s = (b', s')" "b = (b' = Inr True)"
    using assms by (auto simp: delivery_finish_def split: prod.splits)
  from after_transition [OF t(1)] show ?thesis
  proof (elim disjE exE conjE)
    fix r err' nx
    assume a: "b' = Inr True" "look s k = Some r" "d_state r = DSending" "d_owner r = Some owner" "st \<in> {DSent, DRetrying, DDead}"
      "\<forall>x. look s' x = (if x = k then Some (ended now st ext err' nx r) else look s x)" "unique s \<longrightarrow> unique s'"
    have "delivery_holder s' x = ((delivery_holder s)(k := None)) x" for x
      using a(5,6) by (auto simp: delivery_holder_def ended_def)
    then show ?thesis using a t(2) by (auto simp: delivery_holder_def)
  qed (use t(2) in simp)
qed

interpretation delivery_lease: fenced_lease "delivery_acquire lease channel inst" "delivery_finish redact st ev ext err ra" delivery_holder
    delivery_expired unique
  for lease channel inst redact st ev ext err ra
proof (unfold_locales, goal_cases)
  case (1 s k t now)
  then show ?case using delivery_acquire_cases [OF surjective_pairing 1] by metis
next
  case (2 s k t now)
  then show ?case using delivery_finish_cases [OF surjective_pairing] by metis
next
  case (3 s k u now t)
  then show ?case using delivery_acquire_cases [OF surjective_pairing 3(1)] by (metis option.distinct(1))
next
  case (4 s k t now)
  then show ?case using delivery_acquire_cases [OF surjective_pairing 4(1)] by metis
next
  case (5 s k t now)
  then show ?case using delivery_acquire_cases [OF surjective_pairing 5(1)] by metis
next
  case (6 s k t now)
  obtain b s' where e: "delivery_finish redact st ev ext err ra k t now s = (b, s')" by (metis surj_pair)
  then show ?case using delivery_finish_cases [OF e] 6(2) by auto
next
  case (7 s k t now)
  obtain b s' where e: "delivery_finish redact st ev ext err ra k t now s = (b, s')" by (metis surj_pair)
  then show ?case using delivery_finish_cases [OF e] 7(2) by auto
next
  case (8 s k t now)
  obtain b s' where e: "delivery_finish redact st ev ext err ra k t now s = (b, s')" by (metis surj_pair)
  then show ?case using delivery_finish_cases [OF e] 8(2) by auto
qed

section \<open>The dispatcher and the other calls\<close>

definition finishes :: "dispatcher \<Rightarrow> delivery \<Rightarrow> cstore \<Rightarrow> cstore \<Rightarrow> bool" where
  "finishes p item s s' \<longleftrightarrow>
    (\<exists>now r st ext err nx ev. look s (d_key item) = Some r \<and> d_state r = DSending \<and> d_owner r = Some (p_owner p) \<and>
       (st = DSent \<and> ev = ''delivery.sent'' \<and> ext \<noteq> None \<and> ext \<noteq> Some [] \<or>
        (st = DRetrying \<and> d_attempts item < p_max p \<or> st = DDead) \<and> ev \<noteq> ''delivery.sent'') \<and>
       (\<forall>k. look s' k = (if k = d_key item then Some (ended now st ext err nx r) else look s k)) \<and>
       audits s' = audits s @ [(d_key item, ev)] \<and> (unique s \<longrightarrow> unique s'))"

lemma transition_finishes:
  assumes "transition_delivery_with_audit redact now (d_key item) st ev ext err ra (Some (p_owner p)) s = (b, s')"
    "st = DSent \<and> ev = ''delivery.sent'' \<or> (st = DRetrying \<and> d_attempts item < p_max p \<or> st = DDead) \<and> ev \<noteq> ''delivery.sent''"
  shows "(s' = s \<and> b \<noteq> Inr True) \<or> (b = Inr True \<and> finishes p item s s')"
  using after_transition [OF assms(1)]
proof (elim disjE exE conjE)
  fix r err' nx
  assume a: "b = Inr True" "look s (d_key item) = Some r" "d_state r = DSending" "d_owner r = Some (p_owner p)"
    "st = DSent \<longrightarrow> ext \<noteq> None \<and> ext \<noteq> Some []"
    "\<forall>k. look s' k = (if k = d_key item then Some (ended now st ext err' nx r) else look s k)"
    "audits s' = audits s @ [(d_key item, ev)]" "unique s \<longrightarrow> unique s'"
  have "finishes p item s s'" unfolding finishes_def
    by (rule exI [of _ now], rule exI [of _ r], rule exI [of _ st], rule exI [of _ ext], rule exI [of _ err'],
        rule exI [of _ nx], rule exI [of _ ev]) (use a assms(2) in blast)
  then show ?thesis using a(1) by blast
qed simp

lemma failed_finishes:
  "failed_delivery redact now p item e amb s = s \<or> finishes p item s (failed_delivery redact now p item e amb s)"
proof -
  define ra where "ra = (if d_attempts item < p_max p \<and> \<not> amb then Some (now + p_base p * 2 ^ (d_attempts item - 1)) else None)"
  define st where "st = (if ra \<noteq> None then DRetrying else DDead)"
  define ev where "ev = (if ra \<noteq> None then ''delivery.retrying'' else if amb then ''delivery.ambiguous'' else ''delivery.dead_letter'')"
  obtain b s1 where t: "transition_delivery_with_audit redact now (d_key item) st ev None (Some e) ra (Some (p_owner p)) s = (b, s1)"
    by (metis surj_pair)
  have "failed_delivery redact now p item e amb s = s1"
    unfolding failed_delivery_def Let_def ra_def [symmetric] st_def [symmetric] ev_def [symmetric] t by simp
  moreover have "(st = DRetrying \<and> d_attempts item < p_max p \<or> st = DDead) \<and> ev \<noteq> ''delivery.sent''"
    by (auto simp: st_def ev_def ra_def)
  ultimately show ?thesis using transition_finishes [OF t] by blast
qed

lemma after_finish: "finish_delivery redact now p item x s = s \<or> finishes p item s (finish_delivery redact now p item x s)"
proof (cases "verdict item x")
  case (Inl v)
  obtain e amb where "v = (e, amb)" by (cases v)
  then have "finish_delivery redact now p item x s = failed_delivery redact now p item e amb s" using Inl by (simp add: finish_delivery_def)
  then show ?thesis using failed_finishes by simp
next
  case (Inr ext)
  obtain b s1 where t: "transition_delivery_with_audit redact now (d_key item) DSent ''delivery.sent'' (Some ext) None None (Some (p_owner p)) s = (b, s1)"
    by (metis surj_pair)
  from transition_finishes [OF t] have "(s1 = s \<and> b \<noteq> Inr True) \<or> (b = Inr True \<and> finishes p item s s1)" by blast
  then show ?thesis
  proof
    assume n: "s1 = s \<and> b \<noteq> Inr True"
    then have "finish_delivery redact now p item x s = failed_delivery redact now p item ''delivery state changed before success could be recorded'' False s"
      using t Inr by (auto simp: finish_delivery_def split: sum.splits bool.splits)
    then show ?thesis using failed_finishes by simp
  next
    assume "b = Inr True \<and> finishes p item s s1"
    then show ?thesis using t Inr by (simp add: finish_delivery_def)
  qed
qed

lemma after_replay:
  assumes "replay_dead_letter now key s = (True, s')"
  shows "look s' k = map_option (\<lambda>r. if d_key r = key \<and> d_state r = DDead then r\<lparr>d_state := DRetrying, d_next := now, d_error := None, d_updated := now\<rparr> else r) (look s k)"
    "audits s' = audits s @ [(key, ''delivery.replayed'')]" "unique s \<Longrightarrow> unique s'"
  using assms by (auto simp: replay_dead_letter_def Let_def look_update unique_update split: if_splits)

lemma after_initialized:
  "look (initialized now s) k = map_option (\<lambda>r. if nameless r then quarantined now r else canonical_instance now r) (look s k)"
  "audits (initialized now s) = audits s @ map (\<lambda>r. (d_key r, ''delivery.quarantined'')) (filter nameless (deliveries s))"
  "unique s \<Longrightarrow> unique (initialized now s)"
proof -
  have m: "row_by d_key k (map f t) = map_option f (row_by d_key k t)" if "\<And>r. d_key (f r) = d_key r" for f t
    using that by (induction t) auto
  show "look (initialized now s) k = map_option (\<lambda>r. if nameless r then quarantined now r else canonical_instance now r) (look s k)"
    unfolding look_def initialized_def by (simp add: m)
  show "unique s \<Longrightarrow> unique (initialized now s)"
    by (simp add: unique_def keyed_def initialized_def comp_def if_distrib cong: if_cong)
qed (simp add: initialized_def)

lemma initialize_cases: "initialize_store now s = (b, s') \<Longrightarrow> s' = s \<or> s' = initialized now s"
  by (auto simp: initialize_store_def split: if_splits)

lemma after_enqueue:
  assumes "enqueue_outbound safe now e s = (b, s')"
  shows "s' = s \<or> (\<exists>i p. look s (e_key e) = None \<and> safe (e_payload e) = Some p \<and>
      (\<forall>k. look s' k = (if k = e_key e then Some (new_delivery now i p e) else look s k)) \<and> audits s' = audits s \<and> (unique s \<longrightarrow> unique s'))"
    "b = Inr c \<Longrightarrow> look s' (e_key e) \<noteq> None"
proof -
  have key: "d_key (new_delivery now i p e) = e_key e" for i p by (simp add: new_delivery_def)
  have new: "look (s\<lparr>deliveries := deliveries s @ [new_delivery now i p e]\<rparr>) k = (if k = e_key e then Some (new_delivery now i p e) else look s k)"
    if "look s (e_key e) = None" for i p k
    using that key by (auto simp: look_def row_by_append split: option.splits)
  have u: "unique (s\<lparr>deliveries := deliveries s @ [new_delivery now i p e]\<rparr>)" if "look s (e_key e) = None" "unique s" for i p
    using that key by (auto simp: look_def unique_def intro!: keyed_insert)
  have c: "s' = s \<and> (\<forall>c. b = Inr c \<longrightarrow> look s (e_key e) \<noteq> None) \<or>
      (\<exists>i p. safe (e_payload e) = Some p \<and> look s (e_key e) = None \<and> s' = s\<lparr>deliveries := deliveries s @ [new_delivery now i p e]\<rparr>)"
  proof (cases "safe (e_payload e)")
    case None
    then show ?thesis using assms by (auto simp: enqueue_outbound_def)
  next
    case p: (Some p)
    show ?thesis
    proof (cases "canonical_channel_instance_id (opt_or (e_instance e) (e_channel e))")
      case (Inl err)
      then show ?thesis using assms p by (auto simp: enqueue_outbound_def)
    next
      case (Inr i)
      then show ?thesis using assms p by (cases "look s (e_key e)") (auto simp: enqueue_outbound_def look_def)
    qed
  qed
  show "s' = s \<or> (\<exists>i p. look s (e_key e) = None \<and> safe (e_payload e) = Some p \<and>
      (\<forall>k. look s' k = (if k = e_key e then Some (new_delivery now i p e) else look s k)) \<and> audits s' = audits s \<and> (unique s \<longrightarrow> unique s'))"
    using c
  proof (elim disjE exE conjE)
    fix i p assume "safe (e_payload e) = Some p" "look s (e_key e) = None" "s' = s\<lparr>deliveries := deliveries s @ [new_delivery now i p e]\<rparr>"
    then show ?thesis using new [of i p] u [of i p] by (intro disjI2 exI [of _ i] exI [of _ p]) simp
  qed simp
  show "look s' (e_key e) \<noteq> None" if "b = Inr c"
    using c
  proof (elim disjE exE conjE)
    fix i p assume "look s (e_key e) = None" "s' = s\<lparr>deliveries := deliveries s @ [new_delivery now i p e]\<rparr>"
    then show ?thesis using new [of i p "e_key e"] by simp
  qed (use that in blast)
qed

lemma after_pause:
  assumes "set_channel_paused ch pa s = (b, s')" shows "look s' = look s" "audits s' = audits s" "unique s' = unique s"
  using assms by (auto simp: set_channel_paused_def look_def unique_def split: sum.splits)

section \<open>The store keeps its books\<close>

definition row_fine :: "delivery \<Rightarrow> bool" where
  "row_fine r \<longleftrightarrow> (d_owner r \<noteq> None \<longleftrightarrow> d_state r = DSending) \<and> (d_lease r \<noteq> None \<longleftrightarrow> d_state r = DSending) \<and>
     (d_state r = DSent \<longrightarrow> d_external r \<noteq> None \<and> d_external r \<noteq> Some [])"

definition sent_count :: "cstore \<Rightarrow> string \<Rightarrow> nat" where
  "sent_count s k = count_list (audits s) (k, ''delivery.sent'')"

definition is_sent :: "delivery option \<Rightarrow> bool" where
  "is_sent x \<longleftrightarrow> (case x of None \<Rightarrow> False | Some r \<Rightarrow> d_state r = DSent)"

definition booked :: "cstore \<Rightarrow> bool" where
  "booked s \<longleftrightarrow> unique s \<and> (\<forall>k r. look s k = Some r \<longrightarrow> row_fine r) \<and> (\<forall>k. sent_count s k = (if is_sent (look s k) then 1 else 0))"

lemma booked_map:
  assumes "booked s" "unique s'" "\<And>k. look s' k = map_option f (look s k)" "\<And>k. sent_count s' k = sent_count s k"
    "\<And>r. row_fine r \<Longrightarrow> row_fine (f r) \<and> (d_state (f r) = DSent \<longleftrightarrow> d_state r = DSent)"
  shows "booked s'"
  unfolding booked_def
proof (intro conjI allI impI)
  show "unique s'" by (rule assms(2))
  show "row_fine r" if "look s' k = Some r" for k r using that assms(1,3,5) by (auto simp: booked_def)
  have row: "look s k = Some r \<Longrightarrow> row_fine r" for k r using assms(1) by (simp add: booked_def)
  then show "sent_count s' k = (if is_sent (look s' k) then 1 else 0)" for k
    using assms(1,3,4,5) row [of k] by (cases "look s k") (auto simp: booked_def is_sent_def)
qed

lemma booked_set:
  assumes "booked s" "unique s'" "\<And>k. look s' k = (if k = key then Some r' else look s k)" "row_fine r'"
    "\<And>k. sent_count s' k = sent_count s k + (if k = key \<and> d_state r' = DSent then 1 else 0)" "\<not> is_sent (look s key)"
  shows "booked s'"
  unfolding booked_def
proof (intro conjI allI impI)
  show "unique s'" by (rule assms(2))
  show "row_fine r" if "look s' k = Some r" for k r using that assms(1,3,4) by (auto simp: booked_def split: if_splits)
  show "sent_count s' k = (if is_sent (look s' k) then 1 else 0)" for k
    using assms by (auto simp: booked_def is_sent_def)
qed

lemma sent_count_same: "audits s' = audits s \<Longrightarrow> sent_count s' k = sent_count s k"
  by (simp add: sent_count_def)

lemma sent_count_add: "audits s' = audits s @ [(key, ev)] \<Longrightarrow>
    sent_count s' k = sent_count s k + (if k = key \<and> ev = ''delivery.sent'' then 1 else 0)"
  by (auto simp: sent_count_def)

lemma sent_count_quarantine: "audits s' = audits s @ map (\<lambda>r. (d_key r, ''delivery.quarantined'')) xs \<Longrightarrow> sent_count s' k = sent_count s k"
proof -
  have "count_list (map (\<lambda>r. (d_key r, ''delivery.quarantined'')) xs) (k, ''delivery.sent'') = 0"
    by (induction xs) auto
  then show "audits s' = audits s @ map (\<lambda>r. (d_key r, ''delivery.quarantined'')) xs \<Longrightarrow> sent_count s' k = sent_count s k"
    by (simp add: sent_count_def)
qed

lemma booked_recover:
  assumes "booked s" shows "booked (snd (recover_expired_deliveries now s))"
proof (rule booked_map [OF assms _ after_recover(1)])
  show "unique (snd (recover_expired_deliveries now s))" using assms after_recover(3) by (simp add: booked_def)
  show "sent_count (snd (recover_expired_deliveries now s)) k = sent_count s k" for k by (rule sent_count_same [OF after_recover(2)])
qed (auto simp: row_fine_def lapsed_def freed_def)

lemma booked_claim:
  assumes "claim_due now owner lease channel inst s = (Some k, s')" "booked s" shows "booked s'"
proof -
  have u: "unique s" using assms(2) by (simp add: booked_def)
  obtain r where r: "look s k = Some r" "waiting r" "\<And>x. look s' x = (if x = k then Some (claimed now owner lease r) else look s x)"
    "audits s' = audits s" "unique s'"
    using after_claim [OF assms(1) u] by blast
  show ?thesis
  proof (rule booked_set [OF assms(2) r(5) r(3)])
    show "row_fine (claimed now owner lease r)" by (simp add: row_fine_def claimed_def)
    show "sent_count s' x = sent_count s x + (if x = k \<and> d_state (claimed now owner lease r) = DSent then 1 else 0)" for x
      using r(4) by (simp add: sent_count_def claimed_def)
    show "\<not> is_sent (look s k)" using r(1,2) by (auto simp: is_sent_def waiting_def)
  qed
qed

lemma booked_renew:
  assumes "renew_delivery_lease now key owner lease s = (b, s')" "booked s" shows "booked s'"
proof -
  have row: "look s k = Some r \<Longrightarrow> row_fine r" for k r using assms(2) by (simp add: booked_def)
  have same: "is_sent (look s' k) = is_sent (look s k)" for k
    using after_renew(1) [OF assms(1), of k] by (auto simp: is_sent_def)
  have "row_fine r" if "look s' k = Some r" for k r
    using after_renew(1) [OF assms(1), of k]
  proof (elim disjE exE conjE)
    fix x u assume x: "look s k = Some x" "d_state x = DSending" "look s' k = Some (x\<lparr>d_lease := Some u, d_updated := now\<rparr>)"
    then show "row_fine r" using row [OF x(1)] that by (simp add: row_fine_def)
  qed (use row that in simp)
  then show ?thesis using after_renew(3) [OF assms(1)] assms(2) same sent_count_same [OF after_renew(2) [OF assms(1)]]
    by (simp add: booked_def)
qed

lemma booked_finish:
  assumes "booked s" shows "booked (finish_delivery redact now p item x s)"
  using after_finish [of redact now p item x s]
proof
  let ?s = "finish_delivery redact now p item x s"
  assume "finishes p item s ?s"
  then obtain now' r st ext err nx ev where a: "look s (d_key item) = Some r" "d_state r = DSending"
    "st = DSent \<and> ev = ''delivery.sent'' \<and> ext \<noteq> None \<and> ext \<noteq> Some [] \<or>
     (st = DRetrying \<and> d_attempts item < p_max p \<or> st = DDead) \<and> ev \<noteq> ''delivery.sent''"
    "\<And>k. look ?s k = (if k = d_key item then Some (ended now' st ext err nx r) else look s k)" "audits ?s = audits s @ [(d_key item, ev)]"
    "unique s \<longrightarrow> unique ?s"
    unfolding finishes_def by blast
  show "booked ?s"
  proof (rule booked_set [OF assms _ a(4)])
    show "unique ?s" using a(6) assms by (simp add: booked_def)
    show "row_fine (ended now' st ext err nx r)" using a(3) by (auto simp: row_fine_def ended_def split: option.splits)
    show "sent_count ?s k = sent_count s k + (if k = d_key item \<and> d_state (ended now' st ext err nx r) = DSent then 1 else 0)" for k
      using sent_count_add [OF a(5), of k] a(3) by (auto simp: ended_def)
    show "\<not> is_sent (look s (d_key item))" using a(1,2) by (simp add: is_sent_def)
  qed
qed (use assms in simp)

lemma booked_others:
  "replay_dead_letter now key s = (True, s') \<Longrightarrow> booked s \<Longrightarrow> booked s'"
  "booked s \<Longrightarrow> booked (initialized now s)"
  "enqueue_outbound safe now e s = (b, s') \<Longrightarrow> booked s \<Longrightarrow> booked s'"
proof -
  show "booked s'" if a: "replay_dead_letter now key s = (True, s')" and b: "booked s"
  proof (rule booked_map [OF b _ after_replay(1) [OF a]])
    show "unique s'" using after_replay(3) [OF a] b by (simp add: booked_def)
    show "sent_count s' k = sent_count s k" for k using sent_count_add [OF after_replay(2) [OF a], of k] by simp
  qed (auto simp: row_fine_def)
  show "booked (initialized now s)" if b: "booked s"
  proof (rule booked_map [OF b _ after_initialized(1)])
    show "unique (initialized now s)" using b after_initialized(3) by (simp add: booked_def)
    show "sent_count (initialized now s) k = sent_count s k" for k by (rule sent_count_quarantine [OF after_initialized(2)])
  qed (auto simp: row_fine_def nameless_def waiting_def quarantined_def canonical_instance_def split: sum.split)
  show "booked s'" if a: "enqueue_outbound safe now e s = (b, s')" and b: "booked s"
    using after_enqueue(1) [OF a]
  proof (elim disjE exE conjE)
    fix i p assume n: "look s (e_key e) = None" "\<forall>k. look s' k = (if k = e_key e then Some (new_delivery now i p e) else look s k)"
      "audits s' = audits s" "unique s \<longrightarrow> unique s'"
    show "booked s'"
    proof (rule booked_set [OF b])
      show "unique s'" using n(4) b by (simp add: booked_def)
      show "look s' k = (if k = e_key e then Some (new_delivery now i p e) else look s k)" for k using n(2) by blast
    qed (use n in \<open>auto simp: row_fine_def new_delivery_def sent_count_def is_sent_def\<close>)
  qed (use b in simp)
qed

section \<open>How rows evolve\<close>

text \<open>A row never loses attempts, and who is sending it was sending it before, unless \<open>Q\<close> has just claimed it.\<close>

definition evolves :: "string option \<Rightarrow> delivery \<Rightarrow> delivery \<Rightarrow> bool" where
  "evolves Q r r' \<longleftrightarrow> d_attempts r \<le> d_attempts r' \<and>
     (\<forall>u. d_state r' = DSending \<and> d_owner r' = Some u \<longrightarrow>
        (d_state r = DSending \<and> d_owner r = Some u \<and> d_attempts r' = d_attempts r) \<or> Q = Some u) \<and>
     (d_state r = DSent \<longrightarrow> d_state r' = DSent \<and> d_external r' = d_external r \<and> d_attempts r' = d_attempts r)"

definition grows :: "string option \<Rightarrow> cstore \<Rightarrow> cstore \<Rightarrow> bool" where
  "grows Q s s' \<longleftrightarrow> (\<forall>k r. look s k = Some r \<longrightarrow> (\<exists>r'. look s' k = Some r' \<and> evolves Q r r'))"

lemma evolves_refl [simp]: "evolves Q r r"
  by (simp add: evolves_def)

lemma grows_refl [simp]: "grows Q s s"
  by (simp add: grows_def)

lemma grows_map:
  assumes "\<And>k. look s' k = map_option f (look s k)" "\<And>r. evolves Q r (f r)" shows "grows Q s s'"
  using assms by (auto simp: grows_def)

lemma grows_set:
  assumes "\<And>k. look s' k = (if k = key then Some r' else look s k)" "\<And>r. look s key = Some r \<Longrightarrow> evolves Q r r'" shows "grows Q s s'"
  using assms by (auto simp: grows_def)

lemma grows_recover: "grows None s (snd (recover_expired_deliveries now s))"
  by (rule grows_map [OF after_recover(1)]) (auto simp: evolves_def lapsed_def freed_def)

lemma grows_claim:
  assumes "claim_due now owner lease channel inst s = (Some k, s')" "unique s" shows "grows (Some owner) s s'"
proof -
  obtain r where r: "look s k = Some r" "waiting r" "\<And>x. look s' x = (if x = k then Some (claimed now owner lease r) else look s x)"
    using after_claim [OF assms] by blast
  show ?thesis by (rule grows_set [OF r(3)]) (use r(1,2) in \<open>auto simp: evolves_def claimed_def waiting_def\<close>)
qed

lemma grows_renew:
  assumes "renew_delivery_lease now key owner lease s = (b, s')" shows "grows None s s'"
  unfolding grows_def
proof (intro allI impI)
  fix k r assume "look s k = Some r"
  then show "\<exists>r'. look s' k = Some r' \<and> evolves None r r'" using after_renew(1) [OF assms, of k] by (auto simp: evolves_def)
qed

lemma grows_finish: "grows None s (finish_delivery redact now p item x s)"
  using after_finish [of redact now p item x s]
proof
  let ?s = "finish_delivery redact now p item x s"
  assume "finishes p item s ?s"
  then obtain now' r st ext err nx ev where a: "look s (d_key item) = Some r" "d_state r = DSending"
    "st = DSent \<or> st = DRetrying \<or> st = DDead"
    "\<And>k. look ?s k = (if k = d_key item then Some (ended now' st ext err nx r) else look s k)"
    unfolding finishes_def by blast
  show ?thesis by (rule grows_set [OF a(4)]) (use a(1-3) in \<open>auto simp: evolves_def ended_def\<close>)
qed simp

lemma grows_others:
  "replay_dead_letter now key s = (True, s') \<Longrightarrow> grows None s s'"
  "grows None s (initialized now s)"
  "enqueue_outbound safe now e s = (b, s') \<Longrightarrow> grows None s s'"
proof -
  show "grows None s s'" if "replay_dead_letter now key s = (True, s')"
    by (rule grows_map [OF after_replay(1) [OF that]]) (auto simp: evolves_def)
  show "grows None s (initialized now s)"
    by (rule grows_map [OF after_initialized(1)])
      (auto simp: evolves_def nameless_def waiting_def quarantined_def canonical_instance_def split: sum.split)
  show "grows None s s'" if a: "enqueue_outbound safe now e s = (b, s')"
    using after_enqueue(1) [OF a]
  proof (elim disjE exE conjE)
    fix i p assume "look s (e_key e) = None" "\<forall>k. look s' k = (if k = e_key e then Some (new_delivery now i p e) else look s k)"
    then show "grows None s s'" by (auto simp: grows_def)
  qed simp
qed

lemma booked_unique: "booked s \<Longrightarrow> unique s"
  by (simp add: booked_def)

lemma becomes_fields [simp]:
  "store (becomes t c w) = store w" "events (becomes t c w) = events w" "sends (becomes t c w) = sends w"
  "lapses (becomes t c w) = lapses w" "replayed (becomes t c w) = replayed w" "workers (becomes t c w) = (workers w)(t := c)"
  by (simp_all add: becomes_def)

lemma pause_keeps: "set_channel_paused ch pa s = (b, s') \<Longrightarrow> booked s' = booked s \<and> grows Q s s'"
  using after_pause [of ch pa s b s'] by (simp add: booked_def sent_count_def grows_def)

lemma booked_step: "cstep safe redact own mx w w' \<Longrightarrow> booked (store w) \<Longrightarrow> booked (store w')"
proof (induction rule: cstep.induct)
  case RelayStore
  then show ?case using booked_others(3) by simp
next
  case Recover
  then show ?case using booked_recover by simp
next
  case Claim
  then show ?case using booked_claim by simp
next
  case Finish
  then show ?case using booked_finish by simp
next
  case Beat
  then show ?case using booked_renew by simp
next
  case Replay
  then show ?case using booked_others(1) by simp
next
  case Pause
  then show ?case using pause_keeps by simp
next
  case Restart
  then show ?case using initialize_cases booked_others(2) by fastforce
qed simp_all

lemma booked_reach: "creach safe redact own mx w \<Longrightarrow> booked (store w)"
proof (induction rule: creach.induct)
  case Start
  show ?case by (simp add: empty_world_def booked_def unique_def look_def sent_count_def is_sent_def)
next
  case (Step w w')
  then show ?case using booked_step by blast
qed

lemma step_grows:
  assumes "cstep safe redact own mx w w'" "booked (store w)" shows "\<exists>Q. grows Q (store w) (store w')"
  using assms(1)
proof cases
  case (RelayStore t ev now b s)
  then show ?thesis using grows_others(3) [OF RelayStore(3)] by auto
next
  case Recover
  then show ?thesis by (auto intro: exI [of _ None] grows_recover)
next
  case (Claim t now lease channel inst k s r)
  then show ?thesis using grows_claim [OF Claim(3) booked_unique [OF assms(2)]] by auto
next
  case Finish
  then show ?thesis by (auto intro: exI [of _ None] grows_finish)
next
  case (Beat t n item x now lease b s)
  then show ?thesis using grows_renew [OF Beat(3)] by auto
next
  case (Replay now k s)
  then show ?thesis using grows_others(1) [OF Replay(2)] by auto
next
  case (Pause ch pa b s)
  then show ?thesis using pause_keeps [OF Pause(2)] by auto
next
  case (Restart now b s)
  then show ?thesis using initialize_cases [OF Restart(2)] grows_others(2) grows_refl by auto
qed (auto intro: grows_refl)

text \<open>
  C37. The books of the store balance whatever relays, dispatchers, crashes and operators do: a delivery has an owner and a
  lease exactly while it is being sent, one that is sent has the identifier of the messenger, and the audit log records
  exactly one success for it and none for any other.
\<close>

theorem books_balance:
  assumes "creach safe redact own mx w" "look (store w) k = Some r"
  shows "(d_owner r \<noteq> None \<longleftrightarrow> d_state r = DSending) \<and> (d_lease r \<noteq> None \<longleftrightarrow> d_state r = DSending) \<and>
    (d_state r = DSent \<longrightarrow> d_external r \<noteq> None \<and> d_external r \<noteq> Some []) \<and>
    count_list (audits (store w)) (k, ''delivery.sent'') = (if d_state r = DSent then 1 else 0)"
  using booked_reach [OF assms(1)] assms(2) by (simp add: booked_def row_fine_def sent_count_def is_sent_def)

abbreviation csteps :: "(string \<Rightarrow> string option) \<Rightarrow> (string \<Rightarrow> string) \<Rightarrow> (nat \<Rightarrow> string) \<Rightarrow> nat \<Rightarrow> world \<Rightarrow> world \<Rightarrow> bool" where
  "csteps safe redact own mx \<equiv> rtranclp (cstep safe redact own mx)"

lemma creach_steps: "csteps safe redact own mx w w' \<Longrightarrow> creach safe redact own mx w \<Longrightarrow> creach safe redact own mx w'"
  by (induction rule: rtranclp_induct) (auto intro: creach.Step)

lemma sent_step:
  assumes "cstep safe redact own mx w w'" "booked (store w)" "look (store w) k = Some r" "d_state r = DSent"
  shows "\<exists>r'. look (store w') k = Some r' \<and> d_state r' = DSent \<and> d_external r' = d_external r \<and> d_attempts r' = d_attempts r"
  using step_grows [OF assms(1,2)] assms(3,4) unfolding grows_def evolves_def by blast

text \<open>
  A delivery that is recorded as sent stays so, with its identifier and its number of attempts: it is never claimed again.
\<close>

theorem sent_is_final:
  assumes "creach safe redact own mx w" "look (store w) k = Some r" "d_state r = DSent" "csteps safe redact own mx w w'"
  shows "\<exists>r'. look (store w') k = Some r' \<and> d_state r' = DSent \<and> d_external r' = d_external r \<and> d_attempts r' = d_attempts r"
  using assms(4)
proof (induction rule: rtranclp_induct)
  case base
  then show ?case using assms(2,3) by blast
next
  case (step x y)
  then obtain r1 where r1: "look (store x) k = Some r1" "d_state r1 = DSent" "d_external r1 = d_external r" "d_attempts r1 = d_attempts r"
    by blast
  have "booked (store x)" using creach_steps [OF step.hyps(1) assms(1)] by (rule booked_reach)
  from sent_step [OF step.hyps(2) this r1(1,2)] show ?case using r1 by auto
qed

section \<open>How often a message is sent\<close>

definition credit :: "nat \<Rightarrow> world \<Rightarrow> string \<Rightarrow> nat" where
  "credit mx w k = mx + count_list (lapses w) k + count_list (replayed w) k"

definition due_again :: "delivery \<Rightarrow> nat" where
  "due_again r = d_attempts r + (if waiting r then 1 else 0)"

text \<open>The attempt a worker has claimed, whether it has still to send it, and the row it has read.\<close>

fun item_of :: "worker \<Rightarrow> (string \<times> nat) option" where
  "item_of (Claimed k n) = Some (k, n)"
| "item_of (Sending n i) = Some (d_key i, n)"
| "item_of (Answered n i x) = Some (d_key i, n)"
| "item_of _ = None"

fun unsent :: "worker \<Rightarrow> bool" where
  "unsent (Claimed k n) = True"
| "unsent (Sending n i) = True"
| "unsent _ = False"

fun read_of :: "worker \<Rightarrow> delivery option" where
  "read_of (Sending n i) = Some i"
| "read_of (Answered n i x) = Some i"
| "read_of _ = None"

definition holds_item :: "string \<Rightarrow> cstore \<Rightarrow> worker \<Rightarrow> bool" where
  "holds_item u s c \<longleftrightarrow> (case item_of c of None \<Rightarrow> True | Some (k, n) \<Rightarrow> 0 < n \<and>
     (\<exists>r. look s k = Some r \<and> n \<le> d_attempts r \<and>
       (d_state r = DSending \<and> d_owner r = Some u \<longrightarrow> d_attempts r = n \<and> (\<forall>i. read_of c = Some i \<longrightarrow> d_attempts i = n))))"

definition items_ok :: "(nat \<Rightarrow> string) \<Rightarrow> cstore \<Rightarrow> (nat \<Rightarrow> worker) \<Rightarrow> bool" where
  "items_ok own s W \<longleftrightarrow> (\<forall>t. holds_item (own t) s (W t))"

definition labels_ok :: "cstore \<Rightarrow> (nat \<Rightarrow> worker) \<Rightarrow> (string \<times> nat) list \<Rightarrow> bool" where
  "labels_ok s W L \<longleftrightarrow> distinct L \<and> (\<forall>k n. (k, n) \<in> set L \<longrightarrow> 0 < n \<and> (\<exists>r. look s k = Some r \<and> n \<le> d_attempts r)) \<and>
     (\<forall>t x. unsent (W t) \<longrightarrow> item_of (W t) = Some x \<longrightarrow> x \<notin> set L) \<and>
     (\<forall>t t' x. t \<noteq> t' \<longrightarrow> item_of (W t) = Some x \<longrightarrow> item_of (W t') \<noteq> Some x)"

definition bounded :: "nat \<Rightarrow> world \<Rightarrow> bool" where
  "bounded mx w \<longleftrightarrow> (\<forall>k r. look (store w) k = Some r \<longrightarrow> due_again r \<le> credit mx w k)"

lemma holds_itemD:
  assumes "holds_item u s c" "item_of c = Some (k, n)"
  shows "\<exists>r. look s k = Some r \<and> 0 < n \<and> n \<le> d_attempts r \<and>
    (d_state r = DSending \<and> d_owner r = Some u \<longrightarrow> d_attempts r = n \<and> (\<forall>i. read_of c = Some i \<longrightarrow> d_attempts i = n))"
  using assms by (auto simp: holds_item_def)

lemma holds_item_grow:
  assumes "holds_item u s c" "grows Q s s'" "Q \<noteq> Some u" shows "holds_item u s' c"
proof (cases "item_of c")
  case None
  then show ?thesis by (simp add: holds_item_def)
next
  case (Some x)
  obtain k n where x: "x = (k, n)" by (cases x)
  obtain r where r: "look s k = Some r" "0 < n" "n \<le> d_attempts r"
    "d_state r = DSending \<and> d_owner r = Some u \<longrightarrow> d_attempts r = n \<and> (\<forall>i. read_of c = Some i \<longrightarrow> d_attempts i = n)"
    using holds_itemD [OF assms(1), of k n] Some x by blast
  obtain r' where r': "look s' k = Some r'" "evolves Q r r'" using assms(2) r(1) unfolding grows_def by blast
  have "n \<le> d_attempts r'" using r(3) r'(2) by (simp add: evolves_def)
  moreover have "d_attempts r' = n \<and> (\<forall>i. read_of c = Some i \<longrightarrow> d_attempts i = n)" if o: "d_state r' = DSending" "d_owner r' = Some u"
    using r(4) r'(2) o assms(3) by (simp add: evolves_def)
  ultimately show ?thesis using Some x r(2) r'(1) by (simp add: holds_item_def)
qed

lemma items_grow:
  assumes "items_ok own s W" "grows None s s'" shows "items_ok own s' W"
  using assms holds_item_grow [OF _ assms(2)] by (simp add: items_ok_def)

lemma items_set:
  assumes "items_ok own s W" "holds_item (own t) s c" shows "items_ok own s (W(t := c))"
  using assms by (simp add: items_ok_def)

lemma items_less:
  assumes "items_ok own s W" "item_of c = None \<or> item_of c = item_of (W t) \<and> read_of c = read_of (W t)" shows "items_ok own s (W(t := c))"
proof (rule items_set [OF assms(1)])
  have "holds_item (own t) s (W t)" using assms(1) by (simp add: items_ok_def)
  then show "holds_item (own t) s c" using assms(2) by (auto simp: holds_item_def split: option.splits)
qed

lemma labels_okD:
  assumes "labels_ok s W L"
  shows "distinct L" "(k, n) \<in> set L \<Longrightarrow> 0 < n \<and> (\<exists>r. look s k = Some r \<and> n \<le> d_attempts r)"
    "\<lbrakk>unsent (W u); item_of (W u) = Some x\<rbrakk> \<Longrightarrow> x \<notin> set L"
    "\<lbrakk>u \<noteq> v; item_of (W u) = Some x\<rbrakk> \<Longrightarrow> item_of (W v) \<noteq> Some x"
  using assms unfolding labels_ok_def by blast+

lemma labels_okI:
  assumes "distinct L" "\<And>k n. (k, n) \<in> set L \<Longrightarrow> 0 < n \<and> (\<exists>r. look s k = Some r \<and> n \<le> d_attempts r)"
    "\<And>u x. \<lbrakk>unsent (W u); item_of (W u) = Some x\<rbrakk> \<Longrightarrow> x \<notin> set L"
    "\<And>u v x. \<lbrakk>u \<noteq> v; item_of (W u) = Some x\<rbrakk> \<Longrightarrow> item_of (W v) \<noteq> Some x"
  shows "labels_ok s W L"
  using assms unfolding labels_ok_def by blast

lemma labels_grow:
  assumes "labels_ok s W L" "grows Q s s'" shows "labels_ok s' W L"
proof (rule labels_okI)
  show "0 < n \<and> (\<exists>r. look s' k = Some r \<and> n \<le> d_attempts r)" if kn: "(k, n) \<in> set L" for k n
  proof -
    obtain r where r: "0 < n" "look s k = Some r" "n \<le> d_attempts r" using labels_okD(2) [OF assms(1) kn] by blast
    obtain r' where "look s' k = Some r'" "evolves Q r r'" using assms(2) r(2) unfolding grows_def by blast
    then show ?thesis using r by (auto simp: evolves_def)
  qed
qed (rule labels_okD [OF assms(1)]; assumption)+

text \<open>A worker that lets go of its attempt, or goes on with it, keeps the labels apart.\<close>

lemma labels_less:
  assumes "labels_ok s W L" "item_of c = None \<or> item_of c = item_of (W t) \<and> (unsent c \<longrightarrow> unsent (W t))" shows "labels_ok s (W(t := c)) L"
proof -
  have item: "item_of (W u) = Some x" if "item_of ((W(t := c)) u) = Some x" for u x
    using that assms(2) by (cases "u = t") auto
  have still: "unsent (W u)" if "unsent ((W(t := c)) u)" "item_of ((W(t := c)) u) = Some x" for u x
    using that assms(2) by (cases "u = t") auto
  show ?thesis
  proof (rule labels_okI)
    show "distinct L" by (rule labels_okD(1) [OF assms(1)])
    show "0 < n \<and> (\<exists>r. look s k = Some r \<and> n \<le> d_attempts r)" if "(k, n) \<in> set L" for k n by (rule labels_okD(2) [OF assms(1) that])
    show "x \<notin> set L" if "unsent ((W(t := c)) u)" "item_of ((W(t := c)) u) = Some x" for u x
      by (rule labels_okD(3) [OF assms(1) still [OF that] item [OF that(2)]])
    show "item_of ((W(t := c)) v) \<noteq> Some x" if "u \<noteq> v" "item_of ((W(t := c)) u) = Some x" for u v x
      using labels_okD(4) [OF assms(1) that(1) item [OF that(2)]] item [of v x] by blast
  qed
qed

lemma labels_send:
  assumes "labels_ok s W L" "W t = Sending n i" "items_ok own s W"
  shows "labels_ok s (W(t := Answered n i x)) (L @ [(d_key i, n)])"
proof (rule labels_okI)
  have l: "labels_ok s (W(t := Answered n i x)) L" by (rule labels_less [OF assms(1)]) (simp add: assms(2))
  have mine: "unsent (W t)" "item_of (W t) = Some (d_key i, n)" using assms(2) by simp_all
  show "distinct (L @ [(d_key i, n)])" using labels_okD(1) [OF l] labels_okD(3) [OF assms(1) mine] by simp
  have "holds_item (own t) s (W t)" using assms(3) by (simp add: items_ok_def)
  then have "0 < n \<and> (\<exists>r. look s (d_key i) = Some r \<and> n \<le> d_attempts r)" using holds_itemD [OF _ mine(2)] by blast
  then show "0 < m \<and> (\<exists>r. look s k = Some r \<and> m \<le> d_attempts r)" if "(k, m) \<in> set (L @ [(d_key i, n)])" for k m
    using that labels_okD(2) [OF l, of k m] by auto
  show "y \<notin> set (L @ [(d_key i, n)])"
    if u: "unsent ((W(t := Answered n i x)) u)" "item_of ((W(t := Answered n i x)) u) = Some y" for u y
  proof -
    have w: "u \<noteq> t" "item_of (W u) = Some y" using u by (auto split: if_splits)
    then have "y \<noteq> (d_key i, n)" using labels_okD(4) [OF assms(1) w] mine(2) by auto
    then show ?thesis using labels_okD(3) [OF l u] by simp
  qed
  show "item_of ((W(t := Answered n i x)) v) \<noteq> Some y" if "u \<noteq> v" "item_of ((W(t := Answered n i x)) u) = Some y" for u v y
    by (rule labels_okD(4) [OF l that])
qed

lemma claim_keeps:
  assumes "claim_due now (own t) lease channel inst s = (Some k, s')" "row_by d_key k (deliveries s') = Some r" "unique s"
    "items_ok own s W" "labels_ok s W L" "inj own" "W t = Idle"
  shows "items_ok own s' (W(t := Claimed k (d_attempts r)))" "labels_ok s' (W(t := Claimed k (d_attempts r))) L"
proof -
  obtain r0 where r0: "look s k = Some r0" "look s' k = Some (claimed now (own t) lease r0)" using after_claim [OF assms(1,3)] by blast
  have r: "r = claimed now (own t) lease r0" using assms(2) r0(2) by (simp add: look_def)
  have n: "d_attempts r = d_attempts r0 + 1" by (simp add: r claimed_def)
  have g: "grows (Some (own t)) s s'" by (rule grows_claim [OF assms(1,3)])
  have low: "(k, d_attempts r) \<noteq> x" if x: "item_of (W u) = Some x" for u x
  proof -
    obtain k' n' where k': "x = (k', n')" by (cases x)
    have "holds_item (own u) s (W u)" using assms(4) by (simp add: items_ok_def)
    then obtain y where "look s k' = Some y" "n' \<le> d_attempts y" using holds_itemD x k' by blast
    then show ?thesis using k' n r0(1) by auto
  qed
  show "items_ok own s' (W(t := Claimed k (d_attempts r)))"
    unfolding items_ok_def
  proof
    fix u
    show "holds_item (own u) s' ((W(t := Claimed k (d_attempts r))) u)"
    proof (cases "u = t")
      case True
      then show ?thesis using r0(2) r n by (simp add: holds_item_def)
    next
      case False
      then have "own t \<noteq> own u" using assms(6) by (auto dest: injD)
      then show ?thesis using False holds_item_grow [OF _ g, of "own u" "W u"] assms(4) by (simp add: items_ok_def)
    qed
  qed
  have l: "labels_ok s' W L" by (rule labels_grow [OF assms(5) g])
  have fresh: "(k, d_attempts r) \<notin> set L" using labels_okD(2) [OF assms(5), of k "d_attempts r"] r0(1) n by auto
  show "labels_ok s' (W(t := Claimed k (d_attempts r))) L"
  proof (rule labels_okI)
    show "distinct L" by (rule labels_okD(1) [OF l])
    show "0 < m \<and> (\<exists>r. look s' j = Some r \<and> m \<le> d_attempts r)" if "(j, m) \<in> set L" for j m by (rule labels_okD(2) [OF l that])
    show "x \<notin> set L" if "unsent ((W(t := Claimed k (d_attempts r))) u)" "item_of ((W(t := Claimed k (d_attempts r))) u) = Some x" for u x
      using that fresh labels_okD(3) [OF l, of u x] by (cases "u = t") auto
    show "item_of ((W(t := Claimed k (d_attempts r))) v) \<noteq> Some x"
      if "u \<noteq> v" "item_of ((W(t := Claimed k (d_attempts r))) u) = Some x" for u v x
      using that low [of u x] low [of v x] labels_okD(4) [OF l that(1), of x] by (cases "u = t"; cases "v = t") auto
  qed
qed

lemma read_keeps:
  assumes "W t = Claimed k n" "row_by d_key k (deliveries s) = Some i" "items_ok own s W" "labels_ok s W L"
  shows "items_ok own s (W(t := Sending n i))" "labels_ok s (W(t := Sending n i)) L"
proof -
  have l: "look s k = Some i" using assms(2) by (simp add: look_def)
  have k: "d_key i = k" by (rule look_key [OF l])
  have "holds_item (own t) s (Claimed k n)" using assms(1,3) by (metis items_ok_def)
  then show "items_ok own s (W(t := Sending n i))" by (intro items_set [OF assms(3)]) (use l k in \<open>auto simp: holds_item_def\<close>)
  show "labels_ok s (W(t := Sending n i)) L" by (rule labels_less [OF assms(4)]) (simp add: assms(1) k)
qed

definition steady :: "(nat \<Rightarrow> string) \<Rightarrow> nat \<Rightarrow> world \<Rightarrow> bool" where
  "steady own mx w \<longleftrightarrow> booked (store w) \<and> bounded mx w \<and> items_ok own (store w) (workers w) \<and> labels_ok (store w) (workers w) (sends w)"

lemma lapsed_count:
  assumes "unique s" shows "count_list (lapsed_keys now s) k = (case look s k of None \<Rightarrow> 0 | Some r \<Rightarrow> if lapsed now r then 1 else 0)"
proof -
  have "count_list (map d_key (filter P t)) k = count_where (\<lambda>r. d_key r = k \<and> P r) t" for P t
    by (induction t) (auto simp: count_where_def)
  then have "count_list (lapsed_keys now s) k = count_where (\<lambda>r. d_key r = k \<and> lapsed now r) (deliveries s)"
    unfolding lapsed_keys_def by blast
  also have "\<dots> = (case look s k of None \<Rightarrow> 0 | Some r \<Rightarrow> if lapsed now r then 1 else 0)"
    unfolding look_def by (rule count_where_by [OF assms [unfolded unique_def]])
  finally show ?thesis .
qed

lemma bounded_recover:
  assumes "bounded mx w" "unique (store w)"
  shows "bounded mx (w\<lparr>store := snd (recover_expired_deliveries now (store w)), lapses := lapses w @ lapsed_keys now (store w)\<rparr>)"
  unfolding bounded_def
proof (intro allI impI)
  let ?w = "w\<lparr>store := snd (recover_expired_deliveries now (store w)), lapses := lapses w @ lapsed_keys now (store w)\<rparr>"
  fix k r assume "look (store ?w) k = Some r"
  then obtain r0 where r0: "look (store w) k = Some r0" "r = (if lapsed now r0 then freed now r0 else r0)"
    by (auto simp: after_recover(1))
  have "credit mx ?w k = credit mx w k + (if lapsed now r0 then 1 else 0)"
    using lapsed_count [OF assms(2), of now k] r0(1) by (simp add: credit_def)
  moreover have "due_again r0 \<le> credit mx w k" using assms(1) r0(1) by (auto simp: bounded_def)
  ultimately show "due_again r \<le> credit mx ?w k" using r0(2)
    by (auto simp: due_again_def freed_def waiting_def lapsed_def)
qed

lemma bounded_same:
  assumes "bounded mx w" "\<And>k r'. look s k = Some r' \<Longrightarrow> \<exists>r. look (store w) k = Some r \<and> due_again r' \<le> due_again r"
  shows "bounded mx (w\<lparr>store := s\<rparr>)"
  unfolding bounded_def
proof (intro allI impI)
  fix k r' assume "look (store (w\<lparr>store := s\<rparr>)) k = Some r'"
  then obtain r where "look (store w) k = Some r" "due_again r' \<le> due_again r" using assms(2) by auto
  then show "due_again r' \<le> credit mx (w\<lparr>store := s\<rparr>) k" using assms(1) by (force simp: bounded_def credit_def)
qed

lemma bounded_claim:
  assumes "claim_due now owner lease channel inst (store w) = (Some k, s)" "bounded mx w" "unique (store w)"
  shows "bounded mx (w\<lparr>store := s\<rparr>)"
proof (rule bounded_same [OF assms(2)])
  obtain r where r: "look (store w) k = Some r" "waiting r"
    "\<And>x. look s x = (if x = k then Some (claimed now owner lease r) else look (store w) x)"
    using after_claim [OF assms(1,3)] by blast
  have "due_again (claimed now owner lease r) = due_again r" using r(2) by (simp add: due_again_def claimed_def waiting_def)
  then show "\<exists>r. look (store w) x = Some r \<and> due_again r' \<le> due_again r" if "look s x = Some r'" for x r'
    using that r(1,3) by (auto split: if_splits)
qed

lemma bounded_finish:
  assumes "bounded mx w" "items_ok own (store w) (workers w)" "workers w t = Answered n item x" "p_owner p = own t" "p_max p = mx"
  shows "bounded mx (w\<lparr>store := finish_delivery redact now p item x (store w)\<rparr>)"
  using after_finish [of redact now p item x "store w"]
proof
  let ?s = "finish_delivery redact now p item x (store w)"
  assume "finishes p item (store w) ?s"
  then obtain now' r st ext err nx where a: "look (store w) (d_key item) = Some r" "d_state r = DSending" "d_owner r = Some (p_owner p)"
    "st = DSent \<or> (st = DRetrying \<and> d_attempts item < p_max p) \<or> st = DDead"
    "\<And>k. look ?s k = (if k = d_key item then Some (ended now' st ext err nx r) else look (store w) k)"
    unfolding finishes_def by blast
  have "holds_item (own t) (store w) (workers w t)" using assms(2) by (simp add: items_ok_def)
  then obtain r1 where "look (store w) (d_key item) = Some r1"
    "d_state r1 = DSending \<and> d_owner r1 = Some (own t) \<longrightarrow> d_attempts r1 = n \<and> (\<forall>i. read_of (workers w t) = Some i \<longrightarrow> d_attempts i = n)"
    using holds_itemD [of "own t" "store w" "workers w t" "d_key item" n] assms(3) by auto
  then have n: "d_attempts r = d_attempts item" using assms(3,4) a(1-3) by simp
  have "due_again r \<le> credit mx w (d_key item)" using assms(1) a(1) by (simp add: bounded_def)
  then have "due_again (ended now' st ext err nx r) \<le> credit mx w (d_key item)"
    using a(2,4) n assms(5) by (auto simp: due_again_def waiting_def ended_def credit_def)
  then show ?thesis using assms(1) a(5) by (auto simp: bounded_def credit_def)
next
  assume s: "finish_delivery redact now p item x (store w) = store w"
  show ?thesis unfolding s using assms(1) by (simp add: bounded_def credit_def)
qed

lemma bounded_replay:
  assumes "replay_dead_letter now key (store w) = (True, s)" "bounded mx w"
  shows "bounded mx (w\<lparr>store := s, replayed := key # replayed w\<rparr>)"
  unfolding bounded_def
proof (intro allI impI)
  let ?w = "w\<lparr>store := s, replayed := key # replayed w\<rparr>"
  fix k r assume "look (store ?w) k = Some r"
  then obtain r0 where r0: "look (store w) k = Some r0"
    "r = (if d_key r0 = key \<and> d_state r0 = DDead then r0\<lparr>d_state := DRetrying, d_next := now, d_error := None, d_updated := now\<rparr> else r0)"
    using after_replay(1) [OF assms(1), of k] by auto
  have "credit mx ?w k = credit mx w k + (if k = key then 1 else 0)" by (simp add: credit_def)
  moreover have "due_again r0 \<le> credit mx w k" using assms(2) r0(1) by (simp add: bounded_def)
  ultimately show "due_again r \<le> credit mx ?w k" using r0(2) look_key [OF r0(1)] by (auto simp: due_again_def waiting_def)
qed

lemma bounded_others:
  "bounded mx w \<Longrightarrow> bounded mx (w\<lparr>store := initialized now (store w)\<rparr>)"
  "\<lbrakk>bounded mx w; enqueue_outbound safe now e (store w) = (b, s); 0 < mx\<rbrakk> \<Longrightarrow> bounded mx (w\<lparr>store := s\<rparr>)"
  "\<lbrakk>bounded mx w; renew_delivery_lease now key owner lease (store w) = (b', s)\<rbrakk> \<Longrightarrow> bounded mx (w\<lparr>store := s\<rparr>)"
  "\<lbrakk>bounded mx w; set_channel_paused ch pa (store w) = (b'', s)\<rbrakk> \<Longrightarrow> bounded mx (w\<lparr>store := s\<rparr>)"
proof -
  assume b: "bounded mx w"
  show "bounded mx (w\<lparr>store := initialized now (store w)\<rparr>)"
  proof (rule bounded_same [OF b])
    fix k r' assume "look (initialized now (store w)) k = Some r'"
    then obtain r where r: "look (store w) k = Some r" "r' = (if nameless r then quarantined now r else canonical_instance now r)"
      unfolding after_initialized(1) by auto
    have "d_state (canonical_instance now r) = d_state r" "d_attempts (canonical_instance now r) = d_attempts r"
      by (simp_all add: canonical_instance_def split: sum.split)
    then have "due_again r' \<le> due_again r" using r(2) by (simp add: due_again_def waiting_def quarantined_def)
    then show "\<exists>r. look (store w) k = Some r \<and> due_again r' \<le> due_again r" using r(1) by blast
  qed
  show "bounded mx (w\<lparr>store := s\<rparr>)" if a: "enqueue_outbound safe now e (store w) = (b, s)" "0 < mx" for b s
    using after_enqueue(1) [OF a(1)]
  proof (elim disjE exE conjE)
    fix i p assume "\<forall>k. look s k = (if k = e_key e then Some (new_delivery now i p e) else look (store w) k)"
    moreover have "due_again (new_delivery now i p e) \<le> credit mx w (e_key e)"
      using a(2) by (simp add: due_again_def waiting_def new_delivery_def credit_def)
    ultimately show ?thesis using b by (auto simp: bounded_def credit_def)
  qed (use b in \<open>simp add: bounded_def credit_def\<close>)
  show "bounded mx (w\<lparr>store := s\<rparr>)" if a: "renew_delivery_lease now key owner lease (store w) = (b', s)" for b' s
  proof (rule bounded_same [OF b])
    fix k r' assume k: "look s k = Some r'"
    show "\<exists>r. look (store w) k = Some r \<and> due_again r' \<le> due_again r"
      using after_renew(1) [OF a, of k]
    proof (elim disjE exE conjE)
      fix r u assume r: "look (store w) k = Some r" "d_state r = DSending" "look s k = Some (r\<lparr>d_lease := Some u, d_updated := now\<rparr>)"
      then have "due_again r' \<le> due_again r" using k by (simp add: due_again_def waiting_def)
      then show ?thesis using r(1) by blast
    qed (use k in \<open>metis order_refl\<close>)
  qed
  show "bounded mx (w\<lparr>store := s\<rparr>)" if a: "set_channel_paused ch pa (store w) = (b'', s)" for b'' s
    by (rule bounded_same [OF b]) (use after_pause(1) [OF a] in auto)
qed

lemma bounded_fields [simp]:
  "bounded mx (becomes t c w) = bounded mx w" "bounded mx (w\<lparr>sends := L\<rparr>) = bounded mx w" "bounded mx (w\<lparr>events := E\<rparr>) = bounded mx w"
  by (simp_all add: bounded_def credit_def)

lemma steady_less:
  assumes "steady own mx w" "booked s" "grows None (store w) s" "bounded mx (w\<lparr>store := s, replayed := R\<rparr>)"
  shows "steady own mx (w\<lparr>store := s, replayed := R\<rparr>)"
    "item_of c = None \<or> (item_of c = item_of (workers w t) \<and> read_of c = read_of (workers w t) \<and> (unsent c \<longrightarrow> unsent (workers w t))) \<Longrightarrow>
      steady own mx (becomes t c (w\<lparr>store := s, replayed := R\<rparr>))"
proof -
  have i: "items_ok own s (workers w)" using items_grow [OF _ assms(3)] assms(1) by (simp add: steady_def)
  have l: "labels_ok s (workers w) (sends w)" using labels_grow [OF _ assms(3)] assms(1) by (simp add: steady_def)
  show "steady own mx (w\<lparr>store := s, replayed := R\<rparr>)" using i l assms(2,4) by (simp add: steady_def)
  show "steady own mx (becomes t c (w\<lparr>store := s, replayed := R\<rparr>))"
    if "item_of c = None \<or> (item_of c = item_of (workers w t) \<and> read_of c = read_of (workers w t) \<and> (unsent c \<longrightarrow> unsent (workers w t)))"
    using items_less [OF i, of c t] labels_less [OF l, of c t] that assms(2,4) by (auto simp: steady_def)
qed

lemma steady_kept:
  assumes "steady own mx w" "booked s" "grows None (store w) s" "bounded mx (w\<lparr>store := s\<rparr>)"
  shows "steady own mx (w\<lparr>store := s\<rparr>)"
    "item_of c = None \<or> (item_of c = item_of (workers w t) \<and> read_of c = read_of (workers w t) \<and> (unsent c \<longrightarrow> unsent (workers w t))) \<Longrightarrow> steady own mx (becomes t c (w\<lparr>store := s\<rparr>))"
  using steady_less [OF assms(1-3), of "replayed w"] assms(4) by simp_all

lemma steady_workers:
  assumes "steady own mx w" "item_of c = None" shows "steady own mx (becomes t c w)"
  using items_less [of own "store w" "workers w" c t] labels_less [of "store w" "workers w" "sends w" c t] assms
  by (simp add: steady_def)

lemma steady_step:
  assumes "cstep safe redact own mx w w'" "steady own mx w" "inj own" "0 < mx" shows "steady own mx w'"
  using assms(1)
proof cases
  have st: "booked (store w)" "bounded mx w" "items_ok own (store w) (workers w)" "labels_ok (store w) (workers w) (sends w)"
    using assms(2) by (simp_all add: steady_def)
  {
    case (Append tx now e b t)
    then show ?thesis using assms(2) by (simp add: steady_def)
  next
    case (RelayClaim t now lease ev es)
    then show ?thesis using steady_workers [of own mx "w\<lparr>events := (es, snd (events w))\<rparr>" "Relaying ev" t] assms(2)
      by (simp add: steady_def)
  next
    case (RelayStore t ev now b s failure err)
    show ?thesis unfolding RelayStore(1)
      by (rule steady_kept(2) [OF assms(2)])
        (use RelayStore st assms(4) in \<open>simp_all add: booked_others(3) grows_others(3) bounded_others(2)\<close>)
  next
    case (RelayRaises t ev err)
    then show ?thesis using steady_workers [OF assms(2)] by simp
  next
    case (RelayFinish t ev failure now rmax delay b G)
    then show ?thesis using steady_workers [of own mx "w\<lparr>events := G\<rparr>" Idle t] assms(2) by (simp add: steady_def)
  next
    case (Recover now)
    show ?thesis
      using items_grow [OF st(3) grows_recover] labels_grow [OF st(4) grows_recover] booked_recover [OF st(1)]
        bounded_recover [OF st(2) booked_unique [OF st(1)]]
      unfolding Recover(1) by (simp add: steady_def)
  next
    case (Claim t now lease channel inst k s r)
    show ?thesis
      using claim_keeps [OF Claim(3,4) booked_unique [OF st(1)] st(3,4) assms(3) Claim(2)]
        booked_claim [OF Claim(3) st(1)] bounded_claim [OF Claim(3) st(2) booked_unique [OF st(1)]]
      unfolding Claim(1) by (simp add: steady_def)
  next
    case (Read t k n item)
    show ?thesis using read_keeps [OF Read(2,3) st(3,4)] st(1,2) unfolding Read(1) by (simp add: steady_def)
  next
    case (Send t n item x)
    show ?thesis
      using items_less [OF st(3), of "Answered n item x" t] labels_send [OF st(4) Send(2) st(3), of x] st Send(2)
      unfolding Send(1) by (simp add: steady_def)
  next
    case (Finish t n item x p now)
    show ?thesis unfolding Finish(1)
      by (rule steady_kept(2) [OF assms(2)])
        (use Finish st bounded_finish [OF st(2,3) Finish(2-4)] in \<open>simp_all add: booked_finish grows_finish\<close>)
  next
    case (Beat t n item x now lease b s)
    show ?thesis unfolding Beat(1)
      by (rule steady_kept(1) [OF assms(2)])
        (use Beat st bounded_others(3) [OF st(2) Beat(3)] in \<open>simp_all add: booked_renew grows_renew\<close>)
  next
    case (Crash t)
    then show ?thesis using steady_workers [OF assms(2)] by simp
  next
    case (Replay now k s)
    show ?thesis unfolding Replay(1)
      by (rule steady_less(1) [OF assms(2)])
        (use booked_others(1) [OF Replay(2) st(1)] grows_others(1) [OF Replay(2)] bounded_replay [OF Replay(2) st(2)] in simp_all)
  next
    case (Pause ch pa b s)
    show ?thesis unfolding Pause(1)
      by (rule steady_kept(1) [OF assms(2)])
        (use pause_keeps [OF Pause(2)] st bounded_others(4) [OF st(2) Pause(2)] in simp_all)
  next
    case (Restart now b s)
    have "steady own mx (w\<lparr>store := initialized now (store w)\<rparr>)"
      by (rule steady_kept(1) [OF assms(2)])
        (use booked_others(2) [OF st(1)] grows_others(2) bounded_others(1) [OF st(2)] in simp_all)
    then show ?thesis using initialize_cases [OF Restart(2)] assms(2) unfolding Restart(1) by auto
  }
qed

lemma steady_reach:
  assumes "creach safe redact own mx w" "inj own" "0 < mx" shows "steady own mx w"
  using assms(1)
proof (induction rule: creach.induct)
  case Start
  show ?case
    by (simp add: empty_world_def steady_def booked_def unique_def look_def sent_count_def is_sent_def bounded_def items_ok_def holds_item_def labels_ok_def)
next
  case (Step w w')
  then show ?case using steady_step assms(2,3) by blast
qed

text \<open>
  C38. The number of times a message is handed to the messenger is bounded: by the configured attempts, one more for every
  lease that lapsed while it was being sent, and one more for every time an operator replayed its dead letter. No attempt
  is sent twice, whatever crashes, as long as no two dispatchers share an owner name.
\<close>

theorem sends_are_bounded:
  assumes "creach safe redact own mx w" "inj own" "0 < mx"
  shows "length (filter (\<lambda>l. fst l = k) (sends w)) \<le> mx + count_list (lapses w) k + count_list (replayed w) k \<and> distinct (sends w)"
proof -
  let ?L = "filter (\<lambda>l. fst l = k) (sends w)"
  have s: "bounded mx w" "labels_ok (store w) (workers w) (sends w)" using steady_reach [OF assms] by (simp_all add: steady_def)
  have d: "distinct (sends w)" by (rule labels_okD(1) [OF s(2)])
  have "length ?L \<le> credit mx w k"
  proof (cases "look (store w) k")
    case None
    then have "?L = []" using labels_okD(2) [OF s(2), of k] by (auto simp: filter_empty_conv)
    then show ?thesis by simp
  next
    case (Some r)
    have "set (map snd ?L) \<subseteq> {1..d_attempts r}" using labels_okD(2) [OF s(2), of k] Some by fastforce
    moreover have "distinct (map snd ?L)" using d by (auto simp: distinct_map inj_on_def prod_eq_iff)
    ultimately have "length (map snd ?L) \<le> d_attempts r"
      using card_mono [of "{1..d_attempts r}" "set (map snd ?L)"] distinct_card [of "map snd ?L"] by simp
    also have "\<dots> \<le> credit mx w k" using s(1) Some unfolding bounded_def due_again_def by (meson le_add1 order_trans)
    finally show ?thesis by simp
  qed
  then show ?thesis using d by (simp add: credit_def)
qed


section \<open>From the group to the messenger\<close>

text \<open>What a delivery says, which no call changes, and what an envelope asks to be said.\<close>

definition carries :: "(string \<Rightarrow> string option) \<Rightarrow> envelope \<Rightarrow> delivery \<Rightarrow> bool" where
  "carries safe e r \<longleftrightarrow> safe (e_payload e) = Some (d_payload r) \<and> d_source r = e_source e \<and> d_channel r = e_channel e \<and>
     d_tenant r = e_tenant e \<and> d_conversation r = e_conversation e \<and> d_type r = e_type e \<and> d_reply r = e_reply e \<and>
     d_group r = e_group e \<and> d_session r = e_session e"

definition says :: "delivery \<Rightarrow> (string \<times> string option \<times> string \<times> string) \<times> string \<times> string \<times> string option \<times> int option \<times> string option" where
  "says r = ((d_payload r, d_source r, d_channel r, d_tenant r), d_conversation r, d_type r, d_reply r, d_group r, d_session r)"

lemma carries_says: "says r = says r' \<Longrightarrow> carries safe e r = carries safe e r'"
  by (simp add: says_def carries_def)

lemma says_simps [simp]:
  "says (freed now r) = says r" "says (claimed now ow le r) = says r" "says (ended now st ext err nx r) = says r"
  "says (quarantined now r) = says r" "says (canonical_instance now r) = says r"
  by (simp_all add: says_def freed_def claimed_def ended_def quarantined_def canonical_instance_def split: sum.split)

definition same_words :: "cstore \<Rightarrow> cstore \<Rightarrow> bool" where
  "same_words s s' \<longleftrightarrow> (\<forall>k. map_option says (look s' k) = map_option says (look s k))"

lemma same_words_map:
  "(\<And>k. look s' k = map_option f (look s k)) \<Longrightarrow> (\<And>r. says (f r) = says r) \<Longrightarrow> same_words s s'"
  by (simp add: same_words_def option.map_comp comp_def)

lemma words_recover: "same_words s (snd (recover_expired_deliveries now s))"
  by (rule same_words_map [OF after_recover(1)]) simp

lemma words_claim:
  assumes "claim_due now owner lease channel inst s = (Some k, s')" "unique s" shows "same_words s s'"
proof -
  obtain r where r: "look s k = Some r" "\<And>x. look s' x = (if x = k then Some (claimed now owner lease r) else look s x)"
    using after_claim [OF assms] by blast
  then show ?thesis by (simp add: same_words_def)
qed

lemma words_renew:
  assumes "renew_delivery_lease now key owner lease s = (b, s')" shows "same_words s s'"
  unfolding same_words_def
proof
  fix k
  show "map_option says (look s' k) = map_option says (look s k)"
    using after_renew(1) [OF assms, of k] by (elim disjE exE conjE) (simp_all add: says_def)
qed

lemma words_finish: "same_words s (finish_delivery redact now p item x s)"
  using after_finish [of redact now p item x s]
proof
  let ?s = "finish_delivery redact now p item x s"
  assume "finishes p item s ?s"
  then obtain now' r st ext err nx where a: "look s (d_key item) = Some r"
    "\<And>k. look ?s k = (if k = d_key item then Some (ended now' st ext err nx r) else look s k)"
    unfolding finishes_def by blast
  then show ?thesis by (simp add: same_words_def)
qed (simp add: same_words_def)

lemma words_others:
  "replay_dead_letter now key s = (True, s') \<Longrightarrow> same_words s s'" "same_words s (initialized now s)"
  "set_channel_paused ch pa s = (b, s') \<Longrightarrow> same_words s s'"
proof -
  show "same_words s s'" if "replay_dead_letter now key s = (True, s')"
    by (rule same_words_map [OF after_replay(1) [OF that]]) (simp add: says_def)
  show "same_words s (initialized now s)" by (rule same_words_map [OF after_initialized(1)]) simp
  show "same_words s s'" if "set_channel_paused ch pa s = (b, s')" using after_pause(1) [OF that] by (simp add: same_words_def)
qed

text \<open>What the outbox says under a key, and whether it calls it forwarded.\<close>

definition letter :: "gevent list \<Rightarrow> string \<Rightarrow> envelope option" where
  "letter t k = map_option g_envelope (row_by g_id k t)"

definition done_with :: "gevent list \<Rightarrow> string \<Rightarrow> bool" where
  "done_with t k \<longleftrightarrow> (case row_by g_id k t of None \<Rightarrow> False | Some ev \<Rightarrow> g_state ev = GForwarded)"

lemma event_update:
  assumes "\<And>r. g_id (f r) = g_id r" "\<And>r. g_envelope (f r) = g_envelope r"
  shows "letter (update_where P f t) k = letter t k" "keyed g_id t \<Longrightarrow> keyed g_id (update_where P f t)"
    "done_with (update_where P f t) k \<Longrightarrow> done_with t k \<or> (\<exists>r. row_by g_id k t = Some r \<and> P r \<and> g_state (f r) = GForwarded)"
  using assms
  by (auto simp: letter_def done_with_def row_by_update_where keyed_update_where option.map_comp comp_def if_distrib
      cong: if_cong split: option.splits if_splits)

lemma after_append:
  assumes "append_intent safe tx now e t = (b, t')" "keyed g_id t"
  shows "keyed g_id t'" "done_with t' k \<Longrightarrow> done_with t k" "letter t k = Some d \<Longrightarrow> letter t' k = Some d"
    "letter t' k = Some d \<Longrightarrow> letter t k = Some d \<or> e_key d = k"
proof -
  consider "t' = t" | g where "t' = t @ [g]" "row_by g_id (e_key e) t = None" "g_id g = e_key e" "g_state g = GPending" "e_key (g_envelope g) = e_key e"
    using assms(1) by (auto simp: append_intent_def split: if_splits option.splits)
  then have "keyed g_id t' \<and> (done_with t' k \<longrightarrow> done_with t k) \<and> (letter t k = Some d \<longrightarrow> letter t' k = Some d) \<and>
      (letter t' k = Some d \<longrightarrow> letter t k = Some d \<or> e_key d = k)"
  proof cases
    case 2
    then show ?thesis using assms(2)
      by (auto simp: keyed_insert done_with_def letter_def row_by_append split: option.splits)
  qed (use assms(2) in simp)
  then show "keyed g_id t'" "done_with t' k \<Longrightarrow> done_with t k" "letter t k = Some d \<Longrightarrow> letter t' k = Some d"
    "letter t' k = Some d \<Longrightarrow> letter t k = Some d \<or> e_key d = k" by blast+
qed

lemma after_relay_claim:
  assumes "relay_claim now owner lease t = (Some ev, t')" "keyed g_id t"
  shows "keyed g_id t'" "done_with t' k \<Longrightarrow> done_with t k" "letter t' k = letter t k" "letter t (g_id ev) = Some (g_envelope ev)"
proof -
  let ?f = "\<lambda>r. r\<lparr>g_state := GRetrying, g_owner := None, g_lease := None\<rparr>"
  let ?t = "update_where (g_lapsed now) ?f t"
  obtain rs where rs: "sort_key g_created (filter (g_due now) ?t) = ev # rs"
    and t': "t' = update_where (\<lambda>x. g_id x = g_id ev) (g_claimed owner (now + lease)) ?t"
    using assms(1) by (cases "sort_key g_created (filter (g_due now) ?t)") (auto simp: relay_claim_def Let_def)
  have f: "g_id (?f r) = g_id r" "g_envelope (?f r) = g_envelope r" for r by simp_all
  have c: "g_id (g_claimed owner u r) = g_id r" "g_envelope (g_claimed owner u r) = g_envelope r" for r u
    by (simp_all add: g_claimed_def)
  have u: "keyed g_id ?t" using event_update(2) [where f = ?f and P = "g_lapsed now" and t = t, OF f assms(2)] .
  have l: "letter ?t k = letter t k" for k using event_update(1) [where f = ?f, OF f] .
  show "keyed g_id t'" unfolding t' by (rule event_update(2) [OF c u])
  show "letter t' k = letter t k" unfolding t' using event_update(1) [OF c] l by simp
  show "done_with t k" if "done_with t' k"
  proof -
    have "done_with ?t k" using event_update(3) [OF c that [unfolded t']] by (auto simp: g_claimed_def)
    then show ?thesis using event_update(3) [where f = ?f and P = "g_lapsed now" and t = t and k = k, OF f] by auto
  qed
  have "ev \<in> set (sort_key g_created (filter (g_due now) ?t))" using rs by simp
  then have "ev \<in> set ?t" by simp
  then have "letter ?t (g_id ev) = Some (g_envelope ev)" using row_by_in_keyed [OF u] by (simp add: letter_def)
  then show "letter t (g_id ev) = Some (g_envelope ev)" using l by simp
qed

lemma after_relay_finish:
  assumes "relay_finish redact owner key st err next G = (b, G')"
  shows "keyed g_id (fst G) \<Longrightarrow> keyed g_id (fst G')" "letter (fst G') k = letter (fst G) k"
    "done_with (fst G') k \<Longrightarrow> done_with (fst G) k \<or> (k = key \<and> st = GForwarded)"
proof -
  define e where "e = (case err of None \<Rightarrow> None | Some x \<Rightarrow> if redact x = [] then None else Some (redact x))"
  let ?P = "\<lambda>r. g_id r = key \<and> g_state r = GSending \<and> g_owner r = Some owner"
  let ?f = "\<lambda>r. r\<lparr>g_state := st, g_error := e, g_next := next, g_owner := None, g_lease := None\<rparr>"
  have G: "fst G' = update_where ?P ?f (fst G)" using assms by (auto simp: relay_finish_def Let_def e_def)
  have f: "g_id (?f r) = g_id r" "g_envelope (?f r) = g_envelope r" for r by simp_all
  show "keyed g_id (fst G) \<Longrightarrow> keyed g_id (fst G')" unfolding G using event_update(2) [where f = ?f, OF f] .
  show "letter (fst G') k = letter (fst G) k" unfolding G using event_update(1) [where f = ?f, OF f] .
  show "done_with (fst G) k \<or> (k = key \<and> st = GForwarded)" if "done_with (fst G') k"
    using event_update(3) [where f = ?f and P = ?P and t = "fst G" and k = k, OF f that [unfolded G]] row_by_SomeD [of g_id k "fst G"] by auto
qed

lemma after_outcome:
  assumes "relay_outcome redact now mx delay owner ev failure G = (b, G')"
  shows "keyed g_id (fst G) \<Longrightarrow> keyed g_id (fst G')" "letter (fst G') k = letter (fst G) k"
    "done_with (fst G') k \<Longrightarrow> done_with (fst G) k \<or> (k = g_id ev \<and> failure = None)"
proof -
  obtain st err nx b' where f: "relay_finish redact owner (g_id ev) st err nx G = (b', G')" "st = GForwarded \<longrightarrow> failure = None"
    using assms by (auto simp: relay_outcome_def Let_def split: option.splits if_splits prod.splits)
  show "keyed g_id (fst G) \<Longrightarrow> keyed g_id (fst G')" "letter (fst G') k = letter (fst G) k"
    "done_with (fst G') k \<Longrightarrow> done_with (fst G) k \<or> (k = g_id ev \<and> failure = None)"
    using after_relay_finish [OF f(1)] f(2) by blast+
qed


fun event_of :: "worker \<Rightarrow> gevent option" where
  "event_of (Relaying ev) = Some ev"
| "event_of (Relayed ev x) = Some ev"
| "event_of _ = None"

definition posted :: "(string \<Rightarrow> string option) \<Rightarrow> gevent list \<Rightarrow> cstore \<Rightarrow> (nat \<Rightarrow> worker) \<Rightarrow> bool" where
  "posted safe E s W \<longleftrightarrow> keyed g_id E \<and> (\<forall>k e. letter E k = Some e \<longrightarrow> e_key e = k) \<and>
     (\<forall>t ev. event_of (W t) = Some ev \<longrightarrow> letter E (g_id ev) = Some (g_envelope ev)) \<and>
     (\<forall>t ev. W t = Relayed ev None \<longrightarrow> look s (g_id ev) \<noteq> None) \<and> (\<forall>k. done_with E k \<longrightarrow> look s k \<noteq> None) \<and>
     (\<forall>k r. look s k = Some r \<longrightarrow> (\<exists>e. letter E k = Some e \<and> carries safe e r))"

lemma postedD:
  assumes "posted safe E s W"
  shows "keyed g_id E" "letter E k = Some e \<Longrightarrow> e_key e = k" "event_of (W t) = Some ev \<Longrightarrow> letter E (g_id ev) = Some (g_envelope ev)"
    "W t = Relayed ev None \<Longrightarrow> look s (g_id ev) \<noteq> None" "done_with E k \<Longrightarrow> look s k \<noteq> None"
    "look s k = Some r \<Longrightarrow> \<exists>e. letter E k = Some e \<and> carries safe e r"
  using assms by (simp_all add: posted_def)

lemma postedI:
  assumes "keyed g_id E" "\<And>k e. letter E k = Some e \<Longrightarrow> e_key e = k"
    "\<And>t ev. event_of (W t) = Some ev \<Longrightarrow> letter E (g_id ev) = Some (g_envelope ev)"
    "\<And>t ev. W t = Relayed ev None \<Longrightarrow> look s (g_id ev) \<noteq> None" "\<And>k. done_with E k \<Longrightarrow> look s k \<noteq> None"
    "\<And>k r. look s k = Some r \<Longrightarrow> \<exists>e. letter E k = Some e \<and> carries safe e r"
  shows "posted safe E s W"
  using assms by (simp add: posted_def)

lemma posted_words:
  assumes "posted safe E s W" "same_words s s'" shows "posted safe E s' W"
proof -
  have w: "map_option says (look s' k) = map_option says (look s k)" for k using assms(2) by (simp add: same_words_def)
  have dom: "look s' k = None \<longleftrightarrow> look s k = None" for k using w [of k] by (cases "look s k"; cases "look s' k") simp_all
  show ?thesis
  proof (rule postedI)
    fix k r assume r: "look s' k = Some r"
    then obtain r0 where r0: "look s k = Some r0" "says r = says r0" using w [of k] by (cases "look s k") auto
    obtain e where "letter E k = Some e" "carries safe e r0" using postedD(6) [OF assms(1) r0(1)] by blast
    then show "\<exists>e. letter E k = Some e \<and> carries safe e r" using carries_says [OF r0(2)] by auto
  qed (use postedD(1-5) [OF assms(1)] dom in blast)+
qed

lemma posted_less:
  assumes "posted safe E s W" "event_of c = None" shows "posted safe E s (W(t := c))"
proof (rule postedI)
  show "letter E (g_id ev) = Some (g_envelope ev)" if "event_of ((W(t := c)) u) = Some ev" for u ev
    using that assms(2) postedD(3) [OF assms(1), of u ev] by (cases "u = t") auto
  show "look s (g_id ev) \<noteq> None" if "(W(t := c)) u = Relayed ev None" for u ev
    using that assms(2) postedD(4) [OF assms(1), of u ev] by (cases "u = t") auto
qed (use postedD(1,2,5,6) [OF assms(1)] in blast)+

lemma posted_worker:
  assumes "posted safe E s W" "event_of c = Some ev" "letter E (g_id ev) = Some (g_envelope ev)" "c = Relayed ev None \<Longrightarrow> look s (g_id ev) \<noteq> None"
  shows "posted safe E s (W(t := c))"
proof (rule postedI)
  show "letter E (g_id e) = Some (g_envelope e)" if "event_of ((W(t := c)) u) = Some e" for u e
    using that assms(2,3) postedD(3) [OF assms(1), of u e] by (cases "u = t") auto
  show "look s (g_id e) \<noteq> None" if "(W(t := c)) u = Relayed e None" for u e
    using that assms(2,4) postedD(4) [OF assms(1), of u e] by (cases "u = t") auto
qed (use postedD(1,2,5,6) [OF assms(1)] in blast)+

text \<open>Moves of the outbox: no letter is lost or altered, and nothing new is done with that is not stored.\<close>

lemma posted_events:
  assumes "posted safe E s W" "keyed g_id E'" "\<And>k d. letter E k = Some d \<Longrightarrow> letter E' k = Some d"
    "\<And>k d. letter E' k = Some d \<Longrightarrow> letter E k = Some d \<or> e_key d = k" "\<And>k. done_with E' k \<Longrightarrow> done_with E k \<or> look s k \<noteq> None"
  shows "posted safe E' s W"
proof (rule postedI)
  show "keyed g_id E'" by (rule assms(2))
  show "e_key e = k" if "letter E' k = Some e" for k e using assms(4) [OF that] postedD(2) [OF assms(1)] by blast
  show "letter E' (g_id ev) = Some (g_envelope ev)" if "event_of (W t) = Some ev" for t ev
    by (rule assms(3) [OF postedD(3) [OF assms(1) that]])
  show "look s (g_id ev) \<noteq> None" if "W t = Relayed ev None" for t ev by (rule postedD(4) [OF assms(1) that])
  show "look s k \<noteq> None" if "done_with E' k" for k using assms(5) [OF that] postedD(5) [OF assms(1)] by blast
  show "\<exists>e. letter E' k = Some e \<and> carries safe e r" if "look s k = Some r" for k r
    using postedD(6) [OF assms(1) that] assms(3) by blast
qed

lemma carries_new: "safe (e_payload e) = Some p \<Longrightarrow> carries safe e (new_delivery now i p e)"
  by (simp add: carries_def new_delivery_def)

lemma posted_enqueue:
  assumes "posted safe E s W" "W t = Relaying ev" "enqueue_outbound safe now (g_envelope ev) s = (b, s')"
  shows "posted safe E s' W" "b = Inr c \<Longrightarrow> look s' (g_id ev) \<noteq> None"
proof -
  have l: "letter E (g_id ev) = Some (g_envelope ev)" using postedD(3) [OF assms(1), of t ev] assms(2) by simp
  have k: "e_key (g_envelope ev) = g_id ev" by (rule postedD(2) [OF assms(1) l])
  show "look s' (g_id ev) \<noteq> None" if "b = Inr c" using after_enqueue(2) [OF assms(3) that] k by simp
  show "posted safe E s' W" using after_enqueue(1) [OF assms(3)]
  proof (elim disjE exE conjE)
    fix i p assume n: "look s (e_key (g_envelope ev)) = None" "safe (e_payload (g_envelope ev)) = Some p"
      "\<forall>k. look s' k = (if k = e_key (g_envelope ev) then Some (new_delivery now i p (g_envelope ev)) else look s k)"
    have s': "look s' x = (if x = g_id ev then Some (new_delivery now i p (g_envelope ev)) else look s x)" for x using n(3) k by simp
    have more: "look s x \<noteq> None \<Longrightarrow> look s' x \<noteq> None" for x by (simp add: s')
    show ?thesis
    proof (rule postedI)
      show "\<exists>e. letter E x = Some e \<and> carries safe e r" if "look s' x = Some r" for x r
        using that l carries_new [of safe "g_envelope ev" p now i] n(2) postedD(6) [OF assms(1), of x r]
        by (auto simp: s' split: if_splits)
      show "look s' (g_id e) \<noteq> None" if "W u = Relayed e None" for u e by (rule more [OF postedD(4) [OF assms(1) that]])
      show "look s' x \<noteq> None" if "done_with E x" for x by (rule more [OF postedD(5) [OF assms(1) that]])
    qed (use postedD(1-3) [OF assms(1)] in blast)+
  qed (use assms(1) in simp)
qed

lemma posted_step:
  assumes "cstep safe redact own mx w w'" "booked (store w)" "posted safe (fst (events w)) (store w) (workers w)"
  shows "posted safe (fst (events w')) (store w') (workers w')"
  using assms(1)
proof cases
  case (Append tx now e b t)
  note a = after_append [OF Append(2) postedD(1) [OF assms(3)]]
  show ?thesis unfolding Append(1) using posted_events [OF assms(3) a(1) a(3,4)] a(2) by simp
next
  case (RelayClaim t now lease ev es)
  note a = after_relay_claim [OF RelayClaim(3) postedD(1) [OF assms(3)]]
  have p: "posted safe es (store w) (workers w)"
    by (rule posted_events [OF assms(3) a(1)]) (use a(2,3) in auto)
  show ?thesis unfolding RelayClaim(1) using posted_worker [OF p, of "Relaying ev" ev t] a(3,4) by simp
next
  case (RelayStore t ev now b s failure err)
  note a = posted_enqueue [OF assms(3) RelayStore(2,3)]
  have l: "letter (fst (events w)) (g_id ev) = Some (g_envelope ev)" using postedD(3) [OF assms(3), of t ev] RelayStore(2) by simp
  have "failure = None \<Longrightarrow> look s (g_id ev) \<noteq> None" using RelayStore(4) a(2) by (auto split: sum.splits)
  then show ?thesis unfolding RelayStore(1) using posted_worker [OF a(1), of "Relayed ev failure" ev t] l by simp
next
  case (RelayRaises t ev err)
  have "letter (fst (events w)) (g_id ev) = Some (g_envelope ev)" using postedD(3) [OF assms(3), of t ev] RelayRaises(2) by simp
  then show ?thesis unfolding RelayRaises(1) using posted_worker [OF assms(3), of "Relayed ev (Some err)" ev t] by simp
next
  case (RelayFinish t ev failure now rmax delay b G)
  note a = after_outcome [OF RelayFinish(3)]
  have "failure = None \<Longrightarrow> look (store w) (g_id ev) \<noteq> None" using postedD(4) [OF assms(3), of t ev] RelayFinish(2) by simp
  then have "posted safe (fst G) (store w) (workers w)"
    by (intro posted_events [OF assms(3) a(1) [OF postedD(1) [OF assms(3)]]]) (use a(2,3) in auto)
  then show ?thesis unfolding RelayFinish(1) using posted_less [of safe "fst G" "store w" "workers w" Idle t] by simp
next
  case (Recover now)
  then show ?thesis using posted_words [OF assms(3) words_recover] by simp
next
  case (Claim t now lease channel inst k s r)
  have "posted safe (fst (events w)) s (workers w)"
    by (rule posted_words [OF assms(3) words_claim [OF Claim(3) booked_unique [OF assms(2)]]])
  then show ?thesis unfolding Claim(1) using posted_less [of safe "fst (events w)" s "workers w" "Claimed k (d_attempts r)" t] by simp
next
  case (Read t k n item)
  then show ?thesis using posted_less [OF assms(3), of "Sending n item" t] by simp
next
  case (Send t n item x)
  then show ?thesis using posted_less [OF assms(3), of "Answered n item x" t] by simp
next
  case (Finish t n item x p now)
  show ?thesis unfolding Finish(1) using posted_less [OF posted_words [OF assms(3) words_finish], where c = Idle and t = t] by simp
next
  case (Beat t n item x now lease b s)
  show ?thesis unfolding Beat(1) using posted_words [OF assms(3) words_renew [OF Beat(3)]] by simp
next
  case (Crash t)
  then show ?thesis using posted_less [OF assms(3), of Idle t] by simp
next
  case (Replay now k s)
  show ?thesis unfolding Replay(1) using posted_words [OF assms(3) words_others(1) [OF Replay(2)]] by simp
next
  case (Pause ch pa b s)
  show ?thesis unfolding Pause(1) using posted_words [OF assms(3) words_others(3) [OF Pause(2)]] by simp
next
  case (Restart now b s)
  show ?thesis unfolding Restart(1) using initialize_cases [OF Restart(2)] posted_words [OF assms(3) words_others(2)] assms(3) by auto
qed

lemma posted_reach: "creach safe redact own mx w \<Longrightarrow> posted safe (fst (events w)) (store w) (workers w)"
proof (induction rule: creach.induct)
  case Start
  show ?case by (simp add: empty_world_def posted_def letter_def done_with_def look_def)
next
  case (Step w w')
  then show ?case using posted_step booked_reach by blast
qed



section \<open>A message on its way\<close>

definition sample_envelope :: envelope where
  "sample_envelope = \<lparr>e_key = ''k'', e_source = None, e_channel = ''slack'', e_instance = None, e_tenant = ''t'', e_conversation = ''c'',
     e_type = ''text'', e_payload = ''hi'', e_reply = None, e_group = Some 1, e_session = None\<rparr>"

definition sample_event :: "gstate \<Rightarrow> nat \<Rightarrow> string option \<Rightarrow> int option \<Rightarrow> gevent" where
  "sample_event st n ow le = \<lparr>g_id = ''k'', g_source = ''k'', g_envelope = sample_envelope, g_state = st, g_attempts = n, g_next = 0,
     g_owner = ow, g_lease = le, g_error = None, g_created = 0\<rparr>"

definition sample_delivery :: "dstate \<Rightarrow> nat \<Rightarrow> string option \<Rightarrow> string option \<Rightarrow> int option \<Rightarrow> delivery" where
  "sample_delivery st n ext ow le = \<lparr>d_key = ''k'', d_source = None, d_channel = ''slack'', d_instance = ''slack'', d_tenant = ''t'',
     d_conversation = ''c'', d_type = ''text'', d_payload = ''hi'', d_reply = None, d_group = Some 1, d_session = None, d_state = st,
     d_attempts = n, d_next = 0, d_external = ext, d_error = None, d_owner = ow, d_lease = le, d_created = 0, d_updated = 0\<rparr>"

definition sample_world :: "gevent list \<Rightarrow> (string \<times> string) list \<Rightarrow> delivery list \<Rightarrow> (string \<times> string) list \<Rightarrow> worker \<Rightarrow> (string \<times> nat) list \<Rightarrow> world" where
  "sample_world E A D B c L = \<lparr>events = (E, A), store = \<lparr>inbounds = [], deliveries = D, audits = B, controls = Map.empty, replays = []\<rparr>,
     workers = (\<lambda>_. Idle)(0 := c), sends = L, lapses = [], replayed = []\<rparr>"

definition sample_owner :: "nat \<Rightarrow> string" where
  "sample_owner n = replicate (Suc n) CHR ''w''"

lemma sample_owner_inj: "inj sample_owner"
  by (rule injI) (metis length_replicate nat.inject sample_owner_def)

abbreviation sample_step :: "world \<Rightarrow> world \<Rightarrow> bool" where
  "sample_step \<equiv> cstep Some (\<lambda>x. x) sample_owner 2"

lemmas sample_defs = sample_world_def sample_envelope_def sample_event_def sample_delivery_def sample_owner_def becomes_def

lemma sample_append: "sample_step (sample_world [] [] [] [] Idle []) (sample_world [sample_event GPending 0 None None] [] [] [] Idle [])"
  using cstep.Append [of Some True 0 sample_envelope "sample_world [] [] [] [] Idle []" "Inr True" "[sample_event GPending 0 None None]"]
  by (simp add: append_intent_def sample_defs opt_or_def)

lemma sample_relay_claim:
  "sample_step (sample_world [sample_event GPending 0 None None] [] [] [] Idle [])
     (sample_world [sample_event GSending 1 (Some ''w'') (Some 10)] [] [] [] (Relaying (sample_event GPending 0 None None)) [])"
  using cstep.RelayClaim [of "sample_world [sample_event GPending 0 None None] [] [] [] Idle []" 0 0 sample_owner 10
      "sample_event GPending 0 None None" "[sample_event GSending 1 (Some ''w'') (Some 10)]"]
  by (simp add: relay_claim_def g_lapsed_def g_due_def g_claimed_def update_where_def sample_defs)

lemma sample_relay_store:
  "sample_step (sample_world [sample_event GSending 1 (Some ''w'') (Some 10)] [] [] [] (Relaying (sample_event GPending 0 None None)) [])
     (sample_world [sample_event GSending 1 (Some ''w'') (Some 10)] [] [sample_delivery DPending 0 None None None] []
        (Relayed (sample_event GPending 0 None None) None) [])"
proof -
  let ?w = "sample_world [sample_event GSending 1 (Some ''w'') (Some 10)] [] [] [] (Relaying (sample_event GPending 0 None None)) []"
  have i: "canonical_channel_instance_id ''slack'' = Inr ''slack''" by code_simp
  have "enqueue_outbound Some 0 sample_envelope (store ?w) = (Inr True, store (sample_world [] [] [sample_delivery DPending 0 None None None] [] Idle []))"
    using i by (simp add: enqueue_outbound_def new_delivery_def sample_defs opt_or_def)
  then show ?thesis
    using cstep.RelayStore [of ?w 0 "sample_event GPending 0 None None" Some 0 "Inr True" _ None]
    by (simp add: sample_defs)
qed

lemma sample_relay_finish:
  "sample_step (sample_world [sample_event GSending 1 (Some ''w'') (Some 10)] [] [sample_delivery DPending 0 None None None] []
        (Relayed (sample_event GPending 0 None None) None) [])
     (sample_world [sample_event GForwarded 1 None None] [(''k'', ''relay.forwarded'')] [sample_delivery DPending 0 None None None] [] Idle [])"
  using cstep.RelayFinish [of "sample_world [sample_event GSending 1 (Some ''w'') (Some 10)] [] [sample_delivery DPending 0 None None None] []
        (Relayed (sample_event GPending 0 None None) None) []" 0 "sample_event GPending 0 None None" None "\<lambda>x. x" 0 5 1000 sample_owner Forwarded
        "([sample_event GForwarded 1 None None], [(''k'', ''relay.forwarded'')])"]
  by (simp add: relay_outcome_def relay_finish_def Let_def count_where_def update_where_def sample_defs)

lemma sample_claim:
  "sample_step (sample_world E A [sample_delivery DPending 0 None None None] [] Idle [])
     (sample_world E A [sample_delivery DSending 1 None (Some ''w'') (Some 10)] [] (Claimed ''k'' 1) [])"
proof -
  let ?w = "sample_world E A [sample_delivery DPending 0 None None None] [] Idle []"
  have "claim_due 0 (sample_owner 0) 10 None None (store ?w) =
      (Some ''k'', store (sample_world E A [sample_delivery DSending 1 None (Some ''w'') (Some 10)] [] Idle []))"
    by (simp add: claim_due_def due_def waiting_def claimed_def update_where_def sample_defs)
  then show ?thesis
    using cstep.Claim [where w = ?w and t = 0 and own = sample_owner and now = 0 and lease = 10 and channel = None and inst = None
        and k = "''k''" and s = "store (sample_world E A [sample_delivery DSending 1 None (Some ''w'') (Some 10)] [] Idle [])"
        and r = "sample_delivery DSending 1 None (Some ''w'') (Some 10)" and safe = Some and redact = "\<lambda>x. x" and mx = 2]
    by (simp add: sample_defs)
qed

lemma sample_read:
  "sample_step (sample_world E A [sample_delivery DSending 1 None (Some ''w'') (Some 10)] [] (Claimed ''k'' 1) [])
     (sample_world E A [sample_delivery DSending 1 None (Some ''w'') (Some 10)] [] (Sending 1 (sample_delivery DSending 1 None (Some ''w'') (Some 10))) [])"
  using cstep.Read [of "sample_world E A [sample_delivery DSending 1 None (Some ''w'') (Some 10)] [] (Claimed ''k'' 1) []" 0 "''k''" 1
      "sample_delivery DSending 1 None (Some ''w'') (Some 10)" Some "\<lambda>x. x" sample_owner 2]
  by (simp add: sample_defs)

definition sample_answer :: sent where
  "sample_answer = Receipt \<lparr>r_channel = ''slack'', r_key = ''k'', r_status = ''sent'', r_external = Some ''x1'', r_error = ''e''\<rparr>"

lemma sample_send:
  "sample_step (sample_world E A D B (Sending 1 (sample_delivery DSending 1 None (Some ''w'') (Some 10))) [])
     (sample_world E A D B (Answered 1 (sample_delivery DSending 1 None (Some ''w'') (Some 10)) sample_answer) [(''k'', 1)])"
  using cstep.Send [of "sample_world E A D B (Sending 1 (sample_delivery DSending 1 None (Some ''w'') (Some 10))) []" 0 1
      "sample_delivery DSending 1 None (Some ''w'') (Some 10)" Some "\<lambda>x. x" sample_owner 2 sample_answer]
  by (simp add: sample_defs)

lemma sample_finish:
  "sample_step (sample_world E A [sample_delivery DSending 1 None (Some ''w'') (Some 10)] []
        (Answered 1 (sample_delivery DSending 1 None (Some ''w'') (Some 10)) sample_answer) L)
     (sample_world E A [sample_delivery DSent 1 (Some ''x1'') None None] [(''k'', ''delivery.sent'')] Idle L)"
  using cstep.Finish [of "sample_world E A [sample_delivery DSending 1 None (Some ''w'') (Some 10)] []
        (Answered 1 (sample_delivery DSending 1 None (Some ''w'') (Some 10)) sample_answer) L" 0 1
      "sample_delivery DSending 1 None (Some ''w'') (Some 10)" sample_answer
      "\<lparr>p_owner = ''w'', p_channel = None, p_instance = None, p_max = 2, p_base = 1000, p_lease = 10\<rparr>" sample_owner 2 Some "\<lambda>x. x" 0]
  by (simp add: finish_delivery_def verdict_def sample_answer_def transition_delivery_with_audit_def ended_def update_where_def sample_defs)

definition sample_end :: world where
  "sample_end = sample_world [sample_event GForwarded 1 None None] [(''k'', ''relay.forwarded'')]
     [sample_delivery DSent 1 (Some ''x1'') None None] [(''k'', ''delivery.sent'')] Idle [(''k'', 1)]"

lemma sample_reach: "creach Some (\<lambda>x. x) sample_owner 2 sample_end"
proof -
  have "empty_world = sample_world [] [] [] [] Idle []" by (simp add: empty_world_def sample_world_def fun_upd_idem)
  then have "creach Some (\<lambda>x. x) sample_owner 2 (sample_world [] [] [] [] Idle [])" using creach.Start [of Some "\<lambda>x. x" sample_owner 2] by simp
  from creach.Step [OF creach.Step [OF creach.Step [OF creach.Step [OF creach.Step [OF creach.Step [OF creach.Step [OF creach.Step
      [OF this sample_append] sample_relay_claim] sample_relay_store] sample_relay_finish] sample_claim] sample_read] sample_send] sample_finish]
  show ?thesis by (simp add: sample_end_def)
qed

lemma sample_row: "look (store sample_end) ''k'' = Some (sample_delivery DSent 1 (Some ''x1'') None None)"
  by (simp add: sample_end_def look_def sample_defs)

theorem books_balance_witness:
  "d_external (sample_delivery DSent 1 (Some ''x1'') None None) \<noteq> None \<and>
   count_list (audits (store sample_end)) (''k'', ''delivery.sent'') = 1"
  using books_balance [OF sample_reach sample_row] by (simp add: sample_delivery_def)

lemma py_strip_slack: "py_strip ''slack'' = ''slack''"
  by code_simp

lemma sample_restart: "csteps Some (\<lambda>x. x) sample_owner 2 sample_end (sample_end\<lparr>store := initialized 7 (store sample_end)\<rparr>)"
proof -
  have "initialize_store 7 (store sample_end) = (Inr (), initialized 7 (store sample_end))"
    unfolding initialize_store_def sample_end_def sample_defs by (simp add: py_strip_slack MAX_ID_LENGTH_def)
  then show ?thesis by (intro r_into_rtranclp cstep.Restart)
qed

theorem sent_is_final_witness:
  "\<exists>r. look (initialized 7 (store sample_end)) ''k'' = Some r \<and> d_state r = DSent \<and> d_external r = Some ''x1'' \<and> d_attempts r = 1"
  using sent_is_final [OF sample_reach sample_row _ sample_restart] by (simp add: sample_delivery_def)

theorem sends_are_bounded_witness:
  "length (filter (\<lambda>l. fst l = ''k'') (sends sample_end)) \<le> 2 \<and> distinct (sends sample_end) \<and> sends sample_end = [(''k'', 1)]"
  using sends_are_bounded [OF sample_reach sample_owner_inj, of "''k''"] by (simp add: sample_end_def sample_world_def)



end
